(* ===== verification/Prelude.thy ===== *)
theory Prelude
  imports Main "HOL-Library.Word" "HOL-Library.Multiset"
begin

text \<open>
  Shared material of the development: the Rust integer types, the saturating arithmetic of the
  standard library, the slice helpers the code uses everywhere (\<open>first\<close>, \<open>contains\<close>,
  \<open>unwrap_or\<close>), and generic lemmas on lists that several components need.
\<close>

unbundle bit_operations_syntax

section \<open>Machine integers\<close>

type_synonym u8 = "8 word"
type_synonym u32 = "32 word"
type_synonym u64 = "64 word"

named_theorems u64_arith \<open>unat values of the u64 operations of the Rust standard library\<close>

text \<open>The largest u64, \<open>u64::MAX\<close>.\<close>

definition u64_max :: nat where
  "u64_max = 2 ^ 64 - 1"

text \<open>\<open>saturating_add\<close>, \<open>saturating_sub\<close>, \<open>saturating_mul\<close> on u64.\<close>

definition sat_add :: "u64 \<Rightarrow> u64 \<Rightarrow> u64" where
  "sat_add a b = of_nat (min u64_max (unat a + unat b))"

definition sat_sub :: "u64 \<Rightarrow> u64 \<Rightarrow> u64" where
  "sat_sub a b = (if a \<le> b then 0 else a - b)"

definition sat_mul :: "u64 \<Rightarrow> u64 \<Rightarrow> u64" where
  "sat_mul a b = of_nat (min u64_max (unat a * unat b))"

lemma unat_le_u64_max [simp]: "unat (a :: u64) \<le> u64_max"
proof -
  have "unat a < 2 ^ LENGTH(64)" by (rule unsigned_less)
  then show ?thesis by (simp add: u64_max_def)
qed

lemma unat_of_nat_u64: "n \<le> u64_max \<Longrightarrow> unat (of_nat n :: u64) = n"
  by (simp add: u64_max_def unat_of_nat)

lemma unat_sat_add [u64_arith]: "unat (sat_add a b) = min u64_max (unat a + unat b)"
  by (simp add: sat_add_def unat_of_nat_u64)

lemma unat_sat_mul [u64_arith]: "unat (sat_mul a b) = min u64_max (unat a * unat b)"
  by (simp add: sat_mul_def unat_of_nat_u64)

lemma unat_sat_sub [u64_arith]: "unat (sat_sub a b) = unat a - unat b"
  by (auto simp: sat_sub_def word_le_nat_alt unat_sub)

section \<open>Slices\<close>

text \<open>\<open>slice.first()\<close> and \<open>option.unwrap_or(..)\<close>.\<close>

definition first_of :: "'a list \<Rightarrow> 'a option" where
  "first_of xs = (case xs of [] \<Rightarrow> None | x # _ \<Rightarrow> Some x)"

lemma first_of_simps [simp]: "first_of [] = None" "first_of (x # xs) = Some x"
  by (simp_all add: first_of_def)

lemma first_of_None [simp]: "first_of xs = None \<longleftrightarrow> xs = []"
  by (cases xs) simp_all

lemma first_of_SomeD: "first_of xs = Some x \<Longrightarrow> x \<in> set xs"
  by (cases xs) simp_all

definition unwrap_or :: "'a \<Rightarrow> 'a option \<Rightarrow> 'a" where
  "unwrap_or d x = (case x of None \<Rightarrow> d | Some y \<Rightarrow> y)"

lemma unwrap_or_simps [simp]: "unwrap_or d None = d" "unwrap_or d (Some y) = y"
  by (simp_all add: unwrap_or_def)

section \<open>Strings and vectors\<close>

text \<open>
  \<open>str::to_lowercase\<close> and \<open>str::trim\<close> on ASCII text: AL identifiers and type names. A string is
  the list of its bytes.
\<close>

definition to_lower_char :: "char \<Rightarrow> char" where
  "to_lower_char c =
     (if 65 \<le> (of_char c :: nat) \<and> (of_char c :: nat) \<le> 90 then char_of ((of_char c :: nat) + 32) else c)"

definition to_lowercase :: "string \<Rightarrow> string" where
  "to_lowercase s = map to_lower_char s"

definition is_space :: "char \<Rightarrow> bool" where
  "is_space c = ((of_char c :: nat) = 32 \<or> (9 \<le> (of_char c :: nat) \<and> (of_char c :: nat) \<le> 13))"

definition trim :: "string \<Rightarrow> string" where
  "trim s = rev (dropWhile is_space (rev (dropWhile is_space s)))"

lemma to_lower_char_idem [simp]: "to_lower_char (to_lower_char c) = to_lower_char c"
  by (auto simp: to_lower_char_def)

lemma to_lowercase_idem [simp]: "to_lowercase (to_lowercase s) = to_lowercase s"
  by (simp add: to_lowercase_def)

text \<open>\<open>if !v.contains(x) { v.push(x) }\<close>, the ordered sets of the code.\<close>

definition push_new :: "'a \<Rightarrow> 'a list \<Rightarrow> 'a list" where
  "push_new x xs = (if x \<in> set xs then xs else xs @ [x])"

lemma set_push_new [simp]: "set (push_new x xs) = insert x (set xs)"
  by (auto simp: push_new_def)

lemma distinct_push_new [simp]: "distinct (push_new x xs) = distinct xs"
  by (auto simp: push_new_def)

text \<open>\<open>slice.join(sep)\<close>.\<close>

fun join_with :: "string \<Rightarrow> string list \<Rightarrow> string" where
  "join_with sep [] = []"
| "join_with sep [x] = x"
| "join_with sep (x # y # zs) = x @ sep @ join_with sep (y # zs)"

lemma size_list_mem: "x \<in> set xs \<Longrightarrow> size x < size_list size xs"
  by (induction xs) auto

text \<open>Removing the element at an index, as a guard leaves the list of the live guards.\<close>

definition remove_at :: "nat \<Rightarrow> 'a list \<Rightarrow> 'a list" where
  "remove_at i xs = take i xs @ drop (Suc i) xs"

lemma mset_remove_at: "i < length xs \<Longrightarrow> mset xs = add_mset (xs ! i) (mset (remove_at i xs))"
  by (subst id_take_nth_drop [of i xs]) (simp_all add: remove_at_def)

lemma sum_list_remove_at:
  "i < length xs \<Longrightarrow> sum_list (map f xs) = f (xs ! i) + sum_list (map f (remove_at i xs) :: nat list)"
  by (subst id_take_nth_drop [of i xs]) (simp_all add: remove_at_def add.assoc)

lemma length_filter_remove_at:
  "i < length xs \<Longrightarrow>
     length (filter P xs) = (if P (xs ! i) then 1 else 0) + length (filter P (remove_at i xs))"
  by (subst id_take_nth_drop [of i xs]) (simp_all add: remove_at_def)

section \<open>Decimal numerals\<close>

text \<open>The decimal text of a natural number, as the formatting macros print it.\<close>

definition digit_char :: "nat \<Rightarrow> char" where
  "digit_char d = char_of (48 + d)"

fun dec_string :: "nat \<Rightarrow> string" where
  "dec_string n = (if n < 10 then [digit_char n] else dec_string (n div 10) @ [digit_char (n mod 10)])"

declare dec_string.simps [simp del]

definition digit_value :: "char \<Rightarrow> nat" where
  "digit_value c = of_char c - 48"

definition dec_value :: "string \<Rightarrow> nat" where
  "dec_value s = foldl (\<lambda>v c. 10 * v + digit_value c) 0 s"

definition is_digit :: "char \<Rightarrow> bool" where
  "is_digit c = (48 \<le> (of_char c :: nat) \<and> (of_char c :: nat) \<le> 57)"

lemma digit_value_char [simp]: "d < 10 \<Longrightarrow> digit_value (digit_char d) = d"
  by (simp add: digit_value_def digit_char_def)

lemma is_digit_char [simp]: "d < 10 \<Longrightarrow> is_digit (digit_char d)"
  by (simp add: is_digit_def digit_char_def)

lemma dec_value_string: "dec_value (dec_string n) = n"
proof (induction n rule: dec_string.induct)
  case (1 n)
  then show ?case
    by (cases "n < 10") (simp_all add: dec_string.simps [of n] dec_value_def)
qed

lemma dec_string_inj [simp]: "dec_string m = dec_string n \<longleftrightarrow> m = n"
  by (metis dec_value_string)

lemma dec_string_digits: "list_all is_digit (dec_string n)"
proof (induction n rule: dec_string.induct)
  case (1 n)
  then show ?case by (cases "n < 10") (simp_all add: dec_string.simps [of n])
qed

lemma dec_string_nonempty [simp]: "dec_string n \<noteq> []"
  by (simp add: dec_string.simps [of n])

text \<open>Sorting by a key and mapping to it commute.\<close>

lemma map_sort_key_comp: "map g (sort_key (\<lambda>x. f (g x)) xs) = sort_key f (map g xs)"
proof (rule properties_for_sort_key [symmetric])
  show "filter (\<lambda>y. f k = f y) (map g (sort_key (\<lambda>x. f (g x)) xs)) = filter (\<lambda>y. f k = f y) (map g xs)" for k
    using sort_key_stable [of "\<lambda>x. f (g x)" "f k" xs] by (simp add: filter_map comp_def eq_commute [of "f k"])
qed (simp_all add: comp_def)

end
