(* ===== verification/Cfn.thy ===== *)
theory Cfn
  imports Prelude
begin

text \<open>
  The control-flow skeleton of a routine body (\<open>src/src/program/body/features.rs\<close>): the node type
  \<open>PCFNNode\<close>, the slice accessors every walker shares, and the set of executions of a body. The
  runs are the specification the analyses of the later theories are proved against: which leaves
  a body can execute, in which order, and how it ends.
\<close>

section \<open>The node type\<close>

record condition_guard =
  cg_identifier :: string
  cg_polarity :: string

datatype path_hint = CondCall bool | HintExit bool | AssertError | MayRun

datatype table_case = TableOn string | Tables "string list"

datatype cfn_node = PCFNNode
  (nd_kind: string)
  (nd_operation_id: "string option")
  (nd_callsite_id: "string option")
  (nd_condition_guard: "condition_guard option")
  (nd_condition_leaves: "cfn_node list option")
  (nd_children: "cfn_node list option")
  (nd_else_children: "cfn_node list option")
  (nd_is_case_else: bool)
  (nd_source_range: "(u32 \<times> u32 \<times> u32 \<times> u32) option")
  (nd_path_hint: "path_hint option")
  (nd_table_case: "table_case option")
  (nd_field_exit_guard: "(string \<times> int) option")
  (nd_table_exit_guard: "(string \<times> string list) option")

text \<open>The walkers' slice accessors: an absent list reads as the empty slice.\<close>

definition children_of :: "cfn_node \<Rightarrow> cfn_node list" where
  "children_of n = unwrap_or [] (nd_children n)"

definition else_children_of :: "cfn_node \<Rightarrow> cfn_node list" where
  "else_children_of n = unwrap_or [] (nd_else_children n)"

definition condition_leaves_of :: "cfn_node \<Rightarrow> cfn_node list" where
  "condition_leaves_of n = unwrap_or [] (nd_condition_leaves n)"

text \<open>
  The synthetic block the walkers wrap a \<open>repeat\<close> body in: the flat children of the
  statement, no condition leaves and no source range of its own.
\<close>

definition synthetic_block :: "cfn_node \<Rightarrow> cfn_node" where
  "synthetic_block n =
     PCFNNode ''block'' None None None None (nd_children n) None False None None None None None"

lemma synthetic_block_simps [simp]:
  "nd_kind (synthetic_block n) = ''block''"
  "children_of (synthetic_block n) = children_of n"
  "else_children_of (synthetic_block n) = []"
  "condition_leaves_of (synthetic_block n) = []"
  "nd_operation_id (synthetic_block n) = None"
  "nd_callsite_id (synthetic_block n) = None"
  by (simp_all add: synthetic_block_def children_of_def else_children_of_def condition_leaves_of_def)

section \<open>Sizes, for the termination of the walkers\<close>

text \<open>The subtrees a walker descends into are smaller than the node.\<close>

definition nodes_size :: "cfn_node list \<Rightarrow> nat" where
  "nodes_size ns = size_list size ns"

lemma nodes_size_simps [simp]:
  "nodes_size [] = 0"
  "nodes_size (n # ns) = Suc (size n + nodes_size ns)"
  by (simp_all add: nodes_size_def)

lemma nodes_size_children: "nodes_size (children_of n) < size n"
  by (cases n) (auto simp: children_of_def unwrap_or_def nodes_size_def split: option.splits)

lemma nodes_size_else: "nodes_size (else_children_of n) < size n"
  by (cases n) (auto simp: else_children_of_def unwrap_or_def nodes_size_def split: option.splits)

lemma nodes_size_leaves: "nodes_size (condition_leaves_of n) < size n"
  by (cases n) (auto simp: condition_leaves_of_def unwrap_or_def nodes_size_def split: option.splits)

lemma size_mem_nodes: "c \<in> set ns \<Longrightarrow> size c < nodes_size ns"
  by (simp add: nodes_size_def size_list_mem)

lemma size_child: "c \<in> set (children_of n) \<Longrightarrow> size c < size n"
  using nodes_size_children [of n] size_mem_nodes [of c "children_of n"] by simp

lemma size_else_child: "c \<in> set (else_children_of n) \<Longrightarrow> size c < size n"
  using nodes_size_else [of n] size_mem_nodes [of c "else_children_of n"] by simp

lemma size_leaf: "c \<in> set (condition_leaves_of n) \<Longrightarrow> size c < size n"
  using nodes_size_leaves [of n] size_mem_nodes [of c "condition_leaves_of n"] by simp

lemma size_first_child: "first_of (children_of n) = Some c \<Longrightarrow> size c < size n"
  by (blast dest: first_of_SomeD size_child)

lemma size_first_else: "first_of (else_children_of n) = Some c \<Longrightarrow> size c < size n"
  by (blast dest: first_of_SomeD size_else_child)

text \<open>The forms the walkers' termination goals take.\<close>

lemma nodes_size_le:
  "nodes_size (children_of n) \<le> size n + k"
  "nodes_size (condition_leaves_of n) \<le> size n + k"
  "nodes_size (else_children_of n) \<le> size n + k"
  using nodes_size_children [of n] nodes_size_leaves [of n] nodes_size_else [of n] by linarith+

lemma Suc_nodes_size_children:
  "Suc (nodes_size (children_of n)) \<noteq> size n \<Longrightarrow> Suc (nodes_size (children_of n)) < size n"
  using nodes_size_children [of n] by linarith

lemmas cfn_sizes = nodes_size_children nodes_size_else nodes_size_leaves nodes_size_le Suc_nodes_size_children
  size_child size_else_child size_leaf size_first_child size_first_else size_mem_nodes

section \<open>Executions of a body\<close>

text \<open>
  How an execution of a statement ends: it falls through, leaves the routine normally
  (\<open>exit\<close>), raises, or jumps to its innermost loop.
\<close>

datatype outcome = Falls | Exits | Errs | Breaks | Conts

definition is_loop_kind :: "string \<Rightarrow> bool" where
  "is_loop_kind k = (k = ''while'' \<or> k = ''for'' \<or> k = ''foreach'' \<or> k = ''repeat'')"

definition leaf_kind :: "string \<Rightarrow> bool" where
  "leaf_kind k = (k = ''op'' \<or> k = ''call'' \<or> k = ''exit'' \<or> k = ''error'')"

definition compound_kind :: "string \<Rightarrow> bool" where
  "compound_kind k = (k = ''block'' \<or> k = ''if'' \<or> k = ''case'' \<or> k = ''case-branch'' \<or>
     is_loop_kind k \<or> k = ''try'' \<or> leaf_kind k \<or> k = ''break'' \<or> k = ''continue'')"

text \<open>
  What is evaluated between two iterations of a pre-tested loop: the condition of a
  \<open>while\<close>; nothing for \<open>for\<close> and \<open>foreach\<close>, whose range is evaluated once.
\<close>

definition recheck :: "cfn_node \<Rightarrow> cfn_node list" where
  "recheck n = (if nd_kind n = ''while'' then condition_leaves_of n else [])"

text \<open>The one branch a walker takes from a child list: its first element, if any.\<close>

definition first_arm :: "cfn_node list \<Rightarrow> cfn_node list" where
  "first_arm ns = (case first_of ns of None \<Rightarrow> [] | Some n \<Rightarrow> [n])"

text \<open>
  \<open>run ok n es o\<close>: one execution of \<open>n\<close> executes the leaves \<open>es\<close>, in order, and ends with
  \<open>o\<close>. Branch choices are free, except that \<open>ok n b\<close> must allow the \<open>if\<close> node \<open>n\<close> to take its
  then-branch (\<open>b\<close>) or its else-branch. A leaf may raise; an alternative of a ternary
  (\<open>MayRun\<close>) may be skipped; \<open>asserterror\<close> swaps an error and a normal end; a \<open>try\<close> may end
  in any non-jumping way, its body is not part of the skeleton.
\<close>

inductive run :: "(cfn_node \<Rightarrow> bool \<Rightarrow> bool) \<Rightarrow> cfn_node \<Rightarrow> cfn_node list \<Rightarrow> outcome \<Rightarrow> bool"
  and run_list :: "(cfn_node \<Rightarrow> bool \<Rightarrow> bool) \<Rightarrow> cfn_node list \<Rightarrow> cfn_node list \<Rightarrow> outcome \<Rightarrow> bool"
  and run_iters :: "(cfn_node \<Rightarrow> bool \<Rightarrow> bool) \<Rightarrow> cfn_node \<Rightarrow> cfn_node list \<Rightarrow> outcome \<Rightarrow> bool"
  for ok :: "cfn_node \<Rightarrow> bool \<Rightarrow> bool"
where
  list_nil: "run_list ok [] [] Falls"
| list_step: "run ok n es Falls \<Longrightarrow> run_list ok ns fs r \<Longrightarrow> run_list ok (n # ns) (es @ fs) r"
| list_stop: "run ok n es r \<Longrightarrow> r \<noteq> Falls \<Longrightarrow> run_list ok (n # ns) es r"
| run_skip: "nd_kind n = ''op'' \<or> nd_kind n = ''call'' \<Longrightarrow> nd_path_hint n = Some MayRun \<Longrightarrow> run ok n [] Falls"
| run_block: "nd_kind n = ''block'' \<Longrightarrow> run_list ok (children_of n) es r \<Longrightarrow> run ok n es r"
| run_branch: "nd_kind n = ''case-branch'' \<Longrightarrow> run_list ok (children_of n) es r \<Longrightarrow> run ok n es r"
| run_try: "nd_kind n = ''try'' \<Longrightarrow> r \<in> {Falls, Exits, Errs} \<Longrightarrow> run ok n [] r"
| run_cond: "nd_kind n \<noteq> ''block'' \<Longrightarrow> nd_kind n \<noteq> ''case-branch'' \<Longrightarrow> nd_kind n \<noteq> ''try'' \<Longrightarrow>
    nd_kind n \<noteq> ''repeat'' \<Longrightarrow>
    run_list ok (condition_leaves_of n) es r \<Longrightarrow> r \<noteq> Falls \<Longrightarrow> run ok n es r"
| run_then: "nd_kind n = ''if'' \<Longrightarrow> run_list ok (condition_leaves_of n) ls Falls \<Longrightarrow> ok n True \<Longrightarrow>
    run_list ok (first_arm (children_of n)) es r \<Longrightarrow> run ok n (ls @ es) r"
| run_else: "nd_kind n = ''if'' \<Longrightarrow> run_list ok (condition_leaves_of n) ls Falls \<Longrightarrow> ok n False \<Longrightarrow>
    run_list ok (first_arm (else_children_of n)) es r \<Longrightarrow> run ok n (ls @ es) r"
| run_case: "nd_kind n = ''case'' \<Longrightarrow> run_list ok (condition_leaves_of n) ls Falls \<Longrightarrow>
    c \<in> set (children_of n) \<Longrightarrow> run ok c es r \<Longrightarrow> run ok n (ls @ es) r"
| run_no_case: "nd_kind n = ''case'' \<Longrightarrow> run_list ok (condition_leaves_of n) ls Falls \<Longrightarrow>
    \<not> list_ex nd_is_case_else (children_of n) \<Longrightarrow> run ok n ls Falls"
| run_loop: "is_loop_kind (nd_kind n) \<Longrightarrow> nd_kind n \<noteq> ''repeat'' \<Longrightarrow>
    run_list ok (condition_leaves_of n) ls Falls \<Longrightarrow> run_iters ok n es r \<Longrightarrow> run ok n (ls @ es) r"
| run_repeat: "nd_kind n = ''repeat'' \<Longrightarrow> run_iters ok n es r \<Longrightarrow> run ok n es r"
| iters_done: "nd_kind n \<noteq> ''repeat'' \<Longrightarrow> run_iters ok n [] Falls"
| iters_next: "nd_kind n \<noteq> ''repeat'' \<Longrightarrow>
    run_list ok (first_arm (children_of n)) es r \<Longrightarrow> r = Falls \<or> r = Conts \<Longrightarrow>
    run_list ok (recheck n) cs Falls \<Longrightarrow> run_iters ok n fs r' \<Longrightarrow> run_iters ok n (es @ cs @ fs) r'"
| iters_recheck: "nd_kind n \<noteq> ''repeat'' \<Longrightarrow>
    run_list ok (first_arm (children_of n)) es r \<Longrightarrow> r = Falls \<or> r = Conts \<Longrightarrow>
    run_list ok (recheck n) cs r' \<Longrightarrow> r' \<noteq> Falls \<Longrightarrow> run_iters ok n (es @ cs) r'"
| iters_break: "nd_kind n \<noteq> ''repeat'' \<Longrightarrow>
    run_list ok (first_arm (children_of n)) es Breaks \<Longrightarrow> run_iters ok n es Falls"
| iters_leave: "nd_kind n \<noteq> ''repeat'' \<Longrightarrow>
    run_list ok (first_arm (children_of n)) es r \<Longrightarrow> r = Exits \<or> r = Errs \<Longrightarrow> run_iters ok n es r"
| rep_done: "nd_kind n = ''repeat'' \<Longrightarrow>
    run_list ok (children_of n) es r \<Longrightarrow> r = Falls \<or> r = Conts \<Longrightarrow>
    run_list ok (condition_leaves_of n) cs r' \<Longrightarrow> run_iters ok n (es @ cs) r'"
| rep_next: "nd_kind n = ''repeat'' \<Longrightarrow>
    run_list ok (children_of n) es r \<Longrightarrow> r = Falls \<or> r = Conts \<Longrightarrow>
    run_list ok (condition_leaves_of n) cs Falls \<Longrightarrow> run_iters ok n fs r' \<Longrightarrow>
    run_iters ok n (es @ cs @ fs) r'"
| rep_break: "nd_kind n = ''repeat'' \<Longrightarrow> run_list ok (children_of n) es Breaks \<Longrightarrow> run_iters ok n es Falls"
| rep_leave: "nd_kind n = ''repeat'' \<Longrightarrow>
    run_list ok (children_of n) es r \<Longrightarrow> r = Exits \<or> r = Errs \<Longrightarrow> run_iters ok n es r"
| run_op: "nd_kind n = ''op'' \<or> nd_kind n = ''call'' \<Longrightarrow> run_list ok (condition_leaves_of n) ls Falls \<Longrightarrow>
    r = Falls \<or> r = Errs \<Longrightarrow> run ok n (ls @ [n]) r"
| run_exit: "nd_kind n = ''exit'' \<Longrightarrow> run_list ok (condition_leaves_of n) ls Falls \<Longrightarrow>
    run ok n (ls @ [n]) Exits"
| run_error: "nd_kind n = ''error'' \<Longrightarrow> run_list ok (condition_leaves_of n) ls Falls \<Longrightarrow>
    run ok n (ls @ [n]) Errs"
| run_break: "nd_kind n = ''break'' \<Longrightarrow> run ok n [] Breaks"
| run_continue: "nd_kind n = ''continue'' \<Longrightarrow> run ok n [] Conts"
| run_other: "\<not> compound_kind (nd_kind n) \<Longrightarrow> run_list ok (condition_leaves_of n) ls Falls \<Longrightarrow>
    nd_path_hint n \<noteq> Some AssertError \<Longrightarrow>
    run_list ok (children_of n) es r \<Longrightarrow> run ok n (ls @ es) r"
| run_asserterror: "\<not> compound_kind (nd_kind n) \<Longrightarrow> run_list ok (condition_leaves_of n) ls Falls \<Longrightarrow>
    nd_path_hint n = Some AssertError \<Longrightarrow>
    run_list ok (children_of n) es r \<Longrightarrow>
    run ok n (ls @ es) (if r = Errs then Falls else if r = Falls then Errs else r)"

text \<open>A run of at most one statement is a run of it, or the empty run.\<close>

lemma run_list_single: "run_list ok [n] es r \<longleftrightarrow> run ok n es r"
proof
  assume "run_list ok [n] es r"
  then show "run ok n es r"
    by (cases rule: run_list.cases) (auto elim: run_list.cases)
next
  assume "run ok n es r"
  then show "run_list ok [n] es r"
    using list_step [of ok n es "[]" "[]" Falls] list_stop [of ok n es r "[]"] list_nil [of ok]
    by (cases "r = Falls") auto
qed

lemma run_first_arm:
  "run_list ok (first_arm ns) es r \<longleftrightarrow>
     (case first_of ns of None \<Rightarrow> es = [] \<and> r = Falls | Some n \<Rightarrow> run ok n es r)"
  by (cases ns) (auto simp: first_arm_def run_list_single intro: list_nil elim: run_list.cases)

lemmas run_intros = run_run_list_run_iters.intros
lemmas run_induct = run_run_list_run_iters.inducts

inductive_simps run_list_Nil [simp]: "run_list ok [] es r"
inductive_cases run_list_ConsE: "run_list ok (n # ns) es r"
inductive_cases run_E: "run ok n es r"
inductive_cases run_iters_E: "run_iters ok n es r"

text \<open>Inversion by kind: what an execution of each statement looks like.\<close>

lemmas kind_defs = compound_kind_def leaf_kind_def is_loop_kind_def

lemma run_block_iff: "nd_kind n = ''block'' \<Longrightarrow> run ok n es r \<longleftrightarrow> run_list ok (children_of n) es r"
  by (auto simp: kind_defs intro: run_block elim: run.cases)

lemma run_branch_iff: "nd_kind n = ''case-branch'' \<Longrightarrow> run ok n es r \<longleftrightarrow> run_list ok (children_of n) es r"
  by (auto simp: kind_defs intro: run_branch elim: run.cases)

lemma run_try_iff: "nd_kind n = ''try'' \<Longrightarrow> run ok n es r \<longleftrightarrow> es = [] \<and> r \<in> {Falls, Exits, Errs}"
  by (auto simp: kind_defs intro: run_try elim: run.cases)

lemma run_jump_iff: "nd_kind n = ''break'' \<Longrightarrow> condition_leaves_of n = [] \<Longrightarrow> run ok n es r \<longleftrightarrow> es = [] \<and> r = Breaks"
  "nd_kind n = ''continue'' \<Longrightarrow> condition_leaves_of n = [] \<Longrightarrow> run ok n es r \<longleftrightarrow> es = [] \<and> r = Conts"
  by (auto simp: kind_defs intro: run_break run_continue elim: run.cases)

lemma run_ifE:
  assumes "run ok n es r" "nd_kind n = ''if''"
  obtains (cond) "run_list ok (condition_leaves_of n) es r" "r \<noteq> Falls"
  | (then_branch) ls fs where "es = ls @ fs" "run_list ok (condition_leaves_of n) ls Falls" "ok n True"
      "run_list ok (first_arm (children_of n)) fs r"
  | (else_branch) ls fs where "es = ls @ fs" "run_list ok (condition_leaves_of n) ls Falls" "ok n False"
      "run_list ok (first_arm (else_children_of n)) fs r"
  using assms by (cases rule: run.cases) (auto simp: kind_defs)

lemma run_caseE:
  assumes "run ok n es r" "nd_kind n = ''case''"
  obtains (cond) "run_list ok (condition_leaves_of n) es r" "r \<noteq> Falls"
  | (branch) ls fs c where "es = ls @ fs" "run_list ok (condition_leaves_of n) ls Falls"
      "c \<in> set (children_of n)" "run ok c fs r"
  | (none) "run_list ok (condition_leaves_of n) es Falls" "r = Falls"
      "\<not> list_ex nd_is_case_else (children_of n)"
  using assms by (cases rule: run.cases) (auto simp: kind_defs)

lemma run_loopE:
  assumes "run ok n es r" "is_loop_kind (nd_kind n)" "nd_kind n \<noteq> ''repeat''"
  obtains (cond) "run_list ok (condition_leaves_of n) es r" "r \<noteq> Falls"
  | (iters) ls fs where "es = ls @ fs" "run_list ok (condition_leaves_of n) ls Falls"
      "run_iters ok n fs r"
  using assms by (cases rule: run.cases) (auto simp: kind_defs)

lemma run_repeat_iff: "nd_kind n = ''repeat'' \<Longrightarrow> run ok n es r \<longleftrightarrow> run_iters ok n es r"
  by (auto simp: kind_defs intro: run_repeat elim: run.cases)

lemma run_leafE:
  assumes "run ok n es r" "leaf_kind (nd_kind n)"
  obtains (skip) "es = []" "r = Falls" "nd_kind n = ''op'' \<or> nd_kind n = ''call''"
      "nd_path_hint n = Some MayRun"
  | (cond) "run_list ok (condition_leaves_of n) es r" "r \<noteq> Falls"
  | (exec) ls where "es = ls @ [n]" "run_list ok (condition_leaves_of n) ls Falls"
      "r = Errs \<or> (nd_kind n = ''exit'' \<and> r = Exits) \<or>
        ((nd_kind n = ''op'' \<or> nd_kind n = ''call'') \<and> r = Falls)"
  using assms by (cases rule: run.cases) (auto simp: kind_defs)

lemma run_otherE:
  assumes "run ok n es r" "\<not> compound_kind (nd_kind n)"
  obtains (cond) "run_list ok (condition_leaves_of n) es r" "r \<noteq> Falls"
  | (plain) ls fs where "es = ls @ fs" "run_list ok (condition_leaves_of n) ls Falls"
      "nd_path_hint n \<noteq> Some AssertError" "run_list ok (children_of n) fs r"
  | (caught) ls fs r' where "es = ls @ fs" "run_list ok (condition_leaves_of n) ls Falls"
      "nd_path_hint n = Some AssertError" "run_list ok (children_of n) fs r'"
      "r = (if r' = Errs then Falls else if r' = Falls then Errs else r')"
  using assms by (cases rule: run.cases) (auto simp: kind_defs)

lemma exit_never_falls: "nd_kind n = ''exit'' \<Longrightarrow> \<not> run ok n es Falls"
  and error_never_falls: "nd_kind n = ''error'' \<Longrightarrow> \<not> run ok n es Falls"
  by (auto simp: kind_defs elim: run.cases)

text \<open>The executions of a body with free branch choices.\<close>

abbreviation free :: "cfn_node \<Rightarrow> bool \<Rightarrow> bool" where
  "free \<equiv> (\<lambda>n b. True)"

section \<open>Leaves in walk order, and the leaves a body can execute\<close>

lemma first_arm_mem: "c \<in> set (first_arm ns) \<Longrightarrow> c \<in> set ns"
  by (cases ns) (simp_all add: first_arm_def)

lemma nodes_size_first_arm: "nodes_size (first_arm ns) \<le> nodes_size ns"
  by (cases ns) (simp_all add: first_arm_def)

lemma nodes_size_first_arm_children: "nodes_size (first_arm (children_of n)) < size n"
  and nodes_size_first_arm_else: "nodes_size (first_arm (else_children_of n)) < size n"
  using nodes_size_first_arm le_less_trans nodes_size_children nodes_size_else by blast+

text \<open>The statements of a loop body: the flat children of a \<open>repeat\<close>, else the single block.\<close>

definition loop_body :: "cfn_node \<Rightarrow> cfn_node list" where
  "loop_body n = (if nd_kind n = ''repeat'' then children_of n else first_arm (children_of n))"

lemma nodes_size_loop_body: "nodes_size (loop_body n) < size n"
  by (simp add: loop_body_def nodes_size_children nodes_size_first_arm_children)

text \<open>
  The leaves of a node in the order the walkers visit them: condition leaves before arms and
  bodies, every arm of an \<open>if\<close>, every child of every branch of a \<open>case\<close>.
\<close>

function leaves :: "cfn_node \<Rightarrow> cfn_node list"
  and leaves_list :: "cfn_node list \<Rightarrow> cfn_node list"
  and branch_leaves :: "cfn_node list \<Rightarrow> cfn_node list"
where
  "leaves n =
     (if nd_kind n = ''block'' \<or> nd_kind n = ''case-branch'' \<or> nd_kind n = ''try'' then leaves_list (children_of n)
      else leaves_list (condition_leaves_of n) @
        (if nd_kind n = ''if'' then
           leaves_list (first_arm (children_of n)) @ leaves_list (first_arm (else_children_of n))
         else if nd_kind n = ''case'' then branch_leaves (children_of n)
         else if is_loop_kind (nd_kind n) then leaves_list (loop_body n)
         else if leaf_kind (nd_kind n) then [n]
         else leaves_list (children_of n)))"
| "leaves_list [] = []"
| "leaves_list (n # ns) = leaves n @ leaves_list ns"
| "branch_leaves [] = []"
| "branch_leaves (b # bs) = leaves_list (children_of b) @ branch_leaves bs"
  by pat_completeness auto
termination
  by (relation "measure (\<lambda>x. case x of Inl n \<Rightarrow> size n | Inr (Inl ns) \<Rightarrow> nodes_size ns | Inr (Inr bs) \<Rightarrow> nodes_size bs)")
     (auto intro: cfn_sizes nodes_size_first_arm_children nodes_size_first_arm_else nodes_size_loop_body
       simp: less_Suc_eq_le)

declare leaves.simps [simp del]

text \<open>
  The shape the lowering of a body gives: the children of a \<open>case\<close> are its branches, jumps carry
  no condition leaves.
\<close>

function well_formed :: "cfn_node \<Rightarrow> bool" where
  "well_formed n =
     (list_all well_formed (children_of n) \<and> list_all well_formed (else_children_of n) \<and>
      list_all well_formed (condition_leaves_of n) \<and>
      (nd_kind n = ''case'' \<longrightarrow> list_all (\<lambda>b. nd_kind b = ''case-branch'') (children_of n)))"
  by pat_completeness auto
termination
  by (relation "measure size") (auto intro: cfn_sizes)

declare well_formed.simps [simp del]

lemma well_formed_parts:
  assumes "well_formed n"
  shows "list_all well_formed (children_of n)" "list_all well_formed (else_children_of n)"
    "list_all well_formed (condition_leaves_of n)" "list_all well_formed (first_arm (children_of n))"
    "list_all well_formed (first_arm (else_children_of n))" "list_all well_formed (loop_body n)"
  using assms by (auto simp: well_formed.simps [of n] loop_body_def list_all_iff dest: first_arm_mem)

text \<open>
  The leaves some execution executes, among the executions whose outcome satisfies \<open>R\<close>. Two
  classes of outcomes matter: all of them, and those that do not raise.
\<close>

definition exec :: "(outcome \<Rightarrow> bool) \<Rightarrow> cfn_node \<Rightarrow> cfn_node set" where
  "exec R n = {l. \<exists>ok es r. run ok n es r \<and> R r \<and> l \<in> set es}"

definition exec_list :: "(outcome \<Rightarrow> bool) \<Rightarrow> cfn_node list \<Rightarrow> cfn_node set" where
  "exec_list R ns = {l. \<exists>ok es r. run_list ok ns es r \<and> R r \<and> l \<in> set es}"

lemma execI: "run ok n es r \<Longrightarrow> R r \<Longrightarrow> l \<in> set es \<Longrightarrow> l \<in> exec R n"
  by (auto simp: exec_def)

lemma exec_listI: "run_list ok ns es r \<Longrightarrow> R r \<Longrightarrow> l \<in> set es \<Longrightarrow> l \<in> exec_list R ns"
  by (auto simp: exec_list_def)

lemma exec_subI: "(\<And>ok es r l. run ok n es r \<Longrightarrow> R r \<Longrightarrow> l \<in> set es \<Longrightarrow> l \<in> X) \<Longrightarrow> exec R n \<subseteq> X"
  by (auto simp: exec_def)

lemma exec_list_subI:
  "(\<And>ok es r l. run_list ok ns es r \<Longrightarrow> R r \<Longrightarrow> l \<in> set es \<Longrightarrow> l \<in> X) \<Longrightarrow> exec_list R ns \<subseteq> X"
  by (auto simp: exec_list_def)

lemma exec_list_Nil [simp]: "exec_list R [] = {}"
  by (simp add: exec_list_def)

lemma exec_list_single [simp]: "exec_list R [n] = exec R n"
  by (simp add: exec_def exec_list_def run_list_single)

lemma exec_empty: "(\<And>ok es r. run ok n es r \<Longrightarrow> \<not> R r) \<Longrightarrow> exec R n = {}"
  by (auto simp: exec_def)

text \<open>After a statement that never falls through, nothing is executed.\<close>

lemma exec_list_stop:
  assumes "\<And>ok es r. run ok n es r \<Longrightarrow> r \<noteq> Falls"
  shows "exec_list R (n # ns) \<subseteq> exec R n"
  by (rule exec_list_subI) (use assms in \<open>fastforce elim!: run_list_ConsE intro: execI\<close>)

lemma exec_block: "nd_kind n = ''block'' \<or> nd_kind n = ''case-branch'' \<Longrightarrow> exec R n \<subseteq> exec_list R (children_of n)"
  by (rule exec_subI) (auto simp: run_block_iff run_branch_iff intro: exec_listI)

lemma exec_try: "nd_kind n = ''try'' \<Longrightarrow> exec R n = {}"
  by (auto simp: exec_def run_try_iff)

text \<open>
  A class of outcomes with every non-raising outcome in it: the parts of an execution of the
  class are executions of the class, except under \<open>asserterror\<close>, which turns an error into a
  normal end.
\<close>

locale outcome_class =
  fixes R :: "outcome \<Rightarrow> bool"
  assumes normal_ok: "r \<noteq> Errs \<Longrightarrow> R r"
begin

lemma Falls_ok [simp]: "R Falls"
  by (rule normal_ok) simp

lemma exec_list_Cons: "exec_list R (n # ns) \<subseteq> exec R n \<union> exec_list R ns"
proof (rule exec_list_subI)
  fix ok es r l assume "run_list ok (n # ns) es r" and l: "R r" "l \<in> set es"
  from this(1) show "l \<in> exec R n \<union> exec_list R ns"
  proof (rule run_list_ConsE)
    fix es1 fs assume *: "es = es1 @ fs" "run ok n es1 Falls" "run_list ok ns fs r"
    show ?thesis using execI [of ok n es1 Falls R l] exec_listI [of ok ns fs r R l] * l by auto
  next
    assume "run ok n es r"
    then show ?thesis using l by (auto intro: execI)
  qed
qed

lemma exec_if:
  assumes "nd_kind n = ''if''"
  shows "exec R n \<subseteq> exec_list R (condition_leaves_of n) \<union> exec_list R (first_arm (children_of n)) \<union>
    exec_list R (first_arm (else_children_of n))"
proof (rule exec_subI)
  fix ok es r l assume "run ok n es r" and l: "R r" "l \<in> set es"
  from this(1) assms show "l \<in> exec_list R (condition_leaves_of n) \<union> exec_list R (first_arm (children_of n)) \<union>
    exec_list R (first_arm (else_children_of n))"
    by (cases rule: run_ifE) (use l in \<open>auto intro: exec_listI\<close>)
qed

lemma exec_case:
  assumes "nd_kind n = ''case''" "list_all (\<lambda>b. nd_kind b = ''case-branch'') (children_of n)"
  shows "exec R n \<subseteq> exec_list R (condition_leaves_of n) \<union> (\<Union>b \<in> set (children_of n). exec_list R (children_of b))"
proof (rule exec_subI)
  fix ok es r l assume "run ok n es r" and l: "R r" "l \<in> set es"
  from this(1) assms(1)
  show "l \<in> exec_list R (condition_leaves_of n) \<union> (\<Union>b \<in> set (children_of n). exec_list R (children_of b))"
  proof (cases rule: run_caseE)
    case (branch ls fs c)
    with assms have "nd_kind c = ''case-branch''" by (auto simp: list_all_iff)
    with branch have "run_list ok (children_of c) fs r" by (simp add: run_branch_iff)
    with branch l show ?thesis by (auto intro: exec_listI)
  qed (use l in \<open>auto intro: exec_listI\<close>)
qed

lemma recheck_exec: "l \<in> exec_list R (recheck n) \<Longrightarrow> l \<in> exec_list R (condition_leaves_of n)"
  by (auto simp: recheck_def split: if_splits)

lemma run_iters_leaves:
  "run_iters ok n es r \<Longrightarrow> R r \<Longrightarrow> set es \<subseteq> exec_list R (loop_body n) \<union> exec_list R (condition_leaves_of n)"
  by (induction n es r rule: run_induct(3) [where ?P1.0 = "\<lambda>_ _ _. True" and ?P2.0 = "\<lambda>_ _ _. True"])
     (auto simp: loop_body_def normal_ok intro: exec_listI dest: recheck_exec [OF exec_listI])

lemma exec_loop:
  assumes "is_loop_kind (nd_kind n)"
  shows "exec R n \<subseteq> exec_list R (condition_leaves_of n) \<union> exec_list R (loop_body n)"
proof (rule exec_subI)
  fix ok es r l assume r: "run ok n es r" "R r" and l: "l \<in> set es"
  show "l \<in> exec_list R (condition_leaves_of n) \<union> exec_list R (loop_body n)"
  proof (cases "nd_kind n = ''repeat''")
    case True
    with r l show ?thesis using run_iters_leaves by (fastforce simp: run_repeat_iff)
  next
    case False
    from r(1) assms False show ?thesis
    proof (cases rule: run_loopE)
      case (iters ls fs)
      with l r(2) show ?thesis using run_iters_leaves [of ok n fs r] by (auto intro: exec_listI)
    qed (use l r(2) in \<open>auto intro: exec_listI\<close>)
  qed
qed

lemma exec_leaf:
  assumes "leaf_kind (nd_kind n)"
  shows "exec R n \<subseteq> exec_list R (condition_leaves_of n) \<union> {n}"
proof (rule exec_subI)
  fix ok es r l assume "run ok n es r" and l: "R r" "l \<in> set es"
  from this(1) assms show "l \<in> exec_list R (condition_leaves_of n) \<union> {n}"
    by (cases rule: run_leafE) (use l in \<open>auto intro: exec_listI\<close>)
qed

text \<open>A \<open>break\<close> or \<open>continue\<close> executes at most its condition leaves.\<close>

lemma exec_jump:
  assumes "nd_kind n = ''break'' \<or> nd_kind n = ''continue''"
  shows "exec R n \<subseteq> exec_list R (condition_leaves_of n)"
proof (rule exec_subI)
  fix ok es r l assume "run ok n es r" "R r" "l \<in> set es"
  then show "l \<in> exec_list R (condition_leaves_of n)"
    using assms by (cases rule: run.cases) (auto simp: kind_defs intro: exec_listI)
qed

lemma exec_other:
  assumes "\<not> compound_kind (nd_kind n)" "nd_path_hint n = Some AssertError \<Longrightarrow> R Errs"
  shows "exec R n \<subseteq> exec_list R (condition_leaves_of n) \<union> exec_list R (children_of n)"
proof (rule exec_subI)
  fix ok es r l assume "run ok n es r" and l: "R r" "l \<in> set es"
  from this(1) assms(1) show "l \<in> exec_list R (condition_leaves_of n) \<union> exec_list R (children_of n)"
  proof (cases rule: run_otherE)
    case (caught ls fs r')
    then have "R r'" using assms(2) normal_ok by (cases "r' = Errs") auto
    with caught l show ?thesis by (auto intro: exec_listI)
  qed (use l in \<open>auto intro: exec_listI\<close>)
qed

lemma exec_wrapper:
  assumes "nd_kind n \<noteq> ''block''" "nd_kind n \<noteq> ''if''" "nd_kind n \<noteq> ''case''" "nd_kind n \<noteq> ''case-branch''"
    "\<not> is_loop_kind (nd_kind n)" "nd_kind n \<noteq> ''try''" "\<not> leaf_kind (nd_kind n)"
    "nd_path_hint n = Some AssertError \<Longrightarrow> R Errs"
  shows "exec R n \<subseteq> exec_list R (condition_leaves_of n) \<union> exec_list R (children_of n)"
proof (cases "nd_kind n = ''break'' \<or> nd_kind n = ''continue''")
  case True
  then show ?thesis using exec_jump by blast
next
  case False
  with assms show ?thesis by (intro exec_other) (simp_all add: compound_kind_def)
qed

end

text \<open>The two classes: every execution, and the executions that do not raise.\<close>

definition any_outcome :: "outcome \<Rightarrow> bool" where
  "any_outcome r = True"

definition not_raising :: "outcome \<Rightarrow> bool" where
  "not_raising r = (r \<noteq> Errs)"

interpretation all_runs: outcome_class any_outcome
  by unfold_locales (simp add: any_outcome_def)

interpretation normal_runs: outcome_class not_raising
  by unfold_locales (simp add: not_raising_def)

section \<open>Bodies without jumps\<close>

text \<open>
  \<open>exit_free n\<close>: nothing in \<open>n\<close> can leave the routine normally or jump. Such a node falls
  through or raises.
\<close>

function exit_free :: "cfn_node \<Rightarrow> bool" where
  "exit_free n =
     (nd_kind n \<notin> {''exit'', ''break'', ''continue'', ''try''} \<and>
      list_all exit_free (children_of n) \<and> list_all exit_free (else_children_of n) \<and>
      list_all exit_free (condition_leaves_of n))"
  by pat_completeness auto
termination
  by (relation "measure size") (auto intro: cfn_sizes)

declare exit_free.simps [simp del]

lemma exit_free_parts:
  assumes "exit_free n"
  shows "nd_kind n \<notin> {''exit'', ''break'', ''continue'', ''try''}"
    "list_all exit_free (children_of n)" "list_all exit_free (condition_leaves_of n)"
    "list_all exit_free (first_arm (children_of n))" "list_all exit_free (first_arm (else_children_of n))"
    "list_all exit_free (recheck n)"
  using assms by (auto simp: exit_free.simps [of n] recheck_def list_all_iff dest: first_arm_mem)

lemma exit_free_child: "exit_free n \<Longrightarrow> c \<in> set (children_of n) \<Longrightarrow> exit_free c"
  using exit_free_parts(2) by (auto simp: list_all_iff)

lemma exit_free_runs:
  "run ok n es r \<Longrightarrow> exit_free n \<Longrightarrow> r = Falls \<or> r = Errs"
  "run_list ok ns es r \<Longrightarrow> list_all exit_free ns \<Longrightarrow> r = Falls \<or> r = Errs"
  "run_iters ok n es r \<Longrightarrow> exit_free n \<Longrightarrow> r = Falls \<or> r = Errs"
  by (induction n es r and ns es r and n es r rule: run_induct)
     (auto simp: exit_free_parts dest: exit_free_child exit_free_parts(1) split: if_splits)

section \<open>Small skeletons\<close>

text \<open>A node from its kind, call-site id, condition leaves, children and else-children.\<close>

definition node_of :: "string \<Rightarrow> string option \<Rightarrow> cfn_node list \<Rightarrow> cfn_node list \<Rightarrow> cfn_node list \<Rightarrow> cfn_node" where
  "node_of k i conds cs es = PCFNNode k None i None (Some conds) (Some cs) (Some es) False None None None None None"

lemma node_of_simps [simp]:
  "nd_kind (node_of k i conds cs es) = k"
  "nd_operation_id (node_of k i conds cs es) = None"
  "nd_callsite_id (node_of k i conds cs es) = i"
  "nd_condition_guard (node_of k i conds cs es) = None"
  "nd_path_hint (node_of k i conds cs es) = None"
  "nd_is_case_else (node_of k i conds cs es) = False"
  "condition_leaves_of (node_of k i conds cs es) = conds"
  "children_of (node_of k i conds cs es) = cs"
  "else_children_of (node_of k i conds cs es) = es"
  by (simp_all add: node_of_def condition_leaves_of_def children_of_def else_children_of_def)

abbreviation call_node :: "string \<Rightarrow> cfn_node" where
  "call_node i \<equiv> node_of ''call'' (Some i) [] [] []"

abbreviation block_node :: "cfn_node list \<Rightarrow> cfn_node" where
  "block_node cs \<equiv> node_of ''block'' None [] cs []"

lemma run_call_node: "run ok (call_node i) [call_node i] Falls"
  using run_op [of "call_node i" ok "[]" Falls] by (simp add: list_nil)

end
