(* ===== verification/Control_Flow.thy ===== *)
theory Control_Flow
  imports Cfn
begin

text \<open>
  Branch termination (\<open>src/src/program/body/control_flow.rs\<close>): whether a branch body always
  leaves the routine, and how. The functions are shared by the control-context and the
  operation-order walkers. Proved against the executions of \<open>Cfn\<close>: a branch reported as
  terminating has no execution that falls through.
\<close>

datatype Termination = TExit | TError | TFallthrough

definition terminates :: "Termination \<Rightarrow> bool" where
  "terminates t = (t = TExit \<or> t = TError)"

definition join_termination :: "Termination \<Rightarrow> Termination \<Rightarrow> Termination" where
  "join_termination a b = (if a = TExit \<or> b = TExit then TExit else TError)"

definition has_explicit_else :: "cfn_node \<Rightarrow> bool" where
  "has_explicit_else n = (else_children_of n \<noteq> [])"

text \<open>
  \<open>branch_scan\<close> is the loop of \<open>branch_termination\<close> over the statements of a block: the first
  one that always terminates decides.
\<close>

function branch_termination :: "cfn_node \<Rightarrow> Termination"
  and branch_scan :: "cfn_node list \<Rightarrow> Termination"
  and statement_termination :: "cfn_node \<Rightarrow> Termination"
where
  "branch_termination n =
     (if nd_kind n = ''block'' then branch_scan (children_of n) else statement_termination n)"
| "branch_scan [] = TFallthrough"
| "branch_scan (s # ss) =
     (let t = statement_termination s in if terminates t then t else branch_scan ss)"
| "statement_termination n =
     (if nd_kind n = ''exit'' then TExit
      else if nd_kind n = ''error'' then TError
      else if nd_kind n = ''block'' then branch_termination n
      else if nd_kind n = ''if'' then
        (if \<not> has_explicit_else n then TFallthrough
         else case first_of (children_of n) of
             None \<Rightarrow> TFallthrough
           | Some then_body \<Rightarrow>
               (case first_of (else_children_of n) of
                  None \<Rightarrow> TFallthrough
                | Some else_body \<Rightarrow>
                    (let then_t = branch_termination then_body; else_t = branch_termination else_body
                     in if terminates then_t \<and> terminates else_t then join_termination then_t else_t
                        else TFallthrough)))
      else TFallthrough)"
  by pat_completeness auto
termination
  by (relation "measures [\<lambda>x. case x of Inl n \<Rightarrow> size n | Inr (Inl ns) \<Rightarrow> nodes_size ns | Inr (Inr n) \<Rightarrow> size n,
        \<lambda>x. case x of Inl n \<Rightarrow> (if nd_kind n = ''block'' then 0 else 2) | Inr (Inl ns) \<Rightarrow> 0 | Inr (Inr n) \<Rightarrow> 1]")
     (auto intro: cfn_sizes simp: nodes_size_children)

declare branch_termination.simps [simp del] statement_termination.simps [simp del]

definition else_termination :: "cfn_node \<Rightarrow> Termination" where
  "else_termination n =
     (case first_of (else_children_of n) of Some b \<Rightarrow> branch_termination b | None \<Rightarrow> TFallthrough)"

text \<open>The termination of the first child, the shape every caller computes for an arm.\<close>

definition arm_termination :: "cfn_node \<Rightarrow> Termination" where
  "arm_termination n =
     (case first_of (children_of n) of Some b \<Rightarrow> branch_termination b | None \<Rightarrow> TFallthrough)"

lemma terminates_iff: "terminates t \<longleftrightarrow> t \<noteq> TFallthrough"
  by (cases t) (simp_all add: terminates_def)

lemma join_termination_not_Fallthrough [simp]: "join_termination a b \<noteq> TFallthrough"
  by (simp add: join_termination_def)

section \<open>A terminating branch never falls through\<close>

lemma statement_termination_leaf [simp]:
  "nd_kind n = ''op'' \<or> nd_kind n = ''call'' \<Longrightarrow> statement_termination n = TFallthrough"
  by (auto simp: statement_termination.simps [of n])

lemma termination_no_fall:
  "branch_termination n \<noteq> TFallthrough \<Longrightarrow> run ok n es r \<Longrightarrow> r \<noteq> Falls"
  "branch_scan ns \<noteq> TFallthrough \<Longrightarrow> run_list ok ns es r \<Longrightarrow> r \<noteq> Falls"
  "statement_termination n \<noteq> TFallthrough \<Longrightarrow> run ok n es r \<Longrightarrow> r \<noteq> Falls"
proof (induction n and ns and n arbitrary: es r and es r and es r
    rule: branch_termination_branch_scan_statement_termination.induct)
  case (1 n)
  then show ?case
    by (cases "nd_kind n = ''block''") (simp_all add: branch_termination.simps [of n] run_block_iff)
next
  case 2
  then show ?case by simp
next
  case (3 s ss)
  from "3.prems"(2) show ?case
    by (rule run_list_ConsE) (use 3 in \<open>auto simp: terminates_iff Let_def split: if_splits\<close>)
next
  case (4 n)
  consider "nd_kind n = ''exit'' \<or> nd_kind n = ''error''" | "nd_kind n = ''block''" | "nd_kind n = ''if''"
    using "4.prems"(1) by (auto simp: statement_termination.simps [of n] split: if_splits)
  then show ?case
  proof cases
    case 1
    with "4.prems"(2) show ?thesis using exit_never_falls error_never_falls by auto
  next
    case 2
    with 4 show ?thesis by (auto simp: statement_termination.simps [of n])
  next
    case 3
    with "4.prems"(1) obtain t e where te: "first_of (children_of n) = Some t"
      "first_of (else_children_of n) = Some e" "branch_termination t \<noteq> TFallthrough"
      "branch_termination e \<noteq> TFallthrough" "has_explicit_else n"
      by (auto simp: statement_termination.simps [of n] Let_def terminates_iff
          split: if_splits option.splits)
    have k: "nd_kind n \<noteq> ''exit''" "nd_kind n \<noteq> ''error''" "nd_kind n \<noteq> ''block''" "\<not> \<not> has_explicit_else n"
      using 3 te(5) by simp_all
    have then_run: "r \<noteq> Falls" if "run ok t es r" for es r
      by (rule "4.IH"(2) [OF k(1-3) 3 k(4) te(1,2) te(3) that])
    have else_run: "r \<noteq> Falls" if "run ok e es r" for es r
      by (rule "4.IH"(3) [OF k(1-3) 3 k(4) te(1,2) refl te(4) that])
    show ?thesis
      by (rule run_ifE [OF "4.prems"(2) 3]) (use te then_run else_run in \<open>simp_all add: run_first_arm\<close>)
  qed
qed

text \<open>
  Property C12. Soundness of the termination primitive: a branch reported as always terminating has
  no execution that runs off its end, whatever the choices of its conditions.
\<close>

theorem terminating_branch_never_falls:
  assumes "branch_termination n \<noteq> TFallthrough" "run ok n es r"
  shows "r \<noteq> Falls"
  by (rule termination_no_fall(1) [OF assms])

theorem terminating_branch_never_falls_witness: "Exits \<noteq> Falls"
proof (rule terminating_branch_never_falls)
  let ?x = "node_of ''exit'' None [] [] []"
  show "branch_termination (block_node [?x]) \<noteq> TFallthrough"
    by (simp add: branch_termination.simps statement_termination.simps terminates_def)
  have "run free ?x ([] @ [?x]) Exits" by (intro run_exit) simp_all
  then show "run free (block_node [?x]) [?x] Exits" by (simp add: run_block_iff run_list_single)
qed

end
