(* ===== verification/Features.thy ===== *)
theory Features
  imports Cfn
begin

text \<open>
  The per-routine feature records (\<open>src/src/program/body/features.rs\<close>), with the fields the
  control-context and operation-order passes read and write, the record types of the
  operation-order index, and the pass that gives an \<open>error-call\<close> operation the fact of the call
  site at the same source position.
\<close>

record anchor =
  source_unit_id :: string
  start_line :: u32
  start_column :: u32
  end_line :: u32
  end_column :: u32
  syntax_kind :: string

text \<open>Inclusive containment of a position; the file is the caller's business.\<close>

definition at_or_before :: "u32 \<Rightarrow> u32 \<Rightarrow> u32 \<Rightarrow> u32 \<Rightarrow> bool" where
  "at_or_before l c l' c' = (l < l' \<or> l = l' \<and> c \<le> c')"

definition anchor_contains :: "anchor \<Rightarrow> u32 \<Rightarrow> u32 \<Rightarrow> bool" where
  "anchor_contains a l c = (at_or_before (start_line a) (start_column a) l c \<and> at_or_before l c (end_line a) (end_column a))"

record operation_order =
  order_id :: u32
  frame_id :: int
  on_success_path :: bool
  dominates_success_return :: bool

record scope_frame =
  sf_frame_id :: int
  sf_parent_frame_id :: int
  sf_kind :: string
  sf_branch_always_terminates :: "bool option"
  sf_branch_may_fall_through :: "bool option"
  sf_branch_terminates_by :: "string option"

record call_site =
  cs_id :: string
  cs_argument_texts :: "string list"
  cs_source_anchor :: anchor
  cs_control_context :: "string option"
  cs_order :: "operation_order option"

record operation_site =
  os_id :: string
  os_kind :: string
  os_source_anchor :: anchor
  os_control_context :: "string option"
  os_order :: "operation_order option"

record variable_symbol =
  vs_name :: string
  vs_declared_type :: string
  vs_scope :: string

record features =
  ft_operation_sites :: "operation_site list"
  ft_call_sites :: "call_site list"
  ft_variables :: "variable_symbol list"
  ft_statement_tree :: "cfn_node option"
  ft_scope_frames :: "scope_frame list"

record parameter_symbol =
  ps_name :: string
  ps_type_text :: string
  ps_is_var :: bool

section \<open>The error-call pass\<close>

text \<open>
  An \<open>error-call\<close> operation has no leaf of its own: its skeleton leaf carries the paired call
  site. The pass gives it what the walk recorded for the first call site that starts where it
  starts.
\<close>

definition paired_site :: "call_site list \<Rightarrow> operation_site \<Rightarrow> call_site option" where
  "paired_site css op =
     List.find (\<lambda>cs. start_line (cs_source_anchor cs) = start_line (os_source_anchor op) \<and>
       start_column (cs_source_anchor cs) = start_column (os_source_anchor op)) css"

definition inherit_step ::
  "call_site list \<Rightarrow> (string \<rightharpoonup> 'c) \<Rightarrow> operation_site \<Rightarrow> (string \<rightharpoonup> 'c) \<Rightarrow> (string \<rightharpoonup> 'c)" where
  "inherit_step css by_cs op by_op =
     (if os_kind op = ''error-call'' \<and> by_op (os_id op) = None then
        (case paired_site css op of
           None \<Rightarrow> by_op
         | Some cs \<Rightarrow> (case by_cs (cs_id cs) of None \<Rightarrow> by_op | Some c \<Rightarrow> by_op(os_id op \<mapsto> c)))
      else by_op)"

definition inherit_error_calls ::
  "call_site list \<Rightarrow> operation_site list \<Rightarrow> (string \<rightharpoonup> 'c) \<Rightarrow> (string \<rightharpoonup> 'c) \<Rightarrow> (string \<rightharpoonup> 'c)" where
  "inherit_error_calls css ops by_cs by_op = fold (inherit_step css by_cs) ops by_op"

lemma inherit_step_keeps: "by_op i = Some c \<Longrightarrow> inherit_step css by_cs op by_op i = Some c"
  by (auto simp: inherit_step_def split: option.splits)

lemma inherit_keeps: "by_op i = Some c \<Longrightarrow> inherit_error_calls css ops by_cs by_op i = Some c"
  unfolding inherit_error_calls_def
  by (induction ops arbitrary: by_op) (simp_all add: inherit_step_keeps)

text \<open>What an operation without an entry of its own ends up with comes from a paired call site.\<close>

lemma inherit_from_pair:
  assumes "by_op i = None" "inherit_error_calls css ops by_cs by_op i = Some c"
  shows "\<exists>op cs. op \<in> set ops \<and> os_id op = i \<and> os_kind op = ''error-call'' \<and>
    paired_site css op = Some cs \<and> by_cs (cs_id cs) = Some c"
  using assms unfolding inherit_error_calls_def
proof (induction ops arbitrary: by_op)
  case (Cons op ops)
  show ?case
  proof (cases "inherit_step css by_cs op by_op i")
    case None
    have "\<exists>opa cs. opa \<in> set ops \<and> os_id opa = i \<and> os_kind opa = ''error-call'' \<and>
      paired_site css opa = Some cs \<and> by_cs (cs_id cs) = Some c"
      by (rule Cons.IH [of "inherit_step css by_cs op by_op", OF None]) (use Cons.prems(2) in simp)
    then show ?thesis by auto
  next
    case (Some d)
    then have "fold (inherit_step css by_cs) ops (inherit_step css by_cs op by_op) i = Some d"
      using inherit_keeps [of _ i d css ops by_cs] by (simp add: inherit_error_calls_def)
    with Cons.prems(2) have "d = c" by simp
    with Some Cons.prems(1) show ?thesis
      by (auto simp: inherit_step_def split: if_splits option.splits)
  qed
qed simp

lemma inherit_done:
  assumes "op \<in> set ops" "os_kind op = ''error-call''" "paired_site css op = Some cs"
    "by_cs (cs_id cs) = Some c"
  shows "inherit_error_calls css ops by_cs by_op (os_id op) \<noteq> None"
  using assms
proof (induction ops arbitrary: by_op)
  case (Cons o2 ops)
  show ?case
  proof (cases "op \<in> set ops")
    case True
    with Cons show ?thesis by (simp add: inherit_error_calls_def)
  next
    case False
    with Cons.prems have "inherit_step css by_cs o2 by_op (os_id op) \<noteq> None"
      by (auto simp: inherit_step_def)
    then obtain d where "inherit_step css by_cs o2 by_op (os_id op) = Some d" by auto
    then show ?thesis
      using inherit_keeps [of _ "os_id op" d css ops by_cs] by (simp add: inherit_error_calls_def)
  qed
qed simp

section \<open>Maps keyed by site ids\<close>

text \<open>\<open>HashMap::insert\<close> under an optional key.\<close>

definition insert_opt :: "string option \<Rightarrow> 'c \<Rightarrow> (string \<rightharpoonup> 'c) \<Rightarrow> (string \<rightharpoonup> 'c)" where
  "insert_opt k c m = (case k of None \<Rightarrow> m | Some i \<Rightarrow> m(i \<mapsto> c))"

text \<open>The sites of a leaf list under one of the two id fields.\<close>

definition site_ids :: "(cfn_node \<Rightarrow> string option) \<Rightarrow> cfn_node list \<Rightarrow> string list" where
  "site_ids key ls = List.map_filter key ls"

lemma site_ids_simps [simp]:
  "site_ids key [] = []"
  "site_ids key (l # ls) = (case key l of None \<Rightarrow> site_ids key ls | Some i \<Rightarrow> i # site_ids key ls)"
  by (simp_all add: site_ids_def split: option.splits)

lemma set_site_ids: "set (site_ids key ls) = {i. \<exists>l\<in>set ls. key l = Some i}"
  by (induction ls) (auto split: option.splits)

definition insert_all :: "(cfn_node \<Rightarrow> string option) \<Rightarrow> (cfn_node \<times> 'c) list \<Rightarrow> (string \<rightharpoonup> 'c) \<Rightarrow> (string \<rightharpoonup> 'c)" where
  "insert_all key tr m = fold (\<lambda>(l, c) m. insert_opt (key l) c m) tr m"

lemma insert_all_simps [simp]:
  "insert_all key [] m = m"
  "insert_all key (p # tr) m = insert_all key tr (insert_opt (key (fst p)) (snd p) m)"
  by (simp_all add: insert_all_def case_prod_beta)

lemma insert_all_other: "i \<notin> set (site_ids key (map fst tr)) \<Longrightarrow> insert_all key tr m i = m i"
  by (induction tr arbitrary: m) (auto simp: insert_opt_def split: option.splits)

lemma insert_all_lookup:
  "distinct (site_ids key (map fst tr)) \<Longrightarrow> (l, c) \<in> set tr \<Longrightarrow> key l = Some i \<Longrightarrow> insert_all key tr m i = Some c"
proof (induction tr arbitrary: m)
  case (Cons p tr)
  obtain k d where p: "p = (k, d)" by fastforce
  show ?case
  proof (cases "(l, c) \<in> set tr")
    case True
    with Cons p show ?thesis by (auto split: option.splits)
  next
    case False
    with Cons.prems p show ?thesis by (auto simp: insert_opt_def insert_all_other)
  qed
qed simp

lemma insert_all_from:
  "insert_all key tr m i = Some c \<Longrightarrow> m i = Some c \<or> (\<exists>l. (l, c) \<in> set tr \<and> key l = Some i)"
  by (induction tr arbitrary: m) (fastforce simp: insert_opt_def split: option.splits if_splits)+

lemma insert_all_dom: "dom (insert_all key tr m) = dom m \<union> set (site_ids key (map fst tr))"
  by (induction tr arbitrary: m) (simp_all add: insert_opt_def split: option.split)

end
