(* ===== verification/Control_Context.thy ===== *)
theory Control_Context
  imports Control_Flow Features
begin

text \<open>
  The control-context lattice and its walker (\<open>src/src/program/body/control_context.rs\<close>): every
  call site and operation of a body gets the most restrictive control context it sits in. The
  walker threads its result maps through the skeleton in execution order; a continuation context
  is narrowed after a branch that always leaves the routine.
\<close>

section \<open>The lattice\<close>

datatype control_context =
  TopLevel | Conditional | LoopBody | IsHandledGuarded | ErrorPath | Unreachable

fun ctx_rank :: "control_context \<Rightarrow> nat" where
  "ctx_rank TopLevel = 0"
| "ctx_rank Conditional = 1"
| "ctx_rank LoopBody = 2"
| "ctx_rank IsHandledGuarded = 3"
| "ctx_rank ErrorPath = 4"
| "ctx_rank Unreachable = 5"

fun ctx_as_str :: "control_context \<Rightarrow> string" where
  "ctx_as_str TopLevel = ''top-level''"
| "ctx_as_str Conditional = ''conditional''"
| "ctx_as_str LoopBody = ''loop-body''"
| "ctx_as_str IsHandledGuarded = ''is-handled-guarded''"
| "ctx_as_str ErrorPath = ''error-path''"
| "ctx_as_str Unreachable = ''unreachable''"

definition max_ctx :: "control_context \<Rightarrow> control_context \<Rightarrow> control_context" where
  "max_ctx a b = (if ctx_rank a \<ge> ctx_rank b then a else b)"

lemma ctx_rank_inj [simp]: "ctx_rank a = ctx_rank b \<longleftrightarrow> a = b"
  by (cases a; cases b) simp_all

lemma ctx_rank_bound: "ctx_rank c \<le> 5"
  by (cases c) simp_all

lemma ctx_as_str_inj: "ctx_as_str a = ctx_as_str b \<Longrightarrow> a = b"
  by (cases a; cases b) simp_all

instantiation control_context :: linorder
begin

definition less_eq_control_context :: "control_context \<Rightarrow> control_context \<Rightarrow> bool" where
  "less_eq_control_context a b = (ctx_rank a \<le> ctx_rank b)"

definition less_control_context :: "control_context \<Rightarrow> control_context \<Rightarrow> bool" where
  "less_control_context a b = (ctx_rank a < ctx_rank b)"

instance
  by standard (auto simp: less_eq_control_context_def less_control_context_def)

end

lemmas ctx_order = less_eq_control_context_def less_control_context_def

text \<open>\<open>max_ctx\<close> is the maximum of the order of the ranks.\<close>

lemma max_ctx_max: "max_ctx a b = max a b"
  by (auto simp: max_ctx_def max_def ctx_order)

section \<open>Guard eligibility\<close>

record guard_eligibility =
  by_var_bool_params :: "string list"
  published_bool_vars :: "string list"

definition is_eligible :: "guard_eligibility \<Rightarrow> string \<Rightarrow> bool" where
  "is_eligible g ident =
     (list_ex (\<lambda>n. n = ident) (by_var_bool_params g) \<or> list_ex (\<lambda>n. n = ident) (published_bool_vars g))"

definition build_guard_eligibility :: "parameter_symbol list \<Rightarrow> string list \<Rightarrow> guard_eligibility" where
  "build_guard_eligibility ps vars =
     \<lparr> by_var_bool_params =
         fold (\<lambda>p acc. if ps_is_var p \<and> to_lowercase (trim (ps_type_text p)) = ''boolean''
                       then push_new (to_lowercase (ps_name p)) acc else acc) ps [],
       published_bool_vars = fold (\<lambda>v acc. push_new (to_lowercase v) acc) vars [] \<rparr>"

section \<open>The walker\<close>

record walk_result =
  by_callsite :: "string \<rightharpoonup> control_context"
  by_operation :: "string \<rightharpoonup> control_context"
  guard :: guard_eligibility

definition assign_leaf :: "cfn_node \<Rightarrow> control_context \<Rightarrow> walk_result \<Rightarrow> walk_result" where
  "assign_leaf n c res =
     res \<lparr> by_operation := insert_opt (nd_operation_id n) c (by_operation res),
           by_callsite := insert_opt (nd_callsite_id n) c (by_callsite res) \<rparr>"

text \<open>The recognised \<open>IsHandled\<close> polarity of an \<open>if\<close>.\<close>

definition recognised :: "guard_eligibility \<Rightarrow> cfn_node \<Rightarrow> string option" where
  "recognised g n = (case nd_condition_guard n of None \<Rightarrow> None
     | Some cg \<Rightarrow> if is_eligible g (cg_identifier cg) then Some (cg_polarity cg) else None)"

text \<open>The context of the two arms of an \<open>if\<close>, and of what follows it.\<close>

definition then_body_ctx :: "guard_eligibility \<Rightarrow> cfn_node \<Rightarrow> control_context \<Rightarrow> control_context" where
  "then_body_ctx g n ambient =
     (if arm_termination n = TError then ErrorPath
      else if recognised g n = Some ''negative'' then max_ctx ambient IsHandledGuarded
      else max_ctx ambient Conditional)"

definition else_body_ctx :: "cfn_node \<Rightarrow> control_context \<Rightarrow> control_context" where
  "else_body_ctx n ambient =
     (if else_termination n = TError then ErrorPath else max_ctx ambient Conditional)"

definition if_continuation :: "guard_eligibility \<Rightarrow> cfn_node \<Rightarrow> control_context \<Rightarrow> control_context option" where
  "if_continuation g n ambient =
     (let then_falls = (arm_termination n = TFallthrough);
          else_falls = (else_termination n = TFallthrough);
          fallthrough_count = (if then_falls then 1 else 0) + (if else_falls then 1 else (0 :: nat))
      in if fallthrough_count = 0 then None
         else if fallthrough_count = 1 then
           (if recognised g n = Some ''positive'' then Some (max_ctx ambient IsHandledGuarded)
            else Some (max_ctx ambient Conditional))
         else Some ambient)"

text \<open>
  The mutually recursive walkers. \<open>walk_stmts\<close> is the loop of \<open>walk_block\<close> with its two local
  variables, \<open>walk_branches\<close> the loop of \<open>walk_case_node\<close>, \<open>collect_nodes\<close> the loops that
  collect every node of a slice; \<open>apply_condition_leaves\<close> is such a loop over the condition leaves.
\<close>

function (sequential)
      walk_block :: "cfn_node \<Rightarrow> control_context \<Rightarrow> walk_result \<Rightarrow> control_context \<times> walk_result"
  and walk_stmts :: "cfn_node list \<Rightarrow> control_context \<Rightarrow> bool \<Rightarrow> walk_result \<Rightarrow> control_context \<times> walk_result"
  and walk_if_node :: "cfn_node \<Rightarrow> control_context \<Rightarrow> walk_result \<Rightarrow> control_context option \<times> walk_result"
  and walk_case_node :: "cfn_node \<Rightarrow> control_context \<Rightarrow> walk_result \<Rightarrow> control_context \<times> walk_result"
  and walk_branches :: "cfn_node list \<Rightarrow> control_context \<Rightarrow> bool \<Rightarrow> walk_result \<Rightarrow> bool \<times> walk_result"
  and walk_loop_node :: "cfn_node \<Rightarrow> control_context \<Rightarrow> walk_result \<Rightarrow> walk_result"
  and collect_node :: "cfn_node \<Rightarrow> control_context \<Rightarrow> walk_result \<Rightarrow> walk_result"
  and collect_nodes :: "cfn_node list \<Rightarrow> control_context \<Rightarrow> walk_result \<Rightarrow> walk_result"
where
  "walk_block n ambient res =
     walk_stmts (if nd_kind n = ''block'' then children_of n else [n]) ambient True res"
| "walk_stmts [] cont reachable res = (cont, res)"
| "walk_stmts (s # ss) cont reachable res =
     (if \<not> reachable then walk_stmts ss cont reachable (collect_node s Unreachable res)
      else if nd_kind s = ''error'' \<or> nd_kind s = ''exit'' then
        walk_stmts ss cont False (assign_leaf s cont (collect_nodes (condition_leaves_of s) cont res))
      else if nd_kind s = ''if'' then
        (case walk_if_node s cont res of
           (Some ctx, res') \<Rightarrow> walk_stmts ss ctx reachable res'
         | (None, res') \<Rightarrow> walk_stmts ss cont False res')
      else if nd_kind s = ''case'' then
        (case walk_case_node s cont res of (ctx, res') \<Rightarrow> walk_stmts ss ctx reachable res')
      else if is_loop_kind (nd_kind s) then walk_stmts ss cont reachable (walk_loop_node s cont res)
      else walk_stmts ss cont reachable (collect_node s cont res))"
| "walk_if_node n ambient res =
     (let res1 = collect_nodes (condition_leaves_of n) ambient res;
          then_body = first_of (children_of n);
          else_body = first_of (else_children_of n)
      in if \<not> has_explicit_else n \<and> arm_termination n = TError then
           (Some ambient, case then_body of None \<Rightarrow> res1 | Some b \<Rightarrow> collect_node b ErrorPath res1)
         else
           let res2 = (case then_body of None \<Rightarrow> res1
                 | Some b \<Rightarrow> collect_node b (then_body_ctx (guard res) n ambient) res1);
               res3 = (case else_body of None \<Rightarrow> res2
                 | Some b \<Rightarrow> collect_node b (else_body_ctx n ambient) res2)
           in (if_continuation (guard res) n ambient, res3))"
| "walk_case_node n ambient res =
     (let res1 = collect_nodes (condition_leaves_of n) ambient res;
          branch_ctx = max_ctx ambient Conditional
      in case walk_branches (children_of n) branch_ctx False res1 of
           (any_terminates, res2) \<Rightarrow>
             (if any_terminates then max_ctx ambient Conditional else ambient, res2))"
| "walk_branches [] branch_ctx any_terminates res = (any_terminates, res)"
| "walk_branches (b # bs) branch_ctx any_terminates res =
     (let term = arm_termination b;
          arm_ctx = (if term = TError then ErrorPath else branch_ctx)
      in walk_branches bs branch_ctx (any_terminates \<or> term \<noteq> TFallthrough)
           (collect_nodes (children_of b) arm_ctx res))"
| "walk_loop_node n ambient res =
     (let res1 = collect_nodes (condition_leaves_of n) ambient res;
          body_ctx = max_ctx ambient LoopBody
      in if nd_kind n = ''repeat'' then snd (walk_block (synthetic_block n) body_ctx res1)
         else case first_of (children_of n) of None \<Rightarrow> res1 | Some b \<Rightarrow> collect_node b body_ctx res1)"
| "collect_node n ctx res =
     (if nd_kind n = ''block'' then snd (walk_block n ctx res)
      else if nd_kind n = ''if'' then snd (walk_if_node n ctx res)
      else if nd_kind n = ''case'' then snd (walk_case_node n ctx res)
      else if nd_kind n = ''case-branch'' then collect_nodes (children_of n) ctx res
      else if is_loop_kind (nd_kind n) then walk_loop_node n ctx res
      else if nd_kind n = ''try'' then collect_nodes (children_of n) ctx res
      else if leaf_kind (nd_kind n) then
        assign_leaf n ctx (collect_nodes (condition_leaves_of n) ctx res)
      else collect_nodes (children_of n) ctx (collect_nodes (condition_leaves_of n) ctx res))"
| "collect_nodes [] ctx res = res"
| "collect_nodes (n # ns) ctx res = collect_nodes ns ctx (collect_node n ctx res)"
  by pat_completeness auto
termination
  by (relation "measures [
     \<lambda>x. case x of
         Inl (Inl (Inl (n, _))) \<Rightarrow> Suc (nodes_size (if nd_kind n = ''block'' then children_of n else [n]))
       | Inl (Inl (Inr (ss, _))) \<Rightarrow> nodes_size ss
       | Inl (Inr (Inl (n, _))) \<Rightarrow> size n
       | Inl (Inr (Inr (n, _))) \<Rightarrow> size n
       | Inr (Inl (Inl (bs, _))) \<Rightarrow> nodes_size bs
       | Inr (Inl (Inr (n, _))) \<Rightarrow> size n
       | Inr (Inr (Inl (n, _))) \<Rightarrow> size n
       | Inr (Inr (Inr (ns, _))) \<Rightarrow> nodes_size ns,
     \<lambda>x. case x of
         Inl (Inl _) \<Rightarrow> 0
       | Inl (Inr _) \<Rightarrow> 1
       | Inr (Inl _) \<Rightarrow> 1
       | Inr (Inr (Inl _)) \<Rightarrow> 2
       | Inr (Inr (Inr _)) \<Rightarrow> 0]")
    (auto intro: cfn_sizes simp: Suc_le_eq less_Suc_eq_le)

declare walk_block.simps [simp del] walk_if_node.simps [simp del] walk_case_node.simps [simp del]
  walk_loop_node.simps [simp del] collect_node.simps [simp del]

lemmas walk_induct = walk_block_walk_stmts_walk_if_node_walk_case_node_walk_branches_walk_loop_node_collect_node_collect_nodes.induct

section \<open>Every walker assigns its leaves in order\<close>

text \<open>The assignments of a walk, as a list of leaves with their contexts.\<close>

definition assign_all :: "(cfn_node \<times> control_context) list \<Rightarrow> walk_result \<Rightarrow> walk_result" where
  "assign_all tr res = fold (\<lambda>(l, c). assign_leaf l c) tr res"

lemma assign_all_simps [simp]:
  "assign_all [] res = res"
  "assign_all ((l, c) # tr) res = assign_all tr (assign_leaf l c res)"
  by (simp_all add: assign_all_def)

lemma assign_all_append: "assign_all (tr1 @ tr2) res = assign_all tr2 (assign_all tr1 res)"
  by (simp add: assign_all_def)

lemma guard_assign [simp]: "guard (assign_leaf l c res) = guard res"
  by (simp add: assign_leaf_def)

lemma guard_assign_all [simp]: "guard (assign_all tr res) = guard res"
  by (induction tr arbitrary: res) auto

text \<open>
  \<open>walk_spec B a ls X res res'\<close>: a walk in the context \<open>a\<close> assigns exactly the leaves \<open>ls\<close>, in
  this order; no context falls below \<open>a\<close> (or below \<open>ErrorPath\<close>, in dead code); and, unless \<open>a\<close> is
  one of the contexts \<open>B\<close>, the leaves of \<open>X\<close> get a context outside \<open>B\<close>.
\<close>

definition walk_spec ::
  "(control_context \<Rightarrow> bool) \<Rightarrow> control_context \<Rightarrow> cfn_node list \<Rightarrow> cfn_node set \<Rightarrow> walk_result \<Rightarrow> walk_result \<Rightarrow> bool" where
  "walk_spec B a ls X res res' = (\<exists>tr. res' = assign_all tr res \<and> map fst tr = ls \<and>
     (\<forall>p\<in>set tr. min (ctx_rank a) 4 \<le> ctx_rank (snd p)) \<and>
     (\<not> B a \<longrightarrow> X \<subseteq> {l. \<exists>c. (l, c) \<in> set tr \<and> \<not> B c}))"

lemma walk_spec_nil: "walk_spec B a [] {} res res"
  unfolding walk_spec_def by (rule exI [of _ "[]"]) simp

lemma walk_spec_leaf: "walk_spec B a [n] {n} res (assign_leaf n a res)"
  unfolding walk_spec_def by (rule exI [of _ "[(n, a)]"]) simp

lemma walk_spec_weaken:
  assumes "walk_spec B b ls X res res'" "min (ctx_rank a) 4 \<le> min (ctx_rank b) 4"
    "\<not> B a \<Longrightarrow> Y \<subseteq> X \<and> (\<not> B b \<or> Y = {})"
  shows "walk_spec B a ls Y res res'"
  using assms unfolding walk_spec_def by (elim ex_forward) (auto intro: order_trans)

lemma walk_spec_seq:
  assumes "walk_spec B a ls1 X1 res res1" "walk_spec B a ls2 X2 res1 res2" "X \<subseteq> X1 \<union> X2"
  shows "walk_spec B a (ls1 @ ls2) X res res2"
proof -
  from assms(1) obtain tr1 where 1: "res1 = assign_all tr1 res" "map fst tr1 = ls1"
    "\<forall>p\<in>set tr1. min (ctx_rank a) 4 \<le> ctx_rank (snd p)"
    "\<not> B a \<longrightarrow> X1 \<subseteq> {l. \<exists>c. (l, c) \<in> set tr1 \<and> \<not> B c}"
    by (auto simp: walk_spec_def)
  from assms(2) obtain tr2 where 2: "res2 = assign_all tr2 res1" "map fst tr2 = ls2"
    "\<forall>p\<in>set tr2. min (ctx_rank a) 4 \<le> ctx_rank (snd p)"
    "\<not> B a \<longrightarrow> X2 \<subseteq> {l. \<exists>c. (l, c) \<in> set tr2 \<and> \<not> B c}"
    by (auto simp: walk_spec_def)
  show ?thesis unfolding walk_spec_def
    by (rule exI [of _ "tr1 @ tr2"]) (use 1 2 assms(3) in \<open>simp add: assign_all_append; blast\<close>)
qed

lemma walk_spec_guard: "walk_spec B a ls X res res' \<Longrightarrow> guard res' = guard res"
  by (auto simp: walk_spec_def)

text \<open>An optional arm, walked in a context at least as restrictive as the ambient one.\<close>

lemma walk_spec_arm:
  assumes "\<And>b. first_of ns = Some b \<Longrightarrow> walk_spec B c (leaves b) (exec R b) res (f b)"
    "min (ctx_rank a) 4 \<le> min (ctx_rank c) 4" "\<not> B a \<Longrightarrow> \<not> B c \<or> exec_list R (first_arm ns) = {}"
  shows "walk_spec B a (leaves_list (first_arm ns)) (exec_list R (first_arm ns)) res
    (case first_of ns of None \<Rightarrow> res | Some b \<Rightarrow> f b)"
proof (cases ns)
  case Nil
  then show ?thesis by (simp add: first_arm_def walk_spec_nil)
next
  case (Cons b bs)
  with assms(1) [of b] have "walk_spec B c (leaves b) (exec R b) res (f b)" by simp
  then have "walk_spec B a (leaves b) (exec R b) res (f b)"
    by (rule walk_spec_weaken) (use assms Cons in \<open>auto simp: first_arm_def\<close>)
  with Cons show ?thesis by (simp add: first_arm_def)
qed

text \<open>The contexts the walkers pass inwards and on.\<close>

lemma max_ctx_inner [simp]:
  "ctx_rank a \<le> ctx_rank (max_ctx a b)"
  "min (ctx_rank a) 4 \<le> ctx_rank (max_ctx a b)"
  by (cases a; cases b; simp add: max_ctx_def)+

lemma arm_ctx_inner:
  "min (ctx_rank a) 4 \<le> ctx_rank (then_body_ctx g n a)"
  "arm_termination n \<noteq> TError \<Longrightarrow> then_body_ctx g n a \<in> {a, Conditional, IsHandledGuarded}"
  "min (ctx_rank a) 4 \<le> ctx_rank (else_body_ctx n a)"
  "else_termination n \<noteq> TError \<Longrightarrow> else_body_ctx n a \<in> {a, Conditional}"
  by (auto simp: then_body_ctx_def else_body_ctx_def max_ctx_def)

lemma if_continuation_inner:
  "if_continuation g n a = Some c \<Longrightarrow> ctx_rank a \<le> ctx_rank c"
  "if_continuation g n a = Some c \<Longrightarrow> c \<in> {a, Conditional, IsHandledGuarded}"
  by (auto simp: if_continuation_def Let_def max_ctx_def split: if_splits)

text \<open>The walk reports no continuation only where the \<open>if\<close> never falls through.\<close>

lemma if_no_continuation:
  assumes "if_continuation g n a = None" "nd_kind n = ''if''" "run ok n es r"
  shows "r \<noteq> Falls"
proof -
  from assms(1) have "arm_termination n \<noteq> TFallthrough" "else_termination n \<noteq> TFallthrough"
    by (auto simp: if_continuation_def Let_def split: if_splits)
  then obtain t e where te: "first_of (children_of n) = Some t" "branch_termination t \<noteq> TFallthrough"
    "first_of (else_children_of n) = Some e" "branch_termination e \<noteq> TFallthrough"
    by (auto simp: arm_termination_def else_termination_def split: option.splits)
  show ?thesis
    by (rule run_ifE [OF assms(3,2)]) (use te termination_no_fall(1) in \<open>simp_all add: run_first_arm\<close>)
qed

lemma leaves_unfold:
  "nd_kind n = ''if'' \<Longrightarrow> leaves n = (leaves_list (condition_leaves_of n) @
     leaves_list (first_arm (children_of n))) @ leaves_list (first_arm (else_children_of n))"
  "nd_kind n = ''case'' \<Longrightarrow> leaves n = leaves_list (condition_leaves_of n) @ branch_leaves (children_of n)"
  "is_loop_kind (nd_kind n) \<Longrightarrow> leaves n = leaves_list (condition_leaves_of n) @ leaves_list (loop_body n)"
  "leaf_kind (nd_kind n) \<Longrightarrow> leaves n = leaves_list (condition_leaves_of n) @ [n]"
  "nd_kind n = ''block'' \<or> nd_kind n = ''case-branch'' \<or> nd_kind n = ''try'' \<Longrightarrow>
     leaves n = leaves_list (children_of n)"
  "\<not> compound_kind (nd_kind n) \<or> nd_kind n = ''break'' \<or> nd_kind n = ''continue'' \<Longrightarrow>
     leaves n = leaves_list (condition_leaves_of n) @ leaves_list (children_of n)"
  by (auto simp: leaves.simps [of n] kind_defs)

lemma assign_all_maps:
  "by_callsite (assign_all tr res) = insert_all nd_callsite_id tr (by_callsite res)"
  "by_operation (assign_all tr res) = insert_all nd_operation_id tr (by_operation res)"
  by (induction tr arbitrary: res) (auto simp: assign_leaf_def)

lemma root_leaves [simp]: "leaves_list (if nd_kind t = ''block'' then children_of t else [t]) = leaves t"
  by (simp add: leaves.simps [of t])

text \<open>
  The specification is proved for \<open>collect_node\<close>, which calls the walker of the node's kind, by
  induction on the size of the node. \<open>collects B R n\<close> is the induction hypothesis.
\<close>

definition collects :: "(control_context \<Rightarrow> bool) \<Rightarrow> (outcome \<Rightarrow> bool) \<Rightarrow> cfn_node \<Rightarrow> bool" where
  "collects B R n = (\<forall>a res. walk_spec B a (leaves n) (exec R n) res (collect_node n a res))"

lemma collectsD: "collects B R n \<Longrightarrow> walk_spec B a (leaves n) (exec R n) res (collect_node n a res)"
  by (simp add: collects_def)

text \<open>
  What the induction needs of a class \<open>R\<close> of outcomes and a class \<open>B\<close> of contexts: the guarded
  and conditional contexts are outside \<open>B\<close>, and when \<open>ErrorPath\<close> is in \<open>B\<close>, the arms that are
  classified as errors in a \<open>fine\<close> node have no execution in the class \<open>R\<close>.
\<close>

locale context_class = outcome_class R for R :: "outcome \<Rightarrow> bool" +
  fixes B :: "control_context \<Rightarrow> bool" and fine :: "cfn_node \<Rightarrow> bool"
  assumes Unreachable_bad: "B Unreachable"
    and low_ok: "ctx_rank c \<le> 3 \<Longrightarrow> \<not> B c"
    and fine_wf: "fine n \<Longrightarrow> well_formed n"
    and fine_parts: "fine n \<Longrightarrow> list_all fine (children_of n)"
      "fine n \<Longrightarrow> list_all fine (else_children_of n)" "fine n \<Longrightarrow> list_all fine (condition_leaves_of n)"
    and fine_error: "fine n \<Longrightarrow> b \<in> set (children_of n) \<or> b \<in> set (else_children_of n) \<Longrightarrow>
      branch_termination b = TError \<Longrightarrow> B ErrorPath \<Longrightarrow> run ok b es r \<Longrightarrow> \<not> R r"
    and fine_assert: "fine n \<Longrightarrow> nd_path_hint n = Some AssertError \<Longrightarrow> R Errs"
begin

lemma collects_list:
  "list_all (collects B R) ns \<Longrightarrow> walk_spec B a (leaves_list ns) (exec_list R ns) res (collect_nodes ns a res)"
proof (induction ns arbitrary: res)
  case Nil
  then show ?case by (simp add: walk_spec_nil)
next
  case (Cons n ns)
  then show ?case
    by (simp add: walk_spec_seq [OF collectsD _ exec_list_Cons])
qed

lemma collects_walkers:
  assumes "collects B R s"
  shows "nd_kind s = ''if'' \<Longrightarrow> walk_spec B a (leaves s) (exec R s) res (snd (walk_if_node s a res))"
    "nd_kind s = ''case'' \<Longrightarrow> walk_spec B a (leaves s) (exec R s) res (snd (walk_case_node s a res))"
    "is_loop_kind (nd_kind s) \<Longrightarrow> walk_spec B a (leaves s) (exec R s) res (walk_loop_node s a res)"
    "nd_kind s = ''error'' \<or> nd_kind s = ''exit'' \<Longrightarrow>
       walk_spec B a (leaves s) (exec R s) res (assign_leaf s a (collect_nodes (condition_leaves_of s) a res))"
  using collectsD [OF assms, of a res] by (auto simp: collect_node.simps [of s] kind_defs)

text \<open>The loop of \<open>walk_block\<close>.\<close>

lemma collects_stmts:
  "list_all (collects B R) ss \<Longrightarrow>
     walk_spec B (if reach then c else Unreachable) (leaves_list ss) (if reach then exec_list R ss else {}) res
       (snd (walk_stmts ss c reach res))"
proof (induction ss arbitrary: c reach res)
  case Nil
  then show ?case by (simp add: walk_spec_nil)
next
  case (Cons s ss)
  then have s: "collects B R s" and ss: "list_all (collects B R) ss" by simp_all
  note IH = Cons.IH [OF ss]
  have alive: "walk_spec B c (leaves s @ leaves_list ss) (exec_list R (s # ss)) res (snd (walk_stmts ss c' True res'))"
    if "walk_spec B c (leaves s) (exec R s) res res'" "ctx_rank c \<le> ctx_rank c'"
      "\<not> B c \<Longrightarrow> \<not> B c'" for c' res'
    by (rule walk_spec_seq [OF that(1) walk_spec_weaken [OF IH [of True c' res', simplified]] exec_list_Cons])
       (use that in auto)
  have dead: "walk_spec B c (leaves s @ leaves_list ss) (exec_list R (s # ss)) res (snd (walk_stmts ss c' False res'))"
    if "walk_spec B c (leaves s) (exec R s) res res'" "\<And>ok es r. run ok s es r \<Longrightarrow> r \<noteq> Falls" for c' res'
  proof -
    have "exec_list R (s # ss) \<subseteq> exec R s \<union> {}"
      using exec_list_stop [of s R ss] that(2) by blast
    moreover have "walk_spec B c (leaves_list ss) {} res' (snd (walk_stmts ss c' False res'))"
      by (rule walk_spec_weaken [OF IH [of False c' res', simplified]]) simp_all
    ultimately show ?thesis by (intro walk_spec_seq [OF that(1)])
  qed
  show ?case
  proof (cases reach)
    case False
    have "walk_spec B Unreachable (leaves s @ leaves_list ss) {} res
        (snd (walk_stmts ss c False (collect_node s Unreachable res)))"
      by (rule walk_spec_seq [OF collectsD [OF s] IH [of False, simplified]]) simp
    with False show ?thesis by simp
  next
    case True
    consider "nd_kind s = ''error'' \<or> nd_kind s = ''exit''" | "nd_kind s = ''if''" | "nd_kind s = ''case''"
      | "is_loop_kind (nd_kind s)" | "nd_kind s \<notin> {''error'', ''exit'', ''if'', ''case''}" "\<not> is_loop_kind (nd_kind s)"
      by blast
    then show ?thesis
    proof cases
      case 1
      have stops: "r \<noteq> Falls" if "run ok s es r" for ok es r
        using that 1 exit_never_falls error_never_falls by blast
      show ?thesis using True 1 by (simp add: dead [OF collects_walkers(4) [OF s 1] stops])
    next
      case 2
      obtain k res' where k: "walk_if_node s c res = (k, res')" by fastforce
      have w: "walk_spec B c (leaves s) (exec R s) res res'" using collects_walkers(1) [OF s 2, of c res] k by simp
      show ?thesis
      proof (cases k)
        case None
        then have "if_continuation (guard res) s c = None"
          using k by (auto simp: walk_if_node.simps [of s] Let_def split: if_splits)
        then show ?thesis
          using dead [OF w if_no_continuation [OF _ 2]] True 2 k None by simp
      next
        case (Some c')
        then have "c' = c \<or> if_continuation (guard res) s c = Some c'"
          using k by (auto simp: walk_if_node.simps [of s] Let_def split: if_splits)
        then show ?thesis
          using alive [OF w, of c'] if_continuation_inner [of "guard res" s c c'] low_ok True 2 k Some by auto
      qed
    next
      case 3
      obtain c' res' where k: "walk_case_node s c res = (c', res')" by fastforce
      then have "c' \<in> {c, Conditional}" "ctx_rank c \<le> ctx_rank c'"
        by (auto simp: walk_case_node.simps [of s] Let_def max_ctx_def split: if_splits prod.splits)
      then show ?thesis
        using alive [of res' c'] collects_walkers(2) [OF s 3, of c res] low_ok [of Conditional] True 3 k by auto
    next
      case 4
      then have "nd_kind s \<notin> {''error'', ''exit'', ''if'', ''case''}" by (auto simp: is_loop_kind_def)
      with 4 True show ?thesis using alive [OF collects_walkers(3) [OF s 4], of c] by simp
    next
      case 5
      with True show ?thesis using alive [OF collectsD [OF s], of c] by simp
    qed
  qed
qed

lemma error_arm_empty:
  assumes "fine n" "arm_termination n = TError" "B ErrorPath"
  shows "exec_list R (children_of n) = {}" "exec_list R (first_arm (children_of n)) = {}"
proof -
  from assms(2) obtain b bs where b: "children_of n = b # bs" "branch_termination b = TError"
    by (cases "children_of n") (auto simp: arm_termination_def)
  have empty: "exec R b = {}"
    by (rule exec_empty) (rule fine_error [OF assms(1) _ b(2) assms(3)], simp_all add: b)
  moreover have "exec_list R (b # bs) \<subseteq> exec R b"
    by (rule exec_list_stop) (erule termination_no_fall(1) [rotated], simp add: b)
  ultimately show "exec_list R (children_of n) = {}" "exec_list R (first_arm (children_of n)) = {}"
    by (simp_all add: b first_arm_def)
qed

lemma error_else_empty:
  assumes "fine n" "else_termination n = TError" "B ErrorPath"
  shows "exec_list R (first_arm (else_children_of n)) = {}"
proof -
  from assms(2) obtain b bs where b: "else_children_of n = b # bs" "branch_termination b = TError"
    by (cases "else_children_of n") (auto simp: else_termination_def)
  have "exec R b = {}"
    by (rule exec_empty) (rule fine_error [OF assms(1) _ b(2) assms(3)], simp_all add: b)
  then show ?thesis by (simp add: b first_arm_def)
qed

lemma collects_branches:
  "list_all (\<lambda>b. list_all (collects B R) (children_of b)) bs \<Longrightarrow> list_all fine bs \<Longrightarrow>
     walk_spec B a (branch_leaves bs) (\<Union>b\<in>set bs. exec_list R (children_of b)) res (snd (walk_branches bs a any res))"
proof (induction bs arbitrary: any res)
  case Nil
  then show ?case by (simp add: walk_spec_nil)
next
  case (Cons b bs)
  let ?c = "if arm_termination b = TError then ErrorPath else a"
  have "walk_spec B a (leaves_list (children_of b)) (exec_list R (children_of b)) res (collect_nodes (children_of b) ?c res)"
  proof (rule walk_spec_weaken [OF collects_list])
    show "\<not> B a \<Longrightarrow> exec_list R (children_of b) \<subseteq> exec_list R (children_of b) \<and>
        (\<not> B ?c \<or> exec_list R (children_of b) = {})"
      using error_arm_empty [of b] Cons.prems(2) by auto
  qed (use Cons.prems in auto)
  then show ?case
    by (simp only: branch_leaves.simps walk_branches.simps Let_def)
       (rule walk_spec_seq [OF _ Cons.IH], use Cons.prems in auto)
qed

lemma collects_if:
  assumes "nd_kind n = ''if''" "fine n" "list_all (collects B R) (condition_leaves_of n)"
    "list_all (collects B R) (children_of n)" "list_all (collects B R) (else_children_of n)"
  shows "collects B R n"
  unfolding collects_def
proof (intro allI)
  fix a res
  define res1 where "res1 = collect_nodes (condition_leaves_of n) a res"
  have arm: "collects B R b" if "first_of (children_of n) = Some b \<or> first_of (else_children_of n) = Some b" for b
    using that assms(4,5) by (auto simp: list_all_iff dest: first_of_SomeD)
  have conds: "walk_spec B a (leaves_list (condition_leaves_of n)) (exec_list R (condition_leaves_of n)) res res1"
    unfolding res1_def by (rule collects_list [OF assms(3)])
  have then_ok: "\<not> B (then_body_ctx (guard res) n a) \<or> exec_list R (first_arm (children_of n)) = {}" if "\<not> B a"
  proof (cases "arm_termination n = TError")
    case True
    then show ?thesis using error_arm_empty(2) [OF assms(2) True] by (auto simp: then_body_ctx_def)
  next
    case False
    then show ?thesis using arm_ctx_inner(2) [OF False, of "guard res" a] low_ok that by auto
  qed
  have else_ok: "\<not> B (else_body_ctx n a) \<or> exec_list R (first_arm (else_children_of n)) = {}" if "\<not> B a"
  proof (cases "else_termination n = TError")
    case True
    then show ?thesis using error_else_empty [OF assms(2) True] by (auto simp: else_body_ctx_def)
  next
    case False
    then show ?thesis using arm_ctx_inner(4) [OF False, of a] low_ok that by auto
  qed
  show "walk_spec B a (leaves n) (exec R n) res (collect_node n a res)"
  proof (cases "\<not> has_explicit_else n \<and> arm_termination n = TError")
    case True
    let ?r = "case first_of (children_of n) of None \<Rightarrow> res1 | Some b \<Rightarrow> collect_node b ErrorPath res1"
    have "walk_spec B a (leaves_list (first_arm (children_of n))) (exec_list R (first_arm (children_of n))) res1 ?r"
      by (rule walk_spec_arm [where c = ErrorPath])
        (use True error_arm_empty(2) [OF assms(2)] in \<open>auto intro: collectsD arm\<close>)
    from walk_spec_seq [OF walk_spec_seq [OF conds this subset_refl] walk_spec_nil]
    show ?thesis
      using True assms(1) exec_if [OF assms(1)]
      by (auto simp: collect_node.simps [of n] walk_if_node.simps [of n] leaves_unfold(1) has_explicit_else_def
          first_arm_def Let_def res1_def [symmetric] split: option.splits)
  next
    case False
    let ?r2 = "case first_of (children_of n) of None \<Rightarrow> res1
        | Some b \<Rightarrow> collect_node b (then_body_ctx (guard res) n a) res1"
    let ?r3 = "case first_of (else_children_of n) of None \<Rightarrow> ?r2
        | Some b \<Rightarrow> collect_node b (else_body_ctx n a) ?r2"
    have "walk_spec B a (leaves_list (first_arm (children_of n))) (exec_list R (first_arm (children_of n))) res1 ?r2"
      by (rule walk_spec_arm [where c = "then_body_ctx (guard res) n a"])
        (use then_ok in \<open>auto intro: collectsD arm simp: arm_ctx_inner\<close>)
    moreover have "walk_spec B a (leaves_list (first_arm (else_children_of n)))
        (exec_list R (first_arm (else_children_of n))) ?r2 ?r3"
      by (rule walk_spec_arm [where c = "else_body_ctx n a"])
        (use else_ok in \<open>auto intro: collectsD arm simp: arm_ctx_inner\<close>)
    ultimately have "walk_spec B a (leaves n) (exec R n) res ?r3"
      unfolding leaves_unfold(1) [OF assms(1)]
      by (rule walk_spec_seq [OF walk_spec_seq [OF conds _ subset_refl] _ exec_if [OF assms(1)]])
    then show ?thesis
      using False assms(1) by (auto simp: collect_node.simps [of n] walk_if_node.simps [of n] Let_def res1_def [symmetric])
  qed
qed

lemma wf_case: "fine n \<Longrightarrow> nd_kind n = ''case'' \<Longrightarrow> list_all (\<lambda>b. nd_kind b = ''case-branch'') (children_of n)"
  using fine_wf [of n] by (simp add: well_formed.simps [of n])

lemma collects_case:
  assumes "nd_kind n = ''case''" "fine n" "list_all (collects B R) (condition_leaves_of n)"
    "list_all (\<lambda>b. list_all (collects B R) (children_of b)) (children_of n)"
  shows "collects B R n"
  unfolding collects_def
proof (intro allI)
  fix a res
  let ?res1 = "collect_nodes (condition_leaves_of n) a res"
  let ?b = "max_ctx a Conditional"
  have "walk_spec B a (branch_leaves (children_of n)) (\<Union>b\<in>set (children_of n). exec_list R (children_of b)) ?res1
      (snd (walk_branches (children_of n) ?b False ?res1))"
    by (rule walk_spec_weaken [OF collects_branches [OF assms(4) fine_parts(1) [OF assms(2)]]])
      (auto simp: max_ctx_def low_ok)
  then have "walk_spec B a (leaves n) (exec R n) res (snd (walk_branches (children_of n) ?b False ?res1))"
    unfolding leaves_unfold(2) [OF assms(1)]
    by (rule walk_spec_seq [OF collects_list [OF assms(3)] _ exec_case [OF assms(1) wf_case [OF assms(2,1)]]])
  then show "walk_spec B a (leaves n) (exec R n) res (collect_node n a res)"
    using assms(1) by (auto simp: collect_node.simps [of n] walk_case_node.simps [of n] Let_def split: prod.splits)
qed

lemma collects_loop:
  assumes "is_loop_kind (nd_kind n)" "list_all (collects B R) (condition_leaves_of n)" "list_all (collects B R) (children_of n)"
  shows "collects B R n"
  unfolding collects_def
proof (intro allI)
  fix a res
  let ?res1 = "collect_nodes (condition_leaves_of n) a res"
  let ?c = "max_ctx a LoopBody"
  have c_ok: "\<not> B a \<Longrightarrow> \<not> B ?c" by (simp add: max_ctx_def low_ok)
  have "walk_spec B a (leaves_list (loop_body n)) (exec_list R (loop_body n)) ?res1 (walk_loop_node n a res)"
  proof (cases "nd_kind n = ''repeat''")
    case True
    have "walk_spec B ?c (leaves_list (children_of n)) (exec_list R (children_of n)) ?res1
        (snd (walk_stmts (children_of n) ?c True ?res1))"
      using collects_stmts [OF assms(3), of True ?c ?res1] by simp
    then show ?thesis
      using True c_ok by (auto simp: loop_body_def walk_loop_node.simps [of n] walk_block.simps elim: walk_spec_weaken)
  next
    case False
    have "walk_spec B a (leaves_list (first_arm (children_of n))) (exec_list R (first_arm (children_of n))) ?res1
        (case first_of (children_of n) of None \<Rightarrow> ?res1 | Some b \<Rightarrow> collect_node b ?c ?res1)"
      by (rule walk_spec_arm [where c = ?c])
        (use assms(3) c_ok in \<open>auto simp: list_all_iff intro: collectsD dest: first_of_SomeD\<close>)
    with False show ?thesis by (simp add: loop_body_def walk_loop_node.simps [of n] Let_def)
  qed
  then have "walk_spec B a (leaves n) (exec R n) res (walk_loop_node n a res)"
    unfolding leaves_unfold(3) [OF assms(1)]
    by (rule walk_spec_seq [OF collects_list [OF assms(2)] _ exec_loop [OF assms(1)]])
  then show "walk_spec B a (leaves n) (exec R n) res (collect_node n a res)"
    using assms(1) by (auto simp: collect_node.simps [of n] is_loop_kind_def)
qed

lemma collects_plain:
  assumes "nd_kind n \<noteq> ''if''" "nd_kind n \<noteq> ''case''" "\<not> is_loop_kind (nd_kind n)" "fine n"
    "list_all (collects B R) (condition_leaves_of n)" "list_all (collects B R) (children_of n)"
  shows "collects B R n"
  unfolding collects_def
proof (intro allI)
  fix a res
  note cond = collects_list [OF assms(5), of a res]
  consider "nd_kind n = ''block''" | "nd_kind n = ''case-branch''" | "nd_kind n = ''try''" | "leaf_kind (nd_kind n)"
    | "nd_kind n \<notin> {''block'', ''case-branch'', ''try''}" "\<not> leaf_kind (nd_kind n)" by blast
  then show "walk_spec B a (leaves n) (exec R n) res (collect_node n a res)"
  proof cases
    case 1
    have "walk_spec B a (leaves_list (children_of n)) (exec_list R (children_of n)) res
        (snd (walk_stmts (children_of n) a True res))"
      using collects_stmts [OF assms(6), of True a res] by simp
    then have "walk_spec B a (leaves_list (children_of n)) (exec R n) res (snd (walk_stmts (children_of n) a True res))"
      by (rule walk_spec_weaken) (use exec_block 1 in auto)
    with 1 show ?thesis by (simp add: collect_node.simps [of n] walk_block.simps [of n] leaves_unfold)
  next
    case 2
    have "walk_spec B a (leaves_list (children_of n)) (exec R n) res (collect_nodes (children_of n) a res)"
      by (rule walk_spec_weaken [OF collects_list [OF assms(6)]]) (use exec_block 2 in auto)
    with 2 show ?thesis by (simp add: collect_node.simps [of n] leaves_unfold)
  next
    case 3
    have "walk_spec B a (leaves_list (children_of n)) (exec R n) res (collect_nodes (children_of n) a res)"
      by (rule walk_spec_weaken [OF collects_list [OF assms(6)]]) (use exec_try 3 in auto)
    with 3 show ?thesis by (simp add: collect_node.simps [of n] leaves_unfold is_loop_kind_def)
  next
    case 4
    then have "walk_spec B a (leaves n) (exec R n) res (assign_leaf n a (collect_nodes (condition_leaves_of n) a res))"
      unfolding leaves_unfold(4) [OF 4] by (rule walk_spec_seq [OF cond walk_spec_leaf exec_leaf])
    with 4 show ?thesis by (auto simp: collect_node.simps [of n] kind_defs)
  next
    case 5
    have "walk_spec B a (leaves_list (condition_leaves_of n) @ leaves_list (children_of n)) (exec R n) res
        (collect_nodes (children_of n) a (collect_nodes (condition_leaves_of n) a res))"
      by (rule walk_spec_seq [OF cond collects_list [OF assms(6)] exec_wrapper]) (use 5 assms fine_assert in auto)
    with 5 assms(1-3) show ?thesis by (simp add: collect_node.simps [of n] leaves.simps [of n])
  qed
qed

lemma collects_all: "fine n \<Longrightarrow> collects B R n"
proof (induction n rule: measure_induct_rule [of size])
  case (less n)
  note parts = fine_parts [OF less.prems, unfolded list_all_iff]
  have sub: "list_all (collects B R) (condition_leaves_of n)" "list_all (collects B R) (children_of n)"
    "list_all (collects B R) (else_children_of n)"
    using parts less.IH by (auto simp: list_all_iff size_leaf size_child size_else_child)
  have sub2: "list_all (collects B R) (children_of b)" if b: "b \<in> set (children_of n)" for b
  proof -
    have "list_all fine (children_of b)" using parts(1) b by (auto simp: fine_parts)
    then show ?thesis using less.IH size_child [OF b] size_child [of _ b] by (fastforce simp: list_all_iff)
  qed
  show ?case
    using collects_if [OF _ less.prems sub] collects_case [OF _ less.prems sub(1)] collects_loop [OF _ sub(1,2)]
      collects_plain [OF _ _ _ less.prems sub(1,2)] sub2 by (auto simp: list_all_iff)
qed

text \<open>The walk of a whole body.\<close>

lemma root_exec: "exec R t \<subseteq> exec_list R (if nd_kind t = ''block'' then children_of t else [t])"
  using exec_block [of t] by auto

lemma walk_block_spec:
  assumes "fine t"
  shows "walk_spec B a (leaves t) (exec R t) res (snd (walk_block t a res))"
proof -
  let ?ss = "if nd_kind t = ''block'' then children_of t else [t]"
  have "list_all (collects B R) ?ss"
    using assms collects_all fine_parts(1) [OF assms] by (auto simp: list_all_iff)
  then have "walk_spec B a (leaves_list ?ss) (exec_list R ?ss) res (snd (walk_stmts ?ss a True res))"
    using collects_stmts [of ?ss True a res] by simp
  then have "walk_spec B a (leaves_list ?ss) (exec R t) res (snd (walk_stmts ?ss a True res))"
    by (rule walk_spec_weaken) (use root_exec in auto)
  then show ?thesis by (simp add: walk_block.simps [of t])
qed

text \<open>An execution of the class puts each of its leaves outside \<open>B\<close> in the final map.\<close>

lemma executed_outside:
  assumes "fine t" "\<not> B a" "by_callsite res = Map.empty" "by_operation res = Map.empty" "run ok t es r" "R r" "l \<in> set es"
  shows "distinct (site_ids nd_callsite_id (leaves t)) \<Longrightarrow> nd_callsite_id l = Some i \<Longrightarrow>
      \<exists>c. by_callsite (snd (walk_block t a res)) i = Some c \<and> \<not> B c"
    and "distinct (site_ids nd_operation_id (leaves t)) \<Longrightarrow> nd_operation_id l = Some i \<Longrightarrow>
      \<exists>c. by_operation (snd (walk_block t a res)) i = Some c \<and> \<not> B c"
proof -
  from walk_block_spec [OF assms(1), of a res] assms(2) obtain tr where
    tr: "snd (walk_block t a res) = assign_all tr res" "map fst tr = leaves t"
      "exec R t \<subseteq> {l. \<exists>c. (l, c) \<in> set tr \<and> \<not> B c}"
    by (auto simp: walk_spec_def)
  from assms(5-7) have "l \<in> exec R t" by (rule execI)
  with tr(3) obtain c where c: "(l, c) \<in> set tr" "\<not> B c" by auto
  with tr assms(3,4) show "distinct (site_ids nd_callsite_id (leaves t)) \<Longrightarrow> nd_callsite_id l = Some i \<Longrightarrow>
      \<exists>c. by_callsite (snd (walk_block t a res)) i = Some c \<and> \<not> B c"
    "distinct (site_ids nd_operation_id (leaves t)) \<Longrightarrow> nd_operation_id l = Some i \<Longrightarrow>
      \<exists>c. by_operation (snd (walk_block t a res)) i = Some c \<and> \<not> B c"
    by (auto simp: assign_all_maps insert_all_lookup)
qed

end

section \<open>Entry points\<close>

record control_context_maps =
  cm_callsite :: "string \<rightharpoonup> control_context"
  cm_operation :: "string \<rightharpoonup> control_context"
  cm_eligibility :: guard_eligibility

definition is_try_function :: "string list \<Rightarrow> bool" where
  "is_try_function names = list_ex (\<lambda>n. n = ''tryfunction'') names"

definition compute_control_contexts ::
  "cfn_node option \<Rightarrow> string list \<Rightarrow> parameter_symbol list \<Rightarrow> string list \<Rightarrow> control_context_maps" where
  "compute_control_contexts tree attrs ps vars =
     (let result = \<lparr> by_callsite = Map.empty, by_operation = Map.empty, guard = build_guard_eligibility ps vars \<rparr>;
          maps = (\<lambda>r. \<lparr> cm_callsite = by_callsite r, cm_operation = by_operation r, cm_eligibility = guard r \<rparr>)
      in if is_try_function attrs then maps result
         else case tree of None \<Rightarrow> maps result | Some t \<Rightarrow> maps (snd (walk_block t TopLevel result)))"

text \<open>The trimmed, lowercased argument texts of every call site.\<close>

definition call_arg_names :: "call_site list \<Rightarrow> string list" where
  "call_arg_names css =
     fold (\<lambda>cs acc. fold (\<lambda>arg acc. let t = to_lowercase (trim arg) in if t \<noteq> [] then push_new t acc else acc)
       (cs_argument_texts cs) acc) css []"

definition derive_is_handled_vars :: "features \<Rightarrow> string list" where
  "derive_is_handled_vars ft =
     (let names = call_arg_names (ft_call_sites ft)
      in fold (\<lambda>v acc.
           if vs_scope v \<noteq> ''parameter'' \<and> to_lowercase (trim (vs_declared_type v)) = ''boolean'' \<and>
              to_lowercase (vs_name v) \<in> set names
           then push_new (to_lowercase (vs_name v)) acc else acc) (ft_variables ft) [])"

definition apply_control_contexts :: "features \<Rightarrow> string list \<Rightarrow> parameter_symbol list \<Rightarrow> features" where
  "apply_control_contexts ft attrs ps =
     (let maps = compute_control_contexts (ft_statement_tree ft) attrs ps (derive_is_handled_vars ft);
          by_op = inherit_error_calls (ft_call_sites ft) (ft_operation_sites ft) (cm_callsite maps) (cm_operation maps)
      in ft \<lparr> ft_call_sites := map (\<lambda>cs. cs \<lparr> cs_control_context := map_option ctx_as_str (cm_callsite maps (cs_id cs)) \<rparr>) (ft_call_sites ft),
              ft_operation_sites := map (\<lambda>op. op \<lparr> os_control_context := map_option ctx_as_str (by_op (os_id op)) \<rparr>) (ft_operation_sites ft) \<rparr>)"

section \<open>What the contexts promise\<close>

text \<open>
  The first class: every execution, and the contexts other than \<open>Unreachable\<close>. The second: the
  executions that do not raise, and the contexts below \<open>ErrorPath\<close>, in bodies whose
  error-terminated arms cannot leave the routine in another way.
\<close>

function error_closed :: "cfn_node \<Rightarrow> bool" where
  "error_closed n =
     (list_all error_closed (children_of n) \<and> list_all error_closed (else_children_of n) \<and>
      list_all error_closed (condition_leaves_of n) \<and> nd_path_hint n \<noteq> Some AssertError \<and>
      list_all (\<lambda>b. branch_termination b = TError \<longrightarrow> exit_free b) (children_of n) \<and>
      list_all (\<lambda>b. branch_termination b = TError \<longrightarrow> exit_free b) (else_children_of n))"
  by pat_completeness auto
termination
  by (relation "measure size") (auto intro: cfn_sizes)

declare error_closed.simps [simp del]

definition error_or_dead :: "control_context \<Rightarrow> bool" where
  "error_or_dead c = (ctx_rank c \<ge> 4)"

lemma error_arm_raises:
  assumes "exit_free b" "branch_termination b = TError" "run ok b es r"
  shows "r = Errs"
  using exit_free_runs(1) [OF assms(3,1)] termination_no_fall(1) [OF _ assms(3)] assms(2) by auto

interpretation reachable: context_class any_outcome "(=) Unreachable" well_formed
  by unfold_locales (auto simp: any_outcome_def well_formed_parts)

interpretation normal: context_class not_raising error_or_dead "\<lambda>n. well_formed n \<and> error_closed n"
proof unfold_locales
  fix n b ok es r
  assume "well_formed n \<and> error_closed n" "b \<in> set (children_of n) \<or> b \<in> set (else_children_of n)"
    "branch_termination b = TError" "run ok b es r"
  then show "\<not> not_raising r"
    using error_arm_raises by (auto simp: error_closed.simps [of n] list_all_iff not_raising_def)
next
  fix n assume "well_formed n \<and> error_closed n"
  then have *: "well_formed n" "error_closed n" by simp_all
  show "list_all (\<lambda>n. well_formed n \<and> error_closed n) (children_of n)"
    "list_all (\<lambda>n. well_formed n \<and> error_closed n) (else_children_of n)"
    "list_all (\<lambda>n. well_formed n \<and> error_closed n) (condition_leaves_of n)"
    using well_formed_parts(1-3) [OF *(1)] *(2) by (simp_all add: error_closed.simps [of n] list_all_iff)
qed (auto simp: error_or_dead_def not_raising_def error_closed.simps)

lemma compute_maps:
  assumes "\<not> is_try_function attrs"
  shows "\<exists>res. compute_control_contexts (Some t) attrs ps vars =
      \<lparr> cm_callsite = by_callsite (snd (walk_block t TopLevel res)),
        cm_operation = by_operation (snd (walk_block t TopLevel res)),
        cm_eligibility = guard (snd (walk_block t TopLevel res)) \<rparr> \<and>
      by_callsite res = Map.empty \<and> by_operation res = Map.empty"
  using assms by (intro exI [of _ "\<lparr> by_callsite = Map.empty, by_operation = Map.empty, guard = build_guard_eligibility ps vars \<rparr>"])
    (simp add: compute_control_contexts_def Let_def)

text \<open>
  Property C13. In a routine that is no \<open>TryFunction\<close> (for one the code returns empty maps), whose body has
  the shape of the lowering, a call site that some execution of the body reaches is classified, and
  never as unreachable, when the call sites of the body have distinct ids; and so is an operation,
  when the operations have.
\<close>

theorem executed_site_not_unreachable:
  assumes "well_formed t" "\<not> is_try_function attrs" "run ok t es r" "l \<in> set es"
  shows "(distinct (site_ids nd_callsite_id (leaves t)) \<and> nd_callsite_id l = Some i \<longrightarrow>
      (\<exists>c. cm_callsite (compute_control_contexts (Some t) attrs ps vars) i = Some c \<and> c \<noteq> Unreachable)) \<and>
    (distinct (site_ids nd_operation_id (leaves t)) \<and> nd_operation_id l = Some i \<longrightarrow>
      (\<exists>c. cm_operation (compute_control_contexts (Some t) attrs ps vars) i = Some c \<and> c \<noteq> Unreachable))"
proof -
  obtain res where maps: "cm_callsite (compute_control_contexts (Some t) attrs ps vars) = by_callsite (snd (walk_block t TopLevel res))"
      "cm_operation (compute_control_contexts (Some t) attrs ps vars) = by_operation (snd (walk_block t TopLevel res))"
      "by_callsite res = Map.empty" "by_operation res = Map.empty"
    using compute_maps [OF assms(2), of t ps vars] by auto
  have "any_outcome r" by (simp add: any_outcome_def)
  note outside = reachable.executed_outside [OF assms(1) _ maps(3,4) assms(3) this assms(4), of TopLevel]
  show ?thesis unfolding maps(1,2) using outside by auto
qed

definition sample_body :: cfn_node where
  "sample_body = block_node [node_of ''if'' None [call_node ''a''] [block_node [node_of ''exit'' None [] [] []]] [], call_node ''b'']"

lemma sample_body_facts:
  "well_formed sample_body" "site_ids nd_callsite_id (leaves sample_body) = [''a'', ''b'']"
  by (simp_all add: sample_body_def well_formed.simps leaves.simps first_arm_def kind_defs)

lemma sample_body_run: "run free sample_body [call_node ''a'', call_node ''b''] Falls"
proof -
  have "run_list free [call_node ''a''] [call_node ''a''] Falls" by (simp add: run_list_single run_call_node)
  then have "run free (node_of ''if'' None [call_node ''a''] [block_node [node_of ''exit'' None [] [] []]] []) ([call_node ''a''] @ []) Falls"
    by (intro run_else) (simp_all add: first_arm_def)
  then have "run_list free (children_of sample_body) ([call_node ''a''] @ [call_node ''b'']) Falls"
    unfolding sample_body_def node_of_simps
    by (intro list_step) (simp_all add: run_list_single run_call_node)
  then show ?thesis by (simp add: run_block_iff sample_body_def)
qed

theorem executed_site_not_unreachable_witness:
  "\<exists>c. cm_callsite (compute_control_contexts (Some sample_body) [] [] []) ''b'' = Some c \<and> c \<noteq> Unreachable"
  using executed_site_not_unreachable [OF sample_body_facts(1) _ sample_body_run, where l = "call_node ''b''" and i = "''b''" and attrs = "[]"]
  by (simp add: sample_body_facts is_try_function_def)

text \<open>
  Property C14. In a routine that is no \<open>TryFunction\<close>, whose body has the shape of the lowering, no
  \<open>asserterror\<close>, and no jump in an arm that ends in an error (\<open>error_closed\<close>), a call site classified as an error path or
  unreachable is not executed by any execution that does not raise, when the call sites have distinct
  ids; nor is such an operation, when the operations have.
\<close>

theorem error_path_not_on_normal_run:
  assumes "well_formed t" "error_closed t" "\<not> is_try_function attrs" "run ok t es r" "r \<noteq> Errs" "c = ErrorPath \<or> c = Unreachable"
  shows "(distinct (site_ids nd_callsite_id (leaves t)) \<and> nd_callsite_id l = Some i \<and>
      cm_callsite (compute_control_contexts (Some t) attrs ps vars) i = Some c \<longrightarrow> l \<notin> set es) \<and>
    (distinct (site_ids nd_operation_id (leaves t)) \<and> nd_operation_id l = Some i \<and>
      cm_operation (compute_control_contexts (Some t) attrs ps vars) i = Some c \<longrightarrow> l \<notin> set es)"
proof -
  obtain res where maps: "cm_callsite (compute_control_contexts (Some t) attrs ps vars) = by_callsite (snd (walk_block t TopLevel res))"
      "cm_operation (compute_control_contexts (Some t) attrs ps vars) = by_operation (snd (walk_block t TopLevel res))"
      "by_callsite res = Map.empty" "by_operation res = Map.empty"
    using compute_maps [OF assms(3), of t ps vars] by auto
  have bad: "error_or_dead c" "not_raising r" using assms(5,6) by (auto simp: error_or_dead_def not_raising_def)
  have fine: "well_formed t \<and> error_closed t" "\<not> error_or_dead TopLevel" using assms(1,2) by (simp_all add: error_or_dead_def)
  note outside = normal.executed_outside [OF fine maps(3,4) assms(4) bad(2)]
  show ?thesis unfolding maps(1,2) using outside bad(1) by fastforce
qed

lemmas walker_eval = compute_control_contexts_def is_try_function_def walk_block.simps walk_if_node.simps
  walk_case_node.simps walk_loop_node.simps collect_node.simps assign_leaf_def insert_opt_def kind_defs
  has_explicit_else_def arm_termination_def else_termination_def if_continuation_def max_ctx_def
  branch_termination.simps statement_termination.simps terminates_def Let_def

definition guarded_body :: cfn_node where
  "guarded_body = block_node [node_of ''if'' None [] [block_node [call_node ''e'', node_of ''error'' (Some ''f'') [] [] []]] [], call_node ''b'']"

lemma guarded_body_facts:
  "well_formed guarded_body" "error_closed guarded_body"
  "site_ids nd_callsite_id (leaves guarded_body) = [''e'', ''f'', ''b'']"
  by (simp_all add: guarded_body_def well_formed.simps error_closed.simps exit_free.simps leaves.simps first_arm_def kind_defs)

lemma guarded_body_run: "run free guarded_body [call_node ''b''] Falls"
proof -
  have "run free (node_of ''if'' None [] [block_node [call_node ''e'', node_of ''error'' (Some ''f'') [] [] []]] []) ([] @ []) Falls"
    by (intro run_else) (simp_all add: first_arm_def)
  then have "run_list free (children_of guarded_body) ([] @ [call_node ''b'']) Falls"
    unfolding guarded_body_def node_of_simps by (intro list_step) (simp_all add: run_list_single run_call_node)
  then show ?thesis by (simp add: run_block_iff guarded_body_def)
qed

lemma guarded_body_context:
  "cm_callsite (compute_control_contexts (Some guarded_body) [] [] []) ''e'' = Some ErrorPath"
  by (simp add: guarded_body_def walker_eval)

theorem error_path_not_on_normal_run_witness: "call_node ''e'' \<notin> set [call_node ''b'']"
  using error_path_not_on_normal_run [OF guarded_body_facts(1,2) _ guarded_body_run, of "[]" ErrorPath "call_node ''e''" "''e''" "[]" "[]"]
  by (simp add: guarded_body_facts guarded_body_context is_try_function_def)

text \<open>
  Outside a TryFunction the walk classifies exactly the sites of the body: the domain
  of the two maps is the set of call-site and operation ids of its leaves; a TryFunction, or a
  routine without a body, gets no entry at all.
\<close>

theorem classified_sites:
  assumes "well_formed t"
  shows "dom (cm_callsite (compute_control_contexts (Some t) attrs ps vars)) =
      (if is_try_function attrs then {} else set (site_ids nd_callsite_id (leaves t))) \<and>
    dom (cm_operation (compute_control_contexts (Some t) attrs ps vars)) =
      (if is_try_function attrs then {} else set (site_ids nd_operation_id (leaves t))) \<and>
    dom (cm_callsite (compute_control_contexts None attrs ps vars)) = {}"
proof -
  have "dom (cm_callsite (compute_control_contexts (Some t) attrs ps vars)) = set (site_ids nd_callsite_id (leaves t)) \<and>
      dom (cm_operation (compute_control_contexts (Some t) attrs ps vars)) = set (site_ids nd_operation_id (leaves t))"
    if nt: "\<not> is_try_function attrs"
  proof -
    obtain res where maps: "compute_control_contexts (Some t) attrs ps vars =
      \<lparr> cm_callsite = by_callsite (snd (walk_block t TopLevel res)),
        cm_operation = by_operation (snd (walk_block t TopLevel res)),
        cm_eligibility = guard (snd (walk_block t TopLevel res)) \<rparr>" "by_callsite res = Map.empty" "by_operation res = Map.empty"
      using compute_maps [OF nt, of t ps vars] by auto
    from reachable.walk_block_spec [OF assms, of TopLevel res] obtain tr where
      "snd (walk_block t TopLevel res) = assign_all tr res" "map fst tr = leaves t" by (auto simp: walk_spec_def)
    with maps show ?thesis by (simp add: assign_all_maps insert_all_dom)
  qed
  then show "dom (cm_callsite (compute_control_contexts (Some t) attrs ps vars)) =
      (if is_try_function attrs then {} else set (site_ids nd_callsite_id (leaves t))) \<and>
    dom (cm_operation (compute_control_contexts (Some t) attrs ps vars)) =
      (if is_try_function attrs then {} else set (site_ids nd_operation_id (leaves t))) \<and>
    dom (cm_callsite (compute_control_contexts None attrs ps vars)) = {}"
    by (auto simp: compute_control_contexts_def Let_def)
qed

theorem classified_sites_witness:
  "dom (cm_callsite (compute_control_contexts (Some sample_body) [''inline''] [] [])) = {''a'', ''b''}"
  using classified_sites [OF sample_body_facts(1), of "[''inline'']" "[]" "[]"]
  by (simp add: sample_body_facts is_try_function_def)

text \<open>
  Contexts only grow inwards: whatever a walk of a subtree in a context assigns is
  at least as restrictive as that context, or an error path inside dead code.
\<close>

theorem context_floor:
  assumes "well_formed n" "by_callsite (collect_node n a res) i = Some c" "by_callsite res i \<noteq> Some c"
  shows "a \<le> c \<or> (a = Unreachable \<and> c = ErrorPath)"
proof -
  from collectsD [OF reachable.collects_all [OF assms(1)], of a res] obtain tr where
    tr: "collect_node n a res = assign_all tr res" "\<forall>p\<in>set tr. min (ctx_rank a) 4 \<le> ctx_rank (snd p)"
    by (auto simp: walk_spec_def)
  with assms(2,3) obtain l where "(l, c) \<in> set tr"
    by (auto simp: assign_all_maps dest: insert_all_from)
  with tr(2) have "min (ctx_rank a) 4 \<le> ctx_rank c" by auto
  then show ?thesis by (cases a; cases c) (simp_all add: ctx_order)
qed

theorem context_floor_witness:
  "LoopBody \<le> LoopBody \<or> (LoopBody = Unreachable \<and> LoopBody = ErrorPath)"
  by (rule context_floor [of "call_node ''a''" LoopBody
      "\<lparr> by_callsite = Map.empty, by_operation = Map.empty, guard = build_guard_eligibility [] [] \<rparr>" "''a''" LoopBody])
    (simp_all add: well_formed.simps collect_node.simps assign_leaf_def insert_opt_def kind_defs)

lemma call_arg_names_set:
  "set (call_arg_names css) =
     {t. t \<noteq> [] \<and> (\<exists>cs\<in>set css. \<exists>arg\<in>set (cs_argument_texts cs). t = to_lowercase (trim arg))}"
proof -
  let ?arg = "\<lambda>arg acc. let t = to_lowercase (trim arg) in if t \<noteq> [] then push_new t acc else acc"
  have args: "set (fold ?arg as acc) = set acc \<union> {t. t \<noteq> [] \<and> (\<exists>arg\<in>set as. t = to_lowercase (trim arg))}" for as acc
    by (induction as arbitrary: acc) (auto simp: Let_def)
  have "set (fold (\<lambda>cs. fold ?arg (cs_argument_texts cs)) css acc) = set acc \<union>
      {t. t \<noteq> [] \<and> (\<exists>cs\<in>set css. \<exists>arg\<in>set (cs_argument_texts cs). t = to_lowercase (trim arg))}" for acc
    by (induction css arbitrary: acc) (auto simp: args)
  then show ?thesis by (simp add: call_arg_names_def)
qed

lemma fold_push_if:
  "set (fold (\<lambda>v acc. if P v then push_new (f v) acc else acc) vs acc) = set acc \<union> f ` {v \<in> set vs. P v}"
  "distinct acc \<Longrightarrow> distinct (fold (\<lambda>v acc. if P v then push_new (f v) acc else acc) vs acc)"
  by (induction vs arbitrary: acc) auto

text \<open>
  The \<open>IsHandled\<close> variables are exactly the lowercased names of the Boolean variables
  that are not parameters and that some call passes as a whole argument, each once.
\<close>

theorem is_handled_vars_exact:
  "distinct (derive_is_handled_vars ft) \<and>
   (x \<in> set (derive_is_handled_vars ft) \<longleftrightarrow>
     (\<exists>v cs arg. v \<in> set (ft_variables ft) \<and> vs_scope v \<noteq> ''parameter'' \<and>
       to_lowercase (trim (vs_declared_type v)) = ''boolean'' \<and> x = to_lowercase (vs_name v) \<and> x \<noteq> [] \<and>
       cs \<in> set (ft_call_sites ft) \<and> arg \<in> set (cs_argument_texts cs) \<and> x = to_lowercase (trim arg)))"
  unfolding derive_is_handled_vars_def Let_def
  by (simp add: fold_push_if call_arg_names_set) blast

lemma derive_contexts_irrelevant:
  "derive_is_handled_vars (ft \<lparr> ft_call_sites := map (\<lambda>cs. cs \<lparr> cs_control_context := f cs \<rparr>) (ft_call_sites ft),
     ft_operation_sites := ops \<rparr>) = derive_is_handled_vars ft"
  by (simp add: derive_is_handled_vars_def call_arg_names_def fold_map o_def)

lemma paired_site_contexts:
  "paired_site (map (\<lambda>cs. cs \<lparr> cs_control_context := f cs \<rparr>) css) (op \<lparr> os_control_context := g \<rparr>) =
     map_option (\<lambda>cs. cs \<lparr> cs_control_context := f cs \<rparr>) (paired_site css op)"
  unfolding paired_site_def by (induction css) auto

lemma inherit_contexts_irrelevant:
  "inherit_error_calls (map (\<lambda>cs. cs \<lparr> cs_control_context := f cs \<rparr>) css)
     (map (\<lambda>op. op \<lparr> os_control_context := g op \<rparr>) ops) m m' = inherit_error_calls css ops m m'"
proof -
  have "inherit_step (map (\<lambda>cs. cs \<lparr> cs_control_context := f cs \<rparr>) css) m (op \<lparr> os_control_context := g op \<rparr>) = inherit_step css m op" for op
    by (rule ext) (simp add: inherit_step_def paired_site_contexts split: option.split)
  then show ?thesis by (simp add: inherit_error_calls_def fold_map o_def)
qed

text \<open>
  Applying the pass is a projection: a second application changes nothing, and the
  pass writes only the context fields of the sites.
\<close>

theorem apply_control_contexts_idem:
  "apply_control_contexts (apply_control_contexts ft attrs ps) attrs ps = apply_control_contexts ft attrs ps \<and>
   ft_statement_tree (apply_control_contexts ft attrs ps) = ft_statement_tree ft \<and>
   map (\<lambda>cs. cs \<lparr> cs_control_context := None \<rparr>) (ft_call_sites (apply_control_contexts ft attrs ps)) =
     map (\<lambda>cs. cs \<lparr> cs_control_context := None \<rparr>) (ft_call_sites ft)"
  by (simp add: apply_control_contexts_def Let_def derive_contexts_irrelevant inherit_contexts_irrelevant o_def)

definition early_exit_body :: cfn_node where
  "early_exit_body = block_node [node_of ''if'' None []
     [block_node [call_node ''b'', node_of ''if'' None [] [block_node [node_of ''exit'' None [] [] []]] [],
        node_of ''error'' (Some ''f'') [] [] []]] []]"

lemma early_exit_run:
  "run free early_exit_body [call_node ''b'', node_of ''exit'' None [] [] []] Exits"
proof -
  let ?x = "node_of ''exit'' None [] [] []"
  let ?inner = "node_of ''if'' None [] [block_node [?x]] []"
  let ?arm = "block_node [call_node ''b'', ?inner, node_of ''error'' (Some ''f'') [] [] []]"
  have "run free ?x ([] @ [?x]) Exits" by (intro run_exit) simp_all
  then have "run free (block_node [?x]) [?x] Exits" by (simp add: run_block_iff run_list_single)
  then have "run free ?inner ([] @ [?x]) Exits"
    by (intro run_then) (simp_all add: first_arm_def run_list_single)
  then have "run_list free (children_of ?arm) ([call_node ''b''] @ [?x]) Exits"
    unfolding node_of_simps by (intro list_step [OF run_call_node] list_stop) simp_all
  then have "run free ?arm [call_node ''b'', ?x] Exits" by (simp add: run_block_iff)
  then have "run free (node_of ''if'' None [] [?arm] []) ([] @ [call_node ''b'', ?x]) Exits"
    by (intro run_then) (simp_all add: first_arm_def run_list_single)
  then show ?thesis by (simp add: early_exit_body_def run_block_iff run_list_single)
qed

text \<open>
  The restriction of the previous property is needed: in
  \<open>if c then begin B(); if d then exit; Error() end\<close> the walk classifies \<open>B()\<close> as an error path,
  although the routine can return normally right after it.
\<close>

theorem error_path_executed_normally:
  "run free early_exit_body [call_node ''b'', node_of ''exit'' None [] [] []] Exits \<and>
   cm_callsite (compute_control_contexts (Some early_exit_body) [] [] []) ''b'' = Some ErrorPath"
  using early_exit_run
  by (simp add: early_exit_body_def walker_eval)

end
