(* ===== verification/Operation_Order.thy ===== *)
theory Operation_Order
  imports Control_Context
begin

text \<open>
  The operation-order index (\<open>src/src/program/body/operation_order.rs\<close>): a pre-order number, a
  scope frame and two path facts for every site of a body, and the table of scope frames. The
  walk has the same shape as the control-context walk; the last section relates the two.
\<close>

section \<open>State\<close>

record order_walk =
  ow_callsite :: "string \<rightharpoonup> operation_order"
  ow_operation :: "string \<rightharpoonup> operation_order"
  ow_scope_frames :: "scope_frame list"
  ow_next_order_id :: u32
  ow_next_frame_id :: int

record branch_info =
  bi_always_terminates :: bool
  bi_by :: "string option"

definition push_frame :: "int \<Rightarrow> string \<Rightarrow> branch_info option \<Rightarrow> order_walk \<Rightarrow> int \<times> order_walk" where
  "push_frame parent kind info res =
     (let fid = ow_next_frame_id res;
          (always, by, may) = (case info of
              Some i \<Rightarrow> (Some (bi_always_terminates i),
                         if bi_always_terminates i then bi_by i else None,
                         Some (\<not> bi_always_terminates i))
            | None \<Rightarrow> (None, None, None))
      in (fid, res \<lparr> ow_next_frame_id := fid + 1,
            ow_scope_frames := ow_scope_frames res @
              [\<lparr> sf_frame_id = fid, sf_parent_frame_id = parent, sf_kind = kind,
                 sf_branch_always_terminates = always, sf_branch_may_fall_through = may,
                 sf_branch_terminates_by = by \<rparr>] \<rparr>))"

definition termination_kind :: "Termination \<Rightarrow> string option" where
  "termination_kind t = (case t of TExit \<Rightarrow> Some ''exit'' | TError \<Rightarrow> Some ''error'' | TFallthrough \<Rightarrow> None)"

text \<open>The frame information of an arm with the given termination.\<close>

definition arm_info :: "Termination \<Rightarrow> branch_info" where
  "arm_info t = (let always = terminates t
     in \<lparr> bi_always_terminates = always, bi_by = (if always then termination_kind t else None) \<rparr>)"

definition order_assign_leaf :: "cfn_node \<Rightarrow> int \<Rightarrow> bool \<Rightarrow> bool \<Rightarrow> order_walk \<Rightarrow> order_walk" where
  "order_assign_leaf n fid success dominates res =
     (let ord = \<lparr> order_id = ow_next_order_id res, frame_id = fid, on_success_path = success,
                  dominates_success_return = dominates \<rparr>
      in res \<lparr> ow_next_order_id := ow_next_order_id res + 1,
               ow_operation := insert_opt (nd_operation_id n) ord (ow_operation res),
               ow_callsite := insert_opt (nd_callsite_id n) ord (ow_callsite res) \<rparr>)"

section \<open>The walker\<close>

definition can_normal_return_before_after :: "cfn_node \<Rightarrow> bool" where
  "can_normal_return_before_after stmt =
     (if nd_kind stmt = ''if'' then
        (let then_term = arm_termination stmt; else_term = else_termination stmt
         in if \<not> has_explicit_else stmt \<and> then_term = TError then False
            else if \<not> has_explicit_else stmt \<and> then_term = TExit then True
            else if has_explicit_else stmt then
              (then_term = TExit \<and> else_term \<noteq> TExit) \<or> (else_term = TExit \<and> then_term \<noteq> TExit)
            else False)
      else if nd_kind stmt = ''case'' then
        list_ex (\<lambda>b. arm_termination b = TExit) (children_of stmt)
      else False)"

text \<open>
  \<open>order_stmts\<close> is the loop of \<open>walk_block\<close> with its two flags; \<open>order_branches\<close> the loop of
  \<open>walk_case_node\<close>; \<open>order_collect_nodes\<close> the loops over a slice, among them the one over the
  condition leaves, which passes \<open>dominates = False\<close>.
\<close>

function (sequential)
      order_block :: "cfn_node \<Rightarrow> int \<Rightarrow> bool \<Rightarrow> bool \<Rightarrow> order_walk \<Rightarrow> bool \<times> order_walk"
  and order_stmts :: "cfn_node list \<Rightarrow> int \<Rightarrow> bool \<Rightarrow> bool \<Rightarrow> bool \<Rightarrow> bool \<Rightarrow> order_walk \<Rightarrow> bool \<times> order_walk"
  and order_if_node :: "cfn_node \<Rightarrow> int \<Rightarrow> bool \<Rightarrow> order_walk \<Rightarrow> bool \<times> order_walk"
  and order_case_node :: "cfn_node \<Rightarrow> int \<Rightarrow> bool \<Rightarrow> order_walk \<Rightarrow> order_walk"
  and order_branches :: "cfn_node list \<Rightarrow> int \<Rightarrow> bool \<Rightarrow> order_walk \<Rightarrow> order_walk"
  and order_loop_node :: "cfn_node \<Rightarrow> int \<Rightarrow> bool \<Rightarrow> order_walk \<Rightarrow> order_walk"
  and order_collect_node :: "cfn_node \<Rightarrow> int \<Rightarrow> bool \<Rightarrow> bool \<Rightarrow> order_walk \<Rightarrow> order_walk"
  and order_collect_nodes :: "cfn_node list \<Rightarrow> int \<Rightarrow> bool \<Rightarrow> bool \<Rightarrow> order_walk \<Rightarrow> order_walk"
where
  "order_block n fid success is_root res =
     order_stmts (if nd_kind n = ''block'' then children_of n else [n]) fid success is_root True False res"
| "order_stmts [] fid success is_root reachable nrp res = (reachable, res)"
| "order_stmts (s # ss) fid success is_root reachable nrp res =
     (if \<not> reachable then
        order_stmts ss fid success is_root reachable nrp (order_collect_node s fid False False res)
      else if nd_kind s = ''error'' \<or> nd_kind s = ''exit'' then
        order_stmts ss fid success is_root False nrp
          (order_assign_leaf s fid success False
            (order_collect_nodes (condition_leaves_of s) fid success False res))
      else if nd_kind s = ''if'' then
        (case order_if_node s fid success res of (still_reachable, res') \<Rightarrow>
           order_stmts ss fid success is_root (reachable \<and> still_reachable)
             (nrp \<or> (is_root \<and> can_normal_return_before_after s)) res')
      else if nd_kind s = ''case'' then
        order_stmts ss fid success is_root reachable
          (nrp \<or> (is_root \<and> can_normal_return_before_after s)) (order_case_node s fid success res)
      else if is_loop_kind (nd_kind s) then
        order_stmts ss fid success is_root reachable nrp (order_loop_node s fid success res)
      else
        order_stmts ss fid success is_root reachable nrp
          (order_collect_node s fid success (is_root \<and> \<not> nrp) res))"
| "order_if_node n fid success res =
     (let res1 = order_collect_nodes (condition_leaves_of n) fid success False res;
          then_body = first_of (children_of n); else_body = first_of (else_children_of n);
          then_term = arm_termination n; else_term = else_termination n
      in if \<not> has_explicit_else n \<and> then_term = TError then
           (True, case then_body of None \<Rightarrow> res1
              | Some b \<Rightarrow> (case push_frame fid ''if-then'' (Some \<lparr> bi_always_terminates = True, bi_by = Some ''error'' \<rparr>) res1
                  of (f, r) \<Rightarrow> order_collect_node b f False False r))
         else
           let res2 = (case then_body of None \<Rightarrow> res1
                 | Some b \<Rightarrow> (case push_frame fid ''if-then'' (Some (arm_info then_term)) res1
                     of (f, r) \<Rightarrow> order_collect_node b f (if then_term \<noteq> TError then success else False) False r));
               res3 = (case else_body of None \<Rightarrow> res2
                 | Some b \<Rightarrow> (case push_frame fid ''if-else'' (Some (arm_info else_term)) res2
                     of (f, r) \<Rightarrow> order_collect_node b f (if else_term \<noteq> TError then success else False) False r))
           in (then_term = TFallthrough \<or> else_term = TFallthrough, res3))"
| "order_case_node n fid success res =
     order_branches (children_of n) fid success
       (order_collect_nodes (condition_leaves_of n) fid success False res)"
| "order_branches [] fid success res = res"
| "order_branches (b # bs) fid success res =
     (let term = arm_termination b
      in case push_frame fid ''case-branch'' (Some (arm_info term)) res of (f, r) \<Rightarrow>
           order_branches bs fid success
             (order_collect_nodes (children_of b) f (if term \<noteq> TError then success else False) False r))"
| "order_loop_node n fid success res =
     (let res1 = order_collect_nodes (condition_leaves_of n) fid success False res
      in case push_frame fid ''loop'' None res1 of (f, r) \<Rightarrow>
           if nd_kind n = ''repeat'' then snd (order_block (synthetic_block n) f success False r)
           else case first_of (children_of n) of None \<Rightarrow> r | Some b \<Rightarrow> order_collect_node b f success False r)"
| "order_collect_node n fid success dominates res =
     (if nd_kind n = ''block'' then snd (order_block n fid success False res)
      else if nd_kind n = ''if'' then snd (order_if_node n fid success res)
      else if nd_kind n = ''case'' then order_case_node n fid success res
      else if nd_kind n = ''case-branch'' then order_collect_nodes (children_of n) fid success False res
      else if is_loop_kind (nd_kind n) then order_loop_node n fid success res
      else if nd_kind n = ''try'' then
        (case push_frame fid ''try'' None res of (f, r) \<Rightarrow> order_collect_nodes (children_of n) f success False r)
      else if nd_kind n = ''op'' \<or> nd_kind n = ''call'' then
        order_assign_leaf n fid success dominates
          (order_collect_nodes (condition_leaves_of n) fid success False res)
      else if nd_kind n = ''error'' \<or> nd_kind n = ''exit'' then
        order_assign_leaf n fid success False
          (order_collect_nodes (condition_leaves_of n) fid success False res)
      else order_collect_nodes (children_of n) fid success dominates
             (order_collect_nodes (condition_leaves_of n) fid success False res))"
| "order_collect_nodes [] fid success dominates res = res"
| "order_collect_nodes (n # ns) fid success dominates res =
     order_collect_nodes ns fid success dominates (order_collect_node n fid success dominates res)"
  by pat_completeness auto
termination
  by (relation "measures [
     \<lambda>x. case x of
         Inl (Inl (Inl (n, _))) \<Rightarrow> Suc (nodes_size (if nd_kind n = ''block'' then children_of n else [n]))
       | Inl (Inl (Inr (ss, _))) \<Rightarrow> nodes_size ss
       | Inl (Inr (Inl (n, _))) \<Rightarrow> size n
       | Inl (Inr (Inr (n, _))) \<Rightarrow> size n
       | Inr (Inl (Inl (bs, _))) \<Rightarrow> nodes_size bs
       | Inr (Inl (Inr (n, _))) \<Rightarrow> size n
       | Inr (Inr (Inl (n, _))) \<Rightarrow> size n
       | Inr (Inr (Inr (ns, _))) \<Rightarrow> nodes_size ns,
     \<lambda>x. case x of
         Inl (Inl _) \<Rightarrow> 0
       | Inl (Inr _) \<Rightarrow> 1
       | Inr (Inl _) \<Rightarrow> 1
       | Inr (Inr (Inl _)) \<Rightarrow> 2
       | Inr (Inr (Inr _)) \<Rightarrow> 0]")
    (auto intro: cfn_sizes simp: Suc_le_eq less_Suc_eq_le)

declare order_block.simps [simp del] order_if_node.simps [simp del] order_case_node.simps [simp del]
  order_loop_node.simps [simp del] order_collect_node.simps [simp del]

section \<open>Entry points\<close>

record operation_order_result =
  oo_callsite :: "string \<rightharpoonup> operation_order"
  oo_operation :: "string \<rightharpoonup> operation_order"
  oo_scope_frames :: "scope_frame list"

definition order_start :: order_walk where
  "order_start = \<lparr> ow_callsite = Map.empty, ow_operation = Map.empty, ow_scope_frames = [],
     ow_next_order_id = 0, ow_next_frame_id = 0 \<rparr>"

definition compute_operation_order :: "cfn_node option \<Rightarrow> string list \<Rightarrow> operation_order_result" where
  "compute_operation_order tree attrs =
     (let maps = (\<lambda>r. \<lparr> oo_callsite = ow_callsite r, oo_operation = ow_operation r, oo_scope_frames = ow_scope_frames r \<rparr>)
      in if is_try_function attrs then maps order_start
         else case tree of
             None \<Rightarrow> maps order_start
           | Some t \<Rightarrow> (case push_frame (-1) ''block'' None order_start of (root, res) \<Rightarrow>
                          maps (snd (order_block t root True True res))))"

definition apply_operation_order :: "features \<Rightarrow> string list \<Rightarrow> features" where
  "apply_operation_order ft attrs =
     (let order = compute_operation_order (ft_statement_tree ft) attrs;
          by_op = inherit_error_calls (ft_call_sites ft) (ft_operation_sites ft) (oo_callsite order) (oo_operation order)
      in ft \<lparr> ft_call_sites := map (\<lambda>cs. cs \<lparr> cs_order := oo_callsite order (cs_id cs) \<rparr>) (ft_call_sites ft),
              ft_operation_sites := map (\<lambda>op. op \<lparr> os_order := by_op (os_id op) \<rparr>) (ft_operation_sites ft),
              ft_scope_frames := oo_scope_frames order \<rparr>)"

section \<open>What every walk does to the state\<close>

definition order_assign_all :: "(cfn_node \<times> operation_order) list \<Rightarrow> order_walk \<Rightarrow> order_walk \<Rightarrow> bool" where
  "order_assign_all tr res res' =
     (ow_callsite res' = insert_all nd_callsite_id tr (ow_callsite res) \<and>
      ow_operation res' = insert_all nd_operation_id tr (ow_operation res))"

text \<open>New frames get consecutive ids; a new frame's parent is \<open>fid\<close> or an earlier new frame.\<close>

definition frames_from :: "int \<Rightarrow> int \<Rightarrow> scope_frame list \<Rightarrow> bool" where
  "frames_from fid next fr = (\<forall>k < length fr. sf_frame_id (fr ! k) = next + int k \<and>
     (sf_parent_frame_id (fr ! k) = fid \<or>
      (next \<le> sf_parent_frame_id (fr ! k) \<and> sf_parent_frame_id (fr ! k) < next + int k)))"

text \<open>
  \<open>order_spec M fid ls res res'\<close>: a walk in the frame \<open>fid\<close> gives the leaves \<open>ls\<close>, in this order,
  the next order ids; it appends frames; every leaf is put in \<open>fid\<close> or in a new frame; and only
  leaves of \<open>M\<close> are marked as dominating.
\<close>

definition order_spec :: "cfn_node set \<Rightarrow> int \<Rightarrow> cfn_node list \<Rightarrow> order_walk \<Rightarrow> order_walk \<Rightarrow> bool" where
  "order_spec M fid ls res res' = (\<exists>tr fr.
     order_assign_all tr res res' \<and> map fst tr = ls \<and>
     (\<forall>k < length tr. order_id (snd (tr ! k)) = ow_next_order_id res + of_nat k) \<and>
     ow_next_order_id res' = ow_next_order_id res + of_nat (length tr) \<and>
     ow_scope_frames res' = ow_scope_frames res @ fr \<and>
     ow_next_frame_id res' = ow_next_frame_id res + int (length fr) \<and>
     frames_from fid (ow_next_frame_id res) fr \<and>
     (\<forall>p\<in>set tr. frame_id (snd p) = fid \<or>
        (ow_next_frame_id res \<le> frame_id (snd p) \<and> frame_id (snd p) < ow_next_frame_id res')) \<and>
     (\<forall>p\<in>set tr. dominates_success_return (snd p) \<longrightarrow> fst p \<in> M))"

lemma insert_all_append: "insert_all key (tr1 @ tr2) m = insert_all key tr2 (insert_all key tr1 m)"
  by (simp add: insert_all_def)

lemma frames_from_append:
  assumes "frames_from fid next fr1" "frames_from fid (next + int (length fr1)) fr2"
  shows "frames_from fid next (fr1 @ fr2)"
  unfolding frames_from_def
proof (intro allI impI)
  fix k assume k: "k < length (fr1 @ fr2)"
  show "sf_frame_id ((fr1 @ fr2) ! k) = next + int k \<and> (sf_parent_frame_id ((fr1 @ fr2) ! k) = fid \<or>
      (next \<le> sf_parent_frame_id ((fr1 @ fr2) ! k) \<and> sf_parent_frame_id ((fr1 @ fr2) ! k) < next + int k))"
  proof (cases "k < length fr1")
    case True
    with assms(1) show ?thesis by (simp add: frames_from_def nth_append)
  next
    case False
    then obtain j where j: "k = length fr1 + j" by (metis le_Suc_ex not_less)
    with k have "j < length fr2" by simp
    with assms(2) j show ?thesis by (fastforce simp: frames_from_def nth_append)
  qed
qed

lemma order_spec_nil: "order_spec M fid [] res res"
  unfolding order_spec_def
  by (intro exI [of _ "[]"]) (simp add: order_assign_all_def frames_from_def)

lemma order_spec_leaf:
  assumes "d \<Longrightarrow> n \<in> M"
  shows "order_spec M fid [n] res (order_assign_leaf n fid success d res)"
  unfolding order_spec_def
  by (intro exI [of _ "[(n, \<lparr> order_id = ow_next_order_id res, frame_id = fid, on_success_path = success,
      dominates_success_return = d \<rparr>)]"] exI [of _ "[]"])
    (simp add: order_assign_all_def frames_from_def order_assign_leaf_def Let_def assms)

lemma order_spec_seq:
  assumes "order_spec M fid ls1 res res1" "order_spec M fid ls2 res1 res2"
  shows "order_spec M fid (ls1 @ ls2) res res2"
proof -
  from assms(1) obtain tr1 fr1 where 1: "order_assign_all tr1 res res1" "map fst tr1 = ls1"
    "\<forall>k < length tr1. order_id (snd (tr1 ! k)) = ow_next_order_id res + of_nat k"
    "ow_next_order_id res1 = ow_next_order_id res + of_nat (length tr1)"
    "ow_scope_frames res1 = ow_scope_frames res @ fr1"
    "ow_next_frame_id res1 = ow_next_frame_id res + int (length fr1)"
    "frames_from fid (ow_next_frame_id res) fr1"
    "\<forall>p\<in>set tr1. frame_id (snd p) = fid \<or>
        (ow_next_frame_id res \<le> frame_id (snd p) \<and> frame_id (snd p) < ow_next_frame_id res1)"
    "\<forall>p\<in>set tr1. dominates_success_return (snd p) \<longrightarrow> fst p \<in> M"
    unfolding order_spec_def by auto
  from assms(2) obtain tr2 fr2 where 2: "order_assign_all tr2 res1 res2" "map fst tr2 = ls2"
    "\<forall>k < length tr2. order_id (snd (tr2 ! k)) = ow_next_order_id res1 + of_nat k"
    "ow_next_order_id res2 = ow_next_order_id res1 + of_nat (length tr2)"
    "ow_scope_frames res2 = ow_scope_frames res1 @ fr2"
    "ow_next_frame_id res2 = ow_next_frame_id res1 + int (length fr2)"
    "frames_from fid (ow_next_frame_id res1) fr2"
    "\<forall>p\<in>set tr2. frame_id (snd p) = fid \<or>
        (ow_next_frame_id res1 \<le> frame_id (snd p) \<and> frame_id (snd p) < ow_next_frame_id res2)"
    "\<forall>p\<in>set tr2. dominates_success_return (snd p) \<longrightarrow> fst p \<in> M"
    unfolding order_spec_def by auto
  have ids: "order_id (snd ((tr1 @ tr2) ! k)) = ow_next_order_id res + of_nat k" if "k < length (tr1 @ tr2)" for k
  proof (cases "k < length tr1")
    case True
    with 1(3) show ?thesis by (simp add: nth_append)
  next
    case False
    then obtain j where j: "k = length tr1 + j" by (metis le_Suc_ex not_less)
    with that 2(3) 1(4) show ?thesis by (simp add: nth_append add.assoc)
  qed
  have fr: "frames_from fid (ow_next_frame_id res) (fr1 @ fr2)"
    by (rule frames_from_append) (use 1(6,7) 2(7) in simp_all)
  have frame: "frame_id (snd p) = fid \<or>
      (ow_next_frame_id res \<le> frame_id (snd p) \<and> frame_id (snd p) < ow_next_frame_id res2)" if "p \<in> set (tr1 @ tr2)" for p
    using that 1(6,8) 2(6,8) by fastforce
  show ?thesis unfolding order_spec_def
    by (intro exI [of _ "tr1 @ tr2"] exI [of _ "fr1 @ fr2"])
      (use 1 2 ids fr frame in \<open>auto simp: order_assign_all_def insert_all_append\<close>)
qed

lemma order_spec_mono: "order_spec M fid ls res res' \<Longrightarrow> M \<subseteq> N \<Longrightarrow> order_spec N fid ls res res'"
  unfolding order_spec_def by (elim ex_forward) auto

text \<open>A frame is pushed and the walk goes on inside it.\<close>

lemma order_spec_push:
  assumes "push_frame fid kind info res = (f, r)" "order_spec M f ls r res'"
  shows "order_spec M fid ls res res'"
proof -
  from assms(1) obtain new where r: "f = ow_next_frame_id res" "ow_next_frame_id r = ow_next_frame_id res + 1"
    "ow_scope_frames r = ow_scope_frames res @ [new]" "sf_frame_id new = f" "sf_parent_frame_id new = fid"
    "ow_callsite r = ow_callsite res" "ow_operation r = ow_operation res" "ow_next_order_id r = ow_next_order_id res"
    by (auto simp: push_frame_def Let_def split: prod.splits)
  from assms(2) obtain tr fr where s: "order_assign_all tr r res'" "map fst tr = ls"
    "\<forall>k < length tr. order_id (snd (tr ! k)) = ow_next_order_id r + of_nat k"
    "ow_next_order_id res' = ow_next_order_id r + of_nat (length tr)"
    "ow_scope_frames res' = ow_scope_frames r @ fr"
    "ow_next_frame_id res' = ow_next_frame_id r + int (length fr)"
    "frames_from f (ow_next_frame_id r) fr"
    "\<forall>p\<in>set tr. frame_id (snd p) = f \<or>
        (ow_next_frame_id r \<le> frame_id (snd p) \<and> frame_id (snd p) < ow_next_frame_id res')"
    "\<forall>p\<in>set tr. dominates_success_return (snd p) \<longrightarrow> fst p \<in> M"
    unfolding order_spec_def by auto
  have fr: "frames_from fid (ow_next_frame_id res) (new # fr)"
    unfolding frames_from_def
  proof (intro allI impI)
    fix k assume "k < length (new # fr)"
    then show "sf_frame_id ((new # fr) ! k) = ow_next_frame_id res + int k \<and>
        (sf_parent_frame_id ((new # fr) ! k) = fid \<or> (ow_next_frame_id res \<le> sf_parent_frame_id ((new # fr) ! k) \<and>
           sf_parent_frame_id ((new # fr) ! k) < ow_next_frame_id res + int k))"
      using r s(7) by (cases k) (fastforce simp: frames_from_def)+
  qed
  show ?thesis unfolding order_spec_def
    by (intro exI [of _ tr] exI [of _ "new # fr"]) (use r s fr in \<open>auto simp: order_assign_all_def\<close>)
qed

section \<open>Sites every successful execution passes\<close>

text \<open>
  \<open>straight n\<close>: \<open>n\<close> is not an optional alternative of a ternary, nor under \<open>asserterror\<close>; checked
  on leaves and through plain wrappers, the nodes that inherit the dominance flag.
\<close>

definition is_wrapper :: "string \<Rightarrow> bool" where
  "is_wrapper k = (k \<noteq> ''block'' \<and> k \<noteq> ''if'' \<and> k \<noteq> ''case'' \<and> k \<noteq> ''case-branch'' \<and> \<not> is_loop_kind k \<and>
     k \<noteq> ''try'' \<and> \<not> leaf_kind k)"

function straight :: "cfn_node \<Rightarrow> bool" where
  "straight n =
     ((leaf_kind (nd_kind n) \<or> is_wrapper (nd_kind n) \<longrightarrow>
         nd_path_hint n \<noteq> Some MayRun \<and> nd_path_hint n \<noteq> Some AssertError) \<and>
      (is_wrapper (nd_kind n) \<longrightarrow> list_all straight (children_of n)))"
  by pat_completeness auto
termination
  by (relation "measure size") (auto intro: cfn_sizes)

declare straight.simps [simp del]

definition must :: "cfn_node \<Rightarrow> cfn_node set" where
  "must n = {l. straight n \<longrightarrow> (\<forall>ok es. run ok n es Falls \<longrightarrow> l \<in> set es)}"

definition must_list :: "cfn_node list \<Rightarrow> cfn_node set" where
  "must_list ns = {l. list_all straight ns \<longrightarrow> (\<forall>ok es. run_list ok ns es Falls \<longrightarrow> l \<in> set es)}"

lemma must_list_Cons: "must n \<subseteq> must_list (n # ns)" "must_list ns \<subseteq> must_list (n # ns)"
  by (auto simp: must_def must_list_def elim!: run_list_ConsE)

lemma must_leaf: "nd_kind n = ''op'' \<or> nd_kind n = ''call'' \<Longrightarrow> n \<in> must n"
  by (auto simp: must_def straight.simps [of n] kind_defs elim!: run_leafE)

lemma must_wrapper:
  assumes "is_wrapper (nd_kind n)"
  shows "must_list (children_of n) \<subseteq> must n"
proof
  fix l assume l: "l \<in> must_list (children_of n)"
  show "l \<in> must n"
    unfolding must_def
  proof (intro CollectI impI allI)
    fix ok es assume s: "straight n" and r: "run ok n es Falls"
    show "l \<in> set es"
    proof (cases "nd_kind n = ''break'' \<or> nd_kind n = ''continue''")
      case True
      with r show ?thesis by (cases rule: run.cases) (auto simp: kind_defs)
    next
      case False
      with assms have k: "\<not> compound_kind (nd_kind n)" by (simp add: is_wrapper_def compound_kind_def)
      from r k show ?thesis
        by (cases rule: run_otherE) (use l s assms in \<open>auto simp: must_list_def straight.simps [of n]\<close>)
    qed
  qed
qed

section \<open>The walk meets its specification\<close>

definition o_collects :: "cfn_node \<Rightarrow> bool" where
  "o_collects n = (\<forall>fid s d res.
     order_spec (if d then must n else {}) fid (leaves n) res (order_collect_node n fid s d res))"

lemma o_collectsD:
  "o_collects n \<Longrightarrow> order_spec {} fid (leaves n) res (order_collect_node n fid s False res)"
  "o_collects n \<Longrightarrow> order_spec (must n) fid (leaves n) res (order_collect_node n fid s d res)"
proof -
  assume n: "o_collects n"
  show "order_spec {} fid (leaves n) res (order_collect_node n fid s False res)"
    using n unfolding o_collects_def by (metis (full_types))
  show "order_spec (must n) fid (leaves n) res (order_collect_node n fid s d res)"
    by (rule order_spec_mono [of "if d then must n else {}"]) (use n in \<open>simp_all add: o_collects_def\<close>)
qed

lemma o_collects_list:
  "list_all o_collects ns \<Longrightarrow>
     order_spec {} fid (leaves_list ns) res (order_collect_nodes ns fid s False res)"
  by (induction ns arbitrary: res) (auto simp: order_spec_nil intro: order_spec_seq o_collectsD)

lemma o_collects_list_must:
  "list_all o_collects ns \<Longrightarrow>
     order_spec (must_list ns) fid (leaves_list ns) res (order_collect_nodes ns fid s d res)"
proof (induction ns arbitrary: res)
  case Nil
  then show ?case by (simp add: order_spec_nil)
next
  case (Cons n ns)
  have "order_spec (must_list (n # ns)) fid (leaves n) res (order_collect_node n fid s d res)"
    by (rule order_spec_mono [OF o_collectsD(2) must_list_Cons(1)]) (use Cons in simp)
  moreover have "order_spec (must_list (n # ns)) fid (leaves_list ns) (order_collect_node n fid s d res)
      (order_collect_nodes ns fid s d (order_collect_node n fid s d res))"
    by (rule order_spec_mono [OF Cons.IH must_list_Cons(2)]) (use Cons in simp)
  ultimately show ?case by (simp add: order_spec_seq)
qed

lemma order_push_arm:
  assumes "\<And>b. first_of ns = Some b \<Longrightarrow> o_collects b"
  shows "order_spec {} fid (leaves_list (first_arm ns)) res
    (case first_of ns of None \<Rightarrow> res
     | Some b \<Rightarrow> (case push_frame fid k info res of (f, r) \<Rightarrow> order_collect_node b f s False r))"
  using assms order_spec_push [OF _ o_collectsD(1)]
  by (cases ns) (auto simp: first_arm_def order_spec_nil split: prod.splits)

lemma order_spec_walkers:
  assumes "o_collects n"
  shows "nd_kind n = ''if'' \<Longrightarrow> order_spec {} fid (leaves n) res (snd (order_if_node n fid s res))"
    "nd_kind n = ''case'' \<Longrightarrow> order_spec {} fid (leaves n) res (order_case_node n fid s res)"
    "is_loop_kind (nd_kind n) \<Longrightarrow> order_spec {} fid (leaves n) res (order_loop_node n fid s res)"
    "nd_kind n = ''error'' \<or> nd_kind n = ''exit'' \<Longrightarrow> order_spec {} fid (leaves n) res
       (order_assign_leaf n fid s False (order_collect_nodes (condition_leaves_of n) fid s False res))"
  using o_collectsD(1) [OF assms, of fid res s] by (auto simp: order_collect_node.simps [of n] kind_defs)

text \<open>
  A root statement is \<open>settled\<close> when the walk does not overlook a normal return in it: it ends
  the block, the walk notices that it may return, or it cannot jump and is not optional.
\<close>

definition both_terminate :: "cfn_node \<Rightarrow> bool" where
  "both_terminate n = (arm_termination n \<noteq> TFallthrough \<and> else_termination n \<noteq> TFallthrough)"

definition settled :: "cfn_node \<Rightarrow> bool" where
  "settled s = (nd_kind s = ''exit'' \<or> nd_kind s = ''error'' \<or> can_normal_return_before_after s \<or>
     (nd_kind s = ''if'' \<and> both_terminate s) \<or> (exit_free s \<and> straight s))"

definition root_must :: "cfn_node list \<Rightarrow> cfn_node set" where
  "root_must ss = {l. list_all settled ss \<longrightarrow>
     (\<forall>ok es r. run_list ok ss es r \<longrightarrow> r = Falls \<or> r = Exits \<longrightarrow> l \<in> set es)}"

lemma both_terminate_stop: "nd_kind n = ''if'' \<Longrightarrow> both_terminate n \<Longrightarrow> run ok n es r \<Longrightarrow> r \<noteq> Falls"
  using if_no_continuation [of g n a ok es r for g a]
  by (simp add: both_terminate_def if_continuation_def Let_def)

lemma root_must_tail:
  assumes "\<not> can_normal_return_before_after s" "nd_kind s \<noteq> ''exit''"
    "nd_kind s = ''if'' \<Longrightarrow> \<not> both_terminate s" "nd_kind s \<noteq> ''error''"
  shows "root_must ss \<subseteq> root_must (s # ss)"
proof
  fix l assume l: "l \<in> root_must ss"
  show "l \<in> root_must (s # ss)"
    unfolding root_must_def
  proof (intro CollectI impI allI)
    fix ok es r assume "list_all settled (s # ss)" and r: "run_list ok (s # ss) es r" "r = Falls \<or> r = Exits"
    with assms have "exit_free s" "list_all settled ss" by (auto simp: settled_def)
    from r(1) show "l \<in> set es"
    proof (rule run_list_ConsE)
      fix es1 fs assume "es = es1 @ fs" "run ok s es1 Falls" "run_list ok ss fs r"
      with l r(2) \<open>list_all settled ss\<close> show ?thesis by (auto simp: root_must_def)
    next
      assume "run ok s es r" "r \<noteq> Falls"
      with exit_free_runs(1) [OF _ \<open>exit_free s\<close>] r(2) show ?thesis by auto
    qed
  qed
qed

lemma root_must_head:
  assumes "\<not> can_normal_return_before_after s" "nd_kind s \<noteq> ''exit''"
    "nd_kind s \<noteq> ''if''" "nd_kind s \<noteq> ''error''"
  shows "must s \<subseteq> root_must (s # ss)"
proof
  fix l assume l: "l \<in> must s"
  show "l \<in> root_must (s # ss)"
    unfolding root_must_def
  proof (intro CollectI impI allI)
    fix ok es r assume "list_all settled (s # ss)" and r: "run_list ok (s # ss) es r" "r = Falls \<or> r = Exits"
    with assms have s: "exit_free s" "straight s" by (auto simp: settled_def)
    from r(1) show "l \<in> set es"
    proof (rule run_list_ConsE)
      fix es1 fs assume "es = es1 @ fs" "run ok s es1 Falls"
      with l s(2) show ?thesis by (auto simp: must_def)
    next
      assume "run ok s es r" "r \<noteq> Falls"
      with exit_free_runs(1) [OF _ s(1)] r(2) show ?thesis by auto
    qed
  qed
qed

lemma no_else_falls: "\<not> has_explicit_else n \<Longrightarrow> else_termination n = TFallthrough"
  by (simp add: has_explicit_else_def else_termination_def)

lemma order_if_reachable: "fst (order_if_node n fid s res) = (\<not> both_terminate n)"
  using no_else_falls [of n] by (auto simp: order_if_node.simps [of n] both_terminate_def Let_def)

lemma order_stmts_dead:
  "list_all o_collects ss \<Longrightarrow>
     order_spec {} fid (leaves_list ss) res (snd (order_stmts ss fid s is_root False nrp res))"
  by (induction ss arbitrary: res) (auto simp: order_spec_nil intro: order_spec_seq o_collectsD)

definition stmts_must :: "bool \<Rightarrow> bool \<Rightarrow> cfn_node list \<Rightarrow> cfn_node set" where
  "stmts_must is_root nrp ss = (if is_root \<and> \<not> nrp then root_must ss else {})"

lemma order_stmts_spec:
  "list_all o_collects ss \<Longrightarrow>
     order_spec (stmts_must is_root nrp ss) fid (leaves_list ss) res
       (snd (order_stmts ss fid s is_root True nrp res))"
proof (induction ss arbitrary: nrp res)
  case Nil
  then show ?case by (simp add: order_spec_nil)
next
  case (Cons n ss)
  then have n: "o_collects n" and ss: "list_all o_collects ss" by simp_all
  let ?M = "stmts_must is_root nrp (n # ss)"
  have alive: "order_spec ?M fid (leaves n @ leaves_list ss) res (snd (order_stmts ss fid s is_root True nrp' res'))"
    if "order_spec N fid (leaves n) res res'" "N \<subseteq> ?M" "stmts_must is_root nrp' ss \<subseteq> ?M" for nrp' res' N
    by (rule order_spec_seq [OF order_spec_mono [OF that(1,2)] order_spec_mono [OF Cons.IH [OF ss] that(3)]])
  have dead: "order_spec ?M fid (leaves n @ leaves_list ss) res (snd (order_stmts ss fid s is_root False nrp' res'))"
    if "order_spec {} fid (leaves n) res res'" for nrp' res'
    by (rule order_spec_seq [OF order_spec_mono [OF that] order_spec_mono [OF order_stmts_dead [OF ss]]]) simp_all
  consider "nd_kind n = ''error'' \<or> nd_kind n = ''exit''" | "nd_kind n = ''if''" | "nd_kind n = ''case''"
    | "is_loop_kind (nd_kind n)" | "nd_kind n \<notin> {''error'', ''exit'', ''if'', ''case''}" "\<not> is_loop_kind (nd_kind n)"
    by blast
  then show ?case
  proof cases
    case 1
    then show ?thesis using dead [OF order_spec_walkers(4) [OF n 1]] by auto
  next
    case 2
    obtain re res' where k: "order_if_node n fid s res = (re, res')" by fastforce
    have w: "order_spec {} fid (leaves n) res res'" using order_spec_walkers(1) [OF n 2, of fid res s] k by simp
    have re: "re = (\<not> both_terminate n)" using order_if_reachable [of n fid s res] k by simp
    show ?thesis
    proof (cases re)
      case True
      have "stmts_must is_root (nrp \<or> is_root \<and> can_normal_return_before_after n) ss \<subseteq> ?M"
        using root_must_tail [of n ss] True re 2 by (auto simp: stmts_must_def)
      then show ?thesis using alive [OF w] True 2 k by simp
    next
      case False
      then show ?thesis using dead [OF w] 2 k by simp
    qed
  next
    case 3
    have "stmts_must is_root (nrp \<or> is_root \<and> can_normal_return_before_after n) ss \<subseteq> ?M"
      using root_must_tail [of n ss] 3 by (auto simp: stmts_must_def)
    then show ?thesis using alive [OF order_spec_walkers(2) [OF n 3]] 3 by simp
  next
    case 4
    then have k: "nd_kind n \<notin> {''error'', ''exit'', ''if'', ''case''}" by (auto simp: is_loop_kind_def)
    then have "stmts_must is_root nrp ss \<subseteq> ?M"
      using root_must_tail [of n ss] by (auto simp: stmts_must_def can_normal_return_before_after_def)
    then show ?thesis using alive [OF order_spec_walkers(3) [OF n 4]] k 4 by simp
  next
    case 5
    have cn: "\<not> can_normal_return_before_after n" using 5 by (simp add: can_normal_return_before_after_def)
    have tail: "stmts_must is_root nrp ss \<subseteq> ?M"
      using root_must_tail [OF cn] 5 by (auto simp: stmts_must_def)
    show ?thesis
    proof (cases "is_root \<and> \<not> nrp")
      case True
      then have "must n \<subseteq> ?M" using root_must_head [OF cn] 5 by (auto simp: stmts_must_def)
      then show ?thesis using alive [OF o_collectsD(2) [OF n] _ tail] 5 by simp
    next
      case False
      then show ?thesis using alive [OF o_collectsD(1) [OF n, of fid res s] _ tail] 5
        by (cases is_root; cases nrp) simp_all
    qed
  qed
qed

lemma order_block_spec:
  assumes "list_all o_collects (if nd_kind t = ''block'' then children_of t else [t])"
  shows "order_spec (stmts_must is_root False (if nd_kind t = ''block'' then children_of t else [t])) fid
    (leaves t) res (snd (order_block t fid s is_root res))"
  using order_stmts_spec [OF assms, of is_root False fid res s] by (simp add: order_block.simps [of t])

lemma order_branches_spec:
  "list_all (\<lambda>b. list_all o_collects (children_of b)) bs \<Longrightarrow>
     order_spec {} fid (branch_leaves bs) res (order_branches bs fid s res)"
  by (induction bs arbitrary: res)
    (auto simp: order_spec_nil Let_def split: prod.splits
      intro!: order_spec_seq order_spec_push [OF _ o_collects_list])

lemma o_collects_case:
  assumes "nd_kind n = ''case''" "list_all o_collects (condition_leaves_of n)"
    "list_all (\<lambda>b. list_all o_collects (children_of b)) (children_of n)"
  shows "order_spec {} fid (leaves n) res (order_collect_node n fid s d res)"
  using order_spec_seq [OF o_collects_list [OF assms(2)] order_branches_spec [OF assms(3)]] assms(1)
  by (simp add: order_collect_node.simps [of n] order_case_node.simps [of n] leaves_unfold(2))

lemma o_collects_if:
  assumes "nd_kind n = ''if''" "list_all o_collects (condition_leaves_of n)"
    "list_all o_collects (children_of n)" "list_all o_collects (else_children_of n)"
  shows "order_spec {} fid (leaves n) res (order_collect_node n fid s d res)"
proof -
  have arm: "o_collects b" if "first_of (children_of n) = Some b \<or> first_of (else_children_of n) = Some b" for b
    using that assms(3,4) by (auto simp: list_all_iff dest: first_of_SomeD)
  note conds = o_collects_list [OF assms(2), of fid res s]
  show ?thesis
  proof (cases "\<not> has_explicit_else n \<and> arm_termination n = TError")
    case True
    then have "first_arm (else_children_of n) = []" by (simp add: has_explicit_else_def first_arm_def)
    with True order_spec_seq [OF conds order_push_arm [of "children_of n"]] arm assms(1) show ?thesis
      by (simp add: order_collect_node.simps [of n] order_if_node.simps [of n] leaves_unfold(1) Let_def)
  next
    case False
    let ?t = "arm_termination n" and ?e = "else_termination n"
    let ?res1 = "order_collect_nodes (condition_leaves_of n) fid s False res"
    let ?res2 = "case first_of (children_of n) of None \<Rightarrow> ?res1
      | Some b \<Rightarrow> (case push_frame fid ''if-then'' (Some (arm_info ?t)) ?res1
          of (f, r) \<Rightarrow> order_collect_node b f (if ?t \<noteq> TError then s else False) False r)"
    let ?res3 = "case first_of (else_children_of n) of None \<Rightarrow> ?res2
      | Some b \<Rightarrow> (case push_frame fid ''if-else'' (Some (arm_info ?e)) ?res2
          of (f, r) \<Rightarrow> order_collect_node b f (if ?e \<noteq> TError then s else False) False r)"
    have "order_spec {} fid (leaves_list (first_arm (children_of n))) ?res1 ?res2"
      by (rule order_push_arm) (use arm in blast)
    moreover have "order_spec {} fid (leaves_list (first_arm (else_children_of n))) ?res2 ?res3"
      by (rule order_push_arm) (use arm in blast)
    ultimately have "order_spec {} fid (leaves n) res ?res3"
      unfolding leaves_unfold(1) [OF assms(1)] by (rule order_spec_seq [OF order_spec_seq [OF conds]])
    moreover have "snd (order_if_node n fid s res) = ?res3"
      by (simp only: order_if_node.simps [of n] Let_def if_not_P [OF False] snd_conv)
    ultimately show ?thesis using assms(1) by (simp add: order_collect_node.simps [of n])
  qed
qed

lemma o_collects_loop:
  assumes "is_loop_kind (nd_kind n)" "list_all o_collects (condition_leaves_of n)" "list_all o_collects (children_of n)"
  shows "order_spec {} fid (leaves n) res (order_collect_node n fid s d res)"
proof -
  let ?res1 = "order_collect_nodes (condition_leaves_of n) fid s False res"
  obtain f r where f: "push_frame fid ''loop'' None ?res1 = (f, r)" by fastforce
  have "order_spec {} f (leaves_list (loop_body n)) r (if nd_kind n = ''repeat'' then snd (order_block (synthetic_block n) f s False r)
      else case first_of (children_of n) of None \<Rightarrow> r | Some b \<Rightarrow> order_collect_node b f s False r)"
  proof (cases "nd_kind n = ''repeat''")
    case True
    have "order_spec {} f (leaves (synthetic_block n)) r (snd (order_block (synthetic_block n) f s False r))"
      using order_block_spec [of "synthetic_block n" False f r s] assms(3) by (simp add: stmts_must_def)
    with True show ?thesis by (simp add: loop_body_def leaves.simps [of "synthetic_block n"])
  next
    case False
    have "o_collects b" if "first_of (children_of n) = Some b" for b
      using that assms(3) by (auto simp: list_all_iff dest: first_of_SomeD)
    with False show ?thesis
      by (cases "children_of n") (auto simp: loop_body_def first_arm_def order_spec_nil intro: o_collectsD)
  qed
  from order_spec_seq [OF o_collects_list [OF assms(2)] order_spec_push [OF f this]]
  have "order_spec {} fid (leaves n) res (order_loop_node n fid s res)"
    by (simp add: leaves_unfold(3) [OF assms(1)] order_loop_node.simps [of n] Let_def f)
  then show ?thesis using assms(1) by (auto simp: order_collect_node.simps [of n] is_loop_kind_def)
qed

lemma o_collects_plain:
  assumes "nd_kind n \<noteq> ''if''" "nd_kind n \<noteq> ''case''" "\<not> is_loop_kind (nd_kind n)"
    "list_all o_collects (condition_leaves_of n)" "list_all o_collects (children_of n)"
  shows "order_spec (if d then must n else {}) fid (leaves n) res (order_collect_node n fid s d res)"
proof -
  note conds = o_collects_list [OF assms(4), of fid res s]
  note kids = o_collects_list [OF assms(5)]
  have less: "order_spec (if d then must n else {}) fid ls res res'" if "order_spec {} fid ls res res'" for ls res res'
    by (rule order_spec_mono [OF that]) simp
  consider "nd_kind n = ''block''" | "nd_kind n = ''case-branch''" | "nd_kind n = ''try''"
    | "nd_kind n = ''op'' \<or> nd_kind n = ''call''" | "nd_kind n = ''error'' \<or> nd_kind n = ''exit''"
    | "is_wrapper (nd_kind n)"
    using assms(1-3) by (auto simp: is_wrapper_def leaf_kind_def)
  then show ?thesis
  proof cases
    case 1
    have "order_spec {} fid (leaves n) res (snd (order_block n fid s False res))"
      using order_block_spec [of n False fid res s] 1 assms(5) by (simp add: stmts_must_def)
    with 1 less show ?thesis by (simp add: order_collect_node.simps [of n])
  next
    case 2
    with less [OF kids] show ?thesis by (simp add: order_collect_node.simps [of n] leaves_unfold)
  next
    case 3
    obtain f r where f: "push_frame fid ''try'' None res = (f, r)" by fastforce
    from 3 f less [OF order_spec_push [OF f kids]] show ?thesis
      by (simp add: order_collect_node.simps [of n] leaves_unfold is_loop_kind_def)
  next
    case 4
    then have "leaf_kind (nd_kind n)" by (auto simp: leaf_kind_def)
    moreover have "order_spec (if d then must n else {}) fid (leaves_list (condition_leaves_of n) @ [n]) res
        (order_assign_leaf n fid s d (order_collect_nodes (condition_leaves_of n) fid s False res))"
      by (rule order_spec_seq [OF less [OF conds] order_spec_leaf]) (use must_leaf [OF 4] in simp)
    ultimately show ?thesis using 4
      by (auto simp: order_collect_node.simps [of n] leaves_unfold(4) is_loop_kind_def)
  next
    case 5
    then have "leaf_kind (nd_kind n)" by (auto simp: leaf_kind_def)
    moreover have "order_spec (if d then must n else {}) fid (leaves_list (condition_leaves_of n) @ [n]) res
        (order_assign_leaf n fid s False (order_collect_nodes (condition_leaves_of n) fid s False res))"
      by (rule order_spec_seq [OF less [OF conds] order_spec_leaf]) simp
    ultimately show ?thesis using 5
      by (auto simp: order_collect_node.simps [of n] leaves_unfold(4) is_loop_kind_def)
  next
    case 6
    have k: "nd_kind n \<notin> {''op'', ''call'', ''error'', ''exit'', ''block'', ''case-branch'', ''try''}" "\<not> leaf_kind (nd_kind n)"
      using 6 by (auto simp: is_wrapper_def leaf_kind_def)
    have "order_spec (if d then must n else {}) fid (leaves_list (children_of n))
        (order_collect_nodes (condition_leaves_of n) fid s False res)
        (order_collect_nodes (children_of n) fid s d (order_collect_nodes (condition_leaves_of n) fid s False res))"
    proof (cases d)
      case True
      then show ?thesis using order_spec_mono [OF o_collects_list_must [OF assms(5)] must_wrapper [OF 6]] by simp
    next
      case False
      then show ?thesis using kids by simp
    qed
    from order_spec_seq [OF less [OF conds] this] show ?thesis
      using k assms(1-3) by (simp add: order_collect_node.simps [of n] leaves.simps [of n])
  qed
qed

lemma o_collects_all: "o_collects n"
proof (induction n rule: measure_induct_rule [of size])
  case (less n)
  have sub: "list_all o_collects (condition_leaves_of n)" "list_all o_collects (children_of n)"
    "list_all o_collects (else_children_of n)"
    using less.IH by (auto simp: list_all_iff size_leaf size_child size_else_child)
  have sub2: "list_all (\<lambda>b. list_all o_collects (children_of b)) (children_of n)"
    by (auto simp: list_all_iff intro!: less.IH intro: less_trans [OF size_child size_child])
  have "order_spec (if d then must n else {}) fid (leaves n) res (order_collect_node n fid s d res)" for fid s d res
  proof -
    have "order_spec {} fid (leaves n) res (order_collect_node n fid s d res)"
      if "nd_kind n = ''if'' \<or> nd_kind n = ''case'' \<or> is_loop_kind (nd_kind n)"
      using that o_collects_if [OF _ sub] o_collects_case [OF _ sub(1) sub2] o_collects_loop [OF _ sub(1,2)] by blast
    then show ?thesis
      using o_collects_plain [OF _ _ _ sub(1,2), of d fid res s] order_spec_mono [of "{}" fid "leaves n" res _ "if d then must n else {}"]
      by blast
  qed
  then show ?case by (simp add: o_collects_def)
qed

lemma order_walk_spec:
  "order_spec (if nd_kind t = ''block'' then root_must (children_of t) else root_must [t]) fid (leaves t) res
     (snd (order_block t fid s True res))"
  using order_block_spec [of t True fid res s] o_collects_all by (auto simp: stmts_must_def list_all_iff split: if_splits)

section \<open>What the index promises\<close>

lemma compute_order_spec:
  assumes "\<not> is_try_function attrs"
  shows "\<exists>tr fr. oo_callsite (compute_operation_order (Some t) attrs) = insert_all nd_callsite_id tr Map.empty \<and>
    oo_operation (compute_operation_order (Some t) attrs) = insert_all nd_operation_id tr Map.empty \<and>
    map fst tr = leaves t \<and> (\<forall>k < length tr. order_id (snd (tr ! k)) = of_nat k) \<and>
    oo_scope_frames (compute_operation_order (Some t) attrs) =
      \<lparr> sf_frame_id = 0, sf_parent_frame_id = -1, sf_kind = ''block'', sf_branch_always_terminates = None,
        sf_branch_may_fall_through = None, sf_branch_terminates_by = None \<rparr> # fr \<and>
    frames_from 0 1 fr \<and> (\<forall>p\<in>set tr. 0 \<le> frame_id (snd p) \<and> frame_id (snd p) < int (Suc (length fr))) \<and>
    (\<forall>p\<in>set tr. dominates_success_return (snd p) \<longrightarrow>
       fst p \<in> (if nd_kind t = ''block'' then root_must (children_of t) else root_must [t]))"
proof -
  let ?res = "snd (push_frame (-1) ''block'' None order_start)"
  have res: "ow_callsite ?res = Map.empty" "ow_operation ?res = Map.empty" "ow_next_order_id ?res = 0"
    "ow_next_frame_id ?res = 1" "ow_scope_frames ?res = [\<lparr> sf_frame_id = 0, sf_parent_frame_id = -1,
        sf_kind = ''block'', sf_branch_always_terminates = None,
        sf_branch_may_fall_through = None, sf_branch_terminates_by = None \<rparr>]"
    "fst (push_frame (-1) ''block'' None order_start) = 0"
    by (simp_all add: push_frame_def order_start_def Let_def)
  have c: "compute_operation_order (Some t) attrs = (let r = snd (order_block t 0 True True ?res) in
      \<lparr> oo_callsite = ow_callsite r, oo_operation = ow_operation r, oo_scope_frames = ow_scope_frames r \<rparr>)"
    using assms res(6) by (simp add: compute_operation_order_def Let_def case_prod_beta)
  from order_walk_spec [of t 0 ?res True] obtain tr fr where
    "order_assign_all tr ?res (snd (order_block t 0 True True ?res))" "map fst tr = leaves t"
    "\<forall>k < length tr. order_id (snd (tr ! k)) = ow_next_order_id ?res + of_nat k"
    "ow_scope_frames (snd (order_block t 0 True True ?res)) = ow_scope_frames ?res @ fr"
    "ow_next_frame_id (snd (order_block t 0 True True ?res)) = ow_next_frame_id ?res + int (length fr)"
    "frames_from 0 (ow_next_frame_id ?res) fr"
    "\<forall>p\<in>set tr. frame_id (snd p) = 0 \<or> (ow_next_frame_id ?res \<le> frame_id (snd p) \<and>
       frame_id (snd p) < ow_next_frame_id (snd (order_block t 0 True True ?res)))"
    "\<forall>p\<in>set tr. dominates_success_return (snd p) \<longrightarrow>
       fst p \<in> (if nd_kind t = ''block'' then root_must (children_of t) else root_must [t])"
    unfolding order_spec_def by blast
  with res c show ?thesis
    by (intro exI [of _ tr] exI [of _ fr]) (force simp: order_assign_all_def Let_def)
qed

text \<open>
  Order ids are the positions in execution order: of two sites of a body (with
  distinct ids, and no more than \<open>2 ^ 32\<close> leaves), the one whose leaf comes first in the walk has
  the smaller order id.
\<close>

theorem order_ids_increase:
  assumes "\<not> is_try_function attrs" "distinct (site_ids nd_callsite_id (leaves t))" "length (leaves t) \<le> 2 ^ 32"
    "k < m" "m < length (leaves t)" "nd_callsite_id (leaves t ! k) = Some i" "nd_callsite_id (leaves t ! m) = Some j"
  shows "\<exists>a b. oo_callsite (compute_operation_order (Some t) attrs) i = Some a \<and>
    oo_callsite (compute_operation_order (Some t) attrs) j = Some b \<and> order_id a < order_id b"
proof -
  obtain tr where tr: "oo_callsite (compute_operation_order (Some t) attrs) = insert_all nd_callsite_id tr Map.empty"
    "map fst tr = leaves t" "\<forall>k < length tr. order_id (snd (tr ! k)) = of_nat k"
    using compute_order_spec [OF assms(1), of t] by auto
  have len: "length tr = length (leaves t)" using tr(2) by (metis length_map)
  have look: "oo_callsite (compute_operation_order (Some t) attrs) x = Some (snd (tr ! n))"
    if "n < length (leaves t)" "nd_callsite_id (leaves t ! n) = Some x" for n x
  proof -
    have n: "n < length tr" using that len by simp
    then have "fst (tr ! n) = leaves t ! n" using tr(2) by (metis nth_map)
    with n have "(leaves t ! n, snd (tr ! n)) \<in> set tr" by (metis nth_mem prod.collapse)
    with that(2) tr(1,2) assms(2) show ?thesis by (simp add: insert_all_lookup)
  qed
  have w: "unat (of_nat n :: u32) = n" if "n < 2 ^ 32" for n
    using that by (simp add: unat_of_nat)
  have "order_id (snd (tr ! k)) < order_id (snd (tr ! m))"
    using tr(3) len assms(3-5) w [of k] w [of m] by (simp add: word_less_nat_alt)
  with look [of k i] look [of m j] assms(4-7) show ?thesis by auto
qed

theorem order_ids_increase_witness:
  "\<exists>a b. oo_callsite (compute_operation_order (Some sample_body) []) ''a'' = Some a \<and>
    oo_callsite (compute_operation_order (Some sample_body) []) ''b'' = Some b \<and> order_id a < order_id b"
  by (rule order_ids_increase [where k = 0 and m = 2])
    (simp_all add: sample_body_facts is_try_function_def,
     simp_all add: sample_body_def leaves.simps first_arm_def kind_defs)

text \<open>
  The scope-frame table is well formed: the frame at index \<open>k\<close> has id \<open>k\<close>, the first
  frame is the root block with parent \<open>-1\<close>, every other frame's parent is an earlier frame, and
  every site lies in a frame of the table.
\<close>

theorem scope_frames_well_formed:
  assumes "\<not> is_try_function attrs"
  shows "let fs = oo_scope_frames (compute_operation_order (Some t) attrs) in
    fs \<noteq> [] \<and> sf_parent_frame_id (fs ! 0) = -1 \<and> sf_kind (fs ! 0) = ''block'' \<and>
    (\<forall>k < length fs. sf_frame_id (fs ! k) = int k \<and>
       (k = 0 \<or> (0 \<le> sf_parent_frame_id (fs ! k) \<and> sf_parent_frame_id (fs ! k) < int k))) \<and>
    (\<forall>i ord. oo_callsite (compute_operation_order (Some t) attrs) i = Some ord \<or>
       oo_operation (compute_operation_order (Some t) attrs) i = Some ord \<longrightarrow>
       0 \<le> frame_id ord \<and> frame_id ord < int (length fs))"
proof -
  obtain tr fr where *: "oo_callsite (compute_operation_order (Some t) attrs) = insert_all nd_callsite_id tr Map.empty"
    "oo_operation (compute_operation_order (Some t) attrs) = insert_all nd_operation_id tr Map.empty"
    "oo_scope_frames (compute_operation_order (Some t) attrs) =
      \<lparr> sf_frame_id = 0, sf_parent_frame_id = -1, sf_kind = ''block'', sf_branch_always_terminates = None,
        sf_branch_may_fall_through = None, sf_branch_terminates_by = None \<rparr> # fr"
    "frames_from 0 1 fr" "\<forall>p\<in>set tr. 0 \<le> frame_id (snd p) \<and> frame_id (snd p) < int (Suc (length fr))"
    using compute_order_spec [OF assms, of t] by blast
  have ids: "sf_frame_id ((f # fr) ! k) = int k \<and>
      (k = 0 \<or> (0 \<le> sf_parent_frame_id ((f # fr) ! k) \<and> sf_parent_frame_id ((f # fr) ! k) < int k))"
    if "k < Suc (length fr)" "sf_frame_id f = 0" for k f
    using that *(4) by (cases k) (fastforce simp: frames_from_def)+
  have sites: "0 \<le> frame_id ord \<and> frame_id ord < int (Suc (length fr))"
    if "insert_all key tr Map.empty i = Some ord" for key i ord
    using insert_all_from [OF that] *(5) by fastforce
  show ?thesis
    using * ids sites by (auto simp: Let_def)
qed

theorem scope_frames_well_formed_witness:
  "sf_parent_frame_id (oo_scope_frames (compute_operation_order (Some sample_body) []) ! 0) = -1"
  using scope_frames_well_formed [of "[]" sample_body] by (simp add: is_try_function_def Let_def)



lemmas order_eval = compute_operation_order_def is_try_function_def push_frame_def order_start_def
  order_block.simps order_if_node.simps order_case_node.simps order_loop_node.simps
  order_collect_node.simps order_assign_leaf_def insert_opt_def kind_defs arm_info_def termination_kind_def
  can_normal_return_before_after_def has_explicit_else_def arm_termination_def else_termination_def
  branch_termination.simps statement_termination.simps terminates_def Let_def

text \<open>The loop of \<open>while C do if D then exit;\<close>, before a call.\<close>

definition exit_in_loop_body :: cfn_node where
  "exit_in_loop_body = block_node [node_of ''while'' None []
     [block_node [node_of ''if'' None [] [block_node [node_of ''exit'' None [] [] []]] []]] [], call_node ''b'']"

lemma exit_in_loop_run: "run free exit_in_loop_body [node_of ''exit'' None [] [] []] Exits"
proof -
  let ?x = "node_of ''exit'' None [] [] []"
  let ?i = "node_of ''if'' None [] [block_node [?x]] []"
  let ?w = "node_of ''while'' None [] [block_node [?i]] []"
  have "run free ?x ([] @ [?x]) Exits" by (intro run_exit) simp_all
  then have "run free (block_node [?x]) [?x] Exits" by (simp add: run_block_iff run_list_single)
  then have "run free ?i ([] @ [?x]) Exits" by (intro run_then) (simp_all add: first_arm_def run_list_single)
  then have "run free (block_node [?i]) [?x] Exits" by (simp add: run_block_iff run_list_single)
  then have "run_iters free ?w [?x] Exits"
    by (intro iters_leave) (simp_all add: first_arm_def run_list_single)
  then have "run free ?w ([] @ [?x]) Exits" by (intro run_loop) (simp_all add: kind_defs)
  then show ?thesis by (simp add: exit_in_loop_body_def run_block_iff list_stop)
qed

text \<open>
  The restriction to settled statements is needed: in
  \<open>while C do if D then exit; B()\<close> the call \<open>B()\<close> is marked as dominating the successful return,
  although the routine can return from inside the loop without executing it.
\<close>

theorem dominating_site_skipped:
  "map_option dominates_success_return
     (oo_callsite (compute_operation_order (Some exit_in_loop_body) []) ''b'') = Some True \<and>
   run free exit_in_loop_body [node_of ''exit'' None [] [] []] Exits"
  using exit_in_loop_run by (simp add: exit_in_loop_body_def order_eval)

section \<open>Agreement with the control contexts\<close>

text \<open>
  The two walks agree on the success path: \<open>agree\<close> relates a control-context state with an order
  state when they have the same sites, and a site is on the success path in one exactly when it
  is neither an error path nor unreachable in the other.
\<close>

definition same_path :: "control_context \<Rightarrow> operation_order \<Rightarrow> bool" where
  "same_path c ord = (on_success_path ord = (\<not> error_or_dead c))"

definition agree :: "walk_result \<Rightarrow> order_walk \<Rightarrow> bool" where
  "agree rc ro = ((\<forall>i. rel_option same_path (by_callsite rc i) (ow_callsite ro i)) \<and>
     (\<forall>i. rel_option same_path (by_operation rc i) (ow_operation ro i)))"

lemma agree_push: "push_frame fid k info ro = (f, r) \<Longrightarrow> agree rc ro \<Longrightarrow> agree rc r"
  by (auto simp: push_frame_def agree_def Let_def split: prod.splits)

lemma agree_leaf:
  "s = (\<not> error_or_dead a) \<Longrightarrow> agree rc ro \<Longrightarrow> agree (assign_leaf n a rc) (order_assign_leaf n fid s d ro)"
  by (auto simp: agree_def assign_leaf_def order_assign_leaf_def insert_opt_def same_path_def Let_def split: option.splits)

definition sims :: "cfn_node \<Rightarrow> bool" where
  "sims n = (\<forall>a fid s d rc ro. s = (\<not> error_or_dead a) \<longrightarrow> agree rc ro \<longrightarrow>
     agree (collect_node n a rc) (order_collect_node n fid s d ro))"

lemma simsD: "sims n \<Longrightarrow> s = (\<not> error_or_dead a) \<Longrightarrow> agree rc ro \<Longrightarrow>
    agree (collect_node n a rc) (order_collect_node n fid s d ro)"
  by (simp add: sims_def)

lemma sims_list: "list_all sims ns \<Longrightarrow> s = (\<not> error_or_dead a) \<Longrightarrow> agree rc ro \<Longrightarrow>
    agree (collect_nodes ns a rc) (order_collect_nodes ns fid s d ro)"
proof (induction ns arbitrary: rc ro)
  case (Cons n ns)
  then show ?case using simsD [of n s a rc ro fid d] by simp
qed simp

lemma error_or_dead_max [simp]:
  "ctx_rank b \<le> 3 \<Longrightarrow> error_or_dead (max_ctx a b) = error_or_dead a"
  by (auto simp: error_or_dead_def max_ctx_def)

lemma error_or_dead_iff: "error_or_dead c = (c = ErrorPath \<or> c = Unreachable)"
  by (cases c) (simp_all add: error_or_dead_def)

lemma error_or_dead_simps [simp]: "error_or_dead ErrorPath" "error_or_dead Unreachable"
  by (simp_all add: error_or_dead_def)

lemma then_path: "error_or_dead (then_body_ctx g n a) = (\<not> (arm_termination n \<noteq> TError \<and> \<not> error_or_dead a))"
  by (simp add: then_body_ctx_def)

lemma else_path: "error_or_dead (else_body_ctx n a) = (\<not> (else_termination n \<noteq> TError \<and> \<not> error_or_dead a))"
  by (simp add: else_body_ctx_def)

lemma continuation_path: "if_continuation g n a = Some c \<Longrightarrow> error_or_dead c = error_or_dead a"
  by (auto simp: if_continuation_def Let_def split: if_splits)

lemma sims_walkers:
  assumes "sims n" "s = (\<not> error_or_dead a)" "agree rc ro"
  shows "nd_kind n = ''if'' \<Longrightarrow> agree (snd (walk_if_node n a rc)) (snd (order_if_node n fid s ro))"
    "nd_kind n = ''case'' \<Longrightarrow> agree (snd (walk_case_node n a rc)) (order_case_node n fid s ro)"
    "is_loop_kind (nd_kind n) \<Longrightarrow> agree (walk_loop_node n a rc) (order_loop_node n fid s ro)"
    "nd_kind n = ''error'' \<or> nd_kind n = ''exit'' \<Longrightarrow>
       agree (assign_leaf n a (collect_nodes (condition_leaves_of n) a rc))
         (order_assign_leaf n fid s False (order_collect_nodes (condition_leaves_of n) fid s False ro))"
  using simsD [OF assms, of fid False]
  by (auto simp: collect_node.simps [of n] order_collect_node.simps [of n] kind_defs)

lemma if_reachable_agree: "(fst (walk_if_node n a rc) = None) = both_terminate n"
  using no_else_falls [of n]
  by (auto simp: walk_if_node.simps [of n] Let_def if_continuation_def both_terminate_def)

lemma sims_stmts:
  "list_all sims ss \<Longrightarrow> s = (\<not> error_or_dead a) \<Longrightarrow> agree rc ro \<Longrightarrow>
     agree (snd (walk_stmts ss a reach rc)) (snd (order_stmts ss fid s is_root reach nrp ro))"
proof (induction ss arbitrary: a reach nrp rc ro)
  case Nil
  then show ?case by simp
next
  case (Cons n ss)
  then have n: "sims n" and ss: "list_all sims ss" by simp_all
  note IH = Cons.IH [OF ss]
  show ?case
  proof (cases reach)
    case False
    have "agree (collect_node n Unreachable rc) (order_collect_node n fid False False ro)"
      by (rule simsD [OF n]) (use Cons.prems in simp_all)
    with IH [OF Cons.prems(2)] False show ?thesis by simp
  next
    case True
    consider "nd_kind n = ''error'' \<or> nd_kind n = ''exit''" | "nd_kind n = ''if''" | "nd_kind n = ''case''"
      | "is_loop_kind (nd_kind n)" | "nd_kind n \<notin> {''error'', ''exit'', ''if'', ''case''}" "\<not> is_loop_kind (nd_kind n)"
      by blast
    then show ?thesis
    proof cases
      case 1
      then show ?thesis
        using IH [OF Cons.prems(2) sims_walkers(4) [OF n Cons.prems(2,3) 1]] True by auto
    next
      case 2
      obtain k rc' where k: "walk_if_node n a rc = (k, rc')" by fastforce
      obtain re ro' where o: "order_if_node n fid s ro = (re, ro')" by fastforce
      have w: "agree rc' ro'" using sims_walkers(1) [OF n Cons.prems(2,3) 2, of fid] k o by simp
      have re: "re = (k \<noteq> None)"
        using if_reachable_agree [of n a rc] order_if_reachable [of n fid s ro] k o by simp
      show ?thesis
      proof (cases k)
        case None
        then show ?thesis using IH [OF Cons.prems(2) w] re k o 2 True by simp
      next
        case (Some c)
        then have "c = a \<or> if_continuation (guard rc) n a = Some c"
          using k by (auto simp: walk_if_node.simps [of n] Let_def split: if_splits)
        then have "s = (\<not> error_or_dead c)" using continuation_path Cons.prems(2) by auto
        then show ?thesis using IH [OF _ w] re k o 2 True Some by simp
      qed
    next
      case 3
      obtain c rc' where k: "walk_case_node n a rc = (c, rc')" by fastforce
      then have "error_or_dead c = error_or_dead a"
        by (auto simp: walk_case_node.simps [of n] Let_def split: if_splits prod.splits)
      then show ?thesis
        using IH [OF _ sims_walkers(2) [OF n Cons.prems(2,3) 3, of fid], of c] Cons.prems(2) k 3 True by simp
    next
      case 4
      then have "nd_kind n \<notin> {''error'', ''exit'', ''if'', ''case''}" by (auto simp: is_loop_kind_def)
      with 4 True show ?thesis
        using IH [OF Cons.prems(2) sims_walkers(3) [OF n Cons.prems(2,3) 4, of fid]] by simp
    next
      case 5
      with True show ?thesis
        using IH [OF Cons.prems(2) simsD [OF n Cons.prems(2,3), of fid]] by simp
    qed
  qed
qed

lemma sims_branches:
  "list_all (\<lambda>b. list_all sims (children_of b)) bs \<Longrightarrow> s = (\<not> error_or_dead a) \<Longrightarrow> agree rc ro \<Longrightarrow>
     agree (snd (walk_branches bs a any rc)) (order_branches bs fid s ro)"
proof (induction bs arbitrary: any rc ro)
  case (Cons b bs)
  let ?c = "if arm_termination b = TError then ErrorPath else a"
  let ?s = "if arm_termination b \<noteq> TError then s else False"
  obtain f r where f: "push_frame fid ''case-branch'' (Some (arm_info (arm_termination b))) ro = (f, r)" by fastforce
  have "agree (collect_nodes (children_of b) ?c rc) (order_collect_nodes (children_of b) f ?s False r)"
    by (rule sims_list) (use Cons.prems agree_push [OF f] in auto)
  then have "agree (snd (walk_branches bs a (any \<or> arm_termination b \<noteq> TFallthrough) (collect_nodes (children_of b) ?c rc)))
      (order_branches bs fid s (order_collect_nodes (children_of b) f ?s False r))"
    using Cons by simp
  then show ?case by (simp only: walk_branches.simps order_branches.simps Let_def f prod.case)
qed simp

lemma sims_arm:
  assumes "\<And>b. first_of ns = Some b \<Longrightarrow> sims b" "s = (\<not> error_or_dead a)" "agree rc ro"
  shows "agree (case first_of ns of None \<Rightarrow> rc | Some b \<Rightarrow> collect_node b a rc)
    (case first_of ns of None \<Rightarrow> ro
     | Some b \<Rightarrow> (case push_frame fid k info ro of (f, r) \<Rightarrow> order_collect_node b f s False r))"
proof (cases "first_of ns")
  case (Some b)
  obtain f r where f: "push_frame fid k info ro = (f, r)" by fastforce
  show ?thesis using Some f simsD [OF assms(1) [OF Some] assms(2) agree_push [OF f assms(3)]] by simp
qed (use assms in simp)

lemma sims_if:
  assumes "nd_kind n = ''if''" "list_all sims (condition_leaves_of n)" "list_all sims (children_of n)"
    "list_all sims (else_children_of n)" "s = (\<not> error_or_dead a)" "agree rc ro"
  shows "agree (collect_node n a rc) (order_collect_node n fid s d ro)"
proof -
  have arm: "sims b" if "first_of (children_of n) = Some b \<or> first_of (else_children_of n) = Some b" for b
    using that assms(3,4) by (auto simp: list_all_iff dest: first_of_SomeD)
  let ?rc1 = "collect_nodes (condition_leaves_of n) a rc"
  let ?ro1 = "order_collect_nodes (condition_leaves_of n) fid s False ro"
  have conds: "agree ?rc1 ?ro1" by (rule sims_list [OF assms(2,5,6)])
  have "agree (snd (walk_if_node n a rc)) (snd (order_if_node n fid s ro))"
  proof (cases "\<not> has_explicit_else n \<and> arm_termination n = TError")
    case True
    have "agree (case first_of (children_of n) of None \<Rightarrow> ?rc1 | Some b \<Rightarrow> collect_node b ErrorPath ?rc1)
        (case first_of (children_of n) of None \<Rightarrow> ?ro1
         | Some b \<Rightarrow> (case push_frame fid ''if-then'' (Some \<lparr> bi_always_terminates = True, bi_by = Some ''error'' \<rparr>) ?ro1
             of (f, r) \<Rightarrow> order_collect_node b f False False r))"
      by (rule sims_arm) (use arm conds in auto)
    then show ?thesis
      by (simp only: walk_if_node.simps [of n] order_if_node.simps [of n] Let_def if_P [OF True] snd_conv)
  next
    case False
    let ?t = "arm_termination n" and ?e = "else_termination n"
    let ?rc2 = "case first_of (children_of n) of None \<Rightarrow> ?rc1
      | Some b \<Rightarrow> collect_node b (then_body_ctx (guard rc) n a) ?rc1"
    let ?ro2 = "case first_of (children_of n) of None \<Rightarrow> ?ro1
      | Some b \<Rightarrow> (case push_frame fid ''if-then'' (Some (arm_info ?t)) ?ro1
          of (f, r) \<Rightarrow> order_collect_node b f (if ?t \<noteq> TError then s else False) False r)"
    have r2: "agree ?rc2 ?ro2"
      by (rule sims_arm) (use arm conds assms(5) in \<open>auto simp: then_path\<close>)
    have "agree (case first_of (else_children_of n) of None \<Rightarrow> ?rc2 | Some b \<Rightarrow> collect_node b (else_body_ctx n a) ?rc2)
        (case first_of (else_children_of n) of None \<Rightarrow> ?ro2
         | Some b \<Rightarrow> (case push_frame fid ''if-else'' (Some (arm_info ?e)) ?ro2
             of (f, r) \<Rightarrow> order_collect_node b f (if ?e \<noteq> TError then s else False) False r))"
      by (rule sims_arm [OF _ _ r2]) (use arm assms(5) in \<open>auto simp: else_path\<close>)
    then show ?thesis
      by (simp only: walk_if_node.simps [of n] order_if_node.simps [of n] Let_def if_not_P [OF False] snd_conv)
  qed
  then show ?thesis using assms(1) by (simp add: collect_node.simps [of n] order_collect_node.simps [of n])
qed

lemma sims_case:
  assumes "nd_kind n = ''case''" "list_all sims (condition_leaves_of n)"
    "list_all (\<lambda>b. list_all sims (children_of b)) (children_of n)" "s = (\<not> error_or_dead a)" "agree rc ro"
  shows "agree (collect_node n a rc) (order_collect_node n fid s d ro)"
proof -
  have "s = (\<not> error_or_dead (max_ctx a Conditional))" using assms(4) by simp
  from sims_branches [OF assms(3) this sims_list [OF assms(2,4,5)]]
  have "agree (snd (walk_case_node n a rc)) (order_case_node n fid s ro)"
    by (simp add: walk_case_node.simps [of n] order_case_node.simps [of n] Let_def case_prod_beta)
  then show ?thesis using assms(1) by (simp add: collect_node.simps [of n] order_collect_node.simps [of n])
qed

lemma sims_loop:
  assumes "is_loop_kind (nd_kind n)" "list_all sims (condition_leaves_of n)" "list_all sims (children_of n)"
    "s = (\<not> error_or_dead a)" "agree rc ro"
  shows "agree (collect_node n a rc) (order_collect_node n fid s d ro)"
proof -
  let ?rc1 = "collect_nodes (condition_leaves_of n) a rc"
  let ?ro1 = "order_collect_nodes (condition_leaves_of n) fid s False ro"
  let ?c = "max_ctx a LoopBody"
  obtain f r where f: "push_frame fid ''loop'' None ?ro1 = (f, r)" by fastforce
  have c: "s = (\<not> error_or_dead ?c)" using assms(4) by simp
  have r: "agree ?rc1 r" using agree_push [OF f sims_list [OF assms(2,4,5)]] .
  have "agree (walk_loop_node n a rc) (order_loop_node n fid s ro)"
  proof (cases "nd_kind n = ''repeat''")
    case True
    from sims_stmts [OF assms(3) c r] True f show ?thesis
      by (simp add: walk_loop_node.simps [of n] order_loop_node.simps [of n] walk_block.simps order_block.simps Let_def)
  next
    case False
    have "sims b" if "first_of (children_of n) = Some b" for b
      using that assms(3) by (auto simp: list_all_iff dest: first_of_SomeD)
    with simsD [OF _ c r] False f show ?thesis
      by (auto simp: walk_loop_node.simps [of n] order_loop_node.simps [of n] r Let_def split: option.split)
  qed
  then show ?thesis using assms(1) by (auto simp: collect_node.simps [of n] order_collect_node.simps [of n] is_loop_kind_def)
qed

lemma sims_plain:
  assumes "nd_kind n \<noteq> ''if''" "nd_kind n \<noteq> ''case''" "\<not> is_loop_kind (nd_kind n)"
    "list_all sims (condition_leaves_of n)" "list_all sims (children_of n)" "s = (\<not> error_or_dead a)" "agree rc ro"
  shows "agree (collect_node n a rc) (order_collect_node n fid s d ro)"
proof -
  note conds = sims_list [OF assms(4,6,7), of fid False]
  consider "nd_kind n = ''block''" | "nd_kind n = ''try''" | "leaf_kind (nd_kind n)"
    | "nd_kind n \<notin> {''block'', ''try''}" "\<not> leaf_kind (nd_kind n)" by blast
  then show ?thesis
  proof cases
    case 1
    from sims_stmts [OF assms(5-7)] 1 show ?thesis
      by (simp add: collect_node.simps [of n] order_collect_node.simps [of n] walk_block.simps [of n] order_block.simps [of n])
  next
    case 2
    obtain f r where f: "push_frame fid ''try'' None ro = (f, r)" by fastforce
    from sims_list [OF assms(5,6) agree_push [OF f assms(7)]] 2 f show ?thesis
      by (simp add: collect_node.simps [of n] order_collect_node.simps [of n] is_loop_kind_def)
  next
    case 3
    with agree_leaf [OF assms(6) conds] show ?thesis
      by (auto simp: collect_node.simps [of n] order_collect_node.simps [of n] kind_defs)
  next
    case 4
    with sims_list [OF assms(5,6) conds] sims_list [OF assms(5-7)] assms(1-3) show ?thesis
      by (simp add: collect_node.simps [of n] order_collect_node.simps [of n] leaf_kind_def)
  qed
qed

lemma sims_all: "sims n"
proof (induction n rule: measure_induct_rule [of size])
  case (less n)
  have sub: "list_all sims (condition_leaves_of n)" "list_all sims (children_of n)" "list_all sims (else_children_of n)"
    using less.IH by (auto simp: list_all_iff size_leaf size_child size_else_child)
  have sub2: "list_all (\<lambda>b. list_all sims (children_of b)) (children_of n)"
    by (auto simp: list_all_iff intro!: less.IH intro: less_trans [OF size_child size_child])
  have "agree (collect_node n a rc) (order_collect_node n fid s d ro)" if "s = (\<not> error_or_dead a)" "agree rc ro" for a fid s d rc ro
    using sims_if [OF _ sub that] sims_case [OF _ sub(1) sub2 that] sims_loop [OF _ sub(1,2) that]
      sims_plain [OF _ _ _ sub(1,2) that] by blast
  then show ?case unfolding sims_def by blast
qed

lemma passes_agree:
  "rel_option same_path (cm_callsite (compute_control_contexts tree attrs ps vars) i) (oo_callsite (compute_operation_order tree attrs) i)"
  "rel_option same_path (cm_operation (compute_control_contexts tree attrs ps vars) i) (oo_operation (compute_operation_order tree attrs) i)"
proof -
  have "rel_option same_path (cm_callsite (compute_control_contexts tree attrs ps vars) i) (oo_callsite (compute_operation_order tree attrs) i) \<and>
    rel_option same_path (cm_operation (compute_control_contexts tree attrs ps vars) i) (oo_operation (compute_operation_order tree attrs) i)"
  proof (cases "is_try_function attrs \<or> tree = None")
    case True
    then show ?thesis
      by (auto simp: compute_control_contexts_def compute_operation_order_def order_start_def Let_def split: option.split)
  next
    case False
    then obtain t where t: "tree = Some t" "\<not> is_try_function attrs" by auto
    let ?rc = "\<lparr> by_callsite = Map.empty, by_operation = Map.empty, guard = build_guard_eligibility ps vars \<rparr>"
    obtain f r where f: "push_frame (-1) ''block'' None order_start = (f, r)" by fastforce
    have "agree ?rc order_start" by (simp add: agree_def order_start_def)
    from sims_stmts [OF _ _ agree_push [OF f this], where a = TopLevel and s = True and fid = f and is_root = True
        and reach = True and nrp = False and ss = "if nd_kind t = ''block'' then children_of t else [t]"]
    have "agree (snd (walk_block t TopLevel ?rc)) (snd (order_block t f True True r))"
      using sims_all by (simp add: walk_block.simps [of t] order_block.simps [of t] list_all_iff error_or_dead_def)
    with t f show ?thesis
      by (simp add: compute_control_contexts_def compute_operation_order_def agree_def Let_def)
  qed
  then show "rel_option same_path (cm_callsite (compute_control_contexts tree attrs ps vars) i) (oo_callsite (compute_operation_order tree attrs) i)"
    "rel_option same_path (cm_operation (compute_control_contexts tree attrs ps vars) i) (oo_operation (compute_operation_order tree attrs) i)"
    by simp_all
qed

text \<open>
  Property C15. The two passes agree on every body, for its call sites and for its operations: a site
  has an order exactly when it has a context, and it is on the success path exactly when its context
  is neither an error path nor unreachable.
\<close>

theorem success_path_matches_context:
  "rel_option (\<lambda>c ord. on_success_path ord = (c \<noteq> ErrorPath \<and> c \<noteq> Unreachable))
     (cm_callsite (compute_control_contexts tree attrs ps vars) i)
     (oo_callsite (compute_operation_order tree attrs) i) \<and>
   rel_option (\<lambda>c ord. on_success_path ord = (c \<noteq> ErrorPath \<and> c \<noteq> Unreachable))
     (cm_operation (compute_control_contexts tree attrs ps vars) i)
     (oo_operation (compute_operation_order tree attrs) i)"
proof -
  have same: "(\<lambda>c ord. on_success_path ord = (c \<noteq> ErrorPath \<and> c \<noteq> Unreachable)) = same_path"
    by (intro ext) (simp add: same_path_def error_or_dead_iff)
  show ?thesis unfolding same using passes_agree by (rule conjI)
qed

text \<open>
  A call site that is not on the success path is not executed by any execution that
  does not raise, when every error-terminated arm of the body is free of jumps.
\<close>

theorem off_success_path_not_executed:
  assumes "well_formed t" "error_closed t" "distinct (site_ids nd_callsite_id (leaves t))" "\<not> is_try_function attrs"
    "run ok t es r" "r \<noteq> Errs" "nd_callsite_id l = Some i"
    "oo_callsite (compute_operation_order (Some t) attrs) i = Some ord" "\<not> on_success_path ord"
  shows "l \<notin> set es"
proof
  assume l: "l \<in> set es"
  let ?res = "\<lparr> by_callsite = Map.empty, by_operation = Map.empty, guard = build_guard_eligibility [] [] \<rparr>"
  have "\<exists>c. by_callsite (snd (walk_block t TopLevel ?res)) i = Some c \<and> \<not> error_or_dead c"
    by (rule normal.executed_outside(1) [OF _ _ _ _ assms(5) _ l assms(3,7)])
      (use assms in \<open>simp_all add: error_or_dead_def not_raising_def\<close>)
  moreover have "by_callsite (snd (walk_block t TopLevel ?res)) = cm_callsite (compute_control_contexts (Some t) attrs [] [])"
    using assms(4) by (simp add: compute_control_contexts_def Let_def)
  ultimately show False
    using passes_agree(1) [of "Some t" attrs "[]" "[]" i] assms(8,9) by (auto simp: same_path_def rel_option_iff)
qed

theorem off_success_path_not_executed_witness: "call_node ''e'' \<notin> set [call_node ''b'']"
proof -
  have o: "oo_callsite (compute_operation_order (Some guarded_body) []) ''e'' =
      Some \<lparr> order_id = 0, frame_id = 1, on_success_path = False, dominates_success_return = False \<rparr>"
    by (simp add: guarded_body_def order_eval)
  show ?thesis
    by (rule off_success_path_not_executed [OF guarded_body_facts(1,2) _ _ guarded_body_run _ _ o])
      (simp_all add: guarded_body_facts is_try_function_def)
qed

text \<open>
  The error-call pass: an \<open>error-call\<close> operation that has no leaf of its own gets the
  order of the first call site that starts at the same source position, unchanged.
\<close>

theorem error_call_inherits_order:
  assumes "op \<in> set (ft_operation_sites ft)" "os_kind op = ''error-call''"
    "distinct (map os_id (ft_operation_sites ft))"
    "oo_operation (compute_operation_order (ft_statement_tree ft) attrs) (os_id op) = None"
    "paired_site (ft_call_sites ft) op = Some cs"
    "oo_callsite (compute_operation_order (ft_statement_tree ft) attrs) (cs_id cs) = Some ord"
  shows "op \<lparr> os_order := Some ord \<rparr> \<in> set (ft_operation_sites (apply_operation_order ft attrs))"
proof -
  let ?m = "compute_operation_order (ft_statement_tree ft) attrs"
  let ?by = "inherit_error_calls (ft_call_sites ft) (ft_operation_sites ft) (oo_callsite ?m) (oo_operation ?m)"
  obtain d where d: "?by (os_id op) = Some d"
    using inherit_done [where by_cs = "oo_callsite ?m", OF assms(1,2,5,6)] by blast
  from inherit_from_pair [OF assms(4) d] obtain op2 cs2 where
    2: "op2 \<in> set (ft_operation_sites ft)" "os_id op2 = os_id op" "paired_site (ft_call_sites ft) op2 = Some cs2"
    "oo_callsite ?m (cs_id cs2) = Some d" by auto
  with assms(1,3) have "op2 = op" by (metis distinct_map inj_onD)
  with 2 assms(5,6) have "d = ord" by simp
  with d assms(1) show ?thesis by (auto simp: apply_operation_order_def Let_def intro!: image_eqI [of _ _ op])
qed

definition sample_features :: features where
  "sample_features = \<lparr> ft_operation_sites = [\<lparr> os_id = ''o'', os_kind = ''error-call'',
       os_source_anchor = \<lparr> source_unit_id = ''u'', start_line = 3, start_column = 5, end_line = 3, end_column = 9, syntax_kind = ''call_expression'' \<rparr>, os_control_context = None, os_order = None \<rparr>],
     ft_call_sites = [\<lparr> cs_id = ''c'', cs_argument_texts = [], cs_source_anchor = \<lparr> source_unit_id = ''u'', start_line = 3, start_column = 5, end_line = 3, end_column = 9, syntax_kind = ''call_expression'' \<rparr>,
       cs_control_context = None, cs_order = None \<rparr>],
     ft_variables = [], ft_statement_tree = Some (block_node [call_node ''c'']), ft_scope_frames = [] \<rparr>"

theorem error_call_inherits_order_witness:
  "\<lparr> os_id = ''o'', os_kind = ''error-call'', os_source_anchor = \<lparr> source_unit_id = ''u'', start_line = 3, start_column = 5, end_line = 3, end_column = 9, syntax_kind = ''call_expression'' \<rparr>,
     os_control_context = None, os_order = Some \<lparr> order_id = 0, frame_id = 0, on_success_path = True,
       dominates_success_return = True \<rparr> \<rparr>
   \<in> set (ft_operation_sites (apply_operation_order sample_features []))"
  using error_call_inherits_order [of "hd (ft_operation_sites sample_features)" sample_features "[]"
      "hd (ft_call_sites sample_features)" "\<lparr> order_id = 0, frame_id = 0, on_success_path = True,
       dominates_success_return = True \<rparr>"]
  by (simp add: sample_features_def paired_site_def order_eval)

end
