(* ===== verification/Budget.thy ===== *)
theory Budget
  imports Prelude "HOL-Library.RBT" "HOL-Library.Product_Lexorder" "HOL-Library.List_Lexorder"
    "HOL-Library.Char_ord" "HOL-Library.While_Combinator"
begin

text \<open>
  The memory budget of a resident session (\<open>src/src/engine/resident/budget.rs\<close>): the estimator,
  reservations and their guards, admission. The readings of the process's memory are arguments:
  they come from the operating system. Counters of live guards are natural numbers (each counts
  values that exist in memory); bytes are u64.
\<close>

section \<open>Estimates\<close>

definition GIB :: u64 where "GIB = push_bit 30 1"
definition MIB :: u64 where "MIB = push_bit 20 1"

definition DEFAULT_BUDGET_CROSS_APP :: u64 where "DEFAULT_BUDGET_CROSS_APP = 8 * GIB"
definition DEFAULT_BUDGET_SINGLE_APP :: u64 where "DEFAULT_BUDGET_SINGLE_APP = 2 * GIB"
definition DEFAULT_BUDGET_CROSS_APP_LOW_MEM :: u64 where "DEFAULT_BUDGET_CROSS_APP_LOW_MEM = 6 * GIB"

fun default_budget :: "bool \<Rightarrow> bool \<Rightarrow> u64" where
  "default_budget True _ = DEFAULT_BUDGET_SINGLE_APP"
| "default_budget False False = DEFAULT_BUDGET_CROSS_APP"
| "default_budget False True = DEFAULT_BUDGET_CROSS_APP_LOW_MEM"

definition ESTIMATE_FLOOR_CROSS_APP :: u64 where "ESTIMATE_FLOOR_CROSS_APP = 3 * GIB div 2"
definition ESTIMATE_FLOOR_SINGLE_APP :: u64 where "ESTIMATE_FLOOR_SINGLE_APP = GIB div 2"
definition TABLE_ROUTINES :: u64 where "TABLE_ROUTINES = 33287"
definition PER_AL_BYTE :: u64 where "PER_AL_BYTE = 180"
definition PER_PACKAGE_BYTE :: u64 where "PER_PACKAGE_BYTE = 45"

text \<open>What a reservation is for. The derived order compares constructors, then fields.\<close>

datatype bcase = Cold | Incremental | Fill string | Trees

fun bcase_key :: "bcase \<Rightarrow> nat \<times> string" where
  "bcase_key Cold = (0, [])"
| "bcase_key Incremental = (1, [])"
| "bcase_key (Fill k) = (2, k)"
| "bcase_key Trees = (3, [])"

lemma bcase_key_inj [simp]: "bcase_key a = bcase_key b \<longleftrightarrow> a = b"
  by (cases a; cases b) simp_all

instantiation bcase :: linorder
begin

definition less_eq_bcase :: "bcase \<Rightarrow> bcase \<Rightarrow> bool" where
  "less_eq_bcase a b = (bcase_key a \<le> bcase_key b)"

definition less_bcase :: "bcase \<Rightarrow> bcase \<Rightarrow> bool" where
  "less_bcase a b = (bcase_key a < bcase_key b)"

instance
proof
  fix a b c :: bcase
  show "(a < b) = (a \<le> b \<and> \<not> b \<le> a)" by (simp only: less_bcase_def less_eq_bcase_def less_le_not_le)
  show "a \<le> a" by (simp add: less_eq_bcase_def)
  show "a \<le> b \<Longrightarrow> b \<le> c \<Longrightarrow> a \<le> c" unfolding less_eq_bcase_def by (rule order_trans)
  show "a \<le> b \<Longrightarrow> b \<le> a \<Longrightarrow> a = b" by (simp add: less_eq_bcase_def antisym flip: bcase_key_inj)
  show "a \<le> b \<or> b \<le> a" unfolding less_eq_bcase_def by (rule linear)
qed

end

definition bcase_name :: "bcase \<Rightarrow> string" where
  "bcase_name c = (case c of Cold \<Rightarrow> ''cold build'' | Incremental \<Rightarrow> ''incremental build''
     | Fill k \<Rightarrow> k @ '' fill'' | Trees \<Rightarrow> ''trees'')"

definition is_fill :: "bcase \<Rightarrow> bool" where
  "is_fill c = (case c of Fill _ \<Rightarrow> True | _ \<Rightarrow> False)"

definition table_mib :: "bcase \<Rightarrow> u64" where
  "table_mib c = (case c of
       Cold \<Rightarrow> 3800
     | Incremental \<Rightarrow> 1600
     | Fill k \<Rightarrow>
         (if k = ''fold'' then 900
          else if k = ''raw'' then 60
          else if k = ''det'' then 350
          else if k = ''l4'' then 250
          else if k = ''run'' then 120
          else if k = ''tree'' then 900
          else if k = ''tree_base'' then 450
          else if k = ''witness'' then 60
          else if k = ''explain_indexes'' then 30
          else if k = ''sited'' then 120
          else 60)
     | Trees \<Rightarrow> 900)"

record input_sizes =
  al_bytes :: u64
  package_bytes :: u64

record estimates =
  single_app :: bool
  est_floor :: u64
  per_al_byte :: u64
  per_package_byte :: u64
  est_routines :: "u64 option"
  observed :: "(bcase \<times> nat, u64 list) rbt"

text \<open>The loop of \<open>size_class\<close> over \<open>(top, class)\<close>.\<close>

definition size_class :: "u64 \<Rightarrow> nat" where
  "size_class units = snd (while (\<lambda>(top, class). units > top) (\<lambda>(top, class). (sat_mul top 4, class + 1)) (1, 0))"

definition new_estimates :: "bool \<Rightarrow> estimates" where
  "new_estimates single = \<lparr> single_app = single,
     est_floor = (if single then ESTIMATE_FLOOR_SINGLE_APP else ESTIMATE_FLOOR_CROSS_APP),
     per_al_byte = PER_AL_BYTE, per_package_byte = PER_PACKAGE_BYTE, est_routines = None,
     observed = RBT.empty \<rparr>"

definition pre_model :: "estimates \<Rightarrow> input_sizes \<Rightarrow> u64" where
  "pre_model e sizes =
     (let packages = if single_app e then 0 else sat_mul (package_bytes sizes) (per_package_byte e)
      in max (sat_add (sat_mul (al_bytes sizes) (per_al_byte e)) packages) (est_floor e))"

text \<open>\<open>iter().max()\<close>, and the values of the keys in a half-open range of an ordered map.\<close>

definition iter_max :: "u64 list \<Rightarrow> u64 option" where
  "iter_max xs = (case xs of [] \<Rightarrow> None | y # ys \<Rightarrow> Some (fold max ys y))"

definition map_range :: "('k :: linorder, 'v) rbt \<Rightarrow> 'k \<Rightarrow> 'k \<Rightarrow> 'v list" where
  "map_range m lo hi = map snd (filter (\<lambda>(k, _). lo \<le> k \<and> k < hi) (RBT.entries m))"

text \<open>The value of the table, scaled by the routine count.\<close>

definition table_estimate :: "estimates \<Rightarrow> bcase \<Rightarrow> input_sizes \<Rightarrow> u64" where
  "table_estimate e c sizes =
     (case (c, est_routines e) of
        (Cold, _) \<Rightarrow> pre_model e sizes
      | (Incremental, None) \<Rightarrow> pre_model e sizes
      | (_, None) \<Rightarrow> table_mib c * MIB
      | (_, Some r) \<Rightarrow> sat_mul (table_mib c * MIB) (max r 1) div TABLE_ROUTINES)"

definition of_sized :: "estimates \<Rightarrow> bcase \<Rightarrow> input_sizes \<Rightarrow> u64 \<Rightarrow> u64" where
  "of_sized e c sizes units =
     (let class = size_class units in
      case Option.bind (RBT.lookup (observed e) (c, class)) iter_max of
        Some m \<Rightarrow> m
      | None \<Rightarrow>
          (let table = table_estimate e c sizes;
               smaller = unwrap_or 0 (iter_max (concat (map_range (observed e) (c, 0) (c, class))))
           in max table smaller))"

definition estimate_of :: "estimates \<Rightarrow> bcase \<Rightarrow> input_sizes \<Rightarrow> u64" where
  "estimate_of e c sizes = of_sized e c sizes 1"

text \<open>The \<open>while q.len() > 3\<close> loop drops the front of the queue.\<close>

fun keep_three :: "u64 list \<Rightarrow> u64 list" where
  "keep_three q = (if length q > 3 then keep_three (tl q) else q)"

declare keep_three.simps [simp del]

definition observe_sized :: "bcase \<Rightarrow> u64 \<Rightarrow> u64 \<Rightarrow> estimates \<Rightarrow> estimates" where
  "observe_sized c units peak e =
     (let k = (c, size_class units);
          q = unwrap_or [] (RBT.lookup (observed e) k)
      in e \<lparr> observed := RBT.insert k (keep_three (q @ [peak])) (observed e) \<rparr>)"

definition window_peak :: "u64 \<Rightarrow> u64 \<Rightarrow> u64" where
  "window_peak lifetime at_reset = (if lifetime > at_reset then lifetime else 0)"

section \<open>State and operations\<close>

record reclaim_record =
  rr_entries :: u64
  rr_measured_bytes :: u64
  rr_rss_before :: u64
  rr_rss_evicted :: u64
  rr_rss_collected :: u64
  rr_collect_ms :: u64

record budget_state =
  reserved :: u64
  fill_workers :: nat
  holders :: nat
  admission_closed :: bool
  reservations :: nat
  refusals :: nat
  impossibles :: nat
  overruns :: nat
  reclaims :: nat
  evicted :: nat
  last_reclaim :: "reclaim_record option"
  retained_floor :: u64

definition default_state :: budget_state where
  "default_state = \<lparr> reserved = 0, fill_workers = 0, holders = 0, admission_closed = False,
     reservations = 0, refusals = 0, impossibles = 0, overruns = 0, reclaims = 0, evicted = 0,
     last_reclaim = None, retained_floor = 0 \<rparr>"

record refusal =
  rf_case :: bcase
  rf_estimate :: u64
  rf_budget :: u64
  rf_rss :: u64
  rf_reserved :: u64
  rf_retained_floor :: u64
  rf_impossible :: bool

record reservation =
  rv_case :: bcase
  rv_units :: u64
  rv_bytes :: u64
  rv_rss_before :: u64

definition fits :: "u64 \<Rightarrow> u64 \<Rightarrow> budget_state \<Rightarrow> u64 \<Rightarrow> bool" where
  "fits budget rss s estimate = (sat_add (sat_add rss (reserved s)) estimate \<le> budget)"

definition possible :: "u64 \<Rightarrow> budget_state \<Rightarrow> u64 \<Rightarrow> bool" where
  "possible budget s estimate = (sat_add (retained_floor s) estimate \<le> budget)"

definition reserve_sized ::
  "u64 \<Rightarrow> u64 \<Rightarrow> bcase \<Rightarrow> u64 \<Rightarrow> u64 \<Rightarrow> budget_state \<Rightarrow> (refusal + reservation) \<times> budget_state" where
  "reserve_sized budget rss c units estimate s =
     (if sat_add (sat_add rss (reserved s)) estimate > budget then
        (let s1 = s \<lparr> refusals := refusals s + 1 \<rparr>;
             imp = (sat_add (retained_floor s) estimate > budget);
             s2 = (if imp then s1 \<lparr> impossibles := impossibles s1 + 1 \<rparr> else s1)
         in (Inl \<lparr> rf_case = c, rf_estimate = estimate, rf_budget = budget, rf_rss = rss,
                   rf_reserved = reserved s, rf_retained_floor = retained_floor s, rf_impossible = imp \<rparr>, s2))
      else
        (let s1 = s \<lparr> reserved := reserved s + estimate, reservations := reservations s + 1 \<rparr>;
             s2 = (if is_fill c then s1 \<lparr> fill_workers := fill_workers s1 + 1 \<rparr> else s1)
         in (Inr \<lparr> rv_case = c, rv_units = units, rv_bytes = estimate, rv_rss_before = rss \<rparr>, s2)))"

definition drop_reservation :: "reservation \<Rightarrow> budget_state \<Rightarrow> budget_state" where
  "drop_reservation r s =
     (let s1 = s \<lparr> reserved := sat_sub (reserved s) (rv_bytes r) \<rparr>
      in if is_fill (rv_case r) then s1 \<lparr> fill_workers := fill_workers s1 - 1 \<rparr> else s1)"

text \<open>\<open>Reservation::finish\<close> consumes the guard: it records, then the guard is dropped.\<close>

definition finish_reservation ::
  "u64 \<Rightarrow> u64 \<Rightarrow> u64 \<Rightarrow> reservation \<Rightarrow> estimates \<Rightarrow> budget_state \<Rightarrow> u64 \<times> estimates \<times> budget_state" where
  "finish_reservation budget peak rss r e s =
     (let e' = (if peak > 0 then observe_sized (rv_case r) (rv_units r) (sat_sub peak (rv_rss_before r)) e else e);
          s1 = (if rss > budget then s \<lparr> overruns := overruns s + 1 \<rparr> else s)
      in (sat_sub rss (rv_rss_before r), e', drop_reservation r s1))"

text \<open>One round of the waiting loops of \<open>admit\<close> and \<open>wait_for_releasers\<close>.\<close>

datatype 'a round = Waits | Stopped | Ready 'a

definition admit_round :: "bool \<Rightarrow> budget_state \<Rightarrow> budget_state round" where
  "admit_round stop s =
     (if admission_closed s then (if stop then Stopped else Waits)
      else Ready (s \<lparr> holders := holders s + 1 \<rparr>))"

definition drop_admitted :: "budget_state \<Rightarrow> budget_state" where
  "drop_admitted s = s \<lparr> holders := holders s - 1 \<rparr>"

definition close_admission :: "budget_state \<Rightarrow> budget_state" where
  "close_admission s = s \<lparr> admission_closed := True, reclaims := reclaims s + 1 \<rparr>"

definition drop_closed :: "budget_state \<Rightarrow> budget_state" where
  "drop_closed s = s \<lparr> admission_closed := False \<rparr>"

definition releasers_round :: "nat \<Rightarrow> bool \<Rightarrow> budget_state \<Rightarrow> unit round" where
  "releasers_round mine stop s =
     (if holders s > mine \<or> fill_workers s > 0 then (if stop then Stopped else Waits) else Ready ())"

definition set_retained_floor :: "u64 \<Rightarrow> budget_state \<Rightarrow> budget_state" where
  "set_retained_floor bytes s = s \<lparr> retained_floor := bytes \<rparr>"

definition count_evicted :: "nat \<Rightarrow> budget_state \<Rightarrow> budget_state" where
  "count_evicted n s = s \<lparr> evicted := evicted s + n \<rparr>"

definition record_reclaim :: "reclaim_record \<Rightarrow> budget_state \<Rightarrow> budget_state" where
  "record_reclaim r s = s \<lparr> last_reclaim := Some r \<rparr>"

record budget_status =
  bs_budget_bytes :: u64
  bs_rss_bytes :: u64
  bs_reserved_bytes :: u64
  bs_retained_bytes :: u64
  bs_fill_workers :: nat
  bs_holders :: nat
  bs_admission_closed :: bool
  bs_reservations :: nat
  bs_refusals :: nat
  bs_impossible :: nat
  bs_overruns :: nat
  bs_reclaims :: nat
  bs_evicted :: nat
  bs_last_reclaim :: "reclaim_record option"

definition budget_status_of :: "u64 \<Rightarrow> u64 \<Rightarrow> budget_state \<Rightarrow> budget_status" where
  "budget_status_of budget rss s = \<lparr> bs_budget_bytes = budget, bs_rss_bytes = rss,
     bs_reserved_bytes = reserved s, bs_retained_bytes = retained_floor s,
     bs_fill_workers = fill_workers s, bs_holders = holders s, bs_admission_closed = admission_closed s,
     bs_reservations = reservations s, bs_refusals = refusals s, bs_impossible = impossibles s,
     bs_overruns = overruns s, bs_reclaims = reclaims s, bs_evicted = evicted s,
     bs_last_reclaim = last_reclaim s \<rparr>"

section \<open>Size classes\<close>

lemma size_class_loop:
  "let c = size_class units in unat units \<le> 4 ^ c \<and> (c = 0 \<or> 4 ^ (c - 1) < unat units)"
proof -
  let ?b = "\<lambda>(top :: u64, class :: nat). units > top"
  let ?f = "\<lambda>(top :: u64, class :: nat). (sat_mul top 4, class + 1)"
  let ?I = "\<lambda>(top :: u64, class :: nat). unat top = min u64_max (4 ^ class) \<and>
    (class = 0 \<or> 4 ^ (class - 1) < unat units)"
  let ?Q = "\<lambda>(top :: u64, class :: nat). unat units \<le> 4 ^ class \<and> (class = 0 \<or> 4 ^ (class - 1) < unat units)"
  have "?Q (while ?b ?f (1, 0))"
  proof (rule while_rule [where P = ?I and r = "measure (\<lambda>(top, class). u64_max - unat top)"])
    show "?I (1, 0)" by (simp add: u64_max_def)
  next
    fix s assume I: "?I s" and b: "?b s"
    obtain top c where s: "s = (top, c)" by fastforce
    from b s have "unat top < unat units" by (simp add: word_less_nat_alt)
    then have lt: "unat top < u64_max" using unat_le_u64_max [of units] by linarith
    with I s have top: "unat top = 4 ^ c" by auto
    show "?I (?f s)"
      using top I s \<open>unat top < unat units\<close> by (simp add: u64_arith u64_max_def)
    show "(?f s, s) \<in> measure (\<lambda>(top, class). u64_max - unat top)"
      using top lt s by (cases "4 ^ c * 4 \<le> u64_max") (simp_all add: u64_arith min_def diff_less_mono2)
  next
    fix s assume "?I s" "\<not> ?b s"
    then show "?Q s" by (cases s) (auto simp: word_less_nat_alt not_less intro: order_trans)
  qed simp
  then show ?thesis by (simp add: size_class_def case_prod_beta Let_def)
qed

lemma size_class_unique:
  assumes "unat units \<le> 4 ^ c" "c = 0 \<or> 4 ^ (c - 1) < unat units"
  shows "size_class units = c"
proof -
  from size_class_loop [of units] have d: "unat units \<le> 4 ^ size_class units"
    "size_class units = 0 \<or> 4 ^ (size_class units - 1) < unat units" by (simp_all add: Let_def)
  have "\<not> c < size_class units"
  proof
    assume c: "c < size_class units"
    then have "unat units \<le> 4 ^ (size_class units - 1)"
      by (intro order_trans [OF assms(1)] power_increasing) simp_all
    with d(2) c show False by linarith
  qed
  moreover have "\<not> size_class units < c"
  proof
    assume c: "size_class units < c"
    then have "unat units \<le> 4 ^ (c - 1)"
      by (intro order_trans [OF d(1)] power_increasing) simp_all
    with assms(2) c show False by linarith
  qed
  ultimately show ?thesis by simp
qed

text \<open>
  The loop terminates with the class of its documentation: the class of \<open>units\<close> is the
  only \<open>c\<close> with \<open>4 ^ (c - 1) < units \<le> 4 ^ c\<close> (class 0 for 0 and 1), it is at most 32, and it grows with
  the units.
\<close>

theorem size_class_exact:
  "(size_class units = c) = (unat units \<le> 4 ^ c \<and> (c = 0 \<or> 4 ^ (c - 1) < unat units)) \<and>
   size_class units \<le> 32"
proof
  show "(size_class units = c) = (unat units \<le> 4 ^ c \<and> (c = 0 \<or> 4 ^ (c - 1) < unat units))"
    using size_class_loop [of units] size_class_unique by (auto simp: Let_def)
  show "size_class units \<le> 32"
  proof (rule ccontr)
    assume "\<not> size_class units \<le> 32"
    then have "(4 :: nat) ^ 32 \<le> 4 ^ (size_class units - 1)" by (intro power_increasing) simp_all
    moreover have "4 ^ (size_class units - 1) < unat units"
      using size_class_loop [of units] \<open>\<not> size_class units \<le> 32\<close> by (auto simp: Let_def)
    ultimately have "(4 :: nat) ^ 32 < u64_max" using unat_le_u64_max [of units] by linarith
    then show False by (simp add: u64_max_def)
  qed
qed

section \<open>Estimates read only their own size class and smaller ones\<close>

lemma bcase_between:
  assumes "(c, 0) \<le> (d, k)" "(d, k) < (c, class :: nat)"
  shows "d = (c :: bcase)" "k < class"
  using assms by (auto simp: less_eq_prod_def less_prod_def)

lemma keep_three_length: "length (keep_three q) \<le> 3"
  by (induction q rule: keep_three.induct) (subst keep_three.simps, auto)

lemma keep_three_last: "q \<noteq> [] \<Longrightarrow> keep_three q \<noteq> [] \<and> last (keep_three q) = last q"
proof (induction q rule: keep_three.induct)
  case (1 q)
  have "keep_three q = (if length q > 3 then keep_three (tl q) else q)" by (rule keep_three.simps)
  with 1 show ?case by (cases "length q > 3"; cases q) auto
qed

lemma table_estimate_observed: "table_estimate (e \<lparr> observed := m \<rparr>) c sizes = table_estimate e c sizes"
  by (simp add: table_estimate_def pre_model_def split: bcase.split option.split)

lemma fold_max_greatest: "fold max ys (y :: u64) \<in> insert y (set ys) \<and> (\<forall>z\<in>insert y (set ys). z \<le> fold max ys y)"
proof (induction ys arbitrary: y)
  case (Cons a ys)
  from Cons [of "max a y"] show ?case by (auto simp: max_def split: if_splits)
qed simp

lemma iter_max_Some: "iter_max xs = Some m \<longleftrightarrow> xs \<noteq> [] \<and> m = Max (set xs)"
proof (cases xs)
  case (Cons y ys)
  have "fold max ys y = Max (set (y # ys))"
    using fold_max_greatest [of ys y] by (intro Max_eqI [symmetric]) auto
  with Cons show ?thesis by (auto simp: iter_max_def)
qed (simp add: iter_max_def)

lemma map_range_set:
  "set (map_range m lo hi) = {v. \<exists>k. RBT.lookup m k = Some v \<and> lo \<le> k \<and> k < hi}"
proof -
  have "(k, v) \<in> set (RBT.entries m) \<longleftrightarrow> RBT.lookup m k = Some v" for k v
    by (rule RBT.lookup_in_tree [symmetric])
  then show ?thesis by (force simp: map_range_def)
qed

lemma iter_max_set: "iter_max xs = (if set xs = {} then None else Some (Max (set xs)))"
  using iter_max_Some [of xs "Max (set xs)"] by (cases xs) (simp_all add: iter_max_def)

lemma iter_max_concat_cong:
  assumes "set xss = set yss"
  shows "iter_max (concat xss) = iter_max (concat yss)"
  unfolding iter_max_set set_concat assms by simp

lemma map_range_insert_outside:
  assumes "\<not> (lo \<le> k \<and> k < hi)"
  shows "iter_max (concat (map_range (RBT.insert k v m) lo hi)) = iter_max (concat (map_range m lo hi))"
proof (rule iter_max_concat_cong)
  show "set (map_range (RBT.insert k v m) lo hi) = set (map_range m lo hi)"
    using assms unfolding map_range_set by (auto split: if_splits)
qed

lemma observe_sized_fields:
  "observed (observe_sized c units peak e) = RBT.insert (c, size_class units)
     (keep_three (unwrap_or [] (RBT.lookup (observed e) (c, size_class units)) @ [peak])) (observed e)"
  "table_estimate (observe_sized c units peak e) c2 sizes = table_estimate e c2 sizes"
  by (simp_all add: observe_sized_def Let_def table_estimate_observed)

text \<open>
  A large request's peak never becomes a smaller request's estimate: recording a peak
  of another case, or of a larger size class, changes no estimate; recording one in the class
  itself makes the estimate at least that peak.
\<close>

theorem larger_class_never_read:
  "(c' \<noteq> c \<or> size_class units' > size_class units \<longrightarrow>
      of_sized (observe_sized c' units' peak e) c sizes units = of_sized e c sizes units) \<and>
   of_sized (observe_sized c units peak e) c sizes units \<ge> peak"
proof
  show "c' \<noteq> c \<or> size_class units' > size_class units \<longrightarrow>
      of_sized (observe_sized c' units' peak e) c sizes units = of_sized e c sizes units"
  proof
    assume d: "c' \<noteq> c \<or> size_class units' > size_class units"
    let ?k = "(c', size_class units')"
    have out: "\<not> ((c, 0) \<le> ?k \<and> ?k < (c, size_class units))"
      using bcase_between [of c c' "size_class units'" "size_class units"] d by auto
    have other: "RBT.lookup (RBT.insert ?k v (observed e)) (c, size_class units) = RBT.lookup (observed e) (c, size_class units)" for v
      using d by auto
    show "of_sized (observe_sized c' units' peak e) c sizes units = of_sized e c sizes units"
      by (simp only: of_sized_def Let_def observe_sized_fields other map_range_insert_outside [OF out])
  qed
next
  let ?k = "(c, size_class units)"
  let ?q = "keep_three (unwrap_or [] (RBT.lookup (observed e) ?k) @ [peak])"
  have q: "?q \<noteq> []" "peak \<in> set ?q"
    using keep_three_last [of "unwrap_or [] (RBT.lookup (observed e) ?k) @ [peak]"] last_in_set by fastforce+
  then have "iter_max ?q = Some (Max (set ?q))" by (simp add: iter_max_Some)
  moreover have "peak \<le> Max (set ?q)" using q by (intro Max_ge) simp_all
  moreover have "Option.bind (RBT.lookup (observed (observe_sized c units peak e)) ?k) iter_max = iter_max ?q"
    by (simp add: observe_sized_fields)
  ultimately show "of_sized (observe_sized c units peak e) c sizes units \<ge> peak"
    by (simp only: of_sized_def Let_def option.case)
qed

theorem larger_class_never_read_witness:
  "of_sized (observe_sized Trees 699 4174000000 (new_estimates False)) Trees \<lparr> al_bytes = 0, package_bytes = 0 \<rparr> 1 =
   of_sized (new_estimates False) Trees \<lparr> al_bytes = 0, package_bytes = 0 \<rparr> 1"
proof -
  have "size_class 1 = 0" "size_class 699 = 5" by (rule size_class_unique; simp)+
  then show ?thesis
    using larger_class_never_read [of Trees Trees 1 699 4174000000 "new_estimates False" "\<lparr> al_bytes = 0, package_bytes = 0 \<rparr>"]
    by simp
qed

section \<open>The session as a state machine\<close>

text \<open>
  A session is the budget, its state and estimator, and the live guards: reservations, admitted
  holders and closers. A step is one call, or the drop of one guard; the operating system's
  readings are in the label.
\<close>

record session =
  ss_budget :: u64
  ss_state :: budget_state
  ss_estimates :: estimates
  ss_held :: "reservation list"
  ss_admitted :: nat
  ss_closers :: nat

datatype label = LReserve u64 bcase u64 u64 | LDropReservation nat | LFinish nat u64 u64
  | LAdmit bool | LDropAdmitted | LClose | LDropClosed | LSetBudget u64 | LSetFloor u64

inductive bstep :: "session \<Rightarrow> label \<Rightarrow> session \<Rightarrow> bool" where
  reserve_ok: "reserve_sized (ss_budget s) rss c units est (ss_state s) = (Inr r, st) \<Longrightarrow>
    bstep s (LReserve rss c units est) (s \<lparr> ss_state := st, ss_held := ss_held s @ [r] \<rparr>)"
| reserve_no: "reserve_sized (ss_budget s) rss c units est (ss_state s) = (Inl f, st) \<Longrightarrow>
    bstep s (LReserve rss c units est) (s \<lparr> ss_state := st \<rparr>)"
| drop_res: "i < length (ss_held s) \<Longrightarrow>
    bstep s (LDropReservation i)
      (s \<lparr> ss_state := drop_reservation (ss_held s ! i) (ss_state s), ss_held := remove_at i (ss_held s) \<rparr>)"
| finish: "i < length (ss_held s) \<Longrightarrow>
    finish_reservation (ss_budget s) peak rss (ss_held s ! i) (ss_estimates s) (ss_state s) = (left, e, st) \<Longrightarrow>
    bstep s (LFinish i peak rss)
      (s \<lparr> ss_state := st, ss_estimates := e, ss_held := remove_at i (ss_held s) \<rparr>)"
| admit: "admit_round stop (ss_state s) = Ready st \<Longrightarrow>
    bstep s (LAdmit stop) (s \<lparr> ss_state := st, ss_admitted := ss_admitted s + 1 \<rparr>)"
| admit_not: "admit_round stop (ss_state s) \<in> {Waits, Stopped} \<Longrightarrow> bstep s (LAdmit stop) s"
| drop_adm: "ss_admitted s > 0 \<Longrightarrow>
    bstep s LDropAdmitted (s \<lparr> ss_state := drop_admitted (ss_state s), ss_admitted := ss_admitted s - 1 \<rparr>)"
| close: "bstep s LClose (s \<lparr> ss_state := close_admission (ss_state s), ss_closers := ss_closers s + 1 \<rparr>)"
| drop_close: "ss_closers s > 0 \<Longrightarrow>
    bstep s LDropClosed (s \<lparr> ss_state := drop_closed (ss_state s), ss_closers := ss_closers s - 1 \<rparr>)"
| set_budget: "bstep s (LSetBudget b) (s \<lparr> ss_budget := b \<rparr>)"
| set_floor: "bstep s (LSetFloor b) (s \<lparr> ss_state := set_retained_floor b (ss_state s) \<rparr>)"

inductive_cases bstep_E: "bstep s l s'"

definition start_session :: "u64 \<Rightarrow> estimates \<Rightarrow> session" where
  "start_session b e = \<lparr> ss_budget = b, ss_state = default_state, ss_estimates = e, ss_held = [],
     ss_admitted = 0, ss_closers = 0 \<rparr>"

text \<open>Sessions reached with budgets below the largest u64.\<close>

inductive session_reachable :: "session \<Rightarrow> bool" where
  start: "b < - 1 \<Longrightarrow> session_reachable (start_session b e)"
| step: "session_reachable s \<Longrightarrow> bstep s l s' \<Longrightarrow> (\<And>b. l = LSetBudget b \<Longrightarrow> b < - 1) \<Longrightarrow> session_reachable s'"

definition session_inv :: "session \<Rightarrow> bool" where
  "session_inv s =
     (ss_budget s < - 1 \<and>
      unat (reserved (ss_state s)) = sum_list (map (\<lambda>r. unat (rv_bytes r)) (ss_held s)) \<and>
      fill_workers (ss_state s) = length (filter (\<lambda>r. is_fill (rv_case r)) (ss_held s)) \<and>
      holders (ss_state s) = ss_admitted s \<and>
      (admission_closed (ss_state s) \<longrightarrow> ss_closers s > 0))"

lemma max_u64: "unat (b :: u64) < u64_max \<longleftrightarrow> b < - 1"
  by (simp add: word_less_nat_alt u64_max_def unsigned_minus_1_eq_mask mask_eq_exp_minus_1)

text \<open>A granted reservation fits as a sum of numbers, so its addition does not wrap.\<close>

lemma reserve_granted:
  assumes "reserve_sized b rss c units est s = (Inr r, s')" "b < - 1"
  shows "unat rss + unat (reserved s) + unat est \<le> unat b" "unat (reserved s') = unat (reserved s) + unat est"
    "r = \<lparr> rv_case = c, rv_units = units, rv_bytes = est, rv_rss_before = rss \<rparr>"
    "fill_workers s' = fill_workers s + (if is_fill c then 1 else 0)"
    "holders s' = holders s" "admission_closed s' = admission_closed s"
proof -
  from assms(1) have le: "sat_add (sat_add rss (reserved s)) est \<le> b"
    by (auto simp: reserve_sized_def Let_def not_less split: if_splits)
  then have "min u64_max (min u64_max (unat rss + unat (reserved s)) + unat est) \<le> unat b"
    by (simp add: word_le_nat_alt u64_arith)
  with max_u64 [of b] assms(2) show sum: "unat rss + unat (reserved s) + unat est \<le> unat b" by linarith
  then have "unat (reserved s) + unat est < 2 ^ 64"
    using unat_le_u64_max [of b] by (simp add: u64_max_def)
  then have "unat (reserved s + est) = unat (reserved s) + unat est"
    by (simp add: unat_word_ariths)
  with assms(1) show "unat (reserved s') = unat (reserved s) + unat est"
    by (auto simp: reserve_sized_def Let_def split: if_splits)
qed (use assms in \<open>auto simp: reserve_sized_def Let_def split: if_splits\<close>)

lemma refused_state:
  assumes "reserve_sized b rss c units est s = (Inl f, s')"
  shows "reserved s' = reserved s" "fill_workers s' = fill_workers s" "holders s' = holders s"
    "admission_closed s' = admission_closed s" "retained_floor s' = retained_floor s"
  using assms by (auto simp: reserve_sized_def Let_def split: if_splits)

lemma drop_inv:
  assumes "i < length rs" "unat (reserved st) = sum_list (map (\<lambda>r. unat (rv_bytes r)) rs)"
    "fill_workers st = length (filter (\<lambda>r. is_fill (rv_case r)) rs)"
  shows "unat (reserved (drop_reservation (rs ! i) st)) = sum_list (map (\<lambda>r. unat (rv_bytes r)) (remove_at i rs))"
    "fill_workers (drop_reservation (rs ! i) st) = length (filter (\<lambda>r. is_fill (rv_case r)) (remove_at i rs))"
    "holders (drop_reservation (rs ! i) st) = holders st"
    "admission_closed (drop_reservation (rs ! i) st) = admission_closed st"
  using assms sum_list_remove_at [OF assms(1), of "\<lambda>r. unat (rv_bytes r)"]
    length_filter_remove_at [OF assms(1), of "\<lambda>r. is_fill (rv_case r)"]
  by (auto simp: drop_reservation_def Let_def u64_arith)

lemma session_inv_step:
  assumes "bstep s l s'" "session_inv s" "\<And>b. l = LSetBudget b \<Longrightarrow> b < - 1"
  shows "session_inv s'"
  using assms
proof (cases rule: bstep.cases)
  case (reserve_ok rss c units est r st)
  with assms(2) reserve_granted [OF reserve_ok(3)] show ?thesis by (auto simp: session_inv_def)
next
  case (reserve_no rss c units est f st)
  with assms(2) refused_state [OF reserve_no(3)] show ?thesis by (auto simp: session_inv_def)
next
  case (drop_res i)
  with assms(2) drop_inv [OF drop_res(3), of "ss_state s"] show ?thesis by (auto simp: session_inv_def)
next
  case (finish i peak rss left e st)
  let ?s1 = "if rss > ss_budget s then (ss_state s) \<lparr> overruns := overruns (ss_state s) + 1 \<rparr> else ss_state s"
  have st: "st = drop_reservation (ss_held s ! i) ?s1"
    using finish(4) by (auto simp: finish_reservation_def Let_def)
  have "reserved ?s1 = reserved (ss_state s)" "fill_workers ?s1 = fill_workers (ss_state s)"
    "holders ?s1 = holders (ss_state s)" "admission_closed ?s1 = admission_closed (ss_state s)" by simp_all
  with finish assms(2) st drop_inv [OF finish(3), of ?s1] show ?thesis
    unfolding session_inv_def by simp
qed (auto simp: session_inv_def admit_round_def drop_admitted_def close_admission_def drop_closed_def
    set_retained_floor_def split: if_splits)

lemma session_reachable_inv: "session_reachable s \<Longrightarrow> session_inv s"
proof (induction rule: session_reachable.induct)
  case (start b e)
  then show ?case by (simp add: session_inv_def start_session_def default_state_def)
next
  case (step s l s')
  then show ?case by (blast intro: session_inv_step)
qed

text \<open>
  Property C17. In every reachable session (budgets below the largest u64) the counters are exact:
  the reserved bytes are the sum of the live reservations, the fill workers are the live fill
  reservations, the holders are the admitted requests, and admission is closed only while a
  closer is alive.
\<close>

theorem session_counters_exact:
  assumes "session_reachable s"
  shows "unat (reserved (ss_state s)) = (\<Sum>r\<leftarrow>ss_held s. unat (rv_bytes r)) \<and>
    fill_workers (ss_state s) = length (filter (\<lambda>r. is_fill (rv_case r)) (ss_held s)) \<and>
    holders (ss_state s) = ss_admitted s \<and>
    (admission_closed (ss_state s) \<longrightarrow> ss_closers s > 0)"
  using session_reachable_inv [OF assms] by (simp add: session_inv_def)

lemma sample_session_steps:
  "session_reachable (start_session 1000 (new_estimates True))"
  "bstep (start_session 1000 (new_estimates True)) (LReserve 100 (Fill ''det'') 1 300)
     ((start_session 1000 (new_estimates True))
       \<lparr> ss_state := snd (reserve_sized 1000 100 (Fill ''det'') 1 300 default_state),
         ss_held := [\<lparr> rv_case = Fill ''det'', rv_units = 1, rv_bytes = 300, rv_rss_before = 100 \<rparr>] \<rparr>)"
proof -
  show "session_reachable (start_session 1000 (new_estimates True))"
    by (rule session_reachable.start) simp
  show "bstep (start_session 1000 (new_estimates True)) (LReserve 100 (Fill ''det'') 1 300)
     ((start_session 1000 (new_estimates True))
       \<lparr> ss_state := snd (reserve_sized 1000 100 (Fill ''det'') 1 300 default_state),
         ss_held := [\<lparr> rv_case = Fill ''det'', rv_units = 1, rv_bytes = 300, rv_rss_before = 100 \<rparr>] \<rparr>)"
    using bstep.reserve_ok [of "start_session 1000 (new_estimates True)" 100 "Fill ''det''" 1 300
        "\<lparr> rv_case = Fill ''det'', rv_units = 1, rv_bytes = 300, rv_rss_before = 100 \<rparr>"
        "snd (reserve_sized 1000 100 (Fill ''det'') 1 300 default_state)"]
    by (simp add: start_session_def default_state_def reserve_sized_def sat_add_def u64_max_def is_fill_def Let_def)
qed

theorem session_counters_exact_witness:
  "unat (reserved (snd (reserve_sized 1000 100 (Fill ''det'') 1 300 default_state))) = 300"
proof -
  have "session_reachable ((start_session 1000 (new_estimates True))
       \<lparr> ss_state := snd (reserve_sized 1000 100 (Fill ''det'') 1 300 default_state),
         ss_held := [\<lparr> rv_case = Fill ''det'', rv_units = 1, rv_bytes = 300, rv_rss_before = 100 \<rparr>] \<rparr>)"
    by (rule session_reachable.step [OF sample_session_steps]) simp
  from session_counters_exact [OF this] show ?thesis by simp
qed

text \<open>
  Property C18. Admission by reservation, in a session whose budgets have been below the largest u64
  (\<open>session_reachable\<close>; at the largest one the sum wraps, \<open>reservation_wraps_at_max\<close>): a granted
  reservation fits, as a sum of numbers, together with the resident bytes and every live reservation;
  a refused one does not; and the same request, once refused as impossible, is refused at every later
  state under the same budget and the same retained floor, as long as the resident bytes do not fall
  below that floor. A larger budget or a lower floor may admit it.
\<close>

theorem reservation_sound:
  assumes "session_reachable s" "reserve_sized (ss_budget s) rss c units est (ss_state s) = (out, st)"
  shows "case out of
      Inr r \<Rightarrow> unat rss + (\<Sum>r\<leftarrow>ss_held s. unat (rv_bytes r)) + unat est \<le> unat (ss_budget s)
    | Inl f \<Rightarrow> unat rss + (\<Sum>r\<leftarrow>ss_held s. unat (rv_bytes r)) + unat est > unat (ss_budget s) \<and>
        reserved st = reserved (ss_state s) \<and>
        (rf_impossible f \<longrightarrow> (\<forall>rss' st'. retained_floor st' = retained_floor (ss_state s) \<and> retained_floor st' \<le> rss' \<longrightarrow>
           isl (fst (reserve_sized (ss_budget s) rss' c units est st'))))"
proof -
  have inv: "unat (reserved (ss_state s)) = (\<Sum>r\<leftarrow>ss_held s. unat (rv_bytes r))" "ss_budget s < - 1"
    using session_reachable_inv [OF assms(1)] by (simp_all add: session_inv_def)
  show ?thesis
  proof (cases out)
    case (Inr r)
    with assms(2) have eq: "reserve_sized (ss_budget s) rss c units est (ss_state s) = (Inr r, st)" by simp
    from reserve_granted(1) [OF eq inv(2)] Inr inv(1) show ?thesis by simp
  next
    case (Inl f)
    with assms(2) have gt: "sat_add (sat_add rss (reserved (ss_state s))) est > ss_budget s"
      and f: "f = \<lparr> rf_case = c, rf_estimate = est, rf_budget = ss_budget s, rf_rss = rss, rf_reserved = reserved (ss_state s),
        rf_retained_floor = retained_floor (ss_state s),
        rf_impossible = sat_add (retained_floor (ss_state s)) est > ss_budget s \<rparr>"
      and st: "reserved st = reserved (ss_state s)"
      by (auto simp: reserve_sized_def Let_def split: if_splits)
    from gt have "unat rss + unat (reserved (ss_state s)) + unat est > unat (ss_budget s)"
      unfolding word_less_nat_alt u64_arith by linarith
    moreover have "isl (fst (reserve_sized (ss_budget s) rss' c units est st'))"
      if "rf_impossible f" "retained_floor st' = retained_floor (ss_state s)" "retained_floor st' \<le> rss'" for rss' st'
    proof -
      have "min u64_max (unat (retained_floor st') + unat est) > unat (ss_budget s)"
        using that(1,2) f by (simp add: word_less_nat_alt u64_arith)
      moreover have "unat (retained_floor st') \<le> unat rss'" using that(3) by (simp add: word_le_nat_alt)
      ultimately have "sat_add (sat_add rss' (reserved st')) est > ss_budget s"
        unfolding word_less_nat_alt u64_arith by linarith
      then show ?thesis by (simp add: reserve_sized_def Let_def)
    qed
    ultimately show ?thesis using Inl st inv(1) by auto
  qed
qed

theorem reservation_sound_witness:
  "case fst (reserve_sized 1000 100 Trees 1 2000 default_state) of
     Inr r \<Rightarrow> unat (100 :: u64) + 0 + unat (2000 :: u64) \<le> unat (1000 :: u64)
   | Inl f \<Rightarrow> unat (100 :: u64) + 0 + unat (2000 :: u64) > unat (1000 :: u64)"
  using reservation_sound [OF sample_session_steps(1), of 100 Trees 1 2000
      "fst (reserve_sized 1000 100 Trees 1 2000 default_state)" "snd (reserve_sized 1000 100 Trees 1 2000 default_state)"]
  by (auto simp: start_session_def split: sum.splits)

definition two_reservations :: "budget_state" where
  "two_reservations = snd (reserve_sized (- 1) 0 Cold 1 (push_bit 63 1)
     (snd (reserve_sized (- 1) 0 Cold 1 (push_bit 63 1) default_state)))"

text \<open>
  The bound on the budget is needed: under a budget of the largest u64, which a large
  enough \<open>--memory-budget\<close> saturates to, the saturating check accepts any sum, and two granted
  reservations of \<open>2 ^ 63\<close> bytes leave a reserved counter of zero.
\<close>

theorem reservation_wraps_at_max:
  "reserved two_reservations = 0 \<and> reservations two_reservations = 2"
  by (simp add: two_reservations_def reserve_sized_def default_state_def Let_def is_fill_def not_less)

text \<open>
  Property C19. Closing admission: while a reachable session is closed no request becomes a holder.
  The closer's wait ends in one of two ways: with \<open>Ready\<close>, exactly when no fill reservation is live and
  at most the closer's own holders remain, or with \<open>Stopped\<close>, only when its stop condition holds
  while some other holder or a fill reservation is still live. A stopped wait promises nothing more.
\<close>

theorem closed_session_drains:
  assumes "session_reachable s" "admission_closed (ss_state s)"
  shows "(\<forall>stop s'. bstep s (LAdmit stop) s' \<longrightarrow> s' = s) \<and>
    (releasers_round mine stop (ss_state s) = Ready () \<longleftrightarrow>
       ss_admitted s \<le> mine \<and> (\<forall>r\<in>set (ss_held s). \<not> is_fill (rv_case r))) \<and>
    (releasers_round mine stop (ss_state s) = Stopped \<longleftrightarrow>
       stop \<and> (mine < ss_admitted s \<or> (\<exists>r\<in>set (ss_held s). is_fill (rv_case r))))"
proof -
  have inv: "fill_workers (ss_state s) = length (filter (\<lambda>r. is_fill (rv_case r)) (ss_held s))"
    "holders (ss_state s) = ss_admitted s"
    using session_reachable_inv [OF assms(1)] by (simp_all add: session_inv_def)
  have "s' = s" if "bstep s (LAdmit stop) s'" for stop s'
    using that assms(2) by (auto elim!: bstep_E simp: admit_round_def split: if_splits)
  then show ?thesis
    using inv by (auto simp: releasers_round_def filter_empty_conv split: if_splits)
qed

definition closed_session :: session where
  "closed_session = (start_session 1000 (new_estimates True))
     \<lparr> ss_state := close_admission default_state, ss_closers := 1 \<rparr>"

theorem closed_session_drains_witness:
  "releasers_round 0 False (ss_state closed_session) = Ready () \<and> ss_admitted closed_session \<le> 0 \<and>
   \<not> bstep closed_session (LAdmit False) (start_session 1000 (new_estimates True))"
proof -
  have reach: "session_reachable closed_session"
    unfolding closed_session_def
    by (rule session_reachable.step [OF sample_session_steps(1), of LClose])
      (use bstep.close [of "start_session 1000 (new_estimates True)"] in \<open>simp_all add: start_session_def\<close>)
  have closed: "admission_closed (ss_state closed_session)"
    by (simp add: closed_session_def close_admission_def)
  note c = closed_session_drains [OF reach closed, of 0 False]
  have "releasers_round 0 False (ss_state closed_session) = Ready ()"
    by (simp add: closed_session_def close_admission_def default_state_def releasers_round_def)
  moreover have "start_session 1000 (new_estimates True) \<noteq> closed_session"
    by (simp add: closed_session_def start_session_def close_admission_def default_state_def)
  ultimately show ?thesis using c by metis
qed

section \<open>The closer is let through\<close>

text \<open>
  What the closer waits for: the fill reservations, and the holders beyond its own. A step that
  releases one of them leaves the closer's own holders, and reservations of other cases, alone.
\<close>

definition awaited :: "nat \<Rightarrow> session \<Rightarrow> nat" where
  "awaited mine s = length (filter (\<lambda>r. is_fill (rv_case r)) (ss_held s)) + (ss_admitted s - mine)"

inductive releases :: "nat \<Rightarrow> session \<Rightarrow> session \<Rightarrow> bool" for mine :: nat where
  dropped: "bstep s (LDropReservation i) s' \<Longrightarrow> is_fill (rv_case (ss_held s ! i)) \<Longrightarrow> releases mine s s'"
| finished: "bstep s (LFinish i peak rss) s' \<Longrightarrow> is_fill (rv_case (ss_held s ! i)) \<Longrightarrow> releases mine s s'"
| left_early: "bstep s LDropAdmitted s' \<Longrightarrow> mine < ss_admitted s \<Longrightarrow> releases mine s s'"

lemma release_one: "releases mine s s' \<Longrightarrow> awaited mine s = Suc (awaited mine s')"
  by (auto elim!: releases.cases bstep_E simp: awaited_def length_filter_remove_at)

lemma release_reachable: "releases mine s s' \<Longrightarrow> session_reachable s \<Longrightarrow> session_reachable s'"
  by (auto elim!: releases.cases intro: session_reachable.step)

lemma release_enabled:
  assumes "awaited mine s > 0"
  shows "\<exists>s'. releases mine s s'"
proof (cases "filter (\<lambda>r. is_fill (rv_case r)) (ss_held s)")
  case (Cons r rs)
  then have "r \<in> set (ss_held s)" "is_fill (rv_case r)" by (auto simp: filter_eq_Cons_iff)
  then obtain i where "i < length (ss_held s)" "is_fill (rv_case (ss_held s ! i))" by (auto simp: in_set_conv_nth)
  then show ?thesis using releases.dropped [OF bstep.drop_res [of i s]] by blast
next
  case Nil
  with assms have "mine < ss_admitted s" by (simp add: awaited_def)
  then show ?thesis using releases.left_early [OF bstep.drop_adm [of s]] by auto
qed

lemma release_run: "(releases mine ^^ n) s s' \<Longrightarrow> awaited mine s = n + awaited mine s'"
proof (induction n arbitrary: s')
  case (Suc n)
  then obtain t where "(releases mine ^^ n) s t" "releases mine t s'" by auto
  then show ?case using Suc.IH [of t] release_one [of mine t s'] by simp
qed simp

lemma release_run_reachable: "(releases mine ^^ n) s s' \<Longrightarrow> session_reachable s \<Longrightarrow> session_reachable s'"
  by (induction n arbitrary: s') (auto intro: release_reachable)

lemma release_run_exists: "n \<le> awaited mine s \<Longrightarrow> \<exists>s'. (releases mine ^^ n) s s'"
proof (induction n)
  case (Suc n)
  then obtain t where t: "(releases mine ^^ n) s t" by auto
  then have "awaited mine t > 0" using release_run [OF t] Suc.prems by simp
  then obtain s' where "releases mine t s'" using release_enabled by blast
  with t show ?case by auto
qed simp

lemma release_run_own: "(releases mine ^^ n) s s' \<Longrightarrow> min mine (ss_admitted s) \<le> ss_admitted s'"
proof (induction n arbitrary: s')
  case (Suc n)
  then obtain t where "(releases mine ^^ n) s t" "releases mine t s'" by auto
  then show ?case using Suc.IH [of t] by (auto elim!: releases.cases bstep_E)
qed simp

lemma releasers_round_awaited:
  assumes "session_reachable s"
  shows "releasers_round mine stop (ss_state s) = (if awaited mine s = 0 then Ready () else if stop then Stopped else Waits)"
  using session_reachable_inv [OF assms] by (auto simp: session_inv_def releasers_round_def awaited_def)

text \<open>
  Property C9. A closer that holds \<open>mine\<close> admissions itself is let through as soon as the others are
  gone, with its own still held: from every reachable session, as long as another holder or a fill
  reservation is live, the closer waits and one of these can be released; every order of such
  releases ends, after as many as there are, and then the closer no longer waits.
\<close>

theorem closer_is_let_through:
  assumes "session_reachable s"
  shows "(\<exists>s'. (releases mine ^^ awaited mine s) s s') \<and>
    (\<forall>n s'. (releases mine ^^ n) s s' \<longrightarrow> n \<le> awaited mine s \<and> min mine (ss_admitted s) \<le> ss_admitted s' \<and>
       (n < awaited mine s \<longrightarrow> releasers_round mine False (ss_state s') = Waits \<and> (\<exists>t. releases mine s' t)) \<and>
       (n = awaited mine s \<longrightarrow> releasers_round mine stop (ss_state s') = Ready ()))"
proof (intro conjI allI impI)
  show "\<exists>s'. (releases mine ^^ awaited mine s) s s'" by (rule release_run_exists) simp
  fix n s'
  assume run: "(releases mine ^^ n) s s'"
  note left = release_run [OF run] and round = releasers_round_awaited [OF release_run_reachable [OF run assms]]
  show "n \<le> awaited mine s" using left by simp
  show "min mine (ss_admitted s) \<le> ss_admitted s'" by (rule release_run_own [OF run])
  show "releasers_round mine False (ss_state s') = Waits" if "n < awaited mine s" using round left that by simp
  show "\<exists>t. releases mine s' t" if "n < awaited mine s" using release_enabled [of mine s'] left that by simp
  show "releasers_round mine stop (ss_state s') = Ready ()" if "n = awaited mine s" using round left that by simp
qed

text \<open>A closer that is itself one of two holders.\<close>

theorem closer_is_let_through_witness:
  "\<exists>s s'. ss_admitted s = 2 \<and> releasers_round 1 False (ss_state s) = Waits \<and>
     releases 1 s s' \<and> ss_admitted s' = 1 \<and> releasers_round 1 False (ss_state s') = Ready ()"
proof -
  let ?s = "start_session 1000 (new_estimates True)"
  let ?t = "\<lambda>n. ?s\<lparr> ss_state := default_state\<lparr> holders := n \<rparr>, ss_admitted := n \<rparr>"
  have "bstep (?t n) (LAdmit False) (?t (n + 1))" for n
    using bstep.admit [of False "?t n" "default_state\<lparr> holders := n + 1 \<rparr>"]
    by (simp add: admit_round_def start_session_def default_state_def)
  then have step: "session_reachable (?t (n + 1))" if "session_reachable (?t n)" for n
    using session_reachable.step [OF that] by blast
  have "?t 0 = ?s" by (simp add: start_session_def default_state_def)
  with sample_session_steps(1) step [of 0] step [of 1] have reach: "session_reachable (?t 2)" by (simp add: numeral_2_eq_2)
  have one: "awaited 1 (?t 2) = 1" by (simp add: awaited_def start_session_def)
  note let_through = closer_is_let_through [OF reach, of 1 False, unfolded one]
  from let_through obtain s' where s': "releases 1 (?t 2) s'" by auto
  with let_through have "releasers_round 1 False (ss_state s') = Ready ()" by (metis relpowp_1)
  moreover have "ss_admitted s' = 1" using s' by (auto elim!: releases.cases bstep_E simp: start_session_def)
  moreover have "releasers_round 1 False (ss_state (?t 2)) = Waits" by (simp add: releasers_round_def)
  ultimately show ?thesis using s' by (intro exI [of _ "?t 2"] exI [of _ s']) simp
qed

end
