(* ===== verification/Model_Routine.thy ===== *)
theory Model_Routine
  imports Features
begin

text \<open>
  The model row of a routine (\<open>src/src/program/model/workspace.rs\<close>) with the fields the solver
  passes of this development read, its call sites (\<open>src/src/program/body/features.rs\<close>), and the
  name rules that bind event parameters (\<open>src/src/program/model/event_param_temp.rs\<close>).
\<close>

record model_parameter =
  mp_index :: u32
  mp_name :: string
  mp_type_text :: string
  mp_is_var :: bool
  mp_is_record :: bool

datatype callee = Bare string | Member string string | ObjectRun string string "string option" bool | UnknownCallee

record p_temp_state =
  pt_kind :: string
  pt_value :: "bool option"
  pt_parameter_index :: "u32 option"

record argument_binding =
  ab_parameter_index :: u32
  ab_source_kind :: string
  ab_source_variable_name :: "string option"
  ab_source_record_variable_id :: "string option"
  ab_source_parameter_index :: "u32 option"
  ab_caller_source_parameter_is_var :: "bool option"
  ab_source_temp_state :: "p_temp_state option"

record model_call_site =
  mc_id :: string
  mc_callee :: callee
  mc_argument_texts :: "string list"
  mc_argument_bindings :: "argument_binding list"
  mc_source_anchor :: anchor
  mc_receiver_temp_state :: "p_temp_state option"

text \<open>A read or write of a record's field, by the record variable's name.\<close>

record field_access =
  fa_record_variable_name :: string
  fa_field_name :: string
  fa_source_anchor :: anchor

record model_record_variable =
  mv_id :: string
  mv_name :: string
  mv_table_id :: "string option"
  mv_is_parameter :: bool
  mv_parameter_index :: "u32 option"
  mv_temp_state :: p_temp_state

record model_record_operation =
  mo_id :: string
  mo_op :: string
  mo_record_variable_name :: string
  mo_record_variable_id :: "string option"
  mo_table_id :: "string option"
  mo_temp_state :: "p_temp_state option"
  mo_field_arguments :: "string list option"
  mo_source_anchor :: anchor

record model_routine =
  mr_id :: string
  mr_stable_routine_id :: string
  mr_object_id :: string
  mr_name :: string
  mr_kind :: string
  mr_body_available :: bool
  mr_parse_incomplete :: bool
  mr_record_variables :: "model_record_variable list"
  mr_record_operations :: "model_record_operation list"
  mr_parameters :: "model_parameter list"
  mr_access_modifier :: "string option"
  mr_call_sites :: "model_call_site list"
  mr_field_accesses :: "field_access list"
  mr_statement_tree :: "cfn_node option"
  mr_source_anchor :: anchor
  mr_assigned_names :: "string list"

section \<open>Names\<close>

text \<open>\<open>trim_matches('"')\<close> and \<open>eq_ignore_ascii_case\<close> of the standard library.\<close>

definition trim_quotes :: "string \<Rightarrow> string" where
  "trim_quotes s =
     rev (dropWhile (\<lambda>c. c = CHR 0x22) (rev (dropWhile (\<lambda>c. c = CHR 0x22) s)))"

definition eq_ignore_case :: "string \<Rightarrow> string \<Rightarrow> bool" where
  "eq_ignore_case a b = (to_lowercase a = to_lowercase b)"

definition unq :: "string \<Rightarrow> string" where
  "unq s = trim_quotes (trim s)"

definition event_param_names_match :: "string \<Rightarrow> string \<Rightarrow> bool" where
  "event_param_names_match a b = eq_ignore_case (unq a) (unq b)"

lemma event_param_names_match_equiv:
  "event_param_names_match a a"
  "event_param_names_match a b \<Longrightarrow> event_param_names_match b a"
  "event_param_names_match a b \<Longrightarrow> event_param_names_match b c \<Longrightarrow> event_param_names_match a c"
  by (simp_all add: event_param_names_match_def eq_ignore_case_def)

text \<open>The publisher parameter a subscriber's parameter binds to, by name.\<close>

definition event_publisher_param :: "model_routine \<Rightarrow> model_routine \<Rightarrow> u32 \<Rightarrow> model_parameter option" where
  "event_publisher_param publisher subscriber sub_param =
     Option.bind (List.find (\<lambda>p. mp_index p = sub_param) (mr_parameters subscriber))
       (\<lambda>q. List.find (\<lambda>p. event_param_names_match (mp_name p) (mp_name q)) (mr_parameters publisher))"

end
