(* ===== verification/List_Facts.thy ===== *)
theory List_Facts
  imports Prelude "HOL-Library.Sublist"
begin

text \<open>
  Facts about sublists, prefixes and separators that several components share.
\<close>

lemma subseq_distinctness: "subseq xs ys \<Longrightarrow> distinct ys \<Longrightarrow> distinct xs"
proof (induction rule: list_emb.induct)
  case (list_emb_Cons2 x y xs ys)
  then have "set xs \<subseteq> set ys" by (auto dest: list_emb_set)
  with list_emb_Cons2 show ?case by auto
qed auto

lemma prefix_nth: "prefix xs ys \<Longrightarrow> i < length xs \<Longrightarrow> ys ! i = xs ! i"
  by (auto simp: prefix_def nth_append)

lemma prefix_at: "prefix xs ys \<Longrightarrow> i < length xs \<Longrightarrow> i < length ys \<and> ys ! i = xs ! i"
  by (auto simp: prefix_nth dest: prefix_length_le)

lemma append_sep_inject: "c \<notin> set a \<Longrightarrow> c \<notin> set a' \<Longrightarrow> a @ c # b = a' @ c # b' \<longleftrightarrow> a = a' \<and> b = b'"
proof (induction a arbitrary: a')
  case Nil
  then show ?case by (cases a') auto
next
  case (Cons x a)
  then show ?case by (cases a') auto
qed

text \<open>Joining at a character the items do not contain loses nothing but the empty item.\<close>

lemma join_with_Cons: "join_with [c] (x # xs) = x @ concat (map (\<lambda>f. c # f) xs)"
  by (induction xs arbitrary: x) auto

lemma join_with_empty: "join_with [c] xs = [] \<longleftrightarrow> xs = [] \<or> xs = [[]]"
  by (cases xs; cases "tl xs") (auto simp: join_with_Cons)

lemma join_with_inject:
  assumes "\<forall>x \<in> set xs. c \<notin> set x \<and> x \<noteq> []" "\<forall>y \<in> set ys. c \<notin> set y \<and> y \<noteq> []" "join_with [c] xs = join_with [c] ys"
  shows "xs = ys"
  using assms
proof (induction xs arbitrary: ys)
  case Nil
  then have "ys = [] \<or> ys = [[]]" using join_with_empty [of c ys] by simp
  with Nil(2) show ?case by auto
next
  case (Cons x xs)
  then obtain y ys' where ys: "ys = y # ys'" by (cases ys) (auto simp: join_with_Cons)
  show ?case
  proof (cases xs)
    case Nil
    show ?thesis
    proof (cases ys')
      case Nil
      with Cons.prems(3) ys \<open>xs = []\<close> show ?thesis by simp
    next
      case (Cons z zs)
      then have "x = y @ c # join_with [c] (z # zs)" using Cons.prems(3) ys \<open>xs = []\<close> by simp
      with Cons.prems(1) show ?thesis by (metis in_set_conv_decomp list.set_intros(1))
    qed
  next
    case (Cons x' xs')
    show ?thesis
    proof (cases ys')
      case Nil
      then have "y = x @ c # join_with [c] (x' # xs')" using Cons.prems(3) ys \<open>xs = _\<close> by simp
      with Cons.prems(2) ys show ?thesis by (metis in_set_conv_decomp list.set_intros(1))
    next
      case (Cons y' ys'')
      then have "x @ c # join_with [c] xs = y @ c # join_with [c] ys'" using Cons.prems(3) ys \<open>xs = _\<close> by simp
      then have "x = y" "join_with [c] xs = join_with [c] ys'"
        using Cons.prems(1,2) ys append_sep_inject [of c x y] by simp_all
      with Cons.IH [of ys'] Cons.prems(1,2) ys show ?thesis by simp
    qed
  qed
qed

end
