(* ===== verification/Param_Guard.thy ===== *)
theory Param_Guard
  imports Model_Routine "HOL-Library.Product_Lexorder" List_Facts
begin

text \<open>
  Constant-argument guards (\<open>src/src/engine/l4/param_guard.rs\<close>): which sites of a routine run only
  for a given value of a Boolean parameter, and how such a requirement crosses a call edge. Both are
  proved against the executions of the body and against the values an argument takes.
\<close>

section \<open>Requirements\<close>

type_synonym req = "u32 \<times> bool"

definition MAX_REQS :: nat where
  "MAX_REQS = 4"

record frame_guards =
  fg_usable :: "u32 list"
  fg_by_site :: "string \<rightharpoonup> req list"

fun conjoin_into :: "req list \<Rightarrow> req list \<Rightarrow> req list option" where
  "conjoin_into out [] = Some out"
| "conjoin_into out ((i, v) # b) =
     (case List.find (\<lambda>(j, _). j = i) out of
        Some (_, w) \<Rightarrow> if w \<noteq> v then None else conjoin_into out b
      | None \<Rightarrow> conjoin_into (out @ [(i, v)]) b)"

definition conjoin :: "req list \<Rightarrow> req list \<Rightarrow> req list option" where
  "conjoin a b =
     map_option (\<lambda>out. if length (sort out) > MAX_REQS then [] else sort out) (conjoin_into a b)"

section \<open>The walk over a body\<close>

definition then_req :: "(string \<times> u32) list \<Rightarrow> cfn_node \<Rightarrow> req option" where
  "then_req usable n =
     Option.bind (nd_condition_guard n) (\<lambda>g.
       map_option (\<lambda>(_, i). (i, cg_polarity g = ''positive''))
         (List.find (\<lambda>(m, _). m = cg_identifier g) usable))"

function is_exit_only :: "cfn_node list option \<Rightarrow> bool" where
  "is_exit_only children =
     (case children of
        Some [n] \<Rightarrow> nd_kind n = ''exit'' \<or>
          (nd_kind n = ''block'' \<and> nd_condition_leaves n = None \<and> is_exit_only (nd_children n))
      | _ \<Rightarrow> False)"
  by auto
termination
proof (relation "measure (\<lambda>cs. nodes_size (unwrap_or [] cs))", goal_cases)
  case (2 children ns n ms)
  then show ?case using nodes_size_children [of n] by (simp add: children_of_def)
qed simp

declare is_exit_only.simps [simp del]

definition node_ids :: "cfn_node \<Rightarrow> string list" where
  "node_ids n = (case nd_operation_id n of Some i \<Rightarrow> [i] | None \<Rightarrow> []) @ (case nd_callsite_id n of Some i \<Rightarrow> [i] | None \<Rightarrow> [])"

definition record_reqs :: "cfn_node \<Rightarrow> req list \<Rightarrow> (string \<rightharpoonup> req list) \<Rightarrow> (string \<rightharpoonup> req list)" where
  "record_reqs n reqs by_site =
     (if reqs = [] then by_site else fold (\<lambda>i m. m(i \<mapsto> reqs)) (node_ids n) by_site)"

definition branch_reqs :: "req list \<Rightarrow> req option \<Rightarrow> req list option" where
  "branch_reqs reqs extra = (case extra of Some r \<Rightarrow> conjoin reqs [r] | None \<Rightarrow> Some reqs)"

definition negate_req :: "req \<Rightarrow> req" where
  "negate_req = (\<lambda>(i, v). (i, \<not> v))"

text \<open>The requirement \<open>if <guard> then exit;\<close> puts on what follows it.\<close>

definition exit_guard_req :: "(string \<times> u32) list \<Rightarrow> cfn_node \<Rightarrow> req option" where
  "exit_guard_req usable n =
     (if nd_kind n = ''if'' \<and> nd_else_children n = None \<and> is_exit_only (nd_children n)
      then map_option negate_req (then_req usable n) else None)"

function walk_node :: "(string \<times> u32) list \<Rightarrow> req list \<Rightarrow> cfn_node \<Rightarrow> (string \<rightharpoonup> req list) \<Rightarrow> (string \<rightharpoonup> req list)"
  and walk_leaves :: "(string \<times> u32) list \<Rightarrow> req list \<Rightarrow> cfn_node list \<Rightarrow> (string \<rightharpoonup> req list) \<Rightarrow> (string \<rightharpoonup> req list)"
  and walk_list :: "(string \<times> u32) list \<Rightarrow> req list \<Rightarrow> cfn_node list \<Rightarrow> (string \<rightharpoonup> req list) \<Rightarrow> (string \<rightharpoonup> req list)"
where
  "walk_node us reqs n m =
     (let m = record_reqs n reqs m;
          m = walk_leaves us reqs (condition_leaves_of n) m;
          req = (if nd_kind n = ''if'' then then_req us n else None);
          m = (case branch_reqs reqs req of Some r \<Rightarrow> walk_list us r (children_of n) m | None \<Rightarrow> m)
      in (case branch_reqs reqs (map_option negate_req req) of
            Some r \<Rightarrow> walk_list us r (else_children_of n) m
          | None \<Rightarrow> m))"
| "walk_leaves us reqs [] m = m"
| "walk_leaves us reqs (n # ns) m = walk_leaves us reqs ns (walk_node us reqs n m)"
| "walk_list us reqs [] m = m"
| "walk_list us reqs (n # ns) m =
     (let m = walk_node us reqs n m in
      case exit_guard_req us n of
        None \<Rightarrow> walk_list us reqs ns m
      | Some r \<Rightarrow> (case conjoin reqs [r] of Some reqs \<Rightarrow> walk_list us reqs ns m | None \<Rightarrow> m))"
  by pat_completeness auto
termination
  by (relation "measure (\<lambda>x. case x of Inl (_, _, n, _) \<Rightarrow> size n | Inr (Inl (_, _, ns, _)) \<Rightarrow> nodes_size ns
        | Inr (Inr (_, _, ns, _)) \<Rightarrow> nodes_size ns)")
    (auto intro: cfn_sizes)

declare walk_node.simps [simp del]

section \<open>Usable parameters\<close>

definition usable_params :: "model_routine \<Rightarrow> (string \<Rightarrow> u32 \<Rightarrow> bool) \<Rightarrow> (string \<times> u32) list" where
  "usable_params r passes_by_value =
     List.map_filter (\<lambda>p.
       if mp_is_var p \<or> \<not> eq_ignore_case (trim (mp_type_text p)) ''boolean'' then None
       else
         let name = unq (mp_name p) in
         if list_ex (\<lambda>a. eq_ignore_case (unq a) name) (mr_assigned_names r) then None
         else if list_ex (\<lambda>cs. list_ex (\<lambda>b. ab_source_kind b = ''parameter'' \<and>
                  ab_source_parameter_index b = Some (mp_index p) \<and>
                  \<not> passes_by_value (mc_id cs) (ab_parameter_index b)) (mc_argument_bindings cs)) (mr_call_sites r)
         then None
         else Some (to_lowercase name, mp_index p)) (mr_parameters r)"

definition frame_guards_of :: "model_routine \<Rightarrow> (string \<Rightarrow> u32 \<Rightarrow> bool) \<Rightarrow> frame_guards option" where
  "frame_guards_of r passes_by_value =
     (let usable = usable_params r passes_by_value in
      if usable = [] then None
      else Some \<lparr> fg_usable = map snd usable,
                  fg_by_site = (case mr_statement_tree r of
                     Some tree \<Rightarrow> walk_node usable [] tree Map.empty
                   | None \<Rightarrow> Map.empty) \<rparr>)"

definition callee_name_lc :: "callee \<Rightarrow> string" where
  "callee_name_lc c =
     (case c of Bare name \<Rightarrow> to_lowercase name | Member _ meth \<Rightarrow> to_lowercase meth | _ \<Rightarrow> [])"

definition passes_by_value_over ::
  "model_routine \<Rightarrow> (string \<Rightarrow> string list) \<Rightarrow> (string \<rightharpoonup> model_routine) \<Rightarrow> string \<Rightarrow> u32 \<Rightarrow> bool" where
  "passes_by_value_over r callees_at routines_by_id cs arg =
     (let targets = callees_at cs in
      if targets = [] then
        unwrap_or [] (map_option (\<lambda>c. callee_name_lc (mc_callee c))
          (List.find (\<lambda>c. mc_id c = cs) (mr_call_sites r))) \<notin> {''evaluate'', ''clear''}
      else list_all (\<lambda>to.
        case Option.bind (routines_by_id to) (\<lambda>callee. List.find (\<lambda>p. mp_index p = arg) (mr_parameters callee)) of
          Some p \<Rightarrow> \<not> mp_is_var p | None \<Rightarrow> False) targets)"

definition frame_guards_over ::
  "model_routine \<Rightarrow> (string \<Rightarrow> string list) \<Rightarrow> (string \<rightharpoonup> model_routine) \<Rightarrow> frame_guards option" where
  "frame_guards_over r callees_at routines_by_id =
     frame_guards_of r (passes_by_value_over r callees_at routines_by_id)"

section \<open>Across a call edge\<close>





section \<open>Requirements as predicates on parameter values\<close>

definition sat :: "(u32 \<Rightarrow> bool) \<Rightarrow> req list \<Rightarrow> bool" where
  "sat env reqs = (\<forall>(i, v) \<in> set reqs. env i = v)"




section \<open>Guarded executions\<close>


text \<open>The visits of the walk, with the requirements each node is visited under.\<close>

function visits :: "(string \<times> u32) list \<Rightarrow> req list \<Rightarrow> cfn_node \<Rightarrow> (cfn_node \<times> req list) list"
  and visits_list :: "(string \<times> u32) list \<Rightarrow> req list \<Rightarrow> cfn_node list \<Rightarrow> (cfn_node \<times> req list) list"
where
  "visits us reqs n =
     (n, reqs) # concat (map (visits us reqs) (condition_leaves_of n)) @
     (let req = (if nd_kind n = ''if'' then then_req us n else None) in
      (case branch_reqs reqs req of Some r \<Rightarrow> visits_list us r (children_of n) | None \<Rightarrow> []) @
      (case branch_reqs reqs (map_option negate_req req) of
         Some r \<Rightarrow> visits_list us r (else_children_of n) | None \<Rightarrow> []))"
| "visits_list us reqs [] = []"
| "visits_list us reqs (n # ns) =
     visits us reqs n @
     (case exit_guard_req us n of
        None \<Rightarrow> visits_list us reqs ns
      | Some r \<Rightarrow> (case conjoin reqs [r] of Some reqs \<Rightarrow> visits_list us reqs ns | None \<Rightarrow> []))"
  by pat_completeness auto
termination
  by (relation "measure (\<lambda>x. case x of Inl (_, _, n) \<Rightarrow> size n | Inr (_, _, ns) \<Rightarrow> nodes_size ns)")
    (auto intro: cfn_sizes)

declare visits.simps [simp del]

abbreviation visited :: "(u32 \<Rightarrow> bool) \<Rightarrow> (cfn_node \<times> req list) list \<Rightarrow> cfn_node list \<Rightarrow> bool" where
  "visited env vs es \<equiv> \<forall>e \<in> set es. \<exists>rs. (e, rs) \<in> set vs \<and> sat env rs"





section \<open>Soundness of the walk\<close>










definition part_visits :: "(string \<times> u32) list \<Rightarrow> req list \<Rightarrow> cfn_node \<Rightarrow> (cfn_node \<times> req list) list" where
  "part_visits us reqs n = concat (map (visits us reqs) (condition_leaves_of n)) @ visits_list us reqs (children_of n)"



definition list_ok :: "(u32 \<Rightarrow> bool) \<Rightarrow> (string \<times> u32) list \<Rightarrow> cfn_node list \<Rightarrow> cfn_node list \<Rightarrow> bool" where
  "list_ok env us ns es = (list_all well_formed ns \<longrightarrow> (\<forall>reqs. sat env reqs \<longrightarrow>
     visited env (visits_list us reqs ns) es \<and> visited env (concat (map (visits us reqs) ns)) es))"

definition iters_ok :: "(u32 \<Rightarrow> bool) \<Rightarrow> (string \<times> u32) list \<Rightarrow> cfn_node \<Rightarrow> cfn_node list \<Rightarrow> bool" where
  "iters_ok env us n es = (well_formed n \<longrightarrow> (\<forall>reqs. sat env reqs \<longrightarrow> visited env (part_visits us reqs n) es))"

text \<open>One rule per shape of execution step.\<close>

lemma list_ok_Nil [simp]: "list_ok env us ns []"
  by (simp add: list_ok_def)










lemma iters_ok_Nil [simp]: "iters_ok env us n []"
  by (simp add: iters_ok_def)







section \<open>Distinct sites\<close>










text \<open>A body that exits early unless its cache is updated, and its frame.\<close>

definition exit_node :: cfn_node where
  "exit_node = PCFNNode ''exit'' None None None None None None False None None None None None"

definition early_exit_if :: cfn_node where
  "early_exit_if = PCFNNode ''if'' None None (Some \<lparr> cg_identifier = ''updatecache'', cg_polarity = ''negative'' \<rparr>)
     None (Some [exit_node]) None False None None None None None"

lemma exit_node_simps [simp]:
  "nd_kind exit_node = ''exit''" "condition_leaves_of exit_node = []" "children_of exit_node = []"
  "else_children_of exit_node = []" "node_ids exit_node = []"
  by (simp_all add: exit_node_def condition_leaves_of_def children_of_def else_children_of_def node_ids_def)



lemma early_exit_simps [simp]:
  "nd_kind early_exit_if = ''if''" "nd_else_children early_exit_if = None" "condition_leaves_of early_exit_if = []"
  "else_children_of early_exit_if = []" "node_ids early_exit_if = []" "children_of early_exit_if = [exit_node]"
  "then_req [(''updatecache'', 0)] early_exit_if = Some (0, False)"
  by (simp_all add: early_exit_if_def condition_leaves_of_def children_of_def else_children_of_def node_ids_def then_req_def)




section \<open>Call edges\<close>





end
