(* ===== verification/Combined_Graph.thy ===== *)
theory Combined_Graph
  imports Model_Routine
begin

text \<open>
  The combined graph of a workspace (\<open>src/src/engine/l4/combined_graph.rs\<close>): the resolved edges
  between routines, keyed by the caller, and the uncertainties of the sites without a target. The
  solver passes read it.
\<close>

record dispatch_meta =
  dm_conditional :: bool
  dm_isolated :: bool

record combined_edge =
  ce_from :: string
  ce_to :: string
  ce_kind :: string
  ce_callsite_id :: "string option"
  ce_operation_id :: "string option"
  ce_event_id :: "string option"
  ce_subscriber_app_id :: "string option"
  ce_resolution :: string
  ce_dispatch :: "dispatch_meta option"

record graph_uncertainty =
  gu_kind :: string
  gu_callsite_id :: "string option"
  gu_operation_id :: "string option"
  gu_routine_id :: "string option"
  gu_interface_name :: "string option"

record uncertainty_edge =
  ue_from :: string
  ue_uncertainty :: graph_uncertainty

record primary_graph =
  pg_nodes :: "string list"
  pg_edges_by_from :: "string \<rightharpoonup> combined_edge list"
  pg_edges_from_order :: "string list"
  pg_uncertainty_edges :: "uncertainty_edge list"
  pg_collided_site_callee :: "string \<rightharpoonup> string option"

text \<open>\<open>graph.edges_by_from.get(v).into_iter().flatten()\<close>.\<close>

definition out_edges :: "primary_graph \<Rightarrow> string \<Rightarrow> combined_edge list" where
  "out_edges g v = unwrap_or [] (pg_edges_by_from g v)"

end
