(* ===== verification/Effect_Lattice.thy ===== *)
theory Effect_Lattice
  imports Prelude
begin

text \<open>
  The effect lattice (\<open>src/src/engine/l4/effect_lattice.rs\<close>): effect presence, the identity key of
  a database effect, and the precedence of the ways an effect reaches a routine.
\<close>

section \<open>Effect presence\<close>

datatype effect_presence = PNo | PUnknown | PYes

fun presence_rank :: "effect_presence \<Rightarrow> nat" where
  "presence_rank PNo = 0"
| "presence_rank PUnknown = 1"
| "presence_rank PYes = 2"

fun presence_from_rank :: "nat \<Rightarrow> effect_presence" where
  "presence_from_rank r = (if r = 0 then PNo else if r = 1 then PUnknown else PYes)"

fun presence_as_str :: "effect_presence \<Rightarrow> string" where
  "presence_as_str PNo = ''no''"
| "presence_as_str PUnknown = ''unknown''"
| "presence_as_str PYes = ''yes''"

definition from_presence_str :: "string \<Rightarrow> effect_presence" where
  "from_presence_str s = (if s = ''yes'' then PYes else if s = ''no'' then PNo else PUnknown)"

definition join_presence :: "effect_presence \<Rightarrow> effect_presence \<Rightarrow> effect_presence" where
  "join_presence a b = presence_from_rank (max (presence_rank a) (presence_rank b))"

lemma presence_rank_inj [simp]: "presence_rank a = presence_rank b \<longleftrightarrow> a = b"
  by (cases a; cases b) simp_all

instantiation effect_presence :: linorder
begin

definition less_eq_effect_presence :: "effect_presence \<Rightarrow> effect_presence \<Rightarrow> bool" where
  "less_eq_effect_presence a b = (presence_rank a \<le> presence_rank b)"

definition less_effect_presence :: "effect_presence \<Rightarrow> effect_presence \<Rightarrow> bool" where
  "less_effect_presence a b = (presence_rank a < presence_rank b)"

instance
  by standard (auto simp: less_eq_effect_presence_def less_effect_presence_def)

end

lemma join_presence_max: "join_presence a b = max a b"
  by (cases a; cases b) (simp_all add: join_presence_def max_def less_eq_effect_presence_def)

lemma presence_round_trip: "from_presence_str (presence_as_str p) = p"
  by (cases p) (simp_all add: from_presence_str_def)

section \<open>The identity of an effect\<close>

datatype temp_state_kind = Known bool | ParameterDependent u32 | UnknownTemp

fun key_fragment :: "temp_state_kind \<Rightarrow> string" where
  "key_fragment (Known True) = ''t''"
| "key_fragment (Known False) = ''f''"
| "key_fragment (ParameterDependent i) = ''p'' @ dec_string (unat i)"
| "key_fragment UnknownTemp = ''u''"

definition bar :: char where "bar = CHR ''|''"

definition effect_key_of :: "string \<Rightarrow> string \<Rightarrow> string \<Rightarrow> temp_state_kind \<Rightarrow> string" where
  "effect_key_of op table_id operation_id temp =
     op @ [bar] @ table_id @ [bar] @ operation_id @ [bar] @ key_fragment temp"

lemma key_fragment_inj: "key_fragment a = key_fragment b \<Longrightarrow> a = b"
  by (cases a rule: key_fragment.cases; cases b rule: key_fragment.cases) (auto simp: word_unat_eq_iff)

lemma bar_not_in_fragment: "bar \<notin> set (key_fragment t)"
proof -
  have "bar \<notin> set (dec_string n)" for n
    using dec_string_digits [of n] by (auto simp: list_all_iff bar_def is_digit_def)
  then show ?thesis by (cases t rule: key_fragment.cases) (auto simp: bar_def)
qed

lemma split_at_bar:
  assumes "xs @ bar # ys = xs' @ bar # ys'" "bar \<notin> set xs" "bar \<notin> set xs'"
  shows "xs = xs' \<and> ys = ys'"
  using assms
proof (induction xs arbitrary: xs')
  case Nil
  then show ?case by (cases xs') auto
next
  case (Cons x xs)
  then show ?case by (cases xs') auto
qed

lemma split_at_last_bar:
  assumes "xs @ bar # ys = xs' @ bar # ys'" "bar \<notin> set ys" "bar \<notin> set ys'"
  shows "xs = xs' \<and> ys = ys'"
proof -
  have "rev ys @ bar # rev xs = rev ys' @ bar # rev xs'"
    using arg_cong [OF assms(1), of rev] by simp
  from split_at_bar [OF this] assms(2,3) show ?thesis by simp
qed

text \<open>
  The effect key is an identity: two effects whose operation and table names hold no
  separator have the same key only if they are the same effect.
\<close>

theorem effect_key_injective:
  assumes "bar \<notin> set op" "bar \<notin> set tab" "bar \<notin> set op'" "bar \<notin> set tab'"
    "effect_key_of op tab oid temp = effect_key_of op' tab' oid' temp'"
  shows "op = op' \<and> tab = tab' \<and> oid = oid' \<and> temp = temp'"
proof -
  have "op @ bar # (tab @ bar # (oid @ bar # key_fragment temp)) =
      op' @ bar # (tab' @ bar # (oid' @ bar # key_fragment temp'))"
    using assms(5) by (simp add: effect_key_of_def)
  with assms have 1: "op = op'" "tab @ bar # (oid @ bar # key_fragment temp) = tab' @ bar # (oid' @ bar # key_fragment temp')"
    using split_at_bar by blast+
  with assms have 2: "tab = tab'" "oid @ bar # key_fragment temp = oid' @ bar # key_fragment temp'"
    using split_at_bar by blast+
  from split_at_last_bar [OF 2(2) bar_not_in_fragment bar_not_in_fragment] key_fragment_inj 1 2 show ?thesis
    by blast
qed

theorem effect_key_injective_witness:
  "effect_key_of ''Insert'' ''t1'' ''op1'' (Known True) \<noteq> effect_key_of ''Insert'' ''t1'' ''op1'' (ParameterDependent 3)"
  using effect_key_injective [of "''Insert''" "''t1''" "''Insert''" "''t1''" "''op1''" "Known True" "''op1''" "ParameterDependent 3"]
  by (auto simp: bar_def)

text \<open>
  With a separator in a table name the key is not an identity: two different effects
  share it.
\<close>

theorem effect_key_collision:
  "effect_key_of ''Modify'' ''a|b'' ''c'' UnknownTemp = effect_key_of ''Modify'' ''a'' ''b|c'' UnknownTemp"
  by (simp add: effect_key_of_def bar_def)

section \<open>Via precedence\<close>

definition via_rank :: "string \<Rightarrow> nat" where
  "via_rank via =
     (if via = ''direct'' then 4 else if via = ''implicit-trigger'' then 3
      else if via = ''event-subscriber'' then 2 else if via = ''dynamic'' then 1
      else if via = ''inherited'' then 0 else 0)"

definition merge_via :: "string \<Rightarrow> string \<Rightarrow> string" where
  "merge_via a b = (if via_rank a \<ge> via_rank b then a else b)"

definition via_for_edge_kind :: "string \<Rightarrow> string" where
  "via_for_edge_kind kind =
     (if kind = ''implicit-trigger'' then ''implicit-trigger''
      else if kind = ''event-dispatch'' \<or> kind = ''table-event'' then ''event-subscriber''
      else if kind = ''dynamic'' then ''dynamic''
      else ''inherited'')"

datatype via = Inherited | Dynamic | EventSubscriber | ImplicitTrigger | Direct

fun via_as_str :: "via \<Rightarrow> string" where
  "via_as_str Direct = ''direct''"
| "via_as_str ImplicitTrigger = ''implicit-trigger''"
| "via_as_str EventSubscriber = ''event-subscriber''"
| "via_as_str Dynamic = ''dynamic''"
| "via_as_str Inherited = ''inherited''"

definition via_from_str :: "string \<Rightarrow> via" where
  "via_from_str s =
     (if s = ''direct'' then Direct else if s = ''implicit-trigger'' then ImplicitTrigger
      else if s = ''event-subscriber'' then EventSubscriber else if s = ''dynamic'' then Dynamic
      else Inherited)"

fun via_num :: "via \<Rightarrow> nat" where
  "via_num Inherited = 0"
| "via_num Dynamic = 1"
| "via_num EventSubscriber = 2"
| "via_num ImplicitTrigger = 3"
| "via_num Direct = 4"

lemma via_num_inj [simp]: "via_num a = via_num b \<longleftrightarrow> a = b"
  by (cases a; cases b) simp_all

instantiation via :: linorder
begin

definition less_eq_via :: "via \<Rightarrow> via \<Rightarrow> bool" where "less_eq_via a b = (via_num a \<le> via_num b)"
definition less_via :: "via \<Rightarrow> via \<Rightarrow> bool" where "less_via a b = (via_num a < via_num b)"

instance
  by standard (auto simp: less_eq_via_def less_via_def)

end

lemma via_rank_as_str [simp]: "via_rank (via_as_str v) = via_num v"
  by (cases v) (simp_all add: via_rank_def)

lemma via_from_as_str [simp]: "via_from_str (via_as_str v) = v"
  by (cases v) (simp_all add: via_from_str_def)

text \<open>
  The string precedence and the compact ranks agree: on the five canonical vias the
  string merge is the maximum of the enumeration, so it is associative, commutative and
  idempotent, and an edge kind always yields a canonical via.
\<close>

theorem merge_via_is_max:
  "merge_via (via_as_str a) (via_as_str b) = via_as_str (max a b) \<and>
   (\<exists>v. via_for_edge_kind k = via_as_str v)"
proof
  show "merge_via (via_as_str a) (via_as_str b) = via_as_str (max a b)"
    by (auto simp: merge_via_def max_def less_eq_via_def dest: le_antisym)
  show "\<exists>v. via_for_edge_kind k = via_as_str v"
    by (simp add: via_for_edge_kind_def) (metis via_as_str.simps)
qed

end
