(* ===== verification/Event_Dispatch.thy ===== *)
theory Event_Dispatch
  imports Combined_Graph Effect_Lattice
begin

unbundle bit_operations_syntax

text \<open>
  Dispatch of an event publisher (\<open>src/src/engine/l4/event_dispatch.rs\<close>): which subscriber
  parameters bind which record parameter of the publisher, when a subscriber may be skipped, and the
  sequences of subscribers a raise can run. The sequences are proved to be exactly the orders of the
  bindings that always run together with some of the optional ones, each once.
\<close>

section \<open>Bindings\<close>

definition EXACT_DISPATCH_MAX :: nat where
  "EXACT_DISPATCH_MAX = 4"

record exact_binding =
  eb_subscriber :: string
  eb_q :: u32
  eb_callee_is_var :: bool
  eb_optional :: bool
  eb_path_opaque :: bool

datatype dispatch_kind = Unseen bool | Exact "exact_binding list"

record param_dispatch =
  pd_param_index :: u32
  pd_caller_is_var :: bool
  pd_kind :: dispatch_kind
  pd_sequences :: "nat list list"

text \<open>The edges of the graph come out of a hash map: in any order.\<close>

definition shared_step :: "combined_edge \<Rightarrow> (string \<rightharpoonup> string) \<times> string set \<Rightarrow> (string \<rightharpoonup> string) \<times> string set" where
  "shared_step e = (\<lambda>(publishers, shared).
     (case (if ce_kind e = ''event-dispatch'' then ce_event_id e else None) of
        None \<Rightarrow> (publishers, shared)
      | Some ev \<Rightarrow>
          (let first = unwrap_or (ce_from e) (publishers ev);
               publishers = publishers(ev \<mapsto> first)
           in (publishers, if first \<noteq> ce_from e then insert ev shared else shared))))"

definition shared_event_ids :: "combined_edge list \<Rightarrow> string set" where
  "shared_event_ids edges = snd (fold shared_step edges (Map.empty, {}))"

definition opaque_subscriber :: "model_routine \<Rightarrow> combined_edge \<Rightarrow> (string \<rightharpoonup> model_routine) \<Rightarrow> bool" where
  "opaque_subscriber publisher edge routines_by_id =
     (if ce_resolution edge \<noteq> ''resolved'' then True
      else
        (case routines_by_id (ce_to edge) of
           None \<Rightarrow> True
         | Some s \<Rightarrow> list_ex (\<lambda>q. \<not> event_param_names_match (mp_name q) ''sender'' \<and>
             event_publisher_param publisher s (mp_index q) = None) (mr_parameters s)))"

definition edge_isolated :: "combined_edge \<Rightarrow> bool" where
  "edge_isolated e = (case ce_dispatch e of Some d \<Rightarrow> dm_isolated d | None \<Rightarrow> False)"

definition edge_optional :: "combined_edge \<Rightarrow> bool" where
  "edge_optional e = (edge_isolated e \<or> (case ce_dispatch e of Some d \<Rightarrow> dm_conditional d | None \<Rightarrow> False))"

fun add_binding :: "exact_binding \<Rightarrow> exact_binding list \<Rightarrow> exact_binding list" where
  "add_binding new [] = [new]"
| "add_binding new (b # bs) =
     (if eb_subscriber b = eb_subscriber new \<and> eb_q b = eb_q new then
        (let path_opaque = eb_path_opaque b \<or> eb_path_opaque new
         in b \<lparr> eb_path_opaque := path_opaque, eb_optional := (eb_optional b \<and> eb_optional new) \<or> path_opaque \<rparr>) # bs
      else b # add_binding new bs)"

definition bind_parameter ::
  "model_routine \<Rightarrow> model_parameter \<Rightarrow> combined_edge \<Rightarrow> model_routine \<Rightarrow> model_parameter \<Rightarrow> exact_binding list \<Rightarrow> exact_binding list" where
  "bind_parameter r p e s q bindings =
     (if map_option mp_index (event_publisher_param r s (mp_index q)) \<noteq> Some (mp_index p) then bindings
      else add_binding \<lparr> eb_subscriber = mr_id s, eb_q = mp_index q, eb_callee_is_var = mp_is_var q,
             eb_optional = edge_optional e, eb_path_opaque = edge_isolated e \<rparr> bindings)"

definition bindings_of ::
  "model_routine \<Rightarrow> model_parameter \<Rightarrow> combined_edge list \<Rightarrow> (string \<rightharpoonup> model_routine) \<Rightarrow> exact_binding list" where
  "bindings_of r p dispatch routines_by_id =
     fold (\<lambda>e bindings. let s = the (routines_by_id (ce_to e)) in
       fold (bind_parameter r p e s) (mr_parameters s) bindings) dispatch []"

section \<open>Sequences\<close>

text \<open>
  \<open>permute\<close> works in place: it swaps, recurses and swaps back. \<open>n\<close> is the length of the
  vector, which no call changes.
\<close>

definition swap_at :: "nat list \<Rightarrow> nat \<Rightarrow> nat \<Rightarrow> nat list" where
  "swap_at v i j = v[i := v ! j, j := v ! i]"

function permute :: "nat \<Rightarrow> nat list \<Rightarrow> nat \<Rightarrow> nat list list \<Rightarrow> nat list \<times> nat list list"
  and permute_from :: "nat \<Rightarrow> nat list \<Rightarrow> nat \<Rightarrow> nat \<Rightarrow> nat list list \<Rightarrow> nat list \<times> nat list list"
where
  "permute n v k out = (if k \<ge> n then (v, out @ [v]) else permute_from n v k k out)"
| "permute_from n v k i out =
     (if i < n \<and> k < n then
        (let (v, out) = permute n (swap_at v k i) (k + 1) out
         in permute_from n (swap_at v k i) k (i + 1) out)
      else (v, out))"
  by pat_completeness auto
termination
  by (relation "measures [\<lambda>x. case x of Inl (n, _, k, _) \<Rightarrow> n - k | Inr (n, _, k, _) \<Rightarrow> n - k,
      \<lambda>x. case x of Inl (n, _, k, _) \<Rightarrow> 2 * n + 2 | Inr (n, _, k, i, _) \<Rightarrow> n - i]")
    auto

declare permute.simps [simp del] permute_from.simps [simp del]

definition mask_run :: "nat list \<Rightarrow> nat list \<Rightarrow> nat \<Rightarrow> nat list" where
  "mask_run always optional bits =
     always @ map (\<lambda>(k, i). i) (filter (\<lambda>(k, i). (drop_bit k bits) AND 1 = 1) (enumerate 0 optional))"

definition dispatch_sequences :: "exact_binding list \<Rightarrow> nat list list" where
  "dispatch_sequences bindings =
     (let (optional, always) = partition (\<lambda>i. eb_optional (bindings ! i)) [0..<length bindings]
      in fold (\<lambda>bits out. let run = mask_run always optional bits in snd (permute (length run) run 0 out))
           [0..<2 ^ length optional] [])"

section \<open>Bindings of a publisher\<close>

definition param_dispatch_of ::
  "model_routine \<Rightarrow> combined_edge list \<Rightarrow> (string \<rightharpoonup> model_routine) \<Rightarrow> bool \<Rightarrow> model_parameter \<Rightarrow> param_dispatch option" where
  "param_dispatch_of r dispatch routines_by_id unseen p =
     (let kind =
        (if unseen then Some (Unseen False)
         else
           (let bindings = bindings_of r p dispatch routines_by_id; n = length bindings in
            if n = 0 then None
            else if n > EXACT_DISPATCH_MAX then Some (Unseen True)
            else Some (Exact bindings)))
      in map_option (\<lambda>kind.
           \<lparr> pd_param_index = mp_index p, pd_caller_is_var = mp_is_var p, pd_kind = kind,
             pd_sequences = (case kind of
                Exact b \<Rightarrow> if list_ex eb_path_opaque b then [] else dispatch_sequences b
              | Unseen _ \<Rightarrow> []) \<rparr>) kind)"

definition dispatch_bindings ::
  "model_routine \<Rightarrow> combined_edge list \<Rightarrow> (string \<rightharpoonup> model_routine) \<Rightarrow> string set \<Rightarrow> param_dispatch list" where
  "dispatch_bindings r edges routines_by_id shared_events =
     (if \<not> mr_body_available r then []
      else
        let dispatch = filter (\<lambda>e. ce_kind e = ''event-dispatch'') edges in
        if dispatch = [] then []
        else
          let unseen = list_ex (\<lambda>e. opaque_subscriber r e routines_by_id \<or>
                (case ce_event_id e of Some ev \<Rightarrow> ev \<in> shared_events | None \<Rightarrow> False)) dispatch
          in List.map_filter (param_dispatch_of r dispatch routines_by_id unseen)
               (filter mp_is_record (mr_parameters r)))"

fun optional_load :: "effect_presence \<Rightarrow> effect_presence" where
  "optional_load PYes = PNo"
| "optional_load v = v"

section \<open>The permutations\<close>

lemma length_swap_at [simp]: "length (swap_at v i j) = length v"
  by (simp add: swap_at_def)

lemma swap_at_swap_at: "i < length v \<Longrightarrow> j < length v \<Longrightarrow> swap_at (swap_at v i j) i j = v"
  by (rule nth_equalityI) (auto simp: swap_at_def nth_list_update)

lemma mset_swap_at: "i < length v \<Longrightarrow> j < length v \<Longrightarrow> mset (swap_at v i j) = mset v"
  by (simp add: swap_at_def mset_swap)

lemma take_swap_at: "k \<le> i \<Longrightarrow> i < length v \<Longrightarrow> take (Suc k) (swap_at v k i) = take k v @ [v ! i]"
  by (auto simp: swap_at_def take_Suc_conv_app_nth nth_list_update)

function perms :: "nat list \<Rightarrow> nat \<Rightarrow> nat list list" where
  "perms v k = (if k \<ge> length v then [v] else concat (map (\<lambda>i. perms (swap_at v k i) (k + 1)) [k..<length v]))"
  by auto
termination by (relation "measure (\<lambda>(v, k). length v - k)") auto

declare perms.simps [simp del]

lemma permute_perms:
  "length v = n \<Longrightarrow> permute n v k out = (v, out @ perms v k)"
  "length v = n \<Longrightarrow> k \<le> i \<Longrightarrow> k < n \<Longrightarrow>
     permute_from n v k i out = (v, out @ concat (map (\<lambda>i. perms (swap_at v k i) (k + 1)) [i..<n]))"
proof (induction n v k out and n v k i out rule: permute_permute_from.induct)
  case (1 n v k out)
  then show ?case by (subst permute.simps, subst perms.simps) simp
next
  case (2 n v k i out)
  show ?case
  proof (cases "i < n")
    case True
    have c: "i < n \<and> k < n" using True 2(5) by simp
    have p: "permute n (swap_at v k i) (k + 1) out = (swap_at v k i, out @ perms (swap_at v k i) (k + 1))"
      by (rule 2(1) [OF c]) (use 2(3) in simp)
    have sw: "swap_at (swap_at v k i) k i = v" using c 2(3) by (simp add: swap_at_swap_at)
    have "permute_from n v k (i + 1) (out @ perms (swap_at v k i) (k + 1)) =
        (v, (out @ perms (swap_at v k i) (k + 1)) @ concat (map (\<lambda>i. perms (swap_at v k i) (k + 1)) [i + 1..<n]))"
      using 2(2) [OF c p [symmetric] refl] 2(3-5) by (simp add: sw)
    then show ?thesis using c by (subst permute_from.simps) (simp add: p [simplified] sw upt_conv_Cons)
  next
    case False
    with 2(3) show ?thesis by (subst permute_from.simps) simp
  qed
qed

lemma perms_set: "k \<le> length v \<Longrightarrow> set (perms v k) = {w. mset w = mset v \<and> take k w = take k v}"
proof (induction v k rule: perms.induct)
  case (1 v k)
  show ?case
  proof (cases "k = length v")
    case True
    have "w = v" if "mset w = mset v" "take (length v) w = v" for w
      using that mset_eq_length [OF that(1)] by simp
    with True show ?thesis by (subst perms.simps) auto
  next
    case False
    with 1(2) have k: "k < length v" by simp
    have IH: "set (perms (swap_at v k i) (k + 1)) = {w. mset w = mset v \<and> take (Suc k) w = take k v @ [v ! i]}"
      if "i \<in> {k..<length v}" for i
      using 1(1) [of i] that k by (simp add: mset_swap_at take_swap_at)
    have "w \<in> (\<Union>i \<in> {k..<length v}. {w. mset w = mset v \<and> take (Suc k) w = take k v @ [v ! i]}) \<longleftrightarrow>
        mset w = mset v \<and> take k w = take k v" for w
    proof
      assume w: "mset w = mset v \<and> take k w = take k v"
      then have len: "length w = length v" using mset_eq_length by blast
      have "mset (drop k w) = mset (drop k v)"
        using w by (metis add_left_cancel append_take_drop_id mset_append)
      moreover have "w ! k \<in> set (drop k w)" using k len by (metis Cons_nth_drop_Suc list.set_intros(1))
      ultimately have "w ! k \<in> set (drop k v)" by (metis set_mset_mset)
      then obtain i where i: "k \<le> i" "i < length v" "v ! i = w ! k"
        by (auto simp: in_set_conv_nth) (metis add.commute le_add2 less_diff_conv)
      have "take (Suc k) w = take k v @ [v ! i]" using w i(3) k len by (simp add: take_Suc_conv_app_nth)
      with i w show "w \<in> (\<Union>i \<in> {k..<length v}. {w. mset w = mset v \<and> take (Suc k) w = take k v @ [v ! i]})"
        by (intro UN_I [of i]) auto
    next
      assume "w \<in> (\<Union>i \<in> {k..<length v}. {w. mset w = mset v \<and> take (Suc k) w = take k v @ [v ! i]})"
      then obtain i where w: "mset w = mset v" "take (Suc k) w = take k v @ [v ! i]" by blast
      then have "take k (take (Suc k) w) = take k v" using k by simp
      with w(1) show "mset w = mset v \<and> take k w = take k v" by (simp add: min_def)
    qed
    moreover have "set (perms v k) = (\<Union>i \<in> {k..<length v}. set (perms (swap_at v k i) (k + 1)))"
      using k by (subst perms.simps) simp
    moreover have "\<dots> = (\<Union>i \<in> {k..<length v}. {w. mset w = mset v \<and> take (Suc k) w = take k v @ [v ! i]})"
      by (rule SUP_cong [OF refl IH])
    ultimately show ?thesis by blast
  qed
qed

lemma perms_distinct: "distinct v \<Longrightarrow> k \<le> length v \<Longrightarrow> distinct (perms v k)"
proof (induction v k rule: perms.induct)
  case (1 v k)
  show ?case
  proof (cases "k = length v")
    case True
    then show ?thesis by (subst perms.simps) simp
  next
    case False
    with 1(3) have k: "k < length v" by simp
    let ?f = "\<lambda>i. perms (swap_at v k i) (k + 1)"
    have set_f: "set (?f i) = {w. mset w = mset v \<and> take (Suc k) w = take k v @ [v ! i]}" if "i \<in> {k..<length v}" for i
      using perms_set [of "k + 1" "swap_at v k i"] that k by (simp add: mset_swap_at take_swap_at)
    have disj: "set (?f i) \<inter> set (?f j) = {}" if "i \<in> {k..<length v}" "j \<in> {k..<length v}" "i \<noteq> j" for i j
      using set_f that nth_eq_iff_index_eq [OF 1(2), of i j] by auto
    have self: "swap_at v k i \<in> set (?f i)" if "i \<in> {k..<length v}" for i
      unfolding set_f [OF that] using that k by (simp add: mset_swap_at take_swap_at)
    have dsw: "distinct (swap_at v k i)" if "i \<in> {k..<length v}" for i
      using mset_eq_imp_distinct_iff [OF mset_swap_at, of k v i] that k 1(2) by simp
    have inj: "inj_on ?f {k..<length v}" by (rule inj_onI) (metis disj disjoint_iff self)
    have "distinct (concat (map ?f [k..<length v]))"
    proof (rule distinct_concat)
      show "distinct (map ?f [k..<length v])" using inj by (simp add: distinct_map)
      show "distinct ys" if "ys \<in> set (map ?f [k..<length v])" for ys
        using that 1(1) dsw k by auto
      show "set ys \<inter> set zs = {}" if "ys \<in> set (map ?f [k..<length v])" "zs \<in> set (map ?f [k..<length v])" "ys \<noteq> zs" for ys zs
      proof -
        from that obtain i j where "i \<in> {k..<length v}" "j \<in> {k..<length v}" "ys = ?f i" "zs = ?f j" by auto
        with that(3) show ?thesis using disj [of i j] by blast
      qed
    qed
    with k show ?thesis by (subst perms.simps) simp
  qed
qed

section \<open>The runs of a dispatch\<close>

lemma mask_run_set:
  "set (mask_run always optional m) = set always \<union> {optional ! k | k. k < length optional \<and> bit m k}"
  by (auto simp: mask_run_def and_one_eq bit_iff_odd_drop_bit odd_iff_mod_2_eq_one in_set_enumerate_eq)

lemma mask_run_distinct:
  assumes "distinct (always @ optional)"
  shows "distinct (mask_run always optional m)"
proof -
  let ?B = "map (\<lambda>(k, i). i) (filter (\<lambda>(k, i). (drop_bit k m) AND 1 = 1) (enumerate 0 optional))"
  have snd: "(\<lambda>(k :: nat, i :: nat). i) = snd" by auto
  have "distinct (map snd (enumerate 0 optional))" using assms by simp
  then have "distinct ?B" unfolding snd by (rule distinct_map_filter)
  moreover have "set ?B \<subseteq> set optional" by (auto simp: in_set_enumerate_eq)
  ultimately show ?thesis using assms unfolding mask_run_def distinct_append by blast
qed

lemma fold_sequences:
  "fold (\<lambda>bits out. let run = mask_run always optional bits in snd (permute (length run) run 0 out)) ms out =
     out @ concat (map (\<lambda>bits. perms (mask_run always optional bits) 0) ms)"
  by (induction ms arbitrary: out) (simp_all add: Let_def permute_perms)

lemma mask_bits: "m < 2 ^ n \<Longrightarrow> bit m k \<Longrightarrow> k < n" for m :: nat
  by (metis bit_take_bit_iff take_bit_nat_eq_self)

lemma mask_of_subset:
  obtains m :: nat where "m < 2 ^ length optional" "\<And>k. k < length optional \<Longrightarrow> bit m k \<longleftrightarrow> optional ! k \<in> S"
proof
  let ?m = "horner_sum of_bool 2 (map (\<lambda>i. i \<in> S) optional) :: nat"
  show "?m < 2 ^ length optional" using horner_sum_of_bool_2_less [of "map (\<lambda>i. i \<in> S) optional"] by simp
  show "bit ?m k \<longleftrightarrow> optional ! k \<in> S" if "k < length optional" for k
    using that by (simp add: bit_horner_sum_bit_iff)
qed

lemma mask_run_inj:
  assumes "distinct (always @ optional)" "m < 2 ^ length optional" "m' < 2 ^ length optional"
    "set (mask_run always optional m) = set (mask_run always optional m')"
  shows "m = m'"
proof (rule bit_eqI)
  fix k
  have "bit m k \<longleftrightarrow> bit m' k" if k: "k < length optional"
  proof -
    have "bit b k \<longleftrightarrow> optional ! k \<in> set (mask_run always optional b)" for b
      using assms(1) k nth_eq_iff_index_eq [of optional] by (auto simp: mask_run_set)
    with assms(4) show ?thesis by blast
  qed
  then show "bit m k \<longleftrightarrow> bit m' k" using mask_bits assms(2,3) by blast
qed

text \<open>The bindings that always run and the optional ones, by index; the runs are the masks' permutations.\<close>

definition binding_indices :: "bool \<Rightarrow> exact_binding list \<Rightarrow> nat list" where
  "binding_indices opt bs = filter (\<lambda>i. eb_optional (bs ! i) = opt) [0..<length bs]"

abbreviation run_of :: "exact_binding list \<Rightarrow> nat \<Rightarrow> nat list" where
  "run_of bs \<equiv> mask_run (binding_indices False bs) (binding_indices True bs)"

lemma dispatch_sequences_perms:
  "dispatch_sequences bs = concat (map (\<lambda>b. perms (run_of bs b) 0) [0..<2 ^ length (binding_indices True bs)])"
  by (simp add: dispatch_sequences_def partition_filter_conv comp_def fold_sequences binding_indices_def)

lemma binding_indices_distinct: "distinct (binding_indices False bs @ binding_indices True bs)"
  by (auto simp: binding_indices_def)

lemma in_run_perms: "w \<in> set (perms (run_of bs b) 0) \<longleftrightarrow> distinct w \<and> set w = set (run_of bs b)"
  using mask_run_distinct [OF binding_indices_distinct, of bs b] perms_set [of 0 "run_of bs b"]
  by (auto simp: dest: mset_eq_setD mset_eq_imp_distinct_iff intro: set_eq_iff_mset_eq_distinct [THEN iffD1])

lemma dispatch_sequences_set:
  "w \<in> set (dispatch_sequences bs) \<longleftrightarrow>
     distinct w \<and> set w \<subseteq> {..<length bs} \<and> (\<forall>i < length bs. \<not> eb_optional (bs ! i) \<longrightarrow> i \<in> set w)"
proof
  assume "w \<in> set (dispatch_sequences bs)"
  then obtain b where b: "distinct w" "set w = set (run_of bs b)"
    unfolding dispatch_sequences_perms using in_run_perms by auto
  have "set (binding_indices False bs) \<subseteq> {..<length bs}" "set (binding_indices True bs) \<subseteq> {..<length bs}"
    "\<forall>i < length bs. \<not> eb_optional (bs ! i) \<longrightarrow> i \<in> set (binding_indices False bs)"
    by (auto simp: binding_indices_def)
  then show "distinct w \<and> set w \<subseteq> {..<length bs} \<and> (\<forall>i < length bs. \<not> eb_optional (bs ! i) \<longrightarrow> i \<in> set w)"
    using b by (auto simp: mask_run_set subset_iff)
next
  assume w: "distinct w \<and> set w \<subseteq> {..<length bs} \<and> (\<forall>i < length bs. \<not> eb_optional (bs ! i) \<longrightarrow> i \<in> set w)"
  let ?opt = "binding_indices True bs"
  obtain b :: nat where b: "b < 2 ^ length ?opt" "\<And>k. k < length ?opt \<Longrightarrow> bit b k \<longleftrightarrow> ?opt ! k \<in> set w"
    using mask_of_subset [of ?opt "set w"] by blast
  have "x \<in> set w \<longleftrightarrow> x \<in> set (run_of bs b)" for x
  proof -
    have "x \<in> set (run_of bs b) \<longleftrightarrow> x \<in> set (binding_indices False bs) \<or> x \<in> set ?opt \<and> x \<in> set w"
      using b(2) by (auto simp: mask_run_set in_set_conv_nth)
    moreover have "x \<in> set w \<Longrightarrow> x \<in> set (binding_indices False bs) \<or> x \<in> set ?opt"
      "x \<in> set (binding_indices False bs) \<Longrightarrow> x \<in> set w"
      using w by (auto simp: binding_indices_def)
    ultimately show ?thesis by blast
  qed
  then have "set w = set (run_of bs b)" by blast
  then show "w \<in> set (dispatch_sequences bs)" using b(1) w in_run_perms unfolding dispatch_sequences_perms by auto
qed

text \<open>
  Property C24. The runs of an exact dispatch are exactly the duplicate-free orders of binding
  indices that contain every binding that always runs, each listed once: all subsets of the
  optional bindings, in every order, and the empty run only when no binding always runs.
\<close>

theorem dispatch_sequences_exact:
  "set (dispatch_sequences bs) =
     {w. distinct w \<and> set w \<subseteq> {..<length bs} \<and> {i. i < length bs \<and> \<not> eb_optional (bs ! i)} \<subseteq> set w} \<and>
   distinct (dispatch_sequences bs)"
proof
  show "set (dispatch_sequences bs) =
      {w. distinct w \<and> set w \<subseteq> {..<length bs} \<and> {i. i < length bs \<and> \<not> eb_optional (bs ! i)} \<subseteq> set w}"
    by (intro set_eqI) (auto simp: dispatch_sequences_set)
  let ?run = "run_of bs" and ?ms = "[0..<2 ^ length (binding_indices True bs)]"
  show "distinct (dispatch_sequences bs)"
    unfolding dispatch_sequences_perms
  proof (rule distinct_concat)
    have disj: "b = b'" if "b \<in> set ?ms" "b' \<in> set ?ms" "w \<in> set (perms (?run b) 0)" "w \<in> set (perms (?run b') 0)" for b b' w
      using that in_run_perms mask_run_inj [OF binding_indices_distinct] by auto
    have ne: "?run b \<in> set (perms (?run b) 0)" for b using in_run_perms mask_run_distinct [OF binding_indices_distinct] by simp
    show "distinct (map (\<lambda>b. perms (?run b) 0) ?ms)"
      unfolding distinct_map using disj ne by (intro conjI inj_onI) (simp, metis)
    show "distinct ys" if "ys \<in> set (map (\<lambda>b. perms (?run b) 0) ?ms)" for ys
      using that perms_distinct mask_run_distinct [OF binding_indices_distinct] by auto
    show "set ys \<inter> set zs = {}"
      if "ys \<in> set (map (\<lambda>b. perms (?run b) 0) ?ms)" "zs \<in> set (map (\<lambda>b. perms (?run b) 0) ?ms)" "ys \<noteq> zs" for ys zs
      using that disj by fastforce
  qed
qed

section \<open>The bindings\<close>

definition binding_key :: "exact_binding \<Rightarrow> string \<times> u32" where
  "binding_key b = (eb_subscriber b, eb_q b)"

definition merge_binding :: "exact_binding \<Rightarrow> exact_binding \<Rightarrow> exact_binding" where
  "merge_binding b new =
     b \<lparr> eb_path_opaque := eb_path_opaque b \<or> eb_path_opaque new,
         eb_optional := (eb_optional b \<and> eb_optional new) \<or> eb_path_opaque b \<or> eb_path_opaque new \<rparr>"

lemma add_binding_Cons:
  "add_binding new (b # bs) = (if binding_key b = binding_key new then merge_binding b new # bs else b # add_binding new bs)"
  by (simp add: binding_key_def merge_binding_def Let_def)

lemma merge_binding_key [simp]: "binding_key (merge_binding b new) = binding_key b"
  by (simp add: binding_key_def merge_binding_def)

declare add_binding.simps(2) [simp del]
declare add_binding_Cons [simp]

lemma add_binding_keys:
  "map binding_key (add_binding new bs) =
     (if binding_key new \<in> set (map binding_key bs) then map binding_key bs else map binding_key bs @ [binding_key new])"
  by (induction bs) auto

lemma add_binding_set:
  "distinct (map binding_key bs) \<Longrightarrow> b \<in> set (add_binding new bs) \<longleftrightarrow>
     (if binding_key b \<noteq> binding_key new then b \<in> set bs
      else (\<exists>old \<in> set bs. binding_key old = binding_key new \<and> b = merge_binding old new) \<or>
        (binding_key new \<notin> set (map binding_key bs) \<and> b = new))"
proof (induction bs)
  case (Cons x bs)
  show ?case
  proof (cases "binding_key x = binding_key new")
    case True
    have "binding_key x \<notin> binding_key ` set bs" using Cons.prems by simp
    with True have "\<forall>old \<in> set bs. binding_key old \<noteq> binding_key new" by (metis image_eqI)
    with True show ?thesis by auto
  next
    case False
    then have "add_binding new (x # bs) = x # add_binding new bs" by simp
    moreover have "b \<in> set (add_binding new bs) \<longleftrightarrow>
        (if binding_key b \<noteq> binding_key new then b \<in> set bs
         else (\<exists>old \<in> set bs. binding_key old = binding_key new \<and> b = merge_binding old new) \<or>
           (binding_key new \<notin> set (map binding_key bs) \<and> b = new))"
      using Cons by simp
    ultimately show ?thesis using False by auto
  qed
qed auto

definition folded_binding :: "exact_binding list \<Rightarrow> exact_binding \<Rightarrow> bool" where
  "folded_binding evs b =
     ((\<exists>ev \<in> set evs. binding_key ev = binding_key b) \<and>
      (eb_path_opaque b \<longleftrightarrow> (\<exists>ev \<in> set evs. binding_key ev = binding_key b \<and> eb_path_opaque ev)) \<and>
      (eb_optional b \<longleftrightarrow> (\<forall>ev \<in> set evs. binding_key ev = binding_key b \<longrightarrow> eb_optional ev) \<or> eb_path_opaque b))"

lemma fold_add_binding:
  "\<forall>ev \<in> set evs. eb_path_opaque ev \<longrightarrow> eb_optional ev \<Longrightarrow>
     distinct (map binding_key (fold add_binding evs [])) \<and>
     set (map binding_key (fold add_binding evs [])) = binding_key ` set evs \<and>
     (\<forall>b \<in> set (fold add_binding evs []). folded_binding evs b)"
proof (induction evs rule: rev_induct)
  case (snoc new evs)
  let ?bs = "fold add_binding evs []"
  have IH: "distinct (map binding_key ?bs)" "set (map binding_key ?bs) = binding_key ` set evs"
    "\<forall>b \<in> set ?bs. folded_binding evs b" using snoc by simp_all
  have "folded_binding (evs @ [new]) b" if "b \<in> set (add_binding new ?bs)" for b
  proof (cases "binding_key b = binding_key new")
    case False
    then have "folded_binding evs b" using that IH(3) by (simp add: add_binding_set [OF IH(1)])
    with False show ?thesis by (auto simp: folded_binding_def)
  next
    case True
    then have "(\<exists>old \<in> set ?bs. binding_key old = binding_key new \<and> b = merge_binding old new) \<or>
        (binding_key new \<notin> set (map binding_key ?bs) \<and> b = new)"
      using add_binding_set [OF IH(1), of b new] that by metis
    then consider old where "old \<in> set ?bs" "binding_key old = binding_key new" "b = merge_binding old new"
      | "binding_key new \<notin> set (map binding_key ?bs)" "b = new"
      by blast
    then show ?thesis
    proof cases
      case 1
      then have "folded_binding evs old" using IH(3) by blast
      with 1 True show ?thesis by (auto simp: folded_binding_def merge_binding_def)
    next
      case 2
      then have none: "\<forall>ev \<in> set evs. binding_key ev \<noteq> binding_key new" using IH(2) by (metis image_eqI)
      moreover have "eb_path_opaque new \<longrightarrow> eb_optional new" using snoc.prems by simp
      ultimately show ?thesis using 2 by (auto simp: folded_binding_def)
    qed
  qed
  moreover have "distinct (map binding_key (add_binding new ?bs))" using IH(1) by (simp only: add_binding_keys) auto
  moreover have "set (map binding_key (add_binding new ?bs)) = binding_key ` set (evs @ [new])"
    unfolding add_binding_keys using IH(2) by auto
  ultimately show ?case by simp
qed simp

definition binding_events ::
  "model_routine \<Rightarrow> model_parameter \<Rightarrow> combined_edge list \<Rightarrow> (string \<rightharpoonup> model_routine) \<Rightarrow> exact_binding list" where
  "binding_events r p dispatch routines_by_id =
     concat (map (\<lambda>e. let s = the (routines_by_id (ce_to e)) in
       map (\<lambda>q. \<lparr> eb_subscriber = mr_id s, eb_q = mp_index q, eb_callee_is_var = mp_is_var q,
             eb_optional = edge_optional e, eb_path_opaque = edge_isolated e \<rparr>)
         (filter (\<lambda>q. map_option mp_index (event_publisher_param r s (mp_index q)) = Some (mp_index p)) (mr_parameters s)))
       dispatch)"

lemma bindings_of_events: "bindings_of r p dispatch rbi = fold add_binding (binding_events r p dispatch rbi) []"
proof -
  have inner: "fold (bind_parameter r p e s) qs bs = fold add_binding
      (map (\<lambda>q. \<lparr> eb_subscriber = mr_id s, eb_q = mp_index q, eb_callee_is_var = mp_is_var q,
             eb_optional = edge_optional e, eb_path_opaque = edge_isolated e \<rparr>)
        (filter (\<lambda>q. map_option mp_index (event_publisher_param r s (mp_index q)) = Some (mp_index p)) qs)) bs"
    for e s qs bs
    by (induction qs arbitrary: bs) (auto simp: bind_parameter_def)
  have "fold (\<lambda>e bindings. let s = the (rbi (ce_to e)) in fold (bind_parameter r p e s) (mr_parameters s) bindings) dispatch bs =
      fold add_binding (binding_events r p dispatch rbi) bs" for bs
    by (induction dispatch arbitrary: bs) (simp_all add: binding_events_def Let_def inner)
  then show ?thesis by (simp add: bindings_of_def)
qed

text \<open>The edges over which one subscriber parameter is bound to the publisher's parameter.\<close>

definition binding_edges ::
  "model_routine \<Rightarrow> u32 \<Rightarrow> combined_edge list \<Rightarrow> (string \<rightharpoonup> model_routine) \<Rightarrow> string \<Rightarrow> u32 \<Rightarrow> combined_edge set" where
  "binding_edges r param edges routines_by_id sid q =
     {e \<in> set edges. ce_kind e = ''event-dispatch'' \<and>
        (\<exists>s. routines_by_id (ce_to e) = Some s \<and> mr_id s = sid \<and> q \<in> mp_index ` set (mr_parameters s) \<and>
           map_option mp_index (event_publisher_param r s q) = Some param)}"

lemma binding_events_edges:
  assumes "\<forall>e \<in> set dispatch. routines_by_id (ce_to e) \<noteq> None" "dispatch = filter (\<lambda>e. ce_kind e = ''event-dispatch'') edges"
  shows "(\<exists>ev \<in> set (binding_events r p dispatch routines_by_id). binding_key ev = (sid, q) \<and> Q (eb_optional ev) (eb_path_opaque ev)) \<longleftrightarrow>
    (\<exists>e \<in> binding_edges r (mp_index p) edges routines_by_id sid q. Q (edge_optional e) (edge_isolated e))"
  using assms by (fastforce simp: binding_events_def binding_edges_def Let_def binding_key_def)

text \<open>
  A dispatch edge whose subscriber can be seen: it is resolved, the subscriber has a row, every parameter
  of it is the sender or named after a parameter of the publisher, and the event is not shared.
\<close>

definition edge_seen :: "model_routine \<Rightarrow> (string \<rightharpoonup> model_routine) \<Rightarrow> string set \<Rightarrow> combined_edge \<Rightarrow> bool" where
  "edge_seen r routines_by_id shared e \<longleftrightarrow>
     ce_resolution e = ''resolved'' \<and>
     (\<exists>s. routines_by_id (ce_to e) = Some s \<and>
        (\<forall>q \<in> set (mr_parameters s). event_param_names_match (mp_name q) ''sender'' \<or> event_publisher_param r s (mp_index q) \<noteq> None)) \<and>
     (\<forall>ev. ce_event_id e = Some ev \<longrightarrow> ev \<notin> shared)"

lemma edge_seen_iff:
  "edge_seen r routines_by_id shared e \<longleftrightarrow>
     \<not> (opaque_subscriber r e routines_by_id \<or> (case ce_event_id e of Some ev \<Rightarrow> ev \<in> shared | None \<Rightarrow> False))"
  by (auto simp: edge_seen_def opaque_subscriber_def list_ex_iff split: option.splits)

lemma dispatch_bindingsE:
  assumes "d \<in> set (dispatch_bindings r edges routines_by_id shared)"
  defines "dispatch \<equiv> filter (\<lambda>e. ce_kind e = ''event-dispatch'') edges"
  obtains p where "p \<in> set (mr_parameters r)" "mp_is_record p" "mp_index p = pd_param_index d" "mp_is_var p = pd_caller_is_var d"
    "pd_kind d = (if \<forall>e \<in> set dispatch. edge_seen r routines_by_id shared e
       then (let bs = bindings_of r p dispatch routines_by_id in if length bs > 4 then Unseen True else Exact bs) else Unseen False)"
proof -
  let ?unseen = "list_ex (\<lambda>e. opaque_subscriber r e routines_by_id \<or>
    (case ce_event_id e of Some ev \<Rightarrow> ev \<in> shared | None \<Rightarrow> False)) dispatch"
  have unseen: "?unseen \<longleftrightarrow> \<not> (\<forall>e \<in> set dispatch. edge_seen r routines_by_id shared e)"
    unfolding edge_seen_iff list_ex_iff by blast
  have "d \<in> set (List.map_filter (param_dispatch_of r dispatch routines_by_id ?unseen) (filter mp_is_record (mr_parameters r)))"
    using assms(1) by (simp add: dispatch_bindings_def dispatch_def Let_def split: if_splits)
  then obtain p where p: "p \<in> set (mr_parameters r)" "mp_is_record p" "param_dispatch_of r dispatch routines_by_id ?unseen p = Some d"
    by (auto simp: map_filter_def)
  from p(3) have "mp_index p = pd_param_index d" "mp_is_var p = pd_caller_is_var d"
    "pd_kind d = (if ?unseen then Unseen False
       else (let bs = bindings_of r p dispatch routines_by_id in if length bs > 4 then Unseen True else Exact bs))"
    unfolding param_dispatch_of_def Let_def EXACT_DISPATCH_MAX_def by (auto split: if_splits)
  with p(1,2) that unseen show thesis by simp
qed

lemma dispatch_bindings_exactE:
  assumes "d \<in> set (dispatch_bindings r edges routines_by_id shared)" "pd_kind d = Exact bs"
  obtains p where "mp_index p = pd_param_index d"
    "bs = bindings_of r p (filter (\<lambda>e. ce_kind e = ''event-dispatch'') edges) routines_by_id" "length bs \<le> 4"
    "\<not> list_ex (\<lambda>e. opaque_subscriber r e routines_by_id) (filter (\<lambda>e. ce_kind e = ''event-dispatch'') edges)"
  by (rule dispatch_bindingsE [OF assms(1)]) (use assms(2) in \<open>auto simp: Let_def edge_seen_iff list_ex_iff split: if_splits\<close>)

text \<open>The bindings of a parameter whose subscribers are all known, by the edges that make them.\<close>

lemma bindings_of_edges:
  fixes r :: model_routine and p :: model_parameter
  assumes "\<forall>e \<in> set edges. ce_kind e = ''event-dispatch'' \<longrightarrow> routines_by_id (ce_to e) \<noteq> None"
  defines "bs \<equiv> bindings_of r p (filter (\<lambda>e. ce_kind e = ''event-dispatch'') edges) routines_by_id"
  defines "E \<equiv> \<lambda>k. binding_edges r (mp_index p) edges routines_by_id (fst k) (snd k)"
  shows "distinct (map binding_key bs) \<and> set (map binding_key bs) = {k. E k \<noteq> {}} \<and>
    (\<forall>b \<in> set bs. (eb_path_opaque b \<longleftrightarrow> (\<exists>e \<in> E (binding_key b). edge_isolated e)) \<and>
       (eb_optional b \<longleftrightarrow> (\<forall>e \<in> E (binding_key b). edge_optional e) \<or> eb_path_opaque b))"
proof -
  let ?dispatch = "filter (\<lambda>e. ce_kind e = ''event-dispatch'') edges"
  let ?evs = "binding_events r p ?dispatch routines_by_id"
  have known: "\<forall>e \<in> set ?dispatch. routines_by_id (ce_to e) \<noteq> None" using assms(1) by simp
  have "\<forall>ev \<in> set ?evs. eb_path_opaque ev \<longrightarrow> eb_optional ev"
    by (auto simp: binding_events_def Let_def edge_optional_def)
  note f = fold_add_binding [OF this, folded bindings_of_events, folded bs_def]
  have ev: "(\<exists>ev \<in> set ?evs. binding_key ev = k \<and> Q (eb_optional ev) (eb_path_opaque ev)) \<longleftrightarrow>
      (\<exists>e \<in> E k. Q (edge_optional e) (edge_isolated e))" for k Q
    using binding_events_edges [OF known refl, of r p "fst k" "snd k" Q] by (simp add: E_def)
  have "set (map binding_key bs) = {k. E k \<noteq> {}}"
    using f ev [of _ "\<lambda>_ _. True"] by (auto simp: image_iff) (metis empty_iff)+
  moreover have "(eb_path_opaque b \<longleftrightarrow> (\<exists>e \<in> E (binding_key b). edge_isolated e)) \<and>
      (eb_optional b \<longleftrightarrow> (\<forall>e \<in> E (binding_key b). edge_optional e) \<or> eb_path_opaque b)" if "b \<in> set bs" for b
  proof -
    have "folded_binding ?evs b" using f that by blast
    then have "eb_path_opaque b \<longleftrightarrow> (\<exists>ev \<in> set ?evs. binding_key ev = binding_key b \<and> eb_path_opaque ev)"
      "eb_optional b \<longleftrightarrow> \<not> (\<exists>ev \<in> set ?evs. binding_key ev = binding_key b \<and> \<not> eb_optional ev) \<or> eb_path_opaque b"
      unfolding folded_binding_def by blast+
    then show ?thesis using ev [of "binding_key b" "\<lambda>_ x. x"] ev [of "binding_key b" "\<lambda>x _. \<not> x"] by blast
  qed
  ultimately show ?thesis using f by blast
qed

text \<open>Every dispatch edge can be seen; the (subscriber, parameter) pairs that edges bind to a parameter.\<close>

definition all_seen :: "model_routine \<Rightarrow> (string \<rightharpoonup> model_routine) \<Rightarrow> string set \<Rightarrow> combined_edge list \<Rightarrow> bool" where
  "all_seen r routines_by_id shared edges \<longleftrightarrow>
     (\<forall>e \<in> set edges. ce_kind e = ''event-dispatch'' \<longrightarrow> edge_seen r routines_by_id shared e)"

definition bound_pairs :: "model_routine \<Rightarrow> u32 \<Rightarrow> combined_edge list \<Rightarrow> (string \<rightharpoonup> model_routine) \<Rightarrow> (string \<times> u32) set" where
  "bound_pairs r i edges routines_by_id = {(sid, q). binding_edges r i edges routines_by_id sid q \<noteq> {}}"

lemma all_seen_known:
  "all_seen r routines_by_id shared edges \<Longrightarrow> \<forall>e \<in> set edges. ce_kind e = ''event-dispatch'' \<longrightarrow> routines_by_id (ce_to e) \<noteq> None"
  by (auto simp: all_seen_def edge_seen_def)

lemma seen_bindings:
  fixes r :: model_routine and p :: model_parameter
  assumes "all_seen r routines_by_id shared edges"
  defines "bs \<equiv> bindings_of r p (filter (\<lambda>e. ce_kind e = ''event-dispatch'') edges) routines_by_id"
  shows "distinct (map binding_key bs)" "set (map binding_key bs) = bound_pairs r (mp_index p) edges routines_by_id"
    "length bs = card (bound_pairs r (mp_index p) edges routines_by_id)"
proof -
  note of_edges = bindings_of_edges [OF all_seen_known [OF assms(1)], of r p, folded bs_def]
  show "distinct (map binding_key bs)" using of_edges by blast
  show keys: "set (map binding_key bs) = bound_pairs r (mp_index p) edges routines_by_id"
    using of_edges unfolding bound_pairs_def by fastforce
  show "length bs = card (bound_pairs r (mp_index p) edges routines_by_id)"
    unfolding keys [symmetric] using of_edges by (metis distinct_card length_map)
qed

lemma dispatch_kind_of:
  assumes "d \<in> set (dispatch_bindings r edges routines_by_id shared)"
  obtains p where "mp_index p = pd_param_index d"
    "pd_kind d = (if all_seen r routines_by_id shared edges
       then (let bs = bindings_of r p (filter (\<lambda>e. ce_kind e = ''event-dispatch'') edges) routines_by_id in
         if length bs > 4 then Unseen True else Exact bs) else Unseen False)"
proof (rule dispatch_bindingsE [OF assms])
  have seen: "(\<forall>e \<in> set (filter (\<lambda>e. ce_kind e = ''event-dispatch'') edges). edge_seen r routines_by_id shared e) \<longleftrightarrow>
      all_seen r routines_by_id shared edges" by (auto simp: all_seen_def)
  fix p
  assume "mp_index p = pd_param_index d" "pd_kind d = (if \<forall>e \<in> set (filter (\<lambda>e. ce_kind e = ''event-dispatch'') edges).
      edge_seen r routines_by_id shared e
    then (let bs = bindings_of r p (filter (\<lambda>e. ce_kind e = ''event-dispatch'') edges) routines_by_id in
      if length bs > 4 then Unseen True else Exact bs) else Unseen False)"
  with that seen show thesis by metis
qed

lemma dispatched_parameters:
  assumes "mr_body_available r" "\<exists>e \<in> set edges. ce_kind e = ''event-dispatch''"
  shows "pd_param_index ` set (dispatch_bindings r edges routines_by_id shared) =
    {mp_index p | p. p \<in> set (mr_parameters r) \<and> mp_is_record p \<and>
       (all_seen r routines_by_id shared edges \<longrightarrow> bound_pairs r (mp_index p) edges routines_by_id \<noteq> {})}"
proof -
  let ?dispatch = "filter (\<lambda>e. ce_kind e = ''event-dispatch'') edges"
  let ?unseen = "list_ex (\<lambda>e. opaque_subscriber r e routines_by_id \<or>
    (case ce_event_id e of Some ev \<Rightarrow> ev \<in> shared | None \<Rightarrow> False)) ?dispatch"
  have unseen: "?unseen \<longleftrightarrow> \<not> all_seen r routines_by_id shared edges"
    unfolding all_seen_def edge_seen_iff list_ex_iff by auto
  have "?dispatch \<noteq> []" using assms(2) by (auto simp: filter_empty_conv)
  then have ds: "dispatch_bindings r edges routines_by_id shared =
      List.map_filter (param_dispatch_of r ?dispatch routines_by_id ?unseen) (filter mp_is_record (mr_parameters r))"
    using assms(1) by (simp add: dispatch_bindings_def Let_def)
  have some: "map_option pd_param_index (param_dispatch_of r ?dispatch routines_by_id ?unseen p) =
      (if ?unseen \<or> bindings_of r p ?dispatch routines_by_id \<noteq> [] then Some (mp_index p) else None)" for p
    by (simp add: param_dispatch_of_def Let_def)
  have bound: "bindings_of r p ?dispatch routines_by_id \<noteq> [] \<longleftrightarrow> bound_pairs r (mp_index p) edges routines_by_id \<noteq> {}"
    if "all_seen r routines_by_id shared edges" for p
    using seen_bindings(2) [OF that, of p] by (metis list.map_disc_iff set_empty)
  have "pd_param_index ` set (List.map_filter f ps) = {i. \<exists>p \<in> set ps. map_option pd_param_index (f p) = Some i}" for f ps
    by (induction ps) (auto simp: List.map_filter_simps split: option.split)
  then have "pd_param_index ` set (dispatch_bindings r edges routines_by_id shared) =
      {i. \<exists>p \<in> set (filter mp_is_record (mr_parameters r)).
         (if ?unseen \<or> bindings_of r p ?dispatch routines_by_id \<noteq> [] then Some (mp_index p) else None) = Some i}"
    unfolding ds some [symmetric] .
  also have "\<dots> = {mp_index p | p. p \<in> set (mr_parameters r) \<and> mp_is_record p \<and>
       (all_seen r routines_by_id shared edges \<longrightarrow> bound_pairs r (mp_index p) edges routines_by_id \<noteq> {})}"
    unfolding unseen using bound by auto
  finally show ?thesis .
qed

text \<open>
  Property C25. What a dispatch of a parameter says of the edges. It is unseen, without a count,
  exactly when some dispatch edge cannot be seen: it is not resolved, its subscriber has no row or a
  parameter that is neither the sender nor a parameter of the publisher, or its event is shared. When all
  can be seen it is unseen for more than four bound (subscriber, parameter) pairs, and otherwise exact,
  with one binding for each pair, which may be skipped exactly when every edge that binds the pair may be
  skipped or one of them is isolated, and is opaque exactly when one is isolated. A record parameter of
  a routine with a body and a dispatch edge is left without a dispatch exactly when all edges can be seen
  and none binds it.
\<close>

theorem exact_dispatch_bindings:
  "(\<forall>d \<in> set (dispatch_bindings r edges routines_by_id shared).
      (pd_kind d = Unseen False \<longleftrightarrow> \<not> all_seen r routines_by_id shared edges) \<and>
      (pd_kind d = Unseen True \<longrightarrow> 4 < card (bound_pairs r (pd_param_index d) edges routines_by_id)) \<and>
      (\<forall>bs. pd_kind d = Exact bs \<longrightarrow> length bs \<le> 4 \<and> distinct (map binding_key bs) \<and>
         set (map binding_key bs) = bound_pairs r (pd_param_index d) edges routines_by_id \<and>
         (\<forall>b \<in> set bs. let E = binding_edges r (pd_param_index d) edges routines_by_id (eb_subscriber b) (eb_q b) in
            (eb_path_opaque b \<longleftrightarrow> (\<exists>e \<in> E. edge_isolated e)) \<and>
            (eb_optional b \<longleftrightarrow> (\<forall>e \<in> E. edge_optional e) \<or> eb_path_opaque b)))) \<and>
   (mr_body_available r \<and> (\<exists>e \<in> set edges. ce_kind e = ''event-dispatch'') \<longrightarrow>
      pd_param_index ` set (dispatch_bindings r edges routines_by_id shared) =
        {mp_index p | p. p \<in> set (mr_parameters r) \<and> mp_is_record p \<and>
           (all_seen r routines_by_id shared edges \<longrightarrow> bound_pairs r (mp_index p) edges routines_by_id \<noteq> {})})"
proof (intro conjI ballI allI impI)
  fix d
  assume "d \<in> set (dispatch_bindings r edges routines_by_id shared)"
  from dispatch_kind_of [OF this] obtain p where p: "mp_index p = pd_param_index d"
    "pd_kind d = (if all_seen r routines_by_id shared edges
       then (let bs = bindings_of r p (filter (\<lambda>e. ce_kind e = ''event-dispatch'') edges) routines_by_id in
         if length bs > 4 then Unseen True else Exact bs) else Unseen False)" by metis
  show "pd_kind d = Unseen False \<longleftrightarrow> \<not> all_seen r routines_by_id shared edges" using p(2) by (auto simp: Let_def)
  show "4 < card (bound_pairs r (pd_param_index d) edges routines_by_id)" if "pd_kind d = Unseen True"
    using that p seen_bindings(3) [of r routines_by_id shared edges p] by (auto simp: Let_def split: if_splits)
  fix bs
  assume "pd_kind d = Exact bs"
  then have seen: "all_seen r routines_by_id shared edges" "length bs \<le> 4"
    and bs: "bs = bindings_of r p (filter (\<lambda>e. ce_kind e = ''event-dispatch'') edges) routines_by_id"
    using p(2) by (auto simp: Let_def split: if_splits)
  note keys = seen_bindings(1,2) [OF seen(1), of p, folded bs, unfolded p(1)]
  show "length bs \<le> 4" "distinct (map binding_key bs)" "set (map binding_key bs) = bound_pairs r (pd_param_index d) edges routines_by_id"
    using seen(2) keys by simp_all
  fix b
  assume "b \<in> set bs"
  then show "let E = binding_edges r (pd_param_index d) edges routines_by_id (eb_subscriber b) (eb_q b) in
      (eb_path_opaque b \<longleftrightarrow> (\<exists>e \<in> E. edge_isolated e)) \<and> (eb_optional b \<longleftrightarrow> (\<forall>e \<in> E. edge_optional e) \<or> eb_path_opaque b)"
    using bindings_of_edges [OF all_seen_known [OF seen(1)], of r p, folded bs, unfolded p(1)]
    by (simp add: Let_def binding_key_def)
qed (use dispatched_parameters in blast)

definition sample_publisher :: model_routine where
  "sample_publisher = \<lparr> mr_id = ''pub'', mr_stable_routine_id = ''pub#0'', mr_object_id = ''o'', mr_name = ''pub'', mr_kind = ''event-publisher'', mr_body_available = True,
     mr_parse_incomplete = False, mr_record_variables = [], mr_record_operations = [],
     mr_parameters = [\<lparr> mp_index = 0, mp_name = ''Rec'', mp_type_text = ''Record Item'', mp_is_var = True, mp_is_record = True \<rparr>],
     mr_access_modifier = None, mr_call_sites = [], mr_field_accesses = [], mr_statement_tree = None,
     mr_source_anchor = \<lparr> source_unit_id = ''u'', start_line = 1, start_column = 0, end_line = 9, end_column = 0, syntax_kind = ''procedure'' \<rparr>, mr_assigned_names = [] \<rparr>"

definition sample_subscriber :: model_routine where
  "sample_subscriber = \<lparr> mr_id = ''sub'', mr_stable_routine_id = ''sub#0'', mr_object_id = ''o'', mr_name = ''sub'', mr_kind = ''event-subscriber'', mr_body_available = True,
     mr_parse_incomplete = False, mr_record_variables = [], mr_record_operations = [],
     mr_parameters = [\<lparr> mp_index = 0, mp_name = ''rec'', mp_type_text = ''Record Item'', mp_is_var = True, mp_is_record = True \<rparr>],
     mr_access_modifier = None, mr_call_sites = [], mr_field_accesses = [], mr_statement_tree = None,
     mr_source_anchor = \<lparr> source_unit_id = ''u'', start_line = 1, start_column = 0, end_line = 9, end_column = 0, syntax_kind = ''procedure'' \<rparr>, mr_assigned_names = [] \<rparr>"

definition sample_edges :: "combined_edge list" where
  "sample_edges = map (\<lambda>c. \<lparr> ce_from = ''pub'', ce_to = ''sub'', ce_kind = ''event-dispatch'', ce_callsite_id = None, ce_operation_id = None, ce_event_id = Some ''ev'', ce_subscriber_app_id = None,
     ce_resolution = ''resolved'', ce_dispatch = Some \<lparr> dm_conditional = c, dm_isolated = False \<rparr> \<rparr>) [True, False]"

lemma sample_binds: "event_publisher_param sample_publisher sample_subscriber 0 = Some (hd (mr_parameters sample_publisher))"
  by code_simp

lemma sample_dispatch:
  "dispatch_bindings sample_publisher sample_edges [''sub'' \<mapsto> sample_subscriber] {} =
     [\<lparr> pd_param_index = 0, pd_caller_is_var = True,
        pd_kind = Exact [\<lparr> eb_subscriber = ''sub'', eb_q = 0, eb_callee_is_var = True, eb_optional = False, eb_path_opaque = False \<rparr>],
        pd_sequences = [[0]] \<rparr>]"
proof -
  have ids: "mr_id sample_subscriber = ''sub''" "mr_body_available sample_publisher"
    "mr_parameters sample_subscriber = [\<lparr> mp_index = 0, mp_name = ''rec'', mp_type_text = ''Record Item'', mp_is_var = True, mp_is_record = True \<rparr>]"
    "mr_parameters sample_publisher = [\<lparr> mp_index = 0, mp_name = ''Rec'', mp_type_text = ''Record Item'', mp_is_var = True, mp_is_record = True \<rparr>]"
    by (simp_all add: sample_subscriber_def sample_publisher_def)
  have seq: "dispatch_sequences [\<lparr> eb_subscriber = ''sub'', eb_q = 0, eb_callee_is_var = True, eb_optional = False, eb_path_opaque = False \<rparr>] = [[0]]"
    by code_simp
  show ?thesis
    unfolding dispatch_bindings_def sample_edges_def
    by (simp add: ids Let_def opaque_subscriber_def sample_binds map_filter_simps param_dispatch_of_def bindings_of_def
      bind_parameter_def edge_optional_def edge_isolated_def EXACT_DISPATCH_MAX_def seq binding_key_def merge_binding_def)
qed

theorem exact_dispatch_bindings_witness:
  "\<not> eb_optional \<lparr> eb_subscriber = ''sub'', eb_q = 0, eb_callee_is_var = True, eb_optional = False, eb_path_opaque = False \<rparr> \<and>
   length [\<lparr> eb_subscriber = ''sub'', eb_q = 0, eb_callee_is_var = True, eb_optional = False, eb_path_opaque = False \<rparr>] \<le> (4 :: nat)"
proof -
  let ?b = "\<lparr> eb_subscriber = ''sub'', eb_q = 0 :: u32, eb_callee_is_var = True, eb_optional = False, eb_path_opaque = False \<rparr>"
  let ?d = "\<lparr> pd_param_index = 0, pd_caller_is_var = True, pd_kind = Exact [?b], pd_sequences = [[0]] \<rparr>"
  let ?E = "binding_edges sample_publisher (pd_param_index ?d) sample_edges [''sub'' \<mapsto> sample_subscriber] ''sub'' 0"
  have d: "?d \<in> set (dispatch_bindings sample_publisher sample_edges [''sub'' \<mapsto> sample_subscriber] {})"
    by (simp add: sample_dispatch)
  have k: "pd_kind ?d = Exact [?b]" by simp
  have E: "sample_edges ! 1 \<in> ?E" "\<not> edge_optional (sample_edges ! 1)" "\<forall>e \<in> ?E. \<not> edge_isolated e"
    using sample_binds by (auto simp: binding_edges_def sample_edges_def sample_subscriber_def sample_publisher_def
      edge_optional_def edge_isolated_def)
  have "\<forall>bs. pd_kind ?d = Exact bs \<longrightarrow> length bs \<le> 4 \<and> (\<forall>b \<in> set bs.
      let E = binding_edges sample_publisher (pd_param_index ?d) sample_edges [''sub'' \<mapsto> sample_subscriber] (eb_subscriber b) (eb_q b) in
      (eb_path_opaque b \<longleftrightarrow> (\<exists>e \<in> E. edge_isolated e)) \<and> (eb_optional b \<longleftrightarrow> (\<forall>e \<in> E. edge_optional e) \<or> eb_path_opaque b))"
    using exact_dispatch_bindings [of sample_publisher sample_edges "[''sub'' \<mapsto> sample_subscriber]" "{}"] d by blast
  with k have "length [?b] \<le> 4" "eb_optional ?b \<longleftrightarrow> (\<forall>e \<in> ?E. edge_optional e) \<or> eb_path_opaque ?b" by (simp_all add: Let_def)
  with E show ?thesis by auto
qed

definition publishes :: "combined_edge \<Rightarrow> string \<Rightarrow> bool" where
  "publishes e ev = (ce_kind e = ''event-dispatch'' \<and> ce_event_id e = Some ev)"

definition shared_inv :: "combined_edge list \<Rightarrow> (string \<rightharpoonup> string) \<times> string set \<Rightarrow> bool" where
  "shared_inv es st =
     ((\<forall>ev. fst st ev = None \<longleftrightarrow> \<not> (\<exists>e \<in> set es. publishes e ev)) \<and>
      (\<forall>ev f. fst st ev = Some f \<longrightarrow> (\<exists>e \<in> set es. publishes e ev \<and> ce_from e = f)) \<and>
      (\<forall>ev. ev \<in> snd st \<longleftrightarrow> (\<exists>e \<in> set es. publishes e ev \<and> fst st ev \<noteq> Some (ce_from e))))"

lemma shared_step_publishes:
  "publishes e ev \<Longrightarrow> shared_step e (P, S) =
     (P(ev \<mapsto> unwrap_or (ce_from e) (P ev)),
      if unwrap_or (ce_from e) (P ev) \<noteq> ce_from e then insert ev S else S)"
  "\<not> (\<exists>ev. publishes e ev) \<Longrightarrow> shared_step e (P, S) = (P, S)"
  by (auto simp: shared_step_def publishes_def Let_def split: option.split)

lemma shared_step_inv:
  assumes "shared_inv es (P, S)"
  shows "shared_inv (es @ [e]) (shared_step e (P, S))"
proof (cases "\<exists>ev. publishes e ev")
  case True
  then obtain ev where ev: "publishes e ev" by blast
  have only: "publishes e ev' \<longleftrightarrow> ev' = ev" for ev' using ev by (auto simp: publishes_def)
  show ?thesis
  proof (cases "P ev")
    case None
    then have "\<not> (\<exists>e \<in> set es. publishes e ev)" using assms by (simp add: shared_inv_def)
    then show ?thesis
      using assms unfolding shared_inv_def shared_step_publishes(1) [OF ev] by (auto simp: only None)
  next
    case (Some f)
    show ?thesis
      using assms unfolding shared_inv_def shared_step_publishes(1) [OF ev] by (auto simp: only Some)
  qed
next
  case False
  then show ?thesis using assms by (auto simp: shared_inv_def shared_step_publishes(2))
qed

lemma shared_fold_inv: "shared_inv es (fold shared_step es (Map.empty, {}))"
proof (induction es rule: rev_induct)
  case (snoc e es)
  then show ?case using shared_step_inv [of es "fst (fold shared_step es (Map.empty, {}))" "snd (fold shared_step es (Map.empty, {}))" e] by simp
qed (simp add: shared_inv_def)

text \<open>
  The shared event ids are exactly those two different routines publish, in whatever
  order the edges are visited.
\<close>

theorem shared_event_ids_exact:
  "shared_event_ids edges =
     {ev. \<exists>e \<in> set edges. \<exists>e' \<in> set edges. ce_kind e = ''event-dispatch'' \<and> ce_kind e' = ''event-dispatch'' \<and>
        ce_event_id e = Some ev \<and> ce_event_id e' = Some ev \<and> ce_from e \<noteq> ce_from e'}"
proof -
  let ?st = "fold shared_step edges (Map.empty, {})"
  have inv: "fst ?st ev = None \<longleftrightarrow> \<not> (\<exists>e \<in> set edges. publishes e ev)"
    "fst ?st ev = Some f \<Longrightarrow> \<exists>e \<in> set edges. publishes e ev \<and> ce_from e = f"
    "ev \<in> snd ?st \<longleftrightarrow> (\<exists>e \<in> set edges. publishes e ev \<and> fst ?st ev \<noteq> Some (ce_from e))" for ev f
    using shared_fold_inv [of edges] by (simp_all only: shared_inv_def)
  have "ev \<in> snd ?st \<longleftrightarrow> (\<exists>e \<in> set edges. \<exists>e' \<in> set edges. publishes e ev \<and> publishes e' ev \<and> ce_from e \<noteq> ce_from e')" for ev
  proof
    assume "ev \<in> snd ?st"
    then obtain e where e: "e \<in> set edges" "publishes e ev" "fst ?st ev \<noteq> Some (ce_from e)"
      unfolding inv(3) by (elim bexE conjE)
    then obtain f where f: "fst ?st ev = Some f" using inv(1) [of ev] by (cases "fst ?st ev") auto
    then obtain e' where e': "e' \<in> set edges" "publishes e' ev" "ce_from e' = f" using inv(2) by blast
    have "ce_from e \<noteq> ce_from e'" using e(3) f e'(3) by simp
    with e(1,2) e'(1,2) show "\<exists>e \<in> set edges. \<exists>e' \<in> set edges. publishes e ev \<and> publishes e' ev \<and> ce_from e \<noteq> ce_from e'"
      by (intro bexI conjI)
  next
    assume "\<exists>e \<in> set edges. \<exists>e' \<in> set edges. publishes e ev \<and> publishes e' ev \<and> ce_from e \<noteq> ce_from e'"
    then obtain e e' where e: "e \<in> set edges" "publishes e ev" and e': "e' \<in> set edges" "publishes e' ev"
      and "ce_from e \<noteq> ce_from e'" by (elim bexE conjE)
    then consider "fst ?st ev \<noteq> Some (ce_from e)" | "fst ?st ev \<noteq> Some (ce_from e')" by fastforce
    then have "\<exists>e \<in> set edges. publishes e ev \<and> fst ?st ev \<noteq> Some (ce_from e)"
    proof cases
      case 1
      with e show ?thesis by (intro bexI [of _ e] conjI)
    next
      case 2
      with e' show ?thesis by (intro bexI [of _ e'] conjI)
    qed
    then show "ev \<in> snd ?st" unfolding inv(3) .
  qed
  then have "shared_event_ids edges =
      {ev. \<exists>e \<in> set edges. \<exists>e' \<in> set edges. publishes e ev \<and> publishes e' ev \<and> ce_from e \<noteq> ce_from e'}"
    unfolding shared_event_ids_def by (intro set_eqI) (simp only: mem_Collect_eq)
  then show ?thesis by (intro set_eqI) (unfold publishes_def, simp only: mem_Collect_eq, intro iffI; elim bexE conjE; intro bexI conjI)
qed

end
