(* ===== verification/Joined_Key.thy ===== *)
theory Joined_Key
  imports Prelude "HOL-Library.List_Lexorder" "HOL-Library.Char_ord"
begin

text \<open>
  Comparison of sort keys joined with \<open>|\<close> without building them
  (\<open>src/src/engine/joined_key.rs\<close>): the order of the joined byte strings, which is not the order of
  the fields one by one.
\<close>

section \<open>Orderings\<close>

text \<open>\<open>std::cmp::Ordering\<close>, \<open>Ord::cmp\<close> and \<open>Ordering::then\<close> of the standard library.\<close>

datatype ordering = Less | Equal | Greater

definition cmp :: "'a::linorder \<Rightarrow> 'a \<Rightarrow> ordering" where
  "cmp a b = (if a < b then Less else if a = b then Equal else Greater)"

fun then_cmp :: "ordering \<Rightarrow> ordering \<Rightarrow> ordering" where
  "then_cmp Equal o2 = o2"
| "then_cmp o1 _ = o1"

lemma then_cmp_decided: "o1 \<noteq> Equal \<Longrightarrow> then_cmp o1 o2 = o1"
  by (cases o1) simp_all

lemma cmp_refl [simp]: "cmp a a = Equal"
  by (simp add: cmp_def)

lemma cmp_iff [simp]: "cmp a b = Less \<longleftrightarrow> a < b" "cmp a b = Equal \<longleftrightarrow> a = b" "cmp a b = Greater \<longleftrightarrow> b < a"
  by (auto simp: cmp_def)

lemma cmp_Cons: "cmp (x # xs) (y # ys) = then_cmp (cmp x y) (cmp xs ys)"
  by (cases "cmp x y") (auto simp: cmp_def split: if_splits)

lemma cmp_Nil [simp]: "cmp [] (y # ys) = Less" "cmp (x # xs) [] = Greater"
  by simp_all

lemma cmp_append_same [simp]: "cmp (p @ a) (p @ b) = cmp a b"
  by (induction p) (simp_all add: cmp_Cons)

lemma cmp_append_self [simp]: "b \<noteq> [] \<Longrightarrow> cmp p (p @ b) = Less" "b \<noteq> [] \<Longrightarrow> cmp (p @ b) p = Greater"
  using cmp_append_same [of p "[]" b] cmp_append_same [of p b "[]"] by (cases b; simp)+

text \<open>\<open>slice::sort_by\<close>, the stable sort of the standard library, for a comparison function.\<close>

fun insert_by :: "('a \<Rightarrow> 'a \<Rightarrow> ordering) \<Rightarrow> 'a \<Rightarrow> 'a list \<Rightarrow> 'a list" where
  "insert_by f x [] = [x]"
| "insert_by f x (y # ys) = (if f x y = Greater then y # insert_by f x ys else x # y # ys)"

definition sort_by :: "('a \<Rightarrow> 'a \<Rightarrow> ordering) \<Rightarrow> 'a list \<Rightarrow> 'a list" where
  "sort_by f xs = foldr (insert_by f) xs []"

lemma sort_by_sort_key:
  assumes "\<And>x y. f x y = cmp (k x) (k y)"
  shows "sort_by f xs = sort_key k xs"
proof -
  have "insert_by f x ys = insort_key k x ys" for x ys
    by (induction ys) (auto simp: assms)
  then have "insert_by f = insort_key k" by (intro ext)
  then show ?thesis by (simp add: sort_by_def sort_key_def)
qed

section \<open>The comparison\<close>

text \<open>The length of the common prefix (\<open>zip .. take_while(==).count()\<close>).\<close>

definition common_prefix_len :: "string \<Rightarrow> string \<Rightarrow> nat" where
  "common_prefix_len x y = length (takeWhile (\<lambda>(p, q). p = q) (zip x y))"

definition joined_bytes :: "string list \<Rightarrow> string" where
  "joined_bytes fields = concat (map (\<lambda>(k, f). (if 0 < k then ''|'' else []) @ f) (enumerate 0 fields))"

text \<open>
  The loop over the common field positions, on what is left of the two keys: the fields already
  passed are equal.
\<close>

fun cmp_joined :: "string list \<Rightarrow> string list \<Rightarrow> ordering" where
  "cmp_joined (x # xs) (y # ys) =
     (if x = y then cmp_joined xs ys
      else
        let common = common_prefix_len x y in
        if common < length x \<and> common < length y then cmp (x ! common) (y ! common)
        else cmp (joined_bytes (x # xs)) (joined_bytes (y # ys)))"
| "cmp_joined xs ys = cmp (length xs) (length ys)"

section \<open>Correctness\<close>

text \<open>\<open>fields.join("|")\<close>, the key the comparison avoids building.\<close>

fun join_bar :: "string list \<Rightarrow> string" where
  "join_bar [] = []"
| "join_bar [x] = x"
| "join_bar (x # y # zs) = x @ ''|'' @ join_bar (y # zs)"

lemma join_bar_Cons: "join_bar (x # xs) = x @ concat (map (\<lambda>f. ''|'' @ f) xs)"
  by (induction xs arbitrary: x) simp_all

lemma joined_bytes_join: "joined_bytes fs = join_bar fs"
proof -
  have "concat (map (\<lambda>(k, f). (if 0 < k then ''|'' else []) @ f) (enumerate (Suc n) gs)) = concat (map (\<lambda>f. ''|'' @ f) gs)" for n gs
    by (induction gs arbitrary: n) simp_all
  then show ?thesis by (cases fs) (simp_all add: joined_bytes_def join_bar_Cons)
qed

lemma common_prefix_split:
  assumes "common_prefix_len x y < length x" "common_prefix_len x y < length y"
  shows "take (common_prefix_len x y) x = take (common_prefix_len x y) y \<and>
    x ! common_prefix_len x y \<noteq> y ! common_prefix_len x y"
  using assms
proof (induction x arbitrary: y)
  case (Cons a x)
  then show ?case by (cases y) (auto simp: common_prefix_len_def)
qed simp

lemma cmp_first_difference:
  assumes "take n x = take n y" "n < length x" "n < length y" "x ! n \<noteq> y ! n"
  shows "cmp (x @ v) (y @ w) = cmp (x ! n) (y ! n)"
proof -
  have "x @ v = take n x @ x ! n # drop (Suc n) x @ v" "y @ w = take n x @ y ! n # drop (Suc n) y @ w"
    using assms id_take_nth_drop [of n x] id_take_nth_drop [of n y] by simp_all
  then have "cmp (x @ v) (y @ w) = then_cmp (cmp (x ! n) (y ! n)) (cmp (drop (Suc n) x @ v) (drop (Suc n) y @ w))"
    by (simp only: cmp_append_same cmp_Cons)
  moreover have "cmp (x ! n) (y ! n) \<noteq> Equal" using assms(4) by simp
  ultimately show ?thesis by (metis then_cmp_decided)
qed

lemma cmp_joined_nonempty:
  "a \<noteq> [] \<Longrightarrow> b \<noteq> [] \<Longrightarrow> cmp_joined a b = cmp (join_bar a) (join_bar b)"
proof (induction a b rule: cmp_joined.induct)
  case (1 x xs y ys)
  show ?case
  proof (cases "x = y")
    case True
    show ?thesis
    proof (cases "xs = [] \<or> ys = []")
      case True
      with \<open>x = y\<close> show ?thesis by (cases xs; cases ys; simp)
    next
      case False
      with 1 \<open>x = y\<close> have "cmp_joined (x # xs) (y # ys) = cmp (join_bar xs) (join_bar ys)" by simp
      with False \<open>x = y\<close> show ?thesis by (cases xs; cases ys; simp add: cmp_Cons)
    qed
  next
    case False
    let ?n = "common_prefix_len x y"
    show ?thesis
    proof (cases "?n < length x \<and> ?n < length y")
      case True
      then have "cmp (join_bar (x # xs)) (join_bar (y # ys)) = cmp (x ! ?n) (y ! ?n)"
        unfolding join_bar_Cons by (intro cmp_first_difference) (auto dest: common_prefix_split)
      with True False show ?thesis by (simp add: Let_def)
    next
      case other: False
      show ?thesis using False other by (simp only: cmp_joined.simps Let_def if_False joined_bytes_join)
    qed
  qed
qed simp_all

text \<open>
  Property C26. The comparison is the byte order of the joined keys for every two keys, except that
  an empty key and the key of one empty field, whose joined texts are both empty, compare as
  different.
\<close>

theorem cmp_joined_is_join_order:
  "cmp_joined a b =
     (if a = [] \<and> b = [''''] then Less
      else if a = [''''] \<and> b = [] then Greater
      else cmp (join_bar a) (join_bar b))"
proof -
  have empty: "join_bar fs = [] \<longleftrightarrow> fs = [] \<or> fs = ['''']" for fs
    by (cases fs rule: join_bar.cases) simp_all
  show ?thesis
  proof (cases "a = [] \<or> b = []")
    case True
    then show ?thesis using empty [of a] empty [of b]
      by (cases a; cases b; cases "join_bar a"; cases "join_bar b"; simp)
  qed (simp add: cmp_joined_nonempty)
qed

text \<open>A tuple comparison of the same fields differs: the case the code comments on.\<close>

lemma cmp_joined_prefix_trap: "cmp_joined [''a'', ''z''] [''ab'', ''z''] = Greater"
  by code_simp

end
