(* ===== verification/Declaring.thy ===== *)
theory Declaring
  imports Model_Routine Joined_Key "HOL-Library.Product_Lexorder"
begin

text \<open>
  The object that declares a routine (\<open>src/src/program/model/declaring.rs\<close>): the rows of one object
  id, and the choice among them when a conditional compilation split the object.
\<close>

record model_object =
  mo_id :: string
  mo_app_guid :: string
  mo_object_type :: string
  mo_name :: string
  mo_source_anchor :: "anchor option"

text \<open>
  \<open>DeclaringObjects\<close>: the rows by id, each id's rows in model order. \<open>by_id.entry(id).or_default()
  .push(o)\<close> over the objects.
\<close>

type_synonym declaring_objects = "string \<rightharpoonup> model_object list"

definition push_object :: "model_object \<Rightarrow> declaring_objects \<Rightarrow> declaring_objects" where
  "push_object o' m = m(mo_id o' \<mapsto> unwrap_or [] (m (mo_id o')) @ [o'])"

definition declaring_of_objects :: "model_object list \<Rightarrow> declaring_objects" where
  "declaring_of_objects objs = fold push_object objs Map.empty"

definition pos_cmp :: "u32 \<Rightarrow> u32 \<Rightarrow> u32 \<Rightarrow> u32 \<Rightarrow> ordering" where
  "pos_cmp l c l' c' = then_cmp (cmp l l') (cmp c c')"

text \<open>The key order of \<open>min_by\<close>: the latest start, then the earliest end.\<close>

definition tighter_cmp :: "anchor \<Rightarrow> anchor \<Rightarrow> ordering" where
  "tighter_cmp a b =
     then_cmp (pos_cmp (start_line b) (start_column b) (start_line a) (start_column a))
       (pos_cmp (end_line a) (end_column a) (end_line b) (end_column b))"

text \<open>\<open>Iterator::min_by\<close>: the first of several minimal elements.\<close>

definition min_by :: "('a \<Rightarrow> 'a \<Rightarrow> ordering) \<Rightarrow> 'a list \<Rightarrow> 'a option" where
  "min_by f xs = (case xs of [] \<Rightarrow> None | x # xs \<Rightarrow> Some (foldl (\<lambda>b y. if f b y = Greater then y else b) x xs))"

definition anchored :: "model_object list \<Rightarrow> (model_object \<times> anchor) list" where
  "anchored rows = List.map_filter (\<lambda>o'. map_option (Pair o') (mo_source_anchor o')) rows"

definition holds_routine :: "anchor \<Rightarrow> anchor \<Rightarrow> bool" where
  "holds_routine ra a = (source_unit_id a = source_unit_id ra \<and> anchor_contains a (start_line ra) (start_column ra))"

definition pick :: "model_object list \<Rightarrow> model_routine \<Rightarrow> model_object option" where
  "pick rows r = (case rows of
      [] \<Rightarrow> None
    | [first] \<Rightarrow> Some first
    | _ \<Rightarrow>
      (case min_by (\<lambda>p q. tighter_cmp (snd p) (snd q)) (filter (\<lambda>(_, a). holds_routine (mr_source_anchor r) a) (anchored rows)) of
         Some (o', _) \<Rightarrow> Some o'
       | None \<Rightarrow> Some (last rows)))"

definition declaring_of :: "declaring_objects \<Rightarrow> model_routine \<Rightarrow> model_object option" where
  "declaring_of d r = (case d (mr_object_id r) of None \<Rightarrow> None | Some rows \<Rightarrow> pick rows r)"

section \<open>Correctness\<close>

lemma declaring_rows: "declaring_of_objects objs i = (let rows = filter (\<lambda>o'. mo_id o' = i) objs in if rows = [] then None else Some rows)"
proof (induction objs rule: rev_induct)
  case (snoc o' objs)
  then show ?case by (auto simp: declaring_of_objects_def push_object_def Let_def split: if_splits)
qed (simp add: declaring_of_objects_def)

lemma foldl_min_mem: "foldl (\<lambda>b y. if f b y = Greater then y else b) x xs \<in> set (x # xs)"
  by (induction xs arbitrary: x) (auto split: if_splits)

lemma min_by_mem: "min_by f xs = Some x \<Longrightarrow> x \<in> set xs"
  using foldl_min_mem by (fastforce simp: min_by_def split: list.splits)

lemma min_by_None [simp]: "min_by f xs = None \<longleftrightarrow> xs = []"
  by (simp add: min_by_def split: list.splits)

lemma anchored_row: "(o', a) \<in> set (anchored rows) \<longleftrightarrow> o' \<in> set rows \<and> mo_source_anchor o' = Some a"
  by (auto simp: anchored_def map_filter_def image_iff)

lemma pick_row:
  assumes "pick rows r = Some o'"
  shows "o' \<in> set rows"
proof -
  let ?cs = "filter (\<lambda>(_, a). holds_routine (mr_source_anchor r) a) (anchored rows)"
  consider "o' = hd rows" "rows \<noteq> []" | "o' = last rows" "rows \<noteq> []"
    | p where "min_by (\<lambda>p q. tighter_cmp (snd p) (snd q)) ?cs = Some p" "o' = fst p"
    using assms unfolding pick_def by (auto split: list.splits option.splits)
  then show ?thesis
    by cases (auto dest!: min_by_mem simp: anchored_row)
qed

lemma pick_total: "rows \<noteq> [] \<Longrightarrow> \<exists>o'. pick rows r = Some o'"
  by (auto simp: pick_def split: list.splits option.splits)

lemma declaring_of_row:
  assumes "declaring_of (declaring_of_objects objs) r = Some o'"
  shows "o' \<in> set objs" "mo_id o' = mr_object_id r"
proof -
  let ?rows = "filter (\<lambda>o'. mo_id o' = mr_object_id r) objs"
  have "pick ?rows r = Some o'"
    using assms by (auto simp: declaring_of_def declaring_rows Let_def split: if_splits)
  then have "o' \<in> set ?rows" by (rule pick_row)
  then show "o' \<in> set objs" "mo_id o' = mr_object_id r" by simp_all
qed

lemma declaring_of_None:
  "declaring_of (declaring_of_objects objs) r = None \<longleftrightarrow> \<not> list_ex (\<lambda>o'. mo_id o' = mr_object_id r) objs"
proof -
  let ?rows = "filter (\<lambda>o'. mo_id o' = mr_object_id r) objs"
  have "declaring_of (declaring_of_objects objs) r = None \<longleftrightarrow> ?rows = []"
    using pick_total [of ?rows r] by (auto simp: declaring_of_def declaring_rows Let_def)
  then show ?thesis by (simp add: filter_empty_conv list_ex_iff)
qed

text \<open>The choice among several rows: the tightest anchor around the routine's start.\<close>

definition tight_key :: "anchor \<Rightarrow> (int \<times> int) \<times> int \<times> int" where
  "tight_key a = ((- uint (start_line a), - uint (start_column a)), uint (end_line a), uint (end_column a))"

lemma cmp_pair: "cmp (a, b) (c, d) = then_cmp (cmp a c) (cmp b d)"
  by (cases "cmp a c") (auto simp: cmp_def less_prod_def split: if_splits)

lemma cmp_uint: "cmp (uint a) (uint b) = cmp a b" "cmp (- uint a) (- uint b) = cmp b a"
  by (auto simp: cmp_def word_less_def word_uint_eq_iff)

lemma tighter_cmp_key: "tighter_cmp a b = cmp (tight_key a) (tight_key b)"
  by (simp add: tighter_cmp_def tight_key_def pos_cmp_def cmp_pair cmp_uint)

lemma foldl_min_le:
  assumes "\<And>x y. f x y = cmp (k x) (k y)"
  shows "\<forall>y \<in> set (x # xs). k (foldl (\<lambda>b y. if f b y = Greater then y else b) x xs) \<le> k y"
proof (induction xs arbitrary: x)
  case (Cons a xs)
  define b where "b = (if f x a = Greater then a else x)"
  have "k b \<le> k x" "k b \<le> k a" using assms by (auto simp: b_def)
  moreover have "\<forall>y \<in> set (b # xs). k (foldl (\<lambda>b y. if f b y = Greater then y else b) b xs) \<le> k y" by (rule Cons)
  moreover have "foldl (\<lambda>b y. if f b y = Greater then y else b) x (a # xs) =
      foldl (\<lambda>b y. if f b y = Greater then y else b) b xs" by (simp add: b_def)
  ultimately show ?case by (auto intro: order_trans)
qed simp

lemma min_by_least:
  assumes "\<And>x y. f x y = cmp (k x) (k y)" "min_by f xs = Some m" "x \<in> set xs"
  shows "k m \<le> k x"
proof (cases xs)
  case (Cons a as)
  have "m = foldl (\<lambda>b y. if f b y = Greater then y else b) a as" using assms(2) Cons by (simp add: min_by_def)
  then show ?thesis using foldl_min_le [where f = f and k = k and x = a and xs = as, OF assms(1)] assms(3) Cons by blast
qed (use assms(3) in simp)

lemma pick_tightest:
  assumes "pick rows r = Some o'" "o2 \<in> set rows" "mo_source_anchor o2 = Some a2"
    "holds_routine (mr_source_anchor r) a2" "1 < length rows"
  obtains a where "mo_source_anchor o' = Some a" "holds_routine (mr_source_anchor r) a" "tight_key a \<le> tight_key a2"
proof -
  let ?cs = "filter (\<lambda>(_, a). holds_routine (mr_source_anchor r) a) (anchored rows)"
  have mem: "(o2, a2) \<in> set ?cs" using assms by (auto simp: anchored_row)
  then have "?cs \<noteq> []" by (metis list.distinct(1) list.set_cases)
  then obtain p where p: "min_by (\<lambda>p q. tighter_cmp (snd p) (snd q)) ?cs = Some p"
    using min_by_None by (metis not_None_eq)
  have "p = (o', snd p)"
    using assms(1,5) p by (cases p) (auto simp: pick_def split: list.splits)
  moreover have "p \<in> set ?cs" by (rule min_by_mem [OF p])
  moreover have "tight_key (snd p) \<le> tight_key a2"
    using min_by_least [OF _ p mem, of "\<lambda>p. tight_key (snd p)"] by (simp add: tighter_cmp_key)
  ultimately show thesis
    by (intro that [of "snd p"]) (cases p; auto simp: anchored_row)+
qed

end
