(* ===== verification/Capability_Facts.thy ===== *)
theory Capability_Facts
  imports Joined_Key
begin

text \<open>
  Capability facts (\<open>src/src/engine/l4/capability_cone.rs\<close>) and the compact store of the inherited
  ones (\<open>src/src/engine/l4/inherited_facts.rs\<close>): an inherited fact is a pair of indexes, the callee
  fact it comes from and the first hop it was reached through, into tables that are shared by all
  subjects. The theorems state that what a reader sees through the indexes is the retagged fact.
\<close>

section \<open>Facts\<close>

datatype value_source =
    Literal string
  | EnumMember string "string option"
  | ConstantVar string value_source
  | ParameterSource u32 string
  | TableField string string
  | Expression
  | UnknownSource

record temp_state =
  ts_kind :: string
  ts_value :: "bool option"
  ts_parameter_index :: "u32 option"

datatype capability_extra =
    ExtraTable "string option" "temp_state option" "string option"
  | ExtraDispatch string "bool option"
  | ExtraEvent string "bool option"
  | ExtraHttp string "value_source option"
  | ExtraStorage "value_source option" "value_source option" "string option"

record capability_fact =
  cf_subject :: string
  cf_op :: string
  cf_resource_kind :: string
  cf_resource_id :: "string option"
  cf_resource_arg_source :: "value_source option"
  cf_confidence :: string
  cf_provenance :: string
  cf_via :: string
  cf_witness_operation_id :: "string option"
  cf_witness_callsite_id :: "string option"
  cf_witness_first_hop_operation_id :: "string option"
  cf_witness_first_hop_event_id :: "string option"
  cf_extra :: "capability_extra option"

record typed_out_edge =
  te_to :: string
  te_kind :: string
  te_callsite :: "string option"
  te_event_id :: "string option"
  te_operation_id :: "string option"

definition capability_via_for_edge_kind :: "string \<Rightarrow> string" where
  "capability_via_for_edge_kind kind =
     (if kind \<in> {''direct-call'', ''variable-typed-call'', ''interface-dispatch''} then ''call''
      else if kind \<in> {''object-run-resolved'', ''object-run-unresolved''} then ''object-run''
      else if kind \<in> {''event-dispatch'', ''table-event''} then ''event-dispatch''
      else if kind = ''implicit-trigger'' then ''implicit-trigger''
      else if kind = ''dependency-export'' then ''dependency''
      else ''call'')"

section \<open>Tables and views\<close>

text \<open>
  \<open>Arc<CapabilityFact>\<close> and \<open>&TypedOutEdge\<close> are compared by address: an allocation is its address
  with what it holds.
\<close>

record 'a shared =
  address :: nat
  content :: 'a

record inherited_ref =
  ir_rep :: u32
  ir_hop :: u32

definition NO_HOP :: u32 where
  "NO_HOP = 0xFFFFFFFF"

text \<open>\<open>table_ix\<close>: both assertions of the code are the missing result.\<close>

definition table_ix :: "nat \<Rightarrow> u32 option" where
  "table_ix len = (if len < 2 ^ 32 \<and> of_nat len \<noteq> NO_HOP then Some (of_nat len) else None)"

record first_hop =
  fh_subject :: u32
  fh_via :: string
  fh_callsite :: "string option"
  fh_operation_id :: "string option"
  fh_event_id :: "string option"

record inherited_tables =
  it_subjects :: "string list"
  it_reps :: "capability_fact shared list"
  it_hops :: "first_hop list"

record fact_view =
  fv_rep :: capability_fact
  fv_hop :: first_hop
  fv_tables :: inherited_tables

definition view_ref :: "inherited_tables \<Rightarrow> inherited_ref \<Rightarrow> fact_view" where
  "view_ref t r = \<lparr> fv_rep = content (it_reps t ! unat (ir_rep r)), fv_hop = it_hops t ! unat (ir_hop r), fv_tables = t \<rparr>"

definition fv_subject :: "fact_view \<Rightarrow> string" where
  "fv_subject v = it_subjects (fv_tables v) ! unat (fh_subject (fv_hop v))"

definition materialize :: "fact_view \<Rightarrow> capability_fact" where
  "materialize v = (fv_rep v)\<lparr> cf_subject := fv_subject v, cf_provenance := ''inherited'', cf_via := fh_via (fv_hop v),
     cf_witness_callsite_id := fh_callsite (fv_hop v), cf_witness_first_hop_operation_id := fh_operation_id (fv_hop v),
     cf_witness_first_hop_event_id := fh_event_id (fv_hop v) \<rparr>"

text \<open>\<open>FactRef\<close> and its accessors: an inherited fact answers from its hop where \<open>retag\<close> would.\<close>

datatype fact_ref = DirectFact capability_fact | InheritedFact fact_view

fun fr_op :: "fact_ref \<Rightarrow> string" where
  "fr_op (DirectFact f) = cf_op f"
| "fr_op (InheritedFact v) = cf_op (fv_rep v)"

fun fr_resource_kind :: "fact_ref \<Rightarrow> string" where
  "fr_resource_kind (DirectFact f) = cf_resource_kind f"
| "fr_resource_kind (InheritedFact v) = cf_resource_kind (fv_rep v)"

fun fr_resource_id :: "fact_ref \<Rightarrow> string option" where
  "fr_resource_id (DirectFact f) = cf_resource_id f"
| "fr_resource_id (InheritedFact v) = cf_resource_id (fv_rep v)"

fun fr_confidence :: "fact_ref \<Rightarrow> string" where
  "fr_confidence (DirectFact f) = cf_confidence f"
| "fr_confidence (InheritedFact v) = cf_confidence (fv_rep v)"

fun fr_provenance :: "fact_ref \<Rightarrow> string" where
  "fr_provenance (DirectFact f) = cf_provenance f"
| "fr_provenance (InheritedFact v) = ''inherited''"

fun fr_via :: "fact_ref \<Rightarrow> string" where
  "fr_via (DirectFact f) = cf_via f"
| "fr_via (InheritedFact v) = fh_via (fv_hop v)"

fun fr_witness_operation_id :: "fact_ref \<Rightarrow> string option" where
  "fr_witness_operation_id (DirectFact f) = cf_witness_operation_id f"
| "fr_witness_operation_id (InheritedFact v) = cf_witness_operation_id (fv_rep v)"

fun fr_witness_callsite_id :: "fact_ref \<Rightarrow> string option" where
  "fr_witness_callsite_id (DirectFact f) = cf_witness_callsite_id f"
| "fr_witness_callsite_id (InheritedFact v) = fh_callsite (fv_hop v)"

fun fr_extra :: "fact_ref \<Rightarrow> capability_extra option" where
  "fr_extra (DirectFact f) = cf_extra f"
| "fr_extra (InheritedFact v) = cf_extra (fv_rep v)"

text \<open>The fact a reference stands for; every accessor reads it.\<close>

fun owned :: "fact_ref \<Rightarrow> capability_fact" where
  "owned (DirectFact f) = f"
| "owned (InheritedFact v) = materialize v"

lemma accessors_read_owned:
  "fr_op f = cf_op (owned f)" "fr_resource_kind f = cf_resource_kind (owned f)"
  "fr_resource_id f = cf_resource_id (owned f)" "fr_confidence f = cf_confidence (owned f)"
  "fr_provenance f = cf_provenance (owned f)" "fr_via f = cf_via (owned f)"
  "fr_witness_operation_id f = cf_witness_operation_id (owned f)"
  "fr_witness_callsite_id f = cf_witness_callsite_id (owned f)" "fr_extra f = cf_extra (owned f)"
  by (cases f; simp add: materialize_def)+

end
