(* ===== verification/Predicate_Fields.thy ===== *)
theory Predicate_Fields
  imports Declaring Capability_Facts
begin

text \<open>
  The field registry of policy predicates (\<open>src/src/engine/gate/policy/predicate_fields.rs\<close>): what a
  predicate may name, and what each field reads of a routine, a capability fact, a write or an
  applied rule key.
\<close>

datatype field_scope = RoutineScope | FactScope | ModelScope | WriteScope | RuleScope

record write_fact =
  wf_table :: string
  wf_field :: string

record rule_fact =
  rf_kind :: string
  rf_atoms :: string

datatype value_shape = ShapeEnum | ShapeEnumList | ShapeGlob | ShapeGlobList | ShapeStringExact | ShapeStringList

datatype unknown_reason = FieldNotApplicable | ResourceIdUnresolved | NoRootClassification | EvaluatorError

datatype field_value = KnownStr string | KnownList "string list" | UnknownValue unknown_reason

record model_table =
  mt_id :: string
  mt_name :: string

record field_indexes =
  fi_declaring :: declaring_objects
  fi_root_kinds :: "string \<rightharpoonup> string list"
  fi_tables :: "string \<rightharpoonup> model_table"
  fi_events :: "string \<rightharpoonup> string"

record eval_context =
  ec_routine :: model_routine
  ec_fact :: "fact_ref option"
  ec_write :: "write_fact option"
  ec_rule :: "rule_fact option"
  ec_indexes :: field_indexes

record field_def =
  fd_name :: string
  fd_scope :: field_scope
  fd_shape :: value_shape
  fd_enum :: "string list option"

section \<open>The registry\<close>

definition RESOURCE_KINDS :: "string list" where
  "RESOURCE_KINDS = [''table'', ''event'', ''codeunit'', ''page'', ''report'', ''http'', ''telemetry'',
     ''isolated-storage'', ''file'', ''transaction'', ''ui'', ''background'']"

definition CAPABILITY_OPS :: "string list" where
  "CAPABILITY_OPS = [''read'', ''insert'', ''modify'', ''delete'', ''rename'', ''lock'', ''execute'', ''publish'',
     ''subscribe'', ''send'', ''log'', ''store-read'', ''store-write'', ''store-delete'', ''commit'', ''open'',
     ''write-blob'', ''start'', ''ui-confirm'', ''ui-message'', ''ui-error'']"

definition CONFIDENCE_VALUES :: "string list" where
  "CONFIDENCE_VALUES = [''static'', ''boundedDynamic'', ''configDynamic'', ''userDynamic'', ''unresolved'']"

definition VIA_VALUES :: "string list" where
  "VIA_VALUES = [''self'', ''call'', ''object-run'', ''event-dispatch'', ''implicit-trigger'', ''dependency'']"

definition PROVENANCE_VALUES :: "string list" where
  "PROVENANCE_VALUES = [''direct'', ''inherited'']"

definition ROUTINE_KINDS :: "string list" where
  "ROUTINE_KINDS = [''procedure'', ''trigger'', ''event-publisher'', ''event-subscriber'']"

definition ACCESS_MODIFIERS :: "string list" where
  "ACCESS_MODIFIERS = [''public'', ''internal'', ''local'', ''protected'']"

definition OBJECT_KINDS :: "string list" where
  "OBJECT_KINDS = [''codeunit'', ''table'', ''page'', ''report'', ''xmlport'', ''query'', ''enum'', ''interface'', ''permissionset'']"

definition HTTP_METHODS :: "string list" where
  "HTTP_METHODS = [''Send'', ''Get'', ''Post'', ''Put'', ''Delete'', ''Patch'']"

definition UI_KINDS :: "string list" where
  "UI_KINDS = [''confirm'', ''message'', ''error'', ''dialog'', ''modalPage'', ''requestPage'']"

definition RULE_KINDS :: "string list" where
  "RULE_KINDS = [''Error'', ''TestField'', ''FieldError'', ''ConfirmError'', ''ConfirmExit'']"

definition field :: "string \<Rightarrow> field_scope \<Rightarrow> value_shape \<Rightarrow> string list option \<Rightarrow> field_def" where
  "field n s v e = \<lparr> fd_name = n, fd_scope = s, fd_shape = v, fd_enum = e \<rparr>"

definition PREDICATE_FIELDS :: "field_def list" where
  "PREDICATE_FIELDS = [
     field ''root.kinds'' RoutineScope ShapeEnumList None,
     field ''routine.name'' RoutineScope ShapeGlob None,
     field ''routine.kind'' RoutineScope ShapeEnum (Some ROUTINE_KINDS),
     field ''routine.accessModifier'' RoutineScope ShapeEnumList (Some ACCESS_MODIFIERS),
     field ''object.name'' RoutineScope ShapeGlob None,
     field ''object.kind'' RoutineScope ShapeEnumList (Some OBJECT_KINDS),
     field ''object.appGuid'' RoutineScope ShapeStringExact None,
     field ''capability.op'' FactScope ShapeEnumList (Some CAPABILITY_OPS),
     field ''capability.resourceKind'' FactScope ShapeEnumList (Some RESOURCE_KINDS),
     field ''capability.resource.table.name'' FactScope ShapeGlob None,
     field ''capability.resource.event.name'' FactScope ShapeGlob None,
     field ''capability.resource.http.method'' FactScope ShapeEnumList (Some HTTP_METHODS),
     field ''capability.resource.ui.kind'' FactScope ShapeEnumList (Some UI_KINDS),
     field ''capability.confidence'' FactScope ShapeEnumList (Some CONFIDENCE_VALUES),
     field ''capability.origin'' FactScope ShapeEnumList (Some PROVENANCE_VALUES),
     field ''capability.via'' FactScope ShapeEnumList (Some VIA_VALUES),
     field ''write.table'' WriteScope ShapeGlob None,
     field ''write.field'' WriteScope ShapeGlob None,
     field ''rule.kind'' RuleScope ShapeEnum (Some RULE_KINDS),
     field ''rule.atoms'' RuleScope ShapeStringExact None]"

definition get_field_def :: "string \<Rightarrow> field_def option" where
  "get_field_def name = List.find (\<lambda>f. fd_name f = name) PREDICATE_FIELDS"

section \<open>Reading a field\<close>

definition object_of :: "eval_context \<Rightarrow> model_object option" where
  "object_of ctx = declaring_of (fi_declaring (ec_indexes ctx)) (ec_routine ctx)"

definition of_object :: "eval_context \<Rightarrow> (model_object \<Rightarrow> string) \<Rightarrow> field_value" where
  "of_object ctx f = (case object_of ctx of Some o' \<Rightarrow> KnownStr (f o') | None \<Rightarrow> UnknownValue FieldNotApplicable)"

definition of_fact :: "eval_context \<Rightarrow> (fact_ref \<Rightarrow> field_value) \<Rightarrow> field_value" where
  "of_fact ctx f = (case ec_fact ctx of Some x \<Rightarrow> f x | None \<Rightarrow> UnknownValue EvaluatorError)"

text \<open>The fields of one resource kind: not applicable to a fact of another kind.\<close>

definition of_resource :: "eval_context \<Rightarrow> string \<Rightarrow> (fact_ref \<Rightarrow> field_value) \<Rightarrow> field_value" where
  "of_resource ctx kind f =
     of_fact ctx (\<lambda>x. if fr_resource_kind x \<noteq> kind then UnknownValue FieldNotApplicable else f x)"

definition resolved_name :: "(string \<rightharpoonup> string) \<Rightarrow> fact_ref \<Rightarrow> field_value" where
  "resolved_name names f = (case fr_resource_id f of
      None \<Rightarrow> UnknownValue ResourceIdUnresolved
    | Some i \<Rightarrow> (case names i of Some n \<Rightarrow> KnownStr n | None \<Rightarrow> UnknownValue ResourceIdUnresolved))"

definition http_method :: "fact_ref \<Rightarrow> field_value" where
  "http_method f = (case fr_extra f of Some (ExtraHttp m _) \<Rightarrow> KnownStr m | _ \<Rightarrow> UnknownValue FieldNotApplicable)"

definition ui_kind :: "fact_ref \<Rightarrow> field_value" where
  "ui_kind f =
     (if fr_op f = ''ui-confirm'' then KnownStr ''confirm''
      else if fr_op f = ''ui-message'' then KnownStr ''message''
      else if fr_op f = ''ui-error'' then KnownStr ''error''
      else UnknownValue FieldNotApplicable)"

definition of_write :: "eval_context \<Rightarrow> (write_fact \<Rightarrow> string) \<Rightarrow> field_value" where
  "of_write ctx f = (case ec_write ctx of Some w \<Rightarrow> KnownStr (f w) | None \<Rightarrow> UnknownValue EvaluatorError)"

definition of_rule :: "eval_context \<Rightarrow> (rule_fact \<Rightarrow> string) \<Rightarrow> field_value" where
  "of_rule ctx f = (case ec_rule ctx of Some r \<Rightarrow> KnownStr (f r) | None \<Rightarrow> UnknownValue EvaluatorError)"

definition evaluate_field :: "field_def \<Rightarrow> eval_context \<Rightarrow> field_value" where
  "evaluate_field d ctx =
     (let n = fd_name d; r = ec_routine ctx; ix = ec_indexes ctx in
      if n = ''root.kinds'' then KnownList (unwrap_or [] (fi_root_kinds ix (mr_id r)))
      else if n = ''routine.name'' then KnownStr (mr_name r)
      else if n = ''routine.kind'' then KnownStr (mr_kind r)
      else if n = ''routine.accessModifier'' then KnownStr (unwrap_or ''public'' (mr_access_modifier r))
      else if n = ''object.name'' then of_object ctx mo_name
      else if n = ''object.kind'' then of_object ctx (\<lambda>o'. to_lowercase (mo_object_type o'))
      else if n = ''object.appGuid'' then of_object ctx mo_app_guid
      else if n = ''capability.op'' then of_fact ctx (\<lambda>f. KnownStr (fr_op f))
      else if n = ''capability.resourceKind'' then of_fact ctx (\<lambda>f. KnownStr (fr_resource_kind f))
      else if n = ''capability.resource.table.name'' then of_resource ctx ''table'' (resolved_name (\<lambda>i. map_option mt_name (fi_tables ix i)))
      else if n = ''capability.resource.event.name'' then of_resource ctx ''event'' (resolved_name (fi_events ix))
      else if n = ''capability.resource.http.method'' then of_resource ctx ''http'' http_method
      else if n = ''capability.resource.ui.kind'' then of_resource ctx ''ui'' ui_kind
      else if n = ''capability.confidence'' then of_fact ctx (\<lambda>f. KnownStr (fr_confidence f))
      else if n = ''capability.origin'' then of_fact ctx (\<lambda>f. KnownStr (fr_provenance f))
      else if n = ''capability.via'' then of_fact ctx (\<lambda>f. KnownStr (fr_via f))
      else if n = ''write.table'' then of_write ctx wf_table
      else if n = ''write.field'' then of_write ctx wf_field
      else if n = ''rule.kind'' then of_rule ctx rf_kind
      else if n = ''rule.atoms'' then of_rule ctx rf_atoms
      else UnknownValue EvaluatorError)"

section \<open>Facts of the registry\<close>

lemma get_field_def_Some:
  assumes "get_field_def n = Some d"
  shows "d \<in> set PREDICATE_FIELDS" "fd_name d = n"
  using assms by (auto simp: get_field_def_def find_Some_iff in_set_conv_nth)

text \<open>A routine-scope field reads the routine and the indexes only.\<close>

lemma routine_field_reads_routine:
  assumes "d \<in> set PREDICATE_FIELDS" "fd_scope d = RoutineScope"
    "ec_routine c' = ec_routine c" "ec_indexes c' = ec_indexes c"
  shows "evaluate_field d c' = evaluate_field d c"
proof -
  have "fd_name d \<in> {''root.kinds'', ''routine.name'', ''routine.kind'', ''routine.accessModifier'', ''object.name'',
      ''object.kind'', ''object.appGuid''}"
    using assms(1,2) unfolding PREDICATE_FIELDS_def field_def by auto
  moreover have "object_of c' = object_of c" using assms(3,4) by (simp add: object_of_def)
  ultimately show ?thesis
    using assms(3,4) by (elim insertE emptyE; simp add: evaluate_field_def of_object_def)
qed

lemma no_model_scope: "d \<in> set PREDICATE_FIELDS \<Longrightarrow> fd_scope d \<noteq> ModelScope"
  unfolding PREDICATE_FIELDS_def field_def by auto

text \<open>Every registered name is matched by the reader, and only \<open>root.kinds\<close> gives a list.\<close>

lemma registry_names: "map fd_name PREDICATE_FIELDS =
  [''root.kinds'', ''routine.name'', ''routine.kind'', ''routine.accessModifier'', ''object.name'', ''object.kind'',
   ''object.appGuid'', ''capability.op'', ''capability.resourceKind'', ''capability.resource.table.name'',
   ''capability.resource.event.name'', ''capability.resource.http.method'', ''capability.resource.ui.kind'',
   ''capability.confidence'', ''capability.origin'', ''capability.via'', ''write.table'', ''write.field'',
   ''rule.kind'', ''rule.atoms'']"
  by (simp add: PREDICATE_FIELDS_def field_def)

lemma evaluate_list_only_root_kinds: "evaluate_field d ctx = KnownList xs \<Longrightarrow> fd_name d = ''root.kinds''"
  by (auto simp: evaluate_field_def Let_def of_object_def of_fact_def of_resource_def resolved_name_def http_method_def
      ui_kind_def of_write_def of_rule_def split: if_splits option.splits capability_extra.splits)

end
