(* ===== verification/Predicate_Eval.thy ===== *)
theory Predicate_Eval
  imports Predicate_Fields
begin

text \<open>
  Policy predicates (\<open>src/src/engine/gate/policy/policy_types.rs\<close>) and their three-valued evaluation
  (\<open>src/src/engine/gate/policy/predicate_evaluator.rs\<close>). The \<open>regex\<close> crate is a parameter: \<open>rx re v\<close>
  is whether the compiled regular expression \<open>re\<close> matches \<open>v\<close> (False when \<open>re\<close> does not compile, the
  never-match fallback of the code).
\<close>

datatype predicate_operator = OpEq | OpIn | OpGlob | OpGlobIn

datatype predicate_value = Str string | StrList "string list"

datatype predicate =
    FieldTest string predicate_operator predicate_value
  | AllOf "predicate list"
  | AnyOf "predicate list"
  | NotOf predicate

fun operator_as_str :: "predicate_operator \<Rightarrow> string" where
  "operator_as_str OpEq = ''==''"
| "operator_as_str OpIn = ''in''"
| "operator_as_str OpGlob = ''glob''"
| "operator_as_str OpGlobIn = ''glob-in''"

section \<open>Kleene logic\<close>

datatype tristate = T | F | U

definition kleene_and :: "tristate \<Rightarrow> tristate \<Rightarrow> tristate" where
  "kleene_and a b = (if a = F \<or> b = F then F else if a = U \<or> b = U then U else T)"

definition kleene_or :: "tristate \<Rightarrow> tristate \<Rightarrow> tristate" where
  "kleene_or a b = (if a = T \<or> b = T then T else if a = U \<or> b = U then U else F)"

fun kleene_not :: "tristate \<Rightarrow> tristate" where
  "kleene_not T = F"
| "kleene_not F = T"
| "kleene_not U = U"

datatype eval_mode = Full | Applicability

section \<open>Globs\<close>

definition NON_LT :: string where
  "NON_LT = ''[^'' @ [CHR 0x5C] @ ''n'' @ [CHR 0x5C] @ ''r'' @ [CHR 0x5C] @ ''x{2028}'' @ [CHR 0x5C] @ ''x{2029}]''"

definition glob_metachars :: string where
  "glob_metachars = ''.+^$(){}|[]'' @ [CHR 0x5C]"

definition compile_glob_char :: "char \<Rightarrow> string" where
  "compile_glob_char c =
     (if c = CHR ''*'' then NON_LT @ ''*''
      else if c = CHR ''?'' then NON_LT
      else if c \<in> set glob_metachars then [CHR 0x5C, to_lower_char c]
      else [to_lower_char c])"

definition compile_glob :: "string \<Rightarrow> string" where
  "compile_glob pattern = ''^'' @ concat (map compile_glob_char pattern) @ ''$''"

definition glob_match :: "(string \<Rightarrow> string \<Rightarrow> bool) \<Rightarrow> string \<Rightarrow> string \<Rightarrow> bool" where
  "glob_match rx pattern v = rx (compile_glob pattern) (to_lowercase v)"

text \<open>The per-thread cache of compiled patterns, as the code threads it through a call.\<close>

definition glob_match_cached ::
  "(string \<Rightarrow> string \<Rightarrow> bool) \<Rightarrow> string \<Rightarrow> string \<Rightarrow> (string \<rightharpoonup> string) \<Rightarrow> bool \<times> (string \<rightharpoonup> string)" where
  "glob_match_cached rx pattern v cache = (case cache pattern of
      Some re \<Rightarrow> (rx re (to_lowercase v), cache)
    | None \<Rightarrow> (let re = compile_glob pattern in (rx re (to_lowercase v), cache(pattern \<mapsto> re))))"

definition cache_ok :: "(string \<rightharpoonup> string) \<Rightarrow> bool" where
  "cache_ok cache = (\<forall>p re. cache p = Some re \<longrightarrow> re = compile_glob p)"

lemma glob_cache_invisible:
  "cache_ok cache \<Longrightarrow> fst (glob_match_cached rx p v cache) = glob_match rx p v \<and> cache_ok (snd (glob_match_cached rx p v cache))"
  by (auto simp: glob_match_cached_def glob_match_def cache_ok_def Let_def split: option.splits)

text \<open>Matching ignores the ASCII case of pattern and value, whatever the regex engine.\<close>

lemma to_lower_char_special: "to_lower_char c = CHR ''*'' \<longleftrightarrow> c = CHR ''*''" "to_lower_char c = CHR ''?'' \<longleftrightarrow> c = CHR ''?''"
  "to_lower_char c \<in> set glob_metachars \<longleftrightarrow> c \<in> set glob_metachars"
proof -
  have low: "to_lower_char c \<noteq> c \<Longrightarrow> 97 \<le> (of_char (to_lower_char c) :: nat) \<and> (of_char (to_lower_char c) :: nat) \<le> 122 \<and>
      65 \<le> (of_char c :: nat) \<and> (of_char c :: nat) \<le> 90"
    by (auto simp: to_lower_char_def)
  have not_special: "d \<noteq> CHR ''*'' \<and> d \<noteq> CHR ''?'' \<and> d \<notin> set glob_metachars"
    if "65 \<le> (of_char d :: nat) \<and> (of_char d :: nat) \<le> 90 \<or> 97 \<le> (of_char d :: nat) \<and> (of_char d :: nat) \<le> 122" for d
    using that by (auto simp: glob_metachars_def)
  show "to_lower_char c = CHR ''*'' \<longleftrightarrow> c = CHR ''*''" "to_lower_char c = CHR ''?'' \<longleftrightarrow> c = CHR ''?''"
    "to_lower_char c \<in> set glob_metachars \<longleftrightarrow> c \<in> set glob_metachars"
    using low not_special [of c] not_special [of "to_lower_char c"] by (cases "to_lower_char c = c"; auto)+
qed

lemma compile_glob_lower: "compile_glob (to_lowercase p) = compile_glob p"
proof -
  have "compile_glob_char (to_lower_char c) = compile_glob_char c" for c
    by (auto simp: compile_glob_char_def to_lower_char_special)
  then show ?thesis by (simp add: compile_glob_def to_lowercase_def comp_def)
qed

lemma glob_match_ignores_case: "glob_match rx (to_lowercase p) (to_lowercase v) = glob_match rx p v"
  by (simp add: glob_match_def compile_glob_lower)

section \<open>Evaluation\<close>

fun actual_to_string :: "field_value \<Rightarrow> string" where
  "actual_to_string (KnownStr s) = s"
| "actual_to_string (KnownList xs) = (case xs of [] \<Rightarrow> [] | x # xs \<Rightarrow> x @ concat (map (\<lambda>y. '','' @ y) xs))"
| "actual_to_string (UnknownValue _) = []"

fun match_operator :: "(string \<Rightarrow> string \<Rightarrow> bool) \<Rightarrow> predicate_operator \<Rightarrow> field_value \<Rightarrow> predicate_value \<Rightarrow> bool" where
  "match_operator rx OpEq (KnownStr a) (Str e) = (a = e)"
| "match_operator rx OpEq _ _ = False"
| "match_operator rx OpIn (KnownStr a) (StrList es) = list_ex (\<lambda>e. e = a) es"
| "match_operator rx OpIn (KnownList as) (StrList es) = list_ex (\<lambda>a. list_ex (\<lambda>e. e = a) es) as"
| "match_operator rx OpIn _ _ = False"
| "match_operator rx OpGlob actual (Str pat) = glob_match rx pat (actual_to_string actual)"
| "match_operator rx OpGlob _ _ = False"
| "match_operator rx OpGlobIn (KnownList as) (StrList pats) = list_ex (\<lambda>g. list_ex (glob_match rx g) as) pats"
| "match_operator rx OpGlobIn actual (StrList pats) = list_ex (\<lambda>g. glob_match rx g (actual_to_string actual)) pats"
| "match_operator rx OpGlobIn _ _ = False"

definition field_tristate ::
  "(string \<Rightarrow> string \<Rightarrow> bool) \<Rightarrow> string \<Rightarrow> predicate_operator \<Rightarrow> predicate_value \<Rightarrow> eval_context \<Rightarrow> eval_mode \<Rightarrow> tristate" where
  "field_tristate rx f op v ctx mode = (case get_field_def f of
      None \<Rightarrow> U
    | Some d \<Rightarrow>
      (if mode = Applicability \<and> fd_scope d \<in> {FactScope, WriteScope, RuleScope} then U
       else (case evaluate_field d ctx of
           UnknownValue _ \<Rightarrow> U
         | known \<Rightarrow> (if match_operator rx op known v then T else F))))"

text \<open>The loops of \<open>all\<close> and \<open>any\<close> stop at the first child that decides.\<close>

fun eval_tristate :: "(string \<Rightarrow> string \<Rightarrow> bool) \<Rightarrow> predicate \<Rightarrow> eval_context \<Rightarrow> eval_mode \<Rightarrow> tristate"
and eval_all :: "(string \<Rightarrow> string \<Rightarrow> bool) \<Rightarrow> predicate list \<Rightarrow> tristate \<Rightarrow> eval_context \<Rightarrow> eval_mode \<Rightarrow> tristate"
and eval_any :: "(string \<Rightarrow> string \<Rightarrow> bool) \<Rightarrow> predicate list \<Rightarrow> tristate \<Rightarrow> eval_context \<Rightarrow> eval_mode \<Rightarrow> tristate" where
  "eval_tristate rx (FieldTest f op v) ctx mode = field_tristate rx f op v ctx mode"
| "eval_tristate rx (AllOf cs) ctx mode = (if cs = [] then T else eval_all rx cs T ctx mode)"
| "eval_tristate rx (AnyOf cs) ctx mode = (if cs = [] then F else eval_any rx cs F ctx mode)"
| "eval_tristate rx (NotOf c) ctx mode = kleene_not (eval_tristate rx c ctx mode)"
| "eval_all rx [] acc ctx mode = acc"
| "eval_all rx (c # cs) acc ctx mode =
     (let acc = kleene_and acc (eval_tristate rx c ctx mode) in if acc = F then F else eval_all rx cs acc ctx mode)"
| "eval_any rx [] acc ctx mode = acc"
| "eval_any rx (c # cs) acc ctx mode =
     (let acc = kleene_or acc (eval_tristate rx c ctx mode) in if acc = T then T else eval_any rx cs acc ctx mode)"

definition evaluate_result :: "(string \<Rightarrow> string \<Rightarrow> bool) \<Rightarrow> predicate \<Rightarrow> eval_context \<Rightarrow> tristate" where
  "evaluate_result rx p ctx = eval_tristate rx p ctx Full"

definition evaluate_applicability :: "(string \<Rightarrow> string \<Rightarrow> bool) \<Rightarrow> predicate \<Rightarrow> eval_context \<Rightarrow> tristate" where
  "evaluate_applicability rx p ctx = eval_tristate rx p ctx Applicability"

section \<open>The three values\<close>

lemma kleene_and_T [simp]: "kleene_and T x = x" "kleene_and F x = F"
  by (cases x; simp add: kleene_and_def)+

lemma kleene_or_F [simp]: "kleene_or F x = x" "kleene_or T x = T"
  by (cases x; simp add: kleene_or_def)+

text \<open>The short-circuiting loops decide as the fold of the tables over all children.\<close>

lemma eval_all_fold: "eval_all rx cs acc ctx mode = foldl (\<lambda>a c. kleene_and a (eval_tristate rx c ctx mode)) acc cs"
proof (induction cs arbitrary: acc)
  case (Cons c cs)
  have "foldl (\<lambda>a c. kleene_and a (eval_tristate rx c ctx mode)) F cs = F" by (induction cs) simp_all
  with Cons show ?case by (simp add: Let_def)
qed simp

lemma eval_any_fold: "eval_any rx cs acc ctx mode = foldl (\<lambda>a c. kleene_or a (eval_tristate rx c ctx mode)) acc cs"
proof (induction cs arbitrary: acc)
  case (Cons c cs)
  have "foldl (\<lambda>a c. kleene_or a (eval_tristate rx c ctx mode)) T cs = T" by (induction cs) simp_all
  with Cons show ?case by (simp add: Let_def)
qed simp

lemma foldl_and_F: "foldl (\<lambda>a c. kleene_and a (f c)) acc cs = F \<longleftrightarrow> acc = F \<or> F \<in> f ` set cs"
  by (induction cs arbitrary: acc) (auto simp: kleene_and_def)

lemma foldl_and_T: "foldl (\<lambda>a c. kleene_and a (f c)) acc cs = T \<longleftrightarrow> acc = T \<and> f ` set cs \<subseteq> {T}"
  by (induction cs arbitrary: acc) (auto simp: kleene_and_def split: if_splits, (metis tristate.exhaust)+)

lemma foldl_or_T: "foldl (\<lambda>a c. kleene_or a (f c)) acc cs = T \<longleftrightarrow> acc = T \<or> T \<in> f ` set cs"
  by (induction cs arbitrary: acc) (auto simp: kleene_or_def)

lemma foldl_or_F: "foldl (\<lambda>a c. kleene_or a (f c)) acc cs = F \<longleftrightarrow> acc = F \<and> f ` set cs \<subseteq> {F}"
  by (induction cs arbitrary: acc) (auto simp: kleene_or_def split: if_splits, (metis tristate.exhaust)+)

lemma eval_AllOf:
  "eval_tristate rx (AllOf cs) ctx mode = F \<longleftrightarrow> F \<in> (\<lambda>c. eval_tristate rx c ctx mode) ` set cs"
  "eval_tristate rx (AllOf cs) ctx mode = T \<longleftrightarrow> (\<lambda>c. eval_tristate rx c ctx mode) ` set cs \<subseteq> {T}"
  by (auto simp: eval_all_fold foldl_and_F foldl_and_T)

lemma eval_AnyOf:
  "eval_tristate rx (AnyOf cs) ctx mode = T \<longleftrightarrow> T \<in> (\<lambda>c. eval_tristate rx c ctx mode) ` set cs"
  "eval_tristate rx (AnyOf cs) ctx mode = F \<longleftrightarrow> (\<lambda>c. eval_tristate rx c ctx mode) ` set cs \<subseteq> {F}"
  by (auto simp: eval_any_fold foldl_or_T foldl_or_F)

section \<open>Applicability\<close>

text \<open>\<open>a\<close> says no more than \<open>b\<close>.\<close>

definition approx :: "tristate \<Rightarrow> tristate \<Rightarrow> bool" where
  "approx a b = (a = U \<or> a = b)"

lemma approx_iff: "approx a b \<longleftrightarrow> (a = T \<longrightarrow> b = T) \<and> (a = F \<longrightarrow> b = F)"
  by (cases a) (auto simp: approx_def)

lemma field_approx:
  assumes "ec_routine c = ec_routine c'" "ec_indexes c = ec_indexes c'"
  shows "approx (field_tristate rx f op v c Applicability) (field_tristate rx f op v c' Full)"
proof (cases "get_field_def f")
  case (Some d)
  note d = get_field_def_Some [OF Some]
  show ?thesis
  proof (cases "fd_scope d = RoutineScope")
    case True
    then have "evaluate_field d c' = evaluate_field d c"
      by (intro routine_field_reads_routine [OF d(1)] assms [symmetric])
    then show ?thesis by (simp add: field_tristate_def Some approx_def)
  next
    case False
    then have "fd_scope d \<in> {FactScope, WriteScope, RuleScope}" using no_model_scope [OF d(1)] by (cases "fd_scope d") auto
    then show ?thesis by (simp add: field_tristate_def Some approx_def)
  qed
qed (simp add: field_tristate_def approx_def)

lemma eval_approx:
  assumes "ec_routine c = ec_routine c'" "ec_indexes c = ec_indexes c'"
  shows "approx (eval_tristate rx p c Applicability) (eval_tristate rx p c' Full)"
proof (induction p)
  case (FieldTest f op v)
  then show ?case using field_approx [OF assms] by simp
next
  case (AllOf cs)
  then have "\<forall>x \<in> set cs. (eval_tristate rx x c Applicability = T \<longrightarrow> eval_tristate rx x c' Full = T) \<and>
      (eval_tristate rx x c Applicability = F \<longrightarrow> eval_tristate rx x c' Full = F)"
    by (simp add: approx_iff)
  then show ?case unfolding approx_iff eval_AllOf image_subset_iff image_iff by (simp only: singleton_iff) metis
next
  case (AnyOf cs)
  then have "\<forall>x \<in> set cs. (eval_tristate rx x c Applicability = T \<longrightarrow> eval_tristate rx x c' Full = T) \<and>
      (eval_tristate rx x c Applicability = F \<longrightarrow> eval_tristate rx x c' Full = F)"
    by (simp add: approx_iff)
  then show ?case unfolding approx_iff eval_AnyOf image_subset_iff image_iff by (simp only: singleton_iff) metis
next
  case (NotOf p)
  then show ?case
    by (cases "eval_tristate rx p c Applicability"; cases "eval_tristate rx p c' Full") (simp_all add: approx_def)
qed

text \<open>
  Property C28. The applicability evaluation never contradicts the full one: for one routine, what it
  decides without a fact, a write or a rule key is decided the same with any of them, so a rule
  skipped as not applicable could match no fact and an exemption found structurally holds for all.
\<close>

theorem applicability_sound:
  "evaluate_applicability rx p ctx \<in> {U, evaluate_result rx p (ctx\<lparr> ec_fact := f, ec_write := w, ec_rule := r \<rparr>)}"
  using eval_approx [of ctx "ctx\<lparr> ec_fact := f, ec_write := w, ec_rule := r \<rparr>" rx p]
  by (auto simp: evaluate_applicability_def evaluate_result_def approx_def)

end
