(* ===== verification/Policy_Compile.thy ===== *)
theory Policy_Compile
  imports Predicate_Eval Complex_Main
begin

text \<open>
  The compiler from a parsed YAML node to a predicate
  (\<open>src/src/engine/gate/policy/predicate_compiler.rs\<close>). The YAML reader is outside the model: its
  \<open>Value\<close> type is the input. An \<open>unwrap()\<close> on a missing value is \<open>Panics\<close>.
\<close>

section \<open>Parsed YAML\<close>

text \<open>
  Of a number the code reads the printed text and the value as a floating-point number: \<open>yn_value\<close>
  is that value when it is finite.
\<close>

record yaml_number =
  yn_text :: string
  yn_value :: "rat option"

datatype yaml =
    YNull
  | YBool bool
  | YNumber yaml_number
  | YString string
  | YSequence "yaml list"
  | YMapping "(yaml \<times> yaml) list"
  | YTagged string yaml

datatype 'a answer = Done 'a | Rejected string | Panics

fun bind_outcome :: "'a answer \<Rightarrow> ('a \<Rightarrow> 'b answer) \<Rightarrow> 'b answer" where
  "bind_outcome (Done x) f = f x"
| "bind_outcome (Rejected e) f = Rejected e"
| "bind_outcome Panics f = Panics"

lemma bind_outcome_cong [fundef_cong]:
  "m = m' \<Longrightarrow> (\<And>x. m' = Done x \<Longrightarrow> f x = f' x) \<Longrightarrow> bind_outcome m f = bind_outcome m' f'"
  by (cases m') simp_all

lemma bind_outcome_Done: "bind_outcome m f = Done y \<longleftrightarrow> (\<exists>x. m = Done x \<and> f x = Done y)"
  by (cases m) auto

lemma bind_outcome_Panics: "bind_outcome m f = Panics \<longleftrightarrow> m = Panics \<or> (\<exists>x. m = Done x \<and> f x = Panics)"
  by (cases m) auto

fun yaml_scalar_to_string :: "yaml \<Rightarrow> string" where
  "yaml_scalar_to_string (YString s) = s"
| "yaml_scalar_to_string (YBool b) = (if b then ''true'' else ''false'')"
| "yaml_scalar_to_string (YNumber n) = yn_text n"
| "yaml_scalar_to_string YNull = ''null''"
| "yaml_scalar_to_string _ = []"

text \<open>The keys in insertion order; keys that are not strings are printed.\<close>

definition mapping_keys :: "(yaml \<times> yaml) list \<Rightarrow> string list" where
  "mapping_keys m = map (\<lambda>(k, _). yaml_scalar_to_string k) m"

definition yaml_get :: "(yaml \<times> yaml) list \<Rightarrow> string \<Rightarrow> yaml option" where
  "yaml_get m key = map_of m (YString key)"

fun yaml_value_display :: "yaml \<Rightarrow> string" where
  "yaml_value_display (YString s) = s"
| "yaml_value_display (YBool b) = (if b then ''true'' else ''false'')"
| "yaml_value_display (YNumber n) = yn_text n"
| "yaml_value_display YNull = ''null''"
| "yaml_value_display (YSequence _) = ''[object Object]''"
| "yaml_value_display (YMapping _) = ''[object Object]''"
| "yaml_value_display (YTagged _ v) = yaml_value_display v"

section \<open>Scopes\<close>

text \<open>The scopes a predicate names, in order of first occurrence.\<close>

fun collect_scopes_one :: "predicate \<Rightarrow> field_scope list \<Rightarrow> field_scope list"
and collect_scopes_into :: "predicate list \<Rightarrow> field_scope list \<Rightarrow> field_scope list" where
  "collect_scopes_one (FieldTest f _ _) out = (case get_field_def f of None \<Rightarrow> out | Some d \<Rightarrow> push_new (fd_scope d) out)"
| "collect_scopes_one (NotOf c) out = collect_scopes_one c out"
| "collect_scopes_one (AllOf cs) out = collect_scopes_into cs out"
| "collect_scopes_one (AnyOf cs) out = collect_scopes_into cs out"
| "collect_scopes_into [] out = out"
| "collect_scopes_into (p # ps) out = collect_scopes_into ps (collect_scopes_one p out)"

definition collect_scopes :: "predicate list \<Rightarrow> field_scope list" where
  "collect_scopes ps = collect_scopes_into ps []"

fun scope_name :: "field_scope \<Rightarrow> string" where
  "scope_name RoutineScope = ''routine''"
| "scope_name FactScope = ''fact''"
| "scope_name ModelScope = ''model''"
| "scope_name WriteScope = ''write''"
| "scope_name RuleScope = ''rule''"

definition scopes_join :: "field_scope list \<Rightarrow> string" where
  "scopes_join scopes = join_with ''/'' (map scope_name scopes)"

section \<open>Field predicates\<close>

definition EM_DASH :: string where
  "EM_DASH = [CHR 0xE2, CHR 0x80, CHR 0x94]"

fun str_of :: "yaml \<Rightarrow> string option" where
  "str_of (YString s) = Some s"
| "str_of _ = None"

fun raw_items :: "yaml \<Rightarrow> yaml list" where
  "raw_items (YSequence seq) = seq"
| "raw_items single = [single]"

fun is_sequence :: "yaml \<Rightarrow> bool" where
  "is_sequence (YSequence _) = True"
| "is_sequence _ = False"

fun all_strings :: "string \<Rightarrow> yaml list \<Rightarrow> string list answer" where
  "all_strings err [] = Done []"
| "all_strings err (v # vs) = (case str_of v of
      None \<Rightarrow> Rejected err
    | Some s \<Rightarrow> bind_outcome (all_strings err vs) (\<lambda>ss. Done (s # ss)))"

text \<open>The list form and the single form of a test; the single form reads the first string.\<close>

definition string_test :: "string \<Rightarrow> bool \<Rightarrow> predicate_operator \<Rightarrow> predicate_operator \<Rightarrow> string list \<Rightarrow> predicate answer" where
  "string_test name is_list op_list op_single strs =
     (if is_list then Done (FieldTest name op_list (StrList strs))
      else case strs of [] \<Rightarrow> Panics | s # _ \<Rightarrow> Done (FieldTest name op_single (Str s)))"

definition valid_enum :: "string list \<Rightarrow> yaml \<Rightarrow> bool" where
  "valid_enum allowed v = (case v of YString s \<Rightarrow> s \<in> set allowed | _ \<Rightarrow> False)"

definition enum_error :: "string \<Rightarrow> string list \<Rightarrow> yaml list \<Rightarrow> string option" where
  "enum_error path allowed items = map_option
     (\<lambda>v. path @ '': invalid enum value '' @ [CHR 0x27] @ yaml_value_display v @ [CHR 0x27] @ '' (allowed: '' @ join_with '', '' allowed @ '')'')
     (List.find (\<lambda>v. \<not> valid_enum allowed v) items)"

definition compile_field_predicate :: "field_def \<Rightarrow> yaml \<Rightarrow> string \<Rightarrow> predicate answer" where
  "compile_field_predicate d raw path =
     (let is_list = is_sequence raw; items = raw_items raw in
      case fd_shape d of
        ShapeGlob \<Rightarrow> bind_outcome (all_strings (path @ '': glob value must be a string'') items) (string_test (fd_name d) is_list OpGlobIn OpGlob)
      | ShapeGlobList \<Rightarrow> bind_outcome (all_strings (path @ '': glob value must be a string'') items) (string_test (fd_name d) is_list OpGlobIn OpGlob)
      | ShapeStringExact \<Rightarrow> bind_outcome (all_strings (path @ '': value must be a string'') items) (string_test (fd_name d) is_list OpIn OpEq)
      | ShapeStringList \<Rightarrow> bind_outcome (all_strings (path @ '': value must be a string'') items) (string_test (fd_name d) is_list OpIn OpEq)
      | _ \<Rightarrow>
        (case (case fd_enum d of None \<Rightarrow> None | Some allowed \<Rightarrow> enum_error path allowed items) of
           Some e \<Rightarrow> Rejected e
         | None \<Rightarrow>
           (if fd_shape d = ShapeEnum \<and> is_list \<and> 1 < length items then Rejected (path @ '': expected single value, got list'')
            else Done (FieldTest (fd_name d) OpIn (StrList (map yaml_value_display items))))))"


section \<open>The compiler\<close>

definition root_or :: "string \<Rightarrow> string" where
  "root_or path = (if path = [] then ''<root>'' else path)"

definition boolean_keys :: "string set" where
  "boolean_keys = {''all'', ''any'', ''not''}"

text \<open>A mapping whose one key is a boolean wrapper.\<close>

definition single_boolean :: "string list \<Rightarrow> bool" where
  "single_boolean keys = (case keys of [k] \<Rightarrow> k \<in> boolean_keys | _ \<Rightarrow> False)"

definition wrap_items :: "string \<Rightarrow> string \<Rightarrow> predicate list \<Rightarrow> predicate answer" where
  "wrap_items k path children =
     (if k = ''any'' \<and> 1 < length (collect_scopes children) then
        Rejected (path @ ''.any: mixed '' @ scopes_join (collect_scopes children) @ '' scope predicates '' @ EM_DASH @
          '' move routine filters into a parent all, or split into separate rules'')
      else Done (if k = ''all'' then AllOf children else AnyOf children))"

definition wrap_not :: "string \<Rightarrow> predicate \<Rightarrow> predicate answer" where
  "wrap_not path child =
     (if length (collect_scopes [child]) = 1 \<and> RoutineScope \<in> set (collect_scopes [child]) then
        Rejected (path @ ''.not wraps a routine-scope predicate '' @ EM_DASH @ '' use except: for routine-scope carve-outs'')
      else Done (NotOf child))"

definition finish_keys :: "string \<Rightarrow> predicate list \<Rightarrow> predicate answer" where
  "finish_keys path children = (case children of
      [] \<Rightarrow> Rejected (root_or path @ '': empty predicate'')
    | [p] \<Rightarrow> Done p
    | _ \<Rightarrow> Done (AllOf children))"

lemma size_yaml_get: "yaml_get m k = Some v \<Longrightarrow> size v + 3 + size (YString k) \<le> size (YMapping m)"
  by (induction m) (auto simp: yaml_get_def split: if_splits)

text \<open>
  Re-wrapping a boolean key does not shrink the node when it is the only one: but then the node is
  a wrapper, which is compiled through its value. The rank tells the two apart.
\<close>

definition node_rank :: "yaml \<Rightarrow> nat" where
  "node_rank raw = (case raw of YMapping obj \<Rightarrow> if single_boolean (mapping_keys obj) then 0 else 2 | _ \<Rightarrow> 2)"

text \<open>
  Items are compiled in order with their index in the path; the keys of a mapping in order, a
  boolean key re-wrapped into a mapping of its own.
\<close>

function compile_predicate :: "yaml \<Rightarrow> string \<Rightarrow> predicate answer"
and compile_items :: "yaml list \<Rightarrow> nat \<Rightarrow> string \<Rightarrow> predicate list answer"
and compile_keys :: "(yaml \<times> yaml) list \<Rightarrow> string list \<Rightarrow> string \<Rightarrow> predicate list answer" where
  "compile_predicate raw path = (case raw of
      YMapping obj \<Rightarrow>
        (let keys = mapping_keys obj in
         if single_boolean keys then
           (let k = hd keys in
            if k = ''not'' then
              (case yaml_get obj k of
                 None \<Rightarrow> Panics
               | Some inner \<Rightarrow>
                   (case inner of
                      YMapping (e # es) \<Rightarrow>
                        bind_outcome (compile_predicate (YMapping (e # es)) (path @ ''.not'')) (wrap_not path)
                    | _ \<Rightarrow> Rejected (path @ ''.not: empty or missing predicate'')))
            else
              (case yaml_get obj k of
                 None \<Rightarrow> Panics
               | Some (YSequence seq) \<Rightarrow>
                   (if seq = [] then Rejected (path @ ''.'' @ k @ '': empty array not allowed'')
                    else bind_outcome (compile_items seq 0 (path @ ''.'' @ k)) (wrap_items k path))
               | Some _ \<Rightarrow> Rejected (path @ ''.'' @ k @ '': expected array'')))
         else bind_outcome (compile_keys obj keys path) (finish_keys path))
    | _ \<Rightarrow> Rejected (root_or path @ '': expected an object''))"
| "compile_items [] i prefix = Done []"
| "compile_items (item # items) i prefix =
     bind_outcome (compile_predicate item (prefix @ ''['' @ dec_string i @ '']'')) (\<lambda>child.
     bind_outcome (compile_items items (Suc i) prefix) (\<lambda>children. Done (child # children)))"
| "compile_keys obj [] path = Done []"
| "compile_keys obj (k # ks) path =
     (if k \<in> boolean_keys then
        (case yaml_get obj k of
           None \<Rightarrow> Panics
         | Some v \<Rightarrow>
             bind_outcome (compile_predicate (YMapping [(YString k, v)]) path) (\<lambda>p.
             bind_outcome (compile_keys obj ks path) (\<lambda>ps. Done (p # ps))))
      else
        (case get_field_def k of
           None \<Rightarrow> Rejected (path @ ''.'' @ k @ '': unknown predicate field'')
         | Some d \<Rightarrow>
             (case yaml_get obj k of
                None \<Rightarrow> Panics
              | Some v \<Rightarrow>
                  bind_outcome (compile_field_predicate d v (path @ ''.'' @ k)) (\<lambda>p.
                  bind_outcome (compile_keys obj ks path) (\<lambda>ps. Done (p # ps))))))"
  by pat_completeness auto

termination
proof (relation "measures [
    case_sum (\<lambda>(raw, _). size raw) (case_sum (\<lambda>(items, _). size_list size items) (\<lambda>(obj, _). size (YMapping obj))),
    case_sum (\<lambda>(raw, _). node_rank raw) (case_sum (\<lambda>_. 0) (\<lambda>_. 1)),
    case_sum (\<lambda>_. 0) (case_sum (\<lambda>_. 0) (\<lambda>(_, ks, _). length ks))]", goal_cases)
  case 1
  show ?case by simp
qed (auto simp: node_rank_def single_boolean_def mapping_keys_def dest!: size_yaml_get split: list.splits)

declare compile_predicate.simps [simp del]


section \<open>What a compiled predicate looks like\<close>

text \<open>The operator and the value of a test fit the field's shape; enumerated values are allowed ones.\<close>

definition test_typed :: "field_def \<Rightarrow> predicate_operator \<Rightarrow> predicate_value \<Rightarrow> bool" where
  "test_typed d op v = (case (fd_shape d, op, v) of
      (ShapeEnum, OpIn, StrList xs) \<Rightarrow> length xs \<le> 1 \<and> pred_option (\<lambda>es. set xs \<subseteq> set es) (fd_enum d)
    | (ShapeEnumList, OpIn, StrList xs) \<Rightarrow> pred_option (\<lambda>es. set xs \<subseteq> set es) (fd_enum d)
    | (ShapeGlob, OpGlob, Str _) \<Rightarrow> True
    | (ShapeGlob, OpGlobIn, StrList _) \<Rightarrow> True
    | (ShapeGlobList, OpGlob, Str _) \<Rightarrow> True
    | (ShapeGlobList, OpGlobIn, StrList _) \<Rightarrow> True
    | (ShapeStringExact, OpEq, Str _) \<Rightarrow> True
    | (ShapeStringExact, OpIn, StrList _) \<Rightarrow> True
    | (ShapeStringList, OpEq, Str _) \<Rightarrow> True
    | (ShapeStringList, OpIn, StrList _) \<Rightarrow> True
    | _ \<Rightarrow> False)"

fun well_typed :: "predicate \<Rightarrow> bool" where
  "well_typed (FieldTest f op v) = (case get_field_def f of None \<Rightarrow> False | Some d \<Rightarrow> test_typed d op v)"
| "well_typed (AllOf cs) = (cs \<noteq> [] \<and> list_all well_typed cs)"
| "well_typed (AnyOf cs) = (cs \<noteq> [] \<and> length (collect_scopes cs) \<le> 1 \<and> list_all well_typed cs)"
| "well_typed (NotOf c) = (collect_scopes [c] \<noteq> [RoutineScope] \<and> well_typed c)"

lemma get_field_def_name: "get_field_def n = Some d \<Longrightarrow> get_field_def (fd_name d) = Some d"
  using get_field_def_Some by metis

lemma enum_error_None:
  "enum_error path allowed items = None \<longleftrightarrow> (\<forall>v \<in> set items. \<exists>s \<in> set allowed. v = YString s)"
proof -
  have "valid_enum allowed v \<longleftrightarrow> (\<exists>s \<in> set allowed. v = YString s)" for v
    by (cases v) (auto simp: valid_enum_def)
  then show ?thesis unfolding enum_error_def map_option_is_None find_None_iff by blast
qed

lemma test_typed_simps:
  "test_typed d OpIn (StrList xs) \<longleftrightarrow>
     (fd_shape d = ShapeEnum \<and> length xs \<le> 1 \<or> fd_shape d = ShapeEnumList) \<and> pred_option (\<lambda>es. set xs \<subseteq> set es) (fd_enum d) \<or>
     fd_shape d \<in> {ShapeStringExact, ShapeStringList}"
  "test_typed d OpGlobIn (StrList xs) \<longleftrightarrow> fd_shape d \<in> {ShapeGlob, ShapeGlobList}"
  "test_typed d OpGlob (Str s) \<longleftrightarrow> fd_shape d \<in> {ShapeGlob, ShapeGlobList}"
  "test_typed d OpEq (Str s) \<longleftrightarrow> fd_shape d \<in> {ShapeStringExact, ShapeStringList}"
  by (cases "fd_shape d"; simp add: test_typed_def)+

lemma string_test_Done:
  "string_test n l opl ops strs = Done p \<Longrightarrow> (\<exists>xs. p = FieldTest n opl (StrList xs)) \<or> (\<exists>s. p = FieldTest n ops (Str s))"
  by (auto simp: string_test_def split: if_splits list.splits)

lemma raw_items_single: "\<not> is_sequence raw \<Longrightarrow> raw_items raw = [raw]"
  by (cases raw) simp_all

lemma enum_values_typed:
  assumes "pred_option (\<lambda>es. enum_error path es items = None) (fd_enum d)"
  shows "pred_option (\<lambda>es. set (map yaml_value_display items) \<subseteq> set es) (fd_enum d)"
  using assms by (cases "fd_enum d") (auto simp: enum_error_None)

lemma enum_test_Done:
  assumes "compile_field_predicate d raw path = Done p" "fd_shape d = ShapeEnum \<or> fd_shape d = ShapeEnumList"
  obtains xs where "p = FieldTest (fd_name d) OpIn (StrList xs)" "pred_option (\<lambda>es. set xs \<subseteq> set es) (fd_enum d)"
    "fd_shape d = ShapeEnum \<Longrightarrow> length xs \<le> 1"
proof
  have err: "pred_option (\<lambda>es. enum_error path es (raw_items raw) = None) (fd_enum d)"
    and p: "p = FieldTest (fd_name d) OpIn (StrList (map yaml_value_display (raw_items raw)))"
    and one: "fd_shape d = ShapeEnum \<Longrightarrow> is_sequence raw \<Longrightarrow> length (raw_items raw) \<le> 1"
    using assms by (auto simp: compile_field_predicate_def Let_def split: option.splits if_splits)
  show "p = FieldTest (fd_name d) OpIn (StrList (map yaml_value_display (raw_items raw)))" by (rule p)
  show "pred_option (\<lambda>es. set (map yaml_value_display (raw_items raw)) \<subseteq> set es) (fd_enum d)" by (rule enum_values_typed [OF err])
  show "fd_shape d = ShapeEnum \<Longrightarrow> length (map yaml_value_display (raw_items raw)) \<le> 1"
    using one raw_items_single by (cases "is_sequence raw") simp_all
qed

lemma compile_field_typed:
  assumes "get_field_def n = Some d" "compile_field_predicate d raw path = Done p"
  shows "well_typed p"
proof -
  note d = get_field_def_name [OF assms(1)]
  consider "fd_shape d = ShapeEnum \<or> fd_shape d = ShapeEnumList" | "fd_shape d \<in> {ShapeGlob, ShapeGlobList}"
    | "fd_shape d \<in> {ShapeStringExact, ShapeStringList}" by (cases "fd_shape d") auto
  then show ?thesis
  proof cases
    case 1
    then show ?thesis by (rule enum_test_Done [OF assms(2)]) (use 1 in \<open>auto simp: d test_typed_simps\<close>)
  next
    case 2
    with assms(2) obtain strs where "string_test (fd_name d) (is_sequence raw) OpGlobIn OpGlob strs = Done p"
      by (auto simp: compile_field_predicate_def Let_def bind_outcome_Done)
    from string_test_Done [OF this] 2 show ?thesis by (elim disjE exE) (simp_all add: d test_typed_simps)
  next
    case 3
    with assms(2) obtain strs where "string_test (fd_name d) (is_sequence raw) OpIn OpEq strs = Done p"
      by (auto simp: compile_field_predicate_def Let_def bind_outcome_Done)
    from string_test_Done [OF this] 3 show ?thesis by (elim disjE exE) (simp_all add: d test_typed_simps)
  qed
qed

lemma collect_scopes_single: "length xs = 1 \<Longrightarrow> x \<in> set xs \<longleftrightarrow> xs = [x]"
  by (cases xs) auto

lemma wrap_typed:
  "k = ''all'' \<or> k = ''any'' \<Longrightarrow> list_all well_typed ps \<Longrightarrow> ps \<noteq> [] \<Longrightarrow> wrap_items k path ps = Done p \<Longrightarrow> well_typed p"
  "well_typed c \<Longrightarrow> wrap_not path c = Done p \<Longrightarrow> well_typed p"
  "list_all well_typed ps \<Longrightarrow> finish_keys path ps = Done p \<Longrightarrow> well_typed p"
  by (auto simp: wrap_items_def wrap_not_def finish_keys_def split: if_splits list.splits)

lemma compile_typed:
  "compile_predicate raw path = Done p \<Longrightarrow> well_typed p"
  "compile_items items i prefix = Done ps \<Longrightarrow> list_all well_typed ps \<and> length ps = length items"
  "compile_keys obj ks path' = Done ps \<Longrightarrow> list_all well_typed ps"
proof (induction raw path and items i prefix and obj ks path' arbitrary: p and ps and ps
    rule: compile_predicate_compile_items_compile_keys.induct)
  case (1 raw path)
  from "1.prems" obtain obj where obj: "raw = YMapping obj"
    by (subst (asm) compile_predicate.simps) (auto split: yaml.splits)
  let ?k = "hd (mapping_keys obj)"
  note c = "1.prems" [unfolded obj compile_predicate.simps [of "YMapping obj"] yaml.case Let_def]
  show ?case
  proof (cases "single_boolean (mapping_keys obj)")
    case wrapper: True
    show ?thesis
    proof (cases "?k = ''not''")
      case True
      with wrapper c obtain e es c' where "yaml_get obj ?k = Some (YMapping (e # es))"
        "compile_predicate (YMapping (e # es)) (path @ ''.not'') = Done c'" "wrap_not path c' = Done p"
        by (auto simp: bind_outcome_Done split: option.splits yaml.splits list.splits)
      with "1.IH"(1) [OF obj refl wrapper refl True] show ?thesis using wrap_typed(2) by blast
    next
      case False
      with wrapper have k: "?k = ''all'' \<or> ?k = ''any''" by (auto simp: single_boolean_def boolean_keys_def split: list.splits)
      from False wrapper c obtain seq ps where "yaml_get obj ?k = Some (YSequence seq)" "seq \<noteq> []"
        "compile_items seq 0 (path @ ''.'' @ ?k) = Done ps" "wrap_items ?k path ps = Done p"
        by (auto simp: bind_outcome_Done split: option.splits yaml.splits if_splits)
      with "1.IH"(2) [OF obj refl wrapper refl False] show ?thesis using wrap_typed(1) [OF k] by fastforce
    qed
  next
    case False
    with c obtain ps where "compile_keys obj (mapping_keys obj) path = Done ps" "finish_keys path ps = Done p"
      by (auto simp: bind_outcome_Done)
    with "1.IH"(3) [OF obj refl False] show ?thesis using wrap_typed(3) by blast
  qed
next
  case (3 item items i prefix)
  then show ?case by (auto simp: bind_outcome_Done)
next
  case (5 obj k ks path)
  then show ?case using compile_field_typed
    by (auto simp: bind_outcome_Done split: if_splits option.splits)
qed simp_all

text \<open>
  Property C29. What the compiler accepts is well typed: every test names a registered field with the
  operator its shape derives and the value form of that operator, enumerated values are allowed
  ones, no \<open>all\<close> or \<open>any\<close> is empty, no \<open>any\<close> mixes scopes, and no \<open>not\<close> wraps routine fields only.
\<close>

theorem compile_well_typed:
  assumes "compile_predicate raw path = Done p"
  shows "well_typed p"
  using compile_typed(1) [OF assms] .

text \<open>\<open>any: [ {capability.op: insert}, {not: {capability.via: [call, dependency]}} ]\<close>.\<close>

definition sample_yaml :: yaml where
  "sample_yaml = YMapping [(YString ''any'', YSequence [
     YMapping [(YString ''capability.op'', YString ''insert'')],
     YMapping [(YString ''not'', YMapping [(YString ''capability.via'', YSequence [YString ''call'', YString ''dependency''])])]])]"

definition sample_predicate :: predicate where
  "sample_predicate = AnyOf [FieldTest ''capability.op'' OpIn (StrList [''insert'']),
     NotOf (FieldTest ''capability.via'' OpIn (StrList [''call'', ''dependency'']))]"

lemmas compile_eval = compile_predicate.simps mapping_keys_def single_boolean_def boolean_keys_def yaml_get_def get_field_def_def
  PREDICATE_FIELDS_def field_def compile_field_predicate_def enum_error_def valid_enum_def wrap_items_def wrap_not_def
  finish_keys_def collect_scopes_def push_new_def string_test_def Let_def

lemma sample_compiles: "compile_predicate sample_yaml path = Done sample_predicate"
  by (simp add: sample_yaml_def sample_predicate_def compile_eval CAPABILITY_OPS_def VIA_VALUES_def)

theorem compile_well_typed_witness: "well_typed sample_predicate"
  by (rule compile_well_typed [OF sample_compiles])

section \<open>No panic\<close>

text \<open>A printed number starts with a digit, a sign or a point.\<close>

definition number_text_ok :: "string \<Rightarrow> bool" where
  "number_text_ok s = (s \<noteq> [] \<and> (is_digit (hd s) \<or> hd s \<in> {CHR ''-'', CHR ''.''}))"

function (sequential) numbers_ok :: "yaml \<Rightarrow> bool" and numbers_ok_list :: "yaml list \<Rightarrow> bool" and numbers_ok_map :: "(yaml \<times> yaml) list \<Rightarrow> bool" where
  "numbers_ok (YNumber n) = number_text_ok (yn_text n)"
| "numbers_ok (YSequence seq) = numbers_ok_list seq"
| "numbers_ok (YMapping m) = numbers_ok_map m"
| "numbers_ok (YTagged _ v) = numbers_ok v"
| "numbers_ok _ = True"
| "numbers_ok_list [] = True"
| "numbers_ok_list (v # vs) = (numbers_ok v \<and> numbers_ok_list vs)"
| "numbers_ok_map [] = True"
| "numbers_ok_map ((k, v) # m) = (numbers_ok k \<and> numbers_ok v \<and> numbers_ok_map m)"
  by pat_completeness auto

termination
  by (relation "measure (case_sum size (case_sum (size_list size) (size_list (size_prod size size))))") auto

definition predicate_key :: "string \<Rightarrow> bool" where
  "predicate_key k = (k \<in> boolean_keys \<or> get_field_def k \<noteq> None)"

lemma predicate_key_letter: "predicate_key k \<Longrightarrow> k \<noteq> [] \<and> \<not> is_digit (hd k) \<and> hd k \<notin> {CHR ''-'', CHR ''.''} \<and>
    k \<noteq> ''true'' \<and> k \<noteq> ''false'' \<and> k \<noteq> ''null''"
proof -
  assume "predicate_key k"
  then have "k \<in> boolean_keys \<union> set (map fd_name PREDICATE_FIELDS)"
    using get_field_def_Some by (fastforce simp: predicate_key_def image_iff)
  then show ?thesis by (auto simp: registry_names boolean_keys_def is_digit_def)
qed

lemma key_is_string:
  assumes "numbers_ok k" "yaml_scalar_to_string k = s" "predicate_key s"
  shows "k = YString s"
  using assms predicate_key_letter [OF assms(3)] by (cases k) (auto simp: number_text_ok_def split: if_splits)

lemma yaml_get_present: "numbers_ok_map m \<Longrightarrow> s \<in> set (mapping_keys m) \<Longrightarrow> predicate_key s \<Longrightarrow> yaml_get m s \<noteq> None"
proof (induction m)
  case (Cons kv m)
  obtain k v where kv: "kv = (k, v)" by (rule prod.exhaust)
  show ?case
  proof (cases "yaml_scalar_to_string k = s")
    case True
    with Cons.prems have "k = YString s" by (intro key_is_string) (simp_all add: kv)
    then show ?thesis by (simp add: kv yaml_get_def)
  next
    case False
    with Cons have "yaml_get m s \<noteq> None" by (simp add: kv mapping_keys_def)
    then show ?thesis by (auto simp: kv yaml_get_def)
  qed
qed (simp add: mapping_keys_def)

lemma numbers_ok_get: "numbers_ok_map m \<Longrightarrow> yaml_get m s = Some v \<Longrightarrow> numbers_ok v"
proof (induction m)
  case (Cons kv m)
  then show ?case by (cases kv) (auto simp: yaml_get_def split: if_splits)
qed (simp add: yaml_get_def)

lemma field_no_panic: "compile_field_predicate d raw path \<noteq> Panics"
proof -
  have strs: "all_strings err items \<noteq> Panics" "all_strings err items = Done ss \<Longrightarrow> length ss = length items" for err items ss
    by (induction items arbitrary: ss) (auto simp: bind_outcome_Panics bind_outcome_Done split: option.splits)
  have "string_test n (is_sequence raw) opl ops ss \<noteq> Panics" if "all_strings err (raw_items raw) = Done ss" for n opl ops ss err
    using strs(2) [OF that] raw_items_single by (cases "is_sequence raw") (auto simp: string_test_def split: list.splits)
  with strs(1) show ?thesis
    by (auto simp: compile_field_predicate_def Let_def bind_outcome_Panics split: value_shape.splits option.splits)
qed


lemma wrap_no_panic [simp]: "wrap_items k path ps \<noteq> Panics" "wrap_not path c \<noteq> Panics" "finish_keys path ps \<noteq> Panics"
  by (auto simp: wrap_items_def wrap_not_def finish_keys_def split: list.splits)

lemma compile_no_panic:
  "numbers_ok raw \<Longrightarrow> compile_predicate raw path \<noteq> Panics"
  "numbers_ok_list items \<Longrightarrow> compile_items items i prefix \<noteq> Panics"
  "numbers_ok_map obj \<Longrightarrow> set ks \<subseteq> set (mapping_keys obj) \<Longrightarrow> compile_keys obj ks path' \<noteq> Panics"
proof (induction raw path and items i prefix and obj ks path' rule: compile_predicate_compile_items_compile_keys.induct)
  case (1 raw path)
  show ?case
  proof (cases raw)
    case (YMapping obj)
    let ?keys = "mapping_keys obj" let ?k = "hd ?keys"
    have obj: "numbers_ok_map obj" using "1.prems" YMapping by simp
    show ?thesis
    proof (cases "single_boolean ?keys")
      case wrapper: True
      then have k: "?k \<in> set ?keys" "predicate_key ?k" by (auto simp: single_boolean_def predicate_key_def split: list.splits)
      then obtain v where v: "yaml_get obj ?k = Some v" using yaml_get_present [OF obj] by blast
      have ok: "numbers_ok v" by (rule numbers_ok_get [OF obj v])
      show ?thesis
      proof (cases "?k = ''not''")
        case True
        have "compile_predicate (YMapping (e # es)) (path @ ''.not'') \<noteq> Panics" if "v = YMapping (e # es)" for e es
          using "1.IH"(1) [OF YMapping refl wrapper refl True v that refl] ok that by simp
        with v wrapper True show ?thesis
          unfolding YMapping by (subst compile_predicate.simps) (auto simp: Let_def bind_outcome_Panics split: yaml.split list.split)
      next
        case False
        have "compile_items seq 0 (path @ ''.'' @ ?k) \<noteq> Panics" if "v = YSequence seq" "seq \<noteq> []" for seq
          using "1.IH"(2) [OF YMapping refl wrapper refl False v that] ok that by simp
        with v wrapper False show ?thesis
          unfolding YMapping by (subst compile_predicate.simps) (auto simp: Let_def bind_outcome_Panics split: yaml.split)
      qed
    next
      case False
      with "1.IH"(3) [OF YMapping refl False obj] show ?thesis
        unfolding YMapping by (subst compile_predicate.simps) (simp add: Let_def bind_outcome_Panics)
    qed
  qed (simp add: compile_predicate.simps [of _ path])+
next
  case (3 item items i prefix)
  then show ?case by (auto simp: bind_outcome_Panics)
next
  case (5 obj k ks path)
  have get: "predicate_key k \<Longrightarrow> \<exists>v. yaml_get obj k = Some v"
    using yaml_get_present [OF "5.prems"(1)] "5.prems"(2) by auto
  show ?case
  proof (cases "k \<in> boolean_keys")
    case True
    then obtain v where v: "yaml_get obj k = Some v" using get by (auto simp: predicate_key_def)
    then have "numbers_ok v" by (rule numbers_ok_get [OF "5.prems"(1)])
    with "5.IH"(1) [OF True v] "5.IH"(2) [OF True v] "5.prems" True v show ?thesis
      by (auto simp: bind_outcome_Panics)
  next
    case False
    with get "5.IH"(3) [OF False] "5.prems" field_no_panic show ?thesis
      by (auto simp: bind_outcome_Panics predicate_key_def split: option.splits) blast?
  qed
qed simp_all

text \<open>
  Property C30. Compiling never panics: for every parsed node whose numbers print as numbers, the
  result is a predicate or an error message, the keys the compiler looks up again are present, and
  the recursion ends although re-wrapping a boolean key does not shrink the node.
\<close>

theorem compile_never_panics:
  assumes "numbers_ok raw"
  shows "(\<exists>p. compile_predicate raw path = Done p) \<or> (\<exists>e. compile_predicate raw path = Rejected e)"
  using compile_no_panic(1) [OF assms] by (cases "compile_predicate raw path") simp_all

theorem compile_never_panics_witness:
  "(\<exists>p. compile_predicate (YMapping [(YNumber \<lparr> yn_text = ''1'', yn_value = Some 1 \<rparr>, YNull)]) [] = Done p) \<or>
   (\<exists>e. compile_predicate (YMapping [(YNumber \<lparr> yn_text = ''1'', yn_value = Some 1 \<rparr>, YNull)]) [] = Rejected e)"
  by (rule compile_never_panics) (simp add: number_text_ok_def is_digit_def)

text \<open>
  A field without enumerated values takes any scalar: a number for \<open>root.kinds\<close> is accepted and
  compared by its printed text, although the payload comment says it was rejected before.
\<close>

lemma root_kinds_accepts_numbers:
  "compile_predicate (YMapping [(YString ''root.kinds'', YNumber \<lparr> yn_text = ''5'', yn_value = Some 5 \<rparr>)]) [] =
     Done (FieldTest ''root.kinds'' OpIn (StrList [''5'']))"
  by (simp add: compile_eval)

end
