(* ===== verification/Policy_Loader.thy ===== *)
theory Policy_Loader
  imports Policy_Compile
begin

text \<open>
  The policy document (\<open>src/src/engine/gate/policy/policy_types.rs\<close>) and its loader
  (\<open>src/src/engine/gate/policy/policy_loader.rs\<close>) from a parsed YAML value on; reading the file and
  parsing YAML text are outside. The loader reports every error it meets, at most one per rule
  beyond the unknown field names, and gives a document only when there is none.
\<close>

record rule =
  ru_id :: string
  ru_title :: "string option"
  ru_description :: "string option"
  ru_message :: "string option"
  ru_severity :: string
  ru_when :: predicate
  ru_except :: "predicate option"
  ru_require_coverage :: "string option"
  ru_on_unknown :: "string option"
  ru_facts :: "string option"
  ru_requires :: "predicate option"

record policy_defaults =
  pf_on_unknown :: "string option"
  pf_require_coverage :: "string option"

record policy_doc =
  po_version :: int
  po_description :: "string option"
  po_defaults :: "policy_defaults option"
  po_rules :: "rule list"

definition has_pins :: "policy_doc \<Rightarrow> bool" where
  "has_pins p = list_ex (\<lambda>r. ru_requires r \<noteq> None) (po_rules p)"

definition ALLOWED_SEVERITIES :: "string list" where
  "ALLOWED_SEVERITIES = [''critical'', ''high'', ''medium'', ''low'', ''info'']"

definition ALLOWED_UNKNOWN :: "string list" where
  "ALLOWED_UNKNOWN = [''fail-open'', ''fail-closed'']"

definition ALLOWED_COVERAGE :: "string list" where
  "ALLOWED_COVERAGE = [''complete'', ''partial'', ''any'']"

definition ALLOWED_FACTS :: "string list" where
  "ALLOWED_FACTS = [''direct'', ''inherited'', ''any'']"

definition POLICY_FORMAT_VERSION :: int where
  "POLICY_FORMAT_VERSION = 2"

definition ALLOWED_TOP_FIELDS :: "string list" where
  "ALLOWED_TOP_FIELDS = [''version'', ''description'', ''defaults'', ''rules'']"

definition ALLOWED_RULE_FIELDS :: "string list" where
  "ALLOWED_RULE_FIELDS = [''id'', ''title'', ''description'', ''message'', ''severity'', ''when'', ''except'',
     ''requireCoverage'', ''onUnknown'', ''facts'', ''requires'']"

section \<open>Helpers\<close>

definition is_lower :: "char \<Rightarrow> bool" where
  "is_lower c = (97 \<le> (of_char c :: nat) \<and> (of_char c :: nat) \<le> 122)"

definition rule_id_valid :: "string \<Rightarrow> bool" where
  "rule_id_valid i = (case i of
      [] \<Rightarrow> False
    | c # rest \<Rightarrow> is_lower c \<and> 2 \<le> length rest \<and> length rest \<le> 80 \<and>
        list_all (\<lambda>b. is_lower b \<or> is_digit b \<or> b = CHR ''-'') rest)"

definition scopes_of :: "predicate \<Rightarrow> field_scope list" where
  "scopes_of p = collect_scopes [p]"

definition string_keys :: "(yaml \<times> yaml) list \<Rightarrow> string list" where
  "string_keys m = List.map_filter (\<lambda>(k, _). str_of k) m"

definition get_str :: "(yaml \<times> yaml) list \<Rightarrow> string \<Rightarrow> string option" where
  "get_str m key = (case yaml_get m key of None \<Rightarrow> None | Some v \<Rightarrow> str_of v)"

fun version_display :: "yaml option \<Rightarrow> string" where
  "version_display None = ''undefined''"
| "version_display (Some v) = (case v of
      YSequence _ \<Rightarrow> ''[object Object]''
    | YMapping _ \<Rightarrow> ''[object Object]''
    | _ \<Rightarrow> yaml_value_display v)"

definition quoted :: "string \<Rightarrow> string" where
  "quoted s = [CHR 0x27] @ s @ [CHR 0x27]"

text \<open>The scopes of a pin: \<open>when\<close> names a write, \<open>requires\<close> rule keys only.\<close>

definition check_pin_shape ::
  "string \<Rightarrow> int option \<Rightarrow> predicate \<Rightarrow> predicate option \<Rightarrow> predicate option \<Rightarrow> (yaml \<times> yaml) list \<Rightarrow> string option" where
  "check_pin_shape path version when except requires raw =
     (let when_s = scopes_of when; except_s = (case except of None \<Rightarrow> [] | Some e \<Rightarrow> scopes_of e);
          pin_fields = list_ex (\<lambda>x. x \<in> {WriteScope, RuleScope}) in
      case requires of
        None \<Rightarrow>
          (if pin_fields when_s \<or> pin_fields except_s then Some (path @ '': write.* and rule.* fields are for a pin (a rule with requires)'')
           else None)
      | Some requires \<Rightarrow>
          (if \<not> pred_option (\<lambda>v. 2 \<le> v) version \<or> version = None then Some (path @ ''.requires: needs policy version 2'')
           else if \<not> list_all (\<lambda>s. s = RuleScope) (scopes_of requires) then Some (path @ ''.requires: only rule.* fields'')
           else if WriteScope \<notin> set when_s then Some (path @ ''.when: a pin names a write.* field'')
           else if list_ex (\<lambda>s. s \<in> {FactScope, RuleScope}) when_s then Some (path @ ''.when: a pin reads routine and write.* fields only'')
           else if list_ex (\<lambda>s. s \<in> {FactScope, RuleScope}) except_s then Some (path @ ''.except: a pin reads routine and write.* fields only'')
           else map_option (\<lambda>key. path @ ''.'' @ key @ '': does not apply to a pin'')
             (List.find (\<lambda>key. yaml_get raw key \<noteq> None) [''facts'', ''requireCoverage''])))"

section \<open>One rule\<close>

text \<open>An optional predicate, and an optional value of an enumeration.\<close>

definition optional_predicate :: "(yaml \<times> yaml) list \<Rightarrow> string \<Rightarrow> string \<Rightarrow> predicate option answer" where
  "optional_predicate r key path = (case yaml_get r key of
      None \<Rightarrow> Done None
    | Some v \<Rightarrow> bind_outcome (compile_predicate v (path @ ''.'' @ key)) (\<lambda>p. Done (Some p)))"

definition optional_choice :: "(yaml \<times> yaml) list \<Rightarrow> string \<Rightarrow> string list \<Rightarrow> string \<Rightarrow> string option answer" where
  "optional_choice r key allowed path = (case yaml_get r key of
      None \<Rightarrow> Done None
    | Some v \<Rightarrow> (case str_of v of
        Some s \<Rightarrow> if s \<in> set allowed then Done (Some s) else Rejected (path @ ''.'' @ key @ '': invalid value'')
      | None \<Rightarrow> Rejected (path @ ''.'' @ key @ '': invalid value'')))"

definition load_severity :: "(yaml \<times> yaml) list \<Rightarrow> string \<Rightarrow> string answer" where
  "load_severity r path = (case get_str r ''severity'' of
      Some s \<Rightarrow> if s \<in> set ALLOWED_SEVERITIES then Done s
        else Rejected (path @ ''.severity: must be one of '' @ join_with '', '' ALLOWED_SEVERITIES)
    | None \<Rightarrow> Rejected (path @ ''.severity: must be one of '' @ join_with '', '' ALLOWED_SEVERITIES))"

definition load_when :: "(yaml \<times> yaml) list \<Rightarrow> string \<Rightarrow> predicate answer" where
  "load_when r path = (case yaml_get r ''when'' of
      None \<Rightarrow> Rejected (path @ ''.when: required'')
    | Some v \<Rightarrow> compile_predicate v (path @ ''.when''))"

text \<open>The checks after the id, in order; the first failure ends the rule.\<close>

definition load_rule_body :: "int option \<Rightarrow> string \<Rightarrow> (yaml \<times> yaml) list \<Rightarrow> string \<Rightarrow> rule answer" where
  "load_rule_body version path r i =
     bind_outcome (load_severity r path) (\<lambda>severity.
     bind_outcome (load_when r path) (\<lambda>when.
     bind_outcome (optional_predicate r ''except'' path) (\<lambda>except.
     bind_outcome (optional_choice r ''requireCoverage'' ALLOWED_COVERAGE path) (\<lambda>require_coverage.
     bind_outcome (optional_choice r ''onUnknown'' ALLOWED_UNKNOWN path) (\<lambda>on_unknown.
     bind_outcome (optional_choice r ''facts'' ALLOWED_FACTS path) (\<lambda>facts.
     bind_outcome (optional_predicate r ''requires'' path) (\<lambda>requires.
     case check_pin_shape path version when except requires r of
       Some e \<Rightarrow> Rejected e
     | None \<Rightarrow> Done \<lparr> ru_id = i, ru_title = get_str r ''title'', ru_description = get_str r ''description'',
         ru_message = get_str r ''message'', ru_severity = severity, ru_when = when, ru_except = except,
         ru_require_coverage = require_coverage, ru_on_unknown = on_unknown, ru_facts = facts, ru_requires = requires \<rparr>)))))))"

record load_state =
  ls_errors :: "string list"
  ls_seen :: "string list"
  ls_rules :: "rule list"

definition push_error :: "string \<Rightarrow> load_state \<Rightarrow> load_state" where
  "push_error e st = st\<lparr> ls_errors := ls_errors st @ [e] \<rparr>"

definition unknown_fields :: "string list \<Rightarrow> (string \<Rightarrow> string) \<Rightarrow> (yaml \<times> yaml) list \<Rightarrow> string list" where
  "unknown_fields allowed msg m = map msg (filter (\<lambda>k. k \<notin> set allowed) (string_keys m))"

definition load_rule :: "int option \<Rightarrow> nat \<Rightarrow> yaml \<Rightarrow> load_state \<Rightarrow> load_state option" where
  "load_rule version n raw st =
     (let path = ''rules['' @ dec_string n @ '']'' in
      case raw of
        YMapping r \<Rightarrow>
          (let st = st\<lparr> ls_errors := ls_errors st @ unknown_fields ALLOWED_RULE_FIELDS (\<lambda>k. path @ ''.'' @ k @ '': unknown rule field'') r \<rparr>;
               i = unwrap_or [] (get_str r ''id'') in
           if \<not> rule_id_valid i then
             Some (push_error (path @ ''.id: must match ^[a-z][a-z0-9-]{2,80}$ (got '' @ quoted i @ '')'') st)
           else if i \<in> set (ls_seen st) then Some (push_error (path @ '': duplicate rule id '' @ quoted i) st)
           else
             (let st = st\<lparr> ls_seen := ls_seen st @ [i] \<rparr> in
              case load_rule_body version path r i of
                Done rl \<Rightarrow> Some (st\<lparr> ls_rules := ls_rules st @ [rl] \<rparr>)
              | Rejected e \<Rightarrow> Some (push_error e st)
              | Panics \<Rightarrow> None))
      | _ \<Rightarrow> Some (push_error (path @ '': must be a map'') st))"

fun load_rules :: "int option \<Rightarrow> nat \<Rightarrow> yaml list \<Rightarrow> load_state \<Rightarrow> load_state option" where
  "load_rules version n [] st = Some st"
| "load_rules version n (raw # raws) st = (case load_rule version n raw st of
      None \<Rightarrow> None
    | Some st \<Rightarrow> load_rules version (Suc n) raws st)"

section \<open>The document\<close>

definition load_version :: "(yaml \<times> yaml) list \<Rightarrow> int option" where
  "load_version doc = (case yaml_get doc ''version'' of
      Some (YNumber n) \<Rightarrow> List.find (\<lambda>v. yn_value n = Some (of_int v)) [1..POLICY_FORMAT_VERSION]
    | _ \<Rightarrow> None)"

definition default_choice :: "(yaml \<times> yaml) list \<Rightarrow> string \<Rightarrow> string list \<Rightarrow> string option \<times> string list" where
  "default_choice d key allowed = (case yaml_get d key of
      None \<Rightarrow> (None, [])
    | Some v \<Rightarrow> (case str_of v of
        Some s \<Rightarrow> if s \<in> set allowed then (Some s, []) else (None, [''defaults.'' @ key @ '': must be one of '' @ join_with '', '' allowed])
      | None \<Rightarrow> (None, [''defaults.'' @ key @ '': must be one of '' @ join_with '', '' allowed])))"

definition load_defaults :: "(yaml \<times> yaml) list \<Rightarrow> policy_defaults \<times> string list" where
  "load_defaults doc = (case yaml_get doc ''defaults'' of
      None \<Rightarrow> (\<lparr> pf_on_unknown = None, pf_require_coverage = None \<rparr>, [])
    | Some (YMapping d) \<Rightarrow>
        (let (ou, e1) = default_choice d ''onUnknown'' ALLOWED_UNKNOWN; (rc, e2) = default_choice d ''requireCoverage'' ALLOWED_COVERAGE
         in (\<lparr> pf_on_unknown = ou, pf_require_coverage = rc \<rparr>, e1 @ e2))
    | Some _ \<Rightarrow> (\<lparr> pf_on_unknown = None, pf_require_coverage = None \<rparr>, [''defaults must be a map'']))"

datatype load_result = Loaded policy_doc | LoadErrors "string list" | LoadPanics

definition load_policy :: "yaml \<Rightarrow> load_result" where
  "load_policy raw = (case raw of
      YMapping doc \<Rightarrow>
        (let version = load_version doc; (defaults, def_errors) = load_defaults doc;
             errors = unknown_fields ALLOWED_TOP_FIELDS (\<lambda>k. ''unknown top-level field '' @ quoted k) doc @
               (if version = None then [''policy version must be 1 or 2 (got '' @ version_display (yaml_get doc ''version'') @ '')''] else []) @
               def_errors in
         case yaml_get doc ''rules'' of
           Some (YSequence seq) \<Rightarrow>
             (case load_rules version 0 seq \<lparr> ls_errors = errors, ls_seen = [], ls_rules = [] \<rparr> of
                None \<Rightarrow> LoadPanics
              | Some st \<Rightarrow>
                  (if ls_errors st \<noteq> [] then LoadErrors (ls_errors st)
                   else (case version of
                       None \<Rightarrow> LoadPanics
                     | Some v \<Rightarrow> Loaded \<lparr> po_version = v, po_description = get_str doc ''description'',
                         po_defaults = (if pf_on_unknown defaults \<noteq> None \<or> pf_require_coverage defaults \<noteq> None then Some defaults else None),
                         po_rules = ls_rules st \<rparr>)))
         | _ \<Rightarrow> LoadErrors (errors @ [''rules must be an array'']))
    | _ \<Rightarrow> LoadErrors [''policy root must be a map''])"


section \<open>What a loaded document guarantees\<close>

definition pin_shape :: "int \<Rightarrow> rule \<Rightarrow> bool" where
  "pin_shape version r =
     (let when_s = set (scopes_of (ru_when r)); except_s = (case ru_except r of None \<Rightarrow> {} | Some e \<Rightarrow> set (scopes_of e)) in
      case ru_requires r of
        None \<Rightarrow> (when_s \<union> except_s) \<inter> {WriteScope, RuleScope} = {}
      | Some q \<Rightarrow> 2 \<le> version \<and> set (scopes_of q) \<subseteq> {RuleScope} \<and> WriteScope \<in> when_s \<and>
          (when_s \<union> except_s) \<inter> {FactScope, RuleScope} = {} \<and> ru_facts r = None \<and> ru_require_coverage r = None)"

definition rule_valid :: "int \<Rightarrow> rule \<Rightarrow> bool" where
  "rule_valid version r =
     (rule_id_valid (ru_id r) \<and> ru_severity r \<in> set ALLOWED_SEVERITIES \<and>
      well_typed (ru_when r) \<and> pred_option well_typed (ru_except r) \<and> pred_option well_typed (ru_requires r) \<and>
      pred_option (\<lambda>c. c \<in> set ALLOWED_COVERAGE) (ru_require_coverage r) \<and>
      pred_option (\<lambda>c. c \<in> set ALLOWED_UNKNOWN) (ru_on_unknown r) \<and>
      pred_option (\<lambda>c. c \<in> set ALLOWED_FACTS) (ru_facts r) \<and> pin_shape version r)"

lemma check_pin_shape_None:
  assumes "check_pin_shape path (Some version) (ru_when r) (ru_except r) (ru_requires r) raw = None"
    "yaml_get raw ''facts'' = None \<Longrightarrow> ru_facts r = None"
    "yaml_get raw ''requireCoverage'' = None \<Longrightarrow> ru_require_coverage r = None"
  shows "pin_shape version r"
proof (cases "ru_requires r")
  case None
  with assms(1) show ?thesis
    by (auto simp: check_pin_shape_def pin_shape_def Let_def list_ex_iff split: if_splits option.splits)
next
  case (Some q)
  from assms(1) Some have c: "2 \<le> version" "list_all (\<lambda>s. s = RuleScope) (scopes_of q)" "WriteScope \<in> set (scopes_of (ru_when r))"
    "\<not> list_ex (\<lambda>s. s \<in> {FactScope, RuleScope}) (scopes_of (ru_when r))"
    "\<not> list_ex (\<lambda>s. s \<in> {FactScope, RuleScope}) (case ru_except r of None \<Rightarrow> [] | Some e \<Rightarrow> scopes_of e)"
    "yaml_get raw ''facts'' = None" "yaml_get raw ''requireCoverage'' = None"
    by (simp_all add: check_pin_shape_def Let_def split: if_splits)
  then show ?thesis using assms(2,3) Some
    by (cases "ru_except r") (auto simp: pin_shape_def Let_def list_ex_iff list_all_iff)
qed

lemma optional_predicate_typed: "optional_predicate r key path = Done p \<Longrightarrow> pred_option well_typed p"
  by (auto simp: optional_predicate_def bind_outcome_Done dest!: compile_typed(1) split: option.splits)

lemma optional_choice_allowed:
  "optional_choice r key allowed path = Done c \<Longrightarrow> pred_option (\<lambda>c. c \<in> set allowed) c \<and> (yaml_get r key = None \<longrightarrow> c = None)"
  by (cases "yaml_get r key"; cases "str_of (the (yaml_get r key))") (auto simp: optional_choice_def dest!: sym [of "Some _"] split: if_splits)

lemma load_rule_body_valid:
  assumes "load_rule_body (Some version) path r i = Done rl" "rule_id_valid i"
  shows "rule_valid version rl \<and> ru_id rl = i"
proof -
  obtain severity cond except rc ou facts requires where
    parts: "load_severity r path = Done severity" "load_when r path = Done cond"
      "optional_predicate r ''except'' path = Done except" "optional_choice r ''requireCoverage'' ALLOWED_COVERAGE path = Done rc"
      "optional_choice r ''onUnknown'' ALLOWED_UNKNOWN path = Done ou" "optional_choice r ''facts'' ALLOWED_FACTS path = Done facts"
      "optional_predicate r ''requires'' path = Done requires"
    and pin: "check_pin_shape path (Some version) cond except requires r = None"
    and rl: "rl = \<lparr> ru_id = i, ru_title = get_str r ''title'', ru_description = get_str r ''description'',
         ru_message = get_str r ''message'', ru_severity = severity, ru_when = cond, ru_except = except,
         ru_require_coverage = rc, ru_on_unknown = ou, ru_facts = facts, ru_requires = requires \<rparr>"
    using assms(1) unfolding load_rule_body_def bind_outcome_Done by (auto split: option.splits)
  note c = parts(4-6) [THEN optional_choice_allowed]
  have "pin_shape version rl"
    by (rule check_pin_shape_None [of path _ _ r]) (use pin c in \<open>simp_all add: rl\<close>)
  moreover have "severity \<in> set ALLOWED_SEVERITIES" using parts(1) by (auto simp: load_severity_def split: option.splits if_splits)
  moreover have "well_typed cond" using parts(2) compile_typed(1) by (auto simp: load_when_def split: option.splits)
  ultimately show ?thesis using assms(2) c parts(3,7) [THEN optional_predicate_typed] by (simp add: rule_valid_def rl)
qed

lemma load_rule_clean:
  assumes "load_rule (Some version) n raw st = Some st'" "ls_errors st' = []"
  obtains rl where "ls_errors st = []" "ls_rules st' = ls_rules st @ [rl]" "ls_seen st' = ls_seen st @ [ru_id rl]"
    "ru_id rl \<notin> set (ls_seen st)" "rule_valid version rl"
proof -
  from assms obtain r i rl path where "ls_errors st = []" "rule_id_valid i" "i \<notin> set (ls_seen st)"
    "load_rule_body (Some version) path r i = Done rl" "ls_rules st' = ls_rules st @ [rl]" "ls_seen st' = ls_seen st @ [i]"
    unfolding load_rule_def Let_def
    by (auto simp: push_error_def split: yaml.splits if_splits answer.splits)
  with load_rule_body_valid show thesis by (intro that [of rl]) auto
qed

lemma load_rule_errors:
  "load_rule v n raw s = Some s' \<Longrightarrow> ls_errors s' = [] \<Longrightarrow> ls_errors s = []"
  unfolding load_rule_def Let_def by (auto simp: push_error_def split: yaml.splits if_splits answer.splits)

lemma load_rules_errors:
  "load_rules v n raws s = Some s' \<Longrightarrow> ls_errors s' = [] \<Longrightarrow> ls_errors s = []"
  by (induction raws arbitrary: n s) (auto split: option.splits dest: load_rule_errors)

lemma load_rules_clean:
  assumes "load_rules (Some version) n raws st = Some st'" "ls_errors st' = []"
    "list_all (rule_valid version) (ls_rules st)" "distinct (ls_seen st)" "map ru_id (ls_rules st) = ls_seen st"
  shows "ls_errors st = [] \<and> list_all (rule_valid version) (ls_rules st') \<and> distinct (map ru_id (ls_rules st')) \<and>
    length (ls_rules st') = length (ls_rules st) + length raws"
  using assms
proof (induction raws arbitrary: n st)
  case (Cons raw raws)
  obtain st1 where st1: "load_rule (Some version) n raw st = Some st1" "load_rules (Some version) (Suc n) raws st1 = Some st'"
    using Cons.prems(1) by (auto split: option.splits)
  note rest = Cons.IH [OF st1(2) Cons.prems(2)]
  have clean: "ls_errors st1 = []" using load_rules_errors [OF st1(2) Cons.prems(2)] .
  obtain rl where "ls_errors st = []" "ls_rules st1 = ls_rules st @ [rl]" "ls_seen st1 = ls_seen st @ [ru_id rl]"
    "ru_id rl \<notin> set (ls_seen st)" "rule_valid version rl" by (rule load_rule_clean [OF st1(1) clean])
  with rest Cons.prems(3-5) show ?case by simp
qed simp

lemma load_policy_rules:
  assumes "load_policy raw = Loaded p"
  shows "po_version p \<in> {1, 2} \<and> list_all (rule_valid (po_version p)) (po_rules p) \<and> distinct (map ru_id (po_rules p)) \<and>
    (\<exists>doc seq. raw = YMapping doc \<and> yaml_get doc ''rules'' = Some (YSequence seq) \<and> length (po_rules p) = length seq)"
proof -
  obtain doc where raw: "raw = YMapping doc"
    using assms by (auto simp: load_policy_def split: yaml.splits)
  obtain defaults def_errors where d: "load_defaults doc = (defaults, def_errors)" by (rule prod.exhaust)
  from assms obtain seq st errors version where l: "yaml_get doc ''rules'' = Some (YSequence seq)" "load_version doc = Some version"
    "load_rules (Some version) 0 seq \<lparr> ls_errors = errors, ls_seen = [], ls_rules = [] \<rparr> = Some st" "ls_errors st = []"
    "po_version p = version" "po_rules p = ls_rules st"
    by (auto simp: load_policy_def raw d Let_def split: option.splits yaml.splits if_splits)
  have "version \<in> {1, 2}"
    using l(2) by (auto simp: load_version_def POLICY_FORMAT_VERSION_def upto_rec1 split: option.splits yaml.splits if_splits)
  with load_rules_clean [OF l(3,4)] raw l(1,5,6) show ?thesis by auto
qed

text \<open>The settings of the \<open>defaults\<close> section that is loaded: those of the file, each an allowed one.\<close>

definition defaults_valid :: "(yaml \<times> yaml) list \<Rightarrow> policy_defaults option \<Rightarrow> bool" where
  "defaults_valid doc df \<longleftrightarrow>
     (let d = (case yaml_get doc ''defaults'' of Some (YMapping d) \<Rightarrow> d | _ \<Rightarrow> []);
          ou = Option.bind df pf_on_unknown; rc = Option.bind df pf_require_coverage
      in pred_option (\<lambda>v. \<exists>m. v = YMapping m) (yaml_get doc ''defaults'') \<and>
         ou = Option.bind (yaml_get d ''onUnknown'') str_of \<and> rc = Option.bind (yaml_get d ''requireCoverage'') str_of \<and>
         (yaml_get d ''onUnknown'' \<noteq> None \<longrightarrow> (\<exists>c \<in> set ALLOWED_UNKNOWN. ou = Some c)) \<and>
         (yaml_get d ''requireCoverage'' \<noteq> None \<longrightarrow> (\<exists>c \<in> set ALLOWED_COVERAGE. rc = Some c)))"

lemma default_choice_clean:
  "snd (default_choice d key allowed) = [] \<Longrightarrow>
     fst (default_choice d key allowed) = Option.bind (yaml_get d key) str_of \<and>
     (yaml_get d key \<noteq> None \<longrightarrow> (\<exists>c \<in> set allowed. fst (default_choice d key allowed) = Some c))"
  by (auto simp: default_choice_def split: option.splits if_splits)

lemma load_defaults_clean:
  assumes "load_defaults doc = (df, [])"
  shows "defaults_valid doc (if pf_on_unknown df \<noteq> None \<or> pf_require_coverage df \<noteq> None then Some df else None)"
proof (cases "yaml_get doc ''defaults''")
  case None
  with assms show ?thesis by (auto simp: load_defaults_def defaults_valid_def Let_def yaml_get_def)
next
  case (Some v)
  with assms obtain d where d: "v = YMapping d" by (cases v) (auto simp: load_defaults_def)
  obtain ou e1 where ou: "default_choice d ''onUnknown'' ALLOWED_UNKNOWN = (ou, e1)" by fastforce
  obtain rc e2 where rc: "default_choice d ''requireCoverage'' ALLOWED_COVERAGE = (rc, e2)" by fastforce
  have df: "df = \<lparr> pf_on_unknown = ou, pf_require_coverage = rc \<rparr>" "e1 = []" "e2 = []"
    using assms Some d ou rc by (auto simp: load_defaults_def Let_def)
  from default_choice_clean [of d "''onUnknown''" ALLOWED_UNKNOWN] default_choice_clean [of d "''requireCoverage''" ALLOWED_COVERAGE]
  show ?thesis using Some d ou rc df by (auto simp: defaults_valid_def Let_def)
qed

lemma load_policy_defaults:
  assumes "load_policy raw = Loaded p"
  shows "\<exists>doc. raw = YMapping doc \<and> defaults_valid doc (po_defaults p)"
proof -
  obtain doc where raw: "raw = YMapping doc"
    using assms by (auto simp: load_policy_def split: yaml.splits)
  obtain defaults def_errors where d: "load_defaults doc = (defaults, def_errors)" by (rule prod.exhaust)
  from assms obtain seq st where st: "load_rules (load_version doc) 0 seq \<lparr> ls_errors =
      unknown_fields ALLOWED_TOP_FIELDS (\<lambda>k. ''unknown top-level field '' @ quoted k) doc @
        (if load_version doc = None then [''policy version must be 1 or 2 (got '' @ version_display (yaml_get doc ''version'') @ '')''] else []) @
        def_errors, ls_seen = [], ls_rules = [] \<rparr> = Some st" "ls_errors st = []"
    "po_defaults p = (if pf_on_unknown defaults \<noteq> None \<or> pf_require_coverage defaults \<noteq> None then Some defaults else None)"
    by (auto simp: load_policy_def raw d Let_def split: option.splits yaml.splits if_splits)
  from load_rules_errors [OF st(1,2)] have "def_errors = []" by simp
  with load_defaults_clean [of doc defaults] d st(3) raw show ?thesis by simp
qed

text \<open>
  Property C31. A document is loaded only when every rule of the file is in it and valid: distinct
  well-formed ids, allowed severities and settings, well-typed predicates, and the scopes and
  settings of a pin, which needs version 2; and when its \<open>defaults\<close>, if there are any, are a map whose
  two settings are allowed ones. The loaded defaults are those of the file. Otherwise the errors are reported.
\<close>

theorem loaded_policy_valid:
  assumes "load_policy raw = Loaded p"
  shows "po_version p \<in> {1, 2} \<and> list_all (rule_valid (po_version p)) (po_rules p) \<and> distinct (map ru_id (po_rules p)) \<and>
    (\<exists>doc seq. raw = YMapping doc \<and> yaml_get doc ''rules'' = Some (YSequence seq) \<and> length (po_rules p) = length seq \<and>
       defaults_valid doc (po_defaults p))"
  using load_policy_rules [OF assms] load_policy_defaults [OF assms] by auto

definition sample_policy_yaml :: yaml where
  "sample_policy_yaml = YMapping [(YString ''version'', YNumber \<lparr> yn_text = ''1'', yn_value = Some 1 \<rparr>),
     (YString ''rules'', YSequence [YMapping [(YString ''id'', YString ''no-writes''), (YString ''severity'', YString ''high''),
       (YString ''when'', sample_yaml)]])]"

definition sample_rule :: rule where
  "sample_rule = \<lparr> ru_id = ''no-writes'', ru_title = None, ru_description = None, ru_message = None, ru_severity = ''high'',
     ru_when = sample_predicate, ru_except = None, ru_require_coverage = None, ru_on_unknown = None, ru_facts = None, ru_requires = None \<rparr>"

definition sample_policy :: policy_doc where
  "sample_policy = \<lparr> po_version = 1, po_description = None, po_defaults = None, po_rules = [sample_rule] \<rparr>"

lemma sample_policy_loads: "load_policy sample_policy_yaml = Loaded sample_policy"
proof -
  have id: "rule_id_valid ''no-writes''" by code_simp
  have s: "scopes_of sample_predicate = [FactScope]"
    by (simp add: scopes_of_def sample_predicate_def collect_scopes_def get_field_def_def PREDICATE_FIELDS_def field_def push_new_def)
  show ?thesis
    by (simp add: load_policy_def sample_policy_yaml_def load_version_def yaml_get_def POLICY_FORMAT_VERSION_def upto_rec1
      load_defaults_def unknown_fields_def string_keys_def map_filter_def ALLOWED_TOP_FIELDS_def load_rule_def Let_def
      ALLOWED_RULE_FIELDS_def get_str_def id load_rule_body_def load_severity_def ALLOWED_SEVERITIES_def load_when_def sample_compiles
      optional_predicate_def optional_choice_def check_pin_shape_def s sample_policy_def sample_rule_def)
qed

theorem loaded_policy_valid_witness:
  "po_version sample_policy \<in> {1, 2} \<and> list_all (rule_valid (po_version sample_policy)) (po_rules sample_policy) \<and>
   distinct (map ru_id (po_rules sample_policy)) \<and>
   (\<exists>doc seq. sample_policy_yaml = YMapping doc \<and> yaml_get doc ''rules'' = Some (YSequence seq) \<and>
      length (po_rules sample_policy) = length seq \<and> defaults_valid doc (po_defaults sample_policy))"
  by (rule loaded_policy_valid [OF sample_policy_loads])

end
