(* ===== verification/Interner.thy ===== *)
theory Interner
  imports Effect_Lattice "HOL-Library.Product_Lexorder" "HOL-Library.List_Lexorder" "HOL-Library.Char_ord"
begin

text \<open>
  Interning: the contract every id table of the solver gives its clients, the routine interner
  (\<open>src/src/engine/l4/routine_interner.rs\<close>) and the effect universe
  (\<open>src/src/engine/l4/effect_universe.rs\<close>). Both are proved to meet the contract.
\<close>

section \<open>The contract\<close>

text \<open>
  \<open>get\<close> reads the id of a key, \<open>name\<close> the key of an id. While the table has room (its ids are
  32-bit) interning a key gives it an id, keeps every other id, and an id names one key.
\<close>

locale interner =
  fixes intern :: "'k \<Rightarrow> 's \<Rightarrow> u32 \<times> 's" and get :: "'s \<Rightarrow> 'k \<Rightarrow> u32 option"
    and name :: "'s \<Rightarrow> u32 \<Rightarrow> 'k option" and ok :: "'s \<Rightarrow> bool" and count :: "'s \<Rightarrow> nat"
  assumes ok_intern: "ok s \<Longrightarrow> count s < 2 ^ 32 \<Longrightarrow> ok (snd (intern k s))"
    and count_intern: "ok s \<Longrightarrow> count (snd (intern k s)) = (if get s k = None then Suc (count s) else count s)"
    and get_intern: "ok s \<Longrightarrow> get (snd (intern k s)) k = Some (fst (intern k s))"
    and get_kept: "ok s \<Longrightarrow> get s k' = Some i \<Longrightarrow> get (snd (intern k s)) k' = Some i"
    and get_only: "ok s \<Longrightarrow> get (snd (intern k s)) k' = Some i \<Longrightarrow> k' \<noteq> k \<Longrightarrow> get s k' = Some i"
    and name_get: "ok s \<Longrightarrow> get s k = Some i \<Longrightarrow> name s i = Some k"
    and id_bound: "ok s \<Longrightarrow> get s k = Some i \<Longrightarrow> unat i < count s"
begin

lemma ids_injective: "ok s \<Longrightarrow> get s k = Some i \<Longrightarrow> get s k' = Some i \<Longrightarrow> k = k'"
  using name_get [of s k i] name_get [of s k' i] by simp

lemma intern_stable:
  assumes "ok s" "get s k = Some i"
  shows "fst (intern k s) = i" "count (snd (intern k s)) = count s"
  using get_intern [OF assms(1), of k] get_kept [OF assms] count_intern [OF assms(1), of k] assms(2) by simp_all

text \<open>Interning a whole list of keys, as the builders do.\<close>

lemma intern_all:
  assumes "ok s" "count s + length ks \<le> 2 ^ 32"
  shows "ok (fold (\<lambda>k s. snd (intern k s)) ks s)"
    "count (fold (\<lambda>k s. snd (intern k s)) ks s) \<le> count s + length ks"
    "k' \<in> set ks \<or> get s k' \<noteq> None \<Longrightarrow> get (fold (\<lambda>k s. snd (intern k s)) ks s) k' \<noteq> None"
    "get s k' = Some i \<Longrightarrow> get (fold (\<lambda>k s. snd (intern k s)) ks s) k' = Some i"
    "get (fold (\<lambda>k s. snd (intern k s)) ks s) k' \<noteq> None \<Longrightarrow> k' \<in> set ks \<or> get s k' \<noteq> None"
proof -
  have "ok (fold (\<lambda>k s. snd (intern k s)) ks s) \<and>
      count (fold (\<lambda>k s. snd (intern k s)) ks s) \<le> count s + length ks \<and>
      (k' \<in> set ks \<or> get s k' \<noteq> None \<longrightarrow> get (fold (\<lambda>k s. snd (intern k s)) ks s) k' \<noteq> None) \<and>
      (\<forall>i. get s k' = Some i \<longrightarrow> get (fold (\<lambda>k s. snd (intern k s)) ks s) k' = Some i) \<and>
      (get (fold (\<lambda>k s. snd (intern k s)) ks s) k' \<noteq> None \<longrightarrow> k' \<in> set ks \<or> get s k' \<noteq> None)" for k'
    using assms
  proof (induction ks arbitrary: s)
    case (Cons k ks)
    let ?s = "snd (intern k s)"
    from Cons.prems have room: "count s < 2 ^ 32" by simp
    have c: "count ?s \<le> Suc (count s)" using count_intern [OF Cons.prems(1), of k] by simp
    have "count ?s + length ks \<le> 2 ^ 32" using c Cons.prems(2) by simp
    note IH = Cons.IH [OF ok_intern [OF Cons.prems(1) room, of k] this]
    have new: "get ?s k \<noteq> None" using get_intern [OF Cons.prems(1), of k] by simp
    have old: "get ?s x = Some i" if "get s x = Some i" for x i using get_kept [OF Cons.prems(1) that] .
    have only: "get s x \<noteq> None" if "get ?s x \<noteq> None" "x \<noteq> k" for x
      using get_only [OF Cons.prems(1) _ that(2)] that(1) by auto
    show ?case using IH c new old only by (cases "k' = k") auto
  qed simp
  then show "ok (fold (\<lambda>k s. snd (intern k s)) ks s)"
    "count (fold (\<lambda>k s. snd (intern k s)) ks s) \<le> count s + length ks"
    "k' \<in> set ks \<or> get s k' \<noteq> None \<Longrightarrow> get (fold (\<lambda>k s. snd (intern k s)) ks s) k' \<noteq> None"
    "get s k' = Some i \<Longrightarrow> get (fold (\<lambda>k s. snd (intern k s)) ks s) k' = Some i"
    "get (fold (\<lambda>k s. snd (intern k s)) ks s) k' \<noteq> None \<Longrightarrow> k' \<in> set ks \<or> get s k' \<noteq> None"
    by blast+
qed

end

section \<open>The routine interner\<close>

record routine_interner =
  ri_by_id :: "string list"
  ri_by_routine_id :: "string \<rightharpoonup> u32"

definition new_routine_interner :: routine_interner where
  "new_routine_interner = \<lparr> ri_by_id = [], ri_by_routine_id = Map.empty \<rparr>"

definition ri_intern :: "string \<Rightarrow> routine_interner \<Rightarrow> u32 \<times> routine_interner" where
  "ri_intern rid s =
     (case ri_by_routine_id s rid of
        Some ix \<Rightarrow> (ix, s)
      | None \<Rightarrow>
          (let ix = of_nat (length (ri_by_id s))
           in (ix, s \<lparr> ri_by_id := ri_by_id s @ [rid], ri_by_routine_id := (ri_by_routine_id s)(rid \<mapsto> ix) \<rparr>)))"

definition ri_get :: "routine_interner \<Rightarrow> string \<Rightarrow> u32 option" where
  "ri_get s rid = ri_by_routine_id s rid"

text \<open>Indexing past the end panics: \<open>None\<close>.\<close>

definition ri_name :: "routine_interner \<Rightarrow> u32 \<Rightarrow> string option" where
  "ri_name s ix = (if unat ix < length (ri_by_id s) then Some (ri_by_id s ! unat ix) else None)"

definition ri_len :: "routine_interner \<Rightarrow> nat" where
  "ri_len s = length (ri_by_id s)"

definition build_canonical :: "(string \<times> string) list \<Rightarrow> routine_interner" where
  "build_canonical entries =
     fold (\<lambda>(rid, stable) s. snd (ri_intern rid s)) (sort_key (\<lambda>(rid, stable). (stable, rid)) entries)
       new_routine_interner"

text \<open>The table invariant: the map is the inverse of the list.\<close>

definition table_ok :: "'k list \<Rightarrow> ('k \<rightharpoonup> u32) \<Rightarrow> bool" where
  "table_ok ks m = (distinct ks \<and> length ks \<le> 2 ^ 32 \<and> (\<forall>k i. m k = Some i \<longleftrightarrow> unat i < length ks \<and> ks ! unat i = k))"

lemma table_ok_None: "table_ok ks m \<Longrightarrow> m k = None \<longleftrightarrow> k \<notin> set ks"
proof
  assume ok: "table_ok ks m"
  { assume "m k = None" "k \<in> set ks"
    then obtain j where j: "j < length ks" "ks ! j = k" by (auto simp: in_set_conv_nth)
    have "unat (of_nat j :: u32) = j" by (rule of_nat_inverse [OF refl]) (use ok j in \<open>simp add: table_ok_def\<close>)
    with j ok have "m k = Some (of_nat j)" by (simp add: table_ok_def)
    with \<open>m k = None\<close> have False by simp }
  then show "m k = None \<Longrightarrow> k \<notin> set ks" by blast
  show "k \<notin> set ks \<Longrightarrow> m k = None"
    using ok by (cases "m k") (auto simp: table_ok_def)
qed

lemma table_ok_extend:
  assumes "table_ok ks m" "m k = None" "length ks < 2 ^ 32"
  shows "table_ok (ks @ [k]) (m(k \<mapsto> of_nat (length ks)))"
proof -
  have u: "unat (of_nat (length ks) :: u32) = length ks" by (rule of_nat_inverse [OF refl]) (use assms(3) in simp)
  have k: "k \<notin> set ks" using assms(2) table_ok_None [OF assms(1)] by simp
  have "(m(k \<mapsto> of_nat (length ks))) x = Some i \<longleftrightarrow> unat i < length (ks @ [k]) \<and> (ks @ [k]) ! unat i = x" for x i
  proof (cases "x = k")
    case True
    have "(ks @ [k]) ! unat i = k \<longleftrightarrow> unat i = length ks" if "unat i < Suc (length ks)"
      using that k by (auto simp: nth_append less_Suc_eq)
    moreover have "of_nat (length ks) = i \<longleftrightarrow> unat i = length ks" using u by (metis word_unat_eq_iff)
    ultimately show ?thesis using True by auto
  next
    case False
    then show ?thesis using assms(1) by (auto simp: table_ok_def nth_append)
  qed
  then show ?thesis using assms(1,3) k unfolding table_ok_def by (intro conjI allI) auto
qed

definition ri_ok :: "routine_interner \<Rightarrow> bool" where
  "ri_ok s = table_ok (ri_by_id s) (ri_by_routine_id s)"

interpretation routine_ids: interner ri_intern ri_get ri_name ri_ok ri_len
proof unfold_locales
  fix s k k' i
  assume ok: "ri_ok s"
  show "ri_len s < 2 ^ 32 \<Longrightarrow> ri_ok (snd (ri_intern k s))"
    using ok table_ok_extend by (auto simp: ri_ok_def ri_intern_def ri_len_def Let_def split: option.split)
  show "ri_len (snd (ri_intern k s)) = (if ri_get s k = None then Suc (ri_len s) else ri_len s)"
    by (auto simp: ri_intern_def ri_get_def ri_len_def Let_def split: option.split)
  show "ri_get (snd (ri_intern k s)) k = Some (fst (ri_intern k s))"
    by (auto simp: ri_intern_def ri_get_def Let_def split: option.split)
  show "ri_get s k' = Some i \<Longrightarrow> ri_get (snd (ri_intern k s)) k' = Some i"
    by (auto simp: ri_intern_def ri_get_def Let_def split: option.split)
  show "ri_get (snd (ri_intern k s)) k' = Some i \<Longrightarrow> k' \<noteq> k \<Longrightarrow> ri_get s k' = Some i"
    by (auto simp: ri_intern_def ri_get_def Let_def split: option.splits)
  show "ri_get s k = Some i \<Longrightarrow> ri_name s i = Some k" "ri_get s k = Some i \<Longrightarrow> unat i < ri_len s"
    using ok by (auto simp: ri_ok_def ri_get_def ri_name_def ri_len_def table_ok_def)
qed

lemma build_canonical_fold:
  "build_canonical entries = fold (\<lambda>k s. snd (ri_intern k s))
     (map fst (sort_key (\<lambda>(rid, stable). (stable, rid)) entries)) new_routine_interner"
  by (simp add: build_canonical_def fold_map comp_def split_beta')

lemma new_ri_ok: "ri_ok new_routine_interner" "ri_len new_routine_interner = 0"
  by (simp_all add: ri_ok_def new_routine_interner_def table_ok_def ri_len_def)

lemma intern_list_order:
  "distinct (ri_by_id s @ ks) \<Longrightarrow> ri_ok s \<Longrightarrow> length (ri_by_id s @ ks) \<le> 2 ^ 32 \<Longrightarrow>
     ri_by_id (fold (\<lambda>k s. snd (ri_intern k s)) ks s) = ri_by_id s @ ks"
proof (induction ks arbitrary: s)
  case (Cons k ks)
  have "ri_by_routine_id s k = None"
    using Cons.prems table_ok_None [of "ri_by_id s" "ri_by_routine_id s" k] by (auto simp: ri_ok_def)
  then have 1: "ri_by_id (snd (ri_intern k s)) = ri_by_id s @ [k]" by (simp add: ri_intern_def Let_def)
  moreover have "ri_ok (snd (ri_intern k s))"
    by (rule routine_ids.ok_intern [OF Cons.prems(2)]) (use Cons.prems(3) in \<open>simp add: ri_len_def\<close>)
  ultimately show ?case using Cons by simp
qed simp

lemma filter_eq_replicate: "filter (\<lambda>y. y = x) zs = replicate (count (mset zs) x) x"
  by (induction zs) auto

lemma sort_key_mset:
  assumes "inj f" "mset xs = mset ys"
  shows "sort_key f xs = sort_key f ys"
proof (rule properties_for_sort_key)
  have "(\<lambda>y. f x = f y) = (\<lambda>y. y = x)" for x using assms(1) by (auto simp: fun_eq_iff inj_eq)
  then show "filter (\<lambda>y. f x = f y) (sort_key f ys) = filter (\<lambda>y. f x = f y) xs" if "x \<in> set (sort_key f ys)" for x
    using assms(2) by (simp add: filter_eq_replicate)
qed (use assms(2) in simp_all)

lemma map_sort_key: "map f (sort_key f xs) = sort (map f xs)"
  by (rule properties_for_sort [symmetric]) simp_all

text \<open>
  The canonical build depends only on which routines there are: entries in another
  order give the same interner; and with distinct routine ids the ids ascend with
  \<open>(stable id, routine id)\<close>.
\<close>

theorem build_canonical_deterministic:
  assumes "mset entries = mset entries'" "distinct (map fst entries)" "length entries \<le> 2 ^ 32"
  shows "build_canonical entries = build_canonical entries' \<and>
    ri_by_id (build_canonical entries) = map snd (sort (map (\<lambda>(rid, stable). (stable, rid)) entries))"
proof
  let ?f = "\<lambda>(rid, stable). (stable :: string, rid :: string)"
  have "inj ?f" by (auto simp: inj_def)
  from sort_key_mset [OF this assms(1)] show "build_canonical entries = build_canonical entries'"
    by (simp add: build_canonical_def)
  have "mset (map fst (sort_key ?f entries)) = mset (map fst entries)" by simp
  then have "distinct (map fst (sort_key ?f entries))" using assms(2) by (metis mset_eq_imp_distinct_iff)
  then have "ri_by_id (build_canonical entries) = map fst (sort_key ?f entries)"
    unfolding build_canonical_fold
    by (subst intern_list_order) (use assms(3) new_ri_ok in \<open>simp_all add: new_routine_interner_def\<close>)
  also have "\<dots> = map snd (map ?f (sort_key ?f entries))" by (simp add: split_beta')
  finally show "ri_by_id (build_canonical entries) = map snd (sort (map ?f entries))"
    by (simp only: map_sort_key)
qed

theorem build_canonical_deterministic_witness:
  "build_canonical [(''app/2'', ''B''), (''app/1'', ''C''), (''app/3'', ''A'')] =
     build_canonical [(''app/3'', ''A''), (''app/2'', ''B''), (''app/1'', ''C'')] \<and>
   ri_by_id (build_canonical [(''app/2'', ''B''), (''app/1'', ''C''), (''app/3'', ''A'')]) =
     [''app/3'', ''app/2'', ''app/1'']"
  using build_canonical_deterministic [of "[(''app/2'', ''B''), (''app/1'', ''C''), (''app/3'', ''A'')]"
    "[(''app/3'', ''A''), (''app/2'', ''B''), (''app/1'', ''C'')]"]
  by (auto simp: less_char_def)

end
