(* ===== verification/Inherited_Facts.thy ===== *)
theory Inherited_Facts
  imports Capability_Facts Interner List_Facts
begin

text \<open>
  The builder of the inherited facts (\<open>InheritedBuilder\<close> and \<open>InheritedFacts\<close> of
  \<open>src/src/engine/l4/inherited_facts.rs\<close>, \<open>emit_picks\<close> of \<open>src/src/engine/l4/capability_cone.rs\<close>):
  the interning of subjects, representatives and first hops, the emission of a subject's facts, the
  adoption of a subject of an earlier composition, and what a reader gets. An index that does not
  fit 32 bits stops the program: \<open>None\<close>.
\<close>

section \<open>The stored facts\<close>

record subject_refs =
  sr_seg :: u32
  sr_refs :: "inherited_ref list"

record inherited_facts =
  if_tables :: "inherited_tables shared"
  if_adopted :: "inherited_tables shared list"
  if_by_subject :: "string \<rightharpoonup> subject_refs"

definition facts_seg :: "inherited_facts \<Rightarrow> u32 \<Rightarrow> inherited_tables shared" where
  "facts_seg f seg = (if seg = 0 then if_tables f else if_adopted f ! (unat seg - 1))"

definition facts_get :: "inherited_facts \<Rightarrow> string \<Rightarrow> (inherited_ref list \<times> inherited_tables) option" where
  "facts_get f i = map_option (\<lambda>s. (sr_refs s, content (facts_seg f (sr_seg s)))) (if_by_subject f i)"

definition slice_materialize :: "inherited_ref list \<times> inherited_tables \<Rightarrow> capability_fact list" where
  "slice_materialize sl = map (\<lambda>r. materialize (view_ref (snd sl) r)) (fst sl)"

section \<open>The builder\<close>

record inherited_builder =
  ib_tables :: inherited_tables
  ib_subject_ix :: "string \<rightharpoonup> u32"
  ib_rep_ix :: "nat \<rightharpoonup> u32"
  ib_hop_ix :: "first_hop \<rightharpoonup> u32"
  ib_edge_memo :: "u32 \<times> nat \<rightharpoonup> u32"
  ib_adopted :: "inherited_tables shared list"
  ib_by_subject :: "string \<rightharpoonup> subject_refs"

definition empty_inherited :: inherited_builder where
  "empty_inherited = \<lparr> ib_tables = \<lparr> it_subjects = [], it_reps = [], it_hops = [] \<rparr>, ib_subject_ix = Map.empty,
     ib_rep_ix = Map.empty, ib_hop_ix = Map.empty, ib_edge_memo = Map.empty, ib_adopted = [], ib_by_subject = Map.empty \<rparr>"

fun position :: "('a \<Rightarrow> bool) \<Rightarrow> 'a list \<Rightarrow> nat option" where
  "position P [] = None"
| "position P (x # xs) = (if P x then Some 0 else map_option Suc (position P xs))"

text \<open>\<open>u32::try_from(n).expect(..)\<close>.\<close>

definition to_u32 :: "nat \<Rightarrow> u32 option" where
  "to_u32 n = (if n < 2 ^ 32 then Some (of_nat n) else None)"

definition adopt :: "inherited_facts \<Rightarrow> string \<Rightarrow> inherited_builder \<Rightarrow> (bool \<times> inherited_builder) option" where
  "adopt old i b = (case if_by_subject old i of
      None \<Rightarrow> Some (False, b)
    | Some s \<Rightarrow>
      (let tables = facts_seg old (sr_seg s);
           (seg, adopted) = (case position (\<lambda>t. address t = address tables) (ib_adopted b) of
               Some k \<Rightarrow> (k + 1, ib_adopted b)
             | None \<Rightarrow> (length (ib_adopted b @ [tables]), ib_adopted b @ [tables]))
       in case to_u32 seg of
            None \<Rightarrow> None
          | Some seg32 \<Rightarrow> Some (True, b\<lparr> ib_adopted := adopted,
              ib_by_subject := (ib_by_subject b)(i \<mapsto> \<lparr> sr_seg = seg32, sr_refs = sr_refs s \<rparr>) \<rparr>)))"

definition ib_subject :: "string \<Rightarrow> inherited_builder \<Rightarrow> (u32 \<times> inherited_builder) option" where
  "ib_subject i b = (case ib_subject_ix b i of
      Some ix \<Rightarrow> Some (ix, b)
    | None \<Rightarrow>
      (case table_ix (length (it_subjects (ib_tables b))) of
         None \<Rightarrow> None
       | Some ix \<Rightarrow> Some (ix, b\<lparr> ib_tables := (ib_tables b)\<lparr> it_subjects := it_subjects (ib_tables b) @ [i] \<rparr>,
           ib_subject_ix := (ib_subject_ix b)(i \<mapsto> ix) \<rparr>)))"

definition ib_rep :: "capability_fact shared \<Rightarrow> inherited_builder \<Rightarrow> (u32 \<times> inherited_builder) option" where
  "ib_rep rep b = (case ib_rep_ix b (address rep) of
      Some ix \<Rightarrow> Some (ix, b)
    | None \<Rightarrow>
      (case table_ix (length (it_reps (ib_tables b))) of
         None \<Rightarrow> None
       | Some ix \<Rightarrow> Some (ix, b\<lparr> ib_tables := (ib_tables b)\<lparr> it_reps := it_reps (ib_tables b) @ [rep] \<rparr>,
           ib_rep_ix := (ib_rep_ix b)(address rep \<mapsto> ix) \<rparr>)))"

definition hop_key :: "u32 \<Rightarrow> typed_out_edge \<Rightarrow> first_hop" where
  "hop_key subject e = \<lparr> fh_subject = subject, fh_via = capability_via_for_edge_kind (te_kind e),
     fh_callsite = te_callsite e, fh_operation_id = te_operation_id e, fh_event_id = te_event_id e \<rparr>"

definition ib_hop :: "u32 \<Rightarrow> typed_out_edge shared \<Rightarrow> inherited_builder \<Rightarrow> (u32 \<times> inherited_builder) option" where
  "ib_hop subject edge b = (case ib_edge_memo b (subject, address edge) of
      Some ix \<Rightarrow> Some (ix, b)
    | None \<Rightarrow>
      (let key = hop_key subject (content edge);
           found = (case ib_hop_ix b key of
               Some ix \<Rightarrow> Some (ix, b)
             | None \<Rightarrow>
               (case table_ix (length (it_hops (ib_tables b))) of
                  None \<Rightarrow> None
                | Some ix \<Rightarrow> Some (ix, b\<lparr> ib_tables := (ib_tables b)\<lparr> it_hops := it_hops (ib_tables b) @ [key] \<rparr>,
                    ib_hop_ix := (ib_hop_ix b)(key \<mapsto> ix) \<rparr>)))
       in case found of
            None \<Rightarrow> None
          | Some (ix, b') \<Rightarrow> Some (ix, b'\<lparr> ib_edge_memo := (ib_edge_memo b')((subject, address edge) \<mapsto> ix) \<rparr>)))"

definition ib_fact :: "u32 \<Rightarrow> capability_fact shared \<times> typed_out_edge shared \<Rightarrow> inherited_builder \<Rightarrow> (inherited_ref \<times> inherited_builder) option" where
  "ib_fact subject p b = (case ib_rep (fst p) b of
      None \<Rightarrow> None
    | Some (r, b) \<Rightarrow> (case ib_hop subject (snd p) b of
        None \<Rightarrow> None
      | Some (h, b) \<Rightarrow> Some (\<lparr> ir_rep = r, ir_hop = h \<rparr>, b)))"

fun ib_facts :: "u32 \<Rightarrow> (capability_fact shared \<times> typed_out_edge shared) list \<Rightarrow> inherited_builder \<Rightarrow> (inherited_ref list \<times> inherited_builder) option" where
  "ib_facts subject [] b = Some ([], b)"
| "ib_facts subject (p # ps) b = (case ib_fact subject p b of
      None \<Rightarrow> None
    | Some (r, b) \<Rightarrow> (case ib_facts subject ps b of None \<Rightarrow> None | Some (rs, b) \<Rightarrow> Some (r # rs, b)))"

definition sort_fields :: "inherited_tables \<Rightarrow> inherited_ref \<Rightarrow> string list" where
  "sort_fields t r = (let f = InheritedFact (view_ref t r) in
     [fr_op f, fr_resource_kind f, unwrap_or [] (fr_resource_id f), fr_confidence f, fr_via f,
      unwrap_or [] (fr_witness_callsite_id f), unwrap_or [] (fr_witness_operation_id f)])"

definition ib_sort :: "inherited_builder \<Rightarrow> inherited_ref list \<Rightarrow> inherited_ref list" where
  "ib_sort b refs = sort_by (\<lambda>x y. cmp_joined (sort_fields (ib_tables b) x) (sort_fields (ib_tables b) y)) refs"

definition emit_picks :: "string \<Rightarrow> (capability_fact shared \<times> typed_out_edge shared) list \<Rightarrow> bool \<Rightarrow> inherited_builder \<Rightarrow>
    (inherited_ref list \<times> inherited_builder) option" where
  "emit_picks subject picks wants_raw b =
     (if \<not> wants_raw then Some ([], b)
      else case ib_subject subject b of
        None \<Rightarrow> None
      | Some (ix, b) \<Rightarrow> (case ib_facts ix picks b of
          None \<Rightarrow> None
        | Some (refs, b) \<Rightarrow> Some (ib_sort b refs, b)))"

definition ib_insert :: "string \<Rightarrow> inherited_ref list \<Rightarrow> inherited_builder \<Rightarrow> inherited_builder" where
  "ib_insert i refs b = b\<lparr> ib_by_subject := (ib_by_subject b)(i \<mapsto> \<lparr> sr_seg = 0, sr_refs = refs \<rparr>) \<rparr>"

text \<open>\<open>Arc::new(tables)\<close> at the end: an allocation at a fresh address.\<close>

definition finish_facts :: "nat \<Rightarrow> inherited_builder \<Rightarrow> inherited_facts" where
  "finish_facts addr b = \<lparr> if_tables = \<lparr> address = addr, content = ib_tables b \<rparr>, if_adopted = ib_adopted b,
     if_by_subject = ib_by_subject b \<rparr>"


text \<open>
  One subject of \<open>emit_raw\<close>: the entry \<open>reuse\<close> hands is adopted when it has the subject, otherwise
  the picks of the subject's walk are emitted.
\<close>

definition emit_raw_step ::
  "string \<times> inherited_facts option \<times> (capability_fact shared \<times> typed_out_edge shared) list \<Rightarrow>
   inherited_builder \<Rightarrow> inherited_builder option" where
  "emit_raw_step m b = (case m of (i, reuse, picks) \<Rightarrow>
     (let emit = (\<lambda>b. map_option (\<lambda>(refs, b). ib_insert i refs b) (emit_picks i picks True b)) in
      case reuse of
        None \<Rightarrow> emit b
      | Some old \<Rightarrow> (case adopt old i b of
          None \<Rightarrow> None
        | Some (done, b) \<Rightarrow> if done then Some b else emit b)))"

fun emit_raw_steps ::
  "(string \<times> inherited_facts option \<times> (capability_fact shared \<times> typed_out_edge shared) list) list \<Rightarrow>
   inherited_builder \<Rightarrow> inherited_builder option" where
  "emit_raw_steps [] b = Some b"
| "emit_raw_steps (m # ms) b = (case emit_raw_step m b of None \<Rightarrow> None | Some b \<Rightarrow> emit_raw_steps ms b)"

definition emit_raw ::
  "nat \<Rightarrow> (string \<times> inherited_facts option \<times> (capability_fact shared \<times> typed_out_edge shared) list) list \<Rightarrow>
   inherited_facts option" where
  "emit_raw addr ms = map_option (finish_facts addr) (emit_raw_steps ms empty_inherited)"

section \<open>What the indexes stand for\<close>

text \<open>The fact an emission means: the callee fact as the subject inherits it through the edge.\<close>

definition retag :: "capability_fact \<Rightarrow> string \<Rightarrow> typed_out_edge \<Rightarrow> capability_fact" where
  "retag rep subject e = rep\<lparr> cf_subject := subject, cf_provenance := ''inherited'',
     cf_via := capability_via_for_edge_kind (te_kind e), cf_witness_callsite_id := te_callsite e,
     cf_witness_first_hop_operation_id := te_operation_id e, cf_witness_first_hop_event_id := te_event_id e \<rparr>"

definition fact_order_key :: "capability_fact \<Rightarrow> string" where
  "fact_order_key f = join_bar [cf_op f, cf_resource_kind f, unwrap_or [] (cf_resource_id f), cf_confidence f, cf_via f,
     unwrap_or [] (cf_witness_callsite_id f), unwrap_or [] (cf_witness_operation_id f)]"

text \<open>
  An address names one allocation as long as that is held: the content of the facts, edges and
  table sets by address.
\<close>

record heap =
  hp_facts :: "nat \<Rightarrow> capability_fact"
  hp_edges :: "nat \<Rightarrow> typed_out_edge"
  hp_tables :: "nat \<Rightarrow> inherited_tables"

definition in_heap :: "(nat \<Rightarrow> 'a) \<Rightarrow> 'a shared \<Rightarrow> bool" where
  "in_heap h a = (content a = h (address a))"

definition ref_ok :: "inherited_tables \<Rightarrow> inherited_ref \<Rightarrow> bool" where
  "ref_ok t r = (unat (ir_rep r) < length (it_reps t) \<and> unat (ir_hop r) < length (it_hops t))"

definition hops_ok :: "inherited_tables \<Rightarrow> bool" where
  "hops_ok t = (\<forall>h \<in> set (it_hops t). unat (fh_subject h) < length (it_subjects t))"

definition tables_le :: "inherited_tables \<Rightarrow> inherited_tables \<Rightarrow> bool" where
  "tables_le t t' = (prefix (it_subjects t) (it_subjects t') \<and> prefix (it_reps t) (it_reps t') \<and> prefix (it_hops t) (it_hops t'))"

lemma tables_le_refl [simp]: "tables_le t t"
  by (simp add: tables_le_def)

lemma tables_le_trans: "tables_le t t' \<Longrightarrow> tables_le t' t'' \<Longrightarrow> tables_le t t''"
  by (auto simp: tables_le_def intro: prefix_order.trans)

text \<open>Growing the tables changes nothing an earlier reference reads.\<close>

lemma view_grows:
  assumes "tables_le t t'" "hops_ok t" "ref_ok t r"
  shows "materialize (view_ref t' r) = materialize (view_ref t r)" "ref_ok t' r"
proof -
  have r: "unat (ir_rep r) < length (it_reps t)" "unat (ir_hop r) < length (it_hops t)"
    using assms(3) by (simp_all add: ref_ok_def)
  then have "unat (fh_subject (it_hops t ! unat (ir_hop r))) < length (it_subjects t)"
    using assms(2) by (simp add: hops_ok_def)
  then have "it_reps t' ! unat (ir_rep r) = it_reps t ! unat (ir_rep r)" "it_hops t' ! unat (ir_hop r) = it_hops t ! unat (ir_hop r)"
    "it_subjects t' ! unat (fh_subject (it_hops t ! unat (ir_hop r))) = it_subjects t ! unat (fh_subject (it_hops t ! unat (ir_hop r)))"
    using assms(1) r by (auto simp: tables_le_def intro: prefix_nth)
  then show "materialize (view_ref t' r) = materialize (view_ref t r)"
    by (simp add: materialize_def view_ref_def fv_subject_def)
  show "ref_ok t' r"
    using assms by (auto simp: ref_ok_def tables_le_def dest!: prefix_length_le)
qed

lemma sort_fields_order_key: "join_bar (sort_fields t r) = fact_order_key (materialize (view_ref t r))"
  by (simp add: sort_fields_def fact_order_key_def materialize_def Let_def)

lemma ib_sort_materialize:
  "map (\<lambda>r. materialize (view_ref (ib_tables b) r)) (ib_sort b refs) =
     sort_key fact_order_key (map (\<lambda>r. materialize (view_ref (ib_tables b) r)) refs)"
proof -
  have key: "cmp_joined (sort_fields (ib_tables b) x) (sort_fields (ib_tables b) y) =
      cmp (fact_order_key (materialize (view_ref (ib_tables b) x))) (fact_order_key (materialize (view_ref (ib_tables b) y)))" for x y
    unfolding sort_fields_order_key [symmetric]
    by (rule cmp_joined_nonempty) (simp_all add: sort_fields_def Let_def)
  show ?thesis unfolding ib_sort_def sort_by_sort_key [OF key] by (rule map_sort_key_comp)
qed

lemma set_sort_by_refs: "set (ib_sort b refs) = set refs"
proof -
  have "set (insert_by f x ys) = insert x (set ys)" for f :: "inherited_ref \<Rightarrow> inherited_ref \<Rightarrow> ordering" and x ys
    by (induction ys) auto
  then have "set (foldr (insert_by f) refs []) = set refs" for f :: "inherited_ref \<Rightarrow> inherited_ref \<Rightarrow> ordering"
    by (induction refs) simp_all
  then show ?thesis by (simp add: ib_sort_def sort_by_def)
qed


section \<open>The invariant of the builder\<close>

definition entries_ok :: "inherited_builder \<Rightarrow> bool" where
  "entries_ok b = (\<forall>i s. ib_by_subject b i = Some s \<longrightarrow>
     (if sr_seg s = 0 then \<forall>r \<in> set (sr_refs s). ref_ok (ib_tables b) r else unat (sr_seg s) \<le> length (ib_adopted b)))"

definition memo_ok :: "heap \<Rightarrow> inherited_builder \<Rightarrow> bool" where
  "memo_ok h b = (\<forall>s a ix. ib_edge_memo b (s, a) = Some ix \<longrightarrow>
     unat ix < length (it_hops (ib_tables b)) \<and> it_hops (ib_tables b) ! unat ix = hop_key s (hp_edges h a))"

definition interned_ok :: "heap \<Rightarrow> inherited_builder \<Rightarrow> bool" where
  "interned_ok h b = (table_ok (it_subjects (ib_tables b)) (ib_subject_ix b) \<and>
     table_ok (map address (it_reps (ib_tables b))) (ib_rep_ix b) \<and> table_ok (it_hops (ib_tables b)) (ib_hop_ix b) \<and>
     (\<forall>a \<in> set (it_reps (ib_tables b)). in_heap (hp_facts h) a) \<and> (\<forall>a \<in> set (ib_adopted b). in_heap (hp_tables h) a) \<and>
     hops_ok (ib_tables b) \<and> memo_ok h b \<and> entries_ok b)"

text \<open>What one operation may change: the tables and the adopted sets grow, the entries stay.\<close>

definition grows :: "inherited_builder \<Rightarrow> inherited_builder \<Rightarrow> bool" where
  "grows b b' = (tables_le (ib_tables b) (ib_tables b') \<and> ib_adopted b' = ib_adopted b \<and> ib_by_subject b' = ib_by_subject b)"

definition usage :: "inherited_builder \<Rightarrow> nat" where
  "usage b = length (it_subjects (ib_tables b)) + length (it_reps (ib_tables b)) + length (it_hops (ib_tables b)) + length (ib_adopted b)"

lemma grows_refl [simp]: "grows b b"
  by (simp add: grows_def)

lemma grows_trans: "grows b b' \<Longrightarrow> grows b' b'' \<Longrightarrow> grows b b''"
  by (auto simp: grows_def intro: tables_le_trans)

lemma grows_subject:
  "grows b b' \<Longrightarrow> i < length (it_subjects (ib_tables b)) \<Longrightarrow>
     i < length (it_subjects (ib_tables b')) \<and> it_subjects (ib_tables b') ! i = it_subjects (ib_tables b) ! i"
  unfolding grows_def tables_le_def by (blast intro: prefix_at [THEN conjunct1] prefix_at [THEN conjunct2])

lemma grows_rep:
  "grows b b' \<Longrightarrow> i < length (it_reps (ib_tables b)) \<Longrightarrow>
     i < length (it_reps (ib_tables b')) \<and> it_reps (ib_tables b') ! i = it_reps (ib_tables b) ! i"
  unfolding grows_def tables_le_def by (blast intro: prefix_at [THEN conjunct1] prefix_at [THEN conjunct2])

lemma entries_ok_grow:
  assumes "entries_ok b" "hops_ok (ib_tables b)" "grows b b'"
  shows "entries_ok b'"
  using assms view_grows(2) unfolding entries_ok_def grows_def by auto

lemma table_ix_Some: "table_ix n = Some ix \<Longrightarrow> ix = of_nat n \<and> n < 2 ^ 32 \<and> unat ix = n"
  by (auto simp: table_ix_def split: if_splits intro!: of_nat_inverse [OF refl])

lemma table_ix_at: "table_ix n = Some ix \<Longrightarrow> unat ix = n"
  by (simp add: table_ix_Some)

lemma table_ix_room: "n < 2 ^ 32 - 1 \<Longrightarrow> table_ix n \<noteq> None"
proof -
  assume n: "n < 2 ^ 32 - 1"
  then have "unat (of_nat n :: u32) = n" by (intro of_nat_inverse [OF refl]) simp
  moreover have "unat NO_HOP = 2 ^ 32 - 1" by (simp add: NO_HOP_def)
  ultimately have "of_nat n \<noteq> NO_HOP" using n by auto
  with n show ?thesis by (simp add: table_ix_def)
qed

lemma table_ok_get: "table_ok ks m \<Longrightarrow> m k = Some ix \<Longrightarrow> unat ix < length ks \<and> ks ! unat ix = k"
  by (simp add: table_ok_def)

lemma ib_subject_ok:
  assumes "interned_ok h b" "ib_subject i b = Some (ix, b')"
  shows "interned_ok h b' \<and> grows b b' \<and> unat ix < length (it_subjects (ib_tables b')) \<and>
    it_subjects (ib_tables b') ! unat ix = i \<and> usage b' \<le> Suc (usage b)"
proof (cases "ib_subject_ix b i")
  case (Some ix')
  then show ?thesis
    using assms table_ok_get by (fastforce simp: ib_subject_def interned_ok_def)
next
  case None
  let ?t = "ib_tables b"
  from assms None have t: "table_ok (it_subjects ?t) (ib_subject_ix b)" and ix: "table_ix (length (it_subjects ?t)) = Some ix"
    and b': "b' = b\<lparr> ib_tables := ?t\<lparr> it_subjects := it_subjects ?t @ [i] \<rparr>, ib_subject_ix := (ib_subject_ix b)(i \<mapsto> ix) \<rparr>"
    by (auto simp: ib_subject_def interned_ok_def split: option.splits)
  have g: "grows b b'" by (auto simp: grows_def tables_le_def b')
  have "table_ok (it_subjects (ib_tables b')) (ib_subject_ix b')"
    using table_ok_extend [OF t None] table_ix_Some [OF ix] by (simp add: b')
  moreover have "hops_ok (ib_tables b')" using assms(1) by (auto simp: interned_ok_def hops_ok_def b' less_Suc_eq)
  moreover have "entries_ok b'" using entries_ok_grow g assms(1) by (auto simp: interned_ok_def)
  ultimately have "interned_ok h b'" using assms(1) by (simp add: interned_ok_def b' memo_ok_def)
  with g table_ix_at [OF ix] show ?thesis by (simp add: b' usage_def)
qed

lemma ib_rep_ok:
  assumes "interned_ok h b" "ib_rep a b = Some (ix, b')" "in_heap (hp_facts h) a"
  shows "interned_ok h b' \<and> grows b b' \<and> unat ix < length (it_reps (ib_tables b')) \<and>
    content (it_reps (ib_tables b') ! unat ix) = content a \<and> usage b' \<le> Suc (usage b)"
proof (cases "ib_rep_ix b (address a)")
  case (Some ix')
  then have b': "b' = b" "ix = ix'" using assms(2) by (simp_all add: ib_rep_def)
  have ix: "unat ix < length (it_reps (ib_tables b))" "address (it_reps (ib_tables b) ! unat ix) = address a"
    using assms(1) Some table_ok_get b' by (fastforce simp: interned_ok_def)+
  then have "in_heap (hp_facts h) (it_reps (ib_tables b) ! unat ix)" using assms(1) by (simp add: interned_ok_def)
  with ix assms show ?thesis
    by (simp add: b' in_heap_def)
next
  case None
  let ?t = "ib_tables b"
  from assms None have t: "table_ok (map address (it_reps ?t)) (ib_rep_ix b)" and ix: "table_ix (length (it_reps ?t)) = Some ix"
    and b': "b' = b\<lparr> ib_tables := ?t\<lparr> it_reps := it_reps ?t @ [a] \<rparr>, ib_rep_ix := (ib_rep_ix b)(address a \<mapsto> ix) \<rparr>"
    by (auto simp: ib_rep_def interned_ok_def split: option.splits)
  have g: "grows b b'" by (auto simp: grows_def tables_le_def b')
  have "table_ok (map address (it_reps (ib_tables b'))) (ib_rep_ix b')"
    using table_ok_extend [OF t None] table_ix_Some [OF ix] by (simp add: b')
  moreover have "entries_ok b'" using entries_ok_grow g assms(1) by (auto simp: interned_ok_def)
  ultimately have "interned_ok h b'" using assms(1,3) by (auto simp: interned_ok_def b' memo_ok_def hops_ok_def)
  with g table_ix_at [OF ix] show ?thesis by (simp add: b' usage_def)
qed

text \<open>The content map of the hops, then the memo by edge address in front of it.\<close>

lemma ib_hop_ok:
  assumes "interned_ok h b" "ib_hop s e b = Some (ix, b')" "in_heap (hp_edges h) e"
    "unat s < length (it_subjects (ib_tables b))"
  shows "interned_ok h b' \<and> grows b b' \<and> unat ix < length (it_hops (ib_tables b')) \<and>
    it_hops (ib_tables b') ! unat ix = hop_key s (content e) \<and> usage b' \<le> Suc (usage b)"
proof (cases "ib_edge_memo b (s, address e)")
  case (Some ix')
  then have "b' = b" "ix = ix'" using assms(2) by (simp_all add: ib_hop_def)
  with Some assms(1,3) show ?thesis by (simp add: interned_ok_def memo_ok_def in_heap_def)
next
  case None
  let ?k = "hop_key s (content e)" and ?t = "ib_tables b"
  have memo: "memo_ok h (b\<lparr> ib_edge_memo := (ib_edge_memo b)((s, address e) \<mapsto> ix) \<rparr>)"
    if "memo_ok h b" "unat ix < length (it_hops (ib_tables b))" "it_hops (ib_tables b) ! unat ix = ?k" for b
    using that assms(3) by (simp add: memo_ok_def in_heap_def)
  have t: "table_ok (it_hops ?t) (ib_hop_ix b)" using assms(1) by (simp add: interned_ok_def)
  show ?thesis
  proof (cases "ib_hop_ix b ?k")
    case (Some ix')
    then have b': "b' = b\<lparr> ib_edge_memo := (ib_edge_memo b)((s, address e) \<mapsto> ix) \<rparr>" and ix: "ix = ix'"
      using assms(2) None by (auto simp: ib_hop_def Let_def)
    have at: "unat ix < length (it_hops ?t)" "it_hops ?t ! unat ix = ?k" using table_ok_get [OF t Some] ix by simp_all
    then have "memo_ok h b'" using memo assms(1) by (simp add: b' interned_ok_def)
    with at assms(1) show ?thesis by (simp add: b' interned_ok_def entries_ok_def grows_def usage_def)
  next
    case miss: None
    from assms None miss have ix: "table_ix (length (it_hops ?t)) = Some ix"
      and b': "b' = b\<lparr> ib_tables := ?t\<lparr> it_hops := it_hops ?t @ [?k] \<rparr>, ib_hop_ix := (ib_hop_ix b)(?k \<mapsto> ix),
        ib_edge_memo := (ib_edge_memo b)((s, address e) \<mapsto> ix) \<rparr>"
      by (auto simp: ib_hop_def Let_def split: option.splits)
    let ?b = "b\<lparr> ib_tables := ?t\<lparr> it_hops := it_hops ?t @ [?k] \<rparr>, ib_hop_ix := (ib_hop_ix b)(?k \<mapsto> ix) \<rparr>"
    note u = table_ix_at [OF ix]
    have g: "grows b b'" by (auto simp: grows_def tables_le_def b')
    have "memo_ok h ?b" using assms(1) by (auto simp: interned_ok_def memo_ok_def nth_append less_Suc_eq)
    then have "memo_ok h b'" using memo [of ?b] u by (simp add: b')
    moreover have "table_ok (it_hops (ib_tables b')) (ib_hop_ix b')"
      using table_ok_extend [OF t miss] table_ix_Some [OF ix] by (simp add: b')
    moreover have "hops_ok (ib_tables b')" using assms(1,4) by (auto simp: interned_ok_def hops_ok_def b' hop_key_def)
    moreover have "entries_ok b'" using entries_ok_grow g assms(1) by (auto simp: interned_ok_def)
    ultimately have "interned_ok h b'" using assms(1) by (simp add: interned_ok_def b')
    with g u show ?thesis by (simp add: b' usage_def)
  qed
qed

definition pick_in_heap :: "heap \<Rightarrow> capability_fact shared \<times> typed_out_edge shared \<Rightarrow> bool" where
  "pick_in_heap h p = (in_heap (hp_facts h) (fst p) \<and> in_heap (hp_edges h) (snd p))"

lemma ib_fact_ok:
  assumes "interned_ok h b" "ib_fact s p b = Some (r, b')" "pick_in_heap h p"
    "unat s < length (it_subjects (ib_tables b))"
  shows "interned_ok h b' \<and> grows b b' \<and> ref_ok (ib_tables b') r \<and>
    materialize (view_ref (ib_tables b') r) = retag (content (fst p)) (it_subjects (ib_tables b) ! unat s) (content (snd p)) \<and>
    usage b' \<le> 2 + usage b"
proof -
  obtain rx b1 hx where r: "ib_rep (fst p) b = Some (rx, b1)" "ib_hop s (snd p) b1 = Some (hx, b')"
    "r = \<lparr> ir_rep = rx, ir_hop = hx \<rparr>"
    using assms(2) by (auto simp: ib_fact_def split: option.splits prod.splits)
  have heap: "in_heap (hp_facts h) (fst p)" "in_heap (hp_edges h) (snd p)" using assms(3) by (simp_all add: pick_in_heap_def)
  note b1 = ib_rep_ok [OF assms(1) r(1) heap(1)]
  have s: "unat s < length (it_subjects (ib_tables b1))" "it_subjects (ib_tables b1) ! unat s = it_subjects (ib_tables b) ! unat s"
    using b1 assms(4) grows_subject by blast+
  have ok1: "interned_ok h b1" using b1 by simp
  note b2 = ib_hop_ok [OF ok1 r(2) heap(2) s(1)]
  have rep: "unat rx < length (it_reps (ib_tables b'))" "it_reps (ib_tables b') ! unat rx = it_reps (ib_tables b1) ! unat rx"
    "it_subjects (ib_tables b') ! unat s = it_subjects (ib_tables b1) ! unat s"
    using b1 b2 s(1) grows_rep grows_subject by blast+
  have "materialize (view_ref (ib_tables b') r) = retag (content (fst p)) (it_subjects (ib_tables b) ! unat s) (content (snd p))"
    using b1 b2 rep s by (simp add: r(3) materialize_def view_ref_def fv_subject_def retag_def hop_key_def)
  moreover have "ref_ok (ib_tables b') r" using rep(1) b2 by (simp add: r(3) ref_ok_def)
  moreover have "grows b b'" using b1 b2 grows_trans by blast
  ultimately show ?thesis using b1 b2 by simp
qed

lemma ib_facts_ok:
  assumes "interned_ok h b" "ib_facts s ps b = Some (rs, b')" "list_all (pick_in_heap h) ps"
    "unat s < length (it_subjects (ib_tables b))"
  shows "interned_ok h b' \<and> grows b b' \<and> (\<forall>r \<in> set rs. ref_ok (ib_tables b') r) \<and>
    map (\<lambda>r. materialize (view_ref (ib_tables b') r)) rs =
      map (\<lambda>p. retag (content (fst p)) (it_subjects (ib_tables b) ! unat s) (content (snd p))) ps \<and>
    usage b' \<le> 2 * length ps + usage b"
  using assms
proof (induction ps arbitrary: b rs)
  case (Cons p ps)
  obtain r b1 rs' where r: "ib_fact s p b = Some (r, b1)" "ib_facts s ps b1 = Some (rs', b')" "rs = r # rs'"
    using Cons.prems(2) by (auto split: option.splits prod.splits)
  have p: "pick_in_heap h p" "list_all (pick_in_heap h) ps" using Cons.prems(3) by simp_all
  note b1 = ib_fact_ok [OF Cons.prems(1) r(1) p(1) Cons.prems(4)]
  have s: "unat s < length (it_subjects (ib_tables b1))" "it_subjects (ib_tables b1) ! unat s = it_subjects (ib_tables b) ! unat s"
    using b1 Cons.prems(4) grows_subject by blast+
  note IH = Cons.IH [OF conjunct1 [OF b1] r(2) p(2) s(1)]
  have le: "tables_le (ib_tables b1) (ib_tables b')" using IH by (simp add: grows_def)
  have hops: "hops_ok (ib_tables b1)" "ref_ok (ib_tables b1) r" using b1 by (simp_all add: interned_ok_def)
  note v = view_grows [OF le hops]
  have "grows b b'" using b1 IH grows_trans by blast
  with IH b1 v s(2) show ?case by (simp add: r(3))
qed simp


section \<open>Progress and reading\<close>

definition room :: nat where
  "room = 2 ^ 32 - 1"

lemma ib_ops_run:
  assumes "usage b < room"
  shows "ib_subject i b \<noteq> None" "ib_rep a b \<noteq> None" "ib_hop s e b \<noteq> None"
proof -
  have "length (it_subjects (ib_tables b)) < 2 ^ 32 - 1" "length (it_reps (ib_tables b)) < 2 ^ 32 - 1"
    "length (it_hops (ib_tables b)) < 2 ^ 32 - 1" using assms by (simp_all add: usage_def room_def)
  note ix = this [THEN table_ix_room]
  show "ib_subject i b \<noteq> None" "ib_rep a b \<noteq> None" "ib_hop s e b \<noteq> None"
    using ix by (auto simp: ib_subject_def ib_rep_def ib_hop_def Let_def split: option.splits)
qed

lemma ib_facts_run:
  assumes "interned_ok h b" "list_all (pick_in_heap h) ps" "unat s < length (it_subjects (ib_tables b))"
    "2 * length ps + usage b \<le> room"
  shows "ib_facts s ps b \<noteq> None"
  using assms
proof (induction ps arbitrary: b)
  case (Cons p ps)
  have p: "pick_in_heap h p" "list_all (pick_in_heap h) ps" using Cons.prems(2) by simp_all
  have "usage b < room" using Cons.prems(4) by simp
  then obtain rx b1 where r: "ib_rep (fst p) b = Some (rx, b1)" using ib_ops_run(2) by fastforce
  note b1 = ib_rep_ok [OF Cons.prems(1) r] p(1) [unfolded pick_in_heap_def]
  then have "usage b1 < room" using Cons.prems(4) by simp
  then obtain hx b2 where hx: "ib_hop s (snd p) b1 = Some (hx, b2)" using ib_ops_run(3) by fastforce
  have f: "ib_fact s p b = Some (\<lparr> ir_rep = rx, ir_hop = hx \<rparr>, b2)" using r hx by (simp add: ib_fact_def)
  note b2 = ib_fact_ok [OF Cons.prems(1) f p(1) Cons.prems(3)]
  have "ib_facts s ps b2 \<noteq> None"
    using b2 Cons.prems(3,4) p(2) grows_subject by (intro Cons.IH) auto
  with f show ?case by (auto split: option.splits)
qed simp

definition ib_read :: "inherited_builder \<Rightarrow> string \<rightharpoonup> capability_fact list" where
  "ib_read b i = map_option (\<lambda>s. slice_materialize (sr_refs s,
     if sr_seg s = 0 then ib_tables b else content (ib_adopted b ! (unat (sr_seg s) - 1)))) (ib_by_subject b i)"

definition facts_read :: "inherited_facts \<Rightarrow> string \<rightharpoonup> capability_fact list" where
  "facts_read f i = map_option slice_materialize (facts_get f i)"

lemma facts_read_finish: "facts_read (finish_facts addr b) = ib_read b"
  by (auto simp: fun_eq_iff facts_read_def facts_get_def ib_read_def finish_facts_def facts_seg_def option.map_comp comp_def
    intro!: option.map_cong)

lemma ib_read_grows:
  assumes "interned_ok h b" "grows b b'"
  shows "ib_read b' = ib_read b"
proof
  fix i
  show "ib_read b' i = ib_read b i"
  proof (cases "ib_by_subject b i")
    case (Some s)
    have "sr_seg s = 0 \<Longrightarrow> r \<in> set (sr_refs s) \<Longrightarrow> ref_ok (ib_tables b) r" for r
      using assms(1) Some unfolding interned_ok_def entries_ok_def by metis
    moreover have "tables_le (ib_tables b) (ib_tables b')" "hops_ok (ib_tables b)"
      using assms by (simp_all add: grows_def interned_ok_def)
    ultimately have "sr_seg s = 0 \<Longrightarrow> slice_materialize (sr_refs s, ib_tables b') = slice_materialize (sr_refs s, ib_tables b)"
      using view_grows(1) by (simp add: slice_materialize_def)
    then show ?thesis using assms(2) Some by (simp add: ib_read_def grows_def)
  qed (use assms(2) in \<open>simp add: ib_read_def grows_def\<close>)
qed

text \<open>The emission of one subject, on the contents.\<close>

definition inherit :: "string \<Rightarrow> (capability_fact shared \<times> typed_out_edge shared) list \<Rightarrow> capability_fact list" where
  "inherit i ps = sort_key fact_order_key (map (\<lambda>p. retag (content (fst p)) i (content (snd p))) ps)"

lemma emit_ok:
  assumes "interned_ok h b" "list_all (pick_in_heap h) ps" "1 + 2 * length ps + usage b \<le> room"
  obtains refs b1 where "emit_picks i ps True b = Some (refs, b1)" "interned_ok h (ib_insert i refs b1)"
    "ib_read (ib_insert i refs b1) = (ib_read b)(i \<mapsto> inherit i ps)" "usage (ib_insert i refs b1) \<le> 1 + 2 * length ps + usage b"
proof -
  have "usage b < room" using assms(3) by simp
  then obtain ix b0 where s: "ib_subject i b = Some (ix, b0)" using ib_ops_run(1) by fastforce
  note b0 = ib_subject_ok [OF assms(1) s]
  have "ib_facts ix ps b0 \<noteq> None" using b0 assms by (intro ib_facts_run) auto
  then obtain rs b1 where f: "ib_facts ix ps b0 = Some (rs, b1)" by fastforce
  note b1 = ib_facts_ok [OF conjunct1 [OF b0] f assms(2) conjunct1 [OF conjunct2 [OF conjunct2 [OF b0]]]]
  let ?refs = "ib_sort b1 rs" and ?b = "ib_insert i (ib_sort b1 rs) b1"
  have e: "emit_picks i ps True b = Some (?refs, b1)" by (simp add: emit_picks_def s f)
  have "grows b b1" using b0 b1 grows_trans by blast
  then have "ib_read b1 = ib_read b" by (rule ib_read_grows [OF assms(1)])
  moreover have "slice_materialize (?refs, ib_tables b1) = inherit i ps"
    using b0 b1 by (simp add: slice_materialize_def ib_sort_materialize inherit_def)
  ultimately have read: "ib_read ?b = (ib_read b)(i \<mapsto> inherit i ps)"
    by (simp add: fun_eq_iff ib_read_def ib_insert_def cong: if_cong)
  have "entries_ok b1" "\<forall>r \<in> set ?refs. ref_ok (ib_tables b1) r" using b1 by (simp_all add: interned_ok_def set_sort_by_refs)
  then have "entries_ok ?b" by (simp add: entries_ok_def ib_insert_def)
  then have "interned_ok h ?b" using b1 by (simp add: interned_ok_def ib_insert_def memo_ok_def)
  then show thesis using b0 b1 by (intro that [OF e _ read]) (simp_all add: ib_insert_def usage_def)
qed

text \<open>The adoption of a subject from an earlier composition whose table sets are held.\<close>

definition facts_in_heap :: "heap \<Rightarrow> inherited_facts \<Rightarrow> bool" where
  "facts_in_heap h f = (in_heap (hp_tables h) (if_tables f) \<and> (\<forall>a \<in> set (if_adopted f). in_heap (hp_tables h) a) \<and>
     (\<forall>s \<in> ran (if_by_subject f). unat (sr_seg s) \<le> length (if_adopted f)))"

lemma position_Some: "position P xs = Some k \<Longrightarrow> k < length xs \<and> P (xs ! k)"
  by (induction xs arbitrary: k) (auto split: if_splits)

lemma adopt_none: "if_by_subject old i = None \<Longrightarrow> adopt old i b = Some (False, b)"
  by (simp add: adopt_def)

lemma adopt_ok:
  assumes "interned_ok h b" "facts_in_heap h old" "if_by_subject old i = Some s" "1 + usage b \<le> room"
  obtains b' where "adopt old i b = Some (True, b')" "interned_ok h b'"
    "ib_read b' = (ib_read b)(i \<mapsto> the (facts_read old i))" "usage b' \<le> 1 + usage b"
proof -
  let ?t = "facts_seg old (sr_seg s)"
  have "unat (sr_seg s) \<le> length (if_adopted old)" using assms(2,3) by (auto simp: facts_in_heap_def ran_def)
  then have "?t = if_tables old \<or> ?t \<in> set (if_adopted old)"
    by (auto simp: facts_seg_def unat_eq_zero intro!: nth_mem) (metis Suc_le_eq Suc_pred unat_gt_0)
  then have heap: "in_heap (hp_tables h) ?t" using assms(2) by (auto simp: facts_in_heap_def)
  obtain seg ad where sa: "(case position (\<lambda>t. address t = address ?t) (ib_adopted b) of
               Some k \<Rightarrow> (k + 1, ib_adopted b)
             | None \<Rightarrow> (length (ib_adopted b @ [?t]), ib_adopted b @ [?t])) = (seg, ad)" by (rule prod.exhaust)
  have seg: "0 < seg" "seg \<le> length ad" "content (ad ! (seg - 1)) = content ?t" "prefix (ib_adopted b) ad"
    "\<forall>a \<in> set ad. in_heap (hp_tables h) a" "length ad \<le> 1 + length (ib_adopted b)"
    using sa assms(1) heap by (auto simp: interned_ok_def in_heap_def split: option.splits dest!: position_Some)
  have len: "length ad \<le> 1 + length (ib_adopted b)" by (rule seg(6))
  have lt: "seg < 2 ^ 32" using seg(2) len assms(4) by (simp add: usage_def room_def)
  then have u: "unat (of_nat seg :: u32) = seg" by (intro of_nat_inverse [OF refl]) simp
  let ?e = "\<lparr> sr_seg = of_nat seg, sr_refs = sr_refs s \<rparr>"
  let ?b = "b\<lparr> ib_adopted := ad, ib_by_subject := (ib_by_subject b)(i \<mapsto> ?e) \<rparr>"
  have a: "adopt old i b = Some (True, ?b)"
    using assms(3) lt by (simp add: adopt_def sa to_u32_def Let_def)
  have nz: "(of_nat seg :: u32) \<noteq> 0"
  proof
    assume "(of_nat seg :: u32) = 0"
    then have "unat (of_nat seg :: u32) = 0" by simp
    with u seg(1) show False by simp
  qed
  have "entries_ok ?b"
    unfolding entries_ok_def
  proof (intro allI impI)
    fix j s'
    assume "ib_by_subject ?b j = Some s'"
    then have e: "((ib_by_subject b)(i \<mapsto> ?e)) j = Some s'" by simp
    show "if sr_seg s' = 0 then \<forall>r \<in> set (sr_refs s'). ref_ok (ib_tables ?b) r else unat (sr_seg s') \<le> length (ib_adopted ?b)"
    proof (cases "j = i")
      case True
      with e have "s' = ?e" by simp
      then show ?thesis using u nz seg(2) by simp
    next
      case False
      with e have "ib_by_subject b j = Some s'" by simp
      with assms(1) have "if sr_seg s' = 0 then \<forall>r \<in> set (sr_refs s'). ref_ok (ib_tables b) r else unat (sr_seg s') \<le> length (ib_adopted b)"
        unfolding interned_ok_def entries_ok_def by blast
      then show ?thesis using prefix_length_le [OF seg(4)] by (cases "sr_seg s' = 0") simp_all
    qed
  qed
  then have ok: "interned_ok h ?b" using assms(1) seg(5) by (simp add: interned_ok_def memo_ok_def)
  have "ib_read ?b j = ((ib_read b)(i \<mapsto> the (facts_read old i))) j" for j
  proof (cases "j = i")
    case True
    then show ?thesis using u nz seg(3) assms(3) by (simp add: ib_read_def facts_read_def facts_get_def)
  next
    case False
    show ?thesis
    proof (cases "ib_by_subject b j")
      case (Some s')
      have "sr_seg s' \<noteq> 0 \<Longrightarrow> ad ! (unat (sr_seg s') - 1) = ib_adopted b ! (unat (sr_seg s') - 1)"
        using assms(1) Some prefix_nth [OF seg(4)] unat_gt_0 unfolding interned_ok_def entries_ok_def
        by (metis One_nat_def Suc_le_eq Suc_pred)
      then show ?thesis using False Some by (simp add: ib_read_def)
    qed (use False in \<open>simp add: ib_read_def\<close>)
  qed
  then have "ib_read ?b = (ib_read b)(i \<mapsto> the (facts_read old i))" by (rule ext)
  then show thesis using a ok len by (intro that [of ?b]) (simp_all add: usage_def)
qed


section \<open>The composition\<close>

text \<open>One subject, on the contents: the facts an earlier composition has for it, or its own.\<close>

definition compose_step ::
  "string \<times> inherited_facts option \<times> (capability_fact shared \<times> typed_out_edge shared) list \<Rightarrow>
   (string \<rightharpoonup> capability_fact list) \<Rightarrow> (string \<rightharpoonup> capability_fact list)" where
  "compose_step m facts = (case m of (i, reuse, picks) \<Rightarrow>
     facts(i \<mapsto> unwrap_or (inherit i picks) (case reuse of None \<Rightarrow> None | Some old \<Rightarrow> facts_read old i)))"

definition step_in_heap ::
  "heap \<Rightarrow> string \<times> inherited_facts option \<times> (capability_fact shared \<times> typed_out_edge shared) list \<Rightarrow> bool" where
  "step_in_heap h m = (case m of (i, reuse, picks) \<Rightarrow> list_all (pick_in_heap h) picks \<and> pred_option (facts_in_heap h) reuse)"

definition step_cost :: "string \<times> inherited_facts option \<times> (capability_fact shared \<times> typed_out_edge shared) list \<Rightarrow> nat" where
  "step_cost m = 1 + 2 * length (snd (snd m))"

lemma emit_raw_step_ok:
  assumes "interned_ok h b" "step_in_heap h m" "step_cost m + usage b \<le> room"
  obtains b' where "emit_raw_step m b = Some b'" "interned_ok h b'" "ib_read b' = compose_step m (ib_read b)"
    "usage b' \<le> step_cost m + usage b"
proof -
  obtain i reuse ps where m: "m = (i, reuse, ps)" by (rule prod_cases3)
  have ps: "list_all (pick_in_heap h) ps" "1 + 2 * length ps + usage b \<le> room"
    using assms(2,3) by (simp_all add: m step_in_heap_def step_cost_def)
  obtain refs b1 where e: "emit_picks i ps True b = Some (refs, b1)" "interned_ok h (ib_insert i refs b1)"
    "ib_read (ib_insert i refs b1) = (ib_read b)(i \<mapsto> inherit i ps)" "usage (ib_insert i refs b1) \<le> 1 + 2 * length ps + usage b"
    by (rule emit_ok [OF assms(1) ps])
  show thesis
  proof (cases "\<exists>old s. reuse = Some old \<and> if_by_subject old i = Some s")
    case True
    then obtain old s where old: "reuse = Some old" "if_by_subject old i = Some s" by blast
    have heap: "facts_in_heap h old" "1 + usage b \<le> room" using assms(2) ps(2) by (simp_all add: m old(1) step_in_heap_def)
    obtain b' where b': "adopt old i b = Some (True, b')" "interned_ok h b'"
      "ib_read b' = (ib_read b)(i \<mapsto> the (facts_read old i))" "usage b' \<le> 1 + usage b"
      by (rule adopt_ok [OF assms(1) heap(1) old(2) heap(2)])
    have "facts_read old i \<noteq> None" by (simp add: facts_read_def facts_get_def old(2))
    then have "ib_read b' = compose_step m (ib_read b)" using b'(3) by (auto simp: compose_step_def m old(1))
    with b' show thesis by (intro that [of b']) (simp_all add: emit_raw_step_def m old(1) step_cost_def)
  next
    case False
    then have none: "(case reuse of None \<Rightarrow> None | Some old \<Rightarrow> facts_read old i) = None"
      by (auto simp: facts_read_def facts_get_def split: option.splits)
    have step: "emit_raw_step m b = Some (ib_insert i refs b1)"
      using False e(1) by (cases reuse) (simp_all add: emit_raw_step_def m adopt_none Let_def)
    from e(3) none have "ib_read (ib_insert i refs b1) = compose_step m (ib_read b)" by (simp add: compose_step_def m)
    with step e show thesis by (intro that) (simp_all add: step_cost_def m)
  qed
qed

lemma emit_raw_steps_ok:
  assumes "interned_ok h b" "list_all (step_in_heap h) ms" "sum_list (map step_cost ms) + usage b \<le> room"
  obtains b' where "emit_raw_steps ms b = Some b'" "ib_read b' = fold compose_step ms (ib_read b)"
  using assms
proof (induction ms arbitrary: b thesis)
  case (Cons m ms)
  have m: "step_in_heap h m" "list_all (step_in_heap h) ms" "step_cost m + usage b \<le> room" using Cons.prems by simp_all
  obtain b1 where b1: "emit_raw_step m b = Some b1" "interned_ok h b1" "ib_read b1 = compose_step m (ib_read b)"
    "usage b1 \<le> step_cost m + usage b" by (rule emit_raw_step_ok [OF Cons.prems(2) m(1,3)])
  have "sum_list (map step_cost ms) + usage b1 \<le> room" using b1(4) Cons.prems(4) by simp
  with Cons.IH [OF _ b1(2) m(2)] obtain b' where "emit_raw_steps ms b1 = Some b'" "ib_read b' = fold compose_step ms (ib_read b1)"
    by blast
  then show ?case using b1 by (intro Cons.prems(1) [of b']) simp_all
qed simp

lemma new_builder_ok: "interned_ok h empty_inherited" "usage empty_inherited = 0" "ib_read empty_inherited = Map.empty"
  by (simp_all add: interned_ok_def empty_inherited_def table_ok_def hops_ok_def memo_ok_def entries_ok_def usage_def ib_read_def fun_eq_iff)

text \<open>
  Property C27. The indexes are faithful: while the tables have room, composing any subjects in any
  order ends, and what a reader materializes for a subject is what the last composition of it means,
  the callee facts retagged to the subject and its first hop in the order of their joined keys, or
  the adopted entry unchanged. Interning by address, the content maps and the memo are invisible.
\<close>

theorem emit_raw_faithful:
  assumes "list_all (step_in_heap h) ms" "sum_list (map step_cost ms) < 2 ^ 32"
  shows "\<exists>f. emit_raw addr ms = Some f \<and> facts_read f = fold compose_step ms Map.empty"
proof -
  have "sum_list (map step_cost ms) + usage empty_inherited \<le> room" using assms(2) by (simp add: new_builder_ok room_def)
  then obtain b where "emit_raw_steps ms empty_inherited = Some b" "ib_read b = fold compose_step ms (ib_read empty_inherited)"
    using emit_raw_steps_ok [OF new_builder_ok(1) assms(1)] by blast
  then show ?thesis by (simp add: emit_raw_def facts_read_finish new_builder_ok(3))
qed

definition sample_fact :: capability_fact where
  "sample_fact = \<lparr> cf_subject = ''callee'', cf_op = ''insert'', cf_resource_kind = ''table'', cf_resource_id = Some ''t/1'',
     cf_resource_arg_source = None, cf_confidence = ''static'', cf_provenance = ''direct'', cf_via = ''self'',
     cf_witness_operation_id = Some ''op0'', cf_witness_callsite_id = None, cf_witness_first_hop_operation_id = None,
     cf_witness_first_hop_event_id = None, cf_extra = None \<rparr>"

definition sample_edge :: typed_out_edge where
  "sample_edge = \<lparr> te_to = ''callee'', te_kind = ''direct-call'', te_callsite = Some ''cs0'', te_event_id = None, te_operation_id = None \<rparr>"

definition sample_steps :: "(string \<times> inherited_facts option \<times> (capability_fact shared \<times> typed_out_edge shared) list) list" where
  "sample_steps = map (\<lambda>i. (i, None, [(\<lparr> address = 7, content = sample_fact \<rparr>, \<lparr> address = 9, content = sample_edge \<rparr>)])) [''a'', ''b'']"

theorem emit_raw_faithful_witness:
  "\<exists>f. emit_raw 1 sample_steps = Some f \<and>
     facts_read f = [''a'' \<mapsto> [retag sample_fact ''a'' sample_edge], ''b'' \<mapsto> [retag sample_fact ''b'' sample_edge]]"
proof -
  let ?h = "\<lparr> hp_facts = (\<lambda>_. sample_fact), hp_edges = (\<lambda>_. sample_edge), hp_tables = (\<lambda>_. ib_tables empty_inherited) \<rparr>"
  have "list_all (step_in_heap ?h) sample_steps" "sum_list (map step_cost sample_steps) < 2 ^ 32"
    by (simp_all add: sample_steps_def step_in_heap_def pick_in_heap_def in_heap_def step_cost_def)
  from emit_raw_faithful [OF this, of 1] show ?thesis
    by (simp add: sample_steps_def compose_step_def inherit_def)
qed

end
