(* ===== verification/Policy_Engine.thy ===== *)
theory Policy_Engine
  imports Policy_Loader Inherited_Facts
begin

text \<open>
  The policy engine (\<open>src/src/engine/gate/policy/policy_engine.rs\<close>): every rule over every routine,
  its verdict, the counters of a rule and the findings. A panic of the code, a routine without an
  entry for its inherited facts or a pin without the writer index, is \<open>None\<close>. The fingerprint of a
  finding and the regular expressions are parameters; of a finding the fields the engine does not
  leave empty are modelled.
\<close>

section \<open>Findings\<close>

record source_anchor = anchor +
  sa_enclosing_routine_id :: string

record evidence_step =
  ev_routine_id :: string
  ev_operation_id :: "string option"
  ev_callsite_id :: "string option"
  ev_loop_id :: "string option"
  ev_source_anchor :: source_anchor
  ev_note :: string

record finding =
  fn_id :: string
  fn_root_cause_key :: string
  fn_detector :: string
  fn_title :: string
  fn_root_cause :: string
  fn_severity :: string
  fn_confidence_level :: string
  fn_primary_location :: source_anchor
  fn_evidence_path :: "evidence_step list"
  fn_affected_objects :: "string list"
  fn_affected_tables :: "string list"
  fn_fingerprint :: "string option"

definition located_anchor :: "anchor \<Rightarrow> model_routine \<Rightarrow> source_anchor" where
  "located_anchor a r = \<lparr> source_unit_id = source_unit_id a, start_line = start_line a, start_column = start_column a,
     end_line = end_line a, end_column = end_column a, syntax_kind = syntax_kind a, sa_enclosing_routine_id = mr_id r \<rparr>"

definition build_primary_location :: "model_routine \<Rightarrow> source_anchor" where
  "build_primary_location r = located_anchor (mr_source_anchor r) r"

section \<open>The model a run reads\<close>

record routine_summary =
  rs_capability_facts_direct :: "capability_fact list"
  rs_inherited_status :: "string option"

record write_site =
  ws_kind :: string
  ws_anchor :: anchor

record pin_fact =
  pn_table_id :: string
  pn_table :: string
  pn_field :: string
  pn_sites :: "write_site list"
  pn_keys :: "rule_fact list"

record pin_index =
  pi_by_writer :: "string \<rightharpoonup> pin_fact list"
  pi_truncated :: bool

record policy_model =
  pm_routines :: "model_routine list"
  pm_field_indexes :: field_indexes
  pm_summaries :: "string \<rightharpoonup> routine_summary"
  pm_raw :: inherited_facts
  pm_fingerprint_of :: "finding \<Rightarrow> string"
  pm_regex :: "string \<Rightarrow> string \<Rightarrow> bool"
  pm_pins :: "pin_index option"

definition pin_facts_of :: "pin_index \<Rightarrow> model_routine \<Rightarrow> pin_fact list" where
  "pin_facts_of p r = unwrap_or [] (pi_by_writer p (mr_stable_routine_id r))"

definition pick_coverage :: "rule \<Rightarrow> policy_doc \<Rightarrow> string" where
  "pick_coverage r doc = (case ru_require_coverage r of
      Some c \<Rightarrow> c
    | None \<Rightarrow> unwrap_or ''any'' (case po_defaults doc of None \<Rightarrow> None | Some d \<Rightarrow> pf_require_coverage d))"

definition pick_unknown :: "rule \<Rightarrow> policy_doc \<Rightarrow> string" where
  "pick_unknown r doc = (case ru_on_unknown r of
      Some c \<Rightarrow> c
    | None \<Rightarrow> unwrap_or ''fail-closed'' (case po_defaults doc of None \<Rightarrow> None | Some d \<Rightarrow> pf_on_unknown d))"

definition passes_coverage_gate :: "string option \<Rightarrow> string \<Rightarrow> bool" where
  "passes_coverage_gate status gate =
     (if gate = ''any'' then True
      else if gate = ''partial'' then status \<noteq> Some ''unknown''
      else status = Some ''complete'')"

definition fact_sort_fields :: "fact_ref \<Rightarrow> string list" where
  "fact_sort_fields f = [fr_op f, fr_resource_kind f, unwrap_or [] (fr_resource_id f), unwrap_or [] (fr_witness_operation_id f),
     fr_confidence f, fr_provenance f, fr_via f, unwrap_or [] (fr_witness_callsite_id f)]"

definition sort_facts :: "fact_ref list \<Rightarrow> fact_ref list" where
  "sort_facts facts = sort_by (\<lambda>a b. cmp_joined (fact_sort_fields a) (fact_sort_fields b)) facts"

definition slice_facts :: "(inherited_ref list \<times> inherited_tables) option \<Rightarrow> fact_ref list" where
  "slice_facts raw = (case raw of None \<Rightarrow> [] | Some (refs, t) \<Rightarrow> map (\<lambda>r. InheritedFact (view_ref t r)) refs)"

definition select_facts :: "rule \<Rightarrow> capability_fact list \<Rightarrow> (inherited_ref list \<times> inherited_tables) option \<Rightarrow> fact_ref list" where
  "select_facts r direct raw =
     (let mode = unwrap_or ''any'' (ru_facts r) in
      if mode = ''direct'' then map DirectFact direct
      else if mode = ''inherited'' then slice_facts raw
      else map DirectFact direct @ slice_facts raw)"

section \<open>The findings of a rule\<close>

definition root_cause_key :: "rule \<Rightarrow> model_routine \<Rightarrow> string" where
  "root_cause_key rl r = ''policy-'' @ ru_id rl @ ''/'' @ mr_id r"

definition base_finding :: "rule \<Rightarrow> model_routine \<Rightarrow> string \<Rightarrow> string \<Rightarrow> source_anchor \<Rightarrow> evidence_step list \<Rightarrow> string list \<Rightarrow> finding" where
  "base_finding rl r cause level loc evidence tables =
     \<lparr> fn_id = root_cause_key rl r, fn_root_cause_key = root_cause_key rl r, fn_detector = ''policy-'' @ ru_id rl,
       fn_title = unwrap_or (ru_id rl) (ru_title rl), fn_root_cause = cause, fn_severity = ru_severity rl,
       fn_confidence_level = level, fn_primary_location = loc, fn_evidence_path = evidence,
       fn_affected_objects = [mr_object_id r], fn_affected_tables = tables, fn_fingerprint = None \<rparr>"

definition with_fingerprint :: "policy_model \<Rightarrow> finding \<Rightarrow> finding" where
  "with_fingerprint m f = f\<lparr> fn_fingerprint := Some (pm_fingerprint_of m f) \<rparr>"

definition step_at :: "model_routine \<Rightarrow> string option \<Rightarrow> string option \<Rightarrow> source_anchor \<Rightarrow> string \<Rightarrow> evidence_step" where
  "step_at r op cs loc note = \<lparr> ev_routine_id = mr_id r, ev_operation_id = op, ev_callsite_id = cs, ev_loop_id = None,
     ev_source_anchor = loc, ev_note = note \<rparr>"

definition fact_note :: "fact_ref \<Rightarrow> string" where
  "fact_note f = ''matched on capability.op='' @ fr_op f @ '', resourceKind='' @ fr_resource_kind f @
     (case fr_resource_id f of Some rid \<Rightarrow> '', resourceId='' @ rid | None \<Rightarrow> [])"

definition emit_match_finding :: "rule \<Rightarrow> model_routine \<Rightarrow> policy_model \<Rightarrow> fact_ref list \<Rightarrow> finding" where
  "emit_match_finding rl r m matched =
     (let loc = build_primary_location r;
          first_note = (case ru_message rl of Some s \<Rightarrow> s
            | None \<Rightarrow> unwrap_or (''Policy rule '' @ ru_id rl @ '' violation'') (ru_title rl));
          evidence = step_at r None None loc first_note #
            map (\<lambda>f. step_at r (fr_witness_operation_id f) (fr_witness_callsite_id f) loc (fact_note f)) matched;
          cause = (case ru_message rl of Some s \<Rightarrow> s
            | None \<Rightarrow> unwrap_or (''Policy '' @ ru_id rl @ '' matched '' @ dec_string (length matched) @ '' fact(s) on routine '' @ mr_id r @ ''.'')
                (ru_description rl))
      in with_fingerprint m (base_finding rl r cause ''likely'' loc evidence []))"

definition emit_coverage_finding :: "rule \<Rightarrow> model_routine \<Rightarrow> policy_model \<Rightarrow> string \<Rightarrow> string \<Rightarrow> finding" where
  "emit_coverage_finding rl r m status gate =
     (let loc = build_primary_location r in
      with_fingerprint m (base_finding rl r
        (''Coverage gate (requireCoverage='' @ gate @ '') failed: routine coverage is '' @ status @ ''.'')
        ''possible'' loc [step_at r None None loc (''coverage='' @ status)] []))"

definition emit_unknown_finding :: "rule \<Rightarrow> model_routine \<Rightarrow> policy_model \<Rightarrow> finding" where
  "emit_unknown_finding rl r m =
     (let loc = build_primary_location r in
      with_fingerprint m (base_finding rl r ''Predicate could not be resolved on any fact; onUnknown=fail-closed.''
        ''possible'' loc [step_at r None None loc (''policy unknown '' @ EM_DASH @ '' fail-closed'')] []))"

text \<open>\<open>Vec::dedup\<close>: adjacent duplicates.\<close>

fun dedup :: "'a list \<Rightarrow> 'a list" where
  "dedup (x # y # zs) = (if x = y then dedup (y # zs) else x # dedup (y # zs))"
| "dedup xs = xs"

definition pin_anchor :: "model_routine \<Rightarrow> pin_fact \<Rightarrow> source_anchor option" where
  "pin_anchor r f = map_option (\<lambda>s. located_anchor (ws_anchor s) r) (first_of (pn_sites f))"

definition pin_step :: "model_routine \<Rightarrow> pin_fact \<Rightarrow> evidence_step option" where
  "pin_step r f = (case first_of (pn_sites f) of
      None \<Rightarrow> None
    | Some s \<Rightarrow> Some (step_at r None None (located_anchor (ws_anchor s) r)
        (''writes '' @ pn_table f @ ''.'' @ pn_field f @ '' ('' @ ws_kind s @ '') without a rule that matches requires'')))"

text \<open>Indexing the first site or the first violated fact of an empty list panics.\<close>

definition emit_pin_finding :: "rule \<Rightarrow> model_routine \<Rightarrow> policy_model \<Rightarrow> pin_fact list \<Rightarrow> finding option" where
  "emit_pin_finding rl r m violated =
     (if violated = [] \<or> list_ex (\<lambda>f. pn_sites f = []) violated then None
      else
        (let fields = map (\<lambda>f. pn_table f @ ''.'' @ pn_field f) violated;
             cause = unwrap_or (mr_name r @ '' writes '' @ join_with '', '' fields @ '' without the rule this policy pins'' @
               (case ru_description rl of Some d \<Rightarrow> '': '' @ d | None \<Rightarrow> [])) (ru_message rl);
             evidence = List.map_filter (pin_step r) violated
         in map_option (\<lambda>loc. with_fingerprint m (base_finding rl r cause ''likely'' loc evidence (dedup (map pn_table_id violated))))
              (pin_anchor r (hd violated))))"


section \<open>Verdicts\<close>

text \<open>How one routine comes out of one rule; \<open>'f\<close> is what a violation lists.\<close>

datatype 'f verdict = NotApplicable | Exempt | CoverageFailed string | Passed | Matched "'f list" | UnknownFacts

definition base_context :: "policy_model \<Rightarrow> model_routine \<Rightarrow> eval_context" where
  "base_context m r = \<lparr> ec_routine = r, ec_fact = None, ec_write = None, ec_rule = None, ec_indexes = pm_field_indexes m \<rparr>"

definition not_applicable :: "policy_model \<Rightarrow> rule \<Rightarrow> model_routine \<Rightarrow> bool" where
  "not_applicable m rl r = (evaluate_applicability (pm_regex m) (ru_when rl) (base_context m r) = F)"

definition structurally_exempt :: "policy_model \<Rightarrow> rule \<Rightarrow> model_routine \<Rightarrow> bool" where
  "structurally_exempt m rl r = (case ru_except rl of
      None \<Rightarrow> False
    | Some e \<Rightarrow> evaluate_applicability (pm_regex m) e (base_context m r) = T)"

definition excepted :: "policy_model \<Rightarrow> rule \<Rightarrow> eval_context \<Rightarrow> bool" where
  "excepted m rl ctx = (case ru_except rl of None \<Rightarrow> False | Some e \<Rightarrow> evaluate_result (pm_regex m) e ctx = T)"

definition fact_context :: "policy_model \<Rightarrow> model_routine \<Rightarrow> fact_ref \<Rightarrow> eval_context" where
  "fact_context m r f = (base_context m r)\<lparr> ec_fact := Some f \<rparr>"

fun scan_facts :: "policy_model \<Rightarrow> rule \<Rightarrow> model_routine \<Rightarrow> fact_ref list \<Rightarrow> fact_ref list \<times> bool \<Rightarrow> fact_ref list \<times> bool" where
  "scan_facts m rl r [] st = st"
| "scan_facts m rl r (f # fs) (matched, saw_unknown) =
     (let ctx = fact_context m r f in
      case evaluate_result (pm_regex m) (ru_when rl) ctx of
        F \<Rightarrow> scan_facts m rl r fs (matched, saw_unknown)
      | U \<Rightarrow> scan_facts m rl r fs (matched, True)
      | T \<Rightarrow> (if excepted m rl ctx then scan_facts m rl r fs (matched, saw_unknown)
               else scan_facts m rl r fs (matched @ [f], saw_unknown)))"

text \<open>The raw facts of a routine; the outer \<open>None\<close> is the panic on a missing entry.\<close>

definition raw_of :: "policy_model \<Rightarrow> rule \<Rightarrow> model_routine \<Rightarrow> (inherited_ref list \<times> inherited_tables) option option" where
  "raw_of m rl r = (case facts_get (pm_raw m) (mr_id r) of
      Some v \<Rightarrow> Some (Some v)
    | None \<Rightarrow> if pm_summaries m (mr_id r) = None \<or> ru_facts rl = Some ''direct'' then Some None else None)"

definition coverage_status :: "policy_model \<Rightarrow> model_routine \<Rightarrow> string option" where
  "coverage_status m r = (case pm_summaries m (mr_id r) of None \<Rightarrow> None | Some s \<Rightarrow> rs_inherited_status s)"

definition rule_facts :: "policy_model \<Rightarrow> rule \<Rightarrow> model_routine \<Rightarrow> (inherited_ref list \<times> inherited_tables) option \<Rightarrow> fact_ref list" where
  "rule_facts m rl r raw =
     (let direct = (case pm_summaries m (mr_id r) of None \<Rightarrow> [] | Some s \<Rightarrow> rs_capability_facts_direct s)
      in sort_facts (select_facts rl direct raw))"

definition close_verdict :: "'f list \<times> bool \<Rightarrow> 'f verdict" where
  "close_verdict st = (if fst st \<noteq> [] then Matched (fst st) else if snd st then UnknownFacts else Passed)"

definition fact_verdict :: "policy_model \<Rightarrow> rule \<Rightarrow> string \<Rightarrow> model_routine \<Rightarrow> fact_ref verdict option" where
  "fact_verdict m rl gate r =
     (if not_applicable m rl r then Some NotApplicable
      else if structurally_exempt m rl r then Some Exempt
      else if \<not> passes_coverage_gate (coverage_status m r) gate then
        Some (CoverageFailed (unwrap_or ''unknown'' (coverage_status m r)))
      else (case raw_of m rl r of
          None \<Rightarrow> None
        | Some raw \<Rightarrow>
            (let facts = rule_facts m rl r raw in
             if facts = [] then Some Passed else Some (close_verdict (scan_facts m rl r facts ([], False))))))"

section \<open>Pins\<close>

definition write_context :: "policy_model \<Rightarrow> model_routine \<Rightarrow> pin_fact \<Rightarrow> eval_context" where
  "write_context m r f = (base_context m r)\<lparr> ec_write := Some \<lparr> wf_table = pn_table f, wf_field = pn_field f \<rparr> \<rparr>"

fun try_keys :: "policy_model \<Rightarrow> predicate \<Rightarrow> eval_context \<Rightarrow> rule_fact list \<Rightarrow> bool \<Rightarrow> bool \<times> bool" where
  "try_keys m req ctx [] saw_unknown = (False, saw_unknown)"
| "try_keys m req ctx (k # ks) saw_unknown =
     (case evaluate_result (pm_regex m) req (ctx\<lparr> ec_rule := Some k \<rparr>) of
        T \<Rightarrow> (True, saw_unknown)
      | U \<Rightarrow> try_keys m req ctx ks True
      | F \<Rightarrow> try_keys m req ctx ks saw_unknown)"

fun scan_writes :: "policy_model \<Rightarrow> rule \<Rightarrow> predicate \<Rightarrow> bool \<Rightarrow> model_routine \<Rightarrow> pin_fact list \<Rightarrow> pin_fact list \<times> bool \<Rightarrow> pin_fact list \<times> bool" where
  "scan_writes m rl req truncated r [] st = st"
| "scan_writes m rl req truncated r (f # fs) (violated, saw_unknown) =
     (let ctx = write_context m r f in
      case evaluate_result (pm_regex m) (ru_when rl) ctx of
        F \<Rightarrow> scan_writes m rl req truncated r fs (violated, saw_unknown)
      | U \<Rightarrow> scan_writes m rl req truncated r fs (violated, True)
      | T \<Rightarrow>
          (if excepted m rl ctx then scan_writes m rl req truncated r fs (violated, saw_unknown)
           else
             (let (satisfied, saw_unknown) = try_keys m req ctx (pn_keys f) saw_unknown in
              if satisfied then scan_writes m rl req truncated r fs (violated, saw_unknown)
              else if truncated then scan_writes m rl req truncated r fs (violated, True)
              else scan_writes m rl req truncated r fs (violated @ [f], saw_unknown))))"

definition pin_verdict :: "policy_model \<Rightarrow> pin_index \<Rightarrow> rule \<Rightarrow> predicate \<Rightarrow> model_routine \<Rightarrow> pin_fact verdict" where
  "pin_verdict m pins rl req r =
     (if not_applicable m rl r then NotApplicable
      else if structurally_exempt m rl r then Exempt
      else close_verdict (scan_writes m rl req (pi_truncated pins) r (pin_facts_of pins r) ([], False)))"

section \<open>Counters and the run\<close>

record rule_run_summary =
  rr_rule_id :: string
  rr_routines_evaluated :: nat
  rr_routines_matched :: nat
  rr_routines_skipped_coverage :: nat
  rr_routines_skipped_unknown :: nat
  rr_routines_passed :: nat
  rr_findings_emitted :: nat

text \<open>
  The counters and the findings after one verdict; \<open>emit\<close> is the finding of a violation (it may
  panic), \<open>gate\<close> the coverage gate the message names.
\<close>

definition record_verdict ::
  "policy_model \<Rightarrow> rule \<Rightarrow> string \<Rightarrow> string \<Rightarrow> ('f list \<Rightarrow> finding option) \<Rightarrow> model_routine \<Rightarrow> 'f verdict \<Rightarrow>
   rule_run_summary \<times> finding list \<Rightarrow> (rule_run_summary \<times> finding list) option" where
  "record_verdict m rl gate unknown_policy emit r v st = (case st of (s, out) \<Rightarrow>
     (let s = s\<lparr> rr_routines_evaluated := rr_routines_evaluated s + 1 \<rparr> in
      case v of
        NotApplicable \<Rightarrow> Some (s, out)
      | Exempt \<Rightarrow> Some (s, out)
      | CoverageFailed status \<Rightarrow>
          Some (s\<lparr> rr_routines_skipped_coverage := rr_routines_skipped_coverage s + 1 \<rparr>,
            if unknown_policy = ''fail-closed'' then out @ [emit_coverage_finding rl r m status gate] else out)
      | Passed \<Rightarrow> Some (s\<lparr> rr_routines_passed := rr_routines_passed s + 1 \<rparr>, out)
      | Matched fs \<Rightarrow>
          map_option (\<lambda>f. (s\<lparr> rr_routines_matched := rr_routines_matched s + 1 \<rparr>, out @ [f])) (emit fs)
      | UnknownFacts \<Rightarrow>
          Some (s\<lparr> rr_routines_skipped_unknown := rr_routines_skipped_unknown s + 1 \<rparr>,
            if unknown_policy = ''fail-closed'' then out @ [emit_unknown_finding rl r m] else out)))"

fun run_routines ::
  "(model_routine \<Rightarrow> 'f verdict option) \<Rightarrow> (model_routine \<Rightarrow> 'f verdict \<Rightarrow> rule_run_summary \<times> finding list \<Rightarrow>
     (rule_run_summary \<times> finding list) option) \<Rightarrow> model_routine list \<Rightarrow> rule_run_summary \<times> finding list \<Rightarrow>
   (rule_run_summary \<times> finding list) option" where
  "run_routines verdict recordv [] st = Some st"
| "run_routines verdict recordv (r # rs) st = (case verdict r of
      None \<Rightarrow> None
    | Some v \<Rightarrow> (case recordv r v st of None \<Rightarrow> None | Some st \<Rightarrow> run_routines verdict recordv rs st))"

definition new_summary :: "string \<Rightarrow> rule_run_summary" where
  "new_summary i = \<lparr> rr_rule_id = i, rr_routines_evaluated = 0, rr_routines_matched = 0, rr_routines_skipped_coverage = 0,
     rr_routines_skipped_unknown = 0, rr_routines_passed = 0, rr_findings_emitted = 0 \<rparr>"

definition run_pin :: "rule \<Rightarrow> predicate \<Rightarrow> string \<Rightarrow> model_routine list \<Rightarrow> policy_model \<Rightarrow> (rule_run_summary \<times> finding list) option" where
  "run_pin rl req unknown_policy routines m = (case pm_pins m of
      None \<Rightarrow> None
    | Some pins \<Rightarrow>
        run_routines (\<lambda>r. Some (pin_verdict m pins rl req r))
          (\<lambda>r. record_verdict m rl [] unknown_policy (emit_pin_finding rl r m) r) routines (new_summary (ru_id rl), []))"

definition run_fact_rule :: "rule \<Rightarrow> string \<Rightarrow> string \<Rightarrow> model_routine list \<Rightarrow> policy_model \<Rightarrow> (rule_run_summary \<times> finding list) option" where
  "run_fact_rule rl gate unknown_policy routines m =
     run_routines (fact_verdict m rl gate)
       (\<lambda>r. record_verdict m rl gate unknown_policy (\<lambda>fs. Some (emit_match_finding rl r m fs)) r) routines (new_summary (ru_id rl), [])"

definition run_rule :: "policy_model \<Rightarrow> policy_doc \<Rightarrow> model_routine list \<Rightarrow> rule \<Rightarrow> (rule_run_summary \<times> finding list) option" where
  "run_rule m doc routines rl =
     map_option (\<lambda>(s, out). (s\<lparr> rr_findings_emitted := length out \<rparr>, out))
       (case ru_requires rl of
          Some req \<Rightarrow> run_pin rl req (pick_unknown rl doc) routines m
        | None \<Rightarrow> run_fact_rule rl (pick_coverage rl doc) (pick_unknown rl doc) routines m)"

fun dedup_last :: "model_routine list \<Rightarrow> model_routine list" where
  "dedup_last (kept # later # rs) = (if mr_id later = mr_id kept then dedup_last (later # rs) else kept # dedup_last (later # rs))"
| "dedup_last rs = rs"

fun run_rules :: "policy_model \<Rightarrow> policy_doc \<Rightarrow> model_routine list \<Rightarrow> rule list \<Rightarrow> (rule_run_summary list \<times> finding list) option" where
  "run_rules m doc routines [] = Some ([], [])"
| "run_rules m doc routines (rl # rls) = (case run_rule m doc routines rl of
      None \<Rightarrow> None
    | Some (s, out) \<Rightarrow> (case run_rules m doc routines rls of
        None \<Rightarrow> None
      | Some (ss, outs) \<Rightarrow> Some (s # ss, out @ outs)))"

definition evaluated_routines :: "policy_model \<Rightarrow> model_routine list" where
  "evaluated_routines m = dedup_last (sort_key mr_id (pm_routines m))"

definition run_policy_engine :: "policy_model \<Rightarrow> policy_doc \<Rightarrow> (rule_run_summary list \<times> finding list) option" where
  "run_policy_engine m doc =
     map_option (\<lambda>(ss, findings). (ss, sort_key fn_id findings))
       (run_rules m doc (evaluated_routines m) (sort_key ru_id (po_rules doc)))"


section \<open>Violations\<close>

text \<open>The facts that violate a rule: \<open>when\<close> holds and \<open>except\<close> does not.\<close>

definition selected :: "policy_model \<Rightarrow> rule \<Rightarrow> eval_context \<Rightarrow> bool" where
  "selected m rl ctx = (evaluate_result (pm_regex m) (ru_when rl) ctx = T \<and> \<not> excepted m rl ctx)"

lemma not_applicable_unselected:
  assumes "not_applicable m rl r" "ec_routine ctx = r" "ec_indexes ctx = pm_field_indexes m"
  shows "evaluate_result (pm_regex m) (ru_when rl) ctx = F"
  using assms eval_approx [of "base_context m r" ctx "pm_regex m" "ru_when rl"]
  by (simp add: not_applicable_def evaluate_applicability_def evaluate_result_def base_context_def approx_def)

lemma exempt_unselected:
  assumes "structurally_exempt m rl r" "ec_routine ctx = r" "ec_indexes ctx = pm_field_indexes m"
  shows "excepted m rl ctx"
proof -
  obtain e where e: "ru_except rl = Some e" "evaluate_applicability (pm_regex m) e (base_context m r) = T"
    using assms(1) by (auto simp: structurally_exempt_def split: option.splits)
  then have "evaluate_result (pm_regex m) e ctx = T"
    using assms(2,3) eval_approx [of "base_context m r" ctx "pm_regex m" e]
    by (simp add: evaluate_applicability_def evaluate_result_def base_context_def approx_def)
  with e show ?thesis by (simp add: excepted_def)
qed

lemma contexts [simp]:
  "ec_routine (fact_context m r f) = r" "ec_indexes (fact_context m r f) = pm_field_indexes m"
  "ec_routine (write_context m r w) = r" "ec_indexes (write_context m r w) = pm_field_indexes m"
  by (simp_all add: fact_context_def write_context_def base_context_def)

lemma scan_facts_filter:
  "fst (scan_facts m rl r fs st) = fst st @ filter (\<lambda>f. selected m rl (fact_context m r f)) fs"
proof (induction fs arbitrary: st)
  case (Cons f fs)
  obtain ms u where "st = (ms, u)" by (rule prod.exhaust)
  with Cons show ?case by (auto simp: selected_def Let_def split: tristate.splits)
qed simp

lemma scan_facts_unknown:
  "snd (scan_facts m rl r fs st) \<longleftrightarrow> snd st \<or> U \<in> (\<lambda>f. evaluate_result (pm_regex m) (ru_when rl) (fact_context m r f)) ` set fs"
proof (induction fs arbitrary: st)
  case (Cons f fs)
  obtain ms u where "st = (ms, u)" by (rule prod.exhaust)
  with Cons show ?case by (auto simp: Let_def split: tristate.splits)
qed simp

lemma close_verdict_Matched: "close_verdict st = Matched ms \<longleftrightarrow> ms \<noteq> [] \<and> fst st = ms"
  by (auto simp: close_verdict_def)

text \<open>
  Property C32. The early exits of a rule change no violation: a routine matches a fact rule exactly
  when it passes the coverage gate and some selected fact satisfies \<open>when\<close> and not \<open>except\<close>, and the
  finding lists precisely those facts in the order of their joined keys.
\<close>

theorem fact_rule_match_exact:
  assumes "raw_of m rl r = Some raw"
  shows "fact_verdict m rl gate r = Some (Matched ms) \<longleftrightarrow>
    passes_coverage_gate (coverage_status m r) gate \<and> ms \<noteq> [] \<and>
    ms = filter (\<lambda>f. selected m rl (fact_context m r f)) (rule_facts m rl r raw)"
proof -
  let ?sel = "filter (\<lambda>f. selected m rl (fact_context m r f)) (rule_facts m rl r raw)"
  have skip: "?sel = []" if "not_applicable m rl r \<or> structurally_exempt m rl r"
    using that not_applicable_unselected exempt_unselected by (auto simp: selected_def filter_empty_conv)
  show ?thesis
  proof (cases "not_applicable m rl r \<or> structurally_exempt m rl r")
    case True
    with skip show ?thesis by (auto simp: fact_verdict_def)
  next
    case False
    then show ?thesis
      using assms by (auto simp: fact_verdict_def Let_def close_verdict_Matched scan_facts_filter)
  qed
qed

lemma try_keys_satisfied:
  "fst (try_keys m req ctx ks u) \<longleftrightarrow> list_ex (\<lambda>k. evaluate_result (pm_regex m) req (ctx\<lparr> ec_rule := Some k \<rparr>) = T) ks"
  by (induction ks arbitrary: u) (auto split: tristate.splits)

definition violates_pin :: "policy_model \<Rightarrow> rule \<Rightarrow> predicate \<Rightarrow> model_routine \<Rightarrow> pin_fact \<Rightarrow> bool" where
  "violates_pin m rl req r f = (selected m rl (write_context m r f) \<and>
     \<not> list_ex (\<lambda>k. evaluate_result (pm_regex m) req ((write_context m r f)\<lparr> ec_rule := Some k \<rparr>) = T) (pn_keys f))"

lemma scan_writes_filter:
  "fst (scan_writes m rl req truncated r fs st) = fst st @ (if truncated then [] else filter (violates_pin m rl req r) fs)"
proof (induction fs arbitrary: st)
  case (Cons f fs)
  obtain vs u where st: "st = (vs, u)" by (rule prod.exhaust)
  obtain sat u' where k: "try_keys m req (write_context m r f) (pn_keys f) u = (sat, u')" by (rule prod.exhaust)
  have "sat \<longleftrightarrow> list_ex (\<lambda>k. evaluate_result (pm_regex m) req ((write_context m r f)\<lparr> ec_rule := Some k \<rparr>) = T) (pn_keys f)"
    using try_keys_satisfied [of m req "write_context m r f" "pn_keys f" u] k by simp
  with Cons st k show ?case by (auto simp: violates_pin_def [of _ _ _ _ f] selected_def [of _ _ "write_context m r f"] Let_def split: tristate.splits)
qed simp

text \<open>
  A routine violates a pin exactly when the writer index is whole and it writes some
  field that \<open>when\<close> selects, \<open>except\<close> does not exempt, and no rule key it applies there satisfies
  \<open>requires\<close>; the finding lists those writes.
\<close>

theorem pin_violation_exact:
  "pin_verdict m pins rl req r = Matched ws \<longleftrightarrow>
     \<not> pi_truncated pins \<and> ws \<noteq> [] \<and> ws = filter (violates_pin m rl req r) (pin_facts_of pins r)"
proof -
  let ?sel = "filter (violates_pin m rl req r) (pin_facts_of pins r)"
  have skip: "?sel = []" if "not_applicable m rl r \<or> structurally_exempt m rl r"
    using that not_applicable_unselected exempt_unselected by (auto simp: violates_pin_def selected_def filter_empty_conv)
  show ?thesis
  proof (cases "not_applicable m rl r \<or> structurally_exempt m rl r")
    case True
    with skip show ?thesis by (auto simp: pin_verdict_def)
  next
    case False
    then show ?thesis by (auto simp: pin_verdict_def close_verdict_Matched scan_writes_filter)
  qed
qed


section \<open>Counters and findings\<close>

definition skipped :: "policy_model \<Rightarrow> rule \<Rightarrow> model_routine \<Rightarrow> bool" where
  "skipped m rl r = (not_applicable m rl r \<or> structurally_exempt m rl r)"

definition counted :: "rule_run_summary \<Rightarrow> nat" where
  "counted s = rr_routines_matched s + rr_routines_skipped_coverage s + rr_routines_skipped_unknown s + rr_routines_passed s"

definition emitted :: "string \<Rightarrow> rule_run_summary \<Rightarrow> nat" where
  "emitted unknown_policy s = rr_routines_matched s +
     (if unknown_policy = ''fail-closed'' then rr_routines_skipped_coverage s + rr_routines_skipped_unknown s else 0)"

lemma emitted_ids:
  "fn_id (emit_match_finding rl r m ms) = root_cause_key rl r"
  "fn_id (emit_coverage_finding rl r m st g) = root_cause_key rl r"
  "fn_id (emit_unknown_finding rl r m) = root_cause_key rl r"
  "emit_pin_finding rl r m ws = Some f \<Longrightarrow> fn_id f = root_cause_key rl r"
  by (auto simp: emit_match_finding_def emit_coverage_finding_def emit_unknown_finding_def emit_pin_finding_def
      with_fingerprint_def base_finding_def Let_def split: if_splits)

lemma record_verdict_counts:
  assumes "record_verdict m rl gate up emit r v (s, out) = Some (s', out')"
    "\<forall>fs f. emit fs = Some f \<longrightarrow> fn_id f = root_cause_key rl r" "length out = emitted up s"
  shows "rr_routines_evaluated s' = rr_routines_evaluated s + 1 \<and>
    counted s' = counted s + (if v = NotApplicable \<or> v = Exempt then 0 else 1) \<and> length out' = emitted up s' \<and>
    rr_rule_id s' = rr_rule_id s \<and> (\<exists>x \<in> {[], [root_cause_key rl r]}. map fn_id out' = map fn_id out @ x)"
  using assms by (cases v) (auto simp: record_verdict_def Let_def counted_def emitted_def emitted_ids)

lemma run_routines_counts:
  assumes "run_routines verdict (\<lambda>r. record_verdict m rl gate up (emit r) r) rs (s, out) = Some (s', out')"
    "\<forall>r fs f. emit r fs = Some f \<longrightarrow> fn_id f = root_cause_key rl r"
    "\<forall>r v. verdict r = Some v \<longrightarrow> (v = NotApplicable \<or> v = Exempt) = skipped m rl r"
    "length out = emitted up s"
  shows "rr_routines_evaluated s' = rr_routines_evaluated s + length rs \<and>
    counted s' + length (filter (skipped m rl) rs) = counted s + length rs \<and> length out' = emitted up s' \<and>
    rr_rule_id s' = rr_rule_id s \<and> (\<exists>ids. subseq ids (map (root_cause_key rl) rs) \<and> map fn_id out' = map fn_id out @ ids)"
  using assms(1,4)
proof (induction rs arbitrary: s out)
  case (Cons r rs)
  obtain v s1 out1 where v: "verdict r = Some v" "record_verdict m rl gate up (emit r) r v (s, out) = Some (s1, out1)"
    "run_routines verdict (\<lambda>r. record_verdict m rl gate up (emit r) r) rs (s1, out1) = Some (s', out')"
    using Cons.prems(1) by (auto split: option.splits)
  have emit: "\<forall>fs f. emit r fs = Some f \<longrightarrow> fn_id f = root_cause_key rl r" using assms(2) by simp
  note step = record_verdict_counts [OF v(2) emit Cons.prems(2)]
  note rest = Cons.IH [OF v(3) conjunct1 [OF conjunct2 [OF conjunct2 [OF step]]]]
  have skip: "(v = NotApplicable \<or> v = Exempt) = skipped m rl r" using assms(3) v(1) by simp
  obtain x ids where x: "x = [] \<or> x = [root_cause_key rl r]" "map fn_id out1 = map fn_id out @ x"
    "subseq ids (map (root_cause_key rl) rs)" "map fn_id out' = map fn_id out1 @ ids" using step rest by auto
  then have "subseq (x @ ids) (map (root_cause_key rl) (r # rs))" "map fn_id out' = map fn_id out @ x @ ids" by auto
  with step rest skip show ?case by (simp split: if_splits)
qed simp

lemma verdict_skipped:
  "fact_verdict m rl gate r = Some v \<Longrightarrow> (v = NotApplicable \<or> v = Exempt) = skipped m rl r"
  "(pin_verdict m pins rl req r = NotApplicable \<or> pin_verdict m pins rl req r = Exempt) = skipped m rl r"
  by (auto simp: fact_verdict_def pin_verdict_def skipped_def close_verdict_def Let_def split: if_splits option.splits)

lemma run_rule_counts:
  assumes "run_rule m doc rs rl = Some (s, out)"
  shows "rr_rule_id s = ru_id rl \<and> rr_routines_evaluated s = length rs \<and>
    counted s + length (filter (skipped m rl) rs) = length rs \<and> rr_findings_emitted s = length out \<and>
    length out = emitted (pick_unknown rl doc) s \<and> subseq (map fn_id out) (map (root_cause_key rl) rs)"
proof -
  let ?up = "pick_unknown rl doc" and ?st = "(new_summary (ru_id rl), [] :: finding list)"
  obtain s0 where s: "s = s0\<lparr> rr_findings_emitted := length out \<rparr>"
    and run: "(case ru_requires rl of Some req \<Rightarrow> run_pin rl req ?up rs m
        | None \<Rightarrow> run_fact_rule rl (pick_coverage rl doc) ?up rs m) = Some (s0, out)"
    using assms by (auto simp: run_rule_def)
  have new: "length ([] :: finding list) = emitted ?up (new_summary (ru_id rl))" "counted (new_summary (ru_id rl)) = 0"
    "rr_routines_evaluated (new_summary (ru_id rl)) = 0" "rr_rule_id (new_summary (ru_id rl)) = ru_id rl"
    by (simp_all add: emitted_def counted_def new_summary_def)
  have "rr_rule_id s0 = ru_id rl \<and> rr_routines_evaluated s0 = length rs \<and> counted s0 + length (filter (skipped m rl) rs) = length rs \<and>
      length out = emitted ?up s0 \<and> subseq (map fn_id out) (map (root_cause_key rl) rs)"
  proof (cases "ru_requires rl")
    case None
    with run have r: "run_routines (fact_verdict m rl (pick_coverage rl doc))
        (\<lambda>r. record_verdict m rl (pick_coverage rl doc) ?up (\<lambda>fs. Some (emit_match_finding rl r m fs)) r) rs ?st = Some (s0, out)"
      by (simp add: run_fact_rule_def)
    show ?thesis
      using run_routines_counts [OF r _ _ new(1)] new by (simp add: emitted_ids verdict_skipped)
  next
    case (Some req)
    with run obtain pins where r: "run_routines (\<lambda>r. Some (pin_verdict m pins rl req r))
        (\<lambda>r. record_verdict m rl [] ?up (emit_pin_finding rl r m) r) rs ?st = Some (s0, out)"
      by (auto simp: run_pin_def split: option.splits)
    show ?thesis
      using run_routines_counts [OF r _ _ new(1)] new emitted_ids(4) verdict_skipped(2) by simp
  qed
  then show ?thesis by (simp add: s counted_def emitted_def)
qed

text \<open>
  The counters of a rule are exact: every routine is evaluated, each one not skipped as
  inapplicable or exempt is counted once as matched, skipped for coverage, unknown or passed, and
  the findings are one per match and, under fail-closed, one per skipped routine.
\<close>

theorem rule_counters_exact:
  assumes "run_rule m doc rs rl = Some (s, out)"
  shows "rr_routines_evaluated s = length rs \<and>
    rr_routines_matched s + rr_routines_skipped_coverage s + rr_routines_skipped_unknown s + rr_routines_passed s +
      length (filter (\<lambda>r. not_applicable m rl r \<or> structurally_exempt m rl r) rs) = length rs \<and>
    rr_findings_emitted s = rr_routines_matched s +
      (if pick_unknown rl doc = ''fail-closed'' then rr_routines_skipped_coverage s + rr_routines_skipped_unknown s else 0)"
  using run_rule_counts [OF assms] by (simp add: counted_def emitted_def skipped_def [abs_def])


section \<open>The whole run\<close>

lemma dedup_last_set: "set (dedup_last rs) \<subseteq> set rs" "mr_id ` set (dedup_last rs) = mr_id ` set rs"
  by (induction rs rule: dedup_last.induct) auto

lemma dedup_last_strict: "sorted (map mr_id rs) \<Longrightarrow> distinct (map mr_id (dedup_last rs)) \<and> sorted (map mr_id (dedup_last rs))"
proof (induction rs rule: dedup_last.induct)
  case (1 kept later rs)
  show ?case
  proof (cases "mr_id later = mr_id kept")
    case False
    have "mr_id kept < mr_id later" using "1.prems" False by (simp add: order_less_le)
    moreover have "\<forall>x \<in> mr_id ` set (later # rs). mr_id later \<le> x" using "1.prems" by auto
    ultimately have "\<forall>x \<in> mr_id ` set (dedup_last (later # rs)). mr_id kept < x"
      unfolding dedup_last_set(2) by (meson less_le_trans)
    with 1 False show ?thesis by (auto simp: less_imp_le)
  qed (use 1 in simp)
qed simp_all

text \<open>Of the rows of one id the last is evaluated, and every id is.\<close>

lemma evaluated_routines_ids:
  "distinct (map mr_id (evaluated_routines m))" "set (evaluated_routines m) \<subseteq> set (pm_routines m)"
  "mr_id ` set (evaluated_routines m) = mr_id ` set (pm_routines m)"
  using dedup_last_strict [of "sort_key mr_id (pm_routines m)"] dedup_last_set [of "sort_key mr_id (pm_routines m)"]
  by (auto simp: evaluated_routines_def)

lemma rule_id_no_slash: "rule_id_valid i \<Longrightarrow> CHR ''/'' \<notin> set i"
  by (auto simp: rule_id_valid_def is_lower_def is_digit_def list_all_iff split: list.splits)

lemma root_cause_key_inject:
  assumes "rule_id_valid (ru_id rl)" "rule_id_valid (ru_id rl')"
  shows "root_cause_key rl r = root_cause_key rl' r' \<longleftrightarrow> ru_id rl = ru_id rl' \<and> mr_id r = mr_id r'"
  using append_sep_inject [OF rule_id_no_slash [OF assms(1)] rule_id_no_slash [OF assms(2)]]
  by (simp add: root_cause_key_def)

lemma run_rules_ids:
  "run_rules m doc rs rls = Some (ss, fs) \<Longrightarrow>
     map rr_rule_id ss = map ru_id rls \<and> subseq (map fn_id fs) (concat (map (\<lambda>rl. map (root_cause_key rl) rs) rls))"
proof (induction rls arbitrary: ss fs)
  case (Cons rl rls)
  obtain s out ss' outs where r: "run_rule m doc rs rl = Some (s, out)" "run_rules m doc rs rls = Some (ss', outs)"
    "ss = s # ss'" "fs = out @ outs" using Cons.prems by (auto split: option.splits)
  with Cons.IH [OF r(2)] run_rule_counts [OF r(1)] show ?case by (auto intro: list_emb_append_mono)
qed simp

lemma keys_distinct:
  assumes "distinct (map ru_id rls)" "list_all (\<lambda>rl. rule_id_valid (ru_id rl)) rls" "distinct (map mr_id rs)"
  shows "distinct (concat (map (\<lambda>rl. map (root_cause_key rl) rs) rls))"
  using assms(1,2)
proof (induction rls)
  case (Cons rl rls)
  have "distinct (map (root_cause_key rl) rs)"
    using assms(3) Cons.prems(2) by (auto simp: distinct_map inj_on_def root_cause_key_inject)
  moreover have "set (map (root_cause_key rl) rs) \<inter> set (concat (map (\<lambda>rl. map (root_cause_key rl) rs) rls)) = {}"
    using Cons.prems by (auto simp: list_all_iff root_cause_key_inject)
  ultimately show ?case using Cons by simp
qed simp

text \<open>
  Property C33. On a loaded policy the run gives one summary per rule, in the order of the rule ids,
  and at most one finding per rule and routine id: the finding ids ascend without a repetition.
\<close>

theorem findings_one_per_rule_and_routine:
  assumes "load_policy raw = Loaded doc" "run_policy_engine m doc = Some (ss, fs)"
  shows "map rr_rule_id ss = sort (map ru_id (po_rules doc)) \<and> sorted_wrt (<) (map fn_id fs)"
proof -
  obtain fs0 where run: "run_rules m doc (evaluated_routines m) (sort_key ru_id (po_rules doc)) = Some (ss, fs0)"
    and fs: "fs = sort_key fn_id fs0" using assms(2) by (auto simp: run_policy_engine_def)
  have valid: "list_all (\<lambda>rl. rule_id_valid (ru_id rl)) (po_rules doc)" "distinct (map ru_id (po_rules doc))"
    using load_policy_rules [OF assms(1)] by (auto simp: list_all_iff rule_valid_def)
  have "distinct (map ru_id (sort_key ru_id (po_rules doc)))"
    using valid(2) by (simp add: distinct_map)
  moreover have "list_all (\<lambda>rl. rule_id_valid (ru_id rl)) (sort_key ru_id (po_rules doc))"
    using valid(1) by (simp add: list_all_iff)
  ultimately have "distinct (concat (map (\<lambda>rl. map (root_cause_key rl) (evaluated_routines m)) (sort_key ru_id (po_rules doc))))"
    by (rule keys_distinct) (rule evaluated_routines_ids(1))
  with run_rules_ids [OF run] have d: "distinct (map fn_id fs0)" "map rr_rule_id ss = map ru_id (sort_key ru_id (po_rules doc))"
    by (auto dest: subseq_distinctness)
  have "distinct (map fn_id fs)" using d(1) by (simp add: fs distinct_map)
  moreover have "map ru_id (sort_key ru_id (po_rules doc)) = sort (map ru_id (po_rules doc))"
    using map_sort_key_comp [of ru_id "\<lambda>x. x" "po_rules doc"] by simp
  ultimately show ?thesis using d(2) by (simp add: fs strict_sorted_iff)
qed


text \<open>What a run needs not to panic: raw facts for every summarised routine, and for a pin the index, in
  which every write has a site (the code reads \<open>f.sites[0]\<close>).\<close>

definition run_ready :: "policy_model \<Rightarrow> policy_doc \<Rightarrow> bool" where
  "run_ready m doc =
     (list_all (\<lambda>r. pm_summaries m (mr_id r) \<noteq> None \<longrightarrow> facts_get (pm_raw m) (mr_id r) \<noteq> None) (pm_routines m) \<and>
      (has_pins doc \<longrightarrow> (\<exists>pins. pm_pins m = Some pins \<and>
         (\<forall>ws \<in> ran (pi_by_writer pins). list_all (\<lambda>w. pn_sites w \<noteq> []) ws))))"

lemma pin_facts_sites:
  assumes "\<forall>ws \<in> ran (pi_by_writer pins). list_all (\<lambda>w. pn_sites w \<noteq> []) ws" "w \<in> set (pin_facts_of pins r)"
  shows "pn_sites w \<noteq> []"
  using assms by (cases "pi_by_writer pins (mr_stable_routine_id r)") (fastforce simp: pin_facts_of_def ran_def list_all_iff)+

lemma emit_pin_finding_some:
  "ws \<noteq> [] \<Longrightarrow> \<forall>w \<in> set ws. pn_sites w \<noteq> [] \<Longrightarrow> emit_pin_finding rl r m ws \<noteq> None"
  by (cases ws) (auto simp: emit_pin_finding_def pin_anchor_def list_ex_iff Let_def)

lemma run_routines_some:
  assumes "\<forall>r \<in> set rs. \<exists>v. verdict r = Some v \<and> (\<forall>ms. v = Matched ms \<longrightarrow> emit r ms \<noteq> None)"
  shows "run_routines verdict (\<lambda>r. record_verdict m rl gate up (emit r) r) rs st \<noteq> None"
  using assms
proof (induction rs arbitrary: st)
  case (Cons r rs)
  then obtain v where v: "verdict r = Some v" "\<forall>ms. v = Matched ms \<longrightarrow> emit r ms \<noteq> None" by auto
  then have "record_verdict m rl gate up (emit r) r v st \<noteq> None"
    by (cases st; cases v) (auto simp: record_verdict_def Let_def)
  with v(1) Cons show ?case by (auto split: option.splits)
qed simp

lemma run_rule_some:
  assumes "run_ready m doc" "set rs \<subseteq> set (pm_routines m)" "rl \<in> set (po_rules doc)"
  shows "run_rule m doc rs rl \<noteq> None"
proof (cases "ru_requires rl")
  case None
  have raw: "raw_of m rl r \<noteq> None" if "r \<in> set rs" for r
    using assms(1,2) that by (auto simp: raw_of_def run_ready_def list_all_iff split: option.splits)
  have "\<exists>v. fact_verdict m rl gate r = Some v" if "r \<in> set rs" for r gate
  proof -
    from raw [OF that] obtain seg where "raw_of m rl r = Some seg" by blast
    then show ?thesis by (simp add: fact_verdict_def Let_def)
  qed
  then have "run_fact_rule rl gate up rs m \<noteq> None" for gate up
    unfolding run_fact_rule_def by (intro run_routines_some) auto
  with None show ?thesis by (simp add: run_rule_def)
next
  case (Some req)
  then obtain pins where pins: "pm_pins m = Some pins" "\<forall>ws \<in> ran (pi_by_writer pins). list_all (\<lambda>w. pn_sites w \<noteq> []) ws"
    using assms(1,3) by (auto simp: run_ready_def has_pins_def list_ex_iff)
  have "emit_pin_finding rl r m ms \<noteq> None" if "pin_verdict m pins rl req r = Matched ms" for r ms
  proof (rule emit_pin_finding_some)
    have "ms \<noteq> [] \<and> fst (scan_writes m rl req (pi_truncated pins) r (pin_facts_of pins r) ([], False)) = ms"
      using that by (auto simp: pin_verdict_def close_verdict_Matched split: if_splits)
    then have "ms \<noteq> []" "set ms \<subseteq> set (pin_facts_of pins r)"
      by (auto simp: scan_writes_filter split: if_splits)
    then show "ms \<noteq> []" "\<forall>w \<in> set ms. pn_sites w \<noteq> []" using pin_facts_sites [OF pins(2)] by auto
  qed
  then have "run_pin rl req up rs m \<noteq> None" for up
    by (simp add: run_pin_def pins(1) run_routines_some)
  with Some show ?thesis by (simp add: run_rule_def)
qed

text \<open>
  Property C34. The engine returns: on a model in which every summarised routine has its raw facts
  and, for a policy with a pin, there is the writer index and every write it lists has at least one
  site, none of the three places where a rule could panic does.
\<close>

theorem engine_never_panics:
  assumes "run_ready m doc"
  shows "\<exists>ss fs. run_policy_engine m doc = Some (ss, fs)"
proof -
  have "run_rules m doc (evaluated_routines m) rls \<noteq> None" if "set rls \<subseteq> set (po_rules doc)" for rls
    using that
  proof (induction rls)
    case (Cons rl rls)
    then have "run_rule m doc (evaluated_routines m) rl \<noteq> None"
      by (intro run_rule_some [OF assms evaluated_routines_ids(2)]) simp
    with Cons show ?case by (auto split: option.splits)
  qed simp
  then have "run_rules m doc (evaluated_routines m) (sort_key ru_id (po_rules doc)) \<noteq> None" by simp
  then show ?thesis by (auto simp: run_policy_engine_def)
qed

section \<open>A small run\<close>

definition sample_routine :: model_routine where
  "sample_routine = \<lparr> mr_id = ''r'', mr_stable_routine_id = ''r#0'', mr_object_id = ''o'', mr_name = ''Post'', mr_kind = ''procedure'',
     mr_body_available = True,
     mr_parse_incomplete = False, mr_record_variables = [], mr_record_operations = [], mr_parameters = [], mr_access_modifier = None, mr_call_sites = [], mr_field_accesses = [], mr_statement_tree = None,
     mr_source_anchor = \<lparr> source_unit_id = ''u'', start_line = 1, start_column = 0, end_line = 9, end_column = 0, syntax_kind = ''procedure'' \<rparr>,
     mr_assigned_names = [] \<rparr>"

definition sample_model :: policy_model where
  "sample_model = \<lparr> pm_routines = [sample_routine],
     pm_field_indexes = \<lparr> fi_declaring = Map.empty, fi_root_kinds = Map.empty, fi_tables = Map.empty, fi_events = Map.empty \<rparr>,
     pm_summaries = [''r'' \<mapsto> \<lparr> rs_capability_facts_direct = [sample_fact], rs_inherited_status = None \<rparr>],
     pm_raw = finish_facts 1 (ib_insert ''r'' [] empty_inherited), pm_fingerprint_of = (\<lambda>_. ''fp''), pm_regex = (\<lambda>re v. False), pm_pins = None \<rparr>"

lemma sample_raw: "raw_of sample_model sample_rule sample_routine = Some (Some ([], ib_tables (ib_insert ''r'' [] empty_inherited)))"
  by (simp add: raw_of_def sample_model_def sample_routine_def facts_get_def finish_facts_def ib_insert_def facts_seg_def)

lemma sample_facts: "rule_facts sample_model sample_rule sample_routine (Some ([], t)) = [DirectFact sample_fact]"
  by (simp add: rule_facts_def sample_model_def sample_routine_def select_facts_def sample_rule_def slice_facts_def sort_facts_def sort_by_def Let_def)

lemma sample_selected: "selected sample_model sample_rule (fact_context sample_model sample_routine (DirectFact sample_fact))"
  by (simp add: selected_def excepted_def sample_rule_def sample_predicate_def evaluate_result_def field_tristate_def
      get_field_def_def PREDICATE_FIELDS_def field_def evaluate_field_def of_fact_def fact_context_def sample_fact_def kleene_or_def Let_def)

theorem fact_rule_match_exact_witness:
  "fact_verdict sample_model sample_rule ''any'' sample_routine = Some (Matched [DirectFact sample_fact])"
  unfolding fact_rule_match_exact [OF sample_raw] sample_facts by (simp add: sample_selected passes_coverage_gate_def)

theorem engine_never_panics_witness: "\<exists>ss fs. run_policy_engine sample_model sample_policy = Some (ss, fs)"
  by (rule engine_never_panics)
    (simp add: run_ready_def has_pins_def sample_model_def sample_policy_def sample_rule_def sample_routine_def
      facts_get_def finish_facts_def ib_insert_def)

lemma sample_verdict: "fact_verdict sample_model sample_rule ''any'' sample_routine = Some (Matched [DirectFact sample_fact])"
proof -
  have "\<not> skipped sample_model sample_rule sample_routine"
    using sample_selected not_applicable_unselected exempt_unselected unfolding skipped_def selected_def
    by (metis contexts(1,2) tristate.distinct(1))
  then show ?thesis
    by (simp add: fact_verdict_def skipped_def passes_coverage_gate_def sample_raw sample_facts close_verdict_Matched
        scan_facts_filter sample_selected Let_def del: scan_facts.simps)
qed

lemma sample_run_rule:
  "run_rule sample_model sample_policy [sample_routine] sample_rule =
     Some ((new_summary ''no-writes'')\<lparr> rr_routines_evaluated := 1, rr_routines_matched := 1, rr_findings_emitted := 1 \<rparr>,
       [emit_match_finding sample_rule sample_routine sample_model [DirectFact sample_fact]])"
proof -
  have "pick_coverage sample_rule sample_policy = ''any''" "pick_unknown sample_rule sample_policy = ''fail-closed''"
    "ru_requires sample_rule = None" "ru_id sample_rule = ''no-writes''"
    by (simp_all add: pick_coverage_def pick_unknown_def sample_rule_def sample_policy_def)
  then show ?thesis
    by (simp add: run_rule_def run_fact_rule_def sample_verdict record_verdict_def Let_def new_summary_def)
qed

theorem rule_counters_exact_witness:
  "(let s = (new_summary ''no-writes'')\<lparr> rr_routines_evaluated := 1, rr_routines_matched := 1, rr_findings_emitted := 1 \<rparr>
    in rr_routines_evaluated s = length [sample_routine] \<and> rr_findings_emitted s = 1 \<and>
       rr_routines_matched s + rr_routines_skipped_coverage s + rr_routines_skipped_unknown s + rr_routines_passed s + length (filter (\<lambda>r.
         not_applicable sample_model sample_rule r \<or> structurally_exempt sample_model sample_rule r) [sample_routine]) = 1)"
  using rule_counters_exact [OF sample_run_rule] by (simp add: new_summary_def Let_def)

lemma sample_run:
  "run_policy_engine sample_model sample_policy =
     Some ([(new_summary ''no-writes'')\<lparr> rr_routines_evaluated := 1, rr_routines_matched := 1, rr_findings_emitted := 1 \<rparr>],
       [emit_match_finding sample_rule sample_routine sample_model [DirectFact sample_fact]])"
proof -
  have "evaluated_routines sample_model = [sample_routine]" "po_rules sample_policy = [sample_rule]"
    by (simp_all add: evaluated_routines_def sample_model_def sample_policy_def)
  then show ?thesis by (simp add: run_policy_engine_def sample_run_rule)
qed

theorem findings_one_per_rule_and_routine_witness:
  "sort (map ru_id (po_rules sample_policy)) = [''no-writes''] \<and>
   sorted_wrt (<) (map fn_id [emit_match_finding sample_rule sample_routine sample_model [DirectFact sample_fact]])"
  using findings_one_per_rule_and_routine [OF sample_policy_loads sample_run]
  by (simp add: new_summary_def)

end
