(* ===== verification/Summary.thy ===== *)
theory Summary
  imports Combined_Graph Effect_Lattice Joined_Key
begin

text \<open>
  The routine summaries of the solver (\<open>src/src/engine/l4/summary.rs\<close>): the temp state of a record
  operation, database effects, uncertainties with their key, and the de-duplication of uncertainty
  lists. The comparison of two keys that never builds them is proved to be the order of the joined
  strings, and de-duplication to keep the last entry of each key, in key order.
\<close>

section \<open>Temp states\<close>

datatype temp_state = TS_Known bool | TS_ParameterDependent u32 | TS_Unknown

definition from_p :: "p_temp_state \<Rightarrow> temp_state" where
  "from_p ts =
     (if pt_kind ts = ''known'' then TS_Known (unwrap_or False (pt_value ts))
      else if pt_kind ts = ''parameter-dependent'' then TS_ParameterDependent (unwrap_or 0 (pt_parameter_index ts))
      else TS_Unknown)"

fun to_p :: "temp_state \<Rightarrow> p_temp_state" where
  "to_p (TS_Known v) = \<lparr> pt_kind = ''known'', pt_value = Some v, pt_parameter_index = None \<rparr>"
| "to_p (TS_ParameterDependent i) = \<lparr> pt_kind = ''parameter-dependent'', pt_value = None, pt_parameter_index = Some i \<rparr>"
| "to_p TS_Unknown = \<lparr> pt_kind = ''unknown'', pt_value = None, pt_parameter_index = None \<rparr>"

fun to_kind :: "temp_state \<Rightarrow> temp_state_kind" where
  "to_kind (TS_Known v) = Known v"
| "to_kind (TS_ParameterDependent i) = ParameterDependent i"
| "to_kind TS_Unknown = UnknownTemp"

fun kind_to_temp_state :: "temp_state_kind \<Rightarrow> temp_state" where
  "kind_to_temp_state (Known v) = TS_Known v"
| "kind_to_temp_state (ParameterDependent i) = TS_ParameterDependent i"
| "kind_to_temp_state UnknownTemp = TS_Unknown"

lemma temp_state_round_trips [simp]:
  "from_p (to_p t) = t" "kind_to_temp_state (to_kind t) = t" "to_kind (kind_to_temp_state k) = k"
  by (cases t; cases k; simp add: from_p_def)+

lemma to_kind_parameter [simp]: "to_kind t = ParameterDependent j \<longleftrightarrow> t = TS_ParameterDependent j"
  by (cases t) simp_all

section \<open>Effects and summaries\<close>

record db_effect =
  de_effect_key :: string
  de_operation_id :: string
  de_op :: string
  de_table_id :: string
  de_record_variable_id :: "string option"
  de_temp_state :: temp_state
  de_via :: string

record uncertainty =
  un_kind :: string
  un_callsite_id :: "string option"
  un_operation_id :: "string option"
  un_routine_id :: "string option"
  un_interface_name :: "string option"

definition from_graph_uncertainty :: "graph_uncertainty \<Rightarrow> uncertainty" where
  "from_graph_uncertainty u =
     \<lparr> un_kind = gu_kind u, un_callsite_id = gu_callsite_id u, un_operation_id = gu_operation_id u,
       un_routine_id = gu_routine_id u, un_interface_name = gu_interface_name u \<rparr>"

record routine_summary =
  sm_routine_id :: string
  sm_db_effects :: "db_effect list"
  sm_in_recursive_cycle :: bool
  sm_has_unresolved_calls :: bool
  sm_uncertainties :: "uncertainty list"

section \<open>Uncertainty keys\<close>

definition uncertainty_at :: "uncertainty \<Rightarrow> string" where
  "uncertainty_at u =
     (case un_callsite_id u of Some cs \<Rightarrow> cs
      | None \<Rightarrow> (case un_operation_id u of Some op \<Rightarrow> op | None \<Rightarrow> unwrap_or [] (un_routine_id u)))"

definition uncertainty_key :: "uncertainty \<Rightarrow> string" where
  "uncertainty_key u = un_kind u @ ''|'' @ uncertainty_at u"

text \<open>
  The comparison of two keys without building them. The fallback builds the byte sequences.
\<close>

definition cmp_uncertainty_key_bytewise :: "uncertainty \<Rightarrow> uncertainty \<Rightarrow> ordering" where
  "cmp_uncertainty_key_bytewise a b =
     (let seq = (\<lambda>u. un_kind u @ [CHR ''|''] @ uncertainty_at u) in cmp (seq a) (seq b))"

definition cmp_uncertainty_key :: "uncertainty \<Rightarrow> uncertainty \<Rightarrow> ordering" where
  "cmp_uncertainty_key a b =
     (let ka = un_kind a; kb = un_kind b; n = min (length ka) (length kb) in
      case cmp (take n ka) (take n kb) of
        Equal \<Rightarrow>
          (case cmp (length ka) (length kb) of
             Equal \<Rightarrow> cmp (uncertainty_at a) (uncertainty_at b)
           | Less \<Rightarrow>
               (case cmp (CHR ''|'') (kb ! n) of Equal \<Rightarrow> cmp_uncertainty_key_bytewise a b | ord \<Rightarrow> ord)
           | Greater \<Rightarrow>
               (case cmp (ka ! n) (CHR ''|'') of Equal \<Rightarrow> cmp_uncertainty_key_bytewise a b | ord \<Rightarrow> ord))
      | ord \<Rightarrow> ord)"

text \<open>
  \<open>Vec::dedup_by\<close> with the swap: every run of elements with equal keys keeps its last element.
\<close>

fun dedup_keep_last :: "('a \<Rightarrow> 'a \<Rightarrow> bool) \<Rightarrow> 'a list \<Rightarrow> 'a list" where
  "dedup_keep_last same (kept # later # xs) =
     (if same later kept then dedup_keep_last same (later # xs) else kept # dedup_keep_last same (later # xs))"
| "dedup_keep_last same xs = xs"

definition dedupe_uncertainties :: "uncertainty list \<Rightarrow> uncertainty list" where
  "dedupe_uncertainties us =
     dedup_keep_last (\<lambda>a b. cmp_uncertainty_key a b = Equal) (sort_by cmp_uncertainty_key us)"

section \<open>The comparison is the order of the keys\<close>

lemma cmp_take: "n \<le> length x \<Longrightarrow> n \<le> length y \<Longrightarrow> take n x \<noteq> take n y \<Longrightarrow>
  cmp (x @ v) (y @ w) = cmp (take n x) (take n y)"
proof (induction n arbitrary: x y)
  case (Suc n)
  then obtain a x' b y' where "x = a # x'" "y = b # y'" by (cases x; cases y) auto
  with Suc show ?case by (cases "a = b") (auto simp: cmp_Cons then_cmp_decided)
qed simp

lemma cmp_shorter:
  assumes "take (length ka) kb = ka" "length ka < length kb"
  shows "cmp (ka @ c # x) (kb @ y) = then_cmp (cmp c (kb ! length ka)) (cmp x (drop (Suc (length ka)) kb @ y))"
    "cmp (kb @ y) (ka @ c # x) = then_cmp (cmp (kb ! length ka) c) (cmp (drop (Suc (length ka)) kb @ y) x)"
proof -
  have "kb = ka @ kb ! length ka # drop (Suc (length ka)) kb"
    using assms id_take_nth_drop [of "length ka" kb] by simp
  then have "kb @ y = ka @ kb ! length ka # drop (Suc (length ka)) kb @ y" by (metis append.assoc append_Cons)
  then show "cmp (ka @ c # x) (kb @ y) = then_cmp (cmp c (kb ! length ka)) (cmp x (drop (Suc (length ka)) kb @ y))"
    "cmp (kb @ y) (ka @ c # x) = then_cmp (cmp (kb ! length ka) c) (cmp (drop (Suc (length ka)) kb @ y) x)"
    by (simp_all only: cmp_append_same cmp_Cons)
qed

lemma case_ordering_then: "(case r of Equal \<Rightarrow> e | ord \<Rightarrow> ord) = then_cmp r e"
  by (cases r) simp_all

lemma cmp_key: "cmp_uncertainty_key a b = cmp (uncertainty_key a) (uncertainty_key b)"
proof -
  let ?ka = "un_kind a" and ?kb = "un_kind b"
  let ?n = "min (length ?ka) (length ?kb)"
  have bytewise: "cmp_uncertainty_key_bytewise a b = cmp (uncertainty_key a) (uncertainty_key b)"
    by (simp add: cmp_uncertainty_key_bytewise_def uncertainty_key_def)
  show ?thesis
  proof (cases "take ?n ?ka = take ?n ?kb")
    case False
    then show ?thesis
      using cmp_take [of ?n ?ka ?kb]
      by (simp add: cmp_uncertainty_key_def uncertainty_key_def Let_def case_ordering_then then_cmp_decided)
  next
    case same: True
    consider "length ?ka = length ?kb" | "length ?ka < length ?kb" | "length ?kb < length ?ka" by linarith
    then show ?thesis
    proof cases
      case 1
      with same show ?thesis by (simp add: cmp_uncertainty_key_def uncertainty_key_def Let_def cmp_Cons)
    next
      case 2
      with same have "take (length ?ka) ?kb = ?ka" by (simp add: min_def)
      from cmp_shorter(1) [OF this 2] have
        "cmp (uncertainty_key a) (uncertainty_key b) = then_cmp (cmp (CHR ''|'') (?kb ! length ?ka)) (cmp (uncertainty_key a) (uncertainty_key b))"
        by (cases "cmp (CHR ''|'') (?kb ! length ?ka)") (simp_all only: uncertainty_key_def append.simps then_cmp.simps)
      with 2 same show ?thesis
        by (simp add: cmp_uncertainty_key_def Let_def bytewise min_def case_ordering_then cmp_iff(1) [THEN iffD2])
    next
      case 3
      with same have "take (length ?kb) ?ka = ?kb" by (simp add: min_def)
      from cmp_shorter(2) [OF this 3] have
        "cmp (uncertainty_key a) (uncertainty_key b) = then_cmp (cmp (?ka ! length ?kb) (CHR ''|'')) (cmp (uncertainty_key a) (uncertainty_key b))"
        by (cases "cmp (?ka ! length ?kb) (CHR ''|'')") (simp_all only: uncertainty_key_def append.simps then_cmp.simps)
      with 3 same show ?thesis
        by (simp add: cmp_uncertainty_key_def Let_def bytewise min_def case_ordering_then cmp_iff(3) [THEN iffD2])
    qed
  qed
qed

section \<open>De-duplication\<close>

lemma last_filter_Cons: "filter P ys \<noteq> [] \<Longrightarrow> last (filter P (y # ys)) = last (filter P ys)"
  by simp

lemma dedup_keep_last_sorted:
  assumes "sorted (map f xs)"
  shows "dedup_keep_last (\<lambda>a b. f a = f b) xs = map (\<lambda>k. last (filter (\<lambda>x. f x = k) xs)) (remdups (map f xs))"
  using assms
proof (induction "\<lambda>a b. f a = f b" xs rule: dedup_keep_last.induct)
  case (1 kept later xs)
  have eq: "map (\<lambda>k. last (filter (\<lambda>x. f x = k) (kept # later # xs))) ks = map (\<lambda>k. last (filter (\<lambda>x. f x = k) (later # xs))) ks"
    if "set ks \<subseteq> f ` set (later # xs)" for ks
  proof (rule map_cong [OF refl])
    fix k
    assume "k \<in> set ks"
    with that obtain x where "x \<in> set (later # xs)" "f x = k" by blast
    then have "filter (\<lambda>x. f x = k) (later # xs) \<noteq> []" by (auto simp: filter_empty_conv simp del: filter.simps)
    then show "last (filter (\<lambda>x. f x = k) (kept # later # xs)) = last (filter (\<lambda>x. f x = k) (later # xs))"
      by (rule last_filter_Cons)
  qed
  note IH = "1.hyps"
  show ?case
  proof (cases "f later = f kept")
    case True
    then have m: "f kept \<in> set (map f (later # xs))" by simp
    have "dedup_keep_last (\<lambda>a b. f a = f b) (kept # later # xs) = dedup_keep_last (\<lambda>a b. f a = f b) (later # xs)" using True by simp
    also have "\<dots> = map (\<lambda>k. last (filter (\<lambda>x. f x = k) (later # xs))) (remdups (map f (later # xs)))"
      using IH(1) True "1.prems" by simp
    also have "\<dots> = map (\<lambda>k. last (filter (\<lambda>x. f x = k) (kept # later # xs))) (remdups (map f (later # xs)))"
      by (rule eq [symmetric]) auto
    also have "remdups (map f (later # xs)) = remdups (map f (kept # later # xs))" using m by simp
    finally show ?thesis .
  next
    case False
    with "1.prems" have less: "\<forall>x \<in> set (later # xs). f kept < f x" by (auto simp: order_less_le)
    then have none: "filter (\<lambda>x. f x = f kept) (later # xs) = []" by (auto simp: filter_empty_conv)
    have m: "f kept \<notin> set (map f (later # xs))" using less by (metis imageE less_irrefl set_map)
    have "dedup_keep_last (\<lambda>a b. f a = f b) (kept # later # xs) = kept # dedup_keep_last (\<lambda>a b. f a = f b) (later # xs)" using False by simp
    also have "dedup_keep_last (\<lambda>a b. f a = f b) (later # xs) = map (\<lambda>k. last (filter (\<lambda>x. f x = k) (later # xs))) (remdups (map f (later # xs)))"
      using IH(2) False "1.prems" by simp
    also have "\<dots> = map (\<lambda>k. last (filter (\<lambda>x. f x = k) (kept # later # xs))) (remdups (map f (later # xs)))"
      by (rule eq [symmetric]) auto
    finally have rest: "dedup_keep_last (\<lambda>a b. f a = f b) (kept # later # xs) =
      kept # map (\<lambda>k. last (filter (\<lambda>x. f x = k) (kept # later # xs))) (remdups (map f (later # xs)))" .
    have "remdups (map f (kept # later # xs)) = f kept # remdups (map f (later # xs))" using m by simp
    moreover have "last (filter (\<lambda>x. f x = f kept) (kept # later # xs)) = kept"
      unfolding filter.simps(2) [of _ kept] none by simp
    ultimately show ?thesis unfolding rest by (simp only: list.map)
  qed
qed simp_all

lemma sorted_remdups_map: "remdups (map f (sort_key f xs)) = sorted_list_of_set (f ` set xs)"
  by (rule sorted_distinct_set_unique) (simp_all add: sorted_remdups)

lemma dedupe_keys:
  "dedupe_uncertainties us =
     map (\<lambda>k. last (filter (\<lambda>u. uncertainty_key u = k) us)) (sorted_list_of_set (uncertainty_key ` set us))"
proof -
  have sort: "sort_by cmp_uncertainty_key us = sort_key uncertainty_key us"
    by (rule sort_by_sort_key) (rule cmp_key)
  have same: "(\<lambda>a b. cmp_uncertainty_key a b = Equal) = (\<lambda>a b. uncertainty_key a = uncertainty_key b)"
    by (simp add: cmp_key)
  have stable: "filter (\<lambda>u. uncertainty_key u = k) (sort_key uncertainty_key us) = filter (\<lambda>u. uncertainty_key u = k) us" for k
    using sort_key_stable [of uncertainty_key k us] by (simp add: eq_commute)
  show ?thesis
    unfolding dedupe_uncertainties_def sort same
    by (subst dedup_keep_last_sorted) (simp_all add: stable sorted_remdups_map)
qed

lemma dedupe_mem:
  "u \<in> set (dedupe_uncertainties us) \<longleftrightarrow> (\<exists>k \<in> uncertainty_key ` set us. u = last (filter (\<lambda>u. uncertainty_key u = k) us))"
  by (auto simp: dedupe_keys)

lemma dedupe_subset: "set (dedupe_uncertainties us) \<subseteq> set us"
proof
  fix u
  assume "u \<in> set (dedupe_uncertainties us)"
  then obtain k where k: "k \<in> uncertainty_key ` set us" "u = last (filter (\<lambda>u. uncertainty_key u = k) us)"
    by (auto simp: dedupe_mem)
  then have "filter (\<lambda>u. uncertainty_key u = k) us \<noteq> []" by (auto simp: filter_empty_conv)
  from last_in_set [OF this] k(2) show "u \<in> set us" by simp
qed

lemma dedupe_key_set [simp]: "uncertainty_key ` set (dedupe_uncertainties us) = uncertainty_key ` set us"
proof
  show "uncertainty_key ` set (dedupe_uncertainties us) \<subseteq> uncertainty_key ` set us" using dedupe_subset by blast
  show "uncertainty_key ` set us \<subseteq> uncertainty_key ` set (dedupe_uncertainties us)"
  proof
    fix k
    assume k: "k \<in> uncertainty_key ` set us"
    let ?u = "last (filter (\<lambda>u. uncertainty_key u = k) us)"
    from k have "filter (\<lambda>u. uncertainty_key u = k) us \<noteq> []" by (auto simp: filter_empty_conv)
    from last_in_set [OF this] have "uncertainty_key ?u = k" by simp
    moreover have "?u \<in> set (dedupe_uncertainties us)" using k by (auto simp: dedupe_mem)
    ultimately show "k \<in> uncertainty_key ` set (dedupe_uncertainties us)" by force
  qed
qed

text \<open>
  De-duplicating a list of uncertainties gives, in the order of the joined keys
  \<open>kind|at\<close>, one entry for each key of the list: the last one that was listed. This holds for every
  kind and id, also when a kind holds the separator and the comparison falls back to the bytes.
\<close>

theorem dedupe_keeps_last_in_key_order:
  "dedupe_uncertainties us =
     map (\<lambda>k. last (filter (\<lambda>u. uncertainty_key u = k) us)) (sorted_list_of_set (uncertainty_key ` set us))"
  by (rule dedupe_keys)

end
