(* ===== verification/Temp_Binding.thy ===== *)
theory Temp_Binding
  imports Summary
begin

text \<open>
  Where the temp state of a callee's parameter comes from in the caller's frame, and the summary of
  a routine from its own body (\<open>src/src/engine/l4/summary_runner.rs\<close>). A record effect that depends
  on a parameter of the callee is carried over an edge by the argument binding of its call site,
  the record operation that fires a trigger, or the parameter of an event by name; whatever is not
  bound becomes unknown.
\<close>

section \<open>Record operations by id\<close>

text \<open>\<open>str::rsplit_once\<close> and \<open>str::parse::<usize>()\<close> of the standard library.\<close>

definition rsplit_once :: "string \<Rightarrow> string \<Rightarrow> (string \<times> string) option" where
  "rsplit_once pat s =
     map_option (\<lambda>i. (take i s, drop (i + length pat) s))
       (List.find (\<lambda>i. take (length pat) (drop i s) = pat) (rev [0..<Suc (length s)]))"

definition parse_usize :: "string \<Rightarrow> nat option" where
  "parse_usize s =
     (let ds = (case s of c # r \<Rightarrow> if c = CHR ''+'' then r else s | [] \<Rightarrow> [])
      in if ds \<noteq> [] \<and> list_all is_digit ds \<and> dec_value ds \<le> u64_max then Some (dec_value ds) else None)"

definition op_search_limit :: "string \<Rightarrow> nat \<Rightarrow> nat" where
  "op_search_limit op_id len =
     (case Option.bind (rsplit_once ''/op'' op_id) (\<lambda>(_, n). parse_usize n) of
        None \<Rightarrow> 0
      | Some n \<Rightarrow> min len (min u64_max (n + 1)))"

definition record_op_by_id :: "model_routine \<Rightarrow> string \<Rightarrow> model_record_operation option" where
  "record_op_by_id routine op_id =
     (let ops = mr_record_operations routine; hi = op_search_limit op_id (length ops) in
      case List.find (\<lambda>op. mo_id op = op_id) (rev (take hi ops)) of
        Some op \<Rightarrow> Some op
      | None \<Rightarrow> List.find (\<lambda>op. mo_id op = op_id) ops)"

section \<open>Temp states at an edge\<close>

definition RECEIVER_PARAM_INDEX :: u32 where
  "RECEIVER_PARAM_INDEX = - 1"

definition source_temp_state_for :: "model_call_site \<Rightarrow> u32 \<Rightarrow> p_temp_state option" where
  "source_temp_state_for cs i =
     (if i = RECEIVER_PARAM_INDEX then mc_receiver_temp_state cs
      else Option.bind (List.find (\<lambda>b. ab_parameter_index b = i) (mc_argument_bindings cs)) ab_source_temp_state)"

definition op_temp_state :: "model_routine \<Rightarrow> string \<Rightarrow> temp_state" where
  "op_temp_state routine op_id =
     (case Option.bind (record_op_by_id routine op_id) mo_temp_state of None \<Rightarrow> TS_Unknown | Some ts \<Rightarrow> from_p ts)"

definition trigger_receiver_temp_state :: "model_routine \<Rightarrow> string \<Rightarrow> u32 \<Rightarrow> temp_state" where
  "trigger_receiver_temp_state routine op_id callee_param_index =
     (if callee_param_index \<noteq> RECEIVER_PARAM_INDEX then TS_Unknown else op_temp_state routine op_id)"

definition table_event_param_temp_state :: "model_routine \<Rightarrow> string \<Rightarrow> model_routine option \<Rightarrow> u32 \<Rightarrow> temp_state" where
  "table_event_param_temp_state routine op_id subscriber callee_param_index =
     (let is_record = (case subscriber of None \<Rightarrow> False
         | Some s \<Rightarrow> list_ex (\<lambda>p. mp_index p = callee_param_index \<and> mp_is_record p) (mr_parameters s))
      in if \<not> is_record then TS_Unknown else op_temp_state routine op_id)"

definition event_param_temp_state :: "model_routine \<Rightarrow> model_routine \<Rightarrow> u32 \<Rightarrow> temp_state" where
  "event_param_temp_state publisher subscriber sub_param =
     (case event_publisher_param publisher subscriber sub_param of
        None \<Rightarrow> TS_Unknown
      | Some pp \<Rightarrow>
          (case List.find (\<lambda>rv. mv_is_parameter rv \<and> mv_parameter_index rv = Some (mp_index pp)) (mr_record_variables publisher) of
             None \<Rightarrow> TS_Unknown
           | Some rv \<Rightarrow> from_p (mv_temp_state rv)))"

definition pd_temp_state_at_callsite :: "model_routine \<Rightarrow> string \<Rightarrow> u32 \<Rightarrow> temp_state" where
  "pd_temp_state_at_callsite routine site callee_param_index =
     (case List.find (\<lambda>cs. mc_id cs = site) (mr_call_sites routine) of
        None \<Rightarrow> TS_Unknown
      | Some cs \<Rightarrow>
          (case source_temp_state_for cs callee_param_index of
             None \<Rightarrow> TS_Unknown
           | Some ts \<Rightarrow>
               (case from_p ts of
                  TS_Known v \<Rightarrow> TS_Known v
                | TS_ParameterDependent j \<Rightarrow> TS_ParameterDependent j
                | TS_Unknown \<Rightarrow> TS_Unknown)))"

definition substitute_pd_temp_state ::
  "combined_edge \<Rightarrow> u32 \<Rightarrow> model_routine \<Rightarrow> model_routine option \<Rightarrow> temp_state" where
  "substitute_pd_temp_state ed callee_param_index routine target =
     (if ce_kind ed = ''event-dispatch'' then
        (case target of
           Some subscriber \<Rightarrow> event_param_temp_state routine subscriber callee_param_index
         | None \<Rightarrow> TS_Unknown)
      else if ce_kind ed = ''table-event'' then
        (case ce_operation_id ed of
           Some op \<Rightarrow> table_event_param_temp_state routine op target callee_param_index
         | None \<Rightarrow> TS_Unknown)
      else
        (case ce_callsite_id ed of
           None \<Rightarrow> TS_Unknown
         | Some site \<Rightarrow>
             if ce_kind ed \<notin> {''direct'', ''method'', ''implicit-trigger''} then TS_Unknown
             else if ce_kind ed = ''implicit-trigger'' then trigger_receiver_temp_state routine site callee_param_index
             else pd_temp_state_at_callsite routine site callee_param_index))"

section \<open>The summary of a body\<close>

definition is_db_touching :: "string \<Rightarrow> bool" where
  "is_db_touching op \<longleftrightarrow>
     op \<in> {''FindSet'', ''FindFirst'', ''FindLast'', ''Find'', ''Get'', ''Next'', ''Count'', ''CountApprox'', ''IsEmpty'',
       ''CalcFields'', ''CalcSums'', ''Modify'', ''ModifyAll'', ''Insert'', ''Delete'', ''DeleteAll'', ''Rename'', ''LockTable''}"

definition base_effect :: "model_record_operation \<Rightarrow> db_effect" where
  "base_effect op =
     (let table_id = unwrap_or ''unknown'' (mo_table_id op);
          temp_state = (case mo_temp_state op of Some ts \<Rightarrow> from_p ts | None \<Rightarrow> TS_Unknown)
      in \<lparr> de_effect_key = effect_key_of (mo_op op) table_id (mo_id op) (to_kind temp_state),
           de_operation_id = mo_id op, de_op = mo_op op, de_table_id = table_id,
           de_record_variable_id = mo_record_variable_id op, de_temp_state = temp_state, de_via = ''direct'' \<rparr>)"

definition self_uncertainty :: "string \<Rightarrow> string \<Rightarrow> uncertainty" where
  "self_uncertainty kind rid =
     \<lparr> un_kind = kind, un_callsite_id = None, un_operation_id = None, un_routine_id = Some rid, un_interface_name = None \<rparr>"

definition base_intraprocedural_summary :: "model_routine \<Rightarrow> routine_summary" where
  "base_intraprocedural_summary routine =
     (if \<not> mr_body_available routine then
        \<lparr> sm_routine_id = mr_id routine, sm_db_effects = [], sm_in_recursive_cycle = False,
          sm_has_unresolved_calls = True, sm_uncertainties = [self_uncertainty ''opaque-body'' (mr_id routine)] \<rparr>
      else if mr_parse_incomplete routine then
        \<lparr> sm_routine_id = mr_id routine, sm_db_effects = [], sm_in_recursive_cycle = False,
          sm_has_unresolved_calls = True, sm_uncertainties = [self_uncertainty ''parse-incomplete'' (mr_id routine)] \<rparr>
      else
        \<lparr> sm_routine_id = mr_id routine,
          sm_db_effects = sort_key de_effect_key
            (map base_effect (filter (\<lambda>op. is_db_touching (mo_op op)) (mr_record_operations routine))),
          sm_in_recursive_cycle = False, sm_has_unresolved_calls = False, sm_uncertainties = [] \<rparr>)"

section \<open>Properties\<close>

lemma find_distinct:
  assumes "distinct (map f xs)" "x \<in> set xs" "f x = k"
  shows "List.find (\<lambda>x. f x = k) xs = Some x"
proof (cases "List.find (\<lambda>x. f x = k) xs")
  case None
  with assms show ?thesis by (auto simp: find_None_iff)
next
  case (Some y)
  then have "y \<in> set xs" "f y = k" by (auto simp: find_Some_iff)
  with assms Some show ?thesis by (auto simp: distinct_map dest: inj_onD)
qed

lemma find_Some_in: "List.find P xs = Some x \<Longrightarrow> x \<in> set xs \<and> P x"
  by (auto simp: find_Some_iff)

lemma record_op_search:
  "distinct (map mo_id (mr_record_operations r)) \<Longrightarrow>
    record_op_by_id r op_id = List.find (\<lambda>op. mo_id op = op_id) (mr_record_operations r)"
  by (auto simp: record_op_by_id_def Let_def find_distinct dest!: find_Some_in in_set_takeD split: option.split)

text \<open>
  What a parameter of the callee is bound to in the caller's frame over an edge: the temp state of the
  argument or the receiver of the edge's call site, of the record operation that fires a trigger or
  raises a table event (for a record parameter of the subscriber only), or of the publisher's record
  parameter with the name of the subscriber's. \<open>u32\<close> \<open>- 1\<close> is the index of the receiver.
\<close>

inductive binds :: "combined_edge \<Rightarrow> u32 \<Rightarrow> model_routine \<Rightarrow> model_routine option \<Rightarrow> p_temp_state \<Rightarrow> bool"
  for ed i r target where
  argument: "\<lbrakk> ce_kind ed \<in> {''direct'', ''method''}; ce_callsite_id ed = Some (mc_id cs); cs \<in> set (mr_call_sites r);
      i \<noteq> RECEIVER_PARAM_INDEX; b \<in> set (mc_argument_bindings cs); ab_parameter_index b = i; ab_source_temp_state b = Some ts \<rbrakk>
    \<Longrightarrow> binds ed i r target ts"
| receiver: "\<lbrakk> ce_kind ed \<in> {''direct'', ''method''}; ce_callsite_id ed = Some (mc_id cs); cs \<in> set (mr_call_sites r);
      i = RECEIVER_PARAM_INDEX; mc_receiver_temp_state cs = Some ts \<rbrakk>
    \<Longrightarrow> binds ed i r target ts"
| trigger: "\<lbrakk> ce_kind ed = ''implicit-trigger''; ce_callsite_id ed = Some (mo_id op); op \<in> set (mr_record_operations r);
      i = RECEIVER_PARAM_INDEX; mo_temp_state op = Some ts \<rbrakk>
    \<Longrightarrow> binds ed i r target ts"
| table: "\<lbrakk> ce_kind ed = ''table-event''; ce_operation_id ed = Some (mo_id op); op \<in> set (mr_record_operations r);
      target = Some s; q \<in> set (mr_parameters s); mp_index q = i; mp_is_record q; mo_temp_state op = Some ts \<rbrakk>
    \<Longrightarrow> binds ed i r target ts"
| event: "\<lbrakk> ce_kind ed = ''event-dispatch''; target = Some s; q \<in> set (mr_parameters s); mp_index q = i;
      p \<in> set (mr_parameters r); event_param_names_match (mp_name p) (mp_name q); rv \<in> set (mr_record_variables r);
      mv_is_parameter rv; mv_parameter_index rv = Some (mp_index p) \<rbrakk>
    \<Longrightarrow> binds ed i r target (mv_temp_state rv)"

text \<open>
  The ids and indices of a frame are keys: of the caller's record operations, call sites, the bindings of
  each, its record parameters and its parameter names, and of the target's parameters.
\<close>

definition frame_keys :: "model_routine \<Rightarrow> model_routine option \<Rightarrow> bool" where
  "frame_keys r target \<longleftrightarrow>
     distinct (map mo_id (mr_record_operations r)) \<and> distinct (map mc_id (mr_call_sites r)) \<and>
     (\<forall>cs \<in> set (mr_call_sites r). distinct (map ab_parameter_index (mc_argument_bindings cs))) \<and>
     distinct (map mv_parameter_index (filter mv_is_parameter (mr_record_variables r))) \<and>
     (\<forall>p \<in> set (mr_parameters r). \<forall>p' \<in> set (mr_parameters r). event_param_names_match (mp_name p) (mp_name p') \<longrightarrow> p = p') \<and>
     (\<forall>s. target = Some s \<longrightarrow> distinct (map mp_index (mr_parameters s)))"

lemma find_unique_iff:
  "(\<And>x y. x \<in> set xs \<Longrightarrow> y \<in> set xs \<Longrightarrow> P x \<Longrightarrow> P y \<Longrightarrow> x = y) \<Longrightarrow> List.find P xs = Some x \<longleftrightarrow> x \<in> set xs \<and> P x"
  by (cases "List.find P xs") (auto simp: find_None_iff dest: find_Some_in)

lemma find_key_iff: "distinct (map f xs) \<Longrightarrow> List.find (\<lambda>x. f x = k) xs = Some x \<longleftrightarrow> x \<in> set xs \<and> f x = k"
  by (auto dest: find_Some_in find_distinct)

text \<open>A lookup that finds a temp state gives it, and is unknown otherwise.\<close>

definition reads :: "temp_state \<Rightarrow> (p_temp_state \<Rightarrow> bool) \<Rightarrow> bool" where
  "reads t P \<longleftrightarrow> (\<forall>ts. P ts \<longrightarrow> t = from_p ts) \<and> ((\<forall>ts. \<not> P ts) \<longrightarrow> t = TS_Unknown)"

lemma reads_option: "(\<And>ts. x = Some ts \<longleftrightarrow> P ts) \<Longrightarrow> reads (case x of None \<Rightarrow> TS_Unknown | Some ts \<Rightarrow> from_p ts) P"
  unfolding reads_def by (cases x) force+

lemma reads_op:
  assumes "frame_keys r target"
  shows "reads (op_temp_state r k) (\<lambda>ts. \<exists>op \<in> set (mr_record_operations r). mo_id op = k \<and> mo_temp_state op = Some ts)"
  unfolding op_temp_state_def
  by (rule reads_option) (use assms in \<open>auto simp: frame_keys_def record_op_search find_key_iff bind_eq_Some_conv\<close>)

lemma reads_callsite:
  assumes "frame_keys r target"
  shows "reads (pd_temp_state_at_callsite r k i) (\<lambda>ts. \<exists>cs \<in> set (mr_call_sites r). mc_id cs = k \<and>
    (if i = RECEIVER_PARAM_INDEX then mc_receiver_temp_state cs = Some ts
     else \<exists>b \<in> set (mc_argument_bindings cs). ab_parameter_index b = i \<and> ab_source_temp_state b = Some ts))"
proof -
  have eq: "pd_temp_state_at_callsite r k i =
      (case Option.bind (List.find (\<lambda>cs. mc_id cs = k) (mr_call_sites r)) (\<lambda>cs. source_temp_state_for cs i) of
         None \<Rightarrow> TS_Unknown | Some ts \<Rightarrow> from_p ts)"
    by (auto simp: pd_temp_state_at_callsite_def split: option.split temp_state.split)
  have source: "source_temp_state_for cs i = Some ts \<longleftrightarrow>
      (if i = RECEIVER_PARAM_INDEX then mc_receiver_temp_state cs = Some ts
       else \<exists>b \<in> set (mc_argument_bindings cs). ab_parameter_index b = i \<and> ab_source_temp_state b = Some ts)"
    if "cs \<in> set (mr_call_sites r)" for cs ts
  proof -
    have "distinct (map ab_parameter_index (mc_argument_bindings cs))" using that assms by (simp add: frame_keys_def)
    then show ?thesis by (auto simp: source_temp_state_for_def bind_eq_Some_conv find_key_iff)
  qed
  have site: "List.find (\<lambda>cs. mc_id cs = k) (mr_call_sites r) = Some cs \<longleftrightarrow> cs \<in> set (mr_call_sites r) \<and> mc_id cs = k" for cs
    using assms by (simp add: frame_keys_def find_key_iff)
  show ?thesis unfolding eq by (rule reads_option) (simp add: bind_eq_Some_conv site Bex_def source conj_assoc cong: conj_cong)
qed

lemma reads_event:
  assumes "frame_keys r (Some s)"
  shows "reads (event_param_temp_state r s i) (\<lambda>ts. \<exists>q \<in> set (mr_parameters s). \<exists>p \<in> set (mr_parameters r).
    \<exists>rv \<in> set (mr_record_variables r). mp_index q = i \<and> event_param_names_match (mp_name p) (mp_name q) \<and>
      mv_is_parameter rv \<and> mv_parameter_index rv = Some (mp_index p) \<and> mv_temp_state rv = ts)"
proof -
  define found where "found = Option.bind (event_publisher_param r s i)
    (\<lambda>pp. map_option mv_temp_state
       (List.find (\<lambda>rv. mv_is_parameter rv \<and> mv_parameter_index rv = Some (mp_index pp)) (mr_record_variables r)))"
  have eq: "event_param_temp_state r s i = (case found of None \<Rightarrow> TS_Unknown | Some ts \<Rightarrow> from_p ts)"
    by (auto simp: event_param_temp_state_def found_def split: option.split)
  have pub: "event_publisher_param r s i = Some p \<longleftrightarrow> (\<exists>q \<in> set (mr_parameters s). mp_index q = i \<and>
      p \<in> set (mr_parameters r) \<and> event_param_names_match (mp_name p) (mp_name q))" for p
  proof -
    have q: "List.find (\<lambda>q. mp_index q = i) (mr_parameters s) = Some q \<longleftrightarrow> q \<in> set (mr_parameters s) \<and> mp_index q = i" for q
      using assms by (simp add: frame_keys_def find_key_iff)
    have p: "List.find (\<lambda>p. event_param_names_match (mp_name p) n) (mr_parameters r) = Some p \<longleftrightarrow>
        p \<in> set (mr_parameters r) \<and> event_param_names_match (mp_name p) n" for n
    proof (rule find_unique_iff)
      fix p p' assume "p \<in> set (mr_parameters r)" "p' \<in> set (mr_parameters r)"
        "event_param_names_match (mp_name p) n" "event_param_names_match (mp_name p') n"
      then show "p = p'" using assms event_param_names_match_equiv(2,3) unfolding frame_keys_def by meson
    qed
    show ?thesis unfolding event_publisher_param_def bind_eq_Some_conv q p by blast
  qed
  have var: "List.find (\<lambda>rv. mv_is_parameter rv \<and> mv_parameter_index rv = k) (mr_record_variables r) = Some rv \<longleftrightarrow>
      rv \<in> set (mr_record_variables r) \<and> mv_is_parameter rv \<and> mv_parameter_index rv = k" for k rv
    using assms by (intro find_unique_iff) (auto simp: frame_keys_def distinct_map inj_on_def)
  have "found = Some ts \<longleftrightarrow> (\<exists>q \<in> set (mr_parameters s). \<exists>p \<in> set (mr_parameters r).
    \<exists>rv \<in> set (mr_record_variables r). mp_index q = i \<and> event_param_names_match (mp_name p) (mp_name q) \<and>
      mv_is_parameter rv \<and> mv_parameter_index rv = Some (mp_index p) \<and> mv_temp_state rv = ts)" for ts
    unfolding found_def bind_eq_Some_conv pub map_option_eq_Some var by blast
  then show ?thesis unfolding eq by (rule reads_option)
qed

lemma reads_cong: "reads t P \<Longrightarrow> (\<And>ts. P ts \<longleftrightarrow> Q ts) \<Longrightarrow> reads t Q"
  by (simp add: reads_def)

lemma reads_unknown: "(\<And>ts. \<not> Q ts) \<Longrightarrow> reads TS_Unknown Q"
  by (simp add: reads_def)

text \<open>
  Property C38. A parameter of the callee gets over an edge exactly what binds it in the caller's frame:
  the temp state of the argument with its index at the edge's call site (or of the receiver, for the
  receiver), of the record operation that fires the trigger or raises the table event, or of the
  publisher's record parameter of the same name; and it is unknown exactly when nothing does, or what
  does is itself unknown. So no state is invented, and no other argument's, operation's or parameter's is
  taken. The ids and indices of the frame have to be keys of it, and the parameters of the caller to have
  different names, as they have in a program that compiles; where two entries shared a key, the code takes the first.
\<close>

theorem substitution_from_caller_frame:
  assumes "frame_keys r target"
  shows "(\<forall>ts. binds ed i r target ts \<longrightarrow> substitute_pd_temp_state ed i r target = from_p ts) \<and>
    ((\<nexists>ts. binds ed i r target ts) \<longrightarrow> substitute_pd_temp_state ed i r target = TS_Unknown)"
proof -
  note ops = reads_op [OF assms]
  have "reads (substitute_pd_temp_state ed i r target) (binds ed i r target)"
  proof (cases "ce_kind ed = ''event-dispatch''")
    case True
    show ?thesis
    proof (cases target)
      case None
      with True show ?thesis by (auto simp: substitute_pd_temp_state_def binds.simps intro!: reads_unknown)
    next
      case (Some s)
      with True assms show ?thesis
        by (auto simp: substitute_pd_temp_state_def binds.simps intro!: reads_cong [OF reads_event]) blast+
    qed
  next
    case event: False
    show ?thesis
    proof (cases "ce_kind ed = ''table-event''")
      case True
      then show ?thesis
        by (cases "ce_operation_id ed"; cases target;
            auto simp: substitute_pd_temp_state_def table_event_param_temp_state_def Let_def list_ex_iff binds.simps
              intro!: reads_unknown reads_cong [OF ops]; blast)
    next
      case False
      with event show ?thesis
        by (cases "ce_callsite_id ed";
            auto simp: substitute_pd_temp_state_def trigger_receiver_temp_state_def binds.simps
              intro!: reads_unknown reads_cong [OF ops] reads_cong [OF reads_callsite [OF assms]]; blast)
    qed
  qed
  then show ?thesis by (auto simp: reads_def)
qed

text \<open>A call that passes a temporary buffer, and its own record parameter.\<close>

definition binding_anchor :: anchor where
  "binding_anchor = \<lparr> source_unit_id = ''u'', start_line = 7, start_column = 4, end_line = 7, end_column = 30, syntax_kind = ''call_expression'' \<rparr>"

definition binding_argument :: "u32 \<Rightarrow> string \<Rightarrow> p_temp_state \<Rightarrow> argument_binding" where
  "binding_argument i v ts = \<lparr> ab_parameter_index = i, ab_source_kind = ''local'', ab_source_variable_name = Some v,
     ab_source_record_variable_id = None, ab_source_parameter_index = None, ab_caller_source_parameter_is_var = None, ab_source_temp_state = Some ts \<rparr>"

definition binding_site :: model_call_site where
  "binding_site = \<lparr> mc_id = ''a/cs0'', mc_callee = Bare ''B'', mc_argument_texts = [''Buffer'', ''Rec''],
     mc_argument_bindings = [binding_argument 0 ''Buffer'' (to_p (TS_Known True)), binding_argument 1 ''Rec'' (to_p (TS_ParameterDependent 0))],
     mc_source_anchor = binding_anchor, mc_receiver_temp_state = None \<rparr>"

definition binding_caller :: model_routine where
  "binding_caller = \<lparr> mr_id = ''a'', mr_stable_routine_id = ''a#0'', mr_object_id = ''o'', mr_name = ''A'', mr_kind = ''procedure'', mr_body_available = True,
     mr_parse_incomplete = False, mr_record_variables = [], mr_record_operations = [], mr_parameters = [], mr_access_modifier = None,
     mr_call_sites = [binding_site], mr_field_accesses = [], mr_statement_tree = None, mr_source_anchor = binding_anchor, mr_assigned_names = [] \<rparr>"

definition binding_edge :: combined_edge where
  "binding_edge = \<lparr> ce_from = ''a'', ce_to = ''b'', ce_kind = ''direct'', ce_callsite_id = Some ''a/cs0'', ce_operation_id = None, ce_event_id = None,
     ce_subscriber_app_id = None, ce_resolution = ''resolved'', ce_dispatch = None \<rparr>"

theorem substitution_from_caller_frame_witness:
  "substitute_pd_temp_state binding_edge 1 binding_caller None = TS_ParameterDependent 0 \<and>
   substitute_pd_temp_state binding_edge 2 binding_caller None = TS_Unknown"
proof -
  have keys: "frame_keys binding_caller None"
    by (simp add: frame_keys_def binding_caller_def binding_site_def binding_argument_def)
  have one: "binds binding_edge 1 binding_caller None (to_p (TS_ParameterDependent 0))"
    by (rule binds.argument [of _ binding_site _ _ "binding_argument 1 ''Rec'' (to_p (TS_ParameterDependent 0))"])
      (simp_all add: binding_edge_def binding_caller_def binding_site_def binding_argument_def RECEIVER_PARAM_INDEX_def)
  have two: "\<not> binds binding_edge 2 binding_caller None ts" for ts
    by (auto simp: binds.simps binding_edge_def binding_caller_def binding_site_def binding_argument_def RECEIVER_PARAM_INDEX_def)
  from substitution_from_caller_frame [OF keys, of binding_edge] one two show ?thesis by (auto simp: from_p_def)
qed

end
