(* ===== verification/Effect_Universe.thy ===== *)
theory Effect_Universe
  imports Interner
begin

text \<open>
  The effect universe (\<open>src/src/engine/l4/effect_universe.rs\<close>): structured effect identities
  interned as 32-bit ids while the solver runs, then frozen with a rank per id that drives all
  output ordering. The growing universe meets the interning contract; the rank is proved to be
  the position of the id in the order by effect key, operation id and id.
\<close>

section \<open>The growing universe\<close>

record effect_identity =
  ei_op :: string
  ei_table_id :: string
  ei_operation_id :: string
  ei_temp :: temp_state_kind

definition identity_key :: "effect_identity \<Rightarrow> string" where
  "identity_key e = effect_key_of (ei_op e) (ei_table_id e) (ei_operation_id e) (ei_temp e)"

record universe =
  by_identity :: "effect_identity \<rightharpoonup> u32"
  by_id :: "effect_identity list"
  keys :: "string list"

definition new_universe :: universe where
  "new_universe = \<lparr> by_identity = Map.empty, by_id = [], keys = [] \<rparr>"

definition uni_intern :: "effect_identity \<Rightarrow> universe \<Rightarrow> u32 \<times> universe" where
  "uni_intern e u =
     (case by_identity u e of
        Some i \<Rightarrow> (i, u)
      | None \<Rightarrow>
          (let i = of_nat (length (by_id u)) in
           (i, u \<lparr> by_id := by_id u @ [e], by_identity := (by_identity u)(e \<mapsto> i),
                   keys := keys u @ [identity_key e] \<rparr>)))"

definition uni_get :: "universe \<Rightarrow> effect_identity \<Rightarrow> u32 option" where
  "uni_get u e = by_identity u e"

text \<open>An id out of range panics: \<open>None\<close>.\<close>

definition uni_identity :: "universe \<Rightarrow> u32 \<Rightarrow> effect_identity option" where
  "uni_identity u i = (if unat i < length (by_id u) then Some (by_id u ! unat i) else None)"

definition uni_len :: "universe \<Rightarrow> nat" where
  "uni_len u = length (by_id u)"

definition uni_effect_key :: "universe \<Rightarrow> u32 \<Rightarrow> string option" where
  "uni_effect_key u i = map_option identity_key (uni_identity u i)"

definition uni_effect_key_cached :: "universe \<Rightarrow> u32 \<Rightarrow> string option" where
  "uni_effect_key_cached u i = (if unat i < length (keys u) then Some (keys u ! unat i) else None)"

text \<open>The ids in play: \<open>0..by_id.len() as u32\<close>.\<close>

definition all_ids :: "nat \<Rightarrow> u32 list" where
  "all_ids n = map of_nat [0..<unat (of_nat n :: u32)]"

text \<open>Both sorts compare the cached key, then the operation id; both are stable.\<close>

definition id_sort_key :: "string list \<Rightarrow> effect_identity list \<Rightarrow> u32 \<Rightarrow> string \<times> string" where
  "id_sort_key ks es i = (ks ! unat i, ei_operation_id (es ! unat i))"

definition uni_sorted_order :: "universe \<Rightarrow> u32 list" where
  "uni_sorted_order u = sort_key (id_sort_key (keys u) (by_id u)) (all_ids (length (by_id u)))"

section \<open>Freezing\<close>

definition compute_key_rank :: "string list \<Rightarrow> effect_identity list \<Rightarrow> u32 list" where
  "compute_key_rank ks es =
     fold (\<lambda>(rank, i) kr. kr[unat i := of_nat rank])
       (enumerate 0 (sort_key (id_sort_key ks es) (all_ids (length es))))
       (replicate (length es) 0)"

record frozen_universe = universe +
  key_ranks :: "u32 list"

definition freeze :: "universe \<Rightarrow> frozen_universe" where
  "freeze u = \<lparr> by_identity = by_identity u, by_id = by_id u, keys = keys u,
                key_ranks = compute_key_rank (keys u) (by_id u) \<rparr>"

definition frozen_get :: "frozen_universe \<Rightarrow> effect_identity \<Rightarrow> u32 option" where
  "frozen_get f e = by_identity f e"

definition frozen_identity :: "frozen_universe \<Rightarrow> u32 \<Rightarrow> effect_identity option" where
  "frozen_identity f i = (if unat i < length (by_id f) then Some (by_id f ! unat i) else None)"

definition frozen_key_rank :: "frozen_universe \<Rightarrow> u32 \<Rightarrow> u32 option" where
  "frozen_key_rank f i = (if unat i < length (key_ranks f) then Some (key_ranks f ! unat i) else None)"

definition frozen_effect_key :: "frozen_universe \<Rightarrow> u32 \<Rightarrow> string option" where
  "frozen_effect_key f i = map_option identity_key (frozen_identity f i)"

definition frozen_effect_key_cached :: "frozen_universe \<Rightarrow> u32 \<Rightarrow> string option" where
  "frozen_effect_key_cached f i = (if unat i < length (keys f) then Some (keys f ! unat i) else None)"

definition frozen_sorted_order :: "frozen_universe \<Rightarrow> u32 list" where
  "frozen_sorted_order f = sort_key (\<lambda>i. key_ranks f ! unat i) (all_ids (length (by_id f)))"

section \<open>The interning contract\<close>

definition uni_ok :: "universe \<Rightarrow> bool" where
  "uni_ok u = (table_ok (by_id u) (by_identity u) \<and> keys u = map identity_key (by_id u))"

interpretation effect_ids: interner uni_intern uni_get uni_identity uni_ok uni_len
proof unfold_locales
  fix u e e' i
  assume ok: "uni_ok u"
  show "uni_len u < 2 ^ 32 \<Longrightarrow> uni_ok (snd (uni_intern e u))"
    using ok table_ok_extend by (auto simp: uni_ok_def uni_intern_def uni_len_def Let_def split: option.split)
  show "uni_len (snd (uni_intern e u)) = (if uni_get u e = None then Suc (uni_len u) else uni_len u)"
    by (auto simp: uni_intern_def uni_get_def uni_len_def Let_def split: option.split)
  show "uni_get (snd (uni_intern e u)) e = Some (fst (uni_intern e u))"
    by (auto simp: uni_intern_def uni_get_def Let_def split: option.split)
  show "uni_get u e' = Some i \<Longrightarrow> uni_get (snd (uni_intern e u)) e' = Some i"
    by (auto simp: uni_intern_def uni_get_def Let_def split: option.split)
  show "uni_get (snd (uni_intern e u)) e' = Some i \<Longrightarrow> e' \<noteq> e \<Longrightarrow> uni_get u e' = Some i"
    by (auto simp: uni_intern_def uni_get_def Let_def split: option.splits)
  show "uni_get u e = Some i \<Longrightarrow> uni_identity u i = Some e" "uni_get u e = Some i \<Longrightarrow> unat i < uni_len u"
    using ok by (auto simp: uni_ok_def uni_get_def uni_identity_def uni_len_def table_ok_def)
qed

lemma new_uni_ok [simp]: "uni_ok new_universe" "uni_len new_universe = 0"
  by (simp_all add: uni_ok_def new_universe_def table_ok_def uni_len_def)

abbreviation intern_identities :: "effect_identity list \<Rightarrow> universe \<Rightarrow> universe" where
  "intern_identities es u \<equiv> fold (\<lambda>e u. snd (uni_intern e u)) es u"

section \<open>Ranks\<close>

lemma sort_key_ties:
  assumes "sorted xs"
  shows "sort_key f xs = sort_key (\<lambda>x. (f x, x)) xs"
proof (rule properties_for_sort_key)
  let ?ys = "sort_key (\<lambda>x. (f x, x)) xs"
  show "filter (\<lambda>y. f x = f y) ?ys = filter (\<lambda>y. f x = f y) xs" for x
  proof -
    have "sorted (map (\<lambda>x. (f x, x)) (filter (\<lambda>y. f x = f y) ?ys))"
      by (rule sorted_filter) simp
    moreover have "map (\<lambda>x. (f x, x)) (filter (\<lambda>y. f x = f y) ?ys) = map (\<lambda>y. (f x, y)) (filter (\<lambda>y. f x = f y) ?ys)"
      by (rule map_cong) auto
    ultimately have "sorted (map (\<lambda>y. (f x, y)) (filter (\<lambda>y. f x = f y) ?ys))" by simp
    then have "sorted (filter (\<lambda>y. f x = f y) ?ys)"
      by (simp add: sorted_iff_nth_mono less_eq_prod_def)
    moreover have "sorted (filter (\<lambda>y. f x = f y) xs)" using assms by (metis list.map_ident sorted_filter)
    moreover have "mset (filter (\<lambda>y. f x = f y) ?ys) = mset (filter (\<lambda>y. f x = f y) xs)" by simp
    ultimately show ?thesis by (metis properties_for_sort)
  qed
  have "sorted (map fst (map (\<lambda>x. (f x, x)) ?ys))"
    by (rule sorted_map_mono) (auto simp: mono_on_def less_eq_prod_def)
  then show "sorted (map f ?ys)" by (simp add: comp_def)
qed simp

lemma all_ids_props:
  assumes "n < 2 ^ 32"
  shows "length (all_ids n) = n" "sorted (all_ids n)" "distinct (all_ids n)"
    "i \<in> set (all_ids n) \<longleftrightarrow> unat i < n"
proof -
  have n: "unat (of_nat n :: u32) = n" by (rule of_nat_inverse [OF refl]) (use assms in simp)
  have r: "unat (of_nat j :: u32) = j" if "j < n" for j
    by (rule of_nat_inverse [OF refl]) (use assms that in simp)
  show "length (all_ids n) = n" by (simp add: all_ids_def n)
  show "sorted (all_ids n)" by (simp add: all_ids_def n sorted_iff_nth_mono word_le_nat_alt r)
  have "inj_on (of_nat :: nat \<Rightarrow> u32) (set [0..<n])" by (rule inj_onI) (metis atLeastLessThan_iff r set_upt)
  then show "distinct (all_ids n)" by (simp add: all_ids_def n distinct_map)
  have "i \<in> (of_nat :: nat \<Rightarrow> u32) ` {0..<n} \<longleftrightarrow> unat i < n"
  proof
    assume "unat i < n"
    then show "i \<in> (of_nat :: nat \<Rightarrow> u32) ` {0..<n}" by (intro image_eqI [of _ _ "unat i"]) simp_all
  qed (auto simp: r)
  then show "i \<in> set (all_ids n) \<longleftrightarrow> unat i < n" by (simp add: all_ids_def n)
qed

lemma rank_fold:
  fixes xs :: "u32 list"
  assumes "distinct xs" "r < length xs" "\<forall>i \<in> set xs. unat i < length kr"
  shows "fold (\<lambda>(rank, i) kr. kr[unat i := of_nat rank]) (enumerate k xs) kr ! unat (xs ! r) = of_nat (k + r)"
proof -
  let ?step = "\<lambda>(rank, i) kr. kr[unat i := of_nat rank]"
  have keep: "fold ?step (enumerate k xs) kr ! unat i = kr ! unat i" if "i \<notin> set xs" for i :: u32 and k xs kr
    using that by (induction xs arbitrary: k kr) (auto simp: word_unat_eq_iff)
  show ?thesis using assms
  proof (induction xs arbitrary: r k kr)
    case (Cons x xs)
    then show ?case
    proof (cases r)
      case 0
      with Cons.prems keep [of x xs "Suc k" "kr[unat x := of_nat k]"] show ?thesis by simp
    next
      case (Suc r')
      with Cons.prems Cons.IH [of r' "kr[unat x := of_nat k]" "Suc k"] show ?thesis by simp
    qed
  qed simp
qed

lemma rank_fold_length:
  "length (fold (\<lambda>(rank, i) kr. kr[unat i := of_nat rank]) ps kr) = length kr"
  by (induction ps arbitrary: kr) auto

text \<open>The order both sorts produce, and the rank as a position in it.\<close>

lemma sorted_order_props:
  assumes "uni_ok u" "uni_len u < 2 ^ 32"
  shows "set (uni_sorted_order u) = {i. unat i < uni_len u}" "distinct (uni_sorted_order u)"
    "length (uni_sorted_order u) = uni_len u"
    "sorted (map (\<lambda>i. (id_sort_key (keys u) (by_id u) i, i)) (uni_sorted_order u))"
proof -
  have n: "length (by_id u) < 2 ^ 32" using assms by (simp add: uni_len_def)
  note ids = all_ids_props [OF n]
  show "set (uni_sorted_order u) = {i. unat i < uni_len u}"
    using ids(4) by (auto simp: uni_sorted_order_def uni_len_def)
  show "distinct (uni_sorted_order u)" using ids(3) by (simp add: uni_sorted_order_def)
  show "length (uni_sorted_order u) = uni_len u" using ids(1) by (simp add: uni_sorted_order_def uni_len_def)
  show "sorted (map (\<lambda>i. (id_sort_key (keys u) (by_id u) i, i)) (uni_sorted_order u))"
    unfolding uni_sorted_order_def by (subst sort_key_ties [OF ids(2)]) simp
qed

lemma rank_at:
  assumes "uni_ok u" "uni_len u < 2 ^ 32" "r < uni_len u"
  shows "key_ranks (freeze u) ! unat (uni_sorted_order u ! r) = of_nat r"
    "frozen_key_rank (freeze u) (uni_sorted_order u ! r) = Some (of_nat r)"
proof -
  note so = sorted_order_props [OF assms(1,2)]
  have "compute_key_rank (keys u) (by_id u) ! unat (uni_sorted_order u ! r) = of_nat (0 + r)"
    unfolding compute_key_rank_def uni_sorted_order_def
    by (rule rank_fold) (use so assms(3) in \<open>auto simp: uni_sorted_order_def uni_len_def\<close>)
  then show "key_ranks (freeze u) ! unat (uni_sorted_order u ! r) = of_nat r" by (simp add: freeze_def)
  moreover have "uni_sorted_order u ! r \<in> {i. unat i < uni_len u}"
    using so(1,3) assms(3) by (metis nth_mem)
  ultimately show "frozen_key_rank (freeze u) (uni_sorted_order u ! r) = Some (of_nat r)"
    by (simp add: frozen_key_rank_def freeze_def compute_key_rank_def rank_fold_length uni_len_def)
qed

lemma id_at:
  assumes "uni_ok u" "uni_len u < 2 ^ 32" "unat i < uni_len u"
  obtains r where "r < uni_len u" "uni_sorted_order u ! r = i"
    "frozen_key_rank (freeze u) i = Some (of_nat r)" "key_ranks (freeze u) ! unat i = of_nat r"
proof -
  note so = sorted_order_props [OF assms(1,2)]
  from assms(3) so(1) have "i \<in> set (uni_sorted_order u)" by simp
  then obtain r where "r < uni_len u" "uni_sorted_order u ! r = i" using so(3) by (metis in_set_conv_nth)
  then show thesis using rank_at [OF assms(1,2)] that by metis
qed

text \<open>
  The rank computed at the freeze is a total order on the ids without ties: an id
  ranks below another exactly when its (effect key, operation id) is smaller, ids with equal keys
  in id order; each rank below the universe's size is taken, and the ids are not renumbered.
\<close>

theorem key_rank_is_total_order:
  assumes "uni_ok u" "uni_len u < 2 ^ 32" "unat i < uni_len u" "unat j < uni_len u"
    "frozen_key_rank (freeze u) i = Some ri" "frozen_key_rank (freeze u) j = Some rj"
  shows "(ri < rj \<longleftrightarrow> (id_sort_key (keys u) (by_id u) i, i) < (id_sort_key (keys u) (by_id u) j, j)) \<and>
    (ri = rj \<longleftrightarrow> i = j) \<and> unat ri < uni_len u \<and>
    frozen_identity (freeze u) i = uni_identity u i"
proof -
  let ?k = "\<lambda>i. (id_sort_key (keys u) (by_id u) i, i)"
  note so = sorted_order_props [OF assms(1,2)]
  obtain r where r: "r < uni_len u" "uni_sorted_order u ! r = i" "ri = of_nat r"
    by (rule id_at [OF assms(1,2,3)]) (use assms(5) in auto)
  obtain q where q: "q < uni_len u" "uni_sorted_order u ! q = j" "rj = of_nat q"
    by (rule id_at [OF assms(1,2,4)]) (use assms(6) in auto)
  have u: "unat ri = r" "unat rj = q"
    using r q assms(2) by (auto intro!: of_nat_inverse [OF refl])
  have mono: "?k (uni_sorted_order u ! a) \<le> ?k (uni_sorted_order u ! b)" if "a \<le> b" "b < uni_len u" for a b
    using sorted_nth_mono [OF so(4), of a b] that so(3) by simp
  have eq: "r = q \<longleftrightarrow> i = j" using nth_eq_iff_index_eq [OF so(2)] r q so(3) by metis
  have "r < q \<longleftrightarrow> ?k i < ?k j"
  proof (cases "r < q")
    case True
    then show ?thesis using mono [of r q] r q eq by (simp add: order.strict_iff_order)
  next
    case False
    then have "?k j \<le> ?k i" using mono [of q r] r q by (simp only: not_less)
    then have "\<not> ?k i < ?k j" by (rule leD)
    with False show ?thesis by blast
  qed
  moreover have "frozen_identity (freeze u) i = uni_identity u i"
    by (simp add: frozen_identity_def uni_identity_def freeze_def)
  ultimately show ?thesis using u eq r(1) by (auto simp: word_less_nat_alt word_unat_eq_iff)
qed

definition sample_identities :: "effect_identity list" where
  "sample_identities =
     [\<lparr> ei_op = ''Zeta'', ei_table_id = ''t1'', ei_operation_id = ''op1'', ei_temp = Known True \<rparr>,
      \<lparr> ei_op = ''Alpha'', ei_table_id = ''t1'', ei_operation_id = ''op2'', ei_temp = UnknownTemp \<rparr>]"

lemma intern_identities_new:
  assumes "length es \<le> 2 ^ 32"
  shows "uni_ok (intern_identities es new_universe)" "uni_len (intern_identities es new_universe) \<le> length es"
    "e \<in> set es \<longleftrightarrow> uni_get (intern_identities es new_universe) e \<noteq> None"
  using effect_ids.intern_all(1,2) [of new_universe es] effect_ids.intern_all(3,5) [of new_universe es e] assms
  by simp_all (auto simp: uni_get_def new_universe_def)

lemmas universe_eval = new_universe_def uni_intern_def uni_len_def sample_identities_def Let_def freeze_def
  compute_key_rank_def all_ids_def id_sort_key_def identity_key_def effect_key_of_def frozen_key_rank_def
  less_char_def upt_rec

theorem key_rank_is_total_order_witness:
  "\<exists>u. frozen_key_rank (freeze u) 0 = Some 1 \<and> frozen_key_rank (freeze u) 1 = Some 0 \<and>
     (id_sort_key (keys u) (by_id u) 1, 1 :: u32) < (id_sort_key (keys u) (by_id u) 0, 0)"
proof (intro exI conjI)
  let ?u = "intern_identities sample_identities new_universe"
  have ok: "uni_ok ?u" using intern_identities_new [of sample_identities] by (simp add: sample_identities_def)
  have len: "uni_len ?u = 2" by (simp add: universe_eval)
  show 1: "frozen_key_rank (freeze ?u) 0 = Some 1" by (simp add: universe_eval)
  show 0: "frozen_key_rank (freeze ?u) 1 = Some 0" by (simp add: universe_eval)
  show "(id_sort_key (keys ?u) (by_id ?u) 1, 1 :: u32) < (id_sort_key (keys ?u) (by_id ?u) 0, 0)"
    using key_rank_is_total_order [OF ok _ _ _ 0 1] len by simp
qed

text \<open>
  Property C21. Freezing loses nothing: the frozen order is the growing one; the frozen universe caches for
  every id, and for no other number, the key that is computed from the id's identity, and it is the
  growing universe's; and after interning a list of identities exactly those have an id, from which the
  frozen universe gives the identity back.
\<close>

theorem freeze_preserves_universe:
  assumes "length es < 2 ^ 32" "u = intern_identities es new_universe"
  shows "frozen_sorted_order (freeze u) = uni_sorted_order u \<and>
    frozen_effect_key_cached (freeze u) = frozen_effect_key (freeze u) \<and>
    frozen_effect_key (freeze u) = uni_effect_key u \<and>
    uni_effect_key_cached u = uni_effect_key u \<and>
    (e \<in> set es \<longleftrightarrow> frozen_get (freeze u) e \<noteq> None) \<and>
    (frozen_get (freeze u) e = Some i \<longrightarrow> frozen_identity (freeze u) i = Some e \<and>
       frozen_effect_key_cached (freeze u) i = Some (identity_key e))"
proof (intro conjI impI)
  have es: "length es \<le> 2 ^ 32" using assms(1) by simp
  note new = intern_identities_new [OF es, folded assms(2)]
  have len: "uni_len u < 2 ^ 32" using new(2) assms(1) by simp
  note so = sorted_order_props [OF new(1) len]
  have n: "length (by_id u) < 2 ^ 32" using len by (simp add: uni_len_def)
  note ids = all_ids_props [OF n]
  show "uni_effect_key_cached u = uni_effect_key u"
    using new(1) by (auto simp: uni_ok_def uni_effect_key_cached_def uni_effect_key_def uni_identity_def fun_eq_iff)
  show cached: "frozen_effect_key_cached (freeze u) = frozen_effect_key (freeze u)"
    using new(1) by (auto simp: uni_ok_def frozen_effect_key_cached_def frozen_effect_key_def frozen_identity_def freeze_def fun_eq_iff)
  show "frozen_effect_key (freeze u) = uni_effect_key u"
    by (simp add: frozen_effect_key_def frozen_identity_def uni_effect_key_def uni_identity_def freeze_def fun_eq_iff)
  show "e \<in> set es \<longleftrightarrow> frozen_get (freeze u) e \<noteq> None"
    using new(3) by (simp add: frozen_get_def uni_get_def freeze_def)
  show identity: "frozen_identity (freeze u) i = Some e" if "frozen_get (freeze u) e = Some i"
    using effect_ids.name_get [OF new(1), of e i] that
    by (auto simp: frozen_get_def uni_get_def freeze_def frozen_identity_def uni_identity_def split: if_splits)
  show "frozen_effect_key_cached (freeze u) i = Some (identity_key e)" if "frozen_get (freeze u) e = Some i"
    using identity [OF that] by (simp add: cached frozen_effect_key_def)
  let ?f = "\<lambda>i. key_ranks (freeze u) ! unat i"
  have ranks: "map ?f (uni_sorted_order u) = map of_nat [0..<uni_len u]"
    using rank_at(1) [OF new(1) len] so(3) by (intro nth_equalityI) simp_all
  have small: "unat (of_nat r :: u32) = r" if "r < uni_len u" for r
    by (rule of_nat_inverse [OF refl]) (use len that in simp)
  have d: "distinct (map (of_nat :: nat \<Rightarrow> u32) [0..<uni_len u])"
    by (auto simp: distinct_map intro!: inj_onI) (metis small)
  have "sorted (map (of_nat :: nat \<Rightarrow> u32) [0..<uni_len u])"
    by (simp add: sorted_iff_nth_mono word_le_nat_alt small)
  then have "sorted (map ?f (uni_sorted_order u))" using ranks by simp
  moreover have "inj_on ?f (set (uni_sorted_order u))"
    using d ranks by (metis distinct_map)
  moreover have "mset (uni_sorted_order u) = mset (all_ids (length (by_id u)))" by (simp add: uni_sorted_order_def)
  moreover have "set (uni_sorted_order u) = set (all_ids (length (by_id u)))" by (simp add: uni_sorted_order_def)
  ultimately show "frozen_sorted_order (freeze u) = uni_sorted_order u"
    using sort_key_inj_key_eq [of "all_ids (length (by_id u))" "uni_sorted_order u" ?f]
    by (simp add: frozen_sorted_order_def freeze_def)
qed

theorem freeze_preserves_universe_witness:
  "frozen_sorted_order (freeze (intern_identities sample_identities new_universe)) = [1, 0]"
proof -
  have "frozen_sorted_order (freeze (intern_identities sample_identities new_universe)) =
      uni_sorted_order (intern_identities sample_identities new_universe)"
    using freeze_preserves_universe [where es = sample_identities and u = "intern_identities sample_identities new_universe"]
    by (simp add: sample_identities_def)
  then show ?thesis by (simp add: universe_eval uni_sorted_order_def)
qed

end
