(* ===== verification/Effect_Bits.thy ===== *)
theory Effect_Bits
  imports Effect_Universe
begin

unbundle bit_operations_syntax

text \<open>
  Sets of effect ids (\<open>src/src/engine/l4/effect_store.rs\<close>): presence bitsets, the scan over their
  set bits, and the hybrid set that is a sorted list below 256 members and a word array with a
  cumulative-popcount table above. Each operation is proved against the set of ids it stands for.
\<close>

section \<open>Bitsets\<close>

definition set_bit_at :: "u64 list \<Rightarrow> u32 \<Rightarrow> u64 list" where
  "set_bit_at bits i =
     (let word = unat i div 64;
          bits = (if length bits \<le> word then bits @ replicate (word + 1 - length bits) 0 else bits)
      in bits[word := bits ! word OR push_bit (unat i mod 64) 1])"

definition has_bit :: "u64 list \<Rightarrow> u32 \<Rightarrow> bool" where
  "has_bit bits i =
     (let word = unat i div 64 in word < length bits \<and> (bits ! word AND push_bit (unat i mod 64) 1) \<noteq> 0)"

definition or_bits :: "u64 list \<Rightarrow> u64 list \<Rightarrow> u64 list" where
  "or_bits dst src =
     (let dst = (if length dst < length src then dst @ replicate (length src - length dst) 0 else dst)
      in map2 (\<lambda>d s. d OR s) dst src @ drop (length src) dst)"

definition trailing_zeros :: "u64 \<Rightarrow> nat" where
  "trailing_zeros w = length (takeWhile (\<lambda>b. \<not> bit w b) [0..<64])"

definition count_ones :: "u64 \<Rightarrow> u32" where
  "count_ones w = of_nat (length (filter (bit w) [0..<64]))"

text \<open>The scan of one word clears its lowest set bit until none is left.\<close>

lemma clear_lowest_nat:
  "odd (n div 2 ^ k) \<Longrightarrow> 2 ^ k dvd n \<Longrightarrow> bit (n AND (n - 1)) j \<longleftrightarrow> bit n j \<and> j \<noteq> k" for n :: nat
proof (induction k arbitrary: n j)
  case 0
  then obtain m where n: "n = 2 * m + 1" by (auto elim: oddE)
  then have "bit (n - 1) j \<longleftrightarrow> bit n j \<and> j \<noteq> 0" by (cases j) (auto simp: bit_Suc bit_0)
  then show ?case by (auto simp only: bit_and_iff)
next
  case (Suc k)
  then obtain m where n: "n = 2 * m" by (metis dvd_mult_left power_Suc dvdE)
  have m: "odd (m div 2 ^ k)" "2 ^ k dvd m" using Suc.prems by (simp_all add: n)
  then have "m \<noteq> 0" by (intro notI) simp
  then have "(n - 1) div 2 = m - 1" using n by (cases m) auto
  moreover have "bit m i \<and> bit (m - 1) i \<longleftrightarrow> bit m i \<and> i \<noteq> k" for i using Suc.IH [OF m, of i] by (simp add: bit_and_iff)
  ultimately have "bit n j \<and> bit (n - 1) j \<longleftrightarrow> bit n j \<and> j \<noteq> Suc k" by (cases j) (auto simp: bit_Suc bit_0 n)
  then show ?case by (simp only: bit_and_iff)
qed

lemma lowest_bit:
  fixes w :: u64
  assumes "w \<noteq> 0"
  shows "bit w (trailing_zeros w)" "trailing_zeros w < 64" "j < trailing_zeros w \<Longrightarrow> \<not> bit w j"
proof -
  let ?P = "\<lambda>b. \<not> bit w b"
  have "\<exists>j < 64. bit w j"
  proof (rule ccontr)
    assume "\<not> (\<exists>j < 64. bit w j)"
    then have "w = 0" by (intro bit_word_eqI) simp
    with assms show False by simp
  qed
  then obtain j where "bit w j" "j < 64" by blast
  then have "\<not> (\<forall>b \<in> set [0..<64]. ?P b)" by auto
  then have l: "trailing_zeros w < length [0..<64]"
    unfolding trailing_zeros_def by (metis length_takeWhile_le nat_less_le takeWhile_eq_all_conv takeWhile_eq_take take_all)
  then show t: "trailing_zeros w < 64" by simp
  show "bit w (trailing_zeros w)"
    using nth_length_takeWhile [of ?P "[0..<64]"] l t by (simp add: trailing_zeros_def)
  show "\<not> bit w j" if "j < trailing_zeros w" for j
    using takeWhile_nth [of j ?P "[0..<64]"] that t nth_mem [of j "takeWhile ?P [0..<64]"]
    by (auto simp: trailing_zeros_def dest: set_takeWhileD)
qed

lemma clear_lowest:
  fixes w :: u64
  assumes "w \<noteq> 0"
  shows "bit (w AND (w - 1)) j \<longleftrightarrow> bit w j \<and> j \<noteq> trailing_zeros w"
proof -
  let ?k = "trailing_zeros w"
  note low = lowest_bit [OF assms]
  have "take_bit ?k (unat w) = 0"
    by (rule bit_eqI) (auto simp: bit_take_bit_iff bit_unsigned_iff dest: low(3))
  then have dvd: "2 ^ ?k dvd unat w" by (simp add: take_bit_eq_0_iff)
  have odd: "odd (unat w div 2 ^ ?k)" using low(1) by (simp add: bit_iff_odd [symmetric] bit_unsigned_iff)
  have "unat (w - 1) = unat w - 1" using assms by (simp add: unat_minus_one)
  then have "bit (unat (w AND (w - 1))) j \<longleftrightarrow> bit (unat w) j \<and> j \<noteq> ?k"
    using clear_lowest_nat [OF odd dvd] by (simp add: unsigned_and_eq)
  then show ?thesis by (simp add: bit_unsigned_iff)
qed

lemma clear_lowest_less: "w \<noteq> 0 \<Longrightarrow> unat (w AND (w - 1)) < unat w" for w :: u64
proof -
  assume w: "w \<noteq> 0"
  have "w AND (w - 1) \<noteq> w" using clear_lowest [OF w, of "trailing_zeros w"] lowest_bit(1) [OF w] by metis
  moreover have "unat (w AND (w - 1)) \<le> unat w" by (simp add: unsigned_and_eq and_nat_def) (metis AND_upper1 nat_int unat_eq_nat_uint uint_ge_0 nat_mono)
  ultimately show ?thesis by (metis le_neq_implies_less word_unat_eq_iff)
qed

function scan_word :: "u32 \<Rightarrow> u64 \<Rightarrow> u32 list" where
  "scan_word word_idx remaining =
     (if remaining = 0 then []
      else (word_idx * 64 + of_nat (trailing_zeros remaining)) # scan_word word_idx (remaining AND (remaining - 1)))"
  by auto
termination by (relation "measure (\<lambda>(_, w). unat w)") (auto simp: clear_lowest_less)

declare scan_word.simps [simp del]

definition iter_set_bits :: "u64 list \<Rightarrow> u32 list" where
  "iter_set_bits bits = concat (map (\<lambda>(word_idx, word). scan_word (of_nat word_idx) word) (enumerate 0 bits))"

definition popcount :: "u64 list \<Rightarrow> u32" where
  "popcount bits = sum_list (map count_ones bits)"

lemma filter_bits_upt:
  assumes "w \<noteq> (0 :: u64)"
  shows "filter (bit w) [0..<64] = trailing_zeros w # filter (bit (w AND (w - 1))) [0..<64]"
proof -
  let ?k = "trailing_zeros w"
  note low = lowest_bit [OF assms]
  have split: "[0..<64] = [0..<?k] @ ?k # [Suc ?k..<64]"
    using low(2) by (metis le_add1 add_0 less_imp_le upt_add_eq_append upt_conv_Cons le_add_diff_inverse)
  have "filter (bit w) [0..<?k] = []" using low(3) by (auto simp: filter_empty_conv)
  moreover have "filter (bit (w AND (w - 1))) [0..<?k] = []"
    using low(3) by (auto simp: filter_empty_conv clear_lowest [OF assms])
  moreover have "filter (bit (w AND (w - 1))) [Suc ?k..<64] = filter (bit w) [Suc ?k..<64]"
    by (rule filter_cong) (auto simp: clear_lowest [OF assms])
  ultimately show ?thesis unfolding split using low(1) by (simp add: clear_lowest [OF assms])
qed

lemma scan_word_eq: "scan_word i w = map (\<lambda>b. i * 64 + of_nat b) (filter (bit w) [0..<64])"
proof (induction i w rule: scan_word.induct)
  case (1 i w)
  then show ?case by (subst scan_word.simps) (simp add: filter_bits_upt)
qed

section \<open>Bitsets as sets of ids\<close>

definition nbit :: "u64 list \<Rightarrow> nat \<Rightarrow> bool" where
  "nbit bits n = (n div 64 < length bits \<and> bit (bits ! (n div 64)) (n mod 64))"

definition bits_fit :: "u64 list \<Rightarrow> bool" where
  "bits_fit bits = (length bits \<le> 2 ^ 26)"

lemma has_bit_iff: "has_bit bits i \<longleftrightarrow> nbit bits (unat i)"
  by (simp add: has_bit_def nbit_def Let_def bit_iff_and_push_bit_not_eq_0)

lemma nbit_padded: "nbit (bits @ replicate k 0) n \<longleftrightarrow> nbit bits n"
  by (auto simp: nbit_def nth_append)

lemma id_word_bound: "unat i div 64 < 2 ^ 26" for i :: u32
proof -
  have "unat i < 2 ^ LENGTH(32)" by (rule unsigned_less)
  then show ?thesis by simp
qed

lemma has_bit_set: "has_bit (set_bit_at bits i) j \<longleftrightarrow> j = i \<or> has_bit bits j"
proof -
  let ?w = "unat i div 64"
  define bs where "bs = (if length bits \<le> ?w then bits @ replicate (?w + 1 - length bits) 0 else bits)"
  have l: "?w < length bs" by (simp add: bs_def)
  have "nbit (bs[?w := bs ! ?w OR push_bit (unat i mod 64) 1]) n \<longleftrightarrow> n = unat i \<or> nbit bs n" for n
  proof (cases "n div 64 = ?w")
    case True
    then have "n = unat i \<longleftrightarrow> n mod 64 = unat i mod 64" by (metis div_mult_mod_eq)
    with True l show ?thesis
      by (auto simp: nbit_def bit_or_iff bit_exp_iff)
  next
    case False
    with l show ?thesis by (auto simp: nbit_def)
  qed
  moreover have "nbit bs n \<longleftrightarrow> nbit bits n" for n by (simp add: bs_def nbit_padded)
  moreover have "set_bit_at bits i = bs[?w := bs ! ?w OR push_bit (unat i mod 64) 1]"
    by (simp add: set_bit_at_def bs_def Let_def)
  ultimately show ?thesis by (simp add: has_bit_iff word_unat_eq_iff)
qed

lemma has_bit_or: "has_bit (or_bits dst src) j \<longleftrightarrow> has_bit dst j \<or> has_bit src j"
proof -
  define bs where "bs = (if length dst < length src then dst @ replicate (length src - length dst) 0 else dst)"
  have l: "length src \<le> length bs" by (simp add: bs_def)
  then have "nbit (map2 (\<lambda>d s. d OR s) bs src @ drop (length src) bs) n \<longleftrightarrow> nbit bs n \<or> nbit src n" for n
    by (auto simp: nbit_def nth_append bit_or_iff)
  moreover have "nbit bs n \<longleftrightarrow> nbit dst n" for n by (simp add: bs_def nbit_padded)
  ultimately show ?thesis by (simp add: has_bit_iff or_bits_def Let_def flip: bs_def)
qed

lemma fit_set [simp]: "bits_fit bits \<Longrightarrow> bits_fit (set_bit_at bits i)"
  using id_word_bound [of i] by (simp add: bits_fit_def set_bit_at_def Let_def)

lemma fit_or [simp]: "bits_fit a \<Longrightarrow> bits_fit b \<Longrightarrow> bits_fit (or_bits a b)"
  by (auto simp: bits_fit_def or_bits_def Let_def)

lemma iter_eq: "iter_set_bits bits = map of_nat (filter (nbit bits) [0..<64 * length bits])"
proof (induction bits rule: rev_induct)
  case (snoc w bits)
  let ?n = "length bits"
  have 1: "filter (nbit (bits @ [w])) [0..<64 * ?n] = filter (nbit bits) [0..<64 * ?n]"
    by (rule filter_cong) (auto simp: nbit_def nth_append)
  have "[64 * ?n..<64 * ?n + 64] = map (\<lambda>b. 64 * ?n + b) [0..<64]"
    using map_add_upt [of "64 * ?n" 64] by (simp add: add.commute)
  moreover have "nbit (bits @ [w]) (64 * ?n + b) = bit w b" if "b < 64" for b using that by (simp add: nbit_def)
  ultimately have 2: "filter (nbit (bits @ [w])) [64 * ?n..<64 * ?n + 64] = map (\<lambda>b. 64 * ?n + b) (filter (bit w) [0..<64])"
    by (auto simp: filter_map o_def intro!: filter_cong)
  have up: "[0..<64 * length (bits @ [w])] = [0..<64 * ?n] @ [64 * ?n..<64 * ?n + 64]"
  proof -
    have "64 * length (bits @ [w]) = 64 * ?n + 64" by simp
    then show ?thesis using upt_add_eq_append [of 0 "64 * ?n" 64, OF le0] by metis
  qed
  have "iter_set_bits (bits @ [w]) = iter_set_bits bits @ scan_word (of_nat ?n) w"
    by (simp add: iter_set_bits_def enumerate_append_eq)
  also have "scan_word (of_nat ?n) w = map of_nat (map (\<lambda>b. 64 * ?n + b) (filter (bit w) [0..<64]))"
    unfolding scan_word_eq map_map by (rule map_cong [OF refl]) (simp add: mult.commute)
  finally show ?case unfolding up filter_append 1 2 map_append snoc.IH .
qed (simp add: iter_set_bits_def)

lemma length_iter: "length (iter_set_bits bits) = sum_list (map (\<lambda>w. length (filter (bit w) [0..<64])) bits)"
  by (induction bits rule: rev_induct) (simp_all add: iter_set_bits_def enumerate_append_eq scan_word_eq del: upt_rec_numeral)

lemma popcount_eq: "popcount bits = of_nat (length (iter_set_bits bits))"
  unfolding length_iter by (induction bits) (simp_all add: popcount_def count_ones_def del: upt_rec_numeral)

lemma iter_props:
  assumes "bits_fit bits"
  shows "sorted (iter_set_bits bits)" "distinct (iter_set_bits bits)" "set (iter_set_bits bits) = {i. has_bit bits i}"
proof -
  have small: "unat (of_nat n :: u32) = n" if "n < 64 * length bits" for n
    by (rule of_nat_inverse [OF refl]) (use that assms in \<open>simp add: bits_fit_def\<close>)
  let ?ns = "filter (nbit bits) [0..<64 * length bits]"
  have "sorted (map (of_nat :: nat \<Rightarrow> u32) [0..<64 * length bits])"
    by (simp add: sorted_iff_nth_mono word_le_nat_alt small)
  then show "sorted (iter_set_bits bits)" unfolding iter_eq by (rule sorted_filter)
  have "inj_on (of_nat :: nat \<Rightarrow> u32) (set ?ns)"
    by (rule inj_onI) (metis (mono_tags, lifting) small atLeastLessThan_iff filter_is_subset set_upt subsetD)
  then show "distinct (iter_set_bits bits)" unfolding iter_eq by (simp add: distinct_map)
  have lt: "n < 64 * length bits" if "nbit bits n" for n using that by (auto simp: nbit_def)
  have "i \<in> of_nat ` set ?ns \<longleftrightarrow> nbit bits (unat i)" for i :: u32
  proof
    assume "nbit bits (unat i)"
    with lt show "i \<in> of_nat ` set ?ns" by (intro image_eqI [of _ _ "unat i"]) auto
  qed (auto simp: small)
  then show "set (iter_set_bits bits) = {i. has_bit bits i}" by (auto simp: iter_eq has_bit_iff)
qed

lemma iter_cong:
  assumes "bits_fit a" "bits_fit b" "\<And>i. has_bit a i \<longleftrightarrow> has_bit b i"
  shows "iter_set_bits a = iter_set_bits b"
  by (rule sorted_distinct_set_unique) (use assms iter_props in auto)

section \<open>Binary search\<close>

text \<open>The loop of the standard library's \<open>binary_search\<close>.\<close>

function bs_loop :: "u32 list \<Rightarrow> u32 \<Rightarrow> nat \<Rightarrow> nat \<Rightarrow> nat" where
  "bs_loop xs x base sz =
     (if sz > 1 then
        let half = sz div 2; mid = base + half
        in bs_loop xs x (if xs ! mid > x then base else mid) (sz - half)
      else base)"
  by auto
termination by (relation "measure (\<lambda>(_, _, _, sz). sz)") auto

declare bs_loop.simps [simp del]

definition binary_search :: "u32 list \<Rightarrow> u32 \<Rightarrow> nat option" where
  "binary_search xs x =
     (if xs = [] then None
      else let i = bs_loop xs x 0 (length xs) in if xs ! i = x then Some i else None)"

lemma bs_loop_range: "0 < sz \<Longrightarrow> base \<le> bs_loop xs x base sz \<and> bs_loop xs x base sz < base + sz"
proof (induction xs x base sz rule: bs_loop.induct)
  case (1 xs x base sz)
  show ?case
  proof (cases "sz > 1")
    case True
    with 1 show ?thesis by (subst (1 2) bs_loop.simps) (fastforce simp: Let_def)
  qed (use 1 in \<open>subst (1 2) bs_loop.simps, simp\<close>)
qed

lemma bs_loop_finds:
  assumes "sorted xs" "distinct xs" "k < length xs" "xs ! k = x"
  shows "base \<le> k \<Longrightarrow> k < base + sz \<Longrightarrow> base + sz \<le> length xs \<Longrightarrow> bs_loop xs x base sz = k"
  using assms
proof (induction xs x base sz rule: bs_loop.induct)
  case (1 xs x base sz)
  show ?case
  proof (cases "sz > 1")
    case True
    let ?half = "sz div 2" and ?mid = "base + sz div 2"
    have mid: "?mid < length xs" "0 < ?half" using True 1(4) by auto
    have "xs ! ?mid > x \<longleftrightarrow> ?mid > k"
    proof
      assume "xs ! ?mid > x"
      then show "?mid > k" using sorted_nth_mono [OF 1(5), of ?mid k] 1(7,8) by (metis leD not_less)
    next
      assume "?mid > k"
      then show "xs ! ?mid > x"
        using sorted_nth_mono [OF 1(5), of k ?mid] nth_eq_iff_index_eq [OF 1(6), of k ?mid] mid 1(7,8) by force
    qed
    then have "bs_loop xs x (if xs ! ?mid > x then base else ?mid) (sz - ?half) = k"
      using 1(2,3,4) mid by (intro 1(1) [OF True refl refl]) (use 1(5-8) in auto)
    with True show ?thesis by (subst bs_loop.simps) (simp add: Let_def)
  qed (use 1 in \<open>subst bs_loop.simps, simp\<close>)
qed

lemma binary_search_iff:
  assumes "sorted xs" "distinct xs"
  shows "binary_search xs x = Some k \<longleftrightarrow> k < length xs \<and> xs ! k = x"
proof
  assume "binary_search xs x = Some k"
  then show "k < length xs \<and> xs ! k = x"
    using bs_loop_range [of "length xs" 0 xs x] by (auto simp: binary_search_def Let_def split: if_splits)
next
  assume k: "k < length xs \<and> xs ! k = x"
  then show "binary_search xs x = Some k"
    using bs_loop_finds [OF assms, of k x 0 "length xs"] by (auto simp: binary_search_def)
qed

section \<open>The hybrid set\<close>

definition sparse_threshold :: u32 where
  "sparse_threshold = 256"

definition rank_lut_block :: nat where
  "rank_lut_block = 8"

datatype hybrid_set = Sparse "u32 list" | Dense (dense_words: "u64 list") (dense_lut: "u32 list") (dense_card: u32)

text \<open>\<open>chunks\<close> of the standard library: consecutive slices of \<open>n\<close> elements, the last one shorter.\<close>

fun chunks :: "nat \<Rightarrow> 'a list \<Rightarrow> 'a list list" where
  "chunks n [] = []"
| "chunks n (x # xs) = take (Suc (n - 1)) (x # xs) # chunks n (drop (n - 1) xs)"

definition build_rank_lut :: "u64 list \<Rightarrow> u32 list" where
  "build_rank_lut words =
     snd (fold (\<lambda>block (acc, lut). let acc = acc + sum_list (map count_ones block) in (acc, lut @ [acc]))
       (chunks rank_lut_block words) (0, [0]))"

text \<open>
  The canonical words: as many as the frozen universe needs, bits past its length cleared
  (\<open>debug_assert\<close>s aside, which a release build does not run).
\<close>

definition frozen_words :: "u64 list \<Rightarrow> nat \<Rightarrow> u64 list" where
  "frozen_words bits frozen_len =
     (let n_words = (frozen_len + 63) div 64;
          words = fold (\<lambda>(i, w) words. if i < n_words then words[i := w] else words)
            (enumerate 0 bits) (replicate n_words 0);
          tail = frozen_len mod 64
      in if tail \<noteq> 0 \<and> n_words > 0
         then words[n_words - 1 := words ! (n_words - 1) AND (push_bit tail 1 - 1)]
         else words)"

definition from_bits :: "u64 list \<Rightarrow> nat \<Rightarrow> hybrid_set" where
  "from_bits bits frozen_len =
     (let words = frozen_words bits frozen_len; n_ids = popcount words
      in if n_ids < sparse_threshold then Sparse (iter_set_bits words)
         else Dense words (build_rank_lut words) n_ids)"

fun cardinality :: "hybrid_set \<Rightarrow> u32" where
  "cardinality (Sparse ids) = of_nat (length ids)"
| "cardinality (Dense _ _ n_ids) = n_ids"

fun set_contains :: "hybrid_set \<Rightarrow> u32 \<Rightarrow> bool" where
  "set_contains (Sparse ids) i = (binary_search ids i \<noteq> None)"
| "set_contains (Dense words _ _) i = has_bit words i"

fun set_iter :: "hybrid_set \<Rightarrow> u32 list" where
  "set_iter (Sparse ids) = ids"
| "set_iter (Dense words _ _) = iter_set_bits words"

fun ordinal_of :: "hybrid_set \<Rightarrow> u32 \<Rightarrow> u32 option" where
  "ordinal_of (Sparse ids) i = map_option of_nat (binary_search ids i)"
| "ordinal_of (Dense words lut _) i =
     (if \<not> has_bit words i then None
      else
        let word = unat i div 64; block = word div rank_lut_block;
            ord = lut ! block +
              sum_list (map count_ones (take (word - block * rank_lut_block) (drop (block * rank_lut_block) words)));
            below = words ! word AND (push_bit (unat i mod 64) 1 - 1)
        in Some (ord + count_ones below))"

text \<open>The framed words.\<close>

lemma frame_fold:
  "length (fold (\<lambda>(i, w) words. if i < n then words[i := w] else words) (enumerate k bits) ws) = length ws"
  "length ws = n \<Longrightarrow> j < n \<Longrightarrow>
     fold (\<lambda>(i, w) words. if i < n then words[i := w] else words) (enumerate k bits) ws ! j =
       (if k \<le> j \<and> j < k + length bits then bits ! (j - k) else ws ! j)"
proof (induction bits arbitrary: k ws)
  case (Cons w bits)
  { case 1 show ?case by (simp add: Cons.IH(1)) }
  { case 2 then show ?case by (auto simp: Cons.IH(2) nth_Cons' nth_list_update) }
qed auto

lemma length_frozen_words [simp]: "length (frozen_words bits n) = (n + 63) div 64"
  by (simp add: frozen_words_def Let_def frame_fold(1))

lemma mask_bit: "bit (w AND (2 ^ k - 1)) b \<longleftrightarrow> bit w b \<and> b < k" for w :: u64
  by (auto simp: bit_and_iff bit_mask_iff simp flip: mask_eq_exp_minus_1 dest: bit_imp_le_length)

lemma words_count: "(n + 63) div 64 = n div 64 + (if n mod 64 = 0 then 0 else 1)" for n :: nat
  by (cases "n mod 64 = 0") (auto simp: div_add1_eq [of n 63] le_div_geq)

lemma nbit_frozen_words: "nbit (frozen_words bits n) j \<longleftrightarrow> nbit bits j \<and> j < n"
proof (cases "j div 64 < (n + 63) div 64")
  case True
  define n_words where "n_words = (n + 63) div 64"
  define ws where "ws = fold (\<lambda>(i, w) words. if i < n_words then words[i := w] else words)
            (enumerate 0 bits) (replicate n_words 0)"
  have ws: "length ws = n_words" "ws ! i = (if i < length bits then bits ! i else 0)" if "i < n_words" for i
    using that by (simp_all add: ws_def frame_fold)
  have j: "j div 64 < n_words" using True by (simp add: n_words_def)
  have eq: "frozen_words bits n = (if n mod 64 \<noteq> 0 \<and> n_words > 0
      then ws[n_words - 1 := ws ! (n_words - 1) AND (push_bit (n mod 64) 1 - 1)] else ws)"
    by (simp add: frozen_words_def ws_def n_words_def Let_def)
  have bw: "bit (ws ! (j div 64)) (j mod 64) \<longleftrightarrow> nbit bits j" using ws(2) [OF j] by (simp add: nbit_def)
  show ?thesis
  proof (cases "n mod 64 \<noteq> 0 \<and> j div 64 = n_words - 1")
    case True
    then have "j div 64 = n div 64" by (simp add: n_words_def words_count)
    then have "j < n \<longleftrightarrow> j mod 64 < n mod 64" using div_mult_mod_eq [of j 64] div_mult_mod_eq [of n 64] by linarith
    with True ws(1) [OF j] j bw show ?thesis unfolding eq by (auto simp: nbit_def mask_bit)
  next
    case False
    then have "j div 64 < n div 64" using j by (auto simp: n_words_def words_count split: if_splits)
    then have "j < n" by (metis div_le_mono not_less)
    with False ws(1) [OF j] j bw show ?thesis unfolding eq by (auto simp: nbit_def)
  qed
next
  case False
  then show ?thesis by (auto simp: nbit_def)
qed

lemma fit_frozen_words: "n \<le> 2 ^ 32 \<Longrightarrow> bits_fit (frozen_words bits n)"
  by (simp add: bits_fit_def)

text \<open>The rank table: entry \<open>b\<close> counts the bits of the first \<open>b\<close> blocks.\<close>

lemma popcount_append [simp]: "popcount (xs @ ys) = popcount xs + popcount ys"
  by (simp add: popcount_def)

lemma lut_fold:
  "snd (fold (\<lambda>block (acc, lut). let acc = acc + sum_list (map count_ones block) in (acc, lut @ [acc])) bs (a, lut)) =
     lut @ map (\<lambda>k. a + popcount (concat (take (Suc k) bs))) [0..<length bs]"
proof (induction bs arbitrary: a lut)
  case (Cons b bs)
  have up: "[0..<length (b # bs)] = 0 # map Suc [0..<length bs]" by (metis length_Cons map_Suc_upt upt_conv_Cons zero_less_Suc)
  show ?case unfolding up using Cons by (simp add: Let_def popcount_def add.assoc)
qed simp

lemma concat_chunks: "0 < n \<Longrightarrow> k \<le> length (chunks n xs) \<Longrightarrow> concat (take k (chunks n xs)) = take (n * k) xs"
proof (induction n xs arbitrary: k rule: chunks.induct)
  case (2 n x xs)
  show ?case
  proof (cases k)
    case (Suc k')
    with 2 have "concat (take k' (chunks n (drop (n - 1) xs))) = take (n * k') (drop (n - 1) xs)" by simp
    then have "concat (take k (chunks n (x # xs))) = x # take (n - 1) xs @ take (n * k') (drop (n - 1) xs)"
      using Suc by simp
    also have "\<dots> = x # take (n - 1 + n * k') xs" by (simp only: take_add)
    also have "n - 1 + n * k' = n * k - 1" using Suc 2(2) by (cases n) simp_all
    finally show ?thesis using Suc 2(2) by (cases "n * k") simp_all
  qed simp
qed simp

lemma length_chunks: "0 < n \<Longrightarrow> k * n < length xs \<Longrightarrow> k < length (chunks n xs)"
proof (induction n xs arbitrary: k rule: chunks.induct)
  case (2 n x xs)
  show ?case
  proof (cases k)
    case (Suc k')
    with 2(2,3) have "k' * n < length (drop (n - 1) xs)" by (cases n) auto
    with 2 Suc show ?thesis by simp
  qed simp
qed simp

lemma build_rank_lut_nth:
  assumes "b * rank_lut_block < length words"
  shows "build_rank_lut words ! b = popcount (take (b * rank_lut_block) words)"
proof -
  let ?cs = "chunks rank_lut_block words"
  have b: "b < length ?cs" by (rule length_chunks) (use assms in \<open>simp_all add: rank_lut_block_def\<close>)
  have lut: "build_rank_lut words = 0 # map (\<lambda>k. popcount (concat (take (Suc k) ?cs))) [0..<length ?cs]"
    by (simp add: build_rank_lut_def lut_fold)
  show ?thesis
  proof (cases b)
    case (Suc k)
    have "concat (take b ?cs) = take (rank_lut_block * b) words"
      by (rule concat_chunks) (use b in \<open>simp_all add: rank_lut_block_def\<close>)
    with Suc b show ?thesis unfolding lut by (simp add: mult.commute)
  qed (simp add: lut popcount_def)
qed

lemma filter_position: "n < N \<Longrightarrow> P n \<Longrightarrow> filter P [0..<N] ! length (filter P [0..<n]) = n"
proof -
  assume n: "n < N" "P n"
  then have "[0..<N] = [0..<n] @ n # [Suc n..<N]"
    by (metis le_add1 add_0 less_imp_le upt_add_eq_append upt_conv_Cons le_add_diff_inverse)
  with n(2) show ?thesis by (simp add: nth_append)
qed

lemma filter_take_bits:
  "word < length bits \<Longrightarrow> k \<le> 64 \<Longrightarrow>
     length (filter (nbit bits) [0..<64 * word + k]) =
       length (iter_set_bits (take word bits)) + length (filter (bit (bits ! word)) [0..<k])"
proof -
  assume w: "word < length bits" "k \<le> 64"
  have "[0..<64 * word + k] = [0..<64 * word] @ [64 * word..<64 * word + k]" by (rule upt_add_eq_append) simp
  moreover have "filter (nbit bits) [0..<64 * word] = filter (nbit (take word bits)) [0..<64 * word]"
    by (rule filter_cong) (use w in \<open>auto simp: nbit_def\<close>)
  moreover have "[64 * word..<64 * word + k] = map (\<lambda>b. 64 * word + b) [0..<k]"
    using map_add_upt [of "64 * word" k] by (simp add: add.commute)
  moreover have "filter (\<lambda>b. nbit bits (64 * word + b)) [0..<k] = filter (bit (bits ! word)) [0..<k]"
    by (rule filter_cong) (use w in \<open>auto simp: nbit_def\<close>)
  ultimately show ?thesis using w by (simp add: iter_eq filter_map o_def min_def)
qed

lemma ordinal_dense:
  assumes "bits_fit words" "has_bit words i"
  shows "ordinal_of (Dense words (build_rank_lut words) c) i = Some (of_nat (length (filter (nbit words) [0..<unat i])))"
    "length (filter (nbit words) [0..<unat i]) < length (iter_set_bits words)"
    "iter_set_bits words ! length (filter (nbit words) [0..<unat i]) = i"
proof -
  let ?word = "unat i div 64" and ?k = "unat i mod 64" and ?block = "unat i div 64 div rank_lut_block"
  have n: "nbit words (unat i)" using assms(2) by (simp add: has_bit_iff)
  then have w: "?word < length words" by (simp add: nbit_def)
  have bl: "?block * rank_lut_block \<le> ?word" by (simp add: rank_lut_block_def)
  have "take ?word words = take (?block * rank_lut_block) words @
      take (?word - ?block * rank_lut_block) (drop (?block * rank_lut_block) words)"
    using bl by (metis le_add_diff_inverse take_add)
  moreover have "build_rank_lut words ! ?block = popcount (take (?block * rank_lut_block) words)"
    by (rule build_rank_lut_nth) (use bl w in linarith)
  ultimately have ord: "build_rank_lut words ! ?block +
      sum_list (map count_ones (take (?word - ?block * rank_lut_block) (drop (?block * rank_lut_block) words))) =
      popcount (take ?word words)" by (simp add: popcount_def)
  have "[0..<64] = [0..<?k] @ [?k..<64]"
    using upt_add_eq_append [of 0 ?k "64 - ?k"] by (simp del: upt_rec_numeral)
  moreover have "filter (bit (words ! ?word AND (push_bit ?k 1 - 1))) [0..<?k] = filter (bit (words ! ?word)) [0..<?k]"
    by (rule filter_cong) (simp_all add: mask_bit)
  moreover have "filter (bit (words ! ?word AND (push_bit ?k 1 - 1))) [?k..<64] = []"
    by (auto simp: filter_empty_conv mask_bit)
  ultimately have below: "count_ones (words ! ?word AND (push_bit ?k 1 - 1)) =
      of_nat (length (filter (bit (words ! ?word)) [0..<?k]))"
    by (simp only: count_ones_def filter_append append_Nil2)
  have "length (filter (nbit words) [0..<64 * ?word + ?k]) =
      length (iter_set_bits (take ?word words)) + length (filter (bit (words ! ?word)) [0..<?k])"
    by (rule filter_take_bits [OF w]) simp
  then have len: "length (filter (nbit words) [0..<unat i]) =
      length (iter_set_bits (take ?word words)) + length (filter (bit (words ! ?word)) [0..<?k])" by simp
  show "ordinal_of (Dense words (build_rank_lut words) c) i = Some (of_nat (length (filter (nbit words) [0..<unat i])))"
    unfolding ordinal_of.simps Let_def ord below popcount_eq len using assms(2) by simp
  have lt: "unat i < 64 * length words" using n by (auto simp: nbit_def)
  have "filter (nbit words) [0..<64 * length words] ! length (filter (nbit words) [0..<unat i]) = unat i"
    using lt n by (rule filter_position)
  moreover have "length (filter (nbit words) [0..<unat i]) < length (filter (nbit words) [0..<64 * length words])"
  proof -
    have "[0..<64 * length words] = [0..<unat i] @ unat i # [Suc (unat i)..<64 * length words]"
      using lt by (metis le_add1 add_0 less_imp_le upt_add_eq_append upt_conv_Cons le_add_diff_inverse)
    then show ?thesis using n by simp
  qed
  ultimately show "length (filter (nbit words) [0..<unat i]) < length (iter_set_bits words)"
    "iter_set_bits words ! length (filter (nbit words) [0..<unat i]) = i"
    by (simp_all add: iter_eq)
qed

text \<open>Every hybrid set is its id list.\<close>

lemma from_bits_iter: "n \<le> 2 ^ 32 \<Longrightarrow> set_iter (from_bits bits n) = iter_set_bits (frozen_words bits n)"
  by (simp add: from_bits_def Let_def)

lemma has_bit_frozen: "has_bit (frozen_words bits n) i \<longleftrightarrow> has_bit bits i \<and> unat i < n"
  by (simp add: has_bit_iff nbit_frozen_words)

lemma set_iter_props:
  assumes "n \<le> 2 ^ 32"
  shows "set (set_iter (from_bits bits n)) = {i. has_bit bits i \<and> unat i < n}"
    "sorted (set_iter (from_bits bits n))" "distinct (set_iter (from_bits bits n))"
    "cardinality (from_bits bits n) = of_nat (length (set_iter (from_bits bits n)))"
  using iter_props [OF fit_frozen_words [OF assms, of bits]]
  by (auto simp: from_bits_iter [OF assms] has_bit_frozen)
    (simp add: from_bits_def Let_def popcount_eq)

lemma set_iter_frozen:
  assumes "n \<le> 2 ^ 32" "bits_fit bits" "\<And>i. has_bit bits i \<Longrightarrow> unat i < n"
  shows "set_iter (from_bits bits n) = iter_set_bits bits"
  unfolding from_bits_iter [OF assms(1)]
  by (rule iter_cong) (use assms fit_frozen_words in \<open>auto simp: has_bit_frozen\<close>)

lemma from_bits_in_range:
  assumes "n < 2 ^ 32"
  shows "length (set_iter (from_bits bits n)) \<le> n" "unat (of_nat (length (set_iter (from_bits bits n))) :: u32) =
    length (set_iter (from_bits bits n))"
proof -
  note p = set_iter_props [of n bits, OF less_imp_le [OF assms]]
  have "card (set (set_iter (from_bits bits n))) \<le> card (set (all_ids n))"
    by (rule card_mono) (use all_ids_props [OF assms] p(1) in auto)
  then show le: "length (set_iter (from_bits bits n)) \<le> n"
    using p(3) all_ids_props [OF assms] by (simp add: distinct_card)
  show "unat (of_nat (length (set_iter (from_bits bits n))) :: u32) = length (set_iter (from_bits bits n))"
    by (rule of_nat_inverse [OF refl]) (use le assms in simp)
qed

lemma position_option:
  fixes i :: 'a and k :: u32
  assumes "distinct xs" "\<And>m. m < length xs \<Longrightarrow> unat (of_nat m :: u32) = m"
    "i \<in> set xs \<Longrightarrow> m < length xs \<and> xs ! m = i"
  shows "map_option of_nat (if i \<in> set xs then Some m else None) = Some k \<longleftrightarrow> unat k < length xs \<and> xs ! unat k = i"
proof (cases "i \<in> set xs")
  case True
  then have m: "m < length xs" "xs ! m = i" using assms(3) by auto
  have "of_nat m = k \<longleftrightarrow> unat k = m" using assms(2) [OF m(1)] by (auto simp: word_unat_eq_iff)
  moreover have "unat k = m \<longleftrightarrow> unat k < length xs \<and> xs ! unat k = i"
    using m nth_eq_iff_index_eq [OF assms(1), of "unat k" m] by auto
  ultimately show ?thesis using True by simp
qed auto

lemma contains_and_ordinal:
  assumes "s = from_bits bits n" "n < 2 ^ 32"
  shows "(set_contains s i \<longleftrightarrow> i \<in> set (set_iter s)) \<and>
    (ordinal_of s i = Some k \<longleftrightarrow> unat k < length (set_iter s) \<and> set_iter s ! unat k = i)"
proof -
  have le: "n \<le> 2 ^ 32" using assms(2) by simp
  note p = set_iter_props [of n bits, OF le, folded assms(1)]
  note r = from_bits_in_range [of n bits, OF assms(2), folded assms(1)]
  have small: "unat (of_nat m :: u32) = m" if "m < length (set_iter s)" for m
    by (rule of_nat_inverse [OF refl]) (use that r(1) assms(2) in simp)
  show ?thesis
  proof (cases s)
    case (Sparse ids)
    then have bs: "binary_search ids i = Some m \<longleftrightarrow> m < length ids \<and> ids ! m = i" for m
      using binary_search_iff p(2,3) by simp
    have mem: "binary_search ids i \<noteq> None \<longleftrightarrow> i \<in> set ids" using bs by (auto simp: in_set_conv_nth)
    then have "ordinal_of s i = map_option of_nat (if i \<in> set (set_iter s) then Some (the (binary_search ids i)) else None)"
      by (auto simp: Sparse)
    then show ?thesis
      using position_option [OF p(3) small, of i "the (binary_search ids i)" k] bs mem by (fastforce simp: Sparse)
  next
    case (Dense words lut c)
    then have w: "words = frozen_words bits n" "lut = build_rank_lut words"
      using assms(1) by (auto simp: from_bits_def Let_def split: if_splits)
    have fit: "bits_fit words" using w fit_frozen_words [OF le] by simp
    have mem: "i \<in> set (iter_set_bits words) \<longleftrightarrow> has_bit words i" using iter_props(3) [OF fit] by simp
    let ?m = "length (filter (nbit words) [0..<unat i])"
    note od = ordinal_dense(1) [OF fit, of i c, folded w(2)] ordinal_dense(2,3) [OF fit, of i]
    have "ordinal_of s i = map_option of_nat (if i \<in> set (set_iter s) then Some ?m else None)"
      using od(1) mem by (auto simp: Dense)
    then show ?thesis using position_option [OF p(3) small, of i ?m k] od(2,3) mem by (simp add: Dense)
  qed
qed

lemma ordinal_of_position:
  "n < 2 ^ 32 \<Longrightarrow> ordinal_of (from_bits bits n) i = Some k \<Longrightarrow>
     unat k < length (set_iter (from_bits bits n)) \<and> set_iter (from_bits bits n) ! unat k = i"
  using contains_and_ordinal [OF refl] by blast

text \<open>
  A hybrid set is the set of ids it was built from, whichever form it took: iterating
  it lists the ids of the bitset below the universe's length in ascending order, its cardinality is
  their number, membership by binary search or by bit is membership in that list, and the ordinal
  - through the rank table in the dense form - is the position in it.
\<close>

theorem hybrid_set_correct:
  assumes "s = from_bits bits n" "n < 2 ^ 32"
  shows "set_iter s = sorted_list_of_set {i. has_bit bits i \<and> unat i < n} \<and>
    unat (cardinality s) = card {i. has_bit bits i \<and> unat i < n} \<and>
    (set_contains s i \<longleftrightarrow> i \<in> set (set_iter s)) \<and>
    (ordinal_of s i = Some k \<longleftrightarrow> unat k < length (set_iter s) \<and> set_iter s ! unat k = i)"
proof -
  have le: "n \<le> 2 ^ 32" using assms(2) by simp
  note p = set_iter_props [of n bits, OF le, folded assms(1)]
  have "set_iter s = sorted_list_of_set {i. has_bit bits i \<and> unat i < n}"
    using p(1-3) by (metis sorted_list_of_set.idem_if_sorted_distinct)
  moreover have "unat (cardinality s) = card {i. has_bit bits i \<and> unat i < n}"
    using from_bits_in_range(2) [of n bits, OF assms(2), folded assms(1)] p(1,3,4) distinct_card by metis
  ultimately show ?thesis using contains_and_ordinal [OF assms] by blast
qed

lemma sample_hybrid: "set_iter (from_bits [5, 0, 1] 130) = [0, 2, 128]"
  by code_simp

theorem hybrid_set_correct_witness:
  "ordinal_of (from_bits [5, 0, 1] 130) 128 = Some 2 \<and> set_contains (from_bits [5, 0, 1] 130) 2 \<and>
   \<not> set_contains (from_bits [5, 0, 1] 130) 1"
proof -
  have n: "(130 :: nat) < 2 ^ 32" by simp
  note h = hybrid_set_correct [OF refl n, where bits = "[5, 0, 1]"]
  show ?thesis using h [where i = 128 and k = 2] h [where i = 2] h [where i = 1] by (simp add: sample_hybrid has_bit_def)
qed

text \<open>
  The two writers of a bitset are insertion and union on the ids it holds, at any
  length: growing the words adds no id.
\<close>

theorem bitset_writers:
  "{j. has_bit (set_bit_at bits i) j} = insert i {j. has_bit bits j} \<and>
   {j. has_bit (or_bits dst src) j} = {j. has_bit dst j} \<union> {j. has_bit src j}"
  by (auto simp: has_bit_set has_bit_or)

end
