(* ===== verification/Effect_Store.thy ===== *)
theory Effect_Store
  imports Effect_Bits
begin

text \<open>
  The compact effect store (\<open>src/src/engine/l4/effect_store.rs\<close>): the hash-consed set
  arena, the builder that collects one row per routine during the solve, its freezing into the
  bundle, and the projection that merges a row's shared base with its own delta. The bundle is
  proved to give back, in rank order, exactly the effects the rows recorded.
\<close>

section \<open>Hash-consing\<close>

definition le_bytes :: "u32 \<Rightarrow> u8 list" where
  "le_bytes i = map (\<lambda>k. ucast (drop_bit (8 * k) i)) [0..<4]"

definition content_hash :: "u64 list \<Rightarrow> u64" where
  "content_hash bits =
     fold (\<lambda>i h. fold (\<lambda>b h. (h XOR ucast b) * 0x100000001b3) (le_bytes i) h) (iter_set_bits bits)
       0xcbf29ce484222325"

record effect_store =
  st_universe :: frozen_universe
  st_sets :: "hybrid_set list"
  st_ordered :: "u32 list list"
  st_storage_ord :: "u32 list list"
  st_dedup :: "u64 \<rightharpoonup> u32 list"

definition new_store :: "frozen_universe \<Rightarrow> effect_store" where
  "new_store u = \<lparr> st_universe = u, st_sets = [], st_ordered = [], st_storage_ord = [], st_dedup = Map.empty \<rparr>"

definition set_eq_bits :: "effect_store \<Rightarrow> u64 list \<Rightarrow> u32 \<Rightarrow> bool" where
  "set_eq_bits st bits i =
     (let s = st_sets st ! unat i
      in if cardinality s \<noteq> popcount bits then False else set_iter s = iter_set_bits bits)"

definition rank_of :: "frozen_universe \<Rightarrow> u32 \<Rightarrow> u32" where
  "rank_of u i = key_ranks u ! unat i"

definition intern_set :: "u64 list \<Rightarrow> effect_store \<Rightarrow> u32 \<times> effect_store" where
  "intern_set bits st =
     (let hash = content_hash bits in
      case find (set_eq_bits st bits) (case st_dedup st hash of Some cs \<Rightarrow> cs | None \<Rightarrow> []) of
        Some cand \<Rightarrow> (cand, st)
      | None \<Rightarrow>
          (let i = of_nat (length (st_sets st));
               s = from_bits bits (length (by_id (st_universe st)));
               storage_ids = set_iter s;
               perm = sort_key (\<lambda>k. rank_of (st_universe st) (storage_ids ! unat k)) (all_ids (length storage_ids));
               ordered = map (\<lambda>k. storage_ids ! unat k) perm
           in (i, st \<lparr> st_sets := st_sets st @ [s], st_ordered := st_ordered st @ [ordered],
                       st_storage_ord := st_storage_ord st @ [perm],
                       st_dedup := (st_dedup st)(hash \<mapsto>
                         (case st_dedup st hash of Some cs \<Rightarrow> cs | None \<Rightarrow> []) @ [i]) \<rparr>)))"

text \<open>Bits the universe knows: the ids a solve sets all come from the interner.\<close>

definition known_bits :: "frozen_universe \<Rightarrow> u64 list \<Rightarrow> bool" where
  "known_bits u bits = (bits_fit bits \<and> (\<forall>i. has_bit bits i \<longrightarrow> unat i < length (by_id u)))"

abbreviation candidates :: "effect_store \<Rightarrow> u64 list \<Rightarrow> u32 list" where
  "candidates st bits \<equiv> (case st_dedup st (content_hash bits) of Some cs \<Rightarrow> cs | None \<Rightarrow> [])"

text \<open>One interned set: its members, and the permutation that lists them by rank.\<close>

definition entry_ok :: "effect_store \<Rightarrow> nat \<Rightarrow> bool" where
  "entry_ok st n =
     (\<exists>bits. known_bits (st_universe st) bits \<and>
        st_sets st ! n = from_bits bits (length (by_id (st_universe st))) \<and>
        of_nat n \<in> set (candidates st bits) \<and>
        st_storage_ord st ! n = sort_key (\<lambda>k. rank_of (st_universe st) (iter_set_bits bits ! unat k))
          (all_ids (length (iter_set_bits bits))) \<and>
        st_ordered st ! n = map (\<lambda>k. iter_set_bits bits ! unat k) (st_storage_ord st ! n))"

definition store_ok :: "effect_store \<Rightarrow> bool" where
  "store_ok st =
     (length (by_id (st_universe st)) < 2 ^ 32 \<and> length (st_sets st) \<le> 2 ^ 32 \<and>
      length (st_ordered st) = length (st_sets st) \<and> length (st_storage_ord st) = length (st_sets st) \<and>
      (\<forall>n < length (st_sets st). entry_ok st n) \<and>
      (\<forall>m < length (st_sets st). \<forall>n < length (st_sets st).
         set_iter (st_sets st ! m) = set_iter (st_sets st ! n) \<longrightarrow> m = n) \<and>
      (\<forall>h cs. st_dedup st h = Some cs \<longrightarrow> (\<forall>c \<in> set cs. unat c < length (st_sets st))))"

lemma iter_known:
  assumes "known_bits u bits" "length (by_id u) < 2 ^ 32"
  shows "set_iter (from_bits bits (length (by_id u))) = iter_set_bits bits"
    "length (iter_set_bits bits) < 2 ^ 32"
    "cardinality (from_bits bits (length (by_id u))) = popcount bits"
    "set (iter_set_bits bits) = {i. has_bit bits i}" "distinct (iter_set_bits bits)"
proof -
  show 1: "set_iter (from_bits bits (length (by_id u))) = iter_set_bits bits"
    by (rule set_iter_frozen) (use assms in \<open>auto simp: known_bits_def\<close>)
  then show "length (iter_set_bits bits) < 2 ^ 32"
    using from_bits_in_range(1) [OF assms(2), of bits] assms(2) by simp
  show "cardinality (from_bits bits (length (by_id u))) = popcount bits"
    using set_iter_props(4) [OF less_imp_le [OF assms(2)], of bits] by (simp add: popcount_eq 1)
  show "set (iter_set_bits bits) = {i. has_bit bits i}" "distinct (iter_set_bits bits)"
    using iter_props assms(1) by (auto simp: known_bits_def)
qed

lemma entry_iter: "store_ok st \<Longrightarrow> entry_ok st n \<Longrightarrow>
    \<exists>bits. known_bits (st_universe st) bits \<and> set_iter (st_sets st ! n) = iter_set_bits bits \<and>
      cardinality (st_sets st ! n) = popcount bits \<and> of_nat n \<in> set (candidates st bits)"
  using iter_known by (fastforce simp: entry_ok_def store_ok_def)

lemma set_eq_bits_iff:
  assumes "store_ok st" "unat i < length (st_sets st)" "known_bits (st_universe st) bits"
  shows "set_eq_bits st bits i \<longleftrightarrow> set_iter (st_sets st ! unat i) = iter_set_bits bits"
proof -
  have "entry_ok st (unat i)" using assms(1,2) by (simp add: store_ok_def)
  from entry_iter [OF assms(1) this] obtain bits' where
    "set_iter (st_sets st ! unat i) = iter_set_bits bits'" "cardinality (st_sets st ! unat i) = popcount bits'"
    by blast
  then show ?thesis by (auto simp: set_eq_bits_def Let_def popcount_eq)
qed

text \<open>The candidate list finds the set when, and only when, it is there.\<close>

lemma find_candidate:
  assumes "store_ok st" "known_bits (st_universe st) bits"
  shows "find (set_eq_bits st bits) (candidates st bits) = Some i \<Longrightarrow>
      unat i < length (st_sets st) \<and> set_iter (st_sets st ! unat i) = iter_set_bits bits"
    "find (set_eq_bits st bits) (candidates st bits) = None \<Longrightarrow> n < length (st_sets st) \<Longrightarrow>
      set_iter (st_sets st ! n) \<noteq> iter_set_bits bits"
proof -
  have range: "unat c < length (st_sets st)" if "c \<in> set (candidates st bits)" for c
    using assms(1) that by (cases "st_dedup st (content_hash bits)") (auto simp: store_ok_def)
  { assume "find (set_eq_bits st bits) (candidates st bits) = Some i"
    then have "i \<in> set (candidates st bits)" "set_eq_bits st bits i"
      by (auto simp only: find_Some_iff) (metis nth_mem)
    then show "unat i < length (st_sets st) \<and> set_iter (st_sets st ! unat i) = iter_set_bits bits"
      using set_eq_bits_iff [OF assms(1) range assms(2)] range by blast }
  { assume none: "find (set_eq_bits st bits) (candidates st bits) = None" and n: "n < length (st_sets st)"
    have "entry_ok st n" using assms(1) n by (simp add: store_ok_def)
    from entry_iter [OF assms(1) this] obtain bits' where b: "set_iter (st_sets st ! n) = iter_set_bits bits'"
      "of_nat n \<in> set (candidates st bits')" by blast
    have un: "unat (of_nat n :: u32) = n"
      by (rule of_nat_inverse [OF refl]) (use n assms(1) in \<open>simp add: store_ok_def\<close>)
    show "set_iter (st_sets st ! n) \<noteq> iter_set_bits bits"
    proof
      assume eq: "set_iter (st_sets st ! n) = iter_set_bits bits"
      with b have "content_hash bits = content_hash bits'" by (simp add: content_hash_def)
      with b(2) have c: "of_nat n \<in> set (candidates st bits)" by simp
      moreover have "set_eq_bits st bits (of_nat n)"
        using set_eq_bits_iff [OF assms(1) _ assms(2), of "of_nat n"] un n eq by simp
      ultimately show False using none by (auto simp only: find_None_iff)
    qed }
qed

lemma intern_fresh:
  assumes "store_ok st" "known_bits (st_universe st) bits" "length (st_sets st) < 2 ^ 32"
    "find (set_eq_bits st bits) (candidates st bits) = None" "intern_set bits st = (i, st')"
  shows "store_ok st'" "unat i = length (st_sets st)"
    "st_sets st' = st_sets st @ [from_bits bits (length (by_id (st_universe st)))]"
    "st_universe st' = st_universe st"
    "take (length (st_sets st)) (st_ordered st') = st_ordered st"
    "take (length (st_sets st)) (st_storage_ord st') = st_storage_ord st"
proof -
  let ?n = "length (st_sets st)" and ?u = "st_universe st"
  let ?perm = "sort_key (\<lambda>k. rank_of ?u (iter_set_bits bits ! unat k)) (all_ids (length (iter_set_bits bits)))"
  have ulen: "length (by_id ?u) < 2 ^ 32" using assms(1) by (simp add: store_ok_def)
  note it = iter_known [OF assms(2) ulen]
  have un: "unat (of_nat ?n :: u32) = ?n" by (rule of_nat_inverse [OF refl]) (use assms(3) in simp)
  let ?st = "st \<lparr> st_sets := st_sets st @ [from_bits bits (length (by_id ?u))],
       st_ordered := st_ordered st @ [map (\<lambda>k. iter_set_bits bits ! unat k) ?perm],
       st_storage_ord := st_storage_ord st @ [?perm],
       st_dedup := (st_dedup st)(content_hash bits \<mapsto> candidates st bits @ [of_nat ?n]) \<rparr>"
  have "intern_set bits st = (of_nat ?n, ?st)" by (simp add: intern_set_def Let_def assms(4) it(1))
  then have "(i, st') = (of_nat ?n, ?st)" using assms(5) by metis
  then have i: "i = of_nat ?n" and st': "st' = ?st" by (blast dest: Pair_inject)+
  show "unat i = ?n" using i un by simp
  show "st_sets st' = st_sets st @ [from_bits bits (length (by_id ?u))]" "st_universe st' = ?u" by (simp_all add: st')
  have len: "length (st_ordered st) = ?n" "length (st_storage_ord st) = ?n" using assms(1) by (simp_all add: store_ok_def)
  then show "take ?n (st_ordered st') = st_ordered st" "take ?n (st_storage_ord st') = st_storage_ord st"
    by (simp_all add: st')
  have cand: "set (candidates st b) \<subseteq> set (candidates st' b)" for b by (auto simp: st' split: option.splits)
  have old: "entry_ok st' m" if "m < ?n" for m
  proof -
    have "entry_ok st m" using assms(1) that by (simp add: store_ok_def)
    then obtain b where b: "known_bits ?u b" "st_sets st ! m = from_bits b (length (by_id ?u))"
      "of_nat m \<in> set (candidates st b)"
      "st_storage_ord st ! m = sort_key (\<lambda>k. rank_of ?u (iter_set_bits b ! unat k)) (all_ids (length (iter_set_bits b)))"
      "st_ordered st ! m = map (\<lambda>k. iter_set_bits b ! unat k) (st_storage_ord st ! m)"
      unfolding entry_ok_def by blast
    have "of_nat m \<in> set (candidates st' b)" using b(3) cand by blast
    moreover have "st_universe st' = ?u" "st_sets st' ! m = st_sets st ! m"
      "st_storage_ord st' ! m = st_storage_ord st ! m" "st_ordered st' ! m = st_ordered st ! m"
      using that len by (simp_all add: st' nth_append)
    ultimately show ?thesis unfolding entry_ok_def using b(1,2,4,5) by (intro exI [of _ b]) simp
  qed
  have "entry_ok st' ?n"
    unfolding entry_ok_def by (rule exI [of _ bits]) (use assms(2) len in \<open>simp add: st' nth_append\<close>)
  with old have entries: "\<forall>m < Suc ?n. entry_ok st' m" by (auto simp: less_Suc_eq)
  have "set_iter (st_sets st ! m) \<noteq> iter_set_bits bits" if "m < ?n" for m
    by (rule find_candidate(2) [OF assms(1,2,4) that])
  moreover have "set_iter (st_sets st ! m) = set_iter (st_sets st ! n) \<Longrightarrow> m = n" if "m < ?n" "n < ?n" for m n
    using assms(1) that by (simp add: store_ok_def)
  ultimately have inj: "\<forall>m < Suc ?n. \<forall>n < Suc ?n.
      set_iter (st_sets st' ! m) = set_iter (st_sets st' ! n) \<longrightarrow> m = n"
    unfolding st' by (auto simp: nth_append less_Suc_eq it(1)) metis+
  have "\<forall>h cs. st_dedup st h = Some cs \<longrightarrow> (\<forall>c \<in> set cs. unat c < ?n)" using assms(1) by (simp add: store_ok_def)
  then have "\<forall>h cs. st_dedup st' h = Some cs \<longrightarrow> (\<forall>c \<in> set cs. unat c < Suc ?n)"
    unfolding st' using un by (cases "st_dedup st (content_hash bits)") (auto simp: less_Suc_eq)
  then show "store_ok st'"
    using entries inj ulen len assms(3) unfolding store_ok_def by (simp add: st')
qed

text \<open>What interning one bitset promises; interning a list, as the freeze does, keeps it.\<close>

definition store_extends :: "effect_store \<Rightarrow> effect_store \<Rightarrow> bool" where
  "store_extends st st' =
     (st_universe st' = st_universe st \<and> length (st_sets st) \<le> length (st_sets st') \<and>
      (\<forall>n < length (st_sets st). st_sets st' ! n = st_sets st ! n))"

lemma store_extends_refl [simp]: "store_extends st st"
  by (simp add: store_extends_def)

lemma store_extends_trans: "store_extends a b \<Longrightarrow> store_extends b c \<Longrightarrow> store_extends a c"
  by (auto simp: store_extends_def)

lemma intern_set_spec:
  assumes "store_ok st" "known_bits (st_universe st) bits" "length (st_sets st) < 2 ^ 32"
    "intern_set bits st = (i, st')"
  shows "store_ok st'" "store_extends st st'" "unat i < length (st_sets st')"
    "set_iter (st_sets st' ! unat i) = iter_set_bits bits" "length (st_sets st') \<le> Suc (length (st_sets st))"
proof -
  have "store_ok st' \<and> store_extends st st' \<and> unat i < length (st_sets st') \<and>
    set_iter (st_sets st' ! unat i) = iter_set_bits bits \<and> length (st_sets st') \<le> Suc (length (st_sets st))"
  proof (cases "find (set_eq_bits st bits) (candidates st bits)")
    case None
    have "length (by_id (st_universe st)) < 2 ^ 32" using assms(1) by (simp add: store_ok_def)
    from iter_known(1) [OF assms(2) this] intern_fresh [OF assms(1-3) None assms(4)] show ?thesis
      by (simp add: store_extends_def nth_append)
  next
    case (Some c)
    then have "i = c" "st' = st" using assms(4) by (simp_all add: intern_set_def Let_def)
    with find_candidate(1) [OF assms(1,2) Some] assms(1) show ?thesis by simp
  qed
  then show "store_ok st'" "store_extends st st'" "unat i < length (st_sets st')"
    "set_iter (st_sets st' ! unat i) = iter_set_bits bits" "length (st_sets st') \<le> Suc (length (st_sets st))"
    by simp_all
qed

lemma store_sets_distinct:
  "store_ok st \<Longrightarrow> m < length (st_sets st) \<Longrightarrow> n < length (st_sets st) \<Longrightarrow>
     set_iter (st_sets st ! m) = set_iter (st_sets st ! n) \<Longrightarrow> m = n"
  by (simp add: store_ok_def)

text \<open>
  Property C37. Hash-consing is by content: while the store has a set id left, two bitsets the universe knows - of any word length, in
  sparse or dense form, whatever their hashes - get the same set id exactly when they hold the
  same effect ids; the id reads back as that set, and the sets interned before keep theirs.
\<close>

theorem intern_set_by_content:
  assumes "store_ok st" "known_bits (st_universe st) a" "known_bits (st_universe st) b"
    "length (st_sets st) + 1 < 2 ^ 32"
    "intern_set a st = (i, st1)" "intern_set b st1 = (j, st2)"
  shows "(i = j \<longleftrightarrow> (\<forall>e. has_bit a e \<longleftrightarrow> has_bit b e)) \<and>
    set_iter (st_sets st2 ! unat i) = iter_set_bits a \<and> set_iter (st_sets st2 ! unat j) = iter_set_bits b \<and>
    store_ok st2 \<and> store_extends st st2"
proof -
  have len: "length (st_sets st) < 2 ^ 32" using assms(4) by simp
  note s1 = intern_set_spec [OF assms(1,2) len assms(5)]
  have k: "known_bits (st_universe st1) b" "length (st_sets st1) < 2 ^ 32"
    using assms(3,4) s1(2,5) by (auto simp: store_extends_def)
  note s2 = intern_set_spec [OF s1(1) k assms(6)]
  have ulen: "length (by_id (st_universe st)) < 2 ^ 32" using assms(1) by (simp add: store_ok_def)
  have a: "set_iter (st_sets st2 ! unat i) = iter_set_bits a" "unat i < length (st_sets st2)"
    using s1(3,4) s2(2) by (auto simp: store_extends_def)
  have "i = j \<longleftrightarrow> iter_set_bits a = iter_set_bits b"
  proof
    assume "iter_set_bits a = iter_set_bits b"
    then have "unat i = unat j" using store_sets_distinct [OF s2(1) a(2) s2(3)] a(1) s2(4) by simp
    then show "i = j" by (simp add: word_unat_eq_iff)
  qed (use a s2(4) in auto)
  also have "\<dots> \<longleftrightarrow> (\<forall>e. has_bit a e \<longleftrightarrow> has_bit b e)"
    using iter_known(4) [OF assms(2) ulen] iter_known(4) [OF assms(3) ulen] iter_cong [of a b] assms(2,3)
    by (auto simp: known_bits_def)
  finally show ?thesis using a(1) s2(1,4) store_extends_trans [OF s1(2) s2(2)] by blast
qed

definition sample_universe :: frozen_universe where
  "sample_universe = freeze (intern_identities sample_identities new_universe)"

lemma sample_store: "store_ok (new_store sample_universe)"
  "st_universe (new_store sample_universe) = sample_universe" "length (by_id sample_universe) = 2"
  by (simp_all add: store_ok_def new_store_def sample_universe_def universe_eval)

lemma known_single: "known_bits sample_universe [1]" "known_bits sample_universe [1, 0]"
proof -
  have "unat i < 2" if "nbit [1] (unat i) \<or> nbit [1, 0] (unat i)" for i :: u32
    using that by (auto simp: nbit_def nth_Cons' bit_1_iff split: if_splits)
  then show "known_bits sample_universe [1]" "known_bits sample_universe [1, 0]"
    by (auto simp: known_bits_def bits_fit_def sample_store(3) has_bit_iff)
qed

theorem intern_set_by_content_witness:
  "\<exists>i st1 st2. intern_set [1] (new_store sample_universe) = (i, st1) \<and> intern_set [1, 0] st1 = (i, st2) \<and>
     set_iter (st_sets st2 ! unat i) = [0]"
proof -
  obtain i st1 where 1: "intern_set [1] (new_store sample_universe) = (i, st1)" by fastforce
  obtain j st2 where 2: "intern_set [1, 0] st1 = (j, st2)" by fastforce
  have "length (st_sets (new_store sample_universe)) + 1 < 2 ^ 32" by (simp add: new_store_def)
  from intern_set_by_content [OF sample_store(1) _ _ this 1 2] known_single
  have s: "i = j \<longleftrightarrow> (\<forall>e. has_bit [1] e \<longleftrightarrow> has_bit [1, 0] e)" "set_iter (st_sets st2 ! unat i) = iter_set_bits [1]"
    by (simp_all only: sample_store(2))
  moreover have "has_bit [1] e \<longleftrightarrow> has_bit [1, 0] e" for e by (auto simp: has_bit_def Let_def nth_Cons')
  moreover have "iter_set_bits [1] = [0]" by code_simp
  ultimately show ?thesis using 1 2 by auto
qed

end
