(* ===== verification/Effect_Bundle.thy ===== *)
theory Effect_Bundle
  imports Effect_Store
begin

text \<open>
  The bundle of compact summaries (\<open>src/src/engine/l4/effect_store.rs\<close>): the builder that
  collects one row per routine during the solve, its freezing, and the projection of a row.
  The rows the builder iterates come out of a hash map: the iteration order is an argument, and
  the theorems hold for every order.
\<close>

section \<open>The builder\<close>

record raw_row =
  rr_terminal_set :: u32
  rr_base_via :: "via list"
  rr_pd_delta :: "u32 list"
  rr_delta_via :: "via list"

record bundle_builder =
  bb_arena :: "u64 list list"
  bb_rows :: "u32 \<rightharpoonup> raw_row"

definition new_builder :: bundle_builder where
  "new_builder = \<lparr> bb_arena = [], bb_rows = Map.empty \<rparr>"

definition push_terminal_set :: "u64 list \<Rightarrow> bundle_builder \<Rightarrow> u32 \<times> bundle_builder" where
  "push_terminal_set bits b = (of_nat (length (bb_arena b)), b \<lparr> bb_arena := bb_arena b @ [bits] \<rparr>)"

definition push_row :: "u32 \<Rightarrow> u32 \<Rightarrow> via list \<Rightarrow> u32 list \<Rightarrow> via list \<Rightarrow> bundle_builder \<Rightarrow> bundle_builder" where
  "push_row ix terminal_set base_via pd_delta delta_via b =
     b \<lparr> bb_rows := (bb_rows b)(ix \<mapsto> \<lparr> rr_terminal_set = terminal_set, rr_base_via = base_via,
       rr_pd_delta = pd_delta, rr_delta_via = delta_via \<rparr>) \<rparr>"

definition has_raw_row :: "bundle_builder \<Rightarrow> u32 \<Rightarrow> bool" where
  "has_raw_row b r = (bb_rows b r \<noteq> None)"

definition terminal_bits :: "bundle_builder \<Rightarrow> u32 \<Rightarrow> u64 list" where
  "terminal_bits b r =
     (case bb_rows b r of Some row \<Rightarrow> bb_arena b ! unat (rr_terminal_set row) | None \<Rightarrow> [])"

definition pd_ids :: "bundle_builder \<Rightarrow> u32 \<Rightarrow> u32 list" where
  "pd_ids b r = (case bb_rows b r of Some row \<Rightarrow> rr_pd_delta row | None \<Rightarrow> [])"

definition row_effects :: "bundle_builder \<Rightarrow> u32 \<Rightarrow> (u32 \<times> via) list option" where
  "row_effects b r =
     (case bb_rows b r of
        None \<Rightarrow> None
      | Some row \<Rightarrow>
          Some (zip (iter_set_bits (bb_arena b ! unat (rr_terminal_set row))) (rr_base_via row) @
            zip (rr_pd_delta row) (rr_delta_via row)))"

section \<open>Freezing\<close>

record compact_row =
  cr_terminal_base :: u32
  cr_base_via :: "u32 \<times> u32"
  cr_pd_delta :: "u32 \<times> u32"
  cr_delta_via :: "u32 \<times> u32"

record summary_bundle =
  bu_summaries :: "u32 \<rightharpoonup> compact_row"
  bu_effects :: effect_store
  bu_via_pool :: "via list"
  bu_delta_pool :: "u32 list"
  bu_interner :: routine_interner
  bu_rvid_by_opid :: "string \<rightharpoonup> string option"

definition sort_pd_by_key_rank :: "frozen_universe \<Rightarrow> u32 list \<Rightarrow> via list \<Rightarrow> u32 list \<times> via list" where
  "sort_pd_by_key_rank u pd_delta delta_via =
     (let triples = sort_key (\<lambda>(rank, i, v). rank) (map (\<lambda>(i, v). (rank_of u i, i, v)) (zip pd_delta delta_via))
      in (map (\<lambda>(rank, i, v). i) triples, map (\<lambda>(rank, i, v). v) triples))"

definition push_via :: "via list \<Rightarrow> via list \<Rightarrow> (u32 \<times> u32) \<times> via list" where
  "push_via pool vias = ((of_nat (length pool), of_nat (length (pool @ vias))), pool @ vias)"

definition push_ids :: "u32 list \<Rightarrow> u32 list \<Rightarrow> (u32 \<times> u32) \<times> u32 list" where
  "push_ids pool ids = ((of_nat (length pool), of_nat (length (pool @ ids))), pool @ ids)"

type_synonym pools = "(u32 \<rightharpoonup> compact_row) \<times> via list \<times> u32 list"

definition finish_row :: "frozen_universe \<Rightarrow> u32 list \<Rightarrow> u32 \<times> raw_row \<Rightarrow> pools \<Rightarrow> pools" where
  "finish_row u setref_to_setid = (\<lambda>(ix, raw) (summaries, via_pool, delta_pool).
     let setid = setref_to_setid ! unat (rr_terminal_set raw);
         (base_via, via_pool) = push_via via_pool (rr_base_via raw);
         (pd_sorted, delta_via_sorted) = sort_pd_by_key_rank u (rr_pd_delta raw) (rr_delta_via raw);
         (pd_delta, delta_pool) = push_ids delta_pool pd_sorted;
         (delta_via, via_pool) = push_via via_pool delta_via_sorted
     in (summaries(ix \<mapsto> \<lparr> cr_terminal_base = setid, cr_base_via = base_via, cr_pd_delta = pd_delta,
           cr_delta_via = delta_via \<rparr>), via_pool, delta_pool))"

text \<open>The arena, interned in order; \<open>collect\<close> keeps the ids.\<close>

fun intern_arena :: "u64 list list \<Rightarrow> effect_store \<Rightarrow> u32 list \<times> effect_store" where
  "intern_arena [] st = ([], st)"
| "intern_arena (bits # arena) st =
     (let (i, st) = intern_set bits st; (is, st) = intern_arena arena st in (i # is, st))"

definition finish_bundle :: "u32 list \<Rightarrow> bundle_builder \<Rightarrow> frozen_universe \<Rightarrow> routine_interner
    \<Rightarrow> (string \<rightharpoonup> string option) \<Rightarrow> summary_bundle" where
  "finish_bundle order b u names rvid_by_opid =
     (let (setref_to_setid, store) = intern_arena (bb_arena b) (new_store u);
          (summaries, via_pool, delta_pool) =
            fold (finish_row (st_universe store) setref_to_setid)
              (map (\<lambda>ix. (ix, the (bb_rows b ix))) order) (Map.empty, [], [])
      in \<lparr> bu_summaries = summaries, bu_effects = store, bu_via_pool = via_pool, bu_delta_pool = delta_pool,
           bu_interner = names, bu_rvid_by_opid = rvid_by_opid \<rparr>)"

section \<open>Projection\<close>

record db_effect_ref =
  er_effect_key :: string
  er_operation_id :: string
  er_op :: string
  er_table_id :: string
  er_record_variable_id :: "string option"
  er_temp_state :: temp_state_kind
  er_via :: via

definition make_ref :: "summary_bundle \<Rightarrow> u32 \<Rightarrow> via \<Rightarrow> db_effect_ref" where
  "make_ref bu i via =
     (let u = st_universe (bu_effects bu); identity = by_id u ! unat i in
      \<lparr> er_effect_key = keys u ! unat i, er_operation_id = ei_operation_id identity, er_op = ei_op identity,
        er_table_id = ei_table_id identity,
        er_record_variable_id = Option.bind (bu_rvid_by_opid bu (ei_operation_id identity)) id,
        er_temp_state = ei_temp identity, er_via = via \<rparr>)"

definition slice :: "'a list \<Rightarrow> u32 \<times> u32 \<Rightarrow> 'a list" where
  "slice pool r = take (unat (snd r) - unat (fst r)) (drop (unat (fst r)) pool)"

function merge_effects :: "summary_bundle \<Rightarrow> u32 list \<Rightarrow> (nat \<Rightarrow> via) \<Rightarrow> u32 list \<Rightarrow> via list \<Rightarrow> nat \<Rightarrow> nat
    \<Rightarrow> db_effect_ref list" where
  "merge_effects bu base_ids base_via_at pds pd_via i j =
     (if i < length base_ids \<and> j < length pds then
        if rank_of (st_universe (bu_effects bu)) (base_ids ! i) \<le> rank_of (st_universe (bu_effects bu)) (pds ! j)
        then make_ref bu (base_ids ! i) (base_via_at i) # merge_effects bu base_ids base_via_at pds pd_via (i + 1) j
        else make_ref bu (pds ! j) (pd_via ! j) # merge_effects bu base_ids base_via_at pds pd_via i (j + 1)
      else map (\<lambda>i. make_ref bu (base_ids ! i) (base_via_at i)) [i..<length base_ids] @
        map (\<lambda>j. make_ref bu (pds ! j) (pd_via ! j)) [j..<length pds])"
  by auto
termination by (relation "measure (\<lambda>(_, bs, _, ps, _, i, j). (length bs - i) + (length ps - j))") auto

declare merge_effects.simps [simp del]

definition project_row :: "summary_bundle \<Rightarrow> compact_row \<Rightarrow> db_effect_ref list" where
  "project_row bu row =
     (let base_ids = st_ordered (bu_effects bu) ! unat (cr_terminal_base row);
          base_storage_ord = st_storage_ord (bu_effects bu) ! unat (cr_terminal_base row);
          base_via = slice (bu_via_pool bu) (cr_base_via row);
          pds = slice (bu_delta_pool bu) (cr_pd_delta row);
          pd_via = slice (bu_via_pool bu) (cr_delta_via row)
      in merge_effects bu base_ids (\<lambda>k. base_via ! unat (base_storage_ord ! k)) pds pd_via 0 0)"

definition db_effects :: "summary_bundle \<Rightarrow> u32 \<Rightarrow> db_effect_ref list" where
  "db_effects bu r = (case bu_summaries bu r of Some row \<Rightarrow> project_row bu row | None \<Rightarrow> [])"

definition bundle_has_row :: "summary_bundle \<Rightarrow> u32 \<Rightarrow> bool" where
  "bundle_has_row bu r = (bu_summaries bu r \<noteq> None)"

definition bundle_terminal_base :: "summary_bundle \<Rightarrow> u32 \<Rightarrow> u32 option" where
  "bundle_terminal_base bu r = map_option cr_terminal_base (bu_summaries bu r)"

definition pd_delta_ids :: "summary_bundle \<Rightarrow> u32 \<Rightarrow> u32 list" where
  "pd_delta_ids bu r =
     (case bu_summaries bu r of Some row \<Rightarrow> slice (bu_delta_pool bu) (cr_pd_delta row) | None \<Rightarrow> [])"

definition bundle_routine_ix :: "summary_bundle \<Rightarrow> string \<Rightarrow> u32 option" where
  "bundle_routine_ix bu rid = ri_get (bu_interner bu) rid"

definition bundle_routine_id :: "summary_bundle \<Rightarrow> u32 \<Rightarrow> string option" where
  "bundle_routine_id bu ix = ri_name (bu_interner bu) ix"

section \<open>Sorted merges\<close>

lemma sort_key_pull:
  assumes "\<forall>z \<in> set A. f y < f z" "\<forall>z \<in> set B. f y \<le> f z"
  shows "sort_key f (A @ y # B) = y # sort_key f (A @ B)"
proof (rule properties_for_sort_key)
  show "filter (\<lambda>z. f k = f z) (y # sort_key f (A @ B)) = filter (\<lambda>z. f k = f z) (A @ y # B)" for k
  proof (cases "f k = f y")
    case True
    then have "filter (\<lambda>z. f k = f z) A = []" using assms(1) by (auto simp: filter_empty_conv)
    with True sort_key_stable [of f "f k" "A @ B"] show ?thesis by (simp add: eq_commute [of "f k"])
  next
    case False
    with sort_key_stable [of f "f k" "A @ B"] show ?thesis by (simp add: eq_commute [of "f k"])
  qed
qed (use assms in \<open>auto simp: less_imp_le\<close>)

lemma sort_key_two:
  "sort_key f (sort_key f A @ sort_key f B) = sort_key f (A @ B)"
proof (rule properties_for_sort_key)
  show "filter (\<lambda>z. f k = f z) (sort_key f (A @ B)) = filter (\<lambda>z. f k = f z) (sort_key f A @ sort_key f B)" for k
    using sort_key_stable [of f "f k"] by (simp add: eq_commute [of "f k"])
qed simp_all

lemma sort_key_sorted: "sorted (map f xs) \<Longrightarrow> sort_key f xs = xs"
  by (rule properties_for_sort_key) simp_all

text \<open>The index loop is the stable sort of the two runs.\<close>

lemma merge_effects_sorts:
  fixes bu :: summary_bundle
  defines "rk \<equiv> \<lambda>p. rank_of (st_universe (bu_effects bu)) (fst p)"
  assumes "sorted (map rk P)" "sorted (map rk Q)" "base_ids = map fst P" "pds = map fst Q" "pd_via = map snd Q"
    "\<And>k. k < length P \<Longrightarrow> base_via_at k = snd (P ! k)"
  shows "merge_effects bu base_ids base_via_at pds pd_via i j =
    map (\<lambda>(e, v). make_ref bu e v) (sort_key rk (drop i P @ drop j Q))"
proof (induction "length P - i + (length Q - j)" arbitrary: i j rule: less_induct)
  case less
  let ?ref = "\<lambda>(e, v). make_ref bu e v"
  have P: "map (\<lambda>i. make_ref bu (base_ids ! i) (base_via_at i)) [i..<length base_ids] = map ?ref (drop i P)"
    by (rule nth_equalityI) (simp_all add: assms(4,7) split_beta)
  have Q: "map (\<lambda>j. make_ref bu (pds ! j) (pd_via ! j)) [j..<length pds] = map ?ref (drop j Q)"
    by (rule nth_equalityI) (simp_all add: assms(5,6) split_beta)
  have sP: "sorted (map rk (drop i P))" and sQ: "sorted (map rk (drop j Q))"
    using assms(2,3) by (simp_all only: drop_map [symmetric] sorted_wrt_drop)
  show ?case
  proof (cases "i < length P \<and> j < length Q")
    case True
    then have dP: "drop i P = P ! i # drop (Suc i) P" and dQ: "drop j Q = Q ! j # drop (Suc j) Q"
      by (simp_all add: Cons_nth_drop_Suc)
    have lP: "\<forall>z \<in> set (drop i P). rk (P ! i) \<le> rk z" and lQ: "\<forall>z \<in> set (drop j Q). rk (Q ! j) \<le> rk z"
      using sP sQ by (simp_all add: dP dQ)
    show ?thesis
    proof (cases "rk (P ! i) \<le> rk (Q ! j)")
      case le: True
      have "sort_key rk ([] @ P ! i # (drop (Suc i) P @ drop j Q)) =
          P ! i # sort_key rk ([] @ drop (Suc i) P @ drop j Q)"
        by (rule sort_key_pull) (use lP lQ le order_trans in \<open>auto simp: dP\<close>)
      then have "sort_key rk (drop i P @ drop j Q) = P ! i # sort_key rk (drop (Suc i) P @ drop j Q)"
        by (simp add: dP)
      moreover have "merge_effects bu base_ids base_via_at pds pd_via (Suc i) j =
          map ?ref (sort_key rk (drop (Suc i) P @ drop j Q))" by (rule less) (use True in linarith)
      ultimately show ?thesis using True le
        by (subst merge_effects.simps) (simp add: assms(1,4,5,7) split_beta)
    next
      case False
      have "sort_key rk (drop i P @ Q ! j # drop (Suc j) Q) = Q ! j # sort_key rk (drop i P @ drop (Suc j) Q)"
        by (rule sort_key_pull) (use lP lQ False in \<open>auto simp: dQ\<close>)
      then have "sort_key rk (drop i P @ drop j Q) = Q ! j # sort_key rk (drop i P @ drop (Suc j) Q)"
        by (simp add: dQ)
      moreover have "merge_effects bu base_ids base_via_at pds pd_via i (Suc j) =
          map ?ref (sort_key rk (drop i P @ drop (Suc j) Q))" by (rule less) (use True in linarith)
      ultimately show ?thesis using True False
        by (subst merge_effects.simps) (simp add: assms(1,4-6) split_beta)
    qed
  next
    case False
    then have "drop i P = [] \<or> drop j Q = []" by auto
    then have "sort_key rk (drop i P @ drop j Q) = drop i P @ drop j Q"
      using sort_key_sorted sP sQ by (metis append_Nil append_Nil2)
    with False show ?thesis
      by (subst merge_effects.simps) (simp only: P Q map_append, auto simp: assms(4,5))
  qed
qed

section \<open>The pools\<close>

lemma slice_push:
  assumes "length (pool @ xs) < 2 ^ 32"
  shows "slice (pool @ xs) (of_nat (length pool), of_nat (length (pool @ xs))) = xs"
    "unat (of_nat (length (pool @ xs)) :: u32) \<le> length (pool @ xs)"
proof -
  have "unat (of_nat (length pool) :: u32) = length pool" "unat (of_nat (length (pool @ xs)) :: u32) = length (pool @ xs)"
    by (rule of_nat_inverse [OF refl], use assms in simp)+
  then show "slice (pool @ xs) (of_nat (length pool), of_nat (length (pool @ xs))) = xs"
    "unat (of_nat (length (pool @ xs)) :: u32) \<le> length (pool @ xs)" by (simp_all add: slice_def)
qed

lemma slice_grow: "unat (snd r) \<le> length pool \<Longrightarrow> slice (pool @ xs) r = slice pool r"
  by (simp add: slice_def)

definition row_stored :: "frozen_universe \<Rightarrow> u32 list \<Rightarrow> via list \<Rightarrow> u32 list \<Rightarrow> raw_row \<Rightarrow> compact_row \<Rightarrow> bool" where
  "row_stored u ids vp dp raw row =
     (cr_terminal_base row = ids ! unat (rr_terminal_set raw) \<and>
      slice vp (cr_base_via row) = rr_base_via raw \<and>
      (slice dp (cr_pd_delta row), slice vp (cr_delta_via row)) = sort_pd_by_key_rank u (rr_pd_delta raw) (rr_delta_via raw) \<and>
      unat (snd (cr_base_via row)) \<le> length vp \<and> unat (snd (cr_pd_delta row)) \<le> length dp \<and>
      unat (snd (cr_delta_via row)) \<le> length vp)"

lemma row_stored_grow:
  "row_stored u ids vp dp raw row \<Longrightarrow> row_stored u ids (vp @ xs) (dp @ ys) raw row"
  by (simp add: row_stored_def slice_grow)

lemma sort_pd_lengths:
  "length pd = length dv \<Longrightarrow> sort_pd_by_key_rank u pd dv = (xs, vs) \<Longrightarrow> length xs = length pd \<and> length vs = length dv"
  by (auto simp: sort_pd_by_key_rank_def Let_def)

lemma finish_row_spec:
  assumes "finish_row u ids (ix, raw) (S, vp, dp) = (S', vp', dp')" "length (rr_pd_delta raw) = length (rr_delta_via raw)"
    "length vp + length (rr_base_via raw) + length (rr_delta_via raw) < 2 ^ 32" "length dp + length (rr_pd_delta raw) < 2 ^ 32"
  obtains xs ys row where "vp' = vp @ xs" "dp' = dp @ ys" "S' = S(ix \<mapsto> row)" "row_stored u ids vp' dp' raw row"
    "length xs = length (rr_base_via raw) + length (rr_delta_via raw)" "length ys = length (rr_pd_delta raw)"
proof -
  obtain ps vs where s: "sort_pd_by_key_rank u (rr_pd_delta raw) (rr_delta_via raw) = (ps, vs)" by fastforce
  note len = sort_pd_lengths [OF assms(2) s]
  let ?bv = "rr_base_via raw"
  define row where "row = \<lparr> cr_terminal_base = ids ! unat (rr_terminal_set raw),
      cr_base_via = (of_nat (length vp), of_nat (length (vp @ ?bv))),
      cr_pd_delta = (of_nat (length dp), of_nat (length (dp @ ps))),
      cr_delta_via = (of_nat (length (vp @ ?bv)), of_nat (length ((vp @ ?bv) @ vs))) \<rparr>"
  have "finish_row u ids (ix, raw) (S, vp, dp) = (S(ix \<mapsto> row), (vp @ ?bv) @ vs, dp @ ps)"
    by (simp add: finish_row_def push_via_def push_ids_def s row_def add.assoc)
  then have eq: "S' = S(ix \<mapsto> row)" "vp' = (vp @ ?bv) @ vs" "dp' = dp @ ps" using assms(1) by simp_all
  have b1: "length (vp @ ?bv) < 2 ^ 32" "length ((vp @ ?bv) @ vs) < 2 ^ 32" "length (dp @ ps) < 2 ^ 32"
    using assms(3,4) len by simp_all
  note p1 = slice_push [OF b1(1)] and p2 = slice_push [OF b1(2)] and p3 = slice_push [OF b1(3)]
  have "slice ((vp @ ?bv) @ vs) (of_nat (length vp), of_nat (length (vp @ ?bv))) = ?bv"
    using slice_grow [of "(of_nat (length vp), of_nat (length (vp @ ?bv)))" "vp @ ?bv" vs] p1 by simp
  moreover have "unat (of_nat (length (vp @ ?bv)) :: u32) \<le> length ((vp @ ?bv) @ vs)" using p1(2) by simp
  ultimately have "row_stored u ids vp' dp' raw row"
    unfolding row_stored_def row_def eq using p2 p3 s by simp
  with that [of "?bv @ vs" ps row] eq len show thesis by simp
qed

definition rows_ok :: "bundle_builder \<Rightarrow> bool" where
  "rows_ok b = (\<forall>ix raw. bb_rows b ix = Some raw \<longrightarrow> length (rr_pd_delta raw) = length (rr_delta_via raw))"

definition via_total :: "bundle_builder \<Rightarrow> u32 list \<Rightarrow> nat" where
  "via_total b order = sum_list (map (\<lambda>ix. length (rr_base_via (the (bb_rows b ix))) + length (rr_delta_via (the (bb_rows b ix)))) order)"

definition delta_total :: "bundle_builder \<Rightarrow> u32 list \<Rightarrow> nat" where
  "delta_total b order = sum_list (map (\<lambda>ix. length (rr_pd_delta (the (bb_rows b ix)))) order)"

lemma finish_rows_spec:
  assumes "rows_ok b" "via_total b order < 2 ^ 32" "delta_total b order < 2 ^ 32" "\<forall>ix \<in> set order. bb_rows b ix \<noteq> None"
    "fold (finish_row u ids) (map (\<lambda>ix. (ix, the (bb_rows b ix))) order) (Map.empty, [], []) = (S, vp, dp)"
  shows "length vp = via_total b order \<and> length dp = delta_total b order \<and> dom S = set order \<and>
    (\<forall>ix row. S ix = Some row \<longrightarrow> row_stored u ids vp dp (the (bb_rows b ix)) row)"
  using assms(2-)
proof (induction order arbitrary: S vp dp rule: rev_induct)
  case (snoc ix order)
  let ?raw = "the (bb_rows b ix)"
  obtain S0 vp0 dp0 where f: "fold (finish_row u ids) (map (\<lambda>ix. (ix, the (bb_rows b ix))) order) (Map.empty, [], []) = (S0, vp0, dp0)"
    by (rule prod_cases3)
  have IH: "length vp0 = via_total b order" "length dp0 = delta_total b order" "dom S0 = set order"
    "\<And>ix row. S0 ix = Some row \<Longrightarrow> row_stored u ids vp0 dp0 (the (bb_rows b ix)) row"
    using snoc.IH [OF _ _ _ f] snoc.prems by (simp_all add: via_total_def delta_total_def)
  have step: "finish_row u ids (ix, ?raw) (S0, vp0, dp0) = (S, vp, dp)" using snoc.prems(4) f by simp
  have eq: "length (rr_pd_delta ?raw) = length (rr_delta_via ?raw)"
    using assms(1) snoc.prems(3) by (auto simp: rows_ok_def)
  obtain xs ys row where r: "vp = vp0 @ xs" "dp = dp0 @ ys" "S = S0(ix \<mapsto> row)" "row_stored u ids vp dp ?raw row"
    "length xs = length (rr_base_via ?raw) + length (rr_delta_via ?raw)" "length ys = length (rr_pd_delta ?raw)"
    by (rule finish_row_spec [OF step eq]) (use snoc.prems(1,2) IH in \<open>simp_all add: via_total_def delta_total_def\<close>)
  have "row_stored u ids vp dp (the (bb_rows b ix')) row'" if "S ix' = Some row'" for ix' row'
    using that r IH(4) row_stored_grow by (cases "ix' = ix") auto
  moreover have "dom S = set (order @ [ix])" using r(3) IH(3) by simp
  moreover have "length vp = via_total b (order @ [ix])" "length dp = delta_total b (order @ [ix])"
    using r IH(1,2) by (simp_all add: via_total_def delta_total_def)
  ultimately show ?case by blast
qed (simp add: via_total_def delta_total_def)

lemma intern_arena_spec:
  "store_ok st \<Longrightarrow> \<forall>bits \<in> set arena. known_bits (st_universe st) bits \<Longrightarrow>
     length (st_sets st) + length arena < 2 ^ 32 \<Longrightarrow> intern_arena arena st = (is, st') \<Longrightarrow>
     store_ok st' \<and> store_extends st st' \<and> length is = length arena \<and>
     (\<forall>k < length arena. unat (is ! k) < length (st_sets st') \<and>
        set_iter (st_sets st' ! unat (is ! k)) = iter_set_bits (arena ! k))"
proof (induction arena arbitrary: st "is" st')
  case (Cons bits arena)
  obtain i st1 where i: "intern_set bits st = (i, st1)" by fastforce
  obtain is1 st2 where is1: "intern_arena arena st1 = (is1, st2)" by fastforce
  have eq: "is = i # is1" "st' = st2" using Cons.prems(4) i is1 by simp_all
  have "length (st_sets st) < 2 ^ 32" "known_bits (st_universe st) bits" using Cons.prems by simp_all
  note s = intern_set_spec [OF Cons.prems(1) this(2,1) i]
  have "\<forall>bits \<in> set arena. known_bits (st_universe st1) bits" "length (st_sets st1) + length arena < 2 ^ 32"
    using Cons.prems(2,3) s(2,5) by (simp_all add: store_extends_def)
  note IH = Cons.IH [OF s(1) this is1]
  have "unat i < length (st_sets st2) \<and> set_iter (st_sets st2 ! unat i) = iter_set_bits bits"
    using IH s(3,4) by (auto simp: store_extends_def)
  with IH store_extends_trans [OF s(2)] show ?case unfolding eq by (auto simp: nth_Cons split: nat.split)
qed simp

text \<open>What the builder owes the freeze: \<open>push_row\<close>'s documented contract.\<close>

definition builder_ok :: "frozen_universe \<Rightarrow> bundle_builder \<Rightarrow> bool" where
  "builder_ok u b =
     (length (by_id u) < 2 ^ 32 \<and> length (bb_arena b) < 2 ^ 32 \<and> (\<forall>bits \<in> set (bb_arena b). known_bits u bits) \<and>
      (\<forall>ix raw. bb_rows b ix = Some raw \<longrightarrow>
         unat (rr_terminal_set raw) < length (bb_arena b) \<and>
         length (rr_base_via raw) = length (iter_set_bits (bb_arena b ! unat (rr_terminal_set raw))) \<and>
         length (rr_pd_delta raw) = length (rr_delta_via raw) \<and>
         (\<forall>i \<in> set (rr_pd_delta raw). unat i < length (by_id u))))"

lemma sort_pd_eq:
  "sort_pd_by_key_rank u pd dv =
     (map fst (sort_key (\<lambda>p. rank_of u (fst p)) (zip pd dv)), map snd (sort_key (\<lambda>p. rank_of u (fst p)) (zip pd dv)))"
proof -
  let ?g = "\<lambda>(i, v). (rank_of u i, i, v :: via)"
  have "sort_key fst (map ?g (zip pd dv)) = map ?g (sort_key (\<lambda>p. rank_of u (fst p)) (zip pd dv))"
    using map_sort_key_comp [of ?g fst "zip pd dv"] by (simp add: split_beta)
  moreover have "(\<lambda>(rank, i, v). rank) = (fst :: u32 \<times> u32 \<times> via \<Rightarrow> u32)" by (simp add: fun_eq_iff)
  ultimately show ?thesis by (simp add: sort_pd_by_key_rank_def Let_def comp_def split_beta)
qed

lemma all_ids_zip:
  assumes "length xs = length ys" "length xs < 2 ^ 32"
  shows "map (\<lambda>k. (xs ! unat k, ys ! unat k)) (all_ids (length xs)) = zip xs ys"
proof (rule nth_equalityI)
  have u: "unat (of_nat m :: u32) = m" if "m \<le> length xs" for m
    by (rule of_nat_inverse [OF refl]) (use that assms(2) in simp)
  show "length (map (\<lambda>k. (xs ! unat k, ys ! unat k)) (all_ids (length xs))) = length (zip xs ys)"
    using assms by (simp add: all_ids_props)
  fix m assume "m < length (map (\<lambda>k. (xs ! unat k, ys ! unat k)) (all_ids (length xs)))"
  then have m: "m < length xs" using assms by (simp add: all_ids_props)
  then show "map (\<lambda>k. (xs ! unat k, ys ! unat k)) (all_ids (length xs)) ! m = zip xs ys ! m"
    using assms(1) by (simp add: all_ids_def u)
qed

text \<open>The projection of one stored row.\<close>

lemma project_stored_row:
  assumes "store_ok (bu_effects bu)" "st_universe (bu_effects bu) = u"
    "row_stored u ids (bu_via_pool bu) (bu_delta_pool bu) raw row" "unat (cr_terminal_base row) < length (st_sets (bu_effects bu))"
    "set_iter (st_sets (bu_effects bu) ! unat (cr_terminal_base row)) = terminal"
    "length (rr_base_via raw) = length terminal" "length (rr_pd_delta raw) = length (rr_delta_via raw)"
  shows "project_row bu row = map (\<lambda>(e, v). make_ref bu e v)
    (sort_key (\<lambda>p. rank_of u (fst p)) (zip terminal (rr_base_via raw) @ zip (rr_pd_delta raw) (rr_delta_via raw)))"
proof -
  let ?st = "bu_effects bu" and ?n = "unat (cr_terminal_base row)" and ?rk = "\<lambda>p. rank_of u (fst p)"
  have ulen: "length (by_id u) < 2 ^ 32" using assms(1,2) by (simp add: store_ok_def)
  have "entry_ok ?st ?n" using assms(1,4) by (simp add: store_ok_def)
  then obtain bits where b: "known_bits u bits" "st_sets ?st ! ?n = from_bits bits (length (by_id u))"
    "st_storage_ord ?st ! ?n = sort_key (\<lambda>k. rank_of u (iter_set_bits bits ! unat k)) (all_ids (length (iter_set_bits bits)))"
    "st_ordered ?st ! ?n = map (\<lambda>k. iter_set_bits bits ! unat k) (st_storage_ord ?st ! ?n)"
    unfolding entry_ok_def assms(2) by blast
  note it = iter_known [OF b(1) ulen]
  have t: "iter_set_bits bits = terminal" using assms(5) b(2) it(1) by simp
  let ?g = "\<lambda>k. (terminal ! unat k, rr_base_via raw ! unat k)"
  define P where "P = map ?g (st_storage_ord ?st ! ?n)"
  define Q where "Q = sort_key ?rk (zip (rr_pd_delta raw) (rr_delta_via raw))"
  have "map ?g (sort_key (\<lambda>k. ?rk (?g k)) (all_ids (length terminal))) = sort_key ?rk (map ?g (all_ids (length terminal)))"
    by (rule map_sort_key_comp)
  then have P: "P = sort_key ?rk (zip terminal (rr_base_via raw))"
    using all_ids_zip [of terminal "rr_base_via raw"] assms(6) it(2) by (simp add: P_def b(3) t)
  have stored: "slice (bu_via_pool bu) (cr_base_via row) = rr_base_via raw"
    "slice (bu_delta_pool bu) (cr_pd_delta row) = map fst Q" "slice (bu_via_pool bu) (cr_delta_via row) = map snd Q"
    using assms(3) by (simp_all add: row_stored_def sort_pd_eq Q_def)
  have "project_row bu row = merge_effects bu (map fst P) (\<lambda>k. rr_base_via raw ! unat (st_storage_ord ?st ! ?n ! k))
      (map fst Q) (map snd Q) 0 0"
    by (simp add: project_row_def stored b(4) t P_def comp_def)
  also have "\<dots> = map (\<lambda>(e, v). make_ref bu e v) (sort_key (\<lambda>p. rank_of (st_universe ?st) (fst p)) (drop 0 P @ drop 0 Q))"
  proof (rule merge_effects_sorts)
    show "sorted (map (\<lambda>p. rank_of (st_universe ?st) (fst p)) P)" "sorted (map (\<lambda>p. rank_of (st_universe ?st) (fst p)) Q)"
      by (simp_all add: P Q_def assms(2))
    show "rr_base_via raw ! unat (st_storage_ord ?st ! ?n ! k) = snd (P ! k)" if "k < length P" for k
      using that by (simp add: P_def)
  qed simp_all
  also have "sort_key (\<lambda>p. rank_of (st_universe ?st) (fst p)) (drop 0 P @ drop 0 Q) =
      sort_key ?rk (zip terminal (rr_base_via raw) @ zip (rr_pd_delta raw) (rr_delta_via raw))"
    by (simp add: P Q_def assms(2) sort_key_two)
  finally show ?thesis .
qed

lemma finish_bundle_props:
  assumes "builder_ok u b" "bu = finish_bundle order b u names rvid" "set order = dom (bb_rows b)"
    "via_total b order < 2 ^ 32" "delta_total b order < 2 ^ 32"
  shows "store_ok (bu_effects bu)" "st_universe (bu_effects bu) = u" "dom (bu_summaries bu) = dom (bb_rows b)"
    "bu_summaries bu ix = Some row \<Longrightarrow> bb_rows b ix = Some raw \<Longrightarrow>
       \<exists>ids. row_stored u ids (bu_via_pool bu) (bu_delta_pool bu) raw row \<and>
         unat (cr_terminal_base row) < length (st_sets (bu_effects bu)) \<and>
         set_iter (st_sets (bu_effects bu) ! unat (cr_terminal_base row)) =
           iter_set_bits (bb_arena b ! unat (rr_terminal_set raw))"
proof -
  have new: "store_ok (new_store u)" "st_universe (new_store u) = u" "length (st_sets (new_store u)) = 0"
    using assms(1) by (simp_all add: store_ok_def new_store_def builder_ok_def)
  obtain ids st where ia: "intern_arena (bb_arena b) (new_store u) = (ids, st)" by fastforce
  have known: "\<forall>bits \<in> set (bb_arena b). known_bits (st_universe (new_store u)) bits"
    "length (st_sets (new_store u)) + length (bb_arena b) < 2 ^ 32"
    using assms(1) by (simp_all add: new builder_ok_def)
  have spec: "store_ok st" "store_extends (new_store u) st"
    "\<And>k. k < length (bb_arena b) \<Longrightarrow> unat (ids ! k) < length (st_sets st) \<and>
       set_iter (st_sets st ! unat (ids ! k)) = iter_set_bits (bb_arena b ! k)"
    using intern_arena_spec [OF new(1) known ia] by blast+
  have stu: "st_universe st = u" using spec(2) new(2) by (simp add: store_extends_def)
  obtain S vp dp where f: "fold (finish_row u ids) (map (\<lambda>ix. (ix, the (bb_rows b ix))) order) (Map.empty, [], []) = (S, vp, dp)"
    by (rule prod_cases3)
  have ok: "rows_ok b" "\<forall>ix \<in> set order. bb_rows b ix \<noteq> None"
    using assms(1,3) by (auto simp: rows_ok_def builder_ok_def)
  note rows = finish_rows_spec [OF ok(1) assms(4,5) ok(2) f]
  have bu: "bu = \<lparr> bu_summaries = S, bu_effects = st, bu_via_pool = vp, bu_delta_pool = dp,
      bu_interner = names, bu_rvid_by_opid = rvid \<rparr>"
    using assms(2) f by (simp add: finish_bundle_def ia stu)
  show "store_ok (bu_effects bu)" "st_universe (bu_effects bu) = u" using spec(1) stu by (simp_all add: bu)
  show "dom (bu_summaries bu) = dom (bb_rows b)" using rows assms(3) by (simp add: bu)
  assume r: "bu_summaries bu ix = Some row" "bb_rows b ix = Some raw"
  have "row_stored u ids vp dp (the (bb_rows b ix)) row" using rows r(1) by (simp add: bu)
  then have rs: "row_stored u ids vp dp raw row" by (simp add: r(2))
  then have "cr_terminal_base row = ids ! unat (rr_terminal_set raw)" by (simp add: row_stored_def)
  moreover have "unat (rr_terminal_set raw) < length (bb_arena b)" using assms(1) r(2) by (auto simp: builder_ok_def)
  ultimately show "\<exists>ids. row_stored u ids (bu_via_pool bu) (bu_delta_pool bu) raw row \<and>
         unat (cr_terminal_base row) < length (st_sets (bu_effects bu)) \<and>
         set_iter (st_sets (bu_effects bu) ! unat (cr_terminal_base row)) =
           iter_set_bits (bb_arena b ! unat (rr_terminal_set raw))"
    using rs spec(3) by (intro exI [of _ ids]) (simp add: bu)
qed

lemma bundle_projects:
  assumes "builder_ok u b" "set order = dom (bb_rows b)" "via_total b order < 2 ^ 32" "delta_total b order < 2 ^ 32"
    "bu = finish_bundle order b u names rvid"
  shows "db_effects bu r =
    (case row_effects b r of
       None \<Rightarrow> []
     | Some es \<Rightarrow> map (\<lambda>(e, v). make_ref bu e v) (sort_key (\<lambda>p. rank_of u (fst p)) es))"
proof -
  note p = finish_bundle_props [OF assms(1,5,2,3,4)]
  show ?thesis
  proof (cases "bb_rows b r")
    case None
    then have "bu_summaries bu r = None" using p(3) by (metis domIff)
    with None show ?thesis by (simp add: db_effects_def row_effects_def)
  next
    case (Some raw)
    then obtain row where row: "bu_summaries bu r = Some row" using p(3) by (metis domD domI)
    obtain ids where ids: "row_stored u ids (bu_via_pool bu) (bu_delta_pool bu) raw row"
      "unat (cr_terminal_base row) < length (st_sets (bu_effects bu))"
      "set_iter (st_sets (bu_effects bu) ! unat (cr_terminal_base row)) =
         iter_set_bits (bb_arena b ! unat (rr_terminal_set raw))"
      using p(4) [OF row Some] by blast
    have len: "length (rr_base_via raw) = length (iter_set_bits (bb_arena b ! unat (rr_terminal_set raw)))"
      "length (rr_pd_delta raw) = length (rr_delta_via raw)"
      using assms(1) Some by (auto simp: builder_ok_def)
    show ?thesis
      using project_stored_row [OF p(1,2) ids len] by (simp add: db_effects_def row_effects_def row Some)
  qed
qed

text \<open>
  Property C20. Freezing the solve and projecting a routine gives back its row: the effects it
  recorded - each terminal one with its own via, then its parameter-dependent ones - stably sorted
  by rank. Sharing the terminal sets, pooling the columns and the order in which the rows are
  visited change nothing; a routine without a row has no effects.
\<close>

theorem db_effects_are_the_rows:
  assumes "builder_ok u b" "set order = dom (bb_rows b)" "via_total b order < 2 ^ 32" "delta_total b order < 2 ^ 32"
    "bu = finish_bundle order b u names rvid"
  shows "db_effects bu r =
    (case row_effects b r of
       None \<Rightarrow> []
     | Some es \<Rightarrow> map (\<lambda>(e, v). make_ref bu e v) (sort_key (\<lambda>p. rank_of u (fst p)) es))"
  by (rule bundle_projects [OF assms])

definition sample_builder :: bundle_builder where
  "sample_builder = push_row 7 0 [Direct] [1] [Dynamic] (snd (push_terminal_set [1] new_builder))"

definition sample_bundle :: summary_bundle where
  "sample_bundle = finish_bundle [7] sample_builder sample_universe new_routine_interner Map.empty"

lemma iter_one: "iter_set_bits [1] = [0]"
  by code_simp

lemma sample_builder_ok:
  "builder_ok sample_universe sample_builder" "dom (bb_rows sample_builder) = {7}"
  "via_total sample_builder [7] < 2 ^ 32" "delta_total sample_builder [7] < 2 ^ 32"
  by (auto simp: builder_ok_def sample_builder_def push_row_def push_terminal_set_def new_builder_def iter_one
    sample_store(3) known_single via_total_def delta_total_def split: if_splits)

lemma sample_row: "row_effects sample_builder 7 = Some [(0, Direct), (1, Dynamic)]"
  by (simp add: row_effects_def sample_builder_def push_row_def push_terminal_set_def new_builder_def iter_one)

lemma sample_ranks: "rank_of sample_universe 0 = 1" "rank_of sample_universe 1 = 0"
  by (simp_all add: rank_of_def sample_universe_def universe_eval)

theorem db_effects_are_the_rows_witness:
  "db_effects sample_bundle 7 = [make_ref sample_bundle 1 Dynamic, make_ref sample_bundle 0 Direct] \<and>
   db_effects sample_bundle 8 = []"
proof -
  have order: "set [7] = dom (bb_rows sample_builder)" using sample_builder_ok(2) by simp
  note d = db_effects_are_the_rows [OF sample_builder_ok(1) order sample_builder_ok(3,4) sample_bundle_def]
  have "row_effects sample_builder 8 = None"
    by (simp add: row_effects_def sample_builder_def push_row_def push_terminal_set_def new_builder_def)
  then show ?thesis using d [of 7] d [of 8] by (simp add: sample_row sample_ranks)
qed

text \<open>
  The point query: the via of one terminal effect of a routine is found in the pooled
  column at the effect's ordinal in the shared set.
\<close>

theorem base_via_at_ordinal:
  assumes "builder_ok u b" "set order = dom (bb_rows b)" "via_total b order < 2 ^ 32" "delta_total b order < 2 ^ 32"
    "bu = finish_bundle order b u names rvid" "bb_rows b r = Some raw" "bu_summaries bu r = Some row"
    "ordinal_of (st_sets (bu_effects bu) ! unat (cr_terminal_base row)) e = Some k"
  shows "(e, slice (bu_via_pool bu) (cr_base_via row) ! unat k) \<in>
    set (zip (iter_set_bits (bb_arena b ! unat (rr_terminal_set raw))) (rr_base_via raw))"
proof -
  note p = finish_bundle_props [OF assms(1,5,2,3,4)]
  obtain ids where ids: "row_stored u ids (bu_via_pool bu) (bu_delta_pool bu) raw row"
    "unat (cr_terminal_base row) < length (st_sets (bu_effects bu))"
    "set_iter (st_sets (bu_effects bu) ! unat (cr_terminal_base row)) =
       iter_set_bits (bb_arena b ! unat (rr_terminal_set raw))"
    using p(4) [OF assms(7,6)] by blast
  have "entry_ok (bu_effects bu) (unat (cr_terminal_base row))" using p(1) ids(2) by (simp add: store_ok_def)
  then obtain bits where s: "st_sets (bu_effects bu) ! unat (cr_terminal_base row) = from_bits bits (length (by_id u))"
    unfolding entry_ok_def p(2) by blast
  have n: "length (by_id u) < 2 ^ 32" using assms(1) by (simp add: builder_ok_def)
  have k: "unat k < length (set_iter (from_bits bits (length (by_id u)))) \<and>
      set_iter (from_bits bits (length (by_id u))) ! unat k = e"
    using ordinal_of_position [OF n] assms(8) by (simp add: s)
  have via: "slice (bu_via_pool bu) (cr_base_via row) = rr_base_via raw" using ids(1) by (simp add: row_stored_def)
  have len: "length (rr_base_via raw) = length (iter_set_bits (bb_arena b ! unat (rr_terminal_set raw)))"
    using assms(1,6) by (auto simp: builder_ok_def)
  show ?thesis
    unfolding via in_set_zip using k ids(3) len by (intro exI [of _ "unat k"]) (simp add: s)
qed

theorem base_via_at_ordinal_witness:
  "\<exists>row. bu_summaries sample_bundle 7 = Some row \<and>
     (0, slice (bu_via_pool sample_bundle) (cr_base_via row) ! unat (0 :: u32)) \<in> set [(0 :: u32, Direct)]"
proof -
  have order: "set [7] = dom (bb_rows sample_builder)" using sample_builder_ok(2) by simp
  note p = finish_bundle_props [OF sample_builder_ok(1) sample_bundle_def order sample_builder_ok(3,4)]
  obtain raw where raw: "bb_rows sample_builder 7 = Some raw" "bb_arena sample_builder ! unat (rr_terminal_set raw) = [1]"
    "rr_base_via raw = [Direct]"
    by (simp add: sample_builder_def push_row_def push_terminal_set_def new_builder_def)
  obtain row where row: "bu_summaries sample_bundle 7 = Some row" using p(3) raw(1) by (metis domD domI)
  let ?s = "st_sets (bu_effects sample_bundle) ! unat (cr_terminal_base row)"
  have s: "unat (cr_terminal_base row) < length (st_sets (bu_effects sample_bundle))" "set_iter ?s = [0]"
    using p(4) [OF row raw(1)] by (auto simp: raw(2) iter_one)
  then have "entry_ok (bu_effects sample_bundle) (unat (cr_terminal_base row))" using p(1) by (simp add: store_ok_def)
  then obtain bits where "?s = from_bits bits (length (by_id sample_universe))" unfolding entry_ok_def p(2) by blast
  moreover have "length (by_id sample_universe) < 2 ^ 32" by (simp add: sample_store(3))
  ultimately have "ordinal_of ?s 0 = Some 0" using contains_and_ordinal [of ?s bits _ 0 0] s(2) by simp
  from base_via_at_ordinal [OF sample_builder_ok(1) order sample_builder_ok(3,4) sample_bundle_def raw(1) row this]
  show ?thesis using row by (simp add: raw iter_one)
qed

end
