(* ===== verification/Fallible.thy ===== *)
theory Fallible
  imports Prelude "HOL-Library.While_Combinator" "HOL-Library.Monad_Syntax"
begin

text \<open>
  Loops whose body may panic. A panic is \<open>None\<close>; a fold stops at it, and a while loop that panics or
  does not end is \<open>None\<close>. Where the body never panics both are the plain loop.
\<close>

fun try_fold :: "('a \<Rightarrow> 's \<Rightarrow> 's option) \<Rightarrow> 'a list \<Rightarrow> 's \<Rightarrow> 's option" where
  "try_fold f [] s = Some s"
| "try_fold f (x # xs) s = Option.bind (f x s) (try_fold f xs)"

lemma try_fold_append: "try_fold f (xs @ ys) s = Option.bind (try_fold f xs s) (try_fold f ys)"
  by (induction xs arbitrary: s) (auto split: bind_split)

lemma try_fold_total:
  assumes "\<And>x s. x \<in> set xs \<Longrightarrow> I s \<Longrightarrow> f x s = Some (g x s) \<and> I (g x s)" "I s"
  shows "try_fold f xs s = Some (fold g xs s) \<and> I (fold g xs s)"
  using assms by (induction xs arbitrary: s) auto

lemma try_fold_inv:
  assumes "\<And>x s s'. x \<in> set xs \<Longrightarrow> I s \<Longrightarrow> f x s = Some s' \<Longrightarrow> I s'" "I s" "try_fold f xs s = Some s'"
  shows "I s'"
  using assms by (induction xs arbitrary: s) (auto simp: bind_eq_Some_conv)

definition try_while :: "('s \<Rightarrow> bool) \<Rightarrow> ('s \<Rightarrow> 's option) \<Rightarrow> 's \<Rightarrow> 's option" where
  "try_while b f s =
     Option.bind (while_option (\<lambda>r. case r of None \<Rightarrow> False | Some s \<Rightarrow> b s) (\<lambda>r. Option.bind r f) (Some s)) id"

lemma try_while_unfold: "try_while b f s = (if b s then Option.bind (f s) (try_while b f) else Some s)"
proof (cases "b s")
  case True
  then have "while_option (\<lambda>r. case r of None \<Rightarrow> False | Some s \<Rightarrow> b s) (\<lambda>r. Option.bind r f) (Some s) =
      while_option (\<lambda>r. case r of None \<Rightarrow> False | Some s \<Rightarrow> b s) (\<lambda>r. Option.bind r f) (f s)"
    by (subst while_option_unfold) simp
  then show ?thesis using True
    by (cases "f s") (simp_all add: try_while_def while_option_unfold [of _ _ None])
qed (simp add: try_while_def while_option_unfold)

lemma try_while_total:
  assumes "\<And>s. I s \<Longrightarrow> b s \<Longrightarrow> f s = Some (g s) \<and> I (g s)"
    and "I s" "while_option b g s = Some t"
  shows "try_while b f s = Some t"
proof -
  have "I s \<longrightarrow> try_while b f s = Some t" if run: "\<not> b ((g ^^ n) s)" "\<forall>k < n. b ((g ^^ k) s)" "t = (g ^^ n) s" for n s
    using run
  proof (induction n arbitrary: s)
    case 0
    then show ?case by (subst try_while_unfold) simp
  next
    case (Suc n)
    have b: "b s" using Suc.prems(2) by (metis funpow_0 zero_less_Suc)
    have "I (g s) \<longrightarrow> try_while b f (g s) = Some t"
    proof (rule Suc.IH)
      show "\<not> b ((g ^^ n) (g s))" "t = (g ^^ n) (g s)" using Suc.prems by (simp_all add: funpow_swap1)
      show "\<forall>k < n. b ((g ^^ k) (g s))" using Suc.prems(2) by (metis Suc_less_eq comp_apply funpow_Suc_right)
    qed
    with b assms(1) [of s] show ?case by (subst try_while_unfold) simp
  qed
  moreover obtain n where "\<not> b ((g ^^ n) s)" "\<forall>k < n. b ((g ^^ k) s)" "t = (g ^^ n) s"
  proof -
    let ?n = "LEAST n. \<not> b ((g ^^ n) s)"
    from assms(3) have ex: "\<exists>n. \<not> b ((g ^^ n) s)" and t: "t = (g ^^ ?n) s"
      by (auto simp: while_option_def split: if_splits)
    show thesis
      by (rule that [of ?n]) (use LeastI_ex [OF ex] t not_less_Least in blast)+
  qed
  ultimately show ?thesis using assms(2) by blast
qed

end
