(* ===== verification/Worklist.thy ===== *)
theory Worklist
  imports Fallible
begin

text \<open>
  The contract of a semi-naive worklist: a step takes the first state, visits the successors not yet
  visited and queues exactly those, and emits what the state emits. Over a finite space the loop
  ends, with the least set of states that holds the seeds and is closed under successors.
\<close>

locale worklist =
  fixes visited work :: "'s \<Rightarrow> 'a list" and out :: "'s \<Rightarrow> 'e set" and step :: "'s \<Rightarrow> 's"
    and succs :: "'a \<Rightarrow> 'a set" and emits :: "'a \<Rightarrow> 'e set" and space :: "'a set"
  assumes step_states: "work s = x # rest \<Longrightarrow> \<exists>new. visited (step s) = visited s @ new \<and> work (step s) = rest @ new \<and>
      distinct new \<and> set new = succs x - set (visited s)"
    and step_out: "work s = x # rest \<Longrightarrow> out (step s) = out s \<union> emits x"
    and space_finite: "finite space" and space_closed: "x \<in> space \<Longrightarrow> succs x \<subseteq> space"
begin

definition ready :: "'s \<Rightarrow> bool" where
  "ready s = (set (work s) \<subseteq> set (visited s) \<and> set (visited s) \<subseteq> space)"

lemma ready_step: "ready s \<Longrightarrow> work s \<noteq> [] \<Longrightarrow> ready (step s)"
proof -
  assume s: "ready s" "work s \<noteq> []"
  then obtain x rest where w: "work s = x # rest" by (cases "work s") auto
  obtain new where "visited (step s) = visited s @ new" "work (step s) = rest @ new" "set new = succs x - set (visited s)"
    using step_states [OF w] by blast
  moreover have "succs x \<subseteq> space" using s w space_closed [of x] by (auto simp: ready_def)
  ultimately show ?thesis using s w by (auto simp: ready_def)
qed

definition measure_of :: "'s \<Rightarrow> nat" where
  "measure_of s = 2 * card (space - set (visited s)) + length (work s)"

lemma measure_step: "ready s \<Longrightarrow> work s \<noteq> [] \<Longrightarrow> measure_of (step s) < measure_of s"
proof -
  assume s: "ready s" "work s \<noteq> []"
  then obtain x rest where w: "work s = x # rest" by (cases "work s") auto
  obtain new where new: "visited (step s) = visited s @ new" "work (step s) = rest @ new" "distinct new"
      "set new = succs x - set (visited s)"
    using step_states [OF w] by blast
  have sub: "set new \<subseteq> space - set (visited s)" using s w new(4) space_closed [of x] by (auto simp: ready_def)
  have "card (space - set (visited s) - set new) = card (space - set (visited s)) - length new"
    using sub new(3) by (simp add: card_Diff_subset distinct_card)
  moreover have "length new \<le> card (space - set (visited s))"
    using sub new(3) card_mono [OF _ sub] space_finite by (simp add: distinct_card)
  moreover have "space - set (visited (step s)) = space - set (visited s) - set new" using new(1) by auto
  ultimately show ?thesis using new(2) w by (simp add: measure_of_def)
qed

lemma run_ends: "ready s \<Longrightarrow> \<exists>t. while_option (\<lambda>s. work s \<noteq> []) step s = Some t"
  by (rule measure_while_option_Some [where P = ready and f = measure_of]) (auto intro: ready_step measure_step)

lemma run_result:
  assumes "while_option (\<lambda>s. work s \<noteq> []) step s = Some t" "ready s" "set (work s) = set (visited s)"
  shows "set (visited s) \<subseteq> set (visited t)" "x \<in> set (visited t) \<Longrightarrow> succs x \<subseteq> set (visited t)"
    "out t = out s \<union> (\<Union>x \<in> set (visited t). emits x)"
    "set (visited s) \<subseteq> X \<Longrightarrow> (\<And>x. x \<in> X \<Longrightarrow> succs x \<subseteq> X) \<Longrightarrow> set (visited t) \<subseteq> X"
proof -
  define I where "I u = (ready u \<and> set (visited s) \<subseteq> set (visited u) \<and>
      (\<forall>x \<in> set (visited u) - set (work u). succs x \<subseteq> set (visited u)) \<and>
      out s \<union> (\<Union>x \<in> set (visited u) - set (work u). emits x) \<subseteq> out u \<and>
      out u \<subseteq> out s \<union> (\<Union>x \<in> set (visited u). emits x))" for u
  have keep: "I (step u)" if u: "I u" "work u \<noteq> []" for u
  proof -
    obtain x rest where w: "work u = x # rest" using u by (cases "work u") auto
    obtain new where new: "visited (step u) = visited u @ new" "work (step u) = rest @ new" "set new = succs x - set (visited u)"
      using step_states [OF w] by blast
    have x: "x \<in> set (visited u)" using u w by (auto simp: I_def ready_def)
    have processed: "y \<in> set (visited u) - set (work u) \<or> y = x" if "y \<in> set (visited (step u)) - set (work (step u))" for y
      using that new w by auto
    have "succs y \<subseteq> set (visited (step u))" if "y \<in> set (visited (step u)) - set (work (step u))" for y
      using processed [OF that] u new by (auto simp: I_def)
    moreover have "emits y \<subseteq> out (step u)" if "y \<in> set (visited (step u)) - set (work (step u))" for y
      using processed [OF that] u step_out [OF w] by (auto simp: I_def)
    ultimately show ?thesis using u new x step_out [OF w] ready_step [of u] by (auto simp: I_def)
  qed
  have I: "I t" using assms keep by (intro while_option_rule [where P = I, OF _ assms(1)]) (auto simp: I_def)
  have empty: "work t = []" using while_option_stop [OF assms(1)] by simp
  from I empty show "set (visited s) \<subseteq> set (visited t)" "x \<in> set (visited t) \<Longrightarrow> succs x \<subseteq> set (visited t)"
    by (auto simp: I_def)
  from I empty show "out t = out s \<union> (\<Union>x \<in> set (visited t). emits x)" by (auto simp: I_def)
  show "set (visited t) \<subseteq> X" if X: "set (visited s) \<subseteq> X" "\<And>x. x \<in> X \<Longrightarrow> succs x \<subseteq> X"
  proof -
    have "set (visited (step u)) \<subseteq> X" if u: "set (visited u) \<subseteq> X \<and> set (work u) \<subseteq> X" "work u \<noteq> []" for u
    proof -
      obtain x rest where w: "work u = x # rest" using u by (cases "work u") auto
      then show ?thesis using step_states [OF w] u X(2) [of x] by auto
    qed
    moreover have "set (work (step u)) \<subseteq> X" if u: "set (visited u) \<subseteq> X \<and> set (work u) \<subseteq> X" "work u \<noteq> []" for u
    proof -
      obtain x rest where w: "work u = x # rest" using u by (cases "work u") auto
      then show ?thesis using step_states [OF w] u X(2) [of x] by auto
    qed
    ultimately have "set (visited t) \<subseteq> X \<and> set (work t) \<subseteq> X"
      using X(1) assms(3)
      by (intro while_option_rule [where P = "\<lambda>u. set (visited u) \<subseteq> X \<and> set (work u) \<subseteq> X", OF _ assms(1)]) auto
    then show ?thesis by blast
  qed
qed

end

end
