(* ===== verification/Scc.thy ===== *)
theory Scc
  imports Prelude "HOL-Library.While_Combinator" "HOL-Library.Char_ord" "HOL-Library.List_Lexorder"
begin

text \<open>
  The strongly connected components of the combined graph (\<open>src/src/engine/l4/scc.rs\<close>): the
  iterative algorithm of Tarjan with an explicit work stack. Hash maps are partial maps, the \<open>Vec\<close>
  stacks are lists with the top at the head, and the while loop is \<open>while_option\<close>, whose \<open>None\<close>
  means that it does not end.
\<close>

section \<open>The graph and the state\<close>

record scc_graph =
  nodes :: "string list"
  edges_by_from :: "string \<rightharpoonup> string list"

record scc =
  members :: "string list"
  recursive :: bool

record scc_result =
  sccs :: "scc list"
  scc_id_by_routine :: "string \<rightharpoonup> nat"

record frame =
  fr_node :: string
  child_idx :: nat

record tarjan =
  next_index :: nat
  index :: "string \<rightharpoonup> nat"
  lowlink :: "string \<rightharpoonup> nat"
  on_stack :: "string set"
  stack :: "string list"
  raw_sccs :: "string list list"
  work :: "frame list"

definition children :: "scc_graph \<Rightarrow> string \<Rightarrow> string list" where
  "children g v = unwrap_or [] (edges_by_from g v)"

section \<open>One iteration of the loop\<close>

definition enter :: "string \<Rightarrow> tarjan \<Rightarrow> tarjan" where
  "enter v s = s\<lparr> index := (index s)(v \<mapsto> next_index s), lowlink := (lowlink s)(v \<mapsto> next_index s),
     next_index := next_index s + 1, stack := v # stack s, on_stack := insert v (on_stack s) \<rparr>"

definition lower :: "string \<Rightarrow> nat \<Rightarrow> tarjan \<Rightarrow> tarjan" where
  "lower v n s = s\<lparr> lowlink := (lowlink s)(v \<mapsto> min (unwrap_or 0 (lowlink s v)) n) \<rparr>"

fun pop_until :: "string \<Rightarrow> string list \<Rightarrow> string set \<Rightarrow> string list \<times> string list \<times> string set" where
  "pop_until v [] on = ([], [], on)"
| "pop_until v (w # ws) on =
     (if w = v then ([w], ws, on - {w})
      else (case pop_until v ws (on - {w}) of (ms, rest, on) \<Rightarrow> (w # ms, rest, on)))"

definition emit_component :: "string \<Rightarrow> tarjan \<Rightarrow> tarjan" where
  "emit_component v s = (case pop_until v (stack s) (on_stack s) of (ms, rest, on) \<Rightarrow>
     s\<lparr> stack := rest, on_stack := on, raw_sccs := raw_sccs s @ [ms] \<rparr>)"

definition visit_child :: "string \<Rightarrow> string \<Rightarrow> tarjan \<Rightarrow> tarjan" where
  "visit_child v to s =
     (if index s to = None then s\<lparr> work := \<lparr> fr_node = to, child_idx = 0 \<rparr> # work s \<rparr>
      else if to \<in> on_stack s then lower v (unwrap_or 0 (index s to)) s
      else s)"

definition settle :: "string \<Rightarrow> frame list \<Rightarrow> tarjan \<Rightarrow> tarjan" where
  "settle v rest s =
     (let s = (if lowlink s v = index s v then emit_component v s else s);
          s = s\<lparr> work := rest \<rparr>
      in case rest of
           [] \<Rightarrow> s
         | parent # _ \<Rightarrow> lower (fr_node parent) (unwrap_or 0 (lowlink s v)) s)"

definition tarjan_step :: "scc_graph \<Rightarrow> tarjan \<Rightarrow> tarjan" where
  "tarjan_step g s = (case work s of
      [] \<Rightarrow> s
    | f # rest \<Rightarrow>
        (let v = fr_node f; i = child_idx f;
             s = (if i = 0 then enter v s else s)
         in if i < length (children g v)
            then visit_child v (children g v ! i) (s\<lparr> work := f\<lparr> child_idx := i + 1 \<rparr> # rest \<rparr>)
            else settle v rest s))"

section \<open>The whole run\<close>

definition tarjan_root :: "scc_graph \<Rightarrow> string \<Rightarrow> tarjan \<Rightarrow> tarjan option" where
  "tarjan_root g start s =
     (if index s start \<noteq> None then Some s
      else while_option (\<lambda>s. work s \<noteq> []) (tarjan_step g) (s\<lparr> work := [\<lparr> fr_node = start, child_idx = 0 \<rparr>] \<rparr>))"

fun tarjan_roots :: "scc_graph \<Rightarrow> string list \<Rightarrow> tarjan \<Rightarrow> tarjan option" where
  "tarjan_roots g [] s = Some s"
| "tarjan_roots g (v # vs) s = (case tarjan_root g v s of None \<Rightarrow> None | Some s \<Rightarrow> tarjan_roots g vs s)"

definition start_state :: tarjan where
  "start_state = \<lparr> next_index = 0, index = Map.empty, lowlink = Map.empty, on_stack = {}, stack = [],
     raw_sccs = [], work = [] \<rparr>"

definition component :: "scc_graph \<Rightarrow> string list \<Rightarrow> scc" where
  "component g ms =
     (let sorted = sort ms in
      \<lparr> members = sorted,
        recursive = (1 < length sorted \<or>
          (case first_of sorted of None \<Rightarrow> False
           | Some only \<Rightarrow> (case edges_by_from g only of None \<Rightarrow> False | Some tos \<Rightarrow> only \<in> set tos))) \<rparr>)"

definition number_members :: "nat \<Rightarrow> string list \<Rightarrow> (string \<rightharpoonup> nat) \<Rightarrow> (string \<rightharpoonup> nat)" where
  "number_members i ms t = fold (\<lambda>m t. t(m \<mapsto> i)) ms t"

fun assemble :: "scc_graph \<Rightarrow> string list list \<Rightarrow> scc_result \<Rightarrow> scc_result" where
  "assemble g [] r = r"
| "assemble g (ms # raw) r =
     (let c = component g ms in
      assemble g raw \<lparr> sccs = sccs r @ [c],
        scc_id_by_routine = number_members (length (sccs r)) (members c) (scc_id_by_routine r) \<rparr>)"

definition tarjan_scc :: "scc_graph \<Rightarrow> scc_result option" where
  "tarjan_scc g = (case tarjan_roots g (nodes g) start_state of
      None \<Rightarrow> None
    | Some s \<Rightarrow> Some (assemble g (raw_sccs s) \<lparr> sccs = [], scc_id_by_routine = Map.empty \<rparr>))"

section \<open>Reachability\<close>

definition edge :: "scc_graph \<Rightarrow> (string \<times> string) set" where
  "edge g = {(v, w). w \<in> set (children g v)}"

abbreviation reaches :: "scc_graph \<Rightarrow> string \<Rightarrow> string \<Rightarrow> bool" where
  "reaches g v w \<equiv> (v, w) \<in> (edge g)\<^sup>*"

definition reachable :: "scc_graph \<Rightarrow> string set" where
  "reachable g = (edge g)\<^sup>* `` set (nodes g)"

lemma edge_iff: "(v, w) \<in> edge g \<longleftrightarrow> w \<in> set (children g v)"
  by (simp add: edge_def)

lemma reaches_child: "w \<in> set (children g v) \<Longrightarrow> reaches g v w"
  by (auto simp: edge_iff)

lemma finite_reachable:
  assumes "finite (dom (edges_by_from g))"
  shows "finite (reachable g)"
proof -
  have "w \<in> set (nodes g) \<union> \<Union> (set ` ran (edges_by_from g))" if "v \<in> set (nodes g)" "reaches g v w" for v w
    using that(2,1)
  proof (induction)
    case (step y z)
    then show ?case
      by (cases "edges_by_from g y") (auto simp: edge_iff children_def ran_def)
  qed simp
  then have "reachable g \<subseteq> set (nodes g) \<union> \<Union> (set ` ran (edges_by_from g))" by (auto simp: reachable_def)
  moreover have "finite (set (nodes g) \<union> \<Union> (set ` ran (edges_by_from g)))" using assms by (simp add: finite_ran)
  ultimately show ?thesis by (rule finite_subset)
qed

lemma reachable_closed: "v \<in> reachable g \<Longrightarrow> set (children g v) \<subseteq> reachable g"
  unfolding reachable_def by (blast intro: rtrancl_into_rtrancl edge_iff [THEN iffD2])

text \<open>A set closed under edges keeps everything it reaches.\<close>

lemma closed_reaches:
  assumes "\<forall>v \<in> A. set (children g v) \<subseteq> A" "u \<in> A" "reaches g u w"
  shows "w \<in> A"
  using assms(3,2) by (induction) (use assms(1) in \<open>auto simp: edge_iff\<close>)

section \<open>The invariant\<close>

text \<open>
  The invariant speaks of the entered part of the work stack, a list of nodes with their cursors
  (the top first). \<open>ix\<close> and \<open>low\<close> read the two tables where they are defined.
\<close>

abbreviation ix :: "tarjan \<Rightarrow> string \<Rightarrow> nat" where
  "ix s v \<equiv> the (index s v)"

abbreviation low :: "tarjan \<Rightarrow> string \<Rightarrow> nat" where
  "low s v \<equiv> the (lowlink s v)"

abbreviation emitted_nodes :: "tarjan \<Rightarrow> string set" where
  "emitted_nodes s \<equiv> set (concat (raw_sccs s))"

definition path_nodes :: "(string \<times> nat) list \<Rightarrow> string set" where
  "path_nodes ps = fst ` set ps"

definition scanned :: "scc_graph \<Rightarrow> (string \<times> nat) list \<Rightarrow> string \<Rightarrow> string set" where
  "scanned g ps v = (case map_of ps v of Some c \<Rightarrow> set (take c (children g v)) | None \<Rightarrow> set (children g v))"

definition marks_ok :: "tarjan \<Rightarrow> bool" where
  "marks_ok s \<longleftrightarrow> on_stack s = set (stack s) \<and> sorted_wrt (\<lambda>a b. ix s b < ix s a) (stack s) \<and>
     dom (index s) = set (stack s) \<union> emitted_nodes s \<and> set (stack s) \<inter> emitted_nodes s = {} \<and>
     (\<forall>v \<in> set (stack s). ix s v < next_index s) \<and> dom (lowlink s) = dom (index s)"

definition path_ok :: "tarjan \<Rightarrow> (string \<times> nat) list \<Rightarrow> bool" where
  "path_ok s ps \<longleftrightarrow> path_nodes ps \<subseteq> set (stack s) \<and> sorted_wrt (\<lambda>p q. ix s (fst q) < ix s (fst p)) ps"

definition components_ok :: "scc_graph \<Rightarrow> string list list \<Rightarrow> bool" where
  "components_ok g raw \<longleftrightarrow> distinct (concat raw) \<and>
     (\<forall>ms \<in> set raw. ms \<noteq> [] \<and> (\<forall>u \<in> set ms. \<forall>v \<in> set ms. reaches g u v)) \<and>
     (\<forall>i < length raw. \<forall>v \<in> set (raw ! i). set (children g v) \<subseteq> set (concat (take (Suc i) raw)))"

definition reach_ok :: "scc_graph \<Rightarrow> tarjan \<Rightarrow> (string \<times> nat) list \<Rightarrow> bool" where
  "reach_ok g s ps \<longleftrightarrow>
     (\<forall>p \<in> path_nodes ps. \<forall>v \<in> set (stack s). ix s p \<le> ix s v \<longrightarrow> reaches g p v) \<and>
     (\<forall>v \<in> set (stack s). \<exists>p \<in> path_nodes ps. ix s p \<le> ix s v \<and> reaches g v p)"

definition low_ok :: "scc_graph \<Rightarrow> tarjan \<Rightarrow> (string \<times> nat) list \<Rightarrow> bool" where
  "low_ok g s ps \<longleftrightarrow>
     (\<forall>p \<in> path_nodes ps. \<forall>v \<in> set (stack s). \<forall>w \<in> scanned g ps v \<inter> set (stack s). ix s p \<le> ix s v \<longrightarrow>
        low s p \<le> ix s w \<or> (\<exists>q \<in> path_nodes ps. ix s p < ix s q \<and> ix s q \<le> ix s v)) \<and>
     (\<forall>p \<in> path_nodes ps. low s p \<le> ix s p \<and> (\<exists>u \<in> set (stack s). ix s u = low s p \<and> reaches g p u))"

definition inv :: "scc_graph \<Rightarrow> tarjan \<Rightarrow> (string \<times> nat) list \<Rightarrow> bool" where
  "inv g s ps \<longleftrightarrow> marks_ok s \<and> path_ok s ps \<and> components_ok g (raw_sccs s) \<and>
     (\<forall>v \<in> set (stack s). scanned g ps v \<subseteq> dom (index s)) \<and> reach_ok g s ps \<and> low_ok g s ps"

lemmas inv_defs = inv_def reach_ok_def low_ok_def

lemma invD:
  assumes "inv g s ps"
  shows "marks_ok s" "path_ok s ps" "components_ok g (raw_sccs s)"
    and "\<And>v. v \<in> set (stack s) \<Longrightarrow> scanned g ps v \<subseteq> dom (index s)"
    and "\<And>p v. p \<in> path_nodes ps \<Longrightarrow> v \<in> set (stack s) \<Longrightarrow> ix s p \<le> ix s v \<Longrightarrow> reaches g p v"
    and "\<And>v. v \<in> set (stack s) \<Longrightarrow> \<exists>p \<in> path_nodes ps. ix s p \<le> ix s v \<and> reaches g v p"
    and "\<And>p v w. p \<in> path_nodes ps \<Longrightarrow> v \<in> set (stack s) \<Longrightarrow> w \<in> scanned g ps v \<Longrightarrow> w \<in> set (stack s) \<Longrightarrow> ix s p \<le> ix s v \<Longrightarrow>
        low s p \<le> ix s w \<or> (\<exists>q \<in> path_nodes ps. ix s p < ix s q \<and> ix s q \<le> ix s v)"
    and "\<And>p. p \<in> path_nodes ps \<Longrightarrow> low s p \<le> ix s p"
    and "\<And>p. p \<in> path_nodes ps \<Longrightarrow> \<exists>u \<in> set (stack s). ix s u = low s p \<and> reaches g p u"
  using assms unfolding inv_defs by blast+

lemma marks_okD:
  assumes "marks_ok s"
  shows "on_stack s = set (stack s)" "sorted_wrt (\<lambda>a b. ix s b < ix s a) (stack s)"
    "dom (index s) = set (stack s) \<union> emitted_nodes s" "set (stack s) \<inter> emitted_nodes s = {}"
    "\<And>v. v \<in> set (stack s) \<Longrightarrow> ix s v < next_index s" "dom (lowlink s) = dom (index s)"
  using assms unfolding marks_ok_def by auto

lemma stack_tables:
  assumes "marks_ok s" "v \<in> set (stack s)"
  shows "lowlink s v = Some (low s v)" "index s v = Some (ix s v)"
proof -
  have "v \<in> dom (index s)" "v \<in> dom (lowlink s)" using marks_okD [OF assms(1)] assms(2) by auto
  then show "lowlink s v = Some (low s v)" "index s v = Some (ix s v)" by auto
qed

lemma low_lower:
  assumes "marks_ok s" "v \<in> set (stack s)"
  shows "low (lower v n s) v = min (low s v) n"
proof -
  obtain l where "lowlink s v = Some l" using stack_tables(1) [OF assms] by blast
  then show ?thesis by (simp add: lower_def)
qed

lemma path_nodes_simps [simp]: "path_nodes [] = {}" "path_nodes (p # ps) = insert (fst p) (path_nodes ps)"
  by (simp_all add: path_nodes_def)

lemma scanned_other:
  assumes "v \<notin> path_nodes ps"
  shows "scanned g ps v = set (children g v)"
proof -
  have "map_of ps v = None" using assms by (simp add: path_nodes_def map_of_eq_None_iff)
  then show ?thesis by (simp add: scanned_def)
qed

lemma scanned_Cons: "scanned g ((v, c) # ps) u = (if u = v then set (take c (children g v)) else scanned g ps u)"
  by (simp add: scanned_def)

lemma inv_work [simp]: "inv g (s\<lparr> work := w \<rparr>) ps = inv g s ps"
  by (simp add: inv_defs marks_ok_def path_ok_def)

lemma path_le_top:
  assumes "path_ok s ((v, c) # ps)" "q \<in> path_nodes ps"
  shows "ix s q < ix s v"
  using assms by (auto simp: path_ok_def path_nodes_def)

lemma sorted_wrt_distinct: "sorted_wrt (\<lambda>a b. f b < (f a :: nat)) xs \<Longrightarrow> distinct xs"
  by (induction xs) auto

lemma sorted_wrt_inj:
  assumes "sorted_wrt (\<lambda>a b. f b < (f a :: nat)) xs" "a \<in> set xs" "b \<in> set xs" "f a = f b"
  shows "a = b"
  using assms by (induction xs) fastforce+

section \<open>Entering a node\<close>

fun bump :: "(string \<times> nat) list \<Rightarrow> (string \<times> nat) list" where
  "bump [] = []"
| "bump ((q, c) # ps) = (q, Suc c) # ps"

fun pending :: "scc_graph \<Rightarrow> (string \<times> nat) list \<Rightarrow> string \<Rightarrow> bool" where
  "pending g [] v = True"
| "pending g ((q, c) # ps) v = (c < length (children g q) \<and> children g q ! c = v)"

lemma path_nodes_bump [simp]: "path_nodes (bump ps) = path_nodes ps"
  by (cases ps rule: bump.cases) simp_all

lemma scanned_bump:
  assumes "pending g ps v"
  shows "scanned g (bump ps) u = (case ps of (q, c) # _ \<Rightarrow> if u = q then insert v (scanned g ps u) else scanned g ps u | [] \<Rightarrow> scanned g ps u)"
  using assms by (cases ps rule: bump.cases) (auto simp: scanned_Cons take_Suc_conv_app_nth)

lemma pending_last:
  assumes "pending g ps v" "ps \<noteq> []"
  obtains q c rest where "ps = (q, c) # rest" "v \<in> set (children g q)"
  using assms by (cases ps rule: bump.cases) auto

lemma enter_new: "ix (enter v s) v = next_index s" "low (enter v s) v = next_index s" "set (stack (enter v s)) = insert v (set (stack s))"
  by (auto simp: enter_def)

lemma enter_old:
  assumes "inv g s ps" "index s v = None"
  shows "v \<notin> set (stack s)" "v \<notin> emitted_nodes s" "path_nodes ps \<subseteq> set (stack s)"
    and "\<And>u. u \<in> set (stack s) \<Longrightarrow> ix (enter v s) u = ix s u \<and> low (enter v s) u = low s u \<and> ix s u < next_index s"
proof -
  note m = marks_okD [OF invD(1) [OF assms(1)]]
  show v: "v \<notin> set (stack s)" "v \<notin> emitted_nodes s" using m(3) assms(2) by auto
  show "ix (enter v s) u = ix s u \<and> low (enter v s) u = low s u \<and> ix s u < next_index s" if "u \<in> set (stack s)" for u
    using that v m(5) by (auto simp: enter_def)
qed (use invD(2) [OF assms(1)] in \<open>simp add: path_ok_def\<close>)

lemma enter_scanned:
  assumes "pending g ps v"
  shows "scanned g ((v, 0) # bump ps) u \<subseteq> insert v (scanned g ps u)" "scanned g ((v, 0) # bump ps) v = {}"
  using scanned_bump [OF assms, of u] by (auto simp: scanned_Cons split: list.splits if_splits)

lemma enter_marks:
  assumes "inv g s ps" "index s v = None"
  shows "marks_ok (enter v s)"
proof -
  note m = marks_okD [OF invD(1) [OF assms(1)]] and old = enter_old [OF assms]
  have "sorted_wrt (\<lambda>a b. ix (enter v s) b < ix (enter v s) a) (stack s)"
    using m(2) by (rule sorted_wrt_mono_rel [rotated]) (simp add: old(4))
  then show ?thesis using m old unfolding marks_ok_def by (auto simp: enter_def less_Suc_eq)
qed

lemma enter_path:
  assumes "inv g s ps" "index s v = None"
  shows "path_ok (enter v s) ((v, 0) # bump ps)"
proof -
  note i = invD [OF assms(1)] and old = enter_old [OF assms]
  have mem: "fst p \<in> set (stack s)" if "p \<in> set (bump ps)" for p
  proof -
    have "fst p \<in> path_nodes (bump ps)" unfolding path_nodes_def using that by (rule imageI)
    then show ?thesis using old(3) by auto
  qed
  have "sorted_wrt (\<lambda>p q. ix s (fst q) < ix s (fst p)) (bump ps)"
    using i(2) by (cases ps rule: bump.cases) (auto simp: path_ok_def)
  then have "sorted_wrt (\<lambda>p q. ix (enter v s) (fst q) < ix (enter v s) (fst p)) (bump ps)"
    by (rule sorted_wrt_mono_rel [rotated]) (simp only: old(4) [OF mem])
  moreover have "ix (enter v s) (fst p) < ix (enter v s) v" if "p \<in> set (bump ps)" for p
    using old(4) [OF mem [OF that]] by (simp add: enter_new)
  ultimately show ?thesis using old(3) by (auto simp: path_ok_def enter_new)
qed

lemma path_reaches_pending:
  assumes "inv g s ps" "pending g ps v" "p \<in> path_nodes ps"
  shows "reaches g p v"
proof -
  have "ps \<noteq> []" using assms(3) by auto
  with assms(2) obtain q c rest where q: "ps = (q, c) # rest" "v \<in> set (children g q)" by (rule pending_last)
  note i = invD [OF assms(1)]
  have "ix s p \<le> ix s q" using assms(3) q(1) path_le_top [of s q c rest p] i(2) by auto
  then have "reaches g p q" using i(5) [OF assms(3), of q] i(2) q(1) by (simp add: path_ok_def)
  then show ?thesis using q(2) reaches_child rtrancl_trans by metis
qed

lemma enter_reach:
  assumes "inv g s ps" "pending g ps v" "index s v = None"
  shows "reach_ok g (enter v s) ((v, 0) # bump ps)"
proof -
  note i = invD [OF assms(1)] and old = enter_old [OF assms(1,3)]
  have "reaches g p u" if "p \<in> insert v (path_nodes ps)" "u \<in> insert v (set (stack s))" "ix (enter v s) p \<le> ix (enter v s) u" for p u
  proof (cases "u = v")
    case True
    then show ?thesis using that(1) path_reaches_pending [OF assms(1,2)] by (cases "p = v") auto
  next
    case False
    then have u: "u \<in> set (stack s)" using that(2) by simp
    then have "p \<noteq> v" using that(3) old(4) by (force simp: enter_new)
    then show ?thesis using that(1,3) u i(5) [of p u] old by auto
  qed
  moreover have "\<exists>p \<in> insert v (path_nodes ps). ix (enter v s) p \<le> ix (enter v s) u \<and> reaches g u p"
    if "u \<in> insert v (set (stack s))" for u
    using that i(6) [of u] old by (cases "u = v") (auto simp: subset_iff)
  ultimately show ?thesis by (auto simp: reach_ok_def enter_new)
qed

lemma enter_low:
  assumes "inv g s ps" "pending g ps v" "index s v = None"
  shows "low_ok g (enter v s) ((v, 0) # bump ps)"
proof -
  note i = invD [OF assms(1)] and old = enter_old [OF assms(1,3)] and scan = enter_scanned [OF assms(2)]
  let ?s = "enter v s" and ?ps = "(v, 0) # bump ps"
  have "low ?s p \<le> ix ?s w \<or> (\<exists>q \<in> path_nodes ?ps. ix ?s p < ix ?s q \<and> ix ?s q \<le> ix ?s u)"
    if "p \<in> path_nodes ?ps" "u \<in> set (stack ?s)" "w \<in> scanned g ?ps u" "w \<in> set (stack ?s)" "ix ?s p \<le> ix ?s u" for p u w
  proof -
    have u: "u \<noteq> v" "u \<in> set (stack s)" using that(2,3) scan(2) by (auto simp: enter_new)
    then have p: "p \<noteq> v" "p \<in> path_nodes ps" "p \<in> set (stack s)" using that(1,5) old by (force simp: enter_new)+
    show ?thesis
    proof (cases "w = v")
      case True
      have "low s p \<le> ix s p" by (rule i(8) [OF p(2)])
      then show ?thesis using True old(4) [OF p(3)] by (simp add: enter_new)
    next
      case False
      then have "w \<in> scanned g ps u" "w \<in> set (stack s)" using that(3,4) scan(1) by (auto simp: enter_new)
      then show ?thesis using i(7) [OF p(2) u(2), of w] that(5) old p(3) u by (auto simp: subset_iff)
    qed
  qed
  moreover have "low ?s p \<le> ix ?s p \<and> (\<exists>u \<in> set (stack ?s). ix ?s u = low ?s p \<and> reaches g p u)" if "p \<in> path_nodes ?ps" for p
    using that i(8,9) [of p] old by (cases "p = v") (auto simp: subset_iff enter_new)
  ultimately show ?thesis unfolding low_ok_def by blast
qed

lemma inv_enter:
  assumes "inv g s ps" "pending g ps v" "index s v = None"
  shows "inv g (enter v s) ((v, 0) # bump ps)"
proof -
  note i = invD [OF assms(1)] and scan = enter_scanned [OF assms(2)]
  have "components_ok g (raw_sccs (enter v s))" using i(3) by (simp add: enter_def)
  moreover have "scanned g ((v, 0) # bump ps) u \<subseteq> dom (index (enter v s))" if "u \<in> set (stack (enter v s))" for u
    using that i(4) [of u] scan(1) [of u] scan(2) by (cases "u = v") (auto simp: enter_def)
  ultimately show ?thesis
    using enter_marks enter_path enter_reach enter_low assms unfolding inv_def by blast
qed

section \<open>A visited child\<close>

lemma scanned_advance:
  assumes "c < length (children g v)"
  shows "scanned g ((v, Suc c) # ps) u =
    (if u = v then insert (children g v ! c) (scanned g ((v, c) # ps) u) else scanned g ((v, c) # ps) u)"
  using assms by (simp add: scanned_Cons take_Suc_conv_app_nth)

lemma advance_low:
  assumes inv: "inv g s ((v, c) # ps)" and c: "c < length (children g v)"
    and same: "stack s' = stack s" "index s' = index s" "\<And>u. u \<noteq> v \<Longrightarrow> low s' u = low s u"
    and low_v: "low s' v = (if children g v ! c \<in> set (stack s) then min (low s v) (ix s (children g v ! c)) else low s v)"
  shows "low_ok g s' ((v, Suc c) # ps)"
proof -
  let ?w = "children g v ! c" and ?ps = "(v, Suc c) # ps"
  note i = invD [OF inv]
  have nodes: "path_nodes ?ps = path_nodes ((v, c) # ps)" by simp
  have "low s' p \<le> ix s x \<or> (\<exists>q \<in> path_nodes ?ps. ix s p < ix s q \<and> ix s q \<le> ix s u)"
    if a: "p \<in> path_nodes ?ps" "u \<in> set (stack s)" "x \<in> scanned g ?ps u" "x \<in> set (stack s)" "ix s p \<le> ix s u" for p u x
  proof (cases "u = v \<and> x = ?w")
    case True
    then show ?thesis using a(1,4) low_v path_le_top [OF i(2), of p] by (cases "p = v") auto
  next
    case False
    then have "x \<in> scanned g ((v, c) # ps) u" using a(3) by (auto simp: scanned_advance [OF c] split: if_splits)
    then have "low s p \<le> ix s x \<or> (\<exists>q \<in> path_nodes ((v, c) # ps). ix s p < ix s q \<and> ix s q \<le> ix s u)"
      using i(7) [of p u x] a by (simp add: nodes)
    moreover have "low s' p \<le> low s p" using low_v same(3) [of p] by (cases "p = v") simp_all
    ultimately show ?thesis unfolding nodes by linarith
  qed
  moreover have "low s' p \<le> ix s p \<and> (\<exists>u \<in> set (stack s). ix s u = low s' p \<and> reaches g p u)" if p: "p \<in> path_nodes ?ps" for p
  proof (cases "p = v \<and> ?w \<in> set (stack s) \<and> ix s ?w \<le> low s v")
    case True
    have "reaches g v ?w" using c by (auto intro!: reaches_child)
    then show ?thesis using True i(8) [of v] low_v by (auto simp: min_def)
  next
    case False
    then have "low s' p = low s p" using low_v same(3) [of p] by (cases "p = v") auto
    then show ?thesis using p i(8,9) [of p] unfolding nodes by simp
  qed
  ultimately show ?thesis unfolding low_ok_def same(1,2) by blast
qed

lemma inv_advance:
  assumes "inv g s ((v, c) # ps)" "c < length (children g v)" "index s (children g v ! c) \<noteq> None"
  shows "inv g (if children g v ! c \<in> on_stack s then lower v (unwrap_or 0 (index s (children g v ! c))) s else s) ((v, Suc c) # ps)"
    (is "inv g ?s ?ps")
proof -
  note i = invD [OF assms(1)] and m = marks_okD [OF invD(1) [OF assms(1)]]
  let ?w = "children g v ! c"
  have same: "stack ?s = stack s" "raw_sccs ?s = raw_sccs s" "index ?s = index s" "next_index ?s = next_index s"
    "on_stack ?s = on_stack s" by (simp_all add: lower_def)
  have v: "v \<in> set (stack s)" using i(2) by (simp add: path_ok_def)
  have w: "?w \<in> dom (index s)" using assms(3) by auto
  have "low ?s v = (if ?w \<in> set (stack s) then min (low s v) (ix s ?w) else low s v)"
    using low_lower [OF i(1) v] w m(1) by auto
  then have "low_ok g ?s ?ps" using same by (intro advance_low [OF assms(1,2)]) (simp_all add: lower_def)
  moreover have "marks_ok ?s" using i(1) v m(3,6) by (auto simp: marks_ok_def lower_def)
  moreover have "path_ok ?s ?ps" using i(2) by (simp add: path_ok_def same)
  moreover have "scanned g ?ps u \<subseteq> dom (index ?s)" if "u \<in> set (stack ?s)" for u
    using that i(4) [of u] w by (cases "u = v") (simp_all add: scanned_advance [OF assms(2)] same)
  moreover have "reach_ok g ?s ?ps" using assms(1) unfolding inv_def reach_ok_def same by simp
  ultimately show ?thesis using i(3) unfolding inv_def same by blast
qed

section \<open>Settling a node\<close>

lemma pop_until_split:
  "v \<notin> set upper \<Longrightarrow> pop_until v (upper @ v # below) on = (upper @ [v], below, on - set (upper @ [v]))"
  by (induction upper arbitrary: on) (auto simp: insert_Diff_if)

lemma scanned_done:
  assumes "path_ok s ((v, c) # ps)" "length (children g v) \<le> c"
  shows "scanned g ((v, c) # ps) u = scanned g ps u"
proof (cases "u = v")
  case True
  have "v \<notin> path_nodes ps" using path_le_top [OF assms(1), of v] by blast
  then show ?thesis using True assms(2) by (simp add: scanned_Cons scanned_other)
qed (simp add: scanned_Cons)

lemma lower_noop: "lowlink s q = Some l \<Longrightarrow> l \<le> n \<Longrightarrow> lower q n s = s"
  by (simp add: lower_def fun_upd_idem)

lemma settle_reach:
  assumes inv: "inv g s ((v, c) # ps)" and below: "low s v < ix s v" and "a \<in> set (stack s)"
  shows "\<exists>p \<in> path_nodes ps. ix s p \<le> ix s a \<and> reaches g a p"
proof -
  note i = invD [OF inv]
  obtain p where p: "p \<in> path_nodes ((v, c) # ps)" "ix s p \<le> ix s a" "reaches g a p" using i(6) [OF assms(3)] by blast
  show ?thesis
  proof (cases "p = v")
    case True
    obtain u where u: "u \<in> set (stack s)" "ix s u = low s v" "reaches g v u" using i(9) [of v] by auto
    obtain p' where "p' \<in> path_nodes ((v, c) # ps)" "ix s p' \<le> ix s u" "reaches g u p'" using i(6) [OF u(1)] by auto
    moreover from this have "p' \<noteq> v" using u(2) below by auto
    ultimately show ?thesis using True p u below by (auto intro!: bexI [of _ p'])
  qed (use p in auto)
qed

lemma settle_low:
  assumes inv: "inv g s ((v, c) # ps)" and c: "length (children g v) \<le> c" and path: "ps = (q, d) # rest"
    and same: "stack s' = stack s" "index s' = index s" "\<And>u. u \<noteq> q \<Longrightarrow> low s' u = low s u"
    and low_q: "low s' q = min (low s q) (low s v)"
  shows "low_ok g s' ps"
proof -
  note i = invD [OF inv]
  note top = path_le_top [OF i(2)] and scan = scanned_done [OF i(2) c]
  have q: "q \<in> path_nodes ps" "v \<in> set (stack s)" using i(2) path by (auto simp: path_ok_def)
  have "low s' p \<le> ix s w \<or> (\<exists>r \<in> path_nodes ps. ix s p < ix s r \<and> ix s r \<le> ix s a)"
    if a: "p \<in> path_nodes ps" "a \<in> set (stack s)" "w \<in> scanned g ps a" "w \<in> set (stack s)" "ix s p \<le> ix s a" for p a w
  proof (cases "ix s v \<le> ix s a")
    case True
    have "low s v \<le> ix s w" using i(7) [of v a w] a True by (fastforce simp: scan dest: top)
    moreover have "p = q \<or> ix s p < ix s q" using a(1) path path_le_top [of s q d rest p] i(2) by (auto simp: path_ok_def)
    ultimately show ?thesis using True low_q q(1) top [of q] by (auto simp: min_le_iff_disj)
  next
    case False
    have "low s p \<le> ix s w \<or> (\<exists>r \<in> path_nodes ((v, c) # ps). ix s p < ix s r \<and> ix s r \<le> ix s a)"
      using i(7) [of p a w] a by (simp add: scan)
    moreover have "low s' p \<le> low s p" using low_q same(3) [of p] by (cases "p = q") simp_all
    ultimately show ?thesis using False by auto
  qed
  moreover have "low s' p \<le> ix s p \<and> (\<exists>u \<in> set (stack s). ix s u = low s' p \<and> reaches g p u)" if p: "p \<in> path_nodes ps" for p
  proof (cases "p = q \<and> low s v \<le> low s q")
    case True
    obtain u where u: "u \<in> set (stack s)" "ix s u = low s v" "reaches g v u" using i(9) [of v] by auto
    have "reaches g q v" using i(5) [of q v] q top [OF q(1)] by simp
    then have "reaches g q u" using u(3) by (rule rtrancl_trans)
    then show ?thesis using True low_q u i(8) [of q] q by (auto simp: min_def)
  next
    case False
    then have "low s' p = low s p" using low_q same(3) [of p] by (cases "p = q") auto
    then show ?thesis using p i(8,9) [of p] by simp
  qed
  ultimately show ?thesis unfolding low_ok_def same(1,2) by blast
qed

lemma inv_settle_low:
  assumes "inv g s ((v, c) # ps)" "length (children g v) \<le> c" "low s v \<noteq> ix s v" "ps = (q, d) # rest"
  shows "inv g (lower q (low s v) s) ps"
    (is "inv g ?s ps")
proof -
  note i = invD [OF assms(1)] and m = marks_okD [OF invD(1) [OF assms(1)]]
  have below: "low s v < ix s v" using i(8) [of v] assms(3) by simp
  have q: "q \<in> set (stack s)" using i(2) assms(4) by (simp add: path_ok_def)
  have same: "stack ?s = stack s" "raw_sccs ?s = raw_sccs s" "index ?s = index s" "next_index ?s = next_index s"
    "on_stack ?s = on_stack s" by (simp_all add: lower_def)
  have "low ?s q = min (low s q) (low s v)" by (rule low_lower [OF i(1) q])
  then have "low_ok g ?s ps" using same by (intro settle_low [OF assms(1,2,4)]) (simp_all add: lower_def)
  moreover have "marks_ok ?s" using i(1) q m(3,6) by (auto simp: marks_ok_def lower_def)
  moreover have "path_ok ?s ps" using i(2) by (simp add: path_ok_def same)
  moreover have "scanned g ps a \<subseteq> dom (index s)" if "a \<in> set (stack s)" for a
    using that i(4) [of a] by (simp add: scanned_done [OF i(2) assms(2)])
  moreover have "reach_ok g ?s ps"
    using i(5) settle_reach [OF assms(1) below] unfolding reach_ok_def same by simp
  ultimately show ?thesis using i(3) unfolding inv_def same by blast
qed

text \<open>A settled node whose low link is its own index closes a component.\<close>

lemma components_ok_snoc:
  assumes "components_ok g raw" "distinct ms" "ms \<noteq> []" "set ms \<inter> set (concat raw) = {}"
    "\<forall>u \<in> set ms. \<forall>v \<in> set ms. reaches g u v"
    "\<forall>v \<in> set ms. set (children g v) \<subseteq> set ms \<union> set (concat raw)"
  shows "components_ok g (raw @ [ms])"
proof -
  have "set (children g v) \<subseteq> set (concat (take (Suc i) (raw @ [ms])))"
    if "i < length (raw @ [ms])" "v \<in> set ((raw @ [ms]) ! i)" for i v
  proof (cases "i < length raw")
    case True
    then show ?thesis using that(2) assms(1) by (simp add: components_ok_def nth_append)
  next
    case False
    then show ?thesis using that assms(6) by (auto simp: nth_append less_Suc_eq)
  qed
  then show ?thesis using assms(1-5) unfolding components_ok_def by auto
qed

lemma root_split:
  assumes "inv g s ((v, c) # ps)"
  obtains upper below where "stack s = upper @ v # below" "\<forall>u \<in> set (upper @ [v]). ix s v \<le> ix s u"
    "\<forall>u \<in> set below. ix s u < ix s v" "set below \<inter> set (upper @ [v]) = {}"
    "emit_component v s = s\<lparr> stack := below, on_stack := on_stack s - set (upper @ [v]), raw_sccs := raw_sccs s @ [upper @ [v]] \<rparr>"
proof -
  note i = invD [OF assms]
  have "v \<in> set (stack s)" using i(2) by (simp add: path_ok_def)
  then obtain upper below where split: "stack s = upper @ v # below" by (meson split_list)
  have order: "\<forall>u \<in> set upper. ix s v < ix s u" "\<forall>u \<in> set below. ix s u < ix s v"
    using marks_okD(2) [OF i(1)] by (auto simp: split sorted_wrt_append)
  then have "v \<notin> set upper" by auto
  then have "emit_component v s = s\<lparr> stack := below, on_stack := on_stack s - set (upper @ [v]), raw_sccs := raw_sccs s @ [upper @ [v]] \<rparr>"
    by (simp add: emit_component_def split pop_until_split)
  then show ?thesis using split order by (intro that [of upper below]) fastforce+
qed

lemma segment_connected:
  assumes "inv g s ((v, c) # ps)" "u \<in> set (stack s)" "ix s v \<le> ix s u"
  shows "reaches g v u" "reaches g u v"
proof -
  note i = invD [OF assms(1)]
  show "reaches g v u" using i(5) [of v u] assms(2,3) by simp
  obtain p where p: "p \<in> path_nodes ((v, c) # ps)" "reaches g u p" using i(6) [OF assms(2)] by auto
  have "p = v \<or> reaches g p v"
    using p(1) i(2) i(5) [of p v] path_le_top [OF i(2), of p] by (auto simp: path_ok_def)
  then show "reaches g u v" using p(2) by auto
qed

lemma segment_closed:
  assumes inv: "inv g s ((v, c) # ps)" and "length (children g v) \<le> c" "low s v = ix s v"
    and u: "u \<in> set (stack s)" "ix s v \<le> ix s u" and w: "w \<in> set (children g u)"
  shows "w \<in> emitted_nodes s \<or> (w \<in> set (stack s) \<and> ix s v \<le> ix s w)"
proof -
  note i = invD [OF inv]
  note top = path_le_top [OF i(2)]
  have "u \<notin> path_nodes ps" using top [of u] u(2) by auto
  then have ws: "w \<in> scanned g ((v, c) # ps) u" using w by (simp add: scanned_done [OF i(2) assms(2)] scanned_other)
  then have "w \<in> dom (index s)" using i(4) [OF u(1)] by auto
  moreover have "ix s v \<le> ix s w" if "w \<in> set (stack s)"
    using i(7) [of v u w] u ws that assms(3) by (fastforce dest: top)
  ultimately show ?thesis using marks_okD(3) [OF i(1)] by auto
qed

lemma root_low:
  assumes inv: "inv g s ((v, c) # ps)" and "length (children g v) \<le> c" "low s v = ix s v"
    and same: "index s' = index s" "lowlink s' = lowlink s"
    and below: "set (stack s') = {u \<in> set (stack s). ix s u < ix s v}"
  shows "low_ok g s' ps"
proof -
  note i = invD [OF inv]
  note top = path_le_top [OF i(2)] and scan = scanned_done [OF i(2) assms(2)]
  have "low s p \<le> ix s w \<or> (\<exists>q \<in> path_nodes ps. ix s p < ix s q \<and> ix s q \<le> ix s a)"
    if "p \<in> path_nodes ps" "a \<in> set (stack s')" "w \<in> scanned g ps a" "w \<in> set (stack s')" "ix s p \<le> ix s a" for p a w
  proof -
    have "low s p \<le> ix s w \<or> (\<exists>q \<in> path_nodes ((v, c) # ps). ix s p < ix s q \<and> ix s q \<le> ix s a)"
      using i(7) [of p a w] that below by (simp add: scan)
    moreover have "ix s a < ix s v" using that(2) below by blast
    ultimately show ?thesis by auto
  qed
  moreover have "low s p \<le> ix s p \<and> (\<exists>u \<in> set (stack s'). ix s u = low s p \<and> reaches g p u)" if p: "p \<in> path_nodes ps" for p
  proof -
    obtain u where u: "u \<in> set (stack s)" "ix s u = low s p" "reaches g p u" using i(9) [of p] p by auto
    have "ix s u < ix s v" using u(2) i(8) [of p] top [OF p] p by simp
    then show ?thesis using u i(8) [of p] p below by auto
  qed
  ultimately show ?thesis unfolding low_ok_def same by blast
qed

lemma inv_settle_root:
  assumes "inv g s ((v, c) # ps)" "length (children g v) \<le> c" "low s v = ix s v"
  shows "inv g (emit_component v s) ps"
proof -
  note i = invD [OF assms(1)] and m = marks_okD [OF invD(1) [OF assms(1)]]
  note top = path_le_top [OF i(2)] and scan = scanned_done [OF i(2) assms(2)]
  obtain upper below where split: "stack s = upper @ v # below"
    and order: "\<forall>u \<in> set (upper @ [v]). ix s v \<le> ix s u" "\<forall>u \<in> set below. ix s u < ix s v"
    and disj: "set below \<inter> set (upper @ [v]) = {}"
    and emit: "emit_component v s = s\<lparr> stack := below, on_stack := on_stack s - set (upper @ [v]), raw_sccs := raw_sccs s @ [upper @ [v]] \<rparr>"
    by (rule root_split [OF assms(1)])
  have whole: "set (stack s) = set (upper @ [v]) \<union> set below" by (auto simp: split)
  have "components_ok g (raw_sccs s @ [upper @ [v]])"
  proof (rule components_ok_snoc [OF i(3)])
    show "distinct (upper @ [v])" using sorted_wrt_distinct [OF m(2)] by (auto simp: split)
    show "\<forall>u \<in> set (upper @ [v]). \<forall>w \<in> set (upper @ [v]). reaches g u w"
    proof (intro ballI)
      fix u w assume "u \<in> set (upper @ [v])" "w \<in> set (upper @ [v])"
      then have "u \<in> set (stack s)" "ix s v \<le> ix s u" "w \<in> set (stack s)" "ix s v \<le> ix s w" using order(1) whole by auto
      then show "reaches g u w" using segment_connected [OF assms(1)] by (meson rtrancl_trans)
    qed
    show "\<forall>u \<in> set (upper @ [v]). set (children g u) \<subseteq> set (upper @ [v]) \<union> emitted_nodes s"
      using segment_closed [OF assms] order whole by (fastforce simp: not_le [symmetric])
  qed (use whole m(4) in auto)
  moreover have "marks_ok (emit_component v s)"
    using m whole disj unfolding marks_ok_def emit by (auto simp: split sorted_wrt_append)
  moreover have "path_nodes ps \<subseteq> set below"
    using i(2) top order(1) whole unfolding path_ok_def by (fastforce simp: not_le [symmetric])
  moreover have "reach_ok g (emit_component v s) ps"
    using i(5,6) order(2) whole unfolding reach_ok_def emit by fastforce
  moreover have "set below = {u \<in> set (stack s). ix s u < ix s v}"
    using order whole by (auto simp: not_le [symmetric])
  then have "low_ok g (emit_component v s) ps" by (intro root_low [OF assms]) (simp_all add: emit)
  moreover have "scanned g ps a \<subseteq> dom (index s)" if "a \<in> set below" for a
    using i(4) [of a] that whole by (simp add: scan)
  ultimately show ?thesis using i(2) unfolding inv_def path_ok_def by (simp add: emit)
qed

section \<open>The loop\<close>

definition entered :: "frame list \<Rightarrow> (string \<times> nat) list" where
  "entered fs = map (\<lambda>f. (fr_node f, child_idx f)) fs"

definition loop_inv :: "scc_graph \<Rightarrow> tarjan \<Rightarrow> bool" where
  "loop_inv g s \<longleftrightarrow> (case work s of
      [] \<Rightarrow> inv g s []
    | f # rest \<Rightarrow> (\<forall>f \<in> set rest. 0 < child_idx f) \<and>
        (if child_idx f = 0
         then index s (fr_node f) = None \<and> (\<exists>ps. entered rest = bump ps \<and> pending g ps (fr_node f) \<and> inv g s ps)
         else inv g s (entered (f # rest))))"

lemma entered_simps [simp]: "entered [] = []" "entered (f # fs) = (fr_node f, child_idx f) # entered fs"
  by (simp_all add: entered_def)

lemma work_commutes:
  "lower v n (s\<lparr> work := w \<rparr>) = (lower v n s)\<lparr> work := w \<rparr>" "emit_component v (s\<lparr> work := w \<rparr>) = (emit_component v s)\<lparr> work := w \<rparr>"
  "work (enter v s) = work s"
  by (simp_all add: lower_def emit_component_def enter_def split: prod.splits)

lemma emit_tables [simp]: "lowlink (emit_component v s) = lowlink s" "index (emit_component v s) = index s"
  by (simp_all add: emit_component_def split: prod.splits)

lemma lower_index [simp]: "index (lower v n s) = index s" "work (lower v n s) = work s"
  by (simp_all add: lower_def)

definition current :: "frame \<Rightarrow> tarjan \<Rightarrow> tarjan" where
  "current f s = (if child_idx f = 0 then enter (fr_node f) s else s)"

lemma current_inv:
  assumes "loop_inv g s" "work s = f # rest"
  shows "inv g (current f s) (entered (f # rest))"
  using assms inv_enter by (cases "child_idx f = 0") (auto simp: loop_inv_def current_def)

lemma visit_child_inv:
  assumes "inv g s (entered (f # rest))" "\<forall>f \<in> set rest. 0 < child_idx f" "child_idx f < length (children g (fr_node f))"
  shows "loop_inv g (visit_child (fr_node f) (children g (fr_node f) ! child_idx f) (s\<lparr> work := f\<lparr> child_idx := child_idx f + 1 \<rparr> # rest \<rparr>))"
proof -
  let ?w = "children g (fr_node f) ! child_idx f"
  show ?thesis
  proof (cases "index s ?w")
    case None
    have "entered (f\<lparr> child_idx := child_idx f + 1 \<rparr> # rest) = bump (entered (f # rest))"
      "pending g (entered (f # rest)) ?w" using assms(3) by simp_all
    then show ?thesis using None assms(1,2) by (simp add: visit_child_def loop_inv_def del: entered_simps) metis
  next
    case (Some n)
    then show ?thesis
      using inv_advance [of g s "fr_node f" "child_idx f" "entered rest"] assms
      by (auto simp: visit_child_def loop_inv_def work_commutes split: if_splits)
  qed
qed

lemma settle_inv:
  assumes "inv g s (entered (f # rest))" "\<forall>f \<in> set rest. 0 < child_idx f" "length (children g (fr_node f)) \<le> child_idx f"
  shows "loop_inv g (settle (fr_node f) rest s)"
proof -
  let ?v = "fr_node f"
  note i = invD [OF assms(1)] and m = marks_okD [OF invD(1) [OF assms(1)]]
  have v: "?v \<in> set (stack s)" using i(2) by (simp add: path_ok_def)
  then obtain l n where tables: "lowlink s ?v = Some l" "index s ?v = Some n" using stack_tables [OF i(1)] by metis
  have inv: "inv g (settle ?v rest s) (entered rest)"
  proof (cases "low s ?v = ix s ?v")
    case True
    have closed: "inv g (emit_component ?v s) (entered rest)" using inv_settle_root [of g s ?v] assms(1,3) True by simp
    show ?thesis
    proof (cases rest)
      case (Cons p r)
      then have q: "fr_node p \<in> path_nodes (entered rest)" by simp
      then have "fr_node p \<in> set (stack s)" "ix s (fr_node p) < ix s ?v"
        using i(2) path_le_top [of s ?v "child_idx f" "entered rest"] by (auto simp: path_ok_def)
      then obtain k where "lowlink s (fr_node p) = Some k" "low s (fr_node p) \<le> low s ?v"
        using i(8) [of "fr_node p"] q True stack_tables(1) [OF i(1), of "fr_node p"] by auto
      then have "lower (fr_node p) (unwrap_or 0 (lowlink s ?v)) (emit_component ?v s) = emit_component ?v s"
        using tables by (intro lower_noop) simp_all
      then show ?thesis using closed Cons True tables by (simp add: settle_def work_commutes)
    qed (use closed True tables in \<open>simp add: settle_def\<close>)
  next
    case False
    obtain q d ps where path: "entered rest = (q, d) # ps"
    proof (cases "entered rest")
      case Nil
      obtain u where "u \<in> set (stack s)" "ix s u = low s ?v" using i(9) [of ?v] by auto
      then have "ix s ?v \<le> low s ?v" using i(6) [of u] Nil by auto
      then show ?thesis using i(8) [of ?v] False by simp
    next
      case (Cons x xs)
      then show ?thesis using that by (cases x) auto
    qed
    then show ?thesis using inv_settle_low [of g s ?v "child_idx f" "entered rest" q d ps] assms(1,3) False tables
      by (cases rest) (auto simp: settle_def work_commutes)
  qed
  then show ?thesis using assms(2)
    by (cases rest) (auto simp: loop_inv_def settle_def work_commutes Let_def)
qed

lemma step_inv:
  assumes "loop_inv g s" "work s \<noteq> []"
  shows "loop_inv g (tarjan_step g s)"
proof -
  obtain f rest where w: "work s = f # rest" using assms(2) by (cases "work s") auto
  have "\<forall>f \<in> set rest. 0 < child_idx f" using assms(1) w by (simp add: loop_inv_def)
  then show ?thesis
    using visit_child_inv [OF current_inv [OF assms(1) w]] settle_inv [OF current_inv [OF assms(1) w]] w
    by (simp add: tarjan_step_def current_def [symmetric] Let_def)
qed

section \<open>The loop ends\<close>

definition seen :: "tarjan \<Rightarrow> string set" where
  "seen s = dom (index s) \<union> fr_node ` set (work s)"

definition remaining :: "scc_graph \<Rightarrow> frame list \<Rightarrow> nat" where
  "remaining g fs = (\<Sum>f\<leftarrow>fs. length (children g (fr_node f)) - child_idx f + 1)"

definition cost :: "scc_graph \<Rightarrow> string set \<Rightarrow> tarjan \<Rightarrow> nat" where
  "cost g U s = (\<Sum>v \<in> U - seen s. length (children g v) + 2) + remaining g (work s)"

lemma path_nodes_entered: "path_nodes (entered fs) = fr_node ` set fs"
  by (induction fs) simp_all

lemma path_dom:
  assumes "inv g s ps"
  shows "path_nodes ps \<subseteq> dom (index s)"
  using invD(2) [OF assms] marks_okD(3) [OF invD(1) [OF assms]] by (auto simp: path_ok_def)

lemma current_index:
  assumes "loop_inv g s" "work s = f # rest"
  shows "dom (index (current f s)) = insert (fr_node f) (dom (index s))" "fr_node ` set rest \<subseteq> dom (index s)"
proof -
  have "inv g (current f s) (entered (f # rest))" using assms by (rule current_inv)
  from path_dom [OF this] show dom: "dom (index (current f s)) = insert (fr_node f) (dom (index s))"
    by (auto simp: current_def enter_def)
  have "\<exists>ps. fr_node ` set rest \<subseteq> path_nodes ps \<and> inv g s ps"
  proof (cases "child_idx f = 0")
    case True
    then obtain ps where "entered rest = bump ps" "inv g s ps" using assms by (auto simp: loop_inv_def)
    moreover from this(1) have "path_nodes (entered rest) = path_nodes ps" by simp
    ultimately show ?thesis unfolding path_nodes_entered [symmetric] by blast
  next
    case False
    then have "inv g s (entered (f # rest))" using assms by (simp add: loop_inv_def)
    then show ?thesis by (intro exI [of _ "entered (f # rest)"]) (auto simp: path_nodes_entered)
  qed
  then show "fr_node ` set rest \<subseteq> dom (index s)"
    using path_dom by blast
qed

lemma step_seen:
  assumes "loop_inv g s" "work s = f # rest"
  shows "(\<exists>to \<in> set (children g (fr_node f)). to \<notin> seen s \<and> seen (tarjan_step g s) = insert to (seen s) \<and>
            child_idx f < length (children g (fr_node f)) \<and>
            work (tarjan_step g s) = \<lparr> fr_node = to, child_idx = 0 \<rparr> # f\<lparr> child_idx := child_idx f + 1 \<rparr> # rest) \<or>
         (seen (tarjan_step g s) = seen s \<and>
            (child_idx f < length (children g (fr_node f)) \<and> work (tarjan_step g s) = f\<lparr> child_idx := child_idx f + 1 \<rparr> # rest \<or>
             work (tarjan_step g s) = rest))"
proof -
  let ?v = "fr_node f" and ?s = "current f s"
  note c = current_index [OF assms]
  have seen: "seen s = insert ?v (dom (index s))" using c(2) assms(2) by (auto simp: seen_def)
  show ?thesis
  proof (cases "child_idx f < length (children g ?v)")
    case True
    let ?to = "children g ?v ! child_idx f" and ?w = "f\<lparr> child_idx := child_idx f + 1 \<rparr> # rest"
    have step: "tarjan_step g s = visit_child ?v ?to (?s\<lparr> work := ?w \<rparr>)"
      using assms(2) True by (simp add: tarjan_step_def current_def Let_def)
    show ?thesis
    proof (cases "index ?s ?to")
      case None
      then have "?to \<notin> seen s" using seen c(1) by (metis domIff)
      then show ?thesis using None True step seen c by (intro disjI1 bexI [of _ ?to]) (auto simp: visit_child_def seen_def)
    next
      case (Some n)
      then show ?thesis using True step seen c by (auto simp: visit_child_def seen_def work_commutes)
    qed
  next
    case False
    then have step: "tarjan_step g s = settle ?v rest ?s"
      using assms(2) by (simp add: tarjan_step_def current_def Let_def)
    have "index (settle ?v rest ?s) = index ?s" "work (settle ?v rest ?s) = rest"
      by (auto simp: settle_def Let_def split: list.splits)
    then show ?thesis using step seen c by (auto simp: seen_def)
  qed
qed

lemma loop_step_cost:
  assumes "loop_inv g s" "work s \<noteq> []" "seen s \<subseteq> U" "finite U" "\<forall>v \<in> U. set (children g v) \<subseteq> U"
  shows "seen (tarjan_step g s) \<subseteq> U \<and> seen s \<subseteq> seen (tarjan_step g s) \<and> cost g U (tarjan_step g s) < cost g U s"
proof -
  obtain f rest where w: "work s = f # rest" using assms(2) by (cases "work s") auto
  then have "fr_node f \<in> U" using assms(3) by (auto simp: seen_def)
  then have kids: "set (children g (fr_node f)) \<subseteq> U" using assms(5) by blast
  from step_seen [OF assms(1) w] show ?thesis
  proof (elim disjE bexE conjE)
    fix to assume to: "to \<in> set (children g (fr_node f))" "to \<notin> seen s" "seen (tarjan_step g s) = insert to (seen s)"
      "child_idx f < length (children g (fr_node f))"
      "work (tarjan_step g s) = \<lparr> fr_node = to, child_idx = 0 \<rparr> # f\<lparr> child_idx := child_idx f + 1 \<rparr> # rest"
    have "to \<in> U - seen s" using to(1,2) kids by auto
    moreover have "U - insert to (seen s) = (U - seen s) - {to}" by auto
    ultimately have "(\<Sum>v \<in> U - seen s. length (children g v) + 2) =
        length (children g to) + 2 + (\<Sum>v \<in> U - insert to (seen s). length (children g v) + 2)"
      using assms(4) by (simp only: sum.remove [of "U - seen s" to] finite_Diff)
    then show ?thesis using to kids w assms(3) by (auto simp: cost_def remaining_def)
  qed (use w assms(3) in \<open>auto simp: cost_def remaining_def\<close>)
qed

lemma loop_ends:
  assumes "loop_inv g s" "seen s \<subseteq> U" "finite U" "\<forall>v \<in> U. set (children g v) \<subseteq> U"
  shows "\<exists>t. while_option (\<lambda>s. work s \<noteq> []) (tarjan_step g) s = Some t \<and> inv g t [] \<and> seen s \<subseteq> dom (index t) \<and>
    dom (index t) \<subseteq> U \<and> work t = []"
proof -
  let ?P = "\<lambda>t. loop_inv g t \<and> seen t \<subseteq> U \<and> seen s \<subseteq> seen t"
  have step: "?P (tarjan_step g t) \<and> cost g U (tarjan_step g t) < cost g U t" if "?P t" "work t \<noteq> []" for t
    using that step_inv [of g t] loop_step_cost [of g t U] assms(3,4) by blast
  have "\<exists>t. while_option (\<lambda>s. work s \<noteq> []) (tarjan_step g) s = Some t"
    by (rule measure_while_option_Some [where P = ?P and f = "cost g U"]) (use step assms(1,2) in simp_all)
  then obtain t where t: "while_option (\<lambda>s. work s \<noteq> []) (tarjan_step g) s = Some t" by blast
  have "?P t"
    using while_option_rule [where P = ?P, OF _ t] step assms(1,2) by blast
  moreover have "work t = []" using while_option_stop [OF t] by simp
  ultimately show ?thesis using t by (auto simp: loop_inv_def seen_def)
qed

section \<open>All roots\<close>

text \<open>In a list of disjoint lists a member names its list.\<close>

lemma mem_concat_take: "v \<in> set (concat (take n raw)) \<longleftrightarrow> (\<exists>j < n. j < length raw \<and> v \<in> set (raw ! j))"
proof -
  have "ms \<in> set (take n raw) \<longleftrightarrow> (\<exists>j < n. j < length raw \<and> ms = raw ! j)" for ms
    by (auto simp: in_set_conv_nth)
  then show ?thesis by auto
qed

lemma concat_index_unique:
  assumes "distinct (concat raw)" "i < length raw" "j < length raw" "u \<in> set (raw ! i)" "u \<in> set (raw ! j)"
  shows "i = j"
proof -
  have False if "a < b" "b < length raw" "u \<in> set (raw ! a)" "u \<in> set (raw ! b)" for a b
  proof -
    have "u \<in> set (concat (take b raw))" using that unfolding mem_concat_take by auto
    moreover have "u \<in> set (concat (drop b raw))" using that by (simp add: Cons_nth_drop_Suc [symmetric])
    moreover have "distinct (concat (take b raw) @ concat (drop b raw))" using assms(1) by (simp flip: concat_append)
    ultimately show False by auto
  qed
  then show ?thesis using assms(2-5) nat_neq_iff by metis
qed

lemma concat_take_subset: "set (concat (take n raw)) \<subseteq> set (concat raw)"
  using set_take_subset [of n raw] by auto

lemma mem_concat: "v \<in> set (concat raw) \<longleftrightarrow> (\<exists>j < length raw. v \<in> set (raw ! j))"
  using mem_concat_take [of v "length raw" raw] by auto

definition between :: "scc_graph \<Rightarrow> tarjan \<Rightarrow> bool" where
  "between g s \<longleftrightarrow> inv g s [] \<and> work s = [] \<and> dom (index s) \<subseteq> reachable g"

lemma start_between: "between g start_state"
  by (simp add: between_def inv_defs marks_ok_def path_ok_def components_ok_def start_state_def)

lemma tarjan_root_ok:
  assumes "between g s" "finite (dom (edges_by_from g))" "v \<in> reachable g"
  shows "\<exists>t. tarjan_root g v s = Some t \<and> between g t \<and> insert v (dom (index s)) \<subseteq> dom (index t)"
proof (cases "index s v")
  case None
  let ?s = "s\<lparr> work := [\<lparr> fr_node = v, child_idx = 0 \<rparr>] \<rparr>"
  have "loop_inv g ?s" using assms(1) None
    by (auto simp: loop_inv_def between_def intro!: exI [of _ "[]"])
  moreover have "seen ?s = insert v (dom (index s))" by (simp add: seen_def)
  ultimately show ?thesis
    using loop_ends [of g ?s "reachable g"] None assms finite_reachable reachable_closed
    by (auto simp: tarjan_root_def between_def)
qed (use assms(1) in \<open>auto simp: tarjan_root_def\<close>)

lemma tarjan_roots_ok:
  assumes "between g s" "finite (dom (edges_by_from g))" "set vs \<subseteq> reachable g"
  shows "\<exists>t. tarjan_roots g vs s = Some t \<and> between g t \<and> set vs \<union> dom (index s) \<subseteq> dom (index t)"
  using assms
proof (induction vs arbitrary: s)
  case (Cons v vs)
  then obtain t where t: "tarjan_root g v s = Some t" "between g t" "insert v (dom (index s)) \<subseteq> dom (index t)"
    using tarjan_root_ok [of g s v] by auto
  obtain t' where "tarjan_roots g vs t = Some t'" "between g t'" "set vs \<union> dom (index t) \<subseteq> dom (index t')"
    using Cons.IH [OF t(2)] Cons.prems by auto
  moreover from this(3) t(3) have "set (v # vs) \<union> dom (index s) \<subseteq> dom (index t')" unfolding subset_iff by simp
  ultimately show ?case using t(1) by simp
qed auto

lemma tarjan_roots_all:
  assumes "finite (dom (edges_by_from g))"
  shows "\<exists>t. tarjan_roots g (nodes g) start_state = Some t \<and> components_ok g (raw_sccs t) \<and> emitted_nodes t = reachable g"
proof -
  have roots: "set (nodes g) \<subseteq> reachable g" by (auto simp: reachable_def)
  obtain t where t: "tarjan_roots g (nodes g) start_state = Some t" "between g t" "set (nodes g) \<subseteq> dom (index t)"
    using tarjan_roots_ok [OF start_between assms roots] by auto
  then have inv: "inv g t []" by (simp add: between_def)
  have "stack t = []" using invD(6) [OF inv] by (cases "stack t") auto
  then have emitted_nodes: "emitted_nodes t = dom (index t)" using marks_okD(3) [OF invD(1) [OF inv]] by simp
  have comps: "components_ok g (raw_sccs t)" by (rule invD(3) [OF inv])
  have "set (children g v) \<subseteq> emitted_nodes t" if v: "v \<in> emitted_nodes t" for v
  proof -
    from v obtain i where "i < length (raw_sccs t)" "v \<in> set (raw_sccs t ! i)" unfolding mem_concat by blast
    then have "set (children g v) \<subseteq> set (concat (take (Suc i) (raw_sccs t)))" using comps by (simp add: components_ok_def)
    also have "\<dots> \<subseteq> emitted_nodes t" by (rule concat_take_subset)
    finally show ?thesis .
  qed
  then have "reachable g \<subseteq> emitted_nodes t"
    using t(3) closed_reaches [of "emitted_nodes t" g] unfolding emitted_nodes reachable_def by blast
  then show ?thesis using t comps emitted_nodes by (auto simp: between_def)
qed

text \<open>An edge out of a component leads into it or into an earlier one; so the components are maximal.\<close>

lemma component_closed:
  assumes "components_ok g raw" "i < length raw" "u \<in> set (raw ! i)" "reaches g u v"
  shows "\<exists>j \<le> i. v \<in> set (raw ! j)"
proof -
  let ?A = "set (concat (take (Suc i) raw))"
  have "\<forall>w \<in> ?A. set (children g w) \<subseteq> ?A"
  proof
    fix w assume "w \<in> ?A"
    then obtain j where j: "j < length raw" "j \<le> i" "w \<in> set (raw ! j)" unfolding mem_concat_take by auto
    then have "set (children g w) \<subseteq> set (concat (take (Suc j) raw))" using assms(1) by (simp add: components_ok_def)
    also have "\<dots> \<subseteq> ?A" using j(2) unfolding mem_concat_take subset_iff less_Suc_eq_le by (meson order_trans)
    finally show "set (children g w) \<subseteq> ?A" .
  qed
  moreover have "u \<in> ?A" using assms(2,3) unfolding mem_concat_take by blast
  ultimately have "v \<in> ?A" using assms(4) by (rule closed_reaches)
  then show ?thesis unfolding mem_concat_take less_Suc_eq_le by blast
qed

lemma component_maximal:
  assumes "components_ok g raw" "i < length raw" "u \<in> set (raw ! i)"
  shows "v \<in> set (raw ! i) \<longleftrightarrow> reaches g u v \<and> reaches g v u"
proof
  assume "v \<in> set (raw ! i)"
  then show "reaches g u v \<and> reaches g v u" using assms unfolding components_ok_def by (metis nth_mem)
next
  assume "reaches g u v \<and> reaches g v u"
  then obtain j k where "j \<le> i" "v \<in> set (raw ! j)" "k \<le> j" "u \<in> set (raw ! k)"
    using component_closed [of g raw] assms by (meson le_less_trans)
  moreover have "distinct (concat raw)" using assms(1) by (simp add: components_ok_def)
  ultimately have "k = i" using assms(2,3) concat_index_unique [of raw] by (metis le_less_trans)
  then show "v \<in> set (raw ! i)" using \<open>j \<le> i\<close> \<open>k \<le> j\<close> \<open>v \<in> set (raw ! j)\<close> by simp
qed

section \<open>The result\<close>

lemma number_members_at: "number_members i ms t m = (if m \<in> set ms then Some i else t m)"
  unfolding number_members_def by (induction ms arbitrary: t) auto

lemma assemble_sccs: "sccs (assemble g raw r) = sccs r @ map (component g) raw"
  by (induction raw arbitrary: r) (simp_all add: Let_def)

lemma component_members [simp]: "set (members (component g ms)) = set ms" "length (members (component g ms)) = length ms"
  "sorted (members (component g ms))" "distinct (members (component g ms)) = distinct ms"
  "members (component g ms) = [] \<longleftrightarrow> ms = []"
  by (simp_all add: component_def Let_def) (metis length_0_conv length_sort)

lemma assemble_ids:
  assumes "distinct (concat raw)"
  shows "scc_id_by_routine (assemble g raw r) m = Some i \<longleftrightarrow>
    (\<exists>j < length raw. i = length (sccs r) + j \<and> m \<in> set (raw ! j)) \<or> (scc_id_by_routine r m = Some i \<and> m \<notin> set (concat raw))"
  using assms
proof (induction raw arbitrary: r)
  case (Cons ms raw)
  have "(\<exists>j < length (ms # raw). i = length (sccs r) + j \<and> m \<in> set ((ms # raw) ! j)) \<longleftrightarrow>
      (i = length (sccs r) \<and> m \<in> set ms) \<or> (\<exists>j < length raw. i = Suc (length (sccs r)) + j \<and> m \<in> set (raw ! j))"
    by (auto simp: less_Suc_eq_0_disj)
  moreover have "m \<in> set ms \<Longrightarrow> m \<notin> set (concat raw)" using Cons.prems by auto
  ultimately show ?case
    using Cons.IH Cons.prems by (auto simp: Let_def number_members_at)
qed simp

definition on_cycle :: "scc_graph \<Rightarrow> string \<Rightarrow> bool" where
  "on_cycle g v \<longleftrightarrow> (v, v) \<in> (edge g)\<^sup>+"

lemma component_recursive:
  assumes "ms \<noteq> []" "distinct ms" "\<forall>u \<in> set ms. \<forall>v \<in> set ms. reaches g u v"
    "\<And>u v. u \<in> set ms \<Longrightarrow> reaches g u v \<Longrightarrow> reaches g v u \<Longrightarrow> v \<in> set ms" "m \<in> set ms"
  shows "recursive (component g ms) \<longleftrightarrow> on_cycle g m"
proof (cases "1 < length ms")
  case True
  then obtain v where v: "v \<in> set ms" "v \<noteq> m"
    using assms(2) distinct_card [of ms] by (metis card_1_singleton_iff card_le_Suc0_iff_eq finite_set not_le One_nat_def)
  then have "(m, v) \<in> (edge g)\<^sup>+" "reaches g v m" using assms(3,5) by (metis rtranclD)+
  then show ?thesis using True by (simp add: component_def on_cycle_def Let_def)
next
  case False
  then have ms: "ms = [m]" using assms(1,5) by (cases ms; cases "tl ms") auto
  have "on_cycle g m \<longleftrightarrow> (m, m) \<in> edge g"
  proof
    assume "on_cycle g m"
    then obtain w where w: "(m, w) \<in> edge g" "reaches g w m" unfolding on_cycle_def by (meson tranclD)
    then have "w \<in> set ms" using assms(4,5) by (meson r_into_rtrancl)
    then show "(m, m) \<in> edge g" using w ms by simp
  qed (auto simp: on_cycle_def)
  then show ?thesis by (auto simp: component_def ms edge_iff children_def Let_def split: option.splits)
qed

section \<open>The properties\<close>

lemma tarjan_scc_result:
  assumes "finite (dom (edges_by_from g))"
  obtains raw where "tarjan_scc g = Some (assemble g raw \<lparr> sccs = [], scc_id_by_routine = Map.empty \<rparr>)"
    "components_ok g raw" "set (concat raw) = reachable g"
proof -
  obtain t where "tarjan_roots g (nodes g) start_state = Some t" "components_ok g (raw_sccs t)" "emitted_nodes t = reachable g"
    using tarjan_roots_all [OF assms] by blast
  then show ?thesis using that [of "raw_sccs t"] by (simp add: tarjan_scc_def)
qed

lemma tarjan_result_facts:
  assumes "finite (dom (edges_by_from g))" "tarjan_scc g = Some r"
  shows "\<exists>raw. components_ok g raw \<and> set (concat raw) = reachable g \<and> sccs r = map (component g) raw \<and>
    (\<forall>v i. scc_id_by_routine r v = Some i \<longleftrightarrow> i < length raw \<and> v \<in> set (raw ! i))"
proof -
  obtain raw where raw: "tarjan_scc g = Some (assemble g raw \<lparr> sccs = [], scc_id_by_routine = Map.empty \<rparr>)"
    "components_ok g raw" "set (concat raw) = reachable g" using tarjan_scc_result [OF assms(1)] .
  have "distinct (concat raw)" using raw(2) by (simp add: components_ok_def)
  then show ?thesis using raw assms(2) by (intro exI [of _ raw]) (simp add: assemble_sccs assemble_ids)
qed

text \<open>
  Property C36. The search ends: over a finite adjacency the loop under every root stops after finitely
  many iterations, and there is a result.
\<close>

theorem tarjan_scc_terminates:
  assumes "finite (dom (edges_by_from g))"
  shows "\<exists>r. tarjan_scc g = Some r"
  using tarjan_scc_result [OF assms] by blast

text \<open>
  Property C8. The components are the strongly connected components: exactly the routines reachable
  from the nodes are numbered, the number of a routine is the index of the one component that lists
  it, and two of them share a component if and only if each reaches the other. Members are listed
  in order, without duplicates.
\<close>

theorem tarjan_components_exact:
  assumes "finite (dom (edges_by_from g))" "tarjan_scc g = Some r"
  shows "dom (scc_id_by_routine r) = reachable g \<and>
    (\<forall>v i. scc_id_by_routine r v = Some i \<longleftrightarrow> i < length (sccs r) \<and> v \<in> set (members (sccs r ! i))) \<and>
    (\<forall>u \<in> reachable g. \<forall>v \<in> reachable g.
       scc_id_by_routine r u = scc_id_by_routine r v \<longleftrightarrow> reaches g u v \<and> reaches g v u) \<and>
    (\<forall>c \<in> set (sccs r). sorted (members c) \<and> distinct (members c) \<and> members c \<noteq> [])"
proof -
  obtain raw where raw: "components_ok g raw" "set (concat raw) = reachable g" "sccs r = map (component g) raw"
    and ids: "\<forall>v i. scc_id_by_routine r v = Some i \<longleftrightarrow> i < length raw \<and> v \<in> set (raw ! i)"
    using tarjan_result_facts [OF assms] by blast
  have dom: "v \<in> dom (scc_id_by_routine r) \<longleftrightarrow> v \<in> reachable g" for v
    unfolding raw(2) [symmetric] mem_concat by (auto simp: dom_def ids)
  have same: "scc_id_by_routine r u = scc_id_by_routine r v \<longleftrightarrow> reaches g u v \<and> reaches g v u"
    if uv: "u \<in> reachable g" "v \<in> reachable g" for u v
  proof -
    from uv obtain i j where i: "scc_id_by_routine r u = Some i" and j: "scc_id_by_routine r v = Some j"
      unfolding dom [symmetric] by blast
    have u: "i < length raw" "u \<in> set (raw ! i)" using i ids by auto
    have "scc_id_by_routine r v = Some i \<longleftrightarrow> i < length raw \<and> v \<in> set (raw ! i)" using ids by blast
    then show ?thesis using component_maximal [OF raw(1) u, of v] u(1) i j by auto
  qed
  have listed: "sorted (members c) \<and> distinct (members c) \<and> members c \<noteq> []" if c: "c \<in> set (sccs r)" for c
  proof -
    from c raw(3) obtain ms where c: "c = component g ms" "ms \<in> set raw" by auto
    then have "distinct ms" "0 < length ms" using raw(1) by (auto simp: components_ok_def distinct_concat_iff)
    then have "0 < length (members c)" "distinct (members c)" by (simp_all add: c)
    then show ?thesis by (simp add: c)
  qed
  have index: "scc_id_by_routine r v = Some i \<longleftrightarrow> i < length (sccs r) \<and> v \<in> set (members (sccs r ! i))" for v i
    using ids raw(3) by auto
  have "dom (scc_id_by_routine r) = reachable g" using dom by blast
  moreover have "\<forall>u \<in> reachable g. \<forall>v \<in> reachable g.
      scc_id_by_routine r u = scc_id_by_routine r v \<longleftrightarrow> reaches g u v \<and> reaches g v u" using same by blast
  moreover have "\<forall>c \<in> set (sccs r). sorted (members c) \<and> distinct (members c) \<and> members c \<noteq> []" using listed by blast
  ultimately show ?thesis using index by blast
qed

text \<open>
  Property C35. The components come callees first: for every routine of the graph, whether it calls
  anything or not, each of its callees is in the same or an earlier component, in the same one exactly
  when the edge closes a cycle; and its component is flagged recursive exactly when the routine itself
  lies on a cycle. So a leaf, a node without callees, and a single node that does not call itself are never flagged.
\<close>

theorem tarjan_reverse_topological:
  assumes "finite (dom (edges_by_from g))" "tarjan_scc g = Some r" "scc_id_by_routine r v = Some i"
  shows "(recursive (sccs r ! i) \<longleftrightarrow> on_cycle g v) \<and>
    (\<forall>w \<in> set (children g v). \<exists>j \<le> i. scc_id_by_routine r w = Some j \<and> (j = i \<longleftrightarrow> reaches g w v))"
proof -
  obtain raw where raw: "components_ok g raw" "set (concat raw) = reachable g" "sccs r = map (component g) raw"
    and ids: "\<forall>v i. scc_id_by_routine r v = Some i \<longleftrightarrow> i < length raw \<and> v \<in> set (raw ! i)"
    using tarjan_result_facts [OF assms(1,2)] by blast
  have v: "i < length raw" "v \<in> set (raw ! i)" using assms(3) ids by auto
  note maximal = component_maximal [OF raw(1) v(1)]
  have "\<exists>j \<le> i. scc_id_by_routine r w = Some j \<and> (j = i \<longleftrightarrow> reaches g w v)" if "w \<in> set (children g v)" for w
  proof -
    have edge: "reaches g v w" using that by (rule reaches_child)
    then obtain j where j: "j \<le> i" "w \<in> set (raw ! j)" using component_closed [OF raw(1) v] by blast
    moreover have "j = i \<longleftrightarrow> reaches g w v"
      using maximal [OF v(2), of w] edge j v(1) concat_index_unique [of raw j i w] raw(1) by (auto simp: components_ok_def)
    ultimately show ?thesis using ids v(1) by auto
  qed
  moreover have "recursive (component g (raw ! i)) \<longleftrightarrow> on_cycle g v"
  proof (rule component_recursive)
    show "raw ! i \<noteq> []" "distinct (raw ! i)" "v \<in> set (raw ! i)"
      using v raw(1) by (auto simp: components_ok_def distinct_concat_iff)
  qed (use maximal in blast)+
  ultimately show ?thesis using v(1) raw(3) by simp
qed

section \<open>A small graph\<close>

text \<open>Two routines that call each other, and a leaf one of them calls.\<close>

definition sample_graph :: scc_graph where
  "sample_graph = \<lparr> nodes = [''a'', ''b''], edges_by_from = [''a'' \<mapsto> [''b''], ''b'' \<mapsto> [''a'', ''c'']] \<rparr>"

lemma loop_literal:
  "while_option (\<lambda>s. work s \<noteq> []) c \<lparr> next_index = n, index = t, lowlink = l, on_stack = on, stack = st, raw_sccs = raw, work = [] \<rparr> =
     Some \<lparr> next_index = n, index = t, lowlink = l, on_stack = on, stack = st, raw_sccs = raw, work = [] \<rparr>"
  "while_option (\<lambda>s. work s \<noteq> []) c \<lparr> next_index = n, index = t, lowlink = l, on_stack = on, stack = st, raw_sccs = raw, work = f # w \<rparr> =
     while_option (\<lambda>s. work s \<noteq> []) c (c \<lparr> next_index = n, index = t, lowlink = l, on_stack = on, stack = st, raw_sccs = raw, work = f # w \<rparr>)"
  by (subst while_option_unfold, simp)+

lemmas tarjan_run = tarjan_root_def tarjan_step_def enter_def visit_child_def settle_def emit_component_def lower_def
  children_def Let_def loop_literal

lemma sample_scc:
  "tarjan_scc sample_graph = Some
     \<lparr> sccs = [\<lparr> members = [''c''], recursive = False \<rparr>, \<lparr> members = [''a'', ''b''], recursive = True \<rparr>],
       scc_id_by_routine = [''c'' \<mapsto> 0, ''a'' \<mapsto> 1, ''b'' \<mapsto> 1] \<rparr>"
  by (simp add: tarjan_scc_def tarjan_run sample_graph_def start_state_def component_def number_members_def)

lemma sample_finite: "finite (dom (edges_by_from sample_graph))"
  by (simp add: sample_graph_def)

theorem tarjan_scc_terminates_witness: "\<exists>r. tarjan_scc sample_graph = Some r"
  by (rule tarjan_scc_terminates [OF sample_finite])

theorem tarjan_components_exact_witness:
  "dom [''c'' \<mapsto> 0 :: nat, ''a'' \<mapsto> 1, ''b'' \<mapsto> 1] = reachable sample_graph"
  using tarjan_components_exact [OF sample_finite sample_scc] by simp

theorem tarjan_reverse_topological_witness:
  "on_cycle sample_graph ''b'' \<and> \<not> on_cycle sample_graph ''c'' \<and> \<not> reaches sample_graph ''c'' ''b''"
proof -
  have "''c'' \<in> set (children sample_graph ''b'')" by (simp add: children_def sample_graph_def)
  with tarjan_reverse_topological [OF sample_finite sample_scc, of "''b''" 1]
    tarjan_reverse_topological [OF sample_finite sample_scc, of "''c''" 0]
  show ?thesis by auto
qed

end
