(* ===== verification/Pd_Reach.thy ===== *)
theory Pd_Reach
  imports Temp_Binding Effect_Bundle Worklist Scc
begin

text \<open>
  Effective components and the flow of parameter-dependent effects
  (\<open>src/src/engine/l4/db_effect_solver.rs\<close>, steps 0 and A). A component of the combined graph is
  decomposed again over the members that are recomputed; in each piece the parameter-dependent
  effects are followed from callee to caller by a worklist over (routine, base effect, parameter).
\<close>

section \<open>Inputs of the solver\<close>

text \<open>The arguments every pass takes and none changes.\<close>

record solver_inputs =
  in_graph :: primary_graph
  in_routines :: "string \<rightharpoonup> model_routine"
  in_base :: "string \<rightharpoonup> routine_summary"
  in_interner :: routine_interner
  in_uncertainty_edges :: "string \<rightharpoonup> nat list"
  in_body_available :: "string \<rightharpoonup> bool"

section \<open>Effective components\<close>

definition induced_graph :: "primary_graph \<Rightarrow> string list \<Rightarrow> scc_graph" where
  "induced_graph g kept =
     \<lparr> nodes = kept,
       edges_by_from = (\<lambda>m. if m \<in> set kept
         then Some (filter (\<lambda>to. to \<in> set kept) (map ce_to (out_edges g m))) else None) \<rparr>"

definition effective_sccs :: "scc \<Rightarrow> primary_graph \<Rightarrow> (string \<Rightarrow> bool) \<Rightarrow> scc list option" where
  "effective_sccs scc_entry g is_recomputed =
     (let kept = filter is_recomputed (members scc_entry)
      in if kept = [] then Some [] else map_option sccs (tarjan_scc (induced_graph g kept)))"

section \<open>The product worklist\<close>

type_synonym base_id = "string \<times> string \<times> string"
type_synonym pd_state = "u32 \<times> base_id \<times> u32"

record terminal_emission =
  te_routine_id :: string
  te_base :: base_id
  te_temp :: temp_state_kind

record pd_fact =
  pf_routine_id :: string
  pf_base :: base_id
  pf_param_index :: u32

record pd_solve =
  pw_visited :: "pd_state list"
  pw_worklist :: "pd_state list"
  pw_terminals :: "terminal_emission list"

definition insert_pd_state :: "pd_state \<Rightarrow> pd_solve \<Rightarrow> pd_solve" where
  "insert_pd_state st w =
     (if st \<in> set (pw_visited w) then w
      else w\<lparr> pw_visited := pw_visited w @ [st], pw_worklist := pw_worklist w @ [st] \<rparr>)"

definition insert_terminal :: "terminal_emission \<Rightarrow> pd_solve \<Rightarrow> pd_solve" where
  "insert_terminal t w = w\<lparr> pw_terminals := push_new t (pw_terminals w) \<rparr>"

fun apply_pd_transition :: "u32 \<Rightarrow> base_id \<Rightarrow> temp_state \<Rightarrow> routine_interner \<Rightarrow> pd_solve \<Rightarrow> pd_solve option" where
  "apply_pd_transition at base (TS_ParameterDependent j) ri w = Some (insert_pd_state (at, base, j) w)"
| "apply_pd_transition at base (TS_Known v) ri w =
     do { nm \<leftarrow> ri_name ri at;
          Some (insert_terminal \<lparr> te_routine_id = nm, te_base = base, te_temp = Known v \<rparr> w) }"
| "apply_pd_transition at base TS_Unknown ri w =
     do { nm \<leftarrow> ri_name ri at;
          Some (insert_terminal \<lparr> te_routine_id = nm, te_base = base, te_temp = UnknownTemp \<rparr> w) }"

text \<open>
  The caller edges inside the component, by callee: every edge of every member, in member order.
\<close>

definition callers_by_callee :: "primary_graph \<Rightarrow> string list \<Rightarrow> string \<Rightarrow> (string \<times> combined_edge) list" where
  "callers_by_callee g ms w =
     (if w \<in> set ms then concat (map (\<lambda>v. map (Pair v) (filter (\<lambda>ed. ce_to ed = w) (out_edges g v))) ms) else [])"

definition effect_base :: "db_effect \<Rightarrow> base_id" where
  "effect_base e = (de_op e, de_table_id e, de_operation_id e)"

text \<open>Seed 1: the parameter-dependent effects of the members' own bodies.\<close>

definition seed_own_effect :: "u32 \<Rightarrow> db_effect \<Rightarrow> pd_solve \<Rightarrow> pd_solve" where
  "seed_own_effect m_ix e w =
     (case de_temp_state e of TS_ParameterDependent i \<Rightarrow> insert_pd_state (m_ix, effect_base e, i) w | _ \<Rightarrow> w)"

definition seed_own :: "solver_inputs \<Rightarrow> string \<Rightarrow> pd_solve \<Rightarrow> pd_solve option" where
  "seed_own si m w =
     (case in_routines si m of
        None \<Rightarrow> Some w
      | Some routine \<Rightarrow>
          do { m_ix \<leftarrow> ri_get (in_interner si) m;
               Some (fold (seed_own_effect m_ix) (sm_db_effects (base_intraprocedural_summary routine)) w) })"

text \<open>Seed 2: the images of the settled callees' parameter-dependent effects.\<close>

definition seed_settled_effect ::
  "solver_inputs \<Rightarrow> universe \<Rightarrow> u32 \<Rightarrow> model_routine \<Rightarrow> combined_edge \<Rightarrow> u32 \<Rightarrow> pd_solve \<Rightarrow> pd_solve option" where
  "seed_settled_effect si u m_ix caller ed callee_id w =
     do { identity \<leftarrow> uni_identity u callee_id;
          (case ei_temp identity of
             ParameterDependent j \<Rightarrow>
               apply_pd_transition m_ix (ei_op identity, ei_table_id identity, ei_operation_id identity)
                 (substitute_pd_temp_state ed j caller (in_routines si (ce_to ed))) (in_interner si) w
           | _ \<Rightarrow> Some w) }"

definition seed_settled_edge ::
  "solver_inputs \<Rightarrow> string list \<Rightarrow> bundle_builder \<Rightarrow> universe \<Rightarrow> u32 \<Rightarrow> model_routine \<Rightarrow> combined_edge \<Rightarrow> pd_solve \<Rightarrow> pd_solve option" where
  "seed_settled_edge si ms settled_db u m_ix caller ed w =
     (if ce_to ed \<in> set ms then Some w
      else
        (case ri_get (in_interner si) (ce_to ed) of
           None \<Rightarrow> Some w
         | Some to_ix \<Rightarrow>
             if \<not> has_raw_row settled_db to_ix then Some w
             else try_fold (seed_settled_effect si u m_ix caller ed) (pd_ids settled_db to_ix) w))"

definition seed_settled ::
  "solver_inputs \<Rightarrow> string list \<Rightarrow> bundle_builder \<Rightarrow> universe \<Rightarrow> string \<Rightarrow> pd_solve \<Rightarrow> pd_solve option" where
  "seed_settled si ms settled_db u m w =
     (case in_routines si m of
        None \<Rightarrow> Some w
      | Some caller \<Rightarrow>
          do { m_ix \<leftarrow> ri_get (in_interner si) m;
               try_fold (seed_settled_edge si ms settled_db u m_ix caller) (out_edges (in_graph si) m) w })"

text \<open>One turn of the loop: the state at the front, over every caller edge into its routine.\<close>

definition caller_transition :: "solver_inputs \<Rightarrow> base_id \<Rightarrow> u32 \<Rightarrow> string \<times> combined_edge \<Rightarrow> pd_solve \<Rightarrow> pd_solve option" where
  "caller_transition si base idx = (\<lambda>(v, ed) w.
     (case in_routines si v of
        None \<Rightarrow> Some w
      | Some caller \<Rightarrow>
          do { v_ix \<leftarrow> ri_get (in_interner si) v;
               apply_pd_transition v_ix base
                 (substitute_pd_temp_state ed idx caller (in_routines si (ce_to ed))) (in_interner si) w }))"

definition pd_step :: "solver_inputs \<Rightarrow> string list \<Rightarrow> pd_solve \<Rightarrow> pd_solve option" where
  "pd_step si ms w =
     (case pw_worklist w of
        [] \<Rightarrow> Some w
      | (at, base, idx) # rest \<Rightarrow>
          do { nm \<leftarrow> ri_name (in_interner si) at;
               try_fold (caller_transition si base idx) (callers_by_callee (in_graph si) ms nm)
                 (w\<lparr> pw_worklist := rest \<rparr>) })"

definition pd_fact_of :: "routine_interner \<Rightarrow> pd_state \<Rightarrow> pd_fact option" where
  "pd_fact_of ri st =
     (case st of (at, base, i) \<Rightarrow>
        do { nm \<leftarrow> ri_name ri at; Some \<lparr> pf_routine_id = nm, pf_base = base, pf_param_index = i \<rparr> })"

definition sort_pd_facts :: "pd_fact list \<Rightarrow> pd_fact list" where
  "sort_pd_facts = sort_key (\<lambda>f. (pf_routine_id f, pf_base f, pf_param_index f))"

definition sort_terminals :: "terminal_emission list \<Rightarrow> terminal_emission list" where
  "sort_terminals = sort_key (\<lambda>t. (te_routine_id t, te_base t, key_fragment (te_temp t)))"

definition seed_pd :: "solver_inputs \<Rightarrow> string list \<Rightarrow> bundle_builder \<Rightarrow> universe \<Rightarrow> pd_solve option" where
  "seed_pd si ms settled_db u =
     do { w \<leftarrow> try_fold (seed_own si) ms \<lparr> pw_visited = [], pw_worklist = [], pw_terminals = [] \<rparr>;
          try_fold (seed_settled si ms settled_db u) ms w }"

definition solve_pd_reachability ::
  "scc \<Rightarrow> solver_inputs \<Rightarrow> bundle_builder \<Rightarrow> universe \<Rightarrow> (pd_fact list \<times> terminal_emission list) option" where
  "solve_pd_reachability eff si settled_db u =
     do { w \<leftarrow> seed_pd si (members eff) settled_db u;
          w \<leftarrow> try_while (\<lambda>w. pw_worklist w \<noteq> []) (pd_step si (members eff)) w;
          facts \<leftarrow> those (map (pd_fact_of (in_interner si)) (pw_visited w));
          Some (sort_pd_facts facts, sort_terminals (pw_terminals w)) }"

section \<open>The loop without panics\<close>

text \<open>
  An outcome is what a transition brings to a member: the routine, the base effect and its temp state
  in the routine's frame. Every pass over edges is a fold over a list of outcomes.
\<close>

type_synonym pd_outcome = "string \<times> base_id \<times> temp_state"

definition number_of :: "solver_inputs \<Rightarrow> string \<Rightarrow> u32" where
  "number_of si v = the (ri_get (in_interner si) v)"

fun pd_state_of :: "solver_inputs \<Rightarrow> pd_outcome \<Rightarrow> pd_state option" where
  "pd_state_of si (v, base, TS_ParameterDependent j) = Some (number_of si v, base, j)"
| "pd_state_of si _ = None"

fun emission_of :: "pd_outcome \<Rightarrow> terminal_emission option" where
  "emission_of (v, base, TS_ParameterDependent j) = None"
| "emission_of (v, base, t) = Some \<lparr> te_routine_id = v, te_base = base, te_temp = to_kind t \<rparr>"

definition push_outcome :: "solver_inputs \<Rightarrow> pd_outcome \<Rightarrow> pd_solve \<Rightarrow> pd_solve" where
  "push_outcome si p w =
     (case pd_state_of si p of Some st \<Rightarrow> insert_pd_state st w
      | None \<Rightarrow> (case emission_of p of Some t \<Rightarrow> insert_terminal t w | None \<Rightarrow> w))"

definition states_of :: "solver_inputs \<Rightarrow> pd_outcome list \<Rightarrow> pd_state set" where
  "states_of si ps = {st. \<exists>p \<in> set ps. pd_state_of si p = Some st}"

definition emissions_of :: "pd_outcome list \<Rightarrow> terminal_emission set" where
  "emissions_of ps = {t. \<exists>p \<in> set ps. emission_of p = Some t}"

lemma pd_state_of_Some: "pd_state_of si (v, base, t) = Some st \<longleftrightarrow> (\<exists>j. t = TS_ParameterDependent j \<and> st = (number_of si v, base, j))"
  by (cases t) auto

lemma emission_of_Some: "emission_of (v, base, t) = Some e \<longleftrightarrow>
    (\<forall>j. t \<noteq> TS_ParameterDependent j) \<and> e = \<lparr> te_routine_id = v, te_base = base, te_temp = to_kind t \<rparr>"
  by (cases t) auto

lemma emission_of_iff:
  "emission_of p = Some \<lparr> te_routine_id = v, te_base = base, te_temp = k \<rparr> \<longleftrightarrow>
    p = (v, base, kind_to_temp_state k) \<and> (\<forall>j. k \<noteq> ParameterDependent j)"
proof -
  obtain v' base' t where "p = (v', base', t)" by (cases p) blast
  then show ?thesis by (cases t; cases k) auto
qed

lemma push_outcome_terminals: "set (pw_terminals (push_outcome si p w)) = set (pw_terminals w) \<union> emissions_of [p]"
proof -
  obtain v base t where "p = (v, base, t)" by (cases p) blast
  then show ?thesis
    by (cases t) (auto simp: push_outcome_def insert_pd_state_def insert_terminal_def emissions_of_def)
qed

lemma push_outcomes_terminals:
  "set (pw_terminals (fold (push_outcome si) ps w)) = set (pw_terminals w) \<union> emissions_of ps"
  by (induction ps arbitrary: w) (auto simp: push_outcome_terminals emissions_of_def)

lemma push_outcomes_states:
  "\<exists>new. pw_visited (fold (push_outcome si) ps w) = pw_visited w @ new \<and>
      pw_worklist (fold (push_outcome si) ps w) = pw_worklist w @ new \<and>
      distinct new \<and> set new = states_of si ps - set (pw_visited w)"
proof (induction ps arbitrary: w)
  case (Cons p ps)
  let ?w = "push_outcome si p w"
  obtain new where new: "pw_visited (fold (push_outcome si) ps ?w) = pw_visited ?w @ new"
      "pw_worklist (fold (push_outcome si) ps ?w) = pw_worklist ?w @ new"
      "distinct new" "set new = states_of si ps - set (pw_visited ?w)"
    using Cons [of ?w] by blast
  show ?case
  proof (cases "\<exists>st. pd_state_of si p = Some st \<and> st \<notin> set (pw_visited w)")
    case True
    then obtain st where st: "pd_state_of si p = Some st" "st \<notin> set (pw_visited w)" by blast
    then have w: "?w = w\<lparr> pw_visited := pw_visited w @ [st], pw_worklist := pw_worklist w @ [st] \<rparr>"
      by (simp add: push_outcome_def insert_pd_state_def)
    show ?thesis
      by (rule exI [of _ "st # new"]) (use new st in \<open>auto simp: w states_of_def\<close>)
  next
    case False
    then have same: "pw_visited ?w = pw_visited w" "pw_worklist ?w = pw_worklist w"
      by (auto simp: push_outcome_def insert_pd_state_def insert_terminal_def split: option.split)
    show ?thesis
      by (rule exI [of _ new]) (use new same False in \<open>auto simp: states_of_def\<close>)
  qed
qed (simp add: states_of_def)

section \<open>The outcomes of each pass\<close>

definition own_outcomes :: "solver_inputs \<Rightarrow> string \<Rightarrow> pd_outcome list" where
  "own_outcomes si m =
     (case in_routines si m of None \<Rightarrow> []
      | Some r \<Rightarrow> map (\<lambda>e. (m, effect_base e, de_temp_state e))
          (filter (\<lambda>e. \<exists>i. de_temp_state e = TS_ParameterDependent i) (sm_db_effects (base_intraprocedural_summary r))))"

definition identity_base :: "effect_identity \<Rightarrow> base_id" where
  "identity_base e = (ei_op e, ei_table_id e, ei_operation_id e)"

text \<open>The image of an identity over an edge, when it depends on a parameter.\<close>

definition pd_image :: "solver_inputs \<Rightarrow> string \<Rightarrow> model_routine \<Rightarrow> combined_edge \<Rightarrow> effect_identity \<Rightarrow> pd_outcome list" where
  "pd_image si m r ed e =
     (case ei_temp e of
        ParameterDependent j \<Rightarrow> [(m, identity_base e, substitute_pd_temp_state ed j r (in_routines si (ce_to ed)))]
      | _ \<Rightarrow> [])"

definition settled_pd :: "solver_inputs \<Rightarrow> bundle_builder \<Rightarrow> universe \<Rightarrow> string \<Rightarrow> effect_identity list" where
  "settled_pd si db u to =
     (case ri_get (in_interner si) to of None \<Rightarrow> []
      | Some t \<Rightarrow> if has_raw_row db t then map (\<lambda>i. the (uni_identity u i)) (pd_ids db t) else [])"

definition edge_outcomes :: "solver_inputs \<Rightarrow> string list \<Rightarrow> bundle_builder \<Rightarrow> universe \<Rightarrow> string \<Rightarrow> model_routine \<Rightarrow> combined_edge \<Rightarrow> pd_outcome list" where
  "edge_outcomes si ms db u m r ed =
     (if ce_to ed \<in> set ms then [] else concat (map (pd_image si m r ed) (settled_pd si db u (ce_to ed))))"

definition settled_outcomes :: "solver_inputs \<Rightarrow> string list \<Rightarrow> bundle_builder \<Rightarrow> universe \<Rightarrow> string \<Rightarrow> pd_outcome list" where
  "settled_outcomes si ms db u m =
     (case in_routines si m of None \<Rightarrow> []
      | Some r \<Rightarrow> concat (map (edge_outcomes si ms db u m r) (out_edges (in_graph si) m)))"

definition caller_outcome :: "solver_inputs \<Rightarrow> base_id \<Rightarrow> u32 \<Rightarrow> string \<times> combined_edge \<Rightarrow> pd_outcome list" where
  "caller_outcome si base i = (\<lambda>(v, ed).
     (case in_routines si v of None \<Rightarrow> []
      | Some r \<Rightarrow> [(v, base, substitute_pd_temp_state ed i r (in_routines si (ce_to ed)))]))"

definition caller_outcomes :: "solver_inputs \<Rightarrow> string list \<Rightarrow> string \<Rightarrow> base_id \<Rightarrow> u32 \<Rightarrow> pd_outcome list" where
  "caller_outcomes si ms w base i = concat (map (caller_outcome si base i) (callers_by_callee (in_graph si) ms w))"

lemma try_fold_concat:
  assumes "\<And>x w. x \<in> set xs \<Longrightarrow> f x w = Some (fold g (ps x) w)"
  shows "try_fold f xs w = Some (fold g (concat (map ps xs)) w)"
  using assms by (induction xs arbitrary: w) auto

definition interned :: "solver_inputs \<Rightarrow> string \<Rightarrow> bool" where
  "interned si m = (\<exists>i. ri_get (in_interner si) m = Some i)"

lemma interned_name:
  assumes "ri_ok (in_interner si)" "interned si m"
  shows "ri_get (in_interner si) m = Some (number_of si m)" "ri_name (in_interner si) (number_of si m) = Some m"
  using assms routine_ids.name_get [of "in_interner si" m "number_of si m"] by (auto simp: interned_def number_of_def)

lemma number_inj:
  "ri_ok (in_interner si) \<Longrightarrow> interned si m \<Longrightarrow> interned si v \<Longrightarrow> number_of si m = number_of si v \<longleftrightarrow> m = v"
  using interned_name(2) by (metis option.inject)

lemma transition_total:
  assumes "ri_ok (in_interner si)" "interned si v"
  shows "apply_pd_transition (number_of si v) base t (in_interner si) w = Some (push_outcome si (v, base, t) w)"
  using interned_name [OF assms] by (cases t) (simp_all add: push_outcome_def)

lemma seed_own_total:
  assumes "interned si m"
  shows "seed_own si m w = Some (fold (push_outcome si) (own_outcomes si m) w)"
proof (cases "in_routines si m")
  case (Some r)
  have "fold (seed_own_effect (number_of si m)) es w = fold (push_outcome si)
      (map (\<lambda>e. (m, effect_base e, de_temp_state e)) (filter (\<lambda>e. \<exists>i. de_temp_state e = TS_ParameterDependent i) es)) w" for es
    by (induction es arbitrary: w) (auto simp: seed_own_effect_def push_outcome_def split: temp_state.split)
  with Some assms show ?thesis by (auto simp: seed_own_def own_outcomes_def interned_def number_of_def)
qed (simp add: seed_own_def own_outcomes_def)

text \<open>The ids of the settled rows are ids of the universe.\<close>

definition rows_known :: "solver_inputs \<Rightarrow> bundle_builder \<Rightarrow> universe \<Rightarrow> bool" where
  "rows_known si db u = (\<forall>r. \<forall>i \<in> set (pd_ids db r). unat i < uni_len u)"

lemma seed_settled_edge_total:
  assumes "ri_ok (in_interner si)" "interned si m" "rows_known si db u"
  shows "seed_settled_edge si ms db u (number_of si m) r ed w = Some (fold (push_outcome si) (edge_outcomes si ms db u m r ed) w)"
proof -
  have known: "uni_identity u i = Some (the (uni_identity u i))" if "i \<in> set (pd_ids db t)" for i t
    using assms(3) that by (auto simp: rows_known_def uni_identity_def uni_len_def)
  have one: "seed_settled_effect si u (number_of si m) r ed i w =
      Some (fold (push_outcome si) (pd_image si m r ed (the (uni_identity u i))) w)" if "i \<in> set (pd_ids db t)" for i w t
    unfolding seed_settled_effect_def
    by (subst known [OF that]) (simp add: pd_image_def transition_total [OF assms(1,2)] identity_base_def split: temp_state_kind.split)
  have "try_fold (seed_settled_effect si u (number_of si m) r ed) (pd_ids db t) w =
      Some (fold (push_outcome si) (concat (map (pd_image si m r ed \<circ> (\<lambda>i. the (uni_identity u i))) (pd_ids db t))) w)" for t
    by (rule try_fold_concat) (simp add: one)
  then show ?thesis
    by (simp add: seed_settled_edge_def edge_outcomes_def settled_pd_def split: option.split)
qed

lemma seed_settled_total:
  assumes "ri_ok (in_interner si)" "interned si m" "rows_known si db u"
  shows "seed_settled si ms db u m w = Some (fold (push_outcome si) (settled_outcomes si ms db u m) w)"
proof (cases "in_routines si m")
  case (Some r)
  have "try_fold (seed_settled_edge si ms db u (number_of si m) r) (out_edges (in_graph si) m) w =
      Some (fold (push_outcome si) (concat (map (edge_outcomes si ms db u m r) (out_edges (in_graph si) m))) w)"
    by (rule try_fold_concat) (rule seed_settled_edge_total [OF assms])
  then show ?thesis using Some interned_name(1) [OF assms(1,2)] by (simp add: seed_settled_def settled_outcomes_def)
qed (simp add: seed_settled_def settled_outcomes_def)

text \<open>The outcomes the component starts from.\<close>

definition seed_outcomes :: "solver_inputs \<Rightarrow> string list \<Rightarrow> bundle_builder \<Rightarrow> universe \<Rightarrow> pd_outcome list" where
  "seed_outcomes si ms db u = concat (map (own_outcomes si) ms) @ concat (map (settled_outcomes si ms db u) ms)"

lemma seed_pd_total:
  assumes "ri_ok (in_interner si)" "\<forall>m \<in> set ms. interned si m" "rows_known si db u"
  shows "seed_pd si ms db u =
    Some (fold (push_outcome si) (seed_outcomes si ms db u) \<lparr> pw_visited = [], pw_worklist = [], pw_terminals = [] \<rparr>)"
proof -
  have own: "try_fold (seed_own si) ms w = Some (fold (push_outcome si) (concat (map (own_outcomes si) ms)) w)" for w
    by (rule try_fold_concat) (use assms(2) in \<open>simp add: seed_own_total\<close>)
  have settled: "try_fold (seed_settled si ms db u) ms w = Some (fold (push_outcome si) (concat (map (settled_outcomes si ms db u) ms)) w)" for w
    by (rule try_fold_concat) (use assms in \<open>simp add: seed_settled_total\<close>)
  show ?thesis by (simp add: seed_pd_def own settled seed_outcomes_def)
qed

definition pd_turn :: "solver_inputs \<Rightarrow> string list \<Rightarrow> pd_solve \<Rightarrow> pd_solve" where
  "pd_turn si ms w =
     (case pw_worklist w of
        [] \<Rightarrow> w
      | (at, base, i) # rest \<Rightarrow>
          fold (push_outcome si) (caller_outcomes si ms (the (ri_name (in_interner si) at)) base i) (w\<lparr> pw_worklist := rest \<rparr>))"

definition outcomes_from :: "solver_inputs \<Rightarrow> string list \<Rightarrow> pd_state \<Rightarrow> pd_outcome list" where
  "outcomes_from si ms st = (case st of (at, base, i) \<Rightarrow> caller_outcomes si ms (the (ri_name (in_interner si) at)) base i)"

lemma callers_mem: "(v, ed) \<in> set (callers_by_callee g ms w) \<longleftrightarrow> w \<in> set ms \<and> v \<in> set ms \<and> ed \<in> set (out_edges g v) \<and> ce_to ed = w"
  by (auto simp: callers_by_callee_def)

lemma caller_outcomes_mem:
  "p \<in> set (caller_outcomes si ms w base i) \<longleftrightarrow>
    (\<exists>v r ed. w \<in> set ms \<and> v \<in> set ms \<and> in_routines si v = Some r \<and> ed \<in> set (out_edges (in_graph si) v) \<and> ce_to ed = w \<and>
      p = (v, base, substitute_pd_temp_state ed i r (in_routines si (ce_to ed))))"
  by (force simp: caller_outcomes_def caller_outcome_def callers_mem split: option.splits)

interpretation pd_work: worklist pw_visited pw_worklist "\<lambda>w. set (pw_terminals w)" "pd_turn si ms"
  "\<lambda>st. states_of si (outcomes_from si ms st)" "\<lambda>st. emissions_of (outcomes_from si ms st)" "UNIV \<times> set bases \<times> UNIV" for si ms bases
proof unfold_locales
  fix w :: pd_solve and x rest
  assume w: "pw_worklist w = x # rest"
  obtain at base i where x: "x = (at, base, i)" by (cases x) auto
  have turn: "pd_turn si ms w = fold (push_outcome si) (outcomes_from si ms x) (w\<lparr> pw_worklist := rest \<rparr>)"
    using w by (simp add: x pd_turn_def outcomes_from_def)
  show "\<exists>new. pw_visited (pd_turn si ms w) = pw_visited w @ new \<and> pw_worklist (pd_turn si ms w) = rest @ new \<and>
      distinct new \<and> set new = states_of si (outcomes_from si ms x) - set (pw_visited w)"
    using push_outcomes_states [of si "outcomes_from si ms x" "w\<lparr> pw_worklist := rest \<rparr>"] by (simp add: turn)
  show "set (pw_terminals (pd_turn si ms w)) = set (pw_terminals w) \<union> emissions_of (outcomes_from si ms x)"
    by (simp add: turn push_outcomes_terminals)
next
  show "finite (UNIV \<times> set bases \<times> UNIV :: pd_state set)" by simp
next
  fix x :: pd_state
  assume "x \<in> UNIV \<times> set bases \<times> UNIV"
  moreover obtain at base i where x: "x = (at, base, i)" by (cases x) auto
  ultimately show "states_of si (outcomes_from si ms x) \<subseteq> UNIV \<times> set bases \<times> UNIV"
    by (auto simp: states_of_def outcomes_from_def caller_outcomes_mem pd_state_of_Some)
qed

lemma pd_step_turn:
  assumes "ri_ok (in_interner si)" "\<forall>m \<in> set ms. interned si m" "pw_worklist w \<noteq> []" "set (pw_worklist w) \<subseteq> number_of si ` set ms \<times> UNIV"
  shows "pd_step si ms w = Some (pd_turn si ms w)"
proof -
  obtain at base i rest where w: "pw_worklist w = (at, base, i) # rest" using assms(3) by (cases "pw_worklist w") auto
  then obtain m where m: "m \<in> set ms" "at = number_of si m" using assms(4) by auto
  have nm: "ri_name (in_interner si) at = Some m" using interned_name(2) [OF assms(1)] assms(2) m by simp
  have "try_fold (caller_transition si base i) (callers_by_callee (in_graph si) ms m) v =
      Some (fold (push_outcome si) (caller_outcomes si ms m base i) v)" for v
    unfolding caller_outcomes_def
  proof (rule try_fold_concat)
    fix x w
    assume "x \<in> set (callers_by_callee (in_graph si) ms m)"
    moreover obtain v ed where x: "x = (v, ed)" by (cases x)
    ultimately have v: "interned si v" using assms(2) by (simp add: callers_mem)
    show "caller_transition si base i x w = Some (fold (push_outcome si) (caller_outcome si base i x) w)"
      using interned_name(1) [OF assms(1) v]
      by (simp add: x caller_transition_def caller_outcome_def transition_total [OF assms(1) v] split: option.split)
  qed
  then show ?thesis using w nm by (simp add: pd_step_def pd_turn_def)
qed

section \<open>The flow of the parameter-dependent effects\<close>

text \<open>
  The specification of the pass: what reaches a member of the component from the seeds, each step
  carrying a parameter-dependent effect over one caller edge.
\<close>

inductive pd_flow :: "solver_inputs \<Rightarrow> string list \<Rightarrow> pd_outcome list \<Rightarrow> pd_outcome \<Rightarrow> bool" for si ms seeds where
  seed: "p \<in> set seeds \<Longrightarrow> pd_flow si ms seeds p"
| over: "pd_flow si ms seeds (w, base, TS_ParameterDependent i) \<Longrightarrow> p \<in> set (caller_outcomes si ms w base i) \<Longrightarrow> pd_flow si ms seeds p"

lemma seed_member: "p \<in> set (seed_outcomes si ms db u) \<Longrightarrow> fst p \<in> set ms"
  by (auto simp: seed_outcomes_def own_outcomes_def settled_outcomes_def edge_outcomes_def pd_image_def
      split: option.splits temp_state_kind.splits if_splits)

lemma flow_member: "pd_flow si ms seeds p \<Longrightarrow> \<forall>p \<in> set seeds. fst p \<in> set ms \<Longrightarrow> fst p \<in> set ms"
  by (induction rule: pd_flow.induct) (auto simp: caller_outcomes_mem)

lemma outcomes_from_number:
  "ri_ok (in_interner si) \<Longrightarrow> interned si w \<Longrightarrow> outcomes_from si ms (number_of si w, base, i) = caller_outcomes si ms w base i"
  by (simp add: outcomes_from_def interned_name(2))

lemma pd_run:
  assumes ok: "ri_ok (in_interner si)" "\<forall>m \<in> set ms. interned si m" and seeds: "\<forall>p \<in> set seeds. fst p \<in> set ms"
    and w0: "w0 = fold (push_outcome si) seeds \<lparr> pw_visited = [], pw_worklist = [], pw_terminals = [] \<rparr>"
  obtains w where "try_while (\<lambda>w. pw_worklist w \<noteq> []) (pd_step si ms) w0 = Some w"
    "set (pw_visited w) = {st. \<exists>p. pd_flow si ms seeds p \<and> pd_state_of si p = Some st}"
    "set (pw_terminals w) = {t. \<exists>p. pd_flow si ms seeds p \<and> emission_of p = Some t}"
proof -
  define bases where "bases = map (\<lambda>p. fst (snd p)) seeds"
  obtain new where start: "pw_visited w0 = new" "pw_worklist w0 = new" "set new = states_of si seeds"
    using push_outcomes_states [of si seeds "\<lparr> pw_visited = [], pw_worklist = [], pw_terminals = [] \<rparr>"] by (auto simp: w0)
  have out0: "set (pw_terminals w0) = emissions_of seeds" by (simp add: w0 push_outcomes_terminals)
  have ready: "pd_work.ready bases w0"
    unfolding pd_work.ready_def start by (auto simp: start(3) states_of_def bases_def pd_state_of_Some image_iff) (metis fst_conv snd_conv)
  obtain w where w: "while_option (\<lambda>w. pw_worklist w \<noteq> []) (pd_turn si ms) w0 = Some w"
    using pd_work.run_ends [OF ready] by blast
  have "set (pw_worklist w0) = set (pw_visited w0)" by (simp add: start)
  note result = pd_work.run_result [OF w ready this]
  let ?I = "\<lambda>w. set (pw_visited w) \<subseteq> number_of si ` set ms \<times> UNIV \<and> set (pw_worklist w) \<subseteq> number_of si ` set ms \<times> UNIV"
  have numbers: "states_of si ps \<subseteq> number_of si ` set ms \<times> UNIV" if "\<forall>p \<in> set ps. fst p \<in> set ms" for ps
    using that by (auto simp: states_of_def pd_state_of_Some)
  have "try_while (\<lambda>w. pw_worklist w \<noteq> []) (pd_step si ms) w0 = Some w"
  proof (rule try_while_total [OF _ _ w, where I = ?I])
    show "?I w0" using numbers [OF seeds] by (simp add: start)
    show "pd_step si ms v = Some (pd_turn si ms v) \<and> ?I (pd_turn si ms v)" if v: "?I v" "pw_worklist v \<noteq> []" for v
    proof
      show "pd_step si ms v = Some (pd_turn si ms v)" using pd_step_turn [OF ok] v by blast
      obtain x rest where x: "pw_worklist v = x # rest" using v(2) by (cases "pw_worklist v") auto
      have "states_of si (outcomes_from si ms x) \<subseteq> number_of si ` set ms \<times> UNIV"
        by (rule numbers) (auto simp: outcomes_from_def caller_outcomes_mem split: prod.splits)
      then show "?I (pd_turn si ms v)" using pd_work.step_states [OF x, of si ms] v(1) x by auto
    qed
  qed
  moreover have flow_state: "pd_flow si ms seeds p \<Longrightarrow> (\<forall>st. pd_state_of si p = Some st \<longrightarrow> st \<in> set (pw_visited w)) \<and>
      (\<forall>t. emission_of p = Some t \<longrightarrow> t \<in> set (pw_terminals w))" for p
  proof (induction rule: pd_flow.induct)
    case (seed p)
    then show ?case using result(1,3) start out0 by (fastforce simp: states_of_def emissions_of_def)
  next
    case (over v base i p)
    have "v \<in> set ms" using flow_member [OF over.hyps(1) seeds] by simp
    then have from_v: "outcomes_from si ms (number_of si v, base, i) = caller_outcomes si ms v base i"
      using outcomes_from_number [OF ok(1)] ok(2) by blast
    have st: "(number_of si v, base, i) \<in> set (pw_visited w)" using over.IH by simp
    show ?case using result(2) [OF st] result(3) st over.hyps(2) unfolding from_v [symmetric]
      by (fastforce simp: states_of_def emissions_of_def)
  qed
  let ?X = "{st. \<exists>p. pd_flow si ms seeds p \<and> pd_state_of si p = Some st}"
  have step: "pd_flow si ms seeds p" if x: "x \<in> ?X" "p \<in> set (outcomes_from si ms x)" for x p
  proof -
    from x(1) obtain v base i where v: "pd_flow si ms seeds (v, base, TS_ParameterDependent i)" "x = (number_of si v, base, i)"
      by (auto simp: pd_state_of_Some)
    have "v \<in> set ms" using flow_member [OF v(1) seeds] by simp
    then have "outcomes_from si ms x = caller_outcomes si ms v base i"
      using outcomes_from_number [OF ok(1)] ok(2) v(2) by blast
    with x(2) v(1) show ?thesis by (auto intro: pd_flow.over)
  qed
  have visited: "set (pw_visited w) \<subseteq> ?X"
  proof (rule result(4))
    show "set (pw_visited w0) \<subseteq> ?X" unfolding start states_of_def by (blast intro: pd_flow.seed)
    show "states_of si (outcomes_from si ms x) \<subseteq> ?X" if "x \<in> ?X" for x
      using step [OF that] unfolding states_of_def by blast
  qed
  have terminals: "set (pw_terminals w) \<subseteq> {t. \<exists>p. pd_flow si ms seeds p \<and> emission_of p = Some t}"
  proof
    fix t
    assume "t \<in> set (pw_terminals w)"
    then consider "t \<in> emissions_of seeds" | x where "x \<in> ?X" "t \<in> emissions_of (outcomes_from si ms x)"
      unfolding result(3) out0 using visited by blast
    then show "t \<in> {t. \<exists>p. pd_flow si ms seeds p \<and> emission_of p = Some t}"
    proof cases
      case 1
      then obtain p where "p \<in> set seeds" "emission_of p = Some t" unfolding emissions_of_def by blast
      then show ?thesis using pd_flow.seed by blast
    next
      case 2
      then obtain p where "p \<in> set (outcomes_from si ms x)" "emission_of p = Some t" unfolding emissions_of_def by blast
      then show ?thesis using step [OF 2(1)] by blast
    qed
  qed
  show thesis
  proof (rule that)
    show "set (pw_visited w) = ?X" using visited flow_state by (auto simp: states_of_def)
    show "set (pw_terminals w) = {t. \<exists>p. pd_flow si ms seeds p \<and> emission_of p = Some t}" using terminals flow_state by blast
  qed fact
qed

lemma those_total: "(\<And>x. x \<in> set xs \<Longrightarrow> f x = Some (g x)) \<Longrightarrow> those (map f xs) = Some (map g xs)"
  by (induction xs) auto

text \<open>The pass never panics, its loop ends, and it reports exactly the flow.\<close>

lemma pd_reachability_flow:
  assumes "ri_ok (in_interner si)" "\<forall>m \<in> set (members eff). interned si m" "rows_known si db u"
  obtains facts terms where "solve_pd_reachability eff si db u = Some (facts, terms)"
    "\<And>v base j. \<lparr> pf_routine_id = v, pf_base = base, pf_param_index = j \<rparr> \<in> set facts \<longleftrightarrow>
      pd_flow si (members eff) (seed_outcomes si (members eff) db u) (v, base, TS_ParameterDependent j)"
    "\<And>v base k. \<lparr> te_routine_id = v, te_base = base, te_temp = k \<rparr> \<in> set terms \<longleftrightarrow>
      (\<forall>j. k \<noteq> ParameterDependent j) \<and>
      pd_flow si (members eff) (seed_outcomes si (members eff) db u) (v, base, kind_to_temp_state k)"
proof -
  let ?ms = "members eff" and ?seeds = "seed_outcomes si (members eff) db u"
  have seeds: "\<forall>p \<in> set ?seeds. fst p \<in> set ?ms" using seed_member by blast
  note seeded = seed_pd_total [OF assms]
  obtain w where w: "try_while (\<lambda>w. pw_worklist w \<noteq> []) (pd_step si ?ms)
        (fold (push_outcome si) ?seeds \<lparr> pw_visited = [], pw_worklist = [], pw_terminals = [] \<rparr>) = Some w"
      "set (pw_visited w) = {st. \<exists>p. pd_flow si ?ms ?seeds p \<and> pd_state_of si p = Some st}"
      "set (pw_terminals w) = {t. \<exists>p. pd_flow si ?ms ?seeds p \<and> emission_of p = Some t}"
    by (rule pd_run [OF assms(1,2) seeds refl]) blast
  define fact where "fact = (\<lambda>st. case st of (at, base, i) \<Rightarrow>
    \<lparr> pf_routine_id = the (ri_name (in_interner si) at), pf_base = base, pf_param_index = i \<rparr>)"
  have named: "ri_name (in_interner si) (number_of si v) = Some v" if "pd_flow si ?ms ?seeds (v, base, t)" for v base t
    using flow_member [OF that seeds] assms(2) interned_name(2) [OF assms(1)] by simp
  have facts: "those (map (pd_fact_of (in_interner si)) (pw_visited w)) = Some (map fact (pw_visited w))"
  proof (rule those_total)
    fix st
    assume "st \<in> set (pw_visited w)"
    then obtain v base j where "pd_flow si ?ms ?seeds (v, base, TS_ParameterDependent j)" "st = (number_of si v, base, j)"
      unfolding w(2) by (auto simp: pd_state_of_Some)
    then show "pd_fact_of (in_interner si) st = Some (fact st)" by (auto simp: pd_fact_of_def fact_def dest: named)
  qed
  have set_facts: "\<lparr> pf_routine_id = v, pf_base = base, pf_param_index = j \<rparr> \<in> set (sort_pd_facts (map fact (pw_visited w))) \<longleftrightarrow>
      pd_flow si ?ms ?seeds (v, base, TS_ParameterDependent j)" for v base j
  proof
    assume flow: "pd_flow si ?ms ?seeds (v, base, TS_ParameterDependent j)"
    then have "fact (number_of si v, base, j) = \<lparr> pf_routine_id = v, pf_base = base, pf_param_index = j \<rparr>"
      and "pd_state_of si (v, base, TS_ParameterDependent j) = Some (number_of si v, base, j)"
      by (auto simp: fact_def dest: named)
    moreover from this flow have "(number_of si v, base, j) \<in> set (pw_visited w)" unfolding w(2) by blast
    ultimately show "\<lparr> pf_routine_id = v, pf_base = base, pf_param_index = j \<rparr> \<in> set (sort_pd_facts (map fact (pw_visited w)))"
      by (force simp: sort_pd_facts_def)
  next
    assume "\<lparr> pf_routine_id = v, pf_base = base, pf_param_index = j \<rparr> \<in> set (sort_pd_facts (map fact (pw_visited w)))"
    then obtain st where "st \<in> set (pw_visited w)" "fact st = \<lparr> pf_routine_id = v, pf_base = base, pf_param_index = j \<rparr>"
      by (force simp: sort_pd_facts_def)
    then obtain v' base' j' where "pd_flow si ?ms ?seeds (v', base', TS_ParameterDependent j')"
        "fact (number_of si v', base', j') = \<lparr> pf_routine_id = v, pf_base = base, pf_param_index = j \<rparr>"
      unfolding w(2) by (auto simp: pd_state_of_Some)
    then show "pd_flow si ?ms ?seeds (v, base, TS_ParameterDependent j)" using named by (auto simp: fact_def)
  qed
  have set_terms: "\<lparr> te_routine_id = v, te_base = base, te_temp = k \<rparr> \<in> set (sort_terminals (pw_terminals w)) \<longleftrightarrow>
      (\<forall>j. k \<noteq> ParameterDependent j) \<and> pd_flow si ?ms ?seeds (v, base, kind_to_temp_state k)" for v base k
    unfolding sort_terminals_def set_sort w(3) mem_Collect_eq emission_of_iff by blast
  show thesis
    by (rule that [OF _ set_facts set_terms]) (simp add: solve_pd_reachability_def seeded w(1) facts)
qed

section \<open>Effective components are components\<close>

lemma children_induced:
  "children (induced_graph g kept) m = (if m \<in> set kept then filter (\<lambda>to. to \<in> set kept) (map ce_to (out_edges g m)) else [])"
  by (simp add: children_def induced_graph_def)

lemma components_sorted:
  assumes "components_ok g raw"
  shows "components_ok g (map sort raw)"
proof -
  have m: "mset (concat (map sort xss)) = mset (concat xss)" for xss :: "string list list"
    by (induction xss) simp_all
  have s: "set (concat (map sort xss)) = set (concat xss)" for xss :: "string list list"
    by simp
  have "distinct (concat (map sort raw))" using assms mset_eq_imp_distinct_iff [OF m [of raw]] by (simp add: components_ok_def)
  moreover have "set (concat (take k (map sort raw))) = set (concat (take k raw))" for k
    by (simp only: take_map s)
  moreover have "sort ms \<noteq> []" if "ms \<noteq> []" for ms :: "string list"
    using that by (metis mset_sort mset_zero_iff)
  ultimately show ?thesis using assms by (simp add: components_ok_def)
qed

text \<open>
  The pieces of a component: the strongly connected components of the graph its kept members induce,
  callees first.
\<close>

definition pieces_ok :: "primary_graph \<Rightarrow> string list \<Rightarrow> scc list \<Rightarrow> bool" where
  "pieces_ok g kept effs \<longleftrightarrow>
     components_ok (induced_graph g kept) (map members effs) \<and> set (concat (map members effs)) = set kept"

lemma effective_pieces:
  obtains effs where "effective_sccs c g P = Some effs" "pieces_ok g (filter P (members c)) effs"
proof (cases "filter P (members c) = []")
  case True
  show thesis by (rule that [of "[]"]) (use True in \<open>simp_all add: effective_sccs_def pieces_ok_def components_ok_def\<close>)
next
  case False
  let ?kept = "filter P (members c)"
  let ?g = "induced_graph g ?kept"
  have finite: "finite (dom (edges_by_from ?g))"
    by (rule finite_subset [of _ "set ?kept"]) (auto simp: induced_graph_def dom_def split: if_splits)
  obtain raw where raw: "tarjan_scc ?g = Some (assemble ?g raw \<lparr> sccs = [], scc_id_by_routine = Map.empty \<rparr>)"
    "components_ok ?g raw" "set (concat raw) = reachable ?g" using tarjan_scc_result [OF finite] .
  have "reachable ?g = set ?kept"
  proof
    have roots: "nodes ?g = ?kept" by (simp add: induced_graph_def)
    show "set ?kept \<subseteq> reachable ?g"
      unfolding reachable_def roots by (rule subsetI) (rule ImageI [OF rtrancl_refl])
    have step: "(v, w) \<in> edge (induced_graph g kept) \<Longrightarrow> w \<in> set kept" for v w kept
      unfolding edge_iff children_induced by (simp split: if_splits)
    have closed: "(u, v) \<in> (edge ?g)\<^sup>* \<Longrightarrow> u \<in> set ?kept \<Longrightarrow> v \<in> set ?kept" for u v
      by (induction rule: rtrancl_induct) (assumption, erule step)
    show "reachable ?g \<subseteq> set ?kept"
    proof
      fix v
      assume "v \<in> reachable ?g"
      then obtain u where "u \<in> set ?kept" "(u, v) \<in> (edge ?g)\<^sup>*" unfolding reachable_def roots by (elim ImageE)
      then show "v \<in> set ?kept" by (rule closed [rotated])
    qed
  qed
  moreover have "map members (map (component ?g) raw) = map sort raw" by (simp add: component_def Let_def)
  moreover have "set (concat (map sort raw)) = set (concat raw)" by simp
  ultimately have pieces: "pieces_ok g ?kept (map (component ?g) raw)"
    unfolding pieces_ok_def using raw(2,3) components_sorted by metis
  have "effective_sccs c g P = Some (map (component ?g) raw)"
    using False raw(1) by (simp only: effective_sccs_def Let_def if_False option.map assemble_sccs scc_result.simps append_Nil)
  from that [OF this pieces] show thesis .
qed

end
