(* ===== verification/Effect_Union.thy ===== *)
theory Effect_Union
  imports Pd_Reach
begin

text \<open>
  The effects of one effective component (\<open>src/src/engine/l4/db_effect_solver.rs\<close>, steps B to D): the
  union of the terminal effects all members share, each member's parameter-dependent effects, and
  the way each effect reaches a member, recomputed from one hop over the final presence.
\<close>

section \<open>Presence\<close>

record scc_presence =
  sp_terminal_union :: "u64 list"
  sp_pd_by_member :: "u32 \<rightharpoonup> u64 list"

definition member_present :: "scc_presence \<Rightarrow> u32 \<Rightarrow> u32 \<Rightarrow> bool" where
  "member_present p m i \<longleftrightarrow>
     has_bit (sp_terminal_union p) i \<or> (case sp_pd_by_member p m of None \<Rightarrow> False | Some pd \<Rightarrow> has_bit pd i)"

definition member_present_ids :: "scc_presence \<Rightarrow> u32 \<Rightarrow> u32 list" where
  "member_present_ids p m =
     iter_set_bits (sp_terminal_union p) @ (case sp_pd_by_member p m of None \<Rightarrow> [] | Some pd \<Rightarrow> iter_set_bits pd)"

text \<open>\<open>let id = universe.intern(&identity); set_bit(bits, id)\<close>.\<close>

definition intern_bit :: "effect_identity \<Rightarrow> universe \<times> u64 list \<Rightarrow> universe \<times> u64 list" where
  "intern_bit e = (\<lambda>(u, bits). case uni_intern e u of (i, u') \<Rightarrow> (u', set_bit_at bits i))"

definition make_identity :: "base_id \<Rightarrow> temp_state_kind \<Rightarrow> effect_identity" where
  "make_identity base k =
     (case base of (op, table_id, operation_id) \<Rightarrow>
        \<lparr> ei_op = op, ei_table_id = table_id, ei_operation_id = operation_id, ei_temp = k \<rparr>)"

definition intern_terminal_db_effect :: "db_effect \<Rightarrow> universe \<times> u64 list \<Rightarrow> universe \<times> u64 list" where
  "intern_terminal_db_effect e s =
     (case de_temp_state e of
        TS_Known v \<Rightarrow> intern_bit (make_identity (effect_base e) (Known v)) s
      | TS_Unknown \<Rightarrow> intern_bit (make_identity (effect_base e) UnknownTemp) s
      | TS_ParameterDependent _ \<Rightarrow> s)"

text \<open>A member's own effects: its base summary, recomputed where the map has none.\<close>

definition own_db_effects :: "solver_inputs \<Rightarrow> string \<Rightarrow> db_effect list" where
  "own_db_effects si m =
     (case in_base si m of
        Some b \<Rightarrow> sm_db_effects b
      | None \<Rightarrow> (case in_routines si m of Some r \<Rightarrow> sm_db_effects (base_intraprocedural_summary r) | None \<Rightarrow> []))"

definition union_own :: "solver_inputs \<Rightarrow> string list \<Rightarrow> universe \<times> u64 list \<Rightarrow> universe \<times> u64 list" where
  "union_own si ms s = fold (\<lambda>m. fold intern_terminal_db_effect (own_db_effects si m)) ms s"

definition union_settled_edge :: "solver_inputs \<Rightarrow> string list \<Rightarrow> bundle_builder \<Rightarrow> combined_edge \<Rightarrow> u64 list \<Rightarrow> u64 list" where
  "union_settled_edge si ms db ed c =
     (if ce_to ed \<in> set ms then c
      else
        (case ri_get (in_interner si) (ce_to ed) of
           None \<Rightarrow> c
         | Some to_ix \<Rightarrow> if has_raw_row db to_ix then or_bits c (terminal_bits db to_ix) else c))"

definition union_settled :: "solver_inputs \<Rightarrow> string list \<Rightarrow> bundle_builder \<Rightarrow> u64 list \<Rightarrow> u64 list" where
  "union_settled si ms db c = fold (\<lambda>m. fold (union_settled_edge si ms db) (out_edges (in_graph si) m)) ms c"

definition union_emissions :: "terminal_emission list \<Rightarrow> universe \<times> u64 list \<Rightarrow> universe \<times> u64 list" where
  "union_emissions terms s = fold (\<lambda>t. intern_bit (make_identity (te_base t) (te_temp t))) terms s"

definition member_pd :: "pd_fact list \<Rightarrow> string \<Rightarrow> universe \<Rightarrow> universe \<times> u64 list" where
  "member_pd facts m u =
     fold (\<lambda>f. intern_bit (make_identity (pf_base f) (ParameterDependent (pf_param_index f))))
       (filter (\<lambda>f. pf_routine_id f = m) facts) (u, [])"

definition add_member_pd ::
  "solver_inputs \<Rightarrow> pd_fact list \<Rightarrow> string \<Rightarrow> universe \<times> (u32 \<rightharpoonup> u64 list) \<Rightarrow> (universe \<times> (u32 \<rightharpoonup> u64 list)) option" where
  "add_member_pd si facts m = (\<lambda>(u, by_member).
     do { m_ix \<leftarrow> ri_get (in_interner si) m;
          (case member_pd facts m u of (u, bits) \<Rightarrow> Some (u, by_member(m_ix \<mapsto> bits))) })"

definition closed_form_union ::
  "scc \<Rightarrow> solver_inputs \<Rightarrow> bundle_builder \<Rightarrow> pd_fact list \<Rightarrow> terminal_emission list \<Rightarrow> universe \<Rightarrow> (scc_presence \<times> universe) option" where
  "closed_form_union eff si db facts terms u =
     (let ms = members eff;
          (u, c) = union_own si ms (u, []);
          c = union_settled si ms db c;
          (u, c) = union_emissions terms (u, c)
      in do { (u, by_member) \<leftarrow> try_fold (add_member_pd si facts) ms (u, Map.empty);
              Some (\<lparr> sp_terminal_union = c, sp_pd_by_member = by_member \<rparr>, u) })"

section \<open>The way an effect reaches a member\<close>

type_synonym via_map = "u32 \<times> u32 \<rightharpoonup> via"

definition merge_via_into :: "u32 \<Rightarrow> u32 \<Rightarrow> via \<Rightarrow> via_map \<Rightarrow> via_map" where
  "merge_via_into m i via vm =
     vm((m, i) \<mapsto> (case vm (m, i) of Some existing \<Rightarrow> if via \<le> existing then existing else via | None \<Rightarrow> via))"

definition edge_via :: "combined_edge \<Rightarrow> via" where
  "edge_via ed = via_from_str (via_for_edge_kind (ce_kind ed))"

text \<open>The presence bitsets by rank, an array over \<open>ViaRank\<close>; the floor rank is never filled.\<close>

type_synonym rank_bits = "via \<Rightarrow> u64 list"

definition base_rank_bits :: "solver_inputs \<Rightarrow> universe \<Rightarrow> string \<Rightarrow> rank_bits \<Rightarrow> rank_bits" where
  "base_rank_bits si u m rb =
     (case in_base si m of
        None \<Rightarrow> rb
      | Some b \<Rightarrow>
          fold (\<lambda>e rb.
            (case uni_get u (make_identity (effect_base e) (to_kind (de_temp_state e))) of
               None \<Rightarrow> rb
             | Some i \<Rightarrow> rb(Direct := set_bit_at (rb Direct) i)))
            (sm_db_effects b) rb)"

definition edge_rank_bits :: "solver_inputs \<Rightarrow> string list \<Rightarrow> scc_presence \<Rightarrow> bundle_builder \<Rightarrow> combined_edge \<Rightarrow> rank_bits \<Rightarrow> rank_bits" where
  "edge_rank_bits si ms p db ed rb =
     (let via = edge_via ed in
      if via = Inherited then rb
      else if ce_to ed \<in> set ms then rb(via := or_bits (rb via) (sp_terminal_union p))
      else
        (case ri_get (in_interner si) (ce_to ed) of
           None \<Rightarrow> rb
         | Some to_ix \<Rightarrow> if has_raw_row db to_ix then rb(via := or_bits (rb via) (terminal_bits db to_ix)) else rb))"

definition RANKED :: "via list" where
  "RANKED = [Direct, ImplicitTrigger, EventSubscriber, Dynamic]"

definition derive_via :: "rank_bits \<Rightarrow> u32 \<Rightarrow> u32 \<Rightarrow> via_map \<Rightarrow> via_map" where
  "derive_via rb m_ix i vm =
     (case List.find (\<lambda>r. has_bit (rb r) i) RANKED of None \<Rightarrow> vm | Some via \<Rightarrow> vm((m_ix, i) \<mapsto> via))"

definition member_rank_bits :: "solver_inputs \<Rightarrow> string list \<Rightarrow> scc_presence \<Rightarrow> bundle_builder \<Rightarrow> universe \<Rightarrow> string \<Rightarrow> rank_bits" where
  "member_rank_bits si ms p db u m =
     fold (edge_rank_bits si ms p db) (out_edges (in_graph si) m) (base_rank_bits si u m (\<lambda>_. []))"

definition reconstruct_member :: "solver_inputs \<Rightarrow> string list \<Rightarrow> scc_presence \<Rightarrow> bundle_builder \<Rightarrow> universe \<Rightarrow> string \<Rightarrow> via_map \<Rightarrow> via_map option" where
  "reconstruct_member si ms p db u m vm =
     do { m_ix \<leftarrow> ri_get (in_interner si) m;
          Some (fold (derive_via (member_rank_bits si ms p db u m) m_ix) (member_present_ids p m_ix) vm) }"

definition reconstruct_via :: "scc \<Rightarrow> solver_inputs \<Rightarrow> scc_presence \<Rightarrow> bundle_builder \<Rightarrow> universe \<Rightarrow> via_map option" where
  "reconstruct_via eff si p db u = try_fold (reconstruct_member si (members eff) p db u) (members eff) Map.empty"

text \<open>
  The images of the callees' parameter-dependent effects, which the pass above leaves out.
\<close>

definition push_pd :: "universe \<Rightarrow> u32 \<Rightarrow> (base_id \<times> u32) list \<Rightarrow> (base_id \<times> u32) list option" where
  "push_pd u i acc =
     do { e \<leftarrow> uni_identity u i;
          Some (case ei_temp e of ParameterDependent j \<Rightarrow> acc @ [(identity_base e, j)] | _ \<Rightarrow> acc) }"

definition callee_pd :: "solver_inputs \<Rightarrow> string list \<Rightarrow> scc_presence \<Rightarrow> bundle_builder \<Rightarrow> universe \<Rightarrow> combined_edge \<Rightarrow> (base_id \<times> u32) list option" where
  "callee_pd si ms p db u ed =
     (if ce_to ed \<in> set ms then
        do { to_ix \<leftarrow> ri_get (in_interner si) (ce_to ed);
             (case sp_pd_by_member p to_ix of
                None \<Rightarrow> Some []
              | Some bits \<Rightarrow> try_fold (push_pd u) (iter_set_bits bits) []) }
      else
        (case ri_get (in_interner si) (ce_to ed) of
           None \<Rightarrow> Some []
         | Some to_ix \<Rightarrow> if has_raw_row db to_ix then try_fold (push_pd u) (pd_ids db to_ix) [] else Some []))"

definition attribute_image ::
  "solver_inputs \<Rightarrow> scc_presence \<Rightarrow> universe \<Rightarrow> u32 \<Rightarrow> model_routine \<Rightarrow> combined_edge \<Rightarrow> base_id \<times> u32 \<Rightarrow> via_map \<Rightarrow> via_map" where
  "attribute_image si p u m_ix caller ed = (\<lambda>(base, pd_index) vm.
     (let outcome = substitute_pd_temp_state ed pd_index caller (in_routines si (ce_to ed)) in
      case uni_get u (make_identity base (to_kind outcome)) of
        None \<Rightarrow> vm
      | Some i \<Rightarrow> if member_present p m_ix i then merge_via_into m_ix i (edge_via ed) vm else vm))"

definition attribute_edge ::
  "solver_inputs \<Rightarrow> string list \<Rightarrow> scc_presence \<Rightarrow> bundle_builder \<Rightarrow> universe \<Rightarrow> u32 \<Rightarrow> model_routine \<Rightarrow> combined_edge \<Rightarrow> via_map \<Rightarrow> via_map option" where
  "attribute_edge si ms p db u m_ix caller ed vm =
     do { pds \<leftarrow> callee_pd si ms p db u ed;
          Some (fold (attribute_image si p u m_ix caller ed) pds vm) }"

definition attribute_member ::
  "solver_inputs \<Rightarrow> string list \<Rightarrow> scc_presence \<Rightarrow> bundle_builder \<Rightarrow> universe \<Rightarrow> string \<Rightarrow> via_map \<Rightarrow> via_map option" where
  "attribute_member si ms p db u m vm =
     do { m_ix \<leftarrow> ri_get (in_interner si) m;
          (case in_routines si m of
             None \<Rightarrow> Some vm
           | Some caller \<Rightarrow> try_fold (attribute_edge si ms p db u m_ix caller) (out_edges (in_graph si) m) vm) }"

definition attribute_pd_substituted_via :: "scc \<Rightarrow> solver_inputs \<Rightarrow> scc_presence \<Rightarrow> bundle_builder \<Rightarrow> universe \<Rightarrow> via_map \<Rightarrow> via_map option" where
  "attribute_pd_substituted_via eff si p db u vm = try_fold (attribute_member si (members eff) p db u) (members eff) vm"

section \<open>Rows\<close>

definition materialize_member_row :: "u32 \<Rightarrow> scc_presence \<Rightarrow> via_map \<Rightarrow> u32 \<Rightarrow> bundle_builder \<Rightarrow> bundle_builder" where
  "materialize_member_row m_ix p vm terminal_set db =
     (let via_of = (\<lambda>i. unwrap_or Inherited (vm (m_ix, i)));
          base_via = map via_of (iter_set_bits (sp_terminal_union p));
          pd_delta = (case sp_pd_by_member p m_ix of None \<Rightarrow> [] | Some bits \<Rightarrow> iter_set_bits bits)
      in push_row m_ix terminal_set base_via pd_delta (map via_of pd_delta) db)"

definition write_row :: "solver_inputs \<Rightarrow> scc_presence \<Rightarrow> via_map \<Rightarrow> u32 \<Rightarrow> string \<Rightarrow> bundle_builder \<Rightarrow> bundle_builder option" where
  "write_row si p vm terminal_set m db =
     do { m_ix \<leftarrow> ri_get (in_interner si) m; Some (materialize_member_row m_ix p vm terminal_set db) }"

text \<open>The database part of one effective component: flow, union, ways, rows.\<close>

definition solve_effects :: "scc \<Rightarrow> solver_inputs \<Rightarrow> universe \<times> bundle_builder \<Rightarrow> (universe \<times> bundle_builder) option" where
  "solve_effects eff si = (\<lambda>(u, db).
     do { (facts, terms) \<leftarrow> solve_pd_reachability eff si db u;
          (p, u) \<leftarrow> closed_form_union eff si db facts terms u;
          vm \<leftarrow> reconstruct_via eff si p db u;
          vm \<leftarrow> attribute_pd_substituted_via eff si p db u vm;
          (case push_terminal_set (sp_terminal_union p) db of (terminal_set, db) \<Rightarrow>
             do { db \<leftarrow> try_fold (write_row si p vm terminal_set) (members eff) db;
                  Some (u, db) }) })"

text \<open>A row seeded from settled effects, each with its own way: fixed leaves and baseline rows.\<close>

definition seed_effect ::
  "effect_identity \<times> via \<Rightarrow> universe \<times> u64 list \<times> u64 list \<times> (u32 \<rightharpoonup> via) \<Rightarrow> universe \<times> u64 list \<times> u64 list \<times> (u32 \<rightharpoonup> via)" where
  "seed_effect = (\<lambda>(e, via) (u, terminal, pd, via_of).
     (case uni_intern e u of (i, u) \<Rightarrow>
        (case ei_temp e of
           ParameterDependent _ \<Rightarrow> (u, terminal, set_bit_at pd i, via_of(i \<mapsto> via))
         | _ \<Rightarrow> (u, set_bit_at terminal i, pd, via_of(i \<mapsto> via)))))"

definition seed_row :: "u32 \<Rightarrow> (effect_identity \<times> via) list \<Rightarrow> universe \<times> bundle_builder \<Rightarrow> universe \<times> bundle_builder" where
  "seed_row r_ix effects = (\<lambda>(u, db).
     (case fold seed_effect effects (u, [], [], Map.empty) of (u, terminal, pd, via_of) \<Rightarrow>
        (let via_lookup = (\<lambda>i. unwrap_or Inherited (via_of i));
             base_via = map via_lookup (iter_set_bits terminal);
             pd_delta = iter_set_bits pd
         in (case push_terminal_set terminal db of (set_ref, db) \<Rightarrow>
               (u, push_row r_ix set_ref base_via pd_delta (map via_lookup pd_delta) db)))))"

definition leaf_effects :: "routine_summary \<Rightarrow> (effect_identity \<times> via) list" where
  "leaf_effects s =
     map (\<lambda>e. (make_identity (effect_base e) (to_kind (de_temp_state e)), via_from_str (de_via e))) (sm_db_effects s)"

definition seed_leaf_row :: "routine_interner \<Rightarrow> string \<times> routine_summary \<Rightarrow> universe \<times> bundle_builder \<Rightarrow> universe \<times> bundle_builder" where
  "seed_leaf_row ri = (\<lambda>(rid, summary) s.
     (case ri_get ri rid of None \<Rightarrow> s | Some r_ix \<Rightarrow> seed_row r_ix (leaf_effects summary) s))"

text \<open>The leaves come out of a hash map: their order is an argument.\<close>

definition seed_fixed_leaf_rows :: "(string \<times> routine_summary) list \<Rightarrow> routine_interner \<Rightarrow> universe \<times> bundle_builder \<Rightarrow> universe \<times> bundle_builder" where
  "seed_fixed_leaf_rows leaf_summaries ri s = fold (seed_leaf_row ri) leaf_summaries s"

end
