(* ===== verification/Effect_Flow.thy ===== *)
theory Effect_Flow
  imports Effect_Union
begin

text \<open>
  What the solver promises: the least assignment of effects to routines that holds the routines' own
  effects and is closed under carrying the callees' effects over the edges, and the best way an
  effect reaches a routine in one step. The passes of one effective component are proved to compute
  it from the rows of the callees outside the component.
\<close>

section \<open>The effects bitsets stand for\<close>

definition effs :: "universe \<Rightarrow> u64 list \<Rightarrow> effect_identity set" where
  "effs u bits = {e. \<exists>i. uni_get u e = Some i \<and> has_bit bits i}"

definition bits_known :: "universe \<Rightarrow> u64 list \<Rightarrow> bool" where
  "bits_known u bits \<longleftrightarrow> bits_fit bits \<and> (\<forall>i. has_bit bits i \<longrightarrow> unat i < uni_len u)"

text \<open>A universe only grows, and keeps the ids it gave.\<close>

definition uni_grows :: "universe \<Rightarrow> universe \<Rightarrow> bool" where
  "uni_grows u u' \<longleftrightarrow> uni_len u \<le> uni_len u' \<and> (\<forall>e i. uni_get u e = Some i \<longrightarrow> uni_get u' e = Some i)"

lemma uni_grows_refl [simp]: "uni_grows u u"
  by (simp add: uni_grows_def)

lemma uni_grows_trans: "uni_grows u v \<Longrightarrow> uni_grows v w \<Longrightarrow> uni_grows u w"
  by (auto simp: uni_grows_def)

lemma id_identity:
  assumes "uni_ok u" "unat i < uni_len u"
  obtains e where "uni_identity u i = Some e" "uni_get u e = Some i"
  using assms by (auto simp: uni_ok_def table_ok_def uni_identity_def uni_get_def uni_len_def)

lemma identity_get: "uni_ok u \<Longrightarrow> uni_identity u i = Some e \<longleftrightarrow> uni_get u e = Some i"
  using effect_ids.name_get [of u e i] effect_ids.id_bound [of u e i]
  by (auto simp: uni_identity_def uni_len_def uni_ok_def table_ok_def uni_get_def split: if_splits)

lemma uni_grows_identity: "uni_ok u \<Longrightarrow> uni_ok u' \<Longrightarrow> uni_grows u u' \<Longrightarrow> uni_identity u i = Some e \<Longrightarrow> uni_identity u' i = Some e"
  by (simp add: identity_get uni_grows_def)

lemma known_grows: "bits_known u bits \<Longrightarrow> uni_grows u u' \<Longrightarrow> bits_known u' bits"
  by (auto simp: bits_known_def uni_grows_def dest: order_less_le_trans)

lemma effs_grows:
  assumes "uni_ok u" "uni_ok u'" "uni_grows u u'" "bits_known u bits"
  shows "effs u' bits = effs u bits"
proof
  show "effs u bits \<subseteq> effs u' bits" using assms(3) by (auto simp: effs_def uni_grows_def)
  show "effs u' bits \<subseteq> effs u bits"
  proof
    fix e
    assume "e \<in> effs u' bits"
    then obtain i where i: "uni_get u' e = Some i" "has_bit bits i" by (auto simp: effs_def)
    then have "unat i < uni_len u" using assms(4) by (simp add: bits_known_def)
    then obtain e' where e': "uni_get u e' = Some i" using id_identity [OF assms(1)] by blast
    then have "uni_get u' e' = Some i" using assms(3) by (simp add: uni_grows_def)
    then have "e' = e" using effect_ids.ids_injective [OF assms(2)] i(1) by blast
    with e' i(2) show "e \<in> effs u bits" by (auto simp: effs_def)
  qed
qed

lemma effs_bit:
  assumes "uni_ok u" "bits_known u bits"
  shows "has_bit bits i \<longleftrightarrow> (\<exists>e \<in> effs u bits. uni_get u e = Some i)"
proof
  assume u: "has_bit bits i"
  then obtain e where "uni_get u e = Some i" using assms id_identity [of u i] by (auto simp: bits_known_def)
  with u show "\<exists>e \<in> effs u bits. uni_get u e = Some i" unfolding effs_def by blast
qed (auto simp: effs_def)

lemma not_has_bit_Nil [simp]: "\<not> has_bit [] i"
  by (simp add: has_bit_def)

lemma bits_known_Nil [simp]: "bits_known u []" "effs u [] = {}"
  by (simp_all add: bits_known_def bits_fit_def effs_def)

lemma bits_known_or: "bits_known u a \<Longrightarrow> bits_known u b \<Longrightarrow> bits_known u (or_bits a b)"
  by (auto simp: bits_known_def has_bit_or)

lemma effs_or [simp]: "effs u (or_bits a b) = effs u a \<union> effs u b"
  by (auto simp: effs_def has_bit_or)

lemma effs_iter: "bits_known u bits \<Longrightarrow> set (iter_set_bits bits) = {i. has_bit bits i}"
  by (simp add: iter_props(3) bits_known_def)

text \<open>Interning an effect and setting its bit.\<close>

lemma intern_bit_len: "uni_len (fst s) \<le> uni_len (fst (intern_bit e s))"
  by (auto simp: intern_bit_def uni_intern_def uni_len_def Let_def split: prod.split option.split)

lemma intern_bits_len: "uni_len (fst s) \<le> uni_len (fst (fold intern_bit es s))"
proof (induction es arbitrary: s)
  case (Cons e es)
  then show ?case using intern_bit_len [of s e] by (simp del: split_paired_All) (rule order_trans)
qed simp

lemma intern_grows: "uni_ok u \<Longrightarrow> uni_grows u (snd (uni_intern e u))"
  using effect_ids.get_kept [of u] effect_ids.count_intern [of u e] by (auto simp: uni_grows_def)

lemma intern_ok: "uni_ok u \<Longrightarrow> uni_len (snd (uni_intern e u)) < 2 ^ 32 \<Longrightarrow> uni_ok (snd (uni_intern e u))"
  using effect_ids.ok_intern [of u e] intern_grows [of u e] by (auto simp: uni_grows_def)

lemma intern_bit_spec:
  assumes "uni_ok u" "bits_known u bits" "intern_bit e (u, bits) = (u', bits')" "uni_len u' < 2 ^ 32"
  shows "uni_ok u' \<and> uni_grows u u' \<and> bits_known u' bits' \<and> effs u' bits' = insert e (effs u bits)"
proof -
  obtain i where i: "uni_intern e u = (i, u')" "bits' = set_bit_at bits i"
    using assms(3) by (auto simp: intern_bit_def split: prod.splits)
  have ok: "uni_ok u'" and g: "uni_grows u u'" using intern_ok [OF assms(1)] intern_grows [OF assms(1)] i assms(4) by (metis snd_conv)+
  have get: "uni_get u' e = Some i" using effect_ids.get_intern [OF assms(1), of e] i by simp
  then have "unat i < uni_len u'" using effect_ids.id_bound [OF ok] by blast
  then have known: "bits_known u' bits'"
    using known_grows [OF assms(2) g] i(2) by (auto simp: bits_known_def has_bit_set)
  have "uni_get u' x = Some i \<longleftrightarrow> x = e" for x using get effect_ids.ids_injective [OF ok _ get] by blast
  then have "effs u' bits' = insert e (effs u' bits)" by (auto simp: effs_def i(2) has_bit_set)
  with effs_grows [OF assms(1) ok g assms(2)] ok g known show ?thesis by simp
qed

lemma intern_bits_spec:
  assumes "uni_ok u" "bits_known u bits" "fold intern_bit es (u, bits) = (u', bits')" "uni_len u' < 2 ^ 32"
  shows "uni_ok u' \<and> uni_grows u u' \<and> bits_known u' bits' \<and> effs u' bits' = set es \<union> effs u bits"
  using assms
proof (induction es arbitrary: u bits)
  case (Cons e es)
  obtain v b where v: "intern_bit e (u, bits) = (v, b)" by fastforce
  then have rest: "fold intern_bit es (v, b) = (u', bits')" using Cons.prems(3) by simp
  have "uni_len v < 2 ^ 32" using intern_bits_len [of "(v, b)" es] rest Cons.prems(4) by simp
  note one = intern_bit_spec [OF Cons.prems(1,2) v this]
  then show ?case using Cons.IH [OF _ _ rest Cons.prems(4)] by (auto intro: uni_grows_trans)
qed simp

section \<open>The closed form of a component\<close>

definition terminal :: "effect_identity \<Rightarrow> bool" where
  "terminal e \<longleftrightarrow> (\<forall>j. ei_temp e \<noteq> ParameterDependent j)"

definition own_identity :: "db_effect \<Rightarrow> effect_identity" where
  "own_identity e = make_identity (effect_base e) (to_kind (de_temp_state e))"

definition own_identities :: "solver_inputs \<Rightarrow> string \<Rightarrow> effect_identity set" where
  "own_identities si m = own_identity ` set (own_db_effects si m)"

lemma temp_make_identity [simp]: "ei_temp (make_identity base k) = k" "identity_base (make_identity base k) = base"
  "make_identity (identity_base e) (ei_temp e) = e"
  by (cases base; simp add: make_identity_def identity_base_def)+

lemma terminal_own: "terminal (own_identity e) \<longleftrightarrow> (\<forall>j. de_temp_state e \<noteq> TS_ParameterDependent j)"
  by (simp add: terminal_def own_identity_def)

lemma intern_terminal_effects:
  "fold intern_terminal_db_effect es s = fold intern_bit (filter terminal (map own_identity es)) s"
  by (induction es arbitrary: s)
    (auto simp: intern_terminal_db_effect_def terminal_def own_identity_def split: temp_state.split)

lemma fold_concat_map: "fold (\<lambda>m. fold f (g m)) ms s = fold f (concat (map g ms)) s"
  by (induction ms arbitrary: s) auto

lemma filter_map_concat: "filter P (map f (concat (map g ms))) = concat (map (\<lambda>m. filter P (map f (g m))) ms)"
  by (induction ms) auto

lemma union_own_fold:
  "union_own si ms s = fold intern_bit (concat (map (\<lambda>m. filter terminal (map own_identity (own_db_effects si m))) ms)) s"
  unfolding union_own_def fold_concat_map intern_terminal_effects filter_map_concat ..

lemma union_emissions_fold:
  "union_emissions terms s = fold intern_bit (map (\<lambda>t. make_identity (te_base t) (te_temp t)) terms) s"
  by (induction terms arbitrary: s) (auto simp: union_emissions_def)

lemma member_pd_fold:
  "member_pd facts m u = fold intern_bit (map (\<lambda>f. make_identity (pf_base f) (ParameterDependent (pf_param_index f)))
     (filter (\<lambda>f. pf_routine_id f = m) facts)) (u, [])"
proof -
  have "fold (\<lambda>f. intern_bit (g f)) fs s = fold intern_bit (map g fs) s" for g :: "pd_fact \<Rightarrow> effect_identity" and fs s
    by (induction fs arbitrary: s) auto
  then show ?thesis by (simp add: member_pd_def)
qed

text \<open>The terminal effects a settled callee brings.\<close>

definition settled_terminal :: "solver_inputs \<Rightarrow> bundle_builder \<Rightarrow> universe \<Rightarrow> string \<Rightarrow> effect_identity set" where
  "settled_terminal si db u to =
     (case ri_get (in_interner si) to of None \<Rightarrow> {}
      | Some t \<Rightarrow> if has_raw_row db t then effs u (terminal_bits db t) else {})"

definition rows_bits_known :: "bundle_builder \<Rightarrow> universe \<Rightarrow> bool" where
  "rows_bits_known db u \<longleftrightarrow> (\<forall>t. has_raw_row db t \<longrightarrow> bits_known u (terminal_bits db t))"

lemma union_settled_edges:
  assumes "rows_bits_known db u" "bits_known u c"
  shows "bits_known u (fold (union_settled_edge si ms db) es c) \<and>
    effs u (fold (union_settled_edge si ms db) es c) =
      effs u c \<union> (\<Union>ed \<in> {ed \<in> set es. ce_to ed \<notin> set ms}. settled_terminal si db u (ce_to ed))"
  using assms(2)
proof (induction es arbitrary: c)
  case (Cons ed es)
  have "bits_known u (union_settled_edge si ms db ed c) \<and>
      effs u (union_settled_edge si ms db ed c) =
        effs u c \<union> (if ce_to ed \<in> set ms then {} else settled_terminal si db u (ce_to ed))"
    using Cons.prems assms(1)
    by (auto simp: union_settled_edge_def settled_terminal_def rows_bits_known_def bits_known_or split: option.split)
  with Cons.IH [of "union_settled_edge si ms db ed c"] show ?case by auto
qed simp

lemma union_settled_spec:
  assumes "rows_bits_known db u" "bits_known u c"
  shows "bits_known u (union_settled si ms db c) \<and>
    effs u (union_settled si ms db c) =
      effs u c \<union> (\<Union>m \<in> set ms. \<Union>ed \<in> {ed \<in> set (out_edges (in_graph si) m). ce_to ed \<notin> set ms}. settled_terminal si db u (ce_to ed))"
proof -
  have "union_settled si ms db c = fold (union_settled_edge si ms db) (concat (map (out_edges (in_graph si)) ms)) c"
    by (simp add: union_settled_def fold_concat_map)
  with union_settled_edges [OF assms, of si ms "concat (map (out_edges (in_graph si)) ms)"] show ?thesis by auto
qed

definition fact_identities :: "pd_fact list \<Rightarrow> string \<Rightarrow> effect_identity set" where
  "fact_identities facts m =
     (\<lambda>f. make_identity (pf_base f) (ParameterDependent (pf_param_index f))) ` {f \<in> set facts. pf_routine_id f = m}"

lemma member_pd_len: "uni_len u \<le> uni_len (fst (member_pd facts m u))"
  unfolding member_pd_fold using intern_bits_len [of "(u, [])"] by simp

lemma add_member_pd_eq:
  assumes "ri_ok (in_interner si)" "interned si m" "member_pd facts m u = (v, bits)"
  shows "add_member_pd si facts m (u, by_member) = Some (v, by_member(number_of si m \<mapsto> bits))"
  using interned_name(1) [OF assms(1,2)] assms(3) by (simp add: add_member_pd_def)

lemma add_members_total:
  assumes "ri_ok (in_interner si)" "\<forall>m \<in> set ms. interned si m"
  shows "\<exists>u' by'. try_fold (add_member_pd si facts) ms (u, by_member) = Some (u', by') \<and> uni_len u \<le> uni_len u'"
  using assms(2)
proof (induction ms arbitrary: u by_member)
  case (Cons m ms)
  obtain v bits where v: "member_pd facts m u = (v, bits)" by fastforce
  then have "uni_len u \<le> uni_len v" using member_pd_len [of u facts m] by simp
  with Cons.IH [of v "by_member(number_of si m \<mapsto> bits)"] Cons.prems add_member_pd_eq [OF assms(1) _ v]
  show ?case by fastforce
qed simp

lemma add_members_pd:
  assumes "ri_ok (in_interner si)" "\<forall>m \<in> set ms. interned si m" "distinct ms" "uni_ok u"
    "try_fold (add_member_pd si facts) ms (u, by_member) = Some (u', by')" "uni_len u' < 2 ^ 32"
  shows "uni_ok u' \<and> uni_grows u u' \<and>
    (\<forall>m \<in> set ms. \<exists>bits. by' (number_of si m) = Some bits \<and> bits_known u' bits \<and> effs u' bits = fact_identities facts m) \<and>
    (\<forall>r. r \<notin> number_of si ` set ms \<longrightarrow> by' r = by_member r)"
  using assms(2-5)
proof (induction ms arbitrary: u by_member)
  case (Cons m ms)
  obtain v bits where v: "member_pd facts m u = (v, bits)" by fastforce
  have rest: "try_fold (add_member_pd si facts) ms (v, by_member(number_of si m \<mapsto> bits)) = Some (u', by')"
    using Cons.prems(1,4) add_member_pd_eq [OF assms(1) _ v] by simp
  have "uni_len v < 2 ^ 32"
    using add_members_total [OF assms(1), of ms facts v "by_member(number_of si m \<mapsto> bits)"] Cons.prems(1) rest assms(6) by auto
  with intern_bits_spec [OF Cons.prems(3) bits_known_Nil(1) v [unfolded member_pd_fold]]
  have first: "uni_ok v" "uni_grows u v" "bits_known v bits" "effs v bits = fact_identities facts m"
    by (auto simp: fact_identities_def)
  note IH = Cons.IH [OF _ _ first(1) rest]
  have "number_of si m \<notin> number_of si ` set ms"
    using Cons.prems(1,2) number_inj [OF assms(1)] by auto
  then have "by' (number_of si m) = Some bits" using IH Cons.prems(1,2) by simp
  moreover have "bits_known u' bits" "effs u' bits = fact_identities facts m"
    using IH Cons.prems(1,2) first known_grows [of v bits u'] effs_grows [of v u' bits] by auto
  ultimately show ?case using IH Cons.prems(1,2) uni_grows_trans [OF first(2), of u'] by auto
qed simp

definition outer_edges :: "solver_inputs \<Rightarrow> string list \<Rightarrow> string \<Rightarrow> combined_edge list" where
  "outer_edges si ms m = filter (\<lambda>ed. ce_to ed \<notin> set ms) (out_edges (in_graph si) m)"

text \<open>The terminal effects of a component: its own, its settled callees', and the emissions.\<close>

definition union_effects :: "solver_inputs \<Rightarrow> string list \<Rightarrow> bundle_builder \<Rightarrow> terminal_emission list \<Rightarrow> universe \<Rightarrow> effect_identity set" where
  "union_effects si ms db terms u =
     (\<Union>m \<in> set ms. {e \<in> own_identities si m. terminal e}) \<union>
     (\<Union>m \<in> set ms. \<Union>ed \<in> set (outer_edges si ms m). settled_terminal si db u (ce_to ed)) \<union>
     (\<lambda>t. make_identity (te_base t) (te_temp t)) ` set terms"

lemma rows_bits_grow: "rows_bits_known db u \<Longrightarrow> uni_grows u u' \<Longrightarrow> rows_bits_known db u'"
  by (auto simp: rows_bits_known_def intro: known_grows)

lemma settled_terminal_grow:
  "uni_ok u \<Longrightarrow> uni_ok u' \<Longrightarrow> uni_grows u u' \<Longrightarrow> rows_bits_known db u \<Longrightarrow> settled_terminal si db u' to = settled_terminal si db u to"
  using effs_grows [of u u'] by (auto simp: settled_terminal_def rows_bits_known_def split: option.split)

lemma union_lens:
  "union_own si ms s = (u1, c1) \<Longrightarrow> uni_len (fst s) \<le> uni_len u1"
  "union_emissions terms s = (u2, c2) \<Longrightarrow> uni_len (fst s) \<le> uni_len u2"
  unfolding union_own_fold union_emissions_fold by (metis intern_bits_len fst_conv)+

lemma closed_form_total:
  assumes "ri_ok (in_interner si)" "\<forall>m \<in> set (members eff). interned si m"
  shows "\<exists>p u'. closed_form_union eff si db facts terms u = Some (p, u') \<and> uni_len u \<le> uni_len u'"
proof -
  let ?ms = "members eff"
  obtain u1 c1 where 1: "union_own si ?ms (u, []) = (u1, c1)" by fastforce
  obtain u2 c2 where 2: "union_emissions terms (u1, union_settled si ?ms db c1) = (u2, c2)" by fastforce
  have "uni_len u \<le> uni_len u1" "uni_len u1 \<le> uni_len u2"
    using union_lens(1) [OF 1] union_lens(2) [OF 2] by simp_all
  with add_members_total [OF assms, of facts u2 Map.empty] show ?thesis
    by (auto simp: closed_form_union_def 1 2)
qed

lemma closed_form_spec:
  assumes ok: "ri_ok (in_interner si)" "\<forall>m \<in> set (members eff). interned si m" "distinct (members eff)"
    and u: "uni_ok u" "rows_bits_known db u"
    and run: "closed_form_union eff si db facts terms u = Some (p, u')" and small: "uni_len u' < 2 ^ 32"
  shows "uni_ok u'" "uni_grows u u'" "bits_known u' (sp_terminal_union p)"
    "effs u' (sp_terminal_union p) = union_effects si (members eff) db terms u"
    "m \<in> set (members eff) \<Longrightarrow> \<exists>bits. sp_pd_by_member p (number_of si m) = Some bits \<and> bits_known u' bits \<and>
      effs u' bits = fact_identities facts m"
proof -
  let ?ms = "members eff"
  obtain u1 c1 where 1: "union_own si ?ms (u, []) = (u1, c1)" by fastforce
  obtain u2 c2 where 2: "union_emissions terms (u1, union_settled si ?ms db c1) = (u2, c2)" by fastforce
  obtain by' where 3: "try_fold (add_member_pd si facts) ?ms (u2, Map.empty) = Some (u', by')"
      "p = \<lparr> sp_terminal_union = c2, sp_pd_by_member = by' \<rparr>"
    using run by (auto simp: closed_form_union_def 1 2 bind_eq_Some_conv)
  have small2: "uni_len u2 < 2 ^ 32" using add_members_total [OF ok(1,2), of facts u2 Map.empty] 3 small by auto
  then have "uni_len u1 < 2 ^ 32"
    using union_lens(2) [OF 2] by simp
  note own = intern_bits_spec [OF u(1) bits_known_Nil(1) 1 [unfolded union_own_fold] this]
  have rows1: "rows_bits_known db u1" using rows_bits_grow [OF u(2)] own by blast
  have "bits_known u1 c1" using own by blast
  note settled = union_settled_spec [OF rows1 this, of si ?ms]
  have known1: "bits_known u1 (union_settled si ?ms db c1)" using settled by blast
  note emitted = intern_bits_spec [OF conjunct1 [OF own] known1 2 [unfolded union_emissions_fold] small2]
  note members = add_members_pd [OF ok(1,2,3) conjunct1 [OF emitted] 3(1) small]
  show "uni_ok u'" using members by blast
  show g: "uni_grows u u'" using own emitted members uni_grows_trans by blast
  show "bits_known u' (sp_terminal_union p)" using members emitted known_grows by (auto simp: 3(2))
  have "effs u' c2 = effs u2 c2" using effs_grows members emitted by blast
  also have "\<dots> = (\<lambda>t. make_identity (te_base t) (te_temp t)) ` set terms \<union> (effs u1 c1 \<union>
      (\<Union>m \<in> set ?ms. \<Union>ed \<in> set (outer_edges si ?ms m). settled_terminal si db u1 (ce_to ed)))"
    using emitted settled by (simp add: outer_edges_def)
  also have "effs u1 c1 = (\<Union>m \<in> set ?ms. {e \<in> own_identities si m. terminal e})"
    using own by (auto simp: own_identities_def)
  also have "(\<lambda>to. settled_terminal si db u1 to) = settled_terminal si db u"
    using settled_terminal_grow [of u u1 db si] own u by blast
  finally show "effs u' (sp_terminal_union p) = union_effects si ?ms db terms u"
    unfolding 3(2) union_effects_def scc_presence.simps by blast
  show "m \<in> set ?ms \<Longrightarrow> \<exists>bits. sp_pd_by_member p (number_of si m) = Some bits \<and> bits_known u' bits \<and>
      effs u' bits = fact_identities facts m"
    using members by (simp add: 3(2))
qed

section \<open>The least solution\<close>

text \<open>
  What an effect of the callee becomes in the caller's frame: a parameter-dependent one is
  substituted, the others stay as they are.
\<close>

definition effect_transfer :: "(string \<rightharpoonup> model_routine) \<Rightarrow> model_routine \<Rightarrow> combined_edge \<Rightarrow> effect_identity \<Rightarrow> effect_identity" where
  "effect_transfer routines r ed e =
     (case ei_temp e of
        ParameterDependent j \<Rightarrow>
          make_identity (identity_base e) (to_kind (substitute_pd_temp_state ed j r (routines (ce_to ed))))
      | _ \<Rightarrow> e)"

inductive may_affect ::
  "primary_graph \<Rightarrow> (string \<rightharpoonup> model_routine) \<Rightarrow> (string \<Rightarrow> bool) \<Rightarrow> (string \<Rightarrow> effect_identity set) \<Rightarrow> string \<Rightarrow> effect_identity \<Rightarrow> bool"
  for g routines solved own where
  own: "e \<in> own v \<Longrightarrow> may_affect g routines solved own v e"
| call: "solved v \<Longrightarrow> routines v = Some r \<Longrightarrow> ed \<in> set (out_edges g v) \<Longrightarrow> may_affect g routines solved own (ce_to ed) e \<Longrightarrow>
    may_affect g routines solved own v (effect_transfer routines r ed e)"

lemma transfer_terminal [simp]: "terminal e \<Longrightarrow> effect_transfer routines r ed e = e"
  by (auto simp: effect_transfer_def terminal_def split: temp_state_kind.split)

lemma transfer_parameter [simp]: "effect_transfer routines r ed (make_identity base (ParameterDependent j)) =
    make_identity base (to_kind (substitute_pd_temp_state ed j r (routines (ce_to ed))))"
  by (simp add: effect_transfer_def)

lemma make_identity_eq: "make_identity base k = e \<longleftrightarrow> base = identity_base e \<and> k = ei_temp e"
  by (metis temp_make_identity)

lemma not_terminalE: "\<not> terminal e \<Longrightarrow> (\<And>base j. e = make_identity base (ParameterDependent j) \<Longrightarrow> P) \<Longrightarrow> P"
  by (metis terminal_def temp_make_identity(3))

text \<open>Terminal effects reach every routine that reaches theirs.\<close>

lemma terminal_reaches:
  assumes "may_affect g routines solved own v e" "terminal e" "(m, v) \<in> (edge (induced_graph g kept))\<^sup>*"
    and "\<forall>x \<in> set kept. solved x \<and> routines x \<noteq> None"
  shows "may_affect g routines solved own m e"
  using assms(3,1)
proof (induction rule: converse_rtrancl_induct)
  case (step y z)
  from step.hyps(1) obtain ed where ed: "y \<in> set kept" "ed \<in> set (out_edges g y)" "ce_to ed = z"
    unfolding edge_iff children_induced by (auto split: if_splits)
  obtain r where "routines y = Some r" using assms(4) ed(1) by blast
  from may_affect.call [of solved y routines r ed g own e] this ed step assms(2,4) show ?case by simp
qed

text \<open>What the solve of a component rests on.\<close>

record flow_spec =
  fs_solved :: "string \<Rightarrow> bool"
  fs_own :: "string \<Rightarrow> effect_identity set"

abbreviation affects :: "solver_inputs \<Rightarrow> flow_spec \<Rightarrow> string \<Rightarrow> effect_identity \<Rightarrow> bool" where
  "affects si fs v e \<equiv> may_affect (in_graph si) (in_routines si) (fs_solved fs) (fs_own fs) v e"

definition member_ok :: "solver_inputs \<Rightarrow> flow_spec \<Rightarrow> string \<Rightarrow> bool" where
  "member_ok si fs m \<longleftrightarrow> interned si m \<and> fs_solved fs m \<and> fs_own fs m = own_identities si m \<and> in_base si m \<noteq> None \<and>
     (\<exists>r. in_routines si m = Some r \<and> own_db_effects si m = sm_db_effects (base_intraprocedural_summary r))"

definition settled_ok :: "solver_inputs \<Rightarrow> flow_spec \<Rightarrow> string list \<Rightarrow> bundle_builder \<Rightarrow> universe \<Rightarrow> bool" where
  "settled_ok si fs ms db u \<longleftrightarrow> (\<forall>m \<in> set ms. \<forall>ed \<in> set (outer_edges si ms m). \<forall>e.
     (e \<in> settled_terminal si db u (ce_to ed) \<longleftrightarrow> terminal e \<and> affects si fs (ce_to ed) e) \<and>
     (e \<in> set (settled_pd si db u (ce_to ed)) \<longleftrightarrow> \<not> terminal e \<and> affects si fs (ce_to ed) e))"

lemma seed_own_mem:
  assumes "member_ok si fs m"
  shows "p \<in> set (own_outcomes si m) \<longleftrightarrow>
    (\<exists>base j. p = (m, base, TS_ParameterDependent j) \<and> make_identity base (ParameterDependent j) \<in> own_identities si m)"
proof -
  obtain r where r: "in_routines si m = Some r" "own_db_effects si m = sm_db_effects (base_intraprocedural_summary r)"
    using assms by (auto simp: member_ok_def)
  have id: "own_identity e = make_identity base (ParameterDependent j) \<longleftrightarrow> effect_base e = base \<and> de_temp_state e = TS_ParameterDependent j" for e base j
    by (auto simp: own_identity_def make_identity_eq)
  have "p \<in> set (own_outcomes si m) \<longleftrightarrow>
      (\<exists>e \<in> set (own_db_effects si m). \<exists>j. de_temp_state e = TS_ParameterDependent j \<and> p = (m, effect_base e, TS_ParameterDependent j))"
    by (auto simp: own_outcomes_def r)
  also have "\<dots> \<longleftrightarrow> (\<exists>base j. p = (m, base, TS_ParameterDependent j) \<and>
      (\<exists>e \<in> set (own_db_effects si m). own_identity e = make_identity base (ParameterDependent j)))"
    unfolding id by blast
  finally show ?thesis unfolding own_identities_def image_iff by metis
qed

lemma pd_image_mem: "p \<in> set (pd_image si m r ed e) \<longleftrightarrow>
    (\<exists>base j. e = make_identity base (ParameterDependent j) \<and> p = (m, base, substitute_pd_temp_state ed j r (in_routines si (ce_to ed))))"
proof (cases "ei_temp e")
  case (ParameterDependent j)
  then have "e = make_identity base (ParameterDependent j') \<longleftrightarrow> base = identity_base e \<and> j' = j" for base j'
    by (metis temp_make_identity temp_state_kind.inject(2))
  with ParameterDependent show ?thesis by (auto simp: pd_image_def)
qed (auto simp: pd_image_def)

lemma seed_settled_mem:
  assumes "in_routines si m = Some r"
  shows "p \<in> set (settled_outcomes si ms db u m) \<longleftrightarrow>
    (\<exists>ed base j. ed \<in> set (outer_edges si ms m) \<and> make_identity base (ParameterDependent j) \<in> set (settled_pd si db u (ce_to ed)) \<and>
      p = (m, base, substitute_pd_temp_state ed j r (in_routines si (ce_to ed))))"
proof -
  have "p \<in> set (settled_outcomes si ms db u m) \<longleftrightarrow>
      (\<exists>ed \<in> set (outer_edges si ms m). \<exists>e \<in> set (settled_pd si db u (ce_to ed)). p \<in> set (pd_image si m r ed e))"
    by (auto simp: settled_outcomes_def outer_edges_def edge_outcomes_def assms)
  then show ?thesis unfolding pd_image_mem by blast
qed

lemma flow_sound:
  assumes "\<forall>m \<in> set ms. member_ok si fs m" "settled_ok si fs ms db u"
    and "pd_flow si ms (seed_outcomes si ms db u) p" "p = (v, base, t)"
  shows "affects si fs v (make_identity base (to_kind t))"
  using assms(3,4)
proof (induction arbitrary: v base t rule: pd_flow.induct)
  case (seed p)
  then obtain m where m: "m \<in> set ms" "p \<in> set (own_outcomes si m) \<or> p \<in> set (settled_outcomes si ms db u m)"
    by (auto simp: seed_outcomes_def)
  obtain r where r: "in_routines si m = Some r" "fs_solved fs m" using assms(1) m(1) by (auto simp: member_ok_def)
  from m(2) show ?case
  proof
    assume "p \<in> set (own_outcomes si m)"
    then show ?thesis using seed_own_mem [of si fs m p] assms(1) m(1) seed.prems
      by (auto simp: member_ok_def intro: may_affect.own)
  next
    assume "p \<in> set (settled_outcomes si ms db u m)"
    then obtain ed j where ed: "ed \<in> set (outer_edges si ms m)" "make_identity base (ParameterDependent j) \<in> set (settled_pd si db u (ce_to ed))"
        "v = m" "t = substitute_pd_temp_state ed j r (in_routines si (ce_to ed))"
      using seed_settled_mem [OF r(1), of p ms db u] seed.prems by auto
    then have "affects si fs (ce_to ed) (make_identity base (ParameterDependent j))"
      using assms(2) m(1) unfolding settled_ok_def by blast
    from may_affect.call [OF r(2,1) _ this] ed show ?thesis by (simp add: outer_edges_def)
  qed
next
  case (over w base' i p)
  then obtain r ed where ed: "v \<in> set ms" "in_routines si v = Some r" "ed \<in> set (out_edges (in_graph si) v)" "ce_to ed = w"
      "base = base'" "t = substitute_pd_temp_state ed i r (in_routines si (ce_to ed))"
    by (auto simp: caller_outcomes_mem)
  have "affects si fs (ce_to ed) (make_identity base (ParameterDependent i))" using over.IH ed by simp
  moreover have "fs_solved fs v" using assms(1) ed(1) by (simp add: member_ok_def)
  ultimately have "affects si fs v (effect_transfer (in_routines si) r ed (make_identity base (ParameterDependent i)))"
    using ed may_affect.call by blast
  then show ?case using ed by simp
qed

text \<open>The facts and emissions of the worklist are its flow.\<close>

definition reports_flow :: "solver_inputs \<Rightarrow> string list \<Rightarrow> bundle_builder \<Rightarrow> universe \<Rightarrow> pd_fact list \<Rightarrow> terminal_emission list \<Rightarrow> bool" where
  "reports_flow si ms db u facts terms \<longleftrightarrow>
     (\<forall>v base j. \<lparr> pf_routine_id = v, pf_base = base, pf_param_index = j \<rparr> \<in> set facts \<longleftrightarrow>
       pd_flow si ms (seed_outcomes si ms db u) (v, base, TS_ParameterDependent j)) \<and>
     (\<forall>v base k. \<lparr> te_routine_id = v, te_base = base, te_temp = k \<rparr> \<in> set terms \<longleftrightarrow>
       (\<forall>j. k \<noteq> ParameterDependent j) \<and> pd_flow si ms (seed_outcomes si ms db u) (v, base, kind_to_temp_state k))"

lemma fact_identities_mem:
  "e \<in> fact_identities facts m \<longleftrightarrow>
    (\<exists>base j. e = make_identity base (ParameterDependent j) \<and> \<lparr> pf_routine_id = m, pf_base = base, pf_param_index = j \<rparr> \<in> set facts)"
proof
  assume "e \<in> fact_identities facts m"
  then obtain f where f: "f \<in> set facts" "pf_routine_id f = m" "e = make_identity (pf_base f) (ParameterDependent (pf_param_index f))"
    by (auto simp: fact_identities_def)
  moreover have "f = \<lparr> pf_routine_id = m, pf_base = pf_base f, pf_param_index = pf_param_index f \<rparr>" using f(2) by simp
  ultimately show "\<exists>base j. e = make_identity base (ParameterDependent j) \<and> \<lparr> pf_routine_id = m, pf_base = base, pf_param_index = j \<rparr> \<in> set facts"
    by metis
qed (force simp: fact_identities_def)

lemma flow_reported:
  assumes "reports_flow si ms db u facts terms" "pd_flow si ms (seed_outcomes si ms db u) (v, base, t)"
  shows "if terminal (make_identity base (to_kind t)) then make_identity base (to_kind t) \<in> union_effects si ms db terms u
    else make_identity base (to_kind t) \<in> fact_identities facts v"
proof (cases "\<exists>j. t = TS_ParameterDependent j")
  case True
  then obtain j where t: "t = TS_ParameterDependent j" by blast
  then have "\<lparr> pf_routine_id = v, pf_base = base, pf_param_index = j \<rparr> \<in> set facts" using assms unfolding reports_flow_def by blast
  then have "make_identity base (to_kind t) \<in> fact_identities facts v" unfolding fact_identities_mem t to_kind.simps by blast
  then show ?thesis by (simp add: t terminal_def)
next
  case False
  then have nt: "\<forall>j. to_kind t \<noteq> ParameterDependent j" by simp
  moreover have "pd_flow si ms (seed_outcomes si ms db u) (v, base, kind_to_temp_state (to_kind t))" using assms(2) by simp
  ultimately have "\<lparr> te_routine_id = v, te_base = base, te_temp = to_kind t \<rparr> \<in> set terms"
    using assms(1) unfolding reports_flow_def by blast
  then have "make_identity base (to_kind t) \<in> union_effects si ms db terms u"
    unfolding union_effects_def by (force intro: rev_image_eqI)
  with nt show ?thesis by (simp add: terminal_def)
qed

lemma component_complete:
  assumes ms: "\<forall>m \<in> set ms. member_ok si fs m" and settled: "settled_ok si fs ms db u"
    and flow: "reports_flow si ms db u facts terms"
    and "affects si fs v e" "v \<in> set ms"
  shows "if terminal e then e \<in> union_effects si ms db terms u else e \<in> fact_identities facts v"
  using assms(4,5)
proof (induction rule: may_affect.induct)
  case (own e v)
  then have own: "e \<in> own_identities si v" using ms by (simp add: member_ok_def)
  show ?case
  proof (cases "terminal e")
    case True
    with own own.prems show ?thesis unfolding union_effects_def by auto
  next
    case False
    then obtain base j where e: "e = make_identity base (ParameterDependent j)" by (rule not_terminalE)
    have "pd_flow si ms (seed_outcomes si ms db u) (v, base, TS_ParameterDependent j)"
    proof (rule pd_flow.seed)
      have "(v, base, TS_ParameterDependent j) \<in> set (own_outcomes si v)"
        using seed_own_mem [of si fs v] ms own own.prems unfolding e by blast
      with own.prems show "(v, base, TS_ParameterDependent j) \<in> set (seed_outcomes si ms db u)"
        unfolding seed_outcomes_def by auto
    qed
    from flow_reported [OF flow this] show ?thesis unfolding e to_kind.simps .
  qed
next
  case (call v r ed e)
  have callee: "if terminal e then e \<in> union_effects si ms db terms u
    else (\<exists>base t. effect_transfer (in_routines si) r ed e = make_identity base (to_kind t) \<and>
      pd_flow si ms (seed_outcomes si ms db u) (v, base, t))"
  proof (cases "ce_to ed \<in> set ms")
    case True
    note IH = call.IH [OF this]
    show ?thesis
    proof (cases "terminal e")
      case False
      then obtain base j where e: "e = make_identity base (ParameterDependent j)" by (rule not_terminalE)
      from IH False have "\<lparr> pf_routine_id = ce_to ed, pf_base = base, pf_param_index = j \<rparr> \<in> set facts"
        unfolding fact_identities_mem e by (simp add: make_identity_eq)
      then have "pd_flow si ms (seed_outcomes si ms db u) (ce_to ed, base, TS_ParameterDependent j)"
        using flow unfolding reports_flow_def by blast
      from pd_flow.over [OF this] have "pd_flow si ms (seed_outcomes si ms db u)
          (v, base, substitute_pd_temp_state ed j r (in_routines si (ce_to ed)))"
        unfolding caller_outcomes_mem using True call by blast
      with transfer_parameter [of "in_routines si" r ed base j] False show ?thesis
        unfolding e by (simp only: if_False) blast
    qed (use IH in simp)
  next
    case False
    then have ed: "ed \<in> set (outer_edges si ms v)" using call by (simp add: outer_edges_def)
    note s = settled [unfolded settled_ok_def, rule_format, OF call.prems this, of e]
    show ?thesis
    proof (cases "terminal e")
      case True
      with s call have "e \<in> settled_terminal si db u (ce_to ed)" by blast
      with True ed call.prems show ?thesis unfolding union_effects_def by auto
    next
      case False
      then obtain base j where e: "e = make_identity base (ParameterDependent j)" by (rule not_terminalE)
      from False s call have "make_identity base (ParameterDependent j) \<in> set (settled_pd si db u (ce_to ed))" unfolding e by blast
      then have "(v, base, substitute_pd_temp_state ed j r (in_routines si (ce_to ed))) \<in> set (settled_outcomes si ms db u v)"
        unfolding seed_settled_mem [OF call.hyps(2)] using ed by blast
      then have "pd_flow si ms (seed_outcomes si ms db u) (v, base, substitute_pd_temp_state ed j r (in_routines si (ce_to ed)))"
        using call.prems by (intro pd_flow.seed) (auto simp: seed_outcomes_def)
      with transfer_parameter [of "in_routines si" r ed base j] False show ?thesis
        unfolding e by (simp only: if_False) blast
    qed
  qed
  show ?case
  proof (cases "terminal e")
    case True
    with callee show ?thesis by simp
  next
    case False
    with callee flow_reported [OF flow] show ?thesis by metis
  qed
qed

lemma component_exact:
  assumes ms: "\<forall>m \<in> set ms. member_ok si fs m" and settled: "settled_ok si fs ms db u"
    and flow: "reports_flow si ms db u facts terms"
    and connected: "\<forall>m \<in> set ms. \<forall>v \<in> set ms. (m, v) \<in> (edge (induced_graph (in_graph si) kept))\<^sup>*"
    and kept: "\<forall>x \<in> set kept. fs_solved fs x \<and> in_routines si x \<noteq> None"
    and m: "m \<in> set ms"
  shows "e \<in> union_effects si ms db terms u \<longleftrightarrow> terminal e \<and> affects si fs m e"
    "e \<in> fact_identities facts m \<longleftrightarrow> \<not> terminal e \<and> affects si fs m e"
proof -
  have complete: "affects si fs m e \<Longrightarrow> if terminal e then e \<in> union_effects si ms db terms u else e \<in> fact_identities facts m"
    using component_complete [OF ms settled flow _ m] .
  have sound: "terminal e \<and> (\<exists>v \<in> set ms. affects si fs v e)" if e: "e \<in> union_effects si ms db terms u"
  proof -
    from e consider v where "v \<in> set ms" "e \<in> own_identities si v" "terminal e"
      | v ed where "v \<in> set ms" "ed \<in> set (outer_edges si ms v)" "e \<in> settled_terminal si db u (ce_to ed)"
      | t where "t \<in> set terms" "e = make_identity (te_base t) (te_temp t)"
      unfolding union_effects_def by blast
    then show ?thesis
    proof cases
      case 1
      then show ?thesis using ms by (auto simp: member_ok_def intro: may_affect.own)
    next
      case 2
      then have "terminal e" "affects si fs (ce_to ed) e" using settled unfolding settled_ok_def by blast+
      moreover obtain r where "in_routines si v = Some r" "fs_solved fs v" using ms 2(1) by (auto simp: member_ok_def)
      ultimately show ?thesis using may_affect.call [of "fs_solved fs" v "in_routines si" r ed "in_graph si" "fs_own fs" e] 2
        by (auto simp: outer_edges_def)
    next
      case 3
      obtain v base k where t: "t = \<lparr> te_routine_id = v, te_base = base, te_temp = k \<rparr>" by (cases t) blast
      then have "(\<forall>j. k \<noteq> ParameterDependent j) \<and> pd_flow si ms (seed_outcomes si ms db u) (v, base, kind_to_temp_state k)"
        using flow 3(1) unfolding reports_flow_def by blast
      moreover from this have "v \<in> set ms" using flow_member [of si ms _ "(v, base, kind_to_temp_state k)"] seed_member by (metis fst_conv)
      ultimately show ?thesis using flow_sound [OF ms settled _ refl, of v base "kind_to_temp_state k"] 3(2) t
        by (auto simp: terminal_def)
    qed
  qed
  show "e \<in> union_effects si ms db terms u \<longleftrightarrow> terminal e \<and> affects si fs m e"
  proof
    assume "e \<in> union_effects si ms db terms u"
    then obtain v where "terminal e" "v \<in> set ms" "affects si fs v e" using sound by blast
    then show "terminal e \<and> affects si fs m e" using terminal_reaches [OF _ _ _ kept] connected m by blast
  qed (use complete in auto)
  show "e \<in> fact_identities facts m \<longleftrightarrow> \<not> terminal e \<and> affects si fs m e"
  proof
    assume "e \<in> fact_identities facts m"
    then obtain base j where e: "e = make_identity base (ParameterDependent j)"
        "pd_flow si ms (seed_outcomes si ms db u) (m, base, TS_ParameterDependent j)"
      using flow unfolding fact_identities_mem reports_flow_def by blast
    with flow_sound [OF ms settled e(2) refl] show "\<not> terminal e \<and> affects si fs m e" by (auto simp: terminal_def)
  qed (use complete in auto)
qed

end
