(* ===== verification/Effect_Ways.thy ===== *)
theory Effect_Ways
  imports Effect_Flow
begin

text \<open>
  The ways effects reach the members of a component: the map the two passes build holds, for every
  present effect, the best of the ways it arrives in one step - from the member's own body, or over
  one edge from an effect of the callee.
\<close>

section \<open>Merging ways\<close>

definition way_in :: "via_map \<Rightarrow> u32 \<times> u32 \<Rightarrow> via" where
  "way_in vm k = unwrap_or Inherited (vm k)"

lemma Inherited_least [simp]: "Inherited \<le> v"
  by (cases v) (simp_all add: less_eq_via_def)

lemma way_in_merge: "way_in (merge_via_into m i via vm) k = (if k = (m, i) then max (way_in vm k) via else way_in vm k)"
  by (auto simp: way_in_def merge_via_into_def max_def split: option.split)

abbreviation merge_all :: "((u32 \<times> u32) \<times> via) list \<Rightarrow> via_map \<Rightarrow> via_map" where
  "merge_all cs vm \<equiv> fold (\<lambda>((m, i), via). merge_via_into m i via) cs vm"

lemma Max_insert_more: "finite S \<Longrightarrow> Max (insert (max a v) S) = max v (Max (insert a (S :: via set)))"
  by (cases "S = {}") (simp_all add: max.commute max.left_commute max.assoc)

lemma Max_insert_Max:
  assumes "finite A" "finite B"
  shows "Max (insert (Max (insert a A)) B) = Max (insert a A \<union> (B :: via set))"
  using assms by (cases "B = {}") (simp_all add: Max_Un Max_insert [OF \<open>finite B\<close>] del: Un_insert_left Max_insert)

lemma way_in_merge_all: "way_in (merge_all cs vm) k = Max (insert (way_in vm k) {via. (k, via) \<in> set cs})"
proof (induction cs arbitrary: vm)
  case (Cons c cs)
  obtain m i via where c: "c = ((m, i), via)" by (cases c) auto
  have fin: "finite {via. (k, via) \<in> set cs}" by (rule finite_subset [of _ "snd ` set cs"]) force+
  show ?case
  proof (cases "k = (m, i)")
    case True
    then have "{via. (k, via) \<in> set (c # cs)} = insert via {via. (k, via) \<in> set cs}" using c by auto
    moreover have "way_in (merge_all (c # cs) vm) k = max via (Max (insert (way_in vm k) {via. (k, via) \<in> set cs}))"
      using Cons [of "merge_via_into m i via vm"] True by (simp add: c way_in_merge Max_insert_more [OF fin [unfolded True]])
    ultimately show ?thesis using fin
      by (cases "{via. (k, via) \<in> set cs} = {}") (simp_all add: max.left_commute max.commute)
  next
    case False
    then have "{via. (k, via) \<in> set (c # cs)} = {via. (k, via) \<in> set cs}" using c by auto
    then show ?thesis using Cons [of "merge_via_into m i via vm"] False by (simp add: c way_in_merge)
  qed
qed simp

section \<open>The first pass\<close>

lemma RANKED_members: "r \<in> set RANKED \<longleftrightarrow> r \<noteq> Inherited"
  by (cases r) (simp_all add: RANKED_def)

lemma find_RANKED:
  "unwrap_or Inherited (List.find P RANKED) = Max (insert Inherited {r. r \<noteq> Inherited \<and> P r})"
proof -
  have fin: "finite (S :: via set)" for S
    by (rule finite_subset [of _ "{Inherited, Dynamic, EventSubscriber, ImplicitTrigger, Direct}"]) (use via.exhaust in auto)
  show ?thesis
  proof (rule Max_eqI [symmetric])
    show "finite (insert Inherited {r. r \<noteq> Inherited \<and> P r})" by (rule fin)
    show "y \<le> unwrap_or Inherited (List.find P RANKED)" if "y \<in> insert Inherited {r. r \<noteq> Inherited \<and> P r}" for y
      using that by (cases y) (auto simp: RANKED_def less_eq_via_def)
    show "unwrap_or Inherited (List.find P RANKED) \<in> insert Inherited {r. r \<noteq> Inherited \<and> P r}"
      by (auto simp: RANKED_def)
  qed
qed

lemma derive_fold:
  "way_in (fold (derive_via rb m_ix) is vm) (r, i) =
    (if r = m_ix \<and> i \<in> set is \<and> List.find (\<lambda>v. has_bit (rb v) i) RANKED \<noteq> None
     then unwrap_or Inherited (List.find (\<lambda>v. has_bit (rb v) i) RANKED) else way_in vm (r, i))"
  by (induction "is" arbitrary: vm) (auto simp: derive_via_def way_in_def split: option.splits)

lemma base_rank_bits_at:
  "has_bit (base_rank_bits si u m rb v) i \<longleftrightarrow>
    (v = Direct \<and> (\<exists>b. in_base si m = Some b \<and> (\<exists>e \<in> set (sm_db_effects b). uni_get u (own_identity e) = Some i))) \<or> has_bit (rb v) i"
proof -
  have "has_bit (fold (\<lambda>e rb. (case uni_get u (own_identity e) of None \<Rightarrow> rb | Some i \<Rightarrow> rb(Direct := set_bit_at (rb Direct) i))) es rb v) i \<longleftrightarrow>
      (v = Direct \<and> (\<exists>e \<in> set es. uni_get u (own_identity e) = Some i)) \<or> has_bit (rb v) i" for es
    by (induction es arbitrary: rb) (auto simp: has_bit_set split: option.splits)
  then show ?thesis by (simp add: base_rank_bits_def own_identity_def [symmetric] split: option.split)
qed

text \<open>The ids an edge brings in its rank group.\<close>

definition edge_brings :: "solver_inputs \<Rightarrow> string list \<Rightarrow> scc_presence \<Rightarrow> bundle_builder \<Rightarrow> combined_edge \<Rightarrow> u32 \<Rightarrow> bool" where
  "edge_brings si ms p db ed i \<longleftrightarrow>
     (if ce_to ed \<in> set ms then has_bit (sp_terminal_union p) i
      else (\<exists>t. ri_get (in_interner si) (ce_to ed) = Some t \<and> has_raw_row db t \<and> has_bit (terminal_bits db t) i))"

lemma edge_rank_bits_at:
  "v \<noteq> Inherited \<Longrightarrow> has_bit (edge_rank_bits si ms p db ed rb v) i \<longleftrightarrow> (edge_via ed = v \<and> edge_brings si ms p db ed i) \<or> has_bit (rb v) i"
  by (auto simp: edge_rank_bits_def Let_def edge_brings_def has_bit_or split: option.splits)

lemma member_rank_bits_at:
  assumes "v \<noteq> Inherited"
  shows "has_bit (member_rank_bits si ms p db u m v) i \<longleftrightarrow>
    (v = Direct \<and> (\<exists>b. in_base si m = Some b \<and> (\<exists>e \<in> set (sm_db_effects b). uni_get u (own_identity e) = Some i))) \<or>
    (\<exists>ed \<in> set (out_edges (in_graph si) m). edge_via ed = v \<and> edge_brings si ms p db ed i)"
proof -
  have "has_bit (fold (edge_rank_bits si ms p db) es rb v) i \<longleftrightarrow>
      (\<exists>ed \<in> set es. edge_via ed = v \<and> edge_brings si ms p db ed i) \<or> has_bit (rb v) i" for es rb
    by (induction es arbitrary: rb) (auto simp: edge_rank_bits_at assms)
  then show ?thesis by (auto simp: member_rank_bits_def base_rank_bits_at)
qed

text \<open>What the first pass leaves: the best rank group of every present id.\<close>

definition first_ways :: "solver_inputs \<Rightarrow> string list \<Rightarrow> scc_presence \<Rightarrow> bundle_builder \<Rightarrow> universe \<Rightarrow> string \<Rightarrow> u32 \<Rightarrow> via set" where
  "first_ways si ms p db u m i =
     (if \<exists>b. in_base si m = Some b \<and> (\<exists>e \<in> set (sm_db_effects b). uni_get u (own_identity e) = Some i) then {Direct} else {}) \<union>
     {edge_via ed | ed. ed \<in> set (out_edges (in_graph si) m) \<and> edge_brings si ms p db ed i}"

lemma Max_insert_Inherited: "finite S \<Longrightarrow> Max (insert Inherited {r. r \<noteq> Inherited \<and> r \<in> S}) = Max (insert Inherited S)"
proof -
  assume "finite S"
  moreover have "insert Inherited {r. r \<noteq> Inherited \<and> r \<in> S} = insert Inherited S" by auto
  ultimately show ?thesis by simp
qed

lemma first_ways_finite: "finite (first_ways si ms p db u m i)"
proof -
  have "{edge_via ed | ed. ed \<in> set (out_edges (in_graph si) m) \<and> edge_brings si ms p db ed i} \<subseteq> edge_via ` set (out_edges (in_graph si) m)" by auto
  then show ?thesis unfolding first_ways_def by (auto intro: finite_subset)
qed

lemma rank_find:
  "unwrap_or Inherited (List.find (\<lambda>v. has_bit (member_rank_bits si ms p db u m v) i) RANKED) = Max (insert Inherited (first_ways si ms p db u m i))"
proof -
  have "{r. r \<noteq> Inherited \<and> has_bit (member_rank_bits si ms p db u m r) i} = {r. r \<noteq> Inherited \<and> r \<in> first_ways si ms p db u m i}"
    by (auto simp: member_rank_bits_at first_ways_def)
  then show ?thesis unfolding find_RANKED using Max_insert_Inherited [OF first_ways_finite] by simp
qed

lemma reconstruct_spec:
  assumes ok: "ri_ok (in_interner si)" "\<forall>m \<in> set ms. interned si m" "distinct ms"
    and i: "\<And>m. m \<in> set ms \<Longrightarrow> present m = set (member_present_ids p (number_of si m))"
  shows "\<exists>vm. try_fold (reconstruct_member si all p db u) ms vm0 = Some vm \<and>
    (\<forall>m \<in> set ms. \<forall>i \<in> present m. way_in vm0 (number_of si m, i) = Inherited \<longrightarrow>
       way_in vm (number_of si m, i) = Max (insert Inherited (first_ways si all p db u m i))) \<and>
    (\<forall>r i. r \<notin> number_of si ` set ms \<longrightarrow> way_in vm (r, i) = way_in vm0 (r, i))"
  using ok(2,3) i
proof (induction ms arbitrary: vm0)
  case (Cons m ms)
  let ?vm = "fold (derive_via (member_rank_bits si all p db u m) (number_of si m)) (member_present_ids p (number_of si m)) vm0"
  have m: "reconstruct_member si all p db u m vm0 = Some ?vm"
    using interned_name(1) [OF ok(1)] Cons.prems(1) by (simp add: reconstruct_member_def)
  have here: "way_in ?vm (number_of si m, i) = Max (insert Inherited (first_ways si all p db u m i))"
    if "i \<in> present m" "way_in vm0 (number_of si m, i) = Inherited" for i
    using that Cons.prems(3) [of m] rank_find [of si all p db u m i]
    by (auto simp: derive_fold simp del: split_paired_All)
  have away: "way_in ?vm (r, i) = way_in vm0 (r, i)" if "r \<noteq> number_of si m" for r i using that by (simp add: derive_fold)
  have other: "number_of si m \<notin> number_of si ` set ms" using Cons.prems(1,2) number_inj [OF ok(1)] by auto
  obtain vm where "try_fold (reconstruct_member si all p db u) ms ?vm = Some vm"
    "\<forall>m \<in> set ms. \<forall>i \<in> present m. way_in ?vm (number_of si m, i) = Inherited \<longrightarrow>
       way_in vm (number_of si m, i) = Max (insert Inherited (first_ways si all p db u m i))"
    "\<forall>r i. r \<notin> number_of si ` set ms \<longrightarrow> way_in vm (r, i) = way_in ?vm (r, i)"
    using Cons.IH [of ?vm] Cons.prems by auto
  moreover have "way_in ?vm (number_of si m', i) = way_in vm0 (number_of si m', i)" if "m' \<in> set ms" for m' i
    using away other that by (metis imageI)
  ultimately show ?case using m here away other
    by (intro exI [of _ vm]) (simp del: split_paired_All split_paired_Ex)
qed simp

section \<open>The second pass\<close>

text \<open>What the passes over the ways rest on: the presence of a component is the flow into it.\<close>

definition presence_ok :: "solver_inputs \<Rightarrow> flow_spec \<Rightarrow> string list \<Rightarrow> bundle_builder \<Rightarrow> scc_presence \<Rightarrow> universe \<Rightarrow> bool" where
  "presence_ok si fs ms db p u \<longleftrightarrow>
     ri_ok (in_interner si) \<and> uni_ok u \<and> rows_known si db u \<and> rows_bits_known db u \<and> settled_ok si fs ms db u \<and>
     bits_known u (sp_terminal_union p) \<and>
     (\<forall>m \<in> set ms. member_ok si fs m \<and>
       effs u (sp_terminal_union p) = {e. terminal e \<and> affects si fs m e} \<and>
       (\<exists>bits. sp_pd_by_member p (number_of si m) = Some bits \<and> bits_known u bits \<and>
         effs u bits = {e. \<not> terminal e \<and> affects si fs m e}))"

definition pd_pair :: "effect_identity \<Rightarrow> (base_id \<times> u32) list" where
  "pd_pair e = (case ei_temp e of ParameterDependent j \<Rightarrow> [(identity_base e, j)] | _ \<Rightarrow> [])"

lemma pd_pair_mem: "(base, j) \<in> set (pd_pair e) \<longleftrightarrow> e = make_identity base (ParameterDependent j)"
proof (cases "ei_temp e")
  case (ParameterDependent k)
  then have "e = make_identity base (ParameterDependent j) \<longleftrightarrow> base = identity_base e \<and> j = k"
    by (metis temp_make_identity temp_state_kind.inject(2))
  with ParameterDependent show ?thesis by (auto simp: pd_pair_def)
qed (auto simp: pd_pair_def)

lemma push_pd_all:
  "\<forall>i \<in> set is. unat i < uni_len u \<Longrightarrow>
    try_fold (push_pd u) is acc = Some (acc @ concat (map (\<lambda>i. pd_pair (the (uni_identity u i))) is))"
proof (induction "is" arbitrary: acc)
  case (Cons i "is")
  then obtain e where "uni_identity u i = Some e" by (auto simp: uni_identity_def uni_len_def)
  with Cons show ?case by (auto simp: push_pd_def pd_pair_def split: temp_state_kind.split)
qed simp

lemma callee_pd_spec:
  assumes ok: "presence_ok si fs ms db p u" and m: "m \<in> set ms" "ed \<in> set (out_edges (in_graph si) m)"
  obtains pds where "callee_pd si ms p db u ed = Some pds"
    "\<And>base j. (base, j) \<in> set pds \<longleftrightarrow> affects si fs (ce_to ed) (make_identity base (ParameterDependent j))"
proof (cases "ce_to ed \<in> set ms")
  case True
  then have t: "member_ok si fs (ce_to ed)" and u: "uni_ok u" "ri_ok (in_interner si)" using ok by (auto simp: presence_ok_def)
  obtain bits where bits: "sp_pd_by_member p (number_of si (ce_to ed)) = Some bits" "bits_known u bits"
      "effs u bits = {e. \<not> terminal e \<and> affects si fs (ce_to ed) e}" using ok True unfolding presence_ok_def by blast
  have ids: "\<forall>i \<in> set (iter_set_bits bits). unat i < uni_len u" using bits(2) effs_iter [OF bits(2)] by (auto simp: bits_known_def)
  let ?pds = "concat (map (\<lambda>i. pd_pair (the (uni_identity u i))) (iter_set_bits bits))"
  have "(base, j) \<in> set ?pds \<longleftrightarrow> (\<exists>i. has_bit bits i \<and> uni_identity u i = Some (make_identity base (ParameterDependent j)))" for base j
    using ids effs_iter [OF bits(2)] by (auto simp: pd_pair_mem uni_identity_def uni_len_def)
  also have "\<dots> base j \<longleftrightarrow> make_identity base (ParameterDependent j) \<in> effs u bits" for base j
    by (auto simp: effs_def identity_get [OF u(1)])
  finally have "(base, j) \<in> set ?pds \<longleftrightarrow> affects si fs (ce_to ed) (make_identity base (ParameterDependent j))" for base j
    by (simp add: bits(3) terminal_def)
  moreover have "callee_pd si ms p db u ed = Some ?pds"
    using True interned_name(1) [OF u(2)] t push_pd_all [OF ids, of "[]"] by (simp add: callee_pd_def member_ok_def bits(1))
  ultimately show thesis using that by blast
next
  case False
  have rows: "rows_known si db u" using ok by (simp add: presence_ok_def)
  let ?pds = "concat (map pd_pair (settled_pd si db u (ce_to ed)))"
  have "callee_pd si ms p db u ed = Some ?pds"
  proof (cases "ri_get (in_interner si) (ce_to ed)")
    case (Some t)
    have "\<forall>i \<in> set (pd_ids db t). unat i < uni_len u" using rows by (simp add: rows_known_def)
    from push_pd_all [OF this, of "[]"] show ?thesis using Some False by (simp add: callee_pd_def settled_pd_def comp_def)
  qed (use False in \<open>simp add: callee_pd_def settled_pd_def\<close>)
  moreover have "(base, j) \<in> set ?pds \<longleftrightarrow> affects si fs (ce_to ed) (make_identity base (ParameterDependent j))" for base j
  proof -
    have "ed \<in> set (outer_edges si ms m)" using m False by (simp add: outer_edges_def)
    then have "make_identity base (ParameterDependent j) \<in> set (settled_pd si db u (ce_to ed)) \<longleftrightarrow>
        \<not> terminal (make_identity base (ParameterDependent j)) \<and> affects si fs (ce_to ed) (make_identity base (ParameterDependent j))"
      using ok m(1) unfolding presence_ok_def settled_ok_def by blast
    then show ?thesis by (auto simp: pd_pair_mem terminal_def)
  qed
  ultimately show thesis using that by blast
qed

text \<open>The merges the pass makes for an edge, a member, and all members.\<close>

definition edge_merges :: "solver_inputs \<Rightarrow> flow_spec \<Rightarrow> scc_presence \<Rightarrow> universe \<Rightarrow> string \<Rightarrow> model_routine \<Rightarrow> combined_edge \<Rightarrow> ((u32 \<times> u32) \<times> via) set" where
  "edge_merges si fs p u m r ed =
     {((number_of si m, i), edge_via ed) | i base j.
       affects si fs (ce_to ed) (make_identity base (ParameterDependent j)) \<and>
       uni_get u (effect_transfer (in_routines si) r ed (make_identity base (ParameterDependent j))) = Some i \<and>
       member_present p (number_of si m) i}"

lemma attribute_images:
  assumes "\<And>base j. (base, j) \<in> set pds \<longleftrightarrow> affects si fs (ce_to ed) (make_identity base (ParameterDependent j))"
  shows "\<exists>cs. (\<forall>vm. fold (attribute_image si p u (number_of si m) r ed) pds vm = merge_all cs vm) \<and> set cs = edge_merges si fs p u m r ed"
proof -
  define step where "step = (\<lambda>(base, j). case uni_get u (effect_transfer (in_routines si) r ed (make_identity base (ParameterDependent j))) of
      None \<Rightarrow> [] | Some i \<Rightarrow> if member_present p (number_of si m) i then [((number_of si m, i), edge_via ed)] else [])"
  have "fold (attribute_image si p u (number_of si m) r ed) qs vm = merge_all (concat (map step qs)) vm" for qs vm
    by (induction qs arbitrary: vm) (auto simp: attribute_image_def step_def split: option.splits)
  moreover have "set (concat (map step pds)) = edge_merges si fs p u m r ed"
  proof -
    have "c \<in> set (step (base, j)) \<longleftrightarrow> (\<exists>i. c = ((number_of si m, i), edge_via ed) \<and>
        uni_get u (effect_transfer (in_routines si) r ed (make_identity base (ParameterDependent j))) = Some i \<and>
        member_present p (number_of si m) i)" for c base j
      by (auto simp: step_def split: option.splits)
    then show ?thesis unfolding edge_merges_def using assms by (simp add: set_eq_iff Bex_def del: split_paired_All) blast
  qed
  ultimately show ?thesis by blast
qed

lemma attribute_edges:
  assumes ok: "presence_ok si fs ms db p u" and m: "m \<in> set ms" and es: "set es \<subseteq> set (out_edges (in_graph si) m)"
  shows "\<exists>cs. (\<forall>vm. try_fold (attribute_edge si ms p db u (number_of si m) r) es vm = Some (merge_all cs vm)) \<and>
    set cs = (\<Union>ed \<in> set es. edge_merges si fs p u m r ed)"
  using es
proof (induction es)
  case (Cons ed es)
  obtain pds where pds: "callee_pd si ms p db u ed = Some pds"
    "\<And>base j. (base, j) \<in> set pds \<longleftrightarrow> affects si fs (ce_to ed) (make_identity base (ParameterDependent j))"
    using callee_pd_spec [OF ok m] Cons.prems by (metis list.set_intros(1) subsetD)
  obtain cs where cs: "\<forall>vm. fold (attribute_image si p u (number_of si m) r ed) pds vm = merge_all cs vm" "set cs = edge_merges si fs p u m r ed"
    using attribute_images [OF pds(2)] by blast
  then have "\<forall>vm. attribute_edge si ms p db u (number_of si m) r ed vm = Some (merge_all cs vm)"
    using pds(1) by (simp add: attribute_edge_def)
  moreover obtain cs' where "\<forall>vm. try_fold (attribute_edge si ms p db u (number_of si m) r) es vm = Some (merge_all cs' vm)"
    "set cs' = (\<Union>ed \<in> set es. edge_merges si fs p u m r ed)" using Cons by auto
  ultimately show ?case using cs(2) by (intro exI [of _ "cs @ cs'"]) simp
qed (auto intro: exI [of _ "[]"])

definition member_merges :: "solver_inputs \<Rightarrow> flow_spec \<Rightarrow> scc_presence \<Rightarrow> universe \<Rightarrow> string \<Rightarrow> ((u32 \<times> u32) \<times> via) set" where
  "member_merges si fs p u m =
     (case in_routines si m of None \<Rightarrow> {} | Some r \<Rightarrow> \<Union>ed \<in> set (out_edges (in_graph si) m). edge_merges si fs p u m r ed)"

lemma attribute_members:
  assumes ok: "presence_ok si fs ms db p u" and sub: "set vs \<subseteq> set ms"
  shows "\<exists>cs. (\<forall>vm. try_fold (attribute_member si ms p db u) vs vm = Some (merge_all cs vm)) \<and>
    set cs = (\<Union>m \<in> set vs. member_merges si fs p u m)"
  using sub
proof (induction vs)
  case (Cons m vs)
  then have m: "m \<in> set ms" by simp
  then obtain r where r: "in_routines si m = Some r" "ri_get (in_interner si) m = Some (number_of si m)"
    using ok interned_name(1) [of si m] by (auto simp: presence_ok_def member_ok_def)
  obtain cs where cs: "\<forall>vm. try_fold (attribute_edge si ms p db u (number_of si m) r) (out_edges (in_graph si) m) vm = Some (merge_all cs vm)"
    "set cs = member_merges si fs p u m"
    unfolding member_merges_def r option.case using attribute_edges [OF ok m subset_refl, of r] by blast
  then have "\<forall>vm. attribute_member si ms p db u m vm = Some (merge_all cs vm)" using r by (simp add: attribute_member_def)
  moreover obtain cs' where "\<forall>vm. try_fold (attribute_member si ms p db u) vs vm = Some (merge_all cs' vm)"
    "set cs' = (\<Union>m \<in> set vs. member_merges si fs p u m)" using Cons by auto
  ultimately show ?case using cs(2) by (intro exI [of _ "cs @ cs'"]) simp
qed (auto intro: exI [of _ "[]"])

section \<open>The best way in one step\<close>

definition step_ways :: "solver_inputs \<Rightarrow> flow_spec \<Rightarrow> string \<Rightarrow> effect_identity \<Rightarrow> via set" where
  "step_ways si fs m e =
     {Direct |_::unit. e \<in> fs_own fs m} \<union>
     {edge_via ed | ed r e'. in_routines si m = Some r \<and> ed \<in> set (out_edges (in_graph si) m) \<and>
       affects si fs (ce_to ed) e' \<and> effect_transfer (in_routines si) r ed e' = e}"

definition best_way :: "solver_inputs \<Rightarrow> flow_spec \<Rightarrow> string \<Rightarrow> effect_identity \<Rightarrow> via" where
  "best_way si fs m e = Max (insert Inherited (step_ways si fs m e))"

lemma edge_brings_iff:
  assumes ok: "presence_ok si fs ms db p u" and m: "m \<in> set ms" "ed \<in> set (out_edges (in_graph si) m)" and e: "uni_get u e = Some i"
  shows "edge_brings si ms p db ed i \<longleftrightarrow> terminal e \<and> affects si fs (ce_to ed) e"
proof -
  have bit: "has_bit bits i \<longleftrightarrow> e \<in> effs u bits" if "bits_known u bits" for bits
    using effs_bit [OF _ that, of i] e ok effect_ids.ids_injective [of u] by (auto simp: presence_ok_def effs_def)
  show ?thesis
  proof (cases "ce_to ed \<in> set ms")
    case True
    then show ?thesis using ok bit by (auto simp: edge_brings_def presence_ok_def)
  next
    case False
    then have "ed \<in> set (outer_edges si ms m)" using m by (simp add: outer_edges_def)
    then have "e \<in> settled_terminal si db u (ce_to ed) \<longleftrightarrow> terminal e \<and> affects si fs (ce_to ed) e"
      using ok m(1) unfolding presence_ok_def settled_ok_def by blast
    moreover have "edge_brings si ms p db ed i \<longleftrightarrow> e \<in> settled_terminal si db u (ce_to ed)"
      using False bit ok by (auto simp: edge_brings_def settled_terminal_def presence_ok_def rows_bits_known_def split: option.split)
    ultimately show ?thesis by simp
  qed
qed

lemma present_iff:
  assumes ok: "presence_ok si fs ms db p u" and m: "m \<in> set ms"
  shows "member_present p (number_of si m) i \<longleftrightarrow> (\<exists>e. uni_get u e = Some i \<and> affects si fs m e)"
    "i \<in> set (member_present_ids p (number_of si m)) \<longleftrightarrow> member_present p (number_of si m) i"
proof -
  obtain bits where bits: "sp_pd_by_member p (number_of si m) = Some bits" "bits_known u bits"
      "effs u bits = {e. \<not> terminal e \<and> affects si fs m e}" using ok m unfolding presence_ok_def by blast
  have u: "uni_ok u" and c: "bits_known u (sp_terminal_union p)" "effs u (sp_terminal_union p) = {e. terminal e \<and> affects si fs m e}"
    using ok m by (auto simp: presence_ok_def)
  show "member_present p (number_of si m) i \<longleftrightarrow> (\<exists>e. uni_get u e = Some i \<and> affects si fs m e)"
    unfolding member_present_def bits(1) option.case effs_bit [OF u c(1)] effs_bit [OF u bits(2)] c(2) bits(3) by blast
  show "i \<in> set (member_present_ids p (number_of si m)) \<longleftrightarrow> member_present p (number_of si m) i"
    by (simp add: member_present_ids_def member_present_def bits(1) effs_iter [OF c(1)] effs_iter [OF bits(2)])
qed

lemma ways_split:
  assumes ok: "presence_ok si fs ms db p u" and m: "m \<in> set ms" and e: "uni_get u e = Some i" "affects si fs m e"
  shows "step_ways si fs m e = first_ways si ms p db u m i \<union> {v. ((number_of si m, i), v) \<in> member_merges si fs p u m}"
proof -
  have mo: "member_ok si fs m" using ok m by (simp add: presence_ok_def)
  then obtain r b where r: "in_routines si m = Some r" "in_base si m = Some b" "fs_own fs m = own_identities si m" by (auto simp: member_ok_def)
  have inj: "uni_get u e' = Some i \<longleftrightarrow> e' = e" for e'
    using e(1) effect_ids.ids_injective [of u] ok by (auto simp: presence_ok_def)
  have pres: "member_present p (number_of si m) i" using present_iff [OF ok m] e by blast
  have own: "(\<exists>b. in_base si m = Some b \<and> (\<exists>x \<in> set (sm_db_effects b). uni_get u (own_identity x) = Some i)) \<longleftrightarrow> e \<in> fs_own fs m"
    using r by (auto simp: inj own_identities_def own_db_effects_def)
  have merges: "((number_of si m, i), v) \<in> member_merges si fs p u m \<longleftrightarrow>
      (\<exists>ed base j. ed \<in> set (out_edges (in_graph si) m) \<and> v = edge_via ed \<and> affects si fs (ce_to ed) (make_identity base (ParameterDependent j)) \<and>
        effect_transfer (in_routines si) r ed (make_identity base (ParameterDependent j)) = e)" for v
    unfolding member_merges_def r(1) option.case edge_merges_def using pres by (simp add: inj del: transfer_parameter) blast
  have kinds: "(\<exists>e'. affects si fs (ce_to ed) e' \<and> effect_transfer (in_routines si) r ed e' = e) \<longleftrightarrow>
      (terminal e \<and> affects si fs (ce_to ed) e) \<or>
      (\<exists>base j. affects si fs (ce_to ed) (make_identity base (ParameterDependent j)) \<and>
        effect_transfer (in_routines si) r ed (make_identity base (ParameterDependent j)) = e)" for ed
    by (metis not_terminalE transfer_terminal)
  have edges: "v \<in> first_ways si ms p db u m i \<longleftrightarrow> (v = Direct \<and> e \<in> fs_own fs m) \<or>
      (\<exists>ed \<in> set (out_edges (in_graph si) m). v = edge_via ed \<and> terminal e \<and> affects si fs (ce_to ed) e)" for v
    unfolding first_ways_def own using edge_brings_iff [OF ok m _ e(1)] by auto
  have "v \<in> step_ways si fs m e \<longleftrightarrow> (v = Direct \<and> e \<in> fs_own fs m) \<or>
      (\<exists>ed \<in> set (out_edges (in_graph si) m). v = edge_via ed \<and> (\<exists>e'. affects si fs (ce_to ed) e' \<and> effect_transfer (in_routines si) r ed e' = e))" for v
    unfolding step_ways_def r(1) option.inject by blast
  then show ?thesis unfolding set_eq_iff Un_iff mem_Collect_eq merges edges kinds by blast
qed

text \<open>The passes leave the best way of every present effect.\<close>

lemma ways_exact:
  assumes ok: "presence_ok si fs (members eff) db p u" and d: "distinct (members eff)"
  obtains vm1 vm where "reconstruct_via eff si p db u = Some vm1" "attribute_pd_substituted_via eff si p db u vm1 = Some vm"
    "\<And>m e i. m \<in> set (members eff) \<Longrightarrow> uni_get u e = Some i \<Longrightarrow> affects si fs m e \<Longrightarrow> way_in vm (number_of si m, i) = best_way si fs m e"
proof -
  let ?ms = "members eff"
  have ri: "ri_ok (in_interner si)" and int: "\<forall>m \<in> set ?ms. interned si m" using ok by (auto simp: presence_ok_def member_ok_def)
  obtain vm1 where 1: "reconstruct_via eff si p db u = Some vm1"
    "\<forall>m \<in> set ?ms. \<forall>i \<in> set (member_present_ids p (number_of si m)). way_in vm1 (number_of si m, i) = Max (insert Inherited (first_ways si ?ms p db u m i))"
    using reconstruct_spec [OF ri int d refl, of ?ms p db u Map.empty] by (auto simp: reconstruct_via_def way_in_def)
  obtain cs where cs: "attribute_pd_substituted_via eff si p db u vm1 = Some (merge_all cs vm1)"
    "set cs = (\<Union>m \<in> set ?ms. member_merges si fs p u m)"
    using attribute_members [OF ok subset_refl] by (auto simp: attribute_pd_substituted_via_def)
  have "way_in (merge_all cs vm1) (number_of si m, i) = best_way si fs m e"
    if m: "m \<in> set ?ms" and e: "uni_get u e = Some i" "affects si fs m e" for m e i
  proof -
    let ?A = "first_ways si ?ms p db u m i" and ?B = "{v. ((number_of si m, i), v) \<in> member_merges si fs p u m}"
    have same: "m' = m" if "m' \<in> set ?ms" "((number_of si m, i), v) \<in> member_merges si fs p u m'" for m' v
      using that number_inj [OF ri] int m by (auto simp: member_merges_def edge_merges_def split: option.splits)
    have B: "{v. ((number_of si m, i), v) \<in> set cs} = ?B" using same m cs(2) by blast
    have "?B \<subseteq> snd ` set cs" using B by force
    then have fin: "finite ?A" "finite ?B" using first_ways_finite finite_subset by blast+
    have "way_in vm1 (number_of si m, i) = Max (insert Inherited ?A)" using 1(2) m present_iff [OF ok m] e by blast
    then have "way_in (merge_all cs vm1) (number_of si m, i) = Max (insert (Max (insert Inherited ?A)) ?B)"
      unfolding way_in_merge_all B by simp
    also have "\<dots> = Max (insert Inherited ?A \<union> ?B)" by (rule Max_insert_Max [OF fin])
    finally show ?thesis unfolding best_way_def ways_split [OF ok m e] by simp
  qed
  with 1(1) cs(1) that show thesis by blast
qed

end
