(* ===== verification/Effect_Rows.thy ===== *)
theory Effect_Rows
  imports Effect_Ways
begin

text \<open>
  The rows the solver stores. A row is exact when it holds the effects that may affect its routine,
  each with its way; solving a component, seeding a leaf or copying a settled row adds exact rows and
  keeps the ones before. The ids never run out: the universe only holds effects of the least solution.
\<close>

section \<open>The universe within the effects of the program\<close>

definition effect_room :: "effect_identity set \<Rightarrow> bool" where
  "effect_room E \<longleftrightarrow> finite E \<and> card E < 2 ^ 32"

definition within :: "effect_identity set \<Rightarrow> universe \<Rightarrow> bool" where
  "within E u \<longleftrightarrow> uni_ok u \<and> set (by_id u) \<subseteq> E"

lemma within_len: "effect_room E \<Longrightarrow> within E u \<Longrightarrow> uni_len u < 2 ^ 32"
  using card_mono [of E "set (by_id u)"] by (auto simp: effect_room_def within_def uni_ok_def table_ok_def uni_len_def distinct_card)

lemma intern_within: "effect_room E \<Longrightarrow> within E u \<Longrightarrow> e \<in> E \<Longrightarrow> within E (snd (uni_intern e u))"
  using effect_ids.ok_intern [of u e] within_len [of E u]
  by (auto simp: within_def uni_intern_def Let_def split: option.split)

lemma intern_bits_within:
  "effect_room E \<Longrightarrow> within E (fst s) \<Longrightarrow> set es \<subseteq> E \<Longrightarrow> within E (fst (fold intern_bit es s))"
proof (induction es arbitrary: s)
  case (Cons e es)
  obtain u bits where s: "s = (u, bits)" by fastforce
  have "within E (fst (intern_bit e (u, bits)))" using intern_within [OF Cons.prems(1), of u e] Cons.prems(2,3) s
    by (auto simp: intern_bit_def split: prod.split)
  with Cons.IH [OF Cons.prems(1), of "intern_bit e s"] Cons.prems(3) s show ?case by simp
qed simp

lemma add_members_within:
  assumes "ri_ok (in_interner si)" "effect_room E"
    "\<forall>m \<in> set ms. interned si m \<and> fact_identities facts m \<subseteq> E" "within E u"
    "try_fold (add_member_pd si facts) ms (u, by_member) = Some (u', by')"
  shows "within E u'"
  using assms(3-5)
proof (induction ms arbitrary: u by_member)
  case (Cons m ms)
  obtain v bits where v: "member_pd facts m u = (v, bits)" by fastforce
  let ?es = "map (\<lambda>f. make_identity (pf_base f) (ParameterDependent (pf_param_index f))) (filter (\<lambda>f. pf_routine_id f = m) facts)"
  have "set ?es \<subseteq> E" using Cons.prems(1) by (auto simp: fact_identities_def)
  from intern_bits_within [OF assms(2) _ this, of "(u, [])"] have "within E v"
    using Cons.prems(2) v by (simp add: member_pd_fold)
  moreover have "try_fold (add_member_pd si facts) ms (v, by_member(number_of si m \<mapsto> bits)) = Some (u', by')"
    using Cons.prems(1,3) add_member_pd_eq [OF assms(1) _ v] by simp
  ultimately show ?case using Cons.IH Cons.prems(1) by simp
qed simp

lemma closed_form_within:
  assumes ok: "ri_ok (in_interner si)" "\<forall>m \<in> set (members eff). interned si m" and E: "effect_room E" "within E u"
    and sub: "union_effects si (members eff) db terms u \<subseteq> E" "\<forall>m \<in> set (members eff). fact_identities facts m \<subseteq> E"
    and run: "closed_form_union eff si db facts terms u = Some (p, u')"
  shows "within E u'"
proof -
  let ?ms = "members eff"
  obtain u1 c1 where 1: "union_own si ?ms (u, []) = (u1, c1)" by fastforce
  obtain u2 c2 where 2: "union_emissions terms (u1, union_settled si ?ms db c1) = (u2, c2)" by fastforce
  obtain by' where 3: "try_fold (add_member_pd si facts) ?ms (u2, Map.empty) = Some (u', by')"
    using run by (auto simp: closed_form_union_def 1 2 bind_eq_Some_conv)
  have "set (concat (map (\<lambda>m. filter terminal (map own_identity (own_db_effects si m))) ?ms)) \<subseteq> E"
    using sub(1) by (force simp: union_effects_def own_identities_def)
  from intern_bits_within [OF E(1) _ this, of "(u, [])"] have "within E u1" using E(2) 1 by (simp add: union_own_fold)
  moreover have "set (map (\<lambda>t. make_identity (te_base t) (te_temp t)) terms) \<subseteq> E" using sub(1) by (auto simp: union_effects_def)
  from intern_bits_within [OF E(1) _ this, of "(u1, union_settled si ?ms db c1)"]
  have "within E u1 \<Longrightarrow> within E u2" using 2 by (simp add: union_emissions_fold)
  ultimately have "within E u2" by blast
  then show ?thesis using add_members_within [OF ok(1) E(1) _ _ 3] ok(2) sub(2) by blast
qed

section \<open>Exact rows\<close>

definition row_exact ::
  "solver_inputs \<Rightarrow> flow_spec \<Rightarrow> (string \<Rightarrow> effect_identity \<Rightarrow> via) \<Rightarrow> universe \<Rightarrow> bundle_builder \<Rightarrow> string \<Rightarrow> bool" where
  "row_exact si fs way u db m \<longleftrightarrow>
     interned si m \<and> has_raw_row db (number_of si m) \<and>
     effs u (terminal_bits db (number_of si m)) = {e. terminal e \<and> affects si fs m e} \<and>
     distinct (pd_ids db (number_of si m)) \<and>
     (\<lambda>i. the (uni_identity u i)) ` set (pd_ids db (number_of si m)) = {e. \<not> terminal e \<and> affects si fs m e} \<and>
     (\<exists>es. row_effects db (number_of si m) = Some es \<and>
       (\<forall>(i, v) \<in> set es. \<exists>e. uni_get u e = Some i \<and> affects si fs m e \<and> v = way m e))"

text \<open>
  The builder during the solve: its sets and rows hold ids of the universe, the columns have the
  lengths the freeze relies on, and the rows are the exact rows of the routines settled so far.
\<close>

definition row_fits :: "universe \<Rightarrow> u64 list list \<Rightarrow> raw_row \<Rightarrow> bool" where
  "row_fits u arena raw \<longleftrightarrow>
     unat (rr_terminal_set raw) < length arena \<and>
     length (rr_base_via raw) = length (iter_set_bits (arena ! unat (rr_terminal_set raw))) \<and>
     length (rr_pd_delta raw) = length (rr_delta_via raw) \<and>
     (\<forall>i \<in> set (rr_pd_delta raw). unat i < uni_len u)"

definition store_fits :: "universe \<Rightarrow> bundle_builder \<Rightarrow> bool" where
  "store_fits u db \<longleftrightarrow> (\<forall>bits \<in> set (bb_arena db). bits_known u bits) \<and>
     (\<forall>t raw. bb_rows db t = Some raw \<longrightarrow> row_fits u (bb_arena db) raw)"

definition rows_settled ::
  "solver_inputs \<Rightarrow> flow_spec \<Rightarrow> (string \<Rightarrow> effect_identity \<Rightarrow> via) \<Rightarrow> string set \<Rightarrow> universe \<Rightarrow> bundle_builder \<Rightarrow> bool" where
  "rows_settled si fs way S u db \<longleftrightarrow>
     store_fits u db \<and> (\<forall>m \<in> S. row_exact si fs way u db m) \<and>
     (\<forall>t. has_raw_row db t \<longrightarrow> (\<exists>m \<in> S. interned si m \<and> t = number_of si m))"

lemma store_fits_known:
  assumes "store_fits u db"
  shows "rows_known si db u" "rows_bits_known db u"
proof -
  show "rows_known si db u"
  proof (unfold rows_known_def, intro allI ballI)
    fix t i
    assume "i \<in> set (pd_ids db t)"
    then obtain raw where "bb_rows db t = Some raw" "i \<in> set (rr_pd_delta raw)"
      by (cases "bb_rows db t") (auto simp: pd_ids_def)
    then show "unat i < uni_len u" using assms unfolding store_fits_def row_fits_def by blast
  qed
  show "rows_bits_known db u"
  proof (unfold rows_bits_known_def, intro allI impI)
    fix t
    assume "has_raw_row db t"
    then obtain raw where raw: "bb_rows db t = Some raw" by (auto simp: has_raw_row_def)
    then have "bb_arena db ! unat (rr_terminal_set raw) \<in> set (bb_arena db)" using assms nth_mem unfolding store_fits_def row_fits_def by blast
    then show "bits_known u (terminal_bits db t)" using assms by (simp add: terminal_bits_def raw store_fits_def)
  qed
qed

lemma store_fits_grow: "store_fits u db \<Longrightarrow> uni_grows u u' \<Longrightarrow> store_fits u' db"
  by (fastforce simp: store_fits_def row_fits_def uni_grows_def intro: known_grows [unfolded uni_grows_def])

lemma row_exact_grow:
  assumes "uni_ok u" "uni_ok u'" "uni_grows u u'" "store_fits u db" "row_exact si fs way u db m"
  shows "row_exact si fs way u' db m"
proof -
  note known = store_fits_known [OF assms(4)]
  let ?t = "number_of si m"
  have "has_raw_row db ?t" using assms(5) by (simp add: row_exact_def)
  then have "bits_known u (terminal_bits db ?t)" using known(2) by (simp add: rows_bits_known_def)
  then have "effs u' (terminal_bits db ?t) = effs u (terminal_bits db ?t)" using effs_grows [OF assms(1-3)] by blast
  moreover have "the (uni_identity u' i) = the (uni_identity u i)" if "i \<in> set (pd_ids db ?t)" for i
  proof -
    have "unat i < uni_len u" using known(1) that by (simp add: rows_known_def)
    then obtain e where "uni_identity u i = Some e" by (auto simp: uni_identity_def uni_len_def)
    with uni_grows_identity [OF assms(1-3)] show ?thesis by simp
  qed
  then have "(\<lambda>i. the (uni_identity u' i)) ` set (pd_ids db ?t) = (\<lambda>i. the (uni_identity u i)) ` set (pd_ids db ?t)" by (rule image_cong [OF refl])
  moreover obtain es where "row_effects db ?t = Some es" "\<forall>(i, v) \<in> set es. \<exists>e. uni_get u e = Some i \<and> affects si fs m e \<and> v = way m e"
    using assms(5) unfolding row_exact_def by blast
  moreover from this(2) have "\<forall>(i, v) \<in> set es. \<exists>e. uni_get u' e = Some i \<and> affects si fs m e \<and> v = way m e"
    using assms(3) unfolding uni_grows_def by blast
  ultimately show ?thesis using assms(5) unfolding row_exact_def by simp
qed

lemma rows_settled_grow:
  "uni_ok u \<Longrightarrow> uni_ok u' \<Longrightarrow> uni_grows u u' \<Longrightarrow> rows_settled si fs way S u db \<Longrightarrow> rows_settled si fs way S u' db"
  using row_exact_grow store_fits_grow unfolding rows_settled_def by metis

section \<open>The rows of a component\<close>

definition member_row :: "solver_inputs \<Rightarrow> scc_presence \<Rightarrow> via_map \<Rightarrow> u32 \<Rightarrow> string \<Rightarrow> raw_row" where
  "member_row si p vm s m =
     (let delta = (case sp_pd_by_member p (number_of si m) of None \<Rightarrow> [] | Some bits \<Rightarrow> iter_set_bits bits) in
      \<lparr> rr_terminal_set = s, rr_base_via = map (\<lambda>i. way_in vm (number_of si m, i)) (iter_set_bits (sp_terminal_union p)),
        rr_pd_delta = delta, rr_delta_via = map (\<lambda>i. way_in vm (number_of si m, i)) delta \<rparr>)"

lemma write_rows:
  assumes "ri_ok (in_interner si)" "\<forall>m \<in> set ms. interned si m" "distinct ms"
  shows "\<exists>db'. try_fold (write_row si p vm s) ms db = Some db' \<and> bb_arena db' = bb_arena db \<and>
    (\<forall>m \<in> set ms. bb_rows db' (number_of si m) = Some (member_row si p vm s m)) \<and>
    (\<forall>t. t \<notin> number_of si ` set ms \<longrightarrow> bb_rows db' t = bb_rows db t)"
  using assms(2,3)
proof (induction ms arbitrary: db)
  case (Cons m ms)
  let ?db = "db\<lparr> bb_rows := (bb_rows db)(number_of si m \<mapsto> member_row si p vm s m) \<rparr>"
  have one: "write_row si p vm s m db = Some ?db"
    using interned_name(1) [OF assms(1)] Cons.prems(1)
    by (simp add: write_row_def materialize_member_row_def push_row_def member_row_def way_in_def Let_def split: option.split)
  have other: "number_of si m \<notin> number_of si ` set ms" using Cons.prems number_inj [OF assms(1)] by auto
  obtain db' where db': "try_fold (write_row si p vm s) ms ?db = Some db'" "bb_arena db' = bb_arena ?db"
    "\<forall>m \<in> set ms. bb_rows db' (number_of si m) = Some (member_row si p vm s m)"
    "\<forall>t. t \<notin> number_of si ` set ms \<longrightarrow> bb_rows db' t = bb_rows ?db t"
    using Cons.IH [of ?db] Cons.prems by auto
  then have "bb_rows db' (number_of si m) = Some (member_row si p vm s m)" using other by simp
  with db' one show ?case by (intro exI [of _ db']) auto
qed simp

text \<open>A row in the table holds the ids and ways of its parts.\<close>

lemma row_parts:
  assumes "bb_rows db t = Some raw"
  shows "has_raw_row db t" "terminal_bits db t = bb_arena db ! unat (rr_terminal_set raw)" "pd_ids db t = rr_pd_delta raw"
    "row_effects db t = Some (zip (iter_set_bits (bb_arena db ! unat (rr_terminal_set raw))) (rr_base_via raw) @
       zip (rr_pd_delta raw) (rr_delta_via raw))"
  by (simp_all add: has_raw_row_def terminal_bits_def pd_ids_def row_effects_def assms)

lemma zip_map_mem: "(\<forall>(i, v) \<in> set (zip is (map f is)). P i v) \<longleftrightarrow> (\<forall>i \<in> set is. P i (f i))"
  by (simp add: zip_map2 zip_same_conv_map)

text \<open>The presence of a group of routines: the effects that may affect them.\<close>

definition presence_exact :: "solver_inputs \<Rightarrow> flow_spec \<Rightarrow> string list \<Rightarrow> scc_presence \<Rightarrow> universe \<Rightarrow> bool" where
  "presence_exact si fs ms p u \<longleftrightarrow>
     ri_ok (in_interner si) \<and> uni_ok u \<and> bits_known u (sp_terminal_union p) \<and>
     (\<forall>m \<in> set ms. interned si m \<and>
       effs u (sp_terminal_union p) = {e. terminal e \<and> affects si fs m e} \<and>
       (\<exists>bits. sp_pd_by_member p (number_of si m) = Some bits \<and> bits_known u bits \<and>
         effs u bits = {e. \<not> terminal e \<and> affects si fs m e}))"

lemma presence_ok_exact: "presence_ok si fs ms db p u \<Longrightarrow> presence_exact si fs ms p u"
  by (simp add: presence_ok_def presence_exact_def member_ok_def)

lemma iter_identities:
  assumes u: "uni_ok u" and bits: "bits_known u bits"
  shows "(\<lambda>i. the (uni_identity u i)) ` set (iter_set_bits bits) = effs u bits"
proof -
  have "e \<in> (\<lambda>i. the (uni_identity u i)) ` {i. has_bit bits i} \<longleftrightarrow> e \<in> effs u bits" for e
  proof
    assume "e \<in> (\<lambda>i. the (uni_identity u i)) ` {i. has_bit bits i}"
    then obtain i where i: "has_bit bits i" "e = the (uni_identity u i)" by blast
    then have "unat i < uni_len u" using bits by (simp add: bits_known_def)
    then obtain e' where "uni_identity u i = Some e'" "uni_get u e' = Some i" using id_identity [OF u] by blast
    with i show "e \<in> effs u bits" by (auto simp: effs_def)
  next
    assume "e \<in> effs u bits"
    then obtain i where "has_bit bits i" "uni_get u e = Some i" by (auto simp: effs_def)
    then show "e \<in> (\<lambda>i. the (uni_identity u i)) ` {i. has_bit bits i}" using identity_get [OF u, of i e] by force
  qed
  then show ?thesis by (auto simp: effs_iter [OF bits])
qed

lemma member_row_exact:
  assumes p: "presence_exact si fs ms p u" and m: "m \<in> set ms"
    and row: "bb_rows db (number_of si m) = Some (member_row si p vm s m)" "bb_arena db ! unat s = sp_terminal_union p"
    and ways: "\<And>e i. uni_get u e = Some i \<Longrightarrow> affects si fs m e \<Longrightarrow> way_in vm (number_of si m, i) = way m e"
  shows "row_exact si fs way u db m"
proof -
  obtain bits where bits: "sp_pd_by_member p (number_of si m) = Some bits" "bits_known u bits"
      "effs u bits = {e. \<not> terminal e \<and> affects si fs m e}" using p m unfolding presence_exact_def by blast
  have u: "uni_ok u" and c: "bits_known u (sp_terminal_union p)" "effs u (sp_terminal_union p) = {e. terminal e \<and> affects si fs m e}"
    and int: "interned si m" using p m by (auto simp: presence_exact_def)
  have raw: "rr_terminal_set (member_row si p vm s m) = s" "rr_pd_delta (member_row si p vm s m) = iter_set_bits bits"
    "rr_base_via (member_row si p vm s m) = map (\<lambda>i. way_in vm (number_of si m, i)) (iter_set_bits (sp_terminal_union p))"
    "rr_delta_via (member_row si p vm s m) = map (\<lambda>i. way_in vm (number_of si m, i)) (iter_set_bits bits)"
    by (simp_all add: member_row_def bits(1) Let_def)
  note parts = row_parts [OF row(1), unfolded raw row(2)]
  note image = iter_identities [OF u bits(2)]
  have at: "\<exists>e. uni_get u e = Some i \<and> affects si fs m e \<and> way_in vm (number_of si m, i) = way m e"
    if "has_bit (sp_terminal_union p) i \<or> has_bit bits i" for i
    using that effs_bit [OF u c(1), of i] effs_bit [OF u bits(2), of i] ways unfolding c(2) bits(3) by blast
  have "\<forall>(i, v) \<in> set (zip (iter_set_bits (sp_terminal_union p)) (map (\<lambda>i. way_in vm (number_of si m, i)) (iter_set_bits (sp_terminal_union p))) @
      zip (iter_set_bits bits) (map (\<lambda>i. way_in vm (number_of si m, i)) (iter_set_bits bits))). \<exists>e. uni_get u e = Some i \<and> affects si fs m e \<and> v = way m e"
    unfolding set_append ball_Un zip_map_mem effs_iter [OF c(1)] effs_iter [OF bits(2)] using at by blast
  moreover have "distinct (iter_set_bits bits)" using iter_props(2) bits(2) by (simp add: bits_known_def)
  ultimately show ?thesis unfolding row_exact_def parts image using int c(2) bits(3) parts(1) by blast
qed

section \<open>Solving a component\<close>

lemma settled_rows_ok:
  assumes ri: "ri_ok (in_interner si)" and rows: "rows_settled si fs way S u db"
    and outer: "\<forall>m \<in> set ms. \<forall>ed \<in> set (outer_edges si ms m). ce_to ed \<in> S \<or> (\<forall>e. \<not> affects si fs (ce_to ed) e)"
  shows "settled_ok si fs ms db u"
proof -
  have exact: "settled_terminal si db u c = {e. terminal e \<and> affects si fs c e} \<and> set (settled_pd si db u c) = {e. \<not> terminal e \<and> affects si fs c e}"
    if "c \<in> S" for c
  proof -
    have "row_exact si fs way u db c" using rows that by (simp add: rows_settled_def)
    then show ?thesis using interned_name(1) [OF ri, of c] by (simp add: row_exact_def settled_terminal_def settled_pd_def)
  qed
  have empty: "settled_terminal si db u c = {} \<and> settled_pd si db u c = []" if "c \<notin> S" for c
  proof (cases "ri_get (in_interner si) c")
    case (Some t)
    then have c: "interned si c" "t = number_of si c" by (simp_all add: interned_def number_of_def)
    have "\<not> has_raw_row db t"
    proof
      assume "has_raw_row db t"
      then obtain m where "m \<in> S" "interned si m" "t = number_of si m" using rows unfolding rows_settled_def by blast
      with c number_inj [OF ri] that show False by metis
    qed
    then show ?thesis by (simp add: settled_terminal_def settled_pd_def Some)
  qed (simp add: settled_terminal_def settled_pd_def)
  show ?thesis unfolding settled_ok_def
  proof (intro ballI allI)
    fix m ed e
    assume m: "m \<in> set ms" "ed \<in> set (outer_edges si ms m)"
    show "(e \<in> settled_terminal si db u (ce_to ed) \<longleftrightarrow> terminal e \<and> affects si fs (ce_to ed) e) \<and>
      (e \<in> set (settled_pd si db u (ce_to ed)) \<longleftrightarrow> \<not> terminal e \<and> affects si fs (ce_to ed) e)"
    proof (cases "ce_to ed \<in> S")
      case True
      then show ?thesis using exact by blast
    next
      case False
      then have "\<forall>e. \<not> affects si fs (ce_to ed) e" using outer m by blast
      with empty [OF False] show ?thesis by simp
    qed
  qed
qed

lemma store_fits_rows:
  assumes fits: "store_fits u db" and known: "bits_known u C" and len: "length (bb_arena db) < 2 ^ 32"
    and s: "s = of_nat (length (bb_arena db))" and arena: "bb_arena db' = bb_arena db @ [C]"
    and rows: "\<And>t raw. bb_rows db' t = Some raw \<Longrightarrow> bb_rows db t = Some raw \<or>
      (rr_terminal_set raw = s \<and> length (rr_base_via raw) = length (iter_set_bits C) \<and>
       length (rr_pd_delta raw) = length (rr_delta_via raw) \<and> (\<forall>i \<in> set (rr_pd_delta raw). unat i < uni_len u))"
  shows "store_fits u db'"
proof -
  have "unat s = length (bb_arena db)" unfolding s by (rule of_nat_inverse [OF refl]) (use len in simp)
  then have new: "row_fits u (bb_arena db @ [C]) raw" if "rr_terminal_set raw = s \<and> length (rr_base_via raw) = length (iter_set_bits C) \<and>
       length (rr_pd_delta raw) = length (rr_delta_via raw) \<and> (\<forall>i \<in> set (rr_pd_delta raw). unat i < uni_len u)" for raw
    using that by (simp add: row_fits_def)
  have old: "row_fits u (bb_arena db @ [C]) raw" if "row_fits u (bb_arena db) raw" for raw
    using that by (simp add: row_fits_def nth_append)
  show ?thesis using fits known rows new old unfolding store_fits_def arena by fastforce
qed

text \<open>What a component is, to the solve: recomputed, connected, and calling settled routines only.\<close>

definition component_ready :: "solver_inputs \<Rightarrow> flow_spec \<Rightarrow> string set \<Rightarrow> string list \<Rightarrow> bool" where
  "component_ready si fs S ms \<longleftrightarrow>
     distinct ms \<and> set ms \<inter> S = {} \<and> (\<forall>m \<in> set ms. member_ok si fs m) \<and>
     (\<exists>kept. (\<forall>x \<in> set kept. fs_solved fs x \<and> in_routines si x \<noteq> None) \<and>
       (\<forall>m \<in> set ms. \<forall>v \<in> set ms. (m, v) \<in> (edge (induced_graph (in_graph si) kept))\<^sup>*)) \<and>
     (\<forall>m \<in> set ms. \<forall>ed \<in> set (outer_edges si ms m). ce_to ed \<in> S \<or> (\<forall>e. \<not> affects si fs (ce_to ed) e))"

lemma component_presence:
  assumes ri: "ri_ok (in_interner si)" and E: "effect_room E" "within E u" "\<forall>m e. affects si fs m e \<longrightarrow> e \<in> E"
    and rows: "rows_settled si fs way S u db" and ready: "component_ready si fs S (members eff)"
  obtains facts terms p u' where "solve_pd_reachability eff si db u = Some (facts, terms)"
    "closed_form_union eff si db facts terms u = Some (p, u')" "within E u'" "uni_grows u u'"
    "presence_ok si fs (members eff) db p u'"
proof -
  let ?ms = "members eff"
  have ms: "\<forall>m \<in> set ?ms. member_ok si fs m" "distinct ?ms" and int: "\<forall>m \<in> set ?ms. interned si m"
    using ready by (auto simp: component_ready_def member_ok_def)
  have fits: "store_fits u db" using rows by (simp add: rows_settled_def)
  note known = store_fits_known [OF fits]
  have settled: "settled_ok si fs ?ms db u" using settled_rows_ok [OF ri rows] ready by (simp add: component_ready_def)
  obtain facts terms where pd: "solve_pd_reachability eff si db u = Some (facts, terms)" "reports_flow si ?ms db u facts terms"
    using pd_reachability_flow [OF ri int known(1)] unfolding reports_flow_def by metis
  obtain kept where kept: "\<forall>x \<in> set kept. fs_solved fs x \<and> in_routines si x \<noteq> None"
    "\<forall>m \<in> set ?ms. \<forall>v \<in> set ?ms. (m, v) \<in> (edge (induced_graph (in_graph si) kept))\<^sup>*"
    using ready unfolding component_ready_def by blast
  note exact = component_exact [OF ms(1) settled pd(2) kept(2,1)]
  obtain p u' where union: "closed_form_union eff si db facts terms u = Some (p, u')"
    using closed_form_total [OF ri int] by blast
  have sub: "union_effects si ?ms db terms u \<subseteq> E"
  proof (cases "?ms = []")
    case True
    then have "terms = []" using pd(1) by (auto simp: solve_pd_reachability_def seed_pd_def try_while_unfold sort_terminals_def split: bind_splits)
    with True show ?thesis by (simp add: union_effects_def)
  next
    case False
    then obtain m where "m \<in> set ?ms" by (cases ?ms) auto
    from exact(1) [OF this] E(3) show ?thesis by blast
  qed
  have facts: "\<forall>m \<in> set ?ms. fact_identities facts m \<subseteq> E" using exact(2) E(3) by blast
  have within: "within E u'" by (rule closed_form_within [OF ri int E(1,2) sub facts union])
  have uok: "uni_ok u" using E(2) by (simp add: within_def)
  note spec = closed_form_spec [OF ri int ms(2) uok known(2) union within_len [OF E(1) within]]
  have rows': "rows_settled si fs way S u' db" by (rule rows_settled_grow [OF uok spec(1,2) rows])
  have "settled_ok si fs ?ms db u'" using settled_rows_ok [OF ri rows'] ready by (simp add: component_ready_def)
  moreover have "store_fits u' db" using rows' by (simp add: rows_settled_def)
  ultimately have "presence_ok si fs ?ms db p u'"
    using ri spec(1,3) ms(1) store_fits_known [of u' db] spec(4,5) exact
    unfolding presence_ok_def by (simp add: set_eq_iff)
  with pd(1) union within spec(2) show thesis by (rule that)
qed

text \<open>The rows of the routines settled before do not change.\<close>

lemma row_exact_kept:
  assumes "row_exact si fs way u db m" "bb_rows db' (number_of si m) = bb_rows db (number_of si m)" "bb_arena db' = bb_arena db @ [C]"
    "store_fits u db"
  shows "row_exact si fs way u db' m"
proof -
  obtain raw where raw: "bb_rows db (number_of si m) = Some raw" using assms(1) by (auto simp: row_exact_def has_raw_row_def)
  then have "unat (rr_terminal_set raw) < length (bb_arena db)" using assms(4) by (auto simp: store_fits_def row_fits_def)
  then have "bb_arena db' ! unat (rr_terminal_set raw) = bb_arena db ! unat (rr_terminal_set raw)" by (simp add: assms(3) nth_append)
  then show ?thesis using assms(1) by (simp add: row_exact_def has_raw_row_def terminal_bits_def pd_ids_def row_effects_def assms(2) raw)
qed

lemma member_row_fits:
  assumes p: "presence_exact si fs ms p u" and m: "m \<in> set ms"
  shows "length (rr_base_via (member_row si p vm s m)) = length (iter_set_bits (sp_terminal_union p))"
    "length (rr_pd_delta (member_row si p vm s m)) = length (rr_delta_via (member_row si p vm s m))"
    "\<forall>i \<in> set (rr_pd_delta (member_row si p vm s m)). unat i < uni_len u"
proof -
  obtain bits where bits: "sp_pd_by_member p (number_of si m) = Some bits" "bits_known u bits"
    using p m unfolding presence_exact_def by blast
  then show "length (rr_base_via (member_row si p vm s m)) = length (iter_set_bits (sp_terminal_union p))"
    "length (rr_pd_delta (member_row si p vm s m)) = length (rr_delta_via (member_row si p vm s m))"
    "\<forall>i \<in> set (rr_pd_delta (member_row si p vm s m)). unat i < uni_len u"
    using effs_iter [OF bits(2)] by (simp_all add: member_row_def Let_def bits_known_def)
qed

lemma members_written:
  assumes p: "presence_exact si fs ms p u" and rows: "rows_settled si fs way S u db"
    and ms: "distinct ms" "set ms \<inter> S = {}" and len: "length (bb_arena db) < 2 ^ 32"
    and ways: "\<And>m e i. m \<in> set ms \<Longrightarrow> uni_get u e = Some i \<Longrightarrow> affects si fs m e \<Longrightarrow> way_in vm (number_of si m, i) = way m e"
  obtains db' where "try_fold (write_row si p vm (of_nat (length (bb_arena db)))) ms
      (db\<lparr> bb_arena := bb_arena db @ [sp_terminal_union p] \<rparr>) = Some db'"
    "rows_settled si fs way (S \<union> set ms) u db'" "length (bb_arena db') = Suc (length (bb_arena db))"
proof -
  let ?s = "of_nat (length (bb_arena db)) :: u32" and ?C = "sp_terminal_union p"
  have ri: "ri_ok (in_interner si)" and int: "\<forall>m \<in> set ms. interned si m" and C: "bits_known u ?C"
    using p by (auto simp: presence_exact_def)
  obtain db' where db': "try_fold (write_row si p vm ?s) ms (db\<lparr> bb_arena := bb_arena db @ [?C] \<rparr>) = Some db'"
    "bb_arena db' = bb_arena db @ [?C]"
    "\<forall>m \<in> set ms. bb_rows db' (number_of si m) = Some (member_row si p vm ?s m)"
    "\<forall>t. t \<notin> number_of si ` set ms \<longrightarrow> bb_rows db' t = bb_rows db t"
    using write_rows [OF ri int ms(1), of p vm ?s "db\<lparr> bb_arena := bb_arena db @ [?C] \<rparr>"] by auto
  have fits: "store_fits u db" using rows by (simp add: rows_settled_def)
  have s: "unat ?s = length (bb_arena db)" by (rule of_nat_inverse [OF refl]) (use len in simp)
  have new: "row_exact si fs way u db' m" if "m \<in> set ms" for m
    using member_row_exact [OF p that, of db' vm ?s] db'(2,3) s ways that by simp
  have old: "row_exact si fs way u db' m" if "m \<in> S" for m
  proof (rule row_exact_kept [OF _ _ db'(2) fits])
    show exact: "row_exact si fs way u db m" using rows that by (simp add: rows_settled_def)
    then have "number_of si m \<notin> number_of si ` set ms" using ms(2) int that number_inj [OF ri] by (fastforce simp: row_exact_def)
    then show "bb_rows db' (number_of si m) = bb_rows db (number_of si m)" using db'(4) by blast
  qed
  have row: "bb_rows db t = Some raw \<or> (rr_terminal_set raw = ?s \<and> length (rr_base_via raw) = length (iter_set_bits ?C) \<and>
       length (rr_pd_delta raw) = length (rr_delta_via raw) \<and> (\<forall>i \<in> set (rr_pd_delta raw). unat i < uni_len u))"
    if raw: "bb_rows db' t = Some raw" for t raw
  proof (cases "t \<in> number_of si ` set ms")
    case True
    then obtain m where m: "m \<in> set ms" "raw = member_row si p vm ?s m" using db'(3) raw by auto
    have "rr_terminal_set raw = ?s" by (simp add: m(2) member_row_def Let_def)
    with member_row_fits [OF p m(1), of vm ?s] show ?thesis unfolding m(2) by blast
  qed (use db'(4) raw in simp)
  have "\<exists>m \<in> S \<union> set ms. interned si m \<and> t = number_of si m" if "has_raw_row db' t" for t
  proof (cases "t \<in> number_of si ` set ms")
    case False
    then have "has_raw_row db t" using db'(4) that by (simp add: has_raw_row_def)
    then show ?thesis using rows unfolding rows_settled_def by blast
  qed (use int in blast)
  then have "rows_settled si fs way (S \<union> set ms) u db'"
    using new old store_fits_rows [OF fits C len refl db'(2) row] unfolding rows_settled_def by blast
  with db'(1,2) that show thesis by simp
qed

lemma component_rows:
  assumes ri: "ri_ok (in_interner si)" and E: "effect_room E" "within E u" "\<forall>m e. affects si fs m e \<longrightarrow> e \<in> E"
    and rows: "rows_settled si fs way S u db" and ready: "component_ready si fs S (members eff)"
    and way: "\<forall>m \<in> set (members eff). way m = best_way si fs m" and len: "length (bb_arena db) < 2 ^ 32"
  shows "\<exists>u' db'. solve_effects eff si (u, db) = Some (u', db') \<and> within E u' \<and> uni_grows u u' \<and>
    rows_settled si fs way (S \<union> set (members eff)) u' db' \<and> length (bb_arena db') = Suc (length (bb_arena db))"
proof -
  let ?ms = "members eff"
  obtain facts terms p u' where p: "solve_pd_reachability eff si db u = Some (facts, terms)"
    "closed_form_union eff si db facts terms u = Some (p, u')" "within E u'" "uni_grows u u'"
    "presence_ok si fs ?ms db p u'" by (rule component_presence [OF ri E rows ready])
  have ms: "distinct ?ms" "set ?ms \<inter> S = {}" using ready by (auto simp: component_ready_def)
  obtain vm1 vm where vm: "reconstruct_via eff si p db u' = Some vm1" "attribute_pd_substituted_via eff si p db u' vm1 = Some vm"
    "\<And>m e i. m \<in> set ?ms \<Longrightarrow> uni_get u' e = Some i \<Longrightarrow> affects si fs m e \<Longrightarrow> way_in vm (number_of si m, i) = best_way si fs m e"
    by (rule ways_exact [OF p(5) ms(1)]) blast
  have "uni_ok u" "uni_ok u'" using E(2) p(3) by (simp_all add: within_def)
  then have rows': "rows_settled si fs way S u' db" using rows_settled_grow p(4) rows by blast
  obtain db' where db': "try_fold (write_row si p vm (of_nat (length (bb_arena db)))) ?ms
      (db\<lparr> bb_arena := bb_arena db @ [sp_terminal_union p] \<rparr>) = Some db'"
    "rows_settled si fs way (S \<union> set ?ms) u' db'" "length (bb_arena db') = Suc (length (bb_arena db))"
    by (rule members_written [OF presence_ok_exact [OF p(5)] rows' ms len, of vm]) (use vm(3) way in simp_all)
  then have "solve_effects eff si (u, db) = Some (u', db')"
    by (simp add: solve_effects_def p(1,2) vm(1,2) push_terminal_set_def)
  with p(3,4) db'(2,3) show ?thesis by blast
qed


section \<open>Seeding settled rows\<close>

lemma seed_effects_spec:
  assumes "effect_room E" "within E u" "fst ` set es \<subseteq> E"
  shows "\<exists>u' T P V. fold seed_effect es (u, [], [], Map.empty) = (u', T, P, V) \<and> within E u' \<and> uni_grows u u' \<and>
    bits_known u' T \<and> bits_known u' P \<and> effs u' T = {e \<in> fst ` set es. terminal e} \<and> effs u' P = {e \<in> fst ` set es. \<not> terminal e} \<and>
    (\<forall>e i. uni_get u' e = Some i \<longrightarrow> V i = (if e \<in> fst ` set es then map_of (rev es) e else None))"
  using assms(3)
proof (induction es rule: rev_induct)
  case Nil
  then show ?case using assms(2) by simp
next
  case (snoc x es)
  obtain e v where x: "x = (e, v)" by fastforce
  from snoc obtain u' T P V where IH: "fold seed_effect es (u, [], [], Map.empty) = (u', T, P, V)" "within E u'" "uni_grows u u'"
    "bits_known u' T" "bits_known u' P" "effs u' T = {e \<in> fst ` set es. terminal e}" "effs u' P = {e \<in> fst ` set es. \<not> terminal e}"
    "\<forall>e i. uni_get u' e = Some i \<longrightarrow> V i = (if e \<in> fst ` set es then map_of (rev es) e else None)" by auto
  obtain i u2 where i: "uni_intern e u' = (i, u2)" by fastforce
  have w2: "within E u2" using intern_within [OF assms(1) IH(2), of e] i snoc.prems x by simp
  have ok: "uni_ok u'" "uni_ok u2" using IH(2) w2 by (simp_all add: within_def)
  have set_one: "uni_grows u' u2 \<and> bits_known u2 (set_bit_at B i) \<and> effs u2 (set_bit_at B i) = insert e (effs u' B) \<and>
      bits_known u2 B \<and> effs u2 B = effs u' B" if "bits_known u' B" for B
    using intern_bit_spec [OF ok(1) that, of e u2 "set_bit_at B i"] i within_len [OF assms(1) w2]
      effs_grows [OF ok(1,2) _ that] known_grows [OF that, of u2] by (simp add: intern_bit_def)
  have get: "uni_get u2 e = Some i" using effect_ids.get_intern [OF ok(1), of e] i by simp
  have V: "(V(i \<mapsto> v)) i' = (if e' \<in> fst ` set (es @ [x]) then map_of (rev (es @ [x])) e' else None)" if e': "uni_get u2 e' = Some i'" for e' i'
  proof (cases "e' = e")
    case False
    then have "i' \<noteq> i" using effect_ids.ids_injective [OF ok(2) get] e' by blast
    moreover have "uni_get u' e' = Some i'" using effect_ids.get_only [OF ok(1), of e e' i'] e' False i by simp
    ultimately show ?thesis using IH(8) False x by simp
  qed (use get e' x in simp)
  have finish: ?case if "fold seed_effect (es @ [x]) (u, [], [], Map.empty) = (u2, T', P', V(i \<mapsto> v))" "bits_known u2 T'" "bits_known u2 P'"
    "effs u2 T' = {e' \<in> fst ` set (es @ [x]). terminal e'}" "effs u2 P' = {e' \<in> fst ` set (es @ [x]). \<not> terminal e'}" for T' P'
  proof (intro exI conjI allI impI)
    show "uni_grows u u2" using set_one [OF IH(4)] uni_grows_trans [OF IH(3)] by blast
  qed (rule that w2 V; assumption)+
  show ?case
  proof (cases "terminal e")
    case True
    then have step: "seed_effect x (u', T, P, V) = (u2, set_bit_at T i, P, V(i \<mapsto> v))"
      by (auto simp: seed_effect_def x i terminal_def split: temp_state_kind.split)
    have "fold seed_effect (es @ [x]) (u, [], [], Map.empty) = (u2, set_bit_at T i, P, V(i \<mapsto> v))" using IH(1) step by simp
    moreover have "effs u2 (set_bit_at T i) = {e' \<in> fst ` set (es @ [x]). terminal e'}" "effs u2 (P) = {e' \<in> fst ` set (es @ [x]). \<not> terminal e'}"
      using set_one [OF IH(4)] set_one [OF IH(5)] IH(6,7) True x by auto
    moreover have "bits_known u2 (set_bit_at T i)" "bits_known u2 (P)" using set_one [OF IH(4)] set_one [OF IH(5)] by blast+
    ultimately show ?thesis by (intro finish)
  next
    case False
    then obtain j where "ei_temp e = ParameterDependent j" by (auto simp: terminal_def)
    then have step: "seed_effect x (u', T, P, V) = (u2, T, set_bit_at P i, V(i \<mapsto> v))"
      by (simp add: seed_effect_def x i)
    have "fold seed_effect (es @ [x]) (u, [], [], Map.empty) = (u2, T, set_bit_at P i, V(i \<mapsto> v))" using IH(1) step by simp
    moreover have "effs u2 (T) = {e' \<in> fst ` set (es @ [x]). terminal e'}" "effs u2 (set_bit_at P i) = {e' \<in> fst ` set (es @ [x]). \<not> terminal e'}"
      using set_one [OF IH(4)] set_one [OF IH(5)] IH(6,7) False x by auto
    moreover have "bits_known u2 (T)" "bits_known u2 (set_bit_at P i)" using set_one [OF IH(4)] set_one [OF IH(5)] by blast+
    ultimately show ?thesis by (intro finish)
  qed
qed

lemma seed_row_exact:
  assumes ri: "ri_ok (in_interner si)" and E: "effect_room E" "within E u" "\<forall>m e. affects si fs m e \<longrightarrow> e \<in> E"
    and rows: "rows_settled si fs way S u db" and m: "interned si m" "m \<notin> S"
    and eff: "{e. affects si fs m e} = fst ` set es" "\<And>e v. map_of (rev es) e = Some v \<Longrightarrow> way m e = v"
    and len: "length (bb_arena db) < 2 ^ 32"
  shows "\<exists>u' db'. seed_row (number_of si m) es (u, db) = (u', db') \<and> within E u' \<and> uni_grows u u' \<and>
    rows_settled si fs way (insert m S) u' db' \<and> length (bb_arena db') = Suc (length (bb_arena db))"
proof -
  have "fst ` set es \<subseteq> E" using E(3) eff(1) by blast
  from seed_effects_spec [OF E(1,2) this]
  obtain u' T P V where s: "fold seed_effect es (u, [], [], Map.empty) = (u', T, P, V)" "within E u'" "uni_grows u u'"
    "bits_known u' T" "bits_known u' P" "effs u' T = {e \<in> fst ` set es. terminal e}" "effs u' P = {e \<in> fst ` set es. \<not> terminal e}"
    "\<forall>e i. uni_get u' e = Some i \<longrightarrow> V i = (if e \<in> fst ` set es then map_of (rev es) e else None)" by auto
  have ok: "uni_ok u" "uni_ok u'" using E(2) s(2) by (simp_all add: within_def)
  let ?p = "\<lparr> sp_terminal_union = T, sp_pd_by_member = [number_of si m \<mapsto> P] \<rparr>" and ?vm = "\<lambda>(r, i). V i"
  have p: "presence_exact si fs [m] ?p u'"
    using ri ok(2) s(4-7) m(1) eff(1) by (auto simp: presence_exact_def)
  have ways: "way_in ?vm (number_of si x, i) = way x e" if "x \<in> set [m]" "uni_get u' e = Some i" "affects si fs x e" for x e i
  proof -
    have "e \<in> fst ` set es" using that(1,3) eff(1) by auto
    then obtain v where v: "map_of (rev es) e = Some v" by (metis map_of_eq_None_iff not_None_eq set_rev)
    then have "V i = Some v" using s(8) that(2) \<open>e \<in> fst ` set es\<close> by simp
    with eff(2) [OF v] that(1) show ?thesis by (simp add: way_in_def)
  qed
  obtain db' where db': "try_fold (write_row si ?p ?vm (of_nat (length (bb_arena db)))) [m]
      (db\<lparr> bb_arena := bb_arena db @ [sp_terminal_union ?p] \<rparr>) = Some db'"
    "rows_settled si fs way (S \<union> set [m]) u' db'" "length (bb_arena db') = Suc (length (bb_arena db))"
    by (rule members_written [OF p rows_settled_grow [OF ok s(3) rows] _ _ len, of ?vm]) (use m(2) ways in auto)
  have "seed_row (number_of si m) es (u, db) = (u', db')"
    using db'(1) interned_name(1) [OF ri m(1)]
    by (simp add: write_row_def seed_row_def s(1) push_terminal_set_def materialize_member_row_def Let_def)
  with s(2,3) db'(2,3) show ?thesis by auto
qed

end
