(* ===== verification/Side_Facts.thy ===== *)
theory Side_Facts
  imports Effect_Flow "HOL-Library.AList"
begin

text \<open>
  The side facts of an effective component (\<open>solve_side_facts\<close> of
  \<open>src/src/engine/l4/db_effect_solver.rs\<close>): whether a call of a member stays unresolved, and the
  uncertainties a member reports. Both are computed as one union per component and proved to be the
  least solution over the combined graph: what a routine's own body and sites produce, carried to its
  callers - uncertainties only when their kind is not local to a call site.
\<close>

section \<open>The pass\<close>

definition is_callsite_local_kind :: "string \<Rightarrow> bool" where
  "is_callsite_local_kind kind \<longleftrightarrow>
     kind \<in> {''member-not-found'', ''external-target'', ''ambiguous-overload'', ''interface-open-world''}"

abbreviation propagates :: "uncertainty \<Rightarrow> bool" where
  "propagates u \<equiv> \<not> is_callsite_local_kind (un_kind u)"

text \<open>The shared map, by key; its iteration order is not the order of insertion (see below).\<close>

type_synonym shared_map = "(string \<times> uncertainty) list"

definition fold_shared :: "uncertainty \<Rightarrow> shared_map \<Rightarrow> shared_map" where
  "fold_shared u shared =
     (case map_of shared (uncertainty_key u) of
        Some slot \<Rightarrow> if slot \<noteq> u then AList.update (uncertainty_key u) u shared else shared
      | None \<Rightarrow> shared @ [(uncertainty_key u, u)])"

record side_state =
  ss_shared :: shared_map
  ss_own :: "uncertainty list"
  ss_local_hu :: bool
  ss_shared_hu :: bool

definition fold_propagated :: "uncertainty list \<Rightarrow> shared_map \<Rightarrow> shared_map" where
  "fold_propagated us shared = fold (\<lambda>u shared. if propagates u then fold_shared u shared else shared) us shared"

definition side_base :: "routine_summary \<Rightarrow> side_state \<Rightarrow> side_state" where
  "side_base base st =
     st\<lparr> ss_own := sm_uncertainties base, ss_local_hu := sm_has_unresolved_calls base,
        ss_shared := fold_propagated (sm_uncertainties base) (ss_shared st) \<rparr>"

definition opaque_callee :: "string \<Rightarrow> uncertainty" where
  "opaque_callee site =
     \<lparr> un_kind = ''opaque-callee'', un_callsite_id = Some site, un_operation_id = None, un_routine_id = None, un_interface_name = None \<rparr>"

definition adds_opaque :: "solver_inputs \<Rightarrow> combined_edge \<Rightarrow> bool" where
  "adds_opaque si ed \<longleftrightarrow>
     ce_kind ed = ''interface'' \<or> ce_kind ed = ''dynamic'' \<or> \<not> unwrap_or False (in_body_available si (ce_to ed))"

definition side_opaque :: "solver_inputs \<Rightarrow> combined_edge \<Rightarrow> side_state \<Rightarrow> side_state" where
  "side_opaque si ed st =
     (if adds_opaque si ed then
        (case ce_callsite_id ed of
           Some site \<Rightarrow> st\<lparr> ss_shared := fold_shared (opaque_callee site) (ss_shared st), ss_own := ss_own st @ [opaque_callee site] \<rparr>
         | None \<Rightarrow> st)\<lparr> ss_local_hu := True \<rparr>
      else st)"

definition side_edge :: "solver_inputs \<Rightarrow> string list \<Rightarrow> (string \<rightharpoonup> routine_summary) \<Rightarrow> combined_edge \<Rightarrow> side_state \<Rightarrow> side_state" where
  "side_edge si ms settled ed st =
     (if ce_to ed \<notin> set ms then
        (case settled (ce_to ed) of
           None \<Rightarrow> st\<lparr> ss_local_hu := True \<rparr>
         | Some callee \<Rightarrow>
             side_opaque si ed
               (st\<lparr> ss_shared_hu := ss_shared_hu st \<or> sm_has_unresolved_calls callee,
                  ss_shared := fold_propagated (sm_uncertainties callee) (ss_shared st) \<rparr>))
      else side_opaque si ed st)"

definition side_uncertainty_edge :: "solver_inputs \<Rightarrow> nat \<Rightarrow> side_state \<Rightarrow> side_state option" where
  "side_uncertainty_edge si i st =
     (if i < length (pg_uncertainty_edges (in_graph si)) then
        (let u = from_graph_uncertainty (ue_uncertainty (pg_uncertainty_edges (in_graph si) ! i)) in
         Some (st\<lparr> ss_shared := fold_propagated [u] (ss_shared st), ss_own := ss_own st @ [u] \<rparr>))
      else None)"

definition side_uncertainty_edges :: "solver_inputs \<Rightarrow> string \<Rightarrow> side_state \<Rightarrow> side_state option" where
  "side_uncertainty_edges si m st =
     (case in_uncertainty_edges si m of
        None \<Rightarrow> Some st
      | Some idxs \<Rightarrow>
          try_fold (side_uncertainty_edge si) idxs (if idxs \<noteq> [] then st\<lparr> ss_local_hu := True \<rparr> else st))"

definition side_summary :: "solver_inputs \<Rightarrow> string \<Rightarrow> routine_summary option" where
  "side_summary si m =
     (case in_base si m of Some b \<Rightarrow> Some b | None \<Rightarrow> map_option base_intraprocedural_summary (in_routines si m))"

type_synonym own_map = "u32 \<rightharpoonup> uncertainty list"

definition side_member ::
  "solver_inputs \<Rightarrow> string list \<Rightarrow> (string \<rightharpoonup> routine_summary) \<Rightarrow> string \<Rightarrow> side_state \<times> own_map \<Rightarrow> (side_state \<times> own_map) option" where
  "side_member si ms settled m = (\<lambda>(st, own).
     (case side_summary si m of
        None \<Rightarrow> Some (st, own)
      | Some base \<Rightarrow>
          do { st \<leftarrow> side_uncertainty_edges si m
                 (fold (side_edge si ms settled) (out_edges (in_graph si) m) (side_base base st));
               m_ix \<leftarrow> ri_get (in_interner si) m;
               Some (st\<lparr> ss_shared_hu := ss_shared_hu st \<or> ss_local_hu st \<rparr>, own(m_ix \<mapsto> ss_own st)) }))"

record side_facts =
  sf_uncertainties :: "u32 \<rightharpoonup> uncertainty list"
  sf_has_unresolved :: "u32 \<rightharpoonup> bool"

definition side_result :: "solver_inputs \<Rightarrow> uncertainty list \<Rightarrow> bool \<Rightarrow> own_map \<Rightarrow> string \<Rightarrow> side_facts \<Rightarrow> side_facts option" where
  "side_result si shared_vec shared_hu own m facts =
     do { m_ix \<leftarrow> ri_get (in_interner si) m;
          Some \<lparr> sf_uncertainties = (sf_uncertainties facts)(m_ix \<mapsto> dedupe_uncertainties (shared_vec @ unwrap_or [] (own m_ix))),
            sf_has_unresolved = (sf_has_unresolved facts)(m_ix \<mapsto> shared_hu) \<rparr> }"

text \<open>
  \<open>shared.into_values()\<close> visits the map in the hash order, which is not specified: \<open>arrange\<close> is that
  order, and the theorems hold for every one.
\<close>

definition solve_side_facts ::
  "(uncertainty list \<Rightarrow> uncertainty list) \<Rightarrow> scc \<Rightarrow> solver_inputs \<Rightarrow> (string \<rightharpoonup> routine_summary) \<Rightarrow> side_facts option" where
  "solve_side_facts arrange eff si settled =
     do { (st, own) \<leftarrow> try_fold (side_member si (members eff) settled) (members eff)
            (\<lparr> ss_shared = [], ss_own = [], ss_local_hu = False, ss_shared_hu = False \<rparr>, Map.empty);
          try_fold (side_result si (arrange (map snd (ss_shared st))) (ss_shared_hu st) own) (members eff)
            \<lparr> sf_uncertainties = Map.empty, sf_has_unresolved = Map.empty \<rparr> }"

section \<open>What the pass adds\<close>

text \<open>The shared map holds the last of the folded uncertainties under every key.\<close>

definition shared_of :: "uncertainty list \<Rightarrow> shared_map \<Rightarrow> bool" where
  "shared_of us shared \<longleftrightarrow> distinct (map fst shared) \<and> (\<forall>(k, u) \<in> set shared. k = uncertainty_key u \<and> u \<in> set us) \<and>
     uncertainty_key ` set us = fst ` set shared"

lemma shared_of_Nil [simp]: "shared_of [] []"
  by (simp add: shared_of_def)

lemma shared_of_fold:
  assumes "shared_of us shared"
  shows "shared_of (us @ [u]) (fold_shared u shared)"
proof (cases "map_of shared (uncertainty_key u)")
  case None
  then have "uncertainty_key u \<notin> fst ` set shared" by (simp add: map_of_eq_None_iff)
  with assms None show ?thesis by (auto simp: shared_of_def fold_shared_def)
next
  case (Some slot)
  then have k: "uncertainty_key u \<in> fst ` set shared" by (force dest: map_of_SomeD)
  show ?thesis
  proof (cases "slot = u")
    case True
    with assms Some k show ?thesis by (auto simp: shared_of_def fold_shared_def)
  next
    case False
    have "set (AList.update (uncertainty_key u) u shared) \<subseteq> insert (uncertainty_key u, u) (set shared)"
      by (induction shared) auto
    moreover have "map fst (AList.update (uncertainty_key u) u shared) = map fst shared" using k by (induction shared) auto
    then have "distinct (map fst (AList.update (uncertainty_key u) u shared))" "fst ` set (AList.update (uncertainty_key u) u shared) = fst ` set shared"
      using assms unfolding shared_of_def by (metis list.set_map)+
    ultimately show ?thesis using assms Some False k unfolding shared_of_def fold_shared_def by auto
  qed
qed

lemma shared_of_propagated:
  "shared_of us shared \<Longrightarrow> shared_of (us @ filter propagates vs) (fold_propagated vs shared)"
proof (induction vs arbitrary: us shared)
  case (Cons v vs)
  then show ?case using Cons.IH [of "us @ [v]" "fold_shared v shared"] shared_of_fold [OF Cons.prems, of v]
    by (simp add: fold_propagated_def)
qed (simp add: fold_propagated_def)

lemma opaque_propagates [simp]: "propagates (opaque_callee site)"
  by (simp add: opaque_callee_def is_callsite_local_kind_def)

text \<open>What an edge, and a member, add to the own list, the shared list, and the two flags.\<close>

definition edge_stops :: "string list \<Rightarrow> (string \<rightharpoonup> routine_summary) \<Rightarrow> combined_edge \<Rightarrow> bool" where
  "edge_stops ms settled ed \<longleftrightarrow> ce_to ed \<notin> set ms \<and> settled (ce_to ed) = None"

definition edge_own :: "solver_inputs \<Rightarrow> combined_edge \<Rightarrow> uncertainty list" where
  "edge_own si ed = (if adds_opaque si ed then (case ce_callsite_id ed of Some site \<Rightarrow> [opaque_callee site] | None \<Rightarrow> []) else [])"

definition edge_callee :: "string list \<Rightarrow> (string \<rightharpoonup> routine_summary) \<Rightarrow> combined_edge \<Rightarrow> uncertainty list" where
  "edge_callee ms settled ed = (if ce_to ed \<in> set ms then [] else (case settled (ce_to ed) of None \<Rightarrow> [] | Some callee \<Rightarrow> sm_uncertainties callee))"

definition edge_inherits :: "string list \<Rightarrow> (string \<rightharpoonup> routine_summary) \<Rightarrow> combined_edge \<Rightarrow> bool" where
  "edge_inherits ms settled ed \<longleftrightarrow> ce_to ed \<notin> set ms \<and> (\<exists>callee. settled (ce_to ed) = Some callee \<and> sm_has_unresolved_calls callee)"

definition pass_adds :: "side_state \<Rightarrow> uncertainty list \<Rightarrow> uncertainty list \<Rightarrow> bool \<Rightarrow> bool \<Rightarrow> side_state \<Rightarrow> bool" where
  "pass_adds st own folded local_hu shared_hu st' \<longleftrightarrow>
     ss_own st' = ss_own st @ own \<and> ss_local_hu st' = (ss_local_hu st \<or> local_hu) \<and> ss_shared_hu st' = (ss_shared_hu st \<or> shared_hu) \<and>
     (\<forall>us. shared_of us (ss_shared st) \<longrightarrow> shared_of (us @ folded) (ss_shared st'))"

lemma pass_adds_trans:
  "pass_adds st o1 f1 l1 h1 st' \<Longrightarrow> pass_adds st' o2 f2 l2 h2 st'' \<Longrightarrow>
    pass_adds st (o1 @ o2) (f1 @ f2) (l1 \<or> l2) (h1 \<or> h2) st''"
  unfolding pass_adds_def by (metis append.assoc)

lemma pass_adds_refl: "pass_adds st [] [] False False st"
  by (simp add: pass_adds_def)

lemma side_opaque_adds: "pass_adds st (edge_own si ed) (edge_own si ed) (adds_opaque si ed) False (side_opaque si ed st)"
  using shared_of_fold by (auto simp: pass_adds_def side_opaque_def edge_own_def split: option.split)

lemma side_edge_adds:
  "pass_adds st (if edge_stops ms settled ed then [] else edge_own si ed)
     (if edge_stops ms settled ed then [] else filter propagates (edge_callee ms settled ed) @ edge_own si ed)
     (edge_stops ms settled ed \<or> adds_opaque si ed) (edge_inherits ms settled ed) (side_edge si ms settled ed st)"
proof (cases "ce_to ed \<in> set ms")
  case True
  then show ?thesis using side_opaque_adds [of st si ed] by (simp add: edge_stops_def side_edge_def edge_inherits_def edge_callee_def)
next
  case out: False
  show ?thesis
  proof (cases "settled (ce_to ed)")
    case None
    with out show ?thesis by (simp add: edge_stops_def side_edge_def pass_adds_def edge_inherits_def)
  next
    case (Some callee)
    let ?st = "st\<lparr> ss_shared_hu := ss_shared_hu st \<or> sm_has_unresolved_calls callee,
                  ss_shared := fold_propagated (sm_uncertainties callee) (ss_shared st) \<rparr>"
    have "pass_adds st [] (filter propagates (sm_uncertainties callee)) False (sm_has_unresolved_calls callee) ?st"
      using shared_of_propagated by (auto simp: pass_adds_def)
    from pass_adds_trans [OF this side_opaque_adds [of ?st si ed]] out Some show ?thesis
      by (simp add: edge_stops_def side_edge_def edge_inherits_def edge_callee_def)
  qed
qed

definition site_own :: "solver_inputs \<Rightarrow> string list \<Rightarrow> (string \<rightharpoonup> routine_summary) \<Rightarrow> combined_edge \<Rightarrow> uncertainty list" where
  "site_own si ms settled ed = (if edge_stops ms settled ed then [] else edge_own si ed)"

definition site_folds :: "solver_inputs \<Rightarrow> string list \<Rightarrow> (string \<rightharpoonup> routine_summary) \<Rightarrow> combined_edge \<Rightarrow> uncertainty list" where
  "site_folds si ms settled ed = (if edge_stops ms settled ed then [] else filter propagates (edge_callee ms settled ed) @ edge_own si ed)"

lemma side_edges_add:
  "pass_adds st (concat (map (site_own si ms settled) es)) (concat (map (site_folds si ms settled) es))
     (\<exists>ed \<in> set es. edge_stops ms settled ed \<or> adds_opaque si ed) (\<exists>ed \<in> set es. edge_inherits ms settled ed)
     (fold (side_edge si ms settled) es st)"
proof (induction es arbitrary: st)
  case (Cons ed es)
  from pass_adds_trans [OF side_edge_adds [of st ms settled ed si] Cons.IH [of "side_edge si ms settled ed st"]]
  show ?case by (simp add: site_own_def site_folds_def)
qed (simp add: pass_adds_refl)

definition edge_uncertainties :: "solver_inputs \<Rightarrow> string \<Rightarrow> uncertainty list" where
  "edge_uncertainties si m =
     map (\<lambda>i. from_graph_uncertainty (ue_uncertainty (pg_uncertainty_edges (in_graph si) ! i))) (unwrap_or [] (in_uncertainty_edges si m))"

lemma side_uncertainty_edges_add:
  assumes "\<forall>i \<in> set (unwrap_or [] (in_uncertainty_edges si m)). i < length (pg_uncertainty_edges (in_graph si))"
  shows "\<exists>st'. side_uncertainty_edges si m st = Some st' \<and>
    pass_adds st (edge_uncertainties si m) (filter propagates (edge_uncertainties si m)) (edge_uncertainties si m \<noteq> []) False st'"
proof -
  let ?u = "\<lambda>i. from_graph_uncertainty (ue_uncertainty (pg_uncertainty_edges (in_graph si) ! i))"
  have loop: "\<exists>st'. try_fold (side_uncertainty_edge si) idxs st = Some st' \<and> pass_adds st (map ?u idxs) (filter propagates (map ?u idxs)) False False st'"
    if "\<forall>i \<in> set idxs. i < length (pg_uncertainty_edges (in_graph si))" for idxs st
    using that
  proof (induction idxs arbitrary: st)
    case (Cons i idxs)
    let ?st = "st\<lparr> ss_shared := fold_propagated [?u i] (ss_shared st), ss_own := ss_own st @ [?u i] \<rparr>"
    have "pass_adds st [?u i] (filter propagates [?u i]) False False ?st"
      using shared_of_propagated [of _ _ "[?u i]"] by (simp add: pass_adds_def)
    note one = this
    obtain st' where rest: "try_fold (side_uncertainty_edge si) idxs ?st = Some st'"
      "pass_adds ?st (map ?u idxs) (filter propagates (map ?u idxs)) False False st'" using Cons by auto
    have "side_uncertainty_edge si i st = Some ?st" using Cons.prems by (simp add: side_uncertainty_edge_def Let_def)
    then have "try_fold (side_uncertainty_edge si) (i # idxs) st = Some st'" using rest(1) by simp
    with pass_adds_trans [OF one rest(2)] show ?case by (intro exI [of _ st']) (simp split: if_splits)
  qed (simp add: pass_adds_refl)
  show ?thesis
  proof (cases "in_uncertainty_edges si m")
    case None
    then show ?thesis by (simp add: side_uncertainty_edges_def edge_uncertainties_def pass_adds_refl)
  next
    case (Some idxs)
    let ?st = "if idxs \<noteq> [] then st\<lparr> ss_local_hu := True \<rparr> else st"
    have "pass_adds st [] [] (idxs \<noteq> []) False ?st" by (simp add: pass_adds_def)
    note one = this
    obtain st' where rest: "try_fold (side_uncertainty_edge si) idxs ?st = Some st'"
      "pass_adds ?st (map ?u idxs) (filter propagates (map ?u idxs)) False False st'" using loop [of idxs ?st] assms Some by auto
    then have "side_uncertainty_edges si m st = Some st'" by (simp add: side_uncertainty_edges_def Some)
    with pass_adds_trans [OF one rest(2)] show ?thesis by (intro exI [of _ st']) (simp add: edge_uncertainties_def Some)
  qed
qed

text \<open>A member: its base summary, its edges, its uncertainty edges.\<close>

definition member_own :: "solver_inputs \<Rightarrow> string list \<Rightarrow> (string \<rightharpoonup> routine_summary) \<Rightarrow> string \<Rightarrow> uncertainty list" where
  "member_own si ms settled m =
     sm_uncertainties (the (side_summary si m)) @ concat (map (site_own si ms settled) (out_edges (in_graph si) m)) @ edge_uncertainties si m"

definition member_folds :: "solver_inputs \<Rightarrow> string list \<Rightarrow> (string \<rightharpoonup> routine_summary) \<Rightarrow> string \<Rightarrow> uncertainty list" where
  "member_folds si ms settled m =
     filter propagates (sm_uncertainties (the (side_summary si m))) @
     concat (map (site_folds si ms settled) (out_edges (in_graph si) m)) @ filter propagates (edge_uncertainties si m)"

definition member_unresolved :: "solver_inputs \<Rightarrow> string list \<Rightarrow> (string \<rightharpoonup> routine_summary) \<Rightarrow> string \<Rightarrow> bool" where
  "member_unresolved si ms settled m \<longleftrightarrow>
     sm_has_unresolved_calls (the (side_summary si m)) \<or>
     (\<exists>ed \<in> set (out_edges (in_graph si) m). edge_stops ms settled ed \<or> adds_opaque si ed \<or> edge_inherits ms settled ed) \<or>
     edge_uncertainties si m \<noteq> []"

definition side_ready :: "solver_inputs \<Rightarrow> string \<Rightarrow> bool" where
  "side_ready si m \<longleftrightarrow> interned si m \<and> side_summary si m \<noteq> None \<and>
     (\<forall>i \<in> set (unwrap_or [] (in_uncertainty_edges si m)). i < length (pg_uncertainty_edges (in_graph si)))"

lemma side_member_spec:
  assumes "ri_ok (in_interner si)" "side_ready si m"
  obtains st' where "side_member si ms settled m (st, own) = Some (st', own(number_of si m \<mapsto> member_own si ms settled m))"
    "ss_shared_hu st' = (ss_shared_hu st \<or> member_unresolved si ms settled m)"
    "\<And>us. shared_of us (ss_shared st) \<Longrightarrow> shared_of (us @ member_folds si ms settled m) (ss_shared st')"
proof -
  obtain base where base: "side_summary si m = Some base" using assms(2) by (auto simp: side_ready_def)
  let ?st = "fold (side_edge si ms settled) (out_edges (in_graph si) m) (side_base base st)"
  have edges: "\<forall>i \<in> set (unwrap_or [] (in_uncertainty_edges si m)). i < length (pg_uncertainty_edges (in_graph si))"
    using assms(2) by (simp add: side_ready_def)
  obtain st' where st': "side_uncertainty_edges si m ?st = Some st'"
    "pass_adds ?st (edge_uncertainties si m) (filter propagates (edge_uncertainties si m)) (edge_uncertainties si m \<noteq> []) False st'"
    using side_uncertainty_edges_add [OF edges, of ?st] by blast
  note all = pass_adds_trans [OF side_edges_add [of "side_base base st" si ms settled "out_edges (in_graph si) m"] st'(2)]
  let ?r = "st'\<lparr> ss_shared_hu := ss_shared_hu st' \<or> ss_local_hu st' \<rparr>"
  show thesis
  proof (rule that [of ?r])
    have "ss_own st' = member_own si ms settled m" using all by (simp add: pass_adds_def member_own_def side_base_def base)
    then show "side_member si ms settled m (st, own) = Some (?r, own(number_of si m \<mapsto> member_own si ms settled m))"
      using interned_name(1) [OF assms(1)] assms(2) st'(1) by (simp add: side_member_def base side_ready_def)
    show "ss_shared_hu ?r = (ss_shared_hu st \<or> member_unresolved si ms settled m)"
      using all by (auto simp: pass_adds_def member_unresolved_def side_base_def base)
    show "shared_of (us @ member_folds si ms settled m) (ss_shared ?r)" if us: "shared_of us (ss_shared st)" for us
    proof -
      have "shared_of (us @ filter propagates (sm_uncertainties base)) (ss_shared (side_base base st))"
        using shared_of_propagated [OF us] by (simp add: side_base_def)
      then have "shared_of ((us @ filter propagates (sm_uncertainties base)) @
          (concat (map (site_folds si ms settled) (out_edges (in_graph si) m)) @ filter propagates (edge_uncertainties si m))) (ss_shared st')"
        using all unfolding pass_adds_def by blast
      then show ?thesis by (simp add: member_folds_def base)
    qed
  qed
qed

lemma side_members_spec:
  assumes "ri_ok (in_interner si)" "\<forall>m \<in> set vs. side_ready si m" "distinct vs"
  shows "\<exists>st' own'. try_fold (side_member si ms settled) vs (st, own) = Some (st', own') \<and>
    (\<forall>m \<in> set vs. own' (number_of si m) = Some (member_own si ms settled m)) \<and>
    (\<forall>t. t \<notin> number_of si ` set vs \<longrightarrow> own' t = own t) \<and>
    ss_shared_hu st' = (ss_shared_hu st \<or> (\<exists>m \<in> set vs. member_unresolved si ms settled m)) \<and>
    (\<forall>us. shared_of us (ss_shared st) \<longrightarrow> shared_of (us @ concat (map (member_folds si ms settled) vs)) (ss_shared st'))"
  using assms(2,3)
proof (induction vs arbitrary: st own)
  case (Cons m vs)
  let ?own = "own(number_of si m \<mapsto> member_own si ms settled m)"
  obtain st1 where one: "side_member si ms settled m (st, own) = Some (st1, ?own)"
    "ss_shared_hu st1 = (ss_shared_hu st \<or> member_unresolved si ms settled m)"
    "\<And>us. shared_of us (ss_shared st) \<Longrightarrow> shared_of (us @ member_folds si ms settled m) (ss_shared st1)"
    using side_member_spec [OF assms(1), of m ms settled st own] Cons.prems(1) by auto
  have "\<forall>m \<in> set vs. side_ready si m" "distinct vs" using Cons.prems by simp_all
  from Cons.IH [OF this, of st1 ?own]
  obtain st' own' where rest: "try_fold (side_member si ms settled) vs (st1, ?own) = Some (st', own')"
    "\<forall>m \<in> set vs. own' (number_of si m) = Some (member_own si ms settled m)"
    "\<forall>t. t \<notin> number_of si ` set vs \<longrightarrow> own' t = ?own t"
    "ss_shared_hu st' = (ss_shared_hu st1 \<or> (\<exists>m \<in> set vs. member_unresolved si ms settled m))"
    "\<forall>us. shared_of us (ss_shared st1) \<longrightarrow> shared_of (us @ concat (map (member_folds si ms settled) vs)) (ss_shared st')"
    by blast
  have "number_of si m \<notin> number_of si ` set vs" using Cons.prems number_inj [OF assms(1)] by (auto simp: side_ready_def)
  then have "own' (number_of si m) = Some (member_own si ms settled m)" using rest(3) by simp
  moreover have "shared_of (us @ concat (map (member_folds si ms settled) (m # vs))) (ss_shared st')" if us: "shared_of us (ss_shared st)" for us
    using rest(5) [rule_format, OF one(3) [OF us]] by simp
  moreover have "ss_shared_hu st' = (ss_shared_hu st \<or> (\<exists>m \<in> set (m # vs). member_unresolved si ms settled m))"
    using one(2) rest(4) by auto
  ultimately show ?case using one(1) rest(1-3) by (intro exI [of _ st'] exI [of _ own']) simp
qed simp

lemma side_results_spec:
  assumes "ri_ok (in_interner si)" "\<forall>m \<in> set vs. interned si m" "distinct vs"
  shows "\<exists>facts'. try_fold (side_result si shared hu own) vs facts = Some facts' \<and>
    (\<forall>m \<in> set vs. sf_uncertainties facts' (number_of si m) = Some (dedupe_uncertainties (shared @ unwrap_or [] (own (number_of si m)))) \<and>
      sf_has_unresolved facts' (number_of si m) = Some hu) \<and>
    (\<forall>t. t \<notin> number_of si ` set vs \<longrightarrow> sf_uncertainties facts' t = sf_uncertainties facts t \<and> sf_has_unresolved facts' t = sf_has_unresolved facts t)"
  using assms(2,3)
proof (induction vs arbitrary: facts)
  case (Cons m vs)
  let ?facts = "\<lparr> sf_uncertainties = (sf_uncertainties facts)(number_of si m \<mapsto> dedupe_uncertainties (shared @ unwrap_or [] (own (number_of si m)))),
            sf_has_unresolved = (sf_has_unresolved facts)(number_of si m \<mapsto> hu) \<rparr>"
  have one: "side_result si shared hu own m facts = Some ?facts"
    using interned_name(1) [OF assms(1)] Cons.prems(1) by (simp add: side_result_def)
  have "number_of si m \<notin> number_of si ` set vs" using Cons.prems number_inj [OF assms(1)] by auto
  moreover obtain facts' where "try_fold (side_result si shared hu own) vs ?facts = Some facts'"
    "\<forall>m \<in> set vs. sf_uncertainties facts' (number_of si m) = Some (dedupe_uncertainties (shared @ unwrap_or [] (own (number_of si m)))) \<and>
      sf_has_unresolved facts' (number_of si m) = Some hu"
    "\<forall>t. t \<notin> number_of si ` set vs \<longrightarrow> sf_uncertainties facts' t = sf_uncertainties ?facts t \<and> sf_has_unresolved facts' t = sf_has_unresolved ?facts t"
    using Cons.IH [of ?facts] Cons.prems by auto
  ultimately show ?case using one by (intro exI [of _ facts']) simp
qed simp

text \<open>The result of the pass, before its meaning: one shared union and flag for all members.\<close>

lemma side_facts_result:
  assumes "ri_ok (in_interner si)" "\<forall>m \<in> set (members eff). side_ready si m" "distinct (members eff)"
  obtains facts shared where "solve_side_facts arrange eff si settled = Some facts"
    "shared_of (concat (map (member_folds si (members eff) settled) (members eff))) shared"
    "\<And>m. m \<in> set (members eff) \<Longrightarrow> sf_uncertainties facts (number_of si m) =
       Some (dedupe_uncertainties (arrange (map snd shared) @ member_own si (members eff) settled m))"
    "\<And>m. m \<in> set (members eff) \<Longrightarrow> sf_has_unresolved facts (number_of si m) =
       Some (\<exists>v \<in> set (members eff). member_unresolved si (members eff) settled v)"
proof -
  let ?ms = "members eff" and ?st = "\<lparr> ss_shared = [], ss_own = [], ss_local_hu = False, ss_shared_hu = False \<rparr>"
  from side_members_spec [OF assms, of ?ms settled ?st Map.empty]
  obtain st own where pass: "try_fold (side_member si ?ms settled) ?ms (?st, Map.empty) = Some (st, own)"
    "\<forall>m \<in> set ?ms. own (number_of si m) = Some (member_own si ?ms settled m)"
    "ss_shared_hu st = (ss_shared_hu ?st \<or> (\<exists>m \<in> set ?ms. member_unresolved si ?ms settled m))"
    "\<forall>us. shared_of us (ss_shared ?st) \<longrightarrow> shared_of (us @ concat (map (member_folds si ?ms settled) ?ms)) (ss_shared st)" by blast
  have shared: "shared_of (concat (map (member_folds si ?ms settled) ?ms)) (ss_shared st)"
    using pass(4) [rule_format, of "[]"] by simp
  have int: "\<forall>m \<in> set ?ms. interned si m" using assms(2) by (simp add: side_ready_def)
  obtain facts where "try_fold (side_result si (arrange (map snd (ss_shared st))) (ss_shared_hu st) own) ?ms
       \<lparr> sf_uncertainties = Map.empty, sf_has_unresolved = Map.empty \<rparr> = Some facts"
    "\<forall>m \<in> set ?ms. sf_uncertainties facts (number_of si m) =
       Some (dedupe_uncertainties (arrange (map snd (ss_shared st)) @ unwrap_or [] (own (number_of si m)))) \<and>
      sf_has_unresolved facts (number_of si m) = Some (ss_shared_hu st)"
    using side_results_spec [OF assms(1) int assms(3)] by blast
  with pass(1-3) shared show thesis by (intro that [of facts "ss_shared st"]) (simp_all add: solve_side_facts_def)
qed

section \<open>The least solution\<close>

text \<open>
  The routines the solver knows: those it solves, and the fixed leaves with their summary. What a
  solved routine produces itself depends only on which targets are known.
\<close>

record side_spec =
  sd_solved :: "string \<Rightarrow> bool"
  sd_leaf :: "string \<rightharpoonup> routine_summary"

definition known :: "side_spec \<Rightarrow> string \<Rightarrow> bool" where
  "known sd v \<longleftrightarrow> sd_solved sd v \<or> sd_leaf sd v \<noteq> None"

definition produced :: "solver_inputs \<Rightarrow> side_spec \<Rightarrow> string \<Rightarrow> uncertainty set" where
  "produced si sd m =
     set (sm_uncertainties (the (side_summary si m))) \<union> set (edge_uncertainties si m) \<union>
     (\<Union>ed \<in> {ed \<in> set (out_edges (in_graph si) m). known sd (ce_to ed)}. set (edge_own si ed))"

definition triggers :: "solver_inputs \<Rightarrow> side_spec \<Rightarrow> string \<Rightarrow> bool" where
  "triggers si sd m \<longleftrightarrow>
     sm_has_unresolved_calls (the (side_summary si m)) \<or> edge_uncertainties si m \<noteq> [] \<or>
     (\<exists>ed \<in> set (out_edges (in_graph si) m). \<not> known sd (ce_to ed) \<or> adds_opaque si ed)"

inductive reports :: "solver_inputs \<Rightarrow> side_spec \<Rightarrow> string \<Rightarrow> uncertainty \<Rightarrow> bool" for si sd where
  produced: "sd_solved sd v \<Longrightarrow> u \<in> produced si sd v \<Longrightarrow> reports si sd v u"
| leaf: "sd_leaf sd v = Some s \<Longrightarrow> u \<in> set (sm_uncertainties s) \<Longrightarrow> reports si sd v u"
| call: "sd_solved sd v \<Longrightarrow> ed \<in> set (out_edges (in_graph si) v) \<Longrightarrow> reports si sd (ce_to ed) u \<Longrightarrow> propagates u \<Longrightarrow> reports si sd v u"

inductive unresolved :: "solver_inputs \<Rightarrow> side_spec \<Rightarrow> string \<Rightarrow> bool" for si sd where
  trigger: "sd_solved sd v \<Longrightarrow> triggers si sd v \<Longrightarrow> unresolved si sd v"
| leaf: "sd_leaf sd v = Some s \<Longrightarrow> sm_has_unresolved_calls s \<Longrightarrow> unresolved si sd v"
| call: "sd_solved sd v \<Longrightarrow> ed \<in> set (out_edges (in_graph si) v) \<Longrightarrow> unresolved si sd (ce_to ed) \<Longrightarrow> unresolved si sd v"

text \<open>
  A key is the kind, a bar and an id: the kinds of the program hold no bar, so a key has one kind.
\<close>

definition plain :: "uncertainty \<Rightarrow> bool" where
  "plain u \<longleftrightarrow> CHR ''|'' \<notin> set (un_kind u)"

lemma plain_kind:
  assumes "plain u" "plain v" "uncertainty_key u = uncertainty_key v"
  shows "un_kind u = un_kind v"
proof -
  have "takeWhile (\<lambda>c. c \<noteq> CHR ''|'') (uncertainty_key w) = un_kind w" if "plain w" for w
  proof -
    have "takeWhile (\<lambda>c. c \<noteq> CHR ''|'') (un_kind w @ ''|'' @ uncertainty_at w) = un_kind w @ takeWhile (\<lambda>c. c \<noteq> CHR ''|'') (''|'' @ uncertainty_at w)"
      by (rule takeWhile_append2) (use that in \<open>auto simp: plain_def\<close>)
    then show ?thesis by (simp add: uncertainty_key_def)
  qed
  with assms show ?thesis by metis
qed

text \<open>Exact side facts of a routine: sound, and complete up to the key.\<close>

definition exact_uncertainties :: "solver_inputs \<Rightarrow> side_spec \<Rightarrow> string \<Rightarrow> uncertainty list \<Rightarrow> bool" where
  "exact_uncertainties si sd v us \<longleftrightarrow>
     (\<forall>u \<in> set us. reports si sd v u) \<and> uncertainty_key ` set us = uncertainty_key ` {u. reports si sd v u}"

definition exact_side :: "solver_inputs \<Rightarrow> side_spec \<Rightarrow> string \<Rightarrow> routine_summary \<Rightarrow> bool" where
  "exact_side si sd v s \<longleftrightarrow>
     exact_uncertainties si sd v (sm_uncertainties s) \<and> sm_has_unresolved_calls s = unresolved si sd v"

text \<open>What the pass over a component rests on.\<close>

definition side_component :: "solver_inputs \<Rightarrow> side_spec \<Rightarrow> (string \<rightharpoonup> routine_summary) \<Rightarrow> string list \<Rightarrow> bool" where
  "side_component si sd settled ms \<longleftrightarrow>
     distinct ms \<and> (\<forall>m \<in> set ms. side_ready si m \<and> sd_solved sd m \<and> sd_leaf sd m = None) \<and>
     (\<exists>kept. (\<forall>x \<in> set kept. sd_solved sd x) \<and>
       (\<forall>m \<in> set ms. \<forall>v \<in> set ms. (m, v) \<in> (edge (induced_graph (in_graph si) kept))\<^sup>*)) \<and>
     (\<forall>m \<in> set ms. \<forall>ed \<in> set (outer_edges si ms m).
       (case settled (ce_to ed) of None \<Rightarrow> \<not> known sd (ce_to ed) | Some s \<Rightarrow> known sd (ce_to ed) \<and> exact_side si sd (ce_to ed) s))"

lemma reports_known: "reports si sd v u \<Longrightarrow> known sd v"
  by (induction rule: reports.induct) (auto simp: known_def)

lemma unresolved_known: "unresolved si sd v \<Longrightarrow> known sd v"
  by (induction rule: unresolved.induct) (auto simp: known_def)

lemma carried_back:
  assumes "(m, v) \<in> (edge (induced_graph g kept))\<^sup>*" "P v"
    and "\<And>y ed. y \<in> set kept \<Longrightarrow> ed \<in> set (out_edges g y) \<Longrightarrow> P (ce_to ed) \<Longrightarrow> P y"
  shows "P m"
  using assms(1,2)
proof (induction rule: converse_rtrancl_induct)
  case (step y z)
  from step.hyps(1) obtain ed where "y \<in> set kept" "ed \<in> set (out_edges g y)" "ce_to ed = z"
    unfolding edge_iff children_induced by (auto split: if_splits)
  with step assms(3) show ?case by blast
qed

lemma stops_iff:
  assumes comp: "side_component si sd settled ms" and m: "m \<in> set ms" "ed \<in> set (out_edges (in_graph si) m)"
  shows "edge_stops ms settled ed \<longleftrightarrow> \<not> known sd (ce_to ed)"
proof (cases "ce_to ed \<in> set ms")
  case True
  then show ?thesis using comp by (simp add: edge_stops_def known_def side_component_def)
next
  case False
  then have "ed \<in> set (outer_edges si ms m)" using m by (simp add: outer_edges_def)
  then have "case settled (ce_to ed) of None \<Rightarrow> \<not> known sd (ce_to ed) | Some s \<Rightarrow> known sd (ce_to ed) \<and> exact_side si sd (ce_to ed) s"
    using comp m(1) unfolding side_component_def by blast
  with False show ?thesis by (cases "settled (ce_to ed)") (simp_all add: edge_stops_def)
qed

lemma settled_callee:
  assumes comp: "side_component si sd settled ms" and m: "m \<in> set ms" "ed \<in> set (out_edges (in_graph si) m)"
    and callee: "ce_to ed \<notin> set ms" "settled (ce_to ed) = Some s"
  shows "exact_side si sd (ce_to ed) s"
proof -
  have "ed \<in> set (outer_edges si ms m)" using m callee(1) by (simp add: outer_edges_def)
  then have "case settled (ce_to ed) of None \<Rightarrow> \<not> known sd (ce_to ed) | Some s \<Rightarrow> known sd (ce_to ed) \<and> exact_side si sd (ce_to ed) s"
    using comp m(1) unfolding side_component_def by blast
  then show ?thesis by (simp add: callee(2))
qed

lemma member_own_set:
  assumes comp: "side_component si sd settled ms" and m: "m \<in> set ms"
  shows "set (member_own si ms settled m) = produced si sd m"
proof -
  have "set (site_own si ms settled ed) = (if known sd (ce_to ed) then set (edge_own si ed) else {})" if "ed \<in> set (out_edges (in_graph si) m)" for ed
    using stops_iff [OF comp m that] by (simp add: site_own_def)
  then have "(\<Union>ed \<in> set (out_edges (in_graph si) m). set (site_own si ms settled ed)) =
      (\<Union>ed \<in> {ed \<in> set (out_edges (in_graph si) m). known sd (ce_to ed)}. set (edge_own si ed))" by (auto split: if_splits)
  then show ?thesis unfolding member_own_def produced_def by (simp add: Un_ac)
qed

lemma member_folds_mem:
  assumes comp: "side_component si sd settled ms" and m: "m \<in> set ms"
  shows "u \<in> set (member_folds si ms settled m) \<longleftrightarrow> propagates u \<and>
    (u \<in> produced si sd m \<or> (\<exists>ed s. ed \<in> set (out_edges (in_graph si) m) \<and> ce_to ed \<notin> set ms \<and> settled (ce_to ed) = Some s \<and> u \<in> set (sm_uncertainties s)))"
proof -
  have own: "propagates u" if "u \<in> set (edge_own si ed)" for ed
    using that by (cases "adds_opaque si ed"; cases "ce_callsite_id ed") (simp_all add: edge_own_def)
  have site: "u \<in> set (site_folds si ms settled ed) \<longleftrightarrow> (known sd (ce_to ed) \<and> u \<in> set (edge_own si ed)) \<or>
      (\<exists>s. ce_to ed \<notin> set ms \<and> settled (ce_to ed) = Some s \<and> u \<in> set (sm_uncertainties s) \<and> propagates u)"
    if "ed \<in> set (out_edges (in_graph si) m)" for ed
    using stops_iff [OF comp m that] by (auto simp: site_folds_def edge_callee_def edge_stops_def split: option.splits if_splits)
  show ?thesis
    unfolding member_folds_def produced_def set_append set_concat set_map Un_iff set_filter mem_Collect_eq UN_iff
    using own by (simp add: site Bex_def) blast
qed

text \<open>Everything folded into the shared map reaches every member, and conversely up to the key.\<close>

lemma shared_reports:
  assumes comp: "side_component si sd settled ms" and w: "w \<in> set ms" "u \<in> set (member_folds si ms settled w)" and m: "m \<in> set ms"
  shows "reports si sd m u"
proof -
  have p: "propagates u" using w(2) unfolding member_folds_mem [OF comp w(1)] by blast
  have solved: "sd_solved sd w" using comp w(1) by (simp add: side_component_def)
  have at: "reports si sd w u"
  proof (cases "u \<in> produced si sd w")
    case True
    with solved show ?thesis by (rule reports.produced)
  next
    case False
    then obtain ed s where ed: "ed \<in> set (out_edges (in_graph si) w)" "ce_to ed \<notin> set ms" "settled (ce_to ed) = Some s" "u \<in> set (sm_uncertainties s)"
      using w(2) unfolding member_folds_mem [OF comp w(1)] by blast
    have "reports si sd (ce_to ed) u" using settled_callee [OF comp w(1) ed(1-3)] ed(4) by (simp add: exact_side_def exact_uncertainties_def)
    from reports.call [OF solved ed(1) this p] show ?thesis .
  qed
  obtain kept where "\<forall>x \<in> set kept. sd_solved sd x" "(m, w) \<in> (edge (induced_graph (in_graph si) kept))\<^sup>*"
    using comp w(1) m unfolding side_component_def by blast
  with at p show ?thesis by (intro carried_back [of m w "in_graph si" kept "\<lambda>v. reports si sd v u"]) (auto intro: reports.call)
qed

lemma reports_shared:
  assumes comp: "side_component si sd settled ms" and plain: "\<forall>v u. reports si sd v u \<longrightarrow> plain u"
    and "reports si sd v u" "v \<in> set ms"
  shows "u \<in> produced si sd v \<or> (propagates u \<and> uncertainty_key u \<in> uncertainty_key ` (\<Union>w \<in> set ms. set (member_folds si ms settled w)))"
  using assms(3,4)
proof (induction rule: reports.induct)
  case (leaf v s u)
  then show ?case using comp by (auto simp: side_component_def)
next
  case (call v ed u)
  have shared: "uncertainty_key u \<in> uncertainty_key ` (\<Union>w \<in> set ms. set (member_folds si ms settled w))"
  proof (cases "ce_to ed \<in> set ms")
    case True
    then show ?thesis using call.IH call.hyps(4) member_folds_mem [OF comp True] by blast
  next
    case False
    have "known sd (ce_to ed)" using call.hyps(3) by (rule reports_known)
    then obtain s where s: "settled (ce_to ed) = Some s"
      using stops_iff [OF comp call.prems call.hyps(2)] False by (auto simp: edge_stops_def)
    have exact: "exact_uncertainties si sd (ce_to ed) (sm_uncertainties s)"
      using settled_callee [OF comp call.prems call.hyps(2) False s] by (simp add: exact_side_def)
    then obtain u' where u': "u' \<in> set (sm_uncertainties s)" "uncertainty_key u' = uncertainty_key u"
      using call.hyps(3) unfolding exact_uncertainties_def by (metis (mono_tags, lifting) imageE imageI mem_Collect_eq)
    then have "reports si sd (ce_to ed) u'" using exact by (simp add: exact_uncertainties_def)
    then have "un_kind u' = un_kind u" using plain call.hyps(3) u'(2) plain_kind by blast
    then have "propagates u'" using call.hyps(4) by simp
    then have "u' \<in> set (member_folds si ms settled v)"
      unfolding member_folds_mem [OF comp call.prems] using call.hyps(2) False s u'(1) by blast
    then show ?thesis using call.prems u'(2) by (metis UN_I imageI)
  qed
  with call.hyps(4) show ?case by blast
qed simp

lemma unresolved_members:
  assumes comp: "side_component si sd settled ms" and m: "m \<in> set ms"
  shows "(\<exists>v \<in> set ms. member_unresolved si ms settled v) \<longleftrightarrow> unresolved si sd m"
proof
  assume "\<exists>v \<in> set ms. member_unresolved si ms settled v"
  then obtain v where v: "v \<in> set ms" "member_unresolved si ms settled v" by blast
  have solved: "sd_solved sd v" using comp v(1) by (simp add: side_component_def)
  have "unresolved si sd v"
  proof (cases "triggers si sd v")
    case True
    with solved show ?thesis by (rule unresolved.trigger)
  next
    case False
    then obtain ed where ed: "ed \<in> set (out_edges (in_graph si) v)" "edge_inherits ms settled ed"
      using v(2) stops_iff [OF comp v(1)] unfolding member_unresolved_def triggers_def by blast
    then obtain s where s: "ce_to ed \<notin> set ms" "settled (ce_to ed) = Some s" "sm_has_unresolved_calls s" by (auto simp: edge_inherits_def)
    then have "unresolved si sd (ce_to ed)" using settled_callee [OF comp v(1) ed(1) s(1,2)] by (simp add: exact_side_def)
    with solved ed(1) show ?thesis by (rule unresolved.call)
  qed
  moreover obtain kept where "\<forall>x \<in> set kept. sd_solved sd x" "(m, v) \<in> (edge (induced_graph (in_graph si) kept))\<^sup>*"
    using comp v(1) m unfolding side_component_def by blast
  ultimately show "unresolved si sd m"
    by (intro carried_back [of m v "in_graph si" kept "\<lambda>v. unresolved si sd v"]) (auto intro: unresolved.call)
next
  assume "unresolved si sd m"
  then show "\<exists>v \<in> set ms. member_unresolved si ms settled v" using m
  proof (induction rule: unresolved.induct)
    case (trigger v)
    then have "member_unresolved si ms settled v"
      using stops_iff [OF comp trigger.prems] unfolding member_unresolved_def triggers_def by blast
    with trigger.prems show ?case by blast
  next
    case (leaf v s)
    then show ?case using comp by (auto simp: side_component_def)
  next
    case (call v ed)
    show ?case
    proof (cases "ce_to ed \<in> set ms")
      case False
      have "known sd (ce_to ed)" using call.hyps(3) by (rule unresolved_known)
      then obtain s where s: "settled (ce_to ed) = Some s"
        using stops_iff [OF comp call.prems call.hyps(2)] False by (auto simp: edge_stops_def)
      have "sm_has_unresolved_calls s"
        using settled_callee [OF comp call.prems call.hyps(2) False s] call.hyps(3) by (simp add: exact_side_def)
      then have "edge_inherits ms settled ed" using False s by (simp add: edge_inherits_def)
      then have "member_unresolved si ms settled v" using call.hyps(2) by (auto simp: member_unresolved_def)
      with call.prems show ?thesis by blast
    qed (rule call.IH)
  qed
qed

text \<open>
  The pass over a component never panics and gives every member its exact side facts, whatever the
  order in which the shared map is visited.
\<close>

lemma side_facts_exact:
  assumes ri: "ri_ok (in_interner si)" and comp: "side_component si sd settled (members eff)"
    and plain: "\<forall>v u. reports si sd v u \<longrightarrow> plain u" and arrange: "\<forall>us. set (arrange us) = set us"
  obtains facts where "solve_side_facts arrange eff si settled = Some facts"
    "\<And>m. m \<in> set (members eff) \<Longrightarrow> \<exists>us. sf_uncertainties facts (number_of si m) = Some us \<and> exact_uncertainties si sd m us"
    "\<And>m. m \<in> set (members eff) \<Longrightarrow> sf_has_unresolved facts (number_of si m) = Some (unresolved si sd m)"
proof -
  let ?ms = "members eff"
  have ready: "\<forall>m \<in> set ?ms. side_ready si m" "distinct ?ms" using comp by (auto simp: side_component_def)
  obtain facts shared where facts: "solve_side_facts arrange eff si settled = Some facts"
    "shared_of (concat (map (member_folds si ?ms settled) ?ms)) shared"
    "\<And>m. m \<in> set ?ms \<Longrightarrow> sf_uncertainties facts (number_of si m) = Some (dedupe_uncertainties (arrange (map snd shared) @ member_own si ?ms settled m))"
    "\<And>m. m \<in> set ?ms \<Longrightarrow> sf_has_unresolved facts (number_of si m) = Some (\<exists>v \<in> set ?ms. member_unresolved si ?ms settled v)"
    by (rule side_facts_result [OF ri ready, of arrange settled]) blast
  let ?F = "\<Union>w \<in> set ?ms. set (member_folds si ?ms settled w)"
  have sub: "snd ` set shared \<subseteq> ?F" using facts(2) by (fastforce simp: shared_of_def)
  have keys: "uncertainty_key ` snd ` set shared = uncertainty_key ` ?F"
  proof -
    have "uncertainty_key (snd e) = fst e" if "e \<in> set shared" for e
    proof -
      have "case e of (k, u) \<Rightarrow> k = uncertainty_key u \<and> u \<in> set (concat (map (member_folds si ?ms settled) ?ms))"
        using facts(2) that unfolding shared_of_def by blast
      then show ?thesis by (cases e) simp
    qed
    then have "uncertainty_key ` snd ` set shared = fst ` set shared" by (simp add: image_image)
    also have "\<dots> = uncertainty_key ` ?F" using facts(2) by (simp add: shared_of_def)
    finally show ?thesis .
  qed
  have exact: "exact_uncertainties si sd m (dedupe_uncertainties (arrange (map snd shared) @ member_own si ?ms settled m))" if m: "m \<in> set ?ms" for m
  proof -
    let ?us = "arrange (map snd shared) @ member_own si ?ms settled m"
    have set: "set ?us = snd ` set shared \<union> produced si sd m" by (simp add: arrange member_own_set [OF comp m])
    have solved: "sd_solved sd m" using comp m by (simp add: side_component_def)
    have sound: "\<forall>u \<in> set ?us. reports si sd m u"
      unfolding set using sub shared_reports [OF comp _ _ m] reports.produced [OF solved] by blast
    have "uncertainty_key u \<in> uncertainty_key ` set ?us" if "reports si sd m u" for u
      using reports_shared [OF comp plain that m] unfolding set image_Un keys by blast
    with sound have "uncertainty_key ` set ?us = uncertainty_key ` {u. reports si sd m u}" by blast
    with sound dedupe_subset [of ?us] show ?thesis by (simp only: exact_uncertainties_def dedupe_key_set) blast
  qed
  have "\<exists>us. sf_uncertainties facts (number_of si m) = Some us \<and> exact_uncertainties si sd m us" if "m \<in> set ?ms" for m
    using facts(3) exact that by blast
  moreover have "sf_has_unresolved facts (number_of si m) = Some (unresolved si sd m)" if "m \<in> set ?ms" for m
    using facts(4) [OF that] unresolved_members [OF comp that] by simp
  ultimately show thesis using facts(1) that by blast
qed

end
