(* ===== verification/Projection.thy ===== *)
theory Projection
  imports Summary "HOL-Library.Option_ord" "HOL-Library.Product_Lexorder"
begin

text \<open>
  The projection of rows to ids (\<open>src/src/program/model/projection.rs\<close>): routines that share one id
  (a collision group) each have a row, and every per-id input is made from the rows by one rule - the
  last row's value, or the union of the rows' values. The unions are proved independent of the order
  of the rows.
\<close>

section \<open>Rows of an id\<close>

text \<open>\<open>RowsOfId\<close>: the positions of the rows of each id, in row order.\<close>

type_synonym rows_of_id = "string \<Rightarrow> nat list"

definition index_rows :: "model_routine list \<Rightarrow> rows_of_id" where
  "index_rows routines rid = filter (\<lambda>ix. mr_id (routines ! ix) = rid) [0..<length routines]"

definition is_collided :: "rows_of_id \<Rightarrow> string \<Rightarrow> bool" where
  "is_collided rows rid \<longleftrightarrow> length (rows rid) > 1"

definition take_row :: "'a option list \<Rightarrow> nat \<Rightarrow> 'a option" where
  "take_row per_row ix = (if ix < length per_row then per_row ! ix else None)"

text \<open>\<open>Iterator::find_map\<close>.\<close>

fun find_map :: "('a \<Rightarrow> 'b option) \<Rightarrow> 'a list \<Rightarrow> 'b option" where
  "find_map f [] = None"
| "find_map f (x # xs) = (case f x of Some y \<Rightarrow> Some y | None \<Rightarrow> find_map f xs)"

definition last_per_id :: "rows_of_id \<Rightarrow> 'a option list \<Rightarrow> string \<Rightarrow> 'a option" where
  "last_per_id rows per_row rid = find_map (take_row per_row) (rev (rows rid))"

definition merge_per_id :: "rows_of_id \<Rightarrow> 'a option list \<Rightarrow> ('a list \<Rightarrow> 'a) \<Rightarrow> string \<Rightarrow> 'a option" where
  "merge_per_id rows per_row merge rid =
     (case List.map_filter (take_row per_row) (rows rid) of
        [] \<Rightarrow> None
      | [v] \<Rightarrow> Some v
      | vals \<Rightarrow> Some (merge vals))"

text \<open>The full-value union; \<open>full_cmp\<close> is the payload's \<open>Ord::cmp\<close>.\<close>

definition union_by_value :: "('a \<Rightarrow> 'a \<Rightarrow> ordering) \<Rightarrow> 'a list list \<Rightarrow> ('a \<Rightarrow> 'k::linorder) \<Rightarrow> 'a list" where
  "union_by_value full_cmp per_row key =
     remdups_adj (sort_by (\<lambda>a b. then_cmp (cmp (key a) (key b)) (full_cmp a b)) (concat per_row))"

definition status_rank :: "string \<Rightarrow> nat" where
  "status_rank s = (if s = ''complete'' then 0 else if s = ''partial'' then 1 else 2)"

definition least_complete :: "(string \<times> string list) list \<Rightarrow> string \<times> string list" where
  "least_complete per_row =
     (let (status, reasons) = fold (\<lambda>(s, r) (status, reasons).
            (if status = [] \<or> status_rank s > status_rank status then s else status, reasons @ r)) per_row ([], [])
      in (status, remdups_adj (sort reasons)))"

text \<open>Over items in row order: the last, or the first, per key.\<close>

definition last_per_key_pairs :: "('k \<times> 'a) list \<Rightarrow> 'k \<rightharpoonup> 'a" where
  "last_per_key_pairs items = fold (\<lambda>(k, v) out. out(k \<mapsto> v)) items Map.empty"

definition last_per_key :: "'a list \<Rightarrow> ('a \<Rightarrow> 'k) \<Rightarrow> 'k \<rightharpoonup> 'a" where
  "last_per_key items key = fold (\<lambda>item out. out(key item \<mapsto> item)) items Map.empty"

definition first_per_key :: "'a list \<Rightarrow> ('a \<Rightarrow> 'k) \<Rightarrow> 'k \<rightharpoonup> 'a" where
  "first_per_key items key = fold (\<lambda>item out. if out (key item) = None then out(key item \<mapsto> item) else out) items Map.empty"

section \<open>Call sites of collided ids\<close>

text \<open>One collided id's sites: the site ids by first appearance, and the last row's site of each.\<close>

definition pick_site :: "model_call_site \<Rightarrow> string list \<times> (string \<rightharpoonup> model_call_site) \<Rightarrow> string list \<times> (string \<rightharpoonup> model_call_site)" where
  "pick_site cs = (\<lambda>(site_ids, pick).
     (if pick (mc_id cs) = None then site_ids @ [mc_id cs] else site_ids, pick(mc_id cs \<mapsto> cs)))"

definition owned_sites :: "rows_of_id \<Rightarrow> model_routine list \<Rightarrow> string \<Rightarrow> model_call_site list option" where
  "owned_sites rows routines rid =
     (if \<not> is_collided rows rid then None
      else
        (let (site_ids, pick) = fold (\<lambda>ix. fold pick_site (mr_call_sites (routines ! ix))) (rows rid) ([], Map.empty)
         in Some (map (\<lambda>k. the (pick k)) site_ids)))"

definition sites_of :: "(string \<rightharpoonup> model_call_site list) \<Rightarrow> model_routine \<Rightarrow> model_call_site list" where
  "sites_of owned routine = unwrap_or (mr_call_sites routine) (owned (mr_id routine))"

record 'b site_choice =
  sc_callee :: "string option"
  sc_bindings :: "'b option"

definition site_pick :: "primary_graph \<Rightarrow> string \<Rightarrow> string \<Rightarrow> (string \<rightharpoonup> 'b) \<Rightarrow> 'b site_choice" where
  "site_pick g from callsite_id bindings =
     \<lparr> sc_callee =
         (case pg_collided_site_callee g callsite_id of
            Some pick \<Rightarrow> pick
          | None \<Rightarrow>
              map_option ce_to (Option.bind (pg_edges_by_from g from)
                (List.find (\<lambda>e. ce_callsite_id e = Some callsite_id)))),
       sc_bindings = bindings callsite_id \<rparr>"

section \<open>Summaries of collided rows\<close>

text \<open>\<open>derive(PartialOrd, Ord)\<close>: variants in declaration order, then their fields; fields in order.\<close>

instantiation temp_state :: linorder
begin

fun temp_state_order :: "temp_state \<Rightarrow> nat \<times> nat" where
  "temp_state_order (TS_Known v) = (0, if v then 1 else 0)"
| "temp_state_order (TS_ParameterDependent i) = (1, unat i)"
| "temp_state_order TS_Unknown = (2, 0)"

definition less_eq_temp_state :: "temp_state \<Rightarrow> temp_state \<Rightarrow> bool" where
  "less_eq_temp_state a b \<longleftrightarrow> temp_state_order a \<le> temp_state_order b"

definition less_temp_state :: "temp_state \<Rightarrow> temp_state \<Rightarrow> bool" where
  "less_temp_state a b \<longleftrightarrow> temp_state_order a < temp_state_order b"

instance
proof
  fix a b :: temp_state
  show "a \<le> b \<Longrightarrow> b \<le> a \<Longrightarrow> a = b"
    by (cases a; cases b) (auto simp: less_eq_temp_state_def word_unat_eq_iff split: if_splits)
qed (auto simp: less_eq_temp_state_def less_temp_state_def)

end

definition db_effect_fields :: "db_effect \<Rightarrow> string \<times> string \<times> string \<times> string \<times> string option \<times> temp_state \<times> string" where
  "db_effect_fields e =
     (de_effect_key e, de_operation_id e, de_op e, de_table_id e, de_record_variable_id e, de_temp_state e, de_via e)"

definition cmp_db_effect :: "db_effect \<Rightarrow> db_effect \<Rightarrow> ordering" where
  "cmp_db_effect a b = cmp (db_effect_fields a) (db_effect_fields b)"

definition uncertainty_fields :: "uncertainty \<Rightarrow> string \<times> string option \<times> string option \<times> string option \<times> string option" where
  "uncertainty_fields u = (un_kind u, un_callsite_id u, un_operation_id u, un_routine_id u, un_interface_name u)"

definition cmp_uncertainty :: "uncertainty \<Rightarrow> uncertainty \<Rightarrow> ordering" where
  "cmp_uncertainty a b = cmp (uncertainty_fields a) (uncertainty_fields b)"

text \<open>The callers pass at least two rows; the id is the last row's.\<close>

definition union_summaries :: "routine_summary list \<Rightarrow> routine_summary" where
  "union_summaries rows =
     \<lparr> sm_routine_id = sm_routine_id (last rows),
       sm_db_effects = union_by_value cmp_db_effect (map sm_db_effects rows) de_effect_key,
       sm_in_recursive_cycle = fold (\<lambda>s b. b \<or> sm_in_recursive_cycle s) rows False,
       sm_has_unresolved_calls = fold (\<lambda>s b. b \<or> sm_has_unresolved_calls s) rows False,
       sm_uncertainties = union_by_value cmp_uncertainty (map sm_uncertainties rows) uncertainty_key \<rparr>"

section \<open>Unions do not depend on the order of the rows\<close>

lemma union_sorted:
  assumes "\<And>a b. full_cmp a b = cmp (f a) (f b)"
  shows "union_by_value full_cmp vss key = remdups_adj (sort_key (\<lambda>x. (key x, f x)) (concat vss))"
proof -
  have "then_cmp (cmp (key a) (key b)) (full_cmp a b) = cmp (key a, f a) (key b, f b)" for a b
    by (cases "cmp (key a) (key b)") (auto simp: assms cmp_def split: if_splits)
  then show ?thesis unfolding union_by_value_def by (subst sort_by_sort_key [where k = "\<lambda>x. (key x, f x)"]) auto
qed

lemma remdups_adj_sorted: "sorted xs \<Longrightarrow> remdups_adj xs = sorted_list_of_set (set xs)" for xs :: "'a::linorder list"
proof -
  have "sorted xs \<longrightarrow> sorted (remdups_adj xs) \<and> distinct (remdups_adj xs)"
    by (induction xs rule: remdups_adj.induct) (auto simp: less_le_not_le)
  then show "sorted xs \<Longrightarrow> remdups_adj xs = sorted_list_of_set (set xs)"
    by (intro sorted_distinct_set_unique) simp_all
qed

lemma union_list:
  assumes "\<And>a b. full_cmp a b = cmp (f a) (f b)" "inj f"
  shows "map (\<lambda>x. (key x, f x)) (union_by_value full_cmp vss key) = sorted_list_of_set ((\<lambda>x. (key x, f x)) ` \<Union> (set ` set vss))"
proof -
  let ?g = "\<lambda>x. (key x, f x)" and ?xs = "concat vss"
  have inj: "inj ?g" using assms(2) by (auto simp: inj_def)
  have "map ?g (union_by_value full_cmp vss key) = remdups_adj (map ?g (sort_key ?g ?xs))"
    unfolding union_sorted [OF assms(1)] by (rule remdups_adj_map_injective [OF inj, symmetric])
  also have "\<dots> = sorted_list_of_set (?g ` \<Union> (set ` set vss))" by (subst remdups_adj_sorted) simp_all
  finally show ?thesis .
qed

lemma union_props:
  assumes "\<And>a b. full_cmp a b = cmp (f a) (f b)" "inj f"
  shows "set (union_by_value full_cmp vss key) = \<Union> (set ` set vss)" "distinct (union_by_value full_cmp vss key)"
    "sorted (map (\<lambda>x. (key x, f x)) (union_by_value full_cmp vss key))"
proof -
  show "set (union_by_value full_cmp vss key) = \<Union> (set ` set vss)" by (simp add: union_sorted [OF assms(1)])
  show "sorted (map (\<lambda>x. (key x, f x)) (union_by_value full_cmp vss key))" unfolding union_list [OF assms] by simp
  have "distinct (map (\<lambda>x. (key x, f x)) (union_by_value full_cmp vss key))" unfolding union_list [OF assms] by simp
  then show "distinct (union_by_value full_cmp vss key)" by (simp add: distinct_map)
qed

lemma union_any_order:
  assumes "\<And>a b. full_cmp a b = cmp (f a) (f b)" "inj f" "\<Union> (set ` set vss) = \<Union> (set ` set wss)"
  shows "union_by_value full_cmp vss key = union_by_value full_cmp wss key"
proof -
  have "inj (\<lambda>x. (key x, f x))" using assms(2) by (auto simp: inj_def)
  moreover have "map (\<lambda>x. (key x, f x)) (union_by_value full_cmp vss key) = map (\<lambda>x. (key x, f x)) (union_by_value full_cmp wss key)"
    unfolding union_list [OF assms(1,2)] assms(3) ..
  ultimately show ?thesis by (rule inj_map_eq_map [THEN iffD1])
qed

lemma inj_fields: "inj db_effect_fields" "inj uncertainty_fields"
  by (auto simp: inj_def db_effect_fields_def uncertainty_fields_def)

lemmas union_db_effects = union_props [OF cmp_db_effect_def inj_fields(1)] union_any_order [OF cmp_db_effect_def inj_fields(1)]

lemmas union_uncertainties = union_props [OF cmp_uncertainty_def inj_fields(2)] union_any_order [OF cmp_uncertainty_def inj_fields(2)]

lemma fold_or: "fold (\<lambda>s b. b \<or> P s) xs b \<longleftrightarrow> b \<or> (\<exists>x \<in> set xs. P x)"
  by (induction xs arbitrary: b) auto

text \<open>
  The summary of a collided id does not depend on the order of its rows, nor on repeated
  rows: it holds exactly the rows' effects and uncertainties, each once, and its flags are set when a
  row sets them.
\<close>

theorem union_of_rows_in_any_order:
  assumes "rows \<noteq> []" "set rows = set rows'" "\<forall>s \<in> set rows. sm_routine_id s = rid"
  shows "union_summaries rows = union_summaries rows' \<and>
    set (sm_db_effects (union_summaries rows)) = (\<Union>s \<in> set rows. set (sm_db_effects s)) \<and>
    distinct (sm_db_effects (union_summaries rows)) \<and>
    set (sm_uncertainties (union_summaries rows)) = (\<Union>s \<in> set rows. set (sm_uncertainties s)) \<and>
    distinct (sm_uncertainties (union_summaries rows)) \<and>
    (sm_has_unresolved_calls (union_summaries rows) \<longleftrightarrow> (\<exists>s \<in> set rows. sm_has_unresolved_calls s))"
proof -
  have "rows' \<noteq> []" using assms(1,2) by auto
  then have ids: "sm_routine_id (last rows) = sm_routine_id (last rows')" using assms by (metis last_in_set)
  have "union_by_value cmp_db_effect (map sm_db_effects rows) de_effect_key = union_by_value cmp_db_effect (map sm_db_effects rows') de_effect_key"
    by (rule union_db_effects(4)) (use assms(2) in simp)
  moreover have "union_by_value cmp_uncertainty (map sm_uncertainties rows) uncertainty_key = union_by_value cmp_uncertainty (map sm_uncertainties rows') uncertainty_key"
    by (rule union_uncertainties(4)) (use assms(2) in simp)
  ultimately show ?thesis
    using ids assms(2) by (simp add: union_summaries_def fold_or union_db_effects(1,2) union_uncertainties(1,2))
qed

text \<open>The two columns of the fold, and the status it picks.\<close>

abbreviation worse_status :: "string \<Rightarrow> string \<Rightarrow> string" where
  "worse_status s status \<equiv> if status = [] \<or> status_rank s > status_rank status then s else status"

lemma fold_coverage:
  "fold (\<lambda>(s, r) (status, reasons). (worse_status s status, reasons @ r)) vs (status, reasons) =
    (fold worse_status (map fst vs) status, reasons @ concat (map snd vs))"
  by (induction vs arbitrary: status reasons) (simp_all add: split_beta)

lemma fold_worse:
  assumes "[] \<notin> set ss" "ss \<noteq> [] \<or> st \<noteq> []"
  shows "fold worse_status ss st \<in> (if st = [] then set ss else insert st (set ss)) \<and> fold worse_status ss st \<noteq> [] \<and>
    (\<forall>s \<in> set ss. status_rank s \<le> status_rank (fold worse_status ss st)) \<and>
    (st \<noteq> [] \<longrightarrow> status_rank st \<le> status_rank (fold worse_status ss st))"
  using assms
proof (induction ss arbitrary: st)
  case (Cons s ss)
  note IH = Cons.IH
  show ?case
  proof (cases "st = [] \<or> status_rank s > status_rank st")
    case True
    then have "fold worse_status (s # ss) st = fold worse_status ss s" by simp
    with IH [of s] Cons.prems(1) True show ?thesis by (auto split: if_splits)
  next
    case False
    then have "fold worse_status (s # ss) st = fold worse_status ss st" by simp
    with IH [of st] Cons.prems(1) False show ?thesis by (auto split: if_splits)
  qed
qed simp

lemma worst_unique:
  assumes "S \<subseteq> {''complete'', ''partial'', ''unknown''}"
    and "a \<in> S" "b \<in> S" "\<forall>s \<in> S. status_rank s \<le> status_rank a" "\<forall>s \<in> S. status_rank s \<le> status_rank b"
  shows "a = b"
proof -
  have "status_rank a = status_rank b" using assms(2-5) by (simp add: order_antisym)
  moreover have "a \<in> {''complete'', ''partial'', ''unknown''}" "b \<in> {''complete'', ''partial'', ''unknown''}" using assms(1-3) by blast+
  ultimately show ?thesis by (auto simp: status_rank_def)
qed

text \<open>
  The coverage of a collided id is the least complete of its rows', with the sorted
  union of their reasons, whatever the order of the rows.
\<close>

theorem least_complete_in_any_order:
  assumes "set vs = set ws" "vs \<noteq> []" "fst ` set vs \<subseteq> {''complete'', ''partial'', ''unknown''}"
  shows "least_complete vs = least_complete ws \<and>
    snd (least_complete vs) = sorted_list_of_set (\<Union> ((set \<circ> snd) ` set vs)) \<and>
    (\<forall>s \<in> fst ` set vs. status_rank s \<le> status_rank (fst (least_complete vs))) \<and>
    fst (least_complete vs) \<in> fst ` set vs"
proof -
  have eq: "least_complete us = (fold worse_status (map fst us) [], sorted_list_of_set (\<Union> ((set \<circ> snd) ` set us)))" for us
    by (simp add: least_complete_def fold_coverage remdups_adj_sorted image_comp comp_def)
  have pick: "fold worse_status (map fst us) [] \<in> fst ` set us \<and> (\<forall>s \<in> fst ` set us. status_rank s \<le> status_rank (fold worse_status (map fst us) []))"
    if us: "fst ` set us = fst ` set vs" for us
  proof -
    have "[] \<notin> fst ` set vs" using assms(3) by blast
    then have "[] \<notin> set (map fst us)" by (simp only: set_map us) blast
    moreover have "map fst us \<noteq> [] \<or> ([] :: string) \<noteq> []" using us assms(2) by auto
    ultimately show ?thesis using fold_worse [of "map fst us" "[]"] unfolding set_map if_P [OF refl] by blast
  qed
  have ws: "fst ` set ws = fst ` set vs" by (simp only: assms(1))
  have "fold worse_status (map fst vs) [] = fold worse_status (map fst ws) []"
    by (rule worst_unique [OF assms(3)]) (use pick [OF refl] pick [OF ws] ws in blast)+
  then show ?thesis unfolding eq using pick [OF refl] assms(1) by simp
qed

end
