(* ===== verification/Effect_Solve.thy ===== *)
theory Effect_Solve
  imports Effect_Rows Side_Facts Projection
begin

text \<open>
  The solve of a workspace (\<open>src/src/engine/l4/summary_runner.rs\<close>, \<open>solve_v2\<close>; the driver of
  \<open>src/src/engine/l4/db_effect_solver.rs\<close>; \<open>graph_scc\<close> of \<open>src/src/engine/l4/analysis.rs\<close>): the per-id
  inputs made from the rows, the interner, the leaves' rows, one solve per component callees first,
  and the freeze. The parameter roles are not part of the model: which components hit the cap of their
  loop is an argument. Where the code reads a hash map in its own order, the order is an argument.
\<close>

section \<open>One component\<close>

type_synonym member_facts = "string \<rightharpoonup> uncertainty list \<times> bool"

definition out_member :: "solver_inputs \<Rightarrow> side_facts \<Rightarrow> string \<Rightarrow> member_facts \<Rightarrow> member_facts option" where
  "out_member si side m out =
     do { m_ix \<leftarrow> ri_get (in_interner si) m;
          Some (out(m \<mapsto> (unwrap_or [] (sf_uncertainties side m_ix), unwrap_or False (sf_has_unresolved side m_ix)))) }"

type_synonym arrange = "uncertainty list \<Rightarrow> uncertainty list"

definition solve_one_effective_scc ::
  "arrange \<Rightarrow> solver_inputs \<Rightarrow> scc \<Rightarrow> (string \<rightharpoonup> routine_summary) \<Rightarrow> universe \<times> bundle_builder
    \<Rightarrow> (member_facts \<times> universe \<times> bundle_builder) option" where
  "solve_one_effective_scc arrange si eff settled s =
     do { s' \<leftarrow> solve_effects eff si s;
          side \<leftarrow> solve_side_facts arrange eff si settled;
          out \<leftarrow> try_fold (out_member si side) (members eff) Map.empty;
          Some (out, s') }"

text \<open>The summary a sibling component reads: side facts only.\<close>

definition sibling_summary :: "bool \<Rightarrow> string \<Rightarrow> uncertainty list \<times> bool \<Rightarrow> routine_summary" where
  "sibling_summary cycle m f =
     \<lparr> sm_routine_id = m, sm_db_effects = [], sm_in_recursive_cycle = cycle, sm_has_unresolved_calls = snd f, sm_uncertainties = fst f \<rparr>"

definition feed_forward :: "bool \<Rightarrow> member_facts \<Rightarrow> (string \<rightharpoonup> routine_summary) \<Rightarrow> (string \<rightharpoonup> routine_summary)" where
  "feed_forward cycle solved settled =
     (\<lambda>m. case solved m of Some f \<Rightarrow> Some (sibling_summary cycle m f) | None \<Rightarrow> settled m)"

definition solve_sibling ::
  "arrange \<Rightarrow> solver_inputs \<Rightarrow> bool \<Rightarrow> scc \<Rightarrow> (string \<rightharpoonup> routine_summary) \<times> member_facts \<times> universe \<times> bundle_builder
    \<Rightarrow> ((string \<rightharpoonup> routine_summary) \<times> member_facts \<times> universe \<times> bundle_builder) option" where
  "solve_sibling arrange si cycle eff = (\<lambda>(local_settled, results, s).
     do { (solved, s) \<leftarrow> solve_one_effective_scc arrange si eff local_settled s;
          Some (feed_forward cycle solved local_settled, results ++ solved, s) })"

definition solve_scc_db_effects ::
  "arrange \<Rightarrow> solver_inputs \<Rightarrow> (string \<Rightarrow> bool) \<Rightarrow> scc \<Rightarrow> (string \<rightharpoonup> routine_summary) \<Rightarrow> universe \<times> bundle_builder
    \<Rightarrow> (member_facts \<times> universe \<times> bundle_builder) option" where
  "solve_scc_db_effects arrange si is_recomputed scc_entry settled s =
     do { parts \<leftarrow> effective_sccs scc_entry (in_graph si) is_recomputed;
          (case parts of
             [] \<Rightarrow> Some (Map.empty, s)
           | [eff] \<Rightarrow> solve_one_effective_scc arrange si eff settled s
           | _ \<Rightarrow>
               do { (_, results, s) \<leftarrow> try_fold (solve_sibling arrange si (recursive scc_entry)) parts (settled, Map.empty, s);
                    Some (results, s) }) }"

section \<open>The inputs of the solve\<close>

record v2_inputs =
  vi_routines :: "model_routine list"
  vi_graph :: primary_graph
  vi_scc :: scc_result
  vi_leaves :: "(string \<times> routine_summary) list"

definition graph_scc :: "primary_graph \<Rightarrow> scc_result option" where
  "graph_scc g = tarjan_scc \<lparr> nodes = pg_nodes g, edges_by_from = (\<lambda>from. map_option (map ce_to) (pg_edges_by_from g from)) \<rparr>"

abbreviation is_leaf :: "v2_inputs \<Rightarrow> string \<Rightarrow> bool" where
  "is_leaf vi rid \<equiv> rid \<in> fst ` set (vi_leaves vi)"

definition routines_by_id :: "v2_inputs \<Rightarrow> string \<rightharpoonup> model_routine" where
  "routines_by_id vi = last_per_id (index_rows (vi_routines vi)) (map Some (vi_routines vi))"

definition body_avail_by_id :: "v2_inputs \<Rightarrow> string \<rightharpoonup> bool" where
  "body_avail_by_id vi = last_per_id (index_rows (vi_routines vi)) (map (\<lambda>r. Some (mr_body_available r)) (vi_routines vi))"

definition base_summaries :: "v2_inputs \<Rightarrow> string \<rightharpoonup> routine_summary" where
  "base_summaries vi =
     merge_per_id (index_rows (vi_routines vi))
       (map (\<lambda>r. if is_leaf vi (mr_id r) then None else Some (base_intraprocedural_summary r)) (vi_routines vi)) union_summaries"

definition stable_map :: "v2_inputs \<Rightarrow> string \<rightharpoonup> string" where
  "stable_map vi = last_per_id (index_rows (vi_routines vi)) (map (\<lambda>r. Some (mr_stable_routine_id r)) (vi_routines vi))"

definition interner_entries :: "v2_inputs \<Rightarrow> (string \<times> string) list" where
  "interner_entries vi = map (\<lambda>r. (mr_id r, mr_stable_routine_id r)) (vi_routines vi) @ map (\<lambda>(rid, _). (rid, rid)) (vi_leaves vi)"

definition uncertainty_edges_by_from :: "primary_graph \<Rightarrow> string \<rightharpoonup> nat list" where
  "uncertainty_edges_by_from g =
     fold (\<lambda>(i, ue) out. out(ue_from ue \<mapsto> unwrap_or [] (out (ue_from ue)) @ [i])) (enumerate 0 (pg_uncertainty_edges g)) Map.empty"

definition is_recomputed :: "v2_inputs \<Rightarrow> string \<Rightarrow> bool" where
  "is_recomputed vi rid \<longleftrightarrow> \<not> is_leaf vi rid \<and> routines_by_id vi rid \<noteq> None"

definition inputs_of :: "v2_inputs \<Rightarrow> solver_inputs" where
  "inputs_of vi =
     \<lparr> in_graph = vi_graph vi, in_routines = routines_by_id vi, in_base = base_summaries vi,
       in_interner = build_canonical (interner_entries vi),
       in_uncertainty_edges = uncertainty_edges_by_from (vi_graph vi), in_body_available = body_avail_by_id vi \<rparr>"

text \<open>\<open>record_variable_id\<close> by operation: the first effect of an operation gives it.\<close>

definition build_rvid_by_opid :: "routine_summary list \<Rightarrow> string \<rightharpoonup> string option" where
  "build_rvid_by_opid summaries =
     fold (\<lambda>s. fold (\<lambda>e out. if out (de_operation_id e) = None then out(de_operation_id e \<mapsto> de_record_variable_id e) else out) (sm_db_effects s))
       summaries Map.empty"

section \<open>The loop over the components\<close>

record solve_state =
  so_map :: "string \<rightharpoonup> routine_summary"
  so_universe :: universe
  so_builder :: bundle_builder

text \<open>
  The hash orders, and the components whose parameter roles hit the cap of their loop.
\<close>

record solve_orders =
  od_shared :: arrange
  od_base :: "string list"
  od_rows :: "u32 list"
  od_capped :: "scc \<Rightarrow> bool"

definition capped_uncertainty :: "v2_inputs \<Rightarrow> string \<Rightarrow> uncertainty" where
  "capped_uncertainty vi rid = self_uncertainty ''fixpoint-capped'' (unwrap_or rid (stable_map vi rid))"

definition assemble_member :: "v2_inputs \<Rightarrow> solve_orders \<Rightarrow> scc \<Rightarrow> member_facts \<Rightarrow> string \<Rightarrow> (string \<rightharpoonup> routine_summary) \<Rightarrow> (string \<rightharpoonup> routine_summary)" where
  "assemble_member vi od scc_entry side_facts rid m =
     (case unwrap_or ([], False) (side_facts rid) of (uncertainties, hu) \<Rightarrow>
        m(rid \<mapsto> \<lparr> sm_routine_id = rid, sm_db_effects = [], sm_in_recursive_cycle = recursive scc_entry,
            sm_has_unresolved_calls = hu,
            sm_uncertainties = (if od_capped od scc_entry then uncertainties @ [capped_uncertainty vi rid] else uncertainties) \<rparr>))"

definition solve_component :: "v2_inputs \<Rightarrow> solve_orders \<Rightarrow> solver_inputs \<Rightarrow> scc \<Rightarrow> solve_state \<Rightarrow> solve_state option" where
  "solve_component vi od si scc_entry st =
     do { (side_facts, u, db) \<leftarrow> solve_scc_db_effects (od_shared od) si (is_recomputed vi) scc_entry (so_map st) (so_universe st, so_builder st);
          Some \<lparr> so_map = fold (assemble_member vi od scc_entry side_facts) (filter (is_recomputed vi) (members scc_entry)) (so_map st),
            so_universe = u, so_builder = db \<rparr> }"

definition solve_seeds :: "v2_inputs \<Rightarrow> solver_inputs \<Rightarrow> solve_state" where
  "solve_seeds vi si =
     (case seed_fixed_leaf_rows (vi_leaves vi) (in_interner si) (new_universe, new_builder) of (u, db) \<Rightarrow>
        \<lparr> so_map = last_per_key_pairs (vi_leaves vi), so_universe = u, so_builder = db \<rparr>)"

definition solve_loop :: "v2_inputs \<Rightarrow> solve_orders \<Rightarrow> solve_state option" where
  "solve_loop vi od =
     (let si = inputs_of vi in try_fold (solve_component vi od si) (sccs (vi_scc vi)) (solve_seeds vi si))"

definition solve_v2 :: "v2_inputs \<Rightarrow> solve_orders \<Rightarrow> (summary_bundle \<times> (string \<rightharpoonup> routine_summary)) option" where
  "solve_v2 vi od =
     do { st \<leftarrow> solve_loop vi od;
          (let rvid = build_rvid_by_opid (List.map_filter (base_summaries vi) (od_base od) @ map snd (vi_leaves vi))
           in Some (finish_bundle (od_rows od) (so_builder st) (freeze (so_universe st)) (in_interner (inputs_of vi)) rvid, so_map st)) }"

end
