(* ===== verification/Solve_Exact.thy ===== *)
theory Solve_Exact
  imports Effect_Solve
begin

text \<open>
  The solve of a workspace is exact: it never panics, every routine it solves and every leaf has the
  row of the effects that may affect it with its ways, and its exact side facts; the frozen bundle
  projects those rows.
\<close>

section \<open>The inputs\<close>

text \<open>A workspace: distinct ids, the components of its graph, room for the ids, roles that converge.\<close>

definition solve_flow :: "v2_inputs \<Rightarrow> flow_spec" where
  "solve_flow vi =
     \<lparr> fs_solved = is_recomputed vi,
       fs_own = (\<lambda>v. if is_leaf vi v then fst ` set (leaf_effects (the (map_of (vi_leaves vi) v)))
         else if is_recomputed vi v then own_identities (inputs_of vi) v else {}) \<rparr>"

definition solve_side :: "v2_inputs \<Rightarrow> side_spec" where
  "solve_side vi = \<lparr> sd_solved = is_recomputed vi, sd_leaf = map_of (vi_leaves vi) \<rparr>"

abbreviation may_reach :: "v2_inputs \<Rightarrow> string \<Rightarrow> effect_identity \<Rightarrow> bool" where
  "may_reach vi v e \<equiv> affects (inputs_of vi) (solve_flow vi) v e"

definition effect_way :: "v2_inputs \<Rightarrow> string \<Rightarrow> effect_identity \<Rightarrow> via" where
  "effect_way vi v e =
     (if is_leaf vi v then the (map_of (rev (leaf_effects (the (map_of (vi_leaves vi) v)))) e)
      else best_way (inputs_of vi) (solve_flow vi) v e)"

definition workspace_ids :: "v2_inputs \<Rightarrow> string set" where
  "workspace_ids vi = mr_id ` set (vi_routines vi) \<union> fst ` set (vi_leaves vi)"

definition workspace_ok :: "v2_inputs \<Rightarrow> bool" where
  "workspace_ok vi \<longleftrightarrow>
     distinct (map mr_id (vi_routines vi)) \<and> distinct (map fst (vi_leaves vi)) \<and>
     length (vi_routines vi) + length (vi_leaves vi) < 2 ^ 32 \<and>
     finite (dom (pg_edges_by_from (vi_graph vi))) \<and> mr_id ` set (vi_routines vi) \<subseteq> set (pg_nodes (vi_graph vi)) \<and>
     graph_scc (vi_graph vi) = Some (vi_scc vi) \<and>
     card {e. \<exists>v. may_reach vi v e} < 2 ^ 32"

lemma index_rows_distinct:
  assumes "distinct (map mr_id rs)"
  shows "index_rows rs v = [] \<and> v \<notin> mr_id ` set rs \<or> (\<exists>i < length rs. index_rows rs v = [i] \<and> mr_id (rs ! i) = v)"
proof (cases "v \<in> mr_id ` set rs")
  case True
  then obtain i where i: "i < length rs" "mr_id (rs ! i) = v" by (auto simp: in_set_conv_nth)
  have "filter (\<lambda>ix. mr_id (rs ! ix) = v) [0..<length rs] = filter (\<lambda>ix. ix = i) [0..<length rs]"
    by (rule filter_cong [OF refl]) (use i assms in \<open>auto simp: distinct_conv_nth\<close>)
  also have "\<dots> = [i]" using i(1) distinct_upt [of 0 "length rs"]
    by (simp add: filter_eq_replicate distinct_count_atmost_1)
  finally show ?thesis using i by (auto simp: index_rows_def)
next
  case False
  then show ?thesis by (auto simp: index_rows_def filter_empty_conv)
qed

lemma row_unique: "distinct (map mr_id rs) \<Longrightarrow> r \<in> set rs \<Longrightarrow> s \<in> set rs \<Longrightarrow> mr_id r = mr_id s \<Longrightarrow> r = s"
  by (auto simp: distinct_map dest: inj_onD)

lemma last_per_id_distinct:
  assumes "distinct (map mr_id rs)"
  shows "last_per_id (index_rows rs) (map (\<lambda>r. Some (f r)) rs) v = Some x \<longleftrightarrow> (\<exists>r \<in> set rs. mr_id r = v \<and> f r = x)"
proof (cases "index_rows rs v = []")
  case True
  then have "v \<notin> mr_id ` set rs" using index_rows_distinct [OF assms, of v] by auto
  with True show ?thesis by (auto simp: last_per_id_def)
next
  case False
  then obtain i where i: "i < length rs" "index_rows rs v = [i]" "mr_id (rs ! i) = v" using index_rows_distinct [OF assms, of v] by auto
  then have "last_per_id (index_rows rs) (map (\<lambda>r. Some (f r)) rs) v = Some (f (rs ! i))" by (simp add: last_per_id_def take_row_def)
  with i row_unique [OF assms nth_mem [OF i(1)]] nth_mem [OF i(1)] show ?thesis by (metis option.inject)
qed

lemma merge_per_id_distinct:
  assumes "distinct (map mr_id rs)" "r \<in> set rs" "f r = Some x"
  shows "merge_per_id (index_rows rs) (map f rs) mrg (mr_id r) = Some x"
proof -
  obtain i where i: "i < length rs" "index_rows rs (mr_id r) = [i]" "mr_id (rs ! i) = mr_id r"
    using index_rows_distinct [OF assms(1), of "mr_id r"] assms(2) by auto
  then have "rs ! i = r" using row_unique [OF assms(1) _ assms(2)] nth_mem by blast
  with i assms(3) show ?thesis by (simp add: merge_per_id_def take_row_def map_filter_simps)
qed

lemma workspace_okD:
  assumes "workspace_ok vi"
  shows "distinct (map mr_id (vi_routines vi))" "distinct (map fst (vi_leaves vi))"
    "length (vi_routines vi) + length (vi_leaves vi) < 2 ^ 32" "finite (dom (pg_edges_by_from (vi_graph vi)))"
    "mr_id ` set (vi_routines vi) \<subseteq> set (pg_nodes (vi_graph vi))" "graph_scc (vi_graph vi) = Some (vi_scc vi)"
    "card {e. \<exists>v. may_reach vi v e} < 2 ^ 32"
  using assms by (simp_all add: workspace_ok_def)

lemma routine_at:
  assumes "workspace_ok vi"
  shows "routines_by_id vi v = Some r \<longleftrightarrow> r \<in> set (vi_routines vi) \<and> mr_id r = v"
  using last_per_id_distinct [OF workspace_okD(1) [OF assms], of "\<lambda>r. r"] by (simp add: routines_by_id_def)

lemma recomputed_iff:
  assumes "workspace_ok vi"
  shows "is_recomputed vi v \<longleftrightarrow> \<not> is_leaf vi v \<and> v \<in> mr_id ` set (vi_routines vi)"
  using routine_at [OF assms, of v] by (auto simp: is_recomputed_def)

lemma base_distinct:
  assumes "distinct (map mr_id (vi_routines vi))" "r \<in> set (vi_routines vi)" "\<not> is_leaf vi (mr_id r)"
  shows "base_summaries vi (mr_id r) = Some (base_intraprocedural_summary r)"
  unfolding base_summaries_def by (rule merge_per_id_distinct [OF assms(1,2)]) (use assms(3) in simp)

lemma base_at:
  assumes "workspace_ok vi" "is_recomputed vi v" "routines_by_id vi v = Some r"
  shows "base_summaries vi v = Some (base_intraprocedural_summary r)"
proof -
  have r: "r \<in> set (vi_routines vi)" "mr_id r = v" using assms(3) routine_at [OF assms(1)] by blast+
  have "\<not> is_leaf vi (mr_id r)" using assms(2) r(2) by (simp add: is_recomputed_def)
  from base_distinct [OF workspace_okD(1) [OF assms(1)] r(1) this] show ?thesis by (simp only: r(2))
qed

lemma interner_ok:
  assumes "workspace_ok vi"
  shows "ri_ok (in_interner (inputs_of vi))" "interned (inputs_of vi) v \<longleftrightarrow> v \<in> workspace_ids vi"
proof -
  let ?ks = "map fst (sort_key (\<lambda>(rid, stable). (stable, rid)) (interner_entries vi))"
  have len: "ri_len new_routine_interner + length ?ks \<le> 2 ^ 32"
    using workspace_okD(3) [OF assms] new_ri_ok(2) by (simp add: interner_entries_def)
  note all = routine_ids.intern_all [OF new_ri_ok(1) len]
  show "ri_ok (in_interner (inputs_of vi))" using all(1) by (simp add: inputs_of_def build_canonical_fold)
  have "set ?ks = workspace_ids vi"
    by (simp add: interner_entries_def workspace_ids_def image_Un image_image split_beta)
  moreover have "ri_get new_routine_interner v = None" by (simp add: ri_get_def new_routine_interner_def)
  ultimately have "ri_get (build_canonical (interner_entries vi)) v \<noteq> None \<longleftrightarrow> v \<in> workspace_ids vi"
    unfolding build_canonical_fold using all(3,5) [of v] by blast
  then show "interned (inputs_of vi) v \<longleftrightarrow> v \<in> workspace_ids vi" by (auto simp: interned_def inputs_of_def)
qed

lemma uncertainty_edges_in_range:
  "\<forall>i \<in> set (unwrap_or [] (uncertainty_edges_by_from g v)). i < length (pg_uncertainty_edges g)"
proof -
  have "\<forall>i \<in> set (unwrap_or [] (fold (\<lambda>(i, ue) out. out(ue_from ue \<mapsto> unwrap_or [] (out (ue_from ue)) @ [i])) (enumerate k ues) m v)).
      i < k + length ues"
    if "\<forall>v. \<forall>i \<in> set (unwrap_or [] (m v)). i < k" for k m and ues :: "uncertainty_edge list"
    using that
  proof (induction ues arbitrary: k m)
    case (Cons ue ues)
    have "\<forall>v. \<forall>i \<in> set (unwrap_or [] ((m(ue_from ue \<mapsto> unwrap_or [] (m (ue_from ue)) @ [k])) v)). i < Suc k"
      using Cons.prems by (auto intro: less_SucI)
    from Cons.IH [OF this] show ?case by simp
  qed simp
  from this [of Map.empty 0 "pg_uncertainty_edges g"] show ?thesis by (simp add: uncertainty_edges_by_from_def)
qed

text \<open>The members of the components and the leaves, as the passes see them.\<close>

lemma inputs_simps [simp]:
  "in_graph (inputs_of vi) = vi_graph vi" "in_routines (inputs_of vi) = routines_by_id vi" "in_base (inputs_of vi) = base_summaries vi"
  "in_uncertainty_edges (inputs_of vi) = uncertainty_edges_by_from (vi_graph vi)"
  "fs_solved (solve_flow vi) = is_recomputed vi" "sd_solved (solve_side vi) = is_recomputed vi" "sd_leaf (solve_side vi) = map_of (vi_leaves vi)"
  by (simp_all add: inputs_of_def solve_flow_def solve_side_def)

lemma recomputed_member:
  assumes ok: "workspace_ok vi" and m: "is_recomputed vi m"
  shows "member_ok (inputs_of vi) (solve_flow vi) m" "side_ready (inputs_of vi) m" "sd_leaf (solve_side vi) m = None"
    "routines_by_id vi m \<noteq> None"
proof -
  obtain r where r: "routines_by_id vi m = Some r" using m by (auto simp: is_recomputed_def)
  have base: "base_summaries vi m = Some (base_intraprocedural_summary r)" by (rule base_at [OF ok m r])
  have int: "interned (inputs_of vi) m" using m interner_ok(2) [OF ok] recomputed_iff [OF ok] by (simp add: workspace_ids_def)
  show "member_ok (inputs_of vi) (solve_flow vi) m"
    using int m r base by (simp add: member_ok_def own_db_effects_def) (simp add: solve_flow_def is_recomputed_def)
  show "side_ready (inputs_of vi) m"
    using int base uncertainty_edges_in_range by (simp add: side_ready_def side_summary_def)
  show "sd_leaf (solve_side vi) m = None" using m by (simp add: is_recomputed_def map_of_eq_None_iff)
  show "routines_by_id vi m \<noteq> None" by (simp add: r)
qed

lemma own_at: "fs_own (solve_flow vi) v =
    (if is_leaf vi v then fst ` set (leaf_effects (the (map_of (vi_leaves vi) v)))
     else if is_recomputed vi v then own_identities (inputs_of vi) v else {})"
  by (simp add: solve_flow_def)

lemma unsolved_affects:
  assumes "\<not> is_recomputed vi v"
  shows "{e. may_reach vi v e} = fs_own (solve_flow vi) v"
  using assms by (auto intro: may_affect.own elim: may_affect.cases)

lemma leaf_affects:
  assumes "distinct (map fst (vi_leaves vi))" "(v, s) \<in> set (vi_leaves vi)"
  shows "{e. may_reach vi v e} = fst ` set (leaf_effects s)"
proof -
  have leaf: "is_leaf vi v" "map_of (vi_leaves vi) v = Some s" using assms by (force, simp)
  then have "\<not> is_recomputed vi v" by (simp add: is_recomputed_def)
  from unsolved_affects [OF this] show ?thesis by (simp only: own_at leaf if_True option.sel)
qed

lemma other_affects:
  assumes "\<not> is_recomputed vi v" "\<not> is_leaf vi v"
  shows "\<not> may_reach vi v e"
  using unsolved_affects [OF assms(1)] assms unfolding own_at by auto

text \<open>There are finitely many effects: the bases are those of the routines' own bodies.\<close>

lemma finite_kinds: "finite (UNIV :: temp_state_kind set)"
proof -
  have "(UNIV :: temp_state_kind set) \<subseteq> range Known \<union> range ParameterDependent \<union> {UnknownTemp}"
    by (rule subsetI) (rename_tac k, case_tac k, auto)
  moreover have "finite (range (ParameterDependent :: u32 \<Rightarrow> temp_state_kind))" by (rule finite_imageI) simp
  ultimately show ?thesis by (auto intro: finite_subset)
qed

lemma affects_base: "affects si fs v e \<Longrightarrow> \<exists>w. \<exists>e' \<in> fs_own fs w. identity_base e = identity_base e'"
  by (induction rule: may_affect.induct) (auto simp: effect_transfer_def split: temp_state_kind.splits)

lemma finite_effects:
  assumes "workspace_ok vi"
  shows "finite {e. \<exists>v. may_reach vi v e}"
proof -
  let ?O = "\<Union>w. fs_own (solve_flow vi) w"
  have "?O \<subseteq> (\<Union>w \<in> fst ` set (vi_leaves vi). fst ` set (leaf_effects (the (map_of (vi_leaves vi) w)))) \<union>
      (\<Union>w \<in> {w. routines_by_id vi w \<noteq> None}. own_identities (inputs_of vi) w)"
    by (auto simp: own_at is_recomputed_def split: if_splits)
  moreover have "finite {w. routines_by_id vi w \<noteq> None}"
  proof (rule finite_subset)
    show "{w. routines_by_id vi w \<noteq> None} \<subseteq> mr_id ` set (vi_routines vi)"
      using routine_at [OF assms] by (intro subsetI) auto
  qed simp
  ultimately have "finite ?O" by (elim finite_subset) (simp add: own_identities_def)
  moreover have "{e. \<exists>v. may_reach vi v e} \<subseteq> (\<lambda>(b, k). make_identity b k) ` (identity_base ` ?O \<times> UNIV)"
  proof
    fix e assume "e \<in> {e. \<exists>v. may_reach vi v e}"
    then obtain w e' where "e' \<in> fs_own (solve_flow vi) w" "identity_base e = identity_base e'" using affects_base by blast
    then have "(identity_base e, ei_temp e) \<in> identity_base ` ?O \<times> UNIV" by auto
    then show "e \<in> (\<lambda>(b, k). make_identity b k) ` (identity_base ` ?O \<times> UNIV)" by (rule rev_image_eqI) simp
  qed
  ultimately show ?thesis using finite_kinds by (meson finite_SigmaI finite_imageI finite_subset)
qed

section \<open>The leaves\<close>

abbreviation all_effects :: "v2_inputs \<Rightarrow> effect_identity set" where
  "all_effects vi \<equiv> {e. \<exists>v. may_reach vi v e}"

text \<open>The rows of the routines settled so far, and the room that is left.\<close>

definition rows_inv :: "v2_inputs \<Rightarrow> string set \<Rightarrow> universe \<times> bundle_builder \<Rightarrow> bool" where
  "rows_inv vi S = (\<lambda>(u, db). S \<subseteq> workspace_ids vi \<and> within (all_effects vi) u \<and>
     rows_settled (inputs_of vi) (solve_flow vi) (effect_way vi) S u db \<and> length (bb_arena db) \<le> card S)"

lemma workspace_finite: "finite (workspace_ids vi)" "workspace_ok vi \<Longrightarrow> card (workspace_ids vi) < 2 ^ 32"
proof -
  show "finite (workspace_ids vi)" by (simp add: workspace_ids_def)
  assume ok: "workspace_ok vi"
  have "card (workspace_ids vi) \<le> card (mr_id ` set (vi_routines vi)) + card (fst ` set (vi_leaves vi))"
    unfolding workspace_ids_def by (rule card_Un_le)
  also have "\<dots> \<le> length (vi_routines vi) + length (vi_leaves vi)"
    by (rule add_mono; rule order_trans [OF card_image_le card_length]; simp)
  finally show "card (workspace_ids vi) < 2 ^ 32" using workspace_okD(3) [OF ok] by simp
qed

lemma rows_inv_room:
  assumes "workspace_ok vi" "rows_inv vi S (u, db)"
  shows "effect_room (all_effects vi)" "finite S" "length (bb_arena db) < 2 ^ 32"
proof -
  show "effect_room (all_effects vi)" using finite_effects [OF assms(1)] workspace_okD(7) [OF assms(1)] by (simp add: effect_room_def)
  have S: "S \<subseteq> workspace_ids vi" "length (bb_arena db) \<le> card S" using assms(2) by (simp_all add: rows_inv_def)
  then show "finite S" using workspace_finite(1) finite_subset by blast
  have "card S \<le> card (workspace_ids vi)" by (rule card_mono [OF workspace_finite(1) S(1)])
  then show "length (bb_arena db) < 2 ^ 32" using S(2) workspace_finite(2) [OF assms(1)] by linarith
qed

lemma rows_inv_new: "rows_inv vi {} (new_universe, new_builder)"
  by (simp add: rows_inv_def within_def rows_settled_def store_fits_def new_builder_def has_raw_row_def) (simp add: new_universe_def)

lemma seed_leaf_inv:
  assumes ok: "workspace_ok vi" and leaf: "(v, s) \<in> set (vi_leaves vi)" "v \<notin> S" and inv: "rows_inv vi S st"
  shows "rows_inv vi (insert v S) (seed_leaf_row (in_interner (inputs_of vi)) (v, s) st)"
proof -
  obtain u db where st: "st = (u, db)" by fastforce
  note effect_room = rows_inv_room [OF ok inv [unfolded st]]
  have int: "interned (inputs_of vi) v" using leaf(1) interner_ok(2) [OF ok] by (force simp: workspace_ids_def)
  have map: "map_of (vi_leaves vi) v = Some s" "is_leaf vi v" using leaf(1) workspace_okD(2) [OF ok] by (simp, force)
  have way: "effect_way vi v e = x" if "map_of (rev (leaf_effects s)) e = Some x" for e x
    unfolding effect_way_def if_P [OF map(2)] by (simp add: map(1) that)
  have now: "within (all_effects vi) u" "rows_settled (inputs_of vi) (solve_flow vi) (effect_way vi) S u db"
    using inv by (simp_all add: rows_inv_def st)
  have all: "\<forall>m e. may_reach vi m e \<longrightarrow> e \<in> all_effects vi" by blast
  obtain u' db' where row: "seed_row (number_of (inputs_of vi) v) (leaf_effects s) (u, db) = (u', db')" "within (all_effects vi) u'"
    "rows_settled (inputs_of vi) (solve_flow vi) (effect_way vi) (insert v S) u' db'" "length (bb_arena db') = Suc (length (bb_arena db))"
    using seed_row_exact [where way = "effect_way vi", OF interner_ok(1) [OF ok] effect_room(1) now(1) all now(2) int leaf(2)
        leaf_affects [OF workspace_okD(2) [OF ok] leaf(1)] way effect_room(3)] by blast
  have "v \<in> workspace_ids vi" using int interner_ok(2) [OF ok] by blast
  moreover have "seed_leaf_row (in_interner (inputs_of vi)) (v, s) st = (u', db')"
    using interned_name(1) [OF interner_ok(1) [OF ok] int] row(1) by (simp add: seed_leaf_row_def st)
  ultimately show ?thesis using row(2-4) inv effect_room(2) leaf(2) by (simp add: rows_inv_def st)
qed

lemma seeds_inv:
  assumes ok: "workspace_ok vi"
  shows "rows_inv vi {v. is_leaf vi v} (seed_fixed_leaf_rows (vi_leaves vi) (in_interner (inputs_of vi)) (new_universe, new_builder))"
proof -
  have "rows_inv vi (S \<union> fst ` set ls) (fold (seed_leaf_row (in_interner (inputs_of vi))) ls st)"
    if "set ls \<subseteq> set (vi_leaves vi)" "distinct (map fst ls)" "fst ` set ls \<inter> S = {}" "rows_inv vi S st" for ls S st
    using that
  proof (induction ls arbitrary: S st)
    case (Cons l ls)
    obtain v s where l: "l = (v, s)" by fastforce
    have "rows_inv vi (insert v S) (seed_leaf_row (in_interner (inputs_of vi)) l st)"
      unfolding l by (rule seed_leaf_inv [OF ok]) (use Cons.prems l in auto)
    then have "rows_inv vi (insert v S \<union> fst ` set ls) (fold (seed_leaf_row (in_interner (inputs_of vi))) ls (seed_leaf_row (in_interner (inputs_of vi)) l st))"
      by (rule Cons.IH [rotated 3]) (use Cons.prems l in auto)
    then show ?case by (simp add: l)
  qed simp
  from this [of "vi_leaves vi" "{}"] show ?thesis
    using rows_inv_new workspace_okD(2) [OF ok] by (simp add: seed_fixed_leaf_rows_def)
qed

section \<open>The pieces of a component\<close>

abbreviation whole_graph :: "v2_inputs \<Rightarrow> scc_graph" where
  "whole_graph vi \<equiv> \<lparr> nodes = pg_nodes (vi_graph vi), edges_by_from = (\<lambda>from. map_option (map ce_to) (pg_edges_by_from (vi_graph vi) from)) \<rparr>"

lemma whole_children: "children (whole_graph vi) v = map ce_to (out_edges (vi_graph vi) v)"
  by (cases "pg_edges_by_from (vi_graph vi) v") (simp_all add: children_def out_edges_def)

text \<open>The routines settled before component \<open>n\<close>, and before its piece \<open>i\<close>.\<close>

definition settled_before :: "v2_inputs \<Rightarrow> string list list \<Rightarrow> nat \<Rightarrow> string set" where
  "settled_before vi raw n = {v. is_leaf vi v} \<union> {v \<in> set (concat (take n raw)). is_recomputed vi v}"

abbreviation pieces_before :: "scc list \<Rightarrow> nat \<Rightarrow> string set" where
  "pieces_before parts i \<equiv> set (concat (take i (map members parts)))"

text \<open>One component of the graph and its pieces.\<close>

definition at_component :: "v2_inputs \<Rightarrow> string list list \<Rightarrow> nat \<Rightarrow> string list \<Rightarrow> scc list \<Rightarrow> bool" where
  "at_component vi raw n kept parts \<longleftrightarrow>
     components_ok (whole_graph vi) raw \<and> n < length raw \<and>
     set kept = {v \<in> set (raw ! n). is_recomputed vi v} \<and> pieces_ok (vi_graph vi) kept parts"

lemma piece_members:
  assumes "at_component vi raw n kept parts" "i < length parts" "m \<in> set (members (parts ! i))"
  shows "m \<in> set kept" "is_recomputed vi m" "m \<in> set (raw ! n)"
proof -
  have "m \<in> set (concat (map members parts))" unfolding mem_concat using assms(2,3) by auto
  then show "m \<in> set kept" using assms(1) by (simp only: at_component_def pieces_ok_def)
  then show "is_recomputed vi m" "m \<in> set (raw ! n)" using assms(1) by (auto simp: at_component_def)
qed

lemma piece_fresh:
  assumes at: "at_component vi raw n kept parts" and i: "i < length parts" "m \<in> set (members (parts ! i))"
  shows "m \<notin> settled_before vi raw n \<union> pieces_before parts i"
proof -
  note m = piece_members [OF at i]
  have "\<not> is_leaf vi m" using m(2) by (simp add: is_recomputed_def)
  moreover have "m \<notin> set (concat (take n raw))"
  proof
    assume "m \<in> set (concat (take n raw))"
    then obtain j where "j < n" "j < length raw" "m \<in> set (raw ! j)" unfolding mem_concat_take by blast
    moreover have "distinct (concat raw)" "n < length raw" using at by (simp_all add: at_component_def components_ok_def)
    ultimately have "j = n" using concat_index_unique [of raw j n m] m(3) by simp
    with \<open>j < n\<close> show False by simp
  qed
  moreover have "m \<notin> pieces_before parts i"
  proof
    assume "m \<in> pieces_before parts i"
    then obtain j where "j < i" "j < length parts" "m \<in> set (map members parts ! j)" unfolding mem_concat_take by auto
    moreover have "distinct (concat (map members parts))" using at unfolding at_component_def pieces_ok_def components_ok_def by blast
    moreover have "m \<in> set (map members parts ! i)" using i by simp
    ultimately have "j = i" using concat_index_unique [of "map members parts" j i m] i(1) by simp
    with \<open>j < i\<close> show False by simp
  qed
  ultimately show ?thesis by (auto simp: settled_before_def)
qed

lemma piece_callee:
  assumes at: "at_component vi raw n kept parts" and i: "i < length parts" "m \<in> set (members (parts ! i))"
    and ed: "ed \<in> set (out_edges (vi_graph vi) m)" "ce_to ed \<notin> set (members (parts ! i))" and rec: "is_recomputed vi (ce_to ed)"
  shows "ce_to ed \<in> settled_before vi raw n \<union> pieces_before parts i"
proof -
  note m = piece_members [OF at i]
  have comps: "components_ok (whole_graph vi) raw" "n < length raw" "components_ok (induced_graph (vi_graph vi) kept) (map members parts)"
    using at by (simp_all only: at_component_def pieces_ok_def)
  have "ce_to ed \<in> set (children (whole_graph vi) m)" using ed(1) by (simp add: whole_children)
  then have "ce_to ed \<in> set (concat (take (Suc n) raw))" using comps(1,2) m(3) unfolding components_ok_def by blast
  then obtain j where j: "j < Suc n" "j < length raw" "ce_to ed \<in> set (raw ! j)" unfolding mem_concat_take by blast
  show ?thesis
  proof (cases "j = n")
    case False
    then have "j < n" using j(1) by simp
    then have "ce_to ed \<in> set (concat (take n raw))" unfolding mem_concat_take using j(2,3) by blast
    with rec show ?thesis by (simp add: settled_before_def)
  next
    case True
    then have kept: "ce_to ed \<in> set kept" using at j(3) rec by (simp add: at_component_def)
    then have "ce_to ed \<in> set (children (induced_graph (vi_graph vi) kept) m)"
      unfolding children_induced using m(1) ed(1) by simp
    moreover have "m \<in> set (map members parts ! i)" "i < length (map members parts)" using i by simp_all
    ultimately have "ce_to ed \<in> set (concat (take (Suc i) (map members parts)))" using comps(3) unfolding components_ok_def by blast
    then obtain k where "k < Suc i" "k < length parts" "ce_to ed \<in> set (map members parts ! k)" unfolding mem_concat_take by auto
    moreover from this ed(2) have "k \<noteq> i" by auto
    ultimately have "ce_to ed \<in> pieces_before parts i" unfolding mem_concat_take by (intro exI [of _ k]) auto
    then show ?thesis ..
  qed
qed

lemma settled_known:
  assumes at: "at_component vi raw n kept parts" and v: "v \<in> settled_before vi raw n \<union> pieces_before parts i"
  shows "is_leaf vi v \<or> is_recomputed vi v"
proof (cases "v \<in> pieces_before parts i")
  case True
  then obtain j where "j < length parts" "v \<in> set (members (parts ! j))" unfolding mem_concat_take by auto
  then show ?thesis using piece_members [OF at] by blast
qed (use v in \<open>auto simp: settled_before_def\<close>)

lemma piece_connected:
  assumes at: "at_component vi raw n kept parts" and i: "i < length parts"
  shows "distinct (members (parts ! i))" "members (parts ! i) \<noteq> []"
    "\<forall>m \<in> set (members (parts ! i)). \<forall>v \<in> set (members (parts ! i)). (m, v) \<in> (edge (induced_graph (vi_graph vi) kept))\<^sup>*"
proof -
  have comps: "components_ok (induced_graph (vi_graph vi) kept) (map members parts)" using at by (simp add: at_component_def pieces_ok_def)
  have mem: "members (parts ! i) \<in> set (map members parts)" using i by simp
  show "distinct (members (parts ! i))" using comps mem by (simp add: components_ok_def distinct_concat_iff)
  show "members (parts ! i) \<noteq> []"
    "\<forall>m \<in> set (members (parts ! i)). \<forall>v \<in> set (members (parts ! i)). (m, v) \<in> (edge (induced_graph (vi_graph vi) kept))\<^sup>*"
    using comps mem unfolding components_ok_def by blast+
qed

definition side_settled :: "v2_inputs \<Rightarrow> string set \<Rightarrow> (string \<rightharpoonup> routine_summary) \<Rightarrow> bool" where
  "side_settled vi S settled \<longleftrightarrow>
     dom settled = S \<and> (\<forall>v s. settled v = Some s \<longrightarrow> exact_side (inputs_of vi) (solve_side vi) v s)"

lemma known_iff: "known (solve_side vi) v \<longleftrightarrow> is_leaf vi v \<or> is_recomputed vi v"
  by (auto simp: known_def map_of_eq_None_iff)

lemma outer_callee:
  assumes at: "at_component vi raw n kept parts" and i: "i < length parts" "m \<in> set (members (parts ! i))"
    and ed: "ed \<in> set (outer_edges (inputs_of vi) (members (parts ! i)) m)"
  shows "known (solve_side vi) (ce_to ed) \<longleftrightarrow> ce_to ed \<in> settled_before vi raw n \<union> pieces_before parts i"
proof
  assume k: "known (solve_side vi) (ce_to ed)"
  show "ce_to ed \<in> settled_before vi raw n \<union> pieces_before parts i"
  proof (cases "is_leaf vi (ce_to ed)")
    case True
    then show ?thesis by (simp add: settled_before_def)
  next
    case False
    then have "is_recomputed vi (ce_to ed)" using k by (simp add: known_iff)
    then show ?thesis using piece_callee [OF at i] ed by (simp add: outer_edges_def)
  qed
qed (use settled_known [OF at] known_iff in blast)

lemma piece_ready:
  assumes ok: "workspace_ok vi" and at: "at_component vi raw n kept parts" and i: "i < length parts"
    and S: "S = settled_before vi raw n \<union> pieces_before parts i"
  shows "component_ready (inputs_of vi) (solve_flow vi) S (members (parts ! i))"
    "side_settled vi S settled \<Longrightarrow> side_component (inputs_of vi) (solve_side vi) settled (members (parts ! i))"
proof -
  let ?ms = "members (parts ! i)"
  note conn = piece_connected [OF at i]
  have fresh: "set ?ms \<inter> S = {}" using piece_fresh [OF at i] by (auto simp: S)
  have rec: "is_recomputed vi m" if "m \<in> set ?ms" for m by (rule piece_members(2) [OF at i that])
  have kept: "\<forall>x \<in> set kept. is_recomputed vi x \<and> routines_by_id vi x \<noteq> None"
    using at by (auto simp: at_component_def is_recomputed_def)
  have outer: "ce_to ed \<in> S \<or> (\<forall>e. \<not> may_reach vi (ce_to ed) e)" if "m \<in> set ?ms" "ed \<in> set (outer_edges (inputs_of vi) ?ms m)" for m ed
    using outer_callee [OF at i that] other_affects [of vi "ce_to ed"] by (auto simp: known_iff S)
  show "component_ready (inputs_of vi) (solve_flow vi) S ?ms"
    unfolding component_ready_def inputs_simps
    using conn fresh rec recomputed_member(1) [OF ok] kept outer by (intro conjI exI [of _ kept]) simp_all
  assume side: "side_settled vi S settled"
  have "case settled (ce_to ed) of None \<Rightarrow> \<not> known (solve_side vi) (ce_to ed)
      | Some s \<Rightarrow> known (solve_side vi) (ce_to ed) \<and> exact_side (inputs_of vi) (solve_side vi) (ce_to ed) s"
    if "m \<in> set ?ms" "ed \<in> set (outer_edges (inputs_of vi) ?ms m)" for m ed
    using outer_callee [OF at i that] side unfolding side_settled_def S [symmetric] by (auto split: option.split)
  then show "side_component (inputs_of vi) (solve_side vi) settled ?ms"
    unfolding side_component_def inputs_simps
    using conn rec recomputed_member(2,3) [OF ok] kept by (intro conjI exI [of _ kept]) simp_all
qed

lemma out_members:
  assumes "ri_ok (in_interner si)" "\<forall>m \<in> set ms. interned si m"
  shows "try_fold (out_member si side) ms out =
    Some (\<lambda>m. if m \<in> set ms then Some (unwrap_or [] (sf_uncertainties side (number_of si m)), unwrap_or False (sf_has_unresolved side (number_of si m))) else out m)"
  using assms(2)
proof (induction ms arbitrary: out)
  case (Cons m ms)
  let ?f = "\<lambda>m. (unwrap_or [] (sf_uncertainties side (number_of si m)), unwrap_or False (sf_has_unresolved side (number_of si m)))"
  have "out_member si side m out = Some (out(m \<mapsto> ?f m))"
    using interned_name(1) [OF assms(1)] Cons.prems by (simp add: out_member_def)
  moreover have "(\<lambda>x. if x \<in> set ms then Some (?f x) else (out(m \<mapsto> ?f m)) x) = (\<lambda>x. if x \<in> set (m # ms) then Some (?f x) else out x)"
    by (rule ext) simp
  moreover have "\<forall>m \<in> set ms. interned si m" using Cons.prems by simp
  ultimately show ?case using Cons.IH [of "out(m \<mapsto> ?f m)"] by (simp only: try_fold.simps bind.simps)
qed simp

definition exact_facts :: "v2_inputs \<Rightarrow> string \<Rightarrow> uncertainty list \<times> bool \<Rightarrow> bool" where
  "exact_facts vi v f \<longleftrightarrow> exact_uncertainties (inputs_of vi) (solve_side vi) v (fst f) \<and> snd f = unresolved (inputs_of vi) (solve_side vi) v"

text \<open>The kinds hold no bar, and the shared uncertainties are visited in some order.\<close>

definition side_ok :: "v2_inputs \<Rightarrow> arrange \<Rightarrow> bool" where
  "side_ok vi arrange \<longleftrightarrow> (\<forall>v u. reports (inputs_of vi) (solve_side vi) v u \<longrightarrow> plain u) \<and> (\<forall>us. set (arrange us) = set us)"

lemma solve_piece:
  assumes ok: "workspace_ok vi" "side_ok vi arrange" and at: "at_component vi raw n kept parts" and i: "i < length parts"
    and S: "S = settled_before vi raw n \<union> pieces_before parts i" and inv: "rows_inv vi S s" and side: "side_settled vi S settled"
  obtains solved s' where "solve_one_effective_scc arrange (inputs_of vi) (parts ! i) settled s = Some (solved, s')"
    "rows_inv vi (S \<union> set (members (parts ! i))) s'" "dom solved = set (members (parts ! i))"
    "\<And>m f. solved m = Some f \<Longrightarrow> exact_facts vi m f"
proof -
  let ?ms = "members (parts ! i)" and ?si = "inputs_of vi"
  note ready = piece_ready [OF ok(1) at i S]
  note ri = interner_ok(1) [OF ok(1)]
  obtain u db where s: "s = (u, db)" by fastforce
  note effect_room = rows_inv_room [OF ok(1) inv [unfolded s]]
  have now: "within (all_effects vi) u" "rows_settled ?si (solve_flow vi) (effect_way vi) S u db" "S \<subseteq> workspace_ids vi" "length (bb_arena db) \<le> card S"
    using inv by (simp_all add: rows_inv_def s)
  have all: "\<forall>m e. may_reach vi m e \<longrightarrow> e \<in> all_effects vi" by blast
  have rec: "is_recomputed vi m" if "m \<in> set ?ms" for m by (rule piece_members(2) [OF at i that])
  have way: "\<forall>m \<in> set ?ms. effect_way vi m = best_way ?si (solve_flow vi) m"
    using rec by (auto simp: effect_way_def is_recomputed_def fun_eq_iff)
  obtain u' db' where rows: "solve_effects (parts ! i) ?si (u, db) = Some (u', db')" "within (all_effects vi) u'"
    "rows_settled ?si (solve_flow vi) (effect_way vi) (S \<union> set ?ms) u' db'" "length (bb_arena db') = Suc (length (bb_arena db))"
    using component_rows [OF ri effect_room(1) now(1) all now(2) ready(1) way effect_room(3)] by blast
  have int: "\<forall>m \<in> set ?ms. interned ?si m" using ready(1) by (simp add: component_ready_def member_ok_def)
  have fresh: "set ?ms \<inter> S = {}" "?ms \<noteq> []" using ready(1) piece_connected(2) [OF at i] by (simp_all add: component_ready_def)
  have "Suc (card S) \<le> card (S \<union> set ?ms)"
    using fresh effect_room(2) card_Un_disjoint [of S "set ?ms"] card_gt_0_iff [of "set ?ms"] by (auto simp: Int_commute)
  moreover have "set ?ms \<subseteq> workspace_ids vi" using int interner_ok(2) [OF ok(1)] by blast
  ultimately have rows': "rows_inv vi (S \<union> set ?ms) (u', db')" using rows(2-4) now(3,4) by (simp add: rows_inv_def)
  have plain: "\<forall>v u. reports ?si (solve_side vi) v u \<longrightarrow> plain u" "\<forall>us. set (arrange us) = set us" using ok(2) by (simp_all add: side_ok_def)
  obtain facts where facts: "solve_side_facts arrange (parts ! i) ?si settled = Some facts"
    "\<And>m. m \<in> set ?ms \<Longrightarrow> \<exists>us. sf_uncertainties facts (number_of ?si m) = Some us \<and> exact_uncertainties ?si (solve_side vi) m us"
    "\<And>m. m \<in> set ?ms \<Longrightarrow> sf_has_unresolved facts (number_of ?si m) = Some (unresolved ?si (solve_side vi) m)"
    by (rule side_facts_exact [OF ri ready(2) [OF side] plain]) blast
  let ?out = "\<lambda>m. if m \<in> set ?ms then Some (unwrap_or [] (sf_uncertainties facts (number_of ?si m)), unwrap_or False (sf_has_unresolved facts (number_of ?si m))) else None"
  show thesis
  proof (rule that [of ?out "(u', db')"])
    show "solve_one_effective_scc arrange ?si (parts ! i) settled s = Some (?out, (u', db'))"
      using out_members [OF ri int, of facts Map.empty] by (simp add: solve_one_effective_scc_def s rows(1) facts(1) cong: if_cong)
    show "exact_facts vi m f" if "?out m = Some f" for m f
      using that facts(2,3) [of m] by (auto simp: exact_facts_def split: if_splits)
  qed (use rows' in \<open>auto simp: dom_def split: if_splits\<close>)
qed

section \<open>The loops\<close>

text \<open>The two fast paths are the general one.\<close>

lemma solve_scc_uniform:
  "solve_scc_db_effects arrange si is_rec c settled s =
     do { parts \<leftarrow> effective_sccs c (in_graph si) is_rec;
          (_, results, s) \<leftarrow> try_fold (solve_sibling arrange si (recursive c)) parts (settled, Map.empty, s);
          Some (results, s) }"
proof (cases "effective_sccs c (in_graph si) is_rec")
  case (Some parts)
  show ?thesis
  proof (cases parts)
    case (Cons p ps)
    with Some show ?thesis
      by (cases ps; cases "solve_one_effective_scc arrange si p settled s")
        (simp_all add: solve_scc_db_effects_def solve_sibling_def split: prod.split)
  qed (simp add: solve_scc_db_effects_def Some)
qed (simp add: solve_scc_db_effects_def)

definition pieces_inv ::
  "v2_inputs \<Rightarrow> string list list \<Rightarrow> nat \<Rightarrow> scc list \<Rightarrow> nat \<Rightarrow> (string \<rightharpoonup> routine_summary) \<times> member_facts \<times> universe \<times> bundle_builder \<Rightarrow> bool" where
  "pieces_inv vi raw n parts i = (\<lambda>(settled, results, s).
     rows_inv vi (settled_before vi raw n \<union> pieces_before parts i) s \<and>
     side_settled vi (settled_before vi raw n \<union> pieces_before parts i) settled \<and>
     dom results = pieces_before parts i \<and> (\<forall>m f. results m = Some f \<longrightarrow> exact_facts vi m f))"

lemma pieces_before_Suc: "i < length parts \<Longrightarrow> pieces_before parts (Suc i) = pieces_before parts i \<union> set (members (parts ! i))"
  by (simp add: take_Suc_conv_app_nth)

lemma dom_feed_forward: "dom (feed_forward cycle solved settled) = dom solved \<union> dom settled"
  by (auto simp: feed_forward_def dom_def split: option.splits)

lemma feed_forward_exact:
  assumes "\<And>v t. settled v = Some t \<Longrightarrow> exact_side (inputs_of vi) (solve_side vi) v t"
    "\<And>m f. solved m = Some f \<Longrightarrow> exact_facts vi m f" "feed_forward cycle solved settled v = Some t"
  shows "exact_side (inputs_of vi) (solve_side vi) v t"
proof (cases "solved v")
  case None
  then show ?thesis using assms(1,3) by (simp add: feed_forward_def)
next
  case (Some f)
  then have "t = sibling_summary cycle v f" using assms(3) by (simp add: feed_forward_def)
  with assms(2) [OF Some] show ?thesis by (simp add: exact_side_def exact_facts_def sibling_summary_def)
qed

lemma solve_siblings:
  assumes ok: "workspace_ok vi" "side_ok vi arrange" and at: "at_component vi raw n kept parts"
    and start: "pieces_inv vi raw n parts 0 st" and "i \<le> length parts"
  shows "\<exists>st'. try_fold (solve_sibling arrange (inputs_of vi) cycle) (take i parts) st = Some st' \<and> pieces_inv vi raw n parts i st'"
  using assms(5)
proof (induction i)
  case 0
  with start show ?case by simp
next
  case (Suc i)
  then obtain settled results s where IH: "try_fold (solve_sibling arrange (inputs_of vi) cycle) (take i parts) st = Some (settled, results, s)"
    "pieces_inv vi raw n parts i (settled, results, s)" by auto
  let ?S = "settled_before vi raw n \<union> pieces_before parts i" and ?ms = "set (members (parts ! i))"
  have i: "i < length parts" using Suc.prems by simp
  have inv: "rows_inv vi ?S s" "side_settled vi ?S settled" using IH(2) by (simp_all add: pieces_inv_def)
  obtain solved s' where one: "solve_one_effective_scc arrange (inputs_of vi) (parts ! i) settled s = Some (solved, s')"
    "rows_inv vi (?S \<union> ?ms) s'" "dom solved = ?ms" "\<And>m f. solved m = Some f \<Longrightarrow> exact_facts vi m f"
    by (rule solve_piece [OF ok at i refl inv]) blast
  have "dom (feed_forward cycle solved settled) = ?S \<union> ?ms"
    using inv(2) by (simp only: dom_feed_forward one(3) side_settled_def Un_commute)
  moreover have "exact_side (inputs_of vi) (solve_side vi) v t" if "feed_forward cycle solved settled v = Some t" for v t
    by (rule feed_forward_exact [OF _ one(4) that]) (use inv(2) in \<open>simp_all add: side_settled_def\<close>)
  ultimately have "side_settled vi (?S \<union> ?ms) (feed_forward cycle solved settled)" by (simp add: side_settled_def)
  moreover have "dom (results ++ solved) = pieces_before parts i \<union> ?ms" using IH(2) one(3) by (auto simp: pieces_inv_def)
  moreover have "\<forall>m f. (results ++ solved) m = Some f \<longrightarrow> exact_facts vi m f" using IH(2) one(4) by (auto simp: pieces_inv_def map_add_Some_iff)
  ultimately have "pieces_inv vi raw n parts (Suc i) (feed_forward cycle solved settled, results ++ solved, s')"
    using one(2) by (simp only: pieces_inv_def pieces_before_Suc [OF i] Un_assoc prod.case)
  moreover have "try_fold (solve_sibling arrange (inputs_of vi) cycle) (take (Suc i) parts) st =
      Some (feed_forward cycle solved settled, results ++ solved, s')"
    using IH(1) by (simp add: take_Suc_conv_app_nth [OF i] try_fold_append solve_sibling_def one(1))
  ultimately show ?case by blast
qed

definition solve_inv :: "v2_inputs \<Rightarrow> string list list \<Rightarrow> nat \<Rightarrow> solve_state \<Rightarrow> bool" where
  "solve_inv vi raw n st \<longleftrightarrow>
     rows_inv vi (settled_before vi raw n) (so_universe st, so_builder st) \<and> side_settled vi (settled_before vi raw n) (so_map st)"

lemma assemble_members:
  assumes "\<not> od_capped od c" "set ms = dom facts"
  shows "fold (assemble_member vi od c facts) ms m = (\<lambda>v. case facts v of None \<Rightarrow> m v | Some f \<Rightarrow>
     Some \<lparr> sm_routine_id = v, sm_db_effects = [], sm_in_recursive_cycle = recursive c, sm_has_unresolved_calls = snd f, sm_uncertainties = fst f \<rparr>)"
proof -
  have "fold (assemble_member vi od c facts) vs m = (\<lambda>v. if v \<in> set vs then
      Some \<lparr> sm_routine_id = v, sm_db_effects = [], sm_in_recursive_cycle = recursive c,
        sm_has_unresolved_calls = snd (the (facts v)), sm_uncertainties = fst (the (facts v)) \<rparr> else m v)" if "set vs \<subseteq> dom facts" for vs
    using that
  proof (induction vs arbitrary: m)
    case (Cons v vs)
    then obtain f where "facts v = Some f" by auto
    then have "assemble_member vi od c facts v m = m(v \<mapsto> \<lparr> sm_routine_id = v, sm_db_effects = [], sm_in_recursive_cycle = recursive c,
        sm_has_unresolved_calls = snd (the (facts v)), sm_uncertainties = fst (the (facts v)) \<rparr>)"
      using assms(1) by (simp add: assemble_member_def split_beta)
    with Cons show ?case by (auto simp: fun_eq_iff)
  qed simp
  from this [of ms] show ?thesis using assms(2) by (auto simp: fun_eq_iff split: option.split)
qed

lemma components_of_the_graph:
  assumes "workspace_ok vi"
  obtains raw where "components_ok (whole_graph vi) raw" "sccs (vi_scc vi) = map (component (whole_graph vi)) raw"
    "{v. is_recomputed vi v} \<subseteq> set (concat raw)"
proof -
  have "dom (edges_by_from (whole_graph vi)) = dom (pg_edges_by_from (vi_graph vi))" by (auto simp: dom_def)
  then have fin: "finite (dom (edges_by_from (whole_graph vi)))" using workspace_okD(4) [OF assms] by simp
  have tarjan: "tarjan_scc (whole_graph vi) = Some (vi_scc vi)" using workspace_okD(6) [OF assms] by (simp only: graph_scc_def)
  obtain raw where raw: "components_ok (whole_graph vi) raw" "set (concat raw) = reachable (whole_graph vi)"
    "sccs (vi_scc vi) = map (component (whole_graph vi)) raw"
    using tarjan_result_facts [OF fin tarjan] by blast
  have "v \<in> reachable (whole_graph vi)" if "is_recomputed vi v" for v
  proof -
    have "v \<in> set (pg_nodes (vi_graph vi))" using that recomputed_iff [OF assms] workspace_okD(5) [OF assms] by blast
    then have "v \<in> set (nodes (whole_graph vi))" by simp
    then show ?thesis unfolding reachable_def by blast
  qed
  then have "{v. is_recomputed vi v} \<subseteq> set (concat raw)" using raw(2) by blast
  with raw that show thesis by blast
qed

lemma members_component: "set (members (component g ms)) = set ms"
  by (simp add: component_def Let_def)

lemma settled_before_Suc:
  "n < length raw \<Longrightarrow> settled_before vi raw (Suc n) = settled_before vi raw n \<union> {v \<in> set (raw ! n). is_recomputed vi v}"
  by (auto simp: settled_before_def take_Suc_conv_app_nth)

lemma solve_component_inv:
  assumes ok: "workspace_ok vi" "side_ok vi (od_shared od)" and open_loop: "\<not> od_capped od (component (whole_graph vi) (raw ! n))"
    and raw: "components_ok (whole_graph vi) raw" "n < length raw" and inv: "solve_inv vi raw n st"
  shows "\<exists>st'. solve_component vi od (inputs_of vi) (component (whole_graph vi) (raw ! n)) st = Some st' \<and> solve_inv vi raw (Suc n) st'"
proof -
  let ?c = "component (whole_graph vi) (raw ! n)"
  let ?kept = "filter (is_recomputed vi) (members ?c)"
  let ?start = "(so_map st, Map.empty, so_universe st, so_builder st)"
  obtain parts where parts: "effective_sccs ?c (vi_graph vi) (is_recomputed vi) = Some parts" "pieces_ok (vi_graph vi) ?kept parts"
    by (rule effective_pieces)
  have kept: "set ?kept = {v \<in> set (raw ! n). is_recomputed vi v}" by (auto simp: members_component)
  have at: "at_component vi raw n ?kept parts" unfolding at_component_def using raw kept parts(2) by blast
  have all: "pieces_before parts (length parts) = set ?kept" using parts(2) by (simp add: pieces_ok_def)
  have start: "pieces_inv vi raw n parts 0 ?start" using inv by (simp add: pieces_inv_def solve_inv_def)
  obtain settled results s where run: "try_fold (solve_sibling (od_shared od) (inputs_of vi) (recursive ?c)) parts ?start = Some (settled, results, s)"
    and done_inv: "pieces_inv vi raw n parts (length parts) (settled, results, s)"
    using solve_siblings [OF ok at start order_refl, where cycle = "recursive ?c"] by (metis (lifting) take_all order_refl prod_cases3)
  obtain u db where s: "s = (u, db)" by fastforce
  let ?st = "\<lparr> so_map = fold (assemble_member vi od ?c results) ?kept (so_map st), so_universe = u, so_builder = db \<rparr>"
  have S: "settled_before vi raw n \<union> set ?kept = settled_before vi raw (Suc n)" unfolding settled_before_Suc [OF raw(2)] kept by (rule refl)
  have facts: "dom results = set ?kept" "\<And>m f. results m = Some f \<Longrightarrow> exact_facts vi m f" "rows_inv vi (settled_before vi raw (Suc n)) (u, db)"
    using done_inv unfolding pieces_inv_def prod.case all S s by blast+
  have m: "so_map ?st v = (case results v of None \<Rightarrow> so_map st v | Some f \<Rightarrow>
     Some \<lparr> sm_routine_id = v, sm_db_effects = [], sm_in_recursive_cycle = recursive ?c, sm_has_unresolved_calls = snd f, sm_uncertainties = fst f \<rparr>)" for v
    by (simp add: assemble_members [OF open_loop facts(1) [symmetric]])
  have old: "dom (so_map st) = settled_before vi raw n" "\<And>v t. so_map st v = Some t \<Longrightarrow> exact_side (inputs_of vi) (solve_side vi) v t"
    using inv by (simp_all add: solve_inv_def side_settled_def)
  have "dom (so_map ?st) = dom results \<union> dom (so_map st)" unfolding dom_def m by (auto split: option.split)
  then have "dom (so_map ?st) = settled_before vi raw (Suc n)" unfolding facts(1) old(1) S [symmetric] by blast
  moreover have "exact_side (inputs_of vi) (solve_side vi) v t" if "so_map ?st v = Some t" for v t
    using that old(2) facts(2) unfolding m by (auto simp: exact_side_def exact_facts_def split: option.splits)
  ultimately have "solve_inv vi raw (Suc n) ?st" using facts(3) by (simp add: solve_inv_def side_settled_def)
  moreover have "solve_component vi od (inputs_of vi) ?c st = Some ?st"
    by (simp add: solve_component_def solve_scc_uniform parts(1) run s)
  ultimately show ?thesis by blast
qed

lemma last_pairs: "last_per_key_pairs items = map_of (rev items)"
proof -
  have "fold (\<lambda>(k, v) out. out(k \<mapsto> v)) items m = m ++ map_of (rev items)" for m :: "'a \<rightharpoonup> 'b"
    by (induction items arbitrary: m) (auto simp: fun_eq_iff map_add_def split: option.split)
  from this [of Map.empty] show ?thesis by (simp add: last_per_key_pairs_def)
qed

lemma map_of_rev_distinct:
  assumes "distinct (map fst xs)"
  shows "map_of (rev xs) = map_of xs"
proof (rule ext)
  fix k
  have "distinct (map fst (rev xs))" using assms by (simp add: rev_map [symmetric])
  then have "map_of (rev xs) k = Some y \<longleftrightarrow> map_of xs k = Some y" for y
    using assms by (simp only: map_of_eq_Some_iff set_rev)
  then show "map_of (rev xs) k = map_of xs k" by (metis not_Some_eq)
qed

lemma leaf_exact_side:
  assumes "distinct (map fst (vi_leaves vi))" "(v, s) \<in> set (vi_leaves vi)"
  shows "exact_side (inputs_of vi) (solve_side vi) v s"
proof -
  have leaf: "sd_leaf (solve_side vi) v = Some s" "\<not> sd_solved (solve_side vi) v" using assms by (simp, force simp: is_recomputed_def)
  have "reports (inputs_of vi) (solve_side vi) v u \<longleftrightarrow> u \<in> set (sm_uncertainties s)" for u
    using leaf by (auto elim: reports.cases intro: reports.leaf)
  moreover have "unresolved (inputs_of vi) (solve_side vi) v \<longleftrightarrow> sm_has_unresolved_calls s"
    using leaf by (auto elim: unresolved.cases intro: unresolved.leaf)
  ultimately show ?thesis by (simp add: exact_side_def exact_uncertainties_def)
qed

lemma solve_seeds_inv:
  assumes ok: "workspace_ok vi"
  shows "solve_inv vi raw 0 (solve_seeds vi (inputs_of vi))"
proof -
  note leaves = workspace_okD(2) [OF ok]
  have rows: "rows_inv vi {v. is_leaf vi v} (so_universe (solve_seeds vi (inputs_of vi)), so_builder (solve_seeds vi (inputs_of vi)))"
    using seeds_inv [OF ok] by (simp add: solve_seeds_def split_beta)
  have "so_map (solve_seeds vi (inputs_of vi)) = map_of (rev (vi_leaves vi))"
    by (simp add: solve_seeds_def last_pairs split: prod.split)
  moreover have "map_of (rev (vi_leaves vi)) = map_of (vi_leaves vi)"
    by (rule map_of_rev_distinct [OF leaves])
  moreover have "dom (map_of (vi_leaves vi)) = {v. is_leaf vi v}" by (auto simp: dom_map_of_conv_image_fst)
  moreover have "exact_side (inputs_of vi) (solve_side vi) v s" if "map_of (vi_leaves vi) v = Some s" for v s
    using leaf_exact_side [OF leaves map_of_SomeD [OF that]] .
  ultimately have "side_settled vi {v. is_leaf vi v} (so_map (solve_seeds vi (inputs_of vi)))" by (simp add: side_settled_def)
  with rows show ?thesis by (simp add: solve_inv_def settled_before_def)
qed

text \<open>The ids whose rows and side facts the solve settles.\<close>

definition settled_ids :: "v2_inputs \<Rightarrow> string set" where
  "settled_ids vi = {v. is_leaf vi v \<or> is_recomputed vi v}"

theorem loop_exact:
  assumes ok: "workspace_ok vi" "side_ok vi (od_shared od)" and open_loops: "\<And>c. \<not> od_capped od c"
  obtains st where "solve_loop vi od = Some st"
    "rows_inv vi (settled_ids vi) (so_universe st, so_builder st)" "side_settled vi (settled_ids vi) (so_map st)"
proof -
  obtain raw where raw: "components_ok (whole_graph vi) raw" "sccs (vi_scc vi) = map (component (whole_graph vi)) raw"
    "{v. is_recomputed vi v} \<subseteq> set (concat raw)" by (rule components_of_the_graph [OF ok(1)])
  let ?cs = "map (component (whole_graph vi)) raw"
  have "\<exists>st. try_fold (solve_component vi od (inputs_of vi)) (take n ?cs) (solve_seeds vi (inputs_of vi)) = Some st \<and> solve_inv vi raw n st"
    if "n \<le> length raw" for n
    using that
  proof (induction n)
    case 0
    then show ?case using solve_seeds_inv [OF ok(1)] by simp
  next
    case (Suc n)
    then obtain st where st: "try_fold (solve_component vi od (inputs_of vi)) (take n ?cs) (solve_seeds vi (inputs_of vi)) = Some st" "solve_inv vi raw n st"
      by auto
    have n: "n < length raw" using Suc.prems by simp
    obtain st' where "solve_component vi od (inputs_of vi) (component (whole_graph vi) (raw ! n)) st = Some st'" "solve_inv vi raw (Suc n) st'"
      using solve_component_inv [where od = od, OF ok open_loops raw(1) n st(2)] by blast
    with st(1) n show ?case by (simp add: take_Suc_conv_app_nth try_fold_append)
  qed
  from this [of "length raw"] obtain st where st: "solve_loop vi od = Some st" "solve_inv vi raw (length raw) st"
    by (auto simp: solve_loop_def raw(2))
  have "settled_before vi raw (length raw) = settled_ids vi" using raw(3) by (auto simp: settled_before_def settled_ids_def)
  with st(2) have "rows_inv vi (settled_ids vi) (so_universe st, so_builder st)" "side_settled vi (settled_ids vi) (so_map st)"
    by (simp_all add: solve_inv_def)
  with st(1) that show thesis by blast
qed

end
