(* ===== verification/Solve_Bundle.thy ===== *)
theory Solve_Bundle
  imports Solve_Exact
begin

text \<open>
  From the solved rows to the frozen bundle: what a consumer reads from the bundle of \<open>solve_v2\<close> is
  the least solution of the call graph, whatever the ids given on the way.
\<close>

section \<open>A settled row, as effects\<close>

lemma row_columns:
  assumes u: "uni_ok u" and fits: "store_fits u db" and row: "row_exact si fs way u db m"
  obtains es where "row_effects db (number_of si m) = Some es" "distinct (map fst es)" "\<forall>p \<in> set es. unat (fst p) < uni_len u"
    "(\<lambda>(i, v). (by_id u ! unat i, v)) ` set es = {(e, way m e) |e. affects si fs m e}"
proof -
  let ?t = "number_of si m" and ?name = "\<lambda>i. the (uni_identity u i)"
  obtain raw where raw: "bb_rows db ?t = Some raw" using row by (auto simp: row_exact_def has_raw_row_def)
  let ?bits = "bb_arena db ! unat (rr_terminal_set raw)"
  let ?es = "zip (iter_set_bits ?bits) (rr_base_via raw) @ zip (rr_pd_delta raw) (rr_delta_via raw)"
  have es: "row_effects db ?t = Some ?es" by (simp add: row_effects_def raw)
  have fit: "row_fits u (bb_arena db) raw" using fits raw by (simp add: store_fits_def)
  then have bits: "bits_known u ?bits" using fits by (simp add: store_fits_def row_fits_def)
  have ids: "map fst ?es = iter_set_bits ?bits @ rr_pd_delta raw" using fit by (simp add: row_fits_def)
  note iter = iter_props [of ?bits]
  have fit_bits: "bits_fit ?bits" using bits by (simp add: bits_known_def)
  have term_ids: "?name ` set (iter_set_bits ?bits) = {e. terminal e \<and> affects si fs m e}"
    using row iter_identities [OF u bits] raw by (simp add: row_exact_def terminal_bits_def)
  have pd: "distinct (rr_pd_delta raw)" "?name ` set (rr_pd_delta raw) = {e. \<not> terminal e \<and> affects si fs m e}"
    using row raw by (simp_all add: row_exact_def pd_ids_def)
  show thesis
  proof (rule that [OF es])
    have "set (iter_set_bits ?bits) \<inter> set (rr_pd_delta raw) = {}" using term_ids pd(2) by blast
    then show "distinct (map fst ?es)" unfolding ids using iter(2) [OF fit_bits] pd(1) by simp
    show small: "\<forall>p \<in> set ?es. unat (fst p) < uni_len u"
    proof
      fix p assume "p \<in> set ?es"
      then have "fst p \<in> set (map fst ?es)" by (metis image_eqI set_map)
      then show "unat (fst p) < uni_len u" unfolding ids using fit bits iter(3) [OF fit_bits] by (auto simp: row_fits_def bits_known_def)
    qed
    have way: "\<exists>e. uni_get u e = Some i \<and> affects si fs m e \<and> v = way m e" if "(i, v) \<in> set ?es" for i v
      using row es that unfolding row_exact_def by (auto simp del: set_append)
    show "(\<lambda>(i, v). (by_id u ! unat i, v)) ` set ?es = {(e, way m e) |e. affects si fs m e}"
    proof (intro equalityI subsetI)
      fix x assume "x \<in> (\<lambda>(i, v). (by_id u ! unat i, v)) ` set ?es"
      then obtain i v where iv: "(i, v) \<in> set ?es" "x = (by_id u ! unat i, v)" by auto
      then obtain e where e: "uni_get u e = Some i" "affects si fs m e" "v = way m e" using way by blast
      then have "by_id u ! unat i = e" using identity_get [OF u, of i e] by (simp add: uni_identity_def split: if_splits)
      with iv e show "x \<in> {(e, way m e) |e. affects si fs m e}" by blast
    next
      fix x assume "x \<in> {(e, way m e) |e. affects si fs m e}"
      then obtain e where e: "x = (e, way m e)" "affects si fs m e" by blast
      then have "e \<in> ?name ` set (map fst ?es)" unfolding ids set_append image_Un term_ids pd(2) by blast
      then obtain p where "p \<in> set ?es" "?name (fst p) = e" unfolding set_map by blast
      then obtain i v where iv: "(i, v) \<in> set ?es" "?name i = e" by (metis prod.collapse)
      then obtain e' where e': "uni_get u e' = Some i" "v = way m e'" using way by blast
      then have "uni_identity u i = Some e'" using identity_get [OF u] by blast
      with iv(2) have "e' = e" "by_id u ! unat i = e" by (simp_all add: uni_identity_def split: if_splits)
      with iv(1) e(1) e'(2) show "x \<in> (\<lambda>(i, v). (by_id u ! unat i, v)) ` set ?es" by (intro rev_image_eqI [OF iv(1)]) simp
    qed
  qed
qed

section \<open>The projected effects\<close>

definition ref_identity :: "db_effect_ref \<Rightarrow> effect_identity" where
  "ref_identity r = \<lparr> ei_op = er_op r, ei_table_id = er_table_id r, ei_operation_id = er_operation_id r, ei_temp = er_temp_state r \<rparr>"

text \<open>The effects of a routine as its consumers must see them.\<close>

definition exact_refs :: "v2_inputs \<Rightarrow> string \<Rightarrow> db_effect_ref list \<Rightarrow> bool" where
  "exact_refs vi v refs \<longleftrightarrow>
     (\<lambda>r. (ref_identity r, er_via r)) ` set refs = {(e, effect_way vi v e) |e. may_reach vi v e} \<and>
     distinct (map ref_identity refs) \<and>
     sorted (map (\<lambda>r. (er_effect_key r, er_operation_id r)) refs) \<and>
     (\<forall>r \<in> set refs. er_effect_key r = identity_key (ref_identity r))"

lemma fst_le: "(a, b) \<le> (c, d) \<Longrightarrow> a \<le> c" for a c :: "'a :: linorder" and b d :: "'b :: linorder"
  by (auto simp: less_eq_prod_def)

lemma rank_mono:
  assumes u: "uni_ok u" "uni_len u < 2 ^ 32" and ij: "unat i < uni_len u" "unat j < uni_len u"
    and le: "rank_of (freeze u) i \<le> rank_of (freeze u) j"
  shows "id_sort_key (keys u) (by_id u) i \<le> id_sort_key (keys u) (by_id u) j"
proof -
  note order = sorted_order_props [OF u]
  obtain r where r: "r < uni_len u" "uni_sorted_order u ! r = i" "key_ranks (freeze u) ! unat i = of_nat r" by (rule id_at [OF u ij(1)])
  obtain q where q: "q < uni_len u" "uni_sorted_order u ! q = j" "key_ranks (freeze u) ! unat j = of_nat q" by (rule id_at [OF u ij(2)])
  have "(of_nat r :: u32) \<le> of_nat q" using le r(3) q(3) by (simp add: rank_of_def)
  moreover have "unat (of_nat r :: u32) = r" "unat (of_nat q :: u32) = q"
    by (rule of_nat_inverse [OF refl]; use r(1) q(1) u(2) in simp)+
  ultimately have "r \<le> q" by (simp add: word_le_nat_alt)
  from sorted_nth_mono [OF order(4) this]
  have "(id_sort_key (keys u) (by_id u) i, i) \<le> (id_sort_key (keys u) (by_id u) j, j)" using r(1,2) q(1,2) order(3) by simp
  then show ?thesis by (rule fst_le)
qed

lemma make_ref_frozen:
  assumes "st_universe (bu_effects bu) = freeze u" "uni_ok u" "unat i < uni_len u"
  shows "ref_identity (make_ref bu i v) = by_id u ! unat i" "er_via (make_ref bu i v) = v"
    "(er_effect_key (make_ref bu i v), er_operation_id (make_ref bu i v)) = id_sort_key (keys u) (by_id u) i"
    "er_effect_key (make_ref bu i v) = identity_key (ref_identity (make_ref bu i v))"
proof -
  show 1: "ref_identity (make_ref bu i v) = by_id u ! unat i" "er_via (make_ref bu i v) = v"
    "(er_effect_key (make_ref bu i v), er_operation_id (make_ref bu i v)) = id_sort_key (keys u) (by_id u) i"
    by (simp_all add: make_ref_def ref_identity_def Let_def assms(1) freeze_def id_sort_key_def)
  have "keys u ! unat i = identity_key (by_id u ! unat i)" using assms(2,3) by (simp add: uni_ok_def uni_len_def)
  then show "er_effect_key (make_ref bu i v) = identity_key (ref_identity (make_ref bu i v))"
    unfolding 1(1) by (simp add: make_ref_def Let_def assms(1) freeze_def)
qed

lemma settled_row_refs:
  assumes u: "uni_ok u" "uni_len u < 2 ^ 32" and bu: "st_universe (bu_effects bu) = freeze u"
    and es: "distinct (map fst es)" "\<forall>p \<in> set es. unat (fst p) < uni_len u"
      "(\<lambda>(i, v). (by_id u ! unat i, v)) ` set es = {(e, effect_way vi m e) |e. may_reach vi m e}"
    and refs: "refs = map (\<lambda>(e, v). make_ref bu e v) (sort_key (\<lambda>p. rank_of (freeze u) (fst p)) es)"
  shows "exact_refs vi m refs"
proof -
  let ?ps = "sort_key (\<lambda>p. rank_of (freeze u) (fst p)) es"
  let ?ref = "\<lambda>p. make_ref bu (fst p) (snd p)"
  have refs': "refs = map ?ref ?ps" by (simp add: refs split_beta)
  have ok: "unat (fst p) < uni_len u" if "p \<in> set es" for p using es(2) that by blast
  note made = make_ref_frozen [OF bu u(1) ok]
  have "(\<lambda>r. (ref_identity r, er_via r)) ` set refs = (\<lambda>(i, v). (by_id u ! unat i, v)) ` set es"
    unfolding refs' set_map set_sort image_image by (rule image_cong [OF refl]) (simp add: made split_beta)
  moreover have "distinct (map ref_identity refs)"
  proof -
    have "map ref_identity refs = map (\<lambda>i. by_id u ! unat i) (map fst ?ps)" by (simp add: refs' made)
    moreover have "mset (map fst ?ps) = mset (map fst es)" by simp
    then have "distinct (map fst ?ps)" using es(1) by (metis mset_eq_imp_distinct_iff)
    moreover have "inj_on (\<lambda>i. by_id u ! unat i) (set (map fst ?ps))"
    proof (rule inj_onI)
      fix i j assume ij: "i \<in> set (map fst ?ps)" "j \<in> set (map fst ?ps)" "by_id u ! unat i = by_id u ! unat j"
      then have "unat i < uni_len u" "unat j < uni_len u" using es(2) by auto
      moreover have "distinct (by_id u)" using u(1) by (simp add: uni_ok_def table_ok_def)
      ultimately show "i = j" using ij(3) by (simp add: uni_len_def nth_eq_iff_index_eq word_unat_eq_iff)
    qed
    ultimately show ?thesis by (simp only: distinct_map)
  qed
  moreover have "sorted (map (\<lambda>r. (er_effect_key r, er_operation_id r)) refs)"
  proof -
    let ?k = "id_sort_key (keys u) (by_id u)"
    have "map (\<lambda>r. (er_effect_key r, er_operation_id r)) refs = map (\<lambda>p. ?k (fst p)) ?ps" by (simp add: refs' made(3))
    moreover have "sorted_wrt (\<lambda>p q. ?k (fst p) \<le> ?k (fst q)) ?ps"
    proof (rule sorted_wrt_mono_rel)
      show "sorted_wrt (\<lambda>p q. rank_of (freeze u) (fst p) \<le> rank_of (freeze u) (fst q)) ?ps"
        using sorted_sort_key [of "\<lambda>p. rank_of (freeze u) (fst p)" es] by (simp add: sorted_map)
    qed (use rank_mono [OF u] ok in auto)
    ultimately show ?thesis by (simp add: sorted_map)
  qed
  moreover have "\<forall>r \<in> set refs. er_effect_key r = identity_key (ref_identity r)" by (auto simp: refs' made(4))
  ultimately show ?thesis using es(3) by (simp add: exact_refs_def)
qed

section \<open>The whole solve\<close>

text \<open>The rows are visited in some order, and the two pools have room.\<close>

definition pools_ok :: "v2_inputs \<Rightarrow> u32 list \<Rightarrow> bool" where
  "pools_ok vi order \<longleftrightarrow> distinct order \<and> set order = number_of (inputs_of vi) ` settled_ids vi \<and>
     length order * card (all_effects vi) < 2 ^ 32"

lemma rows_inv_facts:
  assumes ok: "workspace_ok vi" and inv: "rows_inv vi S (u, db)"
  shows "uni_ok u" "uni_len u < 2 ^ 32" "uni_len u \<le> card (all_effects vi)" "store_fits u db"
    "\<forall>m \<in> S. row_exact (inputs_of vi) (solve_flow vi) (effect_way vi) u db m"
    "\<forall>t. has_raw_row db t \<longrightarrow> (\<exists>m \<in> S. interned (inputs_of vi) m \<and> t = number_of (inputs_of vi) m)"
proof -
  note effect_room = rows_inv_room(1) [OF ok inv]
  have now: "within (all_effects vi) u" "rows_settled (inputs_of vi) (solve_flow vi) (effect_way vi) S u db"
    using inv by (simp_all add: rows_inv_def)
  show "uni_ok u" "uni_len u < 2 ^ 32" "uni_len u \<le> card (all_effects vi)"
    using now(1) within_len [OF effect_room now(1)] card_mono [of "all_effects vi" "set (by_id u)"] effect_room
    by (simp_all add: within_def effect_room_def uni_ok_def table_ok_def uni_len_def distinct_card)
  show "store_fits u db" "\<forall>m \<in> S. row_exact (inputs_of vi) (solve_flow vi) (effect_way vi) u db m"
    "\<forall>t. has_raw_row db t \<longrightarrow> (\<exists>m \<in> S. interned (inputs_of vi) m \<and> t = number_of (inputs_of vi) m)"
    using now(2) by (simp_all add: rows_settled_def)
qed

text \<open>A row has at most one column entry per effect.\<close>

lemma row_length:
  assumes ok: "workspace_ok vi" and inv: "rows_inv vi S (u, db)" and raw: "bb_rows db t = Some raw"
  shows "length (rr_base_via raw) + length (rr_delta_via raw) \<le> card (all_effects vi) \<and> length (rr_pd_delta raw) = length (rr_delta_via raw)"
proof -
  note rows = rows_inv_facts [OF ok inv]
  have "has_raw_row db t" using raw by (simp add: has_raw_row_def)
  then obtain m where m: "m \<in> S" "t = number_of (inputs_of vi) m" using rows(6) by blast
  obtain es where es: "row_effects db t = Some es" "distinct (map fst es)" "\<forall>p \<in> set es. unat (fst p) < uni_len u"
    unfolding m(2) by (rule row_columns [OF rows(1,4) rows(5) [rule_format, OF m(1)]])
  have fit: "row_fits u (bb_arena db) raw" using rows(4) raw by (simp add: store_fits_def)
  then have "length (map fst es) = length (rr_base_via raw) + length (rr_delta_via raw)"
    using es(1) by (auto simp: row_effects_def raw row_fits_def)
  moreover have "length (map fst es) = card (set (map fst es))" using es(2) by (rule distinct_card [symmetric])
  moreover have "card (unat ` set (map fst es)) = card (set (map fst es))" by (rule card_image) (simp add: inj_on_def word_unat_eq_iff)
  moreover have "card (unat ` set (map fst es)) \<le> card {..<uni_len u}" by (rule card_mono) (use es(3) in auto)
  ultimately show ?thesis using rows(3) fit by (simp add: row_fits_def)
qed

lemma settled_rows:
  assumes ok: "workspace_ok vi" and inv: "rows_inv vi (settled_ids vi) (u, db)" and order: "pools_ok vi order"
  shows "builder_ok (freeze u) db" "set order = dom (bb_rows db)" "via_total db order < 2 ^ 32" "delta_total db order < 2 ^ 32"
proof -
  note rows = rows_inv_facts [OF ok inv]
  show "builder_ok (freeze u) db"
    using rows(2,4) rows_inv_room(3) [OF ok inv]
    by (auto simp: builder_ok_def freeze_def uni_len_def store_fits_def row_fits_def bits_known_def known_bits_def)
  have "t \<in> number_of (inputs_of vi) ` settled_ids vi \<longleftrightarrow> has_raw_row db t" for t
  proof
    assume "t \<in> number_of (inputs_of vi) ` settled_ids vi"
    then obtain m where m: "m \<in> settled_ids vi" "t = number_of (inputs_of vi) m" by blast
    with rows(5) show "has_raw_row db t" by (simp add: row_exact_def)
  qed (use rows(6) in blast)
  then show dom: "set order = dom (bb_rows db)" using order by (auto simp: pools_ok_def has_raw_row_def)
  have sum: "sum_list (map f order) < 2 ^ 32" if "\<forall>t \<in> set order. f t \<le> card (all_effects vi)" for f
  proof -
    have "sum_list (map f order) \<le> sum_list (map (\<lambda>_. card (all_effects vi)) order)" by (rule sum_list_mono) (use that in blast)
    also have "\<dots> = length order * card (all_effects vi)" by (simp add: sum_list_triv)
    finally show ?thesis using order by (simp add: pools_ok_def)
  qed
  have "\<exists>raw. bb_rows db t = Some raw" if "t \<in> set order" for t using that dom by auto
  then show "via_total db order < 2 ^ 32" "delta_total db order < 2 ^ 32"
    unfolding via_total_def delta_total_def using row_length [OF ok inv] by (intro sum; fastforce)+
qed

lemma finish_interner: "bu_interner (finish_bundle order db u names rvid) = names"
  by (simp add: finish_bundle_def Let_def split: prod.split)

text \<open>What the solve promises of its bundle and of its side facts.\<close>

definition solved_bundle :: "v2_inputs \<Rightarrow> summary_bundle \<Rightarrow> bool" where
  "solved_bundle vi bu \<longleftrightarrow>
     (\<forall>v \<in> settled_ids vi. \<exists>ix. bundle_routine_ix bu v = Some ix \<and> exact_refs vi v (db_effects bu ix))"

lemma solve_exact:
  assumes ok: "workspace_ok vi" "side_ok vi (od_shared od)" "\<forall>c. \<not> od_capped od c" and order: "pools_ok vi (od_rows od)"
  obtains bu facts where "solve_v2 vi od = Some (bu, facts)" "solved_bundle vi bu" "side_settled vi (settled_ids vi) facts"
proof -
  obtain st where st: "solve_loop vi od = Some st" "rows_inv vi (settled_ids vi) (so_universe st, so_builder st)"
    "side_settled vi (settled_ids vi) (so_map st)"
    by (rule loop_exact [OF ok(1,2)]) (use ok(3) in blast)
  let ?u = "so_universe st" and ?db = "so_builder st" and ?si = "inputs_of vi"
  define bu where "bu = finish_bundle (od_rows od) ?db (freeze ?u) (in_interner ?si)
     (build_rvid_by_opid (List.map_filter (base_summaries vi) (od_base od) @ map snd (vi_leaves vi)))"
  have run: "solve_v2 vi od = Some (bu, so_map st)" by (simp add: solve_v2_def st(1) Let_def bu_def)
  note b = settled_rows [OF ok(1) st(2) order]
  note now = rows_inv_facts [OF ok(1) st(2)]
  have "\<exists>ix. bundle_routine_ix bu v = Some ix \<and> exact_refs vi v (db_effects bu ix)" if v: "v \<in> settled_ids vi" for v
  proof (intro exI conjI)
    have row: "row_exact ?si (solve_flow vi) (effect_way vi) ?u ?db v" using now(5) v by blast
    then have "interned ?si v" by (simp add: row_exact_def)
    from interned_name(1) [OF interner_ok(1) [OF ok(1)] this] show "bundle_routine_ix bu v = Some (number_of ?si v)"
      by (simp add: bundle_routine_ix_def bu_def finish_interner)
    obtain es where es: "row_effects ?db (number_of ?si v) = Some es" "distinct (map fst es)" "\<forall>p \<in> set es. unat (fst p) < uni_len ?u"
      "(\<lambda>(i, w). (by_id ?u ! unat i, w)) ` set es = {(e, effect_way vi v e) |e. may_reach vi v e}"
      by (rule row_columns [OF now(1,4) row])
    have "db_effects bu (number_of ?si v) = map (\<lambda>(e, w). make_ref bu e w) (sort_key (\<lambda>p. rank_of (freeze ?u) (fst p)) es)"
      using bundle_projects [OF b bu_def, of "number_of ?si v"] es(1) by simp
    then show "exact_refs vi v (db_effects bu (number_of ?si v))"
      by (rule settled_row_refs [OF now(1,2) finish_bundle_props(2) [OF b(1) bu_def b(2-4)] es(2-4)])
  qed
  then have "solved_bundle vi bu" by (simp add: solved_bundle_def)
  with that run st(3) show thesis by blast
qed

text \<open>
  Property C1. The solve of a workspace whose row and leaf ids are distinct, with no component at the
  cap of its role rounds, returns; and what its bundle projects for a routine is exactly the least
  solution of the call graph: the effects that may reach it, each once, in (effect key, operation id)
  order, each with the way the code's ranking puts highest among those in which it reaches the routine.
  Further conditions on the workspace are those of \<open>workspace_ok\<close>, \<open>side_ok\<close> and \<open>pools_ok\<close>: the components are those
  of its graph, the rows and effects fit 32-bit ids, the kinds of uncertainties hold no bar, and the rows are visited once each.
\<close>

theorem solve_returns_the_least_solution:
  assumes "workspace_ok vi" "side_ok vi (od_shared od)" "\<forall>c. \<not> od_capped od c" "pools_ok vi (od_rows od)"
  shows "\<exists>bu facts. solve_v2 vi od = Some (bu, facts) \<and>
    (\<forall>v \<in> settled_ids vi. \<exists>ix. bundle_routine_ix bu v = Some ix \<and> exact_refs vi v (db_effects bu ix))"
  by (rule solve_exact [OF assms]) (auto simp: solved_bundle_def)

text \<open>
  Property C7. On a workspace whose row and leaf ids are distinct, and when no component reaches the cap of
  its role rounds, the side facts the solve returns are exact: a summary exists for the leaves and the
  recomputed routines only, its uncertainties are those that may be reported at the routine and have
  a key for each of them, and its flag says whether an unresolved call is reachable. In a component at
  the cap each recomputed routine gets one more uncertainty, which says so; that case is not covered.
\<close>

theorem solve_side_facts_are_exact:
  assumes "workspace_ok vi" "side_ok vi (od_shared od)" "\<forall>c. \<not> od_capped od c" "pools_ok vi (od_rows od)"
    "solve_v2 vi od = Some (bu, facts)"
  shows "dom facts = settled_ids vi \<and> (\<forall>v s. facts v = Some s \<longrightarrow>
    (\<forall>x \<in> set (sm_uncertainties s). reports (inputs_of vi) (solve_side vi) v x) \<and>
    uncertainty_key ` set (sm_uncertainties s) = uncertainty_key ` {x. reports (inputs_of vi) (solve_side vi) v x} \<and>
    sm_has_unresolved_calls s = unresolved (inputs_of vi) (solve_side vi) v)"
  by (rule solve_exact [OF assms(1-4)]) (use assms(5) in \<open>simp add: side_settled_def exact_side_def exact_uncertainties_def\<close>)

text \<open>
  Property C11. The hash orders of the run do not show: two solves of the same workspace that visit the
  shared uncertainties, the base summaries and the rows in different orders project, for every
  routine, the same keys in the same order, and the same effects with the same ways.
\<close>

theorem hash_orders_do_not_show:
  assumes "workspace_ok vi"
    "side_ok vi (od_shared od)" "\<forall>c. \<not> od_capped od c" "pools_ok vi (od_rows od)" "solve_v2 vi od = Some (bu, facts)"
    "side_ok vi (od_shared od')" "\<forall>c. \<not> od_capped od' c" "pools_ok vi (od_rows od')" "solve_v2 vi od' = Some (bu', facts')"
    "v \<in> settled_ids vi" "bundle_routine_ix bu v = Some i" "bundle_routine_ix bu' v = Some j"
  shows "map er_effect_key (db_effects bu i) = map er_effect_key (db_effects bu' j) \<and>
    (\<lambda>r. (ref_identity r, er_via r)) ` set (db_effects bu i) = (\<lambda>r. (ref_identity r, er_via r)) ` set (db_effects bu' j)"
proof -
  let ?k = "\<lambda>r. (er_effect_key r, er_operation_id r)" and ?key = "\<lambda>e. (identity_key e, ei_operation_id e)"
  have one: "exact_refs vi v (db_effects bu i)"
    by (rule solve_exact [OF assms(1-4)]) (use assms(5,10,11) in \<open>auto simp: solved_bundle_def\<close>)
  have two: "exact_refs vi v (db_effects bu' j)"
    by (rule solve_exact [OF assms(1,6-8)]) (use assms(9,10,12) in \<open>auto simp: solved_bundle_def\<close>)
  have ids: "ref_identity ` set refs = {e. may_reach vi v e}" if "exact_refs vi v refs" for refs
  proof -
    have "ref_identity ` set refs = fst ` (\<lambda>r. (ref_identity r, er_via r)) ` set refs" by (simp add: image_image)
    also have "\<dots> = {e. may_reach vi v e}" using that by (auto simp: exact_refs_def image_iff)
    finally show ?thesis .
  qed
  have keys: "map ?k refs = map ?key (map ref_identity refs)" if "exact_refs vi v refs" for refs
    using that by (simp add: exact_refs_def ref_identity_def)
  have "mset (map ref_identity (db_effects bu i)) = mset (map ref_identity (db_effects bu' j))"
    by (rule set_eq_iff_mset_eq_distinct [THEN iffD1]) (use one two ids [OF one] ids [OF two] in \<open>simp_all add: exact_refs_def\<close>)
  then have "mset (map ?k (db_effects bu i)) = mset (map ?k (db_effects bu' j))"
    unfolding keys [OF one] keys [OF two] mset_map [of ?key] by (rule arg_cong)
  moreover have "sorted (map ?k (db_effects bu i))" "sorted (map ?k (db_effects bu' j))" using one two by (simp_all add: exact_refs_def)
  ultimately have "map ?k (db_effects bu i) = map ?k (db_effects bu' j)" by (metis properties_for_sort)
  then have "map fst (map ?k (db_effects bu i)) = map fst (map ?k (db_effects bu' j))" by (rule arg_cong)
  then show ?thesis using one two by (simp add: exact_refs_def comp_def)
qed

section \<open>A workspace of two routines\<close>

text \<open>
  \<open>a\<close> calls \<open>b\<close> with a temporary record; \<open>b\<close> modifies the record of its parameter, and has a
  call that is not resolved.
\<close>

definition sample_callee :: model_routine where
  "sample_callee = \<lparr> mr_id = ''b'', mr_stable_routine_id = ''b#0'', mr_object_id = ''o'', mr_name = ''B'', mr_kind = ''procedure'', mr_body_available = True,
     mr_parse_incomplete = False, mr_record_variables = [],
     mr_record_operations = [\<lparr> mo_id = ''b/op0'', mo_op = ''Modify'', mo_record_variable_name = ''Rec'', mo_record_variable_id = Some ''b/rv0'', mo_table_id = Some ''t'',
       mo_temp_state = Some \<lparr> pt_kind = ''parameter-dependent'', pt_value = None, pt_parameter_index = Some 0 \<rparr>,
       mo_field_arguments = None, mo_source_anchor = \<lparr> source_unit_id = ''u'', start_line = 3, start_column = 4, end_line = 3, end_column = 20, syntax_kind = ''call_expression'' \<rparr> \<rparr>],
     mr_parameters = [\<lparr> mp_index = 0, mp_name = ''Rec'', mp_type_text = ''Record T'', mp_is_var = True, mp_is_record = True \<rparr>],
     mr_access_modifier = None, mr_call_sites = [], mr_field_accesses = [], mr_statement_tree = None,
     mr_source_anchor = \<lparr> source_unit_id = ''u'', start_line = 1, start_column = 0, end_line = 9, end_column = 0, syntax_kind = ''procedure'' \<rparr>, mr_assigned_names = [] \<rparr>"

definition sample_caller :: model_routine where
  "sample_caller = \<lparr> mr_id = ''a'', mr_stable_routine_id = ''a#0'', mr_object_id = ''o'', mr_name = ''A'', mr_kind = ''procedure'', mr_body_available = True,
     mr_parse_incomplete = False, mr_record_variables = [], mr_record_operations = [], mr_parameters = [], mr_access_modifier = None,
     mr_call_sites = [\<lparr> mc_id = ''a/cs0'', mc_callee = Bare ''B'', mc_argument_texts = [''Buffer''],
       mc_argument_bindings = [\<lparr> ab_parameter_index = 0, ab_source_kind = ''local'', ab_source_variable_name = Some ''Buffer'',
         ab_source_record_variable_id = None, ab_source_parameter_index = None, ab_caller_source_parameter_is_var = None,
         ab_source_temp_state = Some \<lparr> pt_kind = ''known'', pt_value = Some True, pt_parameter_index = None \<rparr> \<rparr>],
       mc_source_anchor = \<lparr> source_unit_id = ''u'', start_line = 13, start_column = 4, end_line = 13, end_column = 20, syntax_kind = ''call_expression'' \<rparr>,
       mc_receiver_temp_state = None \<rparr>],
     mr_field_accesses = [], mr_statement_tree = None,
     mr_source_anchor = \<lparr> source_unit_id = ''u'', start_line = 11, start_column = 0, end_line = 19, end_column = 0, syntax_kind = ''procedure'' \<rparr>, mr_assigned_names = [] \<rparr>"

definition sample_call :: combined_edge where
  "sample_call = \<lparr> ce_from = ''a'', ce_to = ''b'', ce_kind = ''direct'', ce_callsite_id = Some ''a/cs0'', ce_operation_id = None, ce_event_id = None,
     ce_subscriber_app_id = None, ce_resolution = ''resolved'', ce_dispatch = None \<rparr>"

definition sample_workspace :: v2_inputs where
  "sample_workspace = \<lparr> vi_routines = [sample_caller, sample_callee],
     vi_graph = \<lparr> pg_nodes = [''a'', ''b''], pg_edges_by_from = [''a'' \<mapsto> [sample_call]], pg_edges_from_order = [''a''],
       pg_uncertainty_edges = [\<lparr> ue_from = ''b'', ue_uncertainty = \<lparr> gu_kind = ''unresolved-call'', gu_callsite_id = Some ''b/cs0'', gu_operation_id = None,
         gu_routine_id = None, gu_interface_name = None \<rparr> \<rparr>], pg_collided_site_callee = Map.empty \<rparr>,
     vi_scc = \<lparr> sccs = [\<lparr> members = [''b''], recursive = False \<rparr>, \<lparr> members = [''a''], recursive = False \<rparr>],
       scc_id_by_routine = [''b'' \<mapsto> 0, ''a'' \<mapsto> 1] \<rparr>,
     vi_leaves = [] \<rparr>"

definition sample_orders :: solve_orders where
  "sample_orders = \<lparr> od_shared = id, od_base = [''a'', ''b''], od_rows = map (number_of (inputs_of sample_workspace)) [''a'', ''b''],
     od_capped = (\<lambda>_. False) \<rparr>"

definition sample_effect :: "temp_state_kind \<Rightarrow> effect_identity" where
  "sample_effect k = \<lparr> ei_op = ''Modify'', ei_table_id = ''t'', ei_operation_id = ''b/op0'', ei_temp = k \<rparr>"

lemma sample_parts:
  "vi_routines sample_workspace = [sample_caller, sample_callee]" "vi_leaves sample_workspace = []"
  "mr_id sample_caller = ''a''" "mr_id sample_callee = ''b''"
  "out_edges (vi_graph sample_workspace) v = (if v = ''a'' then [sample_call] else [])" "ce_to sample_call = ''b''"
  by (simp_all add: sample_workspace_def sample_caller_def sample_callee_def out_edges_def sample_call_def)

lemma sample_graph_scc: "graph_scc (vi_graph sample_workspace) = Some (vi_scc sample_workspace)"
  by (simp add: graph_scc_def sample_workspace_def sample_call_def tarjan_scc_def tarjan_run start_state_def component_def number_members_def)

lemma sample_routines: "routines_by_id sample_workspace v = Some r \<longleftrightarrow> v = ''a'' \<and> r = sample_caller \<or> v = ''b'' \<and> r = sample_callee"
  using last_per_id_distinct [of "vi_routines sample_workspace" "\<lambda>r. r" v r] by (auto simp: routines_by_id_def sample_parts)

lemma sample_recomputed: "is_recomputed sample_workspace v \<longleftrightarrow> v = ''a'' \<or> v = ''b''"
proof -
  have "routines_by_id sample_workspace v \<noteq> None \<longleftrightarrow> (\<exists>r. routines_by_id sample_workspace v = Some r)" by simp
  then show ?thesis unfolding is_recomputed_def sample_routines by (simp add: sample_parts) blast
qed

lemma sample_base:
  "base_summaries sample_workspace ''a'' = Some (base_intraprocedural_summary sample_caller)"
  "base_summaries sample_workspace ''b'' = Some (base_intraprocedural_summary sample_callee)"
  using base_distinct [of sample_workspace sample_caller] base_distinct [of sample_workspace sample_callee] by (simp_all add: sample_parts)

lemma sample_own:
  "own_identities (inputs_of sample_workspace) ''a'' = {}" "own_identities (inputs_of sample_workspace) ''b'' = {sample_effect (ParameterDependent 0)}"
proof -
  have "sm_db_effects (base_intraprocedural_summary sample_caller) = []"
    by (simp add: base_intraprocedural_summary_def sample_caller_def)
  then show "own_identities (inputs_of sample_workspace) ''a'' = {}" by (simp add: own_identities_def own_db_effects_def sample_base)
  have "own_identity ` set (sm_db_effects (base_intraprocedural_summary sample_callee)) = {sample_effect (ParameterDependent 0)}"
    by code_simp
  then show "own_identities (inputs_of sample_workspace) ''b'' = {sample_effect (ParameterDependent 0)}"
    by (simp add: own_identities_def own_db_effects_def sample_base)
qed

lemma sample_transfer:
  "effect_transfer (routines_by_id sample_workspace) sample_caller sample_call (sample_effect (ParameterDependent 0)) = sample_effect (Known True)"
proof -
  have "substitute_pd_temp_state sample_call 0 sample_caller target = TS_Known True" for target
    by (simp add: substitute_pd_temp_state_def sample_call_def sample_caller_def pd_temp_state_at_callsite_def source_temp_state_for_def
      RECEIVER_PARAM_INDEX_def from_p_def)
  then show ?thesis by (simp add: effect_transfer_def sample_effect_def make_identity_def identity_base_def)
qed

lemma sample_reach:
  "may_reach sample_workspace v e \<longleftrightarrow>
     v = ''a'' \<and> e = sample_effect (Known True) \<or> v = ''b'' \<and> e = sample_effect (ParameterDependent 0)"
proof
  have own_fs: "fs_own (solve_flow sample_workspace) v = (if v = ''b'' then {sample_effect (ParameterDependent 0)} else {})" for v
    using sample_own by (simp add: own_at sample_parts sample_recomputed)
  show "v = ''a'' \<and> e = sample_effect (Known True) \<or> v = ''b'' \<and> e = sample_effect (ParameterDependent 0)"
    if "may_reach sample_workspace v e"
    using that
  proof (induction rule: may_affect.induct)
    case (own e v)
    then show ?case by (simp add: own_fs split: if_splits)
  next
    case (call v r ed e)
    then have "v = ''a''" "ed = sample_call" by (simp_all add: sample_parts split: if_splits)
    moreover from this call.hyps(2) have "r = sample_caller" using sample_routines by simp
    ultimately show ?case using call.IH by (simp add: sample_parts sample_transfer)
  qed
  have b: "may_reach sample_workspace ''b'' (sample_effect (ParameterDependent 0))" by (rule may_affect.own) (simp add: own_fs)
  have "may_reach sample_workspace ''a'' (effect_transfer (in_routines (inputs_of sample_workspace)) sample_caller sample_call (sample_effect (ParameterDependent 0)))"
    by (rule may_affect.call) (use b in \<open>simp_all add: sample_recomputed sample_routines sample_parts\<close>)
  then have "may_reach sample_workspace ''a'' (sample_effect (Known True))" by (simp add: sample_transfer)
  with b show "may_reach sample_workspace v e"
    if "v = ''a'' \<and> e = sample_effect (Known True) \<or> v = ''b'' \<and> e = sample_effect (ParameterDependent 0)"
    using that by blast
qed

lemma sample_workspace_ok: "workspace_ok sample_workspace"
proof -
  have "{e. \<exists>v. may_reach sample_workspace v e} = {sample_effect (Known True), sample_effect (ParameterDependent 0)}"
    unfolding sample_reach by blast
  moreover have "card {sample_effect (Known True), sample_effect (ParameterDependent 0)} \<le> 2" by (simp add: card_insert_if)
  moreover have "finite (dom (pg_edges_by_from (vi_graph sample_workspace)))" "pg_nodes (vi_graph sample_workspace) = [''a'', ''b'']"
    by (simp_all add: sample_workspace_def)
  ultimately show ?thesis unfolding workspace_ok_def using sample_graph_scc by (simp add: sample_parts)
qed

definition sample_uncertainty :: uncertainty where
  "sample_uncertainty = \<lparr> un_kind = ''unresolved-call'', un_callsite_id = Some ''b/cs0'', un_operation_id = None, un_routine_id = None, un_interface_name = None \<rparr>"

lemma sample_uncertainty_edges: "edge_uncertainties (inputs_of sample_workspace) v = (if v = ''b'' then [sample_uncertainty] else [])"
  by (simp add: edge_uncertainties_def uncertainty_edges_by_from_def sample_workspace_def from_graph_uncertainty_def sample_uncertainty_def)

lemma sample_bodies: "in_body_available (inputs_of sample_workspace) ''b'' = Some True"
proof -
  have "mr_body_available sample_callee" by (simp add: sample_callee_def)
  then show ?thesis
    using last_per_id_distinct [of "vi_routines sample_workspace" mr_body_available "''b''" True]
    by (simp add: inputs_of_def body_avail_by_id_def sample_parts)
qed

lemma sample_side_summary:
  assumes "v = ''a'' \<or> v = ''b''"
  shows "sm_uncertainties (the (side_summary (inputs_of sample_workspace) v)) = []"
  using assms sample_base
  by (auto simp: side_summary_def base_intraprocedural_summary_def sample_caller_def sample_callee_def)

lemma sample_produced:
  assumes "v = ''a'' \<or> v = ''b''"
  shows "produced (inputs_of sample_workspace) (solve_side sample_workspace) v = (if v = ''b'' then {sample_uncertainty} else {})"
proof -
  have "edge_own (inputs_of sample_workspace) sample_call = []"
    using sample_bodies by (simp add: edge_own_def adds_opaque_def sample_call_def)
  then show ?thesis
    by (auto simp: produced_def sample_side_summary [OF assms] sample_uncertainty_edges sample_parts)
qed

lemma sample_reports: "reports (inputs_of sample_workspace) (solve_side sample_workspace) v u \<Longrightarrow> u = sample_uncertainty"
proof (induction rule: reports.induct)
  case (produced v u)
  then show ?case using sample_produced [of v] by (auto simp: sample_recomputed split: if_splits)
qed (simp_all add: sample_parts)

lemma sample_unresolved: "unresolved (inputs_of sample_workspace) (solve_side sample_workspace) ''a''"
proof (rule unresolved.call)
  show "unresolved (inputs_of sample_workspace) (solve_side sample_workspace) (ce_to sample_call)"
    by (rule unresolved.trigger) (simp_all add: sample_recomputed triggers_def sample_uncertainty_edges sample_parts)
qed (simp_all add: sample_recomputed sample_parts)

lemma sample_side_ok: "side_ok sample_workspace (od_shared sample_orders)"
proof -
  have "plain sample_uncertainty" by (simp add: plain_def sample_uncertainty_def)
  then show ?thesis using sample_reports by (auto simp: side_ok_def sample_orders_def)
qed

lemma sample_settled: "settled_ids sample_workspace = {''a'', ''b''}"
  by (auto simp: settled_ids_def sample_parts sample_recomputed)

lemma sample_pools_ok: "pools_ok sample_workspace (od_rows sample_orders)"
proof -
  note ri = interner_ok [OF sample_workspace_ok]
  have "interned (inputs_of sample_workspace) ''a''" "interned (inputs_of sample_workspace) ''b''"
    unfolding ri(2) by (simp_all add: workspace_ids_def sample_parts)
  then have "number_of (inputs_of sample_workspace) ''a'' \<noteq> number_of (inputs_of sample_workspace) ''b''"
    using number_inj [OF ri(1)] by simp
  moreover have "all_effects sample_workspace = {sample_effect (Known True), sample_effect (ParameterDependent 0)}"
    unfolding sample_reach by blast
  then have "card (all_effects sample_workspace) \<le> 2" by (simp add: card_insert_if)
  ultimately show ?thesis by (simp add: pools_ok_def sample_orders_def sample_settled)
qed

lemma sample_not_capped: "\<forall>c. \<not> od_capped sample_orders c"
  by (simp add: sample_orders_def)

text \<open>The temporary record reaches the caller: its effect touches no table.\<close>

theorem solve_returns_the_least_solution_witness:
  "\<exists>bu facts ix. solve_v2 sample_workspace sample_orders = Some (bu, facts) \<and> bundle_routine_ix bu ''a'' = Some ix \<and>
     ref_identity ` set (db_effects bu ix) = {sample_effect (Known True)}"
proof -
  obtain bu facts ix where s: "solve_v2 sample_workspace sample_orders = Some (bu, facts)" "bundle_routine_ix bu ''a'' = Some ix"
    "exact_refs sample_workspace ''a'' (db_effects bu ix)"
    using solve_returns_the_least_solution [OF sample_workspace_ok sample_side_ok sample_not_capped sample_pools_ok]
    by (auto simp: sample_settled)
  have "ref_identity ` set (db_effects bu ix) = fst ` (\<lambda>r. (ref_identity r, er_via r)) ` set (db_effects bu ix)" by (simp add: image_image)
  also have "\<dots> = {sample_effect (Known True)}" using s(3) sample_reach by (auto simp: exact_refs_def image_iff)
  finally show ?thesis using s by blast
qed

theorem solve_side_facts_are_exact_witness:
  "\<exists>bu facts s. solve_v2 sample_workspace sample_orders = Some (bu, facts) \<and> facts ''a'' = Some s \<and> sm_has_unresolved_calls s"
proof -
  obtain bu facts where run: "solve_v2 sample_workspace sample_orders = Some (bu, facts)"
    by (rule solve_exact [OF sample_workspace_ok sample_side_ok sample_not_capped sample_pools_ok])
  note exact = solve_side_facts_are_exact [OF sample_workspace_ok sample_side_ok sample_not_capped sample_pools_ok run]
  have "''a'' \<in> dom facts" unfolding exact [THEN conjunct1] sample_settled by simp
  then obtain s where s: "facts ''a'' = Some s" by blast
  have "sm_has_unresolved_calls s" using exact [THEN conjunct2, rule_format, OF s] sample_unresolved by blast
  with run s show ?thesis by blast
qed

theorem hash_orders_do_not_show_witness:
  "\<exists>bu bu' facts facts' i j. solve_v2 sample_workspace sample_orders = Some (bu, facts) \<and>
     solve_v2 sample_workspace (sample_orders\<lparr> od_shared := rev, od_rows := rev (od_rows sample_orders) \<rparr>) = Some (bu', facts') \<and>
     bundle_routine_ix bu ''b'' = Some i \<and> bundle_routine_ix bu' ''b'' = Some j \<and>
     map er_effect_key (db_effects bu i) = map er_effect_key (db_effects bu' j)"
proof -
  let ?od = "sample_orders\<lparr> od_shared := rev, od_rows := rev (od_rows sample_orders) \<rparr>"
  have od: "side_ok sample_workspace (od_shared ?od)" "\<forall>c. \<not> od_capped ?od c" "pools_ok sample_workspace (od_rows ?od)"
    using sample_side_ok sample_pools_ok sample_not_capped by (simp_all add: side_ok_def pools_ok_def)
  obtain bu facts where one: "solve_v2 sample_workspace sample_orders = Some (bu, facts)" "solved_bundle sample_workspace bu"
    by (rule solve_exact [OF sample_workspace_ok sample_side_ok sample_not_capped sample_pools_ok])
  obtain bu' facts' where two: "solve_v2 sample_workspace ?od = Some (bu', facts')" "solved_bundle sample_workspace bu'"
    by (rule solve_exact [OF sample_workspace_ok od])
  obtain i j where "bundle_routine_ix bu ''b'' = Some i" "bundle_routine_ix bu' ''b'' = Some j"
    using one(2) two(2) by (auto simp: solved_bundle_def sample_settled)
  moreover from hash_orders_do_not_show [OF sample_workspace_ok sample_side_ok sample_not_capped sample_pools_ok one(1) od two(1) _ this]
  have "map er_effect_key (db_effects bu i) = map er_effect_key (db_effects bu' j)" by (simp add: sample_settled)
  ultimately show ?thesis using one(1) two(1) by blast
qed

end
