(* ===== verification/Solve_Limits.thy ===== *)
theory Solve_Limits
  imports Solve_Bundle
begin

text \<open>
  The limits of the solve: the worklist of a component ends with the least set of parameter-dependent
  effects, the ids and the columns stay within the effects and the routines there are, and rows that
  share an id can lose effects.
\<close>

section \<open>The worklist of a component\<close>

text \<open>
  Property C6. The product worklist of a component ends without a panic, and what it leaves is the
  least set: the facts are exactly the parameter-dependent effects that flow to a member over the
  edges of the component, and the emissions are exactly those that became known or unknown.
\<close>

theorem pd_reachability_ends_with_the_least_set:
  assumes "ri_ok (in_interner si)" "\<forall>m \<in> set (members eff). interned si m" "rows_known si db u"
  shows "\<exists>facts terms. solve_pd_reachability eff si db u = Some (facts, terms) \<and>
    (\<forall>v base j. \<lparr> pf_routine_id = v, pf_base = base, pf_param_index = j \<rparr> \<in> set facts \<longleftrightarrow>
      pd_flow si (members eff) (seed_outcomes si (members eff) db u) (v, base, TS_ParameterDependent j)) \<and>
    (\<forall>v base k. \<lparr> te_routine_id = v, te_base = base, te_temp = k \<rparr> \<in> set terms \<longleftrightarrow>
      (\<forall>j. k \<noteq> ParameterDependent j) \<and>
      pd_flow si (members eff) (seed_outcomes si (members eff) db u) (v, base, kind_to_temp_state k))"
  by (rule pd_reachability_flow [OF assms]) blast

theorem pd_reachability_ends_with_the_least_set_witness:
  "\<exists>facts terms. solve_pd_reachability \<lparr> members = [''a'', ''b''], recursive = False \<rparr> (inputs_of sample_workspace) new_builder new_universe = Some (facts, terms) \<and>
     \<lparr> pf_routine_id = ''b'', pf_base = (''Modify'', ''t'', ''b/op0''), pf_param_index = 0 \<rparr> \<in> set facts \<and>
     \<lparr> te_routine_id = ''a'', te_base = (''Modify'', ''t'', ''b/op0''), te_temp = Known True \<rparr> \<in> set terms"
proof -
  let ?si = "inputs_of sample_workspace" and ?ms = "[''a'', ''b'']" and ?base = "(''Modify'', ''t'', ''b/op0'')"
  note ri = interner_ok [OF sample_workspace_ok]
  have int: "\<forall>m \<in> set ?ms. interned ?si m" unfolding ri(2) by (simp add: workspace_ids_def sample_parts)
  have rows: "rows_known ?si new_builder new_universe"
    by (simp add: rows_known_def pd_ids_def new_builder_def)
  have "own_outcomes ?si ''b'' = [(''b'', ?base, TS_ParameterDependent 0)]"
  proof -
    have "routines_by_id sample_workspace ''b'' = Some sample_callee" by (simp add: sample_routines)
    moreover have "map (\<lambda>e. (effect_base e, de_temp_state e)) (sm_db_effects (base_intraprocedural_summary sample_callee)) =
        [(?base, TS_ParameterDependent 0)]"
      by code_simp
    ultimately show ?thesis by (auto simp: own_outcomes_def map_eq_Cons_conv)
  qed
  then have b: "pd_flow ?si ?ms (seed_outcomes ?si ?ms new_builder new_universe) (''b'', ?base, TS_ParameterDependent 0)"
    by (intro pd_flow.seed) (simp add: seed_outcomes_def)
  have "substitute_pd_temp_state sample_call 0 sample_caller (routines_by_id sample_workspace ''b'') = TS_Known True"
    by (simp add: substitute_pd_temp_state_def sample_call_def sample_caller_def pd_temp_state_at_callsite_def source_temp_state_for_def
      RECEIVER_PARAM_INDEX_def from_p_def)
  then have "(''a'', ?base, TS_Known True) \<in> set (caller_outcomes ?si ?ms ''b'' ?base 0)"
    unfolding caller_outcomes_mem by (intro exI [of _ "''a''"] exI [of _ sample_caller] exI [of _ sample_call]) (simp add: sample_routines sample_parts)
  with b have a: "pd_flow ?si ?ms (seed_outcomes ?si ?ms new_builder new_universe) (''a'', ?base, TS_Known True)" by (rule pd_flow.over)
  show ?thesis
    using pd_reachability_ends_with_the_least_set [of ?si "\<lparr> members = ?ms, recursive = False \<rparr>", OF ri(1) _ rows] int a b by auto
qed

section \<open>Ids and columns\<close>

text \<open>
  Property C10. The solve stays within its 32-bit ids: the universe holds no more ids than there are
  effects that may reach a routine, the arena no more sets than there are settled routines, and a row
  no more columns than there are effects.
\<close>

theorem solve_stays_in_bounds:
  assumes "workspace_ok vi" "side_ok vi (od_shared od)" "\<forall>c. \<not> od_capped od c" "solve_loop vi od = Some st"
  shows "uni_len (so_universe st) \<le> card {e. \<exists>v. may_reach vi v e} \<and>
    length (bb_arena (so_builder st)) \<le> card (settled_ids vi) \<and>
    uni_len (so_universe st) < 2 ^ 32 \<and> length (bb_arena (so_builder st)) < 2 ^ 32 \<and>
    (\<forall>t raw. bb_rows (so_builder st) t = Some raw \<longrightarrow>
       length (rr_base_via raw) + length (rr_delta_via raw) \<le> card {e. \<exists>v. may_reach vi v e})"
proof -
  have inv: "rows_inv vi (settled_ids vi) (so_universe st, so_builder st)"
    by (rule loop_exact [OF assms(1,2)]) (use assms(3,4) in auto)
  then have "length (bb_arena (so_builder st)) \<le> card (settled_ids vi)" by (simp add: rows_inv_def)
  with rows_inv_facts(2,3) [OF assms(1) inv] rows_inv_room(3) [OF assms(1) inv] row_length [OF assms(1) inv]
  show ?thesis by blast
qed

theorem solve_stays_in_bounds_witness:
  "\<exists>st. solve_loop sample_workspace sample_orders = Some st \<and> uni_len (so_universe st) \<le> 2 \<and> length (bb_arena (so_builder st)) \<le> 2"
proof -
  obtain st where st: "solve_loop sample_workspace sample_orders = Some st"
    by (rule loop_exact [OF sample_workspace_ok sample_side_ok]) (use sample_not_capped in blast)
  have "{e. \<exists>v. may_reach sample_workspace v e} = {sample_effect (Known True), sample_effect (ParameterDependent 0)}"
    unfolding sample_reach by blast
  then have "card {e. \<exists>v. may_reach sample_workspace v e} \<le> 2" by (simp add: card_insert_if)
  moreover have "card (settled_ids sample_workspace) \<le> 2" by (simp add: sample_settled)
  ultimately show ?thesis
    using solve_stays_in_bounds [OF sample_workspace_ok sample_side_ok sample_not_capped st] st by (auto intro: order_trans)
qed

section \<open>Rows that share an id\<close>

text \<open>Two rows of one id: one modifies the record of its parameter, the other touches nothing.\<close>

definition collided_row :: "bool \<Rightarrow> model_routine" where
  "collided_row writes = sample_callee\<lparr> mr_id := ''x'', mr_record_operations := (if writes then mr_record_operations sample_callee else []) \<rparr>"

definition collided_workspace :: "bool \<Rightarrow> v2_inputs" where
  "collided_workspace writer_last = \<lparr> vi_routines = [collided_row (\<not> writer_last), collided_row writer_last],
     vi_graph = \<lparr> pg_nodes = [''x''], pg_edges_by_from = Map.empty, pg_edges_from_order = [], pg_uncertainty_edges = [],
       pg_collided_site_callee = Map.empty \<rparr>,
     vi_scc = \<lparr> sccs = [\<lparr> members = [''x''], recursive = False \<rparr>], scc_id_by_routine = [''x'' \<mapsto> 0] \<rparr>, vi_leaves = [] \<rparr>"

definition collided_orders :: solve_orders where
  "collided_orders = \<lparr> od_shared = (\<lambda>us. us), od_base = [''x''], od_rows = [0], od_capped = (\<lambda>_. False) \<rparr>"

text \<open>
  Rows that share an id lose effects: the base summary of the id is the union of its rows
  in either order, but a write that depends on a parameter is solved for only when it is in the last
  row, so the same rows in another order project it or do not.
\<close>

theorem collided_rows_lose_parameter_effects:
  "map_option (map de_effect_key \<circ> sm_db_effects) (base_summaries (collided_workspace False) ''x'') = Some [''Modify|t|b/op0|p0''] \<and>
   map_option (map de_effect_key \<circ> sm_db_effects) (base_summaries (collided_workspace True) ''x'') = Some [''Modify|t|b/op0|p0''] \<and>
   map_option (\<lambda>(bu, _). map er_effect_key (db_effects bu 0)) (solve_v2 (collided_workspace False) collided_orders) = Some [] \<and>
   map_option (\<lambda>(bu, _). map er_effect_key (db_effects bu 0)) (solve_v2 (collided_workspace True) collided_orders) = Some [''Modify|t|b/op0|p0'']"
  by (intro conjI; code_simp)

end
