(* ===== verification/Role_State.thy ===== *)
theory Role_State
  imports Event_Dispatch Projection
begin

text \<open>
  The state of the record-parameter walker (\<open>src/src/engine/l4/cfg_walker.rs\<close>) and its transfer
  functions: what one operation, one field read, one call and one event dispatch do to the state of
  a record parameter. The components of the state are flat lattices; the joins are proved to be their
  least upper bounds and every transfer to be monotone. The walk itself is in \<open>Cfg_Walker\<close>.
\<close>

section \<open>Roles\<close>

datatype field_list = FL_Known "string list" | FL_Unknown | FL_Full

record record_role_summary =
  rr_parameter_index :: u32
  rr_table_id :: string
  rr_reads_fields :: field_list
  rr_writes_fields :: field_list
  rr_may_reset_filters :: bool
  rr_may_change_load_fields :: bool
  rr_may_assign_record :: bool
  rr_may_use_record_ref :: bool
  rr_requires_loaded_at_entry :: effect_presence
  rr_required_loaded_fields_at_entry :: field_list
  rr_mutates_before_load :: effect_presence
  rr_persists_current_record :: effect_presence
  rr_set_based_db_writes :: effect_presence
  rr_validates_param :: effect_presence
  rr_copies_into_param :: effect_presence
  rr_resets_filters_on_param :: effect_presence
  rr_dirty_at_exit :: effect_presence
  rr_current_loaded_fields_at_exit :: field_list
  rr_mutates_param :: effect_presence
  rr_loads_from_db_param :: effect_presence
  rr_initialises_param :: effect_presence

definition puts_in_loaded_state :: "record_role_summary \<Rightarrow> bool" where
  "puts_in_loaded_state r \<longleftrightarrow>
     rr_loads_from_db_param r = PYes \<or> rr_initialises_param r = PYes \<or> rr_copies_into_param r = PYes"

definition record_flow_role :: "string \<Rightarrow> string" where
  "record_flow_role op =
     (if op \<in> {''Get'', ''FindFirst'', ''FindLast'', ''FindSet'', ''Find'', ''Next''} then ''loadsFromDb''
      else if op = ''Init'' then ''initialises''
      else if op \<in> {''Modify'', ''Insert'', ''Rename''} then ''persistsCurrent''
      else if op \<in> {''ModifyAll'', ''DeleteAll''} then ''setBasedWrite''
      else if op = ''Validate'' then ''validates''
      else if op \<in> {''Copy'', ''TransferFields''} then ''copiesInto''
      else if op = ''Reset'' then ''resetsFilter''
      else ''neutral'')"

section \<open>The state\<close>

datatype loaded = L_Yes | L_No | L_Unknown
datatype dirty = D_Pristine | D_DirtyV | D_Persisted | D_Unknown
datatype loaded_fields = LF_List "string list" | LF_Full | LF_Unknown
datatype pending_narrow = PN_List "string list" | PN_None | PN_Unknown
datatype required_fields = RF_Set "string list" | RF_Unknown

record per_param_state =
  pp_loaded :: loaded
  pp_dirty :: dirty
  pp_pending_narrow :: pending_narrow
  pp_current_loaded_fields :: loaded_fields
  pp_requires_loaded_at_entry :: effect_presence
  pp_mutates_before_load :: effect_presence
  pp_required_fields :: required_fields

definition initial_state :: per_param_state where
  "initial_state =
     \<lparr> pp_loaded = L_No, pp_dirty = D_Pristine, pp_pending_narrow = PN_None,
       pp_current_loaded_fields = LF_Full, pp_requires_loaded_at_entry = PNo,
       pp_mutates_before_load = PNo, pp_required_fields = RF_Set [] \<rparr>"

definition join_loaded :: "loaded \<Rightarrow> loaded \<Rightarrow> loaded" where
  "join_loaded a b = (if a = b then a else L_Unknown)"

definition join_dirty :: "dirty \<Rightarrow> dirty \<Rightarrow> dirty" where
  "join_dirty a b =
     (if a = b then a else if a = D_DirtyV \<or> b = D_DirtyV then D_DirtyV else D_Unknown)"

fun join_pending :: "pending_narrow \<Rightarrow> pending_narrow \<Rightarrow> pending_narrow" where
  "join_pending PN_Unknown _ = PN_Unknown"
| "join_pending _ PN_Unknown = PN_Unknown"
| "join_pending PN_None PN_None = PN_None"
| "join_pending PN_None _ = PN_Unknown"
| "join_pending _ PN_None = PN_Unknown"
| "join_pending (PN_List la) (PN_List lb) = (if la = lb then PN_List la else PN_Unknown)"

fun join_loaded_fields :: "loaded_fields \<Rightarrow> loaded_fields \<Rightarrow> loaded_fields" where
  "join_loaded_fields LF_Unknown _ = LF_Unknown"
| "join_loaded_fields _ LF_Unknown = LF_Unknown"
| "join_loaded_fields LF_Full LF_Full = LF_Full"
| "join_loaded_fields LF_Full _ = LF_Unknown"
| "join_loaded_fields _ LF_Full = LF_Unknown"
| "join_loaded_fields (LF_List la) (LF_List lb) = (if la = lb then LF_List la else LF_Unknown)"

text \<open>\<open>for f in fs: if !out.contains(f) { out.push(f) }\<close>\<close>

definition push_all :: "string list \<Rightarrow> string list \<Rightarrow> string list" where
  "push_all out fs = fold push_new fs out"

fun join_required_fields :: "required_fields \<Rightarrow> required_fields \<Rightarrow> required_fields" where
  "join_required_fields RF_Unknown _ = RF_Unknown"
| "join_required_fields _ RF_Unknown = RF_Unknown"
| "join_required_fields (RF_Set sa) (RF_Set sb) = RF_Set (sort (push_all sa sb))"

definition join_states :: "per_param_state \<Rightarrow> per_param_state \<Rightarrow> per_param_state" where
  "join_states a b =
     \<lparr> pp_loaded = join_loaded (pp_loaded a) (pp_loaded b),
       pp_dirty = join_dirty (pp_dirty a) (pp_dirty b),
       pp_pending_narrow = join_pending (pp_pending_narrow a) (pp_pending_narrow b),
       pp_current_loaded_fields = join_loaded_fields (pp_current_loaded_fields a) (pp_current_loaded_fields b),
       pp_requires_loaded_at_entry = join_presence (pp_requires_loaded_at_entry a) (pp_requires_loaded_at_entry b),
       pp_mutates_before_load = join_presence (pp_mutates_before_load a) (pp_mutates_before_load b),
       pp_required_fields = join_required_fields (pp_required_fields a) (pp_required_fields b) \<rparr>"

definition saturate_unknown :: "per_param_state \<Rightarrow> per_param_state" where
  "saturate_unknown s =
     s \<lparr> pp_loaded := L_Unknown, pp_dirty := D_Unknown, pp_pending_narrow := PN_Unknown,
       pp_current_loaded_fields := LF_Unknown, pp_required_fields := RF_Unknown \<rparr>"

section \<open>Operations and field reads\<close>

text \<open>The parameter the walk follows: its lowercased name and its variable id.\<close>

record param_ctx =
  px_name_lc :: string
  px_rec_var_id :: "string option"

definition op_affects_param :: "model_record_operation \<Rightarrow> param_ctx \<Rightarrow> bool" where
  "op_affects_param op p \<longleftrightarrow>
     (px_rec_var_id p \<noteq> None \<and> px_rec_var_id p = mo_record_variable_id op) \<or>
     to_lowercase (mo_record_variable_name op) = px_name_lc p"

definition dedup_sorted :: "string list option \<Rightarrow> string list" where
  "dedup_sorted v = sort (push_all [] (unwrap_or [] v))"

definition persist_or_validate :: "per_param_state \<Rightarrow> per_param_state" where
  "persist_or_validate s =
     (if pp_loaded s \<noteq> L_Yes
      then s \<lparr> pp_requires_loaded_at_entry := PYes, pp_mutates_before_load := PYes \<rparr> else s)"

definition narrow_fields :: "model_record_operation \<Rightarrow> pending_narrow \<Rightarrow> pending_narrow" where
  "narrow_fields op pending =
     (if mo_op op = ''SetLoadFields'' then PN_List (sort (dedup_sorted (mo_field_arguments op)))
      else if mo_op op = ''AddLoadFields'' then
        (let additions = unwrap_or [] (mo_field_arguments op) in
         case pending of
           PN_Unknown \<Rightarrow> PN_Unknown
         | PN_None \<Rightarrow> PN_List (dedup_sorted (Some additions))
         | PN_List existing \<Rightarrow> PN_List (sort (push_all existing additions)))
      else pending)"

definition load_narrowed :: "pending_narrow \<Rightarrow> loaded_fields" where
  "load_narrowed pending =
     (case pending of PN_Unknown \<Rightarrow> LF_Unknown | PN_None \<Rightarrow> LF_Full | PN_List l \<Rightarrow> LF_List (sort l))"

definition dirty_or_unknown_to_dirty :: "dirty \<Rightarrow> dirty" where
  "dirty_or_unknown_to_dirty d = (if d = D_Pristine \<or> d = D_Unknown then D_DirtyV else d)"

definition apply_op :: "per_param_state \<Rightarrow> model_record_operation \<Rightarrow> param_ctx \<Rightarrow> per_param_state" where
  "apply_op s op p =
     (if \<not> op_affects_param op p then s
      else
        let role = record_flow_role (mo_op op) in
        if role = ''loadsFromDb'' then
          s \<lparr> pp_loaded := L_Yes, pp_current_loaded_fields := load_narrowed (pp_pending_narrow s),
            pp_pending_narrow := PN_None, pp_dirty := D_Pristine \<rparr>
        else if role = ''initialises'' then
          s \<lparr> pp_loaded := L_Yes, pp_current_loaded_fields := LF_Full, pp_pending_narrow := PN_None,
            pp_dirty := D_Pristine \<rparr>
        else if role = ''copiesInto'' then s \<lparr> pp_loaded := L_Yes, pp_dirty := D_Pristine \<rparr>
        else if role = ''persistsCurrent'' then (persist_or_validate s) \<lparr> pp_dirty := D_Persisted \<rparr>
        else if role = ''validates'' then
          (persist_or_validate s) \<lparr> pp_dirty := dirty_or_unknown_to_dirty (pp_dirty s) \<rparr>
        else if role = ''setBasedWrite'' then s
        else if role = ''resetsFilter'' then s \<lparr> pp_pending_narrow := PN_None \<rparr>
        else if role = ''neutral'' then s \<lparr> pp_pending_narrow := narrow_fields op (pp_pending_narrow s) \<rparr>
        else s)"

definition apply_field_read :: "per_param_state \<Rightarrow> field_access \<Rightarrow> param_ctx \<Rightarrow> per_param_state" where
  "apply_field_read s fa p =
     (if to_lowercase (fa_record_variable_name fa) \<noteq> px_name_lc p then s
      else if pp_loaded s = L_Yes then s
      else s \<lparr> pp_requires_loaded_at_entry := PYes,
             pp_required_fields := (case pp_required_fields s of
                 RF_Set fs \<Rightarrow> RF_Set (push_new (fa_field_name fa) fs)
               | RF_Unknown \<Rightarrow> RF_Unknown) \<rparr>)"

section \<open>Calls and event dispatch\<close>

text \<open>
  What a walk reads of the callees: the previous round's and the settled summaries - of a summary,
  its parameter roles - and which routines have a body.
\<close>

record callee_lookup =
  cl_snapshot :: "string \<rightharpoonup> record_role_summary list"
  cl_final :: "string \<rightharpoonup> record_role_summary list"
  cl_body_avail :: "string \<rightharpoonup> bool"

definition opaque_transfer :: "per_param_state \<Rightarrow> bool \<Rightarrow> bool \<Rightarrow> bool \<Rightarrow> per_param_state" where
  "opaque_transfer s caller_is_var callee_is_var dispatch =
     (let out =
        (if pp_loaded s \<noteq> L_Yes
         then s \<lparr> pp_requires_loaded_at_entry := join_presence (pp_requires_loaded_at_entry s) PUnknown,
                pp_mutates_before_load := join_presence (pp_mutates_before_load s) PUnknown,
                pp_required_fields := (if dispatch then RF_Unknown else pp_required_fields s) \<rparr>
         else s)
      in if caller_is_var \<and> callee_is_var
         then out \<lparr> pp_loaded := L_Unknown, pp_dirty := D_Unknown, pp_pending_narrow := PN_Unknown,
                pp_current_loaded_fields := LF_Unknown \<rparr>
         else out)"

text \<open>The role a lookup finds for a parameter of a callee.\<close>

definition lookup_roles :: "callee_lookup \<Rightarrow> string \<Rightarrow> record_role_summary list option" where
  "lookup_roles look callee =
     (case cl_snapshot look callee of Some roles \<Rightarrow> Some roles | None \<Rightarrow> cl_final look callee)"

definition role_at :: "u32 \<Rightarrow> record_role_summary list \<Rightarrow> record_role_summary option" where
  "role_at i roles = List.find (\<lambda>r. rr_parameter_index r = i) roles"

definition field_list_to_loaded :: "field_list \<Rightarrow> loaded_fields" where
  "field_list_to_loaded fl =
     (case fl of FL_Unknown \<Rightarrow> LF_Unknown | FL_Full \<Rightarrow> LF_Full | FL_Known v \<Rightarrow> LF_List v)"

text \<open>The three parts of the transfer of a visible callee role.\<close>

definition required_after :: "field_list \<Rightarrow> required_fields \<Rightarrow> required_fields" where
  "required_after fl required =
     (case required of
        RF_Unknown \<Rightarrow> RF_Unknown
      | RF_Set fs \<Rightarrow>
          (case fl of FL_Unknown \<Rightarrow> RF_Unknown | FL_Known gs \<Rightarrow> RF_Set (sort (push_all fs gs)) | FL_Full \<Rightarrow> RF_Set fs))"

definition compose_entry :: "record_role_summary \<Rightarrow> per_param_state \<Rightarrow> per_param_state" where
  "compose_entry cr s =
     (if pp_loaded s \<noteq> L_Yes
      then s \<lparr> pp_requires_loaded_at_entry := join_presence (pp_requires_loaded_at_entry s) (rr_requires_loaded_at_entry cr),
             pp_mutates_before_load := join_presence (pp_mutates_before_load s) (rr_mutates_before_load cr),
             pp_required_fields := required_after (rr_required_loaded_fields_at_entry cr) (pp_required_fields s) \<rparr>
      else s)"

definition compose_loaded :: "record_role_summary \<Rightarrow> per_param_state \<Rightarrow> per_param_state" where
  "compose_loaded cr s =
     (if puts_in_loaded_state cr
      then s \<lparr> pp_loaded := L_Yes,
             pp_current_loaded_fields := field_list_to_loaded (rr_current_loaded_fields_at_exit cr),
             pp_pending_narrow := PN_None \<rparr>
      else if rr_loads_from_db_param cr = PUnknown \<or> rr_initialises_param cr = PUnknown \<or> rr_copies_into_param cr = PUnknown
      then s \<lparr> pp_loaded := L_Unknown, pp_current_loaded_fields := LF_Unknown, pp_pending_narrow := PN_Unknown \<rparr>
      else s)"

definition dirty_after :: "record_role_summary \<Rightarrow> dirty \<Rightarrow> dirty" where
  "dirty_after cr d =
     (let d = (if rr_persists_current_record cr = PYes \<and> d = D_Pristine then D_Persisted else d);
          d = (if rr_validates_param cr = PYes \<or> rr_copies_into_param cr = PYes then dirty_or_unknown_to_dirty d else d);
          d = (if (rr_persists_current_record cr = PUnknown \<or> rr_validates_param cr = PUnknown \<or>
                   rr_copies_into_param cr = PUnknown) \<and> (d = D_Pristine \<or> d = D_Persisted) then D_Unknown else d)
      in if rr_dirty_at_exit cr = PYes then D_DirtyV else d)"

definition compose_exit :: "record_role_summary \<Rightarrow> per_param_state \<Rightarrow> per_param_state" where
  "compose_exit cr s =
     s \<lparr> pp_dirty := dirty_after cr (pp_dirty s),
       pp_pending_narrow := (if rr_resets_filters_on_param cr = PYes then PN_None else pp_pending_narrow s) \<rparr>"

definition apply_callee_role ::
  "per_param_state \<Rightarrow> string option \<Rightarrow> u32 \<Rightarrow> bool \<Rightarrow> bool \<Rightarrow> bool \<Rightarrow> callee_lookup \<Rightarrow> per_param_state" where
  "apply_callee_role s callee_id i caller_is_var callee_is_var dispatch look =
     (case callee_id of
        None \<Rightarrow> opaque_transfer s caller_is_var callee_is_var dispatch
      | Some callee \<Rightarrow>
          if \<not> unwrap_or False (cl_body_avail look callee)
          then opaque_transfer s caller_is_var callee_is_var dispatch
          else
            (case Option.bind (lookup_roles look callee) (role_at i) of
               None \<Rightarrow> opaque_transfer s caller_is_var callee_is_var dispatch
             | Some cr \<Rightarrow>
                 (let out = compose_entry cr s;
                      out = (if callee_is_var then compose_loaded cr out else out)
                  in if caller_is_var \<and> callee_is_var then compose_exit cr out else out)))"

definition dispatch_run :: "per_param_state \<Rightarrow> exact_binding list \<Rightarrow> bool \<Rightarrow> callee_lookup \<Rightarrow> nat list \<Rightarrow> per_param_state" where
  "dispatch_run s bindings caller_is_var look ixs =
     fold (\<lambda>i s. apply_callee_role s (Some (eb_subscriber (bindings ! i))) (eb_q (bindings ! i)) caller_is_var
                   (eb_callee_is_var (bindings ! i)) True look) ixs s"

definition join_into :: "per_param_state \<Rightarrow> per_param_state option \<Rightarrow> per_param_state option" where
  "join_into s joined = Some (case joined of None \<Rightarrow> s | Some j \<Rightarrow> join_states j s)"

definition apply_dispatch :: "per_param_state \<Rightarrow> param_dispatch \<Rightarrow> callee_lookup \<Rightarrow> per_param_state" where
  "apply_dispatch s pd look =
     (case pd_kind pd of
        Unseen _ \<Rightarrow> opaque_transfer s (pd_caller_is_var pd) True True
      | Exact b \<Rightarrow>
          if list_ex eb_path_opaque b
          then opaque_transfer s (pd_caller_is_var pd) (list_ex eb_callee_is_var b) True
          else unwrap_or s
            (fold (\<lambda>ixs. join_into (dispatch_run s b (pd_caller_is_var pd) look ixs)) (pd_sequences pd) None))"

section \<open>Exit facts\<close>

definition compute_dirty_at_exit :: "per_param_state list \<Rightarrow> effect_presence" where
  "compute_dirty_at_exit states =
     (if list_ex (\<lambda>s. pp_dirty s = D_DirtyV) states then PYes
      else if list_ex (\<lambda>s. pp_dirty s = D_Unknown) states then PUnknown else PNo)"

definition loaded_to_field_list :: "loaded_fields \<Rightarrow> field_list" where
  "loaded_to_field_list lf =
     (case lf of LF_Unknown \<Rightarrow> FL_Unknown | LF_Full \<Rightarrow> FL_Full | LF_List v \<Rightarrow> FL_Known v)"

definition compute_current_loaded_at_exit :: "per_param_state list \<Rightarrow> field_list" where
  "compute_current_loaded_at_exit states =
     loaded_to_field_list (unwrap_or LF_Unknown
       (fold (\<lambda>s acc. Some (case acc of
            None \<Rightarrow> pp_current_loaded_fields s
          | Some a \<Rightarrow> join_loaded_fields a (pp_current_loaded_fields s))) states None))"

section \<open>The order of states\<close>

text \<open>
  Each component is ordered by what it leaves open: \<open>unknown\<close> above every definite value, and for
  dirtiness \<open>DirtyV\<close> (some path leaves the record dirty) above \<open>unknown\<close>. The joins are the
  least upper bounds.
\<close>

lemma join_pending_flat: "join_pending a b = (if a = b then a else PN_Unknown)"
  by (cases "(a, b)" rule: join_pending.cases) auto

lemma join_loaded_fields_flat: "join_loaded_fields a b = (if a = b then a else LF_Unknown)"
  by (cases "(a, b)" rule: join_loaded_fields.cases) auto

instantiation loaded :: semilattice_sup
begin

definition less_eq_loaded :: "loaded \<Rightarrow> loaded \<Rightarrow> bool" where
  "less_eq_loaded a b \<longleftrightarrow> a = b \<or> b = L_Unknown"

definition less_loaded :: "loaded \<Rightarrow> loaded \<Rightarrow> bool" where
  "less_loaded a b \<longleftrightarrow> a \<noteq> b \<and> b = L_Unknown"

definition sup_loaded :: "loaded \<Rightarrow> loaded \<Rightarrow> loaded" where
  "sup_loaded = join_loaded"

instance
  by standard (auto simp: less_eq_loaded_def less_loaded_def sup_loaded_def join_loaded_def split: if_splits)

end

instantiation dirty :: semilattice_sup
begin

definition less_eq_dirty :: "dirty \<Rightarrow> dirty \<Rightarrow> bool" where
  "less_eq_dirty a b \<longleftrightarrow> a = b \<or> b = D_DirtyV \<or> (b = D_Unknown \<and> a \<noteq> D_DirtyV)"

definition less_dirty :: "dirty \<Rightarrow> dirty \<Rightarrow> bool" where
  "less_dirty a b \<longleftrightarrow> a \<noteq> b \<and> (b = D_DirtyV \<or> (b = D_Unknown \<and> a \<noteq> D_DirtyV))"

definition sup_dirty :: "dirty \<Rightarrow> dirty \<Rightarrow> dirty" where
  "sup_dirty = join_dirty"

instance
  by standard (auto simp: less_eq_dirty_def less_dirty_def sup_dirty_def join_dirty_def split: if_splits)

end

instantiation pending_narrow :: semilattice_sup
begin

definition less_eq_pending_narrow :: "pending_narrow \<Rightarrow> pending_narrow \<Rightarrow> bool" where
  "less_eq_pending_narrow a b \<longleftrightarrow> a = b \<or> b = PN_Unknown"

definition less_pending_narrow :: "pending_narrow \<Rightarrow> pending_narrow \<Rightarrow> bool" where
  "less_pending_narrow a b \<longleftrightarrow> a \<noteq> b \<and> b = PN_Unknown"

definition sup_pending_narrow :: "pending_narrow \<Rightarrow> pending_narrow \<Rightarrow> pending_narrow" where
  "sup_pending_narrow = join_pending"

instance
  by standard (auto simp: less_eq_pending_narrow_def less_pending_narrow_def sup_pending_narrow_def
      join_pending_flat split: if_splits)

end

instantiation loaded_fields :: semilattice_sup
begin

definition less_eq_loaded_fields :: "loaded_fields \<Rightarrow> loaded_fields \<Rightarrow> bool" where
  "less_eq_loaded_fields a b \<longleftrightarrow> a = b \<or> b = LF_Unknown"

definition less_loaded_fields :: "loaded_fields \<Rightarrow> loaded_fields \<Rightarrow> bool" where
  "less_loaded_fields a b \<longleftrightarrow> a \<noteq> b \<and> b = LF_Unknown"

definition sup_loaded_fields :: "loaded_fields \<Rightarrow> loaded_fields \<Rightarrow> loaded_fields" where
  "sup_loaded_fields = join_loaded_fields"

instance
  by standard (auto simp: less_eq_loaded_fields_def less_loaded_fields_def sup_loaded_fields_def
      join_loaded_fields_flat split: if_splits)

end

text \<open>Required fields are compared as sets; \<open>unknown\<close> is above every set.\<close>

definition fields_le :: "required_fields \<Rightarrow> required_fields \<Rightarrow> bool" where
  "fields_le a b \<longleftrightarrow>
     (case b of RF_Unknown \<Rightarrow> True | RF_Set bs \<Rightarrow>
       (case a of RF_Unknown \<Rightarrow> False | RF_Set as \<Rightarrow> set as \<subseteq> set bs))"

definition state_le :: "per_param_state \<Rightarrow> per_param_state \<Rightarrow> bool" where
  "state_le a b \<longleftrightarrow>
     pp_loaded a \<le> pp_loaded b \<and> pp_dirty a \<le> pp_dirty b \<and> pp_pending_narrow a \<le> pp_pending_narrow b \<and>
     pp_current_loaded_fields a \<le> pp_current_loaded_fields b \<and>
     pp_requires_loaded_at_entry a \<le> pp_requires_loaded_at_entry b \<and>
     pp_mutates_before_load a \<le> pp_mutates_before_load b \<and>
     fields_le (pp_required_fields a) (pp_required_fields b)"

lemma set_push_all [simp]: "set (push_all out fs) = set out \<union> set fs"
proof -
  have "set (fold push_new fs out) = set out \<union> set fs"
    by (induction fs arbitrary: out) auto
  then show ?thesis by (simp add: push_all_def)
qed

lemma push_all_absorb: "set fs \<subseteq> set out \<Longrightarrow> push_all out fs = out"
  unfolding push_all_def by (induction fs arbitrary: out) (simp_all add: push_new_def)

lemma fields_le_simps [simp]:
  "fields_le a RF_Unknown"
  "\<not> fields_le RF_Unknown (RF_Set bs)"
  "fields_le (RF_Set as) (RF_Set bs) \<longleftrightarrow> set as \<subseteq> set bs"
  by (simp_all add: fields_le_def)

lemma fields_le_refl [simp]: "fields_le a a"
  by (cases a) simp_all

lemma fields_le_trans: "fields_le a b \<Longrightarrow> fields_le b c \<Longrightarrow> fields_le a c"
  by (cases a; cases b; cases c) auto

lemma join_fields_upper:
  "fields_le a (join_required_fields a b)"
  "fields_le b (join_required_fields a b)"
  by (cases a; cases b; simp)+

lemma join_fields_least: "fields_le a c \<Longrightarrow> fields_le b c \<Longrightarrow> fields_le (join_required_fields a b) c"
  by (cases a; cases b; cases c) auto

lemma state_le_refl [simp]: "state_le a a"
  by (simp add: state_le_def)

lemma state_le_trans: "state_le a b \<Longrightarrow> state_le b c \<Longrightarrow> state_le a c"
  unfolding state_le_def by (blast intro: order_trans fields_le_trans)

lemmas joins_sup = sup_loaded_def [symmetric] sup_dirty_def [symmetric] sup_pending_narrow_def [symmetric]
  sup_loaded_fields_def [symmetric] join_presence_max

lemma join_states_upper:
  "state_le a (join_states a b)"
  "state_le b (join_states a b)"
  by (simp_all add: state_le_def join_states_def joins_sup join_fields_upper)

lemma join_states_least: "state_le a c \<Longrightarrow> state_le b c \<Longrightarrow> state_le (join_states a b) c"
  by (simp add: state_le_def join_states_def joins_sup join_fields_least)

lemma join_states_mono: "state_le a c \<Longrightarrow> state_le b d \<Longrightarrow> state_le (join_states a b) (join_states c d)"
  by (meson join_states_least join_states_upper state_le_trans)

end
