(* ===== verification/Cfg_Walker.thy ===== *)
theory Cfg_Walker
  imports Role_State
begin

text \<open>
  The branch-aware walk of a routine body for one record parameter
  (\<open>src/src/engine/l4/cfg_walker.rs\<close>): source positions and the interleaving of field accesses with
  the statements of a block, the recursive walk with its collectors of exit, break and continue
  states, the flat walk of a body without a skeleton, and the facts of a parameter. The collectors
  are threaded as the code's \<open>&mut\<close> vectors are; the depth budget is the number of levels left.
\<close>

section \<open>The context of a walk\<close>

record upgraded_binding =
  ub_parameter_index :: u32
  ub_callee_parameter_is_var :: bool
  ub_binding_resolution :: string

type_synonym position = "u32 \<times> u32"
type_synonym source_range = "u32 \<times> u32 \<times> u32 \<times> u32"

record walk_indexes =
  wi_op_by_id :: "string \<rightharpoonup> model_record_operation"
  wi_call_by_id :: "string \<rightharpoonup> model_call_site"
  wi_fa_by_pos :: "(position \<times> field_access list) list"

definition anchor_start :: "anchor \<Rightarrow> position" where
  "anchor_start a = (start_line a, start_column a)"

definition anchor_end :: "anchor \<Rightarrow> position" where
  "anchor_end a = (end_line a, end_column a)"

text \<open>\<open>entry(pos).or_default().push(fa)\<close>\<close>

fun push_access :: "position \<Rightarrow> field_access \<Rightarrow> (position \<times> field_access list) list \<Rightarrow> (position \<times> field_access list) list" where
  "push_access p fa [] = [(p, [fa])]"
| "push_access p fa ((q, fs) # rest) = (if q = p then (q, fs @ [fa]) # rest else (q, fs) # push_access p fa rest)"

definition build_indexes :: "model_routine \<Rightarrow> walk_indexes" where
  "build_indexes r =
     \<lparr> wi_op_by_id = fold (\<lambda>op m. m(mo_id op \<mapsto> op)) (mr_record_operations r) Map.empty,
       wi_call_by_id = fold (\<lambda>cs m. m(mc_id cs \<mapsto> cs)) (mr_call_sites r) Map.empty,
       wi_fa_by_pos = fold (\<lambda>fa. push_access (anchor_start (fa_source_anchor fa)) fa) (mr_field_accesses r) [] \<rparr>"

text \<open>The read-only arguments every step of a walk gets.\<close>

record walk_env =
  we_routine :: model_routine
  we_param :: param_ctx
  we_look :: callee_lookup
  we_upgraded :: "string \<rightharpoonup> upgraded_binding list"
  we_graph :: primary_graph
  we_idx :: walk_indexes

section \<open>Calls\<close>

definition binding_forwards :: "param_ctx \<Rightarrow> argument_binding \<Rightarrow> bool" where
  "binding_forwards p b \<longleftrightarrow>
     (px_rec_var_id p \<noteq> None \<and> px_rec_var_id p = ab_source_record_variable_id b) \<or>
     (case ab_source_variable_name b of None \<Rightarrow> False | Some n \<Rightarrow> to_lowercase n = px_name_lc p)"

definition upgraded_at :: "upgraded_binding list option \<Rightarrow> nat \<Rightarrow> upgraded_binding option" where
  "upgraded_at upgraded i =
     (case upgraded of None \<Rightarrow> None | Some ub \<Rightarrow> if i < length ub then Some (ub ! i) else None)"

definition resolution_at :: "upgraded_binding list option \<Rightarrow> nat \<Rightarrow> string" where
  "resolution_at upgraded i =
     (case upgraded_at upgraded i of Some ub \<Rightarrow> ub_binding_resolution ub | None \<Rightarrow> ''unresolved-callee'')"

definition forwarding_binding :: "param_ctx \<Rightarrow> upgraded_binding list option \<Rightarrow> model_call_site \<Rightarrow> (nat \<times> argument_binding) option" where
  "forwarding_binding p upgraded cs =
     List.find (\<lambda>(i, b). resolution_at upgraded i = ''resolved'' \<and> binding_forwards p b)
       (enumerate 0 (mc_argument_bindings cs))"

definition apply_call :: "walk_env \<Rightarrow> per_param_state \<Rightarrow> model_call_site \<Rightarrow> per_param_state" where
  "apply_call env s cs =
     (let pick = site_pick (we_graph env) (mr_id (we_routine env)) (mc_id cs) (we_upgraded env);
          upgraded = sc_bindings pick
      in case forwarding_binding (we_param env) upgraded cs of
           None \<Rightarrow> s
         | Some (i, b) \<Rightarrow>
             apply_callee_role s (sc_callee pick) (ab_parameter_index b)
               (ab_caller_source_parameter_is_var b = Some True)
               (case upgraded_at upgraded i of Some ub \<Rightarrow> ub_callee_parameter_is_var ub | None \<Rightarrow> False)
               False (we_look env))"

section \<open>Positions\<close>

text \<open>The anchors of the operations and call sites a subtree references, in the order of the scan.\<close>

definition own_anchors :: "walk_indexes \<Rightarrow> cfn_node \<Rightarrow> anchor list" where
  "own_anchors idx n =
     (case Option.bind (nd_operation_id n) (wi_op_by_id idx) of Some op \<Rightarrow> [mo_source_anchor op] | None \<Rightarrow> []) @
     (case Option.bind (nd_callsite_id n) (wi_call_by_id idx) of Some cs \<Rightarrow> [mc_source_anchor cs] | None \<Rightarrow> [])"

function leaf_anchors :: "walk_indexes \<Rightarrow> cfn_node \<Rightarrow> anchor list" where
  "leaf_anchors idx n =
     own_anchors idx n @ concat (map (leaf_anchors idx) (condition_leaves_of n)) @
     concat (map (leaf_anchors idx) (children_of n)) @ concat (map (leaf_anchors idx) (else_children_of n))"
  by pat_completeness auto
termination
  by (relation "measure (\<lambda>(idx, n). size n)") (auto intro: cfn_sizes)

declare leaf_anchors.simps [simp del]

fun least_of :: "'a::linorder list \<Rightarrow> 'a option" where
  "least_of [] = None"
| "least_of (x # xs) = Some (fold min xs x)"

fun greatest_of :: "'a::linorder list \<Rightarrow> 'a option" where
  "greatest_of [] = None"
| "greatest_of (x # xs) = Some (fold max xs x)"

definition node_start_pos :: "walk_indexes \<Rightarrow> cfn_node \<Rightarrow> position" where
  "node_start_pos idx n =
     (case nd_source_range n of
        Some (sl, sc, el, ec) \<Rightarrow> (sl, sc)
      | None \<Rightarrow> unwrap_or (- 1, - 1) (least_of (map anchor_start (leaf_anchors idx n))))"

definition node_range :: "walk_indexes \<Rightarrow> cfn_node \<Rightarrow> source_range option" where
  "node_range idx n =
     (if nd_source_range n \<noteq> None then nd_source_range n
      else
        (case (least_of (map anchor_start (leaf_anchors idx n)), greatest_of (map anchor_end (leaf_anchors idx n))) of
           (Some (sl, sc), Some (el, ec)) \<Rightarrow> Some (sl, sc, el, ec)
         | _ \<Rightarrow> None))"

definition child_recurses_into_fas :: "cfn_node \<Rightarrow> bool" where
  "child_recurses_into_fas c =
     (if nd_kind c \<in> {''op'', ''call'', ''exit'', ''error''} then False
      else if nd_kind c = ''other'' then children_of c \<noteq> []
      else True)"

definition falls_in_range :: "field_access \<Rightarrow> source_range \<Rightarrow> bool" where
  "falls_in_range fa = (\<lambda>(sl, sc, el, ec).
     (let l = start_line (fa_source_anchor fa); c = start_column (fa_source_anchor fa) in
      \<not> (l < sl \<or> l > el) \<and> \<not> (l = sl \<and> c < sc) \<and> \<not> (l = el \<and> c > ec)))"

definition param_field_accesses :: "walk_indexes \<Rightarrow> param_ctx \<Rightarrow> field_access list" where
  "param_field_accesses idx p =
     filter (\<lambda>fa. to_lowercase (fa_record_variable_name fa) = px_name_lc p)
       (concat (map (\<lambda>key. unwrap_or [] (map_of (wi_fa_by_pos idx) key)) (sort (map fst (wi_fa_by_pos idx)))))"

definition collect_field_accesses_in_block :: "cfn_node \<Rightarrow> cfn_node list \<Rightarrow> param_ctx \<Rightarrow> walk_indexes \<Rightarrow> field_access list" where
  "collect_field_accesses_in_block block children p idx =
     (let block_range = node_range idx block;
          recursive_ranges = List.map_filter (node_range idx) (filter child_recurses_into_fas children)
      in filter (\<lambda>fa.
           (case block_range of None \<Rightarrow> True | Some r \<Rightarrow> falls_in_range fa r) \<and>
           \<not> list_ex (falls_in_range fa) recursive_ranges) (param_field_accesses idx p))"

datatype block_event = Ev_Child cfn_node position | Ev_Fa field_access position

fun event_position :: "block_event \<Rightarrow> position" where
  "event_position (Ev_Child _ p) = p"
| "event_position (Ev_Fa _ p) = p"

text \<open>The statements of a block and the field accesses it owns, in source order (a stable sort).\<close>

definition block_events :: "walk_env \<Rightarrow> cfn_node \<Rightarrow> block_event list" where
  "block_events env n =
     (let children = children_of n;
          fas = collect_field_accesses_in_block n children (we_param env) (we_idx env)
      in sort_key event_position
           (map (\<lambda>c. Ev_Child c (node_start_pos (we_idx env) c)) children @
            map (\<lambda>fa. Ev_Fa fa (anchor_start (fa_source_anchor fa))) fas))"

section \<open>The recursive walk\<close>

definition LOOP_BOUND :: nat where
  "LOOP_BOUND = 3"

definition MAX_CFG_WALK_DEPTH :: nat where
  "MAX_CFG_WALK_DEPTH = 32"

datatype reach = R_Normal | R_Abrupt

record loop_frame =
  lf_breaks :: "per_param_state list"
  lf_continues :: "per_param_state list"

text \<open>
  The collectors: the exit states, and the loop stack with the innermost loop first. A step of the
  walk takes a node and the state before it, and returns the state after it and whether control can
  fall through.
\<close>

type_synonym collectors = "per_param_state list \<times> loop_frame list"
type_synonym walk_step = "cfn_node \<Rightarrow> per_param_state \<Rightarrow> collectors \<Rightarrow> (per_param_state \<times> reach) \<times> collectors"

definition push_exit :: "per_param_state \<Rightarrow> collectors \<Rightarrow> collectors" where
  "push_exit s = (\<lambda>(exits, loops). (exits @ [s], loops))"

definition push_loop_frame :: "collectors \<Rightarrow> collectors" where
  "push_loop_frame = (\<lambda>(exits, loops). (exits, \<lparr> lf_breaks = [], lf_continues = [] \<rparr> # loops))"

text \<open>\<open>loop_stack.last_mut()\<close>: without an enclosing loop nothing is recorded.\<close>

definition on_frame :: "(loop_frame \<Rightarrow> loop_frame) \<Rightarrow> collectors \<Rightarrow> collectors" where
  "on_frame f = (\<lambda>(exits, loops). (exits, case loops of [] \<Rightarrow> [] | F # rest \<Rightarrow> f F # rest))"

definition push_break :: "per_param_state \<Rightarrow> collectors \<Rightarrow> collectors" where
  "push_break s = on_frame (\<lambda>F. F \<lparr> lf_breaks := lf_breaks F @ [s] \<rparr>)"

definition push_continue :: "per_param_state \<Rightarrow> collectors \<Rightarrow> collectors" where
  "push_continue s = on_frame (\<lambda>F. F \<lparr> lf_continues := lf_continues F @ [s] \<rparr>)"

definition clear_continues :: "collectors \<Rightarrow> collectors" where
  "clear_continues = on_frame (\<lambda>F. F \<lparr> lf_continues := [] \<rparr>)"

definition frame_continues :: "collectors \<Rightarrow> per_param_state list" where
  "frame_continues w = (case snd w of [] \<Rightarrow> [] | F # _ \<Rightarrow> lf_continues F)"

definition frame_breaks :: "collectors \<Rightarrow> per_param_state list" where
  "frame_breaks w = (case snd w of [] \<Rightarrow> [] | F # _ \<Rightarrow> lf_breaks F)"

definition pop_frame :: "collectors \<Rightarrow> collectors" where
  "pop_frame w = (fst w, tl (snd w))"

text \<open>Condition leaves run in order; their reach is ignored.\<close>

fun cfg_leaves :: "walk_step \<Rightarrow> cfn_node list \<Rightarrow> per_param_state \<Rightarrow> collectors \<Rightarrow> per_param_state \<times> collectors" where
  "cfg_leaves step [] s w = (s, w)"
| "cfg_leaves step (n # ns) s w = (let ((post, reach), w) = step n s w in cfg_leaves step ns post w)"

definition apply_condition_leaves ::
  "walk_step \<Rightarrow> cfn_node list option \<Rightarrow> per_param_state \<Rightarrow> collectors \<Rightarrow> per_param_state \<times> collectors" where
  "apply_condition_leaves step cond_leaves pre w =
     (case cond_leaves of None \<Rightarrow> (pre, w) | Some ls \<Rightarrow> cfg_leaves step ls pre w)"

text \<open>A sequence of statements, up to the first that cannot fall through.\<close>

fun cfg_seq :: "walk_step \<Rightarrow> cfn_node list \<Rightarrow> per_param_state \<Rightarrow> collectors \<Rightarrow> (per_param_state \<times> reach) \<times> collectors" where
  "cfg_seq step [] s w = ((s, R_Normal), w)"
| "cfg_seq step (n # ns) s w =
     (let ((post, reach), w) = step n s w in
      if reach = R_Abrupt then ((post, reach), w) else cfg_seq step ns post w)"

fun cfg_events ::
  "walk_step \<Rightarrow> param_ctx \<Rightarrow> block_event list \<Rightarrow> per_param_state \<Rightarrow> collectors \<Rightarrow> (per_param_state \<times> reach) \<times> collectors" where
  "cfg_events step p [] s w = ((s, R_Normal), w)"
| "cfg_events step p (Ev_Child c _ # evs) s w =
     (let ((post, reach), w) = step c s w in
      if reach = R_Abrupt then ((post, reach), w) else cfg_events step p evs post w)"
| "cfg_events step p (Ev_Fa fa _ # evs) s w = cfg_events step p evs (apply_field_read s fa p) w"

definition cfg_arm :: "walk_step \<Rightarrow> cfn_node option \<Rightarrow> per_param_state \<Rightarrow> collectors \<Rightarrow> (per_param_state \<times> reach) \<times> collectors" where
  "cfg_arm step branch pre_branch w =
     (case branch of Some b \<Rightarrow> step b pre_branch w | None \<Rightarrow> ((pre_branch, R_Normal), w))"

fun merge_arms :: "per_param_state \<times> reach \<Rightarrow> per_param_state \<times> reach \<Rightarrow> per_param_state \<times> reach" where
  "merge_arms (s, R_Normal) (t, R_Normal) = (join_states s t, R_Normal)"
| "merge_arms (s, R_Normal) (t, R_Abrupt) = (s, R_Normal)"
| "merge_arms (s, R_Abrupt) (t, R_Normal) = (t, R_Normal)"
| "merge_arms (s, R_Abrupt) (t, R_Abrupt) = (join_states s t, R_Abrupt)"

definition cfg_if ::
  "walk_step \<Rightarrow> cfn_node option \<Rightarrow> cfn_node option \<Rightarrow> per_param_state \<Rightarrow> collectors \<Rightarrow> (per_param_state \<times> reach) \<times> collectors" where
  "cfg_if step then_branch else_branch pre_branch w =
     (let (t, w) = cfg_arm step then_branch pre_branch w;
          (e, w) = cfg_arm step else_branch pre_branch w
      in (merge_arms t e, w))"

text \<open>The branches of a case, joined over those that fall through.\<close>

fun cfg_branches ::
  "walk_step \<Rightarrow> cfn_node list \<Rightarrow> per_param_state \<Rightarrow> per_param_state option \<Rightarrow> collectors \<Rightarrow> per_param_state option \<times> collectors" where
  "cfg_branches step [] pre_branch acc w = (acc, w)"
| "cfg_branches step (c # cs) pre_branch acc w =
     (let ((post, reach), w) = step c pre_branch w
      in cfg_branches step cs pre_branch (if reach = R_Normal then join_into post acc else acc) w)"

definition cfg_case ::
  "walk_step \<Rightarrow> cfn_node list \<Rightarrow> per_param_state \<Rightarrow> collectors \<Rightarrow> (per_param_state \<times> reach) \<times> collectors" where
  "cfg_case step branches pre_branch w =
     (let has_else = list_ex nd_is_case_else branches;
          (acc, w) = cfg_branches step branches pre_branch None w
      in (case acc of
            None \<Rightarrow> (pre_branch, if has_else then R_Abrupt else R_Normal)
          | Some a \<Rightarrow> (if has_else then a else join_states a pre_branch, R_Normal), w))"

text \<open>The state that enters a loop's condition check: the body's own end and its \<open>continue\<close>s.\<close>

definition fold_continue_states ::
  "reach \<Rightarrow> per_param_state \<Rightarrow> per_param_state \<Rightarrow> per_param_state list \<Rightarrow> per_param_state" where
  "fold_continue_states body_reach body_post_raw body_pre continues =
     unwrap_or body_pre (fold join_into continues (if body_reach = R_Normal then Some body_post_raw else None))"

text \<open>The rounds of a loop: \<open>Some\<close> the fixed point, or \<open>None\<close> and the last state when none is reached.\<close>

fun loop_rounds ::
  "nat \<Rightarrow> (per_param_state \<Rightarrow> collectors \<Rightarrow> (per_param_state \<times> reach) \<times> collectors) \<Rightarrow>
     (per_param_state \<Rightarrow> collectors \<Rightarrow> per_param_state \<times> collectors) \<Rightarrow> per_param_state \<Rightarrow> collectors \<Rightarrow>
     (per_param_state option \<times> per_param_state) \<times> collectors" where
  "loop_rounds 0 body check body_pre w = ((None, body_pre), w)"
| "loop_rounds (Suc k) body check body_pre w =
     (let ((raw, reach), w) = body body_pre (clear_continues w);
          (next_iter_pre, w) = check (fold_continue_states reach raw body_pre (frame_continues w)) w;
          joined = join_states body_pre next_iter_pre
      in if joined = body_pre then ((Some joined, body_pre), w)
         else loop_rounds k body check joined w)"

definition cfg_loop ::
  "walk_step \<Rightarrow> cfn_node \<Rightarrow> cfn_node list option \<Rightarrow> per_param_state \<Rightarrow> collectors \<Rightarrow> (per_param_state \<times> reach) \<times> collectors" where
  "cfg_loop step body_node cond_leaves pre w =
     (let ((fixpoint, body_pre), w) =
            loop_rounds LOOP_BOUND (step body_node) (apply_condition_leaves step cond_leaves) pre (push_loop_frame w);
          exit_state = (case fixpoint of Some s \<Rightarrow> s | None \<Rightarrow> saturate_unknown body_pre)
      in ((fold (\<lambda>b s. join_states s b) (frame_breaks w) exit_state, R_Normal), pop_frame w))"

text \<open>One node, with the walk of the nodes below it.\<close>

definition walk_one :: "walk_step \<Rightarrow> walk_env \<Rightarrow> walk_step" where
  "walk_one step env n pre w =
     (let cond_leaves = apply_condition_leaves step (nd_condition_leaves n) in
      if nd_kind n = ''block'' then cfg_events step (we_param env) (block_events env n) pre w
      else if nd_kind n = ''if'' then
        (let (pre_branch, w) = cond_leaves pre w
         in cfg_if step (first_of (children_of n)) (first_of (else_children_of n)) pre_branch w)
      else if nd_kind n = ''case'' then
        (let (pre_branch, w) = cond_leaves pre w in cfg_case step (children_of n) pre_branch w)
      else if nd_kind n = ''case-branch'' then cfg_seq step (children_of n) pre w
      else if nd_kind n \<in> {''while'', ''for'', ''foreach''} then
        (let (pre_cond, w) = cond_leaves pre w in
         case first_of (children_of n) of
           None \<Rightarrow> ((pre_cond, R_Normal), w)
         | Some body \<Rightarrow> cfg_loop step body (nd_condition_leaves n) pre_cond w)
      else if nd_kind n = ''repeat'' then
        (if children_of n = [] then (let (post, w) = cond_leaves pre w in ((post, R_Normal), w))
         else cfg_loop step (synthetic_block n) (nd_condition_leaves n) pre w)
      else if nd_kind n = ''break'' then ((pre, R_Abrupt), push_break pre w)
      else if nd_kind n = ''continue'' then ((pre, R_Abrupt), push_continue pre w)
      else if nd_kind n \<in> {''exit'', ''error''} then
        (let (post, w) = cond_leaves pre w in ((post, R_Normal), push_exit post w))
      else if nd_kind n = ''op'' then
        (let (pre_op, w) = cond_leaves pre w in
         ((case Option.bind (nd_operation_id n) (wi_op_by_id (we_idx env)) of
             Some op \<Rightarrow> apply_op pre_op op (we_param env) | None \<Rightarrow> pre_op, R_Normal), w))
      else if nd_kind n = ''call'' then
        (let (pre_call, w) = cond_leaves pre w in
         ((case Option.bind (nd_callsite_id n) (wi_call_by_id (we_idx env)) of
             Some cs \<Rightarrow> apply_call env pre_call cs | None \<Rightarrow> pre_call, R_Normal), w))
      else if nd_kind n = ''try'' then
        (let sat = saturate_unknown pre in ((sat, R_Normal), push_exit sat w))
      else (let (state, w) = cond_leaves pre w in cfg_seq step (children_of n) state w))"

text \<open>\<open>walk_cfg d\<close> is the walk with \<open>d\<close> levels left: at depth \<open>k\<close> these are \<open>MAX_CFG_WALK_DEPTH + 1 - k\<close>.\<close>

primrec walk_cfg :: "nat \<Rightarrow> walk_env \<Rightarrow> walk_step" where
  "walk_cfg 0 env = (\<lambda>n pre w. ((saturate_unknown pre, R_Normal), w))"
| "walk_cfg (Suc d) env = walk_one (walk_cfg d env) env"

section \<open>The flat walk\<close>

datatype flat_event = Fl_Op model_record_operation | Fl_Field field_access | Fl_Call model_call_site

fun flat_position :: "flat_event \<Rightarrow> position" where
  "flat_position (Fl_Op op) = anchor_start (mo_source_anchor op)"
| "flat_position (Fl_Field fa) = anchor_start (fa_source_anchor fa)"
| "flat_position (Fl_Call cs) = anchor_start (mc_source_anchor cs)"

definition flat_events :: "walk_env \<Rightarrow> flat_event list" where
  "flat_events env =
     (let r = we_routine env; p = we_param env in
      sort_key flat_position
        (map Fl_Op (filter (\<lambda>op. op_affects_param op p) (mr_record_operations r)) @
         map Fl_Field (filter (\<lambda>fa. to_lowercase (fa_record_variable_name fa) = px_name_lc p) (mr_field_accesses r)) @
         map Fl_Call (filter (\<lambda>cs. forwarding_binding p (we_upgraded env (mc_id cs)) cs \<noteq> None) (mr_call_sites r))))"

fun apply_flat :: "walk_env \<Rightarrow> flat_event \<Rightarrow> per_param_state \<Rightarrow> per_param_state" where
  "apply_flat env (Fl_Op op) s = apply_op s op (we_param env)"
| "apply_flat env (Fl_Field fa) s = apply_field_read s fa (we_param env)"
| "apply_flat env (Fl_Call cs) s = apply_call env s cs"

definition walk_flat :: "walk_env \<Rightarrow> per_param_state \<Rightarrow> per_param_state" where
  "walk_flat env pre = fold (apply_flat env) (flat_events env) pre"

section \<open>The facts of a parameter\<close>

record path_aware_facts =
  pf_requires_loaded_at_entry :: effect_presence
  pf_mutates_before_load :: effect_presence
  pf_required_loaded_fields_at_entry :: field_list
  pf_dirty_at_exit :: effect_presence
  pf_current_loaded_fields_at_exit :: field_list

definition required_field_list :: "required_fields \<Rightarrow> field_list" where
  "required_field_list r = (case r of RF_Unknown \<Rightarrow> FL_Unknown | RF_Set v \<Rightarrow> FL_Known (sort v))"

text \<open>The facts of the states a body can end in.\<close>

definition exit_facts :: "per_param_state list \<Rightarrow> path_aware_facts" where
  "exit_facts states =
     \<lparr> pf_requires_loaded_at_entry = fold (\<lambda>s v. join_presence v (pp_requires_loaded_at_entry s)) states PNo,
       pf_mutates_before_load = fold (\<lambda>s v. join_presence v (pp_mutates_before_load s)) states PNo,
       pf_required_loaded_fields_at_entry =
         required_field_list (fold (\<lambda>s v. join_required_fields v (pp_required_fields s)) states (RF_Set [])),
       pf_dirty_at_exit = compute_dirty_at_exit states,
       pf_current_loaded_fields_at_exit = compute_current_loaded_at_exit states \<rparr>"

definition walk_ends :: "walk_env \<Rightarrow> per_param_state list" where
  "walk_ends env =
     (case mr_statement_tree (we_routine env) of
        Some tree \<Rightarrow>
          (let ((final_state, reach), (exits, loops)) =
                 walk_cfg (MAX_CFG_WALK_DEPTH + 1) env tree initial_state ([], [])
           in exits @ [final_state])
      | None \<Rightarrow> [walk_flat env initial_state])"

definition walk_param :: "walk_env \<Rightarrow> param_dispatch option \<Rightarrow> path_aware_facts" where
  "walk_param env dispatch =
     (let states = walk_ends env;
          states = (case dispatch of Some pd \<Rightarrow> map (\<lambda>s. apply_dispatch s pd (we_look env)) states | None \<Rightarrow> states)
      in exit_facts states)"

end
