(* ===== verification/Role_Relations.thy ===== *)
theory Role_Relations
  imports Role_State
begin

text \<open>
  The transfers of the record-parameter walker (\<open>src/src/engine/l4/cfg_walker.rs\<close>, defined in
  \<open>Role_State\<close>) treat the components of the state apart, and monotonically. From that one fact
  follow the relations between states a whole walk keeps: the order of states, equality up to the
  order of field lists, equality of single components, and a shift of the entry requirements.
\<close>

section \<open>Separable transfers\<close>

text \<open>
  Every transfer treats the components apart: the loaded state, the dirtiness and the pending
  narrowing follow from their own value, the loaded fields also from the narrowing, and the entry
  requirements only grow, by an amount the loaded state decides. All of it is monotone.
\<close>

definition same_fields :: "required_fields \<Rightarrow> required_fields \<Rightarrow> bool" where
  "same_fields a b \<longleftrightarrow> fields_le a b \<and> fields_le b a"

definition separable :: "(per_param_state \<Rightarrow> per_param_state) \<Rightarrow> bool" where
  "separable t \<longleftrightarrow>
     (\<exists>fl fd fp fc r m q.
        mono fl \<and> mono fd \<and> mono fp \<and> (\<forall>p p' c c'. p \<le> p' \<longrightarrow> c \<le> c' \<longrightarrow> fc p c \<le> fc p' c') \<and>
        mono r \<and> mono m \<and> (\<forall>l l'. l \<le> l' \<longrightarrow> fields_le (q l) (q l')) \<and>
        (\<forall>s. pp_loaded (t s) = fl (pp_loaded s) \<and> pp_dirty (t s) = fd (pp_dirty s) \<and>
             pp_pending_narrow (t s) = fp (pp_pending_narrow s) \<and>
             pp_current_loaded_fields (t s) = fc (pp_pending_narrow s) (pp_current_loaded_fields s) \<and>
             pp_requires_loaded_at_entry (t s) = max (pp_requires_loaded_at_entry s) (r (pp_loaded s)) \<and>
             pp_mutates_before_load (t s) = max (pp_mutates_before_load s) (m (pp_loaded s)) \<and>
             same_fields (pp_required_fields (t s)) (join_required_fields (pp_required_fields s) (q (pp_loaded s)))))"

lemma same_fields_refl [simp]: "same_fields a a"
  by (simp add: same_fields_def)

lemma same_fields_sym: "same_fields a b \<Longrightarrow> same_fields b a"
  by (simp add: same_fields_def)

lemma same_fields_trans: "same_fields a b \<Longrightarrow> same_fields b c \<Longrightarrow> same_fields a c"
  by (auto simp: same_fields_def intro: fields_le_trans)

lemma join_fields_mono: "fields_le a c \<Longrightarrow> fields_le b d \<Longrightarrow> fields_le (join_required_fields a b) (join_required_fields c d)"
  by (meson fields_le_trans join_fields_least join_fields_upper)

lemma join_fields_cong: "same_fields a c \<Longrightarrow> same_fields b d \<Longrightarrow> same_fields (join_required_fields a b) (join_required_fields c d)"
  by (simp add: same_fields_def join_fields_mono)

lemma same_fields_none [simp]:
  "same_fields fs (join_required_fields fs (RF_Set []))" "fields_le (join_required_fields fs (RF_Set [])) fs"
  by (cases fs; simp add: same_fields_def)+

lemma join_fields_assoc: "same_fields (join_required_fields (join_required_fields a b) c) (join_required_fields a (join_required_fields b c))"
  by (cases a; cases b; cases c) (auto simp: same_fields_def)

lemma PNo_PYes [simp]: "PNo \<le> p" "p \<le> PYes" "max p PNo = p" "max p PYes = PYes"
  by (cases p; simp add: less_eq_effect_presence_def max_def)+

lemma separable_id: "separable (\<lambda>s. s)"
  unfolding separable_def
proof (intro exI conjI allI)
  fix s
  show "pp_requires_loaded_at_entry s = max (pp_requires_loaded_at_entry s) ((\<lambda>_. PNo) (pp_loaded s))"
    "pp_mutates_before_load s = max (pp_mutates_before_load s) ((\<lambda>_. PNo) (pp_loaded s))"
    by simp_all
  show "same_fields (pp_required_fields s) (join_required_fields (pp_required_fields s) ((\<lambda>_. RF_Set []) (pp_loaded s)))"
    by (cases "pp_required_fields s") (simp_all add: same_fields_def)
qed (auto simp: mono_def)

lemma mono_comp: "mono f \<Longrightarrow> mono g \<Longrightarrow> mono (\<lambda>x. f (g x))"
  by (simp add: mono_def)

lemma mono_max_comp:
  fixes f :: "'a :: order \<Rightarrow> 'b :: linorder"
  assumes "mono f" "mono g" "mono h"
  shows "mono (\<lambda>l. max (f l) (g (h l)))"
proof (rule monoI)
  fix x y :: 'a
  assume "x \<le> y"
  then have "f x \<le> f y" "g (h x) \<le> g (h y)" using assms by (auto dest: monoD)
  then show "max (f x) (g (h x)) \<le> max (f y) (g (h y))" by (rule max.mono)
qed

lemma separableE:
  assumes "separable t"
  obtains fl fd fp fc r m q where "mono fl" "mono fd" "mono fp"
    and "\<And>p p' c c'. p \<le> p' \<Longrightarrow> c \<le> c' \<Longrightarrow> fc p c \<le> fc p' c'" and "mono r" "mono m"
    and "\<And>l l'. l \<le> l' \<Longrightarrow> fields_le (q l) (q l')"
    and "\<And>s. pp_loaded (t s) = fl (pp_loaded s)" "\<And>s. pp_dirty (t s) = fd (pp_dirty s)"
    and "\<And>s. pp_pending_narrow (t s) = fp (pp_pending_narrow s)"
    and "\<And>s. pp_current_loaded_fields (t s) = fc (pp_pending_narrow s) (pp_current_loaded_fields s)"
    and "\<And>s. pp_requires_loaded_at_entry (t s) = max (pp_requires_loaded_at_entry s) (r (pp_loaded s))"
    and "\<And>s. pp_mutates_before_load (t s) = max (pp_mutates_before_load s) (m (pp_loaded s))"
    and "\<And>s. same_fields (pp_required_fields (t s)) (join_required_fields (pp_required_fields s) (q (pp_loaded s)))"
proof -
  from assms obtain fl fd fp fc r m q where t: "mono fl" "mono fd" "mono fp"
      "\<forall>p p' c c'. p \<le> p' \<longrightarrow> c \<le> c' \<longrightarrow> fc p c \<le> fc p' c'" "mono r" "mono m"
      "\<forall>l l'. l \<le> l' \<longrightarrow> fields_le (q l) (q l')"
      "\<forall>s. pp_loaded (t s) = fl (pp_loaded s) \<and> pp_dirty (t s) = fd (pp_dirty s) \<and>
             pp_pending_narrow (t s) = fp (pp_pending_narrow s) \<and>
             pp_current_loaded_fields (t s) = fc (pp_pending_narrow s) (pp_current_loaded_fields s) \<and>
             pp_requires_loaded_at_entry (t s) = max (pp_requires_loaded_at_entry s) (r (pp_loaded s)) \<and>
             pp_mutates_before_load (t s) = max (pp_mutates_before_load s) (m (pp_loaded s)) \<and>
             same_fields (pp_required_fields (t s)) (join_required_fields (pp_required_fields s) (q (pp_loaded s)))"
    unfolding separable_def by blast
  show thesis
    by (rule that [of fl fd fp fc r m q]) (simp_all add: t)
qed

lemma separable_comp:
  assumes "separable t" "separable u"
  shows "separable (\<lambda>s. u (t s))"
proof -
  from assms(1) obtain fl fd fp fc r m q where t: "mono fl" "mono fd" "mono fp"
    "\<And>p p' c c'. p \<le> p' \<Longrightarrow> c \<le> c' \<Longrightarrow> fc p c \<le> fc p' c'" "mono r" "mono m"
    "\<And>l l'. l \<le> l' \<Longrightarrow> fields_le (q l) (q l')"
    "\<And>s. pp_loaded (t s) = fl (pp_loaded s)" "\<And>s. pp_dirty (t s) = fd (pp_dirty s)"
    "\<And>s. pp_pending_narrow (t s) = fp (pp_pending_narrow s)"
    "\<And>s. pp_current_loaded_fields (t s) = fc (pp_pending_narrow s) (pp_current_loaded_fields s)"
    "\<And>s. pp_requires_loaded_at_entry (t s) = max (pp_requires_loaded_at_entry s) (r (pp_loaded s))"
    "\<And>s. pp_mutates_before_load (t s) = max (pp_mutates_before_load s) (m (pp_loaded s))"
    "\<And>s. same_fields (pp_required_fields (t s)) (join_required_fields (pp_required_fields s) (q (pp_loaded s)))"
    by (rule separableE) blast
  from assms(2) obtain fl' fd' fp' fc' r' m' q' where u: "mono fl'" "mono fd'" "mono fp'"
    "\<And>p p' c c'. p \<le> p' \<Longrightarrow> c \<le> c' \<Longrightarrow> fc' p c \<le> fc' p' c'" "mono r'" "mono m'"
    "\<And>l l'. l \<le> l' \<Longrightarrow> fields_le (q' l) (q' l')"
    "\<And>s. pp_loaded (u s) = fl' (pp_loaded s)" "\<And>s. pp_dirty (u s) = fd' (pp_dirty s)"
    "\<And>s. pp_pending_narrow (u s) = fp' (pp_pending_narrow s)"
    "\<And>s. pp_current_loaded_fields (u s) = fc' (pp_pending_narrow s) (pp_current_loaded_fields s)"
    "\<And>s. pp_requires_loaded_at_entry (u s) = max (pp_requires_loaded_at_entry s) (r' (pp_loaded s))"
    "\<And>s. pp_mutates_before_load (u s) = max (pp_mutates_before_load s) (m' (pp_loaded s))"
    "\<And>s. same_fields (pp_required_fields (u s)) (join_required_fields (pp_required_fields s) (q' (pp_loaded s)))"
    by (rule separableE) blast
  have req: "same_fields (pp_required_fields (u (t s)))
      (join_required_fields (pp_required_fields s) (join_required_fields (q (pp_loaded s)) (q' (fl (pp_loaded s)))))" for s
  proof -
    have "same_fields (pp_required_fields (u (t s)))
        (join_required_fields (join_required_fields (pp_required_fields s) (q (pp_loaded s))) (q' (fl (pp_loaded s))))"
      using u(14) [of "t s"] t(14) [of s] unfolding t(8)
      by (blast intro: same_fields_trans join_fields_cong same_fields_refl)
    then show ?thesis by (rule same_fields_trans) (rule join_fields_assoc)
  qed
  show ?thesis
    unfolding separable_def
  proof (intro exI conjI allI)
    fix s
    show "same_fields (pp_required_fields (u (t s))) (join_required_fields (pp_required_fields s)
        ((\<lambda>l. join_required_fields (q l) (q' (fl l))) (pp_loaded s)))" using req by simp
    show "pp_loaded (u (t s)) = (fl' \<circ> fl) (pp_loaded s)" "pp_dirty (u (t s)) = (fd' \<circ> fd) (pp_dirty s)"
      "pp_pending_narrow (u (t s)) = (fp' \<circ> fp) (pp_pending_narrow s)"
      "pp_current_loaded_fields (u (t s)) = (\<lambda>p c. fc' (fp p) (fc p c)) (pp_pending_narrow s) (pp_current_loaded_fields s)"
      "pp_requires_loaded_at_entry (u (t s)) = max (pp_requires_loaded_at_entry s) ((\<lambda>l. max (r l) (r' (fl l))) (pp_loaded s))"
      "pp_mutates_before_load (u (t s)) = max (pp_mutates_before_load s) ((\<lambda>l. max (m l) (m' (fl l))) (pp_loaded s))"
      by (simp_all add: t(8-13) u(8-13) max.assoc)
  next
    show "mono (fl' \<circ> fl)" "mono (fd' \<circ> fd)" "mono (fp' \<circ> fp)"
      using t(1-3) u(1-3) by (simp_all add: monotone_on_o)
    show "mono (\<lambda>l. max (r l) (r' (fl l)))" "mono (\<lambda>l. max (m l) (m' (fl l)))"
      using t(1,5,6) u(5,6) by (simp_all add: mono_max_comp)
  next
    fix p p' :: pending_narrow and c c' :: loaded_fields
    show "p \<le> p' \<longrightarrow> c \<le> c' \<longrightarrow> fc' (fp p) (fc p c) \<le> fc' (fp p') (fc p' c')"
      using t(3,4) u(4) by (simp add: mono_def)
  next
    fix l l' :: loaded
    show "l \<le> l' \<longrightarrow> fields_le (join_required_fields (q l) (q' (fl l))) (join_required_fields (q l') (q' (fl l')))"
      using t(1,7) u(7) by (simp add: mono_def join_fields_mono)
  qed
qed

lemma separable_if: "separable t \<Longrightarrow> separable u \<Longrightarrow> separable (\<lambda>s. if b then t s else u s)"
  by (cases b) simp_all

text \<open>A transfer given by what it does to each component.\<close>

lemma separableI:
  assumes "mono fl" "mono fd" "mono fp" "\<And>p p' c c'. p \<le> p' \<Longrightarrow> c \<le> c' \<Longrightarrow> fc p c \<le> fc p' c'"
    and "mono r" "mono m" "\<And>l l'. l \<le> l' \<Longrightarrow> fields_le (q l) (q l')"
    and "\<And>s. pp_loaded (t s) = fl (pp_loaded s)" "\<And>s. pp_dirty (t s) = fd (pp_dirty s)"
    and "\<And>s. pp_pending_narrow (t s) = fp (pp_pending_narrow s)"
    and "\<And>s. pp_current_loaded_fields (t s) = fc (pp_pending_narrow s) (pp_current_loaded_fields s)"
    and "\<And>s. pp_requires_loaded_at_entry (t s) = max (pp_requires_loaded_at_entry s) (r (pp_loaded s))"
    and "\<And>s. pp_mutates_before_load (t s) = max (pp_mutates_before_load s) (m (pp_loaded s))"
    and "\<And>s. same_fields (pp_required_fields (t s)) (join_required_fields (pp_required_fields s) (q (pp_loaded s)))"
  shows "separable t"
  unfolding separable_def
  by (rule exI [of _ fl], rule exI [of _ fd], rule exI [of _ fp], rule exI [of _ fc], rule exI [of _ r],
      rule exI [of _ m], rule exI [of _ q]) (simp add: assms)

lemma mono_const [simp]: "mono (\<lambda>_ :: 'a :: order. c :: 'b :: order)" "mono (\<lambda>x :: 'a :: order. x)"
  by (simp_all add: mono_def)

text \<open>An entry requirement that only an unloaded record adds.\<close>

definition unless_loaded :: "'a \<Rightarrow> 'a \<Rightarrow> loaded \<Rightarrow> 'a" where
  "unless_loaded none some l = (if l = L_Yes then none else some)"

lemma unless_loaded_mono [simp]: "mono (unless_loaded PNo p)"
  by (auto simp: mono_def unless_loaded_def less_eq_loaded_def)

lemma unless_loaded_fields: "l \<le> l' \<Longrightarrow> fields_le (unless_loaded (RF_Set []) fs l) (unless_loaded (RF_Set []) fs l')"
  by (cases fs) (auto simp: unless_loaded_def less_eq_loaded_def)

lemma separable_add_entry:
  assumes "\<And>s. t s = (if pp_loaded s \<noteq> L_Yes
      then s \<lparr> pp_requires_loaded_at_entry := max (pp_requires_loaded_at_entry s) r,
             pp_mutates_before_load := max (pp_mutates_before_load s) m,
             pp_required_fields := req (pp_required_fields s) \<rparr> else s)"
    and "\<And>fs. same_fields (req fs) (join_required_fields fs q)"
  shows "separable t"
proof (rule separableI [where fl = "\<lambda>l. l" and fd = "\<lambda>d. d" and fp = "\<lambda>p. p" and fc = "\<lambda>p c. c"
        and r = "unless_loaded PNo r" and m = "unless_loaded PNo m" and q = "unless_loaded (RF_Set []) q"])
  fix s
  show "pp_requires_loaded_at_entry (t s) = max (pp_requires_loaded_at_entry s) (unless_loaded PNo r (pp_loaded s))"
    "pp_mutates_before_load (t s) = max (pp_mutates_before_load s) (unless_loaded PNo m (pp_loaded s))"
    "same_fields (pp_required_fields (t s)) (join_required_fields (pp_required_fields s) (unless_loaded (RF_Set []) q (pp_loaded s)))"
    by (simp_all add: assms unless_loaded_def)
qed (simp_all add: assms(1) unless_loaded_fields)

text \<open>A transfer that leaves the entry requirements alone.\<close>

lemma separable_set:
  assumes "\<And>s. t s = s \<lparr> pp_loaded := fl (pp_loaded s), pp_dirty := fd (pp_dirty s),
      pp_pending_narrow := fp (pp_pending_narrow s),
      pp_current_loaded_fields := fc (pp_pending_narrow s) (pp_current_loaded_fields s) \<rparr>"
    and "mono fl" "mono fd" "mono fp" "\<And>p p' c c'. p \<le> p' \<Longrightarrow> c \<le> c' \<Longrightarrow> fc p c \<le> fc p' c'"
  shows "separable t"
  by (rule separableI [where fl = fl and fd = fd and fp = fp and fc = fc
        and r = "\<lambda>_. PNo" and m = "\<lambda>_. PNo" and q = "\<lambda>_. RF_Set []"])
    (auto simp: assms)

lemma separable_opaque: "separable (\<lambda>s. opaque_transfer s cv ev d)"
proof -
  let ?entry = "\<lambda>s. if pp_loaded s \<noteq> L_Yes
      then s \<lparr> pp_requires_loaded_at_entry := max (pp_requires_loaded_at_entry s) PUnknown,
             pp_mutates_before_load := max (pp_mutates_before_load s) PUnknown,
             pp_required_fields := (if d then RF_Unknown else pp_required_fields s) \<rparr> else s"
  let ?lose = "\<lambda>s. s \<lparr> pp_loaded := L_Unknown, pp_dirty := D_Unknown, pp_pending_narrow := PN_Unknown,
                pp_current_loaded_fields := LF_Unknown \<rparr>"
  have "separable ?entry"
    by (rule separable_add_entry [where q = "if d then RF_Unknown else RF_Set []"
          and req = "\<lambda>fs. if d then RF_Unknown else fs" and r = PUnknown and m = PUnknown])
      (simp_all add: same_fields_def join_fields_upper)
  moreover have "separable ?lose"
    by (rule separable_set [where fl = "\<lambda>_. L_Unknown" and fd = "\<lambda>_. D_Unknown" and fp = "\<lambda>_. PN_Unknown"
          and fc = "\<lambda>_ _. LF_Unknown"]) simp_all
  ultimately have "separable (\<lambda>s. if cv \<and> ev then ?lose (?entry s) else ?entry s)"
    by (intro separable_if separable_comp [of ?entry ?lose])
  moreover have "(\<lambda>s. if cv \<and> ev then ?lose (?entry s) else ?entry s) = (\<lambda>s. opaque_transfer s cv ev d)"
    by (rule ext) (simp add: opaque_transfer_def join_presence_max Let_def)
  ultimately show ?thesis by simp
qed

lemma separable_compose_entry: "separable (compose_entry cr)"
proof (rule separable_add_entry [where req = "required_after (rr_required_loaded_fields_at_entry cr)"
      and r = "rr_requires_loaded_at_entry cr" and m = "rr_mutates_before_load cr"
      and q = "case rr_required_loaded_fields_at_entry cr of FL_Unknown \<Rightarrow> RF_Unknown | FL_Known gs \<Rightarrow> RF_Set gs | FL_Full \<Rightarrow> RF_Set []"])
  show "same_fields (required_after (rr_required_loaded_fields_at_entry cr) fs)
      (join_required_fields fs (case rr_required_loaded_fields_at_entry cr of FL_Unknown \<Rightarrow> RF_Unknown | FL_Known gs \<Rightarrow> RF_Set gs | FL_Full \<Rightarrow> RF_Set []))" for fs
    by (cases fs; cases "rr_required_loaded_fields_at_entry cr") (simp_all add: required_after_def same_fields_def)
qed (simp add: compose_entry_def join_presence_max)

lemma separable_compose_loaded: "separable (compose_loaded cr)"
proof -
  consider "puts_in_loaded_state cr" | "\<not> puts_in_loaded_state cr \<and> (rr_loads_from_db_param cr = PUnknown \<or>
      rr_initialises_param cr = PUnknown \<or> rr_copies_into_param cr = PUnknown)"
    | "\<not> puts_in_loaded_state cr \<and> \<not> (rr_loads_from_db_param cr = PUnknown \<or>
      rr_initialises_param cr = PUnknown \<or> rr_copies_into_param cr = PUnknown)" by blast
  then show ?thesis
  proof cases
    case 1
    then show ?thesis
      by (intro separable_set [where fl = "\<lambda>_. L_Yes" and fd = "\<lambda>d. d" and fp = "\<lambda>_. PN_None"
            and fc = "\<lambda>_ _. field_list_to_loaded (rr_current_loaded_fields_at_exit cr)"])
        (simp_all add: compose_loaded_def mono_def)
  next
    case 2
    then show ?thesis
      by (intro separable_set [where fl = "\<lambda>_. L_Unknown" and fd = "\<lambda>d. d" and fp = "\<lambda>_. PN_Unknown"
            and fc = "\<lambda>_ _. LF_Unknown"]) (auto simp: compose_loaded_def mono_def)
  next
    case 3
    then have "compose_loaded cr = (\<lambda>s. s)" by (auto simp: compose_loaded_def)
    then show ?thesis by (simp add: separable_id)
  qed
qed

lemma dirty_mono: "mono dirty_or_unknown_to_dirty" "mono (dirty_after cr)"
proof -
  show v: "mono dirty_or_unknown_to_dirty"
    by (auto simp: mono_def less_eq_dirty_def dirty_or_unknown_to_dirty_def)
  have p: "mono (\<lambda>d. if b \<and> d = D_Pristine then D_Persisted else d)" for b
    by (auto simp: mono_def less_eq_dirty_def)
  have u: "mono (\<lambda>d. if b \<and> (d = D_Pristine \<or> d = D_Persisted) then D_Unknown else d)" for b
    by (auto simp: mono_def less_eq_dirty_def)
  have v': "mono (\<lambda>d. if b then dirty_or_unknown_to_dirty d else d)" for b
    using v by (cases b) simp_all
  have "mono (\<lambda>d. if rr_dirty_at_exit cr = PYes then D_DirtyV else d)" by (cases "rr_dirty_at_exit cr = PYes") simp_all
  from mono_comp [OF this mono_comp [OF u mono_comp [OF v' p]]]
  show "mono (dirty_after cr)" by (simp add: dirty_after_def [abs_def] Let_def)
qed

lemma separable_compose_exit: "separable (compose_exit cr)"
  by (rule separable_set [where fl = "\<lambda>l. l" and fd = "dirty_after cr"
        and fp = "\<lambda>p. if rr_resets_filters_on_param cr = PYes then PN_None else p" and fc = "\<lambda>p c. c"])
    (auto simp: compose_exit_def mono_def dirty_mono [unfolded mono_def, rule_format])

lemma separable_callee_role: "separable (\<lambda>s. apply_callee_role s callee i cv ev d look)"
proof (cases "callee = None \<or> \<not> unwrap_or False (cl_body_avail look (the callee)) \<or>
    Option.bind (lookup_roles look (the callee)) (role_at i) = None")
  case True
  then have "(\<lambda>s. apply_callee_role s callee i cv ev d look) = (\<lambda>s. opaque_transfer s cv ev d)"
    by (rule_tac ext) (auto simp: apply_callee_role_def split: option.splits)
  then show ?thesis by (simp add: separable_opaque)
next
  case False
  then obtain c cr where c: "callee = Some c" "unwrap_or False (cl_body_avail look c)"
      "Option.bind (lookup_roles look c) (role_at i) = Some cr" by auto
  let ?t1 = "compose_entry cr" and ?t2 = "\<lambda>s. if ev then compose_loaded cr s else s"
    and ?t3 = "\<lambda>s. if cv \<and> ev then compose_exit cr s else s"
  have "separable (\<lambda>s. ?t3 (?t2 (?t1 s)))"
    by (intro separable_comp [of "\<lambda>s. ?t2 (?t1 s)" ?t3] separable_comp [of ?t1 ?t2] separable_if
        separable_compose_entry separable_compose_loaded separable_compose_exit separable_id)
  moreover have "(\<lambda>s. apply_callee_role s callee i cv ev d look) = (\<lambda>s. ?t3 (?t2 (?t1 s)))"
    using c by (simp add: apply_callee_role_def Let_def fun_eq_iff)
  ultimately show ?thesis by simp
qed

lemma separable_fold: "(\<And>x. x \<in> set xs \<Longrightarrow> separable (f x)) \<Longrightarrow> separable (fold f xs)"
proof (induction xs)
  case Nil
  show ?case by (simp add: separable_id id_def)
next
  case (Cons x xs)
  then have "separable (\<lambda>s. fold f xs (f x s))" using separable_comp [of "f x" "fold f xs"] by simp
  then show ?case by (simp add: comp_def)
qed

lemma narrow_mono: "mono (narrow_fields op)" "mono load_narrowed"
  by (auto simp: mono_def less_eq_pending_narrow_def less_eq_loaded_fields_def narrow_fields_def load_narrowed_def Let_def
      split: pending_narrow.splits)

lemma separable_persist: "separable persist_or_validate"
  by (rule separableI [where fl = "\<lambda>l. l" and fd = "\<lambda>d. d" and fp = "\<lambda>p. p" and fc = "\<lambda>p c. c"
        and r = "unless_loaded PNo PYes" and m = "unless_loaded PNo PYes" and q = "\<lambda>_. RF_Set []"])
    (simp_all add: persist_or_validate_def unless_loaded_def [of _ _ "pp_loaded _"])

text \<open>The record-flow roles, as cases.\<close>

lemma apply_op_cases:
  assumes "separable (\<lambda>s. s \<lparr> pp_loaded := L_Yes, pp_current_loaded_fields := load_narrowed (pp_pending_narrow s),
            pp_pending_narrow := PN_None, pp_dirty := D_Pristine \<rparr>)"
    and "separable (\<lambda>s. s \<lparr> pp_loaded := L_Yes, pp_current_loaded_fields := LF_Full, pp_pending_narrow := PN_None,
            pp_dirty := D_Pristine \<rparr>)"
    and "separable (\<lambda>s. s \<lparr> pp_loaded := L_Yes, pp_dirty := D_Pristine \<rparr>)"
    and "separable (\<lambda>s. (persist_or_validate s) \<lparr> pp_dirty := D_Persisted \<rparr>)"
    and "separable (\<lambda>s. (persist_or_validate s) \<lparr> pp_dirty := dirty_or_unknown_to_dirty (pp_dirty s) \<rparr>)"
    and "separable (\<lambda>s. s \<lparr> pp_pending_narrow := PN_None \<rparr>)"
    and "separable (\<lambda>s. s \<lparr> pp_pending_narrow := narrow_fields op (pp_pending_narrow s) \<rparr>)"
    and "separable (\<lambda>s. s)"
  shows "separable (\<lambda>s. apply_op s op p)"
  unfolding apply_op_def Let_def by (intro separable_if assms)

lemma separable_op: "separable (\<lambda>s. apply_op s op p)"
proof (rule apply_op_cases)
  have d: "separable (\<lambda>s. s \<lparr> pp_dirty := f (pp_dirty s) \<rparr>)" if "mono f" for f
    using that by (intro separable_set [where fl = "\<lambda>l. l" and fd = f and fp = "\<lambda>p. p" and fc = "\<lambda>p c. c"]) simp_all
  from separable_comp [OF separable_persist d [OF mono_const(1), of D_Persisted]]
  show "separable (\<lambda>s. (persist_or_validate s) \<lparr> pp_dirty := D_Persisted \<rparr>)" .
  have "pp_dirty (persist_or_validate s) = pp_dirty s" for s by (simp add: persist_or_validate_def)
  with separable_comp [OF separable_persist d [OF dirty_mono(1)]]
  show "separable (\<lambda>s. (persist_or_validate s) \<lparr> pp_dirty := dirty_or_unknown_to_dirty (pp_dirty s) \<rparr>)" by simp
  show "separable (\<lambda>s. s \<lparr> pp_loaded := L_Yes, pp_current_loaded_fields := load_narrowed (pp_pending_narrow s),
            pp_pending_narrow := PN_None, pp_dirty := D_Pristine \<rparr>)"
    by (rule separable_set [where fl = "\<lambda>_. L_Yes" and fd = "\<lambda>_. D_Pristine" and fp = "\<lambda>_. PN_None"
          and fc = "\<lambda>p _. load_narrowed p"]) (simp_all add: monoD [OF narrow_mono(2)])
  show "separable (\<lambda>s. s \<lparr> pp_loaded := L_Yes, pp_current_loaded_fields := LF_Full, pp_pending_narrow := PN_None,
            pp_dirty := D_Pristine \<rparr>)"
    by (rule separable_set [where fl = "\<lambda>_. L_Yes" and fd = "\<lambda>_. D_Pristine" and fp = "\<lambda>_. PN_None"
          and fc = "\<lambda>_ _. LF_Full"]) simp_all
  show "separable (\<lambda>s. s \<lparr> pp_loaded := L_Yes, pp_dirty := D_Pristine \<rparr>)"
    by (rule separable_set [where fl = "\<lambda>_. L_Yes" and fd = "\<lambda>_. D_Pristine" and fp = "\<lambda>p. p"
          and fc = "\<lambda>p c. c"]) simp_all
  show "separable (\<lambda>s. s \<lparr> pp_pending_narrow := PN_None \<rparr>)"
    by (rule separable_set [where fl = "\<lambda>l. l" and fd = "\<lambda>d. d" and fp = "\<lambda>_. PN_None" and fc = "\<lambda>p c. c"]) simp_all
  show "separable (\<lambda>s. s \<lparr> pp_pending_narrow := narrow_fields op (pp_pending_narrow s) \<rparr>)"
    by (rule separable_set [where fl = "\<lambda>l. l" and fd = "\<lambda>d. d" and fp = "narrow_fields op" and fc = "\<lambda>p c. c"])
      (simp_all add: narrow_mono)
  show "separable (\<lambda>s. s)" by (rule separable_id)
qed

lemma separable_read: "separable (\<lambda>s. apply_field_read s fa p)"
proof (cases "to_lowercase (fa_record_variable_name fa) = px_name_lc p")
  case False
  then have "(\<lambda>s. apply_field_read s fa p) = (\<lambda>s. s)" by (simp add: apply_field_read_def fun_eq_iff)
  then show ?thesis by (simp add: separable_id)
next
  case True
  show ?thesis
  proof (rule separableI [where fl = "\<lambda>l. l" and fd = "\<lambda>d. d" and fp = "\<lambda>p. p" and fc = "\<lambda>p c. c"
        and r = "unless_loaded PNo PYes" and m = "\<lambda>_. PNo" and q = "unless_loaded (RF_Set []) (RF_Set [fa_field_name fa])"])
    show "same_fields (pp_required_fields (apply_field_read s fa p))
        (join_required_fields (pp_required_fields s) (unless_loaded (RF_Set []) (RF_Set [fa_field_name fa]) (pp_loaded s)))" for s
      using True by (cases "pp_required_fields s") (auto simp: apply_field_read_def unless_loaded_def same_fields_def)
    show "pp_requires_loaded_at_entry (apply_field_read s fa p) = max (pp_requires_loaded_at_entry s) (unless_loaded PNo PYes (pp_loaded s))" for s
      using True by (simp add: apply_field_read_def unless_loaded_def)
  qed (simp_all add: unless_loaded_fields, simp_all add: apply_field_read_def)
qed

lemma separable_saturate: "separable saturate_unknown"
  by (rule separableI [where fl = "\<lambda>_. L_Unknown" and fd = "\<lambda>_. D_Unknown" and fp = "\<lambda>_. PN_Unknown"
        and fc = "\<lambda>_ _. LF_Unknown" and r = "\<lambda>_. PNo" and m = "\<lambda>_. PNo" and q = "\<lambda>_. RF_Unknown"])
    (simp_all add: saturate_unknown_def same_fields_def join_fields_upper)

section \<open>Relations the walk keeps\<close>

text \<open>
  What a relation of states needs so that a walk from related states gives related results: the
  separable transfers and the join keep it.
\<close>

locale state_relation =
  fixes R :: "per_param_state \<Rightarrow> per_param_state \<Rightarrow> bool"
  assumes join_kept: "R a b \<Longrightarrow> R c d \<Longrightarrow> R (join_states a c) (join_states b d)"
    and transfer_kept: "separable t \<Longrightarrow> R a b \<Longrightarrow> R (t a) (t b)"
begin

lemma op_kept: "R a b \<Longrightarrow> R (apply_op a op p) (apply_op b op p)"
  by (rule transfer_kept [OF separable_op])

lemma read_kept: "R a b \<Longrightarrow> R (apply_field_read a fa p) (apply_field_read b fa p)"
  by (rule transfer_kept [OF separable_read])

lemma saturate_kept: "R a b \<Longrightarrow> R (saturate_unknown a) (saturate_unknown b)"
  by (rule transfer_kept [OF separable_saturate])

lemma callee_kept: "R a b \<Longrightarrow> R (apply_callee_role a c i cv ev d look) (apply_callee_role b c i cv ev d look)"
  by (rule transfer_kept [OF separable_callee_role])

lemma joins_kept:
  "list_all2 R xs ys \<Longrightarrow> R a b \<Longrightarrow> R (fold (\<lambda>x s. join_states s x) xs a) (fold (\<lambda>y s. join_states s y) ys b)"
proof (induction arbitrary: a b rule: list_all2_induct)
  case Nil
  then show ?case by simp
next
  case (Cons x xs y ys)
  from Cons.IH [OF join_kept [OF Cons.prems Cons.hyps(1)]] show ?case by simp
qed

lemma dispatch_run_kept: "R a b \<Longrightarrow> R (dispatch_run a bs cv look ixs) (dispatch_run b bs cv look ixs)"
  unfolding dispatch_run_def by (rule transfer_kept [OF separable_fold]) (auto intro: separable_callee_role)

lemma dispatch_kept:
  assumes "R a b"
  shows "R (apply_dispatch a pd look) (apply_dispatch b pd look)"
proof -
  have opaque: "R (opaque_transfer a cv ev d) (opaque_transfer b cv ev d)" for cv ev d
    using assms by (rule transfer_kept [OF separable_opaque])
  have "rel_option R (fold (\<lambda>ixs. join_into (dispatch_run a bs cv look ixs)) seqs x)
      (fold (\<lambda>ixs. join_into (dispatch_run b bs cv look ixs)) seqs y)" if "rel_option R x y" for bs cv seqs x y
    using that
  proof (induction seqs arbitrary: x y)
    case (Cons i seqs)
    have "R (dispatch_run a bs cv look i) (dispatch_run b bs cv look i)" by (rule dispatch_run_kept [OF assms])
    with Cons.prems have "rel_option R (join_into (dispatch_run a bs cv look i) x) (join_into (dispatch_run b bs cv look i) y)"
      by (auto simp: join_into_def join_kept split: option.splits)
    with Cons.IH show ?case by simp
  qed simp
  then have o: "rel_option R (fold (\<lambda>ixs. join_into (dispatch_run a bs cv look ixs)) seqs None)
      (fold (\<lambda>ixs. join_into (dispatch_run b bs cv look ixs)) seqs None)" for bs cv seqs by simp
  have "rel_option R x y \<Longrightarrow> R (unwrap_or a x) (unwrap_or b y)" for x y
    using assms by (cases x; cases y) simp_all
  from this [OF o] have "R (unwrap_or a (fold (\<lambda>ixs. join_into (dispatch_run a bs cv look ixs)) seqs None))
      (unwrap_or b (fold (\<lambda>ixs. join_into (dispatch_run b bs cv look ixs)) seqs None))" for bs cv seqs
    .
  with opaque show ?thesis by (auto simp: apply_dispatch_def split: dispatch_kind.splits)
qed

end

text \<open>The order of states: the walk is monotone.\<close>

lemma separable_mono:
  assumes "separable t" "state_le a b"
  shows "state_le (t a) (t b)"
proof -
  from assms(1) obtain fl fd fp fc r m q where t: "mono fl" "mono fd" "mono fp"
    "\<And>p p' c c'. p \<le> p' \<Longrightarrow> c \<le> c' \<Longrightarrow> fc p c \<le> fc p' c'" "mono r" "mono m"
    "\<And>l l'. l \<le> l' \<Longrightarrow> fields_le (q l) (q l')"
    "\<And>s. pp_loaded (t s) = fl (pp_loaded s)" "\<And>s. pp_dirty (t s) = fd (pp_dirty s)"
    "\<And>s. pp_pending_narrow (t s) = fp (pp_pending_narrow s)"
    "\<And>s. pp_current_loaded_fields (t s) = fc (pp_pending_narrow s) (pp_current_loaded_fields s)"
    "\<And>s. pp_requires_loaded_at_entry (t s) = max (pp_requires_loaded_at_entry s) (r (pp_loaded s))"
    "\<And>s. pp_mutates_before_load (t s) = max (pp_mutates_before_load s) (m (pp_loaded s))"
    "\<And>s. same_fields (pp_required_fields (t s)) (join_required_fields (pp_required_fields s) (q (pp_loaded s)))"
    by (rule separableE) blast
  have "fields_le (join_required_fields (pp_required_fields a) (q (pp_loaded a)))
      (join_required_fields (pp_required_fields b) (q (pp_loaded b)))"
    using assms(2) t(7) by (intro join_fields_mono) (simp_all add: state_le_def)
  with t(14) [of a] t(14) [of b] have f: "fields_le (pp_required_fields (t a)) (pp_required_fields (t b))"
    by (auto simp: same_fields_def intro: fields_le_trans)
  have m: "max (pp_requires_loaded_at_entry a) (r (pp_loaded a)) \<le> max (pp_requires_loaded_at_entry b) (r (pp_loaded b))"
    "max (pp_mutates_before_load a) (m (pp_loaded a)) \<le> max (pp_mutates_before_load b) (m (pp_loaded b))"
    using assms(2) monoD [OF t(5)] monoD [OF t(6)] unfolding state_le_def
    by (meson max.mono)+
  show ?thesis
    using assms(2) t(1-4) f m unfolding state_le_def t(8-13) by (auto simp: mono_def)
qed

interpretation le: state_relation state_le
  by unfold_locales (auto intro: join_states_mono separable_mono)

text \<open>Equality up to the order and repetition of the required fields.\<close>

definition same_state :: "per_param_state \<Rightarrow> per_param_state \<Rightarrow> bool" where
  "same_state a b \<longleftrightarrow> state_le a b \<and> state_le b a"

interpretation same: state_relation same_state
  by unfold_locales (auto simp: same_state_def intro: join_states_mono separable_mono)

text \<open>Equality of one component, or of two.\<close>

interpretation same_loaded: state_relation "\<lambda>a b. pp_loaded a = pp_loaded b"
  by unfold_locales (simp add: join_states_def, erule separableE, simp)

interpretation same_dirty: state_relation "\<lambda>a b. pp_dirty a = pp_dirty b"
  by unfold_locales (simp add: join_states_def, erule separableE, simp)

interpretation same_narrow: state_relation "\<lambda>a b. pp_pending_narrow a = pp_pending_narrow b"
  by unfold_locales (simp add: join_states_def, erule separableE, simp)

interpretation same_loaded_fields: state_relation
  "\<lambda>a b. pp_pending_narrow a = pp_pending_narrow b \<and> pp_current_loaded_fields a = pp_current_loaded_fields b"
proof
  fix t and a b :: per_param_state
  assume "separable t" "pp_pending_narrow a = pp_pending_narrow b \<and> pp_current_loaded_fields a = pp_current_loaded_fields b"
  then show "pp_pending_narrow (t a) = pp_pending_narrow (t b) \<and> pp_current_loaded_fields (t a) = pp_current_loaded_fields (t b)"
    by (elim separableE) simp
qed (simp add: join_states_def)

text \<open>The entry requirements of \<open>b\<close> are those of \<open>a\<close> and those of \<open>x\<close>.\<close>

definition entry_shift :: "per_param_state \<Rightarrow> per_param_state \<Rightarrow> per_param_state \<Rightarrow> bool" where
  "entry_shift x a b \<longleftrightarrow>
     pp_loaded a = pp_loaded b \<and>
     pp_requires_loaded_at_entry b = max (pp_requires_loaded_at_entry a) (pp_requires_loaded_at_entry x) \<and>
     pp_mutates_before_load b = max (pp_mutates_before_load a) (pp_mutates_before_load x) \<and>
     same_fields (pp_required_fields b) (join_required_fields (pp_required_fields a) (pp_required_fields x))"

lemma join_fields_shift:
  "same_fields b (join_required_fields a x) \<Longrightarrow> same_fields d (join_required_fields c x) \<Longrightarrow>
     same_fields (join_required_fields b d) (join_required_fields (join_required_fields a c) x)"
  by (cases a; cases b; cases c; cases d; cases x) (auto simp: same_fields_def)

lemma join_fields_swap:
  "same_fields b (join_required_fields a x) \<Longrightarrow>
     same_fields (join_required_fields b y) (join_required_fields (join_required_fields a y) x)"
  by (cases a; cases b; cases y; cases x) (auto simp: same_fields_def)

interpretation shift: state_relation "entry_shift x"
proof
  fix a b c d
  assume "entry_shift x a b" "entry_shift x c d"
  then show "entry_shift x (join_states a c) (join_states b d)"
    by (auto simp: entry_shift_def join_states_def join_presence_max join_fields_shift ac_simps)
next
  fix t a b
  assume t: "separable t" and ab: "entry_shift x a b"
  from t obtain fl r m q
    where s: "\<And>s. pp_loaded (t s) = fl (pp_loaded s)"
      "\<And>s. pp_requires_loaded_at_entry (t s) = max (pp_requires_loaded_at_entry s) (r (pp_loaded s))"
      "\<And>s. pp_mutates_before_load (t s) = max (pp_mutates_before_load s) (m (pp_loaded s))"
      "\<And>s. same_fields (pp_required_fields (t s)) (join_required_fields (pp_required_fields s) (q (pp_loaded s)))"
    by (rule separableE) blast
  have "same_fields (join_required_fields (pp_required_fields b) (q (pp_loaded b)))
      (join_required_fields (join_required_fields (pp_required_fields a) (q (pp_loaded a))) (pp_required_fields x))"
    using ab by (auto simp: entry_shift_def intro: join_fields_swap)
  moreover have "same_fields (join_required_fields (join_required_fields (pp_required_fields a) (q (pp_loaded a))) (pp_required_fields x))
      (join_required_fields (pp_required_fields (t a)) (pp_required_fields x))"
    by (intro join_fields_cong same_fields_refl same_fields_sym [OF s(4)])
  ultimately have "same_fields (pp_required_fields (t b)) (join_required_fields (pp_required_fields (t a)) (pp_required_fields x))"
    using s(4) [of b] by (blast intro: same_fields_trans)
  then show "entry_shift x (t a) (t b)"
    using ab by (auto simp: entry_shift_def s(1-3) ac_simps)
qed

end
