(* ===== verification/Walk_Flow.thy ===== *)
theory Walk_Flow
  imports Cfg_Walker Role_Relations
begin

text \<open>
  The walk of \<open>Cfg_Walker\<close> without its mutable collectors: the same combinators return the states
  they collect. The threaded walk is proved to append exactly these to the collectors it is given,
  so that the results on loops and on paths are about values. The walk is defined for any treatment
  of loops; \<open>flow_loop\<close> is the code's, \<open>pad_loop\<close> always runs the full number of rounds.
\<close>

section \<open>Flows\<close>

datatype flow = Flow
  (fw_state: per_param_state)
  (fw_reach: reach)
  (fw_exits: "per_param_state list")
  (fw_breaks: "per_param_state list")
  (fw_continues: "per_param_state list")

type_synonym flow_step = "cfn_node \<Rightarrow> per_param_state \<Rightarrow> flow"
type_synonym flow_loops = "(per_param_state \<Rightarrow> flow) \<Rightarrow> (per_param_state \<Rightarrow> flow) \<Rightarrow> per_param_state \<Rightarrow> flow"

definition f_fell :: "per_param_state \<Rightarrow> flow" where
  "f_fell s = Flow s R_Normal [] [] []"

definition f_then :: "flow \<Rightarrow> (per_param_state \<Rightarrow> flow) \<Rightarrow> flow" where
  "f_then a k =
     (let b = k (fw_state a) in
      Flow (fw_state b) (fw_reach b) (fw_exits a @ fw_exits b) (fw_breaks a @ fw_breaks b)
        (fw_continues a @ fw_continues b))"

definition f_seq :: "flow \<Rightarrow> (per_param_state \<Rightarrow> flow) \<Rightarrow> flow" where
  "f_seq a k = (if fw_reach a = R_Abrupt then a else f_then a k)"

fun flow_leaves :: "flow_step \<Rightarrow> cfn_node list \<Rightarrow> per_param_state \<Rightarrow> flow" where
  "flow_leaves p [] s = f_fell s"
| "flow_leaves p (n # ns) s = f_then (p n s) (flow_leaves p ns)"

fun flow_seq :: "flow_step \<Rightarrow> cfn_node list \<Rightarrow> per_param_state \<Rightarrow> flow" where
  "flow_seq p [] s = f_fell s"
| "flow_seq p (n # ns) s = f_seq (p n s) (flow_seq p ns)"

fun flow_events :: "flow_step \<Rightarrow> param_ctx \<Rightarrow> block_event list \<Rightarrow> per_param_state \<Rightarrow> flow" where
  "flow_events p px [] s = f_fell s"
| "flow_events p px (Ev_Child c _ # evs) s = f_seq (p c s) (flow_events p px evs)"
| "flow_events p px (Ev_Fa fa _ # evs) s = flow_events p px evs (apply_field_read s fa px)"

definition flow_arm :: "flow_step \<Rightarrow> cfn_node option \<Rightarrow> per_param_state \<Rightarrow> flow" where
  "flow_arm p branch s = (case branch of Some b \<Rightarrow> p b s | None \<Rightarrow> f_fell s)"

definition flow_if :: "flow_step \<Rightarrow> cfn_node option \<Rightarrow> cfn_node option \<Rightarrow> per_param_state \<Rightarrow> flow" where
  "flow_if p t e s =
     (let a = flow_arm p t s; b = flow_arm p e s;
          m = merge_arms (fw_state a, fw_reach a) (fw_state b, fw_reach b)
      in Flow (fst m) (snd m) (fw_exits a @ fw_exits b) (fw_breaks a @ fw_breaks b) (fw_continues a @ fw_continues b))"

fun flow_branches :: "flow_step \<Rightarrow> cfn_node list \<Rightarrow> per_param_state \<Rightarrow> per_param_state option \<Rightarrow> per_param_state option \<times> flow" where
  "flow_branches p [] s acc = (acc, f_fell s)"
| "flow_branches p (c # cs) s acc =
     (let a = p c s;
          (acc, f) = flow_branches p cs s (if fw_reach a = R_Normal then join_into (fw_state a) acc else acc)
      in (acc, f_then a (\<lambda>_. f)))"

definition flow_case :: "flow_step \<Rightarrow> cfn_node list \<Rightarrow> per_param_state \<Rightarrow> flow" where
  "flow_case p branches s =
     (let has_else = list_ex nd_is_case_else branches;
          (acc, f) = flow_branches p branches s None;
          (post, reach) =
            (case acc of
               None \<Rightarrow> (s, if has_else then R_Abrupt else R_Normal)
             | Some a \<Rightarrow> (if has_else then a else join_states a s, R_Normal))
      in Flow post reach (fw_exits f) (fw_breaks f) (fw_continues f))"

text \<open>One round of a loop; the \<open>continue\<close>s end with it.\<close>

definition flow_round :: "(per_param_state \<Rightarrow> flow) \<Rightarrow> (per_param_state \<Rightarrow> flow) \<Rightarrow> per_param_state \<Rightarrow> flow" where
  "flow_round body check s =
     (let a = body s;
          c = check (fold_continue_states (fw_reach a) (fw_state a) s (fw_continues a))
      in Flow (join_states s (fw_state c)) R_Normal (fw_exits a @ fw_exits c) (fw_breaks a @ fw_breaks c) [])"

fun flow_rounds ::
  "nat \<Rightarrow> (per_param_state \<Rightarrow> flow) \<Rightarrow> (per_param_state \<Rightarrow> flow) \<Rightarrow> per_param_state \<Rightarrow> (per_param_state option \<times> per_param_state) \<times> flow" where
  "flow_rounds 0 body check s = ((None, s), f_fell s)"
| "flow_rounds (Suc k) body check s =
     (let r = flow_round body check s in
      if fw_state r = s then ((Some (fw_state r), s), r)
      else (let (x, f) = flow_rounds k body check (fw_state r) in (x, f_then r (\<lambda>_. f))))"

fun pad_rounds :: "nat \<Rightarrow> (per_param_state \<Rightarrow> flow) \<Rightarrow> (per_param_state \<Rightarrow> flow) \<Rightarrow> per_param_state \<Rightarrow> flow" where
  "pad_rounds 0 body check s = f_fell s"
| "pad_rounds (Suc k) body check s = f_then (flow_round body check s) (pad_rounds k body check)"

definition after_breaks :: "per_param_state \<Rightarrow> flow \<Rightarrow> flow" where
  "after_breaks s f = Flow (fold (\<lambda>b s. join_states s b) (fw_breaks f) s) R_Normal (fw_exits f) [] []"

definition flow_loop :: flow_loops where
  "flow_loop body check s =
     (let ((fixpoint, last), f) = flow_rounds LOOP_BOUND body check s
      in after_breaks (case fixpoint of Some t \<Rightarrow> t | None \<Rightarrow> saturate_unknown last) f)"

definition pad_loop :: flow_loops where
  "pad_loop body check s = (let f = pad_rounds LOOP_BOUND body check s in after_breaks (fw_state f) f)"

definition f_exit :: "flow \<Rightarrow> flow" where
  "f_exit a = Flow (fw_state a) R_Normal (fw_exits a @ [fw_state a]) (fw_breaks a) (fw_continues a)"

definition op_transfer :: "walk_env \<Rightarrow> cfn_node \<Rightarrow> per_param_state \<Rightarrow> per_param_state" where
  "op_transfer env n s =
     (case Option.bind (nd_operation_id n) (wi_op_by_id (we_idx env)) of
        Some op \<Rightarrow> apply_op s op (we_param env) | None \<Rightarrow> s)"

definition call_transfer :: "walk_env \<Rightarrow> cfn_node \<Rightarrow> per_param_state \<Rightarrow> per_param_state" where
  "call_transfer env n s =
     (case Option.bind (nd_callsite_id n) (wi_call_by_id (we_idx env)) of
        Some cs \<Rightarrow> apply_call env s cs | None \<Rightarrow> s)"

definition flow_one :: "flow_loops \<Rightarrow> flow_step \<Rightarrow> walk_env \<Rightarrow> flow_step" where
  "flow_one loops p env n s =
     (let conds = flow_leaves p (condition_leaves_of n) in
      if nd_kind n = ''block'' then flow_events p (we_param env) (block_events env n) s
      else if nd_kind n = ''if'' then
        f_then (conds s) (flow_if p (first_of (children_of n)) (first_of (else_children_of n)))
      else if nd_kind n = ''case'' then f_then (conds s) (flow_case p (children_of n))
      else if nd_kind n = ''case-branch'' then flow_seq p (children_of n) s
      else if nd_kind n \<in> {''while'', ''for'', ''foreach''} then
        (case first_of (children_of n) of
           None \<Rightarrow> conds s
         | Some body \<Rightarrow> f_then (conds s) (loops (p body) conds))
      else if nd_kind n = ''repeat'' then
        (if children_of n = [] then conds s else loops (p (synthetic_block n)) conds s)
      else if nd_kind n = ''break'' then Flow s R_Abrupt [] [s] []
      else if nd_kind n = ''continue'' then Flow s R_Abrupt [] [] [s]
      else if nd_kind n \<in> {''exit'', ''error''} then f_exit (conds s)
      else if nd_kind n = ''op'' then f_then (conds s) (\<lambda>t. f_fell (op_transfer env n t))
      else if nd_kind n = ''call'' then f_then (conds s) (\<lambda>t. f_fell (call_transfer env n t))
      else if nd_kind n = ''try'' then f_exit (f_fell (saturate_unknown s))
      else f_then (conds s) (flow_seq p (children_of n)))"

primrec flow_cfg :: "flow_loops \<Rightarrow> nat \<Rightarrow> walk_env \<Rightarrow> flow_step" where
  "flow_cfg loops 0 env = (\<lambda>n s. f_fell (saturate_unknown s))"
| "flow_cfg loops (Suc d) env = flow_one loops (flow_cfg loops d env) env"

section \<open>The threaded walk appends the flow\<close>

definition add_flow :: "flow \<Rightarrow> collectors \<Rightarrow> collectors" where
  "add_flow f = (\<lambda>(exits, loops). (exits @ fw_exits f,
     case loops of [] \<Rightarrow> []
     | F # rest \<Rightarrow> \<lparr> lf_breaks = lf_breaks F @ fw_breaks f, lf_continues = lf_continues F @ fw_continues f \<rparr> # rest))"

definition writes :: "walk_step \<Rightarrow> flow_step \<Rightarrow> bool" where
  "writes step p \<longleftrightarrow> (\<forall>n s w. step n s w = ((fw_state (p n s), fw_reach (p n s)), add_flow (p n s) w))"

lemma f_fell_simps [simp]:
  "fw_state (f_fell s) = s" "fw_reach (f_fell s) = R_Normal" "fw_exits (f_fell s) = []"
  "fw_breaks (f_fell s) = []" "fw_continues (f_fell s) = []"
  by (simp_all add: f_fell_def)

lemma f_then_simps [simp]:
  "fw_state (f_then a k) = fw_state (k (fw_state a))"
  "fw_reach (f_then a k) = fw_reach (k (fw_state a))"
  "fw_exits (f_then a k) = fw_exits a @ fw_exits (k (fw_state a))"
  "fw_breaks (f_then a k) = fw_breaks a @ fw_breaks (k (fw_state a))"
  "fw_continues (f_then a k) = fw_continues a @ fw_continues (k (fw_state a))"
  by (simp_all add: f_then_def Let_def)

lemma add_flow_fell [simp]: "add_flow (f_fell s) w = w"
  by (cases w) (simp add: add_flow_def split: list.splits)

lemma add_flow_then [simp]: "add_flow (f_then a k) w = add_flow (k (fw_state a)) (add_flow a w)"
  by (cases w) (simp add: add_flow_def split: list.splits)

lemma writes_at: "writes step p \<Longrightarrow> step n s w = ((fw_state (p n s), fw_reach (p n s)), add_flow (p n s) w)"
  unfolding writes_def by blast

lemma cfg_leaves_flow: "writes step p \<Longrightarrow> cfg_leaves step ns s w = (fw_state (flow_leaves p ns s), add_flow (flow_leaves p ns s) w)"
  by (induction ns arbitrary: s w) (simp_all add: writes_at)

lemma flow_leaves_reach [simp]: "fw_reach (flow_leaves p ns s) = R_Normal"
  by (induction ns arbitrary: s) simp_all

lemma apply_leaves_flow:
  "writes step p \<Longrightarrow> apply_condition_leaves step (nd_condition_leaves n) s w =
     (fw_state (flow_leaves p (condition_leaves_of n) s), add_flow (flow_leaves p (condition_leaves_of n) s) w)"
  by (auto simp: apply_condition_leaves_def condition_leaves_of_def cfg_leaves_flow split: option.splits)

lemma cfg_seq_flow:
  "writes step p \<Longrightarrow> cfg_seq step ns s w =
     ((fw_state (flow_seq p ns s), fw_reach (flow_seq p ns s)), add_flow (flow_seq p ns s) w)"
  by (induction ns arbitrary: s w) (simp_all add: writes_at f_seq_def)

lemma cfg_events_flow:
  "writes step p \<Longrightarrow> cfg_events step px evs s w =
     ((fw_state (flow_events p px evs s), fw_reach (flow_events p px evs s)), add_flow (flow_events p px evs s) w)"
  by (induction step px evs s w rule: cfg_events.induct) (simp_all add: writes_at f_seq_def)

lemma cfg_arm_flow:
  "writes step p \<Longrightarrow> cfg_arm step b s w = ((fw_state (flow_arm p b s), fw_reach (flow_arm p b s)), add_flow (flow_arm p b s) w)"
  by (auto simp: cfg_arm_def flow_arm_def writes_at split: option.splits)

lemma cfg_if_flow:
  "writes step p \<Longrightarrow> cfg_if step t e s w = ((fw_state (flow_if p t e s), fw_reach (flow_if p t e s)), add_flow (flow_if p t e s) w)"
  by (cases w) (auto simp: cfg_if_def flow_if_def cfg_arm_flow Let_def add_flow_def split: list.splits)

lemma cfg_branches_flow:
  "writes step p \<Longrightarrow> cfg_branches step cs s acc w = (fst (flow_branches p cs s acc), add_flow (snd (flow_branches p cs s acc)) w)"
  by (induction cs arbitrary: acc w) (simp_all add: writes_at split_beta Let_def)

lemma cfg_case_flow:
  "writes step p \<Longrightarrow> cfg_case step cs s w = ((fw_state (flow_case p cs s), fw_reach (flow_case p cs s)), add_flow (flow_case p cs s) w)"
  by (cases w) (auto simp: cfg_case_def flow_case_def cfg_branches_flow split_beta Let_def add_flow_def split: option.splits list.splits)

lemma loop_rounds_flow:
  assumes "\<And>s w. body s w = ((fw_state (pb s), fw_reach (pb s)), add_flow (pb s) w)"
    and "\<And>s w. check s w = (fw_state (pc s), add_flow (pc s) w)"
  shows "\<exists>cs. loop_rounds k body check s (X, F # L) =
    (fst (flow_rounds k pb pc s), (X @ fw_exits (snd (flow_rounds k pb pc s)),
       \<lparr> lf_breaks = lf_breaks F @ fw_breaks (snd (flow_rounds k pb pc s)), lf_continues = cs \<rparr> # L))"
proof (induction k arbitrary: s X F)
  case 0
  show ?case by (cases F) auto
next
  case (Suc k)
  let ?r = "flow_round pb pc s"
  have w: "add_flow (pb s) (clear_continues (X, F # L)) =
      (X @ fw_exits (pb s), \<lparr> lf_breaks = lf_breaks F @ fw_breaks (pb s), lf_continues = fw_continues (pb s) \<rparr> # L)"
    by (simp add: add_flow_def clear_continues_def on_frame_def)
  let ?c = "pc (fold_continue_states (fw_reach (pb s)) (fw_state (pb s)) s (fw_continues (pb s)))"
  let ?F = "\<lparr> lf_breaks = lf_breaks F @ fw_breaks ?r, lf_continues = fw_continues (pb s) @ fw_continues ?c \<rparr>"
  have step: "loop_rounds (Suc k) body check s (X, F # L) =
      (if fw_state ?r = s then ((Some (fw_state ?r), s), (X @ fw_exits ?r, ?F # L))
       else loop_rounds k body check (fw_state ?r) (X @ fw_exits ?r, ?F # L))"
    by (simp add: assms w flow_round_def frame_continues_def Let_def) (simp add: add_flow_def)
  show ?case
  proof (cases "fw_state ?r = s")
    case True
    then show ?thesis unfolding step by (simp add: Let_def)
  next
    case False
    from Suc.IH [of "fw_state ?r" "X @ fw_exits ?r" ?F]
    show ?thesis using False unfolding step by (simp add: Let_def split_beta)
  qed
qed

lemma cfg_loop_flow:
  assumes "writes step p"
  shows "cfg_loop step b (nd_condition_leaves n) s w =
    ((fw_state (flow_loop (p b) (flow_leaves p (condition_leaves_of n)) s), R_Normal),
       add_flow (flow_loop (p b) (flow_leaves p (condition_leaves_of n)) s) w)"
proof -
  obtain X L where w: "w = (X, L)" by (cases w)
  let ?check = "apply_condition_leaves step (nd_condition_leaves n)" and ?pc = "flow_leaves p (condition_leaves_of n)"
  obtain cs where "loop_rounds LOOP_BOUND (step b) ?check s (X, \<lparr> lf_breaks = [], lf_continues = [] \<rparr> # L) =
    (fst (flow_rounds LOOP_BOUND (p b) ?pc s), (X @ fw_exits (snd (flow_rounds LOOP_BOUND (p b) ?pc s)),
       \<lparr> lf_breaks = fw_breaks (snd (flow_rounds LOOP_BOUND (p b) ?pc s)), lf_continues = cs \<rparr> # L))"
    using loop_rounds_flow [of "step b" "p b" ?check ?pc LOOP_BOUND s X "\<lparr> lf_breaks = [], lf_continues = [] \<rparr>" L]
      writes_at [OF assms] apply_leaves_flow [OF assms] by auto
  then show ?thesis
    by (auto simp: w cfg_loop_def flow_loop_def after_breaks_def push_loop_frame_def pop_frame_def frame_breaks_def add_flow_def
        Let_def split_beta split: list.splits)
qed

lemma walk_one_flow:
  assumes "writes step p"
  shows "writes (walk_one step env) (flow_one flow_loop p env)"
  unfolding writes_def
proof (intro allI)
  fix n s w
  note leaf = apply_leaves_flow [OF assms]
  note sub = cfg_events_flow [OF assms] cfg_if_flow [OF assms] cfg_case_flow [OF assms] cfg_seq_flow [OF assms]
    cfg_loop_flow [OF assms]
  have "fw_reach (flow_loop b c t) = R_Normal" "fw_breaks (flow_loop b c t) = []" "fw_continues (flow_loop b c t) = []" for b c t by (simp_all add: flow_loop_def after_breaks_def split_beta Let_def)
  then show "walk_one step env n s w =
      ((fw_state (flow_one flow_loop p env n s), fw_reach (flow_one flow_loop p env n s)), add_flow (flow_one flow_loop p env n s) w)"
    by (cases w)
      (simp add: walk_one_def flow_one_def Let_def leaf sub op_transfer_def call_transfer_def f_exit_def push_break_def
        push_continue_def push_exit_def on_frame_def add_flow_def split_beta split: option.splits list.splits)
qed

lemma walk_cfg_flow: "writes (walk_cfg d env) (flow_cfg flow_loop d env)"
proof (induction d)
  case 0
  show ?case by (simp add: writes_def)
next
  case (Suc d)
  from walk_one_flow [OF this] show ?case by simp
qed

end
