(* ===== verification/Walk_Settles.thy ===== *)
theory Walk_Settles
  imports Walk_Flow
begin

text \<open>
  Loops of the record-parameter walk settle. A walk whose loops always run the full number of rounds
  keeps every relation of \<open>Role_Relations\<close>; from that, two rounds reach a fixed point of any body,
  whatever it contains, and the third confirms it. So the code's loops never run out of rounds, and
  their early exit changes nothing.
\<close>

section \<open>Related flows\<close>

text \<open>The state that enters the next round of a loop, before it is joined in.\<close>

definition loop_next :: "(per_param_state \<Rightarrow> flow) \<Rightarrow> (per_param_state \<Rightarrow> flow) \<Rightarrow> per_param_state \<Rightarrow> per_param_state" where
  "loop_next body check s =
     (let a = body s in fw_state (check (fold_continue_states (fw_reach a) (fw_state a) s (fw_continues a))))"

text \<open>
  A relation of states together with one of the lists of collected states, for the two ways lists
  are compared: position by position, or as sets.
\<close>

locale flow_relation = state_relation +
  fixes LR :: "per_param_state list \<Rightarrow> per_param_state list \<Rightarrow> bool"
  assumes none: "LR [] []"
    and one: "R a b \<Longrightarrow> LR [a] [b]"
    and append: "LR xs ys \<Longrightarrow> LR xs' ys' \<Longrightarrow> LR (xs @ xs') (ys @ ys')"
    and joins: "LR xs ys \<Longrightarrow> R a b \<Longrightarrow> R (fold (\<lambda>x s. join_states s x) xs a) (fold (\<lambda>y s. join_states s y) ys b)"
    and joins_into: "LR xs ys \<Longrightarrow> rel_option R x y \<Longrightarrow> rel_option R (fold join_into xs x) (fold join_into ys y)"
begin

definition related :: "flow \<Rightarrow> flow \<Rightarrow> bool" where
  "related a b \<longleftrightarrow> R (fw_state a) (fw_state b) \<and> fw_reach a = fw_reach b \<and>
     LR (fw_exits a) (fw_exits b) \<and> LR (fw_breaks a) (fw_breaks b) \<and> LR (fw_continues a) (fw_continues b)"

definition steps :: "flow_step \<Rightarrow> flow_step \<Rightarrow> bool" where
  "steps p q \<longleftrightarrow> (\<forall>n s t. R s t \<longrightarrow> related (p n s) (q n t))"

lemma stepsD: "steps p q \<Longrightarrow> R s t \<Longrightarrow> related (p n s) (q n t)"
  by (simp add: steps_def)

lemma fell: "R s t \<Longrightarrow> related (f_fell s) (f_fell t)"
  by (simp add: related_def none)

lemma thens: "related a b \<Longrightarrow> (\<And>s t. R s t \<Longrightarrow> related (k s) (l t)) \<Longrightarrow> related (f_then a k) (f_then b l)"
  by (simp add: related_def append)

lemma seqs: "related a b \<Longrightarrow> (\<And>s t. R s t \<Longrightarrow> related (k s) (l t)) \<Longrightarrow> related (f_seq a k) (f_seq b l)"
  using thens [of a b k l] by (simp add: f_seq_def) (simp add: related_def)

lemma leaves_related: "steps p q \<Longrightarrow> R s t \<Longrightarrow> related (flow_leaves p ns s) (flow_leaves q ns t)"
proof (induction ns arbitrary: s t)
  case (Cons n ns)
  then show ?case by (simp add: thens stepsD)
qed (simp add: fell)

lemma seq_related: "steps p q \<Longrightarrow> R s t \<Longrightarrow> related (flow_seq p ns s) (flow_seq q ns t)"
proof (induction ns arbitrary: s t)
  case (Cons n ns)
  then show ?case by (simp add: seqs stepsD)
qed (simp add: fell)

lemma events_related: "steps p q \<Longrightarrow> R s t \<Longrightarrow> related (flow_events p px evs s) (flow_events q px evs t)"
proof (induction evs arbitrary: s t)
  case (Cons e evs)
  then show ?case by (cases e) (simp_all add: seqs stepsD read_kept)
qed (simp add: fell)

lemma arm_related: "steps p q \<Longrightarrow> R s t \<Longrightarrow> related (flow_arm p b s) (flow_arm q b t)"
  by (cases b) (simp_all add: flow_arm_def fell stepsD)

lemma arms_kept:
  assumes "R s s'" "R t t'"
  shows "R (fst (merge_arms (s, r) (t, q))) (fst (merge_arms (s', r) (t', q)))"
    "snd (merge_arms (s, r) (t, q)) = snd (merge_arms (s', r) (t', q))"
  using assms by (cases r; cases q; simp add: join_kept)+

lemma if_related:
  assumes "steps p q" "R s t"
  shows "related (flow_if p a b s) (flow_if q a b t)"
proof -
  have ab: "related (flow_arm p a s) (flow_arm q a t)" "related (flow_arm p b s) (flow_arm q b t)"
    using assms by (simp_all add: arm_related)
  then have r: "fw_reach (flow_arm q a t) = fw_reach (flow_arm p a s)" "fw_reach (flow_arm q b t) = fw_reach (flow_arm p b s)"
    and s: "R (fw_state (flow_arm p a s)) (fw_state (flow_arm q a t))" "R (fw_state (flow_arm p b s)) (fw_state (flow_arm q b t))"
    by (simp_all add: related_def)
  show ?thesis
    using ab arms_kept [OF s] unfolding flow_if_def Let_def related_def r by (simp add: append)
qed

lemma into_kept: "R s t \<Longrightarrow> rel_option R x y \<Longrightarrow> rel_option R (join_into s x) (join_into t y)"
  by (cases x; cases y) (simp_all add: join_into_def join_kept)

lemma branches_related:
  "steps p q \<Longrightarrow> R s t \<Longrightarrow> rel_option R x y \<Longrightarrow>
     rel_option R (fst (flow_branches p cs s x)) (fst (flow_branches q cs t y)) \<and>
     related (snd (flow_branches p cs s x)) (snd (flow_branches q cs t y))"
proof (induction cs arbitrary: x y)
  case Nil
  then show ?case by (simp add: fell)
next
  case (Cons c cs)
  have c: "related (p c s) (q c t)" using Cons.prems by (simp add: stepsD)
  then have "rel_option R (if fw_reach (p c s) = R_Normal then join_into (fw_state (p c s)) x else x)
      (if fw_reach (q c t) = R_Normal then join_into (fw_state (q c t)) y else y)"
    using Cons.prems by (simp add: related_def into_kept)
  from Cons.IH [OF Cons.prems(1,2) this] c show ?case
    by (auto simp: Let_def split_beta intro!: thens)
qed

lemma case_related:
  assumes "steps p q" "R s t"
  shows "related (flow_case p cs s) (flow_case q cs t)"
  using branches_related [OF assms, of None None cs] assms(2)
  by (cases "fst (flow_branches p cs s None)"; cases "fst (flow_branches q cs t None)")
    (simp_all add: flow_case_def split_beta Let_def related_def join_kept)

lemma continues_related:
  "related a b \<Longrightarrow> R s t \<Longrightarrow>
     R (fold_continue_states (fw_reach a) (fw_state a) s (fw_continues a))
       (fold_continue_states (fw_reach b) (fw_state b) t (fw_continues b))"
  using joins_into [of "fw_continues a" "fw_continues b"
      "if fw_reach a = R_Normal then Some (fw_state a) else None" "if fw_reach b = R_Normal then Some (fw_state b) else None"]
  by (cases "fold join_into (fw_continues a) (if fw_reach a = R_Normal then Some (fw_state a) else None)";
      cases "fold join_into (fw_continues b) (if fw_reach b = R_Normal then Some (fw_state b) else None)")
    (auto simp: related_def fold_continue_states_def unwrap_or_def split: if_splits)

lemma next_kept:
  assumes "\<And>s t. R s t \<Longrightarrow> related (b s) (b' t)" "\<And>s t. R s t \<Longrightarrow> related (c s) (c' t)" "R s t"
  shows "R (loop_next b c s) (loop_next b' c' t)"
  using assms(2) [OF continues_related [OF assms(1) [OF assms(3)] assms(3)]] by (simp add: related_def loop_next_def Let_def)

lemma walk_next_kept: "steps q q \<Longrightarrow> R s t \<Longrightarrow> R (loop_next (q n) (flow_leaves q ns) s) (loop_next (q n) (flow_leaves q ns) t)"
  by (rule next_kept) (simp_all add: stepsD leaves_related)

lemma round_related:
  assumes "\<And>s t. R s t \<Longrightarrow> related (b s) (b' t)" "\<And>s t. R s t \<Longrightarrow> related (c s) (c' t)" "R s t"
  shows "related (flow_round b c s) (flow_round b' c' t)"
proof -
  let ?x = "fold_continue_states (fw_reach (b s)) (fw_state (b s)) s (fw_continues (b s))"
    and ?y = "fold_continue_states (fw_reach (b' t)) (fw_state (b' t)) t (fw_continues (b' t))"
  have "related (b s) (b' t)" using assms by simp
  moreover have "related (c ?x) (c' ?y)"
    using assms by (simp add: continues_related)
  ultimately show ?thesis
    using assms(3) by (simp add: flow_round_def Let_def related_def append join_kept none)
qed

lemma pad_rounds_related:
  assumes "\<And>s t. R s t \<Longrightarrow> related (b s) (b' t)" "\<And>s t. R s t \<Longrightarrow> related (c s) (c' t)"
  shows "R s t \<Longrightarrow> related (pad_rounds k b c s) (pad_rounds k b' c' t)"
proof (induction k arbitrary: s t)
  case (Suc k)
  then show ?case using round_related [OF assms] by (simp add: thens)
qed (simp add: fell)

lemma after_breaks_related: "related f g \<Longrightarrow> R s t \<Longrightarrow> related (after_breaks s f) (after_breaks t g)"
  by (simp add: related_def after_breaks_def joins none)

lemma pad_loop_related:
  assumes "\<And>s t. R s t \<Longrightarrow> related (b s) (b' t)" "\<And>s t. R s t \<Longrightarrow> related (c s) (c' t)" "R s t"
  shows "related (pad_loop b c s) (pad_loop b' c' t)"
  using pad_rounds_related [OF assms] by (auto simp: pad_loop_def Let_def related_def intro!: after_breaks_related [unfolded related_def])

lemma exit_related: "related a b \<Longrightarrow> related (f_exit a) (f_exit b)"
  by (simp add: related_def f_exit_def append one)

lemma op_transfer_kept: "R s t \<Longrightarrow> R (op_transfer env n s) (op_transfer env n t)"
  by (simp add: op_transfer_def op_kept split: option.splits)

lemma call_transfer_kept: "R s t \<Longrightarrow> R (call_transfer env n s) (call_transfer env n t)"
  by (auto simp: call_transfer_def apply_call_def Let_def callee_kept split: option.splits)

text \<open>The whole walk, when the two treatments of loops are related.\<close>

definition loops_related :: "flow_loops \<Rightarrow> flow_loops \<Rightarrow> flow_step \<Rightarrow> flow_step \<Rightarrow> bool" where
  "loops_related lp lq p q \<longleftrightarrow>
     (\<forall>n ns s t. R s t \<longrightarrow> related (lp (p n) (flow_leaves p ns) s) (lq (q n) (flow_leaves q ns) t))"

lemma one_related:
  assumes "steps p q" "loops_related lp lq p q"
  shows "steps (flow_one lp p env) (flow_one lq q env)"
  unfolding steps_def
proof (intro allI impI)
  fix n s t
  assume st: "R s t"
  have l: "related (flow_leaves p (condition_leaves_of n) s) (flow_leaves q (condition_leaves_of n) t)"
    using assms(1) st by (rule leaves_related)
  have loop: "R s t \<Longrightarrow> related (lp (p b) (flow_leaves p ns) s) (lq (q b) (flow_leaves q ns) t)" for b ns s t
    using assms(2) by (simp add: loops_related_def)
  have brk: "related (Flow s R_Abrupt [] [s] []) (Flow t R_Abrupt [] [t] [])"
    "related (Flow s R_Abrupt [] [] [s]) (Flow t R_Abrupt [] [] [t])"
    using st by (simp_all add: related_def none one)
  show "related (flow_one lp p env n s) (flow_one lq q env n t)"
    unfolding flow_one_def Let_def
    using assms(1) st l loop brk
    by (auto intro!: thens events_related if_related case_related seq_related exit_related fell op_transfer_kept
        call_transfer_kept saturate_kept split: option.splits)
qed

lemma cfg_related:
  assumes "\<And>d. steps (flow_cfg lp d env) (flow_cfg lq d env) \<Longrightarrow> loops_related lp lq (flow_cfg lp d env) (flow_cfg lq d env)"
  shows "steps (flow_cfg lp d env) (flow_cfg lq d env)"
proof (induction d)
  case 0
  show ?case by (simp add: steps_def fell saturate_kept)
next
  case (Suc d)
  from one_related [OF this assms [OF this]] show ?case by simp
qed

lemma padded_walk_related: "steps (flow_cfg pad_loop d env) (flow_cfg pad_loop d env)"
  by (rule cfg_related) (simp add: loops_related_def pad_loop_related stepsD leaves_related)

end

section \<open>The two comparisons of lists\<close>

text \<open>Position by position, for every relation of states.\<close>

sublocale state_relation \<subseteq> padded: flow_relation R "list_all2 R"
proof
  fix xs ys x y
  assume "list_all2 R xs ys" "rel_option R x y"
  then show "rel_option R (fold join_into xs x) (fold join_into ys y)"
  proof (induction arbitrary: x y rule: list_all2_induct)
    case (Cons a xs b ys)
    then have "rel_option R (join_into a x) (join_into b y)"
      by (cases x; cases y) (simp_all add: join_into_def join_kept)
    with Cons.IH show ?case by simp
  qed simp
qed (simp_all add: list_all2_appendI joins_kept)

text \<open>As sets of states, up to the order of field lists.\<close>

definition same_ends :: "per_param_state list \<Rightarrow> per_param_state list \<Rightarrow> bool" where
  "same_ends xs ys \<longleftrightarrow> (\<forall>x \<in> set xs. \<exists>y \<in> set ys. same_state x y) \<and> (\<forall>y \<in> set ys. \<exists>x \<in> set xs. same_state x y)"

lemma same_state_refl [simp]: "same_state a a"
  by (simp add: same_state_def)

lemma same_state_sym: "same_state a b \<Longrightarrow> same_state b a"
  by (simp add: same_state_def)

lemma same_state_trans: "same_state a b \<Longrightarrow> same_state b c \<Longrightarrow> same_state a c"
  by (auto simp: same_state_def intro: state_le_trans)

lemma same_ends_trans: "same_ends xs ys \<Longrightarrow> same_ends ys zs \<Longrightarrow> same_ends xs zs"
  unfolding same_ends_def by (meson same_state_trans)

lemma same_ends_append_right: "same_ends xs ys \<Longrightarrow> same_ends xs zs \<Longrightarrow> same_ends xs (ys @ zs)"
  by (auto simp: same_ends_def)

lemma list_same_ends: "list_all2 same_state xs ys \<Longrightarrow> same_ends xs ys"
  by (induction rule: list_all2_induct) (auto simp: same_ends_def)

lemma join_le_iff: "state_le (join_states a b) y \<longleftrightarrow> state_le a y \<and> state_le b y"
  by (meson join_states_least join_states_upper state_le_trans)

lemma fold_join_le:
  "state_le (fold (\<lambda>x s. join_states s x) xs a) y \<longleftrightarrow> state_le a y \<and> (\<forall>x \<in> set xs. state_le x y)"
  by (induction xs arbitrary: a) (auto simp: join_le_iff)

lemma same_fold:
  assumes "same_ends xs ys" "same_state a b"
  shows "same_state (fold (\<lambda>x s. join_states s x) xs a) (fold (\<lambda>y s. join_states s y) ys b)" (is "same_state ?x ?y")
proof -
  have "state_le b ?y" "\<forall>y \<in> set ys. state_le y ?y" "state_le a ?x" "\<forall>x \<in> set xs. state_le x ?x"
    using fold_join_le [of ys b ?y] fold_join_le [of xs a ?x] by simp_all
  with assms have "state_le ?x ?y" "state_le ?y ?x"
    by (simp_all add: fold_join_le same_ends_def same_state_def) (meson state_le_trans)+
  then show ?thesis by (simp add: same_state_def)
qed

lemma fold_join_into: "fold join_into xs (Some a) = Some (fold (\<lambda>x s. join_states s x) xs a)"
  by (induction xs arbitrary: a) (simp_all add: join_into_def)

lemma fold_join_into_none: "fold join_into (x # xs) None = Some (fold (\<lambda>x s. join_states s x) xs x)"
  by (simp add: join_into_def [of x] fold_join_into)

interpretation ends: flow_relation same_state same_ends
proof
  fix xs ys x y
  assume e: "same_ends xs ys" and r: "rel_option same_state x y"
  show "rel_option same_state (fold join_into xs x) (fold join_into ys y)"
  proof (cases "x = None \<and> y = None")
    case False
    with r obtain a b where "x = Some a" "y = Some b" "same_state a b" by (cases x; cases y) auto
    with e show ?thesis by (simp add: fold_join_into same_fold)
  next
    case True
    show ?thesis
    proof (cases xs)
      case Nil
      with e have "ys = []" by (cases ys) (auto simp: same_ends_def)
      with Nil True show ?thesis by simp
    next
      case (Cons a as)
      with e obtain b bs where ys: "ys = b # bs" by (cases ys) (auto simp: same_ends_def)
      let ?x = "fold (\<lambda>x s. join_states s x) as a" and ?y = "fold (\<lambda>x s. join_states s x) bs b"
      have "\<forall>x \<in> set xs. state_le x ?x" "\<forall>y \<in> set ys. state_le y ?y"
        using fold_join_le [of as a ?x] fold_join_le [of bs b ?y] by (simp_all add: Cons ys)
      with e have "\<forall>x \<in> set xs. state_le x ?y" "\<forall>y \<in> set ys. state_le y ?x"
        by (auto simp: same_ends_def same_state_def) (meson state_le_trans)+
      then have "same_state ?x ?y" by (simp add: same_state_def fold_join_le Cons ys)
      then show ?thesis using True by (simp only: Cons ys fold_join_into_none) simp
    qed
  qed
next
  fix xs ys xs' ys'
  assume "same_ends xs ys" "same_ends xs' ys'"
  then show "same_ends (xs @ xs') (ys @ ys')" by (auto simp: same_ends_def)
qed (auto simp: same_ends_def intro: same_fold [unfolded same_ends_def])

section \<open>Two rounds reach a fixed point\<close>

text \<open>What a walk keeps, as a property of a function of states.\<close>

definition keeps :: "(per_param_state \<Rightarrow> per_param_state) \<Rightarrow> bool" where
  "keeps g \<longleftrightarrow>
     (\<forall>s t. pp_loaded s = pp_loaded t \<longrightarrow> pp_loaded (g s) = pp_loaded (g t)) \<and>
     (\<forall>s t. pp_dirty s = pp_dirty t \<longrightarrow> pp_dirty (g s) = pp_dirty (g t)) \<and>
     (\<forall>s t. pp_pending_narrow s = pp_pending_narrow t \<longrightarrow> pp_pending_narrow (g s) = pp_pending_narrow (g t)) \<and>
     (\<forall>s t. pp_pending_narrow s = pp_pending_narrow t \<and> pp_current_loaded_fields s = pp_current_loaded_fields t \<longrightarrow>
        pp_current_loaded_fields (g s) = pp_current_loaded_fields (g t)) \<and>
     (\<forall>x s t. entry_shift x s t \<longrightarrow> entry_shift x (g s) (g t))"

lemma flat_two_rounds:
  fixes a0 a1 a2 :: "'a :: semilattice_sup"
  assumes "a1 = sup a0 b0" "a2 = sup a1 b1" "a1 = a0 \<Longrightarrow> b1 = b0" "a2 = a1 \<Longrightarrow> b2 = b1"
    and "\<And>u v :: 'a. u \<le> v \<Longrightarrow> u \<noteq> v \<Longrightarrow> v = top'" "\<And>u :: 'a. u \<le> top'"
  shows "a2 = a1" "b2 \<le> a2"
proof -
  show "a2 = a1"
  proof (cases "a1 = a0")
    case True
    then show ?thesis using assms(1-3) by (metis sup.idem sup.assoc)
  next
    case False
    then have "a1 = top'" using assms(1) assms(5) [of a0 a1] by simp
    then show ?thesis using assms(2) assms(6) by (simp add: sup.absorb1)
  qed
  then have "b2 = b1" by (rule assms(4))
  then show "b2 \<le> a2" by (simp add: assms(2))
qed

lemma keepsD:
  assumes "keeps g"
  shows "pp_loaded s = pp_loaded t \<Longrightarrow> pp_loaded (g s) = pp_loaded (g t)"
    and "pp_dirty s = pp_dirty t \<Longrightarrow> pp_dirty (g s) = pp_dirty (g t)"
    and "pp_pending_narrow s = pp_pending_narrow t \<Longrightarrow> pp_pending_narrow (g s) = pp_pending_narrow (g t)"
    and "pp_pending_narrow s = pp_pending_narrow t \<Longrightarrow> pp_current_loaded_fields s = pp_current_loaded_fields t \<Longrightarrow>
        pp_current_loaded_fields (g s) = pp_current_loaded_fields (g t)"
    and "entry_shift x s t \<Longrightarrow> entry_shift x (g s) (g t)"
  using assms unfolding keeps_def by blast+

lemma two_rounds_settle:
  assumes "keeps g" "s1 = join_states s0 (g s0)" "s2 = join_states s1 (g s1)"
  shows "state_le (g s2) s2"
proof -
  note keep = keepsD [OF assms(1)]
  have l: "pp_loaded s2 = pp_loaded s1" "pp_loaded (g s2) \<le> pp_loaded s2"
    using flat_two_rounds [of "pp_loaded s1" "pp_loaded s0" "pp_loaded (g s0)" "pp_loaded s2" "pp_loaded (g s1)"
        "pp_loaded (g s2)" L_Unknown] keep(1) [of s1 s0] keep(1) [of s2 s1]
    by (simp_all add: assms(2,3) join_states_def sup_loaded_def less_eq_loaded_def)
  have p: "pp_pending_narrow s2 = pp_pending_narrow s1" "pp_pending_narrow (g s2) \<le> pp_pending_narrow s2"
    using flat_two_rounds [of "pp_pending_narrow s1" "pp_pending_narrow s0" "pp_pending_narrow (g s0)" "pp_pending_narrow s2"
        "pp_pending_narrow (g s1)" "pp_pending_narrow (g s2)" PN_Unknown] keep(3) [of s1 s0] keep(3) [of s2 s1]
    by (simp_all add: assms(2,3) join_states_def sup_pending_narrow_def less_eq_pending_narrow_def)
  have "pp_current_loaded_fields (g s2) \<le> pp_current_loaded_fields s2"
  proof (cases "pp_current_loaded_fields s2 = pp_current_loaded_fields s1")
    case True
    then have "pp_current_loaded_fields (g s2) = pp_current_loaded_fields (g s1)"
      using p(1) by (intro keep)
    then show ?thesis by (simp add: assms(3) join_states_def sup_loaded_fields_def [symmetric])
  next
    case False
    then have "pp_current_loaded_fields s2 = LF_Unknown"
      by (simp add: assms(3) join_states_def join_loaded_fields_flat split: if_splits)
    then show ?thesis by (simp add: less_eq_loaded_fields_def)
  qed
  moreover have "pp_dirty (g s2) \<le> pp_dirty s2"
  proof (cases "pp_dirty s2 = pp_dirty s1")
    case True
    then have "pp_dirty (g s2) = pp_dirty (g s1)" by (rule keep)
    then show ?thesis by (simp add: assms(3) join_states_def sup_dirty_def [symmetric])
  next
    case False
    have "pp_dirty s1 = pp_dirty s0 \<Longrightarrow> pp_dirty (g s1) = pp_dirty (g s0)" by (rule keep)
    with False have "pp_dirty s2 = D_DirtyV"
      by (auto simp: assms(2,3) join_states_def join_dirty_def split: if_splits)
    then show ?thesis by (simp add: less_eq_dirty_def)
  qed
  moreover have "entry_shift (g s1) s1 s2"
    using l(1) by (simp add: entry_shift_def assms(3) join_states_def join_presence_max)
  then have "entry_shift (g s1) (g s1) (g s2)" by (rule keep)
  then have "pp_requires_loaded_at_entry (g s2) \<le> pp_requires_loaded_at_entry s2"
    "pp_mutates_before_load (g s2) \<le> pp_mutates_before_load s2"
    "fields_le (pp_required_fields (g s2)) (pp_required_fields s2)"
    by (auto simp: entry_shift_def assms(3) join_states_def join_presence_max same_fields_def
        intro: fields_le_trans [OF _ join_fields_least [OF join_fields_upper(2) join_fields_upper(2)]])
  ultimately show ?thesis using l(2) p(2) by (simp add: state_le_def)
qed

section \<open>Loops settle\<close>

lemma fw_state_round: "fw_state (flow_round b c s) = join_states s (loop_next b c s)"
  by (simp add: flow_round_def loop_next_def Let_def)

lemma fw_reach_round [simp]: "fw_reach (flow_round b c s) = R_Normal"
  by (simp add: flow_round_def Let_def)

abbreviation pad_walk :: "nat \<Rightarrow> walk_env \<Rightarrow> flow_step" where
  "pad_walk \<equiv> flow_cfg pad_loop"

lemma pad_next_keeps: "keeps (loop_next (pad_walk d env n) (flow_leaves (pad_walk d env) ns))"
  unfolding keeps_def
  by (intro conjI allI impI;
      (rule same_loaded.padded.walk_next_kept [OF same_loaded.padded.padded_walk_related] |
       rule same_dirty.padded.walk_next_kept [OF same_dirty.padded.padded_walk_related] |
       rule same_narrow.padded.walk_next_kept [OF same_narrow.padded.padded_walk_related] |
       rule same_loaded_fields.padded.walk_next_kept [OF same_loaded_fields.padded.padded_walk_related, THEN conjunct2] |
       rule shift.padded.walk_next_kept [OF shift.padded.padded_walk_related]); assumption)

lemma pad_round_related:
  assumes "same_state s t"
  shows "ends.related (flow_round (pad_walk d env n) (flow_leaves (pad_walk d env) ns) s)
           (flow_round (pad_walk d env n) (flow_leaves (pad_walk d env) ns) t)"
proof -
  note steps = same.padded.padded_walk_related [of d env]
  have "same.padded.related (flow_round (pad_walk d env n) (flow_leaves (pad_walk d env) ns) s)
      (flow_round (pad_walk d env n) (flow_leaves (pad_walk d env) ns) t)"
    by (rule same.padded.round_related [OF same.padded.stepsD [OF steps] same.padded.leaves_related [OF steps] assms])
  then show ?thesis
    by (simp add: same.padded.related_def ends.related_def list_same_ends)
qed

lemma ends_trans: "ends.related a b \<Longrightarrow> ends.related b c \<Longrightarrow> ends.related a c"
  unfolding ends.related_def by (metis same_state_trans same_ends_trans)

lemma ends_absorb: "ends.related a b \<Longrightarrow> ends.related a (k (fw_state b)) \<Longrightarrow> ends.related a (f_then b k)"
  by (simp add: ends.related_def same_ends_append_right)

text \<open>Once a round changes nothing, further rounds add nothing new.\<close>

lemma pad_rounds_stable:
  fixes d env n ns
  defines "Q \<equiv> flow_round (pad_walk d env n) (flow_leaves (pad_walk d env) ns)"
  assumes "same_state (fw_state (Q t)) t" "ends.related a (Q t)"
  shows "ends.related a (pad_rounds (Suc k) (pad_walk d env n) (flow_leaves (pad_walk d env) ns) t)"
  using assms(2,3)
proof (induction k arbitrary: t)
  case 0
  then show ?case
    by (simp add: Q_def [symmetric] ends.related_def) (simp add: Q_def)
next
  case (Suc k)
  let ?t = "fw_state (Q t)"
  have r: "ends.related (Q t) (Q ?t)"
    unfolding Q_def by (rule pad_round_related) (use Suc.prems(1) in \<open>simp add: Q_def same_state_sym\<close>)
  then have fixed: "same_state (fw_state (Q ?t)) ?t"
    by (simp add: ends.related_def same_state_sym)
  have "ends.related a (Q ?t)" using Suc.prems(2) r by (rule ends_trans)
  from Suc.IH [OF fixed this] Suc.prems(2) show ?case
    unfolding pad_rounds.simps(2) [of "Suc k"] Q_def [symmetric] by (intro ends_absorb)
qed

text \<open>A join result has its required fields sorted, so a fixed point is recognised by equality.\<close>

definition sorted_fields :: "per_param_state \<Rightarrow> bool" where
  "sorted_fields s \<longleftrightarrow> (case pp_required_fields s of RF_Unknown \<Rightarrow> True | RF_Set fs \<Rightarrow> sorted fs)"

lemma join_sorted: "sorted_fields (join_states a b)"
  by (cases "pp_required_fields a"; cases "pp_required_fields b") (simp_all add: sorted_fields_def join_states_def)

lemma join_absorb:
  assumes "sorted_fields a" "state_le b a"
  shows "join_states a b = a"
proof -
  have "join_required_fields (pp_required_fields a) (pp_required_fields b) = pp_required_fields a"
    using assms
    by (cases "pp_required_fields a"; cases "pp_required_fields b")
      (simp_all add: sorted_fields_def state_le_def push_all_absorb sorted_sort_id)
  with assms(2) show ?thesis
    by (simp add: join_states_def joins_sup state_le_def sup.absorb1 max.absorb1)
qed

text \<open>Early exit against the full number of rounds.\<close>

lemma rounds_match:
  fixes d env n ns p
  defines "b \<equiv> pad_walk d env n" and "c \<equiv> flow_leaves (pad_walk d env) ns"
  assumes p: "ends.steps p (pad_walk d env)" and st: "same_state s t"
  shows "\<exists>f. fst (fst (flow_rounds LOOP_BOUND (p n) (flow_leaves p ns) s)) = Some (fw_state f) \<and>
    snd (flow_rounds LOOP_BOUND (p n) (flow_leaves p ns) s) = f \<and> ends.related f (pad_rounds LOOP_BOUND b c t)"
proof -
  let ?P = "flow_round (p n) (flow_leaves p ns)" and ?Q = "flow_round b c"
  have PQ: "ends.related (?P s) (?Q t)" if "same_state s t" for s t
    unfolding b_def c_def using that
    by (intro ends.round_related ends.stepsD [OF p] ends.leaves_related [OF p])
  have QQ: "ends.related (?Q s) (?Q t)" if "same_state s t" for s t
    unfolding b_def c_def using that by (rule pad_round_related)
  let ?s1 = "fw_state (?P s)" and ?t1 = "fw_state (?Q t)"
  let ?s2 = "fw_state (?P ?s1)" and ?t2 = "fw_state (?Q ?t1)"
  let ?s3 = "fw_state (?P ?s2)" and ?t3 = "fw_state (?Q ?t2)"
  have e1: "same_state ?s1 ?t1" using PQ [OF st] by (simp add: ends.related_def)
  have e2: "same_state ?s2 ?t2" using PQ [OF e1] by (simp add: ends.related_def)
  have e3: "same_state ?s3 ?t3" using PQ [OF e2] by (simp add: ends.related_def)
  have b3: "LOOP_BOUND = Suc (Suc (Suc 0))" by (simp add: LOOP_BOUND_def)
  have stable: "ends.related a (pad_rounds (Suc k) b c u)" if "same_state (fw_state (?Q u)) u" "ends.related a (?Q u)" for a k u
    using pad_rounds_stable [of d env n ns u a k] that by (simp add: b_def c_def)
  consider (one) "?s1 = s" | (two) "?s1 \<noteq> s" "?s2 = ?s1" | (three) "?s1 \<noteq> s" "?s2 \<noteq> ?s1" by blast
  then show ?thesis
  proof cases
    case one
    have "same_state ?t1 t" using e1 st one by (metis same_state_sym same_state_trans)
    from stable [OF this PQ [OF st], of "Suc (Suc 0)"] one show ?thesis
      by (simp add: b3 Let_def)
  next
    case two
    have "same_state ?t2 ?t1" using e1 e2 two by (metis same_state_sym same_state_trans)
    from stable [OF this PQ [OF e1], of "Suc 0"] two PQ [OF st] show ?thesis
      by (simp add: b3 Let_def split_beta ends.related_def ends.append)
  next
    case three
    have "state_le (loop_next b c ?t2) ?t2"
      by (rule two_rounds_settle [of _ ?t1 t]) (simp_all add: fw_state_round b_def c_def pad_next_keeps)
    then have "state_le ?t3 ?t2" by (simp add: fw_state_round [of b c ?t2] join_le_iff)
    with e2 e3 have "state_le ?s3 ?s2" unfolding same_state_def by (meson state_le_trans)
    then have "state_le (loop_next (p n) (flow_leaves p ns) ?s2) ?s2"
      by (simp add: fw_state_round [of _ _ ?s2] join_le_iff)
    moreover have "sorted_fields ?s2" unfolding fw_state_round [of _ _ ?s1] by (rule join_sorted)
    ultimately have s3: "?s3 = ?s2" unfolding fw_state_round [of _ _ ?s2] by (rule join_absorb [rotated])
    show ?thesis
      using three s3 PQ [OF st] PQ [OF e1] PQ [OF e2]
      by (simp add: b3 Let_def split_beta ends.related_def ends.append)
  qed
qed

lemma loops_match: "ends.steps p (pad_walk d env) \<Longrightarrow> ends.loops_related flow_loop pad_loop p (pad_walk d env)"
  unfolding ends.loops_related_def
proof (intro allI impI)
  fix n ns s t
  assume "ends.steps p (pad_walk d env)" "same_state s t"
  from rounds_match [OF this, of n ns] obtain f
    where "fst (fst (flow_rounds LOOP_BOUND (p n) (flow_leaves p ns) s)) = Some (fw_state f)"
      "snd (flow_rounds LOOP_BOUND (p n) (flow_leaves p ns) s) = f"
      "ends.related f (pad_rounds LOOP_BOUND (pad_walk d env n) (flow_leaves (pad_walk d env) ns) t)" by blast
  then show "ends.related (flow_loop (p n) (flow_leaves p ns) s)
      (pad_loop (pad_walk d env n) (flow_leaves (pad_walk d env) ns) t)"
    by (auto simp: flow_loop_def pad_loop_def split_beta Let_def ends.related_def intro!: ends.after_breaks_related [unfolded ends.related_def])
qed

lemma walk_matches_padded: "ends.steps (flow_cfg flow_loop d env) (pad_walk d env)"
proof (induction d)
  case 0
  show ?case by (simp add: ends.steps_def ends.fell same.saturate_kept)
next
  case (Suc d)
  from ends.one_related [OF this loops_match [OF this]] show ?case by simp
qed

lemma flow_rounds_settle:
  "fst (fst (flow_rounds LOOP_BOUND (flow_cfg flow_loop d env n) (flow_leaves (flow_cfg flow_loop d env) ns) s)) \<noteq> None"
  using rounds_match [OF walk_matches_padded same_state_refl, of d env n ns s] by auto

end
