(* ===== verification/Walk_Paths.thy ===== *)
theory Walk_Paths
  imports Walk_Settles
begin

text \<open>
  The record-parameter walk against the executions of a body. A path is the sequence of operations,
  calls and field reads that one execution performs, with the way it ends; the state of the parameter
  after it is what the transfers make of it, in order. The walk is proved to cover every path.
\<close>

section \<open>Paths\<close>

datatype flow_event = E_Op model_record_operation | E_Call model_call_site | E_Read field_access | E_Try

fun apply_event :: "walk_env \<Rightarrow> flow_event \<Rightarrow> per_param_state \<Rightarrow> per_param_state" where
  "apply_event env (E_Op op) s = apply_op s op (we_param env)"
| "apply_event env (E_Call cs) s = apply_call env s cs"
| "apply_event env (E_Read fa) s = apply_field_read s fa (we_param env)"
| "apply_event env E_Try s = saturate_unknown s"

definition path_state :: "walk_env \<Rightarrow> flow_event list \<Rightarrow> per_param_state \<Rightarrow> per_param_state" where
  "path_state env es s = fold (apply_event env) es s"

definition op_events :: "walk_env \<Rightarrow> cfn_node \<Rightarrow> flow_event list" where
  "op_events env n = (case Option.bind (nd_operation_id n) (wi_op_by_id (we_idx env)) of Some op \<Rightarrow> [E_Op op] | None \<Rightarrow> [])"

definition call_events :: "walk_env \<Rightarrow> cfn_node \<Rightarrow> flow_event list" where
  "call_events env n = (case Option.bind (nd_callsite_id n) (wi_call_by_id (we_idx env)) of Some cs \<Rightarrow> [E_Call cs] | None \<Rightarrow> [])"

definition asserts_error :: "cfn_node \<Rightarrow> bool" where
  "asserts_error n \<longleftrightarrow> nd_path_hint n = Some AssertError"

text \<open>
  \<open>path env n es r\<close>: one execution of \<open>n\<close> performs the events \<open>es\<close>, in order, and ends with \<open>r\<close>.
  Branch choices are free; a leaf from an alternative of a ternary (\<open>MayRun\<close>) may be skipped; the
  condition of a \<open>while\<close> runs before every iteration, the range of a \<open>for\<close> or \<open>foreach\<close> once;
  \<open>asserterror\<close> swaps an error and a normal end; a \<open>try\<close> may do anything to the record. A block
  performs its statements and its own field accesses in source order.
\<close>

inductive path :: "walk_env \<Rightarrow> cfn_node \<Rightarrow> flow_event list \<Rightarrow> outcome \<Rightarrow> bool"
  and path_list :: "walk_env \<Rightarrow> cfn_node list \<Rightarrow> flow_event list \<Rightarrow> outcome \<Rightarrow> bool"
  and path_events :: "walk_env \<Rightarrow> block_event list \<Rightarrow> flow_event list \<Rightarrow> outcome \<Rightarrow> bool"
  and path_iters :: "walk_env \<Rightarrow> cfn_node \<Rightarrow> flow_event list \<Rightarrow> outcome \<Rightarrow> bool"
  for env :: walk_env
where
  p_nil: "path_list env [] [] Falls"
| p_step: "path env n es Falls \<Longrightarrow> path_list env ns fs r \<Longrightarrow> path_list env (n # ns) (es @ fs) r"
| p_stop: "path env n es r \<Longrightarrow> r \<noteq> Falls \<Longrightarrow> path_list env (n # ns) es r"
| e_nil: "path_events env [] [] Falls"
| e_step: "path env n es Falls \<Longrightarrow> path_events env evs fs r \<Longrightarrow> path_events env (Ev_Child n p # evs) (es @ fs) r"
| e_stop: "path env n es r \<Longrightarrow> r \<noteq> Falls \<Longrightarrow> path_events env (Ev_Child n p # evs) es r"
| e_read: "path_events env evs fs r \<Longrightarrow> path_events env (Ev_Fa fa p # evs) (E_Read fa # fs) r"
| p_skip: "nd_kind n = ''op'' \<or> nd_kind n = ''call'' \<Longrightarrow> nd_path_hint n = Some MayRun \<Longrightarrow> path env n [] Falls"
| p_block: "nd_kind n = ''block'' \<Longrightarrow> path_events env (block_events env n) es r \<Longrightarrow> path env n es r"
| p_branch: "nd_kind n = ''case-branch'' \<Longrightarrow> path_list env (children_of n) es r \<Longrightarrow> path env n es r"
| p_try: "nd_kind n = ''try'' \<Longrightarrow> r \<in> {Falls, Exits, Errs} \<Longrightarrow> path env n [E_Try] r"
| p_break: "nd_kind n = ''break'' \<Longrightarrow> path env n [] Breaks"
| p_continue: "nd_kind n = ''continue'' \<Longrightarrow> path env n [] Conts"
| p_cond: "nd_kind n \<notin> {''block'', ''case-branch'', ''try'', ''break'', ''continue'', ''repeat''} \<Longrightarrow>
    path_list env (condition_leaves_of n) es r \<Longrightarrow> r = Exits \<or> r = Errs \<Longrightarrow> path env n es r"
| p_op: "nd_kind n = ''op'' \<Longrightarrow> path_list env (condition_leaves_of n) ls Falls \<Longrightarrow> path env n (ls @ op_events env n) Falls"
| p_call: "nd_kind n = ''call'' \<Longrightarrow> path_list env (condition_leaves_of n) ls Falls \<Longrightarrow> path env n (ls @ call_events env n) Falls"
| p_exit: "nd_kind n = ''exit'' \<Longrightarrow> path_list env (condition_leaves_of n) ls Falls \<Longrightarrow> path env n ls Exits"
| p_error: "nd_kind n = ''error'' \<Longrightarrow> path_list env (condition_leaves_of n) ls Falls \<Longrightarrow> path env n ls Errs"
| p_then: "nd_kind n = ''if'' \<Longrightarrow> path_list env (condition_leaves_of n) ls Falls \<Longrightarrow>
    path_list env (first_arm (children_of n)) es r \<Longrightarrow> path env n (ls @ es) r"
| p_else: "nd_kind n = ''if'' \<Longrightarrow> path_list env (condition_leaves_of n) ls Falls \<Longrightarrow>
    path_list env (first_arm (else_children_of n)) es r \<Longrightarrow> path env n (ls @ es) r"
| p_case: "nd_kind n = ''case'' \<Longrightarrow> path_list env (condition_leaves_of n) ls Falls \<Longrightarrow>
    c \<in> set (children_of n) \<Longrightarrow> path env c es r \<Longrightarrow> path env n (ls @ es) r"
| p_no_case: "nd_kind n = ''case'' \<Longrightarrow> path_list env (condition_leaves_of n) ls Falls \<Longrightarrow>
    \<not> list_ex nd_is_case_else (children_of n) \<Longrightarrow> path env n ls Falls"
| p_loop: "nd_kind n \<in> {''while'', ''for'', ''foreach''} \<Longrightarrow>
    path_list env (condition_leaves_of n) ls Falls \<Longrightarrow> path_iters env n es r \<Longrightarrow> path env n (ls @ es) r"
| p_repeat: "nd_kind n = ''repeat'' \<Longrightarrow> path_iters env n es r \<Longrightarrow> path env n es r"
| p_other: "\<not> compound_kind (nd_kind n) \<Longrightarrow> \<not> asserts_error n \<Longrightarrow> path_list env (condition_leaves_of n) ls Falls \<Longrightarrow>
    path_list env (children_of n) es r \<Longrightarrow> path env n (ls @ es) r"
| p_caught: "\<not> compound_kind (nd_kind n) \<Longrightarrow> asserts_error n \<Longrightarrow> path_list env (condition_leaves_of n) ls Falls \<Longrightarrow>
    path_list env (children_of n) es Errs \<Longrightarrow> path env n (ls @ es) Falls"
| p_uncaught: "\<not> compound_kind (nd_kind n) \<Longrightarrow> asserts_error n \<Longrightarrow> path_list env (condition_leaves_of n) ls Falls \<Longrightarrow>
    path_list env (children_of n) es Falls \<Longrightarrow> path env n (ls @ es) Errs"
| i_done: "nd_kind n \<noteq> ''repeat'' \<Longrightarrow> path_iters env n [] Falls"
| i_next: "nd_kind n \<noteq> ''repeat'' \<Longrightarrow> path_list env (first_arm (children_of n)) es r \<Longrightarrow> r = Falls \<or> r = Conts \<Longrightarrow>
    path_list env (recheck n) cs Falls \<Longrightarrow> path_iters env n fs r' \<Longrightarrow> path_iters env n (es @ cs @ fs) r'"
| i_check: "nd_kind n \<noteq> ''repeat'' \<Longrightarrow> path_list env (first_arm (children_of n)) es r \<Longrightarrow> r = Falls \<or> r = Conts \<Longrightarrow>
    path_list env (recheck n) cs r' \<Longrightarrow> r' = Exits \<or> r' = Errs \<Longrightarrow> path_iters env n (es @ cs) r'"
| i_break: "nd_kind n \<noteq> ''repeat'' \<Longrightarrow> path_list env (first_arm (children_of n)) es Breaks \<Longrightarrow> path_iters env n es Falls"
| i_leave: "nd_kind n \<noteq> ''repeat'' \<Longrightarrow> path_list env (first_arm (children_of n)) es r \<Longrightarrow> r = Exits \<or> r = Errs \<Longrightarrow>
    path_iters env n es r"
| r_next: "nd_kind n = ''repeat'' \<Longrightarrow> path env (synthetic_block n) es r \<Longrightarrow> r = Falls \<or> r = Conts \<Longrightarrow>
    path_list env (condition_leaves_of n) cs Falls \<Longrightarrow> path_iters env n fs r' \<Longrightarrow> path_iters env n (es @ cs @ fs) r'"
| r_done: "nd_kind n = ''repeat'' \<Longrightarrow> path env (synthetic_block n) es r \<Longrightarrow> r = Falls \<or> r = Conts \<Longrightarrow>
    path_list env (condition_leaves_of n) cs r' \<Longrightarrow> r' = Falls \<or> r' = Exits \<or> r' = Errs \<Longrightarrow> path_iters env n (es @ cs) r'"
| r_break: "nd_kind n = ''repeat'' \<Longrightarrow> path env (synthetic_block n) es Breaks \<Longrightarrow> path_iters env n es Falls"
| r_leave: "nd_kind n = ''repeat'' \<Longrightarrow> path env (synthetic_block n) es r \<Longrightarrow> r = Exits \<or> r = Errs \<Longrightarrow> path_iters env n es r"

section \<open>Bodies the walk covers\<close>

text \<open>The depth budget is enough for a subtree.\<close>

primrec walk_fits :: "nat \<Rightarrow> cfn_node \<Rightarrow> bool" where
  "walk_fits 0 n = False"
| "walk_fits (Suc d) n =
     (list_all (walk_fits d) (condition_leaves_of n) \<and> list_all (walk_fits d) (else_children_of n) \<and>
      (if nd_kind n = ''repeat'' then walk_fits d (synthetic_block n) else list_all (walk_fits d) (children_of n)))"

text \<open>
  The shape of a node: a loop has a body, the range of a \<open>for\<close> or \<open>foreach\<close> performs nothing, no
  alternative of a ternary performs anything, and there is no \<open>asserterror\<close>.
\<close>

definition plain_node :: "cfn_node \<Rightarrow> bool" where
  "plain_node n \<longleftrightarrow>
     (is_loop_kind (nd_kind n) \<longrightarrow> children_of n \<noteq> []) \<and>
     (nd_kind n = ''for'' \<or> nd_kind n = ''foreach'' \<longrightarrow> condition_leaves_of n = []) \<and>
     nd_path_hint n \<noteq> Some MayRun \<and> \<not> asserts_error n"

function plain_body :: "cfn_node \<Rightarrow> bool" where
  "plain_body n \<longleftrightarrow>
     plain_node n \<and> list_all plain_body (condition_leaves_of n) \<and> list_all plain_body (children_of n) \<and>
     list_all plain_body (else_children_of n)"
  by pat_completeness auto
termination
  by (relation "measure size") (auto intro: cfn_sizes)

declare plain_body.simps [simp del]

text \<open>How a flow covers the end of a path.\<close>

fun covered :: "outcome \<Rightarrow> per_param_state \<Rightarrow> flow \<Rightarrow> bool" where
  "covered Falls s f \<longleftrightarrow> fw_reach f = R_Normal \<and> state_le s (fw_state f)"
| "covered Exits s f \<longleftrightarrow> (\<exists>e \<in> set (fw_exits f). state_le s e)"
| "covered Errs s f \<longleftrightarrow> (\<exists>e \<in> set (fw_exits f). state_le s e)"
| "covered Breaks s f \<longleftrightarrow> (\<exists>b \<in> set (fw_breaks f). state_le s b)"
| "covered Conts s f \<longleftrightarrow> (\<exists>c \<in> set (fw_continues f). state_le s c)"

section \<open>Covering, by the shape of a flow\<close>

lemma path_state_simps [simp]:
  "path_state env [] s = s"
  "path_state env (es @ fs) s = path_state env fs (path_state env es s)"
  "path_state env (e # es) s = path_state env es (apply_event env e s)"
  by (simp_all add: path_state_def)

lemma covered_then: "covered Falls s a \<Longrightarrow> covered r s' (k (fw_state a)) \<Longrightarrow> covered r s' (f_then a k)"
  by (cases r) auto

lemma covered_stop: "covered r s a \<Longrightarrow> r \<noteq> Falls \<Longrightarrow> covered r s (f_then a k)"
  by (cases r) auto

lemma covered_seq: "covered Falls s a \<Longrightarrow> covered r s' (k (fw_state a)) \<Longrightarrow> covered r s' (f_seq a k)"
  using covered_then [of s a r s' k] by (simp add: f_seq_def)

lemma covered_seq_stop: "covered r s a \<Longrightarrow> r \<noteq> Falls \<Longrightarrow> covered r s (f_seq a k)"
  by (simp add: f_seq_def covered_stop)

lemma covered_fell: "state_le s t \<Longrightarrow> covered Falls s (f_fell t)"
  by simp

lemma arm_le:
  "r = R_Normal \<Longrightarrow> snd (merge_arms (s, r) (t, q)) = R_Normal \<and> state_le s (fst (merge_arms (s, r) (t, q)))"
  "q = R_Normal \<Longrightarrow> snd (merge_arms (s, r) (t, q)) = R_Normal \<and> state_le t (fst (merge_arms (s, r) (t, q)))"
  by (cases r; cases q; simp add: join_states_upper)+

lemma covered_if:
  "covered r s (flow_arm p a t) \<Longrightarrow> covered r s (flow_if p a b t)"
  "covered r s (flow_arm p b t) \<Longrightarrow> covered r s (flow_if p a b t)"
  using arm_le [where r = "fw_reach (flow_arm p a t)" and s = "fw_state (flow_arm p a t)" and q = "fw_reach (flow_arm p b t)"
      and t = "fw_state (flow_arm p b t)"]
  by (cases r; auto simp: flow_if_def Let_def intro: state_le_trans)+

lemma reach_normal: "fw_reach f \<noteq> R_Abrupt \<Longrightarrow> fw_reach f = R_Normal"
  by (cases "fw_reach f") simp_all

lemma arm_of_seq: "covered r s (flow_seq p (first_arm ns) t) \<Longrightarrow> covered r s (flow_arm p (first_of ns) t)"
  by (cases ns; cases r) (auto simp: first_arm_def flow_arm_def f_seq_def reach_normal split: if_splits)

lemma join_into_le: "join_into s acc = Some y \<Longrightarrow> state_le s y \<and> (\<forall>x. acc = Some x \<longrightarrow> state_le x y)"
  by (cases acc) (auto simp: join_into_def join_states_upper)

lemma branches_exits:
  "fw_exits (snd (flow_branches p cs t acc)) = concat (map (\<lambda>c. fw_exits (p c t)) cs)"
  "fw_breaks (snd (flow_branches p cs t acc)) = concat (map (\<lambda>c. fw_breaks (p c t)) cs)"
  "fw_continues (snd (flow_branches p cs t acc)) = concat (map (\<lambda>c. fw_continues (p c t)) cs)"
  by (induction cs arbitrary: acc) (simp_all add: Let_def split_beta)

lemma branches_acc: "acc = Some x \<Longrightarrow> \<exists>y. fst (flow_branches p cs t acc) = Some y \<and> state_le x y"
proof (induction cs arbitrary: acc x)
  case (Cons c cs)
  obtain z where z: "(if fw_reach (p c t) = R_Normal then join_into (fw_state (p c t)) acc else acc) = Some z" "state_le x z"
    using Cons.prems join_into_le [of "fw_state (p c t)" acc] by (cases "fw_reach (p c t)") (auto simp: join_into_def)
  from Cons.IH [OF z(1)] z(2) show ?case
    by (auto simp: Let_def split_beta z(1) intro: state_le_trans)
qed simp

lemma branches_mem:
  "c \<in> set cs \<Longrightarrow> fw_reach (p c t) = R_Normal \<Longrightarrow>
     \<exists>y. fst (flow_branches p cs t acc) = Some y \<and> state_le (fw_state (p c t)) y"
proof (induction cs arbitrary: acc)
  case (Cons a cs)
  show ?case
  proof (cases "c = a")
    case True
    obtain z where z: "join_into (fw_state (p c t)) acc = Some z" by (cases acc) (simp_all add: join_into_def)
    from branches_acc [OF z, of p cs t] join_into_le [OF z] True Cons.prems show ?thesis
      by (auto simp: Let_def split_beta intro: state_le_trans)
  next
    case False
    with Cons.prems Cons.IH show ?thesis by (simp add: Let_def split_beta)
  qed
qed simp

lemma covered_case:
  assumes "c \<in> set cs" "covered r s (p c t)"
  shows "covered r s (flow_case p cs t)"
proof (cases "r = Falls")
  case True
  with assms(2) have n: "fw_reach (p c t) = R_Normal" "state_le s (fw_state (p c t))" by simp_all
  from branches_mem [where p = p and t = t and acc = None, OF assms(1) n(1)] obtain y
    where y: "fst (flow_branches p cs t None) = Some y" "state_le (fw_state (p c t)) y" by blast
  have "state_le s (if list_ex nd_is_case_else cs then y else join_states y t)"
    using n(2) y(2) by (auto intro: state_le_trans join_states_upper)
  then show ?thesis using True y(1) by (simp add: flow_case_def split_beta Let_def)
next
  case False
  with assms show ?thesis
    by (cases r) (auto simp: flow_case_def split_beta Let_def branches_exits)
qed

lemma covered_no_case:
  "\<not> list_ex nd_is_case_else cs \<Longrightarrow> state_le s t \<Longrightarrow> covered Falls s (flow_case p cs t)"
  by (auto simp: flow_case_def split_beta Let_def join_states_upper intro: state_le_trans split: option.splits)

section \<open>Covering the iterations of a loop\<close>

text \<open>A loop's result is a state its rounds do not change, and it keeps what the last round collects.\<close>

lemma rounds_fixpoint:
  "fst (fst (flow_rounds k b c s)) = Some u \<Longrightarrow>
     state_le s u \<and> fw_state (flow_round b c u) = u \<and>
     set (fw_exits (flow_round b c u)) \<subseteq> set (fw_exits (snd (flow_rounds k b c s))) \<and>
     set (fw_breaks (flow_round b c u)) \<subseteq> set (fw_breaks (snd (flow_rounds k b c s)))"
proof (induction k arbitrary: s)
  case (Suc k)
  show ?case
  proof (cases "fw_state (flow_round b c s) = s")
    case True
    with Suc.prems have "u = s" by (simp add: Let_def)
    with True show ?thesis by (simp add: Let_def)
  next
    case False
    have "state_le s (fw_state (flow_round b c s))" by (simp add: fw_state_round join_states_upper)
    with False Suc.prems Suc.IH [of "fw_state (flow_round b c s)"] show ?thesis
      by (auto simp: Let_def split_beta intro: state_le_trans)
  qed
qed simp

lemma continue_covers:
  assumes "covered r s a" "r = Falls \<or> r = Conts"
  shows "state_le s (fold_continue_states (fw_reach a) (fw_state a) t (fw_continues a))"
proof -
  let ?start = "if fw_reach a = R_Normal then Some (fw_state a) else None"
  show ?thesis
  proof (cases "r = Falls")
    case True
    with assms(1) have "fw_reach a = R_Normal" "state_le s (fw_state a)" by simp_all
    then show ?thesis
      using fold_join_le [of "fw_continues a" "fw_state a" "fold (\<lambda>x s. join_states s x) (fw_continues a) (fw_state a)"]
      by (auto simp: fold_continue_states_def fold_join_into intro: state_le_trans)
  next
    case False
    with assms obtain x where x: "x \<in> set (fw_continues a)" "state_le s x" by auto
    then obtain y ys where ys: "fw_continues a = y # ys" by (cases "fw_continues a") auto
    show ?thesis
    proof (cases "fw_reach a")
      case R_Normal
      with x show ?thesis
        using fold_join_le [of "fw_continues a" "fw_state a" "fold (\<lambda>x s. join_states s x) (fw_continues a) (fw_state a)"]
        by (auto simp: fold_continue_states_def fold_join_into intro: state_le_trans)
    next
      case R_Abrupt
      have "fold join_into (fw_continues a) None = Some (fold (\<lambda>x s. join_states s x) ys y)"
        by (simp only: ys fold_join_into_none)
      moreover have "state_le x (fold (\<lambda>x s. join_states s x) ys y)"
        using x(1) fold_join_le [of ys y "fold (\<lambda>x s. join_states s x) ys y"] by (auto simp: ys)
      ultimately show ?thesis using R_Abrupt x(2) by (auto simp: fold_continue_states_def intro: state_le_trans)
    qed
  qed
qed

text \<open>How the fixed round of a loop covers the end of the iterations.\<close>

fun iters_covered :: "outcome \<Rightarrow> per_param_state \<Rightarrow> per_param_state \<Rightarrow> flow \<Rightarrow> bool" where
  "iters_covered Falls s u f \<longleftrightarrow> state_le s u \<or> (\<exists>b \<in> set (fw_breaks f). state_le s b)"
| "iters_covered Exits s u f \<longleftrightarrow> (\<exists>e \<in> set (fw_exits f). state_le s e)"
| "iters_covered Errs s u f \<longleftrightarrow> (\<exists>e \<in> set (fw_exits f). state_le s e)"
| "iters_covered _ s u f \<longleftrightarrow> False"

lemma covered_loop:
  assumes "\<And>u. state_le t u \<Longrightarrow> fw_state (flow_round b c u) = u \<Longrightarrow> iters_covered r s u (flow_round b c u)"
    and "fst (fst (flow_rounds LOOP_BOUND b c t)) \<noteq> None"
  shows "covered r s (flow_loop b c t)"
proof -
  from assms(2) obtain u where u: "fst (fst (flow_rounds LOOP_BOUND b c t)) = Some u" by blast
  let ?f = "snd (flow_rounds LOOP_BOUND b c t)" and ?g = "flow_round b c u"
  note post = rounds_fixpoint [OF u]
  have cov: "iters_covered r s u ?g" using assms(1) post by blast
  have l: "flow_loop b c t = after_breaks u ?f"
    using u by (simp add: flow_loop_def split_beta Let_def)
  let ?fin = "fold (\<lambda>b s. join_states s b) (fw_breaks ?f) u"
  have up: "state_le u ?fin" "\<forall>b \<in> set (fw_breaks ?f). state_le b ?fin"
    using fold_join_le [of "fw_breaks ?f" u ?fin] by simp_all
  show ?thesis
  proof (cases r)
    case Falls
    with cov have "state_le s u \<or> (\<exists>b \<in> set (fw_breaks ?g). state_le s b)" by simp
    then have "state_le s ?fin" using up post by (meson state_le_trans subsetD)
    then show ?thesis using Falls by (simp add: l after_breaks_def)
  qed (use cov post in \<open>auto simp: l after_breaks_def\<close>)
qed

text \<open>One more iteration: the body's end enters the check, and the check leads back to the fixed state.\<close>

lemma next_iteration:
  assumes "fw_state (flow_round b c u) = u" "covered r s (b u)" "r = Falls \<or> r = Conts"
    and "\<And>t. state_le s t \<Longrightarrow> covered r' s' (c t)" "r' \<noteq> Breaks" "r' \<noteq> Conts"
  shows "iters_covered r' s' u (flow_round b c u)" "r' = Falls \<Longrightarrow> state_le s' u"
proof -
  let ?t = "fold_continue_states (fw_reach (b u)) (fw_state (b u)) u (fw_continues (b u))"
  have c: "covered r' s' (c ?t)" using assms(2-4) by (simp add: continue_covers)
  have "state_le (fw_state (c ?t)) u"
    using assms(1) by (simp add: flow_round_def Let_def) (metis join_states_upper(2))
  with c show le: "r' = Falls \<Longrightarrow> state_le s' u" by (auto intro: state_le_trans)
  show "iters_covered r' s' u (flow_round b c u)"
    using c le assms(5,6) by (cases r') (auto simp: flow_round_def Let_def)
qed

lemma body_break: "covered Breaks s (b u) \<Longrightarrow> iters_covered Falls s u (flow_round b c u)"
  by (auto simp: flow_round_def Let_def)

lemma body_leave: "covered r s (b u) \<Longrightarrow> r = Exits \<or> r = Errs \<Longrightarrow> iters_covered r s u (flow_round b c u)"
  by (cases r) (auto simp: flow_round_def Let_def)

section \<open>Every path is covered\<close>

abbreviation walk_flow :: "walk_env \<Rightarrow> nat \<Rightarrow> flow_step" where
  "walk_flow env d \<equiv> flow_cfg flow_loop d env"

text \<open>What the walk of each kind of list owes a path.\<close>

definition node_covers :: "walk_env \<Rightarrow> cfn_node \<Rightarrow> flow_event list \<Rightarrow> outcome \<Rightarrow> bool" where
  "node_covers env n es r \<longleftrightarrow>
     (\<forall>d s t. walk_fits d n \<longrightarrow> plain_body n \<longrightarrow> state_le s t \<longrightarrow>
        covered r (path_state env es s) (walk_flow env d n t))"

definition list_covers :: "walk_env \<Rightarrow> cfn_node list \<Rightarrow> flow_event list \<Rightarrow> outcome \<Rightarrow> bool" where
  "list_covers env ns es r \<longleftrightarrow>
     (\<forall>d s t. list_all (walk_fits d) ns \<longrightarrow> list_all plain_body ns \<longrightarrow> state_le s t \<longrightarrow>
        covered r (path_state env es s) (flow_seq (walk_flow env d) ns t) \<and>
        (r \<noteq> Breaks \<and> r \<noteq> Conts \<longrightarrow> covered r (path_state env es s) (flow_leaves (walk_flow env d) ns t)))"

definition events_covers :: "walk_env \<Rightarrow> block_event list \<Rightarrow> flow_event list \<Rightarrow> outcome \<Rightarrow> bool" where
  "events_covers env evs es r \<longleftrightarrow>
     (\<forall>d s t. (\<forall>c p. Ev_Child c p \<in> set evs \<longrightarrow> walk_fits d c \<and> plain_body c) \<longrightarrow> state_le s t \<longrightarrow>
        covered r (path_state env es s) (flow_events (walk_flow env d) (we_param env) evs t))"

definition loop_node :: "cfn_node \<Rightarrow> cfn_node" where
  "loop_node n = (if nd_kind n = ''repeat'' then synthetic_block n else hd (children_of n))"

definition iters_covers :: "walk_env \<Rightarrow> cfn_node \<Rightarrow> flow_event list \<Rightarrow> outcome \<Rightarrow> bool" where
  "iters_covers env n es r \<longleftrightarrow>
     (\<forall>d s u. is_loop_kind (nd_kind n) \<longrightarrow> plain_body n \<longrightarrow> walk_fits d (loop_node n) \<longrightarrow>
        list_all (walk_fits d) (condition_leaves_of n) \<longrightarrow> state_le s u \<longrightarrow>
        fw_state (flow_round (walk_flow env d (loop_node n)) (flow_leaves (walk_flow env d) (condition_leaves_of n)) u) = u \<longrightarrow>
        iters_covered r (path_state env es s) u
          (flow_round (walk_flow env d (loop_node n)) (flow_leaves (walk_flow env d) (condition_leaves_of n)) u))"

lemma walk_fitsE:
  assumes "walk_fits d n"
  obtains k where "d = Suc k" "list_all (walk_fits k) (condition_leaves_of n)" "list_all (walk_fits k) (else_children_of n)"
    "nd_kind n \<noteq> ''repeat'' \<Longrightarrow> list_all (walk_fits k) (children_of n)"
    "nd_kind n = ''repeat'' \<Longrightarrow> walk_fits k (synthetic_block n)"
  using assms by (cases d) auto

lemma plain_body_parts:
  assumes "plain_body n"
  shows "plain_node n" "list_all plain_body (condition_leaves_of n)" "list_all plain_body (children_of n)"
    "list_all plain_body (else_children_of n)"
  using assms by (subst (asm) plain_body.simps, simp)+

lemma synthetic_no_hint [simp]: "nd_path_hint (synthetic_block n) = None"
  by (simp add: synthetic_block_def)

lemma plain_synthetic: "plain_body n \<Longrightarrow> nd_kind n = ''repeat'' \<Longrightarrow> plain_body (synthetic_block n)"
  using plain_body_parts [of n]
  by (subst plain_body.simps) (simp add: plain_node_def asserts_error_def is_loop_kind_def)

lemma loop_node_plain: "plain_body n \<Longrightarrow> is_loop_kind (nd_kind n) \<Longrightarrow> plain_body (loop_node n)"
  using plain_body_parts [of n] by (auto simp: loop_node_def plain_synthetic plain_node_def list_all_iff)

lemma recheck_leaves: "plain_body n \<Longrightarrow> nd_kind n \<in> {''while'', ''for'', ''foreach''} \<Longrightarrow> recheck n = condition_leaves_of n"
  using plain_body_parts(1) [of n] by (auto simp: recheck_def plain_node_def)

lemma list_all_first_arm: "list_all P ns \<Longrightarrow> list_all P (first_arm ns)"
  by (cases ns) (simp_all add: first_arm_def)

lemma covers_event: "state_le s t \<Longrightarrow> state_le (apply_event env (E_Op op) s) (apply_op t op (we_param env))"
  "state_le s t \<Longrightarrow> state_le (apply_event env (E_Read fa) s) (apply_field_read t fa (we_param env))"
  "state_le s t \<Longrightarrow> state_le (path_state env (op_events env n) s) (op_transfer env n t)"
  "state_le s t \<Longrightarrow> state_le (path_state env (call_events env n) s) (call_transfer env n t)"
  using le.padded.call_transfer_kept [of s t env n]
  by (auto simp: op_events_def op_transfer_def call_events_def call_transfer_def le.op_kept le.read_kept split: option.splits)

lemma path_list_nil_falls: "path_list env [] es r \<Longrightarrow> es = [] \<and> r = Falls"
  by (erule path_list.cases) simp_all

text \<open>The leading conditions of a node, and what follows.\<close>

lemma after_conditions:
  assumes "list_covers env (condition_leaves_of n) ls Falls" "walk_fits (Suc d) n" "plain_body n" "state_le s t"
  shows "covered Falls (path_state env ls s) (flow_leaves (walk_flow env d) (condition_leaves_of n) t)"
  using assms plain_body_parts [of n] by (auto simp: list_covers_def elim!: walk_fitsE)

lemma node_coversI:
  assumes "\<And>k s t. walk_fits (Suc k) n \<Longrightarrow> plain_body n \<Longrightarrow> state_le s t \<Longrightarrow>
      covered r (path_state env es s) (flow_one flow_loop (walk_flow env k) env n t)"
  shows "node_covers env n es r"
  unfolding node_covers_def
proof (intro allI impI)
  fix d s t
  assume a: "walk_fits d n" "plain_body n" "state_le s t"
  then obtain k where "d = Suc k" by (auto elim: walk_fitsE)
  with a assms show "covered r (path_state env es s) (walk_flow env d n t)" by simp
qed

text \<open>Statements without a body of their own.\<close>

lemma cover_conditions:
  assumes "nd_kind n \<notin> {''block'', ''case-branch'', ''try'', ''break'', ''continue'', ''repeat''}"
    and "list_covers env (condition_leaves_of n) es r" "r = Exits \<or> r = Errs"
  shows "node_covers env n es r"
proof (rule node_coversI)
  fix k s t
  assume a: "walk_fits (Suc k) n" "plain_body n" "state_le s t"
  let ?c = "flow_leaves (walk_flow env k) (condition_leaves_of n) t"
  have c: "covered r (path_state env es s) ?c"
    using a assms(2,3) plain_body_parts [of n] by (auto simp: list_covers_def elim!: walk_fitsE)
  then have "covered r (path_state env es s) (f_exit ?c)" using assms(3) by (auto simp: f_exit_def)
  with c assms(1,3) show "covered r (path_state env es s) (flow_one flow_loop (walk_flow env k) env n t)"
    by (auto simp: flow_one_def Let_def covered_stop split: option.splits)
qed

lemma cover_op:
  assumes "nd_kind n = ''op''" "list_covers env (condition_leaves_of n) ls Falls"
  shows "node_covers env n (ls @ op_events env n) Falls"
proof (rule node_coversI)
  fix k s t
  assume a: "walk_fits (Suc k) n" "plain_body n" "state_le s t"
  from after_conditions [OF assms(2) a] assms(1)
  show "covered Falls (path_state env (ls @ op_events env n) s) (flow_one flow_loop (walk_flow env k) env n t)"
    by (simp add: flow_one_def covers_event)
qed

lemma cover_call:
  assumes "nd_kind n = ''call''" "list_covers env (condition_leaves_of n) ls Falls"
  shows "node_covers env n (ls @ call_events env n) Falls"
proof (rule node_coversI)
  fix k s t
  assume a: "walk_fits (Suc k) n" "plain_body n" "state_le s t"
  from after_conditions [OF assms(2) a] assms(1)
  show "covered Falls (path_state env (ls @ call_events env n) s) (flow_one flow_loop (walk_flow env k) env n t)"
    by (simp add: flow_one_def covers_event)
qed

lemma cover_end:
  assumes "nd_kind n = ''exit'' \<and> r = Exits \<or> nd_kind n = ''error'' \<and> r = Errs"
    and "list_covers env (condition_leaves_of n) ls Falls"
  shows "node_covers env n ls r"
proof (rule node_coversI)
  fix k s t
  assume a: "walk_fits (Suc k) n" "plain_body n" "state_le s t"
  from after_conditions [OF assms(2) a] assms(1)
  show "covered r (path_state env ls s) (flow_one flow_loop (walk_flow env k) env n t)"
    by (auto simp: flow_one_def f_exit_def Let_def)
qed

lemma cover_simple:
  "nd_kind n = ''break'' \<Longrightarrow> node_covers env n [] Breaks"
  "nd_kind n = ''continue'' \<Longrightarrow> node_covers env n [] Conts"
  "nd_kind n = ''try'' \<Longrightarrow> r \<in> {Falls, Exits, Errs} \<Longrightarrow> node_covers env n [E_Try] r"
  by (rule node_coversI; auto simp: flow_one_def f_exit_def Let_def le.saturate_kept)+

lemma cover_block:
  assumes "nd_kind n = ''block''" "events_covers env (block_events env n) es r"
  shows "node_covers env n es r"
proof (rule node_coversI)
  fix k s t
  assume a: "walk_fits (Suc k) n" "plain_body n" "state_le s t"
  have "\<forall>c p. Ev_Child c p \<in> set (block_events env n) \<longrightarrow> walk_fits k c \<and> plain_body c"
    using a(1) plain_body_parts(3) [OF a(2)] assms(1) by (auto simp: block_events_def Let_def list_all_iff)
  with assms(2) a(3) show "covered r (path_state env es s) (flow_one flow_loop (walk_flow env k) env n t)"
    by (simp add: flow_one_def assms(1) events_covers_def)
qed

lemma cover_branch:
  assumes "nd_kind n = ''case-branch''" "list_covers env (children_of n) es r"
  shows "node_covers env n es r"
proof (rule node_coversI)
  fix k s t
  assume a: "walk_fits (Suc k) n" "plain_body n" "state_le s t"
  with assms plain_body_parts(3) [OF a(2)]
  show "covered r (path_state env es s) (flow_one flow_loop (walk_flow env k) env n t)"
    by (simp add: flow_one_def list_covers_def)
qed

text \<open>Statements with conditions and a body.\<close>

lemma cover_if:
  assumes "nd_kind n = ''if''" "list_covers env (condition_leaves_of n) ls Falls"
    and "list_covers env (first_arm (children_of n)) es r \<or> list_covers env (first_arm (else_children_of n)) es r"
  shows "node_covers env n (ls @ es) r"
proof (rule node_coversI)
  fix k s t
  assume a: "walk_fits (Suc k) n" "plain_body n" "state_le s t"
  let ?W = "walk_flow env k"
  let ?c = "flow_leaves ?W (condition_leaves_of n) t"
  have c: "covered Falls (path_state env ls s) ?c" by (rule after_conditions [OF assms(2) a])
  have "list_all (walk_fits k) (first_arm (children_of n))" "list_all (walk_fits k) (first_arm (else_children_of n))"
    "list_all plain_body (first_arm (children_of n))" "list_all plain_body (first_arm (else_children_of n))"
    using a(1) assms(1) plain_body_parts [OF a(2)] by (simp_all add: list_all_first_arm)
  with assms(3) c have "covered r (path_state env (ls @ es) s) (flow_seq ?W (first_arm (children_of n)) (fw_state ?c)) \<or>
      covered r (path_state env (ls @ es) s) (flow_seq ?W (first_arm (else_children_of n)) (fw_state ?c))"
    by (auto simp: list_covers_def)
  then have "covered r (path_state env (ls @ es) s) (flow_if ?W (first_of (children_of n)) (first_of (else_children_of n)) (fw_state ?c))"
    by (blast intro: covered_if arm_of_seq)
  then show "covered r (path_state env (ls @ es) s) (flow_one flow_loop ?W env n t)"
    using covered_then [OF c] by (simp add: flow_one_def assms(1))
qed

lemma cover_case:
  assumes "nd_kind n = ''case''" "list_covers env (condition_leaves_of n) ls Falls"
    and "c \<in> set (children_of n)" "node_covers env c es r"
  shows "node_covers env n (ls @ es) r"
proof (rule node_coversI)
  fix k s t
  assume a: "walk_fits (Suc k) n" "plain_body n" "state_le s t"
  let ?c = "flow_leaves (walk_flow env k) (condition_leaves_of n) t"
  have l: "covered Falls (path_state env ls s) ?c" by (rule after_conditions [OF assms(2) a])
  have "walk_fits k c" "plain_body c"
    using a(1) assms(1,3) plain_body_parts(3) [OF a(2)] by (auto simp: list_all_iff)
  with assms(4) l have "covered r (path_state env (ls @ es) s) (walk_flow env k c (fw_state ?c))"
    by (simp add: node_covers_def)
  then have "covered r (path_state env (ls @ es) s) (flow_case (walk_flow env k) (children_of n) (fw_state ?c))"
    using covered_case [of c "children_of n" r _ "walk_flow env k"] assms(3) by simp
  with covered_then [OF l, of r "path_state env (ls @ es) s" "flow_case (walk_flow env k) (children_of n)"]
  show "covered r (path_state env (ls @ es) s) (flow_one flow_loop (walk_flow env k) env n t)"
    by (simp add: flow_one_def assms(1))
qed

lemma cover_no_case:
  assumes "nd_kind n = ''case''" "list_covers env (condition_leaves_of n) ls Falls"
    and "\<not> list_ex nd_is_case_else (children_of n)"
  shows "node_covers env n ls Falls"
proof (rule node_coversI)
  fix k s t
  assume a: "walk_fits (Suc k) n" "plain_body n" "state_le s t"
  have l: "covered Falls (path_state env ls s) (flow_leaves (walk_flow env k) (condition_leaves_of n) t)"
    by (rule after_conditions [OF assms(2) a])
  then show "covered Falls (path_state env ls s) (flow_one flow_loop (walk_flow env k) env n t)"
    using covered_then [OF l, of Falls "path_state env ls s" "flow_case (walk_flow env k) (children_of n)"]
      covered_no_case [OF assms(3)] by (simp add: flow_one_def assms(1))
qed

lemma cover_other:
  assumes "\<not> compound_kind (nd_kind n)" "list_covers env (condition_leaves_of n) ls Falls"
    and "list_covers env (children_of n) es r"
  shows "node_covers env n (ls @ es) r"
proof (rule node_coversI)
  fix k s t
  assume a: "walk_fits (Suc k) n" "plain_body n" "state_le s t"
  let ?c = "flow_leaves (walk_flow env k) (condition_leaves_of n) t"
  have l: "covered Falls (path_state env ls s) ?c" by (rule after_conditions [OF assms(2) a])
  have "list_all (walk_fits k) (children_of n)" "list_all plain_body (children_of n)"
    using a(1) assms(1) plain_body_parts(3) [OF a(2)] by (auto simp: compound_kind_def is_loop_kind_def)
  with assms(3) l have "covered r (path_state env (ls @ es) s) (flow_seq (walk_flow env k) (children_of n) (fw_state ?c))"
    by (simp add: list_covers_def)
  with covered_then [OF l, of r "path_state env (ls @ es) s" "flow_seq (walk_flow env k) (children_of n)"]
  show "covered r (path_state env (ls @ es) s) (flow_one flow_loop (walk_flow env k) env n t)"
    using assms(1) by (auto simp: flow_one_def compound_kind_def is_loop_kind_def leaf_kind_def)
qed

text \<open>Loops.\<close>

lemma cover_while:
  assumes "nd_kind n \<in> {''while'', ''for'', ''foreach''}" "list_covers env (condition_leaves_of n) ls Falls"
    and "iters_covers env n es r"
  shows "node_covers env n (ls @ es) r"
proof (rule node_coversI)
  fix k s t
  assume a: "walk_fits (Suc k) n" "plain_body n" "state_le s t"
  let ?W = "walk_flow env k"
  let ?c = "flow_leaves ?W (condition_leaves_of n)"
  have l: "covered Falls (path_state env ls s) (?c t)" by (rule after_conditions [OF assms(2) a])
  have k: "is_loop_kind (nd_kind n)" "nd_kind n \<noteq> ''repeat''" using assms(1) by (auto simp: is_loop_kind_def)
  have f: "first_of (children_of n) = Some (loop_node n)" and m: "loop_node n \<in> set (children_of n)"
    using k plain_body_parts(1) [OF a(2)] by (cases "children_of n"; simp add: plain_node_def loop_node_def)+
  have fit: "walk_fits k (loop_node n)" "list_all (walk_fits k) (condition_leaves_of n)"
    using a(1) k m by (auto simp: list_all_iff)
  have "covered r (path_state env (ls @ es) s) (flow_loop (?W (loop_node n)) ?c (fw_state (?c t)))"
  proof (rule covered_loop)
    fix u
    assume "state_le (fw_state (?c t)) u" "fw_state (flow_round (?W (loop_node n)) ?c u) = u"
    then show "iters_covered r (path_state env (ls @ es) s) u (flow_round (?W (loop_node n)) ?c u)"
      using assms(3) k a(2) fit l by (auto simp: iters_covers_def intro: state_le_trans)
  qed (rule flow_rounds_settle)
  with covered_then [OF l, of r "path_state env (ls @ es) s" "flow_loop (?W (loop_node n)) ?c"]
  show "covered r (path_state env (ls @ es) s) (flow_one flow_loop ?W env n t)"
    using assms(1) f by (auto simp: flow_one_def Let_def)
qed

lemma cover_repeat:
  assumes "nd_kind n = ''repeat''" "iters_covers env n es r"
  shows "node_covers env n es r"
proof (rule node_coversI)
  fix k s t
  assume a: "walk_fits (Suc k) n" "plain_body n" "state_le s t"
  let ?W = "walk_flow env k"
  let ?c = "flow_leaves ?W (condition_leaves_of n)"
  have kind: "is_loop_kind (nd_kind n)" using assms(1) by (simp add: is_loop_kind_def)
  have fit: "walk_fits k (loop_node n)" "list_all (walk_fits k) (condition_leaves_of n)" "children_of n \<noteq> []"
    using a(1) assms(1) plain_body_parts(1) [OF a(2)] by (simp_all add: loop_node_def plain_node_def is_loop_kind_def)
  have "covered r (path_state env es s) (flow_loop (?W (loop_node n)) ?c t)"
  proof (rule covered_loop)
    fix u
    assume "state_le t u" "fw_state (flow_round (?W (loop_node n)) ?c u) = u"
    then show "iters_covered r (path_state env es s) u (flow_round (?W (loop_node n)) ?c u)"
      using assms(2) kind a(2,3) fit by (auto simp: iters_covers_def intro: state_le_trans)
  qed (rule flow_rounds_settle)
  then show "covered r (path_state env es s) (flow_one flow_loop ?W env n t)"
    using assms(1) fit(3) by (simp add: flow_one_def loop_node_def)
qed

text \<open>Sequences, and the events of a block.\<close>

lemma cover_nil: "list_covers env [] [] Falls" "events_covers env [] [] Falls"
  by (simp_all add: list_covers_def events_covers_def)

lemma cover_step:
  assumes "node_covers env n es Falls" "list_covers env ns fs r"
  shows "list_covers env (n # ns) (es @ fs) r"
  unfolding list_covers_def
proof (intro allI impI)
  fix d s t
  assume a: "list_all (walk_fits d) (n # ns)" "list_all plain_body (n # ns)" "state_le s t"
  let ?n = "walk_flow env d n t"
  have n: "covered Falls (path_state env es s) ?n" using assms(1) a by (simp add: node_covers_def)
  then have "covered r (path_state env (es @ fs) s) (flow_seq (walk_flow env d) ns (fw_state ?n)) \<and>
      (r \<noteq> Breaks \<and> r \<noteq> Conts \<longrightarrow> covered r (path_state env (es @ fs) s) (flow_leaves (walk_flow env d) ns (fw_state ?n)))"
    using assms(2) a by (simp add: list_covers_def)
  then show "covered r (path_state env (es @ fs) s) (flow_seq (walk_flow env d) (n # ns) t) \<and>
      (r \<noteq> Breaks \<and> r \<noteq> Conts \<longrightarrow> covered r (path_state env (es @ fs) s) (flow_leaves (walk_flow env d) (n # ns) t))"
    using covered_seq [OF n, of r "path_state env (es @ fs) s" "flow_seq (walk_flow env d) ns"]
      covered_then [OF n, of r "path_state env (es @ fs) s" "flow_leaves (walk_flow env d) ns"] by simp
qed

lemma cover_stop: "node_covers env n es r \<Longrightarrow> r \<noteq> Falls \<Longrightarrow> list_covers env (n # ns) es r"
  by (simp add: list_covers_def node_covers_def covered_seq_stop covered_stop)

lemma cover_event_step:
  assumes "node_covers env n es Falls" "events_covers env evs fs r"
  shows "events_covers env (Ev_Child n p # evs) (es @ fs) r"
  unfolding events_covers_def
proof (intro allI impI)
  fix d s t
  assume a: "\<forall>c q. Ev_Child c q \<in> set (Ev_Child n p # evs) \<longrightarrow> walk_fits d c \<and> plain_body c" "state_le s t"
  let ?n = "walk_flow env d n t"
  have "walk_fits d n" "plain_body n" using a(1) [rule_format, of n p] by simp_all
  then have n: "covered Falls (path_state env es s) ?n" using assms(1) a(2) by (simp add: node_covers_def)
  have "\<forall>c q. Ev_Child c q \<in> set evs \<longrightarrow> walk_fits d c \<and> plain_body c" using a(1) by (meson list.set_intros(2))
  with n assms(2) have "covered r (path_state env (es @ fs) s) (flow_events (walk_flow env d) (we_param env) evs (fw_state ?n))"
    unfolding events_covers_def by (metis covered.simps(1) path_state_simps(2))
  with covered_seq [OF n, of r "path_state env (es @ fs) s" "flow_events (walk_flow env d) (we_param env) evs"]
  show "covered r (path_state env (es @ fs) s) (flow_events (walk_flow env d) (we_param env) (Ev_Child n p # evs) t)" by simp
qed

lemma cover_event_stop:
  assumes "node_covers env n es r" "r \<noteq> Falls"
  shows "events_covers env (Ev_Child n p # evs) es r"
  unfolding events_covers_def
proof (intro allI impI)
  fix d s t
  assume a: "\<forall>c q. Ev_Child c q \<in> set (Ev_Child n p # evs) \<longrightarrow> walk_fits d c \<and> plain_body c" "state_le s t"
  have "walk_fits d n" "plain_body n" using a(1) [rule_format, of n p] by simp_all
  with assms a(2) show "covered r (path_state env es s) (flow_events (walk_flow env d) (we_param env) (Ev_Child n p # evs) t)"
    by (simp add: node_covers_def covered_seq_stop)
qed

lemma cover_event_read: "events_covers env evs fs r \<Longrightarrow> events_covers env (Ev_Fa fa p # evs) (E_Read fa # fs) r"
  by (simp add: events_covers_def le.read_kept)

text \<open>Iterations. The body of a pre-tested loop is its first child, walked as a statement.\<close>

lemma cover_body:
  assumes "list_covers env (first_arm (children_of n)) es r" "nd_kind n \<noteq> ''repeat''" "is_loop_kind (nd_kind n)"
    and "plain_body n" "walk_fits d (loop_node n)" "state_le s t"
  shows "covered r (path_state env es s) (walk_flow env d (loop_node n) t)"
proof -
  obtain c cs where c: "children_of n = c # cs"
    using plain_body_parts(1) [OF assms(4)] assms(3) by (cases "children_of n") (auto simp: plain_node_def)
  have "plain_body c" using plain_body_parts(3) [OF assms(4)] by (simp add: c)
  moreover have "walk_fits d c" using assms(2,5) by (simp add: loop_node_def c)
  ultimately have "covered r (path_state env es s) (flow_seq (walk_flow env d) [c] t)"
    using assms(1,6) by (simp add: list_covers_def first_arm_def c)
  then show ?thesis
    using assms(2) by (cases r) (auto simp: loop_node_def c f_seq_def reach_normal split: if_splits)
qed

lemma cover_synthetic:
  assumes "node_covers env (synthetic_block n) es r" "nd_kind n = ''repeat''" "plain_body n" "walk_fits d (loop_node n)" "state_le s t"
  shows "covered r (path_state env es s) (walk_flow env d (loop_node n) t)"
  using assms by (simp add: node_covers_def loop_node_def plain_synthetic)

text \<open>An iteration in terms of its body, for both kinds of loop.\<close>

definition body_covers :: "walk_env \<Rightarrow> cfn_node \<Rightarrow> flow_event list \<Rightarrow> outcome \<Rightarrow> bool" where
  "body_covers env n es r \<longleftrightarrow>
     (\<forall>d s t. is_loop_kind (nd_kind n) \<longrightarrow> plain_body n \<longrightarrow> walk_fits d (loop_node n) \<longrightarrow> state_le s t \<longrightarrow>
        covered r (path_state env es s) (walk_flow env d (loop_node n) t))"

lemma body_coversI:
  "nd_kind n \<noteq> ''repeat'' \<Longrightarrow> list_covers env (first_arm (children_of n)) es r \<Longrightarrow> body_covers env n es r"
  "nd_kind n = ''repeat'' \<Longrightarrow> node_covers env (synthetic_block n) es r \<Longrightarrow> body_covers env n es r"
  by (simp_all add: body_covers_def cover_body cover_synthetic)

lemma cover_iters_done: "iters_covers env n [] Falls"
  by (simp add: iters_covers_def)

lemma cover_iters_break: "body_covers env n es Breaks \<Longrightarrow> iters_covers env n es Falls"
  unfolding iters_covers_def by (intro allI impI body_break) (simp add: body_covers_def)

lemma cover_iters_leave: "body_covers env n es r \<Longrightarrow> r = Exits \<or> r = Errs \<Longrightarrow> iters_covers env n es r"
  unfolding iters_covers_def by (intro allI impI body_leave) (simp_all add: body_covers_def)

lemma cover_iters_check:
  assumes "body_covers env n es r" "r = Falls \<or> r = Conts" "list_covers env (condition_leaves_of n) cs r'"
    and "r' \<noteq> Breaks" "r' \<noteq> Conts"
  shows "iters_covers env n (es @ cs) r'"
  unfolding iters_covers_def
proof (intro allI impI)
  fix d s u
  assume a: "is_loop_kind (nd_kind n)" "plain_body n" "walk_fits d (loop_node n)" "list_all (walk_fits d) (condition_leaves_of n)"
    "state_le s u" "fw_state (flow_round (walk_flow env d (loop_node n)) (flow_leaves (walk_flow env d) (condition_leaves_of n)) u) = u"
  have b: "covered r (path_state env es s) (walk_flow env d (loop_node n) u)" using assms(1) a by (simp add: body_covers_def)
  show "iters_covered r' (path_state env (es @ cs) s) u
      (flow_round (walk_flow env d (loop_node n)) (flow_leaves (walk_flow env d) (condition_leaves_of n)) u)"
    by (rule next_iteration(1) [OF a(6) b assms(2) _ assms(4,5)])
      (use assms(3-5) a(2,4) plain_body_parts(2) in \<open>simp add: list_covers_def\<close>)
qed

lemma cover_iters_next:
  assumes "body_covers env n es r" "r = Falls \<or> r = Conts" "list_covers env (condition_leaves_of n) cs Falls"
    and "iters_covers env n fs r'"
  shows "iters_covers env n (es @ cs @ fs) r'"
  unfolding iters_covers_def
proof (intro allI impI)
  fix d s u
  assume a: "is_loop_kind (nd_kind n)" "plain_body n" "walk_fits d (loop_node n)" "list_all (walk_fits d) (condition_leaves_of n)"
    "state_le s u" "fw_state (flow_round (walk_flow env d (loop_node n)) (flow_leaves (walk_flow env d) (condition_leaves_of n)) u) = u"
  have b: "covered r (path_state env es s) (walk_flow env d (loop_node n) u)" using assms(1) a by (simp add: body_covers_def)
  have "state_le (path_state env (es @ cs) s) u"
    by (rule next_iteration(2) [OF a(6) b assms(2)])
      (use assms(3) a(2,4) plain_body_parts(2) in \<open>simp_all add: list_covers_def\<close>)
  with assms(4) a show "iters_covered r' (path_state env (es @ cs @ fs) s) u
      (flow_round (walk_flow env d (loop_node n)) (flow_leaves (walk_flow env d) (condition_leaves_of n)) u)"
    by (simp add: iters_covers_def)
qed

lemma cover_recheck:
  assumes "list_covers env (recheck n) cs r" "nd_kind n \<noteq> ''repeat''" "is_loop_kind (nd_kind n)" "plain_body n"
  shows "list_covers env (condition_leaves_of n) cs r"
  using assms recheck_leaves [of n] by (auto simp: is_loop_kind_def)

lemma iters_covers_loops: "(is_loop_kind (nd_kind n) \<Longrightarrow> plain_body n \<Longrightarrow> iters_covers env n es r) \<Longrightarrow> iters_covers env n es r"
  by (auto simp: iters_covers_def)

lemma not_plain: "\<not> plain_body n \<Longrightarrow> node_covers env n es r"
  by (simp add: node_covers_def)

lemma hinted_not_plain: "nd_path_hint n = Some MayRun \<Longrightarrow> \<not> plain_body n" "asserts_error n \<Longrightarrow> \<not> plain_body n"
  using plain_body_parts(1) [of n] by (auto simp: plain_node_def)

lemma paths_covered:
  "path env n es r \<Longrightarrow> node_covers env n es r"
  "path_list env ns es r \<Longrightarrow> list_covers env ns es r"
  "path_events env evs es r \<Longrightarrow> events_covers env evs es r"
  "path_iters env n es r \<Longrightarrow> iters_covers env n es r"
proof (induction rule: path_path_list_path_events_path_iters.inducts)
  case p_nil
  show ?case by (rule cover_nil)
next
  case (p_step n es ns fs r)
  then show ?case by (blast intro: cover_step)
next
  case (p_stop n es r ns)
  then show ?case by (blast intro: cover_stop)
next
  case e_nil
  show ?case by (rule cover_nil)
next
  case (e_step n es evs fs r p)
  then show ?case by (blast intro: cover_event_step)
next
  case (e_stop n es r p evs)
  then show ?case by (blast intro: cover_event_stop)
next
  case (e_read evs fs r fa p)
  then show ?case by (blast intro: cover_event_read)
next
  case (p_skip n)
  from hinted_not_plain(1) [OF p_skip(2)] show ?case by (rule not_plain)
next
  case (p_block n es r)
  then show ?case by (blast intro: cover_block)
next
  case (p_branch n es r)
  then show ?case by (blast intro: cover_branch)
next
  case (p_try n r)
  then show ?case by (blast intro: cover_simple)
next
  case (p_break n)
  then show ?case by (blast intro: cover_simple)
next
  case (p_continue n)
  then show ?case by (blast intro: cover_simple)
next
  case (p_cond n es r)
  then show ?case by (blast intro: cover_conditions)
next
  case (p_op n ls)
  then show ?case by (blast intro: cover_op)
next
  case (p_call n ls)
  then show ?case by (blast intro: cover_call)
next
  case (p_exit n ls)
  then show ?case by (blast intro: cover_end)
next
  case (p_error n ls)
  then show ?case by (blast intro: cover_end)
next
  case (p_then n ls es r)
  then show ?case by (blast intro: cover_if)
next
  case (p_else n ls es r)
  then show ?case by (blast intro: cover_if)
next
  case (p_case n ls c es r)
  then show ?case by (blast intro: cover_case)
next
  case (p_no_case n ls)
  then show ?case by (blast intro: cover_no_case)
next
  case (p_loop n ls es r)
  then show ?case by (blast intro: cover_while)
next
  case (p_repeat n es r)
  then show ?case by (blast intro: cover_repeat)
next
  case (p_other n ls es r)
  then show ?case by (blast intro: cover_other)
next
  case (p_caught n ls es)
  from hinted_not_plain(2) [OF p_caught.hyps(2)] show ?case by (rule not_plain)
next
  case (p_uncaught n ls es)
  from hinted_not_plain(2) [OF p_uncaught.hyps(2)] show ?case by (rule not_plain)
next
  case (i_done n)
  show ?case by (rule cover_iters_done)
next
  case (i_next n es r cs fs r')
  show ?case
  proof (rule iters_covers_loops)
    assume l: "is_loop_kind (nd_kind n)" "plain_body n"
    have b: "body_covers env n es r" by (rule body_coversI(1)) (fact i_next)+
    have c: "list_covers env (condition_leaves_of n) cs Falls" by (rule cover_recheck) (fact i_next l)+
    show ?thesis by (rule cover_iters_next [OF b _ c]) (fact i_next)+
  qed
next
  case (i_check n es r cs r')
  show ?case
  proof (rule iters_covers_loops)
    assume l: "is_loop_kind (nd_kind n)" "plain_body n"
    have b: "body_covers env n es r" by (rule body_coversI(1)) (fact i_check)+
    have c: "list_covers env (condition_leaves_of n) cs r'" by (rule cover_recheck) (fact i_check l)+
    show ?thesis by (rule cover_iters_check [OF b _ c]) (use i_check.hyps in auto)
  qed
next
  case (i_break n es)
  then show ?case by (blast intro: cover_iters_break body_coversI)
next
  case (i_leave n es r)
  then show ?case by (blast intro: cover_iters_leave body_coversI)
next
  case (r_next n es r cs fs r')
  then show ?case by (blast intro: cover_iters_next body_coversI)
next
  case (r_done n es r cs r')
  show ?case
  proof -
    have b: "body_covers env n es r" by (rule body_coversI(2)) (fact r_done)+
    show ?thesis by (rule cover_iters_check [OF b]) (use r_done in auto)
  qed
next
  case (r_break n es)
  then show ?case by (blast intro: cover_iters_break body_coversI)
next
  case (r_leave n es r)
  then show ?case by (blast intro: cover_iters_leave body_coversI)
qed

end
