(* ===== verification/Walk_Facts.thy ===== *)
theory Walk_Facts
  imports Walk_Paths
begin

text \<open>
  What the facts of a walked parameter say: the loops of a walk settle, the facts cover the state of
  the parameter at the end of every path of the body, and two shapes of bodies - deeper than the
  depth budget, and with a load in an alternative of a ternary - that they do not cover.
\<close>

section \<open>Loops\<close>

lemma apply_leaves_of:
  "writes step p \<Longrightarrow> apply_condition_leaves step conds s w =
     (fw_state (flow_leaves p (unwrap_or [] conds) s), add_flow (flow_leaves p (unwrap_or [] conds) s) w)"
  by (auto simp: apply_condition_leaves_def cfg_leaves_flow split: option.splits)

text \<open>
  Property C5. The bounded loops of the walk always reach their fixed point: whatever the body and
  the condition of a loop contain (calls, nested loops, jumps), at whatever depth the walk meets it
  and in whatever state, the rounds that \<open>LOOP_BOUND\<close> allows end with a state the last round did not
  change. The branch that would saturate the state of a loop that does not settle is never taken.
\<close>

theorem loops_settle_within_bound:
  "fst (fst (loop_rounds LOOP_BOUND (walk_cfg d env body) (apply_condition_leaves (walk_cfg d env) conds) pre (push_loop_frame w)))
     \<noteq> None"
proof -
  obtain X L where w: "w = (X, L)" by (cases w)
  let ?p = "flow_cfg flow_loop d env"
  obtain cs where "loop_rounds LOOP_BOUND (walk_cfg d env body) (apply_condition_leaves (walk_cfg d env) conds) pre
      (X, \<lparr> lf_breaks = [], lf_continues = [] \<rparr> # L) =
    (fst (flow_rounds LOOP_BOUND (?p body) (flow_leaves ?p (unwrap_or [] conds)) pre),
      (X @ fw_exits (snd (flow_rounds LOOP_BOUND (?p body) (flow_leaves ?p (unwrap_or [] conds)) pre)),
       \<lparr> lf_breaks = fw_breaks (snd (flow_rounds LOOP_BOUND (?p body) (flow_leaves ?p (unwrap_or [] conds)) pre)),
         lf_continues = cs \<rparr> # L))"
    using loop_rounds_flow [of "walk_cfg d env body" "?p body" "apply_condition_leaves (walk_cfg d env) conds"
        "flow_leaves ?p (unwrap_or [] conds)" LOOP_BOUND pre X "\<lparr> lf_breaks = [], lf_continues = [] \<rparr>" L]
      writes_at [OF walk_cfg_flow] apply_leaves_of [OF walk_cfg_flow] by auto
  with flow_rounds_settle [of d env body "unwrap_or [] conds" pre] show ?thesis
    by (simp add: w push_loop_frame_def)
qed

section \<open>Facts and states\<close>







section \<open>Every path is covered by the facts\<close>

text \<open>The state at the end of a path, with the event dispatch that follows it.\<close>

definition dispatched :: "walk_env \<Rightarrow> param_dispatch option \<Rightarrow> per_param_state \<Rightarrow> per_param_state" where
  "dispatched env dispatch s = (case dispatch of Some pd \<Rightarrow> apply_dispatch s pd (we_look env) | None \<Rightarrow> s)"

lemma walk_param_dispatched: "walk_param env dispatch = exit_facts (map (dispatched env dispatch) (walk_ends env))"
  by (cases dispatch) (simp_all add: walk_param_def dispatched_def [abs_def])

lemma walk_ends_flow:
  assumes "mr_statement_tree (we_routine env) = Some tree"
  shows "walk_ends env = fw_exits (walk_flow env (MAX_CFG_WALK_DEPTH + 1) tree initial_state) @
      [fw_state (walk_flow env (MAX_CFG_WALK_DEPTH + 1) tree initial_state)]"
proof -
  have "walk_cfg (MAX_CFG_WALK_DEPTH + 1) env tree initial_state ([], []) =
      ((fw_state (walk_flow env (MAX_CFG_WALK_DEPTH + 1) tree initial_state), fw_reach (walk_flow env (MAX_CFG_WALK_DEPTH + 1) tree initial_state)),
        add_flow (walk_flow env (MAX_CFG_WALK_DEPTH + 1) tree initial_state) ([], []))"
    by (rule writes_at [OF walk_cfg_flow])
  then show ?thesis by (simp add: walk_ends_def assms add_flow_def)
qed


section \<open>Sample bodies\<close>

text \<open>A routine with one \<open>var\<close> record parameter that loads, modifies and reads it.\<close>

definition sample_anchor :: anchor where
  "sample_anchor = \<lparr> source_unit_id = ''u'', start_line = 3, start_column = 4, end_line = 3, end_column = 20, syntax_kind = ''call_expression'' \<rparr>"

definition rec_op :: "string \<Rightarrow> string \<Rightarrow> model_record_operation" where
  "rec_op i op = \<lparr> mo_id = i, mo_op = op, mo_record_variable_name = ''Rec'', mo_record_variable_id = Some ''r/rv0'', mo_table_id = Some ''t'',
     mo_temp_state = None, mo_field_arguments = None, mo_source_anchor = sample_anchor \<rparr>"

definition walk_routine :: "cfn_node \<Rightarrow> model_routine" where
  "walk_routine tree = \<lparr> mr_id = ''r'', mr_stable_routine_id = ''r#0'', mr_object_id = ''o'', mr_name = ''R'', mr_kind = ''procedure'',
     mr_body_available = True, mr_parse_incomplete = False, mr_record_variables = [],
     mr_record_operations = [rec_op ''load'' ''FindFirst'', rec_op ''save'' ''Modify'', rec_op ''check'' ''Validate''],
     mr_parameters = [\<lparr> mp_index = 0, mp_name = ''Rec'', mp_type_text = ''Record T'', mp_is_var = True, mp_is_record = True \<rparr>],
     mr_access_modifier = None, mr_call_sites = [], mr_field_accesses = [], mr_statement_tree = Some tree,
     mr_source_anchor = sample_anchor, mr_assigned_names = [] \<rparr>"

definition walk_sample :: "cfn_node \<Rightarrow> walk_env" where
  "walk_sample tree = \<lparr> we_routine = walk_routine tree, we_param = \<lparr> px_name_lc = ''rec'', px_rec_var_id = Some ''r/rv0'' \<rparr>,
     we_look = \<lparr> cl_snapshot = Map.empty, cl_final = Map.empty, cl_body_avail = Map.empty \<rparr>, we_upgraded = Map.empty,
     we_graph = \<lparr> pg_nodes = [''r''], pg_edges_by_from = Map.empty, pg_edges_from_order = [], pg_uncertainty_edges = [],
       pg_collided_site_callee = Map.empty \<rparr>,
     we_idx = build_indexes (walk_routine tree) \<rparr>"

definition op_node :: "string \<Rightarrow> path_hint option \<Rightarrow> cfn_node" where
  "op_node i hint = PCFNNode ''op'' (Some i) None None None None None False None hint None None None"


lemma op_node_simps [simp]:
  "nd_kind (op_node i h) = ''op''" "nd_operation_id (op_node i h) = Some i" "nd_path_hint (op_node i h) = h"
  "nd_callsite_id (op_node i h) = None" "condition_leaves_of (op_node i h) = []" "children_of (op_node i h) = []"
  "else_children_of (op_node i h) = []"
  by (simp_all add: op_node_def condition_leaves_of_def children_of_def else_children_of_def)

lemma sample_ops [simp]:
  "wi_op_by_id (we_idx (walk_sample tree)) ''load'' = Some (rec_op ''load'' ''FindFirst'')"
  "wi_op_by_id (we_idx (walk_sample tree)) ''save'' = Some (rec_op ''save'' ''Modify'')"
  "wi_op_by_id (we_idx (walk_sample tree)) ''check'' = Some (rec_op ''check'' ''Validate'')"
  by (simp_all add: walk_sample_def build_indexes_def walk_routine_def rec_op_def)

lemma path_op: "nd_operation_id n = Some i \<Longrightarrow> wi_op_by_id (we_idx env) i = Some op \<Longrightarrow> nd_kind n = ''op'' \<Longrightarrow>
    condition_leaves_of n = [] \<Longrightarrow> path env n [E_Op op] Falls"
  using p_op [of n env "[]"] p_nil [of env] by (simp add: op_events_def)

lemma path_one: "path env n es r \<Longrightarrow> path_list env [n] es r"
  using p_step [of env n es "[]" "[]" Falls] p_nil [of env] p_stop [of env n es r "[]"] by (cases "r = Falls") simp_all




section \<open>What the facts miss\<close>

text \<open>\<open>Ok := Cond ? Rec.FindFirst() : false; Rec.Modify()\<close>: the load is an alternative of a ternary.\<close>

definition ternary_sample :: cfn_node where
  "ternary_sample = node_of ''other'' None [] [op_node ''load'' (Some MayRun), op_node ''save'' None] []"

lemma save_unloaded:
  "pp_requires_loaded_at_entry (path_state (walk_sample tree) [E_Op (rec_op ''save'' ''Modify'')] initial_state) = PYes"
  by (simp add: apply_op_def op_affects_param_def walk_sample_def rec_op_def record_flow_role_def persist_or_validate_def
      initial_state_def Let_def)

text \<open>
  A body without its annotations: the path hints, the guards of the conditions and of the exits, and the
  tables a case tests.
\<close>

primrec unannotated :: "cfn_node \<Rightarrow> cfn_node" where
  "unannotated (PCFNNode k oi ci g ls cs es ce r h tc fg tg) =
     PCFNNode k oi ci None (map_option (map unannotated) ls) (map_option (map unannotated) cs) (map_option (map unannotated) es)
       ce r None None None None"


lemma unannotated_simps [simp]:
  "nd_kind (unannotated n) = nd_kind n" "nd_operation_id (unannotated n) = nd_operation_id n"
  "nd_callsite_id (unannotated n) = nd_callsite_id n" "nd_is_case_else (unannotated n) = nd_is_case_else n"
  "nd_source_range (unannotated n) = nd_source_range n"
  "nd_condition_leaves (unannotated n) = map_option (map unannotated) (nd_condition_leaves n)"
  "children_of (unannotated n) = map unannotated (children_of n)"
  "else_children_of (unannotated n) = map unannotated (else_children_of n)"
  "condition_leaves_of (unannotated n) = map unannotated (condition_leaves_of n)"
  "synthetic_block (unannotated n) = unannotated (synthetic_block n)"
  by (cases n; auto simp: children_of_def else_children_of_def condition_leaves_of_def synthetic_block_def unwrap_or_def
      split: option.split)+




lemma leaf_anchors_unannotated: "leaf_anchors idx (unannotated n) = leaf_anchors idx n"
proof (induction idx n rule: leaf_anchors.induct)
  case (1 idx n)
  then show ?case
    by (subst (1 2) leaf_anchors.simps) (simp add: own_anchors_def comp_def cong: map_cong)
qed

lemma positions_unannotated [simp]:
  "node_start_pos idx (unannotated n) = node_start_pos idx n" "node_range idx (unannotated n) = node_range idx n"
  "child_recurses_into_fas (unannotated n) = child_recurses_into_fas n"
  unfolding node_start_pos_def node_range_def leaf_anchors_unannotated child_recurses_into_fas_def unannotated_simps by simp_all

fun unannotated_event :: "block_event \<Rightarrow> block_event" where
  "unannotated_event (Ev_Child c p) = Ev_Child (unannotated c) p"
| "unannotated_event (Ev_Fa fa p) = Ev_Fa fa p"

lemma event_position_unannotated [simp]: "event_position (unannotated_event e) = event_position e"
  by (cases e) simp_all














text \<open>
  A load in an alternative of a ternary is taken for sure: the body below has a path
  that skips it and modifies the record unloaded, so the record must be loaded at entry, yet the walk
  returns that it need not.
\<close>

theorem ternary_load_taken_for_sure:
  "path (walk_sample ternary_sample) ternary_sample [E_Op (rec_op ''save'' ''Modify'')] Falls \<and>
   pp_requires_loaded_at_entry (path_state (walk_sample ternary_sample) [E_Op (rec_op ''save'' ''Modify'')] initial_state) = PYes \<and>
   pf_requires_loaded_at_entry (walk_param (walk_sample ternary_sample) None) = PNo"
proof (intro conjI)
  let ?env = "walk_sample ternary_sample"
  have "path_list ?env [op_node ''save'' None] [E_Op (rec_op ''save'' ''Modify'')] Falls"
    by (intro path_one path_op [of _ "''save''"]) simp_all
  from p_step [OF p_skip [of "op_node ''load'' (Some MayRun)" ?env] this]
  have "path_list ?env (children_of ternary_sample) [E_Op (rec_op ''save'' ''Modify'')] Falls"
    by (simp add: ternary_sample_def)
  from p_other [of ternary_sample ?env "[]", OF _ _ _ this] p_nil [of ?env]
  show "path ?env ternary_sample [E_Op (rec_op ''save'' ''Modify'')] Falls"
    by (simp add: ternary_sample_def compound_kind_def is_loop_kind_def leaf_kind_def asserts_error_def)
  show "pp_requires_loaded_at_entry (path_state ?env [E_Op (rec_op ''save'' ''Modify'')] initial_state) = PYes"
    by (rule save_unloaded)
  have "mr_statement_tree (we_routine ?env) = Some ternary_sample" by (simp add: walk_sample_def walk_routine_def)
  note ends = walk_ends_flow [OF this]
  have load: "pp_loaded (op_transfer ?env (op_node ''load'' (Some MayRun)) initial_state) = L_Yes"
    "pp_requires_loaded_at_entry (op_transfer ?env (op_node ''load'' (Some MayRun)) initial_state) = PNo"
    by (simp_all add: op_transfer_def apply_op_def op_affects_param_def record_flow_role_def initial_state_def)
      (simp_all add: rec_op_def walk_sample_def)
  have save: "pp_requires_loaded_at_entry (op_transfer ?env (op_node ''save'' None) s) = pp_requires_loaded_at_entry s"
    if "pp_loaded s = L_Yes" for s
    using that by (simp add: op_transfer_def apply_op_def record_flow_role_def rec_op_def persist_or_validate_def Let_def)
  have node: "walk_flow ?env (Suc d) (op_node i h) s = f_fell (op_transfer ?env (op_node i h) s)" for d i h s
    by (simp add: flow_one_def Let_def f_then_def f_fell_def)
  have shape: "nd_kind ternary_sample = ''other''" "condition_leaves_of ternary_sample = []"
    "children_of ternary_sample = [op_node ''load'' (Some MayRun), op_node ''save'' None]" by (simp_all add: ternary_sample_def)
  have one: "flow_one flow_loop W ?env ternary_sample s =
      f_fell (op_transfer ?env (op_node ''save'' None) (op_transfer ?env (op_node ''load'' (Some MayRun)) s))"
    if "\<And>i h s. W (op_node i h) s = f_fell (op_transfer ?env (op_node i h) s)" for W s
    unfolding flow_one_def shape by (simp add: that Let_def f_seq_def f_then_def f_fell_def)
  have "MAX_CFG_WALK_DEPTH + 1 = Suc (Suc 31)" by (simp add: MAX_CFG_WALK_DEPTH_def)
  then have "walk_flow ?env (MAX_CFG_WALK_DEPTH + 1) ternary_sample initial_state =
      f_fell (op_transfer ?env (op_node ''save'' None) (op_transfer ?env (op_node ''load'' (Some MayRun)) initial_state))"
    using one [of "walk_flow ?env (Suc 31)", OF node] by simp
  then show "pf_requires_loaded_at_entry (walk_param ?env None) = PNo"
    unfolding walk_param_dispatched ends by (simp add: exit_facts_def dispatched_def save load join_presence_max)
qed

text \<open>A statement under \<open>k\<close> nested \<open>with\<close> statements.\<close>

primrec nest :: "nat \<Rightarrow> cfn_node \<Rightarrow> cfn_node" where
  "nest 0 n = n"
| "nest (Suc k) n = node_of ''other'' None [] [nest k n] []"

lemma deep_walk: "d \<le> k \<Longrightarrow> flow_cfg lp d env (nest k n) s = f_fell (saturate_unknown s)"
proof (induction d arbitrary: k)
  case (Suc d)
  then obtain k' where "k = Suc k'" "d \<le> k'" by (cases k) auto
  with Suc.IH show ?case by (simp add: flow_one_def Let_def f_seq_def f_then_def f_fell_def)
qed simp

lemma nest_path: "path env n es r \<Longrightarrow> path env (nest k n) es r"
proof (induction k)
  case (Suc k)
  then have "path_list env [nest k n] es r" by (simp add: path_one)
  from p_other [of "nest (Suc k) n" env "[]", OF _ _ _ ] this p_nil [of env] show ?case
    by (simp add: compound_kind_def is_loop_kind_def leaf_kind_def asserts_error_def)
qed simp

text \<open>
  Property C40. A statement nested deeper than the depth budget loses its entry requirement: with
  more than \<open>MAX_CFG_WALK_DEPTH\<close> enclosing statements around \<open>Rec.Modify()\<close>, the only path modifies
  the record unloaded, and the walk returns the definite answer that it need not be loaded. The
  saturated state the cut returns keeps the requirements as they were.
\<close>

theorem deep_statement_loses_requirement:
  assumes "MAX_CFG_WALK_DEPTH < k"
  defines "tree \<equiv> nest k (op_node ''save'' None)"
  shows "path (walk_sample tree) tree [E_Op (rec_op ''save'' ''Modify'')] Falls \<and>
    pp_requires_loaded_at_entry (path_state (walk_sample tree) [E_Op (rec_op ''save'' ''Modify'')] initial_state) = PYes \<and>
    pf_requires_loaded_at_entry (walk_param (walk_sample tree) None) = PNo"
proof (intro conjI)
  show "path (walk_sample tree) tree [E_Op (rec_op ''save'' ''Modify'')] Falls"
    unfolding tree_def by (rule nest_path) (rule path_op [of _ "''save''"], simp_all)
  show "pp_requires_loaded_at_entry (path_state (walk_sample tree) [E_Op (rec_op ''save'' ''Modify'')] initial_state) = PYes"
    by (rule save_unloaded)
  have "mr_statement_tree (we_routine (walk_sample tree)) = Some tree" by (simp add: walk_sample_def walk_routine_def)
  note ends = walk_ends_flow [OF this]
  have "walk_flow (walk_sample tree) (MAX_CFG_WALK_DEPTH + 1) tree initial_state = f_fell (saturate_unknown initial_state)"
    unfolding tree_def by (rule deep_walk) (use assms(1) in simp)
  then show "pf_requires_loaded_at_entry (walk_param (walk_sample tree) None) = PNo"
    unfolding walk_param_dispatched ends
    by (simp add: exit_facts_def dispatched_def saturate_unknown_def initial_state_def join_presence_max)
qed

theorem deep_statement_loses_requirement_witness:
  "pf_requires_loaded_at_entry (walk_param (walk_sample (nest 33 (op_node ''save'' None))) None) = PNo"
  using deep_statement_loses_requirement [of 33] by (simp add: MAX_CFG_WALK_DEPTH_def)

end
