(* ===== verification/Role_Compose.thy ===== *)
theory Role_Compose
  imports Cfg_Walker "HOL-Library.Sublist"
begin

text \<open>
  The roles of the record parameters of one routine
  (\<open>src/src/engine/l4/summary_runner.rs\<close>): the roles its own body gives, the presence facts of its
  callees and subscribers folded in, and the path facts of the walk of \<open>Cfg_Walker\<close>; the key by which
  a round of the solver tells whether roles changed (\<open>src/src/engine/l4/summary.rs\<close>).
\<close>

section \<open>The roles of a body\<close>

text \<open>The index of the fields of the tables, by table id and lowercased name.\<close>

type_synonym field_index = "string \<times> string \<rightharpoonup> string"

definition resolve_field :: "string \<Rightarrow> string \<Rightarrow> field_index \<Rightarrow> string option" where
  "resolve_field table_id field_name fx =
     (if table_id = ''unknown'' then None else fx (table_id, to_lowercase field_name))"

text \<open>\<open>routine.record_variables\<close>: the record variable of a parameter.\<close>

definition parameter_variable :: "model_routine \<Rightarrow> u32 \<Rightarrow> model_record_variable option" where
  "parameter_variable r i =
     List.find (\<lambda>rv. mv_is_parameter rv \<and> mv_parameter_index rv = Some i) (mr_record_variables r)"

text \<open>A presence fact some operation of the variable sets.\<close>

definition seen_role :: "model_record_operation list \<Rightarrow> string \<Rightarrow> effect_presence" where
  "seen_role ops role = (if list_ex (\<lambda>op. record_flow_role (mo_op op) = role) ops then PYes else PNo)"

definition seen_op :: "model_record_operation list \<Rightarrow> string list \<Rightarrow> bool" where
  "seen_op ops names = list_ex (\<lambda>op. mo_op op \<in> set names) ops"

text \<open>Collected through a \<open>BTreeSet\<close>.\<close>

definition sorted_set :: "string list \<Rightarrow> string list" where
  "sorted_set xs = remdups_adj (sort xs)"

definition read_fields :: "model_routine \<Rightarrow> string \<Rightarrow> string \<Rightarrow> field_index \<Rightarrow> string list" where
  "read_fields r name_lc table_id fx =
     List.map_filter (\<lambda>fa. resolve_field table_id (fa_field_name fa) fx)
       (filter (\<lambda>fa. to_lowercase (fa_record_variable_name fa) = name_lc) (mr_field_accesses r))"

definition written_fields :: "model_record_operation list \<Rightarrow> string \<Rightarrow> field_index \<Rightarrow> string list" where
  "written_fields ops table_id fx =
     concat (map (\<lambda>op. if mo_op op = ''Validate''
         then List.map_filter (\<lambda>arg. resolve_field table_id arg fx) (unwrap_or [] (mo_field_arguments op)) else []) ops)"

definition uses_record_ref :: "model_parameter \<Rightarrow> bool" where
  "uses_record_ref p \<longleftrightarrow>
     (let t = to_lowercase (mp_type_text p) in
      sublist ''recordref'' t \<or> sublist ''fieldref'' t \<or> sublist ''variant'' t)"

definition base_role :: "model_routine \<Rightarrow> field_index \<Rightarrow> model_parameter \<Rightarrow> model_record_variable \<Rightarrow> record_role_summary" where
  "base_role r fx p rv =
     (let table_id = unwrap_or ''unknown'' (mv_table_id rv);
          name_lc = to_lowercase (mv_name rv);
          ops = filter (\<lambda>op. to_lowercase (mo_record_variable_name op) = name_lc) (mr_record_operations r);
          record_ref = uses_record_ref p;
          persists = seen_role ops ''persistsCurrent''; validates = seen_role ops ''validates'';
          copies = seen_role ops ''copiesInto''
      in \<lparr> rr_parameter_index = mp_index p, rr_table_id = table_id,
           rr_reads_fields = (if record_ref then FL_Unknown else FL_Known (sorted_set (read_fields r name_lc table_id fx))),
           rr_writes_fields = (if record_ref then FL_Unknown else FL_Known (sorted_set (written_fields ops table_id fx))),
           rr_may_reset_filters = seen_op ops [''Reset'', ''Copy''],
           rr_may_change_load_fields = seen_op ops [''SetLoadFields'', ''AddLoadFields'', ''Reset''],
           rr_may_assign_record = seen_op ops [''Copy'', ''TransferFields''],
           rr_may_use_record_ref = record_ref,
           rr_requires_loaded_at_entry = PUnknown, rr_required_loaded_fields_at_entry = FL_Unknown,
           rr_mutates_before_load = PUnknown, rr_persists_current_record = persists,
           rr_set_based_db_writes = seen_role ops ''setBasedWrite'', rr_validates_param = validates,
           rr_copies_into_param = copies, rr_resets_filters_on_param = seen_role ops ''resetsFilter'',
           rr_dirty_at_exit = PUnknown, rr_current_loaded_fields_at_exit = FL_Unknown,
           rr_mutates_param = join_presence (join_presence persists validates) copies,
           rr_loads_from_db_param = seen_role ops ''loadsFromDb'', rr_initialises_param = seen_role ops ''initialises'' \<rparr>)"

definition compute_record_roles :: "model_routine \<Rightarrow> field_index \<Rightarrow> record_role_summary list" where
  "compute_record_roles r fx =
     sort_key rr_parameter_index
       (List.map_filter (\<lambda>p. map_option (base_role r fx p) (parameter_variable r (mp_index p)))
          (filter mp_is_record (mr_parameters r)))"

section \<open>Presence facts of callees\<close>

text \<open>The derived fact, accumulated after the others.\<close>

definition accumulate_mutates :: "effect_presence \<Rightarrow> record_role_summary \<Rightarrow> record_role_summary" where
  "accumulate_mutates callee_mutates p =
     (let derived = join_presence (join_presence (rr_persists_current_record p) (rr_validates_param p)) (rr_copies_into_param p)
      in p \<lparr> rr_mutates_param := join_presence (join_presence (rr_mutates_param p) derived) callee_mutates \<rparr>)"

text \<open>\<open>None\<close> is an opaque callee; \<open>optional\<close> a subscriber that may not run.\<close>

definition fold_callee_presence :: "record_role_summary option \<Rightarrow> bool \<Rightarrow> record_role_summary \<Rightarrow> record_role_summary" where
  "fold_callee_presence callee_role optional p =
     (case callee_role of
        None \<Rightarrow>
          accumulate_mutates PNo
            (p \<lparr> rr_persists_current_record := join_presence (rr_persists_current_record p) PUnknown,
               rr_set_based_db_writes := join_presence (rr_set_based_db_writes p) PUnknown,
               rr_validates_param := join_presence (rr_validates_param p) PUnknown,
               rr_copies_into_param := join_presence (rr_copies_into_param p) PUnknown,
               rr_resets_filters_on_param := join_presence (rr_resets_filters_on_param p) PUnknown,
               rr_loads_from_db_param := join_presence (rr_loads_from_db_param p) PUnknown,
               rr_initialises_param := join_presence (rr_initialises_param p) PUnknown \<rparr>)
      | Some cr \<Rightarrow>
          (let trio = (\<lambda>v. if optional then optional_load v else v) in
           accumulate_mutates (rr_mutates_param cr)
             (p \<lparr> rr_persists_current_record := join_presence (rr_persists_current_record p) (rr_persists_current_record cr),
                rr_set_based_db_writes := join_presence (rr_set_based_db_writes p) (rr_set_based_db_writes cr),
                rr_validates_param := join_presence (rr_validates_param p) (rr_validates_param cr),
                rr_copies_into_param := join_presence (rr_copies_into_param p) (trio (rr_copies_into_param cr)),
                rr_resets_filters_on_param := join_presence (rr_resets_filters_on_param p) (rr_resets_filters_on_param cr),
                rr_loads_from_db_param := join_presence (rr_loads_from_db_param p) (trio (rr_loads_from_db_param cr)),
                rr_initialises_param := join_presence (rr_initialises_param p) (trio (rr_initialises_param cr)) \<rparr>)))"

text \<open>\<open>roles.iter_mut().find(..)\<close>: the first role of a parameter changes.\<close>

fun update_role :: "u32 \<Rightarrow> (record_role_summary \<Rightarrow> record_role_summary) \<Rightarrow> record_role_summary list \<Rightarrow> record_role_summary list" where
  "update_role i f [] = []"
| "update_role i f (r # rs) = (if rr_parameter_index r = i then f r # rs else r # update_role i f rs)"

text \<open>The role of a callee's parameter, unless it cannot be seen: no summary, no role or no body.\<close>

definition visible_role :: "callee_lookup \<Rightarrow> string \<Rightarrow> u32 \<Rightarrow> record_role_summary option" where
  "visible_role look callee i =
     (if unwrap_or False (cl_body_avail look callee) then Option.bind (lookup_roles look callee) (role_at i) else None)"

definition fold_dispatch_presence :: "callee_lookup \<Rightarrow> param_dispatch list \<Rightarrow> record_role_summary list \<Rightarrow> record_role_summary list" where
  "fold_dispatch_presence look dispatch roles =
     fold (\<lambda>d. update_role (pd_param_index d) (\<lambda>p.
         case pd_kind d of
           Unseen _ \<Rightarrow> fold_callee_presence None False p
         | Exact bindings \<Rightarrow>
             fold (\<lambda>b. fold_callee_presence (visible_role look (eb_subscriber b) (eb_q b)) (eb_optional b))
               (filter eb_callee_is_var bindings) p))
       (filter pd_caller_is_var dispatch) roles"

section \<open>Composition\<close>

text \<open>What the roles of a routine are computed from, besides the roles of its callees.\<close>

record role_ctx =
  rc_routines_by_id :: "string \<rightharpoonup> model_routine"
  rc_base_roles :: "string \<rightharpoonup> record_role_summary list"
  rc_upgraded :: "string \<rightharpoonup> upgraded_binding list"
  rc_graph :: primary_graph
  rc_body_avail :: "string \<rightharpoonup> bool"
  rc_stable_map :: "string \<rightharpoonup> string"
  rc_is_leaf :: "string \<Rightarrow> bool"
  rc_fixed_roles :: "string set"
  rc_dispatch_by_id :: "string \<rightharpoonup> param_dispatch list"
  rc_owned_sites :: "string \<rightharpoonup> model_call_site list"

type_synonym role_map = "string \<rightharpoonup> record_role_summary list"

definition look_at :: "role_ctx \<Rightarrow> role_map \<Rightarrow> role_map \<Rightarrow> callee_lookup" where
  "look_at ctx snapshot final = \<lparr> cl_snapshot = snapshot, cl_final = final, cl_body_avail = rc_body_avail ctx \<rparr>"

text \<open>One argument binding of a call site: a \<open>var\<close> parameter passed on as \<open>var\<close>.\<close>

definition fold_binding ::
  "callee_lookup \<Rightarrow> upgraded_binding list option \<Rightarrow> string option \<Rightarrow> nat \<times> argument_binding
    \<Rightarrow> record_role_summary list \<Rightarrow> record_role_summary list" where
  "fold_binding look upgraded callee = (\<lambda>(i, b) roles.
     (if resolution_at upgraded i \<noteq> ''resolved'' then roles
      else
        (case ab_source_parameter_index b of
           None \<Rightarrow> roles
         | Some source \<Rightarrow>
             if ab_caller_source_parameter_is_var b \<noteq> Some True then roles
             else if \<not> (case upgraded_at upgraded i of Some ub \<Rightarrow> ub_callee_parameter_is_var ub | None \<Rightarrow> False) then roles
             else
               (case callee of
                  None \<Rightarrow> roles
                | Some c \<Rightarrow> update_role source (fold_callee_presence (visible_role look c (ab_parameter_index b)) False) roles))))"

definition fold_site :: "role_ctx \<Rightarrow> callee_lookup \<Rightarrow> string \<Rightarrow> model_call_site \<Rightarrow> record_role_summary list \<Rightarrow> record_role_summary list" where
  "fold_site ctx look rid cs roles =
     (let pick = site_pick (rc_graph ctx) rid (mc_id cs) (rc_upgraded ctx) in
      fold (fold_binding look (sc_bindings pick) (sc_callee pick)) (enumerate 0 (mc_argument_bindings cs)) roles)"

definition with_path_facts :: "path_aware_facts \<Rightarrow> record_role_summary \<Rightarrow> record_role_summary" where
  "with_path_facts f r =
     r \<lparr> rr_requires_loaded_at_entry := pf_requires_loaded_at_entry f,
       rr_mutates_before_load := pf_mutates_before_load f,
       rr_dirty_at_exit := pf_dirty_at_exit f,
       rr_current_loaded_fields_at_exit := pf_current_loaded_fields_at_exit f,
       rr_required_loaded_fields_at_entry := pf_required_loaded_fields_at_entry f \<rparr>"

definition role_env :: "role_ctx \<Rightarrow> callee_lookup \<Rightarrow> model_routine \<Rightarrow> model_record_variable \<Rightarrow> walk_env" where
  "role_env ctx look r rv =
     \<lparr> we_routine = r, we_param = \<lparr> px_name_lc = to_lowercase (mv_name rv), px_rec_var_id = Some (mv_id rv) \<rparr>,
       we_look = look, we_upgraded = rc_upgraded ctx, we_graph = rc_graph ctx, we_idx = build_indexes r \<rparr>"

definition path_role :: "role_ctx \<Rightarrow> callee_lookup \<Rightarrow> param_dispatch list \<Rightarrow> model_routine \<Rightarrow> record_role_summary \<Rightarrow> record_role_summary" where
  "path_role ctx look dispatch r role =
     (case parameter_variable r (rr_parameter_index role) of
        None \<Rightarrow> role
      | Some rv \<Rightarrow>
          with_path_facts (walk_param (role_env ctx look r rv)
            (List.find (\<lambda>d. pd_param_index d = rr_parameter_index role) dispatch)) role)"

definition compose_roles_only ::
  "role_ctx \<Rightarrow> callee_lookup \<Rightarrow> model_routine \<Rightarrow> model_call_site list \<Rightarrow> record_role_summary list \<Rightarrow> param_dispatch list
    \<Rightarrow> record_role_summary list" where
  "compose_roles_only ctx look r sites base_roles dispatch =
     (let roles = fold (fold_site ctx look (mr_id r)) sites base_roles;
          roles = fold_dispatch_presence look dispatch roles
      in if mr_body_available r \<and> \<not> mr_parse_incomplete r then map (path_role ctx look dispatch r) roles else roles)"

section \<open>Fixed and opaque roles\<close>

definition opaque_role :: "record_role_summary \<Rightarrow> record_role_summary" where
  "opaque_role r =
     r \<lparr> rr_requires_loaded_at_entry := PUnknown, rr_required_loaded_fields_at_entry := FL_Unknown,
       rr_mutates_before_load := PUnknown, rr_persists_current_record := PUnknown, rr_set_based_db_writes := PUnknown,
       rr_validates_param := PUnknown, rr_copies_into_param := PUnknown, rr_resets_filters_on_param := PUnknown,
       rr_dirty_at_exit := PUnknown, rr_current_loaded_fields_at_exit := FL_Unknown, rr_mutates_param := PUnknown,
       rr_loads_from_db_param := PUnknown, rr_initialises_param := PUnknown \<rparr>"

definition dispatch_at :: "role_ctx \<Rightarrow> string \<Rightarrow> param_dispatch list" where
  "dispatch_at ctx rid = unwrap_or [] (rc_dispatch_by_id ctx rid)"

definition base_at_id :: "role_ctx \<Rightarrow> string \<Rightarrow> record_role_summary list" where
  "base_at_id ctx rid = unwrap_or [] (rc_base_roles ctx rid)"

definition member_roles :: "role_ctx \<Rightarrow> role_map \<Rightarrow> role_map \<Rightarrow> model_routine \<Rightarrow> record_role_summary list \<Rightarrow> record_role_summary list" where
  "member_roles ctx snapshot final r base_roles =
     (let look = look_at ctx snapshot final; dispatch = dispatch_at ctx (mr_id r) in
      if mr_id r \<in> rc_fixed_roles ctx then fold_dispatch_presence look dispatch base_roles
      else compose_roles_only ctx look r (sites_of (rc_owned_sites ctx) r) base_roles dispatch)"

definition fixed_roles_on_cap :: "role_ctx \<Rightarrow> string \<Rightarrow> record_role_summary list" where
  "fixed_roles_on_cap ctx rid =
     fold_dispatch_presence (look_at ctx Map.empty Map.empty)
       (map (\<lambda>d. d \<lparr> pd_kind := Unseen False, pd_sequences := [] \<rparr>) (dispatch_at ctx rid)) (base_at_id ctx rid)"

section \<open>The change key\<close>

text \<open>
  The roles part of \<open>summary_change_key\<close>. A list of names is joined with commas and written as a
  JSON string, as the sentinels are; \<open>json\<close> stands for the writer of the JSON library.
\<close>

definition field_list_key :: "(string \<Rightarrow> string) \<Rightarrow> field_list \<Rightarrow> string" where
  "field_list_key json fl =
     json (case fl of FL_Known names \<Rightarrow> join_with '','' names | FL_Unknown \<Rightarrow> ''unknown'' | FL_Full \<Rightarrow> ''full'')"

definition role_key :: "(string \<Rightarrow> string) \<Rightarrow> record_role_summary \<Rightarrow> string list" where
  "role_key json r =
     [dec_string (unat (rr_parameter_index r)),
      presence_as_str (rr_loads_from_db_param r), presence_as_str (rr_initialises_param r),
      presence_as_str (rr_persists_current_record r), presence_as_str (rr_set_based_db_writes r),
      presence_as_str (rr_validates_param r), presence_as_str (rr_copies_into_param r),
      presence_as_str (rr_resets_filters_on_param r), presence_as_str (rr_mutates_param r),
      presence_as_str (rr_requires_loaded_at_entry r), presence_as_str (rr_mutates_before_load r),
      field_list_key json (rr_required_loaded_fields_at_entry r),
      presence_as_str (rr_dirty_at_exit r), field_list_key json (rr_current_loaded_fields_at_exit r)]"

definition roles_change_key :: "(string \<Rightarrow> string) \<Rightarrow> record_role_summary list \<Rightarrow> string list list" where
  "roles_change_key json roles = map (role_key json) (sort_key rr_parameter_index roles)"

end
