(* ===== verification/Role_Solve.thy ===== *)
theory Role_Solve
  imports Role_Compose Effect_Solve
begin

text \<open>
  The roles fixpoint (\<open>src/src/engine/l4/summary_runner.rs\<close>): \<open>run_one_scc_roles\<close>, a Jacobi iteration
  over the members of a component that recomputes only the members a callee of which changed, its
  round cap, and the loop of \<open>solve_v2\<close> that feeds the roles of a component to the next ones.
\<close>

definition MAX_FIXED_POINT_ITERATIONS :: nat where
  "MAX_FIXED_POINT_ITERATIONS = 1000"

section \<open>One round\<close>

record roles_state =
  rs_in_progress :: role_map
  rs_keys :: "string \<rightharpoonup> string list list"
  rs_dirty :: "string set"

record round_state =
  rd_next_pass :: role_map
  rd_keys :: "string \<rightharpoonup> string list list"
  rd_next_dirty :: "string set"
  rd_changed :: bool

text \<open>The members that call a member.\<close>

definition dependents :: "role_ctx \<Rightarrow> string list \<Rightarrow> string \<Rightarrow> string list" where
  "dependents ctx ms callee =
     (if callee \<in> set ms
      then concat (map (\<lambda>m. map (\<lambda>_. m) (filter (\<lambda>e. ce_to e = callee) (out_edges (rc_graph ctx) m))) ms) else [])"

definition round_member ::
  "(string \<Rightarrow> string) \<Rightarrow> role_ctx \<Rightarrow> string list \<Rightarrow> role_map \<Rightarrow> role_map \<Rightarrow> string set \<Rightarrow> string \<Rightarrow> round_state \<Rightarrow> round_state" where
  "round_member json ctx ms settled snapshot dirt rid rd =
     (if rc_is_leaf ctx rid \<or> rid \<notin> dirt then rd
      else
        (case rc_routines_by_id ctx rid of
           None \<Rightarrow> rd
         | Some r \<Rightarrow>
             (let next_roles = member_roles ctx snapshot settled r (base_at_id ctx rid);
                  next_key = roles_change_key json next_roles;
                  rd = (if rd_keys rd rid \<noteq> Some next_key
                    then rd \<lparr> rd_changed := True, rd_keys := (rd_keys rd)(rid \<mapsto> next_key),
                           rd_next_dirty := rd_next_dirty rd \<union> set (dependents ctx ms rid) \<rparr>
                    else rd)
              in rd \<lparr> rd_next_pass := (rd_next_pass rd)(rid \<mapsto> next_roles) \<rparr>)))"

definition roles_round ::
  "(string \<Rightarrow> string) \<Rightarrow> role_ctx \<Rightarrow> string list \<Rightarrow> role_map \<Rightarrow> roles_state \<Rightarrow> roles_state \<times> bool" where
  "roles_round json ctx ms settled st =
     (let snapshot = rs_in_progress st;
          rd = fold (round_member json ctx ms settled snapshot (rs_dirty st)) ms
                 \<lparr> rd_next_pass = Map.empty, rd_keys = rs_keys st, rd_next_dirty = {}, rd_changed = False \<rparr>
      in (\<lparr> rs_in_progress = snapshot ++ rd_next_pass rd, rs_keys = rd_keys rd, rs_dirty = rd_next_dirty rd \<rparr>, rd_changed rd))"

text \<open>\<open>n\<close> rounds are left; the flag says that they ran out.\<close>

primrec roles_rounds :: "nat \<Rightarrow> (roles_state \<Rightarrow> roles_state \<times> bool) \<Rightarrow> roles_state \<Rightarrow> roles_state \<times> bool" where
  "roles_rounds 0 round st = (st, True)"
| "roles_rounds (Suc n) round st =
     (let (st, changed) = round st in if changed then roles_rounds n round st else (st, False))"

section \<open>One component\<close>

record roles_scc_out =
  ro_roles :: "(string \<times> record_role_summary list) list"
  ro_cap_hit :: "string list option"

definition converged :: "(string \<times> record_role_summary list) list \<Rightarrow> roles_scc_out" where
  "converged roles = \<lparr> ro_roles = roles, ro_cap_hit = None \<rparr>"

text \<open>The members start from their base roles, all of them dirty.\<close>

definition roles_seeds :: "(string \<Rightarrow> string) \<Rightarrow> role_ctx \<Rightarrow> string list \<Rightarrow> roles_state" where
  "roles_seeds json ctx ms =
     (let solved = filter (\<lambda>m. \<not> rc_is_leaf ctx m) ms;
          in_progress = fold (\<lambda>m out. case rc_base_roles ctx m of Some roles \<Rightarrow> out(m \<mapsto> roles) | None \<Rightarrow> out) solved Map.empty
      in \<lparr> rs_in_progress = in_progress,
           rs_keys = fold (\<lambda>m out. case in_progress m of Some roles \<Rightarrow> out(m \<mapsto> roles_change_key json roles) | None \<Rightarrow> out) solved Map.empty,
           rs_dirty = set solved \<rparr>)"

definition stable_members :: "role_ctx \<Rightarrow> string list \<Rightarrow> string list" where
  "stable_members ctx ms = sort (map (\<lambda>m. unwrap_or m (rc_stable_map ctx m)) ms)"

definition published :: "role_ctx \<Rightarrow> bool \<Rightarrow> string \<Rightarrow> record_role_summary list \<Rightarrow> record_role_summary list" where
  "published ctx capped rid roles =
     (if \<not> capped then roles
      else if rid \<in> rc_fixed_roles ctx then fixed_roles_on_cap ctx rid
      else map opaque_role roles)"

text \<open>The members of a component are distinct, so a member leaves \<open>in_progress\<close> once.\<close>

definition run_one_scc_roles :: "(string \<Rightarrow> string) \<Rightarrow> role_ctx \<Rightarrow> role_map \<Rightarrow> scc \<Rightarrow> roles_scc_out" where
  "run_one_scc_roles json ctx settled scc_entry =
     (let ms = members scc_entry in
      if \<not> recursive scc_entry then
        (case first_of ms of
           None \<Rightarrow> converged []
         | Some rid \<Rightarrow>
             if rc_is_leaf ctx rid then converged []
             else
               (case rc_routines_by_id ctx rid of
                  None \<Rightarrow> converged []
                | Some r \<Rightarrow> converged [(rid, member_roles ctx Map.empty settled r (base_at_id ctx rid))]))
      else
        (let (st, capped) = roles_rounds MAX_FIXED_POINT_ITERATIONS (roles_round json ctx ms settled) (roles_seeds json ctx ms)
         in \<lparr> ro_roles = List.map_filter (\<lambda>rid. map_option (\<lambda>roles. (rid, published ctx capped rid roles)) (rs_in_progress st rid)) ms,
              ro_cap_hit = (if capped then Some (stable_members ctx ms) else None) \<rparr>))"

section \<open>The workspace\<close>

text \<open>What the roles need besides the inputs of the effect solve. The graph's hash map is read in the order \<open>ri_edge_order\<close>.\<close>

record role_inputs =
  ri_upgraded :: "string \<rightharpoonup> upgraded_binding list"
  ri_fields :: field_index
  ri_leaf_roles :: "(string \<times> record_role_summary list) list"
  ri_fixed_roles :: "string set"
  ri_edge_order :: "string list"

definition dispatch_by_id :: "v2_inputs \<Rightarrow> role_inputs \<Rightarrow> string \<rightharpoonup> param_dispatch list" where
  "dispatch_by_id vi ri rid =
     (let g = vi_graph vi;
          shared_events = shared_event_ids (concat (map (out_edges g) (ri_edge_order ri)));
          pick = last_per_id (index_rows (vi_routines vi))
            (map (\<lambda>r. map_option (\<lambda>edges. dispatch_bindings r edges (routines_by_id vi) shared_events) (pg_edges_by_from g (mr_id r)))
               (vi_routines vi)) rid
      in if pick = Some [] then None else pick)"

definition base_roles_by_id :: "v2_inputs \<Rightarrow> role_inputs \<Rightarrow> role_map" where
  "base_roles_by_id vi ri =
     merge_per_id (index_rows (vi_routines vi))
       (map (\<lambda>r. if is_leaf vi (mr_id r) then None else Some (compute_record_roles r (ri_fields ri))) (vi_routines vi)) last"

definition role_ctx_of :: "v2_inputs \<Rightarrow> role_inputs \<Rightarrow> role_ctx" where
  "role_ctx_of vi ri =
     \<lparr> rc_routines_by_id = routines_by_id vi, rc_base_roles = base_roles_by_id vi ri, rc_upgraded = ri_upgraded ri,
       rc_graph = vi_graph vi, rc_body_avail = body_avail_by_id vi, rc_stable_map = stable_map vi, rc_is_leaf = is_leaf vi,
       rc_fixed_roles = ri_fixed_roles ri, rc_dispatch_by_id = dispatch_by_id vi ri,
       rc_owned_sites = owned_sites (index_rows (vi_routines vi)) (vi_routines vi) \<rparr>"

text \<open>The components in turn, each with the roles of the earlier ones and of the leaves.\<close>

definition settle_scc :: "(string \<Rightarrow> string) \<Rightarrow> role_ctx \<Rightarrow> scc \<Rightarrow> role_map \<times> roles_scc_out list \<Rightarrow> role_map \<times> roles_scc_out list" where
  "settle_scc json ctx scc_entry = (\<lambda>(settled, outs).
     (let out = run_one_scc_roles json ctx settled scc_entry
      in (fold (\<lambda>(rid, roles) m. m(rid \<mapsto> roles)) (ro_roles out) settled, outs @ [out])))"

definition solve_roles :: "(string \<Rightarrow> string) \<Rightarrow> v2_inputs \<Rightarrow> role_inputs \<Rightarrow> role_map \<times> roles_scc_out list" where
  "solve_roles json vi ri =
     fold (settle_scc json (role_ctx_of vi ri)) (sccs (vi_scc vi)) (last_per_key_pairs (ri_leaf_roles ri), [])"

text \<open>The effect solve with the components whose roles hit the cap, as \<open>solve_v2\<close> runs it.\<close>

definition capped_components :: "(string \<Rightarrow> string) \<Rightarrow> v2_inputs \<Rightarrow> role_inputs \<Rightarrow> scc set" where
  "capped_components json vi ri =
     {c. \<exists>(c', out) \<in> set (zip (sccs (vi_scc vi)) (snd (solve_roles json vi ri))). c' = c \<and> ro_cap_hit out \<noteq> None}"

definition solve_workspace ::
  "(string \<Rightarrow> string) \<Rightarrow> v2_inputs \<Rightarrow> role_inputs \<Rightarrow> solve_orders \<Rightarrow> (summary_bundle \<times> (string \<rightharpoonup> routine_summary) \<times> role_map) option" where
  "solve_workspace json vi ri od =
     map_option (\<lambda>(bundle, m). (bundle, m, fst (solve_roles json vi ri)))
       (solve_v2 vi (od \<lparr> od_capped := (\<lambda>c. c \<in> capped_components json vi ri) \<rparr>))"

end
