(* ===== verification/Role_Local.thy ===== *)
theory Role_Local
  imports Role_Solve
begin

text \<open>
  What the roles of a routine depend on: the roles of the callees its call sites resolve to and of
  the subscribers its dispatches bind, nothing else. On a graph whose collided sites call along an edge these
  are targets of the routine's edges, which is what the solver's dependents are made from.
\<close>

section \<open>Two lookups that agree\<close>

definition agree :: "string set \<Rightarrow> callee_lookup \<Rightarrow> callee_lookup \<Rightarrow> bool" where
  "agree C look look' \<longleftrightarrow>
     cl_body_avail look = cl_body_avail look' \<and> (\<forall>c \<in> C. lookup_roles look c = lookup_roles look' c)"

lemma agree_mono: "agree C look look' \<Longrightarrow> D \<subseteq> C \<Longrightarrow> agree D look look'"
  by (auto simp: agree_def)

lemma callee_role_local:
  "agree C look look' \<Longrightarrow> set_option callee \<subseteq> C \<Longrightarrow>
     apply_callee_role s callee i cv ev d look = apply_callee_role s callee i cv ev d look'"
  by (auto simp: apply_callee_role_def agree_def split: option.split)

lemma visible_role_local: "agree C look look' \<Longrightarrow> c \<in> C \<Longrightarrow> visible_role look c i = visible_role look' c i"
  by (simp add: visible_role_def agree_def)

text \<open>The subscribers of a dispatch, and those its runs name.\<close>

definition subscribers :: "param_dispatch \<Rightarrow> string set" where
  "subscribers d = (case pd_kind d of Unseen _ \<Rightarrow> {} | Exact bs \<Rightarrow> eb_subscriber ` set bs)"

definition runs_in_range :: "param_dispatch \<Rightarrow> bool" where
  "runs_in_range d \<longleftrightarrow>
     (case pd_kind d of Unseen _ \<Rightarrow> True | Exact bs \<Rightarrow> \<forall>ixs \<in> set (pd_sequences d). \<forall>i \<in> set ixs. i < length bs)"

lemma dispatch_local:
  assumes "agree C look look'" "subscribers d \<subseteq> C" "runs_in_range d"
  shows "apply_dispatch s d look = apply_dispatch s d look'"
proof -
  have "dispatch_run s bs cv look ixs = dispatch_run s bs cv look' ixs"
    if "pd_kind d = Exact bs" "ixs \<in> set (pd_sequences d)" for bs cv ixs
    unfolding dispatch_run_def
  proof (rule fold_cong [OF refl refl], rule ext)
    fix i s
    assume "i \<in> set ixs"
    then have "bs ! i \<in> set bs" using assms(3) that by (simp add: runs_in_range_def)
    then have "set_option (Some (eb_subscriber (bs ! i))) \<subseteq> C" using assms(2) that(1) by (auto simp: subscribers_def)
    then show "apply_callee_role s (Some (eb_subscriber (bs ! i))) (eb_q (bs ! i)) cv (eb_callee_is_var (bs ! i)) True look =
        apply_callee_role s (Some (eb_subscriber (bs ! i))) (eb_q (bs ! i)) cv (eb_callee_is_var (bs ! i)) True look'"
      by (rule callee_role_local [OF assms(1)])
  qed
  then have "fold (\<lambda>ixs. join_into (dispatch_run s bs cv look ixs)) (pd_sequences d) None =
      fold (\<lambda>ixs. join_into (dispatch_run s bs cv look' ixs)) (pd_sequences d) None" if "pd_kind d = Exact bs" for bs cv
    using that by (intro fold_cong) simp_all
  then show ?thesis by (simp add: apply_dispatch_def split: dispatch_kind.split)
qed

section \<open>The walk\<close>

definition site_callees :: "primary_graph \<Rightarrow> (string \<rightharpoonup> upgraded_binding list) \<Rightarrow> string \<Rightarrow> model_call_site list \<Rightarrow> string set" where
  "site_callees g upgraded rid sites = {c. \<exists>cs \<in> set sites. sc_callee (site_pick g rid (mc_id cs) upgraded) = Some c}"

lemma fold_update_ran: "fold (\<lambda>x m. m(f x \<mapsto> x)) xs m k = Some y \<Longrightarrow> y \<in> set xs \<or> m k = Some y"
  by (induction xs arbitrary: m) (fastforce split: if_splits)+

lemma indexed_call: "wi_call_by_id (build_indexes r) k = Some cs \<Longrightarrow> cs \<in> set (mr_call_sites r)"
  using fold_update_ran [of mc_id "mr_call_sites r" Map.empty k cs] by (auto simp: build_indexes_def)

lemma walk_cfg_cong:
  assumes "we_param e = we_param e'" "we_idx e = we_idx e'"
    and "\<And>k cs s. wi_call_by_id (we_idx e) k = Some cs \<Longrightarrow> apply_call e s cs = apply_call e' s cs"
  shows "walk_cfg d e = walk_cfg d e'"
proof (induction d)
  case (Suc d)
  have events: "block_events e = block_events e'" using assms(1,2) by (simp add: block_events_def fun_eq_iff)
  have calls: "(case Option.bind x (wi_call_by_id (we_idx e')) of None \<Rightarrow> s | Some cs \<Rightarrow> apply_call e s cs) =
      (case Option.bind x (wi_call_by_id (we_idx e')) of None \<Rightarrow> s | Some cs \<Rightarrow> apply_call e' s cs)" for x s
    using assms(2,3) by (auto simp: bind_eq_Some_conv split: option.split)
  show ?case unfolding walk_cfg.simps walk_one_def Suc.IH assms(1,2) events calls by (rule refl)
qed simp

lemma walk_local:
  assumes "agree C (we_look e) look'" "we_idx e = build_indexes (we_routine e)"
    and "site_callees (we_graph e) (we_upgraded e) (mr_id (we_routine e)) (mr_call_sites (we_routine e)) \<subseteq> C"
    and "\<And>d. dispatch = Some d \<Longrightarrow> subscribers d \<subseteq> C \<and> runs_in_range d"
  shows "walk_param e dispatch = walk_param (e \<lparr> we_look := look' \<rparr>) dispatch"
proof -
  let ?e = "e \<lparr> we_look := look' \<rparr>"
  have call: "apply_call e s cs = apply_call ?e s cs" if "cs \<in> set (mr_call_sites (we_routine e))" for s cs
  proof -
    have "set_option (sc_callee (site_pick (we_graph e) (mr_id (we_routine e)) (mc_id cs) (we_upgraded e))) \<subseteq> C"
      using that assms(3) by (auto simp: site_callees_def)
    from callee_role_local [OF assms(1) this] show ?thesis by (simp add: apply_call_def Let_def split: option.split)
  qed
  have "walk_cfg d e = walk_cfg d ?e" for d
    by (rule walk_cfg_cong) (use call indexed_call assms(2) in auto)
  moreover have "walk_flat e s = walk_flat ?e s" for s
  proof -
    have "flat_events e = flat_events ?e" by (simp add: flat_events_def)
    moreover have "apply_flat e ev = apply_flat ?e ev" if "ev \<in> set (flat_events e)" for ev
    proof (cases ev)
      case (Fl_Call cs)
      with that have "cs \<in> set (mr_call_sites (we_routine e))" by (auto simp: flat_events_def Let_def)
      with Fl_Call call show ?thesis by (simp add: fun_eq_iff)
    qed (simp_all add: fun_eq_iff)
    ultimately show ?thesis unfolding walk_flat_def by (intro fold_cong) simp_all
  qed
  ultimately have "walk_ends e = walk_ends ?e" by (simp add: walk_ends_def split: option.split)
  with dispatch_local [OF assms(1)] assms(4) show ?thesis
    by (auto simp: walk_param_def Let_def cong: option.case_cong split: option.split)
qed

section \<open>The roles\<close>

definition callees_of :: "role_ctx \<Rightarrow> model_routine \<Rightarrow> string set" where
  "callees_of ctx r =
     site_callees (rc_graph ctx) (rc_upgraded ctx) (mr_id r) (sites_of (rc_owned_sites ctx) r @ mr_call_sites r) \<union>
     \<Union> (subscribers ` set (dispatch_at ctx (mr_id r)))"

lemma dispatch_presence_local:
  assumes "agree C look look'" "\<Union> (subscribers ` set dispatch) \<subseteq> C"
  shows "fold_dispatch_presence look dispatch roles = fold_dispatch_presence look' dispatch roles"
  unfolding fold_dispatch_presence_def
proof (rule fold_cong [OF refl refl], rule ext)
  fix d roles
  assume d: "d \<in> set (filter pd_caller_is_var dispatch)"
  have "fold (\<lambda>b. fold_callee_presence (visible_role look (eb_subscriber b) (eb_q b)) (eb_optional b)) (filter eb_callee_is_var bs) p =
      fold (\<lambda>b. fold_callee_presence (visible_role look' (eb_subscriber b) (eb_q b)) (eb_optional b)) (filter eb_callee_is_var bs) p"
    if "pd_kind d = Exact bs" for bs p
  proof (rule fold_cong [OF refl refl])
    fix b
    assume "b \<in> set (filter eb_callee_is_var bs)"
    moreover have "subscribers d \<subseteq> C" using d assms(2) by auto
    ultimately have "eb_subscriber b \<in> C" using that by (auto simp: subscribers_def)
    from visible_role_local [OF assms(1) this]
    show "fold_callee_presence (visible_role look (eb_subscriber b) (eb_q b)) (eb_optional b) =
        fold_callee_presence (visible_role look' (eb_subscriber b) (eb_q b)) (eb_optional b)" by simp
  qed
  then have "(\<lambda>p. case pd_kind d of Unseen _ \<Rightarrow> fold_callee_presence None False p
      | Exact bs \<Rightarrow> fold (\<lambda>b. fold_callee_presence (visible_role look (eb_subscriber b) (eb_q b)) (eb_optional b)) (filter eb_callee_is_var bs) p) =
    (\<lambda>p. case pd_kind d of Unseen _ \<Rightarrow> fold_callee_presence None False p
      | Exact bs \<Rightarrow> fold (\<lambda>b. fold_callee_presence (visible_role look' (eb_subscriber b) (eb_q b)) (eb_optional b)) (filter eb_callee_is_var bs) p)"
    by (auto simp: fun_eq_iff split: dispatch_kind.split)
  then show "update_role (pd_param_index d) (\<lambda>p. case pd_kind d of Unseen _ \<Rightarrow> fold_callee_presence None False p
      | Exact bs \<Rightarrow> fold (\<lambda>b. fold_callee_presence (visible_role look (eb_subscriber b) (eb_q b)) (eb_optional b)) (filter eb_callee_is_var bs) p) roles =
    update_role (pd_param_index d) (\<lambda>p. case pd_kind d of Unseen _ \<Rightarrow> fold_callee_presence None False p
      | Exact bs \<Rightarrow> fold (\<lambda>b. fold_callee_presence (visible_role look' (eb_subscriber b) (eb_q b)) (eb_optional b)) (filter eb_callee_is_var bs) p) roles"
    by (rule arg_cong)
qed

lemma binding_local:
  assumes "agree C look look'" "set_option callee \<subseteq> C"
  shows "fold_binding look upgraded callee ib roles = fold_binding look' upgraded callee ib roles"
  using visible_role_local [OF assms(1)] assms(2)
  by (cases ib) (auto simp: fold_binding_def split: option.split)

lemma sites_local:
  assumes "agree C look look'" "site_callees (rc_graph ctx) (rc_upgraded ctx) rid sites \<subseteq> C"
  shows "fold (fold_site ctx look rid) sites roles = fold (fold_site ctx look' rid) sites roles"
proof (rule fold_cong [OF refl refl], rule ext)
  fix cs roles
  assume "cs \<in> set sites"
  then have "set_option (sc_callee (site_pick (rc_graph ctx) rid (mc_id cs) (rc_upgraded ctx))) \<subseteq> C"
    using assms(2) by (auto simp: site_callees_def)
  from binding_local [OF assms(1) this]
  show "fold_site ctx look rid cs roles = fold_site ctx look' rid cs roles"
    unfolding fold_site_def Let_def by (intro fold_cong refl) (simp add: fun_eq_iff)
qed

text \<open>The roles of a routine depend on the roles of its callees only.\<close>

lemma member_roles_local:
  assumes "agree (callees_of ctx r) (look_at ctx X S) (look_at ctx Y T)"
    and "\<forall>d \<in> set (dispatch_at ctx (mr_id r)). runs_in_range d"
  shows "member_roles ctx X S r base = member_roles ctx Y T r base"
proof -
  let ?l = "look_at ctx X S" and ?l' = "look_at ctx Y T" and ?d = "dispatch_at ctx (mr_id r)"
  have subs: "\<Union> (subscribers ` set ?d) \<subseteq> callees_of ctx r" by (simp add: callees_of_def)
  have sites: "site_callees (rc_graph ctx) (rc_upgraded ctx) (mr_id r) (sites_of (rc_owned_sites ctx) r) \<subseteq> callees_of ctx r"
    "site_callees (rc_graph ctx) (rc_upgraded ctx) (mr_id r) (mr_call_sites r) \<subseteq> callees_of ctx r"
    by (auto simp: callees_of_def site_callees_def)
  have dispatch: "fold_dispatch_presence ?l ?d roles = fold_dispatch_presence ?l' ?d roles" for roles
    by (rule dispatch_presence_local [OF assms(1) subs])
  have "path_role ctx ?l ?d r role = path_role ctx ?l' ?d r role" for role
  proof -
    let ?own = "List.find (\<lambda>d. pd_param_index d = rr_parameter_index role) ?d"
    have own: "x \<in> set ?d" if "?own = Some x" for x using that by (auto simp: find_Some_iff)
    have "walk_param (role_env ctx ?l r rv) ?own = walk_param (role_env ctx ?l r rv \<lparr> we_look := ?l' \<rparr>) ?own" for rv
    proof (rule walk_local)
      show "agree (callees_of ctx r) (we_look (role_env ctx ?l r rv)) ?l'" using assms(1) by (simp add: role_env_def)
      show "subscribers x \<subseteq> callees_of ctx r \<and> runs_in_range x" if "?own = Some x" for x
        using subs assms(2) own [OF that] by auto
    qed (use sites in \<open>simp_all add: role_env_def\<close>)
    moreover have "role_env ctx ?l r rv \<lparr> we_look := ?l' \<rparr> = role_env ctx ?l' r rv" for rv by (simp add: role_env_def)
    ultimately have "walk_param (role_env ctx ?l r rv) ?own = walk_param (role_env ctx ?l' r rv) ?own" for rv by simp
    then show ?thesis by (simp add: path_role_def split: option.split)
  qed
  then have paths: "path_role ctx ?l ?d r = path_role ctx ?l' ?d r" by (rule ext)
  show ?thesis
    by (simp add: member_roles_def compose_roles_only_def Let_def dispatch paths sites_local [OF assms(1) sites(1)])
qed

end
