(* ===== verification/Role_Names.thy ===== *)
theory Role_Names
  imports Walk_Facts Role_Local List_Facts
begin

text \<open>
  The field names a solve computes with. A property of names that the rows of a routine and the roles
  of its callees have is kept by every step of the walk and by the composition of roles. Names without a comma
  make the change key faithful: two lists of roles of one routine with the same key are equal.
\<close>

section \<open>Properties the walk keeps\<close>

text \<open>What a property of states needs so that every state of a walk from a state with it has it.\<close>

locale walk_property =
  fixes P :: "per_param_state \<Rightarrow> bool" and env :: walk_env
  assumes join_has: "P a \<Longrightarrow> P b \<Longrightarrow> P (join_states a b)"
    and saturate_has: "P s \<Longrightarrow> P (saturate_unknown s)"
    and op_has: "wi_op_by_id (we_idx env) i = Some op \<or> op \<in> set (mr_record_operations (we_routine env)) \<Longrightarrow> P s \<Longrightarrow>
      P (apply_op s op (we_param env))"
    and read_has: "fa \<in> set (mr_field_accesses (we_routine env)) \<or> fa \<in> set (param_field_accesses (we_idx env) (we_param env)) \<Longrightarrow>
      P s \<Longrightarrow> P (apply_field_read s fa (we_param env))"
    and call_has: "P s \<Longrightarrow> P (apply_call env s cs)"
begin

definition holds :: "flow \<Rightarrow> bool" where
  "holds f \<longleftrightarrow> P (fw_state f) \<and> (\<forall>s \<in> set (fw_exits f @ fw_breaks f @ fw_continues f). P s)"

definition step_holds :: "flow_step \<Rightarrow> bool" where
  "step_holds p \<longleftrightarrow> (\<forall>n s. P s \<longrightarrow> holds (p n s))"

lemma stepD: "step_holds p \<Longrightarrow> P s \<Longrightarrow> holds (p n s)"
  by (simp add: step_holds_def)

lemma fell_holds: "P s \<Longrightarrow> holds (f_fell s)"
  by (simp add: holds_def)

lemma then_holds: "holds a \<Longrightarrow> (\<And>s. P s \<Longrightarrow> holds (k s)) \<Longrightarrow> holds (f_then a k)"
  by (auto simp: holds_def)

lemma seq_holds: "holds a \<Longrightarrow> (\<And>s. P s \<Longrightarrow> holds (k s)) \<Longrightarrow> holds (f_seq a k)"
  by (simp add: f_seq_def then_holds)

lemma leaves_hold: "step_holds p \<Longrightarrow> P s \<Longrightarrow> holds (flow_leaves p ns s)"
  by (induction ns arbitrary: s) (simp_all add: fell_holds then_holds stepD)

lemma list_holds: "step_holds p \<Longrightarrow> P s \<Longrightarrow> holds (flow_seq p ns s)"
  by (induction ns arbitrary: s) (simp_all add: fell_holds seq_holds stepD)

lemma events_hold:
  "step_holds p \<Longrightarrow> \<forall>fa pos. Ev_Fa fa pos \<in> set evs \<longrightarrow> fa \<in> set (param_field_accesses (we_idx env) (we_param env)) \<Longrightarrow> P s \<Longrightarrow>
     holds (flow_events p (we_param env) evs s)"
proof (induction evs arbitrary: s)
  case (Cons e evs)
  have rest: "holds (flow_events p (we_param env) evs s)" if "P s" for s
    using Cons.prems(2) by (intro Cons.IH [OF Cons.prems(1) _ that]) auto
  show ?case
  proof (cases e)
    case (Ev_Child c pos)
    then show ?thesis using Cons.prems by (auto intro: seq_holds stepD rest)
  next
    case (Ev_Fa fa pos)
    then have "fa \<in> set (param_field_accesses (we_idx env) (we_param env))" using Cons.prems(2) by (metis list.set_intros(1))
    then have "P (apply_field_read s fa (we_param env))" using Cons.prems(3) by (intro read_has disjI2)
    with Ev_Fa show ?thesis by (simp add: rest)
  qed
qed (simp add: fell_holds)

lemma block_event_access: "Ev_Fa fa pos \<in> set (block_events env n) \<Longrightarrow> fa \<in> set (param_field_accesses (we_idx env) (we_param env))"
  by (auto simp: block_events_def Let_def collect_field_accesses_in_block_def)

lemma arm_holds: "step_holds p \<Longrightarrow> P s \<Longrightarrow> holds (flow_arm p b s)"
  by (cases b) (simp_all add: flow_arm_def fell_holds stepD)

lemma if_holds:
  assumes "step_holds p" "P s"
  shows "holds (flow_if p a b s)"
proof -
  let ?a = "flow_arm p a s" and ?b = "flow_arm p b s"
  have "holds ?a" "holds ?b" using assms by (simp_all add: arm_holds)
  moreover from this have "P (fst (merge_arms (fw_state ?a, fw_reach ?a) (fw_state ?b, fw_reach ?b)))"
    by (cases "fw_reach ?a"; cases "fw_reach ?b") (simp_all add: holds_def join_has)
  ultimately show ?thesis by (auto simp: flow_if_def Let_def holds_def)
qed

lemma into_has: "P s \<Longrightarrow> pred_option P x \<Longrightarrow> pred_option P (join_into s x)"
  by (cases x) (simp_all add: join_into_def join_has)

lemma branches_hold:
  "step_holds p \<Longrightarrow> P s \<Longrightarrow> pred_option P x \<Longrightarrow> pred_option P (fst (flow_branches p cs s x)) \<and> holds (snd (flow_branches p cs s x))"
proof (induction cs arbitrary: x)
  case (Cons c cs)
  have c: "holds (p c s)" using Cons.prems by (simp add: stepD)
  then have "pred_option P (if fw_reach (p c s) = R_Normal then join_into (fw_state (p c s)) x else x)"
    using Cons.prems(3) by (simp add: holds_def into_has)
  from Cons.IH [OF Cons.prems(1,2) this] c show ?case by (auto simp: Let_def split_beta intro: then_holds)
qed (simp add: fell_holds)

lemma case_holds: "step_holds p \<Longrightarrow> P s \<Longrightarrow> holds (flow_case p cs s)"
  using branches_hold [of p s None cs]
  by (cases "fst (flow_branches p cs s None)") (simp_all add: flow_case_def split_beta Let_def holds_def join_has)

lemma fold_join_has: "P s \<Longrightarrow> \<forall>b \<in> set bs. P b \<Longrightarrow> P (fold (\<lambda>b s. join_states s b) bs s)"
  by (induction bs arbitrary: s) (simp_all add: join_has)

lemma continues_have:
  assumes "holds a" "P s"
  shows "P (fold_continue_states (fw_reach a) (fw_state a) s (fw_continues a))"
proof -
  have "pred_option P (fold join_into cs x)" if "\<forall>c \<in> set cs. P c" "pred_option P x" for cs x
    using that by (induction cs arbitrary: x) (simp_all add: into_has)
  from this [of "fw_continues a" "if fw_reach a = R_Normal then Some (fw_state a) else None"] assms
  show ?thesis by (auto simp: fold_continue_states_def holds_def unwrap_or_def split: option.split)
qed

lemma round_holds:
  assumes "step_holds p" "P s"
  shows "holds (flow_round (p n) (flow_leaves p ns) s)"
proof -
  let ?a = "p n s"
  let ?c = "flow_leaves p ns (fold_continue_states (fw_reach ?a) (fw_state ?a) s (fw_continues ?a))"
  have a: "holds ?a" by (rule stepD [OF assms])
  have "holds ?c" by (rule leaves_hold [OF assms(1) continues_have [OF a assms(2)]])
  with a assms(2) show ?thesis by (auto simp: flow_round_def Let_def holds_def intro: join_has)
qed

lemma rounds_hold:
  "step_holds p \<Longrightarrow> P s \<Longrightarrow>
     (\<forall>t. fst (fst (flow_rounds k (p n) (flow_leaves p ns) s)) = Some t \<longrightarrow> P t) \<and>
     P (snd (fst (flow_rounds k (p n) (flow_leaves p ns) s))) \<and> holds (snd (flow_rounds k (p n) (flow_leaves p ns) s))"
proof (induction k arbitrary: s)
  case (Suc k)
  let ?r = "flow_round (p n) (flow_leaves p ns) s"
  have r: "holds ?r" by (rule round_holds [OF Suc.prems])
  then have s: "P (fw_state ?r)" by (simp add: holds_def)
  from Suc.IH [OF Suc.prems(1) s] r Suc.prems(2) s show ?case
    by (auto simp: Let_def split_beta intro: then_holds)
qed (simp add: fell_holds)

lemma loop_holds:
  assumes "step_holds p" "P s"
  shows "holds (flow_loop (p n) (flow_leaves p ns) s)"
proof -
  obtain x t f where run: "flow_rounds LOOP_BOUND (p n) (flow_leaves p ns) s = ((x, t), f)" by (metis prod.exhaust)
  with rounds_hold [OF assms, of LOOP_BOUND n ns]
  have has: "\<forall>u. x = Some u \<longrightarrow> P u" "P t" "holds f" by simp_all
  then have "P (case x of Some u \<Rightarrow> u | None \<Rightarrow> saturate_unknown t)" by (auto intro: saturate_has split: option.split)
  then have "holds (after_breaks (case x of Some u \<Rightarrow> u | None \<Rightarrow> saturate_unknown t) f)"
    using has(3) fold_join_has by (simp add: after_breaks_def holds_def)
  then show ?thesis by (simp add: flow_loop_def run)
qed

lemma one_holds:
  assumes p: "step_holds p"
  shows "step_holds (flow_one flow_loop p env)"
  unfolding step_holds_def
proof (intro allI impI)
  fix n s
  assume s: "P s"
  have conds: "holds (flow_leaves p (condition_leaves_of n) s)" by (rule leaves_hold [OF p s])
  have op: "holds (f_fell (op_transfer env n t))" if "P t" for t
    using that op_has by (auto simp: op_transfer_def bind_eq_Some_conv intro!: fell_holds split: option.split)
  have call: "holds (f_fell (call_transfer env n t))" if "P t" for t
    using that call_has by (auto simp: call_transfer_def intro!: fell_holds split: option.split)
  have exit: "holds (f_exit a)" if "holds a" for a using that by (auto simp: f_exit_def holds_def)
  have jump: "holds (Flow s r [] [s] [])" "holds (Flow s r [] [] [s])" for r using s by (simp_all add: holds_def)
  have "holds (flow_events p (we_param env) (block_events env n) s)"
    using block_event_access by (intro events_hold [OF p _ s]) blast
  then show "holds (flow_one flow_loop p env n s)"
    unfolding flow_one_def Let_def
    using conds then_holds [OF conds if_holds [OF p]] then_holds [OF conds case_holds [OF p]] list_holds [OF p s]
      then_holds [OF conds loop_holds [OF p]] loop_holds [OF p s] jump exit [OF conds] then_holds [OF conds op]
      then_holds [OF conds call] exit [OF fell_holds [OF saturate_has [OF s]]] then_holds [OF conds list_holds [OF p]]
    by (simp split: option.split)
qed

lemma cfg_holds: "step_holds (flow_cfg flow_loop d env)"
proof (induction d)
  case 0
  show ?case by (simp add: step_holds_def fell_holds saturate_has)
next
  case (Suc d)
  from one_holds [OF this] show ?case by simp
qed

lemma ends_have: "P initial_state \<Longrightarrow> s \<in> set (walk_ends env) \<Longrightarrow> P s"
proof (cases "mr_statement_tree (we_routine env)")
  case (Some tree)
  assume "P initial_state" "s \<in> set (walk_ends env)"
  with stepD [OF cfg_holds] show ?thesis unfolding walk_ends_flow [OF Some] by (auto simp: holds_def simp del: flow_cfg.simps)
next
  case None
  assume init: "P initial_state" and s: "s \<in> set (walk_ends env)"
  have "P (fold (apply_flat env) evs t)" if "set evs \<subseteq> set (flat_events env)" "P t" for evs t
    using that
  proof (induction evs arbitrary: t)
    case (Cons ev evs)
    then have "ev \<in> set (flat_events env)" by simp
    then have "ev \<in> Fl_Op ` set (mr_record_operations (we_routine env)) \<union> Fl_Field ` set (mr_field_accesses (we_routine env)) \<union>
        range Fl_Call" by (simp add: flat_events_def Let_def) blast
    then have "P (apply_flat env ev t)" using Cons.prems(2) by (auto intro: op_has read_has call_has)
    with Cons show ?case by simp
  qed simp
  from this [OF order_refl init] s None show ?thesis by (simp add: walk_ends_def walk_flat_def)
qed

end

section \<open>Names\<close>

text \<open>The field names in a state, in a role, in the rows of a routine.\<close>

definition required_names :: "required_fields \<Rightarrow> string set" where
  "required_names f = (case f of RF_Set fs \<Rightarrow> set fs | RF_Unknown \<Rightarrow> {})"

definition state_names :: "per_param_state \<Rightarrow> string set" where
  "state_names s = required_names (pp_required_fields s) \<union>
     (case pp_current_loaded_fields s of LF_List fs \<Rightarrow> set fs | _ \<Rightarrow> {}) \<union>
     (case pp_pending_narrow s of PN_List fs \<Rightarrow> set fs | _ \<Rightarrow> {})"

definition list_names :: "field_list \<Rightarrow> string set" where
  "list_names fl = (case fl of FL_Known fs \<Rightarrow> set fs | _ \<Rightarrow> {})"

definition role_names :: "record_role_summary \<Rightarrow> string set" where
  "role_names r = list_names (rr_required_loaded_fields_at_entry r) \<union> list_names (rr_current_loaded_fields_at_exit r)"

definition roles_named :: "string set \<Rightarrow> record_role_summary list \<Rightarrow> bool" where
  "roles_named U roles \<longleftrightarrow> (\<forall>r \<in> set roles. role_names r \<subseteq> U)"

definition routine_names :: "model_routine \<Rightarrow> string set" where
  "routine_names r = fa_field_name ` set (mr_field_accesses r) \<union>
     \<Union> ((\<lambda>op. set (unwrap_or [] (mo_field_arguments op))) ` set (mr_record_operations r))"

definition look_named :: "string set \<Rightarrow> callee_lookup \<Rightarrow> bool" where
  "look_named U look \<longleftrightarrow> (\<forall>c roles. lookup_roles look c = Some roles \<longrightarrow> roles_named U roles)"

lemmas name_defs = state_names_def required_names_def list_names_def role_names_def

lemma join_names: "state_names (join_states a b) \<subseteq> state_names a \<union> state_names b"
  by (cases "pp_required_fields a"; cases "pp_required_fields b")
    (auto simp: state_names_def required_names_def join_states_def join_loaded_fields_flat join_pending_flat)

lemma saturate_names: "state_names (saturate_unknown s) = {}"
  by (simp add: name_defs saturate_unknown_def)

lemma initial_names: "state_names initial_state = {}"
  by (simp add: name_defs initial_state_def)

lemma op_names: "state_names (apply_op s op p) \<subseteq> state_names s \<union> set (unwrap_or [] (mo_field_arguments op))"
  unfolding apply_op_def Let_def
  by (cases "pp_pending_narrow s")
    (auto simp: state_names_def load_narrowed_def persist_or_validate_def narrow_fields_def dedup_sorted_def
      split: if_splits)

lemma read_names: "state_names (apply_field_read s fa p) \<subseteq> insert (fa_field_name fa) (state_names s)"
  by (cases "pp_required_fields s") (auto simp: state_names_def required_names_def apply_field_read_def)

lemma opaque_names: "state_names (opaque_transfer s cv ev d) \<subseteq> state_names s"
  by (auto simp: state_names_def required_names_def opaque_transfer_def Let_def)

lemma entry_names: "state_names (compose_entry cr s) \<subseteq> state_names s \<union> role_names cr"
  by (cases "pp_required_fields s"; cases "rr_required_loaded_fields_at_entry cr")
    (auto simp: state_names_def required_names_def role_names_def list_names_def compose_entry_def required_after_def)

lemma loaded_names: "state_names (compose_loaded cr s) \<subseteq> state_names s \<union> role_names cr"
  by (cases "rr_current_loaded_fields_at_exit cr")
    (auto simp: state_names_def role_names_def list_names_def compose_loaded_def field_list_to_loaded_def)

lemma exit_names: "state_names (compose_exit cr s) \<subseteq> state_names s"
  by (auto simp: state_names_def compose_exit_def)

lemma role_at_mem: "role_at i roles = Some r \<Longrightarrow> r \<in> set roles"
  by (auto simp: role_at_def find_Some_iff)

lemma callee_names:
  assumes "look_named U look" "state_names s \<subseteq> U"
  shows "state_names (apply_callee_role s callee i cv ev d look) \<subseteq> U"
proof -
  have opaque: "state_names (opaque_transfer s cv ev d) \<subseteq> U" using opaque_names assms(2) by blast
  have "state_names (let out = compose_entry cr s; out = (if ev then compose_loaded cr out else out)
      in if cv \<and> ev then compose_exit cr out else out) \<subseteq> U"
    if "Option.bind (lookup_roles look c) (role_at i) = Some cr" for c cr
  proof -
    have "role_names cr \<subseteq> U" using that assms(1) by (auto simp: bind_eq_Some_conv look_named_def roles_named_def dest: role_at_mem)
    with assms(2) have "state_names (compose_entry cr s) \<subseteq> U" using entry_names [of cr s] by blast
    moreover from this \<open>role_names cr \<subseteq> U\<close> have "state_names (compose_loaded cr (compose_entry cr s)) \<subseteq> U"
      using loaded_names [of cr "compose_entry cr s"] by blast
    ultimately show ?thesis
      using exit_names [of cr "compose_entry cr s"] exit_names [of cr "compose_loaded cr (compose_entry cr s)"] by (auto simp: Let_def)
  qed
  with opaque show ?thesis by (simp add: apply_callee_role_def split: option.split)
qed

lemma dispatch_names:
  assumes "look_named U look" "state_names s \<subseteq> U"
  shows "state_names (apply_dispatch s pd look) \<subseteq> U"
proof -
  have run: "state_names (dispatch_run s bs cv look ixs) \<subseteq> U" for bs cv ixs
    unfolding dispatch_run_def using assms(2)
    by (induction ixs arbitrary: s) (simp_all add: callee_names [OF assms(1)])
  have "pred_option (\<lambda>t. state_names t \<subseteq> U) (fold (\<lambda>ixs. join_into (dispatch_run s bs cv look ixs)) seqs x)"
    if "pred_option (\<lambda>t. state_names t \<subseteq> U) x" for bs cv seqs x
    using that
  proof (induction seqs arbitrary: x)
    case (Cons ixs seqs)
    have "pred_option (\<lambda>t. state_names t \<subseteq> U) (join_into (dispatch_run s bs cv look ixs) x)"
      using Cons.prems run [of bs cv ixs] join_names [of _ "dispatch_run s bs cv look ixs"] by (cases x) (simp_all add: join_into_def, blast)
    with Cons.IH show ?case by simp
  qed simp
  then have joined: "pred_option (\<lambda>t. state_names t \<subseteq> U) (fold (\<lambda>ixs. join_into (dispatch_run s bs cv look ixs)) seqs None)" for bs cv seqs
    by simp
  have "state_names (unwrap_or s x) \<subseteq> U" if "pred_option (\<lambda>t. state_names t \<subseteq> U) x" for x
    using that assms(2) by (cases x) simp_all
  from this [OF joined] have "state_names (unwrap_or s (fold (\<lambda>ixs. join_into (dispatch_run s bs cv look ixs)) seqs None)) \<subseteq> U" for bs cv seqs .
  moreover have "state_names (opaque_transfer s cv ev d) \<subseteq> U" for cv ev d using opaque_names assms(2) by blast
  ultimately show ?thesis by (simp add: apply_dispatch_def split: dispatch_kind.split)
qed

section \<open>Names of a walk\<close>

definition env_named :: "string set \<Rightarrow> walk_env \<Rightarrow> bool" where
  "env_named U env \<longleftrightarrow>
     routine_names (we_routine env) \<subseteq> U \<and> look_named U (we_look env) \<and> we_idx env = build_indexes (we_routine env)"

lemma indexed_op: "wi_op_by_id (build_indexes r) k = Some op \<Longrightarrow> op \<in> set (mr_record_operations r)"
  using fold_update_ran [of mo_id "mr_record_operations r" Map.empty k op] by (auto simp: build_indexes_def)

lemma push_access_set: "(\<Union>a \<in> set (push_access p fa xs). set (snd a)) = insert fa (\<Union>a \<in> set xs. set (snd a))"
  by (induction p fa xs rule: push_access.induct) auto

lemma indexed_access: "fa \<in> set (param_field_accesses (build_indexes r) p) \<Longrightarrow> fa \<in> set (mr_field_accesses r)"
proof -
  assume fa: "fa \<in> set (param_field_accesses (build_indexes r) p)"
  have "(\<Union>a \<in> set (fold (\<lambda>fa. push_access (pos fa) fa) fas xs). set (snd a)) = set fas \<union> (\<Union>a \<in> set xs. set (snd a))"
    for pos :: "field_access \<Rightarrow> position" and fas xs
    by (induction fas arbitrary: xs) (simp_all add: push_access_set)
  from this [of _ _ "[]"] have "(\<Union>a \<in> set (wi_fa_by_pos (build_indexes r)). set (snd a)) = set (mr_field_accesses r)"
    by (simp add: build_indexes_def)
  moreover obtain k where "fa \<in> set (unwrap_or [] (map_of (wi_fa_by_pos (build_indexes r)) k))"
    using fa by (auto simp: param_field_accesses_def)
  moreover from this obtain fas where "map_of (wi_fa_by_pos (build_indexes r)) k = Some fas" "fa \<in> set fas"
    by (cases "map_of (wi_fa_by_pos (build_indexes r)) k") auto
  ultimately show ?thesis using map_of_SomeD by fastforce
qed

interpretation named: walk_property "\<lambda>s. env_named U env \<longrightarrow> state_names s \<subseteq> U" env
proof
  fix s i op
  assume op: "wi_op_by_id (we_idx env) i = Some op \<or> op \<in> set (mr_record_operations (we_routine env))"
    and s: "env_named U env \<longrightarrow> state_names s \<subseteq> U"
  show "env_named U env \<longrightarrow> state_names (apply_op s op (we_param env)) \<subseteq> U"
  proof
    assume env: "env_named U env"
    with op have "op \<in> set (mr_record_operations (we_routine env))" by (auto simp: env_named_def indexed_op)
    then have "set (unwrap_or [] (mo_field_arguments op)) \<subseteq> U" using env by (auto simp: env_named_def routine_names_def)
    then show "state_names (apply_op s op (we_param env)) \<subseteq> U" using op_names s env by blast
  qed
next
  fix s fa
  assume fa: "fa \<in> set (mr_field_accesses (we_routine env)) \<or> fa \<in> set (param_field_accesses (we_idx env) (we_param env))"
    and s: "env_named U env \<longrightarrow> state_names s \<subseteq> U"
  show "env_named U env \<longrightarrow> state_names (apply_field_read s fa (we_param env)) \<subseteq> U"
  proof
    assume env: "env_named U env"
    with fa have "fa \<in> set (mr_field_accesses (we_routine env))" by (auto simp: env_named_def indexed_access)
    then have "fa_field_name fa \<in> U" using env by (auto simp: env_named_def routine_names_def)
    then show "state_names (apply_field_read s fa (we_param env)) \<subseteq> U" using read_names s env by blast
  qed
next
  fix s cs
  assume "env_named U env \<longrightarrow> state_names s \<subseteq> U"
  then show "env_named U env \<longrightarrow> state_names (apply_call env s cs) \<subseteq> U"
    by (auto simp: apply_call_def Let_def env_named_def dest!: callee_names split: option.split)
qed (use join_names saturate_names in blast)+

lemma facts_named:
  assumes "env_named U env"
  shows "list_names (pf_required_loaded_fields_at_entry (walk_param env dispatch)) \<union>
    list_names (pf_current_loaded_fields_at_exit (walk_param env dispatch)) \<subseteq> U"
proof -
  let ?ends = "map (dispatched env dispatch) (walk_ends env)"
  have "state_names s \<subseteq> U" if "s \<in> set (walk_ends env)" for s
    using named.ends_have [of U env s] initial_names that assms by auto
  moreover have look: "look_named U (we_look env)" using assms by (simp add: env_named_def)
  ultimately have ends: "\<forall>s \<in> set ?ends. state_names s \<subseteq> U"
    using dispatch_names [OF look] by (auto simp: dispatched_def split: option.split)
  have "required_names (fold (\<lambda>s v. join_required_fields v (pp_required_fields s)) ss v) \<subseteq> U"
    if "\<forall>s \<in> set ss. state_names s \<subseteq> U" "required_names v \<subseteq> U" for ss v
    using that
  proof (induction ss arbitrary: v)
    case (Cons s ss)
    then have "required_names (join_required_fields v (pp_required_fields s)) \<subseteq> U"
      by (cases v; cases "pp_required_fields s") (auto simp: required_names_def state_names_def)
    with Cons show ?case by simp
  qed simp
  from this [OF ends, of "RF_Set []"] have r: "required_names (fold (\<lambda>s v. join_required_fields v (pp_required_fields s)) ?ends (RF_Set [])) \<subseteq> U"
    by (simp add: required_names_def)
  have "list_names (loaded_to_field_list (unwrap_or LF_Unknown
      (fold (\<lambda>s acc. Some (case acc of None \<Rightarrow> pp_current_loaded_fields s | Some a \<Rightarrow> join_loaded_fields a (pp_current_loaded_fields s))) ss acc))) \<subseteq> U"
    if "\<forall>s \<in> set ss. state_names s \<subseteq> U" "list_names (loaded_to_field_list (unwrap_or LF_Unknown acc)) \<subseteq> U" for ss acc
    using that
  proof (induction ss arbitrary: acc)
    case (Cons s ss)
    then have "list_names (loaded_to_field_list (unwrap_or LF_Unknown
        (Some (case acc of None \<Rightarrow> pp_current_loaded_fields s | Some a \<Rightarrow> join_loaded_fields a (pp_current_loaded_fields s))))) \<subseteq> U"
      by (cases "pp_current_loaded_fields s")
        (auto simp: join_loaded_fields_flat list_names_def loaded_to_field_list_def state_names_def split: option.splits loaded_fields.splits)
    with Cons.IH [of "Some (case acc of None \<Rightarrow> pp_current_loaded_fields s | Some a \<Rightarrow> join_loaded_fields a (pp_current_loaded_fields s))"] Cons.prems(1)
    show ?case by simp
  qed simp
  from this [OF ends, of None] have "list_names (compute_current_loaded_at_exit ?ends) \<subseteq> U"
    by (simp add: compute_current_loaded_at_exit_def list_names_def loaded_to_field_list_def)
  with r show ?thesis
    by (auto simp: walk_param_dispatched exit_facts_def required_field_list_def list_names_def required_names_def split: required_fields.splits)
qed

lemma roles_named_empty [simp]: "roles_named U []"
  by (simp add: roles_named_def)

section \<open>Names of composed roles\<close>

text \<open>What composition never changes of a role: its parameter and its body-local slots.\<close>

definition fixed_part :: "record_role_summary \<Rightarrow> u32 \<times> string \<times> field_list \<times> field_list \<times> bool \<times> bool \<times> bool \<times> bool" where
  "fixed_part r = (rr_parameter_index r, rr_table_id r, rr_reads_fields r, rr_writes_fields r, rr_may_reset_filters r,
     rr_may_change_load_fields r, rr_may_assign_record r, rr_may_use_record_ref r)"

text \<open>The same roles up to their presence and path facts, with names of \<open>U\<close>.\<close>

definition roles_over :: "string set \<Rightarrow> record_role_summary list \<Rightarrow> record_role_summary list \<Rightarrow> bool" where
  "roles_over U base roles \<longleftrightarrow> map fixed_part roles = map fixed_part base \<and> roles_named U roles"

lemma presence_part [simp]:
  "fixed_part (fold_callee_presence cr opt p) = fixed_part p" "role_names (fold_callee_presence cr opt p) = role_names p"
  by (cases cr; simp add: fixed_part_def role_names_def fold_callee_presence_def accumulate_mutates_def Let_def)+

lemma presences_part [simp]:
  "fixed_part (fold (\<lambda>b. fold_callee_presence (f b) (g b)) bs p) = fixed_part p"
  "role_names (fold (\<lambda>b. fold_callee_presence (f b) (g b)) bs p) = role_names p"
  by (induction bs arbitrary: p) simp_all

lemma update_over:
  assumes "roles_over U base roles" "\<And>r. fixed_part (f r) = fixed_part r" "\<And>r. role_names (f r) = role_names r"
  shows "roles_over U base (update_role i f roles)"
proof -
  have "map fixed_part (update_role i f rs) = map fixed_part rs" for rs by (induction rs) (simp_all add: assms(2))
  moreover have "roles_named U (update_role i f rs) = roles_named U rs" for rs
    by (induction rs) (simp_all add: assms(3) roles_named_def)
  ultimately show ?thesis using assms(1) by (simp add: roles_over_def)
qed

lemma updates_over:
  assumes "\<And>d r. fixed_part (f d r) = fixed_part r" "\<And>d r. role_names (f d r) = role_names r"
  shows "roles_over U base roles \<Longrightarrow> roles_over U base (fold (\<lambda>d. update_role (i d) (f d)) ds roles)"
proof (induction ds arbitrary: roles)
  case (Cons d ds)
  from Cons.IH [OF update_over [OF Cons.prems assms]] show ?case by simp
qed simp

lemma dispatch_presence_over:
  "roles_over U base roles \<Longrightarrow> roles_over U base (fold_dispatch_presence look dispatch roles)"
  unfolding fold_dispatch_presence_def by (rule updates_over) (simp_all split: dispatch_kind.split)

lemma sites_over:
  assumes "roles_over U base roles"
  shows "roles_over U base (fold (fold_site ctx look rid) sites roles)"
proof -
  have binding: "roles_over U base (fold_binding look upgraded callee ib roles)" if "roles_over U base roles"
    for upgraded callee ib roles
    using that by (cases ib) (auto simp: fold_binding_def intro!: update_over split: option.split)
  have "roles_over U base (fold (fold_binding look upgraded callee) ibs roles)" if "roles_over U base roles"
    for upgraded callee ibs roles
    using that by (induction ibs arbitrary: roles) (simp_all add: binding)
  then have site: "roles_over U base (fold_site ctx look rid cs roles)" if "roles_over U base roles" for cs roles
    using that by (simp add: fold_site_def Let_def)
  show ?thesis using assms by (induction sites arbitrary: roles) (simp_all add: site)
qed

lemma paths_over:
  assumes "roles_over U base roles" "routine_names r \<subseteq> U" "look_named U look"
  shows "roles_over U base (map (path_role ctx look dispatch r) roles)"
proof -
  have "fixed_part (path_role ctx look dispatch r role) = fixed_part role" for role
    by (simp add: path_role_def with_path_facts_def fixed_part_def split: option.split)
  moreover have "role_names (path_role ctx look dispatch r role) \<subseteq> U" if "role \<in> set roles" for role
  proof (cases "parameter_variable r (rr_parameter_index role)")
    case None
    then show ?thesis using assms(1) that by (simp add: path_role_def roles_over_def roles_named_def)
  next
    case (Some rv)
    have "env_named U (role_env ctx look r rv)" using assms(2,3) by (simp add: env_named_def role_env_def)
    from facts_named [OF this] Some show ?thesis by (simp add: path_role_def with_path_facts_def role_names_def)
  qed
  ultimately show ?thesis using assms(1) by (simp add: roles_over_def roles_named_def comp_def)
qed

lemma member_roles_over:
  assumes "roles_named U base" "routine_names r \<subseteq> U" "look_named U (look_at ctx X S)"
  shows "roles_over U base (member_roles ctx X S r base)"
proof -
  have "roles_over U base base" using assms(1) by (simp add: roles_over_def)
  then show ?thesis
    using assms(2,3) by (simp add: member_roles_def compose_roles_only_def Let_def dispatch_presence_over sites_over paths_over)
qed

section \<open>Faithful keys\<close>

text \<open>Names the key tells apart: not empty, without a comma, not a sentinel.\<close>

definition plain_names :: "string set \<Rightarrow> bool" where
  "plain_names U \<longleftrightarrow> (\<forall>n \<in> U. n \<noteq> [] \<and> CHR 0x2C \<notin> set n \<and> n \<noteq> ''unknown'' \<and> n \<noteq> ''full'')"

lemma join_no_comma: "join_with [c] xs = w \<Longrightarrow> c \<notin> set w \<Longrightarrow> w \<noteq> [] \<Longrightarrow> xs = [w]"
  by (cases xs; cases "tl xs") auto

lemma field_list_key_inject:
  assumes "inj json" "plain_names U" "list_names a \<subseteq> U" "list_names b \<subseteq> U" "field_list_key json a = field_list_key json b"
  shows "a = b"
proof -
  have names: "\<forall>n \<in> set xs. CHR 0x2C \<notin> set n \<and> n \<noteq> []" if "set xs \<subseteq> U" for xs
    using that assms(2) by (auto simp: plain_names_def)
  have sentinel: "join_with '','' xs \<noteq> ''unknown''" "join_with '','' xs \<noteq> ''full''" if "set xs \<subseteq> U" for xs
    using that assms(2) join_no_comma [of "CHR 0x2C" xs "''unknown''"] join_no_comma [of "CHR 0x2C" xs "''full''"]
    by (auto simp: plain_names_def)
  have "(case a of FL_Known names \<Rightarrow> join_with '','' names | FL_Unknown \<Rightarrow> ''unknown'' | FL_Full \<Rightarrow> ''full'') =
      (case b of FL_Known names \<Rightarrow> join_with '','' names | FL_Unknown \<Rightarrow> ''unknown'' | FL_Full \<Rightarrow> ''full'')"
    using assms(5) injD [OF assms(1)] unfolding field_list_key_def by blast
  then show ?thesis
    using assms(3,4) sentinel join_with_inject [OF names names] by (cases a; cases b) (simp_all add: list_names_def, metis+)
qed

lemma presence_as_str_inject [simp]: "presence_as_str a = presence_as_str b \<longleftrightarrow> a = b"
  by (metis presence_round_trip)

lemma role_key_inject:
  assumes "inj json" "plain_names U" "role_names a \<subseteq> U" "role_names b \<subseteq> U" "fixed_part a = fixed_part b" "role_key json a = role_key json b"
  shows "a = b"
proof -
  have "rr_required_loaded_fields_at_entry a = rr_required_loaded_fields_at_entry b"
    "rr_current_loaded_fields_at_exit a = rr_current_loaded_fields_at_exit b"
    using assms(3,4,6) by (auto intro!: field_list_key_inject [OF assms(1,2)] simp: role_names_def role_key_def)
  with assms(5,6) show ?thesis
    by (intro record_role_summary.equality) (simp_all add: role_key_def fixed_part_def)
qed

lemma roles_key_inject:
  assumes "inj json" "plain_names U" "roles_over U base a" "roles_over U base b" "sorted (map rr_parameter_index base)"
    and "roles_change_key json a = roles_change_key json b"
  shows "a = b"
proof -
  have parts: "map fixed_part a = map fixed_part b" using assms(3,4) by (simp add: roles_over_def)
  have index: "map rr_parameter_index rs = map fst (map fixed_part rs)" for rs by (simp add: fixed_part_def comp_def)
  have "map rr_parameter_index rs = map rr_parameter_index base" if "roles_over U base rs" for rs
    using that unfolding index by (simp only: roles_over_def)
  then have "sorted (map rr_parameter_index a)" "sorted (map rr_parameter_index b)" using assms(3-5) by simp_all
  then have keys: "map (role_key json) a = map (role_key json) b" using assms(6) by (simp add: roles_change_key_def sort_key_id_if_sorted)
  have len: "length a = length b" using parts map_eq_imp_length_eq by blast
  show ?thesis
  proof (rule nth_equalityI [OF len])
    fix i
    assume i: "i < length a"
    have "role_names (a ! i) \<subseteq> U" "role_names (b ! i) \<subseteq> U" using assms(3,4) i len by (simp_all add: roles_over_def roles_named_def)
    moreover have "fixed_part (a ! i) = fixed_part (b ! i)" using parts i len by (metis nth_map)
    moreover have "role_key json (a ! i) = role_key json (b ! i)" using keys i len by (metis nth_map)
    ultimately show "a ! i = b ! i" by (rule role_key_inject [OF assms(1,2)])
  qed
qed

end
