(* ===== verification/Role_Fixpoint.thy ===== *)
theory Role_Fixpoint
  imports Role_Names
begin

text \<open>
  The roles fixpoint of a component: its dirty-frontier rounds are the rounds of the plain Jacobi
  iteration, which recomputes every member, and when they end before the cap the roles solve the
  component's equations.
\<close>

section \<open>What a component needs\<close>

text \<open>
  The rows and the graph behind a context: ids are those of the rows, callees are targets of the
  caller's edges, dispatch runs name bindings, base roles are in parameter order, and \<open>U\<close> has every
  field name.
\<close>

definition ctx_ok :: "role_ctx \<Rightarrow> string set \<Rightarrow> bool" where
  "ctx_ok ctx U \<longleftrightarrow>
     (\<forall>m r. rc_routines_by_id ctx m = Some r \<longrightarrow>
        mr_id r = m \<and> routine_names r \<subseteq> U \<and> callees_of ctx r \<subseteq> ce_to ` set (out_edges (rc_graph ctx) m) \<and>
        (\<forall>d \<in> set (dispatch_at ctx m). runs_in_range d) \<and> (\<not> rc_is_leaf ctx m \<longrightarrow> rc_base_roles ctx m \<noteq> None)) \<and>
     (\<forall>m base. rc_base_roles ctx m = Some base \<longrightarrow> sorted (map rr_parameter_index base) \<and> roles_named U base)"

lemma ctx_okD:
  assumes "ctx_ok ctx U" "rc_routines_by_id ctx m = Some r"
  shows "mr_id r = m" "routine_names r \<subseteq> U" "callees_of ctx r \<subseteq> ce_to ` set (out_edges (rc_graph ctx) m)"
    "\<forall>d \<in> set (dispatch_at ctx m). runs_in_range d" "\<not> rc_is_leaf ctx m \<Longrightarrow> \<exists>base. rc_base_roles ctx m = Some base"
  using assms unfolding ctx_ok_def by blast+

lemma base_ok:
  assumes "ctx_ok ctx U"
  shows "sorted (map rr_parameter_index (base_at_id ctx m))" "roles_named U (base_at_id ctx m)"
  using assms by (cases "rc_base_roles ctx m"; simp add: ctx_ok_def base_at_id_def)+

definition map_named :: "string set \<Rightarrow> role_map \<Rightarrow> bool" where
  "map_named U X \<longleftrightarrow> (\<forall>m roles. X m = Some roles \<longrightarrow> roles_named U roles)"

lemma lookup_look_at: "lookup_roles (look_at ctx X S) c = (case X c of Some roles \<Rightarrow> Some roles | None \<Rightarrow> S c)"
  by (cases "X c") (simp_all add: lookup_roles_def look_at_def)

lemma look_map_named: "map_named U X \<Longrightarrow> map_named U S \<Longrightarrow> look_named U (look_at ctx X S)"
  by (auto simp: map_named_def look_named_def lookup_roles_def look_at_def split: option.splits)

section \<open>The Jacobi iteration\<close>

text \<open>A member that a round computes, and what it computes.\<close>

definition computed :: "role_ctx \<Rightarrow> string list \<Rightarrow> string \<Rightarrow> bool" where
  "computed ctx ms m \<longleftrightarrow> m \<in> set ms \<and> \<not> rc_is_leaf ctx m \<and> rc_routines_by_id ctx m \<noteq> None"

definition next_roles :: "role_ctx \<Rightarrow> role_map \<Rightarrow> role_map \<Rightarrow> string \<Rightarrow> record_role_summary list" where
  "next_roles ctx settled X m = member_roles ctx X settled (the (rc_routines_by_id ctx m)) (base_at_id ctx m)"

definition jacobi :: "role_ctx \<Rightarrow> string list \<Rightarrow> role_map \<Rightarrow> role_map \<Rightarrow> role_map" where
  "jacobi ctx ms settled X = (\<lambda>m. if computed ctx ms m then Some (next_roles ctx settled X m) else X m)"

text \<open>The reference: every member in every round, until a round changes no roles or \<open>n\<close> rounds are over.\<close>

primrec jacobi_rounds :: "nat \<Rightarrow> role_ctx \<Rightarrow> string list \<Rightarrow> role_map \<Rightarrow> role_map \<Rightarrow> role_map \<times> bool" where
  "jacobi_rounds 0 ctx ms settled X = (X, True)"
| "jacobi_rounds (Suc n) ctx ms settled X =
     (let Y = jacobi ctx ms settled X in if list_ex (\<lambda>m. Y m \<noteq> X m) ms then jacobi_rounds n ctx ms settled Y else (Y, False))"

lemma next_over:
  assumes "ctx_ok ctx U" "rc_routines_by_id ctx m \<noteq> None" "map_named U X" "map_named U settled"
  shows "roles_over U (base_at_id ctx m) (next_roles ctx settled X m)"
  unfolding next_roles_def
  by (rule member_roles_over [OF base_ok(2) [OF assms(1)] _ look_map_named [OF assms(3,4)]])
    (use assms(1,2) ctx_okD(2) in fastforce)

lemma next_local:
  assumes "ctx_ok ctx U" "rc_routines_by_id ctx m \<noteq> None"
    and "\<forall>c \<in> ce_to ` set (out_edges (rc_graph ctx) m). lookup_roles (look_at ctx X S) c = lookup_roles (look_at ctx Y T) c"
  shows "next_roles ctx S X m = next_roles ctx T Y m"
proof -
  obtain r where r: "rc_routines_by_id ctx m = Some r" using assms(2) by blast
  have "agree (callees_of ctx r) (look_at ctx X S) (look_at ctx Y T)"
    using ctx_okD(3) [OF assms(1) r] assms(3) by (auto simp: agree_def look_at_def)
  from member_roles_local [OF this] ctx_okD(1,4) [OF assms(1) r] show ?thesis by (simp add: next_roles_def r)
qed

section \<open>A round\<close>

text \<open>A dirty member that is computed; the keys that its new roles change.\<close>

definition works :: "role_ctx \<Rightarrow> string set \<Rightarrow> string \<Rightarrow> bool" where
  "works ctx dirt m \<longleftrightarrow> \<not> rc_is_leaf ctx m \<and> m \<in> dirt \<and> rc_routines_by_id ctx m \<noteq> None"

lemma round_member_works:
  "round_member json ctx ms settled X dirt m rd =
     (if works ctx dirt m
      then (let key = roles_change_key json (next_roles ctx settled X m); differs = rd_keys rd m \<noteq> Some key in
        \<lparr> rd_next_pass = (rd_next_pass rd)(m \<mapsto> next_roles ctx settled X m), rd_keys = (rd_keys rd)(m \<mapsto> key),
          rd_next_dirty = (if differs then rd_next_dirty rd \<union> set (dependents ctx ms m) else rd_next_dirty rd),
          rd_changed = (rd_changed rd \<or> differs) \<rparr>)
      else rd)"
  by (cases rd) (auto simp: round_member_def works_def next_roles_def Let_def split: option.split)

lemma round_fold:
  fixes dirt :: "string set" and K :: "string \<rightharpoonup> string list list" and ctx settled X json ms
  assumes "distinct xs"
  defines "rd0 \<equiv> \<lparr> rd_next_pass = Map.empty, rd_keys = K, rd_next_dirty = {}, rd_changed = False \<rparr>"
  defines "F \<equiv> next_roles ctx settled X" and "key \<equiv> roles_change_key json"
  defines "rd \<equiv> fold (round_member json ctx ms settled X dirt) xs rd0"
  shows "rd_next_pass rd = (\<lambda>m. if m \<in> set xs \<and> works ctx dirt m then Some (F m) else None)"
    and "rd_keys rd = (\<lambda>m. if m \<in> set xs \<and> works ctx dirt m then Some (key (F m)) else K m)"
    and "rd_next_dirty rd = \<Union> ((\<lambda>m. set (dependents ctx ms m)) ` {m \<in> set xs. works ctx dirt m \<and> K m \<noteq> Some (key (F m))})"
    and "rd_changed rd \<longleftrightarrow> (\<exists>m \<in> set xs. works ctx dirt m \<and> K m \<noteq> Some (key (F m)))"
proof -
  have "rd_next_pass rd = (\<lambda>m. if m \<in> set xs \<and> works ctx dirt m then Some (F m) else None) \<and>
    rd_keys rd = (\<lambda>m. if m \<in> set xs \<and> works ctx dirt m then Some (key (F m)) else K m) \<and>
    rd_next_dirty rd = \<Union> ((\<lambda>m. set (dependents ctx ms m)) ` {m \<in> set xs. works ctx dirt m \<and> K m \<noteq> Some (key (F m))}) \<and>
    (rd_changed rd \<longleftrightarrow> (\<exists>m \<in> set xs. works ctx dirt m \<and> K m \<noteq> Some (key (F m))))"
    unfolding rd_def using assms(1)
  proof (induction xs rule: rev_induct)
    case Nil
    then show ?case by (simp add: rd0_def)
  next
    case (snoc x xs)
    define R where "R = fold (round_member json ctx ms settled X dirt) xs rd0"
    have IH: "rd_next_pass R = (\<lambda>m. if m \<in> set xs \<and> works ctx dirt m then Some (F m) else None)"
      "rd_keys R = (\<lambda>m. if m \<in> set xs \<and> works ctx dirt m then Some (key (F m)) else K m)"
      "rd_next_dirty R = \<Union> ((\<lambda>m. set (dependents ctx ms m)) ` {m \<in> set xs. works ctx dirt m \<and> K m \<noteq> Some (key (F m))})"
      "rd_changed R \<longleftrightarrow> (\<exists>m \<in> set xs. works ctx dirt m \<and> K m \<noteq> Some (key (F m)))"
      using snoc by (simp_all add: R_def)
    have x: "x \<notin> set xs" using snoc.prems by simp
    have step: "fold (round_member json ctx ms settled X dirt) (xs @ [x]) rd0 = round_member json ctx ms settled X dirt x R"
      by (simp add: R_def)
    show ?case
      unfolding step
      unfolding round_member_works F_def [symmetric] key_def [symmetric] Let_def IH using x by (auto simp: fun_eq_iff IH)
  qed
  then show "rd_next_pass rd = (\<lambda>m. if m \<in> set xs \<and> works ctx dirt m then Some (F m) else None)"
    "rd_keys rd = (\<lambda>m. if m \<in> set xs \<and> works ctx dirt m then Some (key (F m)) else K m)"
    "rd_next_dirty rd = \<Union> ((\<lambda>m. set (dependents ctx ms m)) ` {m \<in> set xs. works ctx dirt m \<and> K m \<noteq> Some (key (F m))})"
    "rd_changed rd \<longleftrightarrow> (\<exists>m \<in> set xs. works ctx dirt m \<and> K m \<noteq> Some (key (F m)))" by simp_all
qed

lemma mem_dependents: "c \<in> set ms \<Longrightarrow> m \<in> set ms \<Longrightarrow> ed \<in> set (out_edges (rc_graph ctx) m) \<Longrightarrow> ce_to ed = c \<Longrightarrow> m \<in> set (dependents ctx ms c)"
  by (auto simp: dependents_def)

text \<open>Between rounds: keys are those of the roles, and a member that is not dirty has its next roles.\<close>

definition rounds_inv :: "(string \<Rightarrow> string) \<Rightarrow> role_ctx \<Rightarrow> string set \<Rightarrow> string list \<Rightarrow> role_map \<Rightarrow> roles_state \<Rightarrow> bool" where
  "rounds_inv json ctx U ms settled st \<longleftrightarrow>
     map_named U (rs_in_progress st) \<and>
     (\<forall>m. computed ctx ms m \<longrightarrow>
        (\<exists>roles. rs_in_progress st m = Some roles \<and> roles_over U (base_at_id ctx m) roles \<and>
           rs_keys st m = Some (roles_change_key json roles)) \<and>
        (m \<notin> rs_dirty st \<longrightarrow> rs_in_progress st m = Some (next_roles ctx settled (rs_in_progress st) m)))"

lemma roles_round_jacobi:
  assumes json: "inj json" and U: "plain_names U" and ok: "ctx_ok ctx U" and settled: "map_named U settled" and ms: "distinct ms"
    and inv: "rounds_inv json ctx U ms settled st"
  defines "X \<equiv> rs_in_progress st" and "Y \<equiv> jacobi ctx ms settled (rs_in_progress st)"
  shows "\<exists>st'. roles_round json ctx ms settled st = (st', list_ex (\<lambda>m. Y m \<noteq> X m) ms) \<and>
    rs_in_progress st' = Y \<and> rounds_inv json ctx U ms settled st'"
proof -
  let ?F = "next_roles ctx settled X" and ?key = "roles_change_key json" and ?w = "works ctx (rs_dirty st)"
  let ?rd = "fold (round_member json ctx ms settled X (rs_dirty st)) ms
    \<lparr> rd_next_pass = Map.empty, rd_keys = rs_keys st, rd_next_dirty = {}, rd_changed = False \<rparr>"
  let ?st = "\<lparr> rs_in_progress = X ++ rd_next_pass ?rd, rs_keys = rd_keys ?rd, rs_dirty = rd_next_dirty ?rd \<rparr>"
  note rd = round_fold [OF ms, where K = "rs_keys st" and ctx = ctx and settled = settled and X = X and json = json and ms = ms and dirt = "rs_dirty st"]
  have named: "map_named U X" using inv by (simp add: rounds_inv_def X_def)
  have w: "computed ctx ms m \<longleftrightarrow> m \<in> set ms \<and> (?w m \<or> computed ctx ms m \<and> m \<notin> rs_dirty st)" for m
    by (auto simp: computed_def works_def)
  have at: "\<exists>roles. X m = Some roles \<and> roles_over U (base_at_id ctx m) roles \<and> rs_keys st m = Some (?key roles)"
    "m \<notin> rs_dirty st \<Longrightarrow> X m = Some (?F m)" if "computed ctx ms m" for m
    using inv that by (simp_all add: rounds_inv_def X_def)
  have over: "roles_over U (base_at_id ctx m) (?F m)" if "computed ctx ms m" for m
    using next_over [OF ok _ named settled] that by (simp add: computed_def)
  have same: "rs_keys st m = Some (?key (?F m)) \<longleftrightarrow> X m = Some (?F m)" if m: "computed ctx ms m" for m
  proof -
    obtain roles where roles: "X m = Some roles" "roles_over U (base_at_id ctx m) roles" "rs_keys st m = Some (?key roles)"
      using at(1) [OF m] by blast
    with roles_key_inject [OF json U roles(2) over [OF m] base_ok(1) [OF ok]] show ?thesis by auto
  qed
  have Y_eq: "Y = jacobi ctx ms settled X" by (simp add: Y_def X_def)
  have "(X ++ rd_next_pass ?rd) m = Y m" for m
    using at(2) [of m] by (auto simp: rd(1) Y_eq jacobi_def map_add_def works_def computed_def)
  then have Y: "rs_in_progress ?st = Y" by (simp add: fun_eq_iff)
  have Yat: "Y m = Some (?F m)" if "computed ctx ms m" for m using that by (simp add: Y_eq jacobi_def)
  have Yother: "Y m = X m" if "\<not> computed ctx ms m" for m using that by (simp add: Y_eq jacobi_def)
  have dirty: "rd_next_dirty ?rd = \<Union> ((\<lambda>m. set (dependents ctx ms m)) ` {m \<in> set ms. computed ctx ms m \<and> Y m \<noteq> X m})"
  proof -
    have "?w m \<and> rs_keys st m \<noteq> Some (?key (?F m)) \<longleftrightarrow> computed ctx ms m \<and> Y m \<noteq> X m" if "m \<in> set ms" for m
    proof (cases "computed ctx ms m")
      case True
      then have "?w m \<longleftrightarrow> m \<in> rs_dirty st" by (auto simp: works_def computed_def)
      with same [OF True] Yat [OF True] at(2) [OF True] True show ?thesis by auto
    qed (use that in \<open>auto simp: works_def computed_def\<close>)
    then have "{m \<in> set ms. ?w m \<and> rs_keys st m \<noteq> Some (?key (?F m))} = {m \<in> set ms. computed ctx ms m \<and> Y m \<noteq> X m}" by blast
    then show ?thesis unfolding rd(3) by simp
  qed
  have "rd_changed ?rd \<longleftrightarrow> (\<exists>m \<in> set ms. Y m \<noteq> X m)"
    unfolding rd(4) using same at(2) Yat Yother by (metis w)
  then have round: "roles_round json ctx ms settled st = (?st, list_ex (\<lambda>m. Y m \<noteq> X m) ms)"
    by (simp add: roles_round_def X_def list_ex_iff Let_def)
  have Ynamed: "map_named U Y"
    unfolding map_named_def using named over Yat Yother by (metis map_named_def option.inject roles_over_def)
  have "rounds_inv json ctx U ms settled ?st"
    unfolding rounds_inv_def Y
  proof (intro conjI allI impI Ynamed)
    fix m
    assume m: "computed ctx ms m"
    have "rs_keys ?st m = Some (?key (?F m))"
      using same [OF m] at(2) [OF m] m by (auto simp: rd(2) works_def computed_def)
    then show "\<exists>roles. Y m = Some roles \<and> roles_over U (base_at_id ctx m) roles \<and> rs_keys ?st m = Some (?key roles)"
      using Yat [OF m] over [OF m] by blast
    assume clean: "m \<notin> rs_dirty ?st"
    have "Y c = X c" if "c \<in> ce_to ` set (out_edges (rc_graph ctx) m)" for c
    proof (rule ccontr)
      assume "Y c \<noteq> X c"
      with Yother have c: "computed ctx ms c" by blast
      moreover have "m \<in> set (dependents ctx ms c)" using that c m by (auto simp: computed_def intro: mem_dependents)
      ultimately have "m \<in> rd_next_dirty ?rd" using \<open>Y c \<noteq> X c\<close> unfolding dirty by (auto simp: computed_def)
      with clean show False by simp
    qed
    then have "next_roles ctx settled X m = next_roles ctx settled Y m"
      using m by (intro next_local [OF ok]) (auto simp: computed_def lookup_look_at)
    then show "Y m = Some (next_roles ctx settled Y m)" using Yat [OF m] by simp
  qed
  with round Y show ?thesis by blast
qed

text \<open>The rounds are the reference's.\<close>

lemma roles_rounds_jacobi:
  assumes "inj json" "plain_names U" "ctx_ok ctx U" "map_named U settled" "distinct ms" "rounds_inv json ctx U ms settled st"
  shows "\<exists>st'. roles_rounds n (roles_round json ctx ms settled) st = (st', snd (jacobi_rounds n ctx ms settled (rs_in_progress st))) \<and>
    rs_in_progress st' = fst (jacobi_rounds n ctx ms settled (rs_in_progress st))"
  using assms(6)
proof (induction n arbitrary: st)
  case (Suc n)
  from roles_round_jacobi [OF assms(1-5) Suc.prems] obtain st' where
    "roles_round json ctx ms settled st =
      (st', list_ex (\<lambda>m. jacobi ctx ms settled (rs_in_progress st) m \<noteq> rs_in_progress st m) ms)"
    "rs_in_progress st' = jacobi ctx ms settled (rs_in_progress st)" "rounds_inv json ctx U ms settled st'" by blast
  with Suc.IH [of st'] show ?case by (auto simp: Let_def)
qed simp

lemma fold_put:
  "fold (\<lambda>m out. case g m of Some v \<Rightarrow> out(m \<mapsto> h v) | None \<Rightarrow> out) xs out =
     (\<lambda>m. if m \<in> set xs \<and> g m \<noteq> None then map_option h (g m) else out m)"
  by (induction xs arbitrary: out) (auto simp: fun_eq_iff split: option.split)

lemma seeds_inv_roles:
  assumes "ctx_ok ctx U"
  shows "rounds_inv json ctx U ms settled (roles_seeds json ctx ms)"
    and "rs_in_progress (roles_seeds json ctx ms) = (\<lambda>m. if m \<in> set ms \<and> \<not> rc_is_leaf ctx m then rc_base_roles ctx m else None)"
proof -
  show seeds: "rs_in_progress (roles_seeds json ctx ms) = (\<lambda>m. if m \<in> set ms \<and> \<not> rc_is_leaf ctx m then rc_base_roles ctx m else None)"
    using fold_put [where g = "rc_base_roles ctx" and h = "\<lambda>v. v" and xs = "filter (\<lambda>m. \<not> rc_is_leaf ctx m) ms" and out = Map.empty]
    by (simp add: roles_seeds_def Let_def option.map_ident) (auto simp: fun_eq_iff)
  show "rounds_inv json ctx U ms settled (roles_seeds json ctx ms)"
    unfolding rounds_inv_def seeds
  proof (intro conjI allI impI)
    show "map_named U (\<lambda>m. if m \<in> set ms \<and> \<not> rc_is_leaf ctx m then rc_base_roles ctx m else None)"
      using assms by (auto simp: map_named_def ctx_ok_def)
    fix m
    assume m: "computed ctx ms m"
    then obtain base where base: "rc_base_roles ctx m = Some base" using ctx_okD(5) [OF assms] by (auto simp: computed_def)
    have "roles_over U (base_at_id ctx m) base" using base base_ok(2) [OF assms, of m] by (simp add: roles_over_def base_at_id_def)
    moreover have "rs_keys (roles_seeds json ctx ms) m = Some (roles_change_key json base)"
      using m base fold_put [where g = "\<lambda>m. if m \<in> set ms \<and> \<not> rc_is_leaf ctx m then rc_base_roles ctx m else None" and
          h = "roles_change_key json" and xs = "filter (\<lambda>m. \<not> rc_is_leaf ctx m) ms" and out = Map.empty] seeds
      by (simp add: roles_seeds_def Let_def computed_def)
    ultimately show "\<exists>roles. (if m \<in> set ms \<and> \<not> rc_is_leaf ctx m then rc_base_roles ctx m else None) = Some roles \<and>
        roles_over U (base_at_id ctx m) roles \<and> rs_keys (roles_seeds json ctx ms) m = Some (roles_change_key json roles)"
      using m base by (auto simp: computed_def)
    assume "m \<notin> rs_dirty (roles_seeds json ctx ms)"
    with m show "(if m \<in> set ms \<and> \<not> rc_is_leaf ctx m then rc_base_roles ctx m else None) =
        Some (next_roles ctx settled (\<lambda>m. if m \<in> set ms \<and> \<not> rc_is_leaf ctx m then rc_base_roles ctx m else None) m)"
      by (simp add: roles_seeds_def Let_def computed_def)
  qed
qed

lemma jacobi_rounds_fixed: "jacobi_rounds n ctx ms settled X = (Y, False) \<Longrightarrow> jacobi ctx ms settled Y = Y"
proof (induction n arbitrary: X)
  case (Suc n)
  let ?Z = "jacobi ctx ms settled X"
  show ?case
  proof (cases "list_ex (\<lambda>m. ?Z m \<noteq> X m) ms")
    case True
    with Suc show ?thesis by (simp add: Let_def)
  next
    case False
    then have "?Z m = X m" for m by (cases "m \<in> set ms") (auto simp: list_ex_iff jacobi_def computed_def)
    then have "?Z = X" by (rule ext)
    moreover have "Y = ?Z" using False Suc.prems by (simp add: Let_def)
    ultimately show ?thesis by simp
  qed
qed simp

end
