(* ===== verification/Role_Settled.thy ===== *)
theory Role_Settled
  imports Role_Fixpoint Solve_Exact
begin

text \<open>
  The roles of a workspace: what its rows and its graph guarantee of the context of the fixpoint, the
  loop over the components, and the equations the published roles solve.
\<close>

section \<open>The context of a workspace\<close>

definition workspace_names :: "v2_inputs \<Rightarrow> role_inputs \<Rightarrow> string set" where
  "workspace_names vi ri =
     \<Union> (routine_names ` set (vi_routines vi)) \<union>
     \<Union> ((\<lambda>(_, roles). \<Union> (role_names ` set roles)) ` set (ri_leaf_roles ri))"

text \<open>The pick of a collided site is the target of an edge of its routine: how the graph is built.\<close>

definition collided_sites_ok :: "v2_inputs \<Rightarrow> bool" where
  "collided_sites_ok vi \<longleftrightarrow>
     (\<forall>r \<in> set (vi_routines vi).
        \<forall>cs \<in> set (sites_of (owned_sites (index_rows (vi_routines vi)) (vi_routines vi)) r @ mr_call_sites r).
          \<forall>c. pg_collided_site_callee (vi_graph vi) (mc_id cs) = Some (Some c) \<longrightarrow>
            c \<in> ce_to ` set (out_edges (vi_graph vi) (mr_id r)))"

lemma set_map_filter: "set (List.map_filter f xs) = {y. \<exists>x \<in> set xs. f x = Some y}"
  by (induction xs) (auto simp: List.map_filter_def)

lemma find_map_SomeD: "find_map f xs = Some y \<Longrightarrow> \<exists>x \<in> set xs. f x = Some y"
  by (induction xs) (auto split: option.splits)

lemma row_of_id: "j \<in> set (index_rows rs v) \<Longrightarrow> j < length rs \<and> mr_id (rs ! j) = v"
  by (simp add: index_rows_def)

lemma last_per_id_row:
  assumes "last_per_id (index_rows rs) (map f rs) v = Some y"
  shows "\<exists>r \<in> set rs. mr_id r = v \<and> f r = Some y"
proof -
  obtain j where "j \<in> set (index_rows rs v)" "take_row (map f rs) j = Some y"
    using assms find_map_SomeD by (fastforce simp: last_per_id_def)
  with row_of_id [of j rs v] show ?thesis by (auto simp: take_row_def intro!: bexI [of _ "rs ! j"])
qed

lemma merge_last_row:
  assumes "merge_per_id (index_rows rs) (map f rs) last v = Some y"
  shows "\<exists>r \<in> set rs. mr_id r = v \<and> f r = Some y"
proof -
  let ?vals = "List.map_filter (take_row (map f rs)) (index_rows rs v)"
  have "?vals \<noteq> []" "y = last ?vals" using assms by (auto simp: merge_per_id_def split: list.splits)
  then have "y \<in> set ?vals" by simp
  then obtain j where "j \<in> set (index_rows rs v)" "take_row (map f rs) j = Some y" by (auto simp: set_map_filter)
  with row_of_id [of j rs v] show ?thesis by (auto simp: take_row_def intro!: bexI [of _ "rs ! j"])
qed

lemma merge_last_some:
  assumes "r \<in> set rs" "mr_id r = v" "\<And>r. mr_id r = v \<Longrightarrow> f r \<noteq> None"
  shows "merge_per_id (index_rows rs) (map f rs) last v \<noteq> None"
proof -
  obtain j where j: "j < length rs" "rs ! j = r" using assms(1) by (auto simp: in_set_conv_nth)
  with assms obtain y where "take_row (map f rs) j = Some y" "j \<in> set (index_rows rs v)"
    by (auto simp: take_row_def index_rows_def)
  then have "y \<in> set (List.map_filter (take_row (map f rs)) (index_rows rs v))" by (force simp: set_map_filter)
  then show ?thesis by (auto simp: merge_per_id_def split: list.split)
qed

lemma routine_of: "routines_by_id vi m = Some r \<Longrightarrow> r \<in> set (vi_routines vi) \<and> mr_id r = m"
  using last_per_id_row [of "vi_routines vi" Some m r] by (auto simp: routines_by_id_def)

lemma fold_add_binding_from:
  "eb_subscriber ` set (fold add_binding evs bs) \<subseteq> eb_subscriber ` set evs \<union> eb_subscriber ` set bs"
proof (induction evs arbitrary: bs)
  case (Cons ev evs)
  have "eb_subscriber ` set (add_binding ev bs) \<subseteq> insert (eb_subscriber ev) (eb_subscriber ` set bs)"
    by (induction bs) (auto simp: merge_binding_def)
  with Cons [of "add_binding ev bs"] show ?case by auto
qed simp

text \<open>Dispatches of a row: their runs name bindings, their subscribers are targets of its edges.\<close>

lemma dispatch_in_edges:
  assumes "d \<in> set (dispatch_bindings r edges (routines_by_id vi) shared)"
  shows "runs_in_range d" "subscribers d \<subseteq> ce_to ` set edges"
proof -
  let ?ds = "filter (\<lambda>e. ce_kind e = ''event-dispatch'') edges"
  have "runs_in_range d \<and> subscribers d \<subseteq> ce_to ` set edges"
  proof (cases "pd_kind d")
    case (Exact bs)
    from dispatch_bindings_exactE [OF assms Exact] obtain p where bs: "bs = bindings_of r p ?ds (routines_by_id vi)"
      and visible: "\<not> list_ex (\<lambda>e. opaque_subscriber r e (routines_by_id vi)) ?ds" by blast
    have seqs: "pd_sequences d = [] \<or> pd_sequences d = dispatch_sequences bs"
      using assms Exact
      by (auto simp: dispatch_bindings_def Let_def set_map_filter param_dispatch_of_def split: if_splits)
    have "ce_to e = mr_id (the (routines_by_id vi (ce_to e)))" if "e \<in> set ?ds" for e
      using visible that routine_of [of vi "ce_to e"]
      by (auto simp: list_ex_iff opaque_subscriber_def split: option.splits if_splits)
    then have "eb_subscriber ev \<in> ce_to ` set edges" if "ev \<in> set (binding_events r p ?ds (routines_by_id vi))" for ev
      using that by (fastforce simp: binding_events_def Let_def)
    then have "eb_subscriber ` set (binding_events r p ?ds (routines_by_id vi)) \<subseteq> ce_to ` set edges" by blast
    with fold_add_binding_from [of "binding_events r p ?ds (routines_by_id vi)" "[]"]
    have from_edges: "eb_subscriber ` set bs \<subseteq> ce_to ` set edges" unfolding bs bindings_of_events by auto
    have "i < length bs" if "w \<in> set (pd_sequences d)" "i \<in> set w" for w i
      using that seqs dispatch_sequences_set [of w bs] by auto
    with from_edges show ?thesis using Exact by (simp add: runs_in_range_def subscribers_def)
  qed (simp add: runs_in_range_def subscribers_def)
  then show "runs_in_range d" "subscribers d \<subseteq> ce_to ` set edges" by simp_all
qed

lemma computed_roles_ok:
  "sorted (map rr_parameter_index (compute_record_roles r fx))" "roles_named U (compute_record_roles r fx)"
  by (simp_all add: compute_record_roles_def roles_named_def set_map_filter)
    (auto simp: base_role_def role_names_def list_names_def Let_def)

lemma workspace_ctx_ok:
  assumes "collided_sites_ok vi"
  shows "ctx_ok (role_ctx_of vi ri) (workspace_names vi ri)"
proof -
  let ?ctx = "role_ctx_of vi ri" and ?U = "workspace_names vi ri" and ?g = "vi_graph vi"
  have rows: "mr_id r = m \<and> routine_names r \<subseteq> ?U \<and> callees_of ?ctx r \<subseteq> ce_to ` set (out_edges ?g m) \<and>
      (\<forall>d \<in> set (dispatch_at ?ctx m). runs_in_range d) \<and> (\<not> is_leaf vi m \<longrightarrow> base_roles_by_id vi ri m \<noteq> None)"
    if r: "routines_by_id vi m = Some r" for m r
  proof -
    have mem: "r \<in> set (vi_routines vi)" "mr_id r = m" using routine_of [OF r] by simp_all
    have dispatch: "runs_in_range d \<and> subscribers d \<subseteq> ce_to ` set (out_edges ?g m)" if d: "d \<in> set (dispatch_at ?ctx m)" for d
    proof -
      obtain ds where "dispatch_by_id vi ri m = Some ds" "d \<in> set ds"
        using d by (cases "dispatch_by_id vi ri m") (auto simp: dispatch_at_def role_ctx_of_def)
      then obtain r' shared edges where "pg_edges_by_from ?g m = Some edges" "d \<in> set (dispatch_bindings r' edges (routines_by_id vi) shared)"
        by (auto simp: dispatch_by_id_def Let_def split: if_splits dest!: last_per_id_row)
      with dispatch_in_edges show ?thesis by (fastforce simp: out_edges_def)
    qed
    have "c \<in> ce_to ` set (out_edges ?g m)" if c: "c \<in> callees_of ?ctx r" for c
    proof (cases "\<exists>d \<in> set (dispatch_at ?ctx m). c \<in> subscribers d")
      case True
      with dispatch show ?thesis by blast
    next
      case False
      with c mem(2) obtain cs where
        cs: "cs \<in> set (sites_of (owned_sites (index_rows (vi_routines vi)) (vi_routines vi)) r @ mr_call_sites r)"
        "sc_callee (site_pick ?g m (mc_id cs) (ri_upgraded ri)) = Some c"
        by (auto simp: callees_of_def site_callees_def role_ctx_of_def)
      show ?thesis
      proof (cases "pg_collided_site_callee ?g (mc_id cs)")
        case None
        with cs(2) show ?thesis
          by (auto simp: site_pick_def out_edges_def bind_eq_Some_conv find_Some_iff)
      next
        case (Some pick)
        then have "pick = Some c" using cs(2) by (simp add: site_pick_def)
        with assms mem cs(1) Some show ?thesis unfolding collided_sites_ok_def by blast
      qed
    qed
    moreover have "base_roles_by_id vi ri m \<noteq> None" if "\<not> is_leaf vi m"
      unfolding base_roles_by_id_def by (rule merge_last_some [OF mem]) (use that in auto)
    ultimately show ?thesis using mem dispatch by (auto simp: workspace_names_def)
  qed
  have bases: "sorted (map rr_parameter_index base) \<and> roles_named ?U base" if base: "base_roles_by_id vi ri m = Some base" for m base
  proof -
    obtain r where "base = compute_record_roles r (ri_fields ri)"
      using merge_last_row [OF base [unfolded base_roles_by_id_def]] by (auto split: if_splits)
    then show ?thesis using computed_roles_ok by simp
  qed
  have "rc_routines_by_id ?ctx = routines_by_id vi" "rc_base_roles ?ctx = base_roles_by_id vi ri" "rc_graph ?ctx = ?g"
    "rc_is_leaf ?ctx = is_leaf vi" by (simp_all add: role_ctx_of_def)
  with rows bases show ?thesis unfolding ctx_ok_def by simp
qed

end
