(* ===== verification/Role_Solution.thy ===== *)
theory Role_Solution
  imports Role_Settled
begin

text \<open>
  The solution of the roles solve: without keys and dirty members it is the plain solve that recomputes
  every member in every round, and the published roles of a component below the cap solve the
  equations of its members.
\<close>

section \<open>The plain solve\<close>

text \<open>The reference for \<open>run_one_scc_roles\<close>: no keys, no dirty members.\<close>

definition plain_start :: "role_ctx \<Rightarrow> string list \<Rightarrow> role_map" where
  "plain_start ctx ms = (\<lambda>m. if m \<in> set ms \<and> \<not> rc_is_leaf ctx m then rc_base_roles ctx m else None)"

definition publish_all :: "role_ctx \<Rightarrow> bool \<Rightarrow> role_map \<Rightarrow> string list \<Rightarrow> (string \<times> record_role_summary list) list" where
  "publish_all ctx capped X = List.map_filter (\<lambda>rid. map_option (\<lambda>roles. (rid, published ctx capped rid roles)) (X rid))"

definition plain_scc :: "role_ctx \<Rightarrow> role_map \<Rightarrow> scc \<Rightarrow> (string \<times> record_role_summary list) list \<times> bool" where
  "plain_scc ctx settled c =
     (if recursive c
      then (let (X, capped) = jacobi_rounds MAX_FIXED_POINT_ITERATIONS ctx (members c) settled (plain_start ctx (members c))
        in (publish_all ctx capped X (members c), capped))
      else (publish_all ctx False (jacobi ctx (take 1 (members c)) settled Map.empty) (take 1 (members c)), False))"

text \<open>The next roles of a member of a component that does not call itself are computed with nothing in progress.\<close>

definition plain_settle :: "role_ctx \<Rightarrow> scc \<Rightarrow> role_map \<Rightarrow> role_map" where
  "plain_settle ctx c settled = settled ++ map_of (rev (fst (plain_scc ctx settled c)))"

definition plain_solve :: "v2_inputs \<Rightarrow> role_inputs \<Rightarrow> scc list \<Rightarrow> role_map" where
  "plain_solve vi ri cs = fold (plain_settle (role_ctx_of vi ri)) cs (last_per_key_pairs (ri_leaf_roles ri))"

lemma publish_all_lookup:
  "distinct ms \<Longrightarrow> map_of (rev (publish_all ctx capped X ms)) m =
     (if m \<in> set ms then map_option (published ctx capped m) (X m) else None)"
proof (induction ms)
  case (Cons x ms)
  then show ?case
    by (cases "X x") (auto simp: publish_all_def List.map_filter_simps map_add_def split: option.split)
qed (simp add: publish_all_def List.map_filter_simps)

lemma jacobi_rounds_named:
  assumes "ctx_ok ctx U" "map_named U settled"
  shows "map_named U X \<Longrightarrow> map_named U (fst (jacobi_rounds n ctx ms settled X))"
proof (induction n arbitrary: X)
  case (Suc n)
  have "roles_named U (next_roles ctx settled X m)" if "computed ctx ms m" for m
    using next_over [OF assms(1) _ Suc.prems assms(2)] that by (simp add: computed_def roles_over_def)
  then have "map_named U (jacobi ctx ms settled X)" using Suc.prems by (auto simp: map_named_def jacobi_def)
  with Suc.IH show ?case by (simp add: Let_def)
qed simp

lemma published_named:
  assumes "ctx_ok ctx U" "roles_named U roles"
  shows "roles_named U (published ctx capped m roles)"
proof -
  have "roles_over U (base_at_id ctx m) (base_at_id ctx m)" using base_ok(2) [OF assms(1)] by (simp add: roles_over_def)
  then have "roles_named U (fixed_roles_on_cap ctx m)"
    unfolding fixed_roles_on_cap_def using dispatch_presence_over by (simp add: roles_over_def)
  with assms(2) show ?thesis
    by (auto simp: published_def roles_named_def role_names_def list_names_def opaque_role_def)
qed

lemma plain_start_named: "ctx_ok ctx U \<Longrightarrow> map_named U (plain_start ctx ms)"
  by (auto simp: map_named_def plain_start_def ctx_ok_def)

lemma plain_settle_named:
  assumes "ctx_ok ctx U" "map_named U settled" "distinct (members c)"
  shows "map_named U (plain_settle ctx c settled)"
proof -
  have named: "map_named U (\<lambda>m. map_of (rev (publish_all ctx capped X ms)) m)" if "map_named U X" "distinct ms" for capped X ms
    using that published_named [OF assms(1)] by (auto simp: map_named_def publish_all_lookup)
  have "roles_named U (next_roles ctx settled Map.empty m)" if "computed ctx ms m" for ms m
    using next_over [OF assms(1) _ _ assms(2), of m Map.empty] that by (simp add: computed_def roles_over_def map_named_def)
  then have one: "map_named U (jacobi ctx ms settled Map.empty)" for ms by (auto simp: map_named_def jacobi_def)
  have "map_named U (map_of (rev (fst (plain_scc ctx settled c))))"
    using named [OF one distinct_take [OF assms(3)]]
      named [OF jacobi_rounds_named [OF assms(1,2) plain_start_named [OF assms(1)]] assms(3)]
    by (simp add: plain_scc_def split_beta Let_def)
  with assms(2) show ?thesis by (auto simp: plain_settle_def map_named_def map_add_def split: option.splits)
qed

section \<open>The solve is the plain solve\<close>

lemma run_one_scc_plain:
  assumes "inj json" "plain_names U" "ctx_ok ctx U" "map_named U settled" "distinct (members c)"
  shows "ro_roles (run_one_scc_roles json ctx settled c) = fst (plain_scc ctx settled c)"
    and "ro_cap_hit (run_one_scc_roles json ctx settled c) = None \<longleftrightarrow> \<not> snd (plain_scc ctx settled c)"
proof -
  let ?ms = "members c"
  have "ro_roles (run_one_scc_roles json ctx settled c) = fst (plain_scc ctx settled c) \<and>
    (ro_cap_hit (run_one_scc_roles json ctx settled c) = None \<longleftrightarrow> \<not> snd (plain_scc ctx settled c))"
  proof (cases "recursive c")
    case True
    from roles_rounds_jacobi [OF assms seeds_inv_roles(1) [OF assms(3)], of MAX_FIXED_POINT_ITERATIONS] obtain st where
      "roles_rounds MAX_FIXED_POINT_ITERATIONS (roles_round json ctx ?ms settled) (roles_seeds json ctx ?ms) =
        (st, snd (jacobi_rounds MAX_FIXED_POINT_ITERATIONS ctx ?ms settled (plain_start ctx ?ms)))"
      "rs_in_progress st = fst (jacobi_rounds MAX_FIXED_POINT_ITERATIONS ctx ?ms settled (plain_start ctx ?ms))"
      unfolding seeds_inv_roles(2) [OF assms(3)] plain_start_def by blast
    with True show ?thesis by (simp add: run_one_scc_roles_def plain_scc_def publish_all_def split_beta Let_def)
  next
    case False
    show ?thesis
    proof (cases ?ms)
      case Nil
      with False show ?thesis by (simp add: run_one_scc_roles_def plain_scc_def publish_all_def List.map_filter_simps converged_def)
    next
      case (Cons m ms)
      with False show ?thesis
        by (cases "rc_routines_by_id ctx m")
          (simp_all add: run_one_scc_roles_def plain_scc_def publish_all_def List.map_filter_simps converged_def published_def
            jacobi_def computed_def next_roles_def)
    qed
  qed
  then show "ro_roles (run_one_scc_roles json ctx settled c) = fst (plain_scc ctx settled c)"
    "ro_cap_hit (run_one_scc_roles json ctx settled c) = None \<longleftrightarrow> \<not> snd (plain_scc ctx settled c)" by simp_all
qed

lemma settle_updates: "fold (\<lambda>(rid, roles) m. m(rid \<mapsto> roles)) out settled = settled ++ map_of (rev out)"
proof (induction out arbitrary: settled)
  case (Cons p out)
  then show ?case by (cases p) (auto simp: fun_eq_iff map_add_def split: option.split)
qed simp

lemma settle_sccs_plain:
  assumes "inj json" "plain_names U" "ctx_ok ctx U" "map_named U settled" "\<forall>c \<in> set cs. distinct (members c)"
  defines "S \<equiv> \<lambda>n. fold (plain_settle ctx) (take n cs) settled"
  shows "fold (settle_scc json ctx) cs (settled, outs) =
      (S (length cs), outs @ map (\<lambda>n. run_one_scc_roles json ctx (S n) (cs ! n)) [0..<length cs])"
    and "\<forall>n. map_named U (S n)"
proof -
  have named: "map_named U (fold (plain_settle ctx) cs settled)" if "map_named U settled" "\<forall>c \<in> set cs. distinct (members c)" for cs settled
    using that by (induction cs arbitrary: settled) (simp_all add: plain_settle_named [OF assms(3)])
  then show "\<forall>n. map_named U (S n)" using assms(4,5) by (auto simp: S_def dest: in_set_takeD)
  show "fold (settle_scc json ctx) cs (settled, outs) =
      (S (length cs), outs @ map (\<lambda>n. run_one_scc_roles json ctx (S n) (cs ! n)) [0..<length cs])"
    using assms(5) unfolding S_def
  proof (induction cs rule: rev_induct)
    case (snoc c cs)
    let ?S = "fold (plain_settle ctx) cs settled"
    have "map_named U ?S" "distinct (members c)" using named assms(4) snoc.prems by simp_all
    from run_one_scc_plain(1) [OF assms(1-3) this]
    have "settle_scc json ctx c (?S, outs') = (plain_settle ctx c ?S, outs' @ [run_one_scc_roles json ctx ?S c])" for outs'
      by (simp add: settle_scc_def settle_updates plain_settle_def Let_def)
    with snoc show ?case by (simp add: nth_append)
  qed simp
qed

section \<open>The equations of a component\<close>

lemma jacobi_rounds_dom: "dom X \<subseteq> set ms \<Longrightarrow> dom (fst (jacobi_rounds n ctx ms settled X)) \<subseteq> set ms"
proof (induction n arbitrary: X)
  case (Suc n)
  have "dom (jacobi ctx ms settled X) \<subseteq> set ms" using Suc.prems by (fastforce simp: jacobi_def computed_def split: if_splits)
  with Suc.IH show ?case by (simp add: Let_def)
qed simp

lemma plain_settle_at:
  assumes "distinct (members c)" "recursive c" "jacobi_rounds MAX_FIXED_POINT_ITERATIONS ctx (members c) settled (plain_start ctx (members c)) = (X, False)"
  shows "plain_settle ctx c settled v = (case X v of Some roles \<Rightarrow> Some roles | None \<Rightarrow> settled v)"
proof -
  have "dom (plain_start ctx (members c)) \<subseteq> set (members c)" by (auto simp: plain_start_def split: if_splits)
  from jacobi_rounds_dom [OF this, of MAX_FIXED_POINT_ITERATIONS ctx settled] assms(3) have "dom X \<subseteq> set (members c)" by simp
  then show ?thesis
    using assms by (cases "X v") (auto simp: plain_settle_def plain_scc_def publish_all_lookup published_def map_add_def)
qed

lemma plain_settle_other: "v \<notin> set (members c) \<Longrightarrow> plain_settle ctx c settled v = settled v"
proof -
  assume v: "v \<notin> set (members c)"
  have "map_of (rev (publish_all ctx capped X ms)) v = None" if "v \<notin> set ms" for capped X ms
    using that by (auto simp: map_of_eq_None_iff publish_all_def set_map_filter)
  moreover have "v \<notin> set (take 1 (members c))" using v in_set_takeD by metis
  ultimately show ?thesis using v by (simp add: plain_settle_def plain_scc_def map_add_def split_beta Let_def)
qed

lemma plain_scc_equation:
  assumes ok: "ctx_ok ctx U" and c: "distinct (members c)" "\<not> snd (plain_scc ctx settled c)"
    and m: "m \<in> set (members c)" "\<not> rc_is_leaf ctx m" "rc_routines_by_id ctx m \<noteq> None"
    and alone: "\<not> recursive c \<Longrightarrow> members c = [m] \<and> m \<notin> ce_to ` set (out_edges (rc_graph ctx) m)"
  shows "plain_settle ctx c settled m = Some (next_roles ctx (plain_settle ctx c settled) Map.empty m)"
proof (cases "recursive c")
  case True
  then obtain X where X: "jacobi_rounds MAX_FIXED_POINT_ITERATIONS ctx (members c) settled (plain_start ctx (members c)) = (X, False)"
    using c(2) by (cases "jacobi_rounds MAX_FIXED_POINT_ITERATIONS ctx (members c) settled (plain_start ctx (members c))")
      (auto simp: plain_scc_def)
  have "X m = Some (next_roles ctx settled X m)"
    using fun_cong [OF jacobi_rounds_fixed [OF X], of m] m by (simp add: jacobi_def computed_def)
  moreover have "next_roles ctx settled X m = next_roles ctx (plain_settle ctx c settled) Map.empty m"
    by (rule next_local [OF ok m(3)]) (simp add: lookup_look_at plain_settle_at [OF c(1) True X])
  ultimately show ?thesis by (simp add: plain_settle_at [OF c(1) True X])
next
  case False
  with alone have one: "members c = [m]" and no_edge: "m \<notin> ce_to ` set (out_edges (rc_graph ctx) m)" by simp_all
  have at: "plain_settle ctx c settled v = (if v = m then Some (next_roles ctx settled Map.empty m) else settled v)" for v
    using False one m by (auto simp: plain_settle_def plain_scc_def publish_all_lookup published_def jacobi_def computed_def map_add_def)
  have "next_roles ctx settled Map.empty m = next_roles ctx (plain_settle ctx c settled) Map.empty m"
    by (rule next_local [OF ok m(3)]) (use no_edge in \<open>auto simp: lookup_look_at at\<close>)
  then show ?thesis by (simp add: at)
qed

section \<open>The workspace\<close>

text \<open>What the theorems ask of a workspace: its components are those of its graph, and its field names are plain.\<close>

definition roles_workspace_ok :: "v2_inputs \<Rightarrow> role_inputs \<Rightarrow> bool" where
  "roles_workspace_ok vi ri \<longleftrightarrow>
     finite (dom (pg_edges_by_from (vi_graph vi))) \<and> graph_scc (vi_graph vi) = Some (vi_scc vi) \<and>
     collided_sites_ok vi \<and> plain_names (workspace_names vi ri)"

lemma roles_components:
  assumes "roles_workspace_ok vi ri"
  obtains raw where "components_ok (whole_graph vi) raw" "sccs (vi_scc vi) = map (component (whole_graph vi)) raw"
proof -
  have "dom (edges_by_from (whole_graph vi)) = dom (pg_edges_by_from (vi_graph vi))" by (auto simp: dom_def)
  then have fin: "finite (dom (edges_by_from (whole_graph vi)))" using assms by (simp add: roles_workspace_ok_def)
  have "tarjan_scc (whole_graph vi) = Some (vi_scc vi)" using assms unfolding roles_workspace_ok_def graph_scc_def by blast
  from tarjan_result_facts [OF fin this] that show thesis by blast
qed

lemma distinct_component: "distinct (members (component g ms)) = distinct ms"
  by (simp add: component_def Let_def)

lemma components_distinct: "components_ok g raw \<Longrightarrow> c \<in> set (map (component g) raw) \<Longrightarrow> distinct (members c)"
  by (auto simp: components_ok_def distinct_component distinct_concat_iff)

lemma leaf_roles_named: "map_named (workspace_names vi ri) (last_per_key_pairs (ri_leaf_roles ri))"
  unfolding map_named_def last_pairs roles_named_def workspace_names_def by (auto dest!: map_of_SomeD)

text \<open>The roles after \<open>n\<close> components.\<close>

abbreviation roles_after :: "v2_inputs \<Rightarrow> role_inputs \<Rightarrow> nat \<Rightarrow> role_map" where
  "roles_after vi ri n \<equiv> plain_solve vi ri (take n (sccs (vi_scc vi)))"

lemma solve_roles_plain:
  assumes "inj json" "roles_workspace_ok vi ri"
  shows "fst (solve_roles json vi ri) = plain_solve vi ri (sccs (vi_scc vi))"
    and "k < length (sccs (vi_scc vi)) \<Longrightarrow> ro_cap_hit (snd (solve_roles json vi ri) ! k) = None \<longleftrightarrow>
      \<not> snd (plain_scc (role_ctx_of vi ri) (roles_after vi ri k) (sccs (vi_scc vi) ! k))"
proof -
  let ?cs = "sccs (vi_scc vi)" and ?ctx = "role_ctx_of vi ri" and ?U = "workspace_names vi ri"
  have ok: "plain_names ?U" "ctx_ok ?ctx ?U" using assms(2) workspace_ctx_ok by (simp_all add: roles_workspace_ok_def)
  obtain raw where "components_ok (whole_graph vi) raw" "?cs = map (component (whole_graph vi)) raw"
    by (rule roles_components [OF assms(2)])
  then have distinct: "\<forall>c \<in> set ?cs. distinct (members c)" using components_distinct by metis
  note plain = settle_sccs_plain [OF assms(1) ok leaf_roles_named distinct, folded plain_solve_def]
  show "fst (solve_roles json vi ri) = plain_solve vi ri ?cs" by (simp add: solve_roles_def plain(1))
  assume k: "k < length ?cs"
  have "map_named ?U (roles_after vi ri k)" using plain(2) by blast
  moreover have "distinct (members (?cs ! k))" using distinct k by simp
  ultimately show "ro_cap_hit (snd (solve_roles json vi ri) ! k) = None \<longleftrightarrow> \<not> snd (plain_scc ?ctx (roles_after vi ri k) (?cs ! k))"
    using run_one_scc_plain(2) [OF assms(1) ok] k by (simp add: solve_roles_def plain(1))
qed

lemma roles_after_Suc:
  "k < length (sccs (vi_scc vi)) \<Longrightarrow>
     roles_after vi ri (Suc k) = plain_settle (role_ctx_of vi ri) (sccs (vi_scc vi) ! k) (roles_after vi ri k)"
  by (simp add: plain_solve_def take_Suc_conv_app_nth)

text \<open>A component is settled once: later components leave its members alone.\<close>

lemma roles_after_kept:
  assumes "components_ok (whole_graph vi) raw" "sccs (vi_scc vi) = map (component (whole_graph vi)) raw"
    and "v \<in> set (concat (take n raw))" "n \<le> k" "k \<le> length raw"
  shows "roles_after vi ri k v = roles_after vi ri n v"
  using assms(4)
proof (induction rule: dec_induct)
  case (step j)
  then have j: "j < length raw" using assms(5) by simp
  have "v \<notin> set (raw ! j)"
  proof
    assume "v \<in> set (raw ! j)"
    moreover have "v \<in> set (concat (take j raw))" using assms(3) step.hyps(1) set_take_subset_set_take [of n j raw] by auto
    moreover have "distinct (concat (take j raw @ raw ! j # drop (Suc j) raw))"
      using assms(1) j by (simp add: components_ok_def id_take_nth_drop [symmetric])
    ultimately show False by auto
  qed
  then have "v \<notin> set (members (sccs (vi_scc vi) ! j))" using assms(2) j by (simp add: members_component)
  from plain_settle_other [OF this] have "roles_after vi ri (Suc j) v = roles_after vi ri j v"
    using roles_after_Suc [of j vi ri] assms(2) j by (metis length_map)
  from trans [OF this step.IH] show ?case .
qed simp

lemma solution_equation:
  assumes "inj json" "roles_workspace_ok vi ri" "k < length (sccs (vi_scc vi))" "ro_cap_hit (snd (solve_roles json vi ri) ! k) = None"
    and m: "m \<in> set (members (sccs (vi_scc vi) ! k))" "\<not> is_leaf vi m" "routines_by_id vi m = Some r"
  shows "fst (solve_roles json vi ri) m =
    Some (member_roles (role_ctx_of vi ri) Map.empty (fst (solve_roles json vi ri)) r (base_at_id (role_ctx_of vi ri) m))"
proof -
  let ?cs = "sccs (vi_scc vi)" and ?ctx = "role_ctx_of vi ri" and ?S = "roles_after vi ri"
  have ok: "ctx_ok ?ctx (workspace_names vi ri)" using assms(2) workspace_ctx_ok by (simp add: roles_workspace_ok_def)
  obtain raw where raw: "components_ok (whole_graph vi) raw" "?cs = map (component (whole_graph vi)) raw"
    by (rule roles_components [OF assms(2)])
  have k: "k < length raw" using assms(3) raw(2) by simp
  have c: "distinct (members (?cs ! k))" "m \<in> set (raw ! k)"
    using components_distinct [OF raw(1), of "?cs ! k"] k m(1) unfolding raw(2) by (simp_all add: members_component)
  have targets: "ce_to ` set (out_edges (vi_graph vi) m) \<subseteq> set (concat (take (Suc k) raw))"
    using raw(1) k c(2) unfolding components_ok_def by (simp add: whole_children)
  have ctx: "rc_graph ?ctx = vi_graph vi" "rc_is_leaf ?ctx = is_leaf vi" "rc_routines_by_id ?ctx = routines_by_id vi"
    by (simp_all add: role_ctx_of_def)
  have alone: "members (?cs ! k) = [m] \<and> m \<notin> ce_to ` set (out_edges (vi_graph vi) m)" if "\<not> recursive (?cs ! k)"
  proof -
    have "length (raw ! k) \<le> 1" using that k unfolding raw(2) by (simp add: component_def Let_def)
    with c(2) have "raw ! k = [m]" by (cases "raw ! k") auto
    with that k show ?thesis unfolding raw(2)
      by (cases "pg_edges_by_from (vi_graph vi) m") (auto simp: component_def first_of_def out_edges_def)
  qed
  have "?S (Suc k) m = Some (next_roles ?ctx (?S (Suc k)) Map.empty m)"
    unfolding roles_after_Suc [OF assms(3)]
    by (rule plain_scc_equation [OF ok c(1)]) (use solve_roles_plain(2) [OF assms(1,2,3)] assms(4) m alone ctx in simp_all)
  moreover have kept: "?S (length raw) v = ?S (Suc k) v" if "v \<in> set (concat (take (Suc k) raw))" for v
    by (rule roles_after_kept [OF raw that]) (use k in simp_all)
  have same: "fst (solve_roles json vi ri) v = ?S (Suc k) v" if "v \<in> set (concat (take (Suc k) raw))" for v
    using kept [OF that] raw(2) unfolding solve_roles_plain(1) [OF assms(1,2)] by simp
  moreover have "m \<in> set (concat (take (Suc k) raw))" using c(2) k unfolding mem_concat_take by blast
  moreover have "next_roles ?ctx (?S (Suc k)) Map.empty m = next_roles ?ctx (fst (solve_roles json vi ri)) Map.empty m"
  proof (rule next_local [OF ok])
    show "rc_routines_by_id ?ctx m \<noteq> None" using m(3) ctx(3) by simp
    have "?S (Suc k) c = fst (solve_roles json vi ri) c" if "c \<in> ce_to ` set (out_edges (vi_graph vi) m)" for c
      using same [of c] targets that by (metis subsetD)
    then show "\<forall>c \<in> ce_to ` set (out_edges (rc_graph ?ctx) m).
        lookup_roles (look_at ?ctx Map.empty (?S (Suc k))) c = lookup_roles (look_at ?ctx Map.empty (fst (solve_roles json vi ri))) c"
      unfolding ctx(1) lookup_look_at by (simp del: set_concat)
  qed
  ultimately show ?thesis by (simp add: next_roles_def ctx m(3))
qed

section \<open>A procedure that calls itself\<close>

definition self_call :: model_routine where
  "self_call = \<lparr> mr_id = ''a'', mr_stable_routine_id = ''a#0'', mr_object_id = ''o'', mr_name = ''A'', mr_kind = ''procedure'', mr_body_available = True,
     mr_parse_incomplete = False,
     mr_record_variables = [\<lparr> mv_id = ''a/rv0'', mv_name = ''Rec'', mv_table_id = Some ''t'', mv_is_parameter = True,
       mv_parameter_index = Some 0, mv_temp_state = \<lparr> pt_kind = ''parameter-dependent'', pt_value = None, pt_parameter_index = Some 0 \<rparr> \<rparr>],
     mr_record_operations = [\<lparr> mo_id = ''a/op0'', mo_op = ''Modify'', mo_record_variable_name = ''Rec'', mo_record_variable_id = Some ''a/rv0'', mo_table_id = Some ''t'',
       mo_temp_state = None, mo_field_arguments = None,
       mo_source_anchor = \<lparr> source_unit_id = ''u'', start_line = 3, start_column = 4, end_line = 3, end_column = 20, syntax_kind = ''call_expression'' \<rparr> \<rparr>],
     mr_parameters = [\<lparr> mp_index = 0, mp_name = ''Rec'', mp_type_text = ''Record T'', mp_is_var = True, mp_is_record = True \<rparr>],
     mr_access_modifier = None,
     mr_call_sites = [\<lparr> mc_id = ''a/cs0'', mc_callee = Bare ''A'', mc_argument_texts = [''Rec''],
       mc_argument_bindings = [\<lparr> ab_parameter_index = 0, ab_source_kind = ''parameter'', ab_source_variable_name = Some ''Rec'',
         ab_source_record_variable_id = Some ''a/rv0'', ab_source_parameter_index = Some 0, ab_caller_source_parameter_is_var = Some True,
         ab_source_temp_state = None \<rparr>],
       mc_source_anchor = \<lparr> source_unit_id = ''u'', start_line = 4, start_column = 4, end_line = 4, end_column = 10, syntax_kind = ''call_expression'' \<rparr>,
       mc_receiver_temp_state = None \<rparr>],
     mr_field_accesses = [], mr_statement_tree = None,
     mr_source_anchor = \<lparr> source_unit_id = ''u'', start_line = 1, start_column = 0, end_line = 9, end_column = 0, syntax_kind = ''procedure'' \<rparr>, mr_assigned_names = [] \<rparr>"

definition self_edge :: combined_edge where
  "self_edge = \<lparr> ce_from = ''a'', ce_to = ''a'', ce_kind = ''direct'', ce_callsite_id = Some ''a/cs0'', ce_operation_id = None, ce_event_id = None,
     ce_subscriber_app_id = None, ce_resolution = ''resolved'', ce_dispatch = None \<rparr>"

definition self_workspace :: v2_inputs where
  "self_workspace = \<lparr> vi_routines = [self_call],
     vi_graph = \<lparr> pg_nodes = [''a''], pg_edges_by_from = [''a'' \<mapsto> [self_edge]], pg_edges_from_order = [''a''],
       pg_uncertainty_edges = [], pg_collided_site_callee = Map.empty \<rparr>,
     vi_scc = \<lparr> sccs = [\<lparr> members = [''a''], recursive = True \<rparr>], scc_id_by_routine = [''a'' \<mapsto> 0] \<rparr>,
     vi_leaves = [] \<rparr>"

definition self_role_inputs :: role_inputs where
  "self_role_inputs = \<lparr> ri_upgraded = [''a/cs0'' \<mapsto> [\<lparr> ub_parameter_index = 0, ub_callee_parameter_is_var = True, ub_binding_resolution = ''resolved'' \<rparr>]],
     ri_fields = Map.empty, ri_leaf_roles = [], ri_fixed_roles = {}, ri_edge_order = [''a''] \<rparr>"

lemma self_ok: "roles_workspace_ok self_workspace self_role_inputs"
  by (simp add: roles_workspace_ok_def graph_scc_def self_workspace_def self_edge_def self_call_def self_role_inputs_def
      tarjan_scc_def tarjan_run start_state_def component_def number_members_def collided_sites_ok_def plain_names_def
      workspace_names_def routine_names_def)

lemma self_cap: "map ro_cap_hit (snd (solve_roles id self_workspace self_role_inputs)) = [None]"
  by code_simp

section \<open>The claims\<close>

text \<open>Which components the plain solve leaves at the cap.\<close>

definition plain_capped :: "v2_inputs \<Rightarrow> role_inputs \<Rightarrow> bool list" where
  "plain_capped vi ri =
     map (\<lambda>k. snd (plain_scc (role_ctx_of vi ri) (roles_after vi ri k) (sccs (vi_scc vi) ! k))) [0..<length (sccs (vi_scc vi))]"

lemma solve_roles_length: "length (snd (solve_roles json vi ri)) = length (sccs (vi_scc vi))"
proof -
  have "length (snd (fold (settle_scc json ctx) cs p)) = length (snd p) + length cs" for ctx cs p
    by (induction cs arbitrary: p) (simp_all add: settle_scc_def split_beta Let_def)
  then show ?thesis by (simp add: solve_roles_def)
qed

lemma solve_roles_flags:
  assumes "inj json" "roles_workspace_ok vi ri"
  shows "map (\<lambda>out. ro_cap_hit out \<noteq> None) (snd (solve_roles json vi ri)) = plain_capped vi ri"
  by (rule nth_equalityI) (use solve_roles_plain(2) [OF assms] in \<open>simp_all add: plain_capped_def solve_roles_length del: not_None_eq\<close>)

text \<open>
  Property C2. The dirty frontier and the change keys of the roles fixpoint do not show: the solve that
  recomputes only the members a callee of which changed, and tells change by the written key of the
  roles, settles every routine with the roles, and stops at the cap in the same components, as the
  solve that recomputes every member in every round and compares the roles themselves. \<open>json\<close> writes
  different strings differently, and field names are not empty, have no comma and are not one of the
  two sentinels of the key.
\<close>

theorem dirty_frontier_does_not_show:
  assumes "inj json" "roles_workspace_ok vi ri"
  shows "fst (solve_roles json vi ri) = plain_solve vi ri (sccs (vi_scc vi)) \<and>
    map (\<lambda>out. ro_cap_hit out \<noteq> None) (snd (solve_roles json vi ri)) = plain_capped vi ri"
  using solve_roles_plain(1) [OF assms] solve_roles_flags [OF assms] by (rule conjI)

text \<open>
  Property C4. The published roles solve their equations: when the component of a recomputed routine
  ended below the cap of rounds, the routine's roles are those composed from its body, the final roles
  of the leaves, of the components before its own and of its own component, and its event dispatches.
  So the snapshots and the rounds leave no trace in the result.
\<close>

theorem settled_roles_solve_their_equations:
  assumes "inj json" "roles_workspace_ok vi ri"
    and "k < length (sccs (vi_scc vi))" "ro_cap_hit (snd (solve_roles json vi ri) ! k) = None"
    and "m \<in> set (members (sccs (vi_scc vi) ! k))" "is_recomputed vi m" "routines_by_id vi m = Some r"
  shows "fst (solve_roles json vi ri) m =
    Some (member_roles (role_ctx_of vi ri) Map.empty (fst (solve_roles json vi ri)) r (base_at_id (role_ctx_of vi ri) m))"
  using assms(6) solution_equation [OF assms(1-5) _ assms(7)] unfolding is_recomputed_def by blast

theorem dirty_frontier_does_not_show_witness:
  "fst (solve_roles id self_workspace self_role_inputs) = plain_solve self_workspace self_role_inputs (sccs (vi_scc self_workspace)) \<and>
   map (\<lambda>out. ro_cap_hit out \<noteq> None) (snd (solve_roles id self_workspace self_role_inputs)) = plain_capped self_workspace self_role_inputs"
  by (rule dirty_frontier_does_not_show [OF _ self_ok]) simp

lemma self_parts:
  "sccs (vi_scc self_workspace) = [\<lparr> members = [''a''], recursive = True \<rparr>]" "routines_by_id self_workspace ''a'' = Some self_call"
  "is_recomputed self_workspace ''a''"
  by (simp_all add: self_workspace_def is_recomputed_def routines_by_id_def last_per_id_def index_rows_def take_row_def self_call_def)

theorem settled_roles_solve_their_equations_witness:
  "fst (solve_roles id self_workspace self_role_inputs) ''a'' =
     Some (member_roles (role_ctx_of self_workspace self_role_inputs) Map.empty (fst (solve_roles id self_workspace self_role_inputs))
       self_call (base_at_id (role_ctx_of self_workspace self_role_inputs) ''a''))"
proof (rule settled_roles_solve_their_equations [OF _ self_ok, where k = 0])
  have "length (snd (solve_roles id self_workspace self_role_inputs)) = 1" by (simp add: solve_roles_length self_parts)
  with self_cap show "ro_cap_hit (snd (solve_roles id self_workspace self_role_inputs) ! 0) = None"
    by (cases "snd (solve_roles id self_workspace self_role_inputs)") auto
qed (simp_all add: self_parts)

end
