(* ===== verification/Spec2Isabelle.thy ===== *)
theory Spec2Isabelle
  imports Operation_Order Budget Param_Guard Event_Dispatch Policy_Engine Solve_Limits Role_Solution
begin

text \<open>
  Verification of al-sem, a semantic analyser of Business Central AL programs.

  \<^bold>\<open>The program.\<close> The analyser lowers each AL routine to a control-flow skeleton and a list of
  feature records (call sites, operations, record variables), resolves the calls between routines to
  a graph, and solves on that graph what each routine may do to the database. Everything above
  (detectors, digests, policies, the gate) reads the solved rows. The development follows the data
  from the skeleton to the verdict of a policy. Paths below are under \<open>src/src/\<close>.

  \<^bold>\<open>Layer 1, the body of a routine\<close> (\<open>program/body\<close>).
  \<^item> \<open>Cfn\<close>: the skeleton (\<open>features.rs\<close>) as a datatype, with a big-step execution relation over it.
    The relation is the specification of the walkers: it is not code of the program, and the
    properties of the layer say what a walker's answer promises about executions.
  \<^item> \<open>Control_Flow\<close>: branch termination (\<open>control_flow.rs\<close>). \<open>Features\<close>: the feature records.
  \<^item> \<open>Control_Context\<close>: the lattice of contexts and the classification of sites
    (\<open>control_context.rs\<close>); \<open>Operation_Order\<close>: numbering, frames and success-path flags
    (\<open>operation_order.rs\<close>). The two walks are proved to agree on error-path membership.

  \<^bold>\<open>Layer 2, the effect solver's data\<close> (\<open>engine/l4\<close>).
  \<^item> \<open>Effect_Lattice\<close> (\<open>effect_lattice.rs\<close>): presence, identity keys, the precedence of vias.
  \<^item> \<open>Interner\<close>: the interface of an id table, as locales, and the routine interner
    (\<open>routine_interner.rs\<close>); \<open>Effect_Universe\<close> (\<open>effect_universe.rs\<close>): the table of effects and its
    freeze, an interpretation of the same locales.
  \<^item> \<open>Effect_Bits\<close>, \<open>Effect_Store\<close>, \<open>Effect_Bundle\<close> (\<open>effect_store.rs\<close>): bitsets over 64-bit words,
    the hash-consed arena, the bundle of frozen summaries and its projection.
  \<^item> \<open>Scc\<close> (\<open>scc.rs\<close>): Tarjan's algorithm with an explicit stack.
  \<^item> \<open>Model_Routine\<close> (\<open>program/model/workspace.rs\<close>, \<open>program/model/event_param_temp.rs\<close>): the rows a
    solve reads; \<open>Param_Guard\<close> (\<open>param_guard.rs\<close>): constant-argument guards of frames;
    \<open>Event_Dispatch\<close> (\<open>event_dispatch.rs\<close>, \<open>combined_graph.rs\<close>): subscriber bindings and the
    interleavings of an exact dispatch.
  \<^item> \<open>Combined_Graph\<close> (\<open>combined_graph.rs\<close>): the graph of the solve. \<open>Summary\<close> (\<open>summary.rs\<close>): temp
    states, uncertainties and their keyed deduplication. \<open>Temp_Binding\<close> (\<open>summary_runner.rs\<close>): the
    temp state a parameter of the callee has in the frame of the caller, exactly that of what binds it
    there, and the summary of a body.
    \<open>Projection\<close> (\<open>program/model/projection.rs\<close>): what is read when several rows share an id.
  \<^item> \<open>Joined_Key\<close> (\<open>engine/joined_key.rs\<close>), \<open>Declaring\<close> (\<open>program/model/declaring.rs\<close>),
    \<open>Capability_Facts\<close> and \<open>Inherited_Facts\<close> (\<open>inherited_facts.rs\<close>, fact records of
    \<open>capability_cone.rs\<close>): the store of inherited capabilities.

  \<^bold>\<open>Layer 2, the solve\<close> (\<open>engine/l4/db_effect_solver.rs\<close>, \<open>summary_runner.rs\<close>).
  \<^item> \<open>Pd_Reach\<close>: the pieces of a component and the product worklist of parameter-dependent effects,
    an interpretation of the worklist contract of \<open>Worklist\<close>.
  \<^item> \<open>Effect_Union\<close>: the passes of a component (union, ways, rows, leaves). \<open>Effect_Flow\<close> states the
    specification: an inductive relation, the least solution over the call graph, of what may affect
    a routine. \<open>Effect_Ways\<close> and \<open>Effect_Rows\<close> prove the ways and the rows of a component exact.
  \<^item> \<open>Side_Facts\<close>: uncertainties and unresolved calls, with an inductive specification of their own.
  \<^item> \<open>Effect_Solve\<close>: the driver (\<open>solve_v2\<close>), from the rows of a workspace to the frozen bundle.
    \<open>Solve_Exact\<close> carries the exactness of components over the loop: the components come callees
    first (\<open>Scc\<close>), so every component finds its callees settled. \<open>Solve_Bundle\<close> ends in what a consumer
    reads: the projected effects of a routine are the least solution, in key order, each with the way the
    code ranks highest, whatever the hash orders - for a workspace whose row and leaf ids are distinct,
    in which no component reaches the cap of its role rounds. \<open>Solve_Limits\<close>: bounds of ids and columns, the end of the worklist, and what rows that
    share an id lose.

  \<^bold>\<open>Layer 2, record parameters\<close> (\<open>engine/l4/cfg_walker.rs\<close>): what a routine needs of, and does to, a record it is given.
  \<^item> \<open>Role_State\<close>: the roles of a parameter, the state of a walk with its joins, and the transfers of
    operations, field reads, calls and event dispatches. \<open>Role_Relations\<close>: a contract of relations
    between states that the transfers keep, with seven interpretations (the order of states among them).
  \<^item> \<open>Cfg_Walker\<close>: the walk, its collectors threaded as the code threads them. \<open>Walk_Flow\<close> shows it
    equal to a walk that only returns what it adds to them, and \<open>Walk_Settles\<close> that its bounded loops
    settle: the three rounds of \<open>LOOP_BOUND\<close> always suffice.
  \<^item> \<open>Walk_Paths\<close>: the paths through a skeleton, as an inductive relation that yields the accesses a
    path makes; \<open>Walk_Facts\<close>: the facts of a parameter cover every path through a plain body that is
    not nested deeper than the 33 levels of the walk, and two shapes of body whose paths they miss;
    and they depend on the bare skeleton only, on none of its hints and guards.
    Plain excludes a loop without a body, a range of a \<open>for\<close> that accesses the record (it runs once,
    the walk repeats it), an alternative of a ternary and \<open>asserterror\<close>.

  \<^bold>\<open>Layer 2, the roles of a workspace\<close> (\<open>engine/l4/summary_runner.rs\<close>).
  \<^item> \<open>Role_Compose\<close>: the roles a body gives, the roles of its callees and event subscribers folded in,
    the facts of the walk, and the key by which a round tells change (\<open>summary.rs\<close>). \<open>Role_Solve\<close>:
    the fixpoint of a component (\<open>run_one_scc_roles\<close>: seeds, dirty members, rounds, cap, opaque roles)
    and the loop over the components.
  \<^item> \<open>Role_Local\<close>: the roles of a routine depend on the roles of its callees only, and these are
    targets of its edges, so the solver's dependents miss no one. \<open>Role_Names\<close>: a contract of state
    properties that the walk keeps, interpreted on the field names of a state; names without a comma
    make the change key faithful.
  \<^item> \<open>Role_Fixpoint\<close>: a round over the dirty members is a round over all members (the invariant: a
    member that is not dirty has its next roles). \<open>Role_Settled\<close>: what the rows and the graph of a workspace guarantee.
    \<open>Role_Solution\<close>: the solve is the plain Jacobi solve, and its result solves the equations of
    the components below the cap.

  \<^bold>\<open>Layer 3, policies\<close> (\<open>engine/gate/policy\<close>).
  \<^item> \<open>Predicate_Fields\<close>, \<open>Predicate_Eval\<close>: the field registry and three-valued evaluation;
    \<open>Policy_Compile\<close>: YAML values to typed predicates; \<open>Policy_Loader\<close>: the document;
    \<open>Policy_Engine\<close>: rules over routines, verdicts, counters and findings.

  \<^bold>\<open>The resident session\<close> (\<open>engine/resident\<close>). \<open>Budget\<close>: the memory budget (\<open>budget.rs\<close>) as a
  transition system over its shared counters; a step is a critical section of the code.

  \<^bold>\<open>Shared material.\<close> \<open>Prelude\<close> holds the integer types, saturating arithmetic and slice helpers, and
  the collections of simplification rules; \<open>List_Facts\<close> holds facts on lists and separators;
  \<open>Fallible\<close> folds and loops whose body may panic; \<open>Worklist\<close> the contract of a worklist.

  \<^bold>\<open>How the code is read.\<close> A struct is a record, an enum a datatype. Identifiers of width 32 and 64
  are words where a bound or a wrap-around is part of a statement, and naturals where the code uses
  them as indices. A panic (an \<open>expect\<close>, an out-of-range index, an overflow the build checks) is the
  value \<open>None\<close> of the definition that may panic, so that "never panics" is a theorem. A hash map is a
  partial map, and an ordered map an ascending association list; where the iteration order of a hash
  map could show, the definition takes the order as an argument and the property quantifies over it.
  Third-party code (the YAML reader, the hasher) is a parameter.
  Three readings are narrower or wider than Rust's: lower case and trimming of strings are those of ASCII,
  where the code uses Unicode's in places; counters of the budget's state and lengths that stay small are naturals, where the
  code has 64-bit integers (byte sums are words); and the number \<open>2 ^ n\<close> of subsets of an exact dispatch is a natural, where
  the code shifts a 64-bit one by \<open>n\<close>, which is at most four.

  \<^bold>\<open>Loops.\<close> Structural loops are \<open>fun\<close>; the others have a measure (the byte comparison and the
  scans of a word), or are \<open>while_option\<close> so that ending is a theorem (the stack machine of \<open>Scc\<close>:
  every node is entered once and every edge visited once; the worklist of \<open>Pd_Reach\<close>: its states
  lie in a finite product). No definition has an arbitrary fuel: the walk of \<open>Cfg_Walker\<close> counts down
  the depth budget of the code, its loops the code's own rounds, and the roles fixpoint of \<open>Role_Solve\<close>
  the code's cap of 1000 rounds.

  \<^bold>\<open>Not modelled.\<close> The parser and lowering (foreign and generated code), the resolution of names,
  reading packages and caches, the protocol servers and processes, and output formats. Of the solve,
  the solve seeded from an earlier one is left out, with its cancellation, counters and diagnostics;
  nothing is claimed of whether the rounds of the roles converge (their transfer is not monotone, which
  is why the code has a cap). Not modelled either: the
  fixed points of the capability cone, the queries and detectors above the summaries, and the
  comparison of two solves.
\<close>

end
